(* ===== verification/JPrelude.thy ===== *)
theory JPrelude
  imports Main "HOL-Library.Word" "HOL-Library.Multiset"
begin

text \<open>
  The prelude of the development: type names for the machine integers of the C++ sources, the
  collections of rewrite rules the component theories fill, reachability of step relations with
  the locale of inductive invariants that every concurrent component interprets, and the list,
  map and word lemmas that several components use.
\<close>

unbundle bit_operations_syntax

section \<open>Names for the machine types\<close>

type_synonym u8 = "8 word"
type_synonym u16 = "16 word"
type_synonym u32 = "32 word"
type_synonym u64 = "64 word"

text \<open>A pointer to an object of a pool, \<open>None\<close> for the null pointer.\<close>

type_synonym ptr = "nat option"

named_theorems model_defs \<open>definitions of the sources' small helper functions\<close>
named_theorems inv_defs \<open>definitions of the component invariants\<close>

section \<open>Reachability\<close>

inductive reach :: "('s \<Rightarrow> 's \<Rightarrow> bool) \<Rightarrow> 's \<Rightarrow> 's \<Rightarrow> bool" for step :: "'s \<Rightarrow> 's \<Rightarrow> bool" and s0 :: 's where
  reach_init: "reach step s0 s0"
| reach_step: "reach step s0 s \<Longrightarrow> step s t \<Longrightarrow> reach step s0 t"

locale transition_system =
  fixes step :: "'s \<Rightarrow> 's \<Rightarrow> bool"
    and inv :: "'s \<Rightarrow> bool"
  assumes step_inv: "inv s \<Longrightarrow> step s t \<Longrightarrow> inv t"
begin

lemma reach_inv: "reach step s0 s \<Longrightarrow> inv s0 \<Longrightarrow> inv s"
  by (induction rule: reach.induct) (auto intro: step_inv)

lemma reach_inv_step: "reach step s0 s \<Longrightarrow> inv s0 \<Longrightarrow> step s t \<Longrightarrow> inv s \<and> inv t"
  by (blast intro: reach_inv step_inv)

end

lemma reach_one: "step s t \<Longrightarrow> reach step s t"
  by (rule reach.reach_step [OF reach.reach_init])

lemma reach_trans: "reach step s t \<Longrightarrow> reach step r s \<Longrightarrow> reach step r t"
  by (induction rule: reach.induct) (auto intro: reach.intros)

section \<open>Lists\<close>

lemma filter_notin_id: "x \<notin> set xs \<Longrightarrow> filter (\<lambda>y. y \<noteq> x) xs = xs"
  by (induction xs) auto

lemma filter_eq_remove1: "distinct xs \<Longrightarrow> filter (\<lambda>y. y \<noteq> x) xs = remove1 x xs"
  by (induction xs) (auto simp: filter_notin_id)

lemma mset_filter_partition:
  "mset (filter P xs) + mset (filter (\<lambda>x. \<not> P x) xs) = mset xs"
  by (induction xs) auto

lemma map_upt_shift: "map f [Suc a..<Suc b] = map (\<lambda>i. f (Suc i)) [a..<b]"
  by (simp add: map_Suc_upt [symmetric] comp_def del: upt_Suc map_Suc_upt)

lemma upt_snoc: "a \<le> b \<Longrightarrow> [a..<Suc b] = [a..<b] @ [b]"
  by simp

text \<open>The program points of several threads: what one thread's move does to a sum, and how many threads are at certain points.\<close>

lemma sum_pcs_update:
  fixes f :: "'p \<Rightarrow> 'a :: comm_monoid_add"
  shows "i < length ps \<Longrightarrow> sum_list (map f (ps[i := p])) + f (ps ! i) = sum_list (map f ps) + f p"
proof (induction ps arbitrary: i)
  case (Cons q ps)
  then show ?case by (cases i) (auto simp: algebra_simps)
qed simp

definition bool_count :: "('p \<Rightarrow> bool) \<Rightarrow> 'p list \<Rightarrow> nat" where
  "bool_count P ps = sum_list (map (\<lambda>p. if P p then 1 else 0) ps)"

lemma bool_count_update:
  assumes "i < length ps"
  shows "bool_count P (ps[i := p]) + (if P (ps ! i) then 1 else 0) = bool_count P ps + (if P p then 1 else 0)"
  using sum_pcs_update [OF assms, of "\<lambda>p. if P p then (1 :: nat) else 0" p] by (simp add: bool_count_def)

lemma bool_count_0: "bool_count P ps = 0 \<longleftrightarrow> (\<forall>p \<in> set ps. \<not> P p)"
  by (induction ps) (auto simp: bool_count_def)

lemma bool_count_pos: "i < length ps \<Longrightarrow> P (ps ! i) \<Longrightarrow> 0 < bool_count P ps"
  using bool_count_0 [of P ps] nth_mem [of i ps] by (metis gr0I)

section \<open>Linked chains in a store\<close>

text \<open>
  \<open>chain nx p xs q\<close>: following the link field \<open>nx\<close> from the pointer \<open>p\<close> visits exactly the
  nodes \<open>xs\<close> and ends at the pointer \<open>q\<close>.
\<close>

primrec chain :: "('a \<Rightarrow> 'a option) \<Rightarrow> 'a option \<Rightarrow> 'a list \<Rightarrow> 'a option \<Rightarrow> bool" where
  "chain nx p [] q \<longleftrightarrow> p = q"
| "chain nx p (x # xs) q \<longleftrightarrow> p = Some x \<and> chain nx (nx x) xs q"

lemma chain_append: "chain nx p (xs @ ys) q \<longleftrightarrow> (\<exists>r. chain nx p xs r \<and> chain nx r ys q)"
  by (induction xs arbitrary: p) auto

lemma chain_upd_notin [simp]: "a \<notin> set xs \<Longrightarrow> chain (nx(a := v)) p xs q \<longleftrightarrow> chain nx p xs q"
  by (induction xs arbitrary: p) auto

lemma chain_cong: "\<forall>x \<in> set xs. nx' x = nx x \<Longrightarrow> chain nx' p xs q \<longleftrightarrow> chain nx p xs q"
  by (induction xs arbitrary: p) auto

lemma chain_frame:
  "chain nx p xs q \<Longrightarrow> \<forall>y. y \<notin> S \<longrightarrow> nx' y = nx y \<Longrightarrow> set xs \<inter> S = {} \<Longrightarrow> chain nx' p xs q"
  by (induction xs arbitrary: p) auto

lemma chain_set_last:
  assumes "chain nx p xs q" "xs \<noteq> []" "distinct xs"
  shows "chain (nx(last xs := r)) p xs r"
proof -
  obtain ys y where xs: "xs = ys @ [y]" using assms(2) by (metis append_butlast_last_id)
  then show ?thesis using assms(1,3) by (auto simp: chain_append)
qed

lemma chain_relink:
  assumes "chain nx p xs q" "xs \<noteq> []" "distinct xs" "chain nx r ys e" "last xs \<notin> set ys"
  shows "chain (nx(last xs := r)) p (xs @ ys) e"
  using chain_set_last [OF assms(1-3), of r] assms(4,5) by (auto simp: chain_append)

lemma chain_None_iff: "chain nx None xs q \<longleftrightarrow> xs = [] \<and> q = None"
  by (cases xs) auto

lemma chain_unique: "chain nx p xs None \<Longrightarrow> chain nx p ys None \<Longrightarrow> xs = ys"
proof (induction xs arbitrary: p ys)
  case Nil
  then show ?case by (cases ys) auto
next
  case (Cons x xs)
  then show ?case by (cases ys) auto
qed

lemma chain_empty_iff: "chain nx p xs None \<Longrightarrow> xs = [] \<longleftrightarrow> p = None"
  by (cases xs) auto

section \<open>Bits and masks\<close>

lemma and_mask_nat: "(a::nat) AND (2 ^ k - 1) = a mod 2 ^ k"
  by (metis mask_eq_exp_minus_1 take_bit_eq_mask take_bit_eq_mod)

lemma unat_of_nat32: "n < 2 ^ 32 \<Longrightarrow> unat (of_nat n :: u32) = n"
  by (simp add: unsigned_of_nat take_bit_nat_eq_self)

lemma of_nat_unat_word: "of_nat (unat w) = (w :: 'a::len word)"
  by simp

lemma below_next_multiple: "0 < g \<Longrightarrow> (c::int) < (c div g + 1) * g"
proof -
  assume g: "0 < g"
  have "(c div g + 1) * g = g * (c div g) + g" by (simp add: algebra_simps)
  then show ?thesis using mult_div_mod_eq [of g c] pos_mod_bound [OF g, of c] by linarith
qed

lemma mod_neq_of_close:
  fixes i j c :: nat
  assumes "i < j" and "j < i + c"
  shows "i mod c \<noteq> j mod c"
proof
  assume "i mod c = j mod c"
  then have "c dvd j - i"
    using assms(1) mod_eq_dvd_iff_nat [of i j c] by (simp add: less_imp_le)
  moreover have "0 < j - i" and "j - i < c" using assms by auto
  ultimately show False using nat_dvd_not_less by blast
qed

end
