(* ===== verification/CancelTokens.thy ===== *)
theory CancelTokens
  imports JPrelude
begin

text \<open>
  Cancellation scopes and tokens (\<^verbatim>\<open>include/CancelToken.h\<close>, \<^verbatim>\<open>src/CancelToken.cpp\<close>): a fixed table
  of 65535 slots with a versioned free stack, 32-bit tokens that pack a 16-bit generation and a slot
  index, and the two bounded walks \<open>Cancelled\<close> and \<open>IsWithin\<close> along the parent links. The atomic
  compare-exchange loops are modelled by their successful iteration: every operation below is the
  state change at its linearization point.
\<close>

unbundle bit_operations_syntax

section \<open>Data\<close>

record cancel_slot =
  cs_state :: u64
  cs_parent :: u32
  cs_nextFree :: u32

record cancel_table =
  ct_slots :: "nat \<Rightarrow> cancel_slot"
  ct_freeHead :: u64

definition kCancelledBit :: u64 where "kCancelledBit = 1"

definition GenOf :: "u64 \<Rightarrow> u32" where
  "GenOf s = ucast (drop_bit 32 s) AND 0xFFFF"

definition CancelledIn :: "u64 \<Rightarrow> bool" where
  "CancelledIn s \<longleftrightarrow> s AND kCancelledBit \<noteq> 0"

definition kCancelSlots :: nat where "kCancelSlots = 65535"
definition kMaxScopeDepth :: nat where "kMaxScopeDepth = 8"
definition kNone :: u32 where "kNone = 0xFFFFFFFF"

definition token_index :: "u32 \<Rightarrow> nat" where "token_index raw = unat (raw AND 0xFFFF)"
definition token_gen :: "u32 \<Rightarrow> u32" where "token_gen raw = drop_bit 16 raw"

definition CancelToken_Valid :: "u32 \<Rightarrow> bool" where
  "CancelToken_Valid raw \<longleftrightarrow> raw \<noteq> kNone"

section \<open>The two walks along the parent links\<close>

fun Cancelled_walk :: "nat \<Rightarrow> cancel_table \<Rightarrow> u32 \<Rightarrow> bool" where
  "Cancelled_walk 0 t raw = False"
| "Cancelled_walk (Suc depth) t raw =
    (if raw = kNone then False
     else if kCancelSlots \<le> token_index raw then False
     else (let s = ct_slots t (token_index raw) in
       if GenOf (cs_state s) \<noteq> token_gen raw then False
       else if CancelledIn (cs_state s) then True
       else Cancelled_walk depth t (cs_parent s)))"

definition CancelToken_Cancelled :: "cancel_table \<Rightarrow> u32 \<Rightarrow> bool" where
  "CancelToken_Cancelled t raw = Cancelled_walk kMaxScopeDepth t raw"

fun IsWithin_walk :: "nat \<Rightarrow> cancel_table \<Rightarrow> u32 \<Rightarrow> u32 \<Rightarrow> bool" where
  "IsWithin_walk 0 t anc raw = False"
| "IsWithin_walk (Suc depth) t anc raw =
    (if raw = kNone then False
     else if raw = anc then True
     else if kCancelSlots \<le> token_index raw then False
     else (let s = ct_slots t (token_index raw) in
       if GenOf (cs_state s) \<noteq> token_gen raw then False
       else IsWithin_walk depth t anc (cs_parent s)))"

definition CancelToken_IsWithin :: "cancel_table \<Rightarrow> u32 \<Rightarrow> u32 \<Rightarrow> bool" where
  "CancelToken_IsWithin t raw ancestor =
    (if \<not> CancelToken_Valid ancestor then False else IsWithin_walk kMaxScopeDepth t ancestor raw)"

section \<open>The slot table and its free stack\<close>

definition CancelSlotTable :: "nat \<Rightarrow> cancel_slot" where
  "CancelSlotTable i =
    \<lparr>cs_state = 0, cs_parent = 0xFFFFFFFF,
     cs_nextFree = (if i = kCancelSlots - 1 then 0 else of_nat (i + 2))\<rparr>"

definition cancel_init :: cancel_table where
  "cancel_init = \<lparr>ct_slots = CancelSlotTable, ct_freeHead = 1\<rparr>"

definition kIndexMask :: u64 where "kIndexMask = 0xFFFFFFFF"

definition bump_head :: "u64 \<Rightarrow> u32 \<Rightarrow> u64" where
  "bump_head head next = push_bit 32 (drop_bit 32 head + 1) OR ucast next"

definition AcquireSlot :: "cancel_table \<Rightarrow> u32 \<times> cancel_table" where
  "AcquireSlot t =
    (let head = ct_freeHead t; idx = (ucast (head AND kIndexMask) :: u32) in
     if idx = 0 then (0xFFFFFFFF, t)
     else (let next = cs_nextFree (ct_slots t (unat (idx - 1))) in
       (idx - 1, t\<lparr>ct_freeHead := bump_head head next\<rparr>)))"

definition ReleaseSlot :: "nat \<Rightarrow> cancel_table \<Rightarrow> cancel_table" where
  "ReleaseSlot index t =
    (let head = ct_freeHead t in
     t\<lparr>ct_slots := (ct_slots t)(index := (ct_slots t index)\<lparr>cs_nextFree := ucast (head AND kIndexMask)\<rparr>),
       ct_freeHead := bump_head head (of_nat (index + 1))\<rparr>)"

definition ResolveCancelSlot :: "cancel_table \<Rightarrow> u32 \<Rightarrow> nat option" where
  "ResolveCancelSlot t raw =
    (if kCancelSlots \<le> token_index raw then None
     else if GenOf (cs_state (ct_slots t (token_index raw))) \<noteq> token_gen raw then None
     else Some (token_index raw))"

section \<open>Scopes\<close>

definition set_parent :: "nat \<Rightarrow> u32 \<Rightarrow> cancel_table \<Rightarrow> cancel_table" where
  "set_parent i p t = t\<lparr>ct_slots := (ct_slots t)(i := (ct_slots t i)\<lparr>cs_parent := p\<rparr>)\<rparr>"

definition set_state :: "nat \<Rightarrow> u64 \<Rightarrow> cancel_table \<Rightarrow> cancel_table" where
  "set_state i st t = t\<lparr>ct_slots := (ct_slots t)(i := (ct_slots t i)\<lparr>cs_state := st\<rparr>)\<rparr>"

definition CancelScope_new :: "cancel_table \<Rightarrow> u32 \<times> cancel_table" where
  "CancelScope_new t =
    (case AcquireSlot t of (i, t1) \<Rightarrow>
      if i = 0xFFFFFFFF then (kNone, t1)
      else (let t2 = set_parent (unat i) kNone t1;
                gen = GenOf (cs_state (ct_slots t2 (unat i))) in
        (push_bit 16 gen OR i, t2)))"

definition CancelScope_new_child :: "u32 \<Rightarrow> cancel_table \<Rightarrow> u32 \<times> cancel_table" where
  "CancelScope_new_child parent t =
    (case AcquireSlot t of (i, t1) \<Rightarrow>
      if i = 0xFFFFFFFF then (kNone, t1)
      else (let t2 = set_parent (unat i)
                       (if ResolveCancelSlot t1 parent \<noteq> None then parent else kNone) t1;
                gen = GenOf (cs_state (ct_slots t2 (unat i))) in
        (push_bit 16 gen OR i, t2)))"

definition next_generation :: "u64 \<Rightarrow> u64" where
  "next_generation st = push_bit 32 (ucast ((ucast (drop_bit 32 st) :: u32) + 1))"

definition CancelScope_destroy :: "u32 \<Rightarrow> cancel_table \<Rightarrow> cancel_table" where
  "CancelScope_destroy raw t =
    (if raw = kNone then t
     else (let i = token_index raw;
               t1 = set_state i (next_generation (cs_state (ct_slots t i))) t;
               t2 = set_parent i kNone t1 in
       ReleaseSlot i t2))"

definition CancelScope_Cancel :: "u32 \<Rightarrow> cancel_table \<Rightarrow> cancel_table" where
  "CancelScope_Cancel raw t =
    (if raw = kNone then t
     else (let i = token_index raw in
       set_state i (cs_state (ct_slots t i) OR kCancelledBit) t))"

definition CancelVia :: "u32 \<Rightarrow> cancel_table \<Rightarrow> bool \<times> cancel_table" where
  "CancelVia raw t =
    (if raw = kNone then (False, t)
     else if kCancelSlots \<le> token_index raw then (False, t)
     else (let i = token_index raw; st = cs_state (ct_slots t i) in
       if GenOf st \<noteq> token_gen raw then (False, t)
       else if CancelledIn st then (True, t)
       else (True, set_state i (st OR kCancelledBit) t)))"

section \<open>The invariant of the free stack\<close>

definition free_next :: "cancel_table \<Rightarrow> nat \<Rightarrow> nat option" where
  "free_next t i = (let n = cs_nextFree (ct_slots t i) in if n = 0 then None else Some (unat n - 1))"

definition free_top :: "cancel_table \<Rightarrow> nat option" where
  "free_top t = (let n = (ucast (ct_freeHead t AND kIndexMask) :: u32) in
                 if n = 0 then None else Some (unat n - 1))"

definition cancel_free :: "cancel_table \<Rightarrow> nat list \<Rightarrow> bool" where
  [inv_defs]: "cancel_free t fs \<longleftrightarrow>
    chain (free_next t) (free_top t) fs None \<and> distinct fs \<and> set fs \<subseteq> {..<kCancelSlots} \<and>
    (\<forall>i \<in> set fs. \<not> CancelledIn (cs_state (ct_slots t i)))"

text \<open>A token that names a live slot of the table: its scope has not been destroyed.\<close>

definition live_token :: "cancel_table \<Rightarrow> u32 \<Rightarrow> bool" where
  "live_token t raw \<longleftrightarrow> raw \<noteq> kNone \<and> ResolveCancelSlot t raw \<noteq> None"

section \<open>Words\<close>

lemma kIndexMask_mask: "kIndexMask = mask 32"
  by (simp add: kIndexMask_def mask_eq_exp_minus_1)

lemma mask16: "(0xFFFF::u32) = mask 16"
  by (simp add: mask_eq_exp_minus_1)

lemma ucast_bump [simp]: "(ucast (bump_head h n AND kIndexMask) :: u32) = n"
  unfolding bump_head_def kIndexMask_mask
  by (rule bit_word_eqI) (auto simp: bit_simps)

lemma ucast_high32 [simp]: "(ucast (drop_bit 32 (push_bit 32 (ucast (x::u32)) :: u64)) :: u32) = x"
  by (rule bit_word_eqI) (auto simp: bit_simps)

lemma and_0xFFFF_unat: "unat ((x::u32) AND 0xFFFF) = unat x mod 65536"
  by (simp only: mask16 take_bit_eq_mask [symmetric] unsigned_take_bit_eq)
    (simp add: take_bit_eq_mod)

lemma token_index_less: "token_index raw < 65536"
  by (simp add: token_index_def and_0xFFFF_unat)

lemma small_take_bit16: "unat (x::u32) < 65536 \<Longrightarrow> x = take_bit 16 x"
  by (simp add: word_unat_eq_iff unsigned_take_bit_eq) (simp add: take_bit_eq_mod)

lemma bit_small16: "unat (x::u32) < 65536 \<Longrightarrow> bit x n \<Longrightarrow> n < 16"
  using small_take_bit16 [of x] by (metis bit_take_bit_iff)

lemma token_pack:
  assumes "unat g < 65536" and "unat i < 65536"
  shows "token_index (push_bit 16 g OR i) = unat i" and "token_gen (push_bit 16 g OR i) = g"
proof -
  have "(push_bit 16 g OR i) AND 0xFFFF = i"
    unfolding mask16 by (rule bit_word_eqI) (auto simp: bit_simps dest: bit_small16 [OF assms(2)])
  then show "token_index (push_bit 16 g OR i) = unat i" by (simp add: token_index_def)
  show "token_gen (push_bit 16 g OR i) = g"
    unfolding token_gen_def
    by (rule bit_word_eqI)
      (auto simp: bit_simps dest: bit_small16 [OF assms(2)] bit_small16 [OF assms(1)])
qed

lemma GenOf_small: "unat (GenOf s) < 65536"
  by (simp add: GenOf_def and_0xFFFF_unat)

lemma pack_not_kNone: "unat i < kCancelSlots \<Longrightarrow> unat g < 65536 \<Longrightarrow> push_bit 16 g OR i \<noteq> kNone"
proof
  assume a: "unat i < kCancelSlots" "unat g < 65536" "push_bit 16 g OR i = kNone"
  then have "token_index kNone = unat i"
    using token_pack(1) [of g i] by (simp add: kCancelSlots_def)
  with a(1) show False by (simp add: token_index_def kNone_def kCancelSlots_def)
qed

lemma CancelledIn_bit: "CancelledIn s \<longleftrightarrow> bit s 0"
  by (simp add: CancelledIn_def kCancelledBit_def and_one_eq odd_iff_mod_2_eq_one bit_0)

lemma CancelledIn_or [simp]: "CancelledIn (s OR kCancelledBit)"
  by (simp add: CancelledIn_bit kCancelledBit_def bit_simps)

lemma GenOf_or [simp]: "GenOf (s OR kCancelledBit) = GenOf s"
  unfolding GenOf_def mask16 kCancelledBit_def
  by (rule bit_word_eqI) (auto simp: bit_simps)

lemma CancelledIn_next [simp]: "\<not> CancelledIn (next_generation s)"
  by (simp add: CancelledIn_bit next_generation_def bit_simps)

lemma succ_mod_neq: "(n + 1) mod 2 ^ 32 mod 65536 \<noteq> n mod (65536::nat)"
proof -
  have "(n + 1) mod 2 ^ 32 mod 65536 = (n + 1) mod (65536::nat)"
    by (rule mod_mod_cancel) simp
  then show ?thesis using mod_neq_of_close [of n "n + 1" 65536] by simp
qed

lemma GenOf_next: "GenOf (next_generation s) \<noteq> GenOf s"
proof
  define g :: u32 where "g = ucast (drop_bit 32 s)"
  assume "GenOf (next_generation s) = GenOf s"
  then have "unat ((g + 1) AND 0xFFFF) = unat (g AND 0xFFFF)"
    by (simp only: GenOf_def next_generation_def ucast_high32 g_def)
  then have "(unat g + 1) mod 2 ^ 32 mod 65536 = unat g mod 65536"
    by (simp only: and_0xFFFF_unat unat_word_ariths) simp
  then show False using succ_mod_neq by blast
qed

section \<open>The slot table\<close>

lemma set_parent_simps [simp]:
  "cs_state (ct_slots (set_parent i p t) j) = cs_state (ct_slots t j)"
  "cs_nextFree (ct_slots (set_parent i p t) j) = cs_nextFree (ct_slots t j)"
  "cs_parent (ct_slots (set_parent i p t) j) = (if j = i then p else cs_parent (ct_slots t j))"
  "ct_freeHead (set_parent i p t) = ct_freeHead t"
  by (auto simp: set_parent_def)

lemma set_state_simps [simp]:
  "cs_state (ct_slots (set_state i st t) j) = (if j = i then st else cs_state (ct_slots t j))"
  "cs_nextFree (ct_slots (set_state i st t) j) = cs_nextFree (ct_slots t j)"
  "cs_parent (ct_slots (set_state i st t) j) = cs_parent (ct_slots t j)"
  "ct_freeHead (set_state i st t) = ct_freeHead t"
  by (auto simp: set_state_def)

lemma ReleaseSlot_simps [simp]:
  "cs_state (ct_slots (ReleaseSlot i t) j) = cs_state (ct_slots t j)"
  "cs_parent (ct_slots (ReleaseSlot i t) j) = cs_parent (ct_slots t j)"
  by (auto simp: ReleaseSlot_def Let_def)

lemma free_next_ReleaseSlot: "free_next (ReleaseSlot i t) = (free_next t)(i := free_top t)"
  by (auto simp: free_next_def free_top_def ReleaseSlot_def Let_def)

lemma free_top_ReleaseSlot: "i < kCancelSlots \<Longrightarrow> free_top (ReleaseSlot i t) = Some i"
proof -
  assume "i < kCancelSlots"
  then have "unat (of_nat (i + 1) :: u32) = i + 1"
    by (intro unat_of_nat32) (simp add: kCancelSlots_def)
  moreover from this have "(of_nat (i + 1) :: u32) \<noteq> 0"
    by (metis add_is_0 one_neq_zero unat_0)
  ultimately show ?thesis
    by (simp add: free_top_def ReleaseSlot_def Let_def del: of_nat_add of_nat_Suc)
qed

lemma free_same [simp]:
  "free_next (set_parent i p t) = free_next t" "free_top (set_parent i p t) = free_top t"
  "free_next (set_state i st t) = free_next t" "free_top (set_state i st t) = free_top t"
  by (auto simp: free_next_def free_top_def)

lemma unat_pred: "x \<noteq> (0::u32) \<Longrightarrow> unat (x - 1) = unat x - 1"
  by (simp add: unat_sub word_le_nat_alt unat_gt_0 Suc_leI)

lemma AcquireSlot_empty: "cancel_free t [] \<Longrightarrow> AcquireSlot t = (0xFFFFFFFF, t)"
  by (auto simp: cancel_free_def AcquireSlot_def free_top_def Let_def split: if_splits)

lemma AcquireSlot_cons:
  assumes "cancel_free t (i # fs)"
  shows "\<exists>t'. AcquireSlot t = (of_nat i, t') \<and> ct_slots t' = ct_slots t \<and> cancel_free t' fs"
proof -
  define idx where "idx = (ucast (ct_freeHead t AND kIndexMask) :: u32)"
  have top: "free_top t = Some i" and rest: "chain (free_next t) (free_next t i) fs None"
    and sub: "i < kCancelSlots" "set fs \<subseteq> {..<kCancelSlots}" "distinct fs"
    using assms by (auto simp: cancel_free_def)
  from top have nz: "idx \<noteq> 0" and iv: "i = unat idx - 1"
    by (auto simp: free_top_def idx_def Let_def split: if_splits)
  then have ii: "unat (idx - 1) = i" by (simp add: unat_pred)
  then have word: "idx - 1 = of_nat i" by (metis of_nat_unat_word)
  define t' where "t' = t\<lparr>ct_freeHead := bump_head (ct_freeHead t) (cs_nextFree (ct_slots t i))\<rparr>"
  have "AcquireSlot t = (of_nat i, t')"
    using nz ii word by (simp add: AcquireSlot_def t'_def idx_def Let_def)
  moreover have "free_top t' = free_next t i" "free_next t' = free_next t"
    by (simp_all add: t'_def free_top_def free_next_def Let_def fun_eq_iff)
  then have "cancel_free t' fs"
    using rest sub assms by (auto simp: cancel_free_def t'_def)
  ultimately show ?thesis by (auto simp: t'_def)
qed

lemma cancel_free_update:
  assumes "cancel_free t fs" and "\<forall>j \<in> set fs. cs_nextFree (ct_slots t' j) = cs_nextFree (ct_slots t j)
      \<and> cs_state (ct_slots t' j) = cs_state (ct_slots t j)" and "ct_freeHead t' = ct_freeHead t"
  shows "cancel_free t' fs"
proof -
  have "chain (free_next t') (free_top t') fs None \<longleftrightarrow> chain (free_next t) (free_top t') fs None"
    using assms(2) by (intro chain_cong) (auto simp: free_next_def)
  moreover have "free_top t' = free_top t" using assms(3) by (simp add: free_top_def)
  ultimately show ?thesis using assms by (auto simp: cancel_free_def)
qed

lemma cancel_init_chain:
  "i < kCancelSlots \<Longrightarrow> chain (free_next cancel_init) (Some i) [i..<kCancelSlots] None"
proof (induction "kCancelSlots - i" arbitrary: i)
  case 0
  then show ?case by simp
next
  case (Suc n)
  have split: "[i..<kCancelSlots] = i # [Suc i..<kCancelSlots]"
    using Suc.prems by (simp add: upt_conv_Cons)
  show ?case
  proof (cases "i = kCancelSlots - 1")
    case True
    then have "free_next cancel_init i = None" "Suc i = kCancelSlots"
      by (auto simp: free_next_def cancel_init_def CancelSlotTable_def kCancelSlots_def)
    then show ?thesis using split by simp
  next
    case False
    then have lt: "Suc i < kCancelSlots" using Suc.prems by simp
    then have "unat (of_nat (i + 2) :: u32) = i + 2"
      by (intro unat_of_nat32) (simp add: kCancelSlots_def)
    then have "(of_nat (i + 2) :: u32) \<noteq> 0 \<and> unat (of_nat (i + 2) :: u32) - 1 = Suc i"
      by (metis add_2_eq_Suc' diff_Suc_1 nat.simps(3) unat_0)
    then have "free_next cancel_init i = Some (Suc i)"
      using False by (simp add: free_next_def cancel_init_def CancelSlotTable_def Let_def
          del: of_nat_add)
    moreover have "n = kCancelSlots - Suc i" using Suc.hyps(2) by simp
    ultimately show ?thesis using Suc.hyps(1) [of "Suc i"] lt split by simp
  qed
qed

lemma cancel_free_init: "cancel_free cancel_init [0..<kCancelSlots]"
proof -
  have "free_top cancel_init = Some 0"
    by (simp add: free_top_def cancel_init_def kIndexMask_def)
  moreover have "\<not> CancelledIn (cs_state (ct_slots cancel_init i))" for i
    by (simp add: CancelledIn_def cancel_init_def CancelSlotTable_def)
  ultimately show ?thesis
    using cancel_init_chain [of 0] by (auto simp: cancel_free_def kCancelSlots_def)
qed

section \<open>Tokens\<close>

lemma token_inject: "token_index a = token_index b \<Longrightarrow> token_gen a = token_gen b \<Longrightarrow> a = b"
proof (rule bit_word_eqI)
  fix n
  assume ix: "token_index a = token_index b" and g: "token_gen a = token_gen b" and n: "n < LENGTH(32)"
  from ix have m: "a AND mask 16 = b AND mask 16"
    by (simp only: token_index_def mask16 word_unat_eq_iff)
  show "bit a n \<longleftrightarrow> bit b n"
  proof (cases "n < 16")
    case True
    then show ?thesis using arg_cong [OF m, of "\<lambda>w. bit w n"] n by (simp add: bit_simps)
  next
    case False
    then show ?thesis
      using arg_cong [OF g, of "\<lambda>w. bit w (n - 16)"] by (simp add: token_gen_def bit_simps)
  qed
qed

lemma live_token_iff:
  "live_token t raw \<longleftrightarrow> raw \<noteq> kNone \<and> token_index raw < kCancelSlots \<and>
     GenOf (cs_state (ct_slots t (token_index raw))) = token_gen raw"
  by (auto simp: live_token_def ResolveCancelSlot_def)

lemma Cancelled_walk_after_cancel:
  assumes "live_token t anc"
  shows "Cancelled_walk d (CancelScope_Cancel anc t) tok \<longleftrightarrow>
         Cancelled_walk d t tok \<or> IsWithin_walk d t anc tok"
proof (induction d arbitrary: tok)
  case 0
  show ?case by simp
next
  case (Suc d)
  define i where "i = token_index tok"
  have anc: "anc \<noteq> kNone" "token_index anc < kCancelSlots"
    "GenOf (cs_state (ct_slots t (token_index anc))) = token_gen anc"
    using assms by (auto simp: live_token_iff)
  have gen: "GenOf (cs_state (ct_slots (CancelScope_Cancel anc t) j)) = GenOf (cs_state (ct_slots t j))" for j
    using anc by (simp add: CancelScope_Cancel_def Let_def)
  have par: "cs_parent (ct_slots (CancelScope_Cancel anc t) j) = cs_parent (ct_slots t j)" for j
    using anc by (simp add: CancelScope_Cancel_def Let_def)
  have bit: "CancelledIn (cs_state (ct_slots (CancelScope_Cancel anc t) j)) \<longleftrightarrow>
      j = token_index anc \<or> CancelledIn (cs_state (ct_slots t j))" for j
    using anc by (simp add: CancelScope_Cancel_def Let_def)
  show ?case
  proof (cases "tok = anc")
    case True
    then show ?thesis using anc gen bit by (simp add: Let_def)
  next
    case False
    then have "i = token_index anc \<Longrightarrow> GenOf (cs_state (ct_slots t i)) \<noteq> token_gen tok"
      using token_inject [of tok anc] anc(3) by (auto simp: i_def)
    then show ?thesis using False gen par bit Suc.IH by (auto simp: Let_def i_def)
  qed
qed

lemma Cancelled_walk_stale:
  "GenOf (cs_state (ct_slots t (token_index raw))) \<noteq> token_gen raw \<Longrightarrow> \<not> Cancelled_walk d t raw"
  by (cases d) (auto simp: Let_def)

lemma cancel_free_not_live_index:
  "cancel_free t fs \<Longrightarrow> i \<notin> set fs \<Longrightarrow> i < kCancelSlots \<Longrightarrow> \<not> CancelledIn (cs_state (ct_slots t i)) \<Longrightarrow>
     cancel_free (ReleaseSlot i t) (i # fs)"
  by (auto simp: cancel_free_def free_next_ReleaseSlot free_top_ReleaseSlot)

lemma new_scope_token:
  assumes "cancel_free t (i # fs)" and "cs_state (ct_slots t2 i) = cs_state (ct_slots t i)"
    and "raw = push_bit 16 (GenOf (cs_state (ct_slots t2 i))) OR of_nat i"
  shows "live_token t2 raw \<and> token_index raw = i \<and> \<not> CancelledIn (cs_state (ct_slots t2 i))"
proof -
  have i: "i < kCancelSlots" and clean: "\<not> CancelledIn (cs_state (ct_slots t i))"
    using assms(1) by (auto simp: cancel_free_def)
  have ui: "unat (of_nat i :: u32) = i" using i by (intro unat_of_nat32) (simp add: kCancelSlots_def)
  have "raw \<noteq> kNone" unfolding assms(3) using i ui GenOf_small by (intro pack_not_kNone) auto
  moreover have "token_index raw = i" "token_gen raw = GenOf (cs_state (ct_slots t2 i))"
    unfolding assms(3) using token_pack [of _ "of_nat i"] GenOf_small ui i
    by (auto simp: kCancelSlots_def)
  ultimately show ?thesis using i clean assms(2) by (simp add: live_token_iff)
qed

lemma of_nat_not_exhausted: "i < kCancelSlots \<Longrightarrow> (of_nat i :: u32) \<noteq> 0xFFFFFFFF"
proof
  assume "i < kCancelSlots" and "(of_nat i :: u32) = 0xFFFFFFFF"
  moreover from this have "unat (of_nat i :: u32) = i"
    by (intro unat_of_nat32) (simp add: kCancelSlots_def)
  ultimately show False by (simp add: kCancelSlots_def)
qed

lemma kMaxScopeDepth_Suc: "kMaxScopeDepth = Suc 7"
  by (simp add: kMaxScopeDepth_def)

lemma new_child_result:
  assumes "cancel_free t (i # fs)"
  shows "\<exists>raw t'. CancelScope_new_child p t = (raw, t') \<and> live_token t' raw \<and> token_index raw = i \<and>
     \<not> CancelledIn (cs_state (ct_slots t' i)) \<and>
     cs_parent (ct_slots t' i) = (if ResolveCancelSlot t p \<noteq> None then p else kNone) \<and>
     (\<forall>j. cs_state (ct_slots t' j) = cs_state (ct_slots t j)) \<and>
     (\<forall>j. j \<noteq> i \<longrightarrow> cs_parent (ct_slots t' j) = cs_parent (ct_slots t j)) \<and> cancel_free t' fs"
proof -
  obtain t1 where t1: "AcquireSlot t = (of_nat i, t1)" "ct_slots t1 = ct_slots t" "cancel_free t1 fs"
    using AcquireSlot_cons [OF assms] by blast
  have i: "i < kCancelSlots" "i \<notin> set fs" using assms by (auto simp: cancel_free_def)
  have ui: "unat (of_nat i :: u32) = i" using i by (intro unat_of_nat32) (simp add: kCancelSlots_def)
  have res: "ResolveCancelSlot t1 p = ResolveCancelSlot t p" by (simp add: ResolveCancelSlot_def t1(2))
  define t2 where "t2 = set_parent i (if ResolveCancelSlot t p \<noteq> None then p else kNone) t1"
  define raw where "raw = push_bit 16 (GenOf (cs_state (ct_slots t2 i))) OR (of_nat i :: u32)"
  have eq: "CancelScope_new_child p t = (raw, t2)"
    using t1(1) of_nat_not_exhausted [OF i(1)] ui res
    by (simp add: CancelScope_new_child_def t2_def raw_def Let_def)
  have "live_token t2 raw \<and> token_index raw = i \<and> \<not> CancelledIn (cs_state (ct_slots t2 i))"
    by (rule new_scope_token [OF assms]) (simp_all add: t2_def t1 raw_def)
  moreover have "cancel_free t2 fs"
    by (rule cancel_free_update [OF t1(3)]) (simp_all add: t2_def)
  ultimately show ?thesis using eq by (auto simp: t2_def t1(2))
qed

lemma new_is_child_of_none: "cancel_free t (i # fs) \<Longrightarrow> CancelScope_new t = CancelScope_new_child kNone t"
  by (simp add: CancelScope_new_def CancelScope_new_child_def ResolveCancelSlot_def
      token_index_def kNone_def kCancelSlots_def split: prod.split)

lemma IsWithin_walk_new_child:
  assumes "live_token t' raw" and "cs_parent (ct_slots t' (token_index raw)) = p" and "p \<noteq> kNone"
  shows "IsWithin_walk (Suc (Suc d)) t' p raw"
  using assms by (auto simp: live_token_iff Let_def)

lemma Cancelled_walk_Suc_live:
  "live_token t raw \<Longrightarrow> \<not> CancelledIn (cs_state (ct_slots t (token_index raw))) \<Longrightarrow>
   Cancelled_walk (Suc d) t raw = Cancelled_walk d t (cs_parent (ct_slots t (token_index raw)))"
  by (auto simp: live_token_iff Let_def)

lemma kCancelSlots_pos: "0 < kCancelSlots"
  by (simp add: kCancelSlots_def)

lemma all_slots_cons: "[0..<kCancelSlots] = 0 # [1..<kCancelSlots]"
  using upt_conv_Cons [OF kCancelSlots_pos] by (simp only: One_nat_def)

lemma init_token_live: "live_token cancel_init 0"
  by (simp add: live_token_iff kNone_def token_index_def kCancelSlots_def GenOf_def token_gen_def
      cancel_init_def CancelSlotTable_def)

section \<open>Properties\<close>

text \<open>(C40) Cancelling a live scope cancels exactly the tokens inside it: after \<open>Cancel\<close> on \<open>anc\<close> a
  token reads as cancelled if and only if it did before or it is within \<open>anc\<close> by the bounded walk of
  \<open>IsWithin\<close>; no token outside the scope is affected.\<close>

theorem cancel_exactly_within:
  assumes "live_token t anc"
  shows "CancelToken_Cancelled (CancelScope_Cancel anc t) tok \<longleftrightarrow>
         CancelToken_Cancelled t tok \<or> CancelToken_IsWithin t tok anc"
  using Cancelled_walk_after_cancel [OF assms] assms
  by (simp add: CancelToken_Cancelled_def CancelToken_IsWithin_def CancelToken_Valid_def live_token_iff)

theorem cancel_exactly_within_witness:
  "live_token cancel_init 0 \<and>
   (CancelToken_Cancelled (CancelScope_Cancel 0 cancel_init) 0 \<longleftrightarrow>
    CancelToken_Cancelled cancel_init 0 \<or> CancelToken_IsWithin cancel_init 0 0)"
  using cancel_exactly_within [OF init_token_live, of 0] init_token_live by simp

text \<open>A scope opened under a live parent takes a free slot, hands out a live token that is
  within the parent, is cancelled exactly when the parent is (as seen from one level down), leaves
  the rest of the free stack intact and changes no other slot's state.\<close>

theorem new_child_scope:
  assumes "cancel_free t (i # fs)" and "live_token t p"
  shows "case CancelScope_new_child p t of (raw, t') \<Rightarrow>
     live_token t' raw \<and> token_index raw = i \<and> CancelToken_IsWithin t' raw p \<and>
     (CancelToken_Cancelled t' raw \<longleftrightarrow> Cancelled_walk 7 t' p) \<and>
     cancel_free t' fs \<and> (\<forall>j. cs_state (ct_slots t' j) = cs_state (ct_slots t j))"
proof -
  obtain raw t' where r: "CancelScope_new_child p t = (raw, t')" "live_token t' raw" "token_index raw = i"
    "\<not> CancelledIn (cs_state (ct_slots t' i))"
    "cs_parent (ct_slots t' i) = (if ResolveCancelSlot t p \<noteq> None then p else kNone)"
    "\<forall>j. cs_state (ct_slots t' j) = cs_state (ct_slots t j)" "cancel_free t' fs"
    using new_child_result [OF assms(1), of p] by blast
  have p: "p \<noteq> kNone" "cs_parent (ct_slots t' i) = p" using assms(2) r(5) by (auto simp: live_token_def)
  have "IsWithin_walk (Suc (Suc 6)) t' p raw"
    by (rule IsWithin_walk_new_child) (use r p in auto)
  then have "CancelToken_IsWithin t' raw p"
    using p by (simp add: CancelToken_IsWithin_def CancelToken_Valid_def kMaxScopeDepth_def eval_nat_numeral)
  moreover have "CancelToken_Cancelled t' raw \<longleftrightarrow> Cancelled_walk 7 t' p"
    unfolding CancelToken_Cancelled_def kMaxScopeDepth_Suc
    using Cancelled_walk_Suc_live [OF r(2), of 7] r(3,4) p(2) by simp
  ultimately show ?thesis using r by simp
qed

theorem new_child_scope_witness:
  "case CancelScope_new_child 0 cancel_init of (raw, t') \<Rightarrow>
     live_token t' raw \<and> token_index raw = 0 \<and> CancelToken_IsWithin t' raw 0 \<and>
     (CancelToken_Cancelled t' raw \<longleftrightarrow> Cancelled_walk 7 t' 0) \<and>
     cancel_free t' [1..<kCancelSlots] \<and>
     (\<forall>j. cs_state (ct_slots t' j) = cs_state (ct_slots cancel_init j))"
proof -
  have "cancel_free cancel_init (0 # [1..<kCancelSlots])"
    using cancel_free_init unfolding all_slots_cons .
  from new_child_scope [OF this init_token_live] show ?thesis .
qed

text \<open>Destroying a scope makes its token stale at once: the token no longer resolves, reads as
  not cancelled and cannot cancel the next user of the slot through \<open>CancelVia\<close>; the slot goes
  back on top of the free stack with its cancelled bit clear.\<close>

theorem destroyed_token_is_stale:
  assumes "cancel_free t fs" and "live_token t raw" and "token_index raw \<notin> set fs"
  shows "let t' = CancelScope_destroy raw t in
     \<not> live_token t' raw \<and> \<not> CancelToken_Cancelled t' raw \<and> CancelVia raw t' = (False, t') \<and>
     cancel_free t' (token_index raw # fs)"
proof -
  define i where "i = token_index raw"
  define t2 where "t2 = set_parent i kNone (set_state i (next_generation (cs_state (ct_slots t i))) t)"
  have l: "raw \<noteq> kNone" "i < kCancelSlots" "GenOf (cs_state (ct_slots t i)) = token_gen raw"
    using assms(2) by (auto simp: live_token_iff i_def)
  have d: "CancelScope_destroy raw t = ReleaseSlot i t2"
    using l by (simp add: CancelScope_destroy_def t2_def i_def Let_def)
  have "cancel_free t2 fs"
    by (rule cancel_free_update [OF assms(1)]) (use assms(3) in \<open>auto simp: t2_def i_def\<close>)
  then have free: "cancel_free (ReleaseSlot i t2) (i # fs)"
    by (rule cancel_free_not_live_index) (use assms(3) l in \<open>auto simp: t2_def i_def\<close>)
  have stale: "GenOf (cs_state (ct_slots (ReleaseSlot i t2) i)) \<noteq> token_gen raw"
    using GenOf_next l(3) by (metis ReleaseSlot_simps(1) set_parent_simps(1) set_state_simps(1) t2_def)
  then have "\<not> CancelToken_Cancelled (ReleaseSlot i t2) raw"
    unfolding CancelToken_Cancelled_def i_def by (rule Cancelled_walk_stale)
  then show ?thesis
    using stale free l unfolding d Let_def
    by (auto simp: live_token_iff CancelVia_def i_def)
qed

theorem destroyed_token_is_stale_witness:
  "let t' = CancelScope_destroy 0 (snd (CancelScope_new_child kNone cancel_init)) in
     \<not> live_token t' 0 \<and> \<not> CancelToken_Cancelled t' 0 \<and> CancelVia 0 t' = (False, t') \<and>
     cancel_free t' (0 # [1..<kCancelSlots])"
proof -
  have f: "cancel_free cancel_init (0 # [1..<kCancelSlots])"
    using cancel_free_init unfolding all_slots_cons .
  obtain raw t' where r: "CancelScope_new_child kNone cancel_init = (raw, t')"
    "token_index raw = 0" "\<forall>j. cs_state (ct_slots t' j) = cs_state (ct_slots cancel_init j)"
    "cancel_free t' [1..<kCancelSlots]"
    using new_child_result [OF f, of kNone] by blast
  have "live_token t' 0" using r(3) init_token_live by (simp add: live_token_iff)
  from destroyed_token_is_stale [OF r(4) this] show ?thesis
    unfolding r(1) by (simp only: snd_conv token_index_def and_zero_eq unat_0 set_upt) simp
qed

end
