(* ===== verification/TaskTypes.thy ===== *)
theory TaskTypes
  imports JPrelude
begin

text \<open>
  The data every component passes around (\<^verbatim>\<open>include/Task.h\<close>): the enums of a task, the 16-bit resume
  pin with its three reserved values, the record that lives as long as the task, and the task
  itself. Pointers to objects of another pool are \<open>ptr\<close> values.
\<close>

datatype TaskType = TFiber | TCoroutine | TNative
datatype StackClass = Standard | Deep
datatype Lane = Normal | LowLatency
datatype CorePref = PrefP | PrefE | PrefAny
datatype Mode = Migrate | Pinned
datatype MainMode = OutOfPool | InPool | DefaultMain

text \<open>The value of \<open>Pin::target\<close>: a worker index, or one of three sentinels at the top of the range.\<close>

type_synonym pin = u16

definition pinNone :: pin where [model_defs]: "pinNone = 0xFFFF"
definition pinCurrent :: pin where [model_defs]: "pinCurrent = 0xFFFE"
definition pinMain :: pin where [model_defs]: "pinMain = 0xFFFD"
definition pinThread :: "u16 \<Rightarrow> pin" where [model_defs]: "pinThread worker = worker"

definition IsLowLatency :: "Lane \<Rightarrow> bool" where [model_defs]: "IsLowLatency l \<longleftrightarrow> l = LowLatency"
definition IsNormalLane :: "Lane \<Rightarrow> bool" where [model_defs]: "IsNormalLane l \<longleftrightarrow> l = Normal"

text \<open>A registration to run at the death of a task: the object and the release function's name.\<close>

record TaskDebt =
  td_next :: ptr
  td_obj :: nat
  td_release :: nat

record TaskRecord =
  tr_fiber :: ptr
  tr_debts :: ptr
  tr_locals :: "(nat \<Rightarrow> nat) option"
  tr_waitNext :: ptr
  tr_waitPrev :: ptr
  tr_generation :: u32
  tr_pinTo :: pin
  tr_home :: ptr

definition kLocalSlots :: nat where [model_defs]: "kLocalSlots = 8"

definition new_TaskRecord :: TaskRecord where
  "new_TaskRecord = \<lparr>tr_fiber = None, tr_debts = None, tr_locals = None, tr_waitNext = None,
     tr_waitPrev = None, tr_generation = 0, tr_pinTo = pinNone, tr_home = None\<rparr>"

record Task =
  tk_fn :: nat
  tk_data :: nat
  tk_record :: ptr
  tk_waitGroup :: ptr
  tk_lane :: Lane
  tk_type :: TaskType
  tk_priorityBoost :: bool
  tk_trivialDtor :: bool
  tk_stackClass :: StackClass
  tk_started :: bool
  tk_cancelledDirect :: bool
  tk_cancelToken :: u32

definition new_Task :: "nat \<Rightarrow> nat \<Rightarrow> Lane \<Rightarrow> Task" where
  "new_Task f d ln = \<lparr>tk_fn = f, tk_data = d, tk_record = None, tk_waitGroup = None, tk_lane = ln,
     tk_type = TFiber, tk_priorityBoost = False, tk_trivialDtor = False, tk_stackClass = Standard,
     tk_started = False, tk_cancelledDirect = False, tk_cancelToken = 0xFFFFFFFF\<rparr>"

definition task_native :: "Task \<Rightarrow> bool" where
  [model_defs]: "task_native t \<longleftrightarrow> tk_type t = TNative"

end
