(* ===== verification/TaskDags.thy ===== *)
theory TaskDags
  imports TaskTypes CancelTokens
begin

text \<open>
  The task graph: its nodes and edges (\<^verbatim>\<open>include/TaskNode.h\<close>), the calls that build it, and the cycle check of
  \<open>Submit\<close> (\<^verbatim>\<open>include/TaskDAG.h\<close>, \<^verbatim>\<open>src/TaskDAG.cpp\<close>). A pointer to an edge is the chain of edges it heads: an edge
  is written before the exchange that publishes it and never again, and it carries its address, so that two chains are
  equal when the pointers are. An abort of the process is the value \<open>None\<close>. A node's count of
  dependencies left is an unbounded integer, 32 bits in the source.
\<close>

section \<open>Edge pointers with two tag bits\<close>

definition kEdgeSealed :: u64 where [model_defs]: "kEdgeSealed = 1"
definition kEdgeCancelled :: u64 where [model_defs]: "kEdgeCancelled = 2"
definition kEdgeTagMask :: u64 where [model_defs]: "kEdgeTagMask = 3"

definition EdgePtr :: "u64 \<Rightarrow> u64" where [model_defs]: "EdgePtr t = t AND NOT kEdgeTagMask"
definition EdgeSealed :: "u64 \<Rightarrow> bool" where [model_defs]: "EdgeSealed t \<longleftrightarrow> t AND kEdgeSealed \<noteq> 0"
definition EdgeCancelled :: "u64 \<Rightarrow> bool" where [model_defs]: "EdgeCancelled t \<longleftrightarrow> t AND kEdgeCancelled \<noteq> 0"
definition EdgeSeal :: "u64 \<Rightarrow> bool \<Rightarrow> u64" where
  [model_defs]: "EdgeSeal p c = p OR kEdgeSealed OR (if c then kEdgeCancelled else 0)"

record DagEdge =
  ed_at :: nat
  ed_dep :: nat

type_synonym edges = "DagEdge list"

text \<open>The tagged pointer of a node, unpacked.\<close>

record EdgeHead =
  eh_ptr :: edges
  eh_sealed :: bool
  eh_cancelled :: bool

definition edge_word :: "(edges \<Rightarrow> u64) \<Rightarrow> EdgeHead \<Rightarrow> u64" where
  "edge_word addr h = (if eh_sealed h then EdgeSeal (addr (eh_ptr h)) (eh_cancelled h) else addr (eh_ptr h))"

section \<open>Nodes and the graph\<close>

datatype NodeOutcome = Completed | OutcomeCancelled
datatype LogicType = LAND | LOR

definition EXT_ARMED :: u32 where "EXT_ARMED = 1"
definition EXT_SIGNALLED :: u32 where "EXT_SIGNALLED = 2"
definition kNoAffinity :: u8 where "kNoAffinity = 0xFF"
definition NONE :: u8 where "NONE = 255"

record TaskNode =
  tn_task :: ptr
  tn_owned :: bool
  tn_origFn :: nat
  tn_origData :: nat
  tn_gateType :: LogicType
  tn_isGate :: bool
  tn_isExternal :: bool
  tn_extBits :: u32
  tn_firstEdge :: EdgeHead
  tn_buildIndex :: u32
  tn_deps :: int
  tn_submitted :: bool
  tn_cpuID :: u8
  tn_priority :: u8
  tn_isLocal :: bool
  tn_isFork :: bool
  tn_isMain :: bool

definition new_TaskNode :: "ptr \<Rightarrow> TaskNode" where
  "new_TaskNode t = \<lparr>tn_task = t, tn_owned = False, tn_origFn = 0, tn_origData = 0, tn_gateType = LAND,
     tn_isGate = False, tn_isExternal = False, tn_extBits = 0,
     tn_firstEdge = \<lparr>eh_ptr = [], eh_sealed = False, eh_cancelled = False\<rparr>, tn_buildIndex = 0, tn_deps = 0,
     tn_submitted = False, tn_cpuID = kNoAffinity, tn_priority = 0, tn_isLocal = True, tn_isFork = False, tn_isMain = False\<rparr>"

text \<open>Where \<open>Fire\<close> hands a task over.\<close>

datatype Dest = ToMain | ToWorker u8 | ToTarget

text \<open>
  The graph with the stores of its nodes and of the tasks given to it. The last four fields record what it handed to
  the scheduler, to the task's wait group, to the allocator and to the epoch manager.
\<close>

record TaskDAG =
  dg_node :: "nat \<Rightarrow> TaskNode"
  dg_task :: "nat \<Rightarrow> Task"
  dg_nodes :: "nat list"
  dg_submitted :: bool
  dg_cancelled :: bool
  dg_scope :: u32
  dg_tokens :: cancel_table
  dg_queue :: "(Dest \<times> nat) list"
  dg_wgDone :: "nat list"
  dg_freed :: "nat list"
  dg_retired :: "nat list"

definition upd_node :: "nat \<Rightarrow> (TaskNode \<Rightarrow> TaskNode) \<Rightarrow> TaskDAG \<Rightarrow> TaskDAG" where
  "upd_node n f g = g\<lparr>dg_node := (dg_node g)(n := f (dg_node g n))\<rparr>"

definition upd_task :: "nat \<Rightarrow> (Task \<Rightarrow> Task) \<Rightarrow> TaskDAG \<Rightarrow> TaskDAG" where
  "upd_task t f g = g\<lparr>dg_task := (dg_task g)(t := f (dg_task g t))\<rparr>"

section \<open>Building\<close>

definition RejectIfSubmitted :: "TaskDAG \<Rightarrow> unit option" where
  "RejectIfSubmitted g = (if dg_submitted g then None else Some ())"

text \<open>A node placed in the memory the allocator returned.\<close>

definition place_node :: "ptr \<Rightarrow> TaskNode \<Rightarrow> TaskDAG \<Rightarrow> ptr \<times> TaskDAG" where
  "place_node mem nd g = (case mem of None \<Rightarrow> (None, g)
     | Some n \<Rightarrow> (Some n, (upd_node n (\<lambda>_. nd) g)\<lparr>dg_nodes := dg_nodes g @ [n]\<rparr>))"

definition stamp_scope :: "ptr \<Rightarrow> TaskDAG \<Rightarrow> TaskDAG" where
  "stamp_scope t g = (case t of None \<Rightarrow> g
     | Some t \<Rightarrow> if tk_cancelToken (dg_task g t) = kNone then upd_task t (\<lambda>k. k\<lparr>tk_cancelToken := dg_scope g\<rparr>) g else g)"

definition CreateNode :: "ptr \<Rightarrow> ptr \<Rightarrow> u8 \<Rightarrow> u8 \<Rightarrow> TaskDAG \<Rightarrow> (ptr \<times> TaskDAG) option" where
  "CreateNode mem t pri cpu g = (case RejectIfSubmitted g of None \<Rightarrow> None | Some _ \<Rightarrow>
     Some (place_node mem ((new_TaskNode t)\<lparr>tn_isLocal := (pri = NONE), tn_priority := (if pri = NONE then 0 else pri),
       tn_cpuID := cpu\<rparr>) (stamp_scope t g)))"

definition CreateMainNode :: "ptr \<Rightarrow> ptr \<Rightarrow> u8 \<Rightarrow> TaskDAG \<Rightarrow> (ptr \<times> TaskDAG) option" where
  "CreateMainNode mem t pri g = (case CreateNode mem t pri NONE g of
       None \<Rightarrow> None
     | Some (None, g') \<Rightarrow> Some (None, g')
     | Some (Some n, g') \<Rightarrow> Some (Some n, upd_node n (\<lambda>nd. nd\<lparr>tn_isMain := True\<rparr>) g'))"

definition CreateGate :: "ptr \<Rightarrow> LogicType \<Rightarrow> TaskDAG \<Rightarrow> (ptr \<times> TaskDAG) option" where
  "CreateGate mem ty g = (case RejectIfSubmitted g of None \<Rightarrow> None | Some _ \<Rightarrow>
     Some (place_node mem ((new_TaskNode None)\<lparr>tn_isGate := True, tn_gateType := ty\<rparr>) g))"

definition CreateExternalNode :: "ptr \<Rightarrow> TaskDAG \<Rightarrow> (ptr \<times> TaskDAG) option" where
  "CreateExternalNode mem g = (case RejectIfSubmitted g of None \<Rightarrow> None | Some _ \<Rightarrow>
     Some (place_node mem ((new_TaskNode None)\<lparr>tn_isExternal := True, tn_owned := True\<rparr>) g))"

definition DisposeUnexecutedTask :: "nat \<Rightarrow> TaskDAG \<Rightarrow> TaskDAG" where
  "DisposeUnexecutedTask n g = (case tn_task (dg_node g n) of None \<Rightarrow> g
     | Some t \<Rightarrow> (upd_node n (\<lambda>nd. nd\<lparr>tn_task := None\<rparr>) g)
         \<lparr>dg_wgDone := (case tk_waitGroup (dg_task g t) of None \<Rightarrow> dg_wgDone g | Some w \<Rightarrow> dg_wgDone g @ [w]),
          dg_freed := dg_freed g @ [t]\<rparr>)"

fun drop_nodes :: "nat list \<Rightarrow> TaskDAG \<Rightarrow> TaskDAG" where
  "drop_nodes [] g = g\<lparr>dg_nodes := []\<rparr>"
| "drop_nodes (n # ns) g = drop_nodes ns ((DisposeUnexecutedTask n g)\<lparr>dg_retired := dg_retired g @ [n]\<rparr>)"

section \<open>The cycle check\<close>

definition succs :: "TaskDAG \<Rightarrow> nat \<Rightarrow> nat list" where
  "succs g n = map ed_dep (eh_ptr (tn_firstEdge (dg_node g n)))"

fun number_nodes :: "nat \<Rightarrow> nat list \<Rightarrow> TaskDAG \<Rightarrow> TaskDAG" where
  "number_nodes i [] g = g"
| "number_nodes i (n # ns) g = number_nodes (Suc i) ns (upd_node n (\<lambda>nd. nd\<lparr>tn_buildIndex := of_nat i\<rparr>) g)"

definition build_index :: "TaskDAG \<Rightarrow> nat \<Rightarrow> nat" where
  "build_index g n = unat (tn_buildIndex (dg_node g n))"

text \<open>The loop over a node's edges; the vector \<open>ready\<close> is kept with its back first. \<open>None\<close> is the failed assertion.\<close>

fun release_edges :: "TaskDAG \<Rightarrow> nat list \<Rightarrow> int list \<Rightarrow> nat list \<Rightarrow> (int list \<times> nat list) option" where
  "release_edges g [] indeg ready = Some (indeg, ready)"
| "release_edges g (d # ds) indeg ready =
    (let i = build_index g d in
     if \<not> i < length indeg then None
     else let k = indeg ! i - 1 in release_edges g ds (indeg[i := k]) (if k = 0 then d # ready else ready))"

definition positives :: "int list \<Rightarrow> nat" where
  "positives xs = length (filter (\<lambda>x. 0 < x) xs)"

lemma positives_update:
  "i < length xs \<Longrightarrow> positives (xs[i := v]) + (if 0 < xs ! i then 1 else 0) = positives xs + (if 0 < v then 1 else 0)"
proof (induction xs arbitrary: i)
  case (Cons x xs)
  then show ?case by (cases i) (auto simp: positives_def)
qed simp

lemma release_edges_measure:
  "release_edges g ds indeg ready = Some (indeg', ready') \<Longrightarrow>
   length indeg' = length indeg \<and> length ready' + positives indeg' \<le> length ready + positives indeg"
proof (induction ds arbitrary: indeg ready)
  case (Cons d ds)
  let ?i = "build_index g d"
  let ?k = "indeg ! ?i - 1"
  have i: "?i < length indeg" using Cons.prems by (simp add: Let_def split: if_splits)
  have u: "positives (indeg[?i := ?k]) + (if 0 < indeg ! ?i then 1 else 0) = positives indeg + (if 0 < ?k then 1 else 0)"
    by (rule positives_update [OF i])
  have "release_edges g ds (indeg[?i := ?k]) (if ?k = 0 then d # ready else ready) = Some (indeg', ready')"
    using Cons.prems i by (simp add: Let_def)
  from Cons.IH [OF this] u show ?case by (auto split: if_splits)
qed simp

function kahn :: "TaskDAG \<Rightarrow> nat list \<Rightarrow> int list \<Rightarrow> nat \<Rightarrow> nat option" where
  "kahn g [] indeg processed = Some processed"
| "kahn g (nd # ready) indeg processed =
    (case release_edges g (succs g nd) indeg ready of None \<Rightarrow> None
     | Some (indeg', ready') \<Rightarrow> kahn g ready' indeg' (Suc processed))"
  by pat_completeness auto
termination
  by (relation "measure (\<lambda>(g, ready, indeg, _). length ready + positives indeg)")
    (auto dest: release_edges_measure)

definition HasCycle :: "TaskDAG \<Rightarrow> (bool \<times> TaskDAG) option" where
  "HasCycle g =
    (let g' = number_nodes 0 (dg_nodes g) g;
         indeg = map (\<lambda>n. tn_deps (dg_node g' n)) (dg_nodes g');
         ready = rev (filter (\<lambda>n. tn_deps (dg_node g' n) = 0) (dg_nodes g')) in
     case kahn g' ready indeg 0 of None \<Rightarrow> None
     | Some processed \<Rightarrow> Some (processed \<noteq> length (dg_nodes g'), g'))"

text \<open>\<open>Submit\<close> up to the point where a graph without cycle collects its roots; \<open>False\<close> says that the graph was refused.\<close>

definition Submit_check :: "TaskDAG \<Rightarrow> (bool \<times> TaskDAG) option" where
  "Submit_check g = (case HasCycle g of None \<Rightarrow> None
     | Some (cyclic, g1) \<Rightarrow> (let g2 = g1\<lparr>dg_submitted := True\<rparr> in
         Some (if cyclic then (False, drop_nodes (dg_nodes g2) g2) else (True, g2))))"

definition dag_Cancel_flag :: "TaskDAG \<Rightarrow> TaskDAG" where "dag_Cancel_flag g = g\<lparr>dg_cancelled := True\<rparr>"
definition dag_Cancel_scope :: "TaskDAG \<Rightarrow> TaskDAG" where
  "dag_Cancel_scope g = g\<lparr>dg_tokens := CancelScope_Cancel (dg_scope g) (dg_tokens g)\<rparr>"

section \<open>Tag bits\<close>

lemma tag_bits:
  "EdgeSealed t \<longleftrightarrow> bit t 0" "EdgeCancelled t \<longleftrightarrow> bit t 1" "bit (EdgePtr t) k \<longleftrightarrow> bit t k \<and> 2 \<le> k"
proof -
  have 0: "kEdgeSealed = 2 ^ 0" "kEdgeCancelled = 2 ^ 1" by (simp_all add: model_defs)
  show "EdgeSealed t \<longleftrightarrow> bit t 0" unfolding EdgeSealed_def 0 by (simp only: and_exp_eq_0_iff_not_bit not_not)
  show "EdgeCancelled t \<longleftrightarrow> bit t 1" unfolding EdgeCancelled_def 0 by (simp only: and_exp_eq_0_iff_not_bit not_not)
  have m: "kEdgeTagMask = mask 2" by (simp add: model_defs mask_eq_exp_minus_1)
  show "bit (EdgePtr t) k \<longleftrightarrow> bit t k \<and> 2 \<le> k" unfolding EdgePtr_def m
    by (auto simp: bit_and_iff bit_not_iff bit_mask_iff dest: bit_imp_le_length bit_imp_possible_bit)
qed

lemma edge_head_word:
  assumes "addr (eh_ptr h) AND kEdgeTagMask = 0"
  shows "EdgePtr (edge_word addr h) = addr (eh_ptr h)" "EdgeSealed (edge_word addr h) \<longleftrightarrow> eh_sealed h"
    "eh_sealed h \<Longrightarrow> EdgeCancelled (edge_word addr h) \<longleftrightarrow> eh_cancelled h"
proof -
  let ?p = "addr (eh_ptr h)"
  have m: "kEdgeTagMask = mask 2" by (simp add: model_defs mask_eq_exp_minus_1)
  have low: "\<not> bit ?p k" if "k < 2" for k
  proof -
    have "bit (?p AND mask 2) k = bit ?p k" using that
      by (auto simp: bit_and_iff bit_mask_iff dest: bit_imp_possible_bit)
    then show ?thesis using assms unfolding m by simp
  qed
  have w: "kEdgeSealed = 2 ^ 0" "kEdgeCancelled = 2 ^ 1" by (simp_all add: model_defs)
  have t: "bit kEdgeSealed k \<longleftrightarrow> k = 0" "bit kEdgeCancelled k \<longleftrightarrow> k = 1" for k unfolding w bit_exp_iff by auto
  have b: "bit (edge_word addr h) k \<longleftrightarrow> bit ?p k \<or> eh_sealed h \<and> (k = 0 \<or> eh_cancelled h \<and> k = 1)" for k
    by (auto simp: edge_word_def EdgeSeal_def bit_or_iff t)
  have "bit (EdgePtr (edge_word addr h)) k = bit ?p k" for k
    unfolding tag_bits(3) b using low [of k] by (cases "k < 2") auto
  then show "EdgePtr (edge_word addr h) = ?p" by (intro bit_word_eqI) simp
  show "EdgeSealed (edge_word addr h) \<longleftrightarrow> eh_sealed h" unfolding tag_bits(1) b using low by auto
  show "EdgeCancelled (edge_word addr h) \<longleftrightarrow> eh_cancelled h" if "eh_sealed h" unfolding tag_bits(2) b using low that by auto
qed

section \<open>The cycle check decides acyclicity\<close>

definition edge_rel :: "TaskDAG \<Rightarrow> nat list \<Rightarrow> (nat \<times> nat) set" where
  "edge_rel g V = {(u, d). u \<in> set V \<and> d \<in> set (succs g u)}"

definition edges_left :: "TaskDAG \<Rightarrow> nat list \<Rightarrow> nat set \<Rightarrow> nat multiset" where
  "edges_left g V P = (\<Sum>v \<in> set V - P. mset (succs g v))"

text \<open>The arrays of the loop, against the nodes \<open>P\<close> taken and the edges \<open>M\<close> still to be walked.\<close>

definition kahn_ok :: "TaskDAG \<Rightarrow> nat list \<Rightarrow> nat set \<Rightarrow> nat list \<Rightarrow> int list \<Rightarrow> nat multiset \<Rightarrow> bool" where
  "kahn_ok g V P ready indeg M \<longleftrightarrow> distinct ready \<and> set ready \<inter> P = {} \<and> length indeg = length V \<and>
    (\<forall>i < length V. indeg ! i = int (count M (V ! i))) \<and> set_mset M \<subseteq> set V \<and>
    set ready \<union> P = {v \<in> set V. count M v = 0}"

definition numbered :: "TaskDAG \<Rightarrow> nat list \<Rightarrow> bool" where
  "numbered g V \<longleftrightarrow> distinct V \<and> (\<forall>i < length V. build_index g (V ! i) = i)"

lemma numbered_at: "numbered g V \<Longrightarrow> v \<in> set V \<Longrightarrow> build_index g v < length V \<and> V ! build_index g v = v"
  by (metis in_set_conv_nth numbered_def)

lemma release_edges_ok:
  "numbered g V \<Longrightarrow> kahn_ok g V P ready indeg (mset ds + M) \<Longrightarrow>
   \<exists>indeg' ready'. release_edges g ds indeg ready = Some (indeg', ready') \<and> kahn_ok g V P ready' indeg' M"
proof (induction ds arbitrary: indeg ready)
  case (Cons d ds)
  let ?i = "build_index g d" and ?N = "mset ds + M"
  let ?k = "indeg ! ?i - 1"
  note k = Cons.prems(2) [unfolded kahn_ok_def]
  have d: "d \<in> set V" using k by auto
  note i = numbered_at [OF Cons.prems(1) d]
  have ki: "?k = int (count ?N d)" using k i by auto
  have fresh: "d \<notin> set ready \<union> P" using k by auto
  let ?r = "if ?k = 0 then d # ready else ready"
  have "kahn_ok g V P ?r (indeg[?i := ?k]) ?N"
  proof -
    have len: "length (indeg[?i := ?k]) = length V" using k by simp
    have vals: "\<forall>j < length V. indeg[?i := ?k] ! j = int (count ?N (V ! j))"
    proof (intro allI impI)
      fix j assume j: "j < length V"
      show "indeg[?i := ?k] ! j = int (count ?N (V ! j))"
      proof (cases "j = ?i")
        case False
        then have "V ! j \<noteq> d" using Cons.prems(1) i j by (metis numbered_def)
        then show ?thesis using False j k by auto
      qed (use ki i j k in auto)
    qed
    have rng: "set_mset ?N \<subseteq> set V" using k by auto
    have z: "{v \<in> set V. count ?N v = 0} = {v \<in> set V. count (mset (d # ds) + M) v = 0} \<union> (if ?k = 0 then {d} else {})"
    proof -
      have "?k = 0 \<longleftrightarrow> count ?N d = 0" using ki by linarith
      then show ?thesis using d by (auto simp: count_eq_zero_iff)
    qed
    have un: "set ?r \<union> P = {v \<in> set V. count ?N v = 0}"
      unfolding z using k by auto
    have "distinct ready \<and> set ready \<inter> P = {}" using k by blast
    then have "distinct ?r \<and> set ?r \<inter> P = {}" using fresh by simp
    then show ?thesis unfolding kahn_ok_def using len vals rng un by blast
  qed
  from Cons.IH [OF Cons.prems(1) this] i k show ?case by (auto simp: Let_def)
qed simp

lemma edges_left_take:
  assumes "nd \<in> set V" "nd \<notin> P"
  shows "edges_left g V P = mset (succs g nd) + edges_left g V (insert nd P)"
proof -
  have "set V - P - {nd} = set V - insert nd P" by auto
  then show ?thesis unfolding edges_left_def using sum.remove [of "set V - P" nd "\<lambda>v. mset (succs g v)"] assms by simp
qed

lemma count_edges_left: "0 < count (edges_left g V P) d \<longleftrightarrow> (\<exists>u \<in> set V - P. d \<in> set (succs g u))"
proof -
  have "count (edges_left g V P) d = 0 \<longleftrightarrow> (\<forall>u \<in> set V - P. count (mset (succs g u)) d = 0)"
    unfolding edges_left_def count_sum by (rule sum_eq_0_iff) simp
  then show ?thesis by (auto simp: count_eq_zero_iff)
qed

lemma kahn_ok_end:
  assumes "numbered g V" "kahn_ok g V P ready indeg (edges_left g V P)" "P \<inter> {x. (x, x) \<in> (edge_rel g V)\<^sup>+} = {}"
  shows "\<exists>Q. kahn g ready indeg (card P) = Some (card Q) \<and> Q \<inter> {x. (x, x) \<in> (edge_rel g V)\<^sup>+} = {} \<and>
    Q = {v \<in> set V. count (edges_left g V Q) v = 0}"
  using assms
proof (induction g ready indeg "card P" arbitrary: P rule: kahn.induct)
  case (1 g indeg)
  then show ?case by (auto simp: kahn_ok_def)
next
  case (2 g nd ready indeg)
  note k = "2.prems"(2) [unfolded kahn_ok_def]
  have nd: "nd \<in> set V" "nd \<notin> P" "count (edges_left g V P) nd = 0" using k by auto
  have P: "finite P" using k by (metis (no_types, lifting) finite_Un finite_filter List.finite_set finite_subset mem_Collect_eq subsetI)
  have "kahn_ok g V (insert nd P) ready indeg (mset (succs g nd) + edges_left g V (insert nd P))"
    using k unfolding edges_left_take [OF nd(1,2)] kahn_ok_def by auto
  from release_edges_ok [OF "2.prems"(1) this] obtain indeg' ready' where
    r: "release_edges g (succs g nd) indeg ready = Some (indeg', ready')"
    and k': "kahn_ok g V (insert nd P) ready' indeg' (edges_left g V (insert nd P))" by blast
  have c: "(nd, nd) \<notin> (edge_rel g V)\<^sup>+"
  proof
    assume cyc: "(nd, nd) \<in> (edge_rel g V)\<^sup>+"
    then obtain u where u: "(u, nd) \<in> edge_rel g V" "(nd, u) \<in> (edge_rel g V)\<^sup>*" by (metis tranclD2)
    then have "(u, u) \<in> (edge_rel g V)\<^sup>+" by (metis rtrancl_into_trancl2)
    then have "u \<in> set V - P" using "2.prems"(3) u(1) by (auto simp: edge_rel_def)
    then show False using nd(3) count_edges_left [of g V P nd] u(1) by (auto simp: edge_rel_def)
  qed
  have "Suc (card P) = card (insert nd P)" using P nd(2) by simp
  from "2.hyps" [OF r refl this "2.prems"(1) k'] c "2.prems"(3) this show ?case by (simp add: r)
qed

lemma number_nodes_other: "m \<notin> set V \<Longrightarrow> dg_node (number_nodes i V g) m = dg_node g m"
  by (induction V arbitrary: i g) (auto simp: upd_node_def)

lemma number_nodes_keeps:
  "dg_nodes (number_nodes i V g) = dg_nodes g"
  "tn_deps (dg_node (number_nodes i V g) m) = tn_deps (dg_node g m)"
  "tn_firstEdge (dg_node (number_nodes i V g) m) = tn_firstEdge (dg_node g m)"
  by (induction V arbitrary: i g) (auto simp: upd_node_def)

lemma number_nodes_at:
  "distinct V \<Longrightarrow> j < length V \<Longrightarrow> tn_buildIndex (dg_node (number_nodes i V g) (V ! j)) = of_nat (i + j)"
proof (induction V arbitrary: i j g)
  case (Cons v V)
  then show ?case by (cases j) (auto simp: number_nodes_other upd_node_def)
qed simp

lemma numbered_number_nodes: "distinct V \<Longrightarrow> length V < 2 ^ 32 \<Longrightarrow> numbered (number_nodes 0 V g) V"
  using number_nodes_at [of V _ 0 g] by (auto simp: numbered_def build_index_def unat_of_nat32)

definition dag_wf :: "TaskDAG \<Rightarrow> bool" where
  [inv_defs]: "dag_wf g \<longleftrightarrow> distinct (dg_nodes g) \<and> length (dg_nodes g) < 2 ^ 32 \<and>
    (\<forall>v \<in> set (dg_nodes g). set (succs g v) \<subseteq> set (dg_nodes g) \<and>
       tn_deps (dg_node g v) = int (count (edges_left g (dg_nodes g) {}) v))"

lemma HasCycle_acyclic:
  assumes "dag_wf g"
  shows "\<exists>g'. HasCycle g = Some (\<not> acyclic (edge_rel g (dg_nodes g)), g') \<and> g' = number_nodes 0 (dg_nodes g) g"
proof -
  let ?V = "dg_nodes g" and ?g = "number_nodes 0 (dg_nodes g) g"
  let ?ready = "rev (filter (\<lambda>n. tn_deps (dg_node ?g n) = 0) ?V)" and ?indeg = "map (\<lambda>n. tn_deps (dg_node ?g n)) ?V"
  have s: "succs ?g = succs g" by (rule ext) (simp add: succs_def number_nodes_keeps)
  then have E: "edge_rel ?g ?V = edge_rel g ?V" and L: "edges_left ?g ?V = edges_left g ?V"
    by (auto simp: edge_rel_def edges_left_def)
  note w = assms [unfolded dag_wf_def]
  have n: "numbered ?g ?V" using w by (blast intro: numbered_number_nodes)
  have sub: "set_mset (edges_left g ?V {}) \<subseteq> set ?V"
  proof
    fix d assume "d \<in># edges_left g ?V {}"
    then obtain u where "u \<in> set ?V" "d \<in> set (succs g u)" using count_edges_left [of g ?V "{}" d] by auto
    then show "d \<in> set ?V" using w by blast
  qed
  have "kahn_ok ?g ?V {} ?ready ?indeg (edges_left ?g ?V {})"
    unfolding kahn_ok_def L using w sub by (auto simp: number_nodes_keeps)
  from kahn_ok_end [OF n this] obtain Q where Q: "kahn ?g ?ready ?indeg 0 = Some (card Q)"
    "Q \<inter> {x. (x, x) \<in> (edge_rel g ?V)\<^sup>+} = {}" "Q = {v \<in> set ?V. count (edges_left g ?V Q) v = 0}"
    unfolding E L by auto
  have QV: "Q \<subseteq> set ?V" using Q(3) by blast
  have "card Q = length ?V \<longleftrightarrow> Q = set ?V"
    using w QV by (metis List.finite_set card_subset_eq distinct_card)
  also have "\<dots> \<longleftrightarrow> acyclic (edge_rel g ?V)"
  proof
    assume "Q = set ?V"
    then show "acyclic (edge_rel g ?V)" using Q(2) unfolding acyclic_def edge_rel_def by (auto dest: tranclD)
  next
    assume a: "acyclic (edge_rel g ?V)"
    have "finite (edge_rel g ?V)"
      by (rule finite_subset [of _ "set ?V \<times> set ?V"]) (use w in \<open>auto simp: edge_rel_def\<close>)
    then have wf: "wf (edge_rel g ?V)" using a by (rule finite_acyclic_wf)
    show "Q = set ?V"
    proof (rule ccontr)
      assume "Q \<noteq> set ?V"
      then obtain v where "v \<in> set ?V - Q" using QV by blast
      from wfE_min [OF wf this] obtain z where z: "z \<in> set ?V - Q" "\<And>y. (y, z) \<in> edge_rel g ?V \<Longrightarrow> y \<notin> set ?V - Q" by blast
      have "z \<in> Q \<longleftrightarrow> z \<in> {v \<in> set ?V. count (edges_left g ?V Q) v = 0}" by (rule arg_cong [OF Q(3)])
      then have "0 < count (edges_left g ?V Q) z" using z(1) by simp
      then obtain u where "u \<in> set ?V - Q" "z \<in> set (succs g u)" unfolding count_edges_left by blast
      then show False using z(2) [of u] by (simp add: edge_rel_def)
    qed
  qed
  finally have "(card Q \<noteq> length ?V) = (\<not> acyclic (edge_rel g ?V))" by blast
  then show ?thesis using Q(1) by (simp add: HasCycle_def Let_def number_nodes_keeps del: number_nodes.simps)
qed

end
