(* ===== verification/DagRuns.thy ===== *)
theory DagRuns
  imports TaskDags
begin

text \<open>
  A task graph at work (\<^verbatim>\<open>src/TaskDAG.cpp\<close>): \<open>AddDependency\<close>, \<open>SignalExternal\<close>, \<open>Submit\<close>, \<open>Cancel\<close>, \<open>Fire\<close>, \<open>OnTaskFinished\<close>
  and \<open>WalkAndSeal\<close> called by any number of threads. A frame is what is left of a call up to its next atomic access, a
  thread is a stack of frames, and one event is one access of one thread, the start of a call, or the scheduler running or
  discarding a task it was handed. The Boolean input of a step is what the code cannot know: whether the scheduler takes
  the task, or whether a weak compare-exchange does not fail spuriously.
\<close>

section \<open>Frames\<close>

datatype frame =
    FFire nat NodeOutcome
  | FGo nat NodeOutcome
  | FArm nat
  | FPush nat
  | FFinish nat NodeOutcome
  | FWalk nat NodeOutcome EdgeHead edges edges
  | FDec nat
  | FRetire nat
  | FAddInc nat nat nat
  | FAddLoad nat nat nat
  | FAddTry nat nat nat EdgeHead
  | FSignal nat
  | FRoots "nat list" "nat list"
  | FFireAll "nat list"
  | FCancel
  | FCancelScope

text \<open>The address of \<open>OnTaskFinishedWrapper\<close>.\<close>

definition wrapperFn :: nat where "wrapperFn = 0"

definition ext_armed :: "TaskNode \<Rightarrow> bool" where "ext_armed nd \<longleftrightarrow> tn_extBits nd AND EXT_ARMED \<noteq> 0"
definition ext_signalled :: "TaskNode \<Rightarrow> bool" where "ext_signalled nd \<longleftrightarrow> tn_extBits nd AND EXT_SIGNALLED \<noteq> 0"

definition wrap_task :: "nat \<Rightarrow> nat \<Rightarrow> TaskDAG \<Rightarrow> TaskDAG" where
  "wrap_task n t g = upd_task t (\<lambda>k. k\<lparr>tk_fn := wrapperFn, tk_data := n\<rparr>)
     (upd_node n (\<lambda>nd. nd\<lparr>tn_owned := True, tn_origFn := tk_fn (dg_task g t), tn_origData := tk_data (dg_task g t)\<rparr>) g)"

definition unwrap_task :: "nat \<Rightarrow> nat \<Rightarrow> TaskDAG \<Rightarrow> TaskDAG" where
  "unwrap_task n t g = upd_task t (\<lambda>k. k\<lparr>tk_fn := tn_origFn (dg_node g n), tk_data := tn_origData (dg_node g n)\<rparr>) g"

definition fire_dest :: "TaskNode \<Rightarrow> Dest" where
  "fire_dest nd = (if tn_isMain nd then ToMain
     else if (tn_isFork nd \<or> tn_isLocal nd) \<and> tn_cpuID nd \<noteq> kNoAffinity then ToWorker (tn_cpuID nd) else ToTarget)"

definition Fire_claim :: "nat \<Rightarrow> NodeOutcome \<Rightarrow> TaskDAG \<Rightarrow> TaskDAG \<times> frame list" where
  [simp]: "Fire_claim n oc g = (if tn_submitted (dg_node g n) then (g, [])
     else (upd_node n (\<lambda>nd. nd\<lparr>tn_submitted := True\<rparr>) g, [FGo n oc]))"

text \<open>\<open>Fire\<close> after it has won the exchange of \<open>submitted\<close>.\<close>

definition Fire_go :: "nat \<Rightarrow> NodeOutcome \<Rightarrow> TaskDAG \<Rightarrow> TaskDAG \<times> frame list" where
  "Fire_go n oc g = (let nd = dg_node g n in
     if (if dg_cancelled g then OutcomeCancelled else oc) = OutcomeCancelled
     then (DisposeUnexecutedTask n g, [FFinish n OutcomeCancelled])
     else if tn_isGate nd then (g, [FFinish n Completed])
     else if tn_isExternal nd then (g, [FArm n])
     else (case tn_task nd of None \<Rightarrow> (g, [FFinish n Completed]) | Some t \<Rightarrow> (wrap_task n t g, [FPush n])))"

definition Fire_push :: "bool \<Rightarrow> nat \<Rightarrow> TaskDAG \<Rightarrow> TaskDAG \<times> frame list" where
  "Fire_push queued n g = (case tn_task (dg_node g n) of None \<Rightarrow> (g, [])
     | Some t \<Rightarrow> if queued then (g\<lparr>dg_queue := dg_queue g @ [(fire_dest (dg_node g n), t)]\<rparr>, [])
         else (DisposeUnexecutedTask n (unwrap_task n t g), [FFinish n OutcomeCancelled]))"

definition Fire_arm :: "nat \<Rightarrow> TaskDAG \<Rightarrow> TaskDAG \<times> frame list" where
  "Fire_arm n g = (upd_node n (\<lambda>nd. nd\<lparr>tn_extBits := tn_extBits nd OR EXT_ARMED\<rparr>) g,
     if ext_signalled (dg_node g n) then [FFinish n Completed] else [])"

definition SignalExternal :: "nat \<Rightarrow> TaskDAG \<Rightarrow> TaskDAG \<times> frame list" where
  "SignalExternal n g = (upd_node n (\<lambda>nd. nd\<lparr>tn_extBits := tn_extBits nd OR EXT_SIGNALLED\<rparr>) g,
     if ext_signalled (dg_node g n) then [] else if ext_armed (dg_node g n) then [FFinish n Completed] else [])"

text \<open>What a finished dependency does to one dependent, in \<open>OnTaskFinished\<close> and on a sealed list in \<open>AddDependency\<close>.\<close>

definition release :: "NodeOutcome \<Rightarrow> nat \<Rightarrow> TaskDAG \<Rightarrow> frame list" where
  "release oc d g = (if oc = OutcomeCancelled then [FFire d OutcomeCancelled]
     else if tn_gateType (dg_node g d) = LOR then [FFire d Completed] else [FDec d])"

text \<open>\<open>OnTaskFinished\<close> starts with the load of \<open>WalkAndSeal\<close> and ends with the retirement of the node.\<close>

definition OnTaskFinished :: "nat \<Rightarrow> NodeOutcome \<Rightarrow> TaskDAG \<Rightarrow> TaskDAG \<times> frame list" where
  [simp]: "OnTaskFinished n oc g = (g, [FWalk n oc (tn_firstEdge (dg_node g n)) [] (eh_ptr (tn_firstEdge (dg_node g n)))])"

definition RetireNode :: "nat \<Rightarrow> TaskDAG \<Rightarrow> TaskDAG \<times> frame list" where
  [simp]: "RetireNode n g = (g\<lparr>dg_retired := dg_retired g @ [n]\<rparr>, [])"

definition Walk_edge :: "nat \<Rightarrow> NodeOutcome \<Rightarrow> EdgeHead \<Rightarrow> edges \<Rightarrow> edges \<Rightarrow> TaskDAG \<Rightarrow> TaskDAG \<times> frame list" where
  "Walk_edge n oc head done e g = (case e of [] \<Rightarrow> (g, [])
     | x # es \<Rightarrow> (g, release oc (ed_dep x) g @ [FWalk n oc head done es]))"

definition Walk_seal :: "bool \<Rightarrow> nat \<Rightarrow> NodeOutcome \<Rightarrow> EdgeHead \<Rightarrow> TaskDAG \<Rightarrow> TaskDAG \<times> frame list" where
  "Walk_seal ok n oc head g = (let now = tn_firstEdge (dg_node g n) in
     if ok \<and> now = head
     then (upd_node n (\<lambda>nd. nd\<lparr>tn_firstEdge := \<lparr>eh_ptr = eh_ptr head, eh_sealed = True, eh_cancelled = (oc = OutcomeCancelled)\<rparr>\<rparr>) g, [FRetire n])
     else (g, [FWalk n oc now (eh_ptr head) (eh_ptr now)]))"

definition Dec_dep :: "nat \<Rightarrow> TaskDAG \<Rightarrow> TaskDAG \<times> frame list" where
  "Dec_dep d g = (upd_node d (\<lambda>nd. nd\<lparr>tn_deps := tn_deps nd - 1\<rparr>) g,
     if tn_deps (dg_node g d) - 1 = 0 then [FFire d Completed] else [])"

definition Add_count :: "nat \<Rightarrow> nat \<Rightarrow> nat \<Rightarrow> TaskDAG \<Rightarrow> TaskDAG \<times> frame list" where
  [simp]: "Add_count d p e g = (upd_node d (\<lambda>nd. nd\<lparr>tn_deps := tn_deps nd + 1\<rparr>) g, [FAddLoad d p e])"

definition Add_try :: "bool \<Rightarrow> nat \<Rightarrow> nat \<Rightarrow> nat \<Rightarrow> EdgeHead \<Rightarrow> TaskDAG \<Rightarrow> TaskDAG \<times> frame list" where
  "Add_try ok d p e head g = (let now = tn_firstEdge (dg_node g p) in
     if eh_sealed head then (g, release (if eh_cancelled head then OutcomeCancelled else Completed) d g)
     else if ok \<and> now = head
     then (upd_node p (\<lambda>nd. nd\<lparr>tn_firstEdge :=
             \<lparr>eh_ptr = \<lparr>ed_at = e, ed_dep = d\<rparr> # eh_ptr head, eh_sealed = False, eh_cancelled = False\<rparr>\<rparr>) g, [])
     else (g, [FAddTry d p e now]))"

text \<open>The two loops at the end of \<open>Submit\<close>.\<close>

fun Submit_roots :: "nat list \<Rightarrow> nat list \<Rightarrow> TaskDAG \<Rightarrow> TaskDAG \<times> frame list" where
  "Submit_roots [] roots g = (g\<lparr>dg_nodes := []\<rparr>, [FFireAll roots])"
| "Submit_roots (n # ns) roots g = (g, [FRoots ns (if tn_deps (dg_node g n) = 0 then roots @ [n] else roots)])"

fun Submit_fire :: "nat list \<Rightarrow> frame list" where
  "Submit_fire [] = []"
| "Submit_fire (r # rs) = [FFire r Completed, FFireAll rs]"

fun exec :: "bool \<Rightarrow> frame \<Rightarrow> TaskDAG \<Rightarrow> TaskDAG \<times> frame list" where
  "exec b (FFire n oc) g = Fire_claim n oc g"
| "exec b (FGo n oc) g = Fire_go n oc g"
| "exec b (FArm n) g = Fire_arm n g"
| "exec b (FPush n) g = Fire_push b n g"
| "exec b (FFinish n oc) g = OnTaskFinished n oc g"
| "exec b (FWalk n oc head done e) g = (if e \<noteq> done then Walk_edge n oc head done e g else Walk_seal b n oc head g)"
| "exec b (FDec d) g = Dec_dep d g"
| "exec b (FRetire n) g = RetireNode n g"
| "exec b (FAddInc d p e) g = Add_count d p e g"
| "exec b (FAddLoad d p e) g = (g, [FAddTry d p e (tn_firstEdge (dg_node g p))])"
| "exec b (FAddTry d p e head) g = Add_try b d p e head g"
| "exec b (FSignal n) g = SignalExternal n g"
| "exec b (FRoots todo roots) g = Submit_roots todo roots g"
| "exec b (FFireAll rs) g = (g, Submit_fire rs)"
| "exec b FCancel g = (dag_Cancel_flag g, [FCancelScope])"
| "exec b FCancelScope g = (dag_Cancel_scope g, [])"

section \<open>Runs\<close>

text \<open>\<open>dr_all\<close> are the nodes ever created, \<open>dr_refused\<close> says that \<open>Submit\<close> found a cycle, \<open>dr_ran\<close> lists the nodes whose task ran.\<close>

record dag_run =
  dr_g :: TaskDAG
  dr_threads :: "frame list list"
  dr_all :: "nat list"
  dr_refused :: bool
  dr_ran :: "nat list"

datatype event =
    EFrame nat bool
  | ECreate nat ptr u8 u8
  | ECreateMain nat ptr u8
  | EGate nat LogicType
  | EExternal nat
  | EAdd nat ptr ptr ptr
  | ESignal nat ptr
  | ESignalNode nat ptr
  | ECancel nat
  | ESubmit nat
  | ERun nat Dest nat
  | EDiscard nat Dest nat

definition dag_new :: "(nat \<Rightarrow> Task) \<Rightarrow> u32 \<Rightarrow> cancel_table \<Rightarrow> nat \<Rightarrow> dag_run" where
  "dag_new tasks scope tokens threads =
    \<lparr>dr_g = \<lparr>dg_node = (\<lambda>_. new_TaskNode None), dg_task = tasks, dg_nodes = [], dg_submitted = False, dg_cancelled = False,
       dg_scope = scope, dg_tokens = tokens, dg_queue = [], dg_wgDone = [], dg_freed = [], dg_retired = []\<rparr>,
     dr_threads = replicate threads [], dr_all = [], dr_refused = False, dr_ran = []\<rparr>"

definition calls :: "nat \<Rightarrow> frame list \<Rightarrow> dag_run \<Rightarrow> dag_run option" where
  "calls i fs s = (if i < length (dr_threads s) \<and> dr_threads s ! i = [] then Some (s\<lparr>dr_threads := (dr_threads s)[i := fs]\<rparr>) else None)"

text \<open>A node is created in fresh memory; a task belongs to one node and is named by no other part of the graph.\<close>

definition creates :: "nat \<Rightarrow> ptr \<Rightarrow> (ptr \<times> TaskDAG) option \<Rightarrow> dag_run \<Rightarrow> dag_run option" where
  "creates n t r s = (case r of Some (Some _, g) \<Rightarrow>
       if n \<notin> set (dr_all s) \<and> (\<forall>m \<in> set (dr_all s). t = None \<or> tn_task (dg_node (dr_g s) m) \<noteq> t)
       then Some (s\<lparr>dr_g := g, dr_all := dr_all s @ [n]\<rparr>) else None
     | _ \<Rightarrow> None)"

definition takes :: "Dest \<Rightarrow> nat \<Rightarrow> dag_run \<Rightarrow> dag_run" where
  "takes w t s = s\<lparr>dr_g := (dr_g s)\<lparr>dg_queue := remove1 (w, t) (dg_queue (dr_g s))\<rparr>\<rparr>"

text \<open>The scheduler runs a task (\<open>OnTaskFinishedWrapper\<close>) or drops it (\<open>OnTaskDiscarded\<close>).\<close>

definition OnTaskFinishedWrapper :: "nat \<Rightarrow> Dest \<Rightarrow> nat \<Rightarrow> dag_run \<Rightarrow> dag_run option" where
  [simp]: "OnTaskFinishedWrapper i w t s =
    calls i [FFinish (tk_data (dg_task (dr_g s) t)) Completed] (takes w t s\<lparr>dr_ran := dr_ran s @ [tk_data (dg_task (dr_g s) t)]\<rparr>)"

definition OnTaskDiscarded :: "nat \<Rightarrow> Dest \<Rightarrow> nat \<Rightarrow> dag_run \<Rightarrow> dag_run option" where
  [simp]: "OnTaskDiscarded i w t s = (if tk_fn (dg_task (dr_g s) t) \<noteq> wrapperFn then Some (takes w t s)
     else calls i [FFinish (tk_data (dg_task (dr_g s) t)) OutcomeCancelled] (takes w t s))"

text \<open>
  Entering \<open>AddDependency\<close> with the edge that \<open>AllocEdge\<close> returned (\<open>None\<close>: the abort on a null edge), \<open>SignalExternal\<close>, and the
  free function \<open>SignalExternalNode\<close>, which finds the graph in the node.
\<close>

definition AddDependency :: "ptr \<Rightarrow> ptr \<Rightarrow> ptr \<Rightarrow> frame list option" where
  "AddDependency dependent dependency e = (case (dependent, dependency) of
     (Some d, Some p) \<Rightarrow> (case e of None \<Rightarrow> None | Some e \<Rightarrow> Some [FAddInc d p e]) | _ \<Rightarrow> Some [])"

definition SignalExternal_call :: "ptr \<Rightarrow> frame list" where
  "SignalExternal_call n = (case n of None \<Rightarrow> [] | Some n \<Rightarrow> [FSignal n])"

definition SignalExternalNode :: "ptr \<Rightarrow> TaskDAG \<Rightarrow> frame list" where
  "SignalExternalNode n g = (case n of None \<Rightarrow> [] | Some n \<Rightarrow> if tn_owned (dg_node g n) then SignalExternal_call (Some n) else [])"

definition own_node :: "dag_run \<Rightarrow> ptr \<Rightarrow> bool" where
  "own_node s n \<longleftrightarrow> (case n of None \<Rightarrow> True | Some n \<Rightarrow> n \<in> set (dr_all s))"

fun dag_do :: "event \<Rightarrow> dag_run \<Rightarrow> dag_run option" where
  "dag_do (EFrame i b) s = (if i < length (dr_threads s) then
     (case dr_threads s ! i of [] \<Rightarrow> None
      | f # fs \<Rightarrow> (case exec b f (dr_g s) of (g, fs') \<Rightarrow> Some (s\<lparr>dr_g := g, dr_threads := (dr_threads s)[i := fs' @ fs]\<rparr>)))
     else None)"
| "dag_do (ECreate n t pri cpu) s = creates n t (CreateNode (Some n) t pri cpu (dr_g s)) s"
| "dag_do (ECreateMain n t pri) s = creates n t (CreateMainNode (Some n) t pri (dr_g s)) s"
| "dag_do (EGate n ty) s = creates n None (CreateGate (Some n) ty (dr_g s)) s"
| "dag_do (EExternal n) s = creates n None (CreateExternalNode (Some n) (dr_g s)) s"
| "dag_do (EAdd i d p e) s = (if own_node s d \<and> own_node s p then
     (case AddDependency d p e of None \<Rightarrow> None | Some fs \<Rightarrow> calls i fs s) else None)"
| "dag_do (ESignal i n) s = (if own_node s n then calls i (SignalExternal_call n) s else None)"
| "dag_do (ESignalNode i n) s = (if own_node s n then calls i (SignalExternalNode n (dr_g s)) s else None)"
| "dag_do (ECancel i) s = calls i [FCancel] s"
| "dag_do (ESubmit i) s = (if list_all (\<lambda>fs. fs = []) (dr_threads s) then
     (case Submit_check (dr_g s) of None \<Rightarrow> None
      | Some (ok, g) \<Rightarrow> calls i (if ok then [FRoots (dg_nodes g) []] else []) (s\<lparr>dr_g := g, dr_refused := dr_refused s \<or> \<not> ok\<rparr>))
     else None)"
| "dag_do (ERun i w t) s = (if (w, t) \<in> set (dg_queue (dr_g s)) then OnTaskFinishedWrapper i w t s else None)"
| "dag_do (EDiscard i w t) s = (if (w, t) \<in> set (dg_queue (dr_g s)) then OnTaskDiscarded i w t s else None)"

definition dag_step :: "dag_run \<Rightarrow> dag_run \<Rightarrow> bool" where
  "dag_step s t \<longleftrightarrow> (\<exists>ev. dag_do ev s = Some t)"

fun dag_runs :: "event list \<Rightarrow> dag_run \<Rightarrow> dag_run option" where
  "dag_runs [] s = Some s"
| "dag_runs (ev # evs) s = (case dag_do ev s of None \<Rightarrow> None | Some t \<Rightarrow> dag_runs evs t)"

lemma dag_runs_reach: "dag_runs evs s = Some t \<Longrightarrow> reach dag_step r s \<Longrightarrow> reach dag_step r t"
proof (induction evs arbitrary: s)
  case (Cons ev evs)
  then obtain u where "dag_do ev s = Some u" "dag_runs evs u = Some t" by (auto split: option.splits)
  then show ?case using Cons by (meson dag_step_def reach.reach_step)
qed simp

end
