(* ===== verification/DagFinish.thy ===== *)
theory DagFinish
  imports DagRuns
begin

text \<open>
  What holds in every state of a task graph at work, and what follows: every node finishes at most once; a node that waits
  for all its dependencies is released only when none of them is left; and once the threads are idle, no node of an
  acyclic graph is left behind. The invariants are stated over the multiset of the frames of all threads.
\<close>

section \<open>What the operations leave alone\<close>

lemma upd_node_simps [simp]:
  "dg_node (upd_node n f g) = (dg_node g)(n := f (dg_node g n))"
  "dg_task (upd_node n f g) = dg_task g" "dg_nodes (upd_node n f g) = dg_nodes g" "dg_submitted (upd_node n f g) = dg_submitted g"
  "dg_cancelled (upd_node n f g) = dg_cancelled g" "dg_queue (upd_node n f g) = dg_queue g" "dg_retired (upd_node n f g) = dg_retired g"
  by (simp_all add: upd_node_def)

lemma upd_task_simps [simp]:
  "dg_task (upd_task t f g) = (dg_task g)(t := f (dg_task g t))"
  "dg_node (upd_task t f g) = dg_node g" "dg_nodes (upd_task t f g) = dg_nodes g" "dg_submitted (upd_task t f g) = dg_submitted g"
  "dg_cancelled (upd_task t f g) = dg_cancelled g" "dg_queue (upd_task t f g) = dg_queue g" "dg_retired (upd_task t f g) = dg_retired g"
  by (simp_all add: upd_task_def)

lemma dispose_simps [simp]:
  "dg_task (DisposeUnexecutedTask n g) = dg_task g" "dg_nodes (DisposeUnexecutedTask n g) = dg_nodes g"
  "dg_submitted (DisposeUnexecutedTask n g) = dg_submitted g" "dg_queue (DisposeUnexecutedTask n g) = dg_queue g"
  "dg_retired (DisposeUnexecutedTask n g) = dg_retired g"
  "dg_node (DisposeUnexecutedTask n g) = (dg_node g)(n := (dg_node g n)\<lparr>tn_task := None\<rparr>)"
  by (auto simp: DisposeUnexecutedTask_def split: option.splits)

lemma cancel_simps [simp]:
  "dg_node (dag_Cancel_flag g) = dg_node g" "dg_task (dag_Cancel_flag g) = dg_task g" "dg_nodes (dag_Cancel_flag g) = dg_nodes g"
  "dg_submitted (dag_Cancel_flag g) = dg_submitted g" "dg_queue (dag_Cancel_flag g) = dg_queue g" "dg_retired (dag_Cancel_flag g) = dg_retired g"
  "dg_node (dag_Cancel_scope g) = dg_node g" "dg_task (dag_Cancel_scope g) = dg_task g" "dg_nodes (dag_Cancel_scope g) = dg_nodes g"
  "dg_submitted (dag_Cancel_scope g) = dg_submitted g" "dg_queue (dag_Cancel_scope g) = dg_queue g" "dg_retired (dag_Cancel_scope g) = dg_retired g"
  by (simp_all add: dag_Cancel_flag_def dag_Cancel_scope_def)

lemma ext_bits:
  "ext_armed nd \<longleftrightarrow> bit (tn_extBits nd) 0" "ext_signalled nd \<longleftrightarrow> bit (tn_extBits nd) 1"
  "bit (v OR EXT_ARMED) k \<longleftrightarrow> bit v k \<or> k = 0" "bit (v OR EXT_SIGNALLED) k \<longleftrightarrow> bit v k \<or> k = 1"
proof -
  have e: "EXT_ARMED = 2 ^ 0" "EXT_SIGNALLED = 2 ^ 1" by (simp_all add: EXT_ARMED_def EXT_SIGNALLED_def)
  show "ext_armed nd \<longleftrightarrow> bit (tn_extBits nd) 0" unfolding ext_armed_def e by (simp only: and_exp_eq_0_iff_not_bit not_not)
  show "ext_signalled nd \<longleftrightarrow> bit (tn_extBits nd) 1" unfolding ext_signalled_def e by (simp only: and_exp_eq_0_iff_not_bit not_not)
  show "bit (v OR EXT_ARMED) k \<longleftrightarrow> bit v k \<or> k = 0" "bit (v OR EXT_SIGNALLED) k \<longleftrightarrow> bit v k \<or> k = 1"
    unfolding e bit_or_iff bit_exp_iff by auto
qed

section \<open>The invariant\<close>

text \<open>The frames that hold the one right to finish a node.\<close>

fun tok :: "nat \<Rightarrow> frame \<Rightarrow> nat" where
  "tok m (FGo n _) = (if n = m then 1 else 0)"
| "tok m (FArm n) = (if n = m then 1 else 0)"
| "tok m (FPush n) = (if n = m then 1 else 0)"
| "tok m (FFinish n _) = (if n = m then 1 else 0)"
| "tok m (FWalk n _ _ _ _) = (if n = m then 1 else 0)"
| "tok m (FRetire n) = (if n = m then 1 else 0)"
| "tok m _ = 0"

definition ext_waiting :: "TaskNode \<Rightarrow> bool" where "ext_waiting nd \<longleftrightarrow> ext_armed nd \<and> \<not> ext_signalled nd"

definition queued :: "TaskDAG \<Rightarrow> nat \<Rightarrow> nat" where
  "queued g n = count (mset (map (\<lambda>(_, t). tk_data (dg_task g t)) (dg_queue g))) n"

definition tokens :: "TaskDAG \<Rightarrow> frame multiset \<Rightarrow> nat \<Rightarrow> nat" where
  "tokens g F n = (\<Sum>f \<in># F. tok n f) + queued g n + (if ext_waiting (dg_node g n) then 1 else 0) + count (mset (dg_retired g)) n"

definition one_finish :: "TaskDAG \<Rightarrow> frame multiset \<Rightarrow> bool" where
  [inv_defs]: "one_finish g F \<longleftrightarrow> (\<forall>n. tokens g F n = (if tn_submitted (dg_node g n) then 1 else 0) \<and>
     count F (FRetire n) + count (mset (dg_retired g)) n = (if eh_sealed (tn_firstEdge (dg_node g n)) then 1 else 0))"

fun frame_ok :: "TaskDAG \<Rightarrow> nat set \<Rightarrow> frame \<Rightarrow> bool" where
  "frame_ok g A (FFire n _) \<longleftrightarrow> n \<in> A"
| "frame_ok g A (FGo n _) \<longleftrightarrow> n \<in> A"
| "frame_ok g A (FArm n) \<longleftrightarrow> n \<in> A"
| "frame_ok g A (FPush n) \<longleftrightarrow> n \<in> A \<and> (\<exists>t. tn_task (dg_node g n) = Some t \<and> tk_data (dg_task g t) = n \<and> tk_fn (dg_task g t) = wrapperFn)"
| "frame_ok g A (FFinish n _) \<longleftrightarrow> n \<in> A"
| "frame_ok g A (FWalk n _ head done e) \<longleftrightarrow> n \<in> A \<and> \<not> eh_sealed head \<and>
    (\<exists>x. eh_ptr (tn_firstEdge (dg_node g n)) = x @ eh_ptr head) \<and> (\<exists>y. eh_ptr head = y @ e) \<and> (\<exists>r. e = r @ done)"
| "frame_ok g A (FDec n) \<longleftrightarrow> n \<in> A"
| "frame_ok g A (FRetire n) \<longleftrightarrow> n \<in> A"
| "frame_ok g A (FAddInc d p _) \<longleftrightarrow> d \<in> A \<and> p \<in> A"
| "frame_ok g A (FAddLoad d p _) \<longleftrightarrow> d \<in> A \<and> p \<in> A"
| "frame_ok g A (FAddTry d p _ _) \<longleftrightarrow> d \<in> A \<and> p \<in> A"
| "frame_ok g A (FSignal n) \<longleftrightarrow> n \<in> A"
| "frame_ok g A (FRoots ns rs) \<longleftrightarrow> set ns \<subseteq> A \<and> set rs \<subseteq> A"
| "frame_ok g A (FFireAll rs) \<longleftrightarrow> set rs \<subseteq> A"
| "frame_ok g A FCancel \<longleftrightarrow> True"
| "frame_ok g A FCancelScope \<longleftrightarrow> True"

definition blank :: "TaskNode \<Rightarrow> bool" where
  "blank nd \<longleftrightarrow> \<not> tn_submitted nd \<and> tn_deps nd = 0 \<and> tn_extBits nd = 0 \<and>
     tn_firstEdge nd = \<lparr>eh_ptr = [], eh_sealed = False, eh_cancelled = False\<rparr>"

definition shape :: "TaskDAG \<Rightarrow> frame multiset \<Rightarrow> nat set \<Rightarrow> bool" where
  [inv_defs]: "shape g F A \<longleftrightarrow> (\<forall>f \<in># F. frame_ok g A f) \<and> (\<forall>n. n \<notin> A \<longrightarrow> blank (dg_node g n)) \<and>
    set (dg_retired g) \<subseteq> A \<and> (\<forall>n. set (succs g n) \<subseteq> A) \<and> set (dg_nodes g) \<subseteq> A"

definition tasks_ok :: "TaskDAG \<Rightarrow> nat set \<Rightarrow> bool" where
  [inv_defs]: "tasks_ok g A \<longleftrightarrow>
    (\<forall>(w, t) \<in> set (dg_queue g). tk_fn (dg_task g t) = wrapperFn \<and> tk_data (dg_task g t) \<in> A \<and>
       tn_task (dg_node g (tk_data (dg_task g t))) = Some t) \<and>
    (\<forall>m \<in> A. \<forall>n \<in> A. tn_task (dg_node g m) = tn_task (dg_node g n) \<longrightarrow> tn_task (dg_node g m) \<noteq> None \<longrightarrow> m = n)"

text \<open>The edges into a node that no finished dependency has accounted for yet, with the callers that have counted one.\<close>

definition cnt :: "nat \<Rightarrow> edges \<Rightarrow> int" where
  "cnt d es = int (count (mset (map ed_dep es)) d)"

definition pend :: "TaskDAG \<Rightarrow> nat \<Rightarrow> nat \<Rightarrow> int" where
  "pend g d n = (let h = tn_firstEdge (dg_node g n) in if eh_sealed h then 0 else cnt d (eh_ptr h))"

fun contr :: "nat \<Rightarrow> frame \<Rightarrow> int" where
  "contr d (FWalk n oc head done e) = cnt d (take (length e - length done) e) - cnt d (eh_ptr head)"
| "contr d (FDec m) = (if m = d then 1 else 0)"
| "contr d (FAddLoad m _ _) = (if m = d then 1 else 0)"
| "contr d (FAddTry m _ _ _) = (if m = d then 1 else 0)"
| "contr d _ = 0"

definition outstanding :: "TaskDAG \<Rightarrow> frame multiset \<Rightarrow> nat set \<Rightarrow> nat \<Rightarrow> int" where
  "outstanding g F A d = (\<Sum>n \<in> A. pend g d n) + (\<Sum>f \<in># F. contr d f)"

definition fired :: "TaskDAG \<Rightarrow> frame multiset \<Rightarrow> nat \<Rightarrow> bool" where
  "fired g F d \<longleftrightarrow> tn_submitted (dg_node g d) \<or> (\<exists>oc. FFire d oc \<in># F)"

definition balanced :: "TaskDAG \<Rightarrow> frame multiset \<Rightarrow> nat set \<Rightarrow> bool" where
  [inv_defs]: "balanced g F A \<longleftrightarrow> (\<forall>d. fired g F d \<or> tn_deps (dg_node g d) = outstanding g F A d)"

fun lists_root :: "nat \<Rightarrow> frame \<Rightarrow> bool" where
  "lists_root d (FRoots ns rs) \<longleftrightarrow> d \<in> set ns \<or> d \<in> set rs"
| "lists_root d (FFireAll rs) \<longleftrightarrow> d \<in> set rs"
| "lists_root d _ \<longleftrightarrow> False"

definition covered :: "TaskDAG \<Rightarrow> frame multiset \<Rightarrow> nat set \<Rightarrow> bool" where
  [inv_defs]: "covered g F A \<longleftrightarrow> (dg_submitted g \<longrightarrow>
     (\<forall>d \<in> A. fired g F d \<or> tn_deps (dg_node g d) \<noteq> 0 \<or> (\<exists>f \<in># F. lists_root d f)))"

fun build_frame :: "frame \<Rightarrow> bool" where
  "build_frame (FAddInc _ _ _) = True"
| "build_frame (FAddLoad _ _ _) = True"
| "build_frame (FAddTry _ _ _ head) \<longleftrightarrow> \<not> eh_sealed head"
| "build_frame (FSignal _) = True"
| "build_frame FCancel = True"
| "build_frame FCancelScope = True"
| "build_frame _ = False"

definition building :: "TaskDAG \<Rightarrow> frame multiset \<Rightarrow> nat list \<Rightarrow> bool" where
  [inv_defs]: "building g F ns \<longleftrightarrow> (\<not> dg_submitted g \<longrightarrow> dg_nodes g = ns \<and> (\<forall>f \<in># F. build_frame f) \<and>
     (\<forall>n. \<not> tn_submitted (dg_node g n) \<and> \<not> eh_sealed (tn_firstEdge (dg_node g n))))"

definition dag_core :: "TaskDAG \<Rightarrow> frame multiset \<Rightarrow> nat list \<Rightarrow> bool" where
  [inv_defs]: "dag_core g F ns \<longleftrightarrow> distinct ns \<and> one_finish g F \<and> shape g F (set ns) \<and> tasks_ok g (set ns) \<and>
     balanced g F (set ns) \<and> covered g F (set ns) \<and> building g F ns"

definition all_frames :: "dag_run \<Rightarrow> frame multiset" where
  "all_frames s = mset (concat (dr_threads s))"

definition dag_inv :: "dag_run \<Rightarrow> bool" where
  [inv_defs]: "dag_inv s \<longleftrightarrow> dr_refused s \<or> dag_core (dr_g s) (all_frames s) (dr_all s)"

section \<open>One step of a frame\<close>

lemmas exec_defs = Fire_go_def Fire_push_def Fire_arm_def SignalExternal_def release_def Walk_edge_def Walk_seal_def Dec_dep_def
  Add_try_def wrap_task_def unwrap_task_def

lemma exec_submitted: "exec b f g = (g', fs) \<Longrightarrow> tn_submitted (dg_node g n) \<Longrightarrow> tn_submitted (dg_node g' n)"
  by (cases f; cases "case f of FRoots ns _ \<Rightarrow> ns | _ \<Rightarrow> []")
    (auto simp: exec_defs Let_def split: if_splits option.splits list.splits)

lemma exec_flag: "exec b f g = (g', fs) \<Longrightarrow> dg_submitted g' = dg_submitted g"
  by (cases f; cases "case f of FRoots ns _ \<Rightarrow> ns | _ \<Rightarrow> []")
    (auto simp: exec_defs Let_def split: if_splits option.splits list.splits)

lemma one_of_five:
  "a + b + c + (if w then 1 else 0) + e = (if p then 1 else (0 :: nat)) \<Longrightarrow> a \<noteq> 0 \<Longrightarrow> a = 1 \<and> b = 0 \<and> c = 0 \<and> \<not> w \<and> e = 0 \<and> p"
  by (auto split: if_splits)

lemma token_once:
  assumes "one_finish g (add_mset f R)" "tok n f \<noteq> 0"
  shows "tok n f = 1" "h \<in># R \<Longrightarrow> tok n h = 0" "queued g n = 0" "\<not> ext_waiting (dg_node g n)" "count (mset (dg_retired g)) n = 0"
    "tn_submitted (dg_node g n)"
proof -
  have "tok n f + (\<Sum>f \<in># R. tok n f) + queued g n + (if ext_waiting (dg_node g n) then 1 else 0) + count (mset (dg_retired g)) n
      = (if tn_submitted (dg_node g n) then 1 else 0)"
    using assms(1) unfolding one_finish_def tokens_def by simp
  from one_of_five [OF this assms(2)]
  have 1: "tok n f = 1 \<and> (\<Sum>f \<in># R. tok n f) = 0 \<and> queued g n = 0 \<and> \<not> ext_waiting (dg_node g n) \<and>
    count (mset (dg_retired g)) n = 0 \<and> tn_submitted (dg_node g n)" .
  then show "tok n f = 1" "queued g n = 0" "\<not> ext_waiting (dg_node g n)" "count (mset (dg_retired g)) n = 0"
    "tn_submitted (dg_node g n)" by blast+
  have "(\<Sum>f \<in># R. tok n f) = 0" using 1 by blast
  then show "h \<in># R \<Longrightarrow> tok n h = 0" by (simp add: sum_mset_0_iff)
qed

lemma holder_unsealed:
  assumes "one_finish g (add_mset f R)" "tok n f \<noteq> 0" "f \<noteq> FRetire n"
  shows "\<not> eh_sealed (tn_firstEdge (dg_node g n))"
proof
  assume "eh_sealed (tn_firstEdge (dg_node g n))"
  then have "count (add_mset f R) (FRetire n) + count (mset (dg_retired g)) n = 1"
    using assms(1) unfolding one_finish_def by presburger
  then have "count R (FRetire n) \<noteq> 0" using token_once(5) [OF assms(1,2)] assms(3) by simp
  then have "FRetire n \<in># R" by (metis count_eq_zero_iff)
  then show False using token_once(2) [OF assms(1,2), of "FRetire n"] by simp
qed

lemma queue_at: "(w, t) \<in> set (dg_queue g) \<Longrightarrow> queued g (tk_data (dg_task g t)) \<noteq> 0"
  by (force simp: queued_def count_eq_zero_iff)

lemma task_not_queued:
  assumes "one_finish g (add_mset f R)" "tok n f \<noteq> 0" "tasks_ok g A" "n \<in> A" "tn_task (dg_node g n) = Some t"
  shows "(w, t) \<notin> set (dg_queue g)"
proof
  assume q: "(w, t) \<in> set (dg_queue g)"
  then have "tk_data (dg_task g t) \<in> A" "tn_task (dg_node g (tk_data (dg_task g t))) = Some t"
    using assms(3) unfolding tasks_ok_def by blast+
  then have "tk_data (dg_task g t) = n" using assms(3,4,5) unfolding tasks_ok_def by (metis option.distinct(1))
  then show False using queue_at [OF q] token_once(3) [OF assms(1,2)] by simp
qed

lemma queued_cong: "\<forall>(w, t) \<in> set (dg_queue g). tk_data (dg_task g' t) = tk_data (dg_task g t) \<Longrightarrow> dg_queue g' = dg_queue g \<Longrightarrow> queued g' n = queued g n"
  unfolding queued_def by (rule arg_cong [where f = "\<lambda>x. count (mset x) n"]) auto

text \<open>A frame other than the one that moves keeps its meaning.\<close>

lemma frame_ok_keep:
  assumes "exec b f g = (g', fs)" "one_finish g (add_mset f R)" "tasks_ok g A" "frame_ok g A f" "frame_ok g A h" "h \<in># R"
  shows "frame_ok g' A h"
proof -
  have walk: "\<exists>x. eh_ptr (tn_firstEdge (dg_node g' n)) = x @ eh_ptr (tn_firstEdge (dg_node g n))" for n
    using assms(1) by (cases f; cases "case f of FRoots ns _ \<Rightarrow> ns | _ \<Rightarrow> []")
      (auto simp: exec_defs Let_def split: if_splits option.splits list.splits)
  have push: "tn_task (dg_node g' n) = Some t \<and> dg_task g' t = dg_task g t"
    if h: "h = FPush n" "n \<in> A" "tn_task (dg_node g n) = Some t" for n t
  proof -
    have "tok n f = 0" using token_once(2) [OF assms(2) _ assms(6), of n] h(1) by (cases "tok n f = 0") auto
    then have ne: "\<forall>oc. f \<noteq> FGo n oc" "f \<noteq> FPush n" by auto
    have "t \<noteq> u" if "f = FPush m \<or> (\<exists>oc. f = FGo m oc)" "tn_task (dg_node g m) = Some u" for m u
      using assms(3,4) h ne that unfolding tasks_ok_def by (metis frame_ok.simps(2,4) option.distinct(1))
    with ne show ?thesis using assms(1) h(3) by (cases f; cases "case f of FRoots ns _ \<Rightarrow> ns | _ \<Rightarrow> []")
        (auto simp: exec_defs Let_def split: if_splits option.splits list.splits)
  qed
  show ?thesis
  proof (cases h)
    case (FWalk n oc head d e)
    then show ?thesis using assms(5) walk [of n] by (fastforce simp: append_assoc)
  next
    case (FPush n)
    then show ?thesis using assms(5) push by auto
  qed (use assms(5) in auto)
qed

lemma frame_ok_new:
  assumes "exec b f g = (g', fs)" "one_finish g (add_mset f R)" "shape g (add_mset f R) A" "h \<in> set fs"
  shows "frame_ok g' A h"
proof -
  have ok: "frame_ok g A f" "\<And>n. set (succs g n) \<subseteq> A" using assms(3) unfolding shape_def by auto
  show ?thesis
  proof (cases f)
    case (FFinish n oc)
    then have "\<not> eh_sealed (tn_firstEdge (dg_node g n))" using holder_unsealed [OF assms(2), of n] by simp
    then show ?thesis using assms(1,4) ok FFinish by (auto simp: Let_def)
  next
    case (FWalk n oc head d e)
    show ?thesis
    proof (cases "e = d")
      case False
      then obtain x r where e: "e = x # r @ d" using ok(1) FWalk by (auto simp: append_eq_Cons_conv) (metis append_Cons neq_Nil_conv append_Nil)
      have "x \<in> set (eh_ptr (tn_firstEdge (dg_node g n)))" using ok(1) FWalk e by fastforce
      then have "ed_dep x \<in> A" using ok(2) [of n] by (auto simp: succs_def)
      then show ?thesis using assms(1,4) ok(1) FWalk False e by (auto simp: exec_defs split: if_splits)
    next
      case True
      moreover have "\<not> eh_sealed (tn_firstEdge (dg_node g n))" using holder_unsealed [OF assms(2), of n] FWalk by simp
      ultimately show ?thesis using assms(1,4) ok(1) FWalk by (auto simp: exec_defs Let_def split: if_splits)
    qed
  next
    case (FRoots ns rs)
    then show ?thesis using assms(1,4) ok by (cases ns) (auto split: if_splits)
  next
    case (FFireAll rs)
    then show ?thesis using assms(1,4) ok by (cases rs) auto
  qed (use assms(1,4) ok in \<open>auto simp: exec_defs Let_def split: if_splits option.splits\<close>)
qed

lemma exec_nodes:
  assumes "exec b f g = (g', fs)" "frame_ok g A f"
  shows "n \<notin> A \<Longrightarrow> dg_node g' n = dg_node g n" "set (dg_retired g') \<subseteq> A \<union> set (dg_retired g)"
    "set (succs g' n) \<subseteq> A \<union> set (succs g n)" "set (dg_nodes g') \<subseteq> set (dg_nodes g)"
  using assms by (cases f; cases "case f of FRoots ns _ \<Rightarrow> ns | _ \<Rightarrow> []";
      auto simp: exec_defs Let_def succs_def split: if_splits option.splits list.splits)+

lemma exec_shape:
  assumes "exec b f g = (g', fs)" "one_finish g (add_mset f R)" "tasks_ok g A" "shape g (add_mset f R) A"
  shows "shape g' (mset fs + R) A"
proof -
  note s = assms(4) [unfolded shape_def]
  have ok: "frame_ok g A f" using s by simp
  have "\<forall>h \<in># mset fs + R. frame_ok g' A h"
    using frame_ok_new [OF assms(1,2,4)] frame_ok_keep [OF assms(1,2,3) ok] s by auto
  moreover note x = exec_nodes [OF assms(1) ok]
  have "\<forall>n. n \<notin> A \<longrightarrow> blank (dg_node g' n)" using x(1) s by simp
  moreover have "set (dg_retired g') \<subseteq> A \<and> (\<forall>n. set (succs g' n) \<subseteq> A) \<and> set (dg_nodes g') \<subseteq> A"
    using x(2-4) s by blast
  ultimately show ?thesis unfolding shape_def by blast
qed

lemma exec_tasks_eq:
  assumes "exec b f g = (g', fs)" "\<forall>n oc. f \<noteq> FGo n oc" "\<forall>n. f \<noteq> FPush n"
  shows "dg_queue g' = dg_queue g" "dg_task g' = dg_task g" "tn_task (dg_node g' n) = tn_task (dg_node g n)"
  using assms by (cases f; cases "case f of FRoots ns _ \<Rightarrow> ns | _ \<Rightarrow> []";
      auto simp: exec_defs Let_def split: if_splits option.splits list.splits)+

text \<open>\<open>Fire\<close> writes only the task of its own node, which is in no queue.\<close>

lemma exec_tasks_fire:
  assumes "exec b f g = (g', fs)" "f = FGo n oc \<or> f = FPush n"
  shows "m \<noteq> n \<Longrightarrow> tn_task (dg_node g' m) = tn_task (dg_node g m)"
    "tn_task (dg_node g' n) = tn_task (dg_node g n) \<or> tn_task (dg_node g' n) = None"
    "tn_task (dg_node g n) \<noteq> Some u \<Longrightarrow> dg_task g' u = dg_task g u"
    "dg_queue g' = dg_queue g \<or> f = FPush n \<and> (\<exists>t w. tn_task (dg_node g n) = Some t \<and> dg_queue g' = dg_queue g @ [(w, t)] \<and> dg_task g' = dg_task g \<and> dg_node g' = dg_node g)"
  using assms by (auto simp: exec_defs Let_def split: if_splits option.splits)

lemma exec_tasks_ok:
  assumes "exec b f g = (g', fs)" "one_finish g (add_mset f R)" "tasks_ok g A" "frame_ok g A f"
  shows "tasks_ok g' A"
proof (cases "\<exists>n oc. f = FGo n oc \<or> f = FPush n")
  case False
  then show ?thesis using assms(3) exec_tasks_eq [OF assms(1)] unfolding tasks_ok_def by simp
next
  case True
  then obtain n oc where f: "f = FGo n oc \<or> f = FPush n" by blast
  then have n: "n \<in> A" "tok n f \<noteq> 0" using assms(4) by auto
  note t = exec_tasks_fire [OF assms(1) f]
  note ok = assms(3) [unfolded tasks_ok_def]
  have inj: "m = k" if "m \<in> A" "k \<in> A" "tn_task (dg_node g' m) = tn_task (dg_node g' k)" "tn_task (dg_node g' m) \<noteq> None" for m k
  proof -
    have same: "tn_task (dg_node g' x) \<noteq> None \<Longrightarrow> tn_task (dg_node g' x) = tn_task (dg_node g x)" for x
      using t(1) [of x] t(2) by (cases "x = n") auto
    have "tn_task (dg_node g m) = tn_task (dg_node g k)" "tn_task (dg_node g m) \<noteq> None" using same [of m] same [of k] that(3,4) by simp_all
    then show ?thesis using ok that(1,2) by blast
  qed
  have q: "tk_fn (dg_task g' u) = wrapperFn \<and> tk_data (dg_task g' u) \<in> A \<and> tn_task (dg_node g' (tk_data (dg_task g' u))) = Some u"
    if u: "(w, u) \<in> set (dg_queue g)" for w u
  proof -
    have "tn_task (dg_node g n) \<noteq> Some u" using task_not_queued [OF assms(2) n(2) assms(3) n(1)] u by blast
    then have e: "dg_task g' u = dg_task g u" by (rule t(3))
    have "tk_data (dg_task g u) \<noteq> n" using ok u \<open>tn_task (dg_node g n) \<noteq> Some u\<close> by blast
    then show ?thesis unfolding e t(1) [OF \<open>tk_data (dg_task g u) \<noteq> n\<close>] using ok u by blast
  qed
  from t(4) show ?thesis
  proof
    assume "dg_queue g' = dg_queue g"
    then show ?thesis unfolding tasks_ok_def using q inj by auto
  next
    assume "f = FPush n \<and> (\<exists>t w. tn_task (dg_node g n) = Some t \<and> dg_queue g' = dg_queue g @ [(w, t)] \<and> dg_task g' = dg_task g \<and> dg_node g' = dg_node g)"
    then obtain t w where a: "f = FPush n" "tn_task (dg_node g n) = Some t" "dg_queue g' = dg_queue g @ [(w, t)]" "dg_task g' = dg_task g" "dg_node g' = dg_node g" by blast
    then show ?thesis using assms(4) n(1) ok unfolding tasks_ok_def by auto
  qed
qed

definition flag :: "bool \<Rightarrow> nat" where "flag p = (if p then 1 else 0)"

lemma flag_simps [simp]: "flag True = 1" "flag False = 0" "flag p = 0 \<longleftrightarrow> \<not> p" "flag p = Suc 0 \<longleftrightarrow> p"
  by (simp_all add: flag_def)

lemma one_finishI:
  assumes "one_finish g (add_mset f R)"
    "\<And>n. (\<Sum>h\<leftarrow>fs. tok n h) + queued g' n + flag (ext_waiting (dg_node g' n)) + count (mset (dg_retired g')) n + flag (tn_submitted (dg_node g n)) =
      tok n f + queued g n + flag (ext_waiting (dg_node g n)) + count (mset (dg_retired g)) n + flag (tn_submitted (dg_node g' n))"
    "\<And>n. count (mset fs) (FRetire n) + count (mset (dg_retired g')) n + flag (eh_sealed (tn_firstEdge (dg_node g n))) =
      flag (f = FRetire n) + count (mset (dg_retired g)) n + flag (eh_sealed (tn_firstEdge (dg_node g' n)))"
  shows "one_finish g' (mset fs + R)"
proof -
  have "tokens g (add_mset f R) n = flag (tn_submitted (dg_node g n))"
    "count (add_mset f R) (FRetire n) + count (mset (dg_retired g)) n = flag (eh_sealed (tn_firstEdge (dg_node g n)))" for n
    using assms(1) by (simp_all only: one_finish_def flag_def)
  note old = this [unfolded tokens_def, folded flag_def]
  have "tokens g' (mset fs + R) n = flag (tn_submitted (dg_node g' n))" for n
  proof -
    have "(\<Sum>h \<in># mset fs. tok n h) = (\<Sum>h\<leftarrow>fs. tok n h)" by (metis mset_map sum_mset_sum_list)
    then show ?thesis using old(1) [of n] assms(2) [of n] unfolding tokens_def flag_def [symmetric] by simp
  qed
  moreover have "count (mset fs + R) (FRetire n) + count (mset (dg_retired g')) n = flag (eh_sealed (tn_firstEdge (dg_node g' n)))" for n
  proof -
    have "count (add_mset f R) (FRetire n) = flag (f = FRetire n) + count R (FRetire n)" by (simp add: flag_def)
    then show ?thesis using old(2) [of n] assms(3) [of n] unfolding count_union by linarith
  qed
  ultimately show ?thesis unfolding one_finish_def flag_def by blast
qed

lemma ext_waiting_arm: "ext_waiting (nd\<lparr>tn_extBits := tn_extBits nd OR EXT_ARMED\<rparr>) \<longleftrightarrow> \<not> ext_signalled nd"
  by (auto simp: ext_waiting_def ext_bits)

lemma ext_waiting_signal: "ext_signalled (nd\<lparr>tn_extBits := tn_extBits nd OR EXT_SIGNALLED\<rparr>)"
  by (simp add: ext_bits)

lemma ext_waiting_keep [simp]:
  "ext_waiting (nd\<lparr>tn_submitted := a\<rparr>) = ext_waiting nd" "ext_waiting (nd\<lparr>tn_task := t\<rparr>) = ext_waiting nd"
  "ext_waiting (nd\<lparr>tn_deps := d\<rparr>) = ext_waiting nd" "ext_waiting (nd\<lparr>tn_firstEdge := h\<rparr>) = ext_waiting nd"
  "ext_waiting (nd\<lparr>tn_owned := a, tn_origFn := x, tn_origData := y\<rparr>) = ext_waiting nd"
  by (simp_all add: ext_waiting_def ext_bits)

lemma exec_queued_fire:
  assumes "exec b f g = (g', fs)" "one_finish g (add_mset f R)" "tasks_ok g A" "frame_ok g A f" "f = FGo n oc \<or> f = FPush n"
  shows "queued g' m = queued g m + (if dg_queue g' = dg_queue g then 0 else flag (m = n))"
proof -
  have n: "n \<in> A" "tok n f \<noteq> 0" using assms(4,5) by auto
  note t = exec_tasks_fire [OF assms(1,5)]
  show ?thesis
  proof (cases "dg_queue g' = dg_queue g")
    case True
    have "tk_data (dg_task g' u) = tk_data (dg_task g u)" if "(w, u) \<in> set (dg_queue g)" for w u
      using t(3) [of u] task_not_queued [OF assms(2) n(2) assms(3) n(1)] that by metis
    then show ?thesis using True queued_cong [of g g' m] by auto
  next
    case False
    then obtain u w where "f = FPush n" "tn_task (dg_node g n) = Some u" "dg_queue g' = dg_queue g @ [(w, u)]" "dg_task g' = dg_task g" using t(4) by blast
    then show ?thesis using assms(4) by (auto simp: queued_def flag_def)
  qed
qed

lemma exec_one_finish:
  assumes "exec b f g = (g', fs)" "one_finish g (add_mset f R)" "tasks_ok g A" "frame_ok g A f"
  shows "one_finish g' (mset fs + R)"
proof (cases f)
  case (FGo n oc)
  have q: "dg_queue g' = dg_queue g" using assms(1) FGo by (auto simp: exec_defs Let_def split: if_splits option.splits)
  show ?thesis
  proof (rule one_finishI [OF assms(2)])
    fix m
    show "(\<Sum>h\<leftarrow>fs. tok m h) + queued g' m + flag (ext_waiting (dg_node g' m)) + count (mset (dg_retired g')) m + flag (tn_submitted (dg_node g m)) =
      tok m f + queued g m + flag (ext_waiting (dg_node g m)) + count (mset (dg_retired g)) m + flag (tn_submitted (dg_node g' m))"
      using exec_queued_fire [OF assms, of n oc m] FGo assms(1) q
      by (auto simp: exec_defs Let_def split: if_splits option.splits)
  qed (use assms(1) FGo in \<open>auto simp: exec_defs Let_def split: if_splits option.splits\<close>)
next
  case (FPush n)
  then obtain t where t: "tn_task (dg_node g n) = Some t" using assms(4) by auto
  show ?thesis
  proof (rule one_finishI [OF assms(2)])
    fix m
    show "(\<Sum>h\<leftarrow>fs. tok m h) + queued g' m + flag (ext_waiting (dg_node g' m)) + count (mset (dg_retired g')) m + flag (tn_submitted (dg_node g m)) =
      tok m f + queued g m + flag (ext_waiting (dg_node g m)) + count (mset (dg_retired g)) m + flag (tn_submitted (dg_node g' m))"
      using exec_queued_fire [OF assms, of n undefined m] FPush assms(1) t
      by (auto simp: exec_defs Let_def split: if_splits option.splits)
  qed (use assms(1) FPush in \<open>auto simp: exec_defs Let_def split: if_splits option.splits\<close>)
next
  case (FArm n)
  then show ?thesis using assms(1) token_once(4) [OF assms(2), of n]
    by - (rule one_finishI [OF assms(2)], auto simp: exec_defs Let_def queued_def ext_waiting_arm split: if_splits)
next
  case (FSignal n)
  then show ?thesis using assms(1)
    by - (rule one_finishI [OF assms(2)], auto simp: exec_defs Let_def queued_def ext_waiting_signal ext_waiting_def split: if_splits)
next
  case (FWalk n oc head d e)
  have u: "\<not> eh_sealed (tn_firstEdge (dg_node g n))" using holder_unsealed [OF assms(2), of n] FWalk by simp
  have ne: "e \<noteq> d \<Longrightarrow> e \<noteq> []" using assms(4) FWalk by auto
  show ?thesis using assms(1) FWalk u ne
    by - (rule one_finishI [OF assms(2)], auto simp: exec_defs Let_def queued_def split: if_splits list.splits)
next
  case (FRoots ns rs)
  then show ?thesis using assms(1) by (cases ns; intro one_finishI [OF assms(2)]; auto simp: queued_def split: if_splits)
next
  case (FFireAll rs)
  then show ?thesis using assms(1) by (cases rs; intro one_finishI [OF assms(2)]; auto simp: queued_def)
qed (rule one_finishI [OF assms(2)]; use assms(1) in \<open>auto simp: exec_defs Let_def queued_def split: if_splits\<close>)+

section \<open>Outstanding edges\<close>

lemma cnt_simps [simp]:
  "cnt d [] = 0" "cnt d (x # es) = (if ed_dep x = d then 1 else 0) + cnt d es" "cnt d (es @ fs) = cnt d es + cnt d fs" "0 \<le> cnt d es"
  by (simp_all add: cnt_def)

lemma cnt_pos: "0 < cnt d es \<longleftrightarrow> d \<in> set (map ed_dep es)"
  by (induction es) (auto simp: add_pos_nonneg)

lemma pend_nonneg: "0 \<le> pend g d n"
  by (simp add: pend_def Let_def)

lemma sum_pend_same: "(\<And>n. tn_firstEdge (dg_node g' n) = tn_firstEdge (dg_node g n)) \<Longrightarrow> (\<Sum>n \<in> A. pend g' d n) = (\<Sum>n \<in> A. pend g d n)"
  by (simp add: pend_def)

lemma sum_pend_upd:
  assumes "finite A" "p \<in> A" "\<And>n. n \<noteq> p \<Longrightarrow> tn_firstEdge (dg_node g' n) = tn_firstEdge (dg_node g n)"
  shows "(\<Sum>n \<in> A. pend g' d n) = (\<Sum>n \<in> A. pend g d n) - pend g d p + pend g' d p"
proof -
  have "(\<Sum>n \<in> A - {p}. pend g' d n) = (\<Sum>n \<in> A - {p}. pend g d n)"
    by (rule sum.cong) (use assms(3) in \<open>auto simp: pend_def\<close>)
  then show ?thesis using sum.remove [OF assms(1,2), of "pend g' d"] sum.remove [OF assms(1,2), of "pend g d"] by simp
qed

lemma exec_edges_same:
  assumes "exec b f g = (g', fs)" "\<forall>n oc h x e. f \<noteq> FWalk n oc h x e" "\<forall>m p e h. f \<noteq> FAddTry m p e h"
  shows "tn_firstEdge (dg_node g' n) = tn_firstEdge (dg_node g n)"
  using assms by (cases f; cases "case f of FRoots ns _ \<Rightarrow> ns | _ \<Rightarrow> []")
    (auto simp: exec_defs Let_def split: if_splits option.splits list.splits)

lemma exec_balance:
  assumes "exec b f g = (g', fs)" "one_finish g (add_mset f R)" "frame_ok g A f" "finite A"
  shows "(\<exists>oc. FFire d oc \<in> set fs) \<or> (\<exists>oc. f = FFire d oc) \<or>
    tn_deps (dg_node g' d) - ((\<Sum>n \<in> A. pend g' d n) + (\<Sum>h\<leftarrow>fs. contr d h)) =
    tn_deps (dg_node g d) - ((\<Sum>n \<in> A. pend g d n) + contr d f)"
proof (cases f)
  case (FWalk n oc head dn e)
  have u: "\<not> eh_sealed (tn_firstEdge (dg_node g n))" using holder_unsealed [OF assms(2), of n] FWalk by simp
  obtain x y r where w: "n \<in> A" "eh_ptr (tn_firstEdge (dg_node g n)) = x @ eh_ptr head" "eh_ptr head = y @ e" "e = r @ dn"
    using assms(3) FWalk by auto
  show ?thesis
  proof (cases r)
    case Nil
    show ?thesis
    proof (cases "b \<and> tn_firstEdge (dg_node g n) = head")
      case True
      then have g': "g' = upd_node n (\<lambda>nd. nd\<lparr>tn_firstEdge := \<lparr>eh_ptr = eh_ptr head, eh_sealed = True, eh_cancelled = (oc = OutcomeCancelled)\<rparr>\<rparr>) g"
        and fs: "fs = [FRetire n]" using assms(1) FWalk w Nil by (auto simp: exec_defs Let_def)
      have "(\<Sum>n \<in> A. pend g' d n) = (\<Sum>n \<in> A. pend g d n) - cnt d (eh_ptr head)"
        using sum_pend_upd [OF assms(4) w(1), of g' g d] u True by (simp add: g' pend_def)
      then show ?thesis using FWalk w Nil by (simp add: g' fs)
    next
      case False
      then have "g' = g" "fs = [FWalk n oc (tn_firstEdge (dg_node g n)) (eh_ptr head) (eh_ptr (tn_firstEdge (dg_node g n)))]"
        using assms(1) FWalk w Nil by (auto simp: exec_defs Let_def)
      then show ?thesis using FWalk w Nil by simp
    qed
  next
    case (Cons z zs)
    then have "g' = g" "fs = release oc (ed_dep z) g @ [FWalk n oc head dn (zs @ dn)]"
      using assms(1) FWalk w by (auto simp: Walk_edge_def)
    then show ?thesis using FWalk w Cons by (auto simp: release_def)
  qed
next
  case (FAddTry m p e head)
  then have p: "p \<in> A" using assms(3) by simp
  show ?thesis
  proof (cases "\<not> eh_sealed head \<and> b \<and> tn_firstEdge (dg_node g p) = head")
    case True
    then have g': "g' = upd_node p (\<lambda>nd. nd\<lparr>tn_firstEdge := \<lparr>eh_ptr = \<lparr>ed_at = e, ed_dep = m\<rparr> # eh_ptr head, eh_sealed = False, eh_cancelled = False\<rparr>\<rparr>) g"
      and fs: "fs = []" using assms(1) FAddTry by (auto simp: exec_defs Let_def)
    have "(\<Sum>n \<in> A. pend g' d n) = (\<Sum>n \<in> A. pend g d n) + (if m = d then 1 else 0)"
      using sum_pend_upd [OF assms(4) p, of g' g d] True by (simp add: g' pend_def)
    then show ?thesis using FAddTry by (simp add: g' fs)
  next
    case False
    then show ?thesis using assms(1) FAddTry by (auto simp: exec_defs Let_def split: if_splits)
  qed
next
  case (FRoots ns rs)
  then show ?thesis using assms(1) sum_pend_same [OF exec_edges_same [OF assms(1)], where A = A and d = d] by (cases ns) (auto split: if_splits)
next
  case (FFireAll rs)
  then show ?thesis using assms(1) by (cases rs) auto
qed (use assms(1) sum_pend_same [OF exec_edges_same [OF assms(1)], where A = A and d = d] in \<open>auto simp: exec_defs Let_def split: if_splits option.splits\<close>)

lemma exec_balanced:
  assumes "exec b f g = (g', fs)" "one_finish g (add_mset f R)" "frame_ok g A f" "finite A" "balanced g (add_mset f R) A"
  shows "balanced g' (mset fs + R) A"
  unfolding balanced_def
proof
  fix d
  consider "fired g (add_mset f R) d" | "\<not> fired g (add_mset f R) d" "tn_deps (dg_node g d) = outstanding g (add_mset f R) A d"
    using assms(5) unfolding balanced_def by blast
  then show "fired g' (mset fs + R) d \<or> tn_deps (dg_node g' d) = outstanding g' (mset fs + R) A d"
  proof cases
    case 1
    then consider "tn_submitted (dg_node g d)" | oc where "f = FFire d oc" | oc where "FFire d oc \<in># R" by (auto simp: fired_def)
    then show ?thesis
    proof cases
      case 1
      then show ?thesis using exec_submitted [OF assms(1)] by (simp add: fired_def)
    next
      case 2
      then show ?thesis using assms(1) by (auto simp: fired_def split: if_splits)
    qed (auto simp: fired_def)
  next
    case 2
    have c: "(\<Sum>h \<in># mset fs. contr d h) = (\<Sum>h\<leftarrow>fs. contr d h)" by (metis mset_map sum_mset_sum_list)
    from exec_balance [OF assms(1-4), of d] show ?thesis
    proof (elim disjE)
      assume "tn_deps (dg_node g' d) - ((\<Sum>n \<in> A. pend g' d n) + (\<Sum>h\<leftarrow>fs. contr d h)) = tn_deps (dg_node g d) - ((\<Sum>n \<in> A. pend g d n) + contr d f)"
      then have "tn_deps (dg_node g' d) = outstanding g' (mset fs + R) A d" using 2(2) c by (simp add: outstanding_def)
      then show ?thesis ..
    qed (use 2(1) in \<open>auto simp: fired_def\<close>)
  qed
qed

text \<open>The edges of a node that nobody walks are all outstanding.\<close>

fun walks :: "nat \<Rightarrow> frame \<Rightarrow> bool" where
  "walks n (FWalk m _ _ _ _) \<longleftrightarrow> m = n"
| "walks n _ \<longleftrightarrow> False"

fun walk_cost :: "TaskDAG \<Rightarrow> nat \<Rightarrow> frame \<Rightarrow> int" where
  "walk_cost g d (FWalk n _ _ _ _) = pend g d n"
| "walk_cost g d _ = 0"

lemma walk_cost_sum:
  assumes "finite A"
  shows "\<forall>f \<in># F. frame_ok g A f \<Longrightarrow>
    (\<Sum>f \<in># F. walk_cost g d f) = (\<Sum>n \<in> A. int (\<Sum>f \<in># F. flag (walks n f)) * pend g d n)"
proof (induction F)
  case (add f F)
  have "walk_cost g d f = (\<Sum>n \<in> A. int (flag (walks n f)) * pend g d n)"
  proof (cases f)
    case (FWalk m oc h x e)
    have "(\<Sum>n \<in> A. int (flag (m = n)) * pend g d n) = (\<Sum>n \<in> A. if m = n then pend g d n else 0)"
      by (rule sum.cong) (auto simp: flag_def)
    also have "\<dots> = pend g d m" using assms add.prems FWalk by simp
    finally show ?thesis using FWalk by simp
  qed (simp_all add: flag_def)
  then show ?case using add by (simp add: distrib_right sum.distrib)
qed simp

lemma outstanding_lower:
  assumes "one_finish g F" "\<forall>f \<in># F. frame_ok g A f" "finite A"
  shows "(\<Sum>n \<in> {n \<in> A. \<forall>f \<in># F. \<not> walks n f}. pend g d n) \<le> outstanding g F A d"
proof -
  let ?W = "{n \<in> A. \<exists>f \<in># F. walks n f}"
  have c: "- walk_cost g d f \<le> contr d f" if f: "f \<in># F" for f
  proof (cases f)
    case (FWalk n oc h x e)
    obtain R where R: "F = add_mset f R" using f by (metis mset_add)
    have "\<not> eh_sealed (tn_firstEdge (dg_node g n))" using holder_unsealed [of g f R n] assms(1) R FWalk by simp
    moreover obtain y where "eh_ptr (tn_firstEdge (dg_node g n)) = y @ eh_ptr h" using bspec [OF assms(2) f] FWalk by auto
    ultimately have p: "pend g d n = cnt d y + cnt d (eh_ptr h)" by (simp add: pend_def)
    have "0 \<le> cnt d (take (length e - length x) e)" "0 \<le> cnt d y" by simp_all
    then show ?thesis unfolding FWalk walk_cost.simps contr.simps p by linarith
  qed simp_all
  have le: "(\<Sum>f \<in># F. flag (walks n f)) \<le> flag (\<exists>f \<in># F. walks n f)" for n
  proof (cases "\<exists>f \<in># F. walks n f")
    case True
    have "(\<Sum>f \<in># F. flag (walks n f)) \<le> (\<Sum>f \<in># F. tok n f)"
    proof (rule sum_mset_mono)
      fix f show "flag (walks n f) \<le> tok n f" by (cases f) (simp_all add: flag_def)
    qed
    also have "\<dots> \<le> tokens g F n" by (simp add: tokens_def)
    also have "\<dots> \<le> 1" using assms(1) by (simp add: one_finish_def)
    finally show ?thesis using True by simp
  next
    case False
    then show ?thesis by (auto simp: flag_def sum_mset_0_iff)
  qed
  have "(\<Sum>f \<in># F. walk_cost g d f) = (\<Sum>n \<in> A. int (\<Sum>f \<in># F. flag (walks n f)) * pend g d n)"
    by (rule walk_cost_sum [OF assms(3,2)])
  also have "\<dots> \<le> (\<Sum>n \<in> A. int (flag (\<exists>f \<in># F. walks n f)) * pend g d n)"
    by (intro sum_mono mult_right_mono pend_nonneg) (simp only: of_nat_le_iff le)
  also have "\<dots> = (\<Sum>n \<in> ?W. pend g d n)"
    by (rule sum.mono_neutral_cong_right) (use assms(3) in auto)
  finally have w: "(\<Sum>f \<in># F. walk_cost g d f) \<le> (\<Sum>n \<in> ?W. pend g d n)" .
  have "(\<Sum>f \<in># F. - walk_cost g d f) \<le> (\<Sum>f \<in># F. contr d f)" by (rule sum_mset_mono) (rule c)
  moreover have "(\<Sum>f \<in># F. - walk_cost g d f) = - (\<Sum>f \<in># F. walk_cost g d f)" by (induction F) simp_all
  moreover have "(\<Sum>n \<in> A. pend g d n) = (\<Sum>n \<in> ?W. pend g d n) + (\<Sum>n \<in> {n \<in> A. \<forall>f \<in># F. \<not> walks n f}. pend g d n)"
  proof -
    have "A = ?W \<union> {n \<in> A. \<forall>f \<in># F. \<not> walks n f}" by auto
    then have "(\<Sum>n \<in> A. pend g d n) = (\<Sum>n \<in> ?W \<union> {n \<in> A. \<forall>f \<in># F. \<not> walks n f}. pend g d n)" by (rule arg_cong)
    also have "\<dots> = (\<Sum>n \<in> ?W. pend g d n) + (\<Sum>n \<in> {n \<in> A. \<forall>f \<in># F. \<not> walks n f}. pend g d n)"
      by (rule sum.union_disjoint) (use assms(3) in auto)
    finally show ?thesis .
  qed
  ultimately show ?thesis using w unfolding outstanding_def by linarith
qed

lemma outstanding_nonneg: "one_finish g F \<Longrightarrow> \<forall>f \<in># F. frame_ok g A f \<Longrightarrow> finite A \<Longrightarrow> 0 \<le> outstanding g F A d"
  by (rule order_trans [OF sum_nonneg outstanding_lower]) (auto simp: pend_nonneg)

section \<open>The rest of the invariant through a step\<close>

lemma exec_covered:
  assumes "exec b f g = (g', fs)" "one_finish g (add_mset f R)" "shape g (add_mset f R) A" "finite A"
    "balanced g (add_mset f R) A" "covered g (add_mset f R) A"
  shows "covered g' (mset fs + R) A"
  unfolding covered_def
proof (intro impI ballI)
  fix d assume s: "dg_submitted g'" and d: "d \<in> A"
  have s0: "dg_submitted g" using s exec_flag [OF assms(1)] by simp
  have ok: "\<forall>f \<in># add_mset f R. frame_ok g A f" using assms(3) unfolding shape_def by blast
  have sub: "tn_submitted (dg_node g d) \<Longrightarrow> tn_submitted (dg_node g' d)" by (rule exec_submitted [OF assms(1)])
  consider "fired g' (mset fs + R) d" | "\<not> fired g' (mset fs + R) d" by blast
  then show "fired g' (mset fs + R) d \<or> tn_deps (dg_node g' d) \<noteq> 0 \<or> (\<exists>f \<in># mset fs + R. lists_root d f)"
  proof cases
    case 2
    then have nf: "\<not> fired g (add_mset f R) d" "\<forall>oc. FFire d oc \<notin> set fs"
      using sub assms(1) unfolding fired_def by (auto split: if_splits)
    then have eq: "tn_deps (dg_node g d) = outstanding g (add_mset f R) A d" using assms(5) unfolding balanced_def by blast
    then have pos: "0 \<le> tn_deps (dg_node g d)" using outstanding_nonneg [OF assms(2) ok assms(4)] by simp
    have "tn_deps (dg_node g d) \<noteq> 0 \<or> (\<exists>f \<in># add_mset f R. lists_root d f)"
      using assms(6) s0 d nf(1) unfolding covered_def by blast
    then show ?thesis
    proof (elim disjE)
      assume "tn_deps (dg_node g d) \<noteq> 0"
      then have "tn_deps (dg_node g' d) \<noteq> 0" using assms(1) nf(2) pos
        by (cases f; cases "case f of FRoots ns _ \<Rightarrow> ns | _ \<Rightarrow> []")
          (auto simp: exec_defs Let_def split: if_splits option.splits list.splits)
      then show ?thesis by blast
    next
      assume "\<exists>f \<in># add_mset f R. lists_root d f"
      then consider "lists_root d f" | h where "h \<in># R" "lists_root d h" by auto
      then show ?thesis
      proof cases
        case 1
        then show ?thesis
        proof (cases f)
          case (FRoots ns rs)
          then show ?thesis using assms(1) 1 by (cases ns) (auto split: if_splits)
        next
          case (FFireAll rs)
          then show ?thesis using assms(1) 1 nf(2) by (cases rs) auto
        qed auto
      qed auto
    qed
  qed simp
qed

lemma exec_building:
  assumes "exec b f g = (g', fs)" "one_finish g (add_mset f R)" "building g (add_mset f R) ns"
  shows "building g' (mset fs + R) ns"
  unfolding building_def
proof (intro impI)
  assume "\<not> dg_submitted g'"
  then have c: "dg_nodes g = ns" "build_frame f" "\<forall>h \<in># R. build_frame h"
    "\<And>n. \<not> tn_submitted (dg_node g n)" "\<And>n. \<not> eh_sealed (tn_firstEdge (dg_node g n))"
    using assms(3) exec_flag [OF assms(1)] unfolding building_def by auto
  have w: "\<not> ext_waiting (dg_node g n)" for n
  proof -
    have "tokens g (add_mset f R) n = 0" using assms(2) c(4) [of n] unfolding one_finish_def by presburger
    then show ?thesis unfolding tokens_def by (auto split: if_splits)
  qed
  show "dg_nodes g' = ns \<and> (\<forall>h \<in># mset fs + R. build_frame h) \<and> (\<forall>n. \<not> tn_submitted (dg_node g' n) \<and> \<not> eh_sealed (tn_firstEdge (dg_node g' n)))"
    using assms(1) c w by (cases f) (auto simp: exec_defs Let_def ext_waiting_def split: if_splits)
qed

lemma exec_core:
  assumes "exec b f g = (g', fs)" "dag_core g (add_mset f R) ns"
  shows "dag_core g' (mset fs + R) ns"
proof -
  note c = assms(2) [unfolded dag_core_def]
  have o: "one_finish g (add_mset f R)" and sh: "shape g (add_mset f R) (set ns)" and t: "tasks_ok g (set ns)"
    and bl: "balanced g (add_mset f R) (set ns)" and cv: "covered g (add_mset f R) (set ns)" and bd: "building g (add_mset f R) ns"
    using c by blast+
  have f: "frame_ok g (set ns) f" using sh unfolding shape_def by simp
  show ?thesis unfolding dag_core_def
    using c exec_one_finish [OF assms(1) o t f] exec_shape [OF assms(1) o t sh] exec_tasks_ok [OF assms(1) o t f]
      exec_balanced [OF assms(1) o f List.finite_set bl] exec_covered [OF assms(1) o sh List.finite_set bl cv] exec_building [OF assms(1) o bd]
    by blast
qed

section \<open>Calls, creation, submission, and the scheduler\<close>

text \<open>A frame that holds no right to finish, counts no edge and fires nothing.\<close>

fun neutral :: "frame \<Rightarrow> bool" where
  "neutral (FAddInc _ _ _) = True"
| "neutral (FSignal _) = True"
| "neutral FCancel = True"
| "neutral (FRoots _ _) = True"
| "neutral _ = False"

lemma neutral_add:
  assumes "neutral f"
  shows "one_finish g (add_mset f F) = one_finish g F" "balanced g (add_mset f F) A = balanced g F A" "fired g (add_mset f F) n = fired g F n"
proof -
  have nf: "tok n f = 0" "contr d f = 0" "f \<noteq> FRetire n" "FFire n oc \<noteq> f" for n d oc using assms by (cases f; simp)+
  have "tokens g (add_mset f F) n = tokens g F n" "count (add_mset f F) (FRetire n) = count F (FRetire n)"
    "outstanding g (add_mset f F) A d = outstanding g F A d" and fi: "fired g (add_mset f F) n = fired g F n" for n d
    by (simp_all add: tokens_def outstanding_def fired_def nf)
  then show "one_finish g (add_mset f F) = one_finish g F" "balanced g (add_mset f F) A = balanced g F A"
    by (simp_all only: one_finish_def balanced_def)
  show "fired g (add_mset f F) n = fired g F n" by (rule fi)
qed

lemma core_call:
  assumes "dag_core g F ns" "neutral f" "frame_ok g (set ns) f" "build_frame f"
  shows "dag_core g (add_mset f F) ns"
proof -
  have "covered g (add_mset f F) (set ns)" "building g (add_mset f F) ns" "shape g (add_mset f F) (set ns)"
    using assms neutral_add(3) [OF assms(2)] unfolding dag_core_def covered_def building_def shape_def by auto
  then show ?thesis using assms(1) unfolding dag_core_def neutral_add [OF assms(2)] by blast
qed

lemma calls_eq:
  "calls i fs s = Some t \<Longrightarrow> dr_g t = dr_g s \<and> dr_all t = dr_all s \<and> dr_refused t = dr_refused s \<and> all_frames t = mset fs + all_frames s"
proof -
  assume c: "calls i fs s = Some t"
  then have i: "i < length (dr_threads s)" "dr_threads s ! i = []" and t: "t = s\<lparr>dr_threads := (dr_threads s)[i := fs]\<rparr>"
    by (auto simp: calls_def split: if_splits)
  have "mset (concat ((dr_threads s)[i := fs])) = mset fs + mset (concat (dr_threads s))"
  proof -
    have ts: "dr_threads s = take i (dr_threads s) @ [] # drop (Suc i) (dr_threads s)" using i by (metis id_take_nth_drop)
    have "mset (concat (dr_threads s)) = mset (concat (take i (dr_threads s) @ [] # drop (Suc i) (dr_threads s)))" using ts by simp
    then show ?thesis unfolding upd_conv_take_nth_drop [OF i(1)] by simp
  qed
  then show ?thesis using t by (simp add: all_frames_def)
qed

lemma frame_moves:
  assumes "i < length ts" "ts ! i = f # rest"
  obtains R where "mset (concat ts) = add_mset f R" "\<And>fs. mset (concat (ts[i := fs @ rest])) = mset fs + R"
proof -
  have ts: "ts = take i ts @ (f # rest) # drop (Suc i) ts" using assms by (metis id_take_nth_drop)
  have u: "ts[i := x] = take i ts @ x # drop (Suc i) ts" for x using assms(1) by (rule upd_conv_take_nth_drop)
  let ?R = "mset rest + mset (concat (take i ts)) + mset (concat (drop (Suc i) ts))"
  have "mset (concat ts) = mset (concat (take i ts @ (f # rest) # drop (Suc i) ts))" using ts by simp
  then have "mset (concat ts) = add_mset f ?R" by simp
  moreover have "mset (concat (ts[i := fs @ rest])) = mset fs + ?R" for fs unfolding u by simp
  ultimately show ?thesis using that by blast
qed

text \<open>A graph that differs only in what the invariant does not read.\<close>

lemma core_view:
  assumes "\<And>n. tn_submitted (dg_node g' n) = tn_submitted (dg_node g n)" "\<And>n. tn_firstEdge (dg_node g' n) = tn_firstEdge (dg_node g n)"
    "\<And>n. tn_deps (dg_node g' n) = tn_deps (dg_node g n)" "\<And>n. tn_extBits (dg_node g' n) = tn_extBits (dg_node g n)"
    "\<And>n. tn_task (dg_node g' n) = tn_task (dg_node g n)" "dg_task g' = dg_task g" "dg_queue g' = dg_queue g"
    "dg_retired g' = dg_retired g"
  shows "one_finish g' F = one_finish g F" "frame_ok g' A f = frame_ok g A f" "blank (dg_node g' n) = blank (dg_node g n)"
    "tasks_ok g' A = tasks_ok g A" "balanced g' F A = balanced g F A" "succs g' n = succs g n" "fired g' F n = fired g F n"
proof -
  have e: "ext_waiting (dg_node g' m) = ext_waiting (dg_node g m)" for m using assms(4) by (simp add: ext_waiting_def ext_bits)
  show "one_finish g' F = one_finish g F" by (simp add: one_finish_def tokens_def queued_def e assms)
  show "frame_ok g' A f = frame_ok g A f" by (cases f) (simp_all add: assms)
  show "blank (dg_node g' n) = blank (dg_node g n)" by (simp add: blank_def assms)
  show "tasks_ok g' A = tasks_ok g A" by (simp add: tasks_ok_def assms)
  show "balanced g' F A = balanced g F A" by (simp add: balanced_def fired_def outstanding_def pend_def assms)
  show "succs g' n = succs g n" by (simp add: succs_def assms)
  show "fired g' F n = fired g F n" by (simp add: fired_def assms)
qed

lemma number_nodes_view:
  "tn_submitted (dg_node (number_nodes i V g) m) = tn_submitted (dg_node g m)"
  "tn_extBits (dg_node (number_nodes i V g) m) = tn_extBits (dg_node g m)"
  "tn_task (dg_node (number_nodes i V g) m) = tn_task (dg_node g m)"
  "dg_task (number_nodes i V g) = dg_task g" "dg_queue (number_nodes i V g) = dg_queue g" "dg_retired (number_nodes i V g) = dg_retired g"
  by (induction V arbitrary: i g) auto

lemma Submit_check_ok:
  assumes "Submit_check g = Some (True, g')"
  shows "g' = (number_nodes 0 (dg_nodes g) g)\<lparr>dg_submitted := True\<rparr>"
  using assms by (auto simp: Submit_check_def HasCycle_def Let_def split: option.splits if_splits)

lemma core_submit:
  assumes "dag_core g {#} ns" "Submit_check g = Some (True, g')"
  shows "dag_core g' {#FRoots (dg_nodes g') []#} ns"
proof -
  let ?F = "{#FRoots (dg_nodes g') []#}"
  have g': "g' = (number_nodes 0 (dg_nodes g) g)\<lparr>dg_submitted := True\<rparr>" by (rule Submit_check_ok [OF assms(2)])
  have "\<And>n. tn_submitted (dg_node g' n) = tn_submitted (dg_node g n)" "\<And>n. tn_firstEdge (dg_node g' n) = tn_firstEdge (dg_node g n)"
    "\<And>n. tn_deps (dg_node g' n) = tn_deps (dg_node g n)" "\<And>n. tn_extBits (dg_node g' n) = tn_extBits (dg_node g n)"
    "\<And>n. tn_task (dg_node g' n) = tn_task (dg_node g n)" "dg_task g' = dg_task g" "dg_queue g' = dg_queue g" "dg_retired g' = dg_retired g"
    by (simp_all add: g' number_nodes_keeps number_nodes_view)
  note v = core_view [OF this]
  note c = assms(1) [unfolded dag_core_def]
  have nodes: "dg_nodes g' = dg_nodes g" and ret: "dg_retired g' = dg_retired g" and s: "dg_submitted g'"
    and deps: "\<And>n. tn_deps (dg_node g' n) = tn_deps (dg_node g n)"
    by (simp_all add: g' number_nodes_keeps number_nodes_view)
  have n: "neutral (FRoots (dg_nodes g') [])" by simp
  have "one_finish g ?F" "balanced g ?F (set ns)" using c neutral_add [OF n, of g "{#}"] by blast+
  moreover have "shape g' ?F (set ns)" using c unfolding shape_def by (auto simp: v nodes ret)
  moreover have "building g' ?F ns" by (simp add: building_def s)
  moreover have "covered g' ?F (set ns)"
    unfolding covered_def
  proof (intro impI ballI)
    fix d assume d: "d \<in> set ns"
    show "fired g' ?F d \<or> tn_deps (dg_node g' d) \<noteq> 0 \<or> (\<exists>f \<in># ?F. lists_root d f)"
    proof (cases "dg_submitted g")
      case True
      then have "fired g {#} d \<or> tn_deps (dg_node g d) \<noteq> 0" using c d unfolding covered_def by auto
      then show ?thesis unfolding v deps by (auto simp: fired_def)
    next
      case False
      then have "dg_nodes g = ns" using c unfolding building_def by blast
      then show ?thesis using d nodes by simp
    qed
  qed
  ultimately show ?thesis using c unfolding dag_core_def by (simp add: v)
qed

lemma core_create:
  assumes "dag_core g F ns" "n \<notin> set ns" "\<not> dg_submitted g" "blank nd" "tn_task nd = None \<or> (\<forall>m \<in> set ns. tn_task (dg_node g m) \<noteq> tn_task nd)"
    "dg_node g' = (dg_node g)(n := nd)" "\<And>u. tk_fn (dg_task g' u) = tk_fn (dg_task g u)" "\<And>u. tk_data (dg_task g' u) = tk_data (dg_task g u)"
    "dg_nodes g' = dg_nodes g @ [n]" "dg_queue g' = dg_queue g" "dg_retired g' = dg_retired g" "dg_submitted g' = dg_submitted g"
  shows "dag_core g' F (ns @ [n])"
proof -
  note c = assms(1) [unfolded dag_core_def]
  have old: "blank (dg_node g n)" using c assms(2) unfolding shape_def by blast
  have same: "tn_submitted (dg_node g' m) = tn_submitted (dg_node g m)" "tn_firstEdge (dg_node g' m) = tn_firstEdge (dg_node g m)"
    "tn_deps (dg_node g' m) = tn_deps (dg_node g m)" "tn_extBits (dg_node g' m) = tn_extBits (dg_node g m)" for m
    using old assms(4,6) by (auto simp: blank_def)
  have ew: "ext_waiting (dg_node g' m) = ext_waiting (dg_node g m)" for m by (simp add: ext_waiting_def ext_bits same)
  have "queued g' m = queued g m" for m by (simp add: queued_def assms(8,10))
  then have "tokens g' F m = tokens g F m" for m by (simp only: tokens_def ew assms(11))
  then have one: "one_finish g' F" using c unfolding one_finish_def same assms(11) by presburger
  have task: "m \<in> set ns \<Longrightarrow> tn_task (dg_node g' m) = tn_task (dg_node g m)" for m using assms(2,6) by auto
  have fo: "frame_ok g' (set (ns @ [n])) f" if "frame_ok g (set ns) f" for f
    using that by (cases f) (auto simp: same task assms(7,8))
  have suc: "succs g' m = succs g m" for m by (simp add: succs_def same)
  have shp: "shape g' F (set (ns @ [n]))"
    using c fo assms(6,9,11) unfolding shape_def suc by (auto simp: blank_def)
  have tasks: "tasks_ok g' (set (ns @ [n]))"
  proof -
    have "tk_fn (dg_task g' u) = wrapperFn \<and> tk_data (dg_task g' u) \<in> set (ns @ [n]) \<and> tn_task (dg_node g' (tk_data (dg_task g' u))) = Some u"
      if "(w, u) \<in> set (dg_queue g')" for w u
    proof -
      have "tk_fn (dg_task g u) = wrapperFn" "tk_data (dg_task g u) \<in> set ns" "tn_task (dg_node g (tk_data (dg_task g u))) = Some u"
        using that c unfolding assms(10) tasks_ok_def by blast+
      then show ?thesis using task by (simp add: assms(7,8))
    qed
    moreover have "m = k" if "m \<in> set (ns @ [n])" "k \<in> set (ns @ [n])" "tn_task (dg_node g' m) = tn_task (dg_node g' k)" "tn_task (dg_node g' m) \<noteq> None" for m k
      using that c assms(2,5,6) unfolding tasks_ok_def by (auto split: if_splits)
    ultimately show ?thesis unfolding tasks_ok_def by blast
  qed
  have "pend g' d n = 0" for d using assms(4,6) by (simp add: pend_def blank_def)
  then have "outstanding g' F (set (ns @ [n])) d = outstanding g F (set ns) d" for d
    using assms(2) by (simp add: outstanding_def pend_def same)
  then have bal: "balanced g' F (set (ns @ [n]))" using c by (simp add: balanced_def fired_def same)
  have "covered g' F (set (ns @ [n]))" "building g' F (ns @ [n])"
    using c assms(3,9,12) by (auto simp: covered_def building_def same)
  then show ?thesis using one shp tasks bal c assms(2) unfolding dag_core_def by simp
qed

lemma core_take:
  assumes "dag_core g F ns" "(w, t) \<in> set (dg_queue g)"
  shows "dag_core (g\<lparr>dg_queue := remove1 (w, t) (dg_queue g)\<rparr>) (add_mset (FFinish (tk_data (dg_task g t)) oc) F) ns"
proof -
  let ?n = "tk_data (dg_task g t)" and ?g = "g\<lparr>dg_queue := remove1 (w, t) (dg_queue g)\<rparr>"
  let ?F = "add_mset (FFinish ?n oc) F"
  note c = assms(1) [unfolded dag_core_def]
  let ?h = "\<lambda>(_ :: Dest, t). tk_data (dg_task g t)"
  have "mset (dg_queue g) = add_mset (w, t) (mset (remove1 (w, t) (dg_queue g)))" using assms(2) by simp
  then have "image_mset ?h (mset (dg_queue g)) = add_mset ?n (image_mset ?h (mset (remove1 (w, t) (dg_queue g))))"
    by (metis (no_types, lifting) case_prod_conv image_mset_add_mset)
  then have q: "queued g m = queued ?g m + flag (?n = m)" for m by (simp add: queued_def flag_def)
  have "tokens ?g ?F m = tokens g F m" for m using q [of m] by (simp add: tokens_def flag_def)
  then have one: "one_finish ?g ?F" using c by (simp add: one_finish_def)
  have n: "?n \<in> set ns" using c assms(2) unfolding tasks_ok_def by blast
  have sub: "tn_submitted (dg_node g ?n)"
    using q [of ?n] c unfolding one_finish_def tokens_def by (simp split: if_splits) (metis add_is_0 nat.distinct(1))
  have fo: "frame_ok ?g A f = frame_ok g A f" for A f by (cases f) simp_all
  have "shape ?g ?F (set ns)" using c n unfolding shape_def succs_def by (simp add: fo)
  moreover have "tasks_ok ?g (set ns)"
  proof -
    have "set (dg_queue ?g) \<subseteq> set (dg_queue g)" by (simp add: set_remove1_subset)
    then show ?thesis using c unfolding tasks_ok_def by auto
  qed
  moreover have "balanced ?g ?F (set ns)" using c by (simp add: balanced_def fired_def outstanding_def pend_def)
  moreover have "covered ?g ?F (set ns)" "building ?g ?F ns" using c sub unfolding covered_def building_def fired_def by auto
  ultimately show ?thesis using one c unfolding dag_core_def by simp
qed

definition fresh_node :: "nat \<Rightarrow> ptr \<Rightarrow> TaskDAG \<Rightarrow> TaskDAG \<Rightarrow> bool" where
  "fresh_node n t g g' \<longleftrightarrow> blank (dg_node g' n) \<and> tn_task (dg_node g' n) = t \<and> (\<forall>m. m \<noteq> n \<longrightarrow> dg_node g' m = dg_node g m) \<and>
     (\<forall>u. tk_fn (dg_task g' u) = tk_fn (dg_task g u) \<and> tk_data (dg_task g' u) = tk_data (dg_task g u)) \<and>
     dg_nodes g' = dg_nodes g @ [n] \<and> dg_queue g' = dg_queue g \<and> dg_retired g' = dg_retired g \<and>
     dg_submitted g' = dg_submitted g \<and> \<not> dg_submitted g"

lemmas create_defs = CreateNode_def CreateMainNode_def CreateGate_def CreateExternalNode_def RejectIfSubmitted_def
  place_node_def stamp_scope_def new_TaskNode_def

lemma create_fresh:
  "CreateNode (Some n) t pri cpu g = Some (m, g') \<Longrightarrow> fresh_node n t g g'"
  "CreateMainNode (Some n) t pri g = Some (m, g') \<Longrightarrow> fresh_node n t g g'"
  "CreateGate (Some n) ty g = Some (m, g') \<Longrightarrow> fresh_node n None g g'"
  "CreateExternalNode (Some n) g = Some (m, g') \<Longrightarrow> fresh_node n None g g'"
  unfolding fresh_node_def by (auto simp: create_defs blank_def split: if_splits option.splits)

lemma creates_core:
  assumes "creates n t r s = Some u" "\<And>m g'. r = Some (m, g') \<Longrightarrow> fresh_node n t (dr_g s) g'" "dag_core (dr_g s) F (dr_all s)"
  shows "dag_core (dr_g u) F (dr_all u) \<and> dr_threads u = dr_threads s \<and> dr_refused u = dr_refused s"
proof -
  obtain m g' where r: "r = Some (Some m, g')" and n: "n \<notin> set (dr_all s)" "\<forall>k \<in> set (dr_all s). t = None \<or> tn_task (dg_node (dr_g s) k) \<noteq> t"
    and u: "u = s\<lparr>dr_g := g', dr_all := dr_all s @ [n]\<rparr>"
    using assms(1) by (auto simp: creates_def split: option.splits if_splits prod.splits)
  let ?nd = "dg_node g' n"
  from assms(2) [OF r] have f: "blank ?nd" "tn_task ?nd = t" "\<And>m. m \<noteq> n \<Longrightarrow> dg_node g' m = dg_node (dr_g s) m"
    "\<not> dg_submitted (dr_g s)" "\<And>u. tk_fn (dg_task g' u) = tk_fn (dg_task (dr_g s) u)" "\<And>u. tk_data (dg_task g' u) = tk_data (dg_task (dr_g s) u)"
    "dg_nodes g' = dg_nodes (dr_g s) @ [n]" "dg_queue g' = dg_queue (dr_g s)" "dg_retired g' = dg_retired (dr_g s)" "dg_submitted g' = dg_submitted (dr_g s)"
    unfolding fresh_node_def by blast+
  have e: "dg_node g' = (dg_node (dr_g s))(n := ?nd)" using f(3) by auto
  have "tn_task ?nd = None \<or> (\<forall>m \<in> set (dr_all s). tn_task (dg_node (dr_g s) m) \<noteq> tn_task ?nd)" using n(2) f(2) by blast
  from core_create [OF assms(3) n(1) f(4,1) this e f(5-10)] show ?thesis using u by simp
qed

lemma idle_frames: "list_all (\<lambda>fs. fs = []) ts \<Longrightarrow> concat ts = []"
  by (induction ts) auto

lemma dag_do_inv:
  assumes "dag_do ev s = Some t" "dag_inv s"
  shows "dag_inv t"
proof (cases "dr_refused s")
  case True
  then have "dr_refused t" using assms(1)
    by (cases ev) (auto simp: calls_def creates_def takes_def split: if_splits option.splits list.splits prod.splits)
  then show ?thesis by (simp add: dag_inv_def)
next
  case False
  then have c: "dag_core (dr_g s) (all_frames s) (dr_all s)" using assms(2) by (simp add: dag_inv_def)
  have create: "dag_inv t" if "creates n k r s = Some t" "\<And>m g'. r = Some (m, g') \<Longrightarrow> fresh_node n k (dr_g s) g'" for n k r
    using creates_core [OF that c] by (simp add: dag_inv_def all_frames_def)
  have call: "dag_inv t" if "calls i [f] s = Some t" "neutral f" "frame_ok (dr_g s) (set (dr_all s)) f" "build_frame f" for i f
    using calls_eq [OF that(1)] core_call [OF c that(2-4)] by (simp add: dag_inv_def)
  have skip: "dag_inv t" if "calls i [] s = Some t" for i
    using calls_eq [OF that] c by (simp add: dag_inv_def)
  show ?thesis
  proof (cases ev)
    case (EFrame i b)
    then obtain f rest g' fs where x: "i < length (dr_threads s)" "dr_threads s ! i = f # rest" "exec b f (dr_g s) = (g', fs)"
      "t = s\<lparr>dr_g := g', dr_threads := (dr_threads s)[i := fs @ rest]\<rparr>"
      using assms(1) by (auto split: if_splits list.splits prod.splits)
    obtain R where R: "mset (concat (dr_threads s)) = add_mset f R" "\<And>fs. mset (concat ((dr_threads s)[i := fs @ rest])) = mset fs + R"
      using frame_moves [OF x(1,2)] by blast
    show ?thesis using exec_core [OF x(3), of R "dr_all s"] c x(4) R by (simp add: dag_inv_def all_frames_def)
  next
    case (ESubmit i)
    then obtain ok g' where x: "list_all (\<lambda>fs. fs = []) (dr_threads s)" "Submit_check (dr_g s) = Some (ok, g')"
      "calls i (if ok then [FRoots (dg_nodes g') []] else []) (s\<lparr>dr_g := g', dr_refused := dr_refused s \<or> \<not> ok\<rparr>) = Some t"
      using assms(1) by (auto split: if_splits option.splits prod.splits)
    note e = calls_eq [OF x(3)]
    have fr: "all_frames s = {#}" "all_frames (s\<lparr>dr_g := g'\<rparr>) = {#}" "all_frames (s\<lparr>dr_g := g', dr_refused := r\<rparr>) = {#}" for r
      using idle_frames [OF x(1)] by (simp_all add: all_frames_def)
    show ?thesis using e x(2) core_submit [of "dr_g s" "dr_all s" g'] c by (cases ok) (simp_all add: dag_inv_def fr)
  next
    case (ERun i w u)
    then show ?thesis using assms(1) core_take [OF c, of w u Completed] calls_eq by (fastforce simp: dag_inv_def takes_def all_frames_def split: if_splits)
  next
    case (EDiscard i w u)
    then have "tk_fn (dg_task (dr_g s) u) = wrapperFn" using assms(1) c unfolding dag_core_def tasks_ok_def by (auto split: if_splits)
    then show ?thesis using EDiscard assms(1) core_take [OF c, of w u OutcomeCancelled] calls_eq by (fastforce simp: dag_inv_def takes_def all_frames_def split: if_splits)
  next
    case (ECreate n k pri cpu)
    then show ?thesis using assms(1) create create_fresh(1) by simp
  next
    case (ECreateMain n k pri)
    then show ?thesis using assms(1) create create_fresh(2) by simp
  next
    case (EGate n ty)
    then show ?thesis using assms(1) create create_fresh(3) by simp
  next
    case (EExternal n)
    then show ?thesis using assms(1) create create_fresh(4) by simp
  qed (use assms(1) call skip in
      \<open>auto simp: AddDependency_def SignalExternal_call_def SignalExternalNode_def own_node_def split: if_splits option.splits\<close>)
qed

interpretation dag: transition_system dag_step dag_inv
  by unfold_locales (auto simp: dag_step_def intro: dag_do_inv)

lemma dag_inv_new: "dag_inv (dag_new tasks scope table threads)"
proof -
  have "concat (replicate threads []) = []" by (induction threads) auto
  then show ?thesis
    by (simp add: dag_inv_def dag_core_def dag_new_def all_frames_def one_finish_def tokens_def queued_def ext_waiting_def ext_armed_def
        new_TaskNode_def shape_def blank_def succs_def tasks_ok_def balanced_def outstanding_def covered_def building_def)
qed

lemma dag_reach_core:
  "reach dag_step (dag_new tasks scope table threads) s \<Longrightarrow> \<not> dr_refused s \<Longrightarrow> dag_core (dr_g s) (all_frames s) (dr_all s)"
  using dag.reach_inv [OF _ dag_inv_new] unfolding dag_inv_def by blast

section \<open>Properties\<close>

lemma idle_all_frames: "list_all (\<lambda>fs. fs = []) (dr_threads s) \<Longrightarrow> all_frames s = {#}"
  by (simp add: all_frames_def idle_frames)

lemma core_dag_wf:
  assumes "dag_core g {#} ns" "\<not> dg_submitted g" "length ns < 2 ^ 32"
  shows "dag_wf g \<and> dg_nodes g = ns"
proof -
  note c = assms(1) [unfolded dag_core_def]
  have b: "dg_nodes g = ns" "\<And>n. \<not> tn_submitted (dg_node g n)" "\<And>n. \<not> eh_sealed (tn_firstEdge (dg_node g n))"
    using c assms(2) unfolding building_def by blast+
  have "tn_deps (dg_node g d) = int (count (edges_left g ns {}) d)" for d
  proof -
    have "tn_deps (dg_node g d) = outstanding g {#} (set ns) d" using c b(2) unfolding balanced_def fired_def by auto
    also have "\<dots> = int (count (edges_left g ns {}) d)"
      by (simp add: outstanding_def pend_def b(3) cnt_def edges_left_def count_sum succs_def)
    finally show ?thesis .
  qed
  moreover have "set (succs g v) \<subseteq> set ns" for v using c unfolding shape_def by blast
  ultimately show ?thesis using c b(1) assms(3) unfolding dag_wf_def by auto
qed

text \<open>(C10) The cycle check of \<open>Submit\<close> (Kahn's algorithm over the dependency counters) decides exactly whether the edges
  of the graph have a cycle, for every graph built by any interleaving of the building calls.\<close>

theorem HasCycle_decides:
  assumes "reach dag_step (dag_new tasks scope table threads) s" "\<not> dr_refused s" "list_all (\<lambda>fs. fs = []) (dr_threads s)"
    "\<not> dg_submitted (dr_g s)" "length (dr_all s) < 2 ^ 32"
  shows "\<exists>g. HasCycle (dr_g s) = Some (\<not> acyclic (edge_rel (dr_g s) (dr_all s)), g)"
proof -
  have "dag_core (dr_g s) {#} (dr_all s)" using dag_reach_core [OF assms(1,2)] idle_all_frames [OF assms(3)] by simp
  from core_dag_wf [OF this assms(4,5)] show ?thesis using HasCycle_acyclic [of "dr_g s"] by auto
qed

lemma core_quiet:
  assumes "dag_core g {#} ns" "dg_submitted g" "dg_queue g = []" "\<forall>n \<in> set ns. \<not> ext_waiting (dg_node g n)" "acyclic (edge_rel g ns)"
    "n \<in> set ns"
  shows "count (mset (dg_retired g)) n = 1"
proof -
  note c = assms(1) [unfolded dag_core_def]
  have fin: "count (mset (dg_retired g)) m = 1" if m: "m \<in> set ns" "tn_submitted (dg_node g m)" for m
  proof -
    have "tokens g {#} m = 1" using c m(2) unfolding one_finish_def by presburger
    then show ?thesis using assms(3,4) m(1) unfolding tokens_def queued_def by simp
  qed
  have "finite (edge_rel g ns)"
    by (rule finite_subset [of _ "set ns \<times> set ns"]) (use c in \<open>auto simp: edge_rel_def shape_def\<close>)
  then have wf: "wf (edge_rel g ns)" using assms(5) by (rule finite_acyclic_wf)
  have "tn_submitted (dg_node g n)"
  proof (rule ccontr)
    assume "\<not> tn_submitted (dg_node g n)"
    then have "n \<in> {m \<in> set ns. \<not> tn_submitted (dg_node g m)}" using assms(6) by simp
    then obtain z where a: "z \<in> {m \<in> set ns. \<not> tn_submitted (dg_node g m)}"
      "\<And>y. (y, z) \<in> edge_rel g ns \<Longrightarrow> y \<notin> {m \<in> set ns. \<not> tn_submitted (dg_node g m)}"
      by (rule wfE_min [OF wf]) (rule that)
    then have z: "z \<in> set ns" "\<not> tn_submitted (dg_node g z)"
      and least: "\<And>y. (y, z) \<in> edge_rel g ns \<Longrightarrow> y \<in> set ns \<Longrightarrow> tn_submitted (dg_node g y)" by simp_all
    have "tn_deps (dg_node g z) \<noteq> 0" using c assms(2) z unfolding covered_def fired_def by auto
    moreover have "tn_deps (dg_node g z) = outstanding g {#} (set ns) z" using c z(2) unfolding balanced_def fired_def by auto
    ultimately have "(\<Sum>p \<in> set ns. pend g z p) \<noteq> 0" by (simp add: outstanding_def)
    then obtain p where p: "p \<in> set ns" "pend g z p \<noteq> 0" by (meson sum.neutral)
    then have u: "\<not> eh_sealed (tn_firstEdge (dg_node g p))" "cnt z (eh_ptr (tn_firstEdge (dg_node g p))) \<noteq> 0"
      by (auto simp: pend_def Let_def split: if_splits)
    then have "z \<in> set (succs g p)" unfolding succs_def cnt_pos [symmetric] by (metis cnt_simps(4) less_le)
    then have "count (mset (dg_retired g)) p = 1" using fin least p(1) by (auto simp: edge_rel_def)
    moreover have "count (mset (dg_retired g)) p = 0" using c u(1) unfolding one_finish_def by auto
    ultimately show False by simp
  qed
  then show ?thesis by (rule fin [OF assms(6)])
qed

text \<open>(C4) No node is left behind: whenever a submitted graph is at rest (no call in progress, no task in the scheduler's hands,
  no external node waiting for its signal) and its edges form no cycle, every node has finished, and exactly once.
  This covers cancellation, tasks the scheduler refused or discarded, gates of both kinds, and edges added while the graph ran.\<close>

theorem dag_no_node_left_behind:
  assumes "reach dag_step (dag_new tasks scope table threads) s" "\<not> dr_refused s" "dg_submitted (dr_g s)"
    "list_all (\<lambda>fs. fs = []) (dr_threads s)" "dg_queue (dr_g s) = []"
    "\<forall>n \<in> set (dr_all s). \<not> (ext_armed (dg_node (dr_g s) n) \<and> \<not> ext_signalled (dg_node (dr_g s) n))"
    "acyclic (edge_rel (dr_g s) (dr_all s))" "n \<in> set (dr_all s)"
  shows "count (mset (dg_retired (dr_g s))) n = 1"
proof -
  have "dag_core (dr_g s) {#} (dr_all s)" using dag_reach_core [OF assms(1,2)] idle_all_frames [OF assms(4)] by simp
  moreover have "\<forall>n \<in> set (dr_all s). \<not> ext_waiting (dg_node (dr_g s) n)" using assms(6) by (simp add: ext_waiting_def)
  ultimately show ?thesis using core_quiet assms(3,5,7,8) by blast
qed

text \<open>(C17) A node that waits for all its dependencies is released by its counter only when each node with an edge to it has
  finished or is in the walk of its own completion: the counter never reaches zero early, whatever other threads add or finish.\<close>

theorem and_node_waits_for_all:
  assumes "reach dag_step (dag_new tasks scope table threads) s" "\<not> dr_refused s"
    "i < length (dr_threads s)" "dr_threads s ! i = FDec d # rest" "snd (exec b (FDec d) (dr_g s)) = [FFire d Completed]"
    "\<not> tn_submitted (dg_node (dr_g s) d)" "\<forall>oc. FFire d oc \<notin> set (concat (dr_threads s))"
    "p \<in> set (dr_all s)" "d \<in> set (succs (dr_g s) p)"
  shows "eh_sealed (tn_firstEdge (dg_node (dr_g s) p)) \<or> (\<exists>f \<in> set (concat (dr_threads s)). walks p f)"
proof -
  let ?g = "dr_g s" and ?A = "set (dr_all s)"
  obtain R where R: "all_frames s = add_mset (FDec d) R" using frame_moves [OF assms(3,4)] unfolding all_frames_def by metis
  note c = dag_reach_core [OF assms(1,2), unfolded dag_core_def R]
  have "tn_deps (dg_node ?g d) = 1" using assms(5) by (simp add: Dec_dep_def split: if_splits)
  moreover have "\<not> fired ?g (add_mset (FDec d) R) d"
    using assms(6,7) R unfolding fired_def all_frames_def by (metis set_mset_mset)
  ultimately have "outstanding ?g (add_mset (FDec d) R) ?A d = 1" using c unfolding balanced_def by force
  then have z: "outstanding ?g R ?A d = 0" by (simp add: outstanding_def)
  have one: "one_finish ?g R" using c by (simp add: one_finish_def tokens_def)
  have ok: "\<forall>f \<in># R. frame_ok ?g ?A f" using c unfolding shape_def by simp
  note l = outstanding_lower [OF one ok List.finite_set, of d, unfolded z]
  show ?thesis
  proof (cases "\<exists>f \<in># R. walks p f")
    case True
    then show ?thesis using R unfolding all_frames_def by (metis set_mset_mset union_single_eq_member add_mset_add_single union_iff)
  next
    case False
    then have "p \<in> {n \<in> ?A. \<forall>f \<in># R. \<not> walks n f}" using assms(8) by blast
    then have "pend ?g d p \<le> (\<Sum>n \<in> {n \<in> ?A. \<forall>f \<in># R. \<not> walks n f}. pend ?g d n)"
      by (rule member_le_sum) (simp_all add: pend_nonneg)
    then have "pend ?g d p = 0" using l pend_nonneg [of ?g d p] by simp
    moreover have "0 < cnt d (eh_ptr (tn_firstEdge (dg_node ?g p)))" using assms(9) unfolding cnt_pos succs_def .
    ultimately show ?thesis by (simp add: pend_def Let_def split: if_splits)
  qed
qed

section \<open>A graph of two nodes\<close>

text \<open>A gate, a node with a task behind it, and two threads: the graph is built and submitted, the gate's completion releases the
  node, the scheduler runs its task.\<close>

definition demo_build :: "event list" where
  "demo_build = [EGate 0 LAND, ECreate 1 (Some 3) NONE NONE, EAdd 1 (Some 1) (Some 0) (Some 7)] @ replicate 3 (EFrame 1 True)"

definition demo_release :: "event list" where
  "demo_release = demo_build @ [ESubmit 0] @ replicate 8 (EFrame 0 True)"

definition demo_rest :: "event list" where
  "demo_rest = demo_release @ replicate 7 (EFrame 0 True) @ [ERun 1 ToTarget 3] @ replicate 3 (EFrame 1 True)"

definition demo_start :: dag_run where
  "demo_start = dag_new (\<lambda>_. new_Task 5 6 Normal) 0 cancel_init 2"

definition demo_at :: "event list \<Rightarrow> dag_run" where
  "demo_at evs = the (dag_runs evs demo_start)"

lemma demo_reach: "dag_runs evs demo_start \<noteq> None \<Longrightarrow> reach dag_step demo_start (demo_at evs)"
  using dag_runs_reach [of evs demo_start _ demo_start] by (auto simp: demo_at_def reach.reach_init)

lemma edge_rel_list: "edge_rel g V = set (concat (map (\<lambda>u. map (Pair u) (succs g u)) V))"
  by (auto simp: edge_rel_def)

definition demo_check :: "event list \<Rightarrow> bool" where
  "demo_check evs \<longleftrightarrow> (case dag_runs evs demo_start of None \<Rightarrow> False | Some s \<Rightarrow> \<not> dr_refused s \<and> dr_all s = [0, 1] \<and>
     concat (map (\<lambda>u. map (Pair u) (succs (dr_g s) u)) (dr_all s)) = [(0, 1)])"

lemma demo_checks: "demo_check demo_build" "demo_check demo_release" "demo_check demo_rest"
  by code_simp+

lemma demo_facts:
  assumes "demo_check evs"
  shows "reach dag_step demo_start (demo_at evs)" "\<not> dr_refused (demo_at evs)" "dr_all (demo_at evs) = [0, 1]"
    "edge_rel (dr_g (demo_at evs)) (dr_all (demo_at evs)) = {(0, 1)}" "dag_runs evs demo_start = Some (demo_at evs)"
proof -
  obtain s where s: "dag_runs evs demo_start = Some s" using assms by (auto simp: demo_check_def split: option.splits)
  then show "dag_runs evs demo_start = Some (demo_at evs)" by (simp add: demo_at_def)
  show "reach dag_step demo_start (demo_at evs)" using s by (intro demo_reach) simp
  have "\<not> dr_refused s \<and> dr_all s = [0, 1] \<and> concat (map (\<lambda>u. map (Pair u) (succs (dr_g s) u)) (dr_all s)) = [(0, 1)]"
    using assms unfolding demo_check_def s option.case .
  then have a: "\<not> dr_refused s" "dr_all s = [0, 1]" "concat (map (\<lambda>u. map (Pair u) (succs (dr_g s) u)) (dr_all s)) = [(0, 1)]"
    by blast+
  have e: "demo_at evs = s" using s by (simp add: demo_at_def)
  show "\<not> dr_refused (demo_at evs)" "dr_all (demo_at evs) = [0, 1]" unfolding e by (rule a)+
  show "edge_rel (dr_g (demo_at evs)) (dr_all (demo_at evs)) = {(0, 1)}"
    unfolding e edge_rel_list a(3) by simp
qed

lemma acyclic_one_edge: "acyclic {(0 :: nat, 1)}"
  by (rule acyclicI_order [of _ "\<lambda>n. - int n"]) auto

theorem HasCycle_decides_witness:
  "\<exists>g. HasCycle (dr_g (demo_at demo_build)) = Some (False, g)"
proof -
  note f = demo_facts [OF demo_checks(1)]
  have "case dag_runs demo_build demo_start of None \<Rightarrow> False
    | Some s \<Rightarrow> list_all (\<lambda>fs. fs = []) (dr_threads s) \<and> \<not> dg_submitted (dr_g s)" by code_simp
  then have "list_all (\<lambda>fs. fs = []) (dr_threads (demo_at demo_build))" "\<not> dg_submitted (dr_g (demo_at demo_build))"
    by (simp_all add: f(5))
  from HasCycle_decides [OF f(1) [unfolded demo_start_def] f(2) this] show ?thesis
    unfolding f(4) using acyclic_one_edge by (simp add: f(3))
qed

theorem dag_no_node_left_behind_witness:
  "count (mset (dg_retired (dr_g (demo_at demo_rest)))) 1 = 1"
proof -
  note f = demo_facts [OF demo_checks(3)]
  have "case dag_runs demo_rest demo_start of None \<Rightarrow> False
    | Some s \<Rightarrow> dg_submitted (dr_g s) \<and> list_all (\<lambda>fs. fs = []) (dr_threads s) \<and> dg_queue (dr_g s) = [] \<and>
        list_all (\<lambda>n. \<not> (ext_armed (dg_node (dr_g s) n) \<and> \<not> ext_signalled (dg_node (dr_g s) n))) (dr_all s)" by code_simp
  then have "dg_submitted (dr_g (demo_at demo_rest))" "list_all (\<lambda>fs. fs = []) (dr_threads (demo_at demo_rest))"
    "dg_queue (dr_g (demo_at demo_rest)) = []"
    "\<forall>n \<in> set (dr_all (demo_at demo_rest)). \<not> (ext_armed (dg_node (dr_g (demo_at demo_rest)) n) \<and> \<not> ext_signalled (dg_node (dr_g (demo_at demo_rest)) n))"
    unfolding f(5) option.case list_all_iff by blast+
  from dag_no_node_left_behind [OF f(1) [unfolded demo_start_def] f(2) this, of 1] show ?thesis
    unfolding f(4) using acyclic_one_edge by (simp add: f(3))
qed

theorem and_node_waits_for_all_witness:
  "eh_sealed (tn_firstEdge (dg_node (dr_g (demo_at demo_release)) 0)) \<or> (\<exists>f \<in> set (concat (dr_threads (demo_at demo_release))). walks 0 f)"
proof -
  let ?s = "demo_at demo_release"
  note f = demo_facts [OF demo_checks(2)]
  have "case dag_runs demo_release demo_start of None \<Rightarrow> False
    | Some s \<Rightarrow> length (dr_threads s) = 2 \<and> take 1 (dr_threads s ! 0) = [FDec 1] \<and> tn_deps (dg_node (dr_g s) 1) = 1 \<and>
       \<not> tn_submitted (dg_node (dr_g s) 1) \<and> FFire 1 Completed \<notin> set (concat (dr_threads s)) \<and>
       FFire 1 OutcomeCancelled \<notin> set (concat (dr_threads s)) \<and> succs (dr_g s) 0 = [1]" by code_simp
  then have a: "length (dr_threads ?s) = 2" "take 1 (dr_threads ?s ! 0) = [FDec 1]" "tn_deps (dg_node (dr_g ?s) 1) = 1"
    "\<not> tn_submitted (dg_node (dr_g ?s) 1)" "FFire 1 Completed \<notin> set (concat (dr_threads ?s))"
    "FFire 1 OutcomeCancelled \<notin> set (concat (dr_threads ?s))" "succs (dr_g ?s) 0 = [1]"
    unfolding f(5) option.case by blast+
  have i: "0 < length (dr_threads ?s)" using a(1) by simp
  have t: "dr_threads ?s ! 0 = FDec 1 # drop 1 (dr_threads ?s ! 0)" using a(2) append_take_drop_id [of 1 "dr_threads ?s ! 0"] by simp
  have e: "snd (exec True (FDec 1) (dr_g ?s)) = [FFire 1 Completed]" using a(3) by (simp add: Dec_dep_def)
  have n: "\<forall>oc. FFire 1 oc \<notin> set (concat (dr_threads ?s))" using a(5,6) by (metis NodeOutcome.exhaust)
  from and_node_waits_for_all [OF f(1) [unfolded demo_start_def] f(2) i t e a(4) n, of 0] show ?thesis by (simp add: f(3) a(7))
qed

text \<open>A node is created on a graph that was not submitted and nowhere else: after \<open>Submit\<close> each of the four creating calls
  stops the process; before it, each returns a null pointer and leaves the nodes alone exactly when the allocator has no memory.\<close>

theorem creating_nodes_after_Submit_aborts:
  "(CreateNode mem t pri cpu g = None \<longleftrightarrow> dg_submitted g) \<and> (CreateMainNode mem t pri g = None \<longleftrightarrow> dg_submitted g) \<and>
   (CreateGate mem ty g = None \<longleftrightarrow> dg_submitted g) \<and> (CreateExternalNode mem g = None \<longleftrightarrow> dg_submitted g) \<and>
   (case CreateNode mem t pri cpu g of None \<Rightarrow> dg_submitted g
    | Some (r, g') \<Rightarrow> r = mem \<and> dg_nodes g' = dg_nodes g @ (case mem of None \<Rightarrow> [] | Some n \<Rightarrow> [n])) \<and>
   (case CreateGate mem ty g of None \<Rightarrow> dg_submitted g
    | Some (r, g') \<Rightarrow> r = mem \<and> dg_nodes g' = dg_nodes g @ (case mem of None \<Rightarrow> [] | Some n \<Rightarrow> [n]))"
  by (cases mem; cases t) (simp_all add: create_defs upd_task_def upd_node_def)

end
