(* ===== verification/EdgeArenas.thy ===== *)
theory EdgeArenas
  imports TaskDags
begin


record EdgeArena =
  ar_slots :: "ptr list"
  ar_used :: "nat \<Rightarrow> nat"
  ar_prev :: "nat \<Rightarrow> ptr"
  ar_retireHead :: ptr



text \<open>A call of \<open>AllocEdge\<close> between two of its atomic accesses.\<close>

datatype ar_pc =
    AIdle
  | ALoad nat
  | ABump nat nat
  | ATake nat ptr
  | AChain nat ptr nat ptr
  | AInstall nat ptr nat

record ar_run =
  ar_a :: EdgeArena
  ar_pcs :: "ar_pc list"
  ar_blocks :: "nat list"
  ar_handed :: "(nat \<times> nat) list"


definition goto :: "nat \<Rightarrow> ar_pc \<Rightarrow> EdgeArena \<Rightarrow> ar_run \<Rightarrow> ar_run" where
  "goto i p a s = s\<lparr>ar_a := a, ar_pcs := (ar_pcs s)[i := p]\<rparr>"


definition bump :: "nat \<Rightarrow> EdgeArena \<Rightarrow> EdgeArena" where
  "bump b a = a\<lparr>ar_used := (ar_used a)(b := ar_used a b + 1)\<rparr>"

definition take_block :: "nat \<Rightarrow> EdgeArena \<Rightarrow> EdgeArena" where
  "take_block f a = a\<lparr>ar_used := (ar_used a)(f := 1), ar_prev := (ar_prev a)(f := None)\<rparr>"





section \<open>Invariant\<close>

text \<open>The block a call has taken and not yet chained, or chained and not yet installed.\<close>

fun fresh_of :: "ar_pc \<Rightarrow> nat list" where
  "fresh_of (AChain _ _ f _) = [f]"
| "fresh_of (AInstall _ _ f) = [f]"
| "fresh_of _ = []"



definition hidden :: "ar_run \<Rightarrow> nat list" where "hidden s = concat (map fresh_of (ar_pcs s))"







lemma block_simps [simp]:
  "ar_used (take_block f a) = (ar_used a)(f := 1)" "ar_slots (take_block f a) = ar_slots a" "ar_retireHead (take_block f a) = ar_retireHead a"
  "ar_prev (take_block f a) = (ar_prev a)(f := None)" "ar_used (bump b a) = (ar_used a)(b := ar_used a b + 1)" "ar_slots (bump b a) = ar_slots a"
  "ar_retireHead (bump b a) = ar_retireHead a" "ar_prev (bump b a) = ar_prev a"
  by (simp_all add: take_block_def bump_def)

lemma goto_simps [simp]:
  "ar_a (goto i p a s) = a" "ar_pcs (goto i p a s) = (ar_pcs s)[i := p]" "ar_blocks (goto i p a s) = ar_blocks s" "ar_handed (goto i p a s) = ar_handed s"
  by (simp_all add: goto_def)












lemma hidden_handed [simp]: "hidden (s\<lparr>ar_handed := x\<rparr>) = hidden s" "hidden (s\<lparr>ar_blocks := y\<rparr>) = hidden s"
  by (simp_all add: hidden_def)










section \<open>Properties\<close>


section \<open>The first edge\<close>





end
