(* ===== verification/FiberRuns.thy ===== *)
theory FiberRuns
  imports TaskTypes
begin

text \<open>
  Suspending and resuming one fiber (\<^verbatim>\<open>include/Fiber.h\<close>; the dispatch and \<open>OnFiberReturned\<close> of \<^verbatim>\<open>src/Thread.cpp\<close>). The status word is
  shared by the thread that runs the fiber and by every thread that resumes it; a step is one access of one thread. What
  must be unique is the right to run the fiber: it lies in a queue entry of its task, with a thread, or in the status
  word itself. Direct switches between fibers are part of the model, as the code makes them: \<open>SwitchTo\<close> takes a fiber that is ready or
  transferred. The field \<open>fb_misused\<close> is not in the code: it records that some \<open>SwitchTo\<close> took a fiber that was ready, whose task is in a queue, or
  a transferred one whose thread had not left its stack yet. The properties hold for the runs in which that has not happened, and two
  runs at the end show that they fail otherwise.
\<close>

section \<open>Status and pins\<close>

datatype FiberStatus = READY | RUNNING | WANTS_YIELD | WANTS_SUSPEND | SUSPEND_SIGNALED | SUSPENDED | TRANSFERRED | DEAD

text \<open>
  \<open>StampPin\<close>: \<open>self\<close> is the queue index of the calling pool worker, if it is one, and \<open>workers\<close> the number of workers of an
  initialised scheduler. The assertion of the debug build on a worker that does not exist is the release build's no pin.
\<close>

definition StampPin :: "bool \<Rightarrow> nat option \<Rightarrow> nat option \<Rightarrow> pin \<Rightarrow> TaskRecord option \<Rightarrow> TaskRecord option" where
  "StampPin forced self workers p rec = (case rec of None \<Rightarrow> None | Some r \<Rightarrow>
     (let target = (if forced \<and> p \<noteq> pinMain then pinCurrent else p);
          final = (if target = pinCurrent then (case self of Some q \<Rightarrow> of_nat q | None \<Rightarrow> pinNone)
                   else if target = pinMain then target
                   else if target \<noteq> pinNone \<and> \<not> (case workers of None \<Rightarrow> False | Some n \<Rightarrow> unat target < n) then pinNone
                   else target)
      in Some (r\<lparr>tr_pinTo := final\<rparr>)))"

text \<open>Whether a task may suspend at all; a native task that tries stops the process.\<close>

datatype suspendable = MaySuspend | NativeViolation | CoroutineBlocks

definition CheckSuspendable :: "Task option \<Rightarrow> suspendable" where
  "CheckSuspendable t = (case t of None \<Rightarrow> MaySuspend | Some t \<Rightarrow>
     if tk_type t = TNative then NativeViolation else if tk_type t = TCoroutine then CoroutineBlocks else MaySuspend)"

section \<open>Threads at work on a fiber\<close>

text \<open>
  The points of a thread that runs the fiber: it has popped the task (\<open>TGot\<close>), runs the body, has announced a suspension or a
  yield, is back in the scheduler (\<open>TBack\<close>), has seen a status that is neither dead nor a yield (\<open>TSettle\<close>), found the wake that came
  early (\<open>TEarly\<close>), has to push the task (\<open>TPush\<close>), or has published the hand-over but not saved its context yet (\<open>TLeaving\<close>). The points of a thread that resumes it: about to load the status, holding the value it
  loaded, and about to push the task. \<open>fresh\<close> says that the call began during the fiber's current wait.
\<close>

datatype fb_pc =
    TIdle
  | TGot
  | TBody
  | TAnnounced
  | TBack
  | TSettle
  | TYield
  | TEarly
  | TPush
  | TLeaving
  | RLoad bool
  | RGot bool FiberStatus

record fb_run =
  fb_status :: FiberStatus
  fb_queued :: nat
  fb_pcs :: "fb_pc list"
  fb_gone :: bool
  fb_called :: bool
  fb_misused :: bool

definition waiting :: "FiberStatus \<Rightarrow> bool" where
  [simp]: "waiting st \<longleftrightarrow> st = WANTS_SUSPEND \<or> st = SUSPENDED"

definition fb_init :: "nat \<Rightarrow> fb_run" where
  "fb_init threads = \<lparr>fb_status = READY, fb_queued = 1, fb_pcs = replicate threads TIdle, fb_gone = False, fb_called = False, fb_misused = False\<rparr>"

definition moves :: "nat \<Rightarrow> fb_pc \<Rightarrow> fb_run \<Rightarrow> fb_run" where
  "moves i p s = s\<lparr>fb_pcs := (fb_pcs s)[i := p]\<rparr>"

text \<open>A new wait makes the calls in progress stale.\<close>

fun stale :: "fb_pc \<Rightarrow> fb_pc" where
  "stale (RLoad _) = RLoad False"
| "stale (RGot _ st) = RGot False st"
| "stale p = p"

text \<open>\<open>Resume\<close> after its load: the status it leaves, and where the call goes on.\<close>

definition Resume_next :: "bool \<Rightarrow> FiberStatus \<Rightarrow> FiberStatus \<Rightarrow> FiberStatus \<times> fb_pc" where
  "Resume_next fr seen now =
    (if seen = SUSPENDED then (if now = SUSPENDED then (READY, TPush) else (now, TIdle))
     else if seen = WANTS_SUSPEND then (if now = WANTS_SUSPEND then (SUSPEND_SIGNALED, TIdle) else (now, RLoad fr))
     else (now, TIdle))"

text \<open>\<open>OnFiberReturned\<close> after its load of the status, and its compare-exchange.\<close>

definition Returned_next :: "FiberStatus \<Rightarrow> fb_pc" where
  "Returned_next st = (if st = DEAD then TIdle else if st = WANTS_YIELD then TYield else TSettle)"

definition Settle_next :: "FiberStatus \<Rightarrow> FiberStatus \<times> fb_pc" where
  "Settle_next st = (if st = WANTS_SUSPEND then (SUSPENDED, TIdle) else if st = SUSPEND_SIGNALED then (st, TEarly) else (st, TIdle))"

inductive fb_step :: "fb_run \<Rightarrow> fb_run \<Rightarrow> bool" where
  f_pop: "i < length (fb_pcs s) \<Longrightarrow> fb_pcs s ! i = TIdle \<Longrightarrow> 0 < fb_queued s \<Longrightarrow>
    fb_step s ((moves i TGot s)\<lparr>fb_queued := fb_queued s - 1\<rparr>)"
| f_enter: "i < length (fb_pcs s) \<Longrightarrow> fb_pcs s ! i = TGot \<Longrightarrow> fb_step s ((moves i TBody s)\<lparr>fb_status := RUNNING\<rparr>)"
| f_suspend: "i < length (fb_pcs s) \<Longrightarrow> fb_pcs s ! i = TBody \<Longrightarrow>
    fb_step s (s\<lparr>fb_pcs := (map stale (fb_pcs s))[i := TAnnounced], fb_status := WANTS_SUSPEND, fb_called := False\<rparr>)"
| f_yield: "i < length (fb_pcs s) \<Longrightarrow> fb_pcs s ! i = TBody \<Longrightarrow> fb_step s ((moves i TBack s)\<lparr>fb_status := WANTS_YIELD\<rparr>)"
| f_end: "i < length (fb_pcs s) \<Longrightarrow> fb_pcs s ! i = TBody \<Longrightarrow> fb_step s ((moves i TBack s)\<lparr>fb_status := DEAD\<rparr>)"
| f_switch_back: "i < length (fb_pcs s) \<Longrightarrow> fb_pcs s ! i = TAnnounced \<Longrightarrow> fb_step s (moves i TBack s)"
| f_returned: "i < length (fb_pcs s) \<Longrightarrow> fb_pcs s ! i = TBack \<Longrightarrow>
    fb_step s ((moves i (Returned_next (fb_status s)) s)\<lparr>fb_gone := fb_gone s \<or> fb_status s = DEAD\<rparr>)"
| f_yielded: "i < length (fb_pcs s) \<Longrightarrow> fb_pcs s ! i = TYield \<Longrightarrow> fb_step s ((moves i TPush s)\<lparr>fb_status := READY\<rparr>)"
| f_settle: "i < length (fb_pcs s) \<Longrightarrow> fb_pcs s ! i = TSettle \<Longrightarrow> Settle_next (fb_status s) = (st, p) \<Longrightarrow>
    fb_step s ((moves i p s)\<lparr>fb_status := st\<rparr>)"
| f_early: "i < length (fb_pcs s) \<Longrightarrow> fb_pcs s ! i = TEarly \<Longrightarrow> fb_step s ((moves i TPush s)\<lparr>fb_status := READY\<rparr>)"
| f_push: "i < length (fb_pcs s) \<Longrightarrow> fb_pcs s ! i = TPush \<Longrightarrow> fb_step s ((moves i TIdle s)\<lparr>fb_queued := fb_queued s + 1\<rparr>)"
| r_call: "i < length (fb_pcs s) \<Longrightarrow> fb_pcs s ! i = TIdle \<Longrightarrow>
    fb_step s ((moves i (RLoad (waiting (fb_status s))) s)\<lparr>fb_called := fb_called s \<or> waiting (fb_status s)\<rparr>)"
| r_load: "i < length (fb_pcs s) \<Longrightarrow> fb_pcs s ! i = RLoad fr \<Longrightarrow> fb_step s (moves i (RGot fr (fb_status s)) s)"
| r_try: "i < length (fb_pcs s) \<Longrightarrow> fb_pcs s ! i = RGot fr seen \<Longrightarrow> Resume_next fr seen (fb_status s) = (st, p) \<Longrightarrow>
    fb_step s ((moves i p s)\<lparr>fb_status := st\<rparr>)"
| s_out: "i < length (fb_pcs s) \<Longrightarrow> fb_pcs s ! i = TBody \<Longrightarrow> fb_step s ((moves i TLeaving s)\<lparr>fb_status := TRANSFERRED\<rparr>)"
| s_left: "i < length (fb_pcs s) \<Longrightarrow> fb_pcs s ! i = TLeaving \<Longrightarrow> fb_step s (moves i TIdle s)"
| s_in: "i < length (fb_pcs s) \<Longrightarrow> fb_pcs s ! i = TIdle \<Longrightarrow> fb_status s = READY \<or> fb_status s = TRANSFERRED \<Longrightarrow>
    fb_step s ((moves i TBody s)\<lparr>fb_status := RUNNING, fb_misused := fb_misused s \<or> fb_status s = READY \<or> TLeaving \<in> set (fb_pcs s)\<rparr>)"

section \<open>One right to run\<close>

fun holds :: "fb_pc \<Rightarrow> bool" where
  "holds TIdle = False" | "holds (RLoad _) = False" | "holds (RGot _ _) = False" | "holds _ = True"

definition parked :: "fb_run \<Rightarrow> bool" where
  "parked s \<longleftrightarrow> fb_status s = SUSPENDED \<or> fb_status s = TRANSFERRED \<and> TLeaving \<notin> set (fb_pcs s)"

definition bit01 :: "bool \<Rightarrow> nat" where "bit01 p = (if p then 1 else 0)"

definition rights :: "fb_run \<Rightarrow> nat" where
  "rights s = bool_count holds (fb_pcs s) + fb_queued s + bit01 (parked s) + bit01 (fb_gone s)"

text \<open>What the thread at a point knows of the status.\<close>

fun knows :: "fb_pc \<Rightarrow> FiberStatus \<Rightarrow> bool" where
  "knows TAnnounced st \<longleftrightarrow> st = WANTS_SUSPEND \<or> st = SUSPEND_SIGNALED"
| "knows TBack st \<longleftrightarrow> st = WANTS_SUSPEND \<or> st = SUSPEND_SIGNALED \<or> st = WANTS_YIELD \<or> st = DEAD"
| "knows TSettle st \<longleftrightarrow> st = WANTS_SUSPEND \<or> st = SUSPEND_SIGNALED"
| "knows TYield st \<longleftrightarrow> st = WANTS_YIELD"
| "knows TEarly st \<longleftrightarrow> st = SUSPEND_SIGNALED"
| "knows TGot st \<longleftrightarrow> st = READY"
| "knows TBody st \<longleftrightarrow> st = RUNNING"
| "knows TPush st \<longleftrightarrow> st = READY"
| "knows TLeaving st \<longleftrightarrow> st = TRANSFERRED"
| "knows _ st \<longleftrightarrow> True"

definition fb_owned :: "fb_run \<Rightarrow> bool" where
  [inv_defs]: "fb_owned s \<longleftrightarrow> rights s = 1 \<and> (\<forall>p \<in> set (fb_pcs s). knows p (fb_status s)) \<and>
    (0 < fb_queued s \<longrightarrow> fb_status s = READY) \<and> (fb_gone s \<longrightarrow> fb_status s = DEAD)"

lemma moves_simps [simp]:
  "fb_pcs (moves i p s) = (fb_pcs s)[i := p]" "fb_status (moves i p s) = fb_status s" "fb_queued (moves i p s) = fb_queued s"
  "fb_gone (moves i p s) = fb_gone s" "fb_called (moves i p s) = fb_called s" "fb_misused (moves i p s) = fb_misused s"
  by (simp_all add: moves_def)

lemma bit01_simps [simp]: "bit01 True = 1" "bit01 False = 0" "bit01 p = 0 \<longleftrightarrow> \<not> p"
  by (simp_all add: bit01_def)

lemma stale_keeps [simp]: "holds (stale p) = holds p" "knows (stale p) st = knows p st"
  by (cases p; simp)+

lemma idle_knows: "\<not> holds p \<Longrightarrow> knows p st"
  by (cases p) auto

lemma knows_at: "fb_owned s \<Longrightarrow> i < length (fb_pcs s) \<Longrightarrow> fb_pcs s ! i = p \<Longrightarrow> knows p (fb_status s)"
  unfolding fb_owned_def by (metis nth_mem)

lemma kept_elsewhere: "i < length xs \<Longrightarrow> xs ! i \<noteq> x \<Longrightarrow> y \<noteq> x \<Longrightarrow> x \<in> set (xs[i := y]) \<longleftrightarrow> x \<in> set xs"
  by (metis in_set_conv_nth length_list_update nth_list_update)

text \<open>The thread that holds the right is alone.\<close>

lemma holder_alone:
  assumes "fb_owned s" "i < length (fb_pcs s)" "holds (fb_pcs s ! i)"
  shows "fb_queued s = 0" "\<not> parked s" "\<not> fb_gone s" "bool_count holds (fb_pcs s) = 1"
    "q \<in> set ((fb_pcs s)[i := p]) \<Longrightarrow> q = p \<or> \<not> holds q"
proof -
  have r: "bool_count holds (fb_pcs s) + fb_queued s + bit01 (parked s) + bit01 (fb_gone s) = 1"
    using assms(1) by (simp add: fb_owned_def rights_def)
  have pos: "0 < bool_count holds (fb_pcs s)" using bool_count_pos [of i "fb_pcs s" holds] assms(2,3) by simp
  then show a: "fb_queued s = 0" "\<not> parked s" "\<not> fb_gone s" "bool_count holds (fb_pcs s) = 1"
    using r by (auto simp: bit01_def split: if_splits)
  have "bool_count holds ((fb_pcs s)[i := TIdle]) = 0" using bool_count_update [OF assms(2), of holds TIdle] a(4) assms(3) by simp
  then have z: "\<And>q. q \<in> set ((fb_pcs s)[i := TIdle]) \<Longrightarrow> \<not> holds q" by (simp add: bool_count_0)
  show "q \<in> set ((fb_pcs s)[i := p]) \<Longrightarrow> q = p \<or> \<not> holds q"
  proof -
    assume "q \<in> set ((fb_pcs s)[i := p])"
    then obtain j where j: "j < length (fb_pcs s)" "q = (fb_pcs s)[i := p] ! j" by (metis in_set_conv_nth length_list_update)
    show ?thesis
    proof (cases "j = i")
      case False
      then have "q = (fb_pcs s)[i := TIdle] ! j" using j by simp
      then show ?thesis using z j by (metis length_list_update nth_mem)
    qed (use j in simp)
  qed
qed

text \<open>The holder moves on and keeps the right, or passes it to the queue, the status word or the grave.\<close>

lemma holder_moves:
  assumes "fb_owned s" "i < length (fb_pcs s)" "holds (fb_pcs s ! i)" "fb_pcs t = (fb_pcs s)[i := p]"
    "bit01 (holds p) + fb_queued t + bit01 (parked t) + bit01 (fb_gone t) = 1" "knows p (fb_status t)"
    "0 < fb_queued t \<longrightarrow> fb_status t = READY" "fb_gone t \<longrightarrow> fb_status t = DEAD"
  shows "fb_owned t"
proof -
  note a = holder_alone [OF assms(1-3)]
  have "bool_count holds (fb_pcs t) = bit01 (holds p)"
    using bool_count_update [OF assms(2), of holds p] a(4) assms(3,4) by (auto simp: bit01_def split: if_splits)
  moreover have "\<forall>q \<in> set (fb_pcs t). knows q (fb_status t)"
    using a(5) idle_knows assms(4,6) by metis
  ultimately show ?thesis using assms(5,7,8) by (simp add: fb_owned_def rights_def)
qed

lemma idle_moves:
  assumes "fb_owned s" "i < length (fb_pcs s)" "\<not> holds (fb_pcs s ! i)" "\<not> holds p" "fb_pcs t = (fb_pcs s)[i := p]"
    "fb_queued t = fb_queued s" "fb_gone t = fb_gone s" "fb_status t = fb_status s \<or> fb_status s = WANTS_SUSPEND \<and> fb_status t = SUSPEND_SIGNALED"
    "\<And>q. knows q (fb_status s) \<Longrightarrow> knows q (fb_status t)" "0 < fb_queued t \<longrightarrow> fb_status t = READY" "fb_gone t \<longrightarrow> fb_status t = DEAD"
  shows "fb_owned t"
proof -
  have "bool_count holds (fb_pcs t) = bool_count holds (fb_pcs s)"
    using bool_count_update [OF assms(2), of holds p] assms(3,4,5) by simp
  moreover have "knows q (fb_status t)" if "q \<in> set (fb_pcs t)" for q
  proof (cases "holds q")
    case True
    then have "q \<in> set (fb_pcs s)" using that assms(4,5) set_update_subset_insert [of "fb_pcs s" i p] by auto
    then show ?thesis using assms(1,9) by (simp add: fb_owned_def)
  qed (rule idle_knows)
  moreover have "parked t = parked s"
  proof -
    have "TLeaving \<in> set (fb_pcs t) \<longleftrightarrow> TLeaving \<in> set (fb_pcs s)"
      unfolding assms(5) using assms(2,3,4) by (intro kept_elsewhere) auto
    then show ?thesis using assms(8) by (auto simp: parked_def)
  qed
  ultimately show ?thesis using assms by (simp add: fb_owned_def rights_def)
qed

lemma idle_takes:
  assumes "fb_owned s" "i < length (fb_pcs s)" "\<not> holds (fb_pcs s ! i)" "holds p" "fb_pcs t = (fb_pcs s)[i := p]"
    "fb_queued s + bit01 (parked s) = 1" "fb_queued t = 0" "\<not> parked t" "fb_gone t = fb_gone s" "knows p (fb_status t)"
  shows "fb_owned t"
proof -
  have r: "rights s = 1" using assms(1) by (simp add: fb_owned_def)
  then have z: "bool_count holds (fb_pcs s) = 0" "\<not> fb_gone s" using assms(6) by (auto simp: rights_def bit01_def split: if_splits)
  have c: "bool_count holds (fb_pcs t) = 1" using bool_count_update [OF assms(2), of holds p] z assms(3,4,5) by simp
  have "knows q (fb_status t)" if "q \<in> set (fb_pcs t)" for q
  proof (cases "q = p")
    case False
    then have "q \<in> set (fb_pcs s)" using that assms(5) set_update_subset_insert [of "fb_pcs s" i p] by auto
    then show ?thesis using z(1) by (auto simp: bool_count_0 intro: idle_knows)
  qed (simp add: assms(10))
  then show ?thesis using c z assms(7,8,9) by (simp add: fb_owned_def rights_def)
qed

lemma fb_step_owned: "fb_step s t \<Longrightarrow> fb_owned s \<Longrightarrow> \<not> fb_misused t \<Longrightarrow> fb_owned t"
proof (induction rule: fb_step.induct)
  case (f_pop i s)
  have "fb_status s = READY" using f_pop by (simp add: fb_owned_def)
  moreover have "fb_queued s + bit01 (parked s) = 1" using f_pop(3,4) calculation by (auto simp: fb_owned_def rights_def)
  ultimately show ?case using f_pop by - (rule idle_takes [OF f_pop(4,1), where p = TGot], auto simp: parked_def)
next
  case (f_suspend i s)
  note a = holder_alone [OF f_suspend(3,1)]
  have "fb_owned (s\<lparr>fb_pcs := map stale (fb_pcs s)\<rparr>)"
  proof -
    have "bool_count holds (map stale (fb_pcs s)) = bool_count holds (fb_pcs s)" by (simp add: bool_count_def comp_def)
    moreover have "stale q = TLeaving \<longleftrightarrow> q = TLeaving" for q by (cases q) auto
    then have "TLeaving \<in> set (map stale (fb_pcs s)) \<longleftrightarrow> TLeaving \<in> set (fb_pcs s)" by (metis image_iff set_map)
    then have "parked (s\<lparr>fb_pcs := map stale (fb_pcs s)\<rparr>) = parked s" by (simp add: parked_def)
    ultimately show ?thesis using f_suspend(3) by (simp add: fb_owned_def rights_def)
  qed
  then show ?case by (rule holder_moves [where i = i and p = TAnnounced]) (use f_suspend a in \<open>simp_all add: parked_def\<close>)
next
  case (f_returned i s)
  have "knows TBack (fb_status s)" by (rule knows_at [OF f_returned(3,1,2)])
  then show ?case using f_returned holder_alone [OF f_returned(3,1)]
    by - (rule holder_moves [OF f_returned(3,1), where p = "Returned_next (fb_status s)"], auto simp: Returned_next_def parked_def)
next
  case (f_settle i s st p)
  have "knows TSettle (fb_status s)" by (rule knows_at [OF f_settle(4,1,2)])
  then show ?case using f_settle holder_alone [OF f_settle(4,1)]
    by - (rule holder_moves [OF f_settle(4,1), where p = p], auto simp: Settle_next_def parked_def)
next
  case (f_push i s)
  have "knows TPush (fb_status s)" by (rule knows_at [OF f_push(3,1,2)])
  then show ?case using f_push holder_alone [OF f_push(3,1)]
    by - (rule holder_moves [OF f_push(3,1), where p = TIdle], auto simp: parked_def)
next
  case (f_switch_back i s)
  have "knows TAnnounced (fb_status s)" by (rule knows_at [OF f_switch_back(3,1,2)])
  then show ?case using f_switch_back holder_alone [OF f_switch_back(3,1)]
    by - (rule holder_moves [OF f_switch_back(3,1), where p = TBack], auto simp: parked_def)
next
  case (r_call i s)
  then show ?case by - (rule idle_moves [OF r_call(3,1)], auto simp: fb_owned_def)
next
  case (r_load i s fr)
  then show ?case by - (rule idle_moves [OF r_load(3,1)], auto simp: fb_owned_def)
next
  case (r_try i s fr seen st p)
  show ?case
  proof (cases "seen = SUSPENDED \<and> fb_status s = SUSPENDED")
    case True
    then have "fb_queued s = 0" using r_try(4) by (simp add: fb_owned_def rights_def)
    then show ?thesis using r_try True by - (rule idle_takes [OF r_try(4,1), where p = TPush], auto simp: Resume_next_def parked_def)
  next
    case False
    have k: "knows q SUSPEND_SIGNALED" if "knows q WANTS_SUSPEND" for q using that by (cases q) auto
    show ?thesis using r_try False k by - (rule idle_moves [OF r_try(4,1)], auto simp: Resume_next_def fb_owned_def split: if_splits)
  qed
next
  case (s_in i s)
  then have st: "fb_status s = TRANSFERRED" "parked s" by (auto simp: parked_def)
  then have "fb_queued s = 0" using s_in(4) by (simp add: fb_owned_def)
  then show ?case using s_in st by - (rule idle_takes [OF s_in(4,1), where p = TBody], auto simp: parked_def)
next
  case (f_enter i s)
  then show ?case using holder_alone [OF f_enter(3,1)] by - (rule holder_moves [OF f_enter(3,1), where p = TBody], auto simp: parked_def)
next
  case (f_yield i s)
  then show ?case using holder_alone [OF f_yield(3,1)] by - (rule holder_moves [OF f_yield(3,1), where p = TBack], auto simp: parked_def)
next
  case (f_end i s)
  then show ?case using holder_alone [OF f_end(3,1)] by - (rule holder_moves [OF f_end(3,1), where p = TBack], auto simp: parked_def)
next
  case (f_yielded i s)
  then show ?case using holder_alone [OF f_yielded(3,1)] by - (rule holder_moves [OF f_yielded(3,1), where p = TPush], auto simp: parked_def)
next
  case (f_early i s)
  then show ?case using holder_alone [OF f_early(3,1)] by - (rule holder_moves [OF f_early(3,1), where p = TPush], auto simp: parked_def)
next
  case (s_out i s)
  then show ?case using holder_alone [OF s_out(3,1)] by - (rule holder_moves [OF s_out(3,1), where p = TLeaving], auto simp: parked_def set_update_memI)
next
  case (s_left i s)
  have st: "knows TLeaving (fb_status s)" by (rule knows_at [OF s_left(3,1,2)])
  have "TLeaving \<notin> set ((fb_pcs s)[i := TIdle])" using holder_alone(5) [OF s_left(3,1)] s_left(2) by force
  then show ?case using s_left st holder_alone [OF s_left(3,1)]
    by - (rule holder_moves [OF s_left(3,1), where p = TIdle], auto simp: parked_def)
qed

section \<open>No wake is lost\<close>

text \<open>A call of \<open>Resume\<close> that began during the current wait and can still end it.\<close>

fun will_wake :: "FiberStatus \<Rightarrow> fb_pc \<Rightarrow> bool" where
  "will_wake st (RLoad fr) \<longleftrightarrow> fr"
| "will_wake st (RGot fr seen) \<longleftrightarrow> fr \<and> (seen = WANTS_SUSPEND \<or> seen = SUSPENDED \<and> st = SUSPENDED)"
| "will_wake st _ \<longleftrightarrow> False"

definition fb_wakes :: "fb_run \<Rightarrow> bool" where
  [inv_defs]: "fb_wakes s \<longleftrightarrow> (fb_called s \<and> waiting (fb_status s) \<longrightarrow> (\<exists>p \<in> set (fb_pcs s). will_wake (fb_status s) p))"

lemma will_wake_keep:
  assumes "p \<in> set ps" "will_wake st p" "i < length ps" "\<not> will_wake st (ps ! i)"
  shows "\<exists>q \<in> set (ps[i := x]). will_wake st q"
proof -
  obtain j where j: "j < length ps" "ps ! j = p" using assms(1) by (metis in_set_conv_nth)
  then have "j \<noteq> i" using assms(2,4) by auto
  then have "(ps[i := x]) ! j = p" using j by simp
  then show ?thesis using j assms(2) by (metis length_list_update nth_mem)
qed

lemma will_wake_later: "will_wake WANTS_SUSPEND p \<Longrightarrow> will_wake SUSPENDED p"
  by (cases p) auto

text \<open>A step that leaves the waiting status alone, or ends the wait.\<close>

lemma fb_wakesI:
  assumes "fb_wakes s" "i < length (fb_pcs s)" "fb_pcs t = (fb_pcs s)[i := x]" "fb_called t = fb_called s"
    "waiting (fb_status t) \<Longrightarrow> fb_status t = fb_status s" "will_wake (fb_status s) (fb_pcs s ! i) \<Longrightarrow> waiting (fb_status t) \<Longrightarrow> will_wake (fb_status s) x"
  shows "fb_wakes t"
  unfolding fb_wakes_def
proof
  assume c: "fb_called t \<and> waiting (fb_status t)"
  then have st: "fb_status t = fb_status s" using assms(5) by blast
  then obtain p where p: "p \<in> set (fb_pcs s)" "will_wake (fb_status s) p" using assms(1,4) c unfolding fb_wakes_def by auto
  show "\<exists>p \<in> set (fb_pcs t). will_wake (fb_status t) p"
  proof (cases "will_wake (fb_status s) (fb_pcs s ! i)")
    case True
    then have "will_wake (fb_status s) x" using assms(6) c by blast
    then show ?thesis unfolding assms(3) st using set_update_memI [OF assms(2)] by blast
  next
    case False
    then show ?thesis unfolding assms(3) st by (rule will_wake_keep [OF p assms(2)])
  qed
qed

lemma fb_step_wakes: "fb_step s t \<Longrightarrow> fb_owned s \<Longrightarrow> fb_wakes s \<Longrightarrow> fb_wakes t"
proof (induction rule: fb_step.induct)
  case (f_settle i s st p)
  show ?case
  proof (cases "fb_status s = WANTS_SUSPEND")
    case True
    then have t: "st = SUSPENDED" "p = TIdle" using f_settle(3) by (auto simp: Settle_next_def)
    show ?thesis unfolding fb_wakes_def
    proof
      assume "fb_called ((moves i p s)\<lparr>fb_status := st\<rparr>) \<and> waiting (fb_status ((moves i p s)\<lparr>fb_status := st\<rparr>))"
      then obtain q where q: "q \<in> set (fb_pcs s)" "will_wake WANTS_SUSPEND q" using f_settle(5) True unfolding fb_wakes_def by auto
      obtain r where "r \<in> set ((fb_pcs s)[i := p])" "will_wake WANTS_SUSPEND r"
        using will_wake_keep [OF q f_settle(1)] f_settle(2) by auto
      then show "\<exists>p' \<in> set (fb_pcs ((moves i p s)\<lparr>fb_status := st\<rparr>)). will_wake (fb_status ((moves i p s)\<lparr>fb_status := st\<rparr>)) p'"
        using t will_wake_later by auto
    qed
  next
    case False
    have "knows TSettle (fb_status s)" by (rule knows_at [OF f_settle(4,1,2)])
    then show ?thesis using f_settle False by - (rule fb_wakesI [OF f_settle(5,1)], auto simp: Settle_next_def)
  qed
next
  case (r_call i s)
  then show ?case by (auto simp: fb_wakes_def intro: set_update_memI intro!: bexI [of _ "RLoad True"])
next
  case (r_load i s fr)
  then show ?case by - (rule fb_wakesI [OF r_load(4,1)], auto)
next
  case (r_try i s fr seen st p)
  then show ?case by - (rule fb_wakesI [OF r_try(5,1)], auto simp: Resume_next_def split: if_splits)
next
  case (f_suspend i s)
  then show ?case by (simp add: fb_wakes_def)
next
  case (f_pop i s)
  then show ?case by - (rule fb_wakesI [OF f_pop(5,1)], auto)
next
  case (f_enter i s)
  then show ?case by - (rule fb_wakesI [OF f_enter(4,1)], auto)
next
  case (f_yield i s)
  then show ?case by - (rule fb_wakesI [OF f_yield(4,1)], auto)
next
  case (f_end i s)
  then show ?case by - (rule fb_wakesI [OF f_end(4,1)], auto)
next
  case (f_switch_back i s)
  then show ?case by - (rule fb_wakesI [OF f_switch_back(4,1)], auto)
next
  case (f_returned i s)
  then show ?case by - (rule fb_wakesI [OF f_returned(4,1)], auto)
next
  case (f_yielded i s)
  then show ?case by - (rule fb_wakesI [OF f_yielded(4,1)], auto)
next
  case (f_early i s)
  then show ?case by - (rule fb_wakesI [OF f_early(4,1)], auto)
next
  case (f_push i s)
  then show ?case by - (rule fb_wakesI [OF f_push(4,1)], auto)
next
  case (s_out i s)
  then show ?case by - (rule fb_wakesI [OF s_out(4,1)], auto)
next
  case (s_left i s)
  then show ?case by - (rule fb_wakesI [OF s_left(4,1)], auto)
next
  case (s_in i s)
  then show ?case by - (rule fb_wakesI [OF s_in(5,1)], auto)
qed

lemma fb_step_misused: "fb_step s t \<Longrightarrow> fb_misused s \<Longrightarrow> fb_misused t"
  by (induction rule: fb_step.induct) simp_all

definition fb_inv :: "fb_run \<Rightarrow> bool" where [inv_defs]: "fb_inv s \<longleftrightarrow> fb_misused s \<or> fb_owned s \<and> fb_wakes s"

interpretation fiber: transition_system fb_step fb_inv
  by unfold_locales (auto simp: fb_inv_def intro: fb_step_owned fb_step_wakes dest: fb_step_misused)

lemma fb_inv_init: "fb_inv (fb_init threads)"
proof -
  have "bool_count holds (replicate threads TIdle) = 0" by (auto simp: bool_count_0)
  then show ?thesis by (auto simp: fb_inv_def fb_owned_def fb_wakes_def rights_def fb_init_def parked_def)
qed

section \<open>Properties\<close>

text \<open>(C5) As long as no \<open>SwitchTo\<close> has taken a ready fiber or a transferred one that was still on its stack, a fiber never runs on two threads and is
  never queued twice or queued while it runs: whatever threads suspend, yield, resume (also at the wrong moment and several at once) or transfer it, at most one
  of them, or one queue entry, has the right to run it.\<close>

theorem fiber_runs_once:
  assumes "reach fb_step (fb_init threads) s" "\<not> fb_misused s"
  shows "bool_count holds (fb_pcs s) + fb_queued s \<le> 1"
proof -
  have "rights s = 1" using fiber.reach_inv [OF assms(1) fb_inv_init] assms(2) by (simp add: fb_inv_def fb_owned_def)
  then show ?thesis by (simp add: rights_def)
qed

text \<open>(C11) No wake is lost: as long as no \<open>SwitchTo\<close> has taken a ready fiber or a transferred one that was still on its stack, if \<open>Resume\<close> was called at any time since the fiber
  announced its current wait, before the fiber had left its stack or after, then once the calls have returned the fiber is not suspended; its task is queued exactly once, or
  else the fiber ran since and has been transferred or has ended.\<close>

theorem resume_is_never_lost:
  assumes "reach fb_step (fb_init threads) s" "\<not> fb_misused s" "fb_called s" "list_all (\<lambda>p. p = TIdle) (fb_pcs s)"
  shows "fb_status s \<noteq> SUSPENDED \<and> (fb_queued s = 1 \<or> fb_status s = TRANSFERRED \<or> fb_gone s)"
proof -
  have i: "fb_owned s" "fb_wakes s" using fiber.reach_inv [OF assms(1) fb_inv_init] assms(2) by (auto simp: fb_inv_def)
  have idle: "\<forall>p \<in> set (fb_pcs s). p = TIdle" using assms(4) by (simp add: list_all_iff)
  then have "\<not> waiting (fb_status s)" using i(2) assms(3) by (auto simp: fb_wakes_def)
  moreover have "bool_count holds (fb_pcs s) = 0" using idle by (auto simp: bool_count_0)
  ultimately show ?thesis using i(1) by (cases "fb_status s") (auto simp: fb_owned_def rights_def bit01_def parked_def split: if_splits)
qed

section \<open>Two threads\<close>

definition two :: "bool \<Rightarrow> FiberStatus \<Rightarrow> nat \<Rightarrow> fb_pc \<Rightarrow> fb_pc \<Rightarrow> bool \<Rightarrow> fb_run" where
  "two d st q p0 p1 called = \<lparr>fb_status = st, fb_queued = q, fb_pcs = [p0, p1], fb_gone = False, fb_called = called, fb_misused = d\<rparr>"

lemma two_init: "fb_init 2 = two False READY 1 TIdle TIdle False"
  by (simp add: fb_init_def two_def numeral_2_eq_2)

lemma two_steps:
  "fb_step (two d READY 1 TIdle p1 c) (two d READY 0 TGot p1 c)"
  "fb_step (two d READY 1 p0 TIdle c) (two d READY 0 p0 TGot c)"
  "fb_step (two d st q TGot p1 c) (two d RUNNING q TBody p1 c)"
  "fb_step (two d st q p0 TGot c) (two d RUNNING q p0 TBody c)"
  "fb_step (two d RUNNING q TBody p1 c) (two d WANTS_SUSPEND q TAnnounced (stale p1) False)"
  "fb_step (two d RUNNING q TBody p1 c) (two d WANTS_YIELD q TBack p1 c)"
  "fb_step (two d WANTS_SUSPEND q p0 TIdle c) (two d WANTS_SUSPEND q p0 (RLoad True) True)"
  "fb_step (two d st q p0 (RLoad True) c) (two d st q p0 (RGot True st) c)"
  "fb_step (two d WANTS_SUSPEND q p0 (RGot True WANTS_SUSPEND) c) (two d SUSPEND_SIGNALED q p0 TIdle c)"
  "fb_step (two d st q TAnnounced p1 c) (two d st q TBack p1 c)"
  "fb_step (two d SUSPEND_SIGNALED q TBack p1 c) (two d SUSPEND_SIGNALED q TSettle p1 c)"
  "fb_step (two d WANTS_YIELD q TBack p1 c) (two d WANTS_YIELD q TYield p1 c)"
  "fb_step (two d SUSPEND_SIGNALED q TSettle p1 c) (two d SUSPEND_SIGNALED q TEarly p1 c)"
  "fb_step (two d st q TEarly p1 c) (two d READY q TPush p1 c)"
  "fb_step (two d st q TYield p1 c) (two d READY q TPush p1 c)"
  "fb_step (two d st 0 TPush p1 c) (two d st 1 TIdle p1 c)"
  "fb_step (two d READY q TIdle p1 c) (two True RUNNING q TBody p1 c)"
  "fb_step (two d RUNNING q TBody p1 c) (two d TRANSFERRED q TLeaving p1 c)"
  "fb_step (two d TRANSFERRED q TLeaving TIdle c) (two True RUNNING q TLeaving TBody c)"
  using fb_step.f_pop [of 0 "two d READY 1 TIdle p1 c"] fb_step.f_pop [of 1 "two d READY 1 p0 TIdle c"]
    fb_step.f_enter [of 0 "two d st q TGot p1 c"] fb_step.f_enter [of 1 "two d st q p0 TGot c"]
    fb_step.f_suspend [of 0 "two d RUNNING q TBody p1 c"] fb_step.f_yield [of 0 "two d RUNNING q TBody p1 c"]
    fb_step.r_call [of 1 "two d WANTS_SUSPEND q p0 TIdle c"] fb_step.r_load [of 1 "two d st q p0 (RLoad True) c" True]
    fb_step.r_try [of 1 "two d WANTS_SUSPEND q p0 (RGot True WANTS_SUSPEND) c" True WANTS_SUSPEND]
    fb_step.f_switch_back [of 0 "two d st q TAnnounced p1 c"] fb_step.f_returned [of 0 "two d SUSPEND_SIGNALED q TBack p1 c"]
    fb_step.f_returned [of 0 "two d WANTS_YIELD q TBack p1 c"] fb_step.f_settle [of 0 "two d SUSPEND_SIGNALED q TSettle p1 c"]
    fb_step.f_early [of 0 "two d st q TEarly p1 c"] fb_step.f_yielded [of 0 "two d st q TYield p1 c"]
    fb_step.f_push [of 0 "two d st 0 TPush p1 c"] fb_step.s_in [of 0 "two d READY q TIdle p1 c"]
    fb_step.s_out [of 0 "two d RUNNING q TBody p1 c"] fb_step.s_in [of 1 "two d TRANSFERRED q TLeaving TIdle c"]
  by (simp_all add: two_def moves_def Resume_next_def Returned_next_def Settle_next_def)

text \<open>The wake comes while the fiber is still on its stack.\<close>

lemma early_wake_run: "reach fb_step (fb_init 2) (two False READY 1 TIdle TIdle True)"
proof -
  note st = two_steps(1-16) [where d = False]
  note g = reach.reach_step
  have "reach fb_step (fb_init 2) (two False READY 0 TGot TIdle False)" unfolding two_init by (rule reach.reach_step [OF reach.reach_init]) (rule st(1))
  then have "reach fb_step (fb_init 2) (two False RUNNING 0 TBody TIdle False)" by (rule g) (rule st(3))
  then have "reach fb_step (fb_init 2) (two False WANTS_SUSPEND 0 TAnnounced (stale TIdle) False)" by (rule g) (rule st(5))
  then have "reach fb_step (fb_init 2) (two False WANTS_SUSPEND 0 TAnnounced TIdle False)" by simp
  then have "reach fb_step (fb_init 2) (two False WANTS_SUSPEND 0 TAnnounced (RLoad True) True)" by (rule g) (rule st(7))
  then have "reach fb_step (fb_init 2) (two False WANTS_SUSPEND 0 TAnnounced (RGot True WANTS_SUSPEND) True)" by (rule g) (rule st(8))
  then have "reach fb_step (fb_init 2) (two False SUSPEND_SIGNALED 0 TAnnounced TIdle True)" by (rule g) (rule st(9))
  then have "reach fb_step (fb_init 2) (two False SUSPEND_SIGNALED 0 TBack TIdle True)" by (rule g) (rule st(10))
  then have "reach fb_step (fb_init 2) (two False SUSPEND_SIGNALED 0 TSettle TIdle True)" by (rule g) (rule st(11))
  then have "reach fb_step (fb_init 2) (two False SUSPEND_SIGNALED 0 TEarly TIdle True)" by (rule g) (rule st(13))
  then have "reach fb_step (fb_init 2) (two False READY 0 TPush TIdle True)" by (rule g) (rule st(14))
  then show ?thesis by (rule g) (rule st(16))
qed

theorem fiber_runs_once_witness:
  "bool_count holds (fb_pcs (two False READY 1 TIdle TIdle True)) + fb_queued (two False READY 1 TIdle TIdle True) \<le> 1"
  using fiber_runs_once [OF early_wake_run] by (simp add: two_def)

theorem resume_is_never_lost_witness: "fb_queued (two False READY 1 TIdle TIdle True) = 1 \<and> fb_called (two False READY 1 TIdle TIdle True)"
  using resume_is_never_lost [OF early_wake_run] by (simp add: two_def)

text \<open>
  Once \<open>SwitchTo\<close> takes a ready fiber the first property fails: a fiber that has yielded is ready because its task is queued, so
  another fiber can switch to it while a worker pops the task, and both run on its stack. It also fails for a fiber that hands its own
  thread over, because the hand-over is published before the context is saved: an unrelated fiber that switches to it in between
  runs on a stack that is still in use.
\<close>

theorem switch_to_ready_runs_twice:
  "\<exists>s. reach fb_step (fb_init 2) s \<and> fb_pcs s = [TBody, TBody]"
proof -
  note st = two_steps(1-16) [where d = False]
  note g = reach.reach_step
  have "reach fb_step (fb_init 2) (two False READY 0 TGot TIdle False)" unfolding two_init by (rule reach.reach_step [OF reach.reach_init]) (rule st(1))
  then have "reach fb_step (fb_init 2) (two False RUNNING 0 TBody TIdle False)" by (rule g) (rule st(3))
  then have "reach fb_step (fb_init 2) (two False WANTS_YIELD 0 TBack TIdle False)" by (rule g) (rule st(6))
  then have "reach fb_step (fb_init 2) (two False WANTS_YIELD 0 TYield TIdle False)" by (rule g) (rule st(12))
  then have "reach fb_step (fb_init 2) (two False READY 0 TPush TIdle False)" by (rule g) (rule st(15))
  then have "reach fb_step (fb_init 2) (two False READY 1 TIdle TIdle False)" by (rule g) (rule st(16))
  then have "reach fb_step (fb_init 2) (two True RUNNING 1 TBody TIdle False)" by (rule g) (rule two_steps(17))
  moreover have "fb_step (two True RUNNING 1 TBody TIdle False) (two True RUNNING 0 TBody TGot False)"
    using fb_step.f_pop [of 1 "two True RUNNING 1 TBody TIdle False"] by (simp add: two_def moves_def)
  ultimately have "reach fb_step (fb_init 2) (two True RUNNING 0 TBody TGot False)" by (rule g)
  then have "reach fb_step (fb_init 2) (two True RUNNING 0 TBody TBody False)" by (rule g) (rule two_steps(4))
  then show ?thesis by (intro exI [of _ "two True RUNNING 0 TBody TBody False"]) (simp add: two_def)
qed

theorem switch_before_save_runs_twice:
  "\<exists>s. reach fb_step (fb_init 2) s \<and> fb_pcs s = [TLeaving, TBody]"
proof -
  note g = reach.reach_step
  have "reach fb_step (fb_init 2) (two False READY 0 TGot TIdle False)"
    unfolding two_init by (rule reach.reach_step [OF reach.reach_init]) (rule two_steps(1))
  then have "reach fb_step (fb_init 2) (two False RUNNING 0 TBody TIdle False)" by (rule g) (rule two_steps(3))
  then have "reach fb_step (fb_init 2) (two False TRANSFERRED 0 TLeaving TIdle False)" by (rule g) (rule two_steps(18))
  then have "reach fb_step (fb_init 2) (two True RUNNING 0 TLeaving TBody False)" by (rule g) (rule two_steps(19))
  then show ?thesis by (intro exI [of _ "two True RUNNING 0 TLeaving TBody False"]) (simp add: two_def)
qed

end
