(* ===== verification/FiberPools.thy ===== *)
theory FiberPools
  imports TaskTypes
begin

text \<open>
  Fibers and their stacks (\<^verbatim>\<open>include/FiberStackArena.h\<close>, \<^verbatim>\<open>src/GlobalFiberPool.cpp\<close>, \<^verbatim>\<open>include/ThreadLocalCache.h\<close>, \<open>AcquireFiber\<close> and
  \<open>ReleaseFiber\<close> of \<^verbatim>\<open>src/Thread.cpp\<close>): an arena cut into stacks, the pool that grows by blocks up to a memory limit, and each thread's
  cache of free fibers. A fiber is its pool index. What the operating system grants (a reservation, memory for the fibers, the commit of each stack)
  is an argument, and so is the choice of the third-party free queue: \<open>pick xs n\<close> are the elements a bulk removal of at most \<open>n\<close> takes from \<open>xs\<close>.
  A call is one step, also \<open>StealInto\<close>, between whose two removals other threads may use the queue in the code.
\<close>

section \<open>The arena\<close>

record stack_arena =
  sa_page :: nat
  sa_total :: nat
  sa_offset :: nat

text \<open>\<open>(rawSize + pageSize - 1) & ~(pageSize - 1)\<close>, on 64 bits.\<close>

definition round_page :: "u64 \<Rightarrow> u64 \<Rightarrow> u64" where
  "round_page page raw = (raw + page - 1) AND NOT (page - 1)"

definition AllocateStack :: "nat \<Rightarrow> bool \<Rightarrow> stack_arena \<Rightarrow> nat option \<times> stack_arena" where
  "AllocateStack rawSize commit a =
    (let size = unat (round_page (of_nat (sa_page a)) (of_nat rawSize)); current = sa_offset a; a1 = a\<lparr>sa_offset := (current + size) mod 2 ^ 64\<rparr> in
     if size \<le> sa_page a then (None, a)
     else if sa_total a < current \<or> sa_total a - current < size then (None, a1)
     else if \<not> commit then (None, a1)
     else (Some current, a1))"

text \<open>The loop of \<open>AddBlock\<close>: stacks until the count is reached or one is refused.\<close>

fun make_stacks :: "nat \<Rightarrow> nat \<Rightarrow> bool list \<Rightarrow> stack_arena \<Rightarrow> nat list" where
  "make_stacks 0 region commits a = []"
| "make_stacks (Suc k) region commits a =
    (case AllocateStack region (commits \<noteq> [] \<and> hd commits) a of (None, _) \<Rightarrow> [] | (Some off, a1) \<Rightarrow> off # make_stacks k region (tl commits) a1)"

section \<open>The pool\<close>

definition kStandardUsable :: nat where "kStandardUsable = 60 * 1024"
definition kDeepUsable :: nat where "kDeepUsable = 508 * 1024"
definition kMaxBlockBytes :: nat where "kMaxBlockBytes = 64 * 1024 * 1024"

definition kMinBlock :: "StackClass \<Rightarrow> nat" where
  "kMinBlock c = (case c of Standard \<Rightarrow> 64 | Deep \<Rightarrow> 8)"

definition UsableFor :: "StackClass \<Rightarrow> nat" where
  "UsableFor c = (if c = Deep then kDeepUsable else kStandardUsable)"

definition RegionFor :: "nat \<Rightarrow> StackClass \<Rightarrow> nat" where
  "RegionFor page c = UsableFor c + page"

record fiber_pool =
  fp_page :: nat
  fp_limit :: nat
  fp_blockSize :: "StackClass \<Rightarrow> nat"
  fp_avail :: "StackClass \<Rightarrow> nat list"
  fp_class :: "nat \<Rightarrow> StackClass"
  fp_stack :: "nat \<Rightarrow> nat"
  fp_blocks :: "StackClass \<Rightarrow> nat list"
  fp_next :: nat
  fp_count :: "StackClass \<Rightarrow> nat"
  fp_size :: nat
  fp_committed :: nat

text \<open>What the system grants a block: its memory, and the commits of its stacks.\<close>

type_synonym grant = "bool \<times> bool list"

definition block_stacks :: "nat \<Rightarrow> StackClass \<Rightarrow> nat \<Rightarrow> bool list \<Rightarrow> nat list" where
  "block_stacks page c cnt commits = (let region = RegionFor page c in make_stacks cnt region commits \<lparr>sa_page = page, sa_total = cnt * region mod 2 ^ 64, sa_offset = 0\<rparr>)"

definition AddFiberBlock :: "StackClass \<Rightarrow> nat \<Rightarrow> grant \<Rightarrow> fiber_pool \<Rightarrow> bool \<times> fiber_pool" where
  "AddFiberBlock c cnt g p =
    (let region = RegionFor (fp_page p) c;
         stacks = block_stacks (fp_page p) c cnt (snd g);
         made = length stacks; ids = [fp_next p..<fp_next p + made]
     in if \<not> fst g \<or> made = 0 then (False, p)
        else (True, p\<lparr>fp_avail := (fp_avail p)(c := fp_avail p c @ ids),
                fp_class := (\<lambda>f. if f \<in> set ids then c else fp_class p f),
                fp_stack := (\<lambda>f. if f \<in> set ids then stacks ! (f - fp_next p) else fp_stack p f),
                fp_blocks := (fp_blocks p)(c := fp_blocks p c @ [made]),
                fp_next := fp_next p + made,
                fp_count := (fp_count p)(c := fp_count p c + made),
                fp_size := fp_size p + made,
                fp_committed := fp_committed p + made * region\<rparr>))"

definition block_size :: "nat \<Rightarrow> StackClass \<Rightarrow> nat \<Rightarrow> nat" where
  "block_size page c cnt = min (max cnt (kMinBlock c)) (max (kMinBlock c) (kMaxBlockBytes div RegionFor page c))"

definition empty_pool :: "nat \<Rightarrow> nat \<Rightarrow> nat \<Rightarrow> nat \<Rightarrow> fiber_pool" where
  "empty_pool page standardCount deepCount limit = \<lparr>fp_page = page, fp_limit = limit,
     fp_blockSize = (\<lambda>c. block_size page c (case c of Standard \<Rightarrow> standardCount | Deep \<Rightarrow> deepCount)), fp_avail = (\<lambda>c. []), fp_class = (\<lambda>f. Standard),
     fp_stack = (\<lambda>f. 0), fp_blocks = (\<lambda>c. []), fp_next = 0, fp_count = (\<lambda>c. 0), fp_size = 0, fp_committed = 0\<rparr>"

text \<open>The constructor; \<open>None\<close> for the exception it throws.\<close>

definition GlobalFiberPool :: "nat \<Rightarrow> nat \<Rightarrow> nat \<Rightarrow> nat \<Rightarrow> grant \<Rightarrow> grant \<Rightarrow> fiber_pool option" where
  "GlobalFiberPool page standardCount deepCount limit g1 g2 =
    (let p0 = empty_pool page standardCount deepCount limit;
         (ok1, p1) = (if standardCount \<noteq> 0 then AddFiberBlock Standard standardCount g1 p0 else (True, p0));
         (ok2, p2) = (if deepCount \<noteq> 0 then AddFiberBlock Deep deepCount g2 p1 else (True, p1))
     in if ok1 \<and> ok2 then Some p2 else None)"

definition grow_count :: "StackClass \<Rightarrow> fiber_pool \<Rightarrow> nat" where
  "grow_count c p = (let n = fp_blockSize p c in
     if fp_limit p = 0 then n
     else min n (if fp_committed p < fp_limit p then (fp_limit p - fp_committed p) div RegionFor (fp_page p) c else 0))"

definition Grow :: "StackClass \<Rightarrow> grant \<Rightarrow> fiber_pool \<Rightarrow> bool \<times> fiber_pool" where
  "Grow c g p = (if fp_avail p c \<noteq> [] then (True, p) else if grow_count c p = 0 then (False, p) else AddFiberBlock c (grow_count c p) g p)"

definition dequeue_bulk :: "(nat list \<Rightarrow> nat \<Rightarrow> nat list) \<Rightarrow> StackClass \<Rightarrow> nat \<Rightarrow> fiber_pool \<Rightarrow> nat list \<times> fiber_pool" where
  "dequeue_bulk pick c maxCount p = (let got = pick (fp_avail p c) maxCount in (got, p\<lparr>fp_avail := (fp_avail p)(c := fold remove1 got (fp_avail p c))\<rparr>))"

text \<open>\<open>StealInto\<close> is one call here; in the code other threads may use the queue between its two removals. A removal that finds less than there is, as after such an
  interruption, is covered by \<open>pick\<close>.\<close>

definition StealInto :: "(nat list \<Rightarrow> nat \<Rightarrow> nat list) \<Rightarrow> StackClass \<Rightarrow> nat \<Rightarrow> grant \<Rightarrow> fiber_pool \<Rightarrow> nat list \<times> fiber_pool" where
  "StealInto pick c maxCount g p =
    (if maxCount = 0 then ([], p)
     else let (got, p1) = dequeue_bulk pick c maxCount p
          in if got \<noteq> [] then (got, p1) else dequeue_bulk pick c maxCount (snd (Grow c g p1)))"

text \<open>\<open>ReturnBatch\<close>: the fibers of each class are gathered and go back 64 at a time.\<close>

definition enqueue_bulk :: "StackClass \<Rightarrow> nat list \<Rightarrow> fiber_pool \<Rightarrow> fiber_pool" where
  "enqueue_bulk c fs p = p\<lparr>fp_avail := (fp_avail p)(c := fp_avail p c @ fs)\<rparr>"

fun return_loop :: "nat list \<Rightarrow> (StackClass \<Rightarrow> nat list) \<Rightarrow> fiber_pool \<Rightarrow> (StackClass \<Rightarrow> nat list) \<times> fiber_pool" where
  "return_loop [] grouped p = (grouped, p)"
| "return_loop (f # fs) grouped p =
    (let c = fp_class p f; g = grouped c @ [f] in
     if length g = 64 then return_loop fs (grouped(c := [])) (enqueue_bulk c g p) else return_loop fs (grouped(c := g)) p)"

definition ReturnBatch :: "nat list \<Rightarrow> fiber_pool \<Rightarrow> fiber_pool" where
  "ReturnBatch fs p = (let (grouped, p1) = return_loop fs (\<lambda>c. []) p in enqueue_bulk Deep (grouped Deep) (enqueue_bulk Standard (grouped Standard) p1))"

section \<open>A thread's caches\<close>

record fiber_cache =
  fc_fibers :: "nat list"
  fc_capacity :: nat
  fc_class :: StackClass

definition MaxCapacity :: nat where "MaxCapacity = 256"

definition cache_init :: "nat \<Rightarrow> StackClass \<Rightarrow> fiber_cache" where
  "cache_init runtimeCapacity c =
    (let a = (if runtimeCapacity \<le> MaxCapacity then runtimeCapacity else MaxCapacity) in \<lparr>fc_fibers = [], fc_capacity = (if a < 2 then 2 else a), fc_class = c\<rparr>)"

definition cache_Push :: "nat \<Rightarrow> fiber_cache \<Rightarrow> fiber_pool \<Rightarrow> fiber_cache \<times> fiber_pool" where
  "cache_Push f k p =
    (let n = length (fc_fibers k); half = fc_capacity k div 2;
         (xs, p1) = (if fc_capacity k \<le> n then (take (n - half) (fc_fibers k), ReturnBatch (drop (n - half) (fc_fibers k)) p) else (fc_fibers k, p))
     in (k\<lparr>fc_fibers := xs @ [f]\<rparr>, p1))"

definition cache_Pop :: "(nat list \<Rightarrow> nat \<Rightarrow> nat list) \<Rightarrow> grant \<Rightarrow> fiber_cache \<Rightarrow> fiber_pool \<Rightarrow> nat option \<times> fiber_cache \<times> fiber_pool" where
  "cache_Pop pick g k p =
    (let (xs, p1) = (if fc_fibers k = [] then StealInto pick (fc_class k) (fc_capacity k) g p else (fc_fibers k, p))
     in if xs = [] then (None, k\<lparr>fc_fibers := []\<rparr>, p1) else (Some (last xs), k\<lparr>fc_fibers := butlast xs\<rparr>, p1))"

text \<open>The threads: two caches each, the fibers they run on, and main's helper, which has no caches.\<close>

record fiber_sys =
  fs_pool :: fiber_pool
  fs_caches :: "(StackClass \<Rightarrow> fiber_cache) list"
  fs_out :: "nat list"

definition AcquireFiber :: "(nat list \<Rightarrow> nat \<Rightarrow> nat list) \<Rightarrow> grant \<Rightarrow> nat \<Rightarrow> StackClass \<Rightarrow> fiber_sys \<Rightarrow> nat option \<times> fiber_sys" where
  "AcquireFiber pick g th c s =
    (let (r, k, p) = cache_Pop pick g ((fs_caches s ! th) c) (fs_pool s);
         s1 = s\<lparr>fs_pool := p, fs_caches := (fs_caches s)[th := (fs_caches s ! th)(c := k)]\<rparr>
     in case r of None \<Rightarrow> (None, s1) | Some f \<Rightarrow> (Some f, s1\<lparr>fs_out := fs_out s1 @ [f]\<rparr>))"

definition ReleaseFiber :: "nat option \<Rightarrow> nat \<Rightarrow> fiber_sys \<Rightarrow> fiber_sys" where
  "ReleaseFiber th f s = (let s0 = s\<lparr>fs_out := remove1 f (fs_out s)\<rparr> in case th of
     None \<Rightarrow> s0\<lparr>fs_pool := ReturnBatch [f] (fs_pool s)\<rparr>
   | Some t \<Rightarrow> let c = fp_class (fs_pool s) f; (k, p) = cache_Push f ((fs_caches s ! t) c) (fs_pool s)
               in s0\<lparr>fs_pool := p, fs_caches := (fs_caches s)[t := (fs_caches s ! t)(c := k)]\<rparr>)"

section \<open>Rounding, and the stacks of a block\<close>

lemma round_page_nat:
  assumes "k < 64" "raw + 2 ^ k \<le> 2 ^ 64"
  shows "unat (round_page (of_nat (2 ^ k)) (of_nat raw)) = (raw + 2 ^ k - 1) div 2 ^ k * 2 ^ k"
proof -
  let ?w = "of_nat (raw + (2 ^ k - 1)) :: u64"
  have "(of_nat (2 ^ k - 1) :: u64) = of_nat (2 ^ k) - of_nat 1" by (rule of_nat_diff) simp
  then have w: "of_nat raw + of_nat (2 ^ k) - 1 = ?w" by (simp only: of_nat_add of_nat_1 add_diff_eq)
  have m: "(of_nat (2 ^ k) :: u64) - 1 = mask k" by (simp add: mask_eq_exp_minus_1)
  have "round_page (of_nat (2 ^ k)) (of_nat raw) = ?w AND NOT (mask k)" unfolding round_page_def w m ..
  also have "\<dots> = push_bit k (drop_bit k ?w)" by (rule bit_word_eqI) (auto simp: bit_simps)
  finally have r: "round_page (of_nat (2 ^ k)) (of_nat raw) = push_bit k (drop_bit k ?w)" .
  have lt: "raw + (2 ^ k - 1) < 2 ^ 64" using assms by (metis Nat.add_diff_assoc diff_less less_le_trans one_le_numeral one_le_power zero_less_one add_pos_pos zero_less_numeral zero_less_power add_gr_0)
  then have u: "unat ?w = raw + 2 ^ k - 1" by (simp add: unsigned_of_nat take_bit_nat_eq_self)
  have d: "unat (drop_bit k ?w) = (raw + 2 ^ k - 1) div 2 ^ k" unfolding unat_drop_bit_eq u by (rule drop_bit_eq_div)
  have "(raw + 2 ^ k - 1) div 2 ^ k * 2 ^ k < 2 ^ 64" using lt by (metis Nat.add_diff_assoc div_times_less_eq_dividend le_less_trans one_le_numeral one_le_power)
  then have "unat (push_bit k (drop_bit k ?w)) = (raw + 2 ^ k - 1) div 2 ^ k * 2 ^ k"
    by (subst unsigned_push_bit_eq, subst d) (simp add: push_bit_eq_mult take_bit_nat_eq_self)
  then show ?thesis by (simp only: r)
qed

text \<open>A whole number of pages is not rounded.\<close>

lemma round_page_multiple: "k < 64 \<Longrightarrow> j * 2 ^ k + 2 ^ k \<le> 2 ^ 64 \<Longrightarrow> unat (round_page (of_nat (2 ^ k)) (of_nat (j * 2 ^ k))) = j * 2 ^ k"
proof -
  assume a: "k < 64" "j * 2 ^ k + 2 ^ k \<le> 2 ^ 64"
  have "(j * 2 ^ k + 2 ^ k - 1) div 2 ^ k = j"
  proof (rule div_nat_eqI)
    have "0 < (2::nat) ^ k" by simp
    then have pos: "1 \<le> (2::nat) ^ k" by simp
    show "2 ^ k * j \<le> j * 2 ^ k + 2 ^ k - 1" using pos unfolding mult.commute [of "2 ^ k" j] by linarith
    show "j * 2 ^ k + 2 ^ k - 1 < 2 ^ k * Suc j" using pos unfolding mult_Suc_right mult.commute [of "2 ^ k" j] by linarith
  qed
  then show ?thesis using round_page_nat [OF a] by simp
qed

text \<open>The stacks lie one after the other from the start of the reservation, and none reaches past its end.\<close>

lemma make_stacks_layout:
  assumes "R = unat (round_page (of_nat (sa_page a)) (of_nat region))" "sa_total a + R < 2 ^ 64" "sa_offset a \<le> sa_total a" "make_stacks cnt region commits a = xs"
  shows "xs = map (\<lambda>i. sa_offset a + i * R) [0..<length xs] \<and> length xs \<le> cnt \<and> sa_offset a + length xs * R \<le> sa_total a \<and> (xs \<noteq> [] \<longrightarrow> sa_page a < R)"
  using assms(2-4) assms(1)
proof (induction cnt region commits a arbitrary: xs rule: make_stacks.induct)
  case (1 region commits a)
  then show ?case by simp
next
  case (2 k region commits a)
  let ?c = "commits \<noteq> [] \<and> hd commits"
  show ?case
  proof (cases "fst (AllocateStack region ?c a)")
    case None
    then have "xs = []" using 2(4) by (simp split: prod.splits option.splits)
    then show ?thesis using 2(3) by simp
  next
    case (Some off)
    define a1 where "a1 = a\<lparr>sa_offset := (sa_offset a + R) mod 2 ^ 64\<rparr>"
    have al: "AllocateStack region ?c a = (Some (sa_offset a), a1)" "sa_page a < R" "R \<le> sa_total a - sa_offset a"
      using Some 2(3) unfolding AllocateStack_def Let_def 2(5) [symmetric] a1_def by (auto split: if_splits)
    have off: "sa_offset a1 = sa_offset a + R" using al(3) 2(2,3) by (simp add: a1_def)
    obtain ys where ys: "make_stacks k region (tl commits) a1 = ys" "xs = sa_offset a # ys" using 2(4) al(1) by simp
    have "ys = map (\<lambda>i. sa_offset a1 + i * R) [0..<length ys] \<and> length ys \<le> k \<and> sa_offset a1 + length ys * R \<le> sa_total a1 \<and> (ys \<noteq> [] \<longrightarrow> sa_page a1 < R)"
      using 2(2,3,5) al(3) off ys(1) by (intro 2(1) [OF al(1) [symmetric] refl]) (simp_all add: a1_def)
    then have ih: "ys = map (\<lambda>i. sa_offset a + Suc i * R) [0..<length ys]" "length ys \<le> k" "sa_offset a + R + length ys * R \<le> sa_total a"
      by (simp_all add: off) (simp_all add: a1_def algebra_simps)
    have "map (\<lambda>i. sa_offset a + i * R) [0..<Suc (length ys)] = sa_offset a # map (\<lambda>i. sa_offset a + Suc i * R) [0..<length ys]"
      by (simp only: upt_conv_Cons zero_less_Suc map_Suc_upt [symmetric] list.map map_map o_def) simp
    then have "xs = map (\<lambda>i. sa_offset a + i * R) [0..<length xs]" using ih(1) ys(2) by simp
    then show ?thesis using ih(2,3) ys(2) al(2) by (simp add: algebra_simps)
  qed
qed

section \<open>The free queue and the blocks\<close>

text \<open>What the third-party queue documents of its bulk removal: it takes elements of the queue, at most as many as asked for; it may miss some, and even all, that others are
  adding or removing.\<close>

definition bulk_ok :: "(nat list \<Rightarrow> nat \<Rightarrow> nat list) \<Rightarrow> bool" where
  "bulk_ok pick \<longleftrightarrow> (\<forall>xs n. mset (pick xs n) \<subseteq># mset xs \<and> length (pick xs n) \<le> n)"

definition free_fibers :: "fiber_pool \<Rightarrow> nat multiset" where
  "free_fibers p = mset (fp_avail p Standard) + mset (fp_avail p Deep)"

text \<open>A pool only grows.\<close>

definition grown :: "fiber_pool \<Rightarrow> fiber_pool \<Rightarrow> bool" where
  "grown p p' \<longleftrightarrow> fp_page p' = fp_page p \<and> fp_limit p' = fp_limit p \<and> fp_next p \<le> fp_next p' \<and> (\<forall>f < fp_next p. fp_class p' f = fp_class p f)"

lemma AddFiberBlock_cases:
  assumes "AddFiberBlock c cnt g p = (ok, p')"
  obtains "\<not> ok" "p' = p"
  | made where "ok" "0 < made" "made \<le> cnt" "fp_avail p' = (fp_avail p)(c := fp_avail p c @ [fp_next p..<fp_next p + made])"
      "fp_class p' = (\<lambda>f. if f \<in> {fp_next p..<fp_next p + made} then c else fp_class p f)" "fp_blocks p' = (fp_blocks p)(c := fp_blocks p c @ [made])"
      "fp_next p' = fp_next p + made" "fp_count p' = (fp_count p)(c := fp_count p c + made)" "fp_size p' = fp_size p + made"
      "fp_committed p' = fp_committed p + made * RegionFor (fp_page p) c" "fp_page p' = fp_page p" "fp_limit p' = fp_limit p"
proof -
  define stacks where "stacks = block_stacks (fp_page p) c cnt (snd g)"
  have "length (make_stacks n r cs a) \<le> n" for n r cs a
    by (induction n r cs a rule: make_stacks.induct) (auto split: prod.split option.split)
  then have le: "length stacks \<le> cnt" by (simp add: stacks_def block_stacks_def Let_def)
  show thesis
  proof (cases "\<not> fst g \<or> length stacks = 0")
    case True
    then have "AddFiberBlock c cnt g p = (False, p)" unfolding AddFiberBlock_def Let_def stacks_def [symmetric] by (rule if_P)
    then show thesis using assms that(1) by simp
  next
    case False
    then have "(ok, p') = (True, p\<lparr>fp_avail := (fp_avail p)(c := fp_avail p c @ [fp_next p..<fp_next p + length stacks]),
                fp_class := (\<lambda>f. if f \<in> set [fp_next p..<fp_next p + length stacks] then c else fp_class p f),
                fp_stack := (\<lambda>f. if f \<in> set [fp_next p..<fp_next p + length stacks] then stacks ! (f - fp_next p) else fp_stack p f),
                fp_blocks := (fp_blocks p)(c := fp_blocks p c @ [length stacks]), fp_next := fp_next p + length stacks,
                fp_count := (fp_count p)(c := fp_count p c + length stacks), fp_size := fp_size p + length stacks,
                fp_committed := fp_committed p + length stacks * RegionFor (fp_page p) c\<rparr>)"
      using assms [symmetric] unfolding AddFiberBlock_def Let_def stacks_def [symmetric] by simp
    then show thesis using False le by (intro that(2) [of "length stacks"]) auto
  qed
qed

text \<open>The counters belong together.\<close>

definition counts_ok :: "fiber_pool \<Rightarrow> bool" where
  "counts_ok p \<longleftrightarrow> fp_size p = fp_next p \<and> fp_next p = fp_count p Standard + fp_count p Deep \<and> (\<forall>c. fp_count p c = sum_list (fp_blocks p c)) \<and>
    fp_committed p = fp_count p Standard * RegionFor (fp_page p) Standard + fp_count p Deep * RegionFor (fp_page p) Deep"

definition avail_ok :: "fiber_pool \<Rightarrow> bool" where
  "avail_ok p \<longleftrightarrow> (\<forall>c. \<forall>f \<in> set (fp_avail p c). f < fp_next p \<and> fp_class p f = c)"

definition pool_inv :: "fiber_pool \<Rightarrow> bool" where
  [inv_defs]: "pool_inv p \<longleftrightarrow> avail_ok p \<and> counts_ok p"

lemma AddFiberBlock_inv:
  assumes "pool_inv p" "AddFiberBlock c cnt g p = (ok, p')"
  shows "pool_inv p' \<and> grown p p' \<and> free_fibers p' = free_fibers p + mset [fp_next p..<fp_next p']"
  using assms(2)
proof (cases rule: AddFiberBlock_cases)
  case 1
  then show ?thesis using assms(1) by (simp add: grown_def)
next
  case (2 made)
  have a: "avail_ok p" "counts_ok p" using assms(1) by (auto simp: pool_inv_def)
  have "avail_ok p'" unfolding avail_ok_def
  proof (intro allI ballI)
    fix d f
    assume "f \<in> set (fp_avail p' d)"
    then consider "f \<in> set (fp_avail p d)" | "d = c" "f \<in> {fp_next p..<fp_next p + made}" using 2(4) by (auto split: if_splits)
    then show "f < fp_next p' \<and> fp_class p' f = d"
    proof cases
      case 1
      then have "f < fp_next p" "fp_class p f = d" using a(1) by (auto simp: avail_ok_def)
      then show ?thesis using 2(5,7) by simp
    qed (use 2(5,7) in auto)
  qed
  moreover have "counts_ok p'" using a(2) 2(6-11) by (cases c) (simp_all add: counts_ok_def algebra_simps)
  moreover have "grown p p'" using 2(5,7,11,12) by (simp add: grown_def)
  moreover have "free_fibers p' = free_fibers p + mset [fp_next p..<fp_next p']" using 2(4,7) by (cases c) (simp_all add: free_fibers_def)
  ultimately show ?thesis by (simp add: pool_inv_def)
qed


section \<open>The queue of free fibers\<close>

lemma fold_remove1: "mset ys \<subseteq># mset xs \<Longrightarrow> mset (fold remove1 ys xs) + mset ys = mset xs"
proof (induction ys arbitrary: xs)
  case (Cons y ys)
  have "mset ys \<subseteq># mset (remove1 y xs)" using Cons.prems by (simp add: insert_subset_eq_iff)
  from Cons.IH [OF this] show ?case using Cons.prems by (simp add: insert_subset_eq_iff)
qed simp

text \<open>What changes when fibers move between the free queues and somewhere else.\<close>

definition moved :: "fiber_pool \<Rightarrow> fiber_pool \<Rightarrow> bool" where
  "moved p p' \<longleftrightarrow> pool_inv p' \<and> grown p p'"

lemma grown_refl [simp]: "grown p p"
  by (simp add: grown_def)

lemma grown_trans: "grown p q \<Longrightarrow> grown q r \<Longrightarrow> grown p r"
  by (simp add: grown_def)

lemma avail_update:
  assumes "pool_inv p" "\<forall>f \<in> set xs. f < fp_next p \<and> fp_class p f = c"
  shows "pool_inv (p\<lparr>fp_avail := (fp_avail p)(c := xs)\<rparr>) \<and> grown p (p\<lparr>fp_avail := (fp_avail p)(c := xs)\<rparr>)"
  using assms by (auto simp: pool_inv_def avail_ok_def counts_ok_def grown_def)

lemma free_update: "free_fibers (p\<lparr>fp_avail := (fp_avail p)(c := xs)\<rparr>) + mset (fp_avail p c) = free_fibers p + mset xs"
  by (cases c) (simp_all add: free_fibers_def)

lemma dequeue_bulk_inv:
  assumes "bulk_ok pick" "pool_inv p" "dequeue_bulk pick c m p = (got, p')"
  shows "pool_inv p' \<and> grown p p' \<and> fp_next p' = fp_next p \<and> fp_committed p' = fp_committed p \<and> fp_class p' = fp_class p \<and> free_fibers p = free_fibers p' + mset got \<and>
    length got \<le> m \<and> (\<forall>f \<in> set got. fp_class p f = c)"
proof -
  have got: "got = pick (fp_avail p c) m" "p' = p\<lparr>fp_avail := (fp_avail p)(c := fold remove1 got (fp_avail p c))\<rparr>" using assms(3) by (auto simp: dequeue_bulk_def Let_def)
  have sub: "mset got \<subseteq># mset (fp_avail p c)" "length got \<le> m" using assms(1) by (auto simp: bulk_ok_def got(1))
  note fr = fold_remove1 [OF sub(1)]
  have mem: "f \<in># mset (fp_avail p c)" if "f \<in> set (fold remove1 got (fp_avail p c)) \<or> f \<in> set got" for f
    using that unfolding fr [symmetric] by auto
  have cls: "f < fp_next p \<and> fp_class p f = c" if "f \<in># mset (fp_avail p c)" for f using that assms(2) by (auto simp: pool_inv_def avail_ok_def)
  have "free_fibers p' + mset (fp_avail p c) = free_fibers p + mset (fold remove1 got (fp_avail p c))" unfolding got(2) by (rule free_update)
  then have "free_fibers p = free_fibers p' + mset got" unfolding fr [symmetric] by simp
  moreover have "pool_inv p' \<and> grown p p'" unfolding got(2) using mem cls by (intro avail_update [OF assms(2)]) blast
  ultimately show ?thesis using mem cls sub(2) got(2) by auto
qed

lemma Grow_inv:
  assumes "pool_inv p" "Grow c g p = (ok, p')"
  shows "pool_inv p' \<and> grown p p' \<and> free_fibers p' = free_fibers p + mset [fp_next p..<fp_next p']"
  using assms AddFiberBlock_inv by (auto simp: Grow_def split: if_splits)

text \<open>Growth respects the limit.\<close>

lemma Grow_limit:
  assumes "Grow c g p = (ok, p')" "fp_limit p \<noteq> 0"
  shows "fp_committed p' \<le> max (fp_committed p) (fp_limit p)"
proof (cases "p' = p")
  case False
  then have a: "AddFiberBlock c (grow_count c p) g p = (ok, p')" using assms(1) by (auto simp: Grow_def split: if_splits)
  from this False show ?thesis
  proof (cases rule: AddFiberBlock_cases)
    case (2 made)
    let ?r = "RegionFor (fp_page p) c"
    have "0 < grow_count c p" using 2 by simp
    then have lt: "fp_committed p < fp_limit p" "made \<le> (fp_limit p - fp_committed p) div ?r" using assms(2) 2(3) by (auto simp: grow_count_def Let_def split: if_splits)
    have "made * ?r \<le> (fp_limit p - fp_committed p) div ?r * ?r" using lt(2) by (rule mult_le_mono1)
    also have "\<dots> \<le> fp_limit p - fp_committed p" by simp
    finally show ?thesis using 2(10) lt(1) by simp
  qed simp
qed simp

lemma StealInto_inv:
  assumes "bulk_ok pick" "pool_inv p" "StealInto pick c m g p = (got, p')"
  shows "pool_inv p' \<and> grown p p' \<and> free_fibers p' + mset got = free_fibers p + mset [fp_next p..<fp_next p'] \<and> length got \<le> m \<and> (\<forall>f \<in> set got. fp_class p' f = c) \<and>
    (fp_limit p \<noteq> 0 \<longrightarrow> fp_committed p' \<le> max (fp_committed p) (fp_limit p))"
proof (cases "m = 0")
  case True
  then show ?thesis using assms by (simp add: StealInto_def)
next
  case False
  obtain g1 p1 where d: "dequeue_bulk pick c m p = (g1, p1)" by fastforce
  note d1 = dequeue_bulk_inv [OF assms(1,2) d]
  show ?thesis
  proof (cases "g1 = []")
    case hit: False
    then show ?thesis using assms(3) False d d1 by (simp add: StealInto_def)
  next
    case True
    obtain ok p2 where gr: "Grow c g p1 = (ok, p2)" by fastforce
    note g2 = Grow_inv [OF conjunct1 [OF d1] gr]
    obtain g3 p3 where d3: "dequeue_bulk pick c m p2 = (g3, p3)" by fastforce
    note e3 = dequeue_bulk_inv [OF assms(1) conjunct1 [OF g2] d3]
    have eq: "got = g3" "p' = p3" using assms(3) False True d gr d3 by (simp_all add: StealInto_def)
    have "fp_limit p1 = fp_limit p" "fp_committed p1 = fp_committed p" "fp_next p1 = fp_next p" "free_fibers p1 = free_fibers p" using d1 True by (auto simp: grown_def)
    then show ?thesis using d1 g2 e3 Grow_limit [OF gr] unfolding eq by (auto intro: grown_trans)
  qed
qed

text \<open>Returning a batch is appending it, class by class: the groups of 64 make no difference.\<close>

lemma return_loop_avail:
  assumes "return_loop fs grouped p = (grouped', p')"
  shows "p' = p\<lparr>fp_avail := fp_avail p'\<rparr> \<and> (\<forall>c. fp_avail p' c @ grouped' c = fp_avail p c @ grouped c @ filter (\<lambda>f. fp_class p f = c) fs)"
  using assms
proof (induction fs grouped p arbitrary: grouped' p' rule: return_loop.induct)
  case (1 grouped p)
  then show ?case by simp
next
  case (2 f fs grouped p)
  let ?c = "fp_class p f"
  show ?case
  proof (cases "length (grouped ?c @ [f]) = 64")
    case True
    then have "return_loop fs (grouped(?c := [])) (enqueue_bulk ?c (grouped ?c @ [f]) p) = (grouped', p')" using 2(3) by (simp add: Let_def)
    from 2(1) [OF refl refl True this] show ?thesis by (auto simp: enqueue_bulk_def)
  next
    case False
    then have "return_loop fs (grouped(?c := grouped ?c @ [f])) p = (grouped', p')" using 2(3) by (simp add: Let_def)
    from 2(2) [OF refl refl False this] show ?thesis by auto
  qed
qed

lemma ReturnBatch_eq: "ReturnBatch fs p = p\<lparr>fp_avail := (\<lambda>c. fp_avail p c @ filter (\<lambda>f. fp_class p f = c) fs)\<rparr>"
proof -
  obtain grouped p1 where l: "return_loop fs (\<lambda>c. []) p = (grouped, p1)" by fastforce
  note a = return_loop_avail [OF l]
  have "(fp_avail p1)(Standard := fp_avail p1 Standard @ grouped Standard, Deep := fp_avail p1 Deep @ grouped Deep) = (\<lambda>c. fp_avail p c @ filter (\<lambda>f. fp_class p f = c) fs)"
  proof (rule ext)
    fix c
    show "((fp_avail p1)(Standard := fp_avail p1 Standard @ grouped Standard, Deep := fp_avail p1 Deep @ grouped Deep)) c = fp_avail p c @ filter (\<lambda>f. fp_class p f = c) fs"
      using a by (cases c) auto
  qed
  moreover have "p1\<lparr>fp_avail := Y\<rparr> = p\<lparr>fp_avail := Y\<rparr>" for Y using arg_cong [OF conjunct1 [OF a], of "\<lambda>r. r\<lparr>fp_avail := Y\<rparr>"] by simp
  moreover have "ReturnBatch fs p = p1\<lparr>fp_avail := (fp_avail p1)(Standard := fp_avail p1 Standard @ grouped Standard, Deep := fp_avail p1 Deep @ grouped Deep)\<rparr>"
    by (simp add: ReturnBatch_def l enqueue_bulk_def)
  ultimately show ?thesis by simp
qed

lemma ReturnBatch_inv:
  assumes "pool_inv p" "\<forall>f \<in> set fs. f < fp_next p"
  shows "pool_inv (ReturnBatch fs p) \<and> grown p (ReturnBatch fs p) \<and> fp_next (ReturnBatch fs p) = fp_next p \<and> fp_committed (ReturnBatch fs p) = fp_committed p \<and>
    fp_class (ReturnBatch fs p) = fp_class p \<and> free_fibers (ReturnBatch fs p) = free_fibers p + mset fs"
proof -
  have "filter (\<lambda>f. fp_class p f = Deep) fs = filter (\<lambda>f. \<not> fp_class p f = Standard) fs" by (rule filter_cong) (auto intro: StackClass.exhaust)
  then have "mset (filter (\<lambda>f. fp_class p f = Standard) fs) + mset (filter (\<lambda>f. fp_class p f = Deep) fs) = mset fs" by (simp add: mset_filter multiset_partition [symmetric])
  then have "free_fibers (ReturnBatch fs p) = free_fibers p + mset fs" by (simp add: ReturnBatch_eq free_fibers_def ac_simps)
  then show ?thesis using assms by (auto simp: ReturnBatch_eq pool_inv_def avail_ok_def counts_ok_def grown_def)
qed


section \<open>Caches\<close>

definition cache_ok :: "fiber_pool \<Rightarrow> StackClass \<Rightarrow> fiber_cache \<Rightarrow> bool" where
  "cache_ok p c k \<longleftrightarrow> fc_class k = c \<and> 2 \<le> fc_capacity k \<and> fc_capacity k \<le> MaxCapacity \<and> length (fc_fibers k) \<le> fc_capacity k \<and>
    (\<forall>f \<in> set (fc_fibers k). f < fp_next p \<and> fp_class p f = c)"

lemma cache_init_ok: "cache_ok p c (cache_init n c)"
  by (simp add: cache_ok_def cache_init_def MaxCapacity_def Let_def)

lemma cache_ok_grown: "cache_ok p c k \<Longrightarrow> grown p p' \<Longrightarrow> cache_ok p' c k"
  by (auto simp: cache_ok_def grown_def intro: less_le_trans)

lemma mset_last: "xs \<noteq> [] \<Longrightarrow> add_mset (last xs) (mset (butlast xs)) = mset xs"
  by (metis append_butlast_last_id mset.simps(2) mset_append mset_single_iff union_mset_add_mset_right add.right_neutral mset.simps(1))

lemma new_below: "free_fibers p' + mset got = free_fibers p + mset [fp_next p..<fp_next p'] \<Longrightarrow> pool_inv p \<Longrightarrow> grown p p' \<Longrightarrow> f \<in> set got \<Longrightarrow> f < fp_next p'"
proof -
  assume a: "free_fibers p' + mset got = free_fibers p + mset [fp_next p..<fp_next p']" "pool_inv p" "grown p p'" "f \<in> set got"
  have "f \<in># free_fibers p + mset [fp_next p..<fp_next p']" unfolding a(1) [symmetric] using a(4) by simp
  then have "f < fp_next p \<or> f < fp_next p'" using a(2) by (auto simp: free_fibers_def pool_inv_def avail_ok_def)
  then show ?thesis using a(3) by (auto simp: grown_def)
qed

lemma cache_Pop_inv:
  assumes "bulk_ok pick" "pool_inv p" "cache_ok p c k" "cache_Pop pick g k p = (r, k', p')"
  shows "pool_inv p' \<and> grown p p' \<and> cache_ok p' c k' \<and>
    free_fibers p' + mset (fc_fibers k') + mset (case r of None \<Rightarrow> [] | Some f \<Rightarrow> [f]) = free_fibers p + mset (fc_fibers k) + mset [fp_next p..<fp_next p'] \<and>
    (\<forall>f. r = Some f \<longrightarrow> fp_class p' f = c) \<and> (fp_limit p \<noteq> 0 \<longrightarrow> fp_committed p' \<le> max (fp_committed p) (fp_limit p))"
proof -
  obtain xs p1 where x: "(if fc_fibers k = [] then StealInto pick (fc_class k) (fc_capacity k) g p else (fc_fibers k, p)) = (xs, p1)" by fastforce
  have k: "fc_class k = c" using assms(3) by (simp add: cache_ok_def)
  have st: "pool_inv p1 \<and> grown p p1 \<and> free_fibers p1 + mset xs = free_fibers p + mset (fc_fibers k) + mset [fp_next p..<fp_next p1] \<and> length xs \<le> fc_capacity k \<and>
    (\<forall>f \<in> set xs. f < fp_next p1 \<and> fp_class p1 f = c) \<and> (fp_limit p \<noteq> 0 \<longrightarrow> fp_committed p1 \<le> max (fp_committed p) (fp_limit p))"
  proof (cases "fc_fibers k = []")
    case True
    then have s: "StealInto pick c (fc_capacity k) g p = (xs, p1)" using x k by simp
    show ?thesis using StealInto_inv [OF assms(1,2) s] new_below [of p1 xs p] assms(2) True by auto
  next
    case False
    then show ?thesis using x assms(2,3) by (auto simp: cache_ok_def)
  qed
  have eq: "cache_Pop pick g k p = (if xs = [] then (None, k\<lparr>fc_fibers := []\<rparr>, p1) else (Some (last xs), k\<lparr>fc_fibers := butlast xs\<rparr>, p1))"
    by (simp add: cache_Pop_def x)
  show ?thesis
  proof (cases "xs = []")
    case True
    then show ?thesis using eq assms(3,4) st by (auto simp: cache_ok_def)
  next
    case False
    have sub: "set (butlast xs) \<subseteq> set xs" by (auto dest: in_set_butlastD)
    have "r = Some (last xs)" "k' = k\<lparr>fc_fibers := butlast xs\<rparr>" "p' = p1" using eq assms(4) False by auto
    moreover have "free_fibers p1 + mset (butlast xs) + mset [last xs] = free_fibers p1 + mset xs" using mset_last [OF False] by (simp add: union_mset_add_mset_right [symmetric])
    moreover have "cache_ok p1 c (k\<lparr>fc_fibers := butlast xs\<rparr>)" using st assms(3) sub by (auto simp: cache_ok_def)
    ultimately show ?thesis using st False by simp
  qed
qed

lemma cache_Push_inv:
  assumes "pool_inv p" "cache_ok p c k" "f < fp_next p" "fp_class p f = c" "cache_Push f k p = (k', p')"
  shows "pool_inv p' \<and> grown p p' \<and> fp_next p' = fp_next p \<and> fp_committed p' = fp_committed p \<and> fp_class p' = fp_class p \<and> cache_ok p' c k' \<and>
    free_fibers p' + mset (fc_fibers k') = free_fibers p + mset (fc_fibers k) + {#f#}"
proof (cases "fc_capacity k \<le> length (fc_fibers k)")
  case False
  then have "k' = k\<lparr>fc_fibers := fc_fibers k @ [f]\<rparr>" "p' = p" using assms(5) by (auto simp: cache_Push_def Let_def)
  then show ?thesis using assms False by (simp add: cache_ok_def)
next
  case True
  let ?m = "length (fc_fibers k) - fc_capacity k div 2"
  let ?out = "drop ?m (fc_fibers k)"
  have eq: "k' = k\<lparr>fc_fibers := take ?m (fc_fibers k) @ [f]\<rparr>" "p' = ReturnBatch ?out p" using assms(5) True by (auto simp: cache_Push_def Let_def)
  have r: "\<forall>x \<in> set ?out. x < fp_next p" using assms(2) by (auto simp: cache_ok_def dest: in_set_dropD)
  have cap: "?m < fc_capacity k" "2 \<le> fc_capacity k" using assms(2) by (auto simp: cache_ok_def)
  have "mset (fc_fibers k) = mset (take ?m (fc_fibers k)) + mset ?out" by (metis append_take_drop_id mset_append)
  then show ?thesis using ReturnBatch_inv [OF assms(1) r] assms(2-4) cap unfolding eq by (auto simp: cache_ok_def dest: in_set_takeD)
qed

section \<open>All threads\<close>

definition thread_held :: "(StackClass \<Rightarrow> fiber_cache) \<Rightarrow> nat multiset" where
  "thread_held k = mset (fc_fibers (k Standard)) + mset (fc_fibers (k Deep))"

definition places :: "fiber_sys \<Rightarrow> nat multiset" where
  "places s = free_fibers (fs_pool s) + sum_list (map thread_held (fs_caches s)) + mset (fs_out s)"

definition sys_inv :: "fiber_sys \<Rightarrow> bool" where
  [inv_defs]: "sys_inv s \<longleftrightarrow> pool_inv (fs_pool s) \<and> places s = mset [0..<fp_next (fs_pool s)] \<and> (\<forall>k \<in> set (fs_caches s). \<forall>c. cache_ok (fs_pool s) c (k c))"

lemma thread_held_update: "thread_held (k(c := x)) + mset (fc_fibers (k c)) = thread_held k + mset (fc_fibers x)"
  by (cases c) (simp_all add: thread_held_def)

lemma caches_update:
  assumes "th < length ks"
  shows "sum_list (map thread_held (ks[th := (ks ! th)(c := x)])) + mset (fc_fibers ((ks ! th) c)) = sum_list (map thread_held ks) + mset (fc_fibers x)"
proof -
  have "sum_list (map thread_held (ks[th := (ks ! th)(c := x)])) + thread_held (ks ! th) = sum_list (map thread_held ks) + thread_held ((ks ! th)(c := x))"
    by (rule sum_pcs_update [OF assms])
  then have "sum_list (map thread_held (ks[th := (ks ! th)(c := x)])) + mset (fc_fibers ((ks ! th) c)) + thread_held (ks ! th) = sum_list (map thread_held ks) + mset (fc_fibers x) + thread_held (ks ! th)"
    using thread_held_update [of "ks ! th" c x] by (metis (no_types, lifting) add.assoc add.commute)
  then show ?thesis by simp
qed

lemma mset_balance:
  fixes F :: "'a multiset"
  assumes "F' + K' + R = F + K + N" "C' + K = C + K'"
  shows "F' + C' + (S + R) = F + C + S + N"
proof (rule multiset_eqI)
  fix x
  show "count (F' + C' + (S + R)) x = count (F + C + S + N) x"
    using arg_cong [OF assms(1), of "\<lambda>M. count M x"] arg_cong [OF assms(2), of "\<lambda>M. count M x"] by simp
qed

lemma mset_upt_split: "a \<le> b \<Longrightarrow> mset [0..<a] + mset [a..<b] = mset [0..<b]"
  by (metis mset_append upt_add_eq_append zero_le le_add_diff_inverse)

lemma caches_ok_update:
  assumes "\<forall>k \<in> set ks. \<forall>c. cache_ok p c (k c)" "grown p p'" "th < length ks" "cache_ok p' c x"
  shows "\<forall>k \<in> set (ks[th := (ks ! th)(c := x)]). \<forall>c. cache_ok p' c (k c)"
proof (intro ballI allI)
  fix k d
  assume "k \<in> set (ks[th := (ks ! th)(c := x)])"
  then consider "k \<in> set ks" | "k = (ks ! th)(c := x)" using set_update_subset_insert [of ks th "(ks ! th)(c := x)"] by blast
  then show "cache_ok p' d (k d)"
  proof cases
    case 1
    then show ?thesis using assms(1,2) by (blast intro: cache_ok_grown)
  next
    case 2
    have "cache_ok p d ((ks ! th) d)" using assms(1) nth_mem [OF assms(3)] by blast
    then show ?thesis using 2 assms(2,4) cache_ok_grown [of p d "(ks ! th) d" p'] by (cases "d = c") simp_all
  qed
qed

lemma AcquireFiber_inv:
  assumes "bulk_ok pick" "sys_inv s" "th < length (fs_caches s)" "AcquireFiber pick g th c s = (r, s')"
  shows "sys_inv s' \<and> length (fs_caches s') = length (fs_caches s) \<and> grown (fs_pool s) (fs_pool s') \<and>
    (fp_limit (fs_pool s) \<noteq> 0 \<longrightarrow> fp_committed (fs_pool s') \<le> max (fp_committed (fs_pool s)) (fp_limit (fs_pool s))) \<and>
    (\<forall>f. r = Some f \<longrightarrow> fp_class (fs_pool s') f = c)"
proof -
  let ?k = "(fs_caches s ! th) c"
  obtain r0 k p where pop: "cache_Pop pick g ?k (fs_pool s) = (r0, k, p)" by (metis prod_cases3)
  have si: "pool_inv (fs_pool s)" "places s = mset [0..<fp_next (fs_pool s)]" "\<forall>k \<in> set (fs_caches s). \<forall>c. cache_ok (fs_pool s) c (k c)" using assms(2) by (auto simp: sys_inv_def)
  have ko: "cache_ok (fs_pool s) c ?k" using si(3) assms(3) by simp
  note pi = cache_Pop_inv [OF assms(1) si(1) ko pop]
  let ?out = "case r0 of None \<Rightarrow> [] | Some f \<Rightarrow> [f]"
  have eq: "r = r0" "s' = s\<lparr>fs_pool := p, fs_caches := (fs_caches s)[th := (fs_caches s ! th)(c := k)], fs_out := fs_out s @ ?out\<rparr>"
    using assms(4) by (auto simp: AcquireFiber_def pop Let_def split: option.splits)
  have up: "sum_list (map thread_held ((fs_caches s)[th := (fs_caches s ! th)(c := k)])) + mset (fc_fibers ?k) = sum_list (map thread_held (fs_caches s)) + mset (fc_fibers k)"
    by (rule caches_update [OF assms(3)])
  have "places s' = places s + mset [fp_next (fs_pool s)..<fp_next p]"
    using mset_balance [OF _ up] pi unfolding eq places_def by (simp del: mset_upt)
  then have "places s' = mset [0..<fp_next p]" using si(2) mset_upt_split [of "fp_next (fs_pool s)" "fp_next p"] pi by (simp add: grown_def)
  moreover have "\<forall>k \<in> set (fs_caches s'). \<forall>c. cache_ok p c (k c)" unfolding eq using caches_ok_update [OF si(3) _ assms(3), of p c k] pi by simp
  ultimately show ?thesis using pi unfolding eq by (simp add: sys_inv_def)
qed

lemma ReleaseFiber_inv:
  assumes "sys_inv s" "\<forall>t. th = Some t \<longrightarrow> t < length (fs_caches s)" "f \<in> set (fs_out s)"
  shows "sys_inv (ReleaseFiber th f s) \<and> length (fs_caches (ReleaseFiber th f s)) = length (fs_caches s) \<and> grown (fs_pool s) (fs_pool (ReleaseFiber th f s)) \<and>
    fp_committed (fs_pool (ReleaseFiber th f s)) = fp_committed (fs_pool s)"
proof -
  have si: "pool_inv (fs_pool s)" "places s = mset [0..<fp_next (fs_pool s)]" "\<forall>k \<in> set (fs_caches s). \<forall>c. cache_ok (fs_pool s) c (k c)" using assms(1) by (auto simp: sys_inv_def)
  have "f \<in># places s" using assms(3) by (simp add: places_def)
  then have f: "f < fp_next (fs_pool s)" unfolding si(2) by simp
  have out: "mset (fs_out s) = add_mset f (mset (remove1 f (fs_out s)))" using assms(3) by simp
  show ?thesis
  proof (cases th)
    case None
    have r: "\<forall>x \<in> set [f]. x < fp_next (fs_pool s)" using f by simp
    note ri = ReturnBatch_inv [OF si(1) r]
    have s': "ReleaseFiber th f s = s\<lparr>fs_out := remove1 f (fs_out s), fs_pool := ReturnBatch [f] (fs_pool s)\<rparr>" using None by (simp add: ReleaseFiber_def)
    have "places (ReleaseFiber th f s) = places s" unfolding s' places_def using ri out by simp
    then show ?thesis using ri si unfolding s' by (auto simp: sys_inv_def intro: cache_ok_grown)
  next
    case (Some t)
    then have t: "t < length (fs_caches s)" using assms(2) by simp
    let ?c = "fp_class (fs_pool s) f"
    let ?k = "(fs_caches s ! t) ?c"
    obtain k p where pu: "cache_Push f ?k (fs_pool s) = (k, p)" by fastforce
    have ko: "cache_ok (fs_pool s) ?c ?k" using si(3) t by simp
    note pi = cache_Push_inv [OF si(1) ko f refl pu]
    have s': "ReleaseFiber th f s = s\<lparr>fs_out := remove1 f (fs_out s), fs_pool := p, fs_caches := (fs_caches s)[t := (fs_caches s ! t)(?c := k)]\<rparr>"
      using Some pu by (simp add: ReleaseFiber_def Let_def)
    have up: "sum_list (map thread_held ((fs_caches s)[t := (fs_caches s ! t)(?c := k)])) + mset (fc_fibers ?k) = sum_list (map thread_held (fs_caches s)) + mset (fc_fibers k)"
      by (rule caches_update [OF t])
    have "free_fibers p + mset (fc_fibers k) + {#} = free_fibers (fs_pool s) + mset (fc_fibers ?k) + {#f#}" using pi by simp
    from mset_balance [OF this up, of "mset (remove1 f (fs_out s))"] have "places (ReleaseFiber th f s) = places s" unfolding s' places_def out by (simp del: mset_remove1)
    then have "places (ReleaseFiber th f s) = mset [0..<fp_next p]" using si(2) pi by simp
    moreover have "\<forall>k \<in> set (fs_caches (ReleaseFiber th f s)). \<forall>c. cache_ok p c (k c)" unfolding s' using caches_ok_update [OF si(3) _ t, of p ?c k] pi by simp
    ultimately show ?thesis using pi unfolding s' by (simp add: sys_inv_def)
  qed
qed


section \<open>Sequences of calls\<close>

text \<open>A release names the thread whose caches take the fiber, or nobody for main's helper.\<close>

datatype fiber_call = CallAcquire grant nat StackClass | CallRelease "nat option" nat

fun fiber_apply :: "(nat list \<Rightarrow> nat \<Rightarrow> nat list) \<Rightarrow> fiber_call \<Rightarrow> fiber_sys \<Rightarrow> fiber_sys" where
  "fiber_apply pick (CallAcquire g th c) s = snd (AcquireFiber pick g th c s)"
| "fiber_apply pick (CallRelease th f) s = ReleaseFiber th f s"

fun fiber_call_ok :: "fiber_sys \<Rightarrow> fiber_call \<Rightarrow> bool" where
  "fiber_call_ok s (CallAcquire g th c) \<longleftrightarrow> th < length (fs_caches s)"
| "fiber_call_ok s (CallRelease th f) \<longleftrightarrow> f \<in> set (fs_out s) \<and> (case th of None \<Rightarrow> True | Some t \<Rightarrow> t < length (fs_caches s))"

fun calls_ok :: "(nat list \<Rightarrow> nat \<Rightarrow> nat list) \<Rightarrow> fiber_call list \<Rightarrow> fiber_sys \<Rightarrow> bool" where
  "calls_ok pick [] s \<longleftrightarrow> True"
| "calls_ok pick (x # xs) s \<longleftrightarrow> fiber_call_ok s x \<and> calls_ok pick xs (fiber_apply pick x s)"

definition fiber_run :: "(nat list \<Rightarrow> nat \<Rightarrow> nat list) \<Rightarrow> fiber_call list \<Rightarrow> fiber_sys \<Rightarrow> fiber_sys" where
  "fiber_run pick xs s = fold (fiber_apply pick) xs s"

text \<open>A started pool: its constructor has returned, every thread has two empty caches, no fiber is in use.\<close>

definition fiber_start :: "fiber_pool \<Rightarrow> nat \<Rightarrow> nat \<Rightarrow> fiber_sys" where
  "fiber_start p threads capacity = \<lparr>fs_pool = p, fs_caches = replicate threads (\<lambda>c. cache_init capacity c), fs_out = []\<rparr>"

lemma fiber_step_inv:
  assumes "bulk_ok pick" "sys_inv s" "fiber_call_ok s x"
  shows "sys_inv (fiber_apply pick x s) \<and> grown (fs_pool s) (fs_pool (fiber_apply pick x s)) \<and>
    (fp_limit (fs_pool s) \<noteq> 0 \<longrightarrow> fp_committed (fs_pool (fiber_apply pick x s)) \<le> max (fp_committed (fs_pool s)) (fp_limit (fs_pool s)))"
proof (cases x)
  case (CallAcquire g th c)
  obtain r s' where "AcquireFiber pick g th c s = (r, s')" by fastforce
  then show ?thesis using AcquireFiber_inv [OF assms(1,2)] assms(3) CallAcquire by fastforce
next
  case (CallRelease th f)
  then show ?thesis using ReleaseFiber_inv [OF assms(2), of th f] assms(3) by (auto split: option.splits)
qed

lemma fiber_run_inv:
  assumes "bulk_ok pick" "sys_inv s" "calls_ok pick xs s"
  shows "sys_inv (fiber_run pick xs s) \<and> (fp_limit (fs_pool s) \<noteq> 0 \<longrightarrow> fp_committed (fs_pool (fiber_run pick xs s)) \<le> max (fp_committed (fs_pool s)) (fp_limit (fs_pool s)))"
  using assms(2,3)
proof (induction xs arbitrary: s)
  case (Cons x xs)
  let ?s1 = "fiber_apply pick x s"
  have st: "sys_inv ?s1" "grown (fs_pool s) (fs_pool ?s1)" "fp_limit (fs_pool s) \<noteq> 0 \<longrightarrow> fp_committed (fs_pool ?s1) \<le> max (fp_committed (fs_pool s)) (fp_limit (fs_pool s))"
    using fiber_step_inv [OF assms(1) Cons.prems(1)] Cons.prems(2) by auto
  have "calls_ok pick xs ?s1" using Cons.prems(2) by simp
  from Cons.IH [OF st(1) this] show ?case using st(2,3) by (auto simp: fiber_run_def grown_def)
qed (simp add: fiber_run_def)

lemma empty_pool_inv: "pool_inv (empty_pool page a b l)" "free_fibers (empty_pool page a b l) = {#}" "fp_next (empty_pool page a b l) = 0"
  by (simp_all add: pool_inv_def avail_ok_def counts_ok_def empty_pool_def free_fibers_def)

lemma GlobalFiberPool_inv:
  assumes "GlobalFiberPool page a b l g1 g2 = Some p"
  shows "pool_inv p \<and> free_fibers p = mset [0..<fp_next p]"
proof -
  let ?p0 = "empty_pool page a b l"
  obtain ok1 p1 where 1: "(if a \<noteq> 0 then AddFiberBlock Standard a g1 ?p0 else (True, ?p0)) = (ok1, p1)" by fastforce
  obtain ok2 p2 where 2: "(if b \<noteq> 0 then AddFiberBlock Deep b g2 p1 else (True, p1)) = (ok2, p2)" by fastforce
  have "p = p2" using assms unfolding GlobalFiberPool_def Let_def 1 prod.case 2 by (simp split: if_splits)
  moreover have i1: "pool_inv p1 \<and> free_fibers p1 = mset [0..<fp_next p1]"
    using 1 AddFiberBlock_inv [OF empty_pool_inv(1), of Standard a g1 page a b l ok1 p1] empty_pool_inv [of page a b l] by (auto split: if_splits)
  moreover have "pool_inv p2 \<and> free_fibers p2 = mset [0..<fp_next p2]"
  proof (cases "b = 0")
    case False
    then have "AddFiberBlock Deep b g2 p1 = (ok2, p2)" using 2 by simp
    from AddFiberBlock_inv [OF conjunct1 [OF i1] this] show ?thesis using i1 mset_upt_split [of "fp_next p1" "fp_next p2"] by (simp add: grown_def)
  qed (use 2 i1 in simp)
  ultimately show ?thesis by simp
qed

lemma sum_replicate_empty: "sum_list (map thread_held (replicate n (\<lambda>c. cache_init k c))) = {#}"
  by (induction n) (simp_all add: thread_held_def cache_init_def Let_def)

lemma fiber_start_inv:
  assumes "GlobalFiberPool page a b l g1 g2 = Some p"
  shows "sys_inv (fiber_start p threads capacity)"
  using GlobalFiberPool_inv [OF assms] sum_replicate_empty [of threads capacity] by (simp add: sys_inv_def fiber_start_def places_def cache_init_ok)

text \<open>A pool of four standard fibers and a limit of six, two threads.\<close>

definition pool4 :: fiber_pool where
  "pool4 = the (GlobalFiberPool 4096 4 0 (6 * 65536) (True, replicate 4 True) (True, []))"

lemma distinct_sub_mset: "mset xs \<subseteq># mset ys \<Longrightarrow> distinct ys \<Longrightarrow> distinct xs"
proof -
  assume a: "mset xs \<subseteq># mset ys" "distinct ys"
  have "count (mset xs) x \<le> 1" for x using a by (metis distinct_count_atmost_1 mset_subset_eq_count order_trans le_numeral_extra(4) zero_le_one)
  then have "\<forall>x. count (mset xs) x = (if x \<in> set xs then 1 else 0)" by (metis count_greater_zero_iff le_antisym less_one linorder_not_less not_gr_zero set_mset_mset Suc_leI One_nat_def)
  then show ?thesis by (simp add: distinct_count_atmost_1)
qed

text \<open>(C23) However the threads acquire and release fibers, and however the pool grows meanwhile, every fiber ever made is in exactly one place: a free
  queue, one thread's cache, or in use; so no fiber is handed out twice and none is lost. The caches keep to their capacity, and a free fiber is where its stack
  class says.\<close>

theorem fibers_have_one_place:
  assumes "bulk_ok pick" "GlobalFiberPool page standardCount deepCount limit g1 g2 = Some p" "calls_ok pick xs (fiber_start p threads capacity)"
  shows "let s = fiber_run pick xs (fiber_start p threads capacity) in
    places s = mset [0..<fp_next (fs_pool s)] \<and> distinct (fs_out s) \<and> counts_ok (fs_pool s) \<and> avail_ok (fs_pool s) \<and>
    (\<forall>k \<in> set (fs_caches s). \<forall>c. length (fc_fibers (k c)) \<le> fc_capacity (k c) \<and> fc_capacity (k c) \<le> 256 \<and> (\<forall>f \<in> set (fc_fibers (k c)). fp_class (fs_pool s) f = c))"
proof -
  let ?s = "fiber_run pick xs (fiber_start p threads capacity)"
  have i: "sys_inv ?s" using fiber_run_inv [OF assms(1) fiber_start_inv [OF assms(2)] assms(3)] by simp
  then have pl: "places ?s = mset [0..<fp_next (fs_pool ?s)]" by (simp add: sys_inv_def)
  have "mset (fs_out ?s) \<subseteq># mset [0..<fp_next (fs_pool ?s)]" unfolding pl [symmetric] by (simp add: places_def)
  then have "distinct (fs_out ?s)" by (rule distinct_sub_mset) simp
  then show ?thesis using i pl by (simp add: Let_def sys_inv_def pool_inv_def cache_ok_def MaxCapacity_def)
qed

lemma bulk_take: "bulk_ok (\<lambda>xs n. take n xs)"
  by (auto simp: bulk_ok_def) (metis append_take_drop_id mset_append mset_subset_eq_add_left)

text \<open>(C33) Growing never takes the fiber stacks past the memory limit: the committed bytes stay at most the limit, or what the constructor made.\<close>

theorem fiber_memory_within_limit:
  assumes "bulk_ok pick" "GlobalFiberPool page standardCount deepCount limit g1 g2 = Some p" "calls_ok pick xs (fiber_start p threads capacity)" "fp_limit p \<noteq> 0"
  shows "fp_committed (fs_pool (fiber_run pick xs (fiber_start p threads capacity))) \<le> max (fp_committed p) (fp_limit p)"
  using fiber_run_inv [OF assms(1) fiber_start_inv [OF assms(2)] assms(3)] assms(4) by (simp add: fiber_start_def)

section \<open>Witnesses, and pages of another size\<close>

text \<open>With pages of four kilobytes a stack needs no rounding, and a block of four has four stacks, one after the other.\<close>

lemma region_4k: "unat (round_page (of_nat 4096) (of_nat 65536)) = 65536"
  using round_page_multiple [of 12 16] by simp

lemma four: "(4::nat) = Suc (Suc (Suc (Suc 0)))"
  by simp

lemma block4: "block_stacks 4096 Standard 4 (replicate 4 True) = [0, 65536, 131072, 196608]"
proof -
  have r: "replicate 4 True = [True, True, True, True]" by (simp add: four)
  have "block_stacks 4096 Standard 4 (replicate 4 True) = make_stacks (Suc (Suc (Suc (Suc 0)))) 65536 [True, True, True, True] \<lparr>sa_page = 4096, sa_total = 262144, sa_offset = 0\<rparr>"
    unfolding block_stacks_def Let_def r RegionFor_def UsableFor_def kStandardUsable_def by (simp add: four [symmetric] del: make_stacks.simps)
  also have "\<dots> = [0, 65536, 131072, 196608]" using region_4k by (simp add: AllocateStack_def Let_def)
  finally show ?thesis .
qed

text \<open>With pages of sixteen kilobytes a standard stack is rounded up by four, but the reservation is not: a block of one fiber has no room for
  its stack, and the pool cannot be made.\<close>

lemma block_of_one_fails_on_16k_pages: "block_stacks 16384 Standard 1 [True] = []"
proof -
  have "unat (round_page (of_nat (2 ^ 14)) (of_nat 77824)) = 81920" by (subst round_page_nat) simp_all
  then have "unat (round_page 16384 77824) = 81920" by simp
  then show ?thesis by (simp add: block_stacks_def Let_def RegionFor_def UsableFor_def kStandardUsable_def AllocateStack_def)
qed

lemma pool4_made: "GlobalFiberPool 4096 4 0 393216 (True, replicate 4 True) (True, []) = Some pool4"
  by (simp add: pool4_def GlobalFiberPool_def AddFiberBlock_def Let_def empty_pool_def block4)

abbreviation two_acquires :: "fiber_call list" where
  "two_acquires \<equiv> [CallAcquire (True, []) 0 Standard, CallAcquire (True, []) 1 Standard]"

lemma two_acquires_ok: "calls_ok (\<lambda>xs n. take n xs) two_acquires (fiber_start pool4 2 4)"
proof -
  let ?s = "fiber_start pool4 2 4"
  obtain r s' where a: "AcquireFiber (\<lambda>xs n. take n xs) (True, []) 0 Standard ?s = (r, s')" by fastforce
  have l: "length (fs_caches ?s) = 2" by (simp add: fiber_start_def)
  then have "length (fs_caches s') = 2" using AcquireFiber_inv [OF bulk_take fiber_start_inv [OF pool4_made] _ a] by simp
  then show ?thesis using a l by simp
qed

theorem fibers_have_one_place_witness:
  "places (fiber_run (\<lambda>xs n. take n xs) two_acquires (fiber_start pool4 2 4)) = mset [0..<fp_next (fs_pool (fiber_run (\<lambda>xs n. take n xs) two_acquires (fiber_start pool4 2 4)))] \<and>
   distinct (fs_out (fiber_run (\<lambda>xs n. take n xs) two_acquires (fiber_start pool4 2 4)))"
  using fibers_have_one_place [OF bulk_take pool4_made two_acquires_ok] unfolding Let_def by blast

theorem fiber_memory_within_limit_witness:
  "fp_limit pool4 = 393216 \<and> fp_committed (fs_pool (fiber_run (\<lambda>xs n. take n xs) two_acquires (fiber_start pool4 2 4))) \<le> max (fp_committed pool4) (fp_limit pool4)"
proof -
  have "fp_limit pool4 = 393216" by (simp add: pool4_def GlobalFiberPool_def AddFiberBlock_def Let_def empty_pool_def block4)
  then show ?thesis using fiber_memory_within_limit [OF bulk_take pool4_made two_acquires_ok] by simp
qed

end
