(* ===== verification/Futures.thy ===== *)
theory Futures
  imports CancelTokens
begin

text \<open>
  Futures and promises (\<^verbatim>\<open>include/Future.h\<close>) and reference-counted objects (\<^verbatim>\<open>include/Ref.h\<close>). The shared state of a future changes only inside its mutex;
  a call is its section, with the wake-ups that follow the section recorded in the order they are made. A waiter is a number; the intrusive list of
  waiters is a list, newest first. Every waiter names a task to resume and the scheduler is initialised, so each waiter that \<open>Wake\<close> visits is woken. A value is a number.
\<close>

section \<open>The shared state\<close>

datatype FutureStatus = FutReady | FutCancelled | FutBroken

record FutureWaiter =
  fw_resume :: nat
  fw_token :: u32
  fw_status :: FutureStatus

record FutureState =
  fu_waiters :: "nat list"
  fu_refs :: int
  fu_ready :: bool
  fu_broken :: bool
  fu_value :: "nat option"
  fu_node :: "nat \<Rightarrow> FutureWaiter"
  fu_woken :: "nat list"
  fu_deleted :: nat

definition new_future :: FutureState where
  "new_future = \<lparr>fu_waiters = [], fu_refs = 1, fu_ready = False, fu_broken = False, fu_value = None,
     fu_node = (\<lambda>w. \<lparr>fw_resume = 0, fw_token = kNone, fw_status = FutReady\<rparr>), fu_woken = [], fu_deleted = 0\<rparr>"

definition set_status :: "FutureStatus \<Rightarrow> nat list \<Rightarrow> FutureState \<Rightarrow> FutureState" where
  "set_status st ws s = s\<lparr>fu_node := (\<lambda>w. if w \<in> set ws then (fu_node s w)\<lparr>fw_status := st\<rparr> else fu_node s w)\<rparr>"

definition future_Ready :: "FutureState \<Rightarrow> bool" where "future_Ready s \<longleftrightarrow> fu_ready s"
definition future_Broken :: "FutureState \<Rightarrow> bool" where "future_Broken s \<longleftrightarrow> fu_broken s \<and> \<not> fu_ready s"

text \<open>\<open>True\<close>: there is nothing to wait for, and the waiter's status says why.\<close>

definition ReadyOrQueue :: "cancel_table \<Rightarrow> nat \<Rightarrow> nat \<Rightarrow> u32 \<Rightarrow> FutureState \<Rightarrow> bool \<times> FutureState" where
  "ReadyOrQueue ct w resume tok s =
    (if fu_ready s then (True, set_status FutReady [w] s)
     else if fu_broken s then (True, set_status FutBroken [w] s)
     else if CancelToken_Valid tok \<and> CancelToken_Cancelled ct tok then (True, set_status FutCancelled [w] s)
     else (False, s\<lparr>fu_node := (fu_node s)(w := \<lparr>fw_resume = resume, fw_token = tok, fw_status = FutReady\<rparr>), fu_waiters := w # fu_waiters s\<rparr>))"

text \<open>The loop over the links: the matching waiters are taken out and stacked, the others keep their order.\<close>

fun split_waiters :: "(nat \<Rightarrow> bool) \<Rightarrow> nat list \<Rightarrow> nat list \<Rightarrow> nat list \<times> nat list" where
  "split_waiters match [] taken = ([], taken)"
| "split_waiters match (w # ws) taken =
    (if match w then split_waiters match ws (w # taken) else (let (keep, t) = split_waiters match ws taken in (w # keep, t)))"

definition future_Wake :: "nat list \<Rightarrow> FutureState \<Rightarrow> nat \<times> FutureState" where
  "future_Wake ws s = (length ws, s\<lparr>fu_woken := fu_woken s @ ws\<rparr>)"

definition future_CancelWaiters :: "cancel_table \<Rightarrow> u32 \<Rightarrow> FutureState \<Rightarrow> nat \<times> FutureState" where
  "future_CancelWaiters ct tok s =
    (let match = (\<lambda>w. \<not> CancelToken_Valid tok \<or> CancelToken_IsWithin ct (fw_token (fu_node s w)) tok);
         (keep, taken) = split_waiters match (fu_waiters s) []
     in future_Wake taken (set_status FutCancelled taken (s\<lparr>fu_waiters := keep\<rparr>)))"

definition Publish :: "bool \<Rightarrow> FutureState \<Rightarrow> nat \<times> FutureState" where
  "Publish broken s =
    (if fu_ready s \<or> fu_broken s then (0, s)
     else let s1 = (if broken then s\<lparr>fu_broken := True\<rparr> else s\<lparr>fu_ready := True\<rparr>)
          in future_Wake (fu_waiters s) (set_status (if broken then FutBroken else FutReady) (fu_waiters s) (s1\<lparr>fu_waiters := []\<rparr>)))"

text \<open>\<open>SetValue\<close> tests under the mutex, constructs the value outside it, and publishes; the test and the rest are two sections.\<close>

definition SetValue_test :: "FutureState \<Rightarrow> bool" where
  "SetValue_test s \<longleftrightarrow> \<not> (fu_ready s \<or> fu_broken s)"

definition SetValue_publish :: "nat \<Rightarrow> FutureState \<Rightarrow> nat \<times> FutureState" where
  "SetValue_publish v s = Publish False (s\<lparr>fu_value := Some v\<rparr>)"

definition SetValue :: "nat \<Rightarrow> FutureState \<Rightarrow> nat \<times> FutureState" where
  "SetValue v s = (if SetValue_test s then SetValue_publish v s else (0, s))"

section \<open>Handles\<close>

definition future_Retain :: "FutureState \<Rightarrow> FutureState" where
  "future_Retain s = s\<lparr>fu_refs := fu_refs s + 1\<rparr>"

definition future_Release :: "FutureState \<Rightarrow> bool \<times> FutureState" where
  "future_Release s = (fu_refs s = 1, s\<lparr>fu_refs := fu_refs s - 1\<rparr>)"

text \<open>\<open>if (s_->Release()) delete s_\<close>.\<close>

definition drop_handle :: "FutureState \<Rightarrow> FutureState" where
  "drop_handle s = (let (last, s1) = future_Release s in if last then s1\<lparr>fu_deleted := fu_deleted s1 + 1\<rparr> else s1)"

definition promise_Break :: "FutureState \<Rightarrow> FutureState" where
  "promise_Break s = drop_handle (snd (Publish True s))"

text \<open>\<open>Take\<close>: \<open>None\<close> when one of its assertions fails.\<close>

definition future_Get :: "FutureState \<Rightarrow> nat option" where
  "future_Get s = (if future_Ready s then fu_value s else None)"

definition future_Take :: "FutureState \<Rightarrow> nat option" where
  "future_Take s = (if future_Ready s \<and> fu_refs s = 1 then fu_value s else None)"

section \<open>What each section keeps\<close>

lemma split_waiters_eq: "split_waiters match ws taken = (filter (\<lambda>w. \<not> match w) ws, rev (filter match ws) @ taken)"
  by (induction ws arbitrary: taken) simp_all

text \<open>Waiters that were queued are either still in the list or have been woken, once; a settled future has none left.\<close>

definition future_inv :: "nat multiset \<Rightarrow> FutureState \<Rightarrow> bool" where
  [inv_defs]: "future_inv queued s \<longleftrightarrow> mset (fu_waiters s) + mset (fu_woken s) = queued \<and> (fu_ready s \<or> fu_broken s \<longrightarrow> fu_waiters s = []) \<and>
    \<not> (fu_ready s \<and> fu_broken s) \<and> (fu_ready s \<longrightarrow> fu_value s \<noteq> None) \<and> (\<forall>w \<in> set (fu_waiters s). fw_status (fu_node s w) = FutReady)"

lemma ReadyOrQueue_inv:
  assumes "future_inv Q s" "ReadyOrQueue ct w r tok s = (done', s')" "w \<notin># Q"
  shows "future_inv (if done' then Q else add_mset w Q) s'"
proof -
  have "w \<notin> set (fu_waiters s)" using assms(1,3) by (auto simp: future_inv_def)
  then show ?thesis using assms(1,2) by (auto simp: future_inv_def ReadyOrQueue_def set_status_def split: if_splits)
qed

lemma CancelWaiters_inv:
  assumes "future_inv Q s" "future_CancelWaiters ct tok s = (n, s')"
  shows "future_inv Q s'"
proof -
  define match where "match = (\<lambda>w. \<not> CancelToken_Valid tok \<or> CancelToken_IsWithin ct (fw_token (fu_node s w)) tok)"
  have s': "s' = snd (future_Wake (rev (filter match (fu_waiters s))) (set_status FutCancelled (rev (filter match (fu_waiters s))) (s\<lparr>fu_waiters := filter (\<lambda>w. \<not> match w) (fu_waiters s)\<rparr>)))"
    using arg_cong [OF assms(2), of snd] unfolding future_CancelWaiters_def Let_def split_waiters_eq match_def [symmetric] by simp
  have "mset (filter (\<lambda>w. \<not> match w) (fu_waiters s)) + (mset (fu_woken s) + mset (filter match (fu_waiters s))) = mset (fu_waiters s) + mset (fu_woken s)"
    using mset_filter_partition [of match "fu_waiters s"] by (simp add: ac_simps)
  then show ?thesis using assms(1) unfolding s' by (auto simp: future_inv_def future_Wake_def set_status_def)
qed

lemma Publish_inv:
  assumes "future_inv Q s" "Publish broken s = (n, s')" "\<not> broken \<longrightarrow> fu_value s \<noteq> None"
  shows "future_inv Q s' \<and> (fu_ready s' \<or> fu_broken s')"
  using assms by (auto simp: future_inv_def Publish_def future_Wake_def set_status_def Let_def split: if_splits)

lemma set_value_inv: "future_inv Q s \<Longrightarrow> future_inv Q (s\<lparr>fu_value := Some v\<rparr>)"
  by (simp add: future_inv_def)


text \<open>\<open>CancelWaiters\<close> wakes exactly the waiters within the token, oldest first, and leaves the others in order.\<close>

lemma CancelWaiters_exactly:
  assumes "CancelToken_Valid tok" "future_CancelWaiters ct tok s = (n, s')"
  shows "fu_woken s' = fu_woken s @ rev (filter (\<lambda>w. CancelToken_IsWithin ct (fw_token (fu_node s w)) tok) (fu_waiters s)) \<and>
    fu_waiters s' = filter (\<lambda>w. \<not> CancelToken_IsWithin ct (fw_token (fu_node s w)) tok) (fu_waiters s)"
  using assms by (auto simp: future_CancelWaiters_def Let_def split_waiters_eq future_Wake_def set_status_def)

section \<open>A promise, its futures, and their waiters\<close>

text \<open>The promise has one owner, who may be inside \<open>Set\<close> between its two sections (\<open>fy_setting\<close>); futures are copied and dropped by anyone who has one. A waiter
  object waits once.\<close>

record fut_sys =
  fy_state :: FutureState
  fy_promise :: bool
  fy_setting :: "nat option"
  fy_futures :: nat
  fy_queued :: "nat multiset"

definition fut_start :: fut_sys where
  "fut_start = \<lparr>fy_state = new_future, fy_promise = True, fy_setting = None, fy_futures = 0, fy_queued = {#}\<rparr>"

inductive fut_step :: "fut_sys \<Rightarrow> fut_sys \<Rightarrow> bool" where
  fut_wait: "0 < fy_futures y \<Longrightarrow> w \<notin># fy_queued y \<Longrightarrow> ReadyOrQueue ct w r tok (fy_state y) = (d, s') \<Longrightarrow>
    fut_step y (y\<lparr>fy_state := s', fy_queued := if d then fy_queued y else add_mset w (fy_queued y)\<rparr>)"
| fut_cancel: "0 < fy_futures y \<Longrightarrow> future_CancelWaiters ct tok (fy_state y) = (n, s') \<Longrightarrow> fut_step y (y\<lparr>fy_state := s'\<rparr>)"
| fut_set_test: "fy_promise y \<Longrightarrow> fy_setting y = None \<Longrightarrow> SetValue_test (fy_state y) \<Longrightarrow> fut_step y (y\<lparr>fy_setting := Some v\<rparr>)"
| fut_set_publish: "fy_setting y = Some v \<Longrightarrow> SetValue_publish v (fy_state y) = (n, s') \<Longrightarrow> fut_step y (y\<lparr>fy_state := s', fy_setting := None\<rparr>)"
| fut_get: "fy_promise y \<Longrightarrow> fut_step y (y\<lparr>fy_state := future_Retain (fy_state y), fy_futures := fy_futures y + 1\<rparr>)"
| fut_copy: "0 < fy_futures y \<Longrightarrow> fut_step y (y\<lparr>fy_state := future_Retain (fy_state y), fy_futures := fy_futures y + 1\<rparr>)"
| fut_drop: "0 < fy_futures y \<Longrightarrow> fut_step y (y\<lparr>fy_state := drop_handle (fy_state y), fy_futures := fy_futures y - 1\<rparr>)"
| fut_break: "fy_promise y \<Longrightarrow> fy_setting y = None \<Longrightarrow> fut_step y (y\<lparr>fy_state := promise_Break (fy_state y), fy_promise := False\<rparr>)"

text \<open>The handles are counted, and the state is deleted with the last of them.\<close>

definition handles_ok :: "fut_sys \<Rightarrow> bool" where
  "handles_ok y \<longleftrightarrow> fu_refs (fy_state y) = int (fy_futures y) + (if fy_promise y then 1 else 0) \<and>
    fu_deleted (fy_state y) = (if fy_futures y = 0 \<and> \<not> fy_promise y then 1 else 0)"

definition status_ok :: "FutureState \<Rightarrow> bool" where
  "status_ok s \<longleftrightarrow> (\<forall>w \<in> set (fu_woken s). fw_status (fu_node s w) = FutCancelled \<or> fu_ready s \<and> fw_status (fu_node s w) = FutReady \<or> fu_broken s \<and> fw_status (fu_node s w) = FutBroken)"

definition fut_inv :: "fut_sys \<Rightarrow> bool" where
  [inv_defs]: "fut_inv y \<longleftrightarrow> future_inv (fy_queued y) (fy_state y) \<and> (\<forall>w. count (fy_queued y) w \<le> 1) \<and> handles_ok y \<and> status_ok (fy_state y) \<and>
    (fy_setting y \<noteq> None \<longrightarrow> fy_promise y \<and> SetValue_test (fy_state y)) \<and> (\<not> fy_promise y \<longrightarrow> \<not> SetValue_test (fy_state y))"

lemma section_handles:
  "ReadyOrQueue ct w r tok s = (d, s') \<Longrightarrow> fu_refs s' = fu_refs s \<and> fu_deleted s' = fu_deleted s \<and> fu_ready s' = fu_ready s \<and> fu_broken s' = fu_broken s"
  "future_CancelWaiters ct tok s = (n, s') \<Longrightarrow> fu_refs s' = fu_refs s \<and> fu_deleted s' = fu_deleted s \<and> fu_ready s' = fu_ready s \<and> fu_broken s' = fu_broken s"
  "Publish b s = (n, s') \<Longrightarrow> fu_refs s' = fu_refs s \<and> fu_deleted s' = fu_deleted s"
  by (auto simp: ReadyOrQueue_def future_CancelWaiters_def Publish_def future_Wake_def set_status_def Let_def split: if_splits prod.splits)

lemma status_wait:
  assumes "status_ok s" "ReadyOrQueue ct w r tok s = (d, s')" "w \<notin> set (fu_woken s)"
  shows "status_ok s'"
  using assms by (auto simp: status_ok_def ReadyOrQueue_def set_status_def split: if_splits)

lemma status_cancel: "status_ok s \<Longrightarrow> future_CancelWaiters ct tok s = (n, s') \<Longrightarrow> status_ok s'"
  by (auto simp: status_ok_def future_CancelWaiters_def Let_def split_waiters_eq future_Wake_def set_status_def split: if_splits)

lemma status_publish:
  assumes "status_ok s" "Publish b s = (n, s')" "\<forall>w \<in> set (fu_waiters s). w \<notin> set (fu_woken s)"
  shows "status_ok s'"
proof (cases "fu_ready s \<or> fu_broken s")
  case True
  then show ?thesis using assms by (simp add: Publish_def)
next
  case False
  then show ?thesis using assms by (cases b) (auto simp: status_ok_def Publish_def future_Wake_def set_status_def Let_def split: if_splits)
qed

lemma once_disjoint:
  assumes "future_inv Q s" "\<forall>w. count Q w \<le> 1"
  shows "\<forall>w \<in> set (fu_waiters s). w \<notin> set (fu_woken s)" "distinct (fu_waiters s)" "distinct (fu_woken s)"
proof -
  have Q: "count (mset (fu_waiters s)) w + count (mset (fu_woken s)) w \<le> 1" for w using assms by (metis count_union future_inv_def)
  show "\<forall>w \<in> set (fu_waiters s). w \<notin> set (fu_woken s)"
  proof (intro ballI notI)
    fix w
    assume "w \<in> set (fu_waiters s)" "w \<in> set (fu_woken s)"
    then have "0 < count (mset (fu_waiters s)) w" "0 < count (mset (fu_woken s)) w" by simp_all
    then show False using Q [of w] by linarith
  qed
  have d: "distinct xs" if "\<And>w. count (mset xs) w \<le> 1" for xs :: "nat list"
  proof -
    have "count (mset xs) x = (if x \<in> set xs then 1 else 0)" for x using that [of x] by (cases "x \<in> set xs") (auto simp: not_in_iff [symmetric] le_Suc_eq count_eq_zero_iff)
    then show ?thesis by (simp add: distinct_count_atmost_1)
  qed
  have "count (mset (fu_waiters s)) w \<le> 1" "count (mset (fu_woken s)) w \<le> 1" for w using Q [of w] by linarith+
  then show "distinct (fu_waiters s)" "distinct (fu_woken s)" using d by blast+
qed

lemma drop_fields: "fu_refs (drop_handle s) = fu_refs s - 1" "fu_deleted (drop_handle s) = fu_deleted s + (if fu_refs s = 1 then 1 else 0)"
  "future_inv Q (drop_handle s) = future_inv Q s" "status_ok (drop_handle s) = status_ok s" "SetValue_test (drop_handle s) = SetValue_test s"
  by (simp_all add: drop_handle_def future_Release_def future_inv_def status_ok_def SetValue_test_def)

lemma fut_step_inv: "fut_inv y \<Longrightarrow> fut_step y y' \<Longrightarrow> fut_inv y'"
proof (rotate_tac, induction rule: fut_step.induct)
  case (fut_wait y w ct r tok d s')
  have i: "future_inv (fy_queued y) (fy_state y)" using fut_wait(4) by (simp add: fut_inv_def)
  have "w \<notin># mset (fu_waiters (fy_state y)) + mset (fu_woken (fy_state y))" using i fut_wait(2) unfolding future_inv_def by (elim conjE) (simp only: not_False_eq_True)
  then have "w \<notin> set (fu_woken (fy_state y))" by simp
  then show ?case using ReadyOrQueue_inv [OF i fut_wait(3,2)] status_wait [OF _ fut_wait(3)] section_handles(1) [OF fut_wait(3)] fut_wait
    by (auto simp: fut_inv_def handles_ok_def SetValue_test_def not_in_iff)
next
  case (fut_cancel y ct tok n s')
  then show ?case using CancelWaiters_inv [OF _ fut_cancel(2)] status_cancel [OF _ fut_cancel(2)] section_handles(2) [OF fut_cancel(2)]
    by (auto simp: fut_inv_def handles_ok_def SetValue_test_def)
next
  case (fut_set_test y v)
  then show ?case by (simp add: fut_inv_def handles_ok_def)
next
  case (fut_set_publish y v n s')
  let ?s = "(fy_state y)\<lparr>fu_value := Some v\<rparr>"
  have p: "Publish False ?s = (n, s')" using fut_set_publish(2) by (simp add: SetValue_publish_def)
  have i: "future_inv (fy_queued y) ?s" "status_ok ?s" "fy_promise y" "\<forall>w. count (fy_queued y) w \<le> 1" using fut_set_publish(1,3) by (auto simp: fut_inv_def set_value_inv status_ok_def)
  have "status_ok s'" by (rule status_publish [OF i(2) p once_disjoint(1) [OF i(1,4)]])
  then show ?case using Publish_inv [OF i(1) p] section_handles(3) [OF p] i fut_set_publish(3) by (auto simp: fut_inv_def handles_ok_def SetValue_test_def)
next
  case (fut_get y)
  then show ?case by (simp add: fut_inv_def handles_ok_def future_Retain_def future_inv_def status_ok_def SetValue_test_def)
next
  case (fut_copy y)
  then show ?case by (simp add: fut_inv_def handles_ok_def future_Retain_def future_inv_def status_ok_def SetValue_test_def)
next
  case (fut_drop y)
  then have h: "handles_ok y" by (simp add: fut_inv_def)
  have "handles_ok (y\<lparr>fy_state := drop_handle (fy_state y), fy_futures := fy_futures y - 1\<rparr>)" using h fut_drop(1) by (auto simp: handles_ok_def drop_fields)
  then show ?case using fut_drop by (simp add: fut_inv_def drop_fields)
next
  case (fut_break y)
  obtain n s' where p: "Publish True (fy_state y) = (n, s')" by fastforce
  have i: "future_inv (fy_queued y) (fy_state y)" "status_ok (fy_state y)" "\<forall>w. count (fy_queued y) w \<le> 1" "handles_ok y" using fut_break(3) by (auto simp: fut_inv_def)
  have "status_ok s'" by (rule status_publish [OF i(2) p once_disjoint(1) [OF i(1,3)]])
  moreover have "handles_ok (y\<lparr>fy_state := drop_handle s', fy_promise := False\<rparr>)" using i(4) fut_break(1) section_handles(3) [OF p] by (auto simp: handles_ok_def drop_fields)
  ultimately show ?case using Publish_inv [OF i(1) p] i fut_break by (simp add: fut_inv_def promise_Break_def p drop_fields) (simp add: SetValue_test_def)
qed

interpretation fut: transition_system fut_step fut_inv
  by unfold_locales (rule fut_step_inv)

lemma fut_start_inv: "fut_inv fut_start"
  by (simp add: fut_inv_def fut_start_def new_future_def future_inv_def handles_ok_def status_ok_def SetValue_test_def)

text \<open>(C19) Whatever its promise, its futures and its waiters do, and in whatever order: a waiter that was queued is woken exactly once or still
  waits, and none waits any more once a value was set or the promise is gone; a woken waiter finds the status that fits, ready with a value, broken, or cancelled; and the shared
  state is deleted exactly when the last handle goes.\<close>

theorem future_wakes_each_waiter_once:
  assumes "reach fut_step fut_start y"
  shows "mset (fu_waiters (fy_state y)) + mset (fu_woken (fy_state y)) = fy_queued y \<and> distinct (fu_woken (fy_state y)) \<and>
    (fu_ready (fy_state y) \<or> fu_broken (fy_state y) \<or> \<not> fy_promise y \<longrightarrow> fu_waiters (fy_state y) = []) \<and> (fu_ready (fy_state y) \<longrightarrow> fu_value (fy_state y) \<noteq> None) \<and>
    (\<forall>w \<in> set (fu_woken (fy_state y)). fw_status (fu_node (fy_state y) w) = FutCancelled \<or> fu_ready (fy_state y) \<and> fw_status (fu_node (fy_state y) w) = FutReady \<or>
       fu_broken (fy_state y) \<and> fw_status (fu_node (fy_state y) w) = FutBroken) \<and>
    fu_deleted (fy_state y) = (if fy_futures y = 0 \<and> \<not> fy_promise y then 1 else 0)"
proof -
  have i: "fut_inv y" using fut.reach_inv [OF assms fut_start_inv] .
  then show ?thesis using once_disjoint(3) [of "fy_queued y" "fy_state y"] by (auto simp: fut_inv_def future_inv_def status_ok_def handles_ok_def SetValue_test_def)
qed


text \<open>A future is taken, waited on, and the value set: waiter 7 is woken.\<close>

definition fut_y1 :: fut_sys where "fut_y1 = fut_start\<lparr>fy_state := future_Retain new_future, fy_futures := 1\<rparr>"
definition fut_y2 :: fut_sys where
  "fut_y2 = fut_y1\<lparr>fy_state := snd (ReadyOrQueue cancel_init 7 3 kNone (fy_state fut_y1)), fy_queued := {#7#}\<rparr>"
definition fut_y3 :: fut_sys where "fut_y3 = fut_y2\<lparr>fy_setting := Some 42\<rparr>"
definition fut_y4 :: fut_sys where "fut_y4 = fut_y3\<lparr>fy_state := snd (SetValue_publish 42 (fy_state fut_y3)), fy_setting := None\<rparr>"

lemma fut_y4_reached: "reach fut_step fut_start fut_y4"
proof -
  have 1: "fut_step fut_start fut_y1" using fut_get [of fut_start] by (simp add: fut_y1_def fut_start_def)
  have r: "ReadyOrQueue cancel_init 7 3 kNone (fy_state fut_y1) = (False, snd (ReadyOrQueue cancel_init 7 3 kNone (fy_state fut_y1)))"
    by (simp add: ReadyOrQueue_def fut_y1_def future_Retain_def new_future_def CancelToken_Valid_def)
  have 2: "fut_step fut_y1 fut_y2" using fut_wait [OF _ _ r] by (simp add: fut_y2_def) (simp add: fut_y1_def fut_start_def)
  have 3: "fut_step fut_y2 fut_y3" unfolding fut_y3_def
    by (rule fut_set_test) (simp_all add: fut_y2_def fut_y1_def fut_start_def SetValue_test_def ReadyOrQueue_def future_Retain_def new_future_def CancelToken_Valid_def)
  obtain n where "SetValue_publish 42 (fy_state fut_y3) = (n, snd (SetValue_publish 42 (fy_state fut_y3)))" by (metis prod.collapse)
  then have 4: "fut_step fut_y3 fut_y4" unfolding fut_y4_def by (intro fut_set_publish) (simp add: fut_y3_def)
  show ?thesis by (rule reach_step [OF reach_step [OF reach_step [OF reach_one [of fut_step, OF 1] 2] 3] 4])
qed

theorem future_wakes_each_waiter_once_witness: "fu_ready (fy_state fut_y4) \<and> fu_woken (fy_state fut_y4) = [7] \<and> fu_waiters (fy_state fut_y4) = [] \<and> fu_deleted (fy_state fut_y4) = 0"
proof -
  have "fu_ready (fy_state fut_y4)" "fu_woken (fy_state fut_y4) = [7]" "fy_futures fut_y4 = 1"
    by (simp_all add: fut_y4_def fut_y3_def fut_y2_def fut_y1_def fut_start_def SetValue_publish_def Publish_def future_Wake_def set_status_def ReadyOrQueue_def future_Retain_def new_future_def
        CancelToken_Valid_def Let_def)
  then show ?thesis using future_wakes_each_waiter_once [OF fut_y4_reached] by simp
qed

text \<open>The only future of a promise that still lives cannot be taken from, although no other consumer holds the result: the promise's own reference counts too.\<close>

lemma take_fails_while_the_promise_lives: "future_Ready (fy_state fut_y4) \<and> fy_futures fut_y4 = 1 \<and> future_Get (fy_state fut_y4) = Some 42 \<and> future_Take (fy_state fut_y4) = None"
  by (simp add: future_Ready_def future_Get_def future_Take_def fut_y4_def fut_y3_def fut_y2_def fut_y1_def fut_start_def SetValue_publish_def Publish_def future_Wake_def set_status_def ReadyOrQueue_def
      future_Retain_def new_future_def CancelToken_Valid_def Let_def)

section \<open>Reference-counted objects\<close>

text \<open>The count is 32 bits wide. \<open>rc_held\<close>: the references that exist, in a \<open>Ref\<close> or given to a shared structure.\<close>

record RefCounted =
  rc_refs :: u32
  rc_held :: nat
  rc_retired :: nat

definition Ref_Make :: RefCounted where
  "Ref_Make = \<lparr>rc_refs = 1, rc_held = 1, rc_retired = 0\<rparr>"

definition TryIncrement :: "RefCounted \<Rightarrow> bool \<times> RefCounted" where
  "TryIncrement x = (if rc_refs x = 0 then (False, x) else (True, x\<lparr>rc_refs := rc_refs x + 1, rc_held := rc_held x + 1\<rparr>))"

definition Ref_copy :: "RefCounted \<Rightarrow> RefCounted" where
  "Ref_copy x = x\<lparr>rc_refs := rc_refs x + 1, rc_held := rc_held x + 1\<rparr>"

definition Ref_Reset :: "RefCounted \<Rightarrow> RefCounted" where
  "Ref_Reset x = (let x1 = x\<lparr>rc_refs := rc_refs x - 1, rc_held := rc_held x - 1\<rparr> in if rc_refs x = 1 then x1\<lparr>rc_retired := rc_retired x + 1\<rparr> else x1)"

text \<open>\<open>Acquire\<close>: the pointers its loads of the source give, one after another, until a reference is taken, the source is null, or
  it still names an object whose last reference is gone. \<open>None\<close>: the given loads were not enough.\<close>

fun Ref_Acquire :: "ptr list \<Rightarrow> (nat \<Rightarrow> RefCounted) \<Rightarrow> (ptr \<times> (nat \<Rightarrow> RefCounted)) option" where
  "Ref_Acquire [] h = None"
| "Ref_Acquire (None # ls) h = Some (None, h)"
| "Ref_Acquire (Some p # ls) h =
    (let (ok, x) = TryIncrement (h p) in
     if ok then Some (Some p, h(p := x))
     else (case ls of [] \<Rightarrow> None | l # ls' \<Rightarrow> if l = Some p then Some (None, h) else Ref_Acquire ls' h))"

lemma Ref_Acquire_takes_a_live_object:
  "Ref_Acquire ls h = Some (r, h') \<Longrightarrow> (case r of None \<Rightarrow> h' = h | Some p \<Rightarrow> Some p \<in> set ls \<and> rc_refs (h p) \<noteq> 0 \<and> h' = h(p := snd (TryIncrement (h p))))"
proof (induction "length ls" arbitrary: ls rule: less_induct)
  case less
  consider "ls = []" | ls' where "ls = None # ls'" | p ls' where "ls = Some p # ls'" by (metis list.exhaust option.exhaust)
  then show ?case
  proof cases
    case 3
    show ?thesis
    proof (cases "rc_refs (h p) = 0")
      case False
      then show ?thesis using less(2) by (auto simp: 3 TryIncrement_def)
    next
      case True
      then have t: "TryIncrement (h p) = (False, h p)" by (simp add: TryIncrement_def)
      obtain l ls2 where ls': "ls' = l # ls2" using less(2) t by (cases ls') (simp_all add: 3)
      show ?thesis using less(1) [of ls2] less(2) t by (cases "l = Some p") (auto simp: 3 ls' split: option.splits)
    qed
  qed (use less(2) in simp_all)
qed

inductive ref_step :: "RefCounted \<Rightarrow> RefCounted \<Rightarrow> bool" where
  ref_try: "rc_held x + 1 < 2 ^ 32 \<Longrightarrow> ref_step x (snd (TryIncrement x))"
| ref_copy: "0 < rc_held x \<Longrightarrow> rc_held x + 1 < 2 ^ 32 \<Longrightarrow> ref_step x (Ref_copy x)"
| ref_reset: "0 < rc_held x \<Longrightarrow> ref_step x (Ref_Reset x)"

definition ref_inv :: "RefCounted \<Rightarrow> bool" where
  [inv_defs]: "ref_inv x \<longleftrightarrow> rc_refs x = of_nat (rc_held x) \<and> rc_held x < 2 ^ 32 \<and> rc_retired x = (if rc_held x = 0 then 1 else 0)"

lemma refs_zero: "ref_inv x \<Longrightarrow> rc_refs x = 0 \<longleftrightarrow> rc_held x = 0" "ref_inv x \<Longrightarrow> rc_refs x = 1 \<longleftrightarrow> rc_held x = 1"
proof -
  have u: "unat (of_nat n :: u32) = n" if "n < 2 ^ 32" for n using that by (simp add: unsigned_of_nat take_bit_nat_eq_self)
  assume "ref_inv x"
  then have x: "unat (rc_refs x) = rc_held x" using u [of "rc_held x"] by (simp add: ref_inv_def)
  then show "rc_refs x = 0 \<longleftrightarrow> rc_held x = 0" by (metis unat_0 unat_eq_0)
  show "rc_refs x = 1 \<longleftrightarrow> rc_held x = 1" using x by (simp add: word_unat_eq_iff)
qed

lemma ref_step_inv: "ref_inv x \<Longrightarrow> ref_step x y \<Longrightarrow> ref_inv y"
proof (rotate_tac, induction rule: ref_step.induct)
  case (ref_try x)
  then show ?case using refs_zero(1) by (auto simp: TryIncrement_def ref_inv_def)
next
  case (ref_copy x)
  then show ?case by (auto simp: Ref_copy_def ref_inv_def)
next
  case (ref_reset x)
  then have "rc_refs x = 1 \<longleftrightarrow> rc_held x = 1" "(of_nat (rc_held x - 1) :: u32) = of_nat (rc_held x) - 1" using refs_zero(2) by (auto simp: of_nat_diff)
  then show ?case using ref_reset by (auto simp: Ref_Reset_def ref_inv_def)
qed

interpretation rfc: transition_system ref_step ref_inv
  by unfold_locales (rule ref_step_inv)

text \<open>With fewer than \<open>2 ^ 32\<close> references at any time the count of an object is the number of references held, the object is retired
  exactly once, when the last is given up, and after that no attempt to take a reference succeeds.\<close>

theorem object_is_retired_once:
  assumes "reach ref_step Ref_Make x"
  shows "rc_refs x = of_nat (rc_held x) \<and> rc_retired x = (if rc_held x = 0 then 1 else 0) \<and> (fst (TryIncrement x) \<longleftrightarrow> 0 < rc_held x)"
proof -
  have "ref_inv Ref_Make" by (simp add: ref_inv_def Ref_Make_def)
  then have i: "ref_inv x" using rfc.reach_inv [OF assms] by blast
  then show ?thesis using refs_zero(1) [OF i] by (auto simp: ref_inv_def TryIncrement_def)
qed

theorem object_is_retired_once_witness: "rc_retired (Ref_Reset (Ref_Reset (Ref_copy Ref_Make))) = 1 \<and> \<not> fst (TryIncrement (Ref_Reset (Ref_Reset (Ref_copy Ref_Make))))"
proof -
  have 1: "ref_step Ref_Make (Ref_copy Ref_Make)" by (rule ref_copy) (simp_all add: Ref_Make_def)
  have 2: "ref_step (Ref_copy Ref_Make) (Ref_Reset (Ref_copy Ref_Make))" by (rule ref_reset) (simp add: Ref_Make_def Ref_copy_def)
  have 3: "ref_step (Ref_Reset (Ref_copy Ref_Make)) (Ref_Reset (Ref_Reset (Ref_copy Ref_Make)))" by (rule ref_reset) (simp add: Ref_Make_def Ref_copy_def Ref_Reset_def Let_def)
  have "rc_held (Ref_Reset (Ref_Reset (Ref_copy Ref_Make))) = 0" by (simp add: Ref_Make_def Ref_copy_def Ref_Reset_def Let_def)
  then show ?thesis using object_is_retired_once [OF reach_step [OF reach_step [OF reach_one [of ref_step, OF 1] 2] 3]] by simp
qed

end
