(* ===== verification/TaskLocals.thy ===== *)
theory TaskLocals
  imports TaskTypes
begin

text \<open>
  Task-local slots and the debts a task leaves at its death (\<^verbatim>\<open>src/TaskLocal.cpp\<close>, \<open>CurrentLocals\<close>, \<open>ReleaseRecord\<close> and \<open>ReleaseOnTaskDeath\<close>
  of \<^verbatim>\<open>src/TaskScheduler.cpp\<close>). A value, an object and a function is a number, 0 the null pointer. The deleters and release functions are the
  caller's code; a call of one is recorded. The intrusive list of debts is a list, newest first.
\<close>

section \<open>Slots\<close>

record slot_table =
  st_next :: u16
  st_deleter :: "nat \<Rightarrow> nat"
  st_mask :: u32

definition kNoTaskLocalSlot :: u16 where "kNoTaskLocalSlot = 0xFFFF"

definition slot_table_init :: slot_table where
  "slot_table_init = \<lparr>st_next = 0, st_deleter = (\<lambda>i. 0), st_mask = 0\<rparr>"

definition AllocTaskLocalSlot :: "slot_table \<Rightarrow> u16 \<times> slot_table" where
  "AllocTaskLocalSlot g = (let s = st_next g in (if of_nat kLocalSlots \<le> s then kNoTaskLocalSlot else s, g\<lparr>st_next := s + 1\<rparr>))"

definition TaskLocalGet :: "u16 \<Rightarrow> TaskRecord option \<Rightarrow> nat" where
  "TaskLocalGet slot cur =
    (if of_nat kLocalSlots \<le> slot then 0
     else case cur of None \<Rightarrow> 0 | Some r \<Rightarrow> (case tr_locals r of None \<Rightarrow> 0 | Some v \<Rightarrow> v (unat slot)))"

definition CurrentLocals :: "TaskRecord \<Rightarrow> TaskRecord" where
  "CurrentLocals r = (case tr_locals r of None \<Rightarrow> r\<lparr>tr_locals := Some (\<lambda>i. 0)\<rparr> | Some v \<Rightarrow> r)"

definition TaskLocalSet :: "u16 \<Rightarrow> nat \<Rightarrow> TaskRecord option \<Rightarrow> TaskRecord option" where
  "TaskLocalSet slot p cur =
    (if of_nat kLocalSlots \<le> slot then cur
     else case cur of None \<Rightarrow> None | Some r \<Rightarrow> (let r1 = CurrentLocals r in Some (r1\<lparr>tr_locals := Some ((the (tr_locals r1))(unat slot := p))\<rparr>)))"

definition SetTaskLocalDeleter :: "nat \<Rightarrow> nat \<Rightarrow> slot_table \<Rightarrow> slot_table" where
  "SetTaskLocalDeleter slot fn g =
    (if kLocalSlots \<le> slot then g
     else g\<lparr>st_deleter := (st_deleter g)(slot := fn), st_mask := if fn \<noteq> 0 then st_mask g OR push_bit slot 1 else st_mask g AND NOT (push_bit slot 1)\<rparr>)"

text \<open>The loop over the slots of a dying task: the calls of deleters it makes, and the slots it leaves.\<close>

fun slots_loop :: "slot_table \<Rightarrow> nat list \<Rightarrow> (nat \<Rightarrow> nat) \<Rightarrow> (nat \<times> nat) list \<times> (nat \<Rightarrow> nat)" where
  "slots_loop g [] slots = ([], slots)"
| "slots_loop g (i # is') slots =
    (if st_mask g AND push_bit i 1 = 0 \<or> slots i = 0 \<or> st_deleter g i = 0 then slots_loop g is' slots
     else let (calls, s') = slots_loop g is' (slots(i := 0)) in ((st_deleter g i, slots i) # calls, s'))"

definition ReleaseFiberSlots :: "slot_table \<Rightarrow> nat \<Rightarrow> (nat \<Rightarrow> nat) option \<Rightarrow> (nat \<times> nat) list \<times> (nat \<Rightarrow> nat) option" where
  "ReleaseFiberSlots g n slots =
    (if st_mask g = 0 then ([], slots)
     else case slots of None \<Rightarrow> ([], None) | Some v \<Rightarrow> (let (calls, v') = slots_loop g [0..<min n kLocalSlots] v in (calls, Some v')))"

section \<open>What the slots promise\<close>

lemma slot_less: "\<not> of_nat kLocalSlots \<le> (s :: u16) \<longleftrightarrow> unat s < 8"
  by (simp add: kLocalSlots_def not_le word_less_nat_alt)

text \<open>The \<open>n\<close>-th call gives slot \<open>n\<close> while there are slots, and none after them, until the 16-bit counter comes round.\<close>

lemma AllocTaskLocalSlot_nth:
  assumes "st_next g = of_nat n"
  shows "fst (AllocTaskLocalSlot g) = (if n mod 65536 < 8 then of_nat (n mod 65536) else kNoTaskLocalSlot)"
    and "st_next (snd (AllocTaskLocalSlot g)) = of_nat (Suc n)"
proof -
  have u: "unat (of_nat n :: u16) = n mod 65536" by (simp add: unsigned_of_nat take_bit_eq_mod)
  then have "(of_nat (n mod 65536) :: u16) = of_nat n" using of_nat_unat_word [of "of_nat n :: u16"] by simp
  then show "fst (AllocTaskLocalSlot g) = (if n mod 65536 < 8 then of_nat (n mod 65536) else kNoTaskLocalSlot)"
    using slot_less [of "of_nat n"] by (cases "n mod 65536 < 8") (simp_all add: AllocTaskLocalSlot_def Let_def assms u)
  show "st_next (snd (AllocTaskLocalSlot g)) = of_nat (Suc n)" by (simp add: AllocTaskLocalSlot_def Let_def assms)
qed

text \<open>After 65536 calls a slot that is in use is handed out again.\<close>

lemma slot_counter_comes_round: "fst (AllocTaskLocalSlot (slot_table_init\<lparr>st_next := of_nat 65536\<rparr>)) = 0 \<and> fst (AllocTaskLocalSlot slot_table_init) = 0"
  by (simp add: AllocTaskLocalSlot_def slot_table_init_def kLocalSlots_def)

text \<open>The mask says which slots have a deleter.\<close>

definition slots_ok :: "slot_table \<Rightarrow> bool" where
  [inv_defs]: "slots_ok g \<longleftrightarrow> (\<forall>i < 32. bit (st_mask g) i \<longleftrightarrow> i < 8 \<and> st_deleter g i \<noteq> 0)"

lemma slots_ok_init: "slots_ok slot_table_init"
  by (simp add: slots_ok_def slot_table_init_def)

lemma SetTaskLocalDeleter_ok: "slots_ok g \<Longrightarrow> slots_ok (SetTaskLocalDeleter slot fn g)"
  by (auto simp: slots_ok_def SetTaskLocalDeleter_def kLocalSlots_def bit_simps)

lemma mask_bit: "st_mask g AND push_bit i 1 = 0 \<longleftrightarrow> \<not> bit (st_mask g) i" if "i < 32"
proof -
  have "st_mask g AND push_bit i 1 = (if bit (st_mask g) i then push_bit i 1 else 0)"
    using that by (intro bit_word_eqI) (auto simp: bit_simps)
  moreover have "push_bit i (1::u32) \<noteq> 0" using that by simp
  ultimately show ?thesis by simp
qed

lemma slots_loop_calls:
  assumes "slots_ok g" "distinct is'" "\<forall>i \<in> set is'. i < 8"
  shows "slots_loop g is' v = (map (\<lambda>i. (st_deleter g i, v i)) (filter (\<lambda>i. st_deleter g i \<noteq> 0 \<and> v i \<noteq> 0) is'),
    \<lambda>i. if i \<in> set is' \<and> st_deleter g i \<noteq> 0 then 0 else v i)"
  using assms(2,3)
proof (induction is' arbitrary: v)
  case (Cons i is')
  have m: "st_mask g AND push_bit i 1 = 0 \<longleftrightarrow> st_deleter g i = 0" using mask_bit [of i g] Cons(3) assms(1) by (simp add: slots_ok_def)
  have "filter (\<lambda>j. st_deleter g j \<noteq> 0 \<and> (v(i := 0)) j \<noteq> 0) is' = filter (\<lambda>j. st_deleter g j \<noteq> 0 \<and> v j \<noteq> 0) is'"
    "map (\<lambda>j. (st_deleter g j, (v(i := 0)) j)) (filter P is') = map (\<lambda>j. (st_deleter g j, v j)) (filter P is')" for P
    using Cons(2) by (auto intro!: filter_cong)
  then show ?case using Cons m by (auto simp: fun_eq_iff)
qed (simp add: fun_eq_iff)

text \<open>(C31) When a task dies, the deleter of every slot that has one is called once, on the value the task left there, and no other; and a value written
  to a slot is read back, with the other slots unchanged, wherever the task runs.\<close>

theorem task_locals_are_kept_and_deleted:
  assumes "slots_ok g" "\<not> of_nat kLocalSlots \<le> slot"
  shows "TaskLocalGet slot (TaskLocalSet slot p (Some r)) = p \<and>
    (\<forall>other. other \<noteq> slot \<longrightarrow> TaskLocalGet other (TaskLocalSet slot p (Some r)) = TaskLocalGet other (Some r)) \<and>
    fst (ReleaseFiberSlots g kLocalSlots (tr_locals r)) =
      (case tr_locals r of None \<Rightarrow> [] | Some v \<Rightarrow> map (\<lambda>i. (st_deleter g i, v i)) (filter (\<lambda>i. st_deleter g i \<noteq> 0 \<and> v i \<noteq> 0) [0..<8]))"
proof (intro conjI allI impI)
  show "TaskLocalGet slot (TaskLocalSet slot p (Some r)) = p" using assms(2) by (simp add: TaskLocalGet_def TaskLocalSet_def Let_def)
  show "TaskLocalGet other (TaskLocalSet slot p (Some r)) = TaskLocalGet other (Some r)" if "other \<noteq> slot" for other
  proof -
    have "unat other \<noteq> unat slot" using that by (simp add: word_unat_eq_iff)
    then show ?thesis by (simp add: TaskLocalGet_def TaskLocalSet_def Let_def CurrentLocals_def split: option.splits)
  qed
  show "fst (ReleaseFiberSlots g kLocalSlots (tr_locals r)) =
      (case tr_locals r of None \<Rightarrow> [] | Some v \<Rightarrow> map (\<lambda>i. (st_deleter g i, v i)) (filter (\<lambda>i. st_deleter g i \<noteq> 0 \<and> v i \<noteq> 0) [0..<8]))"
  proof (cases "tr_locals r")
    case (Some v)
    have "st_deleter g i = 0" if "st_mask g = 0" "i < 8" for i using assms(1) that by (auto simp: slots_ok_def)
    then have "filter (\<lambda>i. st_deleter g i \<noteq> 0 \<and> v i \<noteq> 0) [0..<8] = []" if "st_mask g = 0" using that by (auto simp: filter_empty_conv)
    then show ?thesis using slots_loop_calls [OF assms(1), of "[0..<8]" v] by (simp add: ReleaseFiberSlots_def Some kLocalSlots_def)
  qed (simp add: ReleaseFiberSlots_def)
qed

definition one_deleter :: slot_table where "one_deleter = SetTaskLocalDeleter 3 77 slot_table_init"

theorem task_locals_are_kept_and_deleted_witness:
  "TaskLocalGet 3 (TaskLocalSet 3 5 (Some new_TaskRecord)) = 5 \<and> st_deleter one_deleter 3 = 77 \<and> fst (ReleaseFiberSlots one_deleter kLocalSlots (Some (\<lambda>i. i + 1))) = [(77, 4)]"
proof -
  have "slots_ok one_deleter" unfolding one_deleter_def by (rule SetTaskLocalDeleter_ok [OF slots_ok_init])
  moreover have "\<not> of_nat kLocalSlots \<le> (3::u16)" by (simp add: kLocalSlots_def)
  moreover have "tr_locals (new_TaskRecord\<lparr>tr_locals := Some (\<lambda>i. i + 1)\<rparr>) = Some (\<lambda>i. i + 1)" by simp
  ultimately have "fst (ReleaseFiberSlots one_deleter kLocalSlots (Some (\<lambda>i. i + 1))) = map (\<lambda>i. (st_deleter one_deleter i, i + 1)) (filter (\<lambda>i. st_deleter one_deleter i \<noteq> 0 \<and> i + 1 \<noteq> 0) [0..<8])"
    "TaskLocalGet 3 (TaskLocalSet 3 5 (Some new_TaskRecord)) = 5"
    using task_locals_are_kept_and_deleted [of one_deleter 3 5 "new_TaskRecord\<lparr>tr_locals := Some (\<lambda>i. i + 1)\<rparr>"] task_locals_are_kept_and_deleted [of one_deleter 3 5 new_TaskRecord] by simp_all
  then show ?thesis by (simp add: one_deleter_def SetTaskLocalDeleter_def slot_table_init_def kLocalSlots_def upt_rec)
qed

section \<open>Debts\<close>

text \<open>One release task at a time: who holds the flag \<open>g_reclaimQueued\<close>, and how far he is.\<close>

datatype drain = NoTask | Creating | InPool | Releasing "nat list"

text \<open>\<open>ds_recs\<close>: the debts of the task records; \<open>ds_entering\<close>: the threads about to try the flag in \<open>QueueDebtRelease\<close>; \<open>ds_checking\<close>: the release
  tasks that have cleared the flag and not yet looked at the stack again.\<close>

record debt_sys =
  ds_recs :: "nat list list"
  ds_obj :: "nat \<Rightarrow> nat"
  ds_release :: "nat \<Rightarrow> nat"
  ds_pending :: "nat list"
  ds_queued :: bool
  ds_drain :: drain
  ds_entering :: nat
  ds_checking :: nat
  ds_refused :: bool
  ds_given :: "nat multiset"
  ds_calls :: "nat list"

definition debt_init :: "nat \<Rightarrow> debt_sys" where
  "debt_init n = \<lparr>ds_recs = replicate n [], ds_obj = (\<lambda>d. 0), ds_release = (\<lambda>d. 0), ds_pending = [], ds_queued = False, ds_drain = NoTask,
     ds_entering = 0, ds_checking = 0, ds_refused = False, ds_given = {#}, ds_calls = []\<rparr>"

definition drain_list :: "drain \<Rightarrow> nat list" where
  "drain_list k = (case k of Releasing ds \<Rightarrow> ds | _ \<Rightarrow> [])"

definition owed :: "debt_sys \<Rightarrow> nat multiset" where
  "owed s = mset (concat (ds_recs s)) + mset (ds_pending s) + mset (drain_list (ds_drain s))"

text \<open>\<open>ReleaseOnTaskDeath\<close>, called by the task of record \<open>r\<close>.\<close>

definition ReleaseOnTaskDeath :: "nat option \<Rightarrow> nat \<Rightarrow> nat \<Rightarrow> nat \<Rightarrow> debt_sys \<Rightarrow> bool \<times> debt_sys" where
  "ReleaseOnTaskDeath cur node obj release s =
    (if obj = 0 \<or> release = 0 then (False, s)
     else case cur of None \<Rightarrow> (False, s)
     | Some r \<Rightarrow> (True, s\<lparr>ds_obj := (ds_obj s)(node := obj), ds_release := (ds_release s)(node := release), ds_recs := (ds_recs s)[r := node # ds_recs s ! r],
                       ds_given := add_mset node (ds_given s)\<rparr>))"

text \<open>\<open>HandOffTaskDebts\<close> up to its call of \<open>QueueDebtRelease\<close>, which the thread then enters.\<close>

definition HandOffTaskDebts :: "nat list \<Rightarrow> debt_sys \<Rightarrow> debt_sys" where
  "HandOffTaskDebts ds s = (if ds = [] then s else s\<lparr>ds_pending := ds @ ds_pending s, ds_entering := ds_entering s + 1\<rparr>)"

definition ReleaseRecord :: "nat \<Rightarrow> debt_sys \<Rightarrow> debt_sys" where
  "ReleaseRecord r s = HandOffTaskDebts (ds_recs s ! r) (s\<lparr>ds_recs := (ds_recs s)[r := []]\<rparr>)"

definition QueueDebtRelease_flag :: "debt_sys \<Rightarrow> debt_sys" where
  "QueueDebtRelease_flag s = (if ds_queued s then s\<lparr>ds_entering := ds_entering s - 1\<rparr> else s\<lparr>ds_entering := ds_entering s - 1, ds_queued := True, ds_drain := Creating\<rparr>)"

text \<open>The scheduler may be gone, the task may not be created, or \<open>Push\<close> may refuse it.\<close>

definition QueueDebtRelease_push :: "bool \<Rightarrow> debt_sys \<Rightarrow> debt_sys" where
  "QueueDebtRelease_push ok s = (if ok then s\<lparr>ds_drain := InPool, ds_refused := False\<rparr> else s\<lparr>ds_queued := False, ds_drain := NoTask, ds_refused := True\<rparr>)"

definition ReleasePendingDebts_take :: "debt_sys \<Rightarrow> debt_sys" where
  "ReleasePendingDebts_take s = s\<lparr>ds_drain := Releasing (ds_pending s), ds_pending := []\<rparr>"

definition ReleasePendingDebts_one :: "nat \<Rightarrow> nat list \<Rightarrow> debt_sys \<Rightarrow> debt_sys" where
  "ReleasePendingDebts_one d ds s =
    s\<lparr>ds_drain := Releasing ds, ds_calls := if ds_release s d \<noteq> 0 \<and> ds_obj s d \<noteq> 0 then ds_calls s @ [d] else ds_calls s\<rparr>"

definition release_task_clear :: "debt_sys \<Rightarrow> debt_sys" where
  "release_task_clear s = s\<lparr>ds_queued := False, ds_drain := NoTask, ds_checking := ds_checking s + 1\<rparr>"

definition release_task_check :: "debt_sys \<Rightarrow> debt_sys" where
  "release_task_check s = (let s1 = s\<lparr>ds_checking := ds_checking s - 1\<rparr> in if ds_pending s \<noteq> [] then s1\<lparr>ds_entering := ds_entering s + 1\<rparr> else s1)"

text \<open>A node's storage is its caller's, who does not register it again before it was released.\<close>

inductive debt_step :: "debt_sys \<Rightarrow> debt_sys \<Rightarrow> bool" where
  debt_register: "r < length (ds_recs s) \<Longrightarrow> node \<notin># owed s \<Longrightarrow> debt_step s (snd (ReleaseOnTaskDeath (Some r) node obj release s))"
| debt_death: "r < length (ds_recs s) \<Longrightarrow> debt_step s (ReleaseRecord r s)"
| debt_flag: "0 < ds_entering s \<Longrightarrow> debt_step s (QueueDebtRelease_flag s)"
| debt_push: "ds_drain s = Creating \<Longrightarrow> debt_step s (QueueDebtRelease_push ok s)"
| debt_take: "ds_drain s = InPool \<Longrightarrow> debt_step s (ReleasePendingDebts_take s)"
| debt_release: "ds_drain s = Releasing (d # ds) \<Longrightarrow> debt_step s (ReleasePendingDebts_one d ds s)"
| debt_clear: "ds_drain s = Releasing [] \<Longrightarrow> debt_step s (release_task_clear s)"
| debt_check: "0 < ds_checking s \<Longrightarrow> debt_step s (release_task_check s)"

definition debt_inv :: "debt_sys \<Rightarrow> bool" where
  [inv_defs]: "debt_inv s \<longleftrightarrow> (ds_queued s \<longleftrightarrow> ds_drain s \<noteq> NoTask) \<and> ds_given s = owed s + mset (ds_calls s) \<and>
    (\<forall>d \<in># owed s. ds_obj s d \<noteq> 0 \<and> ds_release s d \<noteq> 0) \<and> (\<forall>d. count (owed s) d \<le> 1) \<and>
    (ds_pending s \<noteq> [] \<longrightarrow> 0 < ds_entering s \<or> 0 < ds_checking s \<or> ds_queued s \<or> ds_refused s)"

lemma concat_update: "r < length xss \<Longrightarrow> mset (concat (xss[r := ys])) + mset (xss ! r) = mset (concat xss) + mset ys"
  by (induction xss arbitrary: r) (auto split: nat.splits simp: ac_simps nth_Cons)

lemma owed_register: "r < length (ds_recs s) \<Longrightarrow> obj \<noteq> 0 \<Longrightarrow> release \<noteq> 0 \<Longrightarrow> owed (snd (ReleaseOnTaskDeath (Some r) node obj release s)) = add_mset node (owed s)"
  using concat_update [of r "ds_recs s" "node # ds_recs s ! r"] by (simp add: owed_def ReleaseOnTaskDeath_def)

lemma owed_death: "r < length (ds_recs s) \<Longrightarrow> owed (ReleaseRecord r s) = owed s"
  using concat_update [of r "ds_recs s" "[]"] by (auto simp: owed_def ReleaseRecord_def HandOffTaskDebts_def list_update_id ac_simps)

lemma debt_step_inv: "debt_inv s \<Longrightarrow> debt_step s s' \<Longrightarrow> debt_inv s'"
proof (rotate_tac, induction rule: debt_step.induct)
  case (debt_register r s node obj release)
  show ?case
  proof (cases "obj = 0 \<or> release = 0")
    case True
    then show ?thesis using debt_register(3) by (auto simp: ReleaseOnTaskDeath_def)
  next
    case False
    then have o: "owed (snd (ReleaseOnTaskDeath (Some r) node obj release s)) = add_mset node (owed s)" using owed_register debt_register(1) by simp
    have "count (owed s) node = 0" using debt_register(2) by (simp add: not_in_iff)
    then show ?thesis using debt_register(3) False unfolding debt_inv_def o by (auto simp: ReleaseOnTaskDeath_def)
  qed
next
  case (debt_death r s)
  then show ?case unfolding debt_inv_def owed_death [OF debt_death(1)] by (auto simp: ReleaseRecord_def HandOffTaskDebts_def)
next
  case (debt_flag s)
  then show ?case by (auto simp: debt_inv_def owed_def QueueDebtRelease_flag_def drain_list_def)
next
  case (debt_push s ok)
  then show ?case by (auto simp: debt_inv_def owed_def QueueDebtRelease_push_def drain_list_def)
next
  case (debt_take s)
  then show ?case by (auto simp: debt_inv_def owed_def ReleasePendingDebts_take_def drain_list_def)
next
  case (debt_release s d ds)
  have o: "owed s = add_mset d (owed (ReleasePendingDebts_one d ds s))" using debt_release(1) by (simp add: owed_def ReleasePendingDebts_one_def drain_list_def)
  let ?s = "ReleasePendingDebts_one d ds s"
  have i: "ds_queued s" "ds_given s = owed s + mset (ds_calls s)" "\<forall>e \<in># owed s. ds_obj s e \<noteq> 0 \<and> ds_release s e \<noteq> 0" "\<forall>e. count (owed s) e \<le> 1"
    using debt_release by (auto simp: debt_inv_def)
  have "d \<in># owed s" by (simp only: o) simp
  then have f: "ds_calls ?s = ds_calls s @ [d]" "ds_queued ?s" "ds_drain ?s = Releasing ds" "ds_given ?s = ds_given s" "ds_obj ?s = ds_obj s" "ds_release ?s = ds_release s"
    using i(1,3) by (simp_all add: ReleasePendingDebts_one_def)
  have "count (owed ?s) e \<le> 1" for e
  proof -
    have "count (owed ?s) e \<le> count (add_mset d (owed ?s)) e" by simp
    then show ?thesis using i(4) unfolding o [symmetric] by (meson le_trans)
  qed
  moreover have "ds_given ?s = owed ?s + mset (ds_calls ?s)" using i(2) unfolding f o by simp
  moreover have "\<forall>e \<in># owed ?s. ds_obj s e \<noteq> 0 \<and> ds_release s e \<noteq> 0" using i(3) unfolding o by simp
  ultimately show ?case unfolding debt_inv_def f(5,6) using f(2,3) by simp
next
  case (debt_clear s)
  then show ?case by (auto simp: debt_inv_def owed_def release_task_clear_def drain_list_def)
next
  case (debt_check s)
  then show ?case by (auto simp: debt_inv_def owed_def release_task_check_def Let_def)
qed

interpretation debts: transition_system debt_step debt_inv
  by unfold_locales (rule debt_step_inv)

lemma debt_init_inv: "debt_inv (debt_init n)"
  by (auto simp: debt_inv_def debt_init_def owed_def drain_list_def)

text \<open>(C29) Whatever tasks register, die and release at the same time: every debt is released exactly as often as it was registered, or is still owed;
  and debts that dead tasks left are never forgotten: while there are any, a thread is on its way to queue the release task, or the release task is
  queued or runs, unless the scheduler refused the task.\<close>

theorem debts_are_released_once:
  assumes "reach debt_step (debt_init n) s"
  shows "ds_given s = owed s + mset (ds_calls s) \<and> (\<forall>d. count (owed s) d \<le> 1) \<and>
    (ds_pending s \<noteq> [] \<and> ds_entering s = 0 \<and> ds_checking s = 0 \<and> \<not> ds_refused s \<longrightarrow> ds_drain s \<noteq> NoTask)"
proof -
  have "debt_inv s" using debts.reach_inv [OF assms debt_init_inv] .
  then show ?thesis by (auto simp: debt_inv_def)
qed

text \<open>One task registers node 4 and dies; the release task is queued.\<close>

definition debt_s1 :: debt_sys where "debt_s1 = snd (ReleaseOnTaskDeath (Some 0) 4 9 8 (debt_init 1))"
definition debt_s2 :: debt_sys where "debt_s2 = ReleaseRecord 0 debt_s1"
definition debt_s3 :: debt_sys where "debt_s3 = QueueDebtRelease_flag debt_s2"
definition debt_s4 :: debt_sys where "debt_s4 = QueueDebtRelease_push True debt_s3"

lemmas debt_demo = debt_s1_def debt_s2_def debt_s3_def debt_s4_def ReleaseOnTaskDeath_def debt_init_def ReleaseRecord_def HandOffTaskDebts_def QueueDebtRelease_flag_def QueueDebtRelease_push_def

theorem debts_are_released_once_witness: "ds_pending debt_s4 = [4] \<and> ds_drain debt_s4 \<noteq> NoTask \<and> ds_given debt_s4 = owed debt_s4 + mset (ds_calls debt_s4)"
proof -
  have 1: "debt_step (debt_init 1) debt_s1" unfolding debt_s1_def by (rule debt_register) (simp_all add: debt_init_def owed_def drain_list_def)
  have 2: "debt_step debt_s1 debt_s2" unfolding debt_s2_def by (rule debt_death) (simp add: debt_demo)
  have 3: "debt_step debt_s2 debt_s3" unfolding debt_s3_def by (rule debt_flag) (simp add: debt_demo)
  have 4: "debt_step debt_s3 debt_s4" unfolding debt_s4_def by (rule debt_push) (simp add: debt_demo)
  have "reach debt_step (debt_init 1) debt_s4" by (rule reach_step [OF reach_step [OF reach_step [OF reach_one [of debt_step, OF 1] 2] 3] 4])
  from debts_are_released_once [OF this] show ?thesis by (simp add: debt_demo)
qed

end
