(* ===== verification/IoRings.thy ===== *)
theory IoRings
  imports JPrelude
begin

text \<open>
  The two rings shared with the kernel (\<^verbatim>\<open>src/posix/IoUring.cpp\<close>): free-running 32-bit heads and tails over arrays whose size is a power of two. The
  kernel's side of the contract is an argument or a step: it takes submissions from the head in order, at most as many as \<open>io_uring_enter\<close> is told, and appends completions at the
  tail while there is room. An entry is a number.
\<close>

datatype InitResult = InitOk | InitUnsupported | InitDenied | InitFailed

definition uring_Classify :: "int \<Rightarrow> InitResult" where
  "uring_Classify err = (if err = 38 then InitUnsupported else if err = 1 \<or> err = 13 then InitDenied else InitFailed)"

record uring_Ring =
  rg_sqHead :: u32
  rg_sqTail :: u32
  rg_entries :: u32
  rg_sqes :: "nat \<Rightarrow> nat"
  rg_cqHead :: u32
  rg_cqTail :: u32
  rg_cqEntries :: u32
  rg_cqes :: "nat \<Rightarrow> nat"

definition uring_slot :: "u32 \<Rightarrow> u32 \<Rightarrow> nat" where
  "uring_slot sz i = unat (i AND (sz - 1))"

text \<open>\<open>None\<close>: the submission ring is full.\<close>

definition GetSqe :: "uring_Ring \<Rightarrow> nat option" where
  "GetSqe r = (if rg_entries r \<le> rg_sqTail r - rg_sqHead r then None else Some (uring_slot (rg_entries r) (rg_sqTail r)))"

text \<open>The kernel takes up to \<open>k\<close> submissions.\<close>

fun kernel_take :: "nat \<Rightarrow> uring_Ring \<Rightarrow> nat list \<times> uring_Ring" where
  "kernel_take 0 r = ([], r)"
| "kernel_take (Suc k) r =
    (if rg_sqHead r = rg_sqTail r then ([], r)
     else let (xs, r1) = kernel_take k (r\<lparr>rg_sqHead := rg_sqHead r + 1\<rparr>) in (rg_sqes r (uring_slot (rg_entries r) (rg_sqHead r)) # xs, r1))"

text \<open>\<open>Submit\<close>: the tail moves, then the kernel is told to take one entry, and may refuse (\<open>ok = False\<close>).\<close>

definition uring_Submit :: "bool \<Rightarrow> uring_Ring \<Rightarrow> nat list \<times> uring_Ring" where
  "uring_Submit ok r = (let r1 = r\<lparr>rg_sqTail := rg_sqTail r + 1\<rparr> in if ok then kernel_take 1 r1 else ([], r1))"

text \<open>Filling the entry \<open>GetSqe\<close> gave, then \<open>Submit\<close>, under the submission lock; \<open>PostWake\<close> is the same with its marker.\<close>

definition uring_submit_entry :: "bool \<Rightarrow> nat \<Rightarrow> uring_Ring \<Rightarrow> (nat list \<times> uring_Ring) option" where
  "uring_submit_entry ok x r = (case GetSqe r of None \<Rightarrow> None | Some i \<Rightarrow> Some (uring_Submit ok (r\<lparr>rg_sqes := (rg_sqes r)(i := x)\<rparr>)))"

fun reap_loop :: "uring_Ring \<Rightarrow> nat list \<Rightarrow> nat list" where
  "reap_loop r [] = []"
| "reap_loop r (i # is') = rg_cqes r (uring_slot (rg_cqEntries r) (rg_cqHead r + of_nat i)) # reap_loop r is'"

definition Reap :: "u32 \<Rightarrow> uring_Ring \<Rightarrow> nat list \<times> uring_Ring" where
  "Reap mx r =
    (let n0 = rg_cqTail r - rg_cqHead r; n = (if mx < n0 then mx else n0); out = reap_loop r [0..<unat n] in
     (out, if n \<noteq> 0 then r\<lparr>rg_cqHead := rg_cqHead r + n\<rparr> else r))"

text \<open>The kernel appends a completion.\<close>

definition kernel_post :: "nat \<Rightarrow> uring_Ring \<Rightarrow> uring_Ring option" where
  "kernel_post x r = (if rg_cqEntries r \<le> rg_cqTail r - rg_cqHead r then None
     else Some (r\<lparr>rg_cqes := (rg_cqes r)(uring_slot (rg_cqEntries r) (rg_cqTail r) := x), rg_cqTail := rg_cqTail r + 1\<rparr>))"

section \<open>A ring holds a queue\<close>

definition size_pow2 :: "u32 \<Rightarrow> bool" where "size_pow2 sz \<longleftrightarrow> (\<exists>j < 32. sz = 2 ^ j)"

definition ring_holds :: "u32 \<Rightarrow> (nat \<Rightarrow> nat) \<Rightarrow> u32 \<Rightarrow> u32 \<Rightarrow> nat list \<Rightarrow> bool" where
  [inv_defs]: "ring_holds sz arr h t xs \<longleftrightarrow> unat (t - h) = length xs \<and> length xs \<le> unat sz \<and> (\<forall>k < length xs. arr (uring_slot sz (h + of_nat k)) = xs ! k)"

lemma unat_pow2: "j < 32 \<Longrightarrow> unat ((2 :: u32) ^ j) = 2 ^ j"
proof -
  assume "j < 32"
  then have "(2::nat) ^ j < 2 ^ 32" by (intro power_strict_increasing) simp_all
  then show ?thesis using unat_of_nat32 [of "2 ^ j"] by simp
qed

lemma slot_nat:
  assumes "size_pow2 sz"
  shows "uring_slot sz (h + of_nat k) = (unat h + k) mod unat sz"
proof -
  obtain j where j: "j < 32" "sz = 2 ^ j" using assms by (auto simp: size_pow2_def)
  have u: "unat sz = 2 ^ j" using j by (simp add: unat_pow2)
  have w: "h + of_nat k = (of_nat (unat h + k) :: u32)" by simp
  have "(h + of_nat k :: u32) AND (sz - 1) = take_bit j (of_nat (unat h + k))" unfolding w j(2) by (simp only: take_bit_eq_mask mask_eq_exp_minus_1)
  then have "uring_slot sz (h + of_nat k) = unat (take_bit j (of_nat (unat h + k) :: u32))" by (simp only: uring_slot_def)
  also have "\<dots> = take_bit j (take_bit 32 (unat h + k))" by (simp only: unsigned_take_bit_eq unsigned_of_nat) simp
  also have "\<dots> = take_bit j (unat h + k)" using j(1) by (simp only: take_bit_take_bit min_def) simp
  also have "\<dots> = (unat h + k) mod 2 ^ j" by (simp add: take_bit_eq_mod)
  finally show ?thesis by (simp add: u)
qed

lemma slot_apart: "size_pow2 sz \<Longrightarrow> k < n \<Longrightarrow> n - k < unat sz \<Longrightarrow> uring_slot sz (h + of_nat k) \<noteq> uring_slot sz (h + of_nat n)"
  unfolding slot_nat by (rule mod_neq_of_close) auto

lemma tail_of_head: "unat (t - h) = n \<Longrightarrow> t = h + of_nat n" for t h :: u32
  by (metis add.commute diff_add_cancel of_nat_unat_word)

lemma pow2_less: "size_pow2 sz \<Longrightarrow> unat sz < 2 ^ 32"
  unfolding size_pow2_def by (metis unat_pow2 numeral_1_eq_Suc_0 numeral_One one_less_numeral_iff power_strict_increasing_iff semiring_norm(76))

lemma ring_push:
  assumes "size_pow2 sz" "ring_holds sz arr h t xs" "length xs < unat sz"
  shows "ring_holds sz (arr(uring_slot sz t := x)) h (t + 1) (xs @ [x])"
proof -
  have t: "t = h + of_nat (length xs)" using assms(2) by (auto simp: ring_holds_def dest: tail_of_head)
  have "Suc (length xs) < 2 ^ 32" using assms(3) pow2_less [OF assms(1)] by linarith
  moreover have "t + 1 - h = of_nat (Suc (length xs))" by (simp add: t)
  ultimately have "unat (t + 1 - h) = Suc (length xs)" using unat_of_nat32 by (simp only:)
  moreover have "(arr(uring_slot sz t := x)) (uring_slot sz (h + of_nat k)) = (xs @ [x]) ! k" if "k < Suc (length xs)" for k
  proof (cases "k = length xs")
    case True
    then show ?thesis by (simp add: t)
  next
    case False
    then have "k < length xs" using that by simp
    moreover have "uring_slot sz (h + of_nat k) \<noteq> uring_slot sz t" unfolding t using slot_apart [OF assms(1), of k "length xs" h] calculation assms(3) by simp
    ultimately show ?thesis using assms(2) by (simp add: ring_holds_def nth_append)
  qed
  ultimately show ?thesis using assms(3) by (simp add: ring_holds_def)
qed

lemma ring_pop:
  assumes "ring_holds sz arr h t (x # xs)"
  shows "arr (uring_slot sz h) = x" "ring_holds sz arr (h + 1) t xs" "h \<noteq> t"
proof -
  have n: "unat (t - h) = Suc (length xs)" "\<forall>k < Suc (length xs). arr (uring_slot sz (h + of_nat k)) = (x # xs) ! k" "Suc (length xs) \<le> unat sz" using assms by (auto simp: ring_holds_def)
  show "arr (uring_slot sz h) = x" using n(2) [rule_format, of 0] by simp
  show "h \<noteq> t" using n(1) by auto
  have "unat (t - (h + 1)) = length xs"
  proof -
    have 1: "t - (h + 1) = (t - h) - 1" by simp
    have "t - h \<noteq> 0" using n(1) by auto
    then have "unat ((t - h) - 1) = unat (t - h) - 1" by (rule unat_minus_one)
    then show ?thesis using n(1) by (simp only: 1)
  qed
  moreover have "arr (uring_slot sz (h + 1 + of_nat k)) = xs ! k" if "k < length xs" for k
    using n(2) [rule_format, of "Suc k"] that by (simp add: add.assoc)
  ultimately show "ring_holds sz arr (h + 1) t xs" using n(3) by (simp add: ring_holds_def)
qed

lemma ring_empty_iff: "ring_holds sz arr h t xs \<Longrightarrow> h = t \<longleftrightarrow> xs = []"
  by (auto simp: ring_holds_def unat_eq_0)

lemma ring_drop: "ring_holds sz arr h t xs \<Longrightarrow> n \<le> length xs \<Longrightarrow> ring_holds sz arr (h + of_nat n) t (drop n xs)"
proof (induction n arbitrary: h xs)
  case (Suc n)
  then obtain x ys where "xs = x # ys" by (cases xs) auto
  then show ?case using Suc(1) [OF ring_pop(2) [of sz arr h t x ys]] Suc(2,3) by (simp add: add.commute add.left_commute)
qed simp

lemma ring_full_iff: "ring_holds sz arr h t xs \<Longrightarrow> sz \<le> t - h \<longleftrightarrow> length xs = unat sz"
  by (auto simp: ring_holds_def word_le_nat_alt)

section \<open>Submissions and completions\<close>

lemma kernel_take_spec:
  "kernel_take k r = (xs, r') \<Longrightarrow> ring_holds (rg_entries r) (rg_sqes r) (rg_sqHead r) (rg_sqTail r) ps \<Longrightarrow>
   xs = take k ps \<and> r' = r\<lparr>rg_sqHead := rg_sqHead r'\<rparr> \<and> ring_holds (rg_entries r) (rg_sqes r) (rg_sqHead r') (rg_sqTail r) (drop k ps)"
proof (induction k arbitrary: r r' xs ps)
  case (Suc k)
  show ?case
  proof (cases ps)
    case Nil
    then show ?thesis using Suc(2,3) ring_empty_iff [OF Suc(3)] by simp
  next
    case (Cons x qs)
    let ?r = "r\<lparr>rg_sqHead := rg_sqHead r + 1\<rparr>"
    note pop = ring_pop [OF Suc(3) [unfolded Cons]]
    obtain ys r1 where k: "kernel_take k ?r = (ys, r1)" by fastforce
    have e: "xs = x # ys" "r' = r1" using Suc(2) pop(1,3) k by auto
    have "ys = take k qs \<and> r1 = ?r\<lparr>rg_sqHead := rg_sqHead r1\<rparr> \<and> ring_holds (rg_entries ?r) (rg_sqes ?r) (rg_sqHead r1) (rg_sqTail ?r) (drop k qs)"
      by (rule Suc(1) [OF k]) (use pop(2) in simp)
    then show ?thesis by (simp add: e Cons)
  qed
qed simp

lemma reap_loop_map: "reap_loop r is' = map (\<lambda>i. rg_cqes r (uring_slot (rg_cqEntries r) (rg_cqHead r + of_nat i))) is'"
  by (induction is') simp_all

lemma Reap_spec:
  assumes "ring_holds (rg_cqEntries r) (rg_cqes r) (rg_cqHead r) (rg_cqTail r) qs" "Reap mx r = (out, r')"
  shows "out = take (unat mx) qs \<and> r' = r\<lparr>rg_cqHead := rg_cqHead r'\<rparr> \<and> ring_holds (rg_cqEntries r) (rg_cqes r) (rg_cqHead r') (rg_cqTail r) (drop (unat mx) qs)"
proof -
  define n where "n = (if mx < rg_cqTail r - rg_cqHead r then mx else rg_cqTail r - rg_cqHead r)"
  have len: "unat (rg_cqTail r - rg_cqHead r) = length qs" using assms(1) by (simp add: ring_holds_def)
  then have n: "unat n = min (unat mx) (length qs)" by (auto simp: n_def word_less_nat_alt)
  have out: "out = reap_loop r [0..<unat n]" and r': "r' = (if n \<noteq> 0 then r\<lparr>rg_cqHead := rg_cqHead r + n\<rparr> else r)" using assms(2) by (auto simp: Reap_def n_def [symmetric] Let_def)
  have h: "rg_cqHead r' = rg_cqHead r + n" "r' = r\<lparr>rg_cqHead := rg_cqHead r'\<rparr>" by (auto simp: r')
  have "out = take (unat n) qs" using assms(1) n unfolding out reap_loop_map by (intro nth_equalityI) (auto simp: ring_holds_def)
  then have "out = take (unat mx) qs" by (simp add: n min_def)
  moreover have "ring_holds (rg_cqEntries r) (rg_cqes r) (rg_cqHead r') (rg_cqTail r) (drop (unat n) qs)" using ring_drop [OF assms(1), of "unat n"] n unfolding h(1) of_nat_unat_word by linarith
  then have "ring_holds (rg_cqEntries r) (rg_cqes r) (rg_cqHead r') (rg_cqTail r) (drop (unat mx) qs)" by (simp add: n min_def split: if_splits)
  ultimately show ?thesis using h(2) by blast
qed

record ring_sys =
  rs_ring :: uring_Ring
  rs_written :: "nat list"
  rs_taken :: "nat list"
  rs_posted :: "nat list"
  rs_reaped :: "nat list"

inductive ring_step :: "ring_sys \<Rightarrow> ring_sys \<Rightarrow> bool" where
  ring_submit: "uring_submit_entry ok x (rs_ring s) = Some (ts, r) \<Longrightarrow> ring_step s (s\<lparr>rs_ring := r, rs_written := rs_written s @ [x], rs_taken := rs_taken s @ ts\<rparr>)"
| ring_post: "kernel_post x (rs_ring s) = Some r \<Longrightarrow> ring_step s (s\<lparr>rs_ring := r, rs_posted := rs_posted s @ [x]\<rparr>)"
| ring_reap: "Reap mx (rs_ring s) = (out, r) \<Longrightarrow> ring_step s (s\<lparr>rs_ring := r, rs_reaped := rs_reaped s @ out\<rparr>)"

definition sq_holds :: "uring_Ring \<Rightarrow> nat list \<Rightarrow> bool" where
  "sq_holds r ps \<longleftrightarrow> size_pow2 (rg_entries r) \<and> ring_holds (rg_entries r) (rg_sqes r) (rg_sqHead r) (rg_sqTail r) ps"
definition cq_holds :: "uring_Ring \<Rightarrow> nat list \<Rightarrow> bool" where
  "cq_holds r qs \<longleftrightarrow> size_pow2 (rg_cqEntries r) \<and> ring_holds (rg_cqEntries r) (rg_cqes r) (rg_cqHead r) (rg_cqTail r) qs"

definition ring_inv :: "ring_sys \<Rightarrow> bool" where
  [inv_defs]: "ring_inv s \<longleftrightarrow> (\<exists>ps qs. sq_holds (rs_ring s) ps \<and> rs_written s = rs_taken s @ ps \<and> cq_holds (rs_ring s) qs \<and> rs_posted s = rs_reaped s @ qs)"

lemma GetSqe_None_iff: "sq_holds r ps \<Longrightarrow> GetSqe r = None \<longleftrightarrow> length ps = unat (rg_entries r)"
  using ring_full_iff by (auto simp: GetSqe_def sq_holds_def)

lemma submit_entry_spec:
  assumes "sq_holds r ps" "uring_submit_entry ok x r = Some (ts, r')"
  shows "\<exists>ps'. sq_holds r' ps' \<and> ps @ [x] = ts @ ps' \<and> (\<forall>qs. cq_holds r' qs = cq_holds r qs)"
proof -
  have "GetSqe r \<noteq> None" using assms(2) by (auto simp: uring_submit_entry_def split: option.splits)
  then have "length ps \<noteq> unat (rg_entries r)" using GetSqe_None_iff [OF assms(1)] by simp
  then have room: "length ps < unat (rg_entries r)" using assms(1) by (auto simp: sq_holds_def ring_holds_def)
  define r1 where "r1 = r\<lparr>rg_sqes := (rg_sqes r)(uring_slot (rg_entries r) (rg_sqTail r) := x), rg_sqTail := rg_sqTail r + 1\<rparr>"
  have h: "ring_holds (rg_entries r1) (rg_sqes r1) (rg_sqHead r1) (rg_sqTail r1) (ps @ [x])" using ring_push [OF _ _ room] assms(1) by (simp add: r1_def sq_holds_def)
  have e: "(ts, r') = (if ok then kernel_take 1 r1 else ([], r1))" using assms(2) by (auto simp: uring_submit_entry_def uring_Submit_def Let_def GetSqe_def r1_def split: if_splits)
  show ?thesis
  proof (cases ok)
    case True
    then have "kernel_take 1 r1 = (ts, r')" using e by simp
    from kernel_take_spec [OF this h] have k: "ts = take 1 (ps @ [x])" "r' = r1\<lparr>rg_sqHead := rg_sqHead r'\<rparr>" "ring_holds (rg_entries r1) (rg_sqes r1) (rg_sqHead r') (rg_sqTail r1) (drop 1 (ps @ [x]))" by blast+
    have f: "rg_entries r' = rg_entries r1" "rg_sqes r' = rg_sqes r1" "rg_sqTail r' = rg_sqTail r1" "rg_cqEntries r' = rg_cqEntries r" "rg_cqes r' = rg_cqes r" "rg_cqHead r' = rg_cqHead r" "rg_cqTail r' = rg_cqTail r"
      by (subst k(2), simp add: r1_def)+
    have "sq_holds r' (drop 1 (ps @ [x]))" using k(3) assms(1) unfolding sq_holds_def f by (simp add: r1_def)
    moreover have "ps @ [x] = ts @ drop 1 (ps @ [x])" unfolding k(1) by (rule append_take_drop_id [symmetric])
    ultimately show ?thesis using f by (intro exI conjI) (auto simp: cq_holds_def)
  next
    case False
    then have "ts = []" "r' = r1" using e by auto
    then show ?thesis using h assms(1) by (auto simp: sq_holds_def cq_holds_def r1_def)
  qed
qed

lemma ring_step_inv: "ring_inv s \<Longrightarrow> ring_step s s' \<Longrightarrow> ring_inv s'"
proof (rotate_tac, induction rule: ring_step.induct)
  case (ring_submit ok x s ts r)
  then obtain ps qs where i: "sq_holds (rs_ring s) ps" "rs_written s = rs_taken s @ ps" "cq_holds (rs_ring s) qs" "rs_posted s = rs_reaped s @ qs" by (auto simp: ring_inv_def)
  from submit_entry_spec [OF i(1) ring_submit(1)] obtain ps' where "sq_holds r ps'" "ps @ [x] = ts @ ps'" "cq_holds r qs" using i(3) by blast
  then show ?case using i by (auto simp: ring_inv_def)
next
  case (ring_post x s r)
  then obtain ps qs where i: "sq_holds (rs_ring s) ps" "rs_written s = rs_taken s @ ps" "cq_holds (rs_ring s) qs" "rs_posted s = rs_reaped s @ qs" by (auto simp: ring_inv_def)
  have "\<not> rg_cqEntries (rs_ring s) \<le> rg_cqTail (rs_ring s) - rg_cqHead (rs_ring s)" using ring_post(1) by (auto simp: kernel_post_def split: if_splits)
  then have "length qs \<noteq> unat (rg_cqEntries (rs_ring s))" using ring_full_iff [of "rg_cqEntries (rs_ring s)"] i(3) unfolding cq_holds_def by blast
  then have "length qs < unat (rg_cqEntries (rs_ring s))" using i(3) by (auto simp: cq_holds_def ring_holds_def)
  from ring_push [OF _ _ this] have "cq_holds r (qs @ [x])" using i(3) ring_post(1) by (auto simp: kernel_post_def cq_holds_def split: if_splits)
  moreover have "sq_holds r ps" using i(1) ring_post(1) by (auto simp: kernel_post_def sq_holds_def split: if_splits)
  ultimately show ?case using i by (auto simp: ring_inv_def)
next
  case (ring_reap mx s out r)
  then obtain ps qs where i: "sq_holds (rs_ring s) ps" "rs_written s = rs_taken s @ ps" "cq_holds (rs_ring s) qs" "rs_posted s = rs_reaped s @ qs" by (auto simp: ring_inv_def)
  note sp = Reap_spec [OF _ ring_reap(1), of qs]
  have r: "out = take (unat mx) qs" "r = (rs_ring s)\<lparr>rg_cqHead := rg_cqHead r\<rparr>" "ring_holds (rg_cqEntries (rs_ring s)) (rg_cqes (rs_ring s)) (rg_cqHead r) (rg_cqTail (rs_ring s)) (drop (unat mx) qs)"
    using sp i(3) by (auto simp: cq_holds_def)
  have "cq_holds r (drop (unat mx) qs)" "sq_holds r ps" using r(3) i(1,3) by (subst r(2), simp add: cq_holds_def sq_holds_def)+
  then show ?case using i r(1) by (auto simp: ring_inv_def intro!: exI [of _ ps] exI [of _ "drop (unat mx) qs"])
qed

interpretation rings: transition_system ring_step ring_inv
  by unfold_locales (rule ring_step_inv)

text \<open>The rings as they are set up, with any number of entries the kernel chose.\<close>

definition ring_start :: "nat \<Rightarrow> nat \<Rightarrow> ring_sys" where
  "ring_start j k = \<lparr>rs_ring = \<lparr>rg_sqHead = 0, rg_sqTail = 0, rg_entries = 2 ^ j, rg_sqes = (\<lambda>i. 0), rg_cqHead = 0, rg_cqTail = 0, rg_cqEntries = 2 ^ k, rg_cqes = (\<lambda>i. 0)\<rparr>,
     rs_written = [], rs_taken = [], rs_posted = [], rs_reaped = []\<rparr>"

lemma ring_start_inv: "j < 32 \<Longrightarrow> k < 32 \<Longrightarrow> ring_inv (ring_start j k)"
  by (auto simp: ring_inv_def ring_start_def sq_holds_def cq_holds_def ring_holds_def size_pow2_def)

text \<open>(C36) For any number of submissions and completions, the wrap-around of the 32-bit indices included: no entry is overwritten before the kernel took it, and the kernel takes the entries in the
  order they were written; \<open>GetSqe\<close> refuses exactly when the ring is full; and \<open>Reap\<close> gives the next completions in the order they were posted, each once, and never more than asked for.\<close>

theorem rings_are_queues:
  assumes "j < 32" "k < 32" "reach ring_step (ring_start j k) s"
  shows "\<exists>ps qs. rs_written s = rs_taken s @ ps \<and> length ps \<le> unat (rg_entries (rs_ring s)) \<and> (GetSqe (rs_ring s) = None \<longleftrightarrow> length ps = unat (rg_entries (rs_ring s))) \<and>
    rs_posted s = rs_reaped s @ qs \<and> (\<forall>mx. fst (Reap mx (rs_ring s)) = take (unat mx) qs)"
proof -
  have "ring_inv s" using rings.reach_inv [OF assms(3) ring_start_inv [OF assms(1,2)]] .
  then obtain ps qs where i: "sq_holds (rs_ring s) ps" "rs_written s = rs_taken s @ ps" "cq_holds (rs_ring s) qs" "rs_posted s = rs_reaped s @ qs" by (auto simp: ring_inv_def)
  have "fst (Reap mx (rs_ring s)) = take (unat mx) qs" for mx using Reap_spec [OF _ prod.collapse [symmetric], of "rs_ring s" qs mx] i(3) by (simp add: cq_holds_def)
  moreover have "length ps \<le> unat (rg_entries (rs_ring s))" using i(1) by (simp add: sq_holds_def ring_holds_def)
  ultimately show ?thesis using i GetSqe_None_iff [OF i(1)] by (intro exI [of _ ps] exI [of _ qs] conjI allI)
qed

text \<open>A submission the kernel refuses stays in the ring, although its submitter is told that it failed; the next call gives the kernel that entry, and its own stays behind.\<close>

lemma refused_entry_is_submitted_later:
  "\<exists>r1 r2. uring_submit_entry False 7 (rs_ring (ring_start 1 1)) = Some ([], r1) \<and> uring_submit_entry True 8 r1 = Some ([7], r2) \<and> rg_sqHead r2 \<noteq> rg_sqTail r2"
  by (simp add: uring_submit_entry_def ring_start_def GetSqe_def uring_Submit_def uring_slot_def Let_def word_le_nat_alt)

definition ring_s1 :: ring_sys where
  "ring_s1 = (ring_start 1 1)\<lparr>rs_ring := (rs_ring (ring_start 1 1))\<lparr>rg_cqes := (\<lambda>i. 0)(0 := 9), rg_cqTail := 1\<rparr>, rs_posted := [9]\<rparr>"

theorem rings_are_queues_witness: "fst (Reap 64 (rs_ring ring_s1)) = [9] \<and> rs_posted ring_s1 = [9]"
proof -
  have "kernel_post 9 (rs_ring (ring_start 1 1)) = Some (rs_ring ring_s1)" by (simp add: kernel_post_def ring_start_def ring_s1_def uring_slot_def)
  from ring_post [OF this] have "ring_step (ring_start 1 1) ring_s1" by (simp add: ring_s1_def ring_start_def)
  then have "reach ring_step (ring_start 1 1) ring_s1" by (rule reach_one)
  from rings_are_queues [OF _ _ this] obtain qs where q: "rs_posted ring_s1 = rs_reaped ring_s1 @ qs" "fst (Reap 64 (rs_ring ring_s1)) = take (unat (64 :: u32)) qs" by auto
  have p: "rs_posted ring_s1 = [9]" "rs_reaped ring_s1 = []" by (simp_all add: ring_s1_def ring_start_def)
  then have "qs = [9]" using q(1) by simp
  then show ?thesis unfolding q(2) using p by simp
qed

end
