(* ===== verification/IoRequests.thy ===== *)
theory IoRequests
  imports CancelTokens
begin

text \<open>
  The Linux I/O reactor (\<^verbatim>\<open>include/IoReactor.h\<close>, \<^verbatim>\<open>src/posix/IoReactor.cpp\<close>): requests with their buffers, submission to the ring, the in-flight
  lists by shard, completion with the resumption of partial sends, and cancellation. A request is its address. The location its \<open>out\<close> points at is a field of
  the request, \<open>None\<close> when the pointer is null. What the ring and the kernel answer is an argument; the entries of the submission ring the kernel has not taken (\<open>rx_ring\<close>) and those it works on (\<open>rx_kernel\<close>) are lists. The intrusive list of a shard is a
  list.
\<close>

section \<open>Requests and their buffers\<close>

datatype IoStatus = IoPending | IoCompleted | IoCancelled | IoFailed

record IoResult =
  ir_status :: IoStatus
  ir_bytes :: u32
  ir_error :: int

datatype IoKind = KGeneric | KAccept | KConnect | KSend | KRecv

type_synonym iovec = "nat \<times> nat"

definition kMaxVectors :: nat where "kMaxVectors = 8"

record IoRequest =
  rq_iov :: "iovec list"
  rq_resume :: "nat option"
  rq_out :: "IoResult option"
  rq_token :: u32
  rq_handle :: nat
  rq_kind :: IoKind
  rq_aux :: nat
  rq_bufCount :: nat
  rq_xferred :: u32
  rq_hook :: bool
  rq_flags :: nat

definition ENOSYS :: int where "ENOSYS = 38"
definition ESHUTDOWN :: int where "ESHUTDOWN = 108"
definition EAGAIN :: int where "EAGAIN = 11"
definition EINVAL :: int where "EINVAL = 22"
definition EMSGSIZE :: int where "EMSGSIZE = 90"
definition EOPNOTSUPP :: int where "EOPNOTSUPP = 95"
definition ECANCELED :: int where "ECANCELED = 125"

definition write_out :: "IoStatus \<Rightarrow> u32 \<Rightarrow> int \<Rightarrow> IoRequest \<Rightarrow> IoRequest" where
  "write_out st n e r = r\<lparr>rq_out := map_option (\<lambda>x. \<lparr>ir_status = st, ir_bytes = n, ir_error = e\<rparr>) (rq_out r)\<rparr>"

text \<open>\<open>FillBufs\<close>: \<open>None\<close> for a count it refuses.\<close>

definition FillBufs :: "iovec list \<Rightarrow> IoRequest \<Rightarrow> IoRequest option" where
  "FillBufs bufs r = (if length bufs = 0 \<or> kMaxVectors < length bufs then None else Some (r\<lparr>rq_iov := bufs @ drop (length bufs) (rq_iov r)\<rparr>))"

function advance_loop :: "nat \<Rightarrow> nat \<Rightarrow> nat \<Rightarrow> iovec list \<Rightarrow> nat \<times> iovec list" where
  "advance_loop n i consumed v =
    (if i < n \<and> 0 < consumed
     then if snd (v ! i) \<le> consumed then advance_loop n (Suc i) (consumed - snd (v ! i)) v
          else (i, v[i := (fst (v ! i) + consumed, snd (v ! i) - consumed)])
     else (i, v))"
  by pat_completeness auto

termination advance_loop
  by (relation "measure (\<lambda>(n, i, c, v). n - i)") auto

declare advance_loop.simps [simp del]

fun copy_down :: "nat \<Rightarrow> nat list \<Rightarrow> iovec list \<Rightarrow> iovec list" where
  "copy_down i [] v = v"
| "copy_down i (k # ks) v = copy_down i ks (v[k := v ! (i + k)])"

definition AdvanceBufs :: "nat \<Rightarrow> IoRequest \<Rightarrow> nat \<times> IoRequest" where
  "AdvanceBufs consumed r =
    (let n = rq_bufCount r; (i, v) = advance_loop n 0 consumed (rq_iov r) in
     if i = 0 then (n, r\<lparr>rq_iov := v\<rparr>) else (n - i, r\<lparr>rq_iov := copy_down i [0..<n - i] v\<rparr>))"

definition BufsRemaining :: "IoRequest \<Rightarrow> nat" where
  "BufsRemaining r = sum_list (map snd (take (rq_bufCount r) (rq_iov r)))"

section \<open>The submission queue entry\<close>

datatype opcode = OpRecv | OpSend | OpReadv | OpWritev | OpRead | OpWrite | OpRecvmsg | OpSendmsg | OpAccept | OpConnect | OpShutdown

text \<open>\<open>sq_bufs\<close>: the memory the operation reads or writes, buffer by buffer; \<open>sq_off\<close>: the offset in a file, \<open>None\<close> for \<open>(uint64_t)-1\<close> and for operations without one.\<close>

record sqe =
  sq_op :: opcode
  sq_fd :: nat
  sq_bufs :: "iovec list"
  sq_off :: "nat option"
  sq_flags :: nat
  sq_user :: nat

datatype ring_answer = NoSqe | SubmitFails int | Submitted

section \<open>The reactor\<close>

record reactor =
  rx_up :: bool
  rx_stopping :: bool
  rx_shards :: "nat \<Rightarrow> nat list"
  rx_outstanding :: u64
  rx_req :: "nat \<Rightarrow> IoRequest"
  rx_ring :: "sqe list"
  rx_kernel :: "sqe list"
  rx_hooks :: "nat list"
  rx_woken :: "nat list"

definition kShards :: nat where "kShards = 16"

definition ShardFor :: "nat \<Rightarrow> nat" where
  "ShardFor r = unat (drop_bit 60 (drop_bit 4 (of_nat r :: u64) * 0x9E3779B97F4A7C15) AND 15)"

definition io_Link :: "nat \<Rightarrow> reactor \<Rightarrow> reactor" where
  "io_Link r s = s\<lparr>rx_shards := (rx_shards s)(ShardFor r := r # rx_shards s (ShardFor r)), rx_outstanding := rx_outstanding s + 1\<rparr>"

text \<open>A request that is in no list has null links and is no head: nothing is unlinked, but the counter goes down.\<close>

definition UnlinkLocked :: "nat \<Rightarrow> reactor \<Rightarrow> reactor" where
  "UnlinkLocked r s = s\<lparr>rx_shards := (rx_shards s)(ShardFor r := remove1 r (rx_shards s (ShardFor r))), rx_outstanding := rx_outstanding s - 1\<rparr>"

definition upd_req :: "nat \<Rightarrow> (IoRequest \<Rightarrow> IoRequest) \<Rightarrow> reactor \<Rightarrow> reactor" where
  "upd_req r f s = s\<lparr>rx_req := (rx_req s)(r := f (rx_req s r))\<rparr>"

text \<open>\<open>Submit\<close> moves the tail and asks the kernel to take one entry. The kernel takes the oldest one of the ring, which is the new one only when no entry was left
  behind; when the call fails, the new entry stays in the ring.\<close>

definition ring_submit :: "sqe \<Rightarrow> reactor \<Rightarrow> reactor" where
  "ring_submit e s = (let q = rx_ring s @ [e] in s\<lparr>rx_ring := tl q, rx_kernel := rx_kernel s @ [hd q]\<rparr>)"

definition ring_leave :: "sqe \<Rightarrow> reactor \<Rightarrow> reactor" where
  "ring_leave e s = s\<lparr>rx_ring := rx_ring s @ [e]\<rparr>"

text \<open>\<open>True\<close>: the operation was refused and its result is written. \<open>fill\<close> makes the entry from the request.\<close>

definition SubmitOp :: "cancel_table \<Rightarrow> ring_answer \<Rightarrow> nat \<Rightarrow> nat option \<Rightarrow> u32 \<Rightarrow> (IoRequest \<Rightarrow> sqe) \<Rightarrow> reactor \<Rightarrow> bool \<times> reactor" where
  "SubmitOp ct ans r resume tok fill s =
    (if CancelToken_Cancelled ct tok then (True, upd_req r (write_out IoCancelled 0 0) s)
     else if \<not> rx_up s then (True, upd_req r (write_out IoFailed 0 ENOSYS) s)
     else if rx_stopping s then (True, upd_req r (write_out IoFailed 0 ESHUTDOWN) s)
     else let s1 = io_Link r (upd_req r (\<lambda>q. q\<lparr>rq_resume := resume, rq_token := tok\<rparr>) s); e = (fill (rx_req s1 r))\<lparr>sq_user := r\<rparr> in
       case ans of
         NoSqe \<Rightarrow> (True, upd_req r (write_out IoFailed 0 EAGAIN) (UnlinkLocked r s1))
       | SubmitFails err \<Rightarrow> (True, upd_req r (write_out IoFailed 0 err) (UnlinkLocked r (ring_leave e s1)))
       | Submitted \<Rightarrow> (False, ring_submit e s1))"

definition one_buf :: "opcode \<Rightarrow> IoRequest \<Rightarrow> sqe" where
  "one_buf opc q = \<lparr>sq_op = opc, sq_fd = rq_handle q, sq_bufs = [rq_iov q ! 0], sq_off = None, sq_flags = rq_flags q, sq_user = 0\<rparr>"

definition vec_bufs :: "opcode \<Rightarrow> IoRequest \<Rightarrow> sqe" where
  "vec_bufs opc q = \<lparr>sq_op = opc, sq_fd = rq_handle q, sq_bufs = take (rq_bufCount q) (rq_iov q), sq_off = None, sq_flags = 0, sq_user = 0\<rparr>"

definition SubmitRecv :: "cancel_table \<Rightarrow> ring_answer \<Rightarrow> nat \<Rightarrow> iovec \<Rightarrow> nat \<Rightarrow> nat \<Rightarrow> nat option \<Rightarrow> u32 \<Rightarrow> reactor \<Rightarrow> bool \<times> reactor" where
  "SubmitRecv ct ans sock buf flags r resume tok s =
    SubmitOp ct ans r resume tok (one_buf OpRecv)
      (upd_req r (\<lambda>q. q\<lparr>rq_kind := KRecv, rq_handle := sock, rq_iov := (rq_iov q)[0 := buf], rq_bufCount := 1, rq_flags := flags, rq_xferred := 0, rq_aux := 0\<rparr>) s)"

definition SubmitSend :: "cancel_table \<Rightarrow> ring_answer \<Rightarrow> nat \<Rightarrow> iovec \<Rightarrow> nat \<Rightarrow> nat \<Rightarrow> nat option \<Rightarrow> u32 \<Rightarrow> reactor \<Rightarrow> bool \<times> reactor" where
  "SubmitSend ct ans sock buf flags r resume tok s =
    SubmitOp ct ans r resume tok (one_buf OpSend)
      (upd_req r (\<lambda>q. q\<lparr>rq_kind := KSend, rq_handle := sock, rq_iov := (rq_iov q)[0 := buf], rq_bufCount := 1, rq_flags := flags, rq_xferred := 0\<rparr>) s)"

definition SubmitRecvV :: "cancel_table \<Rightarrow> ring_answer \<Rightarrow> nat \<Rightarrow> iovec list \<Rightarrow> nat \<Rightarrow> nat option \<Rightarrow> u32 \<Rightarrow> reactor \<Rightarrow> bool \<times> reactor" where
  "SubmitRecvV ct ans sock bufs r resume tok s = (case FillBufs bufs (rx_req s r) of
     None \<Rightarrow> (True, upd_req r (write_out IoFailed 0 EMSGSIZE) s)
   | Some q1 \<Rightarrow> SubmitOp ct ans r resume tok (vec_bufs OpReadv)
      (upd_req r (\<lambda>q. q1\<lparr>rq_kind := KRecv, rq_bufCount := length bufs, rq_handle := sock, rq_xferred := 0, rq_aux := 0\<rparr>) s))"

definition SubmitSendV :: "cancel_table \<Rightarrow> ring_answer \<Rightarrow> nat \<Rightarrow> iovec list \<Rightarrow> nat \<Rightarrow> nat option \<Rightarrow> u32 \<Rightarrow> reactor \<Rightarrow> bool \<times> reactor" where
  "SubmitSendV ct ans sock bufs r resume tok s = (case FillBufs bufs (rx_req s r) of
     None \<Rightarrow> (True, upd_req r (write_out IoFailed 0 EMSGSIZE) s)
   | Some q1 \<Rightarrow> SubmitOp ct ans r resume tok (vec_bufs OpWritev)
      (upd_req r (\<lambda>q. q1\<lparr>rq_kind := KSend, rq_bufCount := length bufs, rq_handle := sock, rq_xferred := 0\<rparr>) s))"

definition SubmitRead :: "cancel_table \<Rightarrow> ring_answer \<Rightarrow> nat \<Rightarrow> iovec \<Rightarrow> nat \<Rightarrow> nat \<Rightarrow> nat option \<Rightarrow> u32 \<Rightarrow> reactor \<Rightarrow> bool \<times> reactor" where
  "SubmitRead ct ans handle buf off r resume tok s =
    SubmitOp ct ans r resume tok (\<lambda>q. \<lparr>sq_op = OpRead, sq_fd = handle, sq_bufs = [buf], sq_off = Some off, sq_flags = 0, sq_user = 0\<rparr>)
      (upd_req r (\<lambda>q. q\<lparr>rq_kind := KGeneric, rq_handle := handle\<rparr>) s)"

definition SubmitWrite :: "cancel_table \<Rightarrow> ring_answer \<Rightarrow> nat \<Rightarrow> iovec \<Rightarrow> nat \<Rightarrow> nat \<Rightarrow> nat option \<Rightarrow> u32 \<Rightarrow> reactor \<Rightarrow> bool \<times> reactor" where
  "SubmitWrite ct ans handle buf off r resume tok s =
    SubmitOp ct ans r resume tok (\<lambda>q. \<lparr>sq_op = OpWrite, sq_fd = handle, sq_bufs = [buf], sq_off = Some off, sq_flags = 0, sq_user = 0\<rparr>)
      (upd_req r (\<lambda>q. q\<lparr>rq_kind := KGeneric, rq_handle := handle\<rparr>) s)"

text \<open>The message header of the two datagram calls is built inside the request and names its first buffer; the number of buffers stays what it was.\<close>

definition SubmitRecvFrom :: "cancel_table \<Rightarrow> ring_answer \<Rightarrow> nat \<Rightarrow> iovec \<Rightarrow> nat \<Rightarrow> nat \<Rightarrow> nat \<Rightarrow> nat option \<Rightarrow> u32 \<Rightarrow> reactor \<Rightarrow> bool \<times> reactor" where
  "SubmitRecvFrom ct ans sock buf flags from' r resume tok s =
    SubmitOp ct ans r resume tok (\<lambda>q. \<lparr>sq_op = OpRecvmsg, sq_fd = sock, sq_bufs = [buf], sq_off = None, sq_flags = flags, sq_user = 0\<rparr>)
      (upd_req r (\<lambda>q. q\<lparr>rq_kind := KRecv, rq_handle := sock, rq_aux := from', rq_iov := (rq_iov q)[0 := buf]\<rparr>) s)"

definition SubmitSendTo :: "cancel_table \<Rightarrow> ring_answer \<Rightarrow> nat \<Rightarrow> iovec \<Rightarrow> nat \<Rightarrow> nat \<Rightarrow> nat option \<Rightarrow> u32 \<Rightarrow> reactor \<Rightarrow> bool \<times> reactor" where
  "SubmitSendTo ct ans sock buf flags r resume tok s =
    SubmitOp ct ans r resume tok (\<lambda>q. \<lparr>sq_op = OpSendmsg, sq_fd = sock, sq_bufs = [buf], sq_off = None, sq_flags = flags, sq_user = 0\<rparr>)
      (upd_req r (\<lambda>q. q\<lparr>rq_kind := KSend, rq_handle := sock, rq_xferred := 0, rq_iov := (rq_iov q)[0 := buf]\<rparr>) s)"

text \<open>On Linux the kernel makes the accepted socket; the one the caller passes is closed by \<open>SubmitAccept\<close> before anything else.\<close>

definition SubmitAccept :: "cancel_table \<Rightarrow> ring_answer \<Rightarrow> nat \<Rightarrow> nat \<Rightarrow> nat option \<Rightarrow> u32 \<Rightarrow> reactor \<Rightarrow> bool \<times> reactor" where
  "SubmitAccept ct ans listener r resume tok s =
    SubmitOp ct ans r resume tok (\<lambda>q. \<lparr>sq_op = OpAccept, sq_fd = listener, sq_bufs = [], sq_off = None, sq_flags = 0, sq_user = 0\<rparr>)
      (upd_req r (\<lambda>q. q\<lparr>rq_kind := KAccept, rq_handle := listener, rq_aux := 0\<rparr>) s)"

definition SubmitConnect :: "cancel_table \<Rightarrow> ring_answer \<Rightarrow> nat \<Rightarrow> iovec \<Rightarrow> nat \<Rightarrow> nat option \<Rightarrow> u32 \<Rightarrow> reactor \<Rightarrow> bool \<times> reactor" where
  "SubmitConnect ct ans sock addr r resume tok s =
    SubmitOp ct ans r resume tok (\<lambda>q. \<lparr>sq_op = OpConnect, sq_fd = sock, sq_bufs = [addr], sq_off = None, sq_flags = 0, sq_user = 0\<rparr>)
      (upd_req r (\<lambda>q. q\<lparr>rq_kind := KConnect, rq_handle := sock\<rparr>) s)"

definition SubmitDisconnect :: "cancel_table \<Rightarrow> ring_answer \<Rightarrow> nat \<Rightarrow> bool \<Rightarrow> nat \<Rightarrow> nat option \<Rightarrow> u32 \<Rightarrow> reactor \<Rightarrow> bool \<times> reactor" where
  "SubmitDisconnect ct ans sock reuse r resume tok s =
    (if reuse then (True, upd_req r (write_out IoFailed 0 EOPNOTSUPP) s)
     else SubmitOp ct ans r resume tok (\<lambda>q. \<lparr>sq_op = OpShutdown, sq_fd = sock, sq_bufs = [], sq_off = None, sq_flags = 0, sq_user = 0\<rparr>)
      (upd_req r (\<lambda>q. q\<lparr>rq_kind := KGeneric, rq_handle := sock\<rparr>) s))"

definition SubmitPrepared :: "cancel_table \<Rightarrow> ring_answer \<Rightarrow> nat \<Rightarrow> reactor \<Rightarrow> bool \<times> reactor" where
  "SubmitPrepared ct ans r s =
    (let q = rx_req s r; isSend = (rq_kind q = KSend) in
     if rq_bufCount q = 0 then (True, upd_req r (write_out IoFailed 0 EINVAL) s)
     else if rq_bufCount q = 1 then SubmitOp ct ans r (rq_resume q) (rq_token q) (one_buf (if isSend then OpSend else OpRecv)) s
     else SubmitOp ct ans r (rq_resume q) (rq_token q) (vec_bufs (if isSend then OpWritev else OpReadv)) s)"

section \<open>Completion\<close>

text \<open>The address a receive reports is not modelled: \<open>aux\<close> stays as it is for other kinds than accept.\<close>

definition result_of :: "int \<Rightarrow> IoRequest \<Rightarrow> IoResult" where
  "result_of res q =
    (if 0 \<le> res then \<lparr>ir_status = IoCompleted, ir_bytes = (if rq_kind q = KAccept then 0 else of_int res), ir_error = 0\<rparr>
     else if res = - ECANCELED then \<lparr>ir_status = IoCancelled, ir_bytes = 0, ir_error = ECANCELED\<rparr>
     else \<lparr>ir_status = IoFailed, ir_bytes = 0, ir_error = - res\<rparr>)"

definition is_partial :: "int \<Rightarrow> IoRequest \<Rightarrow> bool" where
  "is_partial res q \<longleftrightarrow> 0 \<le> res \<and> rq_kind q = KSend \<and> 0 < rq_bufCount q \<and> 0 < res \<and> nat res < BufsRemaining q"

definition advance_req :: "int \<Rightarrow> IoRequest \<Rightarrow> IoRequest" where
  "advance_req res q = (let (left, q1) = AdvanceBufs (nat res) (q\<lparr>rq_xferred := rq_xferred q + of_int res\<rparr>) in q1\<lparr>rq_bufCount := left\<rparr>)"

definition finish :: "(nat \<Rightarrow> bool) \<Rightarrow> nat \<Rightarrow> IoResult \<Rightarrow> reactor \<Rightarrow> nat option \<times> reactor" where
  "finish pinned r res s =
    (let q = rx_req s r;
         res1 = (if ir_status res = IoCompleted \<and> rq_kind q = KSend then res\<lparr>ir_bytes := ir_bytes res + rq_xferred q\<rparr> else res);
         s1 = upd_req r (write_out (ir_status res1) (ir_bytes res1) (ir_error res1)) (UnlinkLocked r s);
         s2 = (if rq_hook q then s1\<lparr>rx_hooks := rx_hooks s1 @ [r]\<rparr> else s1)
     in case rq_resume q of
          Some t \<Rightarrow> if pinned t then (None, s2\<lparr>rx_woken := rx_woken s2 @ [t]\<rparr>) else (Some t, s2)
        | None \<Rightarrow> (None, s2))"

text \<open>\<open>Complete\<close> for request \<open>r\<close> with the kernel's result \<open>res\<close>: the task to inject, if any. \<open>ans\<close>: what the ring answers if the rest of a send is submitted again.\<close>

definition Complete :: "cancel_table \<Rightarrow> ring_answer \<Rightarrow> (nat \<Rightarrow> bool) \<Rightarrow> nat \<Rightarrow> int \<Rightarrow> reactor \<Rightarrow> nat option \<times> reactor" where
  "Complete ct ans pinned r res s =
    (let q = rx_req s r;
         s0 = (if 0 \<le> res \<and> rq_kind q = KAccept then upd_req r (\<lambda>q. q\<lparr>rq_aux := nat res\<rparr>) s else s)
     in if is_partial res q
        then let (refused, s1) = SubmitPrepared ct ans r (UnlinkLocked r (upd_req r (advance_req res) s0))
             in if \<not> refused then (None, s1)
                else finish pinned r (case rq_out (rx_req s1 r) of Some x \<Rightarrow> x | None \<Rightarrow> result_of res q) s1
        else finish pinned r (result_of res q) s0)"

text \<open>A batch of completions: \<open>None\<close> is the stop marker's entry, \<open>Some None\<close> that of a cancel request.\<close>

type_synonym cqe = "(nat \<times> int) option option"

fun Dispatch :: "cancel_table \<Rightarrow> (nat \<Rightarrow> ring_answer) \<Rightarrow> (nat \<Rightarrow> bool) \<Rightarrow> cqe list \<Rightarrow> reactor \<Rightarrow> nat \<times> nat list \<times> reactor" where
  "Dispatch ct ans pinned [] s = (0, [], s)"
| "Dispatch ct ans pinned (None # cs) s = (let (m, ts, s1) = Dispatch ct ans pinned cs s in (m + 1, ts, s1))"
| "Dispatch ct ans pinned (Some None # cs) s = Dispatch ct ans pinned cs s"
| "Dispatch ct ans pinned (Some (Some (r, res)) # cs) s =
    (let (t, s1) = Complete ct (ans (length cs)) pinned r res s; (m, ts, s2) = Dispatch ct ans pinned cs s1
     in (m, (case t of Some x \<Rightarrow> x # ts | None \<Rightarrow> ts), s2))"

text \<open>\<open>Inject\<close>: the whole batch goes to the injector, or, when that refuses it, each task to a compute worker. \<open>Stop\<close> counts on the pump: a round ends it only when the stop
  marker was among the completions, or the ring gave nothing, and the reactor is stopping.\<close>

definition Inject :: "bool \<Rightarrow> bool \<Rightarrow> nat list \<Rightarrow> nat list \<times> nat list" where
  "Inject initialized ok ts = (if ts = [] \<or> \<not> initialized then ([], []) else if ok then (ts, []) else ([], ts))"

definition pump_round :: "cancel_table \<Rightarrow> (nat \<Rightarrow> ring_answer) \<Rightarrow> (nat \<Rightarrow> bool) \<Rightarrow> bool \<Rightarrow> cqe list \<Rightarrow> reactor \<Rightarrow> bool \<times> (nat list \<times> nat list) \<times> reactor" where
  "pump_round ct ans pinned ok cs s =
    (if cs = [] then (rx_stopping s, ([], []), s)
     else let (m, ts, s1) = Dispatch ct ans pinned cs s in (m \<noteq> 0 \<and> rx_stopping s1, Inject True ok ts, s1))"

text \<open>The wait of \<open>Stop\<close>: \<open>obs\<close> are the values of the counter it reads, one every ten milliseconds. \<open>None\<close>: it still waits.\<close>

fun stop_wait :: "nat \<Rightarrow> nat \<Rightarrow> nat list \<Rightarrow> nat option" where
  "stop_wait last' quietMs [] = (if last' \<noteq> 0 \<and> quietMs < 2000 then None else Some last')"
| "stop_wait last' quietMs (now # obs) = (if last' \<noteq> 0 \<and> quietMs < 2000 then stop_wait now (if now = last' then quietMs + 10 else 0) obs else Some last')"

text \<open>Once nothing new is accepted the wait ends, within two seconds of quiet after the last completion.\<close>

lemma stop_wait_ends:
  assumes "sorted_wrt (\<ge>) (last' # obs)" "q \<le> 200" "201 * last' + (200 - q) \<le> length obs"
  shows "\<exists>n. stop_wait last' (10 * q) obs = Some n \<and> n \<le> last'"
  using assms
proof (induction obs arbitrary: last' q)
  case (Cons now obs)
  show ?case
  proof (cases "last' \<noteq> 0 \<and> 10 * q < 2000")
    case True
    define q' where "q' = (if now = last' then q + 1 else 0)"
    have le: "now \<le> last'" using Cons(2) by simp
    have "201 * now + (200 - q') \<le> length obs"
    proof (cases "now = last'")
      case False
      then have "201 * now + 201 \<le> 201 * last'" using le by simp
      then show ?thesis using Cons(4) True by (simp add: q'_def False)
    qed (use Cons(4) True in \<open>simp add: q'_def\<close>)
    moreover have "q' \<le> 200" using True by (simp add: q'_def)
    ultimately obtain n where "stop_wait now (10 * q') obs = Some n" "n \<le> now" using Cons(1) [of now q'] Cons(2) by auto
    moreover have "(if now = last' then 10 * q + 10 else 0) = 10 * q'" by (simp add: q'_def)
    ultimately show ?thesis using True le by auto
  qed auto
qed auto

section \<open>Cancellation\<close>

text \<open>The requests of a shard that are asked to stop: the first 64 within the token.\<close>

definition cancel_targets :: "cancel_table \<Rightarrow> u32 \<Rightarrow> reactor \<Rightarrow> nat \<Rightarrow> nat list" where
  "cancel_targets ct tok s i = take 64 (filter (\<lambda>r. \<not> CancelToken_Valid tok \<or> CancelToken_IsWithin ct (rq_token (rx_req s r)) tok) (rx_shards s i))"

text \<open>\<open>room\<close>: how many cancel entries the ring takes for each shard before it refuses one.\<close>

definition RequestCancel :: "cancel_table \<Rightarrow> (nat \<Rightarrow> nat) \<Rightarrow> u32 \<Rightarrow> reactor \<Rightarrow> nat list" where
  "RequestCancel ct room tok s = (if \<not> rx_up s then [] else concat (map (\<lambda>i. take (room i) (cancel_targets ct tok s i)) [0..<kShards]))"

section \<open>The bytes of the buffers\<close>

definition iov_bytes :: "iovec list \<Rightarrow> nat list" where
  "iov_bytes vs = concat (map (\<lambda>(b, l). [b..<b + l]) vs)"

abbreviation active :: "IoRequest \<Rightarrow> iovec list" where
  "active q \<equiv> take (rq_bufCount q) (rq_iov q)"

lemma iov_bytes_simps [simp]: "iov_bytes [] = []" "iov_bytes (v # vs) = [fst v..<fst v + snd v] @ iov_bytes vs"
  by (simp_all add: iov_bytes_def split: prod.splits)

lemma length_iov_bytes: "length (iov_bytes vs) = sum_list (map snd vs)"
  by (induction vs) simp_all

lemma take_drop_Cons: "i < n \<Longrightarrow> n \<le> length v \<Longrightarrow> take (n - i) (drop i v) = v ! i # take (n - Suc i) (drop (Suc i) v)"
  by (metis Cons_nth_drop_Suc Suc_diff_Suc order_less_le_trans take_Suc_Cons)

lemma advance_loop_bytes:
  "advance_loop n i c v = (j, v') \<Longrightarrow> i \<le> n \<Longrightarrow> n \<le> length v \<Longrightarrow>
   i \<le> j \<and> j \<le> n \<and> length v' = length v \<and> iov_bytes (take (n - j) (drop j v')) = drop c (iov_bytes (take (n - i) (drop i v)))"
proof (induction n i c v arbitrary: j v' rule: advance_loop.induct)
  case (1 n i c v)
  note eq = 1(2) [unfolded advance_loop.simps [of n i c v]]
  show ?case
  proof (cases "i < n \<and> 0 < c")
    case False
    then show ?thesis using eq 1(3) by auto
  next
    case True
    then have td: "take (n - i) (drop i v) = v ! i # take (n - Suc i) (drop (Suc i) v)" using 1(4) by (simp add: take_drop_Cons)
    show ?thesis
    proof (cases "snd (v ! i) \<le> c")
      case le: True
      then show ?thesis using 1(1) [OF True le, of j v'] eq True 1(4) by (auto simp: td)
    next
      case False
      then have j: "j = i" "v' = v[i := (fst (v ! i) + c, snd (v ! i) - c)]" using eq True by auto
      then have "take (n - i) (drop i v') = (fst (v ! i) + c, snd (v ! i) - c) # take (n - Suc i) (drop (Suc i) v)"
        using True 1(4) take_drop_Cons [of i n v'] by simp
      then show ?thesis using False True j by (simp add: td)
    qed
  qed
qed

lemma copy_down_nth:
  "0 < i \<Longrightarrow> i + m \<le> length v \<Longrightarrow> a \<le> m \<Longrightarrow>
   length (copy_down i [a..<m] v) = length v \<and> (\<forall>k < length v. copy_down i [a..<m] v ! k = (if a \<le> k \<and> k < m then v ! (i + k) else v ! k))"
proof (induction "m - a" arbitrary: a v)
  case (Suc d)
  then have "[a..<m] = a # [Suc a..<m]" by (simp add: upt_conv_Cons)
  then show ?case using Suc(1) [of "Suc a" "v[a := v ! (i + a)]"] Suc(2-) by (auto simp: nth_list_update)
qed auto

lemma copy_down_take: "0 < i \<Longrightarrow> i + m \<le> length v \<Longrightarrow> take m (copy_down i [0..<m] v) = take m (drop i v) \<and> length (copy_down i [0..<m] v) = length v"
  using copy_down_nth [of i m v 0] by (auto intro!: nth_equalityI)

text \<open>What is left to send after \<open>c\<close> bytes is what follows the first \<open>c\<close> bytes.\<close>

lemma AdvanceBufs_bytes:
  assumes "rq_bufCount q \<le> length (rq_iov q)" "AdvanceBufs c q = (left, q1)"
  shows "left \<le> length (rq_iov q) \<and> length (rq_iov q1) = length (rq_iov q) \<and> iov_bytes (take left (rq_iov q1)) = drop c (iov_bytes (active q)) \<and> q1 = q\<lparr>rq_iov := rq_iov q1\<rparr>"
proof -
  obtain i v where l: "advance_loop (rq_bufCount q) 0 c (rq_iov q) = (i, v)" by fastforce
  have b: "i \<le> rq_bufCount q" "length v = length (rq_iov q)" "iov_bytes (take (rq_bufCount q - i) (drop i v)) = drop c (iov_bytes (active q))"
    using advance_loop_bytes [OF l] assms(1) by auto
  show ?thesis
  proof (cases "i = 0")
    case True
    then show ?thesis using assms b by (auto simp: AdvanceBufs_def l Let_def)
  next
    case False
    then have "take (rq_bufCount q - i) (copy_down i [0..<rq_bufCount q - i] v) = take (rq_bufCount q - i) (drop i v)" "length (copy_down i [0..<rq_bufCount q - i] v) = length v"
      using copy_down_take [of i "rq_bufCount q - i" v] b(1,2) assms(1) by auto
    then show ?thesis using assms b False by (auto simp: AdvanceBufs_def l Let_def)
  qed
qed

definition req_ok :: "IoRequest \<Rightarrow> bool" where
  "req_ok q \<longleftrightarrow> rq_bufCount q \<le> length (rq_iov q) \<and> length (rq_iov q) = kMaxVectors"

lemma advance_req_spec:
  assumes "req_ok q" "is_partial c q"
  shows "req_ok (advance_req c q) \<and> iov_bytes (active (advance_req c q)) = drop (nat c) (iov_bytes (active q)) \<and> 0 < rq_bufCount (advance_req c q) \<and>
    rq_xferred (advance_req c q) = rq_xferred q + of_int c \<and> rq_kind (advance_req c q) = KSend \<and> rq_token (advance_req c q) = rq_token q \<and> rq_out (advance_req c q) = rq_out q \<and>
    rq_resume (advance_req c q) = rq_resume q"
proof -
  let ?q = "q\<lparr>rq_xferred := rq_xferred q + of_int c\<rparr>"
  obtain left q1 where a: "AdvanceBufs (nat c) ?q = (left, q1)" by fastforce
  note b = AdvanceBufs_bytes [OF _ a]
  have b: "left \<le> kMaxVectors" "length (rq_iov q1) = kMaxVectors" "iov_bytes (take left (rq_iov q1)) = drop (nat c) (iov_bytes (active q))" "q1 = ?q\<lparr>rq_iov := rq_iov q1\<rparr>"
    using b assms(1) by (auto simp: req_ok_def)
  have "advance_req c q = q1\<lparr>rq_bufCount := left\<rparr>" by (simp add: advance_req_def a)
  moreover have "0 < left"
  proof (rule ccontr)
    assume "\<not> 0 < left"
    then have "drop (nat c) (iov_bytes (active q)) = []" using b(3) by simp
    then show False using assms(2) by (simp add: is_partial_def BufsRemaining_def length_iov_bytes)
  qed
  moreover have "rq_kind q1 = rq_kind q" "rq_xferred q1 = rq_xferred q + of_int c" "rq_token q1 = rq_token q" "rq_out q1 = rq_out q" "rq_resume q1 = rq_resume q"
    by (subst b(4), simp)+
  ultimately show ?thesis using b assms(2) by (simp add: req_ok_def is_partial_def)
qed

section \<open>A send, from its submission to its result\<close>

text \<open>Entries left in the ring reach the kernel with the submissions of other callers.\<close>

definition ring_taken :: "reactor \<Rightarrow> reactor" where
  "ring_taken s = s\<lparr>rx_kernel := rx_kernel s @ rx_ring s, rx_ring := []\<rparr>"

text \<open>The kernel works on the entry of request \<open>r\<close> and sends a first part of its buffers, again and again, until a completion is not partial: the bytes that went out,
  with the task to inject.\<close>

fun send_run :: "cancel_table \<Rightarrow> (nat \<Rightarrow> bool) \<Rightarrow> nat \<Rightarrow> int list \<Rightarrow> reactor \<Rightarrow> (nat list \<times> nat option \<times> reactor) option" where
  "send_run ct pinned r [] s = None"
| "send_run ct pinned r (c # cs) s =
    (let s0 = ring_taken s in
     case find (\<lambda>e. sq_user e = r) (rx_kernel s0) of
       None \<Rightarrow> None
     | Some e \<Rightarrow>
        let out = take (nat c) (iov_bytes (sq_bufs e)); (t, s1) = Complete ct Submitted pinned r c (s0\<lparr>rx_kernel := remove1 e (rx_kernel s0)\<rparr>) in
        if is_partial c (rx_req s r) then map_option (\<lambda>(o2, t2, s2). (out @ o2, t2, s2)) (send_run ct pinned r cs s1)
        else Some (out, t, s1))"

text \<open>The kernel or the ring holds one entry for the request, which names exactly the buffers still to be sent.\<close>

definition send_ready :: "cancel_table \<Rightarrow> nat \<Rightarrow> reactor \<Rightarrow> bool" where
  "send_ready ct r s \<longleftrightarrow> rx_up s \<and> \<not> rx_stopping s \<and> \<not> CancelToken_Cancelled ct (rq_token (rx_req s r)) \<and> req_ok (rx_req s r) \<and>
    rq_kind (rx_req s r) = KSend \<and> 0 < rq_bufCount (rx_req s r) \<and>
    (\<exists>e xs ys. rx_kernel (ring_taken s) = xs @ e # ys \<and> sq_user e = r \<and> r \<notin> sq_user ` set xs \<and> r \<notin> sq_user ` set ys \<and> sq_bufs e = active (rx_req s r))"

lemma find_entry: "sq_user e = r \<Longrightarrow> r \<notin> sq_user ` set xs \<Longrightarrow> find (\<lambda>e. sq_user e = r) (xs @ e # ys) = Some e"
  by (induction xs) auto

lemma remove_entry: "sq_user e = r \<Longrightarrow> r \<notin> sq_user ` set xs \<Longrightarrow> remove1 e (xs @ e # ys) = xs @ ys"
  by (induction xs) auto

lemma ring_taken_simps [simp]: "rx_req (ring_taken s) = rx_req s" "rx_up (ring_taken s) = rx_up s" "rx_stopping (ring_taken s) = rx_stopping s" "rx_ring (ring_taken s) = []"
  "rx_ring s = [] \<Longrightarrow> ring_taken s = s"
  by (simp_all add: ring_taken_def)

lemma SubmitPrepared_send:
  assumes "rx_up s" "\<not> rx_stopping s" "\<not> CancelToken_Cancelled ct (rq_token (rx_req s r))" "req_ok (rx_req s r)" "rq_kind (rx_req s r) = KSend" "0 < rq_bufCount (rx_req s r)" "rx_ring s = []"
  shows "\<exists>e s'. SubmitPrepared ct Submitted r s = (False, s') \<and> rx_kernel s' = rx_kernel s @ [e] \<and> sq_user e = r \<and> sq_bufs e = active (rx_req s r) \<and>
    rx_req s' = rx_req s \<and> rx_up s' \<and> \<not> rx_stopping s' \<and> rx_ring s' = []"
proof -
  let ?q = "rx_req s r"
  have n: "upd_req r (\<lambda>q. q\<lparr>rq_resume := rq_resume ?q, rq_token := rq_token ?q\<rparr>) s = s" by (simp add: upd_req_def)
  have op: "SubmitOp ct Submitted r (rq_resume ?q) (rq_token ?q) fill s = (False, (io_Link r s)\<lparr>rx_kernel := rx_kernel s @ [(fill ?q)\<lparr>sq_user := r\<rparr>]\<rparr>)" for fill
    using assms(1-3,7) by (simp add: SubmitOp_def n io_Link_def ring_submit_def)
  have b: "[rq_iov ?q ! 0] = active ?q" if "rq_bufCount ?q = 1"
    using that assms(4) by (cases "rq_iov ?q") (auto simp: req_ok_def kMaxVectors_def)
  show ?thesis
  proof (cases "rq_bufCount ?q = 1")
    case True
    then show ?thesis using b assms(1,2,5,7) by (auto simp: SubmitPrepared_def op one_buf_def io_Link_def Let_def)
  next
    case False
    then show ?thesis using assms(1,2,5-7) by (auto simp: SubmitPrepared_def op vec_bufs_def io_Link_def Let_def)
  qed
qed

lemma partial_step:
  assumes "send_ready ct r s" "is_partial c (rx_req s r)" "find (\<lambda>e. sq_user e = r) (rx_kernel (ring_taken s)) = Some e"
  shows "\<exists>s1. Complete ct Submitted pinned r c ((ring_taken s)\<lparr>rx_kernel := remove1 e (rx_kernel (ring_taken s))\<rparr>) = (None, s1) \<and> send_ready ct r s1 \<and>
    rx_req s1 r = advance_req c (rx_req s r) \<and> sq_bufs e = active (rx_req s r)"
proof -
  obtain e' xs ys where k: "rx_kernel (ring_taken s) = xs @ e' # ys" "sq_user e' = r" "r \<notin> sq_user ` set xs" "r \<notin> sq_user ` set ys" "sq_bufs e' = active (rx_req s r)"
    using assms(1) by (auto simp: send_ready_def)
  have e: "e' = e" using find_entry [OF k(2,3)] assms(3) k(1) by simp
  let ?s = "UnlinkLocked r (upd_req r (advance_req c) ((ring_taken s)\<lparr>rx_kernel := xs @ ys\<rparr>))"
  have a: "req_ok (rx_req s r)" using assms(1) by (simp add: send_ready_def)
  note spec = advance_req_spec [OF a assms(2)]
  have q: "rx_req ?s r = advance_req c (rx_req s r)" by (simp add: UnlinkLocked_def upd_req_def)
  have kn: "rx_kernel ?s = xs @ ys" "rx_ring ?s = []" "rx_up ?s = rx_up s" "rx_stopping ?s = rx_stopping s" by (simp_all add: UnlinkLocked_def upd_req_def)
  obtain e1 s1 where s1: "SubmitPrepared ct Submitted r ?s = (False, s1)" "rx_kernel s1 = rx_kernel ?s @ [e1]" "sq_user e1 = r" "sq_bufs e1 = active (rx_req ?s r)"
      "rx_req s1 = rx_req ?s" "rx_up s1" "\<not> rx_stopping s1" "rx_ring s1 = []"
    using SubmitPrepared_send [of ?s ct r] assms(1) spec unfolding q kn by (auto simp: send_ready_def)
  have "rq_kind (rx_req s r) \<noteq> KAccept" using assms(2) by (auto simp: is_partial_def)
  then have "Complete ct Submitted pinned r c ((ring_taken s)\<lparr>rx_kernel := remove1 e (rx_kernel (ring_taken s))\<rparr>) = (None, s1)"
    using assms(2) s1(1) k by (simp add: Complete_def e [symmetric] remove_entry)
  moreover have "send_ready ct r s1"
    unfolding send_ready_def s1(5) q ring_taken_simps(5) [OF s1(8)] using s1(6,7) spec assms(1) k s1(2,3,4)
    by (intro conjI exI [of _ e1] exI [of _ "xs @ ys"] exI [of _ "[]"]) (auto simp: kn q send_ready_def)
  ultimately show ?thesis using s1(5) q k(5) e by simp
qed

lemma finish_send:
  assumes "rq_kind (rx_req s r) = KSend" "0 \<le> c"
  shows "rq_out (rx_req (snd (finish pinned r (result_of c (rx_req s r)) s)) r) =
    map_option (\<lambda>x. \<lparr>ir_status = IoCompleted, ir_bytes = of_int c + rq_xferred (rx_req s r), ir_error = 0\<rparr>) (rq_out (rx_req s r))"
  using assms by (simp add: finish_def result_of_def Let_def upd_req_def write_out_def UnlinkLocked_def split: option.splits)

lemma send_run_spec:
  assumes "send_ready ct r s" "\<forall>p \<in> set ps. 0 < p" "nat (sum_list ps) < BufsRemaining (rx_req s r)" "0 \<le> c" "c = 0 \<or> nat (sum_list ps + c) = BufsRemaining (rx_req s r)"
  shows "\<exists>t s'. send_run ct pinned r (ps @ [c]) s = Some (take (nat (sum_list ps + c)) (iov_bytes (active (rx_req s r))), t, s') \<and>
    rq_out (rx_req s' r) = map_option (\<lambda>x. \<lparr>ir_status = IoCompleted, ir_bytes = rq_xferred (rx_req s r) + of_int (sum_list ps + c), ir_error = 0\<rparr>) (rq_out (rx_req s r))"
  using assms
proof (induction ps arbitrary: s)
  case Nil
  obtain e xs ys where k: "rx_kernel (ring_taken s) = xs @ e # ys" "sq_user e = r" "r \<notin> sq_user ` set xs" "sq_bufs e = active (rx_req s r)" using Nil(1) by (auto simp: send_ready_def)
  have kind: "rq_kind (rx_req s r) = KSend" using Nil(1) by (simp add: send_ready_def)
  have np: "\<not> is_partial c (rx_req s r)" using Nil(5) by (auto simp: is_partial_def)
  define s0 where "s0 = (ring_taken s)\<lparr>rx_kernel := remove1 e (rx_kernel (ring_taken s))\<rparr>"
  have q: "rx_req s0 = rx_req s" by (simp add: s0_def)
  obtain t s' where f: "finish pinned r (result_of c (rx_req s0 r)) s0 = (t, s')" by fastforce
  have cm: "Complete ct Submitted pinned r c s0 = (t, s')" using np kind f by (simp add: Complete_def q)
  have "send_run ct pinned r ([] @ [c]) s = Some (take (nat c) (iov_bytes (active (rx_req s r))), t, s')"
    using find_entry [OF k(2,3), of ys] np cm k(1,4) unfolding s0_def by simp
  then show ?case using finish_send [of s0 r c pinned] f kind Nil(4) by (auto simp: q add.commute)
next
  case (Cons p ps)
  let ?q = "rx_req s r" and ?b = "iov_bytes (active (rx_req s r))"
  have nn: "0 \<le> sum_list ps" using Cons(3) by (auto intro!: sum_list_nonneg)
  have p: "0 < p" using Cons(3) by simp
  have part: "is_partial p ?q" using Cons(2,4) p nn by (auto simp: is_partial_def send_ready_def)
  obtain e xs ys where k: "rx_kernel (ring_taken s) = xs @ e # ys" "sq_user e = r" "r \<notin> sq_user ` set xs" using Cons(2) by (auto simp: send_ready_def)
  have fe: "find (\<lambda>e. sq_user e = r) (rx_kernel (ring_taken s)) = Some e" using find_entry [OF k(2,3), of ys] k(1) by simp
  obtain s1 where s1: "Complete ct Submitted pinned r p ((ring_taken s)\<lparr>rx_kernel := remove1 e (rx_kernel (ring_taken s))\<rparr>) = (None, s1)" "send_ready ct r s1" "rx_req s1 r = advance_req p ?q" "sq_bufs e = active ?q"
    using partial_step [OF Cons(2) part fe] by blast
  have "req_ok ?q" using Cons(2) by (simp add: send_ready_def)
  note spec = advance_req_spec [OF this part]
  have bs: "iov_bytes (active (rx_req s1 r)) = drop (nat p) ?b" and x: "rq_xferred (rx_req s1 r) = rq_xferred ?q + of_int p" and o: "rq_out (rx_req s1 r) = rq_out ?q"
    using spec by (simp_all add: s1(3))
  have rem: "BufsRemaining (rx_req s1 r) = BufsRemaining ?q - nat p" using arg_cong [OF bs, of length] by (simp add: length_iov_bytes BufsRemaining_def)
  have 1: "nat (sum_list ps) < BufsRemaining (rx_req s1 r)" using Cons(4) p nn by (simp add: rem)
  have 2: "c = 0 \<or> nat (sum_list ps + c) = BufsRemaining (rx_req s1 r)" using Cons(5,6) p nn by (auto simp: rem)
  obtain t s' where r: "send_run ct pinned r (ps @ [c]) s1 = Some (take (nat (sum_list ps + c)) (iov_bytes (active (rx_req s1 r))), t, s')"
      "rq_out (rx_req s' r) = map_option (\<lambda>x. \<lparr>ir_status = IoCompleted, ir_bytes = rq_xferred (rx_req s1 r) + of_int (sum_list ps + c), ir_error = 0\<rparr>) (rq_out (rx_req s1 r))"
    using Cons(1) [OF s1(2) _ 1 Cons(5) 2] Cons(3) by auto
  have "take (nat p) ?b @ take (nat (sum_list ps + c)) (drop (nat p) ?b) = take (nat (sum_list (p # ps) + c)) ?b"
    using p nn Cons(5) by (simp add: take_add [symmetric] nat_add_distrib add.assoc)
  then have "send_run ct pinned r ((p # ps) @ [c]) s = Some (take (nat (sum_list (p # ps) + c)) ?b, t, s')"
    using fe s1(1,4) part r(1) by (simp add: bs del: sum_list_append)
  then show ?case using r(2) by (simp add: x o add.assoc)
qed

lemma SubmitOp_accepted:
  assumes "SubmitOp ct ans r resume tok fill s = (False, s1)"
  shows "ans = Submitted \<and> rx_up s \<and> \<not> rx_stopping s \<and> \<not> CancelToken_Cancelled ct tok \<and>
    s1 = ring_submit ((fill ((rx_req s r)\<lparr>rq_resume := resume, rq_token := tok\<rparr>))\<lparr>sq_user := r\<rparr>) (io_Link r (upd_req r (\<lambda>q. q\<lparr>rq_resume := resume, rq_token := tok\<rparr>) s))"
  using assms by (auto simp: SubmitOp_def Let_def io_Link_def upd_req_def split: if_splits ring_answer.splits)

lemma ring_submit_taken: "rx_kernel (ring_taken (ring_submit e s)) = rx_kernel s @ rx_ring s @ [e]"
  by (cases "rx_ring s") (simp_all add: ring_submit_def ring_taken_def Let_def)

lemma SubmitSendV_ready:
  assumes "SubmitSendV ct ans sock bufs r resume tok s = (False, s1)" "length (rq_iov (rx_req s r)) = kMaxVectors" "r \<notin> sq_user ` set (rx_kernel s @ rx_ring s)"
  shows "send_ready ct r s1 \<and> active (rx_req s1 r) = bufs \<and> rq_xferred (rx_req s1 r) = 0 \<and> rq_out (rx_req s1 r) = rq_out (rx_req s r)"
proof -
  have n: "length bufs \<noteq> 0" "length bufs \<le> kMaxVectors" using assms(1) by (auto simp: SubmitSendV_def FillBufs_def split: if_splits)
  define q1 where "q1 = (rx_req s r)\<lparr>rq_iov := bufs @ drop (length bufs) (rq_iov (rx_req s r)), rq_kind := KSend, rq_bufCount := length bufs, rq_handle := sock, rq_xferred := 0\<rparr>"
  have "SubmitOp ct ans r resume tok (vec_bufs OpWritev) (upd_req r (\<lambda>q. q1) s) = (False, s1)"
    using assms(1) n by (simp add: SubmitSendV_def FillBufs_def q1_def)
  note a = SubmitOp_accepted [OF this]
  have s1: "rx_req s1 r = q1\<lparr>rq_resume := resume, rq_token := tok\<rparr>" "rx_up s1" "\<not> rx_stopping s1"
    "rx_kernel (ring_taken s1) = (rx_kernel s @ rx_ring s) @ [(vec_bufs OpWritev (q1\<lparr>rq_resume := resume, rq_token := tok\<rparr>))\<lparr>sq_user := r\<rparr>]"
    using a by (simp_all add: ring_submit_taken) (simp_all add: ring_submit_def io_Link_def upd_req_def Let_def)
  have q: "active (rx_req s1 r) = bufs" "rq_xferred (rx_req s1 r) = 0" "rq_out (rx_req s1 r) = rq_out (rx_req s r)" "req_ok (rx_req s1 r)" "rq_kind (rx_req s1 r) = KSend"
      "rq_bufCount (rx_req s1 r) = length bufs" "rq_token (rx_req s1 r) = tok"
    using assms(2) n by (simp_all add: s1(1) q1_def req_ok_def)
  have v: "sq_bufs ((vec_bufs OpWritev (q1\<lparr>rq_resume := resume, rq_token := tok\<rparr>))\<lparr>sq_user := r\<rparr>) = active (rx_req s1 r)" by (simp add: s1(1) vec_bufs_def)
  have "send_ready ct r s1" unfolding send_ready_def
    using s1(2-4) q v a n assms(3) by (intro conjI exI [of _ "(vec_bufs OpWritev (q1\<lparr>rq_resume := resume, rq_token := tok\<rparr>))\<lparr>sq_user := r\<rparr>"] exI [of _ "rx_kernel s @ rx_ring s"] exI [of _ "[]"]) auto
  then show ?thesis using q by simp
qed

text \<open>(C25) A gathered send the kernel takes in several parts puts every byte of its buffers on the wire once and in order, across buffer boundaries: each partial completion is followed by a
  submission of exactly the rest, and the result finally written counts all parts (modulo the 32 bits of the counter). The request has no entry of its own in the ring or the kernel before; entries of others may be left in the ring.\<close>

theorem partial_sends_send_every_byte_once:
  assumes "SubmitSendV ct ans sock bufs r resume tok s = (False, s1)" "length (rq_iov (rx_req s r)) = kMaxVectors" "r \<notin> sq_user ` set (rx_kernel s @ rx_ring s)"
    "\<forall>p \<in> set ps. 0 < p" "nat (sum_list ps) < sum_list (map snd bufs)" "0 \<le> c" "c = 0 \<or> nat (sum_list ps + c) = sum_list (map snd bufs)"
  shows "\<exists>t s'. send_run ct pinned r (ps @ [c]) s1 = Some (take (nat (sum_list ps + c)) (iov_bytes bufs), t, s') \<and>
    rq_out (rx_req s' r) = map_option (\<lambda>x. \<lparr>ir_status = IoCompleted, ir_bytes = of_int (sum_list ps + c), ir_error = 0\<rparr>) (rq_out (rx_req s r))"
proof -
  have a: "send_ready ct r s1" "active (rx_req s1 r) = bufs" "rq_xferred (rx_req s1 r) = 0" "rq_out (rx_req s1 r) = rq_out (rx_req s r)"
    using SubmitSendV_ready [OF assms(1-3)] by blast+
  have b: "BufsRemaining (rx_req s1 r) = sum_list (map snd bufs)" by (simp only: BufsRemaining_def a(2))
  show ?thesis using send_run_spec [OF a(1) assms(4) _ assms(6), of pinned] assms(5,7) unfolding a(2-4) b by simp
qed

text \<open>Two buffers of five bytes; the kernel sends seven bytes, then three.\<close>

definition io_req0 :: IoRequest where
  "io_req0 = \<lparr>rq_iov = replicate 8 (0, 0), rq_resume = None, rq_out = Some \<lparr>ir_status = IoPending, ir_bytes = 0, ir_error = 0\<rparr>, rq_token = kNone, rq_handle = 0, rq_kind = KGeneric,
     rq_aux = 0, rq_bufCount = 0, rq_xferred = 0, rq_hook = False, rq_flags = 0\<rparr>"

definition reactor0 :: reactor where
  "reactor0 = \<lparr>rx_up = True, rx_stopping = False, rx_shards = (\<lambda>i. []), rx_outstanding = 0, rx_req = (\<lambda>r. io_req0), rx_ring = [], rx_kernel = [], rx_hooks = [], rx_woken = []\<rparr>"

lemma not_cancelled_none: "\<not> CancelToken_Cancelled ct kNone"
proof -
  have "\<not> Cancelled_walk d ct kNone" for d by (cases d) simp_all
  then show ?thesis by (simp add: CancelToken_Cancelled_def)
qed

theorem partial_sends_send_every_byte_once_witness:
  "\<exists>t s'. send_run cancel_init (\<lambda>t. False) 64 [7, 3] (snd (SubmitSendV cancel_init Submitted 5 [(100, 5), (200, 5)] 64 None kNone reactor0)) =
      Some ([100, 101, 102, 103, 104, 200, 201, 202, 203, 204], t, s') \<and> map_option ir_bytes (rq_out (rx_req s' 64)) = Some 10"
proof -
  let ?s1 = "snd (SubmitSendV cancel_init Submitted 5 [(100, 5), (200, 5)] 64 None kNone reactor0)"
  have s: "SubmitSendV cancel_init Submitted 5 [(100, 5), (200, 5)] 64 None kNone reactor0 = (False, ?s1)"
    by (simp add: SubmitSendV_def FillBufs_def kMaxVectors_def SubmitOp_def reactor0_def not_cancelled_none Let_def upd_req_def)
  have "length (rq_iov (rx_req reactor0 64)) = kMaxVectors" "64 \<notin> sq_user ` set (rx_kernel reactor0 @ rx_ring reactor0)" by (simp_all add: reactor0_def io_req0_def kMaxVectors_def)
  note r = partial_sends_send_every_byte_once [OF s this, of "[7]" 3 "\<lambda>t. False"]
  have b: "take (nat (sum_list [7] + 3)) (iov_bytes [(100, 5), (200, 5)]) = [100, 101, 102, 103, 104, 200, 201, 202, 203, 204]" by (simp add: upt_rec)
  obtain t s' where t: "send_run cancel_init (\<lambda>t. False) 64 ([7] @ [3]) ?s1 = Some ([100, 101, 102, 103, 104, 200, 201, 202, 203, 204], t, s')"
      "rq_out (rx_req s' 64) = map_option (\<lambda>x. \<lparr>ir_status = IoCompleted, ir_bytes = of_int (sum_list [7] + 3), ir_error = 0\<rparr>) (rq_out (rx_req reactor0 64))"
    using r unfolding b by auto
  have "map_option ir_bytes (rq_out (rx_req s' 64)) = Some 10" unfolding t(2) by (simp add: reactor0_def io_req0_def)
  then show ?thesis using t(1) unfolding append_Cons append_Nil by blast
qed

section \<open>What is in flight\<close>

datatype io_op = DoRecv nat iovec nat | DoSend nat iovec nat | DoRecvV nat "iovec list" | DoSendV nat "iovec list" | DoRead nat iovec nat | DoWrite nat iovec nat
  | DoRecvFrom nat iovec nat nat | DoSendTo nat iovec nat | DoAccept nat | DoConnect nat iovec | DoDisconnect nat bool | DoPrepared

fun submit :: "io_op \<Rightarrow> cancel_table \<Rightarrow> ring_answer \<Rightarrow> nat \<Rightarrow> nat option \<Rightarrow> u32 \<Rightarrow> reactor \<Rightarrow> bool \<times> reactor" where
  "submit (DoRecv sock buf fl) ct ans r resume tok s = SubmitRecv ct ans sock buf fl r resume tok s"
| "submit (DoSend sock buf fl) ct ans r resume tok s = SubmitSend ct ans sock buf fl r resume tok s"
| "submit (DoRecvV sock bufs) ct ans r resume tok s = SubmitRecvV ct ans sock bufs r resume tok s"
| "submit (DoSendV sock bufs) ct ans r resume tok s = SubmitSendV ct ans sock bufs r resume tok s"
| "submit (DoRead h buf off) ct ans r resume tok s = SubmitRead ct ans h buf off r resume tok s"
| "submit (DoWrite h buf off) ct ans r resume tok s = SubmitWrite ct ans h buf off r resume tok s"
| "submit (DoRecvFrom sock buf fl a) ct ans r resume tok s = SubmitRecvFrom ct ans sock buf fl a r resume tok s"
| "submit (DoSendTo sock buf fl) ct ans r resume tok s = SubmitSendTo ct ans sock buf fl r resume tok s"
| "submit (DoAccept l) ct ans r resume tok s = SubmitAccept ct ans l r resume tok s"
| "submit (DoConnect sock a) ct ans r resume tok s = SubmitConnect ct ans sock a r resume tok s"
| "submit (DoDisconnect sock re) ct ans r resume tok s = SubmitDisconnect ct ans sock re r resume tok s"
| "submit DoPrepared ct ans r resume tok s = SubmitPrepared ct ans r s"

text \<open>The lists of the shards hold each request in flight once, in its own shard, and the counter counts them.\<close>

definition io_ok :: "reactor \<Rightarrow> bool" where
  [inv_defs]: "io_ok s \<longleftrightarrow> (\<forall>r. count (mset (rx_shards s (ShardFor r))) r = count (mset (map sq_user (rx_kernel s))) r) \<and> distinct (map sq_user (rx_kernel s)) \<and>
    rx_outstanding s = of_nat (length (rx_kernel s)) \<and> rx_ring s = []"

text \<open>A change of the reactor that keeps the lists, the counter and the entries.\<close>

definition same_flight :: "reactor \<Rightarrow> reactor \<Rightarrow> bool" where
  "same_flight s s' \<longleftrightarrow> rx_shards s' = rx_shards s \<and> rx_outstanding s' = rx_outstanding s \<and> rx_kernel s' = rx_kernel s \<and> rx_ring s' = rx_ring s"

text \<open>The request has joined the flight.\<close>

definition joined :: "nat \<Rightarrow> reactor \<Rightarrow> reactor \<Rightarrow> bool" where
  "joined r s s' \<longleftrightarrow> rx_shards s' = (rx_shards s)(ShardFor r := r # rx_shards s (ShardFor r)) \<and> rx_outstanding s' = rx_outstanding s + 1 \<and>
    (\<exists>e. sq_user e = r \<and> rx_kernel s' = rx_kernel s @ [e]) \<and> rx_ring s' = []"

text \<open>What a submission does to the flight when the ring is empty before and after it.\<close>

definition flight :: "nat \<Rightarrow> bool \<Rightarrow> reactor \<Rightarrow> reactor \<Rightarrow> bool" where
  "flight r refused s s' \<longleftrightarrow> (rx_ring s = [] \<and> rx_ring s' = [] \<longrightarrow> (if refused then same_flight s s' else joined r s s'))"

lemma SubmitOp_flight: "SubmitOp ct ans r resume tok fill s = (b, s') \<Longrightarrow> flight r b s s'"
  by (auto simp: SubmitOp_def flight_def same_flight_def joined_def Let_def io_Link_def UnlinkLocked_def upd_req_def ring_submit_def ring_leave_def split: if_splits ring_answer.splits)

lemma flight_upd: "flight r b (upd_req r f s) s' = flight r b s s'" "flight r True s (upd_req r f s)"
  by (simp_all add: flight_def same_flight_def joined_def upd_req_def)

lemma op_flight: "SubmitOp ct ans r resume tok fill (upd_req r f s) = (b, s') \<Longrightarrow> flight r b s s'"
  using SubmitOp_flight [of ct ans r resume tok fill "upd_req r f s" b s'] by (simp only: flight_upd)

lemma SubmitPrepared_flight: "SubmitPrepared ct ans r s = (b, s') \<Longrightarrow> flight r b s s'"
  by (auto simp: SubmitPrepared_def Let_def flight_upd split: if_splits dest: SubmitOp_flight)

lemma submit_flight: "submit op ct ans r resume tok s = (b, s') \<Longrightarrow> flight r b s s'"
  by (cases op) (auto simp: SubmitRecv_def SubmitSend_def SubmitRecvV_def SubmitSendV_def SubmitRead_def SubmitWrite_def SubmitRecvFrom_def SubmitSendTo_def SubmitAccept_def SubmitConnect_def
      SubmitDisconnect_def flight_upd(2) split: option.splits if_splits dest: op_flight SubmitPrepared_flight)

text \<open>A request that is not in flight joins it; one the kernel has answered leaves it.\<close>

lemma io_ok_joined:
  assumes "io_ok s" "joined r s s'" "r \<notin> sq_user ` set (rx_kernel s)"
  shows "io_ok s'"
proof -
  obtain e where e: "sq_user e = r" "rx_kernel s' = rx_kernel s @ [e]" using assms(2) by (auto simp: joined_def)
  have c: "count (mset (rx_shards s (ShardFor x))) x = count (mset (map sq_user (rx_kernel s))) x" for x using assms(1) by (simp add: io_ok_def)
  have "count (mset (rx_shards s' (ShardFor x))) x = count (mset (map sq_user (rx_kernel s'))) x" for x
    using c [of x] assms(2) e unfolding joined_def by (cases "x = r") auto
  then show ?thesis using assms e by (auto simp: io_ok_def joined_def)
qed

lemma io_ok_same: "same_flight s s' \<Longrightarrow> io_ok s' = io_ok s"
  by (simp add: same_flight_def io_ok_def)

lemma io_ok_left:
  assumes "io_ok s" "rx_kernel s = xs @ e # ys" "sq_user e = r"
  shows "io_ok (UnlinkLocked r (s\<lparr>rx_kernel := xs @ ys\<rparr>))"
proof -
  let ?s = "UnlinkLocked r (s\<lparr>rx_kernel := xs @ ys\<rparr>)"
  have c: "count (mset (rx_shards s (ShardFor x))) x = count (mset (map sq_user (rx_kernel s))) x" for x using assms(1) by (simp add: io_ok_def)
  have "count (mset (rx_shards ?s (ShardFor x))) x = count (mset (map sq_user (rx_kernel ?s))) x" for x
    using c [of x] assms(2,3) by (cases "x = r") (auto simp: UnlinkLocked_def)
  moreover have "rx_outstanding s = of_nat (length (xs @ ys)) + 1" using assms(1,2) by (simp add: io_ok_def)
  then have "rx_outstanding ?s = of_nat (length (rx_kernel ?s))" by (simp add: UnlinkLocked_def)
  ultimately show ?thesis using assms by (auto simp: io_ok_def UnlinkLocked_def)
qed

lemma finish_same: "finish pinned r res s = (t, s') \<Longrightarrow> same_flight (UnlinkLocked r s) s'"
  by (auto simp: finish_def Let_def same_flight_def upd_req_def split: option.splits if_splits)

lemma io_ok_upd: "io_ok (upd_req r f s) = io_ok s"
  by (simp add: io_ok_def upd_req_def)

lemma UnlinkLocked_upd: "UnlinkLocked r (upd_req r f s) = upd_req r f (UnlinkLocked r s)"
  by (simp add: UnlinkLocked_def upd_req_def)

text \<open>A partial send whose rest is accepted goes on.\<close>

definition goes_on :: "cancel_table \<Rightarrow> ring_answer \<Rightarrow> nat \<Rightarrow> int \<Rightarrow> reactor \<Rightarrow> bool" where
  "goes_on ct ans r res s \<longleftrightarrow> is_partial res (rx_req s r) \<and> \<not> fst (SubmitPrepared ct ans r (UnlinkLocked r (upd_req r (advance_req res) s)))"

text \<open>A completion leaves the flight as it is without the request, or, when the rest of a send was accepted, with it again.\<close>

lemma Complete_flight:
  assumes "io_ok s" "rx_kernel s = xs @ e # ys" "sq_user e = r" "Complete ct ans pinned r res (s\<lparr>rx_kernel := xs @ ys\<rparr>) = (t, s')"
    "is_partial res (rx_req s r) \<longrightarrow> goes_on ct ans r res (s\<lparr>rx_kernel := xs @ ys\<rparr>)" "rx_ring s' = []"
  shows "io_ok s' \<and> mset (map sq_user (rx_kernel s')) = (if is_partial res (rx_req s r) then mset (map sq_user (rx_kernel s)) else mset (map sq_user (xs @ ys)))"
proof -
  define s0 where "s0 = UnlinkLocked r (s\<lparr>rx_kernel := xs @ ys\<rparr>)"
  have s0: "io_ok s0" "rx_kernel s0 = xs @ ys" using io_ok_left [OF assms(1-3)] by (simp_all add: s0_def UnlinkLocked_def)
  have r: "r \<notin> sq_user ` set (xs @ ys)" using assms(1-3) by (auto simp: io_ok_def)
  have fin: "io_ok s' \<and> rx_kernel s' = xs @ ys" if "same_flight s0 s'" using io_ok_same [OF that] s0 that by (simp add: same_flight_def)
  let ?q = "rx_req s r"
  show ?thesis
  proof (cases "is_partial res ?q")
    case False
    define f :: "IoRequest \<Rightarrow> IoRequest" where "f = (\<lambda>q. if 0 \<le> res \<and> rq_kind ?q = KAccept then q\<lparr>rq_aux := nat res\<rparr> else q)"
    have "(if 0 \<le> res \<and> rq_kind ?q = KAccept then upd_req r (\<lambda>q. q\<lparr>rq_aux := nat res\<rparr>) (s\<lparr>rx_kernel := xs @ ys\<rparr>) else s\<lparr>rx_kernel := xs @ ys\<rparr>) =
        upd_req r f (s\<lparr>rx_kernel := xs @ ys\<rparr>)" by (simp add: f_def upd_req_def)
    then have "finish pinned r (result_of res ?q) (upd_req r f (s\<lparr>rx_kernel := xs @ ys\<rparr>)) = (t, s')"
      using assms(4) False by (simp add: Complete_def)
    then have "same_flight (UnlinkLocked r (upd_req r f (s\<lparr>rx_kernel := xs @ ys\<rparr>))) s'" by (rule finish_same)
    then have "same_flight s0 s'" by (simp add: s0_def UnlinkLocked_def upd_req_def same_flight_def)
    then show ?thesis using fin False by simp
  next
    case True
    then have k: "rq_kind ?q \<noteq> KAccept" by (auto simp: is_partial_def)
    define s2 where "s2 = UnlinkLocked r (upd_req r (advance_req res) (s\<lparr>rx_kernel := xs @ ys\<rparr>))"
    have s2: "io_ok s2" "rx_kernel s2 = xs @ ys" using s0 by (simp_all add: s2_def s0_def UnlinkLocked_upd io_ok_upd) (simp_all add: upd_req_def)
    obtain b s1 where sp: "SubmitPrepared ct ans r s2 = (b, s1)" by fastforce
    have "\<not> b" using assms(5) True sp by (simp add: goes_on_def s2_def [symmetric])
    then have "s' = s1" using assms(4) True k sp by (simp add: Complete_def s2_def [symmetric])
    then have "joined r s2 s1" using SubmitPrepared_flight [OF sp] \<open>\<not> b\<close> assms(6) s2(1) by (simp add: flight_def io_ok_def)
    moreover have "io_ok s1" using io_ok_joined [OF s2(1) \<open>joined r s2 s1\<close>] r s2(2) by simp
    ultimately show ?thesis using True assms(2,3) s2(2) \<open>s' = s1\<close> by (auto simp: joined_def)
  qed
qed

text \<open>Anyone submits a request that is not in flight; other callers' submissions (cancel entries, the wake-up marker) take an entry left in the ring; the kernel answers an entry it holds, once,
  with any result; the reactor starts and stops. Two ghosts record what the code does not clean up: that an entry of a failed submission stayed in the ring, and that the rest of a partial
  send was refused.\<close>

record io_sys =
  iy_rx :: reactor
  iy_accepted :: "nat multiset"
  iy_finished :: "nat list"
  iy_left :: bool
  iy_cut :: bool

definition io_next :: "reactor \<Rightarrow> io_sys \<Rightarrow> io_sys" where
  "io_next s' y = y\<lparr>iy_rx := s', iy_left := (iy_left y \<or> rx_ring s' \<noteq> [])\<rparr>"

inductive io_step :: "io_sys \<Rightarrow> io_sys \<Rightarrow> bool" where
  io_submit: "r \<notin> sq_user ` set (rx_kernel (iy_rx y)) \<Longrightarrow> submit op ct ans r resume tok (iy_rx y) = (refused, s') \<Longrightarrow>
    io_step y (io_next s' (y\<lparr>iy_accepted := if refused then iy_accepted y else add_mset r (iy_accepted y)\<rparr>))"
| io_take: "rx_ring (iy_rx y) = e # rest \<Longrightarrow> io_step y (io_next ((iy_rx y)\<lparr>rx_ring := rest, rx_kernel := rx_kernel (iy_rx y) @ [e]\<rparr>) y)"
| io_complete: "rx_kernel (iy_rx y) = xs @ e # ys \<Longrightarrow> Complete ct ans pinned (sq_user e) res ((iy_rx y)\<lparr>rx_kernel := xs @ ys\<rparr>) = (t, s') \<Longrightarrow>
    io_step y (io_next s' (y\<lparr>iy_finished := if goes_on ct ans (sq_user e) res ((iy_rx y)\<lparr>rx_kernel := xs @ ys\<rparr>) then iy_finished y else iy_finished y @ [sq_user e],
      iy_cut := (iy_cut y \<or> is_partial res (rx_req (iy_rx y) (sq_user e)) \<and> \<not> goes_on ct ans (sq_user e) res ((iy_rx y)\<lparr>rx_kernel := xs @ ys\<rparr>))\<rparr>))"
| io_life: "io_step y (y\<lparr>iy_rx := (iy_rx y)\<lparr>rx_up := up, rx_stopping := stopping\<rparr>\<rparr>)"

lemma io_next_simps [simp]: "iy_rx (io_next s' y) = s'" "iy_accepted (io_next s' y) = iy_accepted y" "iy_finished (io_next s' y) = iy_finished y"
  "iy_left (io_next s' y) = (iy_left y \<or> rx_ring s' \<noteq> [])" "iy_cut (io_next s' y) = iy_cut y"
  by (simp_all add: io_next_def)

definition io_inv :: "io_sys \<Rightarrow> bool" where
  [inv_defs]: "io_inv y \<longleftrightarrow> (\<not> iy_left y \<and> \<not> iy_cut y \<longrightarrow>
     io_ok (iy_rx y) \<and> iy_accepted y = mset (map sq_user (rx_kernel (iy_rx y))) + mset (iy_finished y))"

lemma io_step_inv: "io_inv y \<Longrightarrow> io_step y y' \<Longrightarrow> io_inv y'"
proof (rotate_tac, induction rule: io_step.induct)
  case (io_submit r y op ct ans resume tok refused s')
  show ?case unfolding io_inv_def
  proof (intro impI, goal_cases)
    case 1
    then have i: "io_ok (iy_rx y)" "rx_ring (iy_rx y) = []" "rx_ring s' = []" "iy_accepted y = mset (map sq_user (rx_kernel (iy_rx y))) + mset (iy_finished y)"
      using io_submit(3) by (auto simp: io_inv_def io_ok_def)
    show ?case
    proof (cases refused)
      case True
      then have f: "same_flight (iy_rx y) s'" using submit_flight [OF io_submit(2)] i by (simp add: flight_def)
      then show ?thesis using io_ok_same [OF f] i True by (simp add: same_flight_def)
    next
      case False
      then have j: "joined r (iy_rx y) s'" using submit_flight [OF io_submit(2)] i by (simp add: flight_def)
      obtain e where "sq_user e = r" "rx_kernel s' = rx_kernel (iy_rx y) @ [e]" using j by (auto simp: joined_def)
      then show ?thesis using i io_ok_joined [OF i(1) j io_submit(1)] False by simp
    qed
  qed
next
  case (io_take y e rest)
  then show ?case by (auto simp: io_inv_def io_ok_def)
next
  case (io_complete y xs e ys ct ans pinned res t s')
  show ?case unfolding io_inv_def
  proof (intro impI, goal_cases)
    case 1
    then have i: "io_ok (iy_rx y)" "rx_ring s' = []" "iy_accepted y = mset (map sq_user (rx_kernel (iy_rx y))) + mset (iy_finished y)"
      and g: "is_partial res (rx_req (iy_rx y) (sq_user e)) = goes_on ct ans (sq_user e) res ((iy_rx y)\<lparr>rx_kernel := xs @ ys\<rparr>)"
      using io_complete(3) by (auto simp: io_inv_def goes_on_def)
    note c = Complete_flight [OF i(1) io_complete(1) refl io_complete(2) _ i(2)]
    show ?case using c g i(3) io_complete(1) by (cases "is_partial res (rx_req (iy_rx y) (sq_user e))") auto
  qed
next
  case (io_life y up stopping)
  then show ?case by (simp add: io_inv_def io_ok_def)
qed

interpretation ioflight: transition_system io_step io_inv
  by unfold_locales (rule io_step_inv)

definition io_start :: io_sys where "io_start = \<lparr>iy_rx = reactor0, iy_accepted = {#}, iy_finished = [], iy_left = False, iy_cut = False\<rparr>"

lemma io_start_inv: "io_inv io_start"
  by (simp add: io_inv_def io_start_def io_ok_def reactor0_def)

text \<open>(C26) Whatever is submitted, completed and stopped: every accepted request is in flight or has finished exactly once; the in-flight lists hold exactly the requests the kernel works on,
  each once and in its shard; and the counter \<open>Stop\<close> waits for is their number. The conditions are that no submission has failed with its entry left in the ring (\<open>iy_left\<close>; see
  \<open>failed_submission_is_taken_later\<close>) and that no rest of a partial send has been refused (\<open>iy_cut\<close>; see \<open>refused_rest_is_counted_twice\<close>), and that callers do not submit a request
  that is in flight.\<close>

theorem io_requests_finish_once:
  assumes "reach io_step io_start y" "\<not> iy_left y" "\<not> iy_cut y"
  shows "iy_accepted y = mset (map sq_user (rx_kernel (iy_rx y))) + mset (iy_finished y) \<and> distinct (map sq_user (rx_kernel (iy_rx y))) \<and>
    (\<forall>r. r \<in> set (rx_shards (iy_rx y) (ShardFor r)) \<longleftrightarrow> r \<in> sq_user ` set (rx_kernel (iy_rx y))) \<and> rx_outstanding (iy_rx y) = of_nat (length (rx_kernel (iy_rx y)))"
proof -
  have i: "io_inv y" using ioflight.reach_inv [OF assms(1) io_start_inv] .
  then have c: "count (mset (rx_shards (iy_rx y) (ShardFor r))) r = count (mset (map sq_user (rx_kernel (iy_rx y)))) r" for r using assms(2,3) by (simp add: io_inv_def io_ok_def)
  have "r \<in> set (rx_shards (iy_rx y) (ShardFor r)) \<longleftrightarrow> r \<in> sq_user ` set (rx_kernel (iy_rx y))" for r
    using arg_cong [OF c [of r], of "\<lambda>n. 0 < n"] by simp
  then show ?thesis using i assms(2,3) by (simp add: io_inv_def io_ok_def)
qed

definition io_read1 :: reactor where "io_read1 = snd (SubmitRead cancel_init Submitted 3 (100, 5) 0 64 None kNone reactor0)"

theorem io_requests_finish_once_witness:
  "rx_outstanding io_read1 = 1 \<and> 64 \<in> set (rx_shards io_read1 (ShardFor 64))"
proof -
  let ?y = "io_next io_read1 (io_start\<lparr>iy_accepted := {#64#}\<rparr>)"
  have "submit (DoRead 3 (100, 5) 0) cancel_init Submitted 64 None kNone (iy_rx io_start) = (False, io_read1)"
    by (simp add: SubmitRead_def SubmitOp_def io_start_def reactor0_def not_cancelled_none Let_def upd_req_def io_read1_def)
  from io_submit [OF _ this] have "io_step io_start ?y" by (simp add: io_start_def reactor0_def)
  then have r: "reach io_step io_start ?y" by (rule reach_one)
  have k: "map sq_user (rx_kernel io_read1) = [64]" "rx_ring io_read1 = []"
    by (simp_all add: io_read1_def SubmitRead_def SubmitOp_def reactor0_def not_cancelled_none Let_def upd_req_def io_Link_def ring_submit_def)
  then have "length (rx_kernel io_read1) = 1" "64 \<in> sq_user ` set (rx_kernel io_read1)" using arg_cong [OF k(1), of length] arg_cong [OF k(1), of set] by auto
  then show ?thesis using io_requests_finish_once [OF r] k(2) by (simp add: io_start_def)
qed

text \<open>A read of request 64 fails in \<open>io_uring_enter\<close> and is reported as failed; the next submission, of request 80, hands the kernel the entry of request 64 and leaves its own in the ring:
  the reactor counts request 80 in flight while the kernel works on request 64.\<close>

lemma failed_submission_is_taken_later:
  "let (refused, s1) = SubmitRead cancel_init (SubmitFails 4) 3 (100, 5) 0 64 None kNone reactor0;
       (refused2, s2) = SubmitRead cancel_init Submitted 3 (200, 5) 0 80 None kNone s1
   in refused \<and> \<not> refused2 \<and> map sq_user (rx_kernel s2) = [64] \<and> map sq_user (rx_ring s2) = [80] \<and> rx_outstanding s2 = 1"
  by (simp add: SubmitRead_def SubmitOp_def reactor0_def not_cancelled_none Let_def upd_req_def io_Link_def UnlinkLocked_def ring_leave_def ring_submit_def)

text \<open>A rest that is refused, because the reactor stops in the meantime, is taken off twice: the counter falls below zero and wraps around, so \<open>Stop\<close> waits for requests there are not.\<close>

definition io_s1 :: reactor where "io_s1 = snd (SubmitSendV cancel_init Submitted 5 [(100, 5), (200, 5)] 64 None kNone reactor0)"

lemma refused_rest_is_counted_twice:
  "rx_outstanding io_s1 = 1 \<and> rx_outstanding (snd (Complete cancel_init Submitted (\<lambda>t. False) 64 7 (io_s1\<lparr>rx_kernel := [], rx_stopping := True\<rparr>))) = - 1"
proof -
  have q: "rx_req io_s1 64 = io_req0\<lparr>rq_iov := [(100, 5), (200, 5)] @ replicate 6 (0, 0), rq_kind := KSend, rq_bufCount := 2, rq_handle := 5\<rparr>" "rx_outstanding io_s1 = 1" "rx_up io_s1"
    by (simp_all add: io_s1_def SubmitSendV_def FillBufs_def kMaxVectors_def SubmitOp_def reactor0_def not_cancelled_none Let_def upd_req_def io_Link_def io_req0_def ring_submit_def)
  let ?q = "rx_req io_s1 64"
  have p: "is_partial 7 ?q" by (simp add: q is_partial_def BufsRemaining_def numeral_2_eq_2)
  have ok: "req_ok ?q" by (simp add: q req_ok_def kMaxVectors_def)
  define s2 where "s2 = UnlinkLocked 64 (upd_req 64 (advance_req 7) (io_s1\<lparr>rx_kernel := [], rx_stopping := True\<rparr>))"
  have s2: "rx_req s2 64 = advance_req 7 ?q" "rx_outstanding s2 = 0" "rx_stopping s2" by (simp_all add: s2_def UnlinkLocked_def upd_req_def q(2))
  have "fst (SubmitPrepared cancel_init Submitted 64 s2)" using s2(3) by (simp add: SubmitPrepared_def SubmitOp_def Let_def)
  then obtain s3 where s3: "SubmitPrepared cancel_init Submitted 64 s2 = (True, s3)" by (metis (full_types) prod.collapse)
  have o3: "rx_outstanding s3 = 0" using s3 s2(2,3) by (auto simp: SubmitPrepared_def SubmitOp_def Let_def upd_req_def split: if_splits)
  have k: "rq_kind ?q \<noteq> KAccept" by (simp add: q)
  have "\<exists>x. Complete cancel_init Submitted (\<lambda>t. False) 64 7 (io_s1\<lparr>rx_kernel := [], rx_stopping := True\<rparr>) = finish (\<lambda>t. False) 64 x s3"
    using p k s3 by (intro exI [of _ "case rq_out (rx_req s3 64) of None \<Rightarrow> result_of 7 (rx_req io_s1 64) | Some x \<Rightarrow> x"]) (simp add: Complete_def s2_def [symmetric])
  moreover have "rx_outstanding (snd (finish (\<lambda>t. False) 64 x s3)) = - 1" for x
    using finish_same [of "\<lambda>t. False" 64 x s3, OF prod.collapse [symmetric]] o3 by (simp add: same_flight_def UnlinkLocked_def)
  ultimately show ?thesis using q(2) by auto
qed

section \<open>Cancellation reaches the first 64 of a shard\<close>

lemma RequestCancel_exactly:
  assumes "rx_up s" "CancelToken_Valid tok" "\<forall>i < kShards. length (filter (\<lambda>r. CancelToken_IsWithin ct (rq_token (rx_req s r)) tok) (rx_shards s i)) \<le> min 64 (room i)"
  shows "set (RequestCancel ct room tok s) = {r. \<exists>i < kShards. r \<in> set (rx_shards s i) \<and> CancelToken_IsWithin ct (rq_token (rx_req s r)) tok}"
proof -
  have "take (room i) (cancel_targets ct tok s i) = filter (\<lambda>r. CancelToken_IsWithin ct (rq_token (rx_req s r)) tok) (rx_shards s i)" if "i < kShards" for i
    using assms(2,3) that by (auto simp: cancel_targets_def)
  then show ?thesis using assms(1) by (fastforce simp: RequestCancel_def)
qed

text \<open>With 65 requests in one shard, cancelling everything, as \<open>Stop\<close> does, leaves one of them running.\<close>

lemma the_65th_request_is_not_cancelled:
  assumes "rx_up s" "rx_shards s = (\<lambda>i. if i = 0 then [0..<65] else [])"
  shows "64 \<in> set (rx_shards s 0) \<and> 64 \<notin> set (RequestCancel ct room kNone s)"
proof -
  have "cancel_targets ct kNone s i = (if i = 0 then [0..<64] else [])" for i by (simp add: cancel_targets_def assms(2) CancelToken_Valid_def)
  then have "64 \<notin> set (take (room i) (cancel_targets ct kNone s i))" for i using set_take_subset [of "room i" "[0..<64]"] by auto
  then show ?thesis using assms by (auto simp: RequestCancel_def)
qed

lemma ShardFor_less: "ShardFor r < kShards"
proof -
  have "unat (drop_bit 60 (drop_bit 4 (of_nat r :: u64) * 0x9E3779B97F4A7C15) AND 15) \<le> unat (15 :: u64)"
    unfolding word_le_nat_alt [symmetric] by (rule word_and_le1)
  then show ?thesis unfolding ShardFor_def kShards_def by (simp del: unsigned_and_eq)
qed

end
