(* ===== verification/IoStreams.thy ===== *)
theory IoStreams
  imports IoRequests
begin

text \<open>
  Streams and acceptors on top of the reactor (\<^verbatim>\<open>src/IoShared.cpp\<close>). A stream keeps one send and one receive at the reactor at a time and queues the others; an acceptor
  keeps several accepts posted and hands the sockets to waiters. Each section under a lock is one step; what the reactor answers is part of the step. Requests, waiters and sockets are
  numbers, 0 no socket. A waiter names a task, and the scheduler is initialised.
\<close>

section \<open>A chain of requests\<close>

record Chain =
  ch_queue :: "nat list"
  ch_busy :: bool
  ch_queued :: nat

definition chain_empty :: Chain where "chain_empty = \<lparr>ch_queue = [], ch_busy = False, ch_queued = 0\<rparr>"

text \<open>\<open>SubmitChained\<close>: refused at once for bad buffers or a cancelled token; otherwise queued behind a busy chain, or submitted. \<open>Told\<close>: the caller is told at once. Whether \<open>FillBufs\<close> refuses depends on the number of buffers only.\<close>

definition chain_admit :: "nat \<Rightarrow> Chain \<Rightarrow> bool \<times> Chain" where
  "chain_admit req c = (if ch_busy c then (False, c\<lparr>ch_queue := ch_queue c @ [req], ch_queued := ch_queued c + 1\<rparr>) else (True, c\<lparr>ch_busy := True\<rparr>))"

datatype chained = Told IoStatus int | Queued | SubmitNow

definition SubmitChained :: "cancel_table \<Rightarrow> u32 \<Rightarrow> iovec list \<Rightarrow> nat \<Rightarrow> Chain \<Rightarrow> chained \<times> Chain" where
  "SubmitChained ct tok bufs req c =
    (if FillBufs bufs io_req0 = None then (Told IoFailed EMSGSIZE, c)
     else if CancelToken_Cancelled ct tok then (Told IoCancelled 0, c)
     else let (now, c1) = chain_admit req c in (if now then SubmitNow else Queued, c1))"

text \<open>The locked part of \<open>Advance\<close>: the next request, or the chain is idle.\<close>

definition Advance_pop :: "Chain \<Rightarrow> nat option \<times> Chain" where
  "Advance_pop c = (case ch_queue c of n # rest \<Rightarrow> (Some n, c\<lparr>ch_queue := rest, ch_queued := ch_queued c - 1\<rparr>) | [] \<Rightarrow> (None, c\<lparr>ch_busy := False\<rparr>))"

text \<open>Who goes on with the chain: a call about to submit its own request, \<open>Advance\<close> about to submit a queued one, the reactor, or someone in \<open>Advance\<close>.\<close>

datatype chain_hold = OwnSubmit nat | QueuedSubmit nat | AtReactor nat | Advancing

text \<open>What the reactor answers: it takes the request; it refuses it at once; or the submission fails and its entry stays in the ring (see \<open>SubmitOp\<close>).\<close>

datatype chain_answer = Taken | Refused | RefusedLeft

text \<open>\<open>cy_left\<close>: the refused requests with an entry left in the ring. The kernel takes such an entry with a later submission, and its completion calls \<open>Advance\<close> like any other; the ghost
  \<open>cy_late\<close> records that this has happened. \<open>cy_told\<close>: refused, and the caller told; \<open>cy_dropped\<close>: refused after it was queued, where nobody is told and its task is not woken.\<close>

record chain_sys =
  cy_chain :: Chain
  cy_agents :: "chain_hold list"
  cy_called :: "nat list"
  cy_log :: "nat list"
  cy_told :: "nat list"
  cy_finished :: "nat list"
  cy_dropped :: "nat list"
  cy_left :: "nat list"
  cy_late :: bool

definition hold_list :: "chain_hold \<Rightarrow> nat list" where
  "hold_list h = (case h of OwnSubmit r \<Rightarrow> [r] | QueuedSubmit r \<Rightarrow> [r] | _ \<Rightarrow> [])"

text \<open>\<open>SubmitOne\<close> by the agent \<open>h\<close>: the reactor takes the request, or refuses it at once. The call that submits its own request returns the refusal to its caller; \<open>Advance\<close> drops it.\<close>

definition SubmitOne :: "chain_answer \<Rightarrow> chain_hold \<Rightarrow> chain_sys \<Rightarrow> chain_hold \<times> chain_sys" where
  "SubmitOne ans h y =
    (let keep = (\<lambda>r y. y\<lparr>cy_log := cy_log y @ [r], cy_left := if ans = RefusedLeft then cy_left y @ [r] else cy_left y\<rparr>) in
     case h of
       OwnSubmit r \<Rightarrow> if ans = Taken then (AtReactor r, keep r y) else (Advancing, keep r (y\<lparr>cy_told := cy_told y @ [r]\<rparr>))
     | QueuedSubmit r \<Rightarrow> if ans = Taken then (AtReactor r, keep r y) else (Advancing, keep r (y\<lparr>cy_dropped := cy_dropped y @ [r]\<rparr>))
     | _ \<Rightarrow> (h, y))"

definition Advance :: "chain_sys \<Rightarrow> chain_hold list \<times> chain_sys" where
  "Advance y = (let (n, c) = Advance_pop (cy_chain y) in (case n of Some r \<Rightarrow> [QueuedSubmit r] | None \<Rightarrow> [], y\<lparr>cy_chain := c\<rparr>))"

inductive chain_step :: "chain_sys \<Rightarrow> chain_sys \<Rightarrow> bool" where
  chain_call: "SubmitChained ct tok bufs r (cy_chain y) = (d, c) \<Longrightarrow>
    chain_step y (case d of Told st e \<Rightarrow> y\<lparr>cy_chain := c\<rparr> | Queued \<Rightarrow> y\<lparr>cy_chain := c, cy_called := cy_called y @ [r]\<rparr>
      | SubmitNow \<Rightarrow> y\<lparr>cy_chain := c, cy_called := cy_called y @ [r], cy_agents := cy_agents y @ [OwnSubmit r]\<rparr>)"
| chain_submit: "cy_agents y = as @ h # bs \<Longrightarrow> hold_list h \<noteq> [] \<Longrightarrow> SubmitOne ans h y = (h', y') \<Longrightarrow> chain_step y (y'\<lparr>cy_agents := as @ h' # bs\<rparr>)"
| chain_complete: "cy_agents y = as @ AtReactor r # bs \<Longrightarrow> chain_step y (y\<lparr>cy_agents := as @ Advancing # bs, cy_finished := cy_finished y @ [r]\<rparr>)"
| chain_late: "r \<in> set (cy_left y) \<Longrightarrow>
    chain_step y (y\<lparr>cy_left := remove1 r (cy_left y), cy_agents := cy_agents y @ [Advancing], cy_finished := cy_finished y @ [r], cy_late := True\<rparr>)"
| chain_advance: "cy_agents y = as @ Advancing # bs \<Longrightarrow> Advance y = (hs, y') \<Longrightarrow> chain_step y (y'\<lparr>cy_agents := as @ hs @ bs\<rparr>)"

definition reactor_list :: "chain_hold \<Rightarrow> nat list" where
  "reactor_list h = (case h of AtReactor r \<Rightarrow> [r] | _ \<Rightarrow> [])"

definition chain_ok :: "chain_sys \<Rightarrow> bool" where
  "chain_ok y \<longleftrightarrow> length (cy_agents y) = (if ch_busy (cy_chain y) then 1 else 0) \<and> ch_queued (cy_chain y) = length (ch_queue (cy_chain y)) \<and>
    (\<not> ch_busy (cy_chain y) \<longrightarrow> ch_queue (cy_chain y) = []) \<and>
    cy_called y = cy_log y @ concat (map hold_list (cy_agents y)) @ ch_queue (cy_chain y) \<and>
    mset (cy_log y) = mset (cy_told y) + mset (cy_finished y) + mset (cy_dropped y) + mset (concat (map reactor_list (cy_agents y)))"

definition chain_inv :: "chain_sys \<Rightarrow> bool" where
  [inv_defs]: "chain_inv y \<longleftrightarrow> cy_late y \<or> chain_ok y"

lemma SubmitOne_late: "SubmitOne ans h y = (h', y') \<Longrightarrow> cy_late y' = cy_late y"
  by (auto simp: SubmitOne_def Let_def split: chain_hold.splits if_splits)

lemma chain_step_inv: "chain_inv y \<Longrightarrow> chain_step y y' \<Longrightarrow> chain_inv y'"
proof (rotate_tac, induction rule: chain_step.induct)
  case (chain_call ct tok bufs r y d c)
  then show ?case by (auto simp: chain_inv_def chain_ok_def SubmitChained_def chain_admit_def hold_list_def reactor_list_def split: if_splits)
next
  case (chain_submit y as h bs ans h' y')
  show ?case
  proof (cases "cy_late y")
    case True
    then show ?thesis using SubmitOne_late [OF chain_submit(3)] by (simp add: chain_inv_def)
  next
    case False
    then have o: "chain_ok y" "as = []" "bs = []" using chain_submit(1,4) by (auto simp: chain_inv_def chain_ok_def split: if_splits)
    then show ?thesis using chain_submit(1-3)
      by (cases h) (auto simp: chain_inv_def chain_ok_def SubmitOne_def Let_def hold_list_def reactor_list_def split: if_splits)
  qed
next
  case (chain_complete y as r bs)
  then show ?case by (auto simp: chain_inv_def chain_ok_def hold_list_def reactor_list_def split: if_splits)
next
  case (chain_late r y)
  then show ?case by (simp add: chain_inv_def)
next
  case (chain_advance y as bs hs y')
  then show ?case by (cases "ch_queue (cy_chain y)") (auto simp: chain_inv_def chain_ok_def Advance_def Advance_pop_def hold_list_def reactor_list_def split: if_splits)
qed

interpretation chains: transition_system chain_step chain_inv
  by unfold_locales (rule chain_step_inv)

definition chain_start :: chain_sys where
  "chain_start = \<lparr>cy_chain = chain_empty, cy_agents = [], cy_called = [], cy_log = [], cy_told = [], cy_finished = [], cy_dropped = [], cy_left = [], cy_late = False\<rparr>"

lemma chain_start_inv: "chain_inv chain_start"
  by (simp add: chain_inv_def chain_ok_def chain_start_def chain_empty_def)

text \<open>(C28) However sends (or receives) of a stream are called, refused and completed at the same time, as long as no entry of a failed submission has completed later (\<open>cy_late\<close>): at most one agent
  goes on with the chain, so the reactor gets the requests one at a time, and in the order of the calls; a queued request never waits without that agent; and each request given to the
  reactor is at the reactor, has finished, was refused and its caller told, or was refused after it had been queued (\<open>cy_dropped\<close>), in which case its suspended task is never woken.\<close>

theorem stream_keeps_the_order:
  assumes "reach chain_step chain_start y" "\<not> cy_late y"
  shows "length (cy_agents y) \<le> 1 \<and> cy_called y = cy_log y @ concat (map hold_list (cy_agents y)) @ ch_queue (cy_chain y) \<and>
    (ch_queue (cy_chain y) \<noteq> [] \<longrightarrow> cy_agents y \<noteq> []) \<and> ch_queued (cy_chain y) = length (ch_queue (cy_chain y)) \<and>
    mset (cy_log y) = mset (cy_told y) + mset (cy_finished y) + mset (cy_dropped y) + mset (concat (map reactor_list (cy_agents y)))"
proof -
  have "chain_ok y" using chains.reach_inv [OF assms(1) chain_start_inv] assms(2) by (simp add: chain_inv_def)
  then show ?thesis by (auto simp: chain_ok_def split: if_splits)
qed

text \<open>Two sends; the first completes, and the reactor refuses the second, whose task is suspended.\<close>

definition chain_y1 :: chain_sys where "chain_y1 = chain_start\<lparr>cy_chain := chain_empty\<lparr>ch_busy := True\<rparr>, cy_called := [7], cy_agents := [OwnSubmit 7]\<rparr>"
definition chain_y2 :: chain_sys where "chain_y2 = chain_y1\<lparr>cy_agents := [AtReactor 7], cy_log := [7]\<rparr>"
definition chain_y3 :: chain_sys where "chain_y3 = chain_y2\<lparr>cy_chain := \<lparr>ch_queue = [8], ch_busy = True, ch_queued = 1\<rparr>, cy_called := [7, 8]\<rparr>"
definition chain_y4 :: chain_sys where "chain_y4 = chain_y3\<lparr>cy_agents := [Advancing], cy_finished := [7]\<rparr>"
definition chain_y5 :: chain_sys where "chain_y5 = chain_y4\<lparr>cy_chain := \<lparr>ch_queue = [], ch_busy = True, ch_queued = 0\<rparr>, cy_agents := [QueuedSubmit 8]\<rparr>"
definition chain_y6 :: chain_sys where "chain_y6 = chain_y5\<lparr>cy_agents := [Advancing], cy_log := [7, 8], cy_dropped := [8]\<rparr>"

lemmas chain_demo = chain_y1_def chain_y2_def chain_y3_def chain_y4_def chain_y5_def chain_y6_def chain_start_def chain_empty_def SubmitOne_def Advance_def Advance_pop_def

lemma chain_call_eq: "SubmitChained cancel_init kNone [(100, 5)] r c = (if ch_busy c then Queued else SubmitNow, snd (chain_admit r c))"
  by (simp add: SubmitChained_def FillBufs_def kMaxVectors_def not_cancelled_none chain_admit_def)

lemma chain_y6_reached: "reach chain_step chain_start chain_y6"
proof -
  have 1: "chain_step chain_start chain_y1" using chain_call [OF chain_call_eq [of 7 "cy_chain chain_start"]] by (simp add: chain_demo chain_admit_def)
  have 2: "chain_step chain_y1 chain_y2" using chain_submit [of chain_y1 "[]" "OwnSubmit 7" "[]" Taken] by (simp add: chain_demo hold_list_def)
  have 3: "chain_step chain_y2 chain_y3" using chain_call [OF chain_call_eq [of 8 "cy_chain chain_y2"]] by (simp add: chain_demo chain_admit_def)
  have 4: "chain_step chain_y3 chain_y4" using chain_complete [of chain_y3 "[]" 7 "[]"] by (simp add: chain_demo)
  have 5: "chain_step chain_y4 chain_y5" using chain_advance [of chain_y4 "[]" "[]"] by (simp add: chain_demo)
  have 6: "chain_step chain_y5 chain_y6" using chain_submit [of chain_y5 "[]" "QueuedSubmit 8" "[]" Refused] by (simp add: chain_demo hold_list_def)
  show ?thesis by (rule reach_step [OF reach_step [OF reach_step [OF reach_step [OF reach_step [OF reach_one [of chain_step, OF 1] 2] 3] 4] 5] 6])
qed

theorem stream_keeps_the_order_witness: "cy_called chain_y6 = [7, 8] \<and> cy_log chain_y6 = [7, 8] \<and> ch_queue (cy_chain chain_y6) = []"
proof -
  have "cy_called chain_y6 = [7, 8]" "cy_agents chain_y6 = [Advancing]" "ch_queue (cy_chain chain_y6) = []" "\<not> cy_late chain_y6" by (simp_all add: chain_demo)
  then show ?thesis using stream_keeps_the_order [OF chain_y6_reached] by (simp add: hold_list_def)
qed

text \<open>The second request has its result, but neither a caller who is told nor a completion that wakes its task.\<close>

lemma queued_request_refused_is_never_woken: "reach chain_step chain_start chain_y6 \<and> cy_dropped chain_y6 = [8] \<and> cy_told chain_y6 = [] \<and> cy_finished chain_y6 = [7]"
  using chain_y6_reached by (simp add: chain_demo)

text \<open>The condition is needed: the submission of the first request fails with its entry left in the ring, the second is taken, a third is queued; when the entry of the first completes after
  all, its \<open>Advance\<close> submits the third while the second is still at the reactor.\<close>

definition late_0 :: chain_sys where "late_0 = chain_y1\<lparr>cy_agents := [Advancing], cy_log := [7], cy_told := [7], cy_left := [7]\<rparr>"
definition late_1 :: chain_sys where "late_1 = late_0\<lparr>cy_chain := chain_empty, cy_agents := []\<rparr>"
definition late_2 :: chain_sys where "late_2 = late_1\<lparr>cy_chain := chain_empty\<lparr>ch_busy := True\<rparr>, cy_called := [7, 8], cy_agents := [OwnSubmit 8]\<rparr>"
definition late_3 :: chain_sys where "late_3 = late_2\<lparr>cy_agents := [AtReactor 8], cy_log := [7, 8]\<rparr>"
definition late_4 :: chain_sys where "late_4 = late_3\<lparr>cy_chain := \<lparr>ch_queue = [9], ch_busy = True, ch_queued = 1\<rparr>, cy_called := [7, 8, 9]\<rparr>"
definition late_5 :: chain_sys where "late_5 = late_4\<lparr>cy_agents := [AtReactor 8, Advancing], cy_left := [], cy_finished := [7], cy_late := True\<rparr>"
definition late_6 :: chain_sys where "late_6 = late_5\<lparr>cy_chain := \<lparr>ch_queue = [], ch_busy = True, ch_queued = 0\<rparr>, cy_agents := [AtReactor 8, QueuedSubmit 9]\<rparr>"
definition late_7 :: chain_sys where "late_7 = late_6\<lparr>cy_agents := [AtReactor 8, AtReactor 9], cy_log := [7, 8, 9]\<rparr>"

lemmas late_demo = late_0_def late_1_def late_2_def late_3_def late_4_def late_5_def late_6_def late_7_def chain_y1_def chain_start_def chain_empty_def SubmitOne_def Advance_def Advance_pop_def

lemma late_completion_sends_two_at_once: "reach chain_step chain_start late_7 \<and> cy_agents late_7 = [AtReactor 8, AtReactor 9]"
proof -
  have a: "chain_step chain_start chain_y1" using chain_call [OF chain_call_eq [of 7 "cy_chain chain_start"]] by (simp add: chain_demo chain_admit_def)
  have b: "chain_step chain_y1 late_0" using chain_submit [of chain_y1 "[]" "OwnSubmit 7" "[]" RefusedLeft] by (simp add: late_demo hold_list_def)
  have c: "chain_step late_0 late_1" using chain_advance [of late_0 "[]" "[]"] by (simp add: late_demo)
  have d: "chain_step late_1 late_2" using chain_call [OF chain_call_eq [of 8 "cy_chain late_1"]] by (simp add: late_demo chain_admit_def)
  have e: "chain_step late_2 late_3" using chain_submit [of late_2 "[]" "OwnSubmit 8" "[]" Taken] by (simp add: late_demo hold_list_def)
  have f: "chain_step late_3 late_4" using chain_call [OF chain_call_eq [of 9 "cy_chain late_3"]] by (simp add: late_demo chain_admit_def)
  have g: "chain_step late_4 late_5" using chain_late [of 7 late_4] by (simp add: late_demo)
  have h: "chain_step late_5 late_6" using chain_advance [of late_5 "[AtReactor 8]" "[]"] by (simp add: late_demo)
  have i: "chain_step late_6 late_7" using chain_submit [of late_6 "[AtReactor 8]" "QueuedSubmit 9" "[]" Taken] by (simp add: late_demo hold_list_def)
  have "reach chain_step chain_start late_7"
    by (rule reach_step [OF reach_step [OF reach_step [OF reach_step [OF reach_step [OF reach_step [OF reach_step [OF reach_step [OF reach_one [of chain_step, OF a] b] c] d] e] f] g] h] i])
  then show ?thesis by (simp add: late_7_def)
qed

section \<open>The acceptor\<close>

datatype accept_slot = SlotIdle | SlotPosting nat | SlotPosted nat

text \<open>\<open>ac_given\<close>: the waiters that were woken, with what they were given. \<open>ac_taken\<close>: the sockets handed out without a wait.\<close>

record acceptor =
  ac_slots :: "accept_slot list"
  ac_ready :: "nat list"
  ac_wait :: "nat list"
  ac_token :: "nat \<Rightarrow> u32"
  ac_outstanding :: int
  ac_stopping :: bool
  ac_given :: "(nat \<times> nat) list"
  ac_taken :: "nat list"
  ac_closed :: "nat list"

text \<open>\<open>Post\<close> up to the count, with the socket the system made (0: none) and whether it could be registered.\<close>

definition Post_make :: "nat \<Rightarrow> nat \<Rightarrow> bool \<Rightarrow> acceptor \<Rightarrow> acceptor" where
  "Post_make i sock registered a =
    (if sock = 0 then a
     else if \<not> registered then a\<lparr>ac_closed := ac_closed a @ [sock]\<rparr>
     else a\<lparr>ac_slots := (ac_slots a)[i := SlotPosting sock], ac_outstanding := ac_outstanding a + 1\<rparr>)"

text \<open>\<open>Post\<close>, the call of \<open>SubmitAccept\<close>. \<open>closes\<close>: on this platform \<open>SubmitAccept\<close> closes the socket it is given (it does on Linux).\<close>

definition Post_submit :: "bool \<Rightarrow> nat \<Rightarrow> nat \<Rightarrow> bool \<Rightarrow> acceptor \<Rightarrow> acceptor" where
  "Post_submit closes i sock immediate a =
    (let a1 = (if closes then a\<lparr>ac_closed := ac_closed a @ [sock]\<rparr> else a) in
     if immediate then a1\<lparr>ac_outstanding := ac_outstanding a1 - 1, ac_closed := ac_closed a1 @ [sock], ac_slots := (ac_slots a1)[i := SlotIdle]\<rparr>
     else a1\<lparr>ac_slots := (ac_slots a1)[i := SlotPosted sock]\<rparr>)"

text \<open>The loop of \<open>OnComplete\<close>: the first waiter that was not cancelled, the ones passed over (newest first), and the rest.\<close>

fun first_live :: "(nat \<Rightarrow> bool) \<Rightarrow> nat list \<Rightarrow> nat list \<Rightarrow> nat option \<times> nat list \<times> nat list" where
  "first_live gone [] skipped = (None, skipped, [])"
| "first_live gone (w # ws) skipped = (if gone w then first_live gone ws (w # skipped) else (Some w, skipped, ws))"

definition OnComplete :: "cancel_table \<Rightarrow> nat \<Rightarrow> nat \<Rightarrow> bool \<Rightarrow> acceptor \<Rightarrow> acceptor" where
  "OnComplete ct i accepted completed a =
    (let a1 = a\<lparr>ac_slots := (ac_slots a)[i := SlotIdle], ac_outstanding := ac_outstanding a - 1\<rparr> in
     if completed \<and> \<not> ac_stopping a
     then let (handTo, skipped, rest) = first_live (\<lambda>w. CancelToken_Cancelled ct (ac_token a w)) (ac_wait a) [] in
       (case handTo of
          Some w \<Rightarrow> a1\<lparr>ac_wait := rest, ac_given := ac_given a @ (w, accepted) # map (\<lambda>v. (v, 0)) skipped\<rparr>
        | None \<Rightarrow> a1\<lparr>ac_wait := rest, ac_ready := ac_ready a @ [accepted], ac_given := ac_given a @ map (\<lambda>v. (v, 0)) skipped\<rparr>)
     else a1\<lparr>ac_closed := ac_closed a @ [accepted]\<rparr>)"

definition TryTake :: "acceptor \<Rightarrow> nat \<times> acceptor" where
  "TryTake a = (if ac_ready a = [] then (0, a) else (last (ac_ready a), a\<lparr>ac_ready := butlast (ac_ready a), ac_taken := ac_taken a @ [last (ac_ready a)]\<rparr>))"

text \<open>\<open>Some s\<close>: the caller has its socket, 0 for none. \<open>None\<close>: it waits.\<close>

definition TakeOrQueue :: "cancel_table \<Rightarrow> nat \<Rightarrow> u32 \<Rightarrow> acceptor \<Rightarrow> nat option \<times> acceptor" where
  "TakeOrQueue ct w tok a =
    (if CancelToken_Cancelled ct tok then (Some 0, a)
     else if ac_ready a \<noteq> [] then (let (s, a1) = TryTake a in (Some s, a1))
     else if ac_stopping a then (Some 0, a)
     else (None, a\<lparr>ac_wait := ac_wait a @ [w], ac_token := (ac_token a)(w := tok)\<rparr>))"

definition acceptor_CancelWaiters :: "cancel_table \<Rightarrow> u32 \<Rightarrow> acceptor \<Rightarrow> nat \<times> acceptor" where
  "acceptor_CancelWaiters ct tok a =
    (let match = (\<lambda>w. \<not> CancelToken_Valid tok \<or> CancelToken_IsWithin ct (ac_token a w) tok); taken = filter match (ac_wait a)
     in (length taken, a\<lparr>ac_wait := filter (\<lambda>w. \<not> match w) (ac_wait a), ac_given := ac_given a @ map (\<lambda>v. (v, 0)) taken\<rparr>))"

definition acceptor_Stop_begin :: "acceptor \<Rightarrow> acceptor" where
  "acceptor_Stop_begin a = a\<lparr>ac_stopping := True\<rparr>"

definition acceptor_Stop_close :: "acceptor \<Rightarrow> acceptor" where
  "acceptor_Stop_close a = a\<lparr>ac_closed := ac_closed a @ ac_ready a, ac_ready := []\<rparr>"

record accept_sys =
  as_acc :: acceptor
  as_made :: "nat multiset"
  as_queued :: "nat multiset"
  as_stopped :: bool

text \<open>The system makes sockets that are open nowhere else. A waiter object waits again only after it was woken. \<open>as_stopped\<close>: \<open>Stop\<close> has cancelled the waiters.\<close>

inductive accept_step :: "bool \<Rightarrow> accept_sys \<Rightarrow> accept_sys \<Rightarrow> bool" for closes :: bool where
  acc_make: "i < length (ac_slots (as_acc y)) \<Longrightarrow> ac_slots (as_acc y) ! i = SlotIdle \<Longrightarrow> sock \<notin># as_made y \<Longrightarrow>
    accept_step closes y (y\<lparr>as_acc := Post_make i sock reg (as_acc y), as_made := if sock = 0 then as_made y else add_mset sock (as_made y)\<rparr>)"
| acc_submit: "i < length (ac_slots (as_acc y)) \<Longrightarrow> ac_slots (as_acc y) ! i = SlotPosting sock \<Longrightarrow> accept_step closes y (y\<lparr>as_acc := Post_submit closes i sock immediate (as_acc y)\<rparr>)"
| acc_complete: "i < length (ac_slots (as_acc y)) \<Longrightarrow> ac_slots (as_acc y) ! i = SlotPosted sock \<Longrightarrow> accept_step closes y (y\<lparr>as_acc := OnComplete ct i sock completed (as_acc y)\<rparr>)"
| acc_try: "accept_step closes y (y\<lparr>as_acc := snd (TryTake (as_acc y))\<rparr>)"
| acc_take: "w \<notin> set (ac_wait (as_acc y)) \<Longrightarrow> TakeOrQueue ct w tok (as_acc y) = (r, a) \<Longrightarrow>
    accept_step closes y (y\<lparr>as_acc := a, as_queued := if r = None then add_mset w (as_queued y) else as_queued y\<rparr>)"
| acc_cancel: "accept_step closes y (y\<lparr>as_acc := snd (acceptor_CancelWaiters ct tok (as_acc y))\<rparr>)"
| acc_stop: "accept_step closes y (y\<lparr>as_acc := acceptor_Stop_begin (as_acc y)\<rparr>)"
| acc_stop_cancel: "ac_stopping (as_acc y) \<Longrightarrow> accept_step closes y (y\<lparr>as_acc := snd (acceptor_CancelWaiters ct kNone (as_acc y)), as_stopped := True\<rparr>)"
| acc_stop_close: "as_stopped y \<Longrightarrow> accept_step closes y (y\<lparr>as_acc := acceptor_Stop_close (as_acc y)\<rparr>)"

definition slot_socks :: "accept_slot \<Rightarrow> nat multiset" where
  "slot_socks k = (case k of SlotIdle \<Rightarrow> {#} | SlotPosting s \<Rightarrow> {#s#} | SlotPosted s \<Rightarrow> {#s#})"

definition handed :: "acceptor \<Rightarrow> nat list" where
  "handed a = filter (\<lambda>s. s \<noteq> 0) (map snd (ac_given a))"

definition sockets :: "acceptor \<Rightarrow> nat multiset" where
  "sockets a = sum_list (map slot_socks (ac_slots a)) + mset (ac_ready a) + mset (handed a) + mset (ac_taken a) + mset (ac_closed a)"

definition accept_inv :: "accept_sys \<Rightarrow> bool" where
  [inv_defs]: "accept_inv y \<longleftrightarrow> sockets (as_acc y) = as_made y \<and> 0 \<notin># as_made y \<and> (\<forall>s. count (as_made y) s \<le> 1) \<and>
    as_queued y = mset (ac_wait (as_acc y)) + mset (map fst (ac_given (as_acc y))) \<and> (ac_ready (as_acc y) \<noteq> [] \<longrightarrow> ac_wait (as_acc y) = []) \<and>
    (as_stopped y \<longrightarrow> ac_stopping (as_acc y) \<and> ac_wait (as_acc y) = []) \<and>
    ac_outstanding (as_acc y) = int (bool_count (\<lambda>k. k \<noteq> SlotIdle) (ac_slots (as_acc y)))"

lemma first_live_spec: "first_live gone ws sk = (h, sk', rest) \<Longrightarrow> mset ws + mset sk = mset (case h of None \<Rightarrow> [] | Some w \<Rightarrow> [w]) + mset sk' + mset rest \<and> (h = None \<longrightarrow> rest = [])"
proof (induction ws arbitrary: sk)
  case (Cons w ws)
  then show ?case using Cons(1) [of "w # sk"] by (cases "gone w") auto
qed auto

lemma slot_sum_update: "i < length ks \<Longrightarrow> sum_list (map slot_socks (ks[i := k])) + slot_socks (ks ! i) = sum_list (map slot_socks ks) + slot_socks k"
  by (induction ks arbitrary: i) (auto split: nat.splits simp: nth_Cons ac_simps)

lemma sockets_slot:
  assumes "i < length (ac_slots a)"
  shows "sockets (a\<lparr>ac_slots := (ac_slots a)[i := k]\<rparr>) + slot_socks (ac_slots a ! i) = sockets a + slot_socks k"
  using slot_sum_update [OF assms, of k] by (auto simp: sockets_def handed_def multiset_eq_iff)

lemma zero_pairs [simp]: "filter (\<lambda>s. s \<noteq> 0) (map snd (map (\<lambda>v. (v, 0 :: nat)) ws)) = []" "map fst (map (\<lambda>v. (v, 0 :: nat)) ws) = ws"
  by (induction ws) auto

lemma accept_complete_inv:
  assumes "accept_inv y" "i < length (ac_slots (as_acc y))" "ac_slots (as_acc y) ! i = SlotPosted sock"
  shows "accept_inv (y\<lparr>as_acc := OnComplete ct i sock completed (as_acc y)\<rparr>)"
proof -
  let ?a = "as_acc y"
  define a1 where "a1 = ?a\<lparr>ac_slots := (ac_slots ?a)[i := SlotIdle], ac_outstanding := ac_outstanding ?a - 1\<rparr>"
  have "sockets (?a\<lparr>ac_slots := (ac_slots ?a)[i := SlotIdle]\<rparr>) + {#sock#} = sockets ?a" using sockets_slot [OF assms(2), of SlotIdle] by (simp add: assms(3) slot_socks_def)
  moreover have "sockets a1 = sockets (?a\<lparr>ac_slots := (ac_slots ?a)[i := SlotIdle]\<rparr>)" by (simp add: a1_def sockets_def handed_def)
  moreover have "sockets ?a = as_made y" using assms(1) by (simp add: accept_inv_def)
  ultimately have so: "sockets a1 + {#sock#} = as_made y" by simp
  have "sock \<in># as_made y" unfolding so [symmetric] by simp
  moreover have "0 \<notin># as_made y" using assms(1) by (simp add: accept_inv_def)
  ultimately have nz: "sock \<noteq> 0" by metis
  have out: "ac_outstanding a1 = int (bool_count (\<lambda>k. k \<noteq> SlotIdle) (ac_slots a1))"
    using bool_count_update [OF assms(2), of "\<lambda>k. k \<noteq> SlotIdle" SlotIdle] assms(1,3) by (simp add: a1_def accept_inv_def)
  obtain h sk rest where f: "first_live (\<lambda>w. CancelToken_Cancelled ct (ac_token ?a w)) (ac_wait ?a) [] = (h, sk, rest)" by (metis prod_cases3)
  have m: "mset (ac_wait ?a) = mset (case h of None \<Rightarrow> [] | Some w \<Rightarrow> [w]) + mset sk + mset rest" "h = None \<longrightarrow> rest = []" using first_live_spec [OF f] by auto
  have rd: "ac_ready ?a \<noteq> [] \<Longrightarrow> h = None" using m(1) assms(1) by (cases h) (auto simp: accept_inv_def)
  show ?thesis
  proof (cases "completed \<and> \<not> ac_stopping ?a")
    case False
    have o: "OnComplete ct i sock completed ?a = a1\<lparr>ac_closed := ac_closed ?a @ [sock]\<rparr>" unfolding OnComplete_def Let_def if_not_P [OF False] a1_def by (rule refl)
    have "sockets (a1\<lparr>ac_closed := ac_closed ?a @ [sock]\<rparr>) = as_made y" using so by (simp add: sockets_def handed_def a1_def)
    then show ?thesis unfolding o using assms(1) out by (simp add: accept_inv_def a1_def)
  next
    case True
    then have st: "\<not> as_stopped y" using assms(1) by (auto simp: accept_inv_def)
    show ?thesis
    proof (cases h)
      case None
      then have o: "OnComplete ct i sock completed ?a = a1\<lparr>ac_wait := [], ac_ready := ac_ready ?a @ [sock], ac_given := ac_given ?a @ map (\<lambda>v. (v, 0)) sk\<rparr>"
        using True f m(2) by (simp add: OnComplete_def a1_def)
      have "sockets (OnComplete ct i sock completed ?a) = as_made y" unfolding o so [symmetric] by (simp add: sockets_def handed_def a1_def del: map_map)
      then show ?thesis using assms(1) out m None st unfolding accept_inv_def o by (simp add: a1_def del: map_map)
    next
      case (Some w)
      then have o: "OnComplete ct i sock completed ?a = a1\<lparr>ac_wait := rest, ac_given := ac_given ?a @ (w, sock) # map (\<lambda>v. (v, 0)) sk\<rparr>"
        using True f by (simp add: OnComplete_def a1_def)
      have "sockets (OnComplete ct i sock completed ?a) = as_made y" unfolding o so [symmetric] using nz by (simp add: sockets_def handed_def a1_def del: map_map)
      then show ?thesis using assms(1) out m(1) Some st rd unfolding accept_inv_def o by (auto simp: a1_def simp del: map_map)
    qed
  qed
qed

lemma accept_make_inv:
  assumes "accept_inv y" "i < length (ac_slots (as_acc y))" "ac_slots (as_acc y) ! i = SlotIdle" "sock \<notin># as_made y"
  shows "accept_inv (y\<lparr>as_acc := Post_make i sock reg (as_acc y), as_made := if sock = 0 then as_made y else add_mset sock (as_made y)\<rparr>)"
proof -
  let ?a = "as_acc y"
  have c: "count (as_made y) sock = 0" using assms(4) by (simp add: not_in_iff)
  have so: "sockets (?a\<lparr>ac_slots := (ac_slots ?a)[i := SlotPosting sock]\<rparr>) = add_mset sock (as_made y)"
    using sockets_slot [OF assms(2), of "SlotPosting sock"] assms(1) by (simp add: assms(3) slot_socks_def accept_inv_def)
  have so2: "sockets (?a\<lparr>ac_slots := (ac_slots ?a)[i := SlotPosting sock], ac_outstanding := n\<rparr>) = add_mset sock (as_made y)" for n
    unfolding so [symmetric] by (simp add: sockets_def handed_def)
  have cl: "sockets (?a\<lparr>ac_closed := ac_closed ?a @ [sock]\<rparr>) = add_mset sock (as_made y)" using assms(1) by (simp add: sockets_def handed_def accept_inv_def)
  have out: "bool_count (\<lambda>k. k \<noteq> SlotIdle) ((ac_slots ?a)[i := SlotPosting sock]) = bool_count (\<lambda>k. k \<noteq> SlotIdle) (ac_slots ?a) + 1"
    using bool_count_update [OF assms(2), of "\<lambda>k. k \<noteq> SlotIdle" "SlotPosting sock"] by (simp add: assms(3))
  consider "sock = 0" | "sock \<noteq> 0" "\<not> reg" | "sock \<noteq> 0" reg by blast
  then show ?thesis
  proof cases
    case 1
    then show ?thesis using assms(1) by (simp add: Post_make_def)
  next
    case 2
    then show ?thesis using assms(1) cl c by (simp add: Post_make_def accept_inv_def)
  next
    case 3
    then show ?thesis using assms(1) so2 c out by (simp add: Post_make_def accept_inv_def)
  qed
qed

lemma accept_submit_inv:
  assumes "accept_inv y" "i < length (ac_slots (as_acc y))" "ac_slots (as_acc y) ! i = SlotPosting sock"
  shows "accept_inv (y\<lparr>as_acc := Post_submit False i sock immediate (as_acc y)\<rparr>)"
proof -
  let ?a = "as_acc y"
  have so: "sockets (?a\<lparr>ac_slots := (ac_slots ?a)[i := SlotPosted sock]\<rparr>) = as_made y" "sockets (?a\<lparr>ac_slots := (ac_slots ?a)[i := SlotIdle]\<rparr>) + {#sock#} = as_made y"
    using sockets_slot [OF assms(2), of "SlotPosted sock"] sockets_slot [OF assms(2), of SlotIdle] assms(1) by (simp_all add: assms(3) slot_socks_def accept_inv_def)
  have so2: "sockets (?a\<lparr>ac_outstanding := n, ac_closed := ac_closed ?a @ [sock], ac_slots := (ac_slots ?a)[i := SlotIdle]\<rparr>) = as_made y" for n
    unfolding so(2) [symmetric] by (simp add: sockets_def handed_def)
  have out: "bool_count (\<lambda>k. k \<noteq> SlotIdle) ((ac_slots ?a)[i := SlotPosted sock]) = bool_count (\<lambda>k. k \<noteq> SlotIdle) (ac_slots ?a)"
    "bool_count (\<lambda>k. k \<noteq> SlotIdle) ((ac_slots ?a)[i := SlotIdle]) + 1 = bool_count (\<lambda>k. k \<noteq> SlotIdle) (ac_slots ?a)"
    using bool_count_update [OF assms(2), of "\<lambda>k. k \<noteq> SlotIdle" "SlotPosted sock"] bool_count_update [OF assms(2), of "\<lambda>k. k \<noteq> SlotIdle" SlotIdle] by (simp_all add: assms(3))
  show ?thesis
  proof (cases immediate)
    case True
    then show ?thesis using assms(1) so2 out(2) by (simp add: Post_submit_def Let_def accept_inv_def)
  next
    case False
    then show ?thesis using assms(1) so(1) out(1) by (simp add: Post_submit_def Let_def accept_inv_def)
  qed
qed

lemma sockets_try: "sockets (snd (TryTake a)) = sockets a"
  by (cases "ac_ready a" rule: rev_cases) (simp_all add: TryTake_def sockets_def handed_def)

lemma try_fields: "ac_wait (snd (TryTake a)) = ac_wait a" "ac_given (snd (TryTake a)) = ac_given a" "ac_stopping (snd (TryTake a)) = ac_stopping a" "ac_slots (snd (TryTake a)) = ac_slots a"
    "ac_outstanding (snd (TryTake a)) = ac_outstanding a" "ac_ready (snd (TryTake a)) = butlast (ac_ready a)"
  by (auto simp: TryTake_def)

lemma accept_try_inv: "accept_inv y \<Longrightarrow> accept_inv (y\<lparr>as_acc := snd (TryTake (as_acc y))\<rparr>)"
  by (auto simp: accept_inv_def sockets_try try_fields)

lemma accept_cancel_inv: "accept_inv y \<Longrightarrow> accept_inv (y\<lparr>as_acc := snd (acceptor_CancelWaiters ct tok (as_acc y))\<rparr>)"
proof -
  assume i: "accept_inv y"
  let ?a = "as_acc y"
  define match where "match = (\<lambda>w. \<not> CancelToken_Valid tok \<or> CancelToken_IsWithin ct (ac_token ?a w) tok)"
  have o: "snd (acceptor_CancelWaiters ct tok ?a) = ?a\<lparr>ac_wait := filter (\<lambda>w. \<not> match w) (ac_wait ?a), ac_given := ac_given ?a @ map (\<lambda>v. (v, 0)) (filter match (ac_wait ?a))\<rparr>"
    by (simp add: acceptor_CancelWaiters_def match_def Let_def)
  have "sockets (snd (acceptor_CancelWaiters ct tok ?a)) = sockets ?a" unfolding o by (simp add: sockets_def handed_def del: map_map)
  moreover have "mset (ac_wait ?a) = mset (filter (\<lambda>w. \<not> match w) (ac_wait ?a)) + mset (filter match (ac_wait ?a))" using mset_filter_partition [of match "ac_wait ?a"] by (simp only: add.commute)
  ultimately show ?thesis using i unfolding accept_inv_def o by (auto simp del: map_map mset_filter)
qed

lemma accept_step_inv: "accept_inv y \<Longrightarrow> accept_step False y y' \<Longrightarrow> accept_inv y'"
proof (rotate_tac, induction rule: accept_step.induct)
  case (acc_make i y sock reg)
  then show ?case using accept_make_inv by blast
next
  case (acc_submit i y sock immediate)
  then show ?case using accept_submit_inv by blast
next
  case (acc_complete i y sock ct completed)
  then show ?case using accept_complete_inv by blast
next
  case (acc_try y)
  then show ?case by (rule accept_try_inv)
next
  case (acc_take w y ct tok r a)
  consider "r = None" | "a = as_acc y" "r \<noteq> None" | "a = snd (TryTake (as_acc y))" "r \<noteq> None"
    using acc_take(2) by (auto simp: TakeOrQueue_def split: if_splits prod.splits)
  then show ?case
  proof cases
    case 1
    then have a: "a = (as_acc y)\<lparr>ac_wait := ac_wait (as_acc y) @ [w], ac_token := (ac_token (as_acc y))(w := tok)\<rparr>" "ac_ready (as_acc y) = []" "\<not> ac_stopping (as_acc y)"
      using acc_take(2) by (auto simp: TakeOrQueue_def split: if_splits prod.splits)
    have "sockets a = sockets (as_acc y)" unfolding a(1) by (simp add: sockets_def handed_def)
    then show ?thesis using acc_take(3) 1 a(2,3) unfolding accept_inv_def by (auto simp: a(1))
  next
    case 2
    then show ?thesis using acc_take(3) by auto
  next
    case 3
    then show ?thesis using accept_try_inv [OF acc_take(3)] by auto
  qed
next
  case (acc_cancel y ct tok)
  then show ?case by (rule accept_cancel_inv)
next
  case (acc_stop y)
  then show ?case by (simp add: accept_inv_def acceptor_Stop_begin_def sockets_def handed_def)
next
  case (acc_stop_cancel y ct)
  then show ?case using accept_cancel_inv [OF acc_stop_cancel(2), of ct kNone] by (simp add: accept_inv_def acceptor_CancelWaiters_def CancelToken_Valid_def Let_def)
next
  case (acc_stop_close y)
  then have "sockets (acceptor_Stop_close (as_acc y)) = sockets (as_acc y)" by (simp add: sockets_def handed_def acceptor_Stop_close_def)
  then show ?case using acc_stop_close by (simp add: accept_inv_def acceptor_Stop_close_def)
qed

interpretation accepts: transition_system "accept_step False" accept_inv
  by unfold_locales (rule accept_step_inv)

definition acceptor0 :: "nat \<Rightarrow> acceptor" where
  "acceptor0 depth = \<lparr>ac_slots = replicate depth SlotIdle, ac_ready = [], ac_wait = [], ac_token = (\<lambda>w. kNone), ac_outstanding = 0, ac_stopping = False, ac_given = [], ac_taken = [], ac_closed = []\<rparr>"

definition accept_start :: "nat \<Rightarrow> accept_sys" where
  "accept_start depth = \<lparr>as_acc = acceptor0 depth, as_made = {#}, as_queued = {#}, as_stopped = False\<rparr>"

lemma accept_start_inv: "accept_inv (accept_start depth)"
  by (induction depth) (simp_all add: accept_inv_def accept_start_def acceptor0_def sockets_def handed_def slot_socks_def bool_count_def)

text \<open>Where \<open>SubmitAccept\<close> leaves the socket it is given open: whatever is posted, accepted, taken, cancelled and stopped at the same time, every socket the acceptor made is in exactly
  one place, posted, ready, handed out once, or closed once; a connection never lies ready while someone waits; every waiter is woken exactly once or still waits, and none waits
  after \<open>Stop\<close>; and the counter \<open>Stop\<close> waits for is the number of accepts in progress.\<close>

theorem acceptor_hands_each_socket_out_once:
  assumes "reach (accept_step False) (accept_start depth) y"
  shows "sockets (as_acc y) = as_made y \<and> (\<forall>s. count (as_made y) s \<le> 1) \<and> (ac_ready (as_acc y) \<noteq> [] \<longrightarrow> ac_wait (as_acc y) = []) \<and>
    as_queued y = mset (ac_wait (as_acc y)) + mset (map fst (ac_given (as_acc y))) \<and> (as_stopped y \<longrightarrow> ac_wait (as_acc y) = []) \<and>
    ac_outstanding (as_acc y) = int (bool_count (\<lambda>k. k \<noteq> SlotIdle) (ac_slots (as_acc y)))"
proof -
  have "accept_inv y" using accepts.reach_inv [OF assms accept_start_inv] .
  then show ?thesis by (simp add: accept_inv_def)
qed

text \<open>Socket 5 is made and posted, waiter 9 queues, and the accept completes.\<close>

definition acc_y1 :: accept_sys where "acc_y1 = (accept_start 1)\<lparr>as_acc := Post_make 0 5 True (acceptor0 1), as_made := {#5#}\<rparr>"
definition acc_y2 :: "bool \<Rightarrow> accept_sys" where "acc_y2 closes = acc_y1\<lparr>as_acc := Post_submit closes 0 5 False (as_acc acc_y1)\<rparr>"
definition acc_y3 :: "bool \<Rightarrow> accept_sys" where
  "acc_y3 closes = (acc_y2 closes)\<lparr>as_acc := snd (TakeOrQueue cancel_init 9 kNone (as_acc (acc_y2 closes))), as_queued := {#9#}\<rparr>"
definition acc_y4 :: "bool \<Rightarrow> accept_sys" where "acc_y4 closes = (acc_y3 closes)\<lparr>as_acc := OnComplete cancel_init 0 5 True (as_acc (acc_y3 closes))\<rparr>"

lemmas acc_demo = acc_y1_def acc_y2_def acc_y3_def acc_y4_def accept_start_def acceptor0_def Post_make_def Post_submit_def TakeOrQueue_def OnComplete_def Let_def not_cancelled_none

lemma acc_y4_reached: "reach (accept_step closes) (accept_start 1) (acc_y4 closes)"
proof -
  have 1: "accept_step closes (accept_start 1) acc_y1" using acc_make [of 0 "accept_start 1" 5 closes True] by (simp add: acc_y1_def) (simp add: accept_start_def acceptor0_def)
  have 2: "accept_step closes acc_y1 (acc_y2 closes)" unfolding acc_y2_def by (rule acc_submit) (simp_all add: acc_demo)
  have "TakeOrQueue cancel_init 9 kNone (as_acc (acc_y2 closes)) = (None, snd (TakeOrQueue cancel_init 9 kNone (as_acc (acc_y2 closes))))" by (simp add: acc_demo)
  from acc_take [OF _ this, of closes] have 3: "accept_step closes (acc_y2 closes) (acc_y3 closes)" by (simp add: acc_y3_def) (simp add: acc_demo)
  have 4: "accept_step closes (acc_y3 closes) (acc_y4 closes)" unfolding acc_y4_def by (rule acc_complete) (simp_all add: acc_demo)
  show ?thesis by (rule reach_step [OF reach_step [OF reach_step [OF reach_one [of "accept_step closes", OF 1] 2] 3] 4])
qed

theorem acceptor_hands_each_socket_out_once_witness: "ac_given (as_acc (acc_y4 False)) = [(9, 5)] \<and> sockets (as_acc (acc_y4 False)) = {#5#}"
proof -
  have "ac_given (as_acc (acc_y4 False)) = [(9, 5)]" "as_made (acc_y4 False) = {#5#}" by (simp_all add: acc_demo)
  then show ?thesis using acceptor_hands_each_socket_out_once [OF acc_y4_reached] by simp
qed

text \<open>On Linux, where \<open>SubmitAccept\<close> closes the socket, the same run gives the waiter a socket that is already closed.\<close>

lemma accepted_socket_is_closed_on_linux: "reach (accept_step True) (accept_start 1) (acc_y4 True) \<and> ac_given (as_acc (acc_y4 True)) = [(9, 5)] \<and> 5 \<in> set (ac_closed (as_acc (acc_y4 True)))"
  using acc_y4_reached [of True] by (simp add: acc_demo)

end
