(* ===== verification/WaitGroups.thy ===== *)
theory WaitGroups
  imports JPrelude
begin

text \<open>
  The wait group (\<^verbatim>\<open>include/WaitGroup.h\<close>, \<^verbatim>\<open>src/WaitGroup.cpp\<close>): a count of outstanding tasks with a waiter bit in one word, a lock-free
  list of suspended tasks, the blocked threads under a mutex, and the \<open>waking\<close> mark that keeps the group alive
  while a completion may still touch it. The step relation interleaves any number of threads, one atomic access or one
  locked section at a time; a thread's program point says what is left of its call. A task's wake and a word's kick are recorded. Two fields are
  not in the code: \<open>wr_adds\<close> counts the times tasks were added, and \<open>wr_reused\<close> records that tasks were added from count zero while a call of
  a waiter or of a completion was in progress; \<open>reuse_during_wake_loses_a_waiter\<close> shows what can happen then.
\<close>

section \<open>The word\<close>

definition WAITER_BIT :: u32 where "WAITER_BIT = 0x40000000"
definition COUNT_MASK :: u32 where "COUNT_MASK = WAITER_BIT - 1"

definition wg_count :: "u32 \<Rightarrow> u32" where "wg_count v = v AND COUNT_MASK"
definition wg_bit :: "u32 \<Rightarrow> bool" where "wg_bit v \<longleftrightarrow> v AND WAITER_BIT \<noteq> 0"

lemma wg_count_take: "wg_count v = take_bit 30 v"
proof -
  have "COUNT_MASK = mask 30" by (simp add: COUNT_MASK_def WAITER_BIT_def mask_eq_exp_minus_1)
  then show ?thesis by (simp add: wg_count_def take_bit_eq_mask)
qed

lemma WAITER_BIT_exp: "WAITER_BIT = 2 ^ 30"
  by (simp add: WAITER_BIT_def)

lemma wg_bit_bit: "wg_bit v \<longleftrightarrow> bit v 30"
  unfolding wg_bit_def WAITER_BIT_exp by (simp only: and_exp_eq_0_iff_not_bit not_not)

lemma bit_WAITER_BIT: "bit WAITER_BIT n \<longleftrightarrow> n = 30"
proof -
  have "possible_bit TYPE(u32) 30" by simp
  then show ?thesis unfolding WAITER_BIT_exp bit_exp_iff by auto
qed

lemma wg_or: "wg_count (v OR WAITER_BIT) = wg_count v" "wg_bit (v OR WAITER_BIT)"
  unfolding wg_count_take wg_bit_bit by (rule bit_word_eqI) (auto simp: bit_take_bit_iff bit_or_iff bit_WAITER_BIT)

lemma wg_clear: "wg_count (v AND NOT WAITER_BIT) = wg_count v" "\<not> wg_bit (v AND NOT WAITER_BIT)"
  unfolding wg_count_take wg_bit_bit
  by (rule bit_word_eqI) (auto simp: bit_take_bit_iff bit_and_iff bit_not_iff bit_WAITER_BIT)

lemma wg_count_unat: "unat (wg_count v) = unat v mod 2 ^ 30"
  unfolding wg_count_take unsigned_take_bit_eq by (rule take_bit_eq_mod)

lemma wg_bit_unat: "wg_bit v \<longleftrightarrow> odd (unat v div 2 ^ 30)"
proof -
  have "bit (unat v) 30 \<longleftrightarrow> bit v 30" by (simp add: bit_unsigned_iff)
  moreover have "bit (unat v) 30 \<longleftrightarrow> odd (unat v div 2 ^ 30)" by (rule bit_iff_odd)
  ultimately show ?thesis by (simp only: wg_bit_bit)
qed

lemma wg_dec:
  assumes "wg_count v \<noteq> 0"
  shows "unat (wg_count (v - 1)) = unat (wg_count v) - 1" "wg_bit (v - 1) = wg_bit v"
proof -
  have m: "unat v mod 2 ^ 30 \<noteq> 0" using assms wg_count_unat [of v] by (metis unat_eq_zero)
  then have "v \<noteq> 0" by auto
  then have u: "unat (v - 1) = unat v - 1" by (simp add: unat_minus_one)
  have d: "unat v = unat v div 2 ^ 30 * 2 ^ 30 + unat v mod 2 ^ 30" by simp
  have "(unat v - 1) mod 2 ^ 30 = unat v mod 2 ^ 30 - 1 \<and> (unat v - 1) div 2 ^ 30 = unat v div 2 ^ 30"
  proof -
    let ?q = "unat v div 2 ^ 30" and ?r = "unat v mod 2 ^ 30"
    have e: "unat v - 1 = (?r - 1) + ?q * 2 ^ 30" using d m by linarith
    have "?r < 2 ^ 30" by (rule mod_less_divisor) simp
    then have l: "?r - 1 < 2 ^ 30" by linarith
    show ?thesis unfolding e using l by (simp only: mod_mult_self1 div_mult_self1 mod_less div_less) simp
  qed
  then show "unat (wg_count (v - 1)) = unat (wg_count v) - 1" "wg_bit (v - 1) = wg_bit v"
    unfolding wg_count_unat wg_bit_unat u by simp_all
qed

lemma wg_add:
  assumes "unat (wg_count v) + k < 2 ^ 30"
  shows "unat (wg_count (v + of_nat k)) = unat (wg_count v) + k" "wg_bit (v + of_nat k) = wg_bit v"
proof -
  let ?q = "unat v div 2 ^ 30" and ?r = "unat v mod 2 ^ 30"
  have r: "?r + k < 2 ^ 30" using assms by (simp only: wg_count_unat)
  have d: "unat v = ?q * 2 ^ 30 + ?r" by simp
  have "unat v < 2 ^ 32" using unsigned_less [of v] by simp
  then have q: "?q < 4" by (simp add: div_less_iff_less_mult less_mult_imp_div_less)
  have "unat v + k = (?r + k) + ?q * 2 ^ 30" using d by linarith
  have "?q * 2 ^ 30 \<le> 3 * 2 ^ 30" using q by (intro mult_right_mono) auto
  then have "unat v + k < 3 * 2 ^ 30 + 2 ^ 30" using d r by linarith
  also have "3 * 2 ^ 30 + 2 ^ 30 = (2 :: nat) ^ 32" by simp
  finally have "unat v + k < 2 ^ 32" .
  then have u: "unat (v + of_nat k) = unat v + k" by (simp add: unat_word_ariths unat_of_nat unsigned_of_nat take_bit_eq_mod)
  have "(unat v + k) mod 2 ^ 30 = ?r + k \<and> (unat v + k) div 2 ^ 30 = ?q"
    unfolding \<open>unat v + k = (?r + k) + ?q * 2 ^ 30\<close> using r by (simp only: mod_mult_self1 div_mult_self1 mod_less div_less) simp
  then show "unat (wg_count (v + of_nat k)) = unat (wg_count v) + k" "wg_bit (v + of_nat k) = wg_bit v"
    unfolding wg_count_unat wg_bit_unat u by simp_all
qed

section \<open>Calls as program points\<close>

datatype wg_pc =
    WIdle
  | AAdded
  | DTake
  | DClear "nat list"
  | WList "nat list"
  | NDec
  | NUnmark
  | WLock
  | KTake "nat list"
  | KClear "nat list" "nat list"
  | KMark "nat list" "nat list"
  | KUnlock "nat list" "nat list"
  | KKick "nat list" "nat list"
  | BBlocked
  | SSpin nat
  | SLock nat
  | SDone nat

text \<open>The threads in \<open>Settle\<close> remember how often tasks had been added when they saw the count at zero: they wait for \<open>waking\<close>, then for the mutex, then are about to return.\<close>

fun settling :: "wg_pc \<Rightarrow> bool" where
  "settling (SSpin _) = True" | "settling (SLock _) = True" | "settling (SDone _) = True" | "settling _ = False"

record WaitGroup =
  wg_n :: u32
  wg_waking :: nat
  taskWaiters :: "nat list"
  threadWaiter :: "nat option"
  blockedThreads :: "nat list"
  wg_mtx :: bool

record wg_run =
  wr_g :: WaitGroup
  wr_pc :: "wg_pc list"
  wr_word :: "nat \<Rightarrow> bool"
  wr_added :: "nat list"
  wr_woken :: "nat list"
  wr_adds :: nat
  wr_reused :: bool

definition wg_init :: "nat \<Rightarrow> wg_run" where
  "wg_init threads = \<lparr>wr_g = \<lparr>wg_n = 0, wg_waking = 0, taskWaiters = [], threadWaiter = None, blockedThreads = [], wg_mtx = False\<rparr>,
     wr_pc = replicate threads WIdle, wr_word = (\<lambda>_. False), wr_added = [], wr_woken = [], wr_adds = 0, wr_reused = False\<rparr>"

definition wg_quiet :: "wg_run \<Rightarrow> bool" where
  "wg_quiet s \<longleftrightarrow> list_all (\<lambda>p. p = WIdle \<or> settling p) (wr_pc s) \<and> taskWaiters (wr_g s) = [] \<and> blockedThreads (wr_g s) = []"

text \<open>What \<open>fetch_or\<close>, \<open>fetch_and\<close> and \<open>fetch_sub\<close> do to the group, and where the caller goes on.\<close>

definition set_bit_g :: "WaitGroup \<Rightarrow> WaitGroup" where "set_bit_g g = g\<lparr>wg_n := wg_n g OR WAITER_BIT\<rparr>"
definition clear_bit_g :: "WaitGroup \<Rightarrow> WaitGroup" where "clear_bit_g g = g\<lparr>wg_n := wg_n g AND NOT WAITER_BIT\<rparr>"

definition add_next :: "WaitGroup \<Rightarrow> wg_pc" where
  "add_next g = (if wg_count (wg_n g) = 0 then DTake else WIdle)"

definition done_next :: "WaitGroup \<Rightarrow> wg_pc" where
  "done_next g = (if wg_count (wg_n g) = 1 \<and> wg_bit (wg_n g) then WLock else NUnmark)"

definition goes :: "nat \<Rightarrow> wg_pc \<Rightarrow> WaitGroup \<Rightarrow> wg_run \<Rightarrow> wg_run" where
  "goes i p g s = s\<lparr>wr_g := g, wr_pc := (wr_pc s)[i := p]\<rparr>"

text \<open>The words \<open>WakeAll\<close> takes under the lock: the blocked threads', then main's.\<close>

definition words_taken :: "WaitGroup \<Rightarrow> nat list" where
  "words_taken g = blockedThreads g @ (case threadWaiter g of None \<Rightarrow> [] | Some w \<Rightarrow> [w])"

text \<open>Every task that is counted ends with one \<open>Done\<close>, so at most as many threads are before their decrement as the count says. \<open>t_main\<close>: main in the pool stores its word, or takes it back.\<close>

inductive wg_step :: "wg_run \<Rightarrow> wg_run \<Rightarrow> bool" where
  w_add: "0 < k \<Longrightarrow> unat (wg_count (wg_n (wr_g s))) + k < 2 ^ 30 \<Longrightarrow>
    wg_step s (s\<lparr>wr_g := (wr_g s)\<lparr>wg_n := wg_n (wr_g s) + of_nat k\<rparr>, wr_adds := wr_adds s + 1, wr_reused := wr_reused s \<or> wg_count (wg_n (wr_g s)) = 0 \<and> \<not> wg_quiet s\<rparr>)"
| a_push: "i < length (wr_pc s) \<Longrightarrow> wr_pc s ! i = WIdle \<Longrightarrow> t \<notin> set (wr_added s) \<Longrightarrow>
    wg_step s (goes i AAdded ((wr_g s)\<lparr>taskWaiters := t # taskWaiters (wr_g s)\<rparr>) s\<lparr>wr_added := t # wr_added s\<rparr>)"
| a_bit: "i < length (wr_pc s) \<Longrightarrow> wr_pc s ! i = AAdded \<Longrightarrow> wg_step s (goes i (add_next (wr_g s)) (set_bit_g (wr_g s)) s)"
| d_take: "i < length (wr_pc s) \<Longrightarrow> wr_pc s ! i = DTake \<Longrightarrow>
    wg_step s (goes i (if taskWaiters (wr_g s) = [] then WIdle else DClear (taskWaiters (wr_g s))) ((wr_g s)\<lparr>taskWaiters := []\<rparr>) s)"
| d_clear: "i < length (wr_pc s) \<Longrightarrow> wr_pc s ! i = DClear ts \<Longrightarrow> wg_step s (goes i (WList ts) (clear_bit_g (wr_g s)) s)"
| l_wake: "i < length (wr_pc s) \<Longrightarrow> wr_pc s ! i = WList (t # ts) \<Longrightarrow>
    wg_step s (goes i (WList ts) (wr_g s) s\<lparr>wr_woken := t # wr_woken s\<rparr>)"
| l_end: "i < length (wr_pc s) \<Longrightarrow> wr_pc s ! i = WList [] \<Longrightarrow> wg_step s (goes i WIdle (wr_g s) s)"
| n_mark: "i < length (wr_pc s) \<Longrightarrow> wr_pc s ! i = WIdle \<Longrightarrow> bool_count (\<lambda>p. p = NDec) (wr_pc s) < unat (wg_count (wg_n (wr_g s))) \<Longrightarrow>
    wg_step s (goes i NDec ((wr_g s)\<lparr>wg_waking := wg_waking (wr_g s) + 1\<rparr>) s)"
| n_dec: "i < length (wr_pc s) \<Longrightarrow> wr_pc s ! i = NDec \<Longrightarrow>
    wg_step s (goes i (done_next (wr_g s)) ((wr_g s)\<lparr>wg_n := wg_n (wr_g s) - 1\<rparr>) s)"
| n_unmark: "i < length (wr_pc s) \<Longrightarrow> wr_pc s ! i = NUnmark \<Longrightarrow>
    wg_step s (goes i WIdle ((wr_g s)\<lparr>wg_waking := wg_waking (wr_g s) - 1\<rparr>) s)"
| k_lock: "i < length (wr_pc s) \<Longrightarrow> wr_pc s ! i = WLock \<Longrightarrow> \<not> wg_mtx (wr_g s) \<Longrightarrow>
    wg_step s (goes i (KTake (words_taken (wr_g s))) ((wr_g s)\<lparr>wg_mtx := True, blockedThreads := []\<rparr>) s)"
| k_take: "i < length (wr_pc s) \<Longrightarrow> wr_pc s ! i = KTake bs \<Longrightarrow>
    wg_step s (goes i (KClear bs (taskWaiters (wr_g s))) ((wr_g s)\<lparr>taskWaiters := []\<rparr>) s)"
| k_clear: "i < length (wr_pc s) \<Longrightarrow> wr_pc s ! i = KClear bs ts \<Longrightarrow> wg_step s (goes i (KMark bs ts) (clear_bit_g (wr_g s)) s)"
| k_mark: "i < length (wr_pc s) \<Longrightarrow> wr_pc s ! i = KMark bs ts \<Longrightarrow>
    wg_step s (goes i (KUnlock bs ts) ((wr_g s)\<lparr>wg_waking := wg_waking (wr_g s) - 1\<rparr>) s)"
| k_unlock: "i < length (wr_pc s) \<Longrightarrow> wr_pc s ! i = KUnlock bs ts \<Longrightarrow> wg_step s (goes i (KKick bs ts) ((wr_g s)\<lparr>wg_mtx := False\<rparr>) s)"
| k_kick: "i < length (wr_pc s) \<Longrightarrow> wr_pc s ! i = KKick (b # bs) ts \<Longrightarrow>
    wg_step s (goes i (KKick bs ts) (wr_g s) s\<lparr>wr_word := (wr_word s)(b := True)\<rparr>)"
| k_tasks: "i < length (wr_pc s) \<Longrightarrow> wr_pc s ! i = KKick [] ts \<Longrightarrow> wg_step s (goes i (WList ts) (wr_g s) s)"
| b_register: "i < length (wr_pc s) \<Longrightarrow> wr_pc s ! i = WIdle \<or> wr_pc s ! i = BBlocked \<and> wr_word s i \<and> wg_count (wg_n (wr_g s)) \<noteq> 0 \<Longrightarrow>
    \<not> wg_mtx (wr_g s) \<Longrightarrow> wg_count (wg_n (wr_g s)) \<noteq> 0 \<Longrightarrow>
    wg_step s (goes i BBlocked ((set_bit_g (wr_g s))\<lparr>blockedThreads := blockedThreads (wr_g s) @ [i]\<rparr>) s\<lparr>wr_word := (wr_word s)(i := False)\<rparr>)"
| b_zero: "i < length (wr_pc s) \<Longrightarrow> wr_pc s ! i = WIdle \<Longrightarrow> \<not> wg_mtx (wr_g s) \<Longrightarrow> wg_count (wg_n (wr_g s)) = 0 \<Longrightarrow>
    wg_step s (goes i (SSpin (wr_adds s)) (set_bit_g (wr_g s)) s)"
| b_leave: "i < length (wr_pc s) \<Longrightarrow> wr_pc s ! i = BBlocked \<Longrightarrow> wr_word s i \<Longrightarrow> wg_count (wg_n (wr_g s)) = 0 \<Longrightarrow>
    wg_step s (goes i (SSpin (wr_adds s)) (wr_g s) s)"
| s_zero: "i < length (wr_pc s) \<Longrightarrow> wr_pc s ! i = WIdle \<Longrightarrow> wg_count (wg_n (wr_g s)) = 0 \<Longrightarrow> wg_step s (goes i (SSpin (wr_adds s)) (wr_g s) s)"
| s_spin: "i < length (wr_pc s) \<Longrightarrow> wr_pc s ! i = SSpin a \<Longrightarrow> wg_waking (wr_g s) = 0 \<Longrightarrow> wg_step s (goes i (SLock a) (wr_g s) s)"
| s_lock: "i < length (wr_pc s) \<Longrightarrow> wr_pc s ! i = SLock a \<Longrightarrow> \<not> wg_mtx (wr_g s) \<Longrightarrow> wg_step s (goes i (SDone a) (wr_g s) s)"
| s_return: "i < length (wr_pc s) \<Longrightarrow> wr_pc s ! i = SDone a \<Longrightarrow> wg_step s (goes i WIdle (wr_g s) s)"
| t_main: "wg_step s (s\<lparr>wr_g := (wr_g s)\<lparr>threadWaiter := w\<rparr>\<rparr>)"

section \<open>Invariants\<close>

fun tasks_in :: "wg_pc \<Rightarrow> nat list" where
  "tasks_in (DClear ts) = ts"
| "tasks_in (WList ts) = ts"
| "tasks_in (KClear bs ts) = ts"
| "tasks_in (KMark bs ts) = ts"
| "tasks_in (KUnlock bs ts) = ts"
| "tasks_in (KKick bs ts) = ts"
| "tasks_in _ = []"

fun words_in :: "wg_pc \<Rightarrow> nat list" where
  "words_in (KTake bs) = bs"
| "words_in (KClear bs ts) = bs"
| "words_in (KMark bs ts) = bs"
| "words_in (KUnlock bs ts) = bs"
| "words_in (KKick bs ts) = bs"
| "words_in _ = []"

fun marked :: "wg_pc \<Rightarrow> bool" where
  "marked NDec = True" | "marked NUnmark = True" | "marked WLock = True" | "marked (KTake _) = True"
| "marked (KClear _ _) = True" | "marked (KMark _ _) = True" | "marked _ = False"

fun holds_mtx :: "wg_pc \<Rightarrow> bool" where
  "holds_mtx (KTake _) = True" | "holds_mtx (KClear _ _) = True" | "holds_mtx (KMark _ _) = True" | "holds_mtx (KUnlock _ _) = True"
| "holds_mtx _ = False"

text \<open>Program points that will still take the list, and those reached only at count zero.\<close>

fun will_take :: "wg_pc \<Rightarrow> bool" where
  "will_take AAdded = True" | "will_take DTake = True" | "will_take WLock = True" | "will_take (KTake _) = True" | "will_take _ = False"

fun at_zero :: "wg_pc \<Rightarrow> bool" where
  "at_zero DTake = True" | "at_zero (DClear _) = True" | "at_zero WLock = True" | "at_zero (KTake _) = True" | "at_zero (KClear _ _) = True"
| "at_zero _ = False"

text \<open>The part that holds in every run: the mark and the mutex count their holders, and every task added is
  waiting in the list, in some waker's hands, or woken.\<close>

definition wg_books :: "wg_run \<Rightarrow> bool" where
  [inv_defs]: "wg_books s \<longleftrightarrow> wg_waking (wr_g s) = bool_count marked (wr_pc s) \<and>
    bool_count holds_mtx (wr_pc s) = (if wg_mtx (wr_g s) then 1 else 0) \<and>
    mset (wr_added s) = mset (taskWaiters (wr_g s)) + sum_list (map (\<lambda>p. mset (tasks_in p)) (wr_pc s)) + mset (wr_woken s)"

definition wg_live :: "wg_run \<Rightarrow> bool" where
  [inv_defs]: "wg_live s \<longleftrightarrow>
    (\<forall>p \<in> set (wr_pc s). at_zero p \<longrightarrow> wg_count (wg_n (wr_g s)) = 0) \<and>
    (taskWaiters (wr_g s) \<noteq> [] \<longrightarrow> (\<exists>p \<in> set (wr_pc s). will_take p) \<or> wg_bit (wg_n (wr_g s)) \<and> wg_count (wg_n (wr_g s)) \<noteq> 0) \<and>
    (blockedThreads (wr_g s) \<noteq> [] \<longrightarrow> WLock \<in> set (wr_pc s) \<or> wg_bit (wg_n (wr_g s)) \<and> wg_count (wg_n (wr_g s)) \<noteq> 0) \<and>
    (\<forall>i < length (wr_pc s). wr_pc s ! i = BBlocked \<longrightarrow>
       wr_word s i \<or> i \<in> set (blockedThreads (wr_g s)) \<or> (\<exists>p \<in> set (wr_pc s). i \<in> set (words_in p)))"

section \<open>The books balance\<close>

lemma wg_booksI:
  assumes "wg_books s" "i < length (wr_pc s)" "wr_pc t = (wr_pc s)[i := p]"
    "wg_waking (wr_g t) + (if marked (wr_pc s ! i) then 1 else 0) = wg_waking (wr_g s) + (if marked p then 1 else 0)"
    "(if wg_mtx (wr_g t) then 1 else 0) + (if holds_mtx (wr_pc s ! i) then 1 else 0) = (if wg_mtx (wr_g s) then 1 else 0) + (if holds_mtx p then 1 else (0 :: nat))"
    "mset (wr_added t) + mset (taskWaiters (wr_g s)) + mset (wr_woken s) + mset (tasks_in (wr_pc s ! i)) =
     mset (wr_added s) + mset (taskWaiters (wr_g t)) + mset (wr_woken t) + mset (tasks_in p)"
  shows "wg_books t"
proof -
  note B = assms(1) [unfolded wg_books_def]
  let ?S = "\<lambda>ps. sum_list (map (\<lambda>p. mset (tasks_in p)) ps)"
  have w: "wg_waking (wr_g t) = bool_count marked (wr_pc t)"
    using B bool_count_update [OF assms(2), of marked p] assms(3,4) by simp
  have m: "bool_count holds_mtx (wr_pc t) = (if wg_mtx (wr_g t) then 1 else 0)"
    using B bool_count_update [OF assms(2), of holds_mtx p] assms(3,5) by simp
  have u: "?S (wr_pc t) + mset (tasks_in (wr_pc s ! i)) = ?S (wr_pc s) + mset (tasks_in p)"
    using sum_pcs_update [OF assms(2), of "\<lambda>p. mset (tasks_in p)" p] assms(3) by simp
  have a: "mset (wr_added s) = mset (taskWaiters (wr_g s)) + ?S (wr_pc s) + mset (wr_woken s)" using B by blast
  let ?c = "mset (taskWaiters (wr_g s)) + mset (wr_woken s) + mset (tasks_in (wr_pc s ! i))"
  have "mset (wr_added t) + ?c = mset (taskWaiters (wr_g t)) + (?S (wr_pc s) + mset (tasks_in p)) + mset (wr_woken t) + mset (taskWaiters (wr_g s)) + mset (wr_woken s)"
    using assms(6) unfolding a by (simp add: ac_simps)
  also have "\<dots> = (mset (taskWaiters (wr_g t)) + ?S (wr_pc t) + mset (wr_woken t)) + ?c"
    unfolding u [symmetric] by (simp add: ac_simps)
  finally have "mset (wr_added t) = mset (taskWaiters (wr_g t)) + ?S (wr_pc t) + mset (wr_woken t)" by (rule add_right_imp_eq)
  with w m show ?thesis unfolding wg_books_def by blast
qed

lemmas goes_simps = goes_def set_bit_g_def clear_bit_g_def

lemma wg_step_books: "wg_step s t \<Longrightarrow> wg_books s \<Longrightarrow> wg_books t"
proof (induction rule: wg_step.induct)
  case (w_add k s)
  then show ?case by (simp add: wg_books_def)
next
  case (a_push i s u)
  then show ?case by - (rule wg_booksI [where s = s and i = i and p = AAdded], simp_all add: goes_simps)
next
  case (a_bit i s)
  then show ?case by - (rule wg_booksI [where s = s and i = i and p = "add_next (wr_g s)"], simp_all add: goes_simps add_next_def)
next
  case (d_take i s)
  then show ?case
    by - (rule wg_booksI [where s = s and i = i and p = "if taskWaiters (wr_g s) = [] then WIdle else DClear (taskWaiters (wr_g s))"], simp_all add: goes_simps)
next
  case (d_clear i s ts)
  then show ?case by - (rule wg_booksI [where s = s and i = i and p = "WList ts"], simp_all add: goes_simps)
next
  case (l_wake i s u ts)
  then show ?case by - (rule wg_booksI [where s = s and i = i and p = "WList ts"], simp_all add: goes_simps)
next
  case (l_end i s)
  then show ?case by - (rule wg_booksI [where s = s and i = i and p = WIdle], simp_all add: goes_simps)
next
  case (n_mark i s)
  then show ?case by - (rule wg_booksI [where s = s and i = i and p = NDec], simp_all add: goes_simps)
next
  case (n_dec i s)
  then show ?case by - (rule wg_booksI [where s = s and i = i and p = "done_next (wr_g s)"], simp_all add: goes_simps done_next_def)
next
  case (n_unmark i s)
  then have "0 < wg_waking (wr_g s)" using bool_count_pos [of i "wr_pc s" marked] by (simp add: wg_books_def)
  then show ?case using n_unmark by - (rule wg_booksI [where s = s and i = i and p = WIdle], simp_all add: goes_simps)
next
  case (k_lock i s)
  then show ?case by - (rule wg_booksI [where s = s and i = i and p = "KTake (words_taken (wr_g s))"], simp_all add: goes_simps)
next
  case (k_take i s bs)
  then show ?case by - (rule wg_booksI [where s = s and i = i and p = "KClear bs (taskWaiters (wr_g s))"], simp_all add: goes_simps)
next
  case (k_clear i s bs ts)
  then show ?case by - (rule wg_booksI [where s = s and i = i and p = "KMark bs ts"], simp_all add: goes_simps)
next
  case (k_mark i s bs ts)
  then have "0 < wg_waking (wr_g s)" using bool_count_pos [of i "wr_pc s" marked] by (simp add: wg_books_def)
  then show ?case using k_mark by - (rule wg_booksI [where s = s and i = i and p = "KUnlock bs ts"], simp_all add: goes_simps)
next
  case (k_unlock i s bs ts)
  then have "wg_mtx (wr_g s)" using bool_count_pos [of i "wr_pc s" holds_mtx] by (simp add: wg_books_def split: if_splits)
  then show ?case using k_unlock by - (rule wg_booksI [where s = s and i = i and p = "KKick bs ts"], simp_all add: goes_simps)
next
  case (k_kick i s b bs ts)
  then show ?case by - (rule wg_booksI [where s = s and i = i and p = "KKick bs ts"], simp_all add: goes_simps)
next
  case (k_tasks i s ts)
  then show ?case by - (rule wg_booksI [where s = s and i = i and p = "WList ts"], simp_all add: goes_simps)
next
  case (b_register i s)
  then show ?case by - (rule wg_booksI [where s = s and i = i and p = BBlocked], auto simp: goes_simps)
next
  case (b_zero i s)
  then show ?case by - (rule wg_booksI [where s = s and i = i and p = "SSpin (wr_adds s)"], simp_all add: goes_simps)
next
  case (b_leave i s)
  then show ?case by - (rule wg_booksI [where s = s and i = i and p = "SSpin (wr_adds s)"], simp_all add: goes_simps)
next
  case (s_zero i s)
  then show ?case by - (rule wg_booksI [where s = s and i = i and p = "SSpin (wr_adds s)"], simp_all add: goes_simps)
next
  case (s_spin i s a)
  then show ?case by - (rule wg_booksI [where s = s and i = i and p = "SLock a"], simp_all add: goes_simps)
next
  case (s_lock i s a)
  then show ?case by - (rule wg_booksI [where s = s and i = i and p = "SDone a"], simp_all add: goes_simps)
next
  case (s_return i s a)
  then show ?case by - (rule wg_booksI [where s = s and i = i and p = WIdle], simp_all add: goes_simps)
next
  case (t_main s w)
  then show ?case by (simp add: wg_books_def)
qed

text \<open>No more threads are before their decrement than the count says.\<close>

definition wg_calls :: "wg_run \<Rightarrow> bool" where
  [inv_defs]: "wg_calls s \<longleftrightarrow> bool_count (\<lambda>p. p = NDec) (wr_pc s) \<le> unat (wg_count (wg_n (wr_g s)))"

lemma calls_keep: "i < length ps \<Longrightarrow> ps ! i \<noteq> NDec \<Longrightarrow> p \<noteq> NDec \<Longrightarrow> bool_count (\<lambda>p. p = NDec) (ps[i := p]) = bool_count (\<lambda>p. p = NDec) ps"
  using bool_count_update [of i ps "\<lambda>p. p = NDec" p] by simp

lemma calls_nonzero: "wg_calls s \<Longrightarrow> i < length (wr_pc s) \<Longrightarrow> wr_pc s ! i = NDec \<Longrightarrow> wg_count (wg_n (wr_g s)) \<noteq> 0"
  using bool_count_pos [of i "wr_pc s" "\<lambda>p. p = NDec"] unfolding wg_calls_def by (metis less_le_trans not_less_zero unat_0)

lemma wg_step_calls: "wg_step s t \<Longrightarrow> wg_calls s \<Longrightarrow> wg_calls t"
proof (induction rule: wg_step.induct)
  case (w_add k s)
  then show ?case using wg_add(1) [OF w_add(2)] by (simp add: wg_calls_def)
next
  case (n_mark i s)
  then show ?case using bool_count_update [OF n_mark(1), of "\<lambda>p. p = NDec" NDec] by (simp add: wg_calls_def goes_def)
next
  case (n_dec i s)
  have "bool_count (\<lambda>p. p = NDec) ((wr_pc s)[i := done_next (wr_g s)]) + 1 = bool_count (\<lambda>p. p = NDec) (wr_pc s)"
    using bool_count_update [OF n_dec(1), of "\<lambda>p. p = NDec" "done_next (wr_g s)"] n_dec(2) by (simp add: done_next_def)
  then show ?case using n_dec(3) wg_dec(1) [OF calls_nonzero [OF n_dec(3,1,2)]] by (simp add: wg_calls_def goes_def)
qed (auto simp: wg_calls_def goes_simps calls_keep wg_or wg_clear add_next_def)

definition wg_sane :: "wg_run \<Rightarrow> bool" where "wg_sane s \<longleftrightarrow> wg_books s \<and> wg_calls s"

interpretation wg_books_runs: transition_system wg_step wg_sane
  by unfold_locales (auto simp: wg_sane_def intro: wg_step_books wg_step_calls)

section \<open>No waiter is left behind\<close>

lemma ex_update:
  assumes "i < length ps" "\<exists>q \<in> set ps. W q" "\<not> W (ps ! i)"
  shows "\<exists>q \<in> set (ps[i := p]). W q"
proof -
  obtain j where j: "j < length ps" "W (ps ! j)" using assms(2) by (auto simp: in_set_conv_nth)
  then have "j \<noteq> i" using assms(3) by auto
  then have "ps[i := p] ! j = ps ! j" by simp
  then show ?thesis using j by (metis length_list_update nth_mem)
qed

text \<open>What a step of thread \<open>i\<close> to the point \<open>p\<close> must respect.\<close>

lemma wg_liveI:
  assumes L: "wg_live s" and i: "i < length (wr_pc s)" "wr_pc t = (wr_pc s)[i := p]"
    and z: "at_zero p \<longrightarrow> wg_count (wg_n (wr_g t)) = 0" "wg_count (wg_n (wr_g s)) = 0 \<longrightarrow> wg_count (wg_n (wr_g t)) = 0"
    and l: "taskWaiters (wr_g t) \<noteq> [] \<longrightarrow> will_take p \<or> wg_bit (wg_n (wr_g t)) \<and> wg_count (wg_n (wr_g t)) \<noteq> 0 \<or>
      taskWaiters (wr_g s) \<noteq> [] \<and> \<not> will_take (wr_pc s ! i) \<and> \<not> (wg_bit (wg_n (wr_g s)) \<and> wg_count (wg_n (wr_g s)) \<noteq> 0)"
    and b: "blockedThreads (wr_g t) \<noteq> [] \<longrightarrow> p = WLock \<or> wg_bit (wg_n (wr_g t)) \<and> wg_count (wg_n (wr_g t)) \<noteq> 0 \<or>
      blockedThreads (wr_g s) \<noteq> [] \<and> wr_pc s ! i \<noteq> WLock \<and> \<not> (wg_bit (wg_n (wr_g s)) \<and> wg_count (wg_n (wr_g s)) \<noteq> 0)"
    and w: "\<forall>j. j \<noteq> i \<and> wr_word s j \<longrightarrow> wr_word t j" "set (blockedThreads (wr_g s)) \<subseteq> set (blockedThreads (wr_g t)) \<union> set (words_in p)"
      "\<forall>j \<in> set (words_in (wr_pc s ! i)). wr_word t j \<or> j \<in> set (words_in p)" "p = BBlocked \<longrightarrow> i \<in> set (blockedThreads (wr_g t))"
  shows "wg_live t"
proof -
  note D = L [unfolded wg_live_def]
  have pm: "p \<in> set (wr_pc t)" using i by (simp add: set_update_memI)
  have sub: "q = p \<or> q \<in> set (wr_pc s)" if "q \<in> set (wr_pc t)" for q using that i set_update_subset_insert by fastforce
  have 1: "\<forall>q \<in> set (wr_pc t). at_zero q \<longrightarrow> wg_count (wg_n (wr_g t)) = 0" using D sub z by blast
  have 2: "(\<exists>p \<in> set (wr_pc t). will_take p) \<or> wg_bit (wg_n (wr_g t)) \<and> wg_count (wg_n (wr_g t)) \<noteq> 0" if "taskWaiters (wr_g t) \<noteq> []"
    using l that pm D ex_update [OF i(1), of will_take p] unfolding i(2) by blast
  have 3: "WLock \<in> set (wr_pc t) \<or> wg_bit (wg_n (wr_g t)) \<and> wg_count (wg_n (wr_g t)) \<noteq> 0" if "blockedThreads (wr_g t) \<noteq> []"
    using b that pm D ex_update [OF i(1), of "\<lambda>q. q = WLock" p] unfolding i(2) by blast
  have 4: "wr_word t j \<or> j \<in> set (blockedThreads (wr_g t)) \<or> (\<exists>p \<in> set (wr_pc t). j \<in> set (words_in p))"
    if j: "j < length (wr_pc t)" "wr_pc t ! j = BBlocked" for j
  proof (cases "j = i")
    case True
    then show ?thesis using w(4) j i by auto
  next
    case False
    then have "wr_word s j \<or> j \<in> set (blockedThreads (wr_g s)) \<or> (\<exists>p \<in> set (wr_pc s). j \<in> set (words_in p))" using D j i by auto
    then consider "wr_word t j" | "j \<in> set (blockedThreads (wr_g t)) \<union> set (words_in p)" | q where "q \<in> set (wr_pc s)" "j \<in> set (words_in q)"
      using w(1,2) False by blast
    then show ?thesis
    proof cases
      case 3
      show ?thesis
      proof (cases "j \<in> set (words_in (wr_pc s ! i))")
        case True
        then show ?thesis using w(3) pm by blast
      next
        case False
        then show ?thesis using ex_update [OF i(1), of "\<lambda>q. j \<in> set (words_in q)" p] 3 unfolding i(2) by blast
      qed
    qed (use pm in auto)
  qed
  show ?thesis unfolding wg_live_def using 1 2 3 4 by blast
qed

lemma live_zero: "wg_live s \<Longrightarrow> i < length (wr_pc s) \<Longrightarrow> at_zero (wr_pc s ! i) \<Longrightarrow> wg_count (wg_n (wr_g s)) = 0"
  unfolding wg_live_def using nth_mem by blast

lemma dec_zero: "wg_count v \<noteq> 0 \<Longrightarrow> wg_count (v - 1) = 0 \<longleftrightarrow> wg_count v = 1"
proof -
  assume nz: "wg_count v \<noteq> 0"
  have "unat (wg_count v) \<noteq> 0" using nz by (simp add: unat_eq_0)
  then have "unat (wg_count (v - 1)) = 0 \<longleftrightarrow> unat (wg_count v) = 1" using wg_dec(1) [OF nz] by linarith
  then show ?thesis by (metis unat_0 unat_1 word_unat_eq_iff)
qed

lemma wg_add_live:
  assumes "wg_live s" "unat (wg_count (wg_n (wr_g s))) + k < 2 ^ 30" "wg_count (wg_n (wr_g s)) \<noteq> 0 \<or> wg_quiet s"
  shows "wg_live (s\<lparr>wr_g := (wr_g s)\<lparr>wg_n := wg_n (wr_g s) + of_nat k\<rparr>\<rparr>)"
proof (cases "wg_quiet s")
  case True
  then have "\<forall>p \<in> set (wr_pc s). p = WIdle \<or> settling p" and e: "taskWaiters (wr_g s) = []" "blockedThreads (wr_g s) = []"
    by (simp_all add: wg_quiet_def list_all_iff)
  moreover have "settling p \<Longrightarrow> \<not> at_zero p \<and> p \<noteq> BBlocked" for p by (cases p) auto
  ultimately have "\<forall>p \<in> set (wr_pc s). \<not> at_zero p \<and> p \<noteq> BBlocked" by auto
  then have "\<forall>p \<in> set (wr_pc s). \<not> at_zero p" "\<forall>i < length (wr_pc s). wr_pc s ! i \<noteq> BBlocked" using nth_mem by fastforce+
  then show ?thesis using e by (simp add: wg_live_def)
next
  case False
  then have nz: "wg_count (wg_n (wr_g s)) \<noteq> 0" using assms(3) by blast
  then have "unat (wg_count (wg_n (wr_g s))) \<noteq> 0" by (simp add: unat_eq_0)
  then have "unat (wg_count (wg_n (wr_g s) + of_nat k)) \<noteq> 0" using wg_add(1) [OF assms(2)] by linarith
  then have "wg_count (wg_n (wr_g s) + of_nat k) \<noteq> 0" by (metis unat_0)
  then show ?thesis using assms(1) nz wg_add(2) [OF assms(2)] unfolding wg_live_def by simp
qed

lemma wg_step_live: "wg_step s t \<Longrightarrow> wg_live s \<Longrightarrow> wg_calls s \<Longrightarrow> \<not> wr_reused t \<Longrightarrow> wg_live t"
proof (induction rule: wg_step.induct)
  case (w_add k s)
  then have "wg_live (s\<lparr>wr_g := (wr_g s)\<lparr>wg_n := wg_n (wr_g s) + of_nat k\<rparr>\<rparr>)" by (intro wg_add_live) auto
  then show ?case by (simp add: wg_live_def)
next
  case (a_push i s u)
  then show ?case by - (rule wg_liveI [where s = s and i = i and p = AAdded], auto simp: goes_simps wg_or wg_clear)
next
  case (a_bit i s)
  then show ?case by - (rule wg_liveI [where s = s and i = i and p = "add_next (wr_g s)"], auto simp: goes_simps wg_or add_next_def)
next
  case (d_take i s)
  then show ?case by - (rule wg_liveI [where s = s and i = i and p = "if taskWaiters (wr_g s) = [] then WIdle else DClear (taskWaiters (wr_g s))"], auto simp: goes_simps dest: live_zero)
next
  case (d_clear i s ts)
  have "wg_count (wg_n (wr_g s)) = 0" using live_zero [OF d_clear(3,1)] d_clear(2) by simp
  then show ?case using d_clear by - (rule wg_liveI [where s = s and i = i and p = "WList ts"], auto simp: goes_simps wg_or wg_clear)
next
  case (l_wake i s u ts)
  then show ?case by - (rule wg_liveI [where s = s and i = i and p = "WList ts"], auto simp: goes_simps wg_or wg_clear)
next
  case (l_end i s)
  then show ?case by - (rule wg_liveI [where s = s and i = i and p = WIdle], auto simp: goes_simps wg_or wg_clear)
next
  case (n_mark i s)
  then show ?case by - (rule wg_liveI [where s = s and i = i and p = NDec], auto simp: goes_simps wg_or wg_clear)
next
  case (n_dec i s)
  note nz = calls_nonzero [OF n_dec(4,1,2)]
  note W = wg_dec [OF nz]
  have 1: "wg_count (wg_n (wr_g s)) = 1 \<Longrightarrow> wg_count (wg_n (wr_g s) - 1) = 0"
    and 2: "wg_count (wg_n (wr_g s)) \<noteq> 1 \<Longrightarrow> wg_count (wg_n (wr_g s) - 1) \<noteq> 0"
    using W(1) dec_zero [OF nz] by auto
  show ?case using n_dec nz 1 2 W(2)
    by - (rule wg_liveI [where s = s and i = i and p = "done_next (wr_g s)"], auto simp: goes_simps done_next_def)
next
  case (n_unmark i s)
  then show ?case by - (rule wg_liveI [where s = s and i = i and p = WIdle], auto simp: goes_simps wg_or wg_clear)
next
  case (k_lock i s)
  then show ?case by - (rule wg_liveI [where s = s and i = i and p = "KTake (words_taken (wr_g s))"], auto simp: goes_simps words_taken_def dest: live_zero)
next
  case (k_take i s bs)
  have "wg_count (wg_n (wr_g s)) = 0" using live_zero [OF k_take(3,1)] k_take(2) by simp
  then show ?case using k_take by - (rule wg_liveI [where s = s and i = i and p = "KClear bs (taskWaiters (wr_g s))"], auto simp: goes_simps wg_or wg_clear)
next
  case (k_clear i s bs ts)
  have "wg_count (wg_n (wr_g s)) = 0" using live_zero [OF k_clear(3,1)] k_clear(2) by simp
  then show ?case using k_clear by - (rule wg_liveI [where s = s and i = i and p = "KMark bs ts"], auto simp: goes_simps wg_or wg_clear)
next
  case (k_mark i s bs ts)
  then show ?case by - (rule wg_liveI [where s = s and i = i and p = "KUnlock bs ts"], auto simp: goes_simps wg_or wg_clear)
next
  case (k_unlock i s bs ts)
  then show ?case by - (rule wg_liveI [where s = s and i = i and p = "KKick bs ts"], auto simp: goes_simps wg_or wg_clear)
next
  case (k_kick i s b bs ts)
  then show ?case by - (rule wg_liveI [where s = s and i = i and p = "KKick bs ts"], auto simp: goes_simps wg_or wg_clear)
next
  case (k_tasks i s ts)
  then show ?case by - (rule wg_liveI [where s = s and i = i and p = "WList ts"], auto simp: goes_simps wg_or wg_clear)
next
  case (b_register i s)
  then show ?case by - (rule wg_liveI [where s = s and i = i and p = BBlocked], auto simp: goes_simps wg_or wg_clear)
next
  case (b_zero i s)
  then show ?case by - (rule wg_liveI [where s = s and i = i and p = "SSpin (wr_adds s)"], auto simp: goes_simps wg_or wg_clear)
next
  case (b_leave i s)
  then show ?case by - (rule wg_liveI [where s = s and i = i and p = "SSpin (wr_adds s)"], auto simp: goes_simps wg_or wg_clear)
next
  case (s_zero i s)
  then show ?case by - (rule wg_liveI [where s = s and i = i and p = "SSpin (wr_adds s)"], auto simp: goes_simps wg_or wg_clear)
next
  case (s_spin i s a)
  then show ?case by - (rule wg_liveI [where s = s and i = i and p = "SLock a"], auto simp: goes_simps wg_or wg_clear)
next
  case (s_lock i s a)
  then show ?case by - (rule wg_liveI [where s = s and i = i and p = "SDone a"], auto simp: goes_simps wg_or wg_clear)
next
  case (s_return i s a)
  then show ?case by - (rule wg_liveI [where s = s and i = i and p = WIdle], auto simp: goes_simps wg_or wg_clear)
next
  case (t_main s w)
  then show ?case by (simp add: wg_live_def)
qed

lemma wg_step_reused: "wg_step s t \<Longrightarrow> wr_reused s \<Longrightarrow> wr_reused t"
  by (induction rule: wg_step.induct) (simp_all add: goes_def)

definition wg_inv :: "wg_run \<Rightarrow> bool" where [inv_defs]: "wg_inv s \<longleftrightarrow> wg_sane s \<and> (wr_reused s \<or> wg_live s)"

interpretation wg_live_runs: transition_system wg_step wg_inv
  by unfold_locales (auto simp: wg_inv_def wg_sane_def intro: wg_step_live wg_step_books wg_step_calls dest: wg_step_reused)

section \<open>Settling\<close>

text \<open>Nobody is between the mark and the release of a completion, and with the count at zero nobody can get there before tasks are added.\<close>

definition no_marks :: "wg_run \<Rightarrow> bool" where "no_marks s \<longleftrightarrow> wg_count (wg_n (wr_g s)) = 0 \<and> (\<forall>p \<in> set (wr_pc s). \<not> marked p)"
definition calm :: "wg_run \<Rightarrow> bool" where "calm s \<longleftrightarrow> no_marks s \<and> (\<forall>p \<in> set (wr_pc s). \<not> holds_mtx p)"

fun settle_ok :: "wg_run \<Rightarrow> wg_pc \<Rightarrow> bool" where
  "settle_ok s (SSpin a) \<longleftrightarrow> a < wr_adds s \<or> a = wr_adds s \<and> wg_count (wg_n (wr_g s)) = 0"
| "settle_ok s (SLock a) \<longleftrightarrow> a < wr_adds s \<or> a = wr_adds s \<and> no_marks s"
| "settle_ok s (SDone a) \<longleftrightarrow> a < wr_adds s \<or> a = wr_adds s \<and> calm s"
| "settle_ok s _ \<longleftrightarrow> True"

lemma in_updateD: "q \<in> set (ps[i := p]) \<Longrightarrow> q = p \<or> q \<in> set ps"
  using set_update_subset_insert by fastforce

lemma step_calm:
  assumes "wg_step s t" "wg_calls s" "wr_adds t = wr_adds s" "wg_count (wg_n (wr_g s)) = 0"
  shows "wg_count (wg_n (wr_g t)) = 0 \<and> (no_marks s \<longrightarrow> no_marks t) \<and> (calm s \<longrightarrow> calm t)"
  using assms
proof (induction rule: wg_step.induct)
  case (n_dec i s)
  then show ?case using calls_nonzero [OF n_dec(3,1,2)] by simp
next
  case (k_lock i s)
  then have "marked (wr_pc s ! i)" by simp
  then show ?case using k_lock nth_mem [OF k_lock(1)] by (auto simp: goes_simps no_marks_def calm_def)
next
  case (k_take i s bs)
  then have "marked (wr_pc s ! i)" by simp
  then show ?case using k_take nth_mem [OF k_take(1)] by (auto simp: goes_simps no_marks_def calm_def)
next
  case (k_clear i s bs ts)
  then have "marked (wr_pc s ! i)" by simp
  then show ?case using k_clear nth_mem [OF k_clear(1)] by (auto simp: goes_simps no_marks_def calm_def wg_clear)
next
  case (k_mark i s bs ts)
  then have "marked (wr_pc s ! i)" by simp
  then show ?case using k_mark nth_mem [OF k_mark(1)] by (auto simp: goes_simps no_marks_def calm_def)
qed (auto simp: goes_simps no_marks_def calm_def add_next_def wg_or wg_clear bool_count_0 dest!: in_updateD split: if_splits)

lemma wg_step_adds: "wg_step s t \<Longrightarrow> wr_adds t = wr_adds s \<or> wr_adds t = Suc (wr_adds s) \<and> wr_pc t = wr_pc s"
  by (induction rule: wg_step.induct) (simp_all add: goes_def)

lemma settle_ok_step:
  assumes "wg_step s t" "wg_calls s" "settle_ok s p" "wr_adds t = wr_adds s"
  shows "settle_ok t p"
  using assms step_calm [OF assms(1,2,4)] by (cases p) (auto simp: no_marks_def calm_def)

definition wg_settled :: "wg_run \<Rightarrow> bool" where
  [inv_defs]: "wg_settled s \<longleftrightarrow> wg_sane s \<and> (\<forall>p \<in> set (wr_pc s). settle_ok s p)"

text \<open>The point a step goes to is in order.\<close>

lemma settle_ok_new:
  assumes "wg_step s t" "wg_settled s" "wr_adds t = wr_adds s" "p \<in> set (wr_pc t)" "p \<notin> set (wr_pc s)"
  shows "settle_ok t p"
  using assms
proof (induction rule: wg_step.induct)
  case (s_spin i s a)
  then have "settle_ok s (SSpin a)" using nth_mem unfolding wg_settled_def by fastforce
  moreover have "\<forall>q \<in> set (wr_pc s). \<not> marked q" using s_spin(3,4) by (simp add: wg_settled_def wg_sane_def wg_books_def bool_count_0)
  ultimately have "settle_ok (goes i (SLock a) (wr_g s) s) (SLock a)" by (auto simp: no_marks_def goes_def dest!: in_updateD)
  then show ?case using s_spin by (auto simp: goes_def dest!: in_updateD)
next
  case (s_lock i s a)
  then have "settle_ok s (SLock a)" using nth_mem unfolding wg_settled_def by fastforce
  moreover have "\<forall>q \<in> set (wr_pc s). \<not> holds_mtx q" using s_lock(3,4) by (simp add: wg_settled_def wg_sane_def wg_books_def bool_count_0)
  ultimately have "settle_ok (goes i (SDone a) (wr_g s) s) (SDone a)" by (auto simp: no_marks_def calm_def goes_def dest!: in_updateD)
  then show ?case using s_lock by (auto simp: goes_def dest!: in_updateD)
qed (auto simp: goes_simps add_next_def done_next_def wg_or wg_clear dest!: in_updateD split: if_splits)

lemma wg_step_settled: "wg_settled s \<Longrightarrow> wg_step s t \<Longrightarrow> wg_settled t"
proof -
  assume s: "wg_settled s" and st: "wg_step s t"
  have "wg_sane t" using s st by (auto simp: wg_settled_def wg_sane_def intro: wg_step_books wg_step_calls)
  moreover have "settle_ok t p" if p: "p \<in> set (wr_pc t)" for p
  proof (cases "wr_adds t = wr_adds s")
    case True
    then show ?thesis using settle_ok_new [OF st s True p] settle_ok_step [OF st _ _ True] s by (auto simp: wg_settled_def wg_sane_def)
  next
    case False
    then have "wr_adds t = Suc (wr_adds s)" "p \<in> set (wr_pc s)" using wg_step_adds [OF st] p by auto
    then have "settle_ok s p" "wr_adds t = Suc (wr_adds s)" using s by (simp_all add: wg_settled_def)
    then show ?thesis by (cases p) auto
  qed
  ultimately show ?thesis by (simp add: wg_settled_def)
qed

interpretation wg_settles: transition_system wg_step wg_settled
  by unfold_locales (rule wg_step_settled)

lemma adds_grow: "reach wg_step s t \<Longrightarrow> wr_adds s \<le> wr_adds t"
  by (induction rule: reach.induct) (auto dest: wg_step_adds)

lemma calm_stays:
  assumes "reach wg_step s t" "wg_settled s" "calm s" "wr_adds t = wr_adds s"
  shows "calm t"
  using assms
proof (induction rule: reach.induct)
  case (reach_step u t)
  have "wr_adds s \<le> wr_adds u" "wr_adds u \<le> wr_adds t" using adds_grow [OF reach_step(1)] wg_step_adds [OF reach_step(2)] by auto
  then have e: "wr_adds u = wr_adds s" "wr_adds t = wr_adds u" using reach_step(6) by simp_all
  have "calm u" using reach_step(3) [OF reach_step(4,5) e(1)] .
  moreover have "wg_calls u" using wg_settles.reach_inv [OF reach_step(1,4)] by (simp add: wg_settled_def wg_sane_def)
  ultimately show ?case using step_calm [OF reach_step(2) _ e(2)] by (auto simp: calm_def no_marks_def)
qed

lemma sum_tasks_empty: "\<forall>p \<in> set ps. tasks_in p = [] \<Longrightarrow> sum_list (map (\<lambda>p. mset (tasks_in p)) ps) = {#}"
  by (induction ps) auto

lemma wg_init_ok: "wg_inv (wg_init k)" "wg_settled (wg_init k)"
  using sum_tasks_empty [of "replicate k WIdle"] bool_count_0 [of marked "replicate k WIdle"] bool_count_0 [of holds_mtx "replicate k WIdle"] bool_count_0 [of "\<lambda>p. p = NDec" "replicate k WIdle"]
  by (auto simp: wg_init_def wg_books_def wg_live_def wg_inv_def wg_settled_def wg_sane_def wg_calls_def)

section \<open>What the wait group promises\<close>

text \<open>(C14) No lost wake: in every run in which tasks were never added from count zero while a waiter's or a completion's call was in progress, whenever the count
  is zero and no call is in progress, no task is left in the list, every task that waited has been woken exactly once, and every thread still blocked has had its word kicked.\<close>

theorem waitgroup_no_lost_wake:
  assumes "reach wg_step (wg_init k) s" "\<not> wr_reused s" "wg_count (wg_n (wr_g s)) = 0" "\<forall>p \<in> set (wr_pc s). p = WIdle \<or> p = BBlocked"
  shows "taskWaiters (wr_g s) = [] \<and> mset (wr_woken s) = mset (wr_added s) \<and>
    (\<forall>i < length (wr_pc s). wr_pc s ! i = BBlocked \<longrightarrow> wr_word s i)"
proof -
  have B: "wg_books s" and L: "wg_live s" using wg_live_runs.reach_inv [OF assms(1) wg_init_ok(1)] assms(2) by (auto simp: wg_inv_def wg_sane_def)
  have e: "taskWaiters (wr_g s) = []" "blockedThreads (wr_g s) = []" using L assms(3,4) unfolding wg_live_def by fastforce+
  have "sum_list (map (\<lambda>p. mset (tasks_in p)) (wr_pc s)) = {#}" using assms(4) by (intro sum_tasks_empty) auto
  then have "mset (wr_woken s) = mset (wr_added s)" using B e(1) by (simp add: wg_books_def)
  moreover have "wr_word s i" if "i < length (wr_pc s)" "wr_pc s ! i = BBlocked" for i
    using L that e(2) assms(4) unfolding wg_live_def by fastforce
  ultimately show ?thesis using e(1) by blast
qed

text \<open>(C22) A waiter that has settled may free the group: once \<open>Settle\<close> comes to its return for a waiter that saw the count at zero, then from there on, in every state reached before tasks are
  added to the group again, the count is zero and no completion is between its mark and its release or inside the mutex, so none touches the group.\<close>

theorem settle_outlasts_every_completion:
  assumes "reach wg_step (wg_init k) s" "SDone a \<in> set (wr_pc s)" "wr_adds s = a" "reach wg_step s t" "wr_adds t = a"
  shows "wg_count (wg_n (wr_g t)) = 0 \<and> (\<forall>p \<in> set (wr_pc t). \<not> marked p \<and> \<not> holds_mtx p)"
proof -
  have s: "wg_settled s" by (rule wg_settles.reach_inv [OF assms(1) wg_init_ok(2)])
  then have "calm s" using assms(2,3) by (force simp: wg_settled_def)
  then have "calm t" using calm_stays [OF assms(4) s] assms(3,5) by simp
  then show ?thesis by (auto simp: calm_def no_marks_def)
qed

section \<open>Concrete runs\<close>

definition demo :: "bool \<Rightarrow> nat \<Rightarrow> u32 \<Rightarrow> nat \<Rightarrow> wg_pc list \<Rightarrow> nat list \<Rightarrow> nat list \<Rightarrow> nat list \<Rightarrow> wg_run" where
  "demo r k n m ps l a w = \<lparr>wr_g = \<lparr>wg_n = n, wg_waking = m, taskWaiters = l, threadWaiter = None, blockedThreads = [], wg_mtx = False\<rparr>,
     wr_pc = ps, wr_word = (\<lambda>_. False), wr_added = a, wr_woken = w, wr_adds = k, wr_reused = r\<rparr>"

lemmas demo_simps = demo_def goes_simps wg_quiet_def bool_count_def add_next_def done_next_def wg_count_def wg_bit_def WAITER_BIT_def COUNT_MASK_def

lemma demo_init: "wg_init 2 = demo False 0 0 0 [WIdle, WIdle] [] [] []"
  by (simp add: wg_init_def demo_def numeral_2_eq_2)

lemma demo_wakes: "reach wg_step (wg_init 2) (demo False 0 0 0 [WIdle, WIdle] [] [5] [5])"
proof -
  have 0: "reach wg_step (wg_init 2) (demo False 0 0 0 [WIdle, WIdle] [] [] [])" unfolding demo_init by (rule reach.reach_init)
  have 1: "reach wg_step (wg_init 2) (demo False 0 0 0 [AAdded, WIdle] [5] [5] [])"
    using wg_step.a_push [of 0 "demo False 0 0 0 [WIdle, WIdle] [] [] []" 5] by (intro reach.reach_step [OF 0]) (simp add: demo_simps)
  have 2: "reach wg_step (wg_init 2) (demo False 0 0x40000000 0 [DTake, WIdle] [5] [5] [])"
    using wg_step.a_bit [of 0 "demo False 0 0 0 [AAdded, WIdle] [5] [5] []"] by (intro reach.reach_step [OF 1]) (simp add: demo_simps)
  have 3: "reach wg_step (wg_init 2) (demo False 0 0x40000000 0 [DClear [5], WIdle] [] [5] [])"
    using wg_step.d_take [of 0 "demo False 0 0x40000000 0 [DTake, WIdle] [5] [5] []"] by (intro reach.reach_step [OF 2]) (simp add: demo_simps)
  have 4: "reach wg_step (wg_init 2) (demo False 0 0 0 [WList [5], WIdle] [] [5] [])"
    using wg_step.d_clear [of 0 "demo False 0 0x40000000 0 [DClear [5], WIdle] [] [5] []" "[5]"] by (intro reach.reach_step [OF 3]) (simp add: demo_simps)
  have 5: "reach wg_step (wg_init 2) (demo False 0 0 0 [WList [], WIdle] [] [5] [5])"
    using wg_step.l_wake [of 0 "demo False 0 0 0 [WList [5], WIdle] [] [5] []" 5 "[]"] by (intro reach.reach_step [OF 4]) (simp add: demo_simps)
  have 6: "reach wg_step (wg_init 2) (demo False 0 0 0 [WIdle, WIdle] [] [5] [5])"
    using wg_step.l_end [of 0 "demo False 0 0 0 [WList [], WIdle] [] [5] [5]"] by (intro reach.reach_step [OF 5]) (simp add: demo_simps)
  show ?thesis by (rule 6)
qed

theorem waitgroup_no_lost_wake_witness:
  "\<exists>s. reach wg_step (wg_init 2) s \<and> wr_added s = [5] \<and> mset (wr_woken s) = mset (wr_added s)"
proof -
  have "\<not> wr_reused (demo False 0 0 0 [WIdle, WIdle] [] [5] [5])" "wg_count (wg_n (wr_g (demo False 0 0 0 [WIdle, WIdle] [] [5] [5]))) = 0" "\<forall>p \<in> set (wr_pc (demo False 0 0 0 [WIdle, WIdle] [] [5] [5])). p = WIdle \<or> p = BBlocked"
    by (simp_all add: demo_simps)
  from waitgroup_no_lost_wake [OF demo_wakes this] show ?thesis using demo_wakes by (auto simp: demo_def)
qed

text \<open>One task is added and done; the other thread sees the count at zero and settles while the completion still holds its mark.\<close>

lemma demo_settles: "reach wg_step (wg_init 2) (demo False 1 0 0 [WIdle, SDone 1] [] [] [])"
proof -
  have 0: "reach wg_step (wg_init 2) (demo False 0 0 0 [WIdle, WIdle] [] [] [])" unfolding demo_init by (rule reach.reach_init)
  have 1: "reach wg_step (wg_init 2) (demo False 1 1 0 [WIdle, WIdle] [] [] [])"
    using wg_step.w_add [of 1 "demo False 0 0 0 [WIdle, WIdle] [] [] []"] by (intro reach.reach_step [OF 0]) (simp add: demo_simps)
  have 2: "reach wg_step (wg_init 2) (demo False 1 1 1 [NDec, WIdle] [] [] [])"
    using wg_step.n_mark [of 0 "demo False 1 1 0 [WIdle, WIdle] [] [] []"] by (intro reach.reach_step [OF 1]) (simp add: demo_simps)
  have 3: "reach wg_step (wg_init 2) (demo False 1 0 1 [NUnmark, WIdle] [] [] [])"
    using wg_step.n_dec [of 0 "demo False 1 1 1 [NDec, WIdle] [] [] []"] by (intro reach.reach_step [OF 2]) (simp add: demo_simps)
  have 4: "reach wg_step (wg_init 2) (demo False 1 0 1 [NUnmark, SSpin 1] [] [] [])"
    using wg_step.s_zero [of 1 "demo False 1 0 1 [NUnmark, WIdle] [] [] []"] by (intro reach.reach_step [OF 3]) (simp add: demo_simps)
  have 5: "reach wg_step (wg_init 2) (demo False 1 0 0 [WIdle, SSpin 1] [] [] [])"
    using wg_step.n_unmark [of 0 "demo False 1 0 1 [NUnmark, SSpin 1] [] [] []"] by (intro reach.reach_step [OF 4]) (simp add: demo_simps)
  have 6: "reach wg_step (wg_init 2) (demo False 1 0 0 [WIdle, SLock 1] [] [] [])"
    using wg_step.s_spin [of 1 "demo False 1 0 0 [WIdle, SSpin 1] [] [] []"] by (intro reach.reach_step [OF 5]) (simp add: demo_simps)
  show ?thesis using wg_step.s_lock [of 1 "demo False 1 0 0 [WIdle, SLock 1] [] [] []"] by (intro reach.reach_step [OF 6]) (simp add: demo_simps)
qed

theorem settle_outlasts_every_completion_witness:
  "\<exists>s t. reach wg_step (wg_init 2) s \<and> wr_pc s = [WIdle, SDone 1] \<and> reach wg_step s t \<and> wr_pc t = [WIdle, WIdle] \<and> wg_count (wg_n (wr_g t)) = 0 \<and> \<not> marked (wr_pc t ! 0)"
proof -
  let ?s = "demo False 1 0 0 [WIdle, SDone 1] [] [] []" and ?t = "demo False 1 0 0 [WIdle, WIdle] [] [] []"
  have r: "reach wg_step ?s ?t" using wg_step.s_return [of 1 ?s 1] by (intro reach_one [of wg_step]) (simp add: demo_simps)
  have "SDone 1 \<in> set (wr_pc ?s)" "wr_adds ?s = 1" "wr_adds ?t = 1" by (simp_all add: demo_def)
  from settle_outlasts_every_completion [OF demo_settles this(1,2) r this(3)] show ?thesis using demo_settles r by (intro exI [of _ ?s] exI [of _ ?t]) (simp add: demo_def)
qed

text \<open>Adding from zero while a direct wake is between taking the list and clearing the bit loses the next waiter: a run with
  two threads ends with the count at zero, no call in progress, and a task that waited neither woken nor noticed.\<close>

theorem reuse_during_wake_loses_a_waiter:
  "\<exists>s. reach wg_step (wg_init 2) s \<and> wg_count (wg_n (wr_g s)) = 0 \<and> wr_pc s = [WIdle, WIdle] \<and>
     taskWaiters (wr_g s) = [7] \<and> wr_added s = [7, 5] \<and> wr_woken s = [5]"
proof -
  have 0: "reach wg_step (wg_init 2) (demo False 0 0 0 [WIdle, WIdle] [] [] [])" unfolding demo_init by (rule reach.reach_init)
  have 1: "reach wg_step (wg_init 2) (demo False 0 0 0 [AAdded, WIdle] [5] [5] [])"
    using wg_step.a_push [of 0 "demo False 0 0 0 [WIdle, WIdle] [] [] []" 5] by (intro reach.reach_step [OF 0]) (simp add: demo_simps)
  have 2: "reach wg_step (wg_init 2) (demo False 0 0x40000000 0 [DTake, WIdle] [5] [5] [])"
    using wg_step.a_bit [of 0 "demo False 0 0 0 [AAdded, WIdle] [5] [5] []"] by (intro reach.reach_step [OF 1]) (simp add: demo_simps)
  have 3: "reach wg_step (wg_init 2) (demo False 0 0x40000000 0 [DClear [5], WIdle] [] [5] [])"
    using wg_step.d_take [of 0 "demo False 0 0x40000000 0 [DTake, WIdle] [5] [5] []"] by (intro reach.reach_step [OF 2]) (simp add: demo_simps)
  have 4: "reach wg_step (wg_init 2) (demo True 1 0x40000001 0 [DClear [5], WIdle] [] [5] [])"
    using wg_step.w_add [of 1 "demo False 0 0x40000000 0 [DClear [5], WIdle] [] [5] []"] by (intro reach.reach_step [OF 3]) (simp add: demo_simps)
  have 5: "reach wg_step (wg_init 2) (demo True 1 0x40000001 0 [DClear [5], AAdded] [7] [7, 5] [])"
    using wg_step.a_push [of 1 "demo True 1 0x40000001 0 [DClear [5], WIdle] [] [5] []" 7] by (intro reach.reach_step [OF 4]) (simp add: demo_simps)
  have 6: "reach wg_step (wg_init 2) (demo True 1 0x40000001 0 [DClear [5], WIdle] [7] [7, 5] [])"
    using wg_step.a_bit [of 1 "demo True 1 0x40000001 0 [DClear [5], AAdded] [7] [7, 5] []"] by (intro reach.reach_step [OF 5]) (simp add: demo_simps)
  have 7: "reach wg_step (wg_init 2) (demo True 1 1 0 [WList [5], WIdle] [7] [7, 5] [])"
    using wg_step.d_clear [of 0 "demo True 1 0x40000001 0 [DClear [5], WIdle] [7] [7, 5] []" "[5]"] by (intro reach.reach_step [OF 6]) (simp add: demo_simps)
  have 8: "reach wg_step (wg_init 2) (demo True 1 1 0 [WList [], WIdle] [7] [7, 5] [5])"
    using wg_step.l_wake [of 0 "demo True 1 1 0 [WList [5], WIdle] [7] [7, 5] []" 5 "[]"] by (intro reach.reach_step [OF 7]) (simp add: demo_simps)
  have 9: "reach wg_step (wg_init 2) (demo True 1 1 0 [WIdle, WIdle] [7] [7, 5] [5])"
    using wg_step.l_end [of 0 "demo True 1 1 0 [WList [], WIdle] [7] [7, 5] [5]"] by (intro reach.reach_step [OF 8]) (simp add: demo_simps)
  have 10: "reach wg_step (wg_init 2) (demo True 1 1 1 [WIdle, NDec] [7] [7, 5] [5])"
    using wg_step.n_mark [of 1 "demo True 1 1 0 [WIdle, WIdle] [7] [7, 5] [5]"] by (intro reach.reach_step [OF 9]) (simp add: demo_simps)
  have 11: "reach wg_step (wg_init 2) (demo True 1 0 1 [WIdle, NUnmark] [7] [7, 5] [5])"
    using wg_step.n_dec [of 1 "demo True 1 1 1 [WIdle, NDec] [7] [7, 5] [5]"] by (intro reach.reach_step [OF 10]) (simp add: demo_simps)
  have 12: "reach wg_step (wg_init 2) (demo True 1 0 0 [WIdle, WIdle] [7] [7, 5] [5])"
    using wg_step.n_unmark [of 1 "demo True 1 0 1 [WIdle, NUnmark] [7] [7, 5] [5]"] by (intro reach.reach_step [OF 11]) (simp add: demo_simps)
  show ?thesis by (intro exI [of _ "demo True 1 0 0 [WIdle, WIdle] [7] [7, 5] [5]"] conjI) (use 12 in \<open>simp_all add: demo_simps\<close>)
qed

end
