(* ===== verification/MainWaits.thy ===== *)
theory MainWaits
  imports WaitGroups
begin

text \<open>
  Main's wait when it is out of the pool (\<open>OutOfPoolMainWait\<close>, \<open>RunOneMainTask\<close> and \<open>RunMainTask\<close> of \<^verbatim>\<open>src/TaskScheduler.cpp\<close>, the wait word of
  \<^verbatim>\<open>src/Thread.cpp\<close>): it runs what is routed to it, and otherwise sleeps until the group is finished or something is routed to it. The steps are the single
  accesses of the wait word, of the group's counter word, of its list of blocked threads (under its mutex) and of main's queue; the group's counter is the one of \<open>WaitGroups\<close>.
\<close>

section \<open>What main runs\<close>

text \<open>A task of main's queue: fresh or started, with a fiber or without one, cancelled or not, counted by a group or not.\<close>

record main_task =
  mt_started :: bool
  mt_fiber :: bool
  mt_cancelled :: bool
  mt_counted :: bool

datatype main_action = Discarded | SwitchedTo | Executed

text \<open>\<open>DiscardIfCancelled\<close>, then \<open>RunMainTask\<close>; with whether the group of the task is told that it is done, and whether the task is freed here. \<open>helper\<close>: there is a current thread.\<close>

definition RunMainTask :: "bool \<Rightarrow> main_task \<Rightarrow> main_action \<times> bool \<times> bool" where
  "RunMainTask helper t = (if mt_started t \<and> mt_fiber t \<and> helper then (SwitchedTo, False, False) else (Executed, mt_counted t, True))"

definition RunOneMainTask_effect :: "bool \<Rightarrow> main_task \<Rightarrow> main_action \<times> bool \<times> bool" where
  "RunOneMainTask_effect helper t = (if \<not> mt_started t \<and> mt_cancelled t then (Discarded, mt_counted t, True) else RunMainTask helper t)"

lemma main_task_is_settled_here_or_in_its_fiber:
  "RunOneMainTask_effect True t = (a, told, freed) \<Longrightarrow> freed = (a \<noteq> SwitchedTo) \<and> told = (freed \<and> mt_counted t) \<and> (a = SwitchedTo \<longrightarrow> mt_started t \<and> mt_fiber t)"
  by (auto simp: RunOneMainTask_effect_def RunMainTask_def split: if_splits)

section \<open>The wait word\<close>

datatype wait_word = WaitRunning | WaitWaiting | WaitKicked

text \<open>\<open>KickWaitWord\<close>: the new word, and whether the sleeper is woken.\<close>

definition KickWaitWord :: "wait_word \<Rightarrow> wait_word \<times> bool" where
  "KickWaitWord w = (WaitKicked, w = WaitWaiting)"

text \<open>\<open>BlockOnWaitWord\<close> goes on when the word is no longer waiting.\<close>

definition block_goes_on :: "wait_word \<Rightarrow> bool" where
  "block_goes_on w \<longleftrightarrow> w \<noteq> WaitWaiting"

section \<open>Main, the tasks of the group, and the threads that route work to main\<close>

text \<open>Main's positions in the loop: before it reads the count, before it looks at its queue, before it stores the word, before it registers, before it looks at the queue again, asleep, awake
  again (registered or not), and returned.\<close>

datatype main_pc = MCount | MQueue | MStore | MRegister | MRecheck | MBlocked | MAwake bool | MUnregister | MReturned

text \<open>\<open>mw_direct\<close>: the waiters that set the bit, saw the count at zero and are in \<open>WakeAllDirect\<close>, where they may still clear the bit; \<open>mw_lock\<close>: the tasks that ended the group and have not yet entered the locked part of \<open>WakeAll\<close>; \<open>mw_kick\<close>: the ones that took main's word out of the list and have not kicked it;
  \<open>mw_push\<close>: the threads that put a task into main's queue and have not kicked the word. \<open>mw_reused\<close> is not in the code: it records that a task was added from count zero while some waiter
  was in \<open>WakeAllDirect\<close>.\<close>

record main_wait =
  mw_pc :: main_pc
  mw_word :: wait_word
  mw_n :: u32
  mw_blocked :: bool
  mw_queue :: nat
  mw_lock :: nat
  mw_kick :: nat
  mw_push :: nat
  mw_direct :: nat
  mw_reused :: bool

definition main_start :: "u32 \<Rightarrow> main_wait" where
  "main_start n = \<lparr>mw_pc = MCount, mw_word = WaitRunning, mw_n = n, mw_blocked = False, mw_queue = 0, mw_lock = 0, mw_kick = 0, mw_push = 0, mw_direct = 0, mw_reused = False\<rparr>"

definition kicked :: "main_wait \<Rightarrow> main_wait" where
  "kicked m = m\<lparr>mw_word := fst (KickWaitWord (mw_word m))\<rparr>"

text \<open>\<open>g_bit\<close>, \<open>g_direct\<close> and \<open>g_nothing\<close> are other waiters of the group: they set the bit, and if the count was zero they take the list of tasks and, when it is not empty, clear the bit. Every counted task is
  done once. \<open>mw_reused\<close> is not in the code: it records that a task was added from count zero while such a waiter was between the two.\<close>

inductive main_step :: "main_wait \<Rightarrow> main_wait \<Rightarrow> bool" where
  m_count: "mw_pc m = MCount \<Longrightarrow> main_step m (m\<lparr>mw_pc := if wg_count (mw_n m) = 0 then MReturned else MQueue\<rparr>)"
| m_run: "mw_pc m = MQueue \<Longrightarrow> 0 < mw_queue m \<Longrightarrow> main_step m (m\<lparr>mw_queue := mw_queue m - 1, mw_pc := MCount\<rparr>)"
| m_spin: "mw_pc m = MQueue \<Longrightarrow> mw_queue m = 0 \<Longrightarrow> main_step m (m\<lparr>mw_pc := if (attempts :: nat) < 32 then MCount else MStore\<rparr>)"
| m_store: "mw_pc m = MStore \<Longrightarrow> main_step m (m\<lparr>mw_word := WaitWaiting, mw_pc := MRegister\<rparr>)"
| m_register: "mw_pc m = MRegister \<Longrightarrow>
    main_step m (if wg_count (mw_n m) \<noteq> 0 then m\<lparr>mw_n := mw_n m OR WAITER_BIT, mw_blocked := True, mw_pc := MRecheck\<rparr> else m\<lparr>mw_n := mw_n m OR WAITER_BIT, mw_pc := MAwake False\<rparr>)"
| m_recheck: "mw_pc m = MRecheck \<Longrightarrow> main_step m (m\<lparr>mw_pc := if mw_queue m = 0 \<and> active then MBlocked else MAwake True\<rparr>)"
| m_wake: "mw_pc m = MBlocked \<Longrightarrow> block_goes_on (mw_word m) \<Longrightarrow> main_step m (m\<lparr>mw_pc := MAwake True\<rparr>)"
| m_running: "mw_pc m = MAwake reg \<Longrightarrow> main_step m (m\<lparr>mw_word := WaitRunning, mw_pc := if reg then MUnregister else MCount\<rparr>)"
| m_unregister: "mw_pc m = MUnregister \<Longrightarrow> main_step m (m\<lparr>mw_blocked := False, mw_pc := MCount\<rparr>)"
| g_done: "wg_count (mw_n m) \<noteq> 0 \<Longrightarrow>
    main_step m (if wg_count (mw_n m - 1) = 0 \<and> wg_bit (mw_n m) then m\<lparr>mw_n := mw_n m - 1, mw_lock := mw_lock m + 1\<rparr> else m\<lparr>mw_n := mw_n m - 1\<rparr>)"
| g_add: "unat (wg_count (mw_n m)) + 1 < 2 ^ 30 \<Longrightarrow> main_step m (m\<lparr>mw_n := mw_n m + 1, mw_reused := mw_reused m \<or> wg_count (mw_n m) = 0 \<and> 0 < mw_direct m\<rparr>)"
| g_wakeall: "0 < mw_lock m \<Longrightarrow>
    main_step m (m\<lparr>mw_lock := mw_lock m - 1, mw_n := mw_n m AND NOT WAITER_BIT, mw_blocked := False, mw_kick := if mw_blocked m then mw_kick m + 1 else mw_kick m\<rparr>)"
| g_bit: "main_step m ((m :: main_wait)\<lparr>mw_n := mw_n m OR WAITER_BIT, mw_direct := if wg_count (mw_n m) = 0 then mw_direct m + 1 else mw_direct m\<rparr>)"
| g_direct: "0 < mw_direct m \<Longrightarrow> main_step m (m\<lparr>mw_n := mw_n m AND NOT WAITER_BIT, mw_direct := mw_direct m - 1\<rparr>)"
| g_nothing: "0 < mw_direct m \<Longrightarrow> main_step m (m\<lparr>mw_direct := mw_direct m - 1\<rparr>)"
| g_kick: "0 < mw_kick m \<Longrightarrow> main_step m ((kicked m)\<lparr>mw_kick := mw_kick m - 1\<rparr>)"
| p_push: "main_step m (m\<lparr>mw_queue := mw_queue m + 1, mw_push := mw_push m + 1\<rparr>)"
| p_kick: "0 < mw_push m \<Longrightarrow> main_step m ((kicked m)\<lparr>mw_push := mw_push m - 1\<rparr>)"

definition waits :: "main_pc \<Rightarrow> bool" where
  "waits p \<longleftrightarrow> p = MRecheck \<or> p = MBlocked"

text \<open>A registered main has its wake-up on the way, or the group is unfinished and its end will see the bit; and no task lies in the queue of a main that sleeps, unless its kick is on the way.\<close>

definition main_inv :: "main_wait \<Rightarrow> bool" where
  [inv_defs]: "main_inv m \<longleftrightarrow> mw_reused m \<or> (waits (mw_pc m) \<and> mw_word m = WaitWaiting \<longrightarrow> mw_blocked m \<or> 0 < mw_kick m) \<and>
    (mw_blocked m \<longrightarrow> wg_bit (mw_n m) \<and> wg_count (mw_n m) \<noteq> 0 \<or> 0 < mw_lock m) \<and> (mw_pc m = MBlocked \<and> mw_word m = WaitWaiting \<longrightarrow> mw_queue m = 0 \<or> 0 < mw_push m) \<and>
    (0 < mw_direct m \<longrightarrow> wg_count (mw_n m) = 0)"

lemmas main_simps = main_inv_def waits_def kicked_def KickWaitWord_def block_goes_on_def wg_or wg_clear

lemma main_step_inv: "main_inv m \<Longrightarrow> main_step m m' \<Longrightarrow> main_inv m'"
proof (rotate_tac, induction rule: main_step.induct)
  case (g_done m)
  then show ?case using wg_dec(2) [of "mw_n m"] by (auto simp: main_simps)
next
  case (g_add m)
  have "unat (wg_count (mw_n m + of_nat 1)) = unat (wg_count (mw_n m)) + 1" "wg_bit (mw_n m + of_nat 1) = wg_bit (mw_n m)" using wg_add [OF g_add(1)] by blast+
  then have "wg_count (mw_n m + 1) \<noteq> 0" "wg_bit (mw_n m + 1) = wg_bit (mw_n m)" by auto
  then show ?case using g_add by (auto simp: main_simps)
qed (auto simp: main_simps)

interpretation mainwait: transition_system main_step main_inv
  by unfold_locales (rule main_step_inv)

lemma main_start_inv: "main_inv (main_start n)"
  by (simp add: main_simps main_start_def)

text \<open>(C37) Main never sleeps with its wake-up lost: in every run in which no task was added from count zero while a waiter was in \<open>WakeAllDirect\<close>, when the other threads' calls have ended and main is still
  asleep on its word, the group has unfinished tasks and its waiter bit, so that its end will wake main, and nothing is in main's queue.\<close>

theorem sleeping_main_has_nothing_to_do:
  assumes "reach main_step (main_start n) m" "\<not> mw_reused m" "mw_pc m = MBlocked" "\<not> block_goes_on (mw_word m)" "mw_lock m = 0" "mw_kick m = 0" "mw_push m = 0"
  shows "wg_count (mw_n m) \<noteq> 0 \<and> wg_bit (mw_n m) \<and> mw_queue m = 0"
proof -
  have "main_inv m" using mainwait.reach_inv [OF assms(1) main_start_inv] .
  then show ?thesis using assms(2-) by (auto simp: main_inv_def waits_def block_goes_on_def)
qed

text \<open>Added from zero at that moment, a task can leave main asleep: a waiter has taken the list at count zero, a task is added, main registers and sleeps, the waiter clears the bit, and the task's end wakes nobody.\<close>

lemma add_from_zero_can_strand_main: "\<exists>m. reach main_step (main_start 0) m \<and> mw_pc m = MBlocked \<and> \<not> block_goes_on (mw_word m) \<and> mw_lock m = 0 \<and> mw_kick m = 0 \<and> mw_push m = 0 \<and> wg_count (mw_n m) = 0"
proof -
  let ?m1 = "(main_start 0)\<lparr>mw_n := WAITER_BIT, mw_direct := 1\<rparr>"
  let ?m2 = "?m1\<lparr>mw_n := WAITER_BIT + 1, mw_reused := True\<rparr>"
  let ?m3 = "?m2\<lparr>mw_pc := MQueue\<rparr>" and ?m4 = "?m2\<lparr>mw_pc := MStore\<rparr>" and ?m5 = "?m2\<lparr>mw_word := WaitWaiting, mw_pc := MRegister\<rparr>"
  let ?m6 = "?m2\<lparr>mw_word := WaitWaiting, mw_blocked := True, mw_pc := MRecheck\<rparr>" and ?m7 = "?m2\<lparr>mw_word := WaitWaiting, mw_blocked := True, mw_pc := MBlocked\<rparr>"
  let ?m8 = "?m7\<lparr>mw_n := 1, mw_direct := 0\<rparr>" and ?m9 = "?m7\<lparr>mw_n := 0, mw_direct := 0\<rparr>"
  have w: "wg_count 0 = 0" "wg_count (WAITER_BIT + 1) = 1" "wg_count WAITER_BIT = 0" "wg_count 1 = 1" "(WAITER_BIT + 1) OR WAITER_BIT = WAITER_BIT + 1" "(WAITER_BIT + 1) AND NOT WAITER_BIT = 1" "\<not> wg_bit 1"
    by (simp_all add: wg_count_def wg_bit_def COUNT_MASK_def WAITER_BIT_def)
  have 1: "main_step (main_start 0) ?m1" using g_bit [of "main_start 0"] by (simp add: main_start_def w)
  have 2: "main_step ?m1 ?m2" using g_add [of ?m1] by (simp add: main_start_def w)
  have 3: "main_step ?m2 ?m3" using m_count [of ?m2] by (simp add: main_start_def w)
  have 4: "main_step ?m3 ?m4" using m_spin [of ?m3 32] by (simp add: main_start_def)
  have 5: "main_step ?m4 ?m5" using m_store [of ?m4] by (simp add: main_start_def)
  have 6: "main_step ?m5 ?m6" using m_register [of ?m5] by (simp add: main_start_def w)
  have 7: "main_step ?m6 ?m7" using m_recheck [of ?m6 True] by (simp add: main_start_def)
  have 8: "main_step ?m7 ?m8" using g_direct [of ?m7] by (simp add: main_start_def w)
  have 9: "main_step ?m8 ?m9" using g_done [of ?m8] by (simp add: main_start_def w)
  have "reach main_step (main_start 0) ?m9"
    by (rule reach_step [OF reach_step [OF reach_step [OF reach_step [OF reach_step [OF reach_step [OF reach_step [OF reach_step [OF reach_one [of main_step, OF 1] 2] 3] 4] 5] 6] 7] 8] 9])
  then show ?thesis by (intro exI [of _ ?m9]) (simp add: main_start_def block_goes_on_def w)
qed

text \<open>A group of one task: main finds nothing to run, stores its word, registers and sleeps.\<close>

definition main_asleep :: main_wait where
  "main_asleep = (main_start 1)\<lparr>mw_word := WaitWaiting, mw_n := 1 OR WAITER_BIT, mw_blocked := True, mw_pc := MBlocked\<rparr>"

theorem sleeping_main_has_nothing_to_do_witness: "mw_pc main_asleep = MBlocked \<and> wg_count (mw_n main_asleep) \<noteq> 0 \<and> mw_queue main_asleep = 0"
proof -
  have c: "wg_count 1 \<noteq> 0" by (simp add: wg_count_def COUNT_MASK_def WAITER_BIT_def)
  let ?m1 = "(main_start 1)\<lparr>mw_pc := MQueue\<rparr>" and ?m2 = "(main_start 1)\<lparr>mw_pc := MStore\<rparr>" and ?m3 = "(main_start 1)\<lparr>mw_word := WaitWaiting, mw_pc := MRegister\<rparr>"
  let ?m4 = "(main_start 1)\<lparr>mw_word := WaitWaiting, mw_n := 1 OR WAITER_BIT, mw_blocked := True, mw_pc := MRecheck\<rparr>"
  have 1: "main_step (main_start 1) ?m1" using m_count [of "main_start 1"] c by (simp add: main_start_def)
  have 2: "main_step ?m1 ?m2" using m_spin [of ?m1 32] by (simp add: main_start_def)
  have 3: "main_step ?m2 ?m3" using m_store [of ?m2] by (simp add: main_start_def)
  have 4: "main_step ?m3 ?m4" using m_register [of ?m3] c by (simp add: main_start_def)
  have 5: "main_step ?m4 main_asleep" using m_recheck [of ?m4 True] by (simp add: main_start_def main_asleep_def)
  have "reach main_step (main_start 1) main_asleep" by (rule reach_step [OF reach_step [OF reach_step [OF reach_step [OF reach_one [of main_step, OF 1] 2] 3] 4] 5])
  moreover have "mw_pc main_asleep = MBlocked" "mw_word main_asleep = WaitWaiting" "mw_lock main_asleep = 0" "mw_kick main_asleep = 0" "mw_push main_asleep = 0" by (simp_all add: main_asleep_def main_start_def)
  moreover have "\<not> mw_reused main_asleep" by (simp add: main_asleep_def main_start_def)
  ultimately show ?thesis using sleeping_main_has_nothing_to_do [of 1 main_asleep] by (simp add: block_goes_on_def)
qed

end
