(* ===== verification/SlabPools.thy ===== *)
theory SlabPools
  imports JPrelude
begin

text \<open>
  The slab allocator of one size class (\<^verbatim>\<open>include/SlabPool.h\<close>): the slab and its growth extents, the shared
  free list, the per-thread magazines and the live counters. Addresses are byte addresses; the first word of a
  free slot is the \<open>next\<close> link, so the links are a store from addresses to pointers. Everything shared is under
  the pool's mutex and a magazine belongs to its thread, so each call is one function. A null pointer dereference
  is the result \<open>None\<close> of the operations that follow links. Memory obtained from \<open>new\<close> is an argument:
  the base address, or \<open>None\<close> when the allocation fails. The canary build option is off.
\<close>

section \<open>State\<close>

record Extent =
  ex_mem :: nat
  ex_slots :: nat
  ex_bumpNext :: nat

record Cache =
  c_head :: ptr
  c_count :: nat
  c_gen :: u32

record LiveCounter =
  lc_v :: int
  lc_peak :: int

record SlabPool =
  sp_SLOT :: nat
  sp_next :: "nat \<Rightarrow> ptr"
  sp_mem :: ptr
  sp_memSlots :: nat
  sp_extents :: "Extent list"
  sp_grewOnce :: bool
  sp_bumpNext :: nat
  sp_sharedHead :: ptr
  sp_gen :: u32
  sp_local :: "nat \<Rightarrow> Cache"
  sp_live :: "LiveCounter list"
  sp_liveNext :: nat
  sp_liveRef :: "nat \<Rightarrow> (nat \<times> bool) option"
  sp_registry :: "u32 option"
  sp_Generation :: u32
  sp_LiveInstances :: int
  sp_growthEnabled :: bool

definition BATCH :: nat where "BATCH = 32"
definition kGrowSlots :: nat where "kGrowSlots = 4096"
definition kLiveSlots :: nat where "kLiveSlots = 128"

section \<open>Live counters\<close>

definition liveSlot :: "nat \<Rightarrow> SlabPool \<Rightarrow> (nat \<times> bool) \<times> SlabPool" where
  "liveSlot t p =
    (case sp_liveRef p t of
       Some r \<Rightarrow> (r, p)
     | None \<Rightarrow>
         (let n = sp_liveNext p; r = (n mod kLiveSlots, n < kLiveSlots) in
          (r, p\<lparr>sp_liveNext := n + 1, sp_liveRef := (sp_liveRef p)(t \<mapsto> r)\<rparr>)))"

text \<open>The relaxed load and store of a counter by the thread it belongs to, and the \<open>fetch_add\<close> of a thread that shares one, are one update.\<close>

definition liveAdd :: "nat \<Rightarrow> int \<Rightarrow> SlabPool \<Rightarrow> SlabPool" where
  "liveAdd t d p =
    (let (r, p1) = liveSlot t p; i = fst r; c = sp_live p1 ! i; now = lc_v c + d;
         c1 = c\<lparr>lc_v := now\<rparr>; c2 = (if 0 < d \<and> lc_peak c1 < now then c1\<lparr>lc_peak := now\<rparr> else c1) in
     p1\<lparr>sp_live := (sp_live p1)[i := c2]\<rparr>)"

definition LiveCount :: "SlabPool \<Rightarrow> int" where
  "LiveCount p = sum_list (map lc_v (take kLiveSlots (sp_live p)))"

definition PeakLive :: "SlabPool \<Rightarrow> int" where
  "PeakLive p = sum_list (map lc_peak (take kLiveSlots (sp_live p)))"

section \<open>The slab and the free lists\<close>

definition cache_sp :: "nat \<Rightarrow> SlabPool \<Rightarrow> SlabPool" where
  "cache_sp t p =
    (if c_gen (sp_local p t) \<noteq> sp_gen p
     then p\<lparr>sp_local := (sp_local p)(t := \<lparr>c_head = None, c_count = 0, c_gen = sp_gen p\<rparr>)\<rparr> else p)"

definition in_block :: "nat \<Rightarrow> nat \<Rightarrow> nat \<Rightarrow> nat \<Rightarrow> bool" where
  "in_block SLOT base slots q \<longleftrightarrow> base \<le> q \<and> q < base + slots * SLOT"

fun slot_in_extents :: "nat \<Rightarrow> Extent list \<Rightarrow> nat \<Rightarrow> bool" where
  "slot_in_extents SLOT [] q = False"
| "slot_in_extents SLOT (e # es) q =
    (if in_block SLOT (ex_mem e) (ex_slots e) q then (q - ex_mem e) mod SLOT = 0 else slot_in_extents SLOT es q)"

definition SlotInSlab :: "SlabPool \<Rightarrow> nat \<Rightarrow> bool" where
  "SlotInSlab p q =
    (case sp_mem p of
       Some base \<Rightarrow>
         if in_block (sp_SLOT p) base (sp_memSlots p) q then (q - base) mod sp_SLOT p = 0
         else slot_in_extents (sp_SLOT p) (sp_extents p) q
     | None \<Rightarrow> slot_in_extents (sp_SLOT p) (sp_extents p) q)"

text \<open>The carving loops link \<open>take\<close> fresh slots in front of the batch; the batch keeps its head, its tail and how many
  slots it holds.\<close>

record Batch =
  b_head :: ptr
  b_tail :: ptr
  b_moved :: nat

fun carve :: "nat \<Rightarrow> nat \<Rightarrow> nat \<Rightarrow> nat \<Rightarrow> (nat \<Rightarrow> ptr) \<times> ptr \<times> ptr \<Rightarrow> (nat \<Rightarrow> ptr) \<times> ptr \<times> ptr" where
  "carve SLOT base i 0 st = st"
| "carve SLOT base i (Suc k) (nx, bh, bt) =
    (let slot = base + i * SLOT in
     carve SLOT base (i + 1) k (nx(slot := bh), Some slot, (if bh = None then Some slot else bt)))"

fun take_shared :: "(nat \<Rightarrow> ptr) \<Rightarrow> nat \<Rightarrow> ptr \<Rightarrow> ptr \<Rightarrow> nat \<Rightarrow> ptr \<times> ptr \<times> nat" where
  "take_shared nx 0 cur tail moved = (cur, tail, moved)"
| "take_shared nx (Suc k) None tail moved = (None, tail, moved)"
| "take_shared nx (Suc k) (Some c) tail moved = take_shared nx k (nx c) (Some c) (moved + 1)"

definition rf_shared :: "SlabPool \<Rightarrow> Batch \<times> SlabPool" where
  "rf_shared p =
    (if sp_sharedHead p \<noteq> None then
       (let (cur, bt, moved) = take_shared (sp_next p) BATCH (sp_sharedHead p) None 0 in
        (\<lparr>b_head = sp_sharedHead p, b_tail = bt, b_moved = moved\<rparr>, p\<lparr>sp_sharedHead := cur\<rparr>))
     else (\<lparr>b_head = None, b_tail = None, b_moved = 0\<rparr>, p))"

definition rf_bump :: "nat \<Rightarrow> Batch \<times> SlabPool \<Rightarrow> Batch \<times> SlabPool" where
  "rf_bump base bp =
    (let (b, p) = bp in
     if b_moved b < BATCH \<and> sp_bumpNext p < sp_memSlots p then
       (let tk = min (BATCH - b_moved b) (sp_memSlots p - sp_bumpNext p);
            (nx, bh, bt) = carve (sp_SLOT p) base (sp_bumpNext p) tk (sp_next p, b_head b, b_tail b) in
        (\<lparr>b_head = bh, b_tail = bt, b_moved = b_moved b + tk\<rparr>, p\<lparr>sp_next := nx, sp_bumpNext := sp_bumpNext p + tk\<rparr>))
     else (b, p))"

fun extent_with_room :: "Extent list \<Rightarrow> nat option" where
  "extent_with_room [] = None"
| "extent_with_room (e # es) =
    (if ex_slots e \<le> ex_bumpNext e then map_option Suc (extent_with_room es) else Some 0)"

text \<open>Growth: find an extent with room or put a fresh one in front; the result is the index of the extent to carve
  from, or nothing when the allocation failed.\<close>

definition rf_find :: "ptr \<Rightarrow> SlabPool \<Rightarrow> nat option \<times> SlabPool" where
  "rf_find nw p =
    (case extent_with_room (sp_extents p) of
       Some i \<Rightarrow> (Some i, p)
     | None \<Rightarrow>
         (let p1 = p\<lparr>sp_grewOnce := True\<rparr> in
          case nw of
            None \<Rightarrow> (None, p1)
          | Some base \<Rightarrow>
              (Some 0, p1\<lparr>sp_extents := \<lparr>ex_mem = base, ex_slots = kGrowSlots, ex_bumpNext = 0\<rparr> # sp_extents p1\<rparr>)))"

definition rf_carve_extent :: "nat \<Rightarrow> Batch \<times> SlabPool \<Rightarrow> Batch \<times> SlabPool" where
  "rf_carve_extent i bp =
    (let (b, p) = bp; e = sp_extents p ! i;
         tk = min BATCH (ex_slots e - ex_bumpNext e);
         (nx, bh, bt) = carve (sp_SLOT p) (ex_mem e) (ex_bumpNext e) tk (sp_next p, b_head b, b_tail b) in
     (\<lparr>b_head = bh, b_tail = bt, b_moved = b_moved b + tk\<rparr>,
      p\<lparr>sp_next := nx, sp_extents := (sp_extents p)[i := e\<lparr>ex_bumpNext := ex_bumpNext e + tk\<rparr>]\<rparr>))"

definition rf_grow :: "ptr \<Rightarrow> Batch \<times> SlabPool \<Rightarrow> Batch \<times> SlabPool" where
  "rf_grow nw bp =
    (let (b, p) = bp in
     if b_moved b = 0 \<and> sp_growthEnabled p then
       (case rf_find nw p of (Some i, p1) \<Rightarrow> rf_carve_extent i (b, p1) | (None, p1) \<Rightarrow> (b, p1))
     else (b, p))"

definition rf_splice :: "nat \<Rightarrow> Batch \<times> SlabPool \<Rightarrow> SlabPool option" where
  "rf_splice t bp =
    (let (b, p) = bp; c = sp_local p t in
     if b_head b = None then Some p
     else (case b_tail b of
             None \<Rightarrow> None
           | Some tail \<Rightarrow>
               Some (p\<lparr>sp_next := (sp_next p)(tail := c_head c),
                  sp_local := (sp_local p)(t := c\<lparr>c_head := b_head b, c_count := c_count c + b_moved b\<rparr>)\<rparr>)))"

definition refill :: "nat \<Rightarrow> ptr \<Rightarrow> SlabPool \<Rightarrow> SlabPool option" where
  "refill t nw p =
    (case sp_mem p of
       None \<Rightarrow> Some p
     | Some base \<Rightarrow> rf_splice t (rf_grow nw (rf_bump base (rf_shared p))))"

fun walk_next :: "(nat \<Rightarrow> ptr) \<Rightarrow> nat \<Rightarrow> ptr \<Rightarrow> ptr" where
  "walk_next nx n None = None"
| "walk_next nx 0 (Some x) = Some x"
| "walk_next nx (Suc n) (Some x) = walk_next nx n (nx x)"

definition flush :: "nat \<Rightarrow> SlabPool \<Rightarrow> SlabPool option" where
  "flush t p =
    (let c = sp_local p t in
     if c_count c \<le> BATCH then Some p
     else
      (let toMove = c_count c - BATCH in
       case walk_next (sp_next p) (toMove - 1) (c_head c) of
         None \<Rightarrow> None
       | Some batchTail \<Rightarrow>
           Some (p\<lparr>sp_local := (sp_local p)(t := c\<lparr>c_head := sp_next p batchTail, c_count := BATCH\<rparr>),
              sp_next := (sp_next p)(batchTail := sp_sharedHead p), sp_sharedHead := c_head c\<rparr>)))"

definition giveBack :: "ptr \<Rightarrow> nat \<Rightarrow> SlabPool \<Rightarrow> SlabPool option" where
  "giveBack head n p =
    (if head = None \<or> n = 0 then Some p
     else (case walk_next (sp_next p) (n - 1) head of
             None \<Rightarrow> None
           | Some tail \<Rightarrow> Some (p\<lparr>sp_next := (sp_next p)(tail := sp_sharedHead p), sp_sharedHead := head\<rparr>)))"

section \<open>The public operations\<close>

definition Alloc :: "nat \<Rightarrow> ptr \<Rightarrow> SlabPool \<Rightarrow> (ptr \<times> SlabPool) option" where
  "Alloc t nw p0 =
    (let p = cache_sp t p0 in
     case (if c_head (sp_local p t) = None then refill t nw p else Some p) of
       None \<Rightarrow> None
     | Some p1 \<Rightarrow>
         (let c = sp_local p1 t in
          case c_head c of
            None \<Rightarrow> Some (None, p1)
          | Some slot \<Rightarrow>
              Some (Some slot, liveAdd t 1
                (p1\<lparr>sp_local := (sp_local p1)(t := c\<lparr>c_head := sp_next p1 slot, c_count := c_count c - 1\<rparr>)\<rparr>))))"

definition Free :: "nat \<Rightarrow> nat \<Rightarrow> SlabPool \<Rightarrow> SlabPool option" where
  "Free t slot p0 =
    (let p = cache_sp t p0; c = sp_local p t;
         p1 = p\<lparr>sp_next := (sp_next p)(slot := c_head c),
                sp_local := (sp_local p)(t := c\<lparr>c_head := Some slot, c_count := c_count c + 1\<rparr>)\<rparr>;
         p2 = liveAdd t (-1) p1 in
     if 2 * BATCH < c_count (sp_local p2 t) then flush t p2 else Some p2)"

definition HighWaterSlots :: "SlabPool \<Rightarrow> nat" where
  "HighWaterSlots p = sp_bumpNext p + sum_list (map ex_bumpNext (sp_extents p))"

definition HighWaterBytes :: "SlabPool \<Rightarrow> nat" where "HighWaterBytes p = HighWaterSlots p * sp_SLOT p"

definition ExtentCount :: "SlabPool \<Rightarrow> nat" where "ExtentCount p = length (sp_extents p)"

definition Capacity :: "SlabPool \<Rightarrow> nat" where
  "Capacity p = sp_memSlots p + sum_list (map ex_slots (sp_extents p))"

definition Prefault :: "nat \<Rightarrow> SlabPool \<Rightarrow> SlabPool" where
  "Prefault slots p =
    (case sp_mem p of
       None \<Rightarrow> p
     | Some base \<Rightarrow>
         (let n = min slots (sp_memSlots p - sp_bumpNext p);
              (nx, sh, _) = carve (sp_SLOT p) base (sp_bumpNext p) n (sp_next p, sp_sharedHead p, None) in
          p\<lparr>sp_next := nx, sp_sharedHead := sh, sp_bumpNext := sp_bumpNext p + n\<rparr>))"

definition new_SlabPool :: "nat \<Rightarrow> bool \<Rightarrow> nat \<Rightarrow> SlabPool \<Rightarrow> SlabPool option" where
  "new_SlabPool slots lazy base p =
    (if sp_LiveInstances p \<noteq> 0 then None
     else
      (let g = sp_Generation p + 1;
           p1 = p\<lparr>sp_mem := (if slots = 0 then None else Some base), sp_memSlots := slots, sp_extents := [],
                  sp_grewOnce := False, sp_bumpNext := 0, sp_sharedHead := None, sp_gen := g,
                  sp_live := replicate kLiveSlots \<lparr>lc_v = 0, lc_peak = 0\<rparr>, sp_Generation := g,
                  sp_registry := Some g, sp_LiveInstances := sp_LiveInstances p + 1\<rparr> in
       Some (if lazy then p1 else Prefault slots p1)))"

definition delete_SlabPool :: "SlabPool \<Rightarrow> SlabPool" where
  "delete_SlabPool p =
    p\<lparr>sp_registry := (if sp_registry p = Some (sp_gen p) then None else sp_registry p), sp_mem := None,
      sp_extents := [], sp_LiveInstances := sp_LiveInstances p - 1\<rparr>"

text \<open>The thread-exit destructor of a magazine.\<close>

definition Cache_exit :: "nat \<Rightarrow> SlabPool \<Rightarrow> SlabPool option" where
  "Cache_exit t p =
    (let c = sp_local p t in
     if c_head c = None then Some p
     else map_option (\<lambda>q. q\<lparr>sp_local := (sp_local q)(t := c\<lparr>c_head := None, c_count := 0\<rparr>)\<rparr>)
       (if sp_registry p = Some (c_gen c) then giveBack (c_head c) (c_count c) p else Some p))"

section \<open>Who holds a slot\<close>

text \<open>Every carved slot is in exactly one place: handed out, on the shared list, in a thread's magazine, or in the batch
  a refill is moving.\<close>

datatype place = PlOut | PlShared | PlMag nat | PlBatch

definition pieces_ok :: "(place \<Rightarrow> nat list) \<Rightarrow> nat set \<Rightarrow> bool" where
  "pieces_ok L C \<longleftrightarrow> (\<forall>a. distinct (L a)) \<and> (\<forall>a b. a \<noteq> b \<longrightarrow> set (L a) \<inter> set (L b) = {}) \<and> (\<Union>a. set (L a)) = C"

lemma pieces_move:
  assumes "pieces_ok L C" "a \<noteq> b" "mset xs + mset ys = mset (L a) + mset (L b)"
  shows "pieces_ok (L(a := xs, b := ys)) C"
proof -
  have d: "distinct (L a)" "distinct (L b)" "set (L a) \<inter> set (L b) = {}" using assms(1,2) by (auto simp: pieces_ok_def)
  have "mset (xs @ ys) = mset (L a @ L b)" using assms(3) by simp
  then have s: "distinct (xs @ ys)" "set (xs @ ys) = set (L a @ L b)"
    using d mset_eq_imp_distinct_iff [of "xs @ ys" "L a @ L b"] mset_eq_setD [of "xs @ ys" "L a @ L b"] by simp_all
  have D: "x \<in> set (L c) \<Longrightarrow> x \<in> set (L e) \<Longrightarrow> c = e" for x c e using assms(1) unfolding pieces_ok_def by blast
  have ab: "c \<in> {a, b}" if "x \<in> set xs \<union> set ys" "x \<in> set ((L(a := xs, b := ys)) c)" for x c
  proof (rule ccontr)
    assume "c \<notin> {a, b}"
    moreover have "x \<in> set (xs @ ys)" using that(1) by simp
    then have "x \<in> set (L a) \<union> set (L b)" unfolding s(2) by simp
    ultimately show False using D [of x a c] D [of x b c] that(2) by auto
  qed
  have "c = e" if x: "x \<in> set ((L(a := xs, b := ys)) c)" "x \<in> set ((L(a := xs, b := ys)) e)" for c e x
  proof (cases "x \<in> set xs \<union> set ys")
    case True
    moreover have "\<not> (x \<in> set xs \<and> x \<in> set ys)" using s(1) by auto
    ultimately show ?thesis using ab [OF True x(1)] ab [OF True x(2)] x assms(2) by auto
  next
    case False
    then have "x \<in> set (L c)" "x \<in> set (L e)" using x by (auto split: if_splits)
    then show ?thesis by (rule D)
  qed
  then have "set ((L(a := xs, b := ys)) c) \<inter> set ((L(a := xs, b := ys)) e) = {}" if "c \<noteq> e" for c e
    using that by blast
  moreover have "distinct ((L(a := xs, b := ys)) c)" for c using s(1) assms(1) by (simp add: pieces_ok_def)
  moreover have "(\<Union>c. set ((L(a := xs, b := ys)) c)) = C"
  proof -
    have "(\<Union>c. set ((L(a := xs, b := ys)) c)) = set xs \<union> set ys \<union> (\<Union>c \<in> - {a, b}. set (L c))"
      using assms(2) by (auto split: if_splits)
    also have "\<dots> = set (L a) \<union> set (L b) \<union> (\<Union>c \<in> - {a, b}. set (L c))" using s(2) by simp
    also have "\<dots> = (\<Union>c. set (L c))" by auto
    finally show ?thesis using assms(1) by (simp add: pieces_ok_def)
  qed
  ultimately show ?thesis unfolding pieces_ok_def by blast
qed

lemma pieces_add:
  assumes "pieces_ok L C" "distinct new" "set new \<inter> C = {}"
  shows "pieces_ok (L(a := new @ L a)) (C \<union> set new)"
proof -
  have n: "set new \<inter> set (L c) = {}" for c using assms(1,3) by (auto simp: pieces_ok_def)
  have "set ((L(a := new @ L a)) c) \<inter> set ((L(a := new @ L a)) e) = {}" if "c \<noteq> e" for c e
  proof -
    have "set (L c) \<inter> set (L e) = {}" using assms(1) that by (auto simp: pieces_ok_def)
    then show ?thesis using that n [of c] n [of e] by auto
  qed
  moreover have "(\<Union>c. set ((L(a := new @ L a)) c)) = C \<union> set new"
  proof -
    have "(\<Union>c. set ((L(a := new @ L a)) c)) = set new \<union> (\<Union>c. set (L c))" by (auto split: if_splits)
    then show ?thesis using assms(1) by (auto simp: pieces_ok_def)
  qed
  ultimately show ?thesis using assms(1,2) n [of a] unfolding pieces_ok_def by simp
qed

lemma pieces_disj: "pieces_ok L C \<Longrightarrow> a \<noteq> b \<Longrightarrow> x \<in> set (L a) \<Longrightarrow> x \<notin> set (L b)"
  unfolding pieces_ok_def by blast

text \<open>Slots carved from a block.\<close>

definition slots_of :: "nat \<Rightarrow> nat \<Rightarrow> nat \<Rightarrow> nat \<Rightarrow> nat list" where
  "slots_of SLOT base i n = map (\<lambda>k. base + k * SLOT) [i..<i + n]"

lemma slots_of_Suc: "slots_of SLOT base i (Suc n) = (base + i * SLOT) # slots_of SLOT base (Suc i) n"
  by (simp add: slots_of_def upt_conv_Cons del: upt_Suc)

lemma slots_of_distinct: "0 < SLOT \<Longrightarrow> distinct (slots_of SLOT base i n)"
  by (simp add: slots_of_def distinct_map inj_on_def)

lemma slots_of_add: "slots_of SLOT base 0 (i + n) = slots_of SLOT base 0 i @ slots_of SLOT base i n"
  by (simp add: slots_of_def upt_add_eq_append [of 0 i n])

lemma slots_of_in_block: "x \<in> set (slots_of SLOT base i n) \<Longrightarrow> 0 < SLOT \<Longrightarrow> i + n \<le> m \<Longrightarrow> in_block SLOT base m x \<and> (x - base) mod SLOT = 0"
proof -
  assume x: "x \<in> set (slots_of SLOT base i n)" and S: "0 < SLOT" and m: "i + n \<le> m"
  then obtain k where k: "x = base + k * SLOT" "k < m" by (auto simp: slots_of_def)
  then show ?thesis using S by (simp add: in_block_def)
qed

text \<open>What the carving loop does to the links, the head and the tail of the batch.\<close>

lemma carve_spec:
  assumes "carve SLOT base i n (nx, bh, bt) = (nx', bh', bt')" "0 < SLOT"
    "chain nx bh xs q" "set (slots_of SLOT base i n) \<inter> set xs = {}"
    "xs = [] \<longrightarrow> q = None" "xs \<noteq> [] \<longrightarrow> bt = Some (last xs)"
  shows "chain nx' bh' (rev (slots_of SLOT base i n) @ xs) q \<and>
    (\<forall>y. y \<notin> set (slots_of SLOT base i n) \<longrightarrow> nx' y = nx y) \<and>
    (rev (slots_of SLOT base i n) @ xs \<noteq> [] \<longrightarrow> bt' = Some (last (rev (slots_of SLOT base i n) @ xs)))"
  using assms
proof (induction n arbitrary: i nx bh bt xs)
  case 0
  then show ?case by (auto simp: slots_of_def)
next
  case (Suc n)
  let ?s = "base + i * SLOT"
  have ns: "?s \<notin> set xs" "?s \<notin> set (slots_of SLOT base (Suc i) n)"
    using Suc.prems(2,4) slots_of_distinct [of SLOT base i "Suc n"] by (auto simp: slots_of_Suc)
  have bh: "bh = None \<longleftrightarrow> xs = []"
    using Suc.prems(3,5) by (cases xs) auto
  have "chain (nx(?s := bh)) (Some ?s) (?s # xs) q" using Suc.prems(3) ns(1) by simp
  moreover have "carve SLOT base (Suc i) n (nx(?s := bh), Some ?s, if bh = None then Some ?s else bt) = (nx', bh', bt')"
    using Suc.prems(1) by (simp add: Let_def)
  moreover have "set (slots_of SLOT base (Suc i) n) \<inter> set (?s # xs) = {}" using Suc.prems(4) ns(2) by (auto simp: slots_of_Suc)
  moreover have "(if bh = None then Some ?s else bt) = Some (last (?s # xs))" using bh Suc.prems(6) by auto
  ultimately have IH:
    "chain nx' bh' (rev (slots_of SLOT base (Suc i) n) @ ?s # xs) q \<and>
     (\<forall>y. y \<notin> set (slots_of SLOT base (Suc i) n) \<longrightarrow> nx' y = (nx(?s := bh)) y) \<and>
     bt' = Some (last (rev (slots_of SLOT base (Suc i) n) @ ?s # xs))"
    using Suc.IH [of "Suc i" "nx(?s := bh)" "Some ?s" "if bh = None then Some ?s else bt" "?s # xs"] Suc.prems(2)
    by (simp del: chain.simps fun_upd_apply last.simps)
  then show ?case by (auto simp: slots_of_Suc)
qed

lemma take_shared_spec:
  "chain nx cur xs None \<Longrightarrow> take_shared nx n cur tail m = (cur', tail', m') \<Longrightarrow>
   chain nx cur (take n xs) cur' \<and> chain nx cur' (drop n xs) None \<and> m' = m + length (take n xs) \<and>
   tail' = (if take n xs = [] then tail else Some (last (take n xs)))"
proof (induction n arbitrary: cur xs tail m)
  case (Suc n)
  show ?case
  proof (cases xs)
    case Nil
    then show ?thesis using Suc.prems by simp
  next
    case (Cons x ys)
    then have "chain nx (nx x) ys None" "take_shared nx n (nx x) (Some x) (m + 1) = (cur', tail', m')" "cur = Some x"
      using Suc.prems by auto
    then show ?thesis using Suc.IH [of "nx x" ys "Some x" "m + 1"] Cons by auto
  qed
qed simp

lemma walk_next_spec: "chain nx p xs q \<Longrightarrow> n < length xs \<Longrightarrow> walk_next nx n p = Some (xs ! n)"
proof (induction n arbitrary: p xs)
  case 0
  then show ?case by (cases xs) auto
next
  case (Suc n)
  then show ?case by (cases xs) auto
qed

section \<open>The blocks and what is carved from them\<close>

type_synonym region = "nat \<times> nat \<times> nat"

definition reg_disj :: "nat \<Rightarrow> region \<Rightarrow> region \<Rightarrow> bool" where
  "reg_disj S r r' \<longleftrightarrow> (case r of (a, m, _) \<Rightarrow> case r' of (b, n, _) \<Rightarrow> a + m * S \<le> b \<or> b + n * S \<le> a)"

definition reg_ok :: "nat \<Rightarrow> region list \<Rightarrow> bool" where
  "reg_ok S rs \<longleftrightarrow> 0 < S \<and> (\<forall>i < length rs. snd (snd (rs ! i)) \<le> fst (snd (rs ! i))) \<and>
    (\<forall>i < length rs. \<forall>j < length rs. i \<noteq> j \<longrightarrow> reg_disj S (rs ! i) (rs ! j))"

definition reg_slots :: "nat \<Rightarrow> region \<Rightarrow> nat set" where
  "reg_slots S r = set (slots_of S (fst r) 0 (snd (snd r)))"

definition reg_carved :: "nat \<Rightarrow> region list \<Rightarrow> nat set" where
  "reg_carved S rs = (\<Union>i < length rs. reg_slots S (rs ! i))"

lemma reg_disj_no_share:
  "reg_disj S r r' \<Longrightarrow> in_block S (fst r) (fst (snd r)) x \<Longrightarrow> \<not> in_block S (fst r') (fst (snd r')) x"
  by (cases r; cases r') (auto simp: reg_disj_def in_block_def)

lemma reg_slots_in_block:
  "reg_ok S rs \<Longrightarrow> i < length rs \<Longrightarrow> x \<in> reg_slots S (rs ! i) \<Longrightarrow>
   in_block S (fst (rs ! i)) (fst (snd (rs ! i))) x \<and> (x - fst (rs ! i)) mod S = 0"
  unfolding reg_slots_def reg_ok_def by (rule slots_of_in_block) auto

lemma reg_carve:
  assumes "reg_ok S rs" "i < length rs" "rs ! i = (b, m, k)" "k + n \<le> m"
  shows "reg_ok S (rs[i := (b, m, k + n)])"
    "reg_carved S (rs[i := (b, m, k + n)]) = reg_carved S rs \<union> set (slots_of S b k n)"
    "set (slots_of S b k n) \<inter> reg_carved S rs = {}"
proof -
  let ?rs = "rs[i := (b, m, k + n)]"
  have S: "0 < S" and bl: "\<And>j. j < length rs \<Longrightarrow> snd (snd (rs ! j)) \<le> fst (snd (rs ! j))"
    and dj: "\<And>j l. j < length rs \<Longrightarrow> l < length rs \<Longrightarrow> j \<noteq> l \<Longrightarrow> reg_disj S (rs ! j) (rs ! l)"
    using assms(1) by (auto simp: reg_ok_def)
  have "reg_disj S (?rs ! j) (?rs ! l)" if "j < length rs" "l < length rs" "j \<noteq> l" for j l
    using dj [OF that] assms(2,3) that by (auto simp: nth_list_update reg_disj_def split: if_splits)
  moreover have "snd (snd (?rs ! j)) \<le> fst (snd (?rs ! j))" if "j < length rs" for j
    using bl [OF that] assms(2,3,4) that by (cases "j = i") simp_all
  ultimately show "reg_ok S ?rs" using S by (simp add: reg_ok_def)
  have "reg_slots S (?rs ! j) = reg_slots S (rs ! j) \<union> (if j = i then set (slots_of S b k n) else {})" if "j < length rs" for j
    using that assms(3) by (simp add: nth_list_update reg_slots_def slots_of_add)
  then have "reg_carved S ?rs = (\<Union>j < length rs. reg_slots S (rs ! j) \<union> (if j = i then set (slots_of S b k n) else {}))"
    by (simp add: reg_carved_def)
  also have "\<dots> = (\<Union>j < length rs. reg_slots S (rs ! j)) \<union> set (slots_of S b k n)"
    using assms(2) by (auto split: if_splits)
  finally show "reg_carved S ?rs = reg_carved S rs \<union> set (slots_of S b k n)" by (simp add: reg_carved_def)
  show "set (slots_of S b k n) \<inter> reg_carved S rs = {}"
  proof (rule ccontr)
    assume "set (slots_of S b k n) \<inter> reg_carved S rs \<noteq> {}"
    then obtain x j where x: "x \<in> set (slots_of S b k n)" "j < length rs" "x \<in> reg_slots S (rs ! j)"
      by (auto simp: reg_carved_def)
    show False
    proof (cases "j = i")
      case True
      then have "x \<in> set (slots_of S b 0 k)" using x(3) assms(3) by (simp add: reg_slots_def)
      then show False using x(1) slots_of_distinct [OF S, of b 0 "k + n"] by (auto simp: slots_of_add)
    next
      case False
      have "in_block S b m x" using slots_of_in_block [OF x(1) S assms(4)] by (rule conjunct1)
      then show False
        using reg_disj_no_share [OF dj [OF assms(2) x(2)], of x] reg_slots_in_block [OF assms(1) x(2,3)] assms(3) False by auto
    qed
  qed
qed

lemma reg_grow:
  assumes "reg_ok S (rs @ es)" "\<forall>r \<in> set (rs @ es). reg_disj S (b, m, 0) r"
  shows "reg_ok S (rs @ (b, m, 0) # es)" "reg_carved S (rs @ (b, m, 0) # es) = reg_carved S (rs @ es)"
proof -
  have sym: "reg_disj S r r' \<Longrightarrow> reg_disj S r' r" for r r' by (auto simp: reg_disj_def split: prod.splits)
  have dj: "reg_disj S ((rs @ es) ! i) ((rs @ es) ! j)" if "i < length (rs @ es)" "j < length (rs @ es)" "i \<noteq> j" for i j
    using assms(1) that unfolding reg_ok_def by blast
  have mem: "(rs @ es) ! i \<in> set (rs @ es)" if "i < length (rs @ es)" for i using that nth_mem by blast
  let ?g = "\<lambda>i. if i < length rs then i else i - 1"
  have nth: "(rs @ (b, m, 0) # es) ! i = (if i = length rs then (b, m, 0) else (rs @ es) ! ?g i)" for i
  proof (cases "i \<le> length rs")
    case False
    then obtain d where "i = length rs + Suc d" using less_imp_Suc_add [of "length rs" i] by auto
    then show ?thesis by (simp add: nth_append)
  qed (auto simp: nth_append)
  have "reg_disj S ((rs @ (b, m, 0) # es) ! i) ((rs @ (b, m, 0) # es) ! j)"
    if "i < length rs + Suc (length es)" "j < length rs + Suc (length es)" "i \<noteq> j" for i j
  proof -
    consider "i = length rs" | "j = length rs" | "i \<noteq> length rs" "j \<noteq> length rs" by blast
    then show ?thesis
    proof cases
      case 1
      then have "?g j < length (rs @ es)" "j \<noteq> length rs" using that by auto
      then show ?thesis using assms(2) mem [of "?g j"] 1 unfolding nth by auto
    next
      case 2
      then have "?g i < length (rs @ es)" "i \<noteq> length rs" using that by auto
      then show ?thesis using assms(2) mem [of "?g i"] 2 sym unfolding nth by auto
    next
      case 3
      then have "?g i < length (rs @ es)" "?g j < length (rs @ es)" "?g i \<noteq> ?g j" using that by auto
      then show ?thesis using dj [of "?g i" "?g j"] 3 unfolding nth by simp
    qed
  qed
  moreover have "snd (snd ((rs @ (b, m, 0) # es) ! i)) \<le> fst (snd ((rs @ (b, m, 0) # es) ! i))" if "i < length rs + Suc (length es)" for i
  proof (cases "i = length rs")
    case False
    then have "?g i < length (rs @ es)" using that by auto
    then show ?thesis using assms(1) False unfolding reg_ok_def nth by auto
  qed simp
  ultimately show "reg_ok S (rs @ (b, m, 0) # es)" using assms(1) by (simp add: reg_ok_def)
  have set_form: "reg_carved S xs = (\<Union>r \<in> set xs. reg_slots S r)" for xs
    unfolding reg_carved_def by (auto simp: set_conv_nth)
  show "reg_carved S (rs @ (b, m, 0) # es) = reg_carved S (rs @ es)"
    unfolding set_form by (auto simp: reg_slots_def slots_of_def)
qed

end
