(* ===== verification/SlabOwnership.thy ===== *)
theory SlabOwnership
  imports SlabPools
begin

text \<open>
  Ownership of slots in the slab allocator: the invariant that every carved slot is in exactly one place, that each
  phase of a refill, a flush, a give-back and the public operations keep it, and what follows for \<open>Alloc\<close> and
  \<open>Free\<close>.
\<close>

section \<open>The invariant\<close>

fun mem_region :: "ptr \<Rightarrow> nat \<Rightarrow> nat \<Rightarrow> region list" where
  "mem_region None slots bump = []"
| "mem_region (Some b) slots bump = [(b, slots, bump)]"

definition regions :: "SlabPool \<Rightarrow> region list" where
  "regions p = mem_region (sp_mem p) (sp_memSlots p) (sp_bumpNext p) @
    map (\<lambda>e. (ex_mem e, ex_slots e, ex_bumpNext e)) (sp_extents p)"

definition lists_ok :: "SlabPool \<Rightarrow> (place \<Rightarrow> nat list) \<Rightarrow> bool" where
  "lists_ok p L \<longleftrightarrow> chain (sp_next p) (sp_sharedHead p) (L PlShared) None \<and>
    (\<forall>t. if c_gen (sp_local p t) = sp_gen p
         then chain (sp_next p) (c_head (sp_local p t)) (L (PlMag t)) None \<and> c_count (sp_local p t) = length (L (PlMag t))
         else L (PlMag t) = [])"

definition live_ok :: "SlabPool \<Rightarrow> bool" where
  "live_ok p \<longleftrightarrow> length (sp_live p) = kLiveSlots \<and> (\<forall>t i e. sp_liveRef p t = Some (i, e) \<longrightarrow> i < kLiveSlots)"

definition slab_mem :: "SlabPool \<Rightarrow> (place \<Rightarrow> nat list) \<Rightarrow> bool" where
  "slab_mem p L \<longleftrightarrow> reg_ok (sp_SLOT p) (regions p) \<and> pieces_ok L (reg_carved (sp_SLOT p) (regions p)) \<and> lists_ok p L"

definition slab_inv :: "SlabPool \<Rightarrow> (place \<Rightarrow> nat list) \<Rightarrow> bool" where
  [inv_defs]: "slab_inv p L \<longleftrightarrow> slab_mem p L \<and> L PlBatch = [] \<and> live_ok p \<and> LiveCount p = int (length (L PlOut)) \<and>
    (sp_mem p = None \<longrightarrow> sp_extents p = []) \<and> sp_registry p = Some (sp_gen p)"

definition batch_ok :: "Batch \<Rightarrow> SlabPool \<Rightarrow> (place \<Rightarrow> nat list) \<Rightarrow> bool" where
  "batch_ok b p L \<longleftrightarrow> (\<exists>q. chain (sp_next p) (b_head b) (L PlBatch) q \<and> (L PlBatch = [] \<longrightarrow> q = None)) \<and>
    (L PlBatch \<noteq> [] \<longrightarrow> b_tail b = Some (last (L PlBatch))) \<and> b_moved b = length (L PlBatch)"

lemma lists_frame:
  assumes "lists_ok p L" "\<forall>y. y \<notin> X \<longrightarrow> sp_next p' y = sp_next p y" "X \<inter> set (L PlShared) = {}" "\<forall>t. X \<inter> set (L (PlMag t)) = {}"
    "sp_sharedHead p' = sp_sharedHead p" "sp_local p' = sp_local p" "sp_gen p' = sp_gen p"
    "L' PlShared = L PlShared" "\<forall>t. L' (PlMag t) = L (PlMag t)"
  shows "lists_ok p' L'"
proof -
  have "chain (sp_next p') h (L (PlMag t)) None" if "chain (sp_next p) h (L (PlMag t)) None" for h t
    by (rule chain_frame [OF that assms(2)]) (use assms(4) in blast)
  moreover have "chain (sp_next p') (sp_sharedHead p) (L PlShared) None"
    by (rule chain_frame [OF _ assms(2)]) (use assms(1,3) in \<open>auto simp: lists_ok_def\<close>)
  ultimately show ?thesis using assms(1,5-9) by (auto simp: lists_ok_def)
qed

lemma magD:
  "lists_ok p L \<Longrightarrow> c_gen (sp_local p t) = sp_gen p \<Longrightarrow>
   chain (sp_next p) (c_head (sp_local p t)) (L (PlMag t)) None \<and> c_count (sp_local p t) = length (L (PlMag t))"
  unfolding lists_ok_def by metis

section \<open>The phases of a refill\<close>

lemma rf_shared_ok:
  assumes "slab_mem p L" "L PlBatch = []" "rf_shared p = (b, p')"
  shows "\<exists>L'. slab_mem p' L' \<and> batch_ok b p' L' \<and> L' PlOut = L PlOut \<and> (\<forall>t. L' (PlMag t) = L (PlMag t)) \<and>
    (b_moved b = 0 \<longrightarrow> sp_sharedHead p = None) \<and> p' = p\<lparr>sp_sharedHead := sp_sharedHead p'\<rparr>"
proof (cases "sp_sharedHead p")
  case None
  then show ?thesis using assms by (intro exI [of _ L]) (auto simp: rf_shared_def batch_ok_def)
next
  case (Some h)
  let ?sh = "L PlShared"
  let ?L = "L(PlShared := drop BATCH ?sh, PlBatch := take BATCH ?sh)"
  have ch: "chain (sp_next p) (sp_sharedHead p) ?sh None" using assms(1) by (simp add: slab_mem_def lists_ok_def)
  obtain cur bt m where t: "take_shared (sp_next p) BATCH (sp_sharedHead p) None 0 = (cur, bt, m)" by (cases "take_shared (sp_next p) BATCH (sp_sharedHead p) None 0")
  have e: "b = \<lparr>b_head = sp_sharedHead p, b_tail = bt, b_moved = m\<rparr>" "p' = p\<lparr>sp_sharedHead := cur\<rparr>"
    using assms(3) t Some by (auto simp: rf_shared_def)
  note T = take_shared_spec [OF ch t]
  have ne: "?sh \<noteq> []" "take BATCH ?sh \<noteq> []" using ch Some by (auto simp: BATCH_def)
  have "mset (drop BATCH ?sh) + mset (take BATCH ?sh) = mset ?sh + mset (L PlBatch)"
    using assms(2) by (metis add.commute add.right_neutral append_take_drop_id mset.simps(1) mset_append)
  then have "pieces_ok ?L (reg_carved (sp_SLOT p) (regions p))"
    using assms(1) by (intro pieces_move) (auto simp: slab_mem_def)
  moreover have "regions p' = regions p" "sp_SLOT p' = sp_SLOT p" using e(2) by (simp_all add: regions_def)
  moreover have "lists_ok p' ?L" using assms(1) T e(2) by (simp add: slab_mem_def lists_ok_def)
  ultimately have "slab_mem p' ?L" using assms(1) by (simp add: slab_mem_def)
  moreover have "batch_ok b p' ?L" using T e ne by (auto simp: batch_ok_def)
  moreover have "0 < b_moved b" using T e ne by auto
  ultimately show ?thesis using e(2) by (intro exI [of _ ?L]) simp
qed

text \<open>Carving from one region extends the batch by fresh slots.\<close>

lemma carve_ok:
  assumes "slab_mem p L" "batch_ok b p L" "i < length (regions p)" "regions p ! i = (base, m, k)" "k + n \<le> m"
    "carve (sp_SLOT p) base k n (sp_next p, b_head b, b_tail b) = (nx, bh, bt)"
    "sp_next p' = nx" "regions p' = (regions p)[i := (base, m, k + n)]"
    "sp_SLOT p' = sp_SLOT p" "sp_sharedHead p' = sp_sharedHead p" "sp_local p' = sp_local p" "sp_gen p' = sp_gen p"
  shows "\<exists>L'. slab_mem p' L' \<and> batch_ok \<lparr>b_head = bh, b_tail = bt, b_moved = b_moved b + n\<rparr> p' L' \<and>
    L' PlOut = L PlOut \<and> (\<forall>t. L' (PlMag t) = L (PlMag t))"
proof -
  let ?S = "sp_SLOT p" and ?new = "slots_of (sp_SLOT p) base k n"
  let ?L = "L(PlBatch := rev ?new @ L PlBatch)"
  have ok: "reg_ok ?S (regions p)" and pc: "pieces_ok L (reg_carved ?S (regions p))" and li: "lists_ok p L"
    using assms(1) by (auto simp: slab_mem_def)
  note R = reg_carve [OF ok assms(3-5)]
  have S: "0 < ?S" using ok by (simp add: reg_ok_def)
  have fr: "set ?new \<inter> set (L a) = {}" for a using pc R(3) by (auto simp: pieces_ok_def)
  obtain q where q: "chain (sp_next p) (b_head b) (L PlBatch) q" "L PlBatch = [] \<longrightarrow> q = None"
    using assms(2) by (auto simp: batch_ok_def)
  have "L PlBatch \<noteq> [] \<longrightarrow> b_tail b = Some (last (L PlBatch))" using assms(2) by (auto simp: batch_ok_def)
  note C = carve_spec [OF assms(6) S q(1) fr q(2) this]
  have "pieces_ok ?L (reg_carved ?S (regions p) \<union> set (rev ?new))"
    using pieces_add [OF pc, of "rev ?new" PlBatch] R(3) slots_of_distinct [OF S] by simp
  moreover have "lists_ok p' ?L"
    by (rule lists_frame [OF li, of "set ?new"]) (use C fr assms(7,10-12) in auto)
  ultimately have "slab_mem p' ?L" using R(1,2) assms(8,9) by (simp add: slab_mem_def)
  moreover have "batch_ok \<lparr>b_head = bh, b_tail = bt, b_moved = b_moved b + n\<rparr> p' ?L"
    unfolding batch_ok_def using C q(2) assms(2,7)
    by (auto simp: batch_ok_def slots_of_def intro!: exI [of _ q] split: if_splits)
  ultimately show ?thesis by (intro exI [of _ ?L]) simp
qed

lemma rf_bump_ok:
  assumes "slab_mem p L" "batch_ok b p L" "sp_mem p = Some base" "rf_bump base (b, p) = (b', p')"
  shows "\<exists>L'. slab_mem p' L' \<and> batch_ok b' p' L' \<and> L' PlOut = L PlOut \<and> (\<forall>t. L' (PlMag t) = L (PlMag t)) \<and>
    (b_moved b' = 0 \<longrightarrow> b_moved b = 0 \<and> sp_memSlots p \<le> sp_bumpNext p) \<and>
    p' = p\<lparr>sp_next := sp_next p', sp_bumpNext := sp_bumpNext p'\<rparr>"
proof (cases "b_moved b < BATCH \<and> sp_bumpNext p < sp_memSlots p")
  case False
  then show ?thesis using assms by (intro exI [of _ L]) (auto simp: rf_bump_def BATCH_def)
next
  case True
  let ?n = "min (BATCH - b_moved b) (sp_memSlots p - sp_bumpNext p)"
  obtain nx bh bt where c: "carve (sp_SLOT p) base (sp_bumpNext p) ?n (sp_next p, b_head b, b_tail b) = (nx, bh, bt)"
    by (cases "carve (sp_SLOT p) base (sp_bumpNext p) ?n (sp_next p, b_head b, b_tail b)")
  have e: "b' = \<lparr>b_head = bh, b_tail = bt, b_moved = b_moved b + ?n\<rparr>" "p' = p\<lparr>sp_next := nx, sp_bumpNext := sp_bumpNext p + ?n\<rparr>"
    using assms(4) True c by (auto simp: rf_bump_def Let_def)
  have reg: "regions p = (base, sp_memSlots p, sp_bumpNext p) # map (\<lambda>e. (ex_mem e, ex_slots e, ex_bumpNext e)) (sp_extents p)"
    using assms(3) by (simp add: regions_def)
  have "\<exists>L'. slab_mem p' L' \<and> batch_ok b' p' L' \<and> L' PlOut = L PlOut \<and> (\<forall>t. L' (PlMag t) = L (PlMag t))"
    unfolding e(1)
  proof (rule carve_ok [OF assms(1,2), where i = 0])
    show "regions p' = (regions p)[0 := (base, sp_memSlots p, sp_bumpNext p + ?n)]" using e(2) assms(3) by (simp add: regions_def)
    show "sp_bumpNext p + ?n \<le> sp_memSlots p" using True by linarith
    show "carve (sp_SLOT p) base (sp_bumpNext p) ?n (sp_next p, b_head b, b_tail b) = (nx, bh, bt)" by (rule c)
  qed (use reg e(2) in simp_all)
  moreover have "0 < b_moved b'" using e(1) True by (simp add: BATCH_def)
  ultimately show ?thesis using e(2) by auto
qed

text \<open>Memory from \<open>new\<close> overlaps no block the pool has.\<close>

definition fresh_block :: "ptr \<Rightarrow> SlabPool \<Rightarrow> bool" where
  "fresh_block nw p \<longleftrightarrow> (case nw of None \<Rightarrow> True
     | Some base \<Rightarrow> list_all (reg_disj (sp_SLOT p) (base, kGrowSlots, 0)) (regions p))"

lemma extent_with_room_spec:
  "extent_with_room es = Some i \<Longrightarrow> i < length es \<and> ex_bumpNext (es ! i) < ex_slots (es ! i)"
proof (induction es arbitrary: i)
  case (Cons e es)
  then show ?case by (auto split: if_splits)
qed simp

lemma rf_find_ok:
  assumes "slab_mem p L" "batch_ok b p L" "fresh_block nw p" "rf_find nw p = (r, p')"
  shows "slab_mem p' L \<and> batch_ok b p' L \<and>
    (case r of None \<Rightarrow> nw = None \<and> extent_with_room (sp_extents p) = None
     | Some i \<Rightarrow> i < length (sp_extents p') \<and> ex_bumpNext (sp_extents p' ! i) < ex_slots (sp_extents p' ! i)) \<and>
    p' = p\<lparr>sp_grewOnce := sp_grewOnce p', sp_extents := sp_extents p'\<rparr>"
proof (cases "extent_with_room (sp_extents p)")
  case (Some i)
  then have "r = Some i" "p' = p" using assms(4) by (simp_all add: rf_find_def)
  then show ?thesis using assms(1,2) extent_with_room_spec [OF Some] by simp
next
  case None
  show ?thesis
  proof (cases nw)
    case nw: None
    then have "p' = p\<lparr>sp_grewOnce := True\<rparr>" "r = None" using assms(4) None by (simp_all add: rf_find_def)
    moreover have "regions (p\<lparr>sp_grewOnce := True\<rparr>) = regions p" by (simp add: regions_def)
    ultimately show ?thesis using assms(1,2) nw None by (simp add: slab_mem_def lists_ok_def batch_ok_def)
  next
    case (Some base)
    let ?e = "\<lparr>ex_mem = base, ex_slots = kGrowSlots, ex_bumpNext = 0\<rparr>"
    let ?m = "mem_region (sp_mem p) (sp_memSlots p) (sp_bumpNext p)"
    let ?es = "map (\<lambda>e. (ex_mem e, ex_slots e, ex_bumpNext e)) (sp_extents p)"
    have e: "p' = p\<lparr>sp_grewOnce := True, sp_extents := ?e # sp_extents p\<rparr>" "r = Some 0"
      using assms(4) None Some by (simp_all add: rf_find_def)
    have r: "regions p = ?m @ ?es" "regions p' = ?m @ (base, kGrowSlots, 0) # ?es" using e by (simp_all add: regions_def)
    have "\<forall>r \<in> set (?m @ ?es). reg_disj (sp_SLOT p) (base, kGrowSlots, 0) r"
      using assms(3) Some unfolding fresh_block_def r(1) list_all_iff by simp
    from reg_grow [OF _ this] have "reg_ok (sp_SLOT p) (regions p')" "reg_carved (sp_SLOT p) (regions p') = reg_carved (sp_SLOT p) (regions p)"
      using assms(1) unfolding r slab_mem_def by simp_all
    moreover have "lists_ok p' L" using assms(1) e(1) by (simp add: slab_mem_def lists_ok_def)
    ultimately have "slab_mem p' L" using assms(1) e(1) by (simp add: slab_mem_def)
    then show ?thesis using assms(2) e by (simp add: batch_ok_def kGrowSlots_def)
  qed
qed

lemma rf_carve_extent_ok:
  assumes "slab_mem p L" "batch_ok b p L" "i < length (sp_extents p)" "ex_bumpNext (sp_extents p ! i) < ex_slots (sp_extents p ! i)"
    "rf_carve_extent i (b, p) = (b', p')"
  shows "\<exists>L'. slab_mem p' L' \<and> batch_ok b' p' L' \<and> L' PlOut = L PlOut \<and> (\<forall>t. L' (PlMag t) = L (PlMag t)) \<and> 0 < b_moved b' \<and>
    p' = p\<lparr>sp_next := sp_next p', sp_extents := sp_extents p'\<rparr>"
proof -
  let ?e = "sp_extents p ! i"
  let ?n = "min BATCH (ex_slots ?e - ex_bumpNext ?e)"
  let ?e' = "?e\<lparr>ex_bumpNext := ex_bumpNext ?e + ?n\<rparr>"
  let ?m = "mem_region (sp_mem p) (sp_memSlots p) (sp_bumpNext p)"
  let ?f = "\<lambda>e. (ex_mem e, ex_slots e, ex_bumpNext e)"
  obtain nx bh bt where c: "carve (sp_SLOT p) (ex_mem ?e) (ex_bumpNext ?e) ?n (sp_next p, b_head b, b_tail b) = (nx, bh, bt)"
    by (cases "carve (sp_SLOT p) (ex_mem ?e) (ex_bumpNext ?e) ?n (sp_next p, b_head b, b_tail b)")
  have e: "b' = \<lparr>b_head = bh, b_tail = bt, b_moved = b_moved b + ?n\<rparr>" "p' = p\<lparr>sp_next := nx, sp_extents := (sp_extents p)[i := ?e']\<rparr>"
    using assms(5) c by (simp_all add: rf_carve_extent_def Let_def)
  have r: "regions p = ?m @ map ?f (sp_extents p)" "regions p' = ?m @ (map ?f (sp_extents p))[i := ?f ?e']"
    using e(2) by (simp_all add: regions_def map_update)
  have "\<exists>L'. slab_mem p' L' \<and> batch_ok b' p' L' \<and> L' PlOut = L PlOut \<and> (\<forall>t. L' (PlMag t) = L (PlMag t))"
    unfolding e(1)
  proof (rule carve_ok [OF assms(1,2), where i = "length ?m + i"])
    show "carve (sp_SLOT p) (ex_mem ?e) (ex_bumpNext ?e) ?n (sp_next p, b_head b, b_tail b) = (nx, bh, bt)" by (rule c)
    show "regions p' = (regions p)[length ?m + i := (ex_mem ?e, ex_slots ?e, ex_bumpNext ?e + ?n)]"
      unfolding r by (simp add: list_update_append)
    show "regions p ! (length ?m + i) = (ex_mem ?e, ex_slots ?e, ex_bumpNext ?e)" unfolding r using assms(3) by (simp add: nth_append)
    show "length ?m + i < length (regions p)" unfolding r using assms(3) by simp
    show "ex_bumpNext ?e + ?n \<le> ex_slots ?e" using assms(4) by linarith
  qed (use e(2) in simp_all)
  moreover have "0 < b_moved b'" using e(1) assms(4) by (simp add: BATCH_def)
  ultimately show ?thesis using e(2) by auto
qed

text \<open>What a refill leaves alone.\<close>

definition same_rest :: "SlabPool \<Rightarrow> SlabPool \<Rightarrow> bool" where
  "same_rest p p' \<longleftrightarrow> sp_SLOT p' = sp_SLOT p \<and> sp_mem p' = sp_mem p \<and> sp_memSlots p' = sp_memSlots p \<and> sp_gen p' = sp_gen p \<and>
    sp_live p' = sp_live p \<and> sp_liveRef p' = sp_liveRef p \<and> sp_registry p' = sp_registry p \<and>
    sp_growthEnabled p' = sp_growthEnabled p"

lemma same_rest_trans: "same_rest p q \<Longrightarrow> same_rest q r \<Longrightarrow> same_rest p r"
  by (simp add: same_rest_def)

lemma same_live: "same_rest p p' \<Longrightarrow> live_ok p' = live_ok p \<and> LiveCount p' = LiveCount p"
  by (simp add: same_rest_def live_ok_def LiveCount_def)

definition exhausted :: "ptr \<Rightarrow> SlabPool \<Rightarrow> bool" where
  "exhausted nw p \<longleftrightarrow> sp_mem p = None \<or>
    sp_sharedHead p = None \<and> sp_memSlots p \<le> sp_bumpNext p \<and>
    (\<not> sp_growthEnabled p \<or> nw = None \<and> extent_with_room (sp_extents p) = None)"

lemma rf_grow_ok:
  assumes "slab_mem p L" "batch_ok b p L" "fresh_block nw p" "rf_grow nw (b, p) = (b', p')"
  shows "\<exists>L'. slab_mem p' L' \<and> batch_ok b' p' L' \<and> L' PlOut = L PlOut \<and> (\<forall>t. L' (PlMag t) = L (PlMag t)) \<and>
    (b_moved b' = 0 \<longrightarrow> b_moved b = 0 \<and> (\<not> sp_growthEnabled p \<or> nw = None \<and> extent_with_room (sp_extents p) = None)) \<and>
    same_rest p p' \<and> sp_local p' = sp_local p"
proof (cases "b_moved b = 0 \<and> sp_growthEnabled p")
  case False
  then show ?thesis using assms by (intro exI [of _ L]) (auto simp: rf_grow_def same_rest_def)
next
  case True
  obtain r p1 where f: "rf_find nw p = (r, p1)" by (cases "rf_find nw p")
  note F = rf_find_ok [OF assms(1-3) f]
  then have k: "p1 = p\<lparr>sp_grewOnce := sp_grewOnce p1, sp_extents := sp_extents p1\<rparr>" by blast
  have s1: "same_rest p p1" "sp_local p1 = sp_local p" by (subst k, simp add: same_rest_def)+
  show ?thesis
  proof (cases r)
    case None
    then have "(b', p') = (b, p1)" using assms(4) f True by (simp add: rf_grow_def)
    then show ?thesis using F None s1 True by (intro exI [of _ L]) simp
  next
    case (Some i)
    then have "rf_carve_extent i (b, p1) = (b', p')" using assms(4) f True by (simp add: rf_grow_def)
    then obtain L' where L': "slab_mem p' L' \<and> batch_ok b' p' L' \<and> L' PlOut = L PlOut \<and> (\<forall>t. L' (PlMag t) = L (PlMag t)) \<and> 0 < b_moved b'"
        and q: "p' = p1\<lparr>sp_next := sp_next p', sp_extents := sp_extents p'\<rparr>"
      using rf_carve_extent_ok [of p1 L b i b' p'] F Some by auto
    have "same_rest p1 p'" "sp_local p' = sp_local p1" by (subst q, simp add: same_rest_def)+
    then show ?thesis using L' s1 same_rest_trans by (intro exI [of _ L']) auto
  qed
qed

lemma rf_splice_ok:
  assumes "slab_mem p L" "batch_ok b p L" "c_gen (sp_local p t) = sp_gen p"
  shows "\<exists>p' L'. rf_splice t (b, p) = Some p' \<and> slab_mem p' L' \<and> L' PlBatch = [] \<and> L' PlOut = L PlOut \<and>
    L' (PlMag t) = L PlBatch @ L (PlMag t) \<and> c_gen (sp_local p' t) = sp_gen p \<and> same_rest p p' \<and> sp_extents p' = sp_extents p"
proof (cases "L PlBatch = []")
  case True
  then have "b_head b = None" using assms(2) by (auto simp: batch_ok_def)
  then show ?thesis using assms True by (intro exI [of _ p] exI [of _ L]) (auto simp: rf_splice_def same_rest_def)
next
  case False
  let ?c = "sp_local p t" and ?B = "L PlBatch" and ?M = "L (PlMag t)"
  let ?p = "p\<lparr>sp_next := (sp_next p)(last ?B := c_head ?c),
      sp_local := (sp_local p)(t := ?c\<lparr>c_head := b_head b, c_count := c_count ?c + b_moved b\<rparr>)\<rparr>"
  let ?L = "L(PlMag t := ?B @ ?M, PlBatch := [])"
  obtain q where q: "chain (sp_next p) (b_head b) ?B q" and bt: "b_tail b = Some (last ?B)" and bm: "b_moved b = length ?B"
    using assms(2) False by (auto simp: batch_ok_def)
  have "b_head b \<noteq> None" using q False by (cases ?B) auto
  then have r: "rf_splice t (b, p) = Some ?p" using bt by (auto simp: rf_splice_def Let_def)
  have pc: "pieces_ok L (reg_carved (sp_SLOT p) (regions p))" and li: "lists_ok p L" using assms(1) by (auto simp: slab_mem_def)
  have lb: "last ?B \<in> set ?B" using False by simp
  note nl = pieces_disj [OF pc _ lb]
  have "pieces_ok ?L (reg_carved (sp_SLOT p) (regions p))" using pc by (intro pieces_move) auto
  moreover have "regions ?p = regions p" by (simp add: regions_def)
  moreover have "lists_ok ?p ?L"
  proof -
    have "distinct ?B" using pc by (simp add: pieces_ok_def)
    then have "chain (sp_next ?p) (b_head b) (?B @ ?M) None"
      using chain_relink [OF q False] li assms(3) nl [of "PlMag t"] by (simp add: lists_ok_def)
    then show ?thesis using li nl bm assms(3) by (auto simp: lists_ok_def)
  qed
  ultimately have "slab_mem ?p ?L" using assms(1) by (simp add: slab_mem_def)
  then show ?thesis using r assms(3) by (intro exI [of _ ?p] exI [of _ ?L]) (simp add: same_rest_def)
qed

lemma refill_ok:
  assumes "slab_mem p L" "L PlBatch = []" "c_gen (sp_local p t) = sp_gen p" "fresh_block nw p"
  shows "\<exists>p' L'. refill t nw p = Some p' \<and> slab_mem p' L' \<and> L' PlBatch = [] \<and> L' PlOut = L PlOut \<and> same_rest p p' \<and>
    c_gen (sp_local p' t) = sp_gen p \<and> (L' (PlMag t) = [] \<longrightarrow> exhausted nw p) \<and> (sp_mem p = None \<longrightarrow> p' = p)"
proof (cases "sp_mem p")
  case None
  then show ?thesis using assms
    by (intro exI [of _ p] exI [of _ L]) (simp add: refill_def exhausted_def same_rest_def)
next
  case (Some base)
  obtain b1 p1 where 1: "rf_shared p = (b1, p1)" by (cases "rf_shared p")
  obtain b2 p2 where 2: "rf_bump base (b1, p1) = (b2, p2)" by (cases "rf_bump base (b1, p1)")
  obtain b3 p3 where 3: "rf_grow nw (b2, p2) = (b3, p3)" by (cases "rf_grow nw (b2, p2)")
  obtain L1 where L1: "slab_mem p1 L1" "batch_ok b1 p1 L1" "L1 PlOut = L PlOut" "b_moved b1 = 0 \<longrightarrow> sp_sharedHead p = None"
      and q1: "p1 = p\<lparr>sp_sharedHead := sp_sharedHead p1\<rparr>"
    using rf_shared_ok [OF assms(1,2) 1] by metis
  have e1: "same_rest p p1" "sp_local p1 = sp_local p" "sp_bumpNext p1 = sp_bumpNext p" "sp_extents p1 = sp_extents p"
    by (subst q1, simp add: same_rest_def)+
  then have m1: "sp_mem p1 = Some base" using Some by (simp add: same_rest_def)
  obtain L2 where L2: "slab_mem p2 L2" "batch_ok b2 p2 L2" "L2 PlOut = L1 PlOut"
      "b_moved b2 = 0 \<longrightarrow> b_moved b1 = 0 \<and> sp_memSlots p1 \<le> sp_bumpNext p1"
      and q2: "p2 = p1\<lparr>sp_next := sp_next p2, sp_bumpNext := sp_bumpNext p2\<rparr>"
    using rf_bump_ok [OF L1(1,2) m1 2] by metis
  have e2: "same_rest p1 p2" "sp_local p2 = sp_local p1" "sp_extents p2 = sp_extents p1"
    by (subst q2, simp add: same_rest_def)+
  have "fresh_block nw p2"
    using assms(4) e1 e2 Some unfolding fresh_block_def regions_def
    by (cases nw) (simp_all add: same_rest_def reg_disj_def)
  then obtain L3 where L3: "slab_mem p3 L3" "batch_ok b3 p3 L3" "L3 PlOut = L2 PlOut"
      "b_moved b3 = 0 \<longrightarrow> b_moved b2 = 0 \<and> (\<not> sp_growthEnabled p2 \<or> nw = None \<and> extent_with_room (sp_extents p2) = None)"
      "same_rest p2 p3" "sp_local p3 = sp_local p2"
    using rf_grow_ok [OF L2(1,2) _ 3] by metis
  have s: "same_rest p p3" using e1(1) e2(1) L3(5) same_rest_trans by blast
  have g: "c_gen (sp_local p3 t) = sp_gen p3" using assms(3) e1(2) e2(2) L3(6) s by (simp add: same_rest_def)
  obtain p' L' where f: "rf_splice t (b3, p3) = Some p'" "slab_mem p' L'" "L' PlBatch = []" "L' PlOut = L3 PlOut"
      "L' (PlMag t) = L3 PlBatch @ L3 (PlMag t)" "c_gen (sp_local p' t) = sp_gen p3" "same_rest p3 p'"
    using rf_splice_ok [OF L3(1,2) g] by blast
  have "exhausted nw p" if "L' (PlMag t) = []"
  proof -
    have "b_moved b3 = 0" using that f(5) L3(2) by (simp add: batch_ok_def)
    then show ?thesis using L1(4) L2(4) L3(4) e1 e2 by (auto simp: exhausted_def same_rest_def)
  qed
  then show ?thesis
    using f s same_rest_trans L1(3) L2(3) L3(3) Some 1 2 3
    by (intro exI [of _ p'] exI [of _ L']) (auto simp: refill_def same_rest_def)
qed

section \<open>Magazines\<close>

lemma cache_sp_ok:
  assumes "slab_mem p L"
  shows "slab_mem (cache_sp t p) L \<and> c_gen (sp_local (cache_sp t p) t) = sp_gen (cache_sp t p) \<and> same_rest p (cache_sp t p) \<and>
    sp_extents (cache_sp t p) = sp_extents p \<and> regions (cache_sp t p) = regions p \<and> sp_sharedHead (cache_sp t p) = sp_sharedHead p \<and>
    sp_bumpNext (cache_sp t p) = sp_bumpNext p"
proof (cases "c_gen (sp_local p t) = sp_gen p")
  case True
  then show ?thesis using assms by (simp add: cache_sp_def same_rest_def)
next
  case False
  then have "regions (cache_sp t p) = regions p" by (simp add: cache_sp_def regions_def)
  moreover have "L (PlMag t) = []" using assms False by (auto simp: slab_mem_def lists_ok_def)
  then have "lists_ok (cache_sp t p) L" using assms False by (auto simp: slab_mem_def lists_ok_def cache_sp_def)
  ultimately show ?thesis using assms False by (simp add: slab_mem_def same_rest_def cache_sp_def)
qed

text \<open>A front part of a chain is moved to the shared list by relinking its last node.\<close>

lemma to_shared_ok:
  assumes "slab_mem p L" "c_gen (sp_local p t) = sp_gen p" "L (PlMag t) = xs @ ys" "xs \<noteq> []"
    "h = c_head (sp_local p t)"
    "p' = p\<lparr>sp_local := (sp_local p)(t := c), sp_next := (sp_next p)(last xs := sp_sharedHead p), sp_sharedHead := h\<rparr>"
    "c_gen c = sp_gen p" "c_count c = length ys" "c_head c = sp_next p (last xs)"
  shows "slab_mem p' (L(PlMag t := ys, PlShared := xs @ L PlShared))"
proof -
  let ?L = "L(PlMag t := ys, PlShared := xs @ L PlShared)"
  have pc: "pieces_ok L (reg_carved (sp_SLOT p) (regions p))" and li: "lists_ok p L" using assms(1) by (auto simp: slab_mem_def)
  have d: "distinct (xs @ ys)" using pc assms(3) unfolding pieces_ok_def by metis
  have lx: "last xs \<in> set (L (PlMag t))" "last xs \<notin> set ys" using assms(3,4) d last_in_set by auto
  note nl = pieces_disj [OF pc _ lx(1)]
  obtain r where c: "chain (sp_next p) h xs r" "chain (sp_next p) r ys None"
    using li assms(2,3,5) unfolding lists_ok_def by (metis chain_append)
  have r: "r = sp_next p (last xs)"
  proof -
    obtain zs z where z: "xs = zs @ [z]" using assms(4) by (metis append_butlast_last_id)
    then show ?thesis using c(1) by (auto simp: chain_append)
  qed
  have "chain (sp_next p') h (xs @ L PlShared) None"
    using chain_relink [OF c(1) assms(4), of "sp_sharedHead p" "L PlShared" None] d li nl [of PlShared] assms(6) by (simp add: lists_ok_def)
  moreover have "chain (sp_next p') (c_head c) ys None" using c(2) r lx(2) assms(6,9) by simp
  ultimately have "lists_ok p' ?L" using li nl assms(6-8) by (auto simp: lists_ok_def)
  moreover have "regions p' = regions p" "sp_SLOT p' = sp_SLOT p" using assms(6) by (simp_all add: regions_def)
  moreover have "pieces_ok ?L (reg_carved (sp_SLOT p) (regions p))" using pc assms(3) by (intro pieces_move) auto
  ultimately show ?thesis using assms(1) by (simp add: slab_mem_def)
qed

lemma flush_ok:
  assumes "slab_mem p L" "c_gen (sp_local p t) = sp_gen p"
  shows "\<exists>p' L'. flush t p = Some p' \<and> slab_mem p' L' \<and> L' PlOut = L PlOut \<and> L' PlBatch = L PlBatch \<and> same_rest p p' \<and>
    sp_extents p' = sp_extents p \<and> c_gen (sp_local p' t) = sp_gen p \<and>
    c_count (sp_local p' t) = min BATCH (c_count (sp_local p t))"
proof (cases "c_count (sp_local p t) \<le> BATCH")
  case True
  then show ?thesis using assms by (intro exI [of _ p] exI [of _ L]) (simp add: flush_def Let_def same_rest_def)
next
  case False
  let ?c = "sp_local p t" and ?n = "c_count (sp_local p t) - BATCH"
  let ?xs = "take ?n (L (PlMag t))" and ?ys = "drop ?n (L (PlMag t))"
  have ch: "chain (sp_next p) (c_head ?c) (L (PlMag t)) None" and len: "length (L (PlMag t)) = c_count ?c"
    using assms by (auto simp: slab_mem_def lists_ok_def)
  have n: "?n - 1 < length (L (PlMag t))" "0 < ?n" "?n \<le> length (L (PlMag t))" using False len by auto
  then have ne: "?xs \<noteq> []" by auto
  have l: "L (PlMag t) ! (?n - 1) = last ?xs" using n last_conv_nth [OF ne] by (simp add: min_absorb2)
  let ?p = "p\<lparr>sp_local := (sp_local p)(t := ?c\<lparr>c_head := sp_next p (last ?xs), c_count := BATCH\<rparr>),
    sp_next := (sp_next p)(last ?xs := sp_sharedHead p), sp_sharedHead := c_head ?c\<rparr>"
  have f: "flush t p = Some ?p" using False walk_next_spec [OF ch n(1)] l by (simp add: flush_def Let_def)
  have "slab_mem ?p (L(PlMag t := ?ys, PlShared := ?xs @ L PlShared))"
    by (rule to_shared_ok [OF assms, where xs = ?xs and c = "?c\<lparr>c_head := sp_next p (last ?xs), c_count := BATCH\<rparr>"])
      (use ne len False assms(2) in simp_all)
  then show ?thesis using f False assms(2) by (intro exI [of _ ?p] exI [of _ "L(PlMag t := ?ys, PlShared := ?xs @ L PlShared)"])
    (simp add: same_rest_def)
qed

lemma Cache_exit_mem:
  assumes "slab_mem p L" "sp_registry p = Some (sp_gen p)"
  shows "\<exists>p' L'. Cache_exit t p = Some p' \<and> slab_mem p' L' \<and> L' PlOut = L PlOut \<and> L' PlBatch = L PlBatch \<and> same_rest p p' \<and>
    sp_extents p' = sp_extents p \<and> L' (PlMag t) = [] \<and> L' PlShared = L (PlMag t) @ L PlShared"
proof (cases "c_gen (sp_local p t) = sp_gen p")
  case False
  let ?p = "if c_head (sp_local p t) = None then p else p\<lparr>sp_local := (sp_local p)(t := (sp_local p t)\<lparr>c_head := None, c_count := 0\<rparr>)\<rparr>"
  have e: "Cache_exit t p = Some ?p" using assms(2) False by (auto simp: Cache_exit_def Let_def)
  have m: "L (PlMag t) = []" using assms(1) False by (auto simp: slab_mem_def lists_ok_def)
  have "regions ?p = regions p" by (simp add: regions_def)
  moreover have "lists_ok ?p L" using assms(1) False m by (auto simp: slab_mem_def lists_ok_def)
  ultimately have "slab_mem ?p L" using assms(1) by (simp add: slab_mem_def)
  then show ?thesis using e m by (intro exI [of _ ?p] exI [of _ L]) (simp add: same_rest_def)
next
  case True
  let ?c = "sp_local p t" and ?xs = "L (PlMag t)"
  have ch: "chain (sp_next p) (c_head ?c) ?xs None" and len: "c_count ?c = length ?xs"
    using assms(1) True by (auto simp: slab_mem_def lists_ok_def)
  show ?thesis
  proof (cases "?xs = []")
    case e: True
    then have "Cache_exit t p = Some p" using ch by (simp add: Cache_exit_def Let_def)
    then show ?thesis using assms(1) e by (intro exI [of _ p] exI [of _ L]) (simp add: same_rest_def)
  next
    case False
    then have h: "c_head ?c \<noteq> None" using ch chain_empty_iff by metis
    have n: "length ?xs - 1 < length ?xs" using False by simp
    have l: "?xs ! (length ?xs - 1) = last ?xs" using False by (simp add: last_conv_nth)
    have lc: "sp_next p (last ?xs) = None"
    proof -
      obtain zs z where z: "?xs = zs @ [z]" using False by (metis append_butlast_last_id)
      then show ?thesis using ch by (auto simp: chain_append)
    qed
    let ?p = "p\<lparr>sp_local := (sp_local p)(t := ?c\<lparr>c_head := None, c_count := 0\<rparr>),
      sp_next := (sp_next p)(last ?xs := sp_sharedHead p), sp_sharedHead := c_head ?c\<rparr>"
    have "Cache_exit t p = Some ?p"
      using h walk_next_spec [OF ch n] l len True assms(2) False by (auto simp: Cache_exit_def giveBack_def Let_def)
    moreover have "slab_mem ?p (L(PlMag t := [], PlShared := ?xs @ L PlShared))"
      by (rule to_shared_ok [OF assms(1) True, where xs = ?xs and c = "?c\<lparr>c_head := None, c_count := 0\<rparr>"]) (use False True lc in simp_all)
    ultimately show ?thesis by (intro exI [of _ ?p] exI [of _ "L(PlMag t := [], PlShared := ?xs @ L PlShared)"]) (simp add: same_rest_def)
  qed
qed

section \<open>Live counters\<close>

lemma sum_update:
  fixes f :: "'a \<Rightarrow> int"
  assumes "i < length xs"
  shows "sum_list (map f (xs[i := y])) = sum_list (map f xs) + f y - f (xs ! i)"
  using assms
proof (induction xs arbitrary: i)
  case (Cons x xs)
  then show ?case by (cases i) simp_all
qed simp

lemma liveSlot_ok:
  assumes "live_ok p" "liveSlot t p = (r, p')"
  shows "live_ok p' \<and> fst r < kLiveSlots \<and> sp_live p' = sp_live p \<and>
    (\<exists>m. \<exists>f. p' = p\<lparr>sp_liveNext := m, sp_liveRef := f\<rparr>)"
proof (cases "sp_liveRef p t")
  case None
  let ?n = "sp_liveNext p"
  have "r = (?n mod kLiveSlots, ?n < kLiveSlots)" "p' = p\<lparr>sp_liveNext := ?n + 1, sp_liveRef := (sp_liveRef p)(t \<mapsto> r)\<rparr>"
    using assms(2) None by (auto simp: liveSlot_def Let_def)
  moreover have "?n mod kLiveSlots < kLiveSlots" by (simp add: kLiveSlots_def)
  ultimately show ?thesis using assms(1) by (auto simp: live_ok_def)
next
  case (Some r')
  then have "r = r'" "p' = p" using assms(2) by (simp_all add: liveSlot_def)
  moreover have "\<exists>m. \<exists>f. p = p\<lparr>sp_liveNext := m, sp_liveRef := f\<rparr>"
    by (rule exI [of _ "sp_liveNext p"], rule exI [of _ "sp_liveRef p"]) simp
  moreover have "fst r' < kLiveSlots" using assms(1) Some unfolding live_ok_def by (metis prod.collapse)
  ultimately show ?thesis using assms(1) by simp
qed

lemma liveAdd_ok:
  assumes "live_ok p"
  shows "live_ok (liveAdd t d p) \<and> LiveCount (liveAdd t d p) = LiveCount p + d \<and>
    (\<exists>m. \<exists>f. \<exists>l. liveAdd t d p = p\<lparr>sp_liveNext := m, sp_liveRef := f, sp_live := l\<rparr>)"
proof -
  obtain r p1 where l: "liveSlot t p = (r, p1)" by (cases "liveSlot t p")
  note S = liveSlot_ok [OF assms l]
  then obtain m f where p1: "p1 = p\<lparr>sp_liveNext := m, sp_liveRef := f\<rparr>" by blast
  let ?c = "sp_live p ! fst r"
  obtain c2 where a: "liveAdd t d p = p1\<lparr>sp_live := (sp_live p)[fst r := c2]\<rparr>" and v: "lc_v c2 = lc_v ?c + d"
    using l S by (auto simp: liveAdd_def Let_def)
  have len: "length (sp_live p) = kLiveSlots" using assms by (simp add: live_ok_def)
  have "LiveCount (liveAdd t d p) = LiveCount p + d"
    using sum_update [of "fst r" "sp_live p" lc_v c2] S len v by (simp add: LiveCount_def a)
  moreover have "live_ok (liveAdd t d p)" using S len by (simp add: live_ok_def a)
  ultimately show ?thesis using a p1 by auto
qed

section \<open>The public operations\<close>

lemma slab_mem_live_upd [simp]:
  "slab_mem (p\<lparr>sp_liveNext := m, sp_liveRef := f, sp_live := l\<rparr>) L = slab_mem p L"
  by (simp add: slab_mem_def lists_ok_def regions_def)

lemma mag_pop_ok:
  assumes "slab_mem p L" "c_gen (sp_local p t) = sp_gen p" "c_head (sp_local p t) = Some x"
  shows "\<exists>M. L (PlMag t) = x # M \<and>
    slab_mem (p\<lparr>sp_local := (sp_local p)(t := (sp_local p t)\<lparr>c_head := sp_next p x, c_count := c_count (sp_local p t) - 1\<rparr>)\<rparr>)
      (L(PlMag t := M, PlOut := x # L PlOut))"
proof -
  have pc: "pieces_ok L (reg_carved (sp_SLOT p) (regions p))" and li: "lists_ok p L" using assms(1) by (auto simp: slab_mem_def)
  have "chain (sp_next p) (Some x) (L (PlMag t)) None" using magD [OF li assms(2)] assms(3) by simp
  then obtain M where M: "L (PlMag t) = x # M" "chain (sp_next p) (sp_next p x) M None" by (cases "L (PlMag t)") auto
  let ?p = "p\<lparr>sp_local := (sp_local p)(t := (sp_local p t)\<lparr>c_head := sp_next p x, c_count := c_count (sp_local p t) - 1\<rparr>)\<rparr>"
  let ?L = "L(PlMag t := M, PlOut := x # L PlOut)"
  have "pieces_ok ?L (reg_carved (sp_SLOT p) (regions p))" using pc M(1) by (intro pieces_move) auto
  moreover have "lists_ok ?p ?L" using li M assms(2) by (auto simp: lists_ok_def)
  moreover have "regions ?p = regions p" by (simp add: regions_def)
  ultimately show ?thesis using M(1) assms(1) by (auto simp: slab_mem_def)
qed

lemma mag_push_ok:
  assumes "slab_mem p L" "c_gen (sp_local p t) = sp_gen p" "x \<in> set (L PlOut)"
  shows "slab_mem (p\<lparr>sp_next := (sp_next p)(x := c_head (sp_local p t)),
      sp_local := (sp_local p)(t := (sp_local p t)\<lparr>c_head := Some x, c_count := c_count (sp_local p t) + 1\<rparr>)\<rparr>)
      (L(PlOut := remove1 x (L PlOut), PlMag t := x # L (PlMag t)))" (is "slab_mem ?p ?L")
proof -
  have pc: "pieces_ok L (reg_carved (sp_SLOT p) (regions p))" and li: "lists_ok p L" using assms(1) by (auto simp: slab_mem_def)
  note nl = pieces_disj [OF pc _ assms(3)]
  have "pieces_ok ?L (reg_carved (sp_SLOT p) (regions p))" using pc assms(3) by (intro pieces_move) auto
  moreover have "lists_ok ?p ?L" using li nl assms(2) by (auto simp: lists_ok_def)
  moreover have "regions ?p = regions p" by (simp add: regions_def)
  ultimately show ?thesis using assms(1) by (simp add: slab_mem_def)
qed

lemma Alloc_ok:
  assumes "slab_inv p L" "fresh_block nw p"
  shows "\<exists>r p' L'. Alloc t nw p = Some (r, p') \<and> slab_inv p' L' \<and> sp_SLOT p' = sp_SLOT p \<and>
    (case r of None \<Rightarrow> L' PlOut = L PlOut \<and> exhausted nw p
     | Some x \<Rightarrow> L' PlOut = x # L PlOut \<and> x \<notin> set (L PlOut))"
proof -
  let ?p = "cache_sp t p"
  have i: "slab_mem p L" "L PlBatch = []" "live_ok p" "LiveCount p = int (length (L PlOut))" "sp_mem p = None \<longrightarrow> sp_extents p = []"
    "sp_registry p = Some (sp_gen p)"
    using assms(1) by (auto simp: slab_inv_def)
  note C = cache_sp_ok [OF i(1), of t]
  have fb: "fresh_block nw ?p" using assms(2) C by (cases nw) (simp_all add: fresh_block_def same_rest_def)
  have ex: "exhausted nw ?p \<longleftrightarrow> exhausted nw p" using C by (simp add: exhausted_def same_rest_def)
  obtain p1 L1 where 1: "(if c_head (sp_local ?p t) = None then refill t nw ?p else Some ?p) = Some p1" "slab_mem p1 L1" "L1 PlBatch = []"
      "L1 PlOut = L PlOut" "same_rest ?p p1" "c_gen (sp_local p1 t) = sp_gen ?p" "L1 (PlMag t) = [] \<longrightarrow> exhausted nw p"
      "sp_mem p = None \<longrightarrow> sp_extents p1 = sp_extents p"
  proof (cases "c_head (sp_local ?p t) = None")
    case True
    then show ?thesis using refill_ok [of ?p L t nw] C i(2) fb that ex by (auto simp: same_rest_def)
  next
    case False
    have "L (PlMag t) \<noteq> []" using magD [of ?p L t] C False by (auto simp: slab_mem_def)
    then show ?thesis using False C i(2) by (intro that [of ?p L]) (auto simp: same_rest_def)
  qed
  have s: "same_rest p p1" using C 1(5) same_rest_trans by blast
  have g: "c_gen (sp_local p1 t) = sp_gen p1" using 1(5,6) by (simp add: same_rest_def)
  have li: "lists_ok p1 L1" and pc: "pieces_ok L1 (reg_carved (sp_SLOT p1) (regions p1))" using 1(2) by (auto simp: slab_mem_def)
  have lv: "live_ok p1" "LiveCount p1 = int (length (L PlOut))" using i(3,4) same_live [OF s] by simp_all
  have rg: "sp_mem p1 = None \<longrightarrow> sp_extents p1 = []" "sp_registry p1 = Some (sp_gen p1)" using i(5,6) 1(8) s by (auto simp: same_rest_def)
  show ?thesis
  proof (cases "c_head (sp_local p1 t)")
    case None
    then have "Alloc t nw p = Some (None, p1)" using 1(1) by (simp add: Alloc_def Let_def)
    moreover have "L1 (PlMag t) = []" using magD [OF li g] None chain_None_iff by fastforce
    ultimately show ?thesis using 1 lv rg s by (auto simp: slab_inv_def same_rest_def intro!: exI [of _ L1])
  next
    case (Some x)
    let ?q = "p1\<lparr>sp_local := (sp_local p1)(t := (sp_local p1 t)\<lparr>c_head := sp_next p1 x, c_count := c_count (sp_local p1 t) - 1\<rparr>)\<rparr>"
    obtain M where M: "L1 (PlMag t) = x # M" "slab_mem ?q (L1(PlMag t := M, PlOut := x # L1 PlOut))" (is "slab_mem _ ?L")
      using mag_pop_ok [OF 1(2) g Some] by blast
    have a: "Alloc t nw p = Some (Some x, liveAdd t 1 ?q)" using 1(1) Some by (simp add: Alloc_def Let_def)
    have "same_rest p1 ?q" by (simp add: same_rest_def)
    then have lq: "live_ok ?q" "LiveCount ?q = int (length (L PlOut))" using lv same_live [of p1 ?q] by simp_all
    obtain m f l where u: "liveAdd t 1 ?q = ?q\<lparr>sp_liveNext := m, sp_liveRef := f, sp_live := l\<rparr>" using liveAdd_ok [OF lq(1)] by blast
    have "x \<in> set (L1 (PlMag t))" using M(1) by simp
    then have nx: "x \<notin> set (L PlOut)" using pieces_disj [OF pc, of "PlMag t" PlOut x] 1(4) by simp
    have "slab_mem (liveAdd t 1 ?q) ?L" using M(2) unfolding u by simp
    moreover have "sp_mem (liveAdd t 1 ?q) = sp_mem p1" "sp_extents (liveAdd t 1 ?q) = sp_extents p1"
      "sp_registry (liveAdd t 1 ?q) = sp_registry p1" "sp_gen (liveAdd t 1 ?q) = sp_gen p1" "sp_SLOT (liveAdd t 1 ?q) = sp_SLOT p1" unfolding u by simp_all
    ultimately have "slab_inv (liveAdd t 1 ?q) ?L" "sp_SLOT (liveAdd t 1 ?q) = sp_SLOT p"
      using liveAdd_ok [OF lq(1), of t 1] lq(2) rg 1(3,4) s by (simp_all add: slab_inv_def same_rest_def)
    then show ?thesis using a nx 1(4) by (intro exI [of _ "Some x"] exI [of _ "liveAdd t 1 ?q"] exI [of _ ?L]) simp
  qed
qed

lemma Free_ok:
  assumes "slab_inv p L" "x \<in> set (L PlOut)"
  shows "\<exists>p' L'. Free t x p = Some p' \<and> slab_inv p' L' \<and> sp_SLOT p' = sp_SLOT p \<and> L' PlOut = remove1 x (L PlOut) \<and>
    c_count (sp_local p' t) \<le> 2 * BATCH"
proof -
  let ?p = "cache_sp t p"
  have i: "slab_mem p L" "L PlBatch = []" "live_ok p" "LiveCount p = int (length (L PlOut))" "sp_mem p = None \<longrightarrow> sp_extents p = []"
    "sp_registry p = Some (sp_gen p)"
    using assms(1) by (auto simp: slab_inv_def)
  note C = cache_sp_ok [OF i(1), of t]
  let ?q = "?p\<lparr>sp_next := (sp_next ?p)(x := c_head (sp_local ?p t)),
      sp_local := (sp_local ?p)(t := (sp_local ?p t)\<lparr>c_head := Some x, c_count := c_count (sp_local ?p t) + 1\<rparr>)\<rparr>"
  let ?L = "L(PlOut := remove1 x (L PlOut), PlMag t := x # L (PlMag t))"
  have q: "slab_mem ?q ?L" using mag_push_ok [of ?p L t x] C assms(2) by blast
  have "same_rest p ?q" using C by (simp add: same_rest_def)
  then have lq: "live_ok ?q" "LiveCount ?q = int (length (L PlOut))" using i(3,4) same_live [of p ?q] by simp_all
  let ?r = "liveAdd t (- 1) ?q"
  obtain m f l where u: "?r = ?q\<lparr>sp_liveNext := m, sp_liveRef := f, sp_live := l\<rparr>" using liveAdd_ok [OF lq(1)] by blast
  have r: "slab_mem ?r ?L" using q unfolding u by simp
  have len: "int (length (remove1 x (L PlOut))) = int (length (L PlOut)) - 1"
  proof -
    have "length (remove1 x (L PlOut)) = length (L PlOut) - 1" using assms(2) by (simp add: length_remove1)
    then show ?thesis using length_pos_if_in_set [OF assms(2)] by linarith
  qed
  have lr: "live_ok ?r" "LiveCount ?r = int (length (?L PlOut))" using liveAdd_ok [OF lq(1), of t "- 1"] lq(2) len by simp_all
  have er: "sp_mem ?r = sp_mem p" "sp_extents ?r = sp_extents p" "sp_registry ?r = sp_registry p" "sp_gen ?r = sp_gen p" "sp_SLOT ?r = sp_SLOT p"
    "c_gen (sp_local ?r t) = sp_gen ?r"
    unfolding u using C by (simp_all add: same_rest_def)
  show ?thesis
  proof (cases "2 * BATCH < c_count (sp_local ?r t)")
    case False
    then have "Free t x p = Some ?r" by (simp add: Free_def Let_def)
    then show ?thesis using r lr er i(2,5,6) False by (intro exI [of _ ?r] exI [of _ ?L]) (simp add: slab_inv_def)
  next
    case True
    obtain p' L' where F: "flush t ?r = Some p'" "slab_mem p' L'" "L' PlOut = ?L PlOut" "L' PlBatch = ?L PlBatch" "same_rest ?r p'"
        "sp_extents p' = sp_extents ?r" "c_count (sp_local p' t) = min BATCH (c_count (sp_local ?r t))"
      using flush_ok [OF r er(6)] by blast
    then have "Free t x p = Some p'" using True by (simp add: Free_def Let_def)
    moreover have "live_ok p'" "LiveCount p' = int (length (L' PlOut))" using lr F(3) same_live [OF F(5)] by simp_all
    ultimately show ?thesis using F er i(2,5,6)
      by (intro exI [of _ p'] exI [of _ L']) (simp add: slab_inv_def same_rest_def BATCH_def)
  qed
qed

lemma Cache_exit_ok:
  assumes "slab_inv p L"
  shows "\<exists>p' L'. Cache_exit t p = Some p' \<and> slab_inv p' L' \<and> L' PlOut = L PlOut \<and> L' (PlMag t) = [] \<and>
    L' PlShared = L (PlMag t) @ L PlShared"
proof -
  have i: "slab_mem p L" "sp_registry p = Some (sp_gen p)" using assms by (auto simp: slab_inv_def)
  obtain p' L' where F: "Cache_exit t p = Some p'" "slab_mem p' L'" "L' PlOut = L PlOut" "L' PlBatch = L PlBatch" "same_rest p p'"
      "sp_extents p' = sp_extents p" "L' (PlMag t) = []" "L' PlShared = L (PlMag t) @ L PlShared"
    using Cache_exit_mem [OF i] by blast
  have "live_ok p'" "LiveCount p' = int (length (L' PlOut))" using assms F(3) same_live [OF F(5)] by (simp_all add: slab_inv_def)
  then show ?thesis using F assms by (intro exI [of _ p'] exI [of _ L']) (simp add: slab_inv_def same_rest_def)
qed

section \<open>Construction and prefault\<close>

lemma carve_tail_irrelevant:
  "carve S base i n (nx, bh, bt) = (nx', bh', bt') \<Longrightarrow> \<exists>y. carve S base i n (nx, bh, bt2) = (nx', bh', y)"
proof (induction n arbitrary: i nx bh bt bt2)
  case (Suc n)
  then show ?case by (simp add: Let_def) blast
qed simp

lemma Prefault_ok:
  assumes "slab_inv p L"
  shows "\<exists>L'. slab_inv (Prefault n p) L' \<and> L' PlOut = L PlOut \<and> sp_SLOT (Prefault n p) = sp_SLOT p"
proof (cases "sp_mem p")
  case None
  then show ?thesis using assms by (auto simp: Prefault_def)
next
  case (Some base)
  let ?n = "min n (sp_memSlots p - sp_bumpNext p)" and ?S = "sp_SLOT p"
  let ?new = "slots_of ?S base (sp_bumpNext p) ?n"
  have i: "slab_mem p L" using assms by (simp add: slab_inv_def)
  have ok: "reg_ok ?S (regions p)" and pc: "pieces_ok L (reg_carved ?S (regions p))" and li: "lists_ok p L"
    using i by (auto simp: slab_mem_def)
  have reg: "regions p = (base, sp_memSlots p, sp_bumpNext p) # map (\<lambda>e. (ex_mem e, ex_slots e, ex_bumpNext e)) (sp_extents p)"
    using Some by (simp add: regions_def)
  have le: "sp_bumpNext p \<le> sp_memSlots p" and S: "0 < ?S" using ok unfolding reg reg_ok_def by auto
  obtain nx sh z where c: "carve ?S base (sp_bumpNext p) ?n (sp_next p, sp_sharedHead p, None) = (nx, sh, z)"
    by (cases "carve ?S base (sp_bumpNext p) ?n (sp_next p, sp_sharedHead p, None)")
  let ?p = "p\<lparr>sp_next := nx, sp_sharedHead := sh, sp_bumpNext := sp_bumpNext p + ?n\<rparr>"
  have e: "Prefault n p = ?p" using Some c by (simp add: Prefault_def Let_def)
  have R: "reg_ok ?S (regions ?p)" "reg_carved ?S (regions ?p) = reg_carved ?S (regions p) \<union> set ?new" "set ?new \<inter> reg_carved ?S (regions p) = {}"
  proof -
    have le2: "sp_bumpNext p + ?n \<le> sp_memSlots p" using le by linarith
    have z: "0 < length (regions p)" "regions p ! 0 = (base, sp_memSlots p, sp_bumpNext p)"
      "regions ?p = (regions p)[0 := (base, sp_memSlots p, sp_bumpNext p + ?n)]" using reg Some by (simp_all add: regions_def)
    show "reg_ok ?S (regions ?p)" "reg_carved ?S (regions ?p) = reg_carved ?S (regions p) \<union> set ?new" "set ?new \<inter> reg_carved ?S (regions p) = {}"
      unfolding z(3) by (rule reg_carve [OF ok z(1,2) le2])+
  qed
  have fr: "set ?new \<inter> set (L a) = {}" for a using pc R(3) by (auto simp: pieces_ok_def)
  obtain y where y: "carve ?S base (sp_bumpNext p) ?n (sp_next p, sp_sharedHead p, Some (last (L PlShared))) = (nx, sh, y)"
    using carve_tail_irrelevant [OF c] by blast
  have ch: "chain (sp_next p) (sp_sharedHead p) (L PlShared) None" using li by (simp add: lists_ok_def)
  have C: "chain nx sh (rev ?new @ L PlShared) None" "\<forall>y. y \<notin> set ?new \<longrightarrow> nx y = sp_next p y"
    using carve_spec [OF y S ch fr] by simp_all
  let ?L = "L(PlShared := rev ?new @ L PlShared)"
  have "pieces_ok ?L (reg_carved ?S (regions ?p))" using pieces_add [OF pc, of "rev ?new" PlShared] R(2,3) slots_of_distinct [OF S] by simp
  moreover have "chain nx h (L (PlMag t)) None" if "chain (sp_next p) h (L (PlMag t)) None" for h t
    by (rule chain_frame [OF that C(2)]) (use fr [of "PlMag t"] in blast)
  then have "lists_ok ?p ?L" using li C(1) by (auto simp: lists_ok_def)
  ultimately have "slab_mem ?p ?L" using R(1) by (simp add: slab_mem_def)
  moreover have "live_ok ?p" "LiveCount ?p = LiveCount p" using same_live [of p ?p] assms by (simp_all add: same_rest_def slab_inv_def)
  ultimately have "slab_inv ?p ?L" using assms by (simp add: slab_inv_def)
  then show ?thesis unfolding e by (intro exI [of _ ?L]) simp
qed

lemma new_SlabPool_ok:
  assumes "new_SlabPool slots lazy base p = Some p'" "0 < sp_SLOT p" "\<forall>t. c_gen (sp_local p t) \<noteq> sp_Generation p + 1"
    "live_ok p"
  shows "\<exists>L. slab_inv p' L \<and> L PlOut = [] \<and> sp_SLOT p' = sp_SLOT p"
proof -
  let ?g = "sp_Generation p + 1"
  let ?p = "p\<lparr>sp_mem := (if slots = 0 then None else Some base), sp_memSlots := slots, sp_extents := [],
                  sp_grewOnce := False, sp_bumpNext := 0, sp_sharedHead := None, sp_gen := ?g,
                  sp_live := replicate kLiveSlots \<lparr>lc_v = 0, lc_peak = 0\<rparr>, sp_Generation := ?g,
                  sp_registry := Some ?g, sp_LiveInstances := sp_LiveInstances p + 1\<rparr>"
  have e: "p' = (if lazy then ?p else Prefault slots ?p)" using assms(1) by (simp add: new_SlabPool_def Let_def split: if_splits)
  have "reg_carved (sp_SLOT p) (regions ?p) = {}" "reg_ok (sp_SLOT p) (regions ?p)"
    using assms(2) by (auto simp: regions_def reg_carved_def reg_ok_def reg_slots_def slots_of_def)
  then have "slab_mem ?p (\<lambda>_. [])" using assms(3) by (simp add: slab_mem_def pieces_ok_def lists_ok_def)
  moreover have "LiveCount ?p = 0" by (simp add: LiveCount_def kLiveSlots_def sum_list_replicate)
  moreover have "live_ok ?p" using assms(4) by (simp add: live_ok_def)
  ultimately have i: "slab_inv ?p (\<lambda>_. [])" by (simp add: slab_inv_def)
  show ?thesis
  proof (cases lazy)
    case True
    then show ?thesis using i e by (intro exI [of _ "\<lambda>_. []"]) simp
  next
    case False
    then have p': "p' = Prefault slots ?p" using e by simp
    obtain L' where "slab_inv (Prefault slots ?p) L'" "L' PlOut = []" "sp_SLOT (Prefault slots ?p) = sp_SLOT p"
      using Prefault_ok [OF i, of slots] by auto
    then show ?thesis unfolding p' by blast
  qed
qed

text \<open>The ownership test finds every carved slot.\<close>

lemma reg_ok_tl:
  assumes "reg_ok S (r # rs)"
  shows "reg_ok S rs"
proof -
  note A = assms [unfolded reg_ok_def]
  have "snd (snd (rs ! i)) \<le> fst (snd (rs ! i))" if "i < length rs" for i
    using A [THEN conjunct2, THEN conjunct1, rule_format, of "Suc i"] that by simp
  moreover have "reg_disj S (rs ! i) (rs ! j)" if "i < length rs" "j < length rs" "i \<noteq> j" for i j
    using A [THEN conjunct2, THEN conjunct2, rule_format, of "Suc i" "Suc j"] that by simp
  ultimately show ?thesis using A by (simp add: reg_ok_def)
qed

lemma slot_in_extents_spec:
  assumes "reg_ok S (map (\<lambda>e. (ex_mem e, ex_slots e, ex_bumpNext e)) es)" "i < length es"
    "in_block S (ex_mem (es ! i)) (ex_slots (es ! i)) x" "(x - ex_mem (es ! i)) mod S = 0"
  shows "slot_in_extents S es x"
  using assms
proof (induction es arbitrary: i)
  case (Cons e es)
  let ?f = "\<lambda>e. (ex_mem e, ex_slots e, ex_bumpNext e)"
  have dj: "reg_disj S (map ?f (e # es) ! j) (map ?f (e # es) ! l)" if "j < length (e # es)" "l < length (e # es)" "j \<noteq> l" for j l
    using Cons.prems(1) that unfolding reg_ok_def length_map by blast
  show ?case
  proof (cases i)
    case 0
    then show ?thesis using Cons.prems by simp
  next
    case (Suc k)
    have "\<not> in_block S (ex_mem e) (ex_slots e) x"
      using reg_disj_no_share [OF dj [of i 0], of x] Cons.prems(2,3) Suc by auto
    moreover have "reg_ok S (map ?f es)" using Cons.prems(1) reg_ok_tl by simp
    ultimately show ?thesis using Cons.IH [of k] Cons.prems Suc by simp
  qed
qed simp

lemma SlotInSlab_carved:
  assumes "reg_ok (sp_SLOT p) (regions p)" "x \<in> reg_carved (sp_SLOT p) (regions p)"
  shows "SlotInSlab p x"
proof -
  let ?S = "sp_SLOT p"
  let ?f = "\<lambda>e. (ex_mem e, ex_slots e, ex_bumpNext e)"
  obtain i where i: "i < length (regions p)" "x \<in> reg_slots ?S (regions p ! i)" using assms(2) by (auto simp: reg_carved_def)
  note B = reg_slots_in_block [OF assms(1) i]
  show ?thesis
  proof (cases "sp_mem p")
    case None
    then have "regions p = map ?f (sp_extents p)" by (simp add: regions_def)
    then show ?thesis using slot_in_extents_spec [of ?S "sp_extents p" i x] assms(1) i(1) B None by (simp add: SlotInSlab_def)
  next
    case (Some base)
    then have r: "regions p = (base, sp_memSlots p, sp_bumpNext p) # map ?f (sp_extents p)" by (simp add: regions_def)
    show ?thesis
    proof (cases i)
      case 0
      then show ?thesis using B r Some by (simp add: SlotInSlab_def)
    next
      case (Suc k)
      have "reg_disj ?S (regions p ! i) (regions p ! 0)" using assms(1) i(1) Suc unfolding reg_ok_def by (metis nat.distinct(1) zero_less_Suc less_trans)
      then have "\<not> in_block ?S base (sp_memSlots p) x" using reg_disj_no_share [of ?S "regions p ! i" "regions p ! 0" x] B r by simp
      moreover have "slot_in_extents ?S (sp_extents p) x"
        using slot_in_extents_spec [of ?S "sp_extents p" k x] reg_ok_tl [of ?S _ "map ?f (sp_extents p)"] assms(1) i(1) B r Suc by simp
      ultimately show ?thesis using Some by (simp add: SlotInSlab_def)
    qed
  qed
qed

lemma SlotInSlab_out: "slab_inv p L \<Longrightarrow> x \<in> set (L a) \<Longrightarrow> SlotInSlab p x"
  using SlotInSlab_carved [of p x] unfolding slab_inv_def slab_mem_def pieces_ok_def by blast

section \<open>Any sequence of calls by any threads\<close>

text \<open>The state of a run is the pool and the slots handed out and not yet freed. A caller frees only what it was
  given; memory from \<open>new\<close> overlaps none of the pool's blocks.\<close>

inductive slab_step :: "SlabPool \<times> nat list \<Rightarrow> SlabPool \<times> nat list \<Rightarrow> bool" where
  sa_alloc: "fresh_block nw p \<Longrightarrow> Alloc t nw p = Some (Some x, p') \<Longrightarrow> slab_step (p, out) (p', x # out)"
| sa_fail: "fresh_block nw p \<Longrightarrow> Alloc t nw p = Some (None, p') \<Longrightarrow> slab_step (p, out) (p', out)"
| sa_free: "x \<in> set out \<Longrightarrow> Free t x p = Some p' \<Longrightarrow> slab_step (p, out) (p', remove1 x out)"
| sa_exit: "Cache_exit t p = Some p' \<Longrightarrow> slab_step (p, out) (p', out)"
| sa_prefault: "slab_step (p, out) (Prefault n p, out)"

definition run_ok :: "SlabPool \<times> nat list \<Rightarrow> bool" where
  "run_ok s \<longleftrightarrow> (\<exists>L. slab_inv (fst s) L \<and> L PlOut = snd s)"

interpretation slab_runs: transition_system slab_step run_ok
proof
  fix s s' :: "SlabPool \<times> nat list"
  assume "run_ok s" "slab_step s s'"
  from this(2,1) show "run_ok s'"
  proof (induction rule: slab_step.induct)
    case (sa_alloc nw p t x p' out)
    then show ?case using Alloc_ok [of p _ nw t] by (fastforce simp: run_ok_def)
  next
    case (sa_fail nw p t p' out)
    then show ?case using Alloc_ok [of p _ nw t] by (fastforce simp: run_ok_def)
  next
    case (sa_free x out t p p')
    then show ?case using Free_ok [of p _ x t] by (fastforce simp: run_ok_def)
  next
    case (sa_exit t p p' out)
    then show ?case using Cache_exit_ok [of p _ t] by (fastforce simp: run_ok_def)
  next
    case (sa_prefault p out n)
    then show ?case using Prefault_ok [of p _ n] by (fastforce simp: run_ok_def)
  qed
qed

text \<open>A program's first state for one size class: nothing constructed yet.\<close>

definition slab_statics :: "nat \<Rightarrow> SlabPool" where
  "slab_statics S = \<lparr>sp_SLOT = S, sp_next = (\<lambda>_. None), sp_mem = None, sp_memSlots = 0, sp_extents = [], sp_grewOnce = False,
     sp_bumpNext = 0, sp_sharedHead = None, sp_gen = 0, sp_local = (\<lambda>_. \<lparr>c_head = None, c_count = 0, c_gen = 0\<rparr>),
     sp_live = replicate kLiveSlots \<lparr>lc_v = 0, lc_peak = 0\<rparr>, sp_liveNext = 0, sp_liveRef = (\<lambda>_. None), sp_registry = None,
     sp_Generation = 0, sp_LiveInstances = 0, sp_growthEnabled = True\<rparr>"

lemma new_run_ok:
  assumes "new_SlabPool slots lazy base (slab_statics S) = Some p" "0 < S"
  shows "run_ok (p, [])"
  using new_SlabPool_ok [OF assms(1)] assms(2) by (auto simp: run_ok_def slab_statics_def live_ok_def)

text \<open>(C9) Every slot has one holder: after any sequence of allocations, frees, thread exits and prefaults by any
  threads the slots handed out are pairwise different and each passes the slab's ownership test, the live count is
  how many there are, and the next \<open>Alloc\<close> on any thread follows no null link: it returns a slot that is not
  handed out, or fails because its magazine, the shared list, the slab and every extent are used up.\<close>

theorem slab_slots_have_one_holder:
  assumes "new_SlabPool slots lazy base (slab_statics S) = Some p0" "0 < S" "reach slab_step (p0, []) (p, out)"
    "fresh_block nw p"
  shows "distinct out \<and> (\<forall>x \<in> set out. SlotInSlab p x) \<and> LiveCount p = int (length out) \<and>
    (\<exists>r p'. Alloc t nw p = Some (r, p') \<and> LiveCount p' = LiveCount p + (if r = None then 0 else 1) \<and>
      (case r of Some x \<Rightarrow> x \<notin> set out \<and> SlotInSlab p' x | None \<Rightarrow> exhausted nw p))"
proof -
  obtain L where L: "slab_inv p L" "L PlOut = out"
    using slab_runs.reach_inv [OF assms(3) new_run_ok [OF assms(1,2)]] by (auto simp: run_ok_def)
  obtain r p' L' where A: "Alloc t nw p = Some (r, p')" "slab_inv p' L'"
      "case r of None \<Rightarrow> L' PlOut = L PlOut \<and> exhausted nw p | Some x \<Rightarrow> L' PlOut = x # L PlOut \<and> x \<notin> set (L PlOut)"
    using Alloc_ok [OF L(1) assms(4), of t] by metis
  have d: "distinct out" "LiveCount p = int (length out)" "LiveCount p' = int (length (L' PlOut))" using L A(2) by (auto simp: slab_inv_def slab_mem_def pieces_ok_def)
  moreover have "\<forall>x \<in> set out. SlotInSlab p x" using SlotInSlab_out [OF L(1), of _ PlOut] L(2) by simp
  moreover have "case r of Some x \<Rightarrow> x \<notin> set out \<and> SlotInSlab p' x | None \<Rightarrow> exhausted nw p"
    using A(3) L(2) SlotInSlab_out [OF A(2), of _ PlOut] by (auto split: option.splits)
  moreover have "LiveCount p' = LiveCount p + (if r = None then 0 else 1)"
    using A(3) L(2) d by (auto split: option.splits)
  ultimately show ?thesis using A(1) by blast
qed

theorem slab_slots_have_one_holder_witness:
  "\<exists>p0 p x. new_SlabPool 2 True 1000 (slab_statics 64) = Some p0 \<and> Alloc 0 None p0 = Some (Some x, p) \<and>
     SlotInSlab p x \<and> LiveCount p = 1"
proof -
  obtain p0 where p0: "new_SlabPool 2 True 1000 (slab_statics 64) = Some p0" "sp_mem p0 = Some 1000" "sp_memSlots p0 = 2" "sp_bumpNext p0 = 0"
    by (simp add: new_SlabPool_def slab_statics_def Let_def)
  have "fresh_block None p0" "\<not> exhausted None p0" using p0 by (simp_all add: fresh_block_def exhausted_def)
  then obtain r p where a: "Alloc 0 None p0 = Some (r, p)" "LiveCount p = LiveCount p0 + (if r = None then 0 else 1)" "LiveCount p0 = 0"
      "case r of Some x \<Rightarrow> x \<notin> set [] \<and> SlotInSlab p x | None \<Rightarrow> False"
    using slab_slots_have_one_holder [OF p0(1) _ reach.reach_init, of None 0] by (auto split: option.splits)
  then obtain x where "r = Some x" by (cases r) auto
  then show ?thesis using a p0(1) by auto
qed

text \<open>A thread's magazine never holds more than two batches after a free, and a thread that exits leaves none of
  its slots behind: what it cached is on the shared list afterwards, in the same order, before what was there.\<close>

theorem magazines_are_bounded_and_come_home:
  assumes "slab_inv p L"
  shows "(\<forall>x \<in> set (L PlOut). \<exists>p'. Free t x p = Some p' \<and> c_count (sp_local p' t) \<le> 64) \<and>
    (\<exists>p' L'. Cache_exit t p = Some p' \<and> slab_inv p' L' \<and> L' (PlMag t) = [] \<and> L' PlShared = L (PlMag t) @ L PlShared \<and>
      L' PlOut = L PlOut)"
proof -
  have "\<exists>p'. Free t x p = Some p' \<and> c_count (sp_local p' t) \<le> 64" if "x \<in> set (L PlOut)" for x
    using Free_ok [OF assms that, of t] by (auto simp: BATCH_def)
  then show ?thesis using Cache_exit_ok [OF assms, of t] by blast
qed

theorem magazines_are_bounded_and_come_home_witness:
  "\<exists>p L p'. new_SlabPool 2 False 1000 (slab_statics 64) = Some p \<and> slab_inv p L \<and> Cache_exit 3 p = Some p'"
proof -
  obtain p where p: "new_SlabPool 2 False 1000 (slab_statics 64) = Some p"
    by (simp add: new_SlabPool_def slab_statics_def Let_def)
  obtain L where L: "slab_inv p L" using new_run_ok [OF p] by (auto simp: run_ok_def)
  show ?thesis using p L magazines_are_bounded_and_come_home [OF L, of 3] by blast
qed

end
