(* ===== verification/TaskAllocators.thy ===== *)
theory TaskAllocators
  imports SlabOwnership
begin

text \<open>
  The task allocator (\<^verbatim>\<open>include/TaskAllocator.h\<close>): five slab pools of fixed slot sizes, allocation from the smallest class that
  fits with fall-through to the next when a class is exhausted, and freeing by asking each class whether the
  address is one of its slots. Memory a pool obtains when it grows is an argument per class.
\<close>

section \<open>State and operations\<close>

definition SLOT :: nat where [simp]: "SLOT = 256"
definition MID_SLOT :: nat where [simp]: "MID_SLOT = 128"
definition SLOT80 :: nat where [simp]: "SLOT80 = 80"
definition SMALL_SLOT :: nat where [simp]: "SMALL_SLOT = 64"
definition LARGE_SLOT :: nat where [simp]: "LARGE_SLOT = 512"

record TaskAllocator =
  pool512 :: SlabPool
  pool256 :: SlabPool
  pool128 :: SlabPool
  pool80 :: SlabPool
  pool64 :: SlabPool

text \<open>The pool of a class and its replacement, by slot size; the ladders of the methods run over the classes from
  small to large.\<close>

definition size_classes :: "nat list" where
  "size_classes = [SMALL_SLOT, SLOT80, MID_SLOT, SLOT, LARGE_SLOT]"

definition pool_of :: "nat \<Rightarrow> TaskAllocator \<Rightarrow> SlabPool" where
  "pool_of k a = (if k = SMALL_SLOT then pool64 a else if k = SLOT80 then pool80 a else if k = MID_SLOT then pool128 a
     else if k = SLOT then pool256 a else pool512 a)"

definition put_pool :: "nat \<Rightarrow> SlabPool \<Rightarrow> TaskAllocator \<Rightarrow> TaskAllocator" where
  "put_pool k p a = (if k = SMALL_SLOT then a\<lparr>pool64 := p\<rparr> else if k = SLOT80 then a\<lparr>pool80 := p\<rparr> else if k = MID_SLOT then a\<lparr>pool128 := p\<rparr>
     else if k = SLOT then a\<lparr>pool256 := p\<rparr> else a\<lparr>pool512 := p\<rparr>)"

fun alloc_ladder :: "nat \<Rightarrow> (nat \<Rightarrow> ptr) \<Rightarrow> nat \<Rightarrow> nat list \<Rightarrow> TaskAllocator \<Rightarrow> (ptr \<times> TaskAllocator) option" where
  "alloc_ladder t nw n [] a = Some (None, a)"
| "alloc_ladder t nw n (k # ks) a =
    (if n \<le> k then
       (case Alloc t (nw k) (pool_of k a) of
          None \<Rightarrow> None
        | Some (Some x, p) \<Rightarrow> Some (Some x, put_pool k p a)
        | Some (None, p) \<Rightarrow> alloc_ladder t nw n ks (put_pool k p a))
     else alloc_ladder t nw n ks a)"

definition AllocSized :: "nat \<Rightarrow> (nat \<Rightarrow> ptr) \<Rightarrow> nat \<Rightarrow> TaskAllocator \<Rightarrow> (ptr \<times> TaskAllocator) option" where
  "AllocSized t nw n a = alloc_ladder t nw n size_classes a"

fun free_ladder :: "nat \<Rightarrow> nat \<Rightarrow> nat list \<Rightarrow> TaskAllocator \<Rightarrow> (bool \<times> TaskAllocator) option" where
  "free_ladder t x [] a = Some (False, a)"
| "free_ladder t x (k # ks) a =
    (if SlotInSlab (pool_of k a) x then map_option (\<lambda>p. (True, put_pool k p a)) (Free t x (pool_of k a))
     else free_ladder t x ks a)"

definition FreeSized :: "nat \<Rightarrow> nat \<Rightarrow> TaskAllocator \<Rightarrow> (bool \<times> TaskAllocator) option" where
  "FreeSized t x a = free_ladder t x size_classes a"

definition OwnsSized :: "nat \<Rightarrow> TaskAllocator \<Rightarrow> bool" where
  "OwnsSized x a \<longleftrightarrow> SlotInSlab (pool64 a) x \<or> SlotInSlab (pool80 a) x \<or> SlotInSlab (pool128 a) x \<or> SlotInSlab (pool256 a) x \<or> SlotInSlab (pool512 a) x"

definition ta_Alloc :: "nat \<Rightarrow> ptr \<Rightarrow> TaskAllocator \<Rightarrow> (ptr \<times> TaskAllocator) option" where
  "ta_Alloc t nw a = map_option (\<lambda>(r, p). (r, a\<lparr>pool256 := p\<rparr>)) (Alloc t nw (pool256 a))"

text \<open>\<open>Free\<close> also says whether the address went to \<open>operator delete\<close>.\<close>

definition ta_Free :: "nat \<Rightarrow> nat \<Rightarrow> TaskAllocator \<Rightarrow> (bool \<times> TaskAllocator) option" where
  "ta_Free t x a = map_option (\<lambda>(f, a'). (\<not> f, a')) (FreeSized t x a)"

definition ta_SlotInSlab :: "nat \<Rightarrow> TaskAllocator \<Rightarrow> bool" where "ta_SlotInSlab x a = SlotInSlab (pool256 a) x"
definition ta_LiveCount :: "TaskAllocator \<Rightarrow> int" where "ta_LiveCount a = LiveCount (pool256 a)"

definition ta_Capacity :: "TaskAllocator \<Rightarrow> nat" where
  "ta_Capacity a = Capacity (pool256 a) + Capacity (pool128 a) + Capacity (pool80 a) + Capacity (pool64 a) + Capacity (pool512 a)"

definition BigCapacity :: "TaskAllocator \<Rightarrow> nat" where "BigCapacity a = Capacity (pool256 a)"
definition ta_Prefault :: "nat \<Rightarrow> TaskAllocator \<Rightarrow> TaskAllocator" where
  "ta_Prefault n a = a\<lparr>pool256 := Prefault n (pool256 a)\<rparr>"

definition SmallLiveCount :: "TaskAllocator \<Rightarrow> int" where "SmallLiveCount a = LiveCount (pool64 a)"
definition SmallCapacity :: "TaskAllocator \<Rightarrow> nat" where "SmallCapacity a = Capacity (pool64 a)"
definition MidLiveCount :: "TaskAllocator \<Rightarrow> int" where "MidLiveCount a = LiveCount (pool128 a)"
definition Slot80LiveCount :: "TaskAllocator \<Rightarrow> int" where "Slot80LiveCount a = LiveCount (pool80 a)"
definition Slot80Capacity :: "TaskAllocator \<Rightarrow> nat" where "Slot80Capacity a = Capacity (pool80 a)"
definition MidCapacity :: "TaskAllocator \<Rightarrow> nat" where "MidCapacity a = Capacity (pool128 a)"

record ClassUsage =
  slotBytes :: nat
  capacity :: nat
  resident :: nat
  peakLive :: int
  live :: int
  extents :: nat

record Usage =
  c64 :: ClassUsage
  c80 :: ClassUsage
  c128 :: ClassUsage
  c256 :: ClassUsage
  c512 :: ClassUsage

definition class_usage :: "nat \<Rightarrow> SlabPool \<Rightarrow> ClassUsage" where
  "class_usage k p = \<lparr>slotBytes = k, capacity = Capacity p, resident = HighWaterSlots p, peakLive = PeakLive p, live = LiveCount p,
     extents = ExtentCount p\<rparr>"

definition UsageProfile :: "TaskAllocator \<Rightarrow> Usage" where
  "UsageProfile a = \<lparr>c64 = class_usage 64 (pool64 a), c80 = class_usage 80 (pool80 a), c128 = class_usage 128 (pool128 a),
     c256 = class_usage 256 (pool256 a), c512 = class_usage 512 (pool512 a)\<rparr>"

definition ta_HighWaterBytes :: "TaskAllocator \<Rightarrow> nat" where
  "ta_HighWaterBytes a = HighWaterBytes (pool64 a) + HighWaterBytes (pool80 a) + HighWaterBytes (pool128 a) + HighWaterBytes (pool256 a) +
     HighWaterBytes (pool512 a)"

text \<open>The constructors; the argument \<open>mem\<close> has the base address each class's slab gets from \<open>new\<close>, the argument
  \<open>st\<close> the statics each size class has before.\<close>

definition new_TaskAllocator ::
  "nat \<Rightarrow> nat \<Rightarrow> nat \<Rightarrow> nat \<Rightarrow> nat \<Rightarrow> bool \<Rightarrow> (nat \<Rightarrow> nat) \<Rightarrow> (nat \<Rightarrow> SlabPool) \<Rightarrow> TaskAllocator option" where
  "new_TaskAllocator bigSlots midSlots slots80 smallSlots largeSlots lazy mem st =
    (case new_SlabPool largeSlots lazy (mem 512) (st 512) of None \<Rightarrow> None | Some p512 \<Rightarrow>
     case new_SlabPool bigSlots lazy (mem 256) (st 256) of None \<Rightarrow> None | Some p256 \<Rightarrow>
     case new_SlabPool midSlots lazy (mem 128) (st 128) of None \<Rightarrow> None | Some p128 \<Rightarrow>
     case new_SlabPool slots80 lazy (mem 80) (st 80) of None \<Rightarrow> None | Some p80 \<Rightarrow>
     case new_SlabPool smallSlots lazy (mem 64) (st 64) of None \<Rightarrow> None | Some p64 \<Rightarrow>
       Some \<lparr>pool512 = p512, pool256 = p256, pool128 = p128, pool80 = p80, pool64 = p64\<rparr>)"

definition new_TaskAllocator_slots :: "nat \<Rightarrow> bool \<Rightarrow> (nat \<Rightarrow> nat) \<Rightarrow> (nat \<Rightarrow> SlabPool) \<Rightarrow> TaskAllocator option" where
  "new_TaskAllocator_slots slots lazy mem st =
    new_TaskAllocator slots (slots div 8) (slots div 8) (slots div 8) (slots div 8) lazy mem st"

section \<open>Invariant and correctness\<close>

text \<open>Each class keeps the slab invariant, with the slots it has handed out in \<open>H k PlOut\<close>.\<close>

definition ta_inv :: "TaskAllocator \<Rightarrow> (nat \<Rightarrow> place \<Rightarrow> nat list) \<Rightarrow> bool" where
  [inv_defs]: "ta_inv a H \<longleftrightarrow> (\<forall>k \<in> set size_classes. slab_inv (pool_of k a) (H k) \<and> sp_SLOT (pool_of k a) = k)"

lemma pool_put [simp]: "k \<in> set size_classes \<Longrightarrow> j \<in> set size_classes \<Longrightarrow> pool_of j (put_pool k p a) = (if j = k then p else pool_of j a)"
  by (auto simp: pool_of_def put_pool_def size_classes_def)

text \<open>What an allocation over the classes \<open>ks\<close> may give.\<close>

definition alloc_result ::
  "(nat \<Rightarrow> ptr) \<Rightarrow> nat \<Rightarrow> nat list \<Rightarrow> TaskAllocator \<Rightarrow> (nat \<Rightarrow> place \<Rightarrow> nat list) \<Rightarrow> ptr \<Rightarrow> TaskAllocator \<Rightarrow> (nat \<Rightarrow> place \<Rightarrow> nat list) \<Rightarrow> bool" where
  "alloc_result nw n ks a H r a' H' \<longleftrightarrow>
    (case r of
       None \<Rightarrow> (\<forall>k \<in> set size_classes. H' k PlOut = H k PlOut) \<and> (\<forall>k \<in> set ks. n \<le> k \<longrightarrow> exhausted (nw k) (pool_of k a))
     | Some x \<Rightarrow> (\<exists>k \<in> set ks. n \<le> k \<and> H' k PlOut = x # H k PlOut \<and> x \<notin> set (H k PlOut) \<and> SlotInSlab (pool_of k a') x \<and>
         (\<forall>j \<in> set size_classes. j \<noteq> k \<longrightarrow> H' j PlOut = H j PlOut)))"

lemma alloc_result_skip:
  "alloc_result nw n ks a H r a' H' \<Longrightarrow> \<not> n \<le> k \<Longrightarrow> alloc_result nw n (k # ks) a H r a' H'"
  by (cases r) (auto simp: alloc_result_def)

lemma alloc_result_fall:
  assumes "alloc_result nw n ks (put_pool k p a) (H(k := L)) r a' H'" "L PlOut = H k PlOut" "exhausted (nw k) (pool_of k a)"
    "k \<in> set size_classes" "k \<notin> set ks" "set ks \<subseteq> set size_classes"
  shows "alloc_result nw n (k # ks) a H r a' H'"
proof (cases r)
  case None
  have "pool_of j (put_pool k p a) = pool_of j a" if "j \<in> set ks" for j using that assms(4-6) by auto
  then show ?thesis using assms(1-4) None by (auto simp: alloc_result_def split: if_splits)
next
  case (Some x)
  then obtain j where j: "j \<in> set ks" "n \<le> j" "H' j PlOut = x # (H(k := L)) j PlOut" "x \<notin> set ((H(k := L)) j PlOut)"
      "SlotInSlab (pool_of j a') x" "\<forall>i \<in> set size_classes. i \<noteq> j \<longrightarrow> H' i PlOut = (H(k := L)) i PlOut"
    using assms(1) by (auto simp: alloc_result_def)
  then have "j \<noteq> k" using assms(5) by auto
  then show ?thesis using j assms(2) Some by (auto simp: alloc_result_def)
qed

lemma alloc_ladder_ok:
  assumes "ta_inv a H" "\<forall>k \<in> set ks. fresh_block (nw k) (pool_of k a)" "set ks \<subseteq> set size_classes" "distinct ks"
  shows "\<exists>r a' H'. alloc_ladder t nw n ks a = Some (r, a') \<and> ta_inv a' H' \<and> alloc_result nw n ks a H r a' H'"
  using assms
proof (induction ks arbitrary: a H)
  case Nil
  then show ?case by (intro exI [of _ None] exI [of _ a] exI [of _ H]) (simp add: alloc_result_def)
next
  case (Cons k ks)
  have k: "k \<in> set size_classes" "k \<notin> set ks" and e: "set ks \<subseteq> set size_classes" "distinct ks" using Cons.prems(3,4) by auto
  show ?case
  proof (cases "n \<le> k")
    case False
    have "\<forall>k \<in> set ks. fresh_block (nw k) (pool_of k a)" using Cons.prems(2) by simp
    then obtain r a' H' where "alloc_ladder t nw n ks a = Some (r, a')" "ta_inv a' H'" "alloc_result nw n ks a H r a' H'"
      using Cons.IH [OF Cons.prems(1) _ e] by blast
    then show ?thesis using alloc_result_skip [OF _ False] False by (intro exI [of _ r] exI [of _ a'] exI [of _ H']) simp
  next
    case True
    have s: "slab_inv (pool_of k a) (H k)" "sp_SLOT (pool_of k a) = k" using Cons.prems(1) k(1) by (auto simp: ta_inv_def)
    have fb: "fresh_block (nw k) (pool_of k a)" using Cons.prems(2) by simp
    obtain r p L where A: "Alloc t (nw k) (pool_of k a) = Some (r, p)" "slab_inv p L" "sp_SLOT p = k"
        "case r of None \<Rightarrow> L PlOut = H k PlOut \<and> exhausted (nw k) (pool_of k a) | Some x \<Rightarrow> L PlOut = x # H k PlOut \<and> x \<notin> set (H k PlOut)"
      using Alloc_ok [OF s(1) fb, of t] unfolding s(2) by blast
    have i: "ta_inv (put_pool k p a) (H(k := L))" using Cons.prems(1) A(2,3) k(1) by (auto simp: ta_inv_def)
    show ?thesis
    proof (cases r)
      case (Some x)
      have "SlotInSlab p x" using SlotInSlab_out [OF A(2), of x PlOut] A(4) Some by simp
      then have "alloc_result nw n (k # ks) a H (Some x) (put_pool k p a) (H(k := L))"
        using A(4) Some True k(1) by (simp add: alloc_result_def)
      then show ?thesis using A(1) i Some True by auto
    next
      case None
      have "fresh_block (nw j) (pool_of j (put_pool k p a))" if "j \<in> set ks" for j
        using Cons.prems(2) that k e(1) by auto
      then obtain r' a' H' where B: "alloc_ladder t nw n ks (put_pool k p a) = Some (r', a')" "ta_inv a' H'"
          "alloc_result nw n ks (put_pool k p a) (H(k := L)) r' a' H'"
        using Cons.IH [OF i _ e] by blast
      have "alloc_result nw n (k # ks) a H r' a' H'" using alloc_result_fall [OF B(3)] A(4) None k e(1) by simp
      then show ?thesis using A(1) B None True by auto
    qed
  qed
qed

lemma free_ladder_ok:
  assumes "ta_inv a H" "k \<in> set ks" "set ks \<subseteq> set size_classes" "x \<in> set (H k PlOut)"
    "\<forall>j \<in> set size_classes. j \<noteq> k \<longrightarrow> \<not> SlotInSlab (pool_of j a) x"
  shows "\<exists>a' L. free_ladder t x ks a = Some (True, a') \<and> ta_inv a' (H(k := L)) \<and> L PlOut = remove1 x (H k PlOut)"
  using assms(2,3)
proof (induction ks)
  case (Cons j ks)
  show ?case
  proof (cases "j = k")
    case False
    then have "\<not> SlotInSlab (pool_of j a) x" using assms(5) Cons.prems(2) by simp
    then show ?thesis using Cons.IH Cons.prems False by auto
  next
    case True
    then have k: "k \<in> set size_classes" using Cons.prems(2) by simp
    have s: "slab_inv (pool_of k a) (H k)" "sp_SLOT (pool_of k a) = k" using assms(1) k by (auto simp: ta_inv_def)
    obtain p L where F: "Free t x (pool_of k a) = Some p" "slab_inv p L" "sp_SLOT p = k" "L PlOut = remove1 x (H k PlOut)"
      using Free_ok [OF s(1) assms(4), of t] s(2) by auto
    have "ta_inv (put_pool k p a) (H(k := L))" using assms(1) F(2,3) k by (auto simp: ta_inv_def)
    moreover have "free_ladder t x (j # ks) a = Some (True, put_pool k p a)" using F(1) SlotInSlab_out [OF s(1) assms(4)] True by simp
    ultimately show ?thesis using F(4) by blast
  qed
qed simp

lemma new_TaskAllocator_ok:
  assumes "new_TaskAllocator b m e s l lazy mem slab_statics = Some a"
  shows "\<exists>H. ta_inv a H \<and> (\<forall>k. H k PlOut = [])"
proof -
  have new: "\<exists>L. slab_inv p L \<and> L PlOut = [] \<and> sp_SLOT p = k" if "new_SlabPool n lazy base (slab_statics k) = Some p" "0 < k" for n base k p
    using new_SlabPool_ok [OF that(1)] that(2) by (auto simp: slab_statics_def live_ok_def)
  have "\<forall>k \<in> set size_classes. \<exists>L. slab_inv (pool_of k a) L \<and> L PlOut = [] \<and> sp_SLOT (pool_of k a) = k"
    using assms by (auto simp: new_TaskAllocator_def size_classes_def pool_of_def split: option.splits intro: new)
  then obtain H where H: "\<forall>k \<in> set size_classes. slab_inv (pool_of k a) (H k) \<and> H k PlOut = [] \<and> sp_SLOT (pool_of k a) = k" by metis
  let ?H = "\<lambda>k. if k \<in> set size_classes then H k else (\<lambda>_. [])"
  have "ta_inv a ?H \<and> (\<forall>k. ?H k PlOut = [])" using H by (simp add: ta_inv_def)
  then show ?thesis by blast
qed

text \<open>Sized allocation and free are inverse on the right class: \<open>AllocSized\<close> hands out a slot of a class that is large
  enough and that was not handed out, or fails with every class large enough used up; freeing an address the classes
  recognise as exactly that slot puts it back to its class and changes no other class's slots.\<close>

theorem sized_alloc_free:
  assumes "ta_inv a H" "\<forall>k \<in> set size_classes. fresh_block (nw k) (pool_of k a)"
  shows "\<exists>r a' H'. AllocSized t nw n a = Some (r, a') \<and> ta_inv a' H' \<and>
    (case r of
       None \<Rightarrow> (\<forall>k \<in> set size_classes. n \<le> k \<longrightarrow> exhausted (nw k) (pool_of k a))
     | Some x \<Rightarrow> (\<exists>k \<in> set size_classes. n \<le> k \<and> H' k PlOut = x # H k PlOut \<and> x \<notin> set (H k PlOut) \<and> OwnsSized x a' \<and>
         ((\<forall>j \<in> set size_classes. j \<noteq> k \<longrightarrow> \<not> SlotInSlab (pool_of j a') x) \<longrightarrow>
           (\<exists>a2 H2. FreeSized u x a' = Some (True, a2) \<and> ta_inv a2 H2 \<and> (\<forall>j \<in> set size_classes. H2 j PlOut = H j PlOut)))))"
proof -
  have d: "distinct size_classes" by (simp add: size_classes_def)
  obtain r a' H' where A: "AllocSized t nw n a = Some (r, a')" "ta_inv a' H'" "alloc_result nw n size_classes a H r a' H'"
    using alloc_ladder_ok [OF assms(1) _ subset_refl d, of nw t n] assms(2) by (auto simp: AllocSized_def)
  show ?thesis
  proof (cases r)
    case None
    then show ?thesis using A by (intro exI [of _ r] exI [of _ a'] exI [of _ H']) (simp add: alloc_result_def)
  next
    case (Some x)
    then obtain k where k: "k \<in> set size_classes" "n \<le> k" "H' k PlOut = x # H k PlOut" "x \<notin> set (H k PlOut)" "SlotInSlab (pool_of k a') x"
        "\<forall>j \<in> set size_classes. j \<noteq> k \<longrightarrow> H' j PlOut = H j PlOut"
      using A(3) by (auto simp: alloc_result_def)
    have own: "OwnsSized x a'" using k(1,5) by (auto simp: OwnsSized_def pool_of_def size_classes_def split: if_splits)
    have "\<exists>a2 H2. FreeSized u x a' = Some (True, a2) \<and> ta_inv a2 H2 \<and> (\<forall>j \<in> set size_classes. H2 j PlOut = H j PlOut)"
      if no: "\<forall>j \<in> set size_classes. j \<noteq> k \<longrightarrow> \<not> SlotInSlab (pool_of j a') x"
    proof -
      have "x \<in> set (H' k PlOut)" using k(3) by simp
      then obtain a2 L where "free_ladder u x size_classes a' = Some (True, a2)" "ta_inv a2 (H'(k := L))" "L PlOut = remove1 x (H' k PlOut)"
        using free_ladder_ok [OF A(2) k(1) subset_refl _ no] by blast
      then show ?thesis using k(3,6) by (intro exI [of _ a2] exI [of _ "H'(k := L)"]) (simp add: FreeSized_def)
    qed
    then have "case Some x of None \<Rightarrow> True | Some x \<Rightarrow> \<exists>k \<in> set size_classes. n \<le> k \<and> H' k PlOut = x # H k PlOut \<and> x \<notin> set (H k PlOut) \<and> OwnsSized x a' \<and>
         ((\<forall>j \<in> set size_classes. j \<noteq> k \<longrightarrow> \<not> SlotInSlab (pool_of j a') x) \<longrightarrow>
           (\<exists>a2 H2. FreeSized u x a' = Some (True, a2) \<and> ta_inv a2 H2 \<and> (\<forall>j \<in> set size_classes. H2 j PlOut = H j PlOut)))"
      using k own unfolding option.case by blast
    then show ?thesis using A(1,2) Some by (intro exI [of _ r] exI [of _ a'] exI [of _ H']) simp
  qed
qed

theorem sized_alloc_free_witness:
  "\<exists>a r a'. new_TaskAllocator_slots 16 True (\<lambda>k. 1000000 * k) slab_statics = Some a \<and> AllocSized 0 (\<lambda>_. None) 70 a = Some (r, a')"
proof -
  obtain a where a: "new_TaskAllocator_slots 16 True (\<lambda>k. 1000000 * k) slab_statics = Some a"
    by (simp add: new_TaskAllocator_slots_def new_TaskAllocator_def new_SlabPool_def slab_statics_def Let_def)
  obtain H where "ta_inv a H" using a new_TaskAllocator_ok [of 16 2 2 2 2 True "\<lambda>k. 1000000 * k" a] by (auto simp: new_TaskAllocator_slots_def)
  moreover have "\<forall>k \<in> set size_classes. fresh_block ((\<lambda>_. None) k) (pool_of k a)" by (simp add: fresh_block_def)
  ultimately show ?thesis using a sized_alloc_free [of a H "\<lambda>_. None" 0 70] by blast
qed

end
