(* ===== verification/Coroutines.thy ===== *)
theory Coroutines
  imports TaskAllocators
begin

text \<open>
  The coroutine layer (\<^verbatim>\<open>include/Coroutine.h\<close>): where frames come from and go back to, a coroutine task with the \<open>Lazy\<close> coroutines it awaits, and \<open>Spawn\<close>. Frames are
  numbers. The body of a coroutine is any sequence of awaits and suspensions that the compiler's transformation allows; what the heap and the slab answer is an argument.
\<close>

section \<open>Frames\<close>

definition kFrameHeader :: nat where "kFrameHeader = 16"

text \<open>\<open>fr_gen\<close>: the generation of the running pool, 0 without one. \<open>fr_header\<close>: the generation written before a frame. \<open>fr_heap\<close> and \<open>fr_slab g\<close>: the blocks in use of the heap and of the pool of
  generation \<open>g\<close>.\<close>

record frame_sys =
  fr_gen :: nat
  fr_made :: nat
  fr_header :: "nat \<Rightarrow> nat"
  fr_heap :: "nat set"
  fr_slab :: "nat \<Rightarrow> nat set"

definition frame_want :: "bool \<Rightarrow> nat \<Rightarrow> nat" where
  "frame_want smallClass n = (let total = n + kFrameHeader in if smallClass then total else if total \<le> SLOT then SLOT else total)"

text \<open>\<open>slab\<close>: the slot \<open>AllocSized\<close> gives for a size, if any; \<open>heap\<close>: the block \<open>operator new\<close> gives.\<close>

definition FrameAlloc :: "bool \<Rightarrow> bool \<Rightarrow> (nat \<Rightarrow> nat option) \<Rightarrow> nat \<Rightarrow> nat \<Rightarrow> frame_sys \<Rightarrow> nat \<times> frame_sys" where
  "FrameAlloc pooling smallClass slab heap n s =
    (case (if pooling \<and> fr_gen s \<noteq> 0 then slab (frame_want smallClass n) else None) of
       Some b \<Rightarrow> (b + kFrameHeader, s\<lparr>fr_header := (fr_header s)(b := fr_gen s), fr_slab := (fr_slab s)(fr_gen s := insert b (fr_slab s (fr_gen s)))\<rparr>)
     | None \<Rightarrow> (heap + kFrameHeader, s\<lparr>fr_header := (fr_header s)(heap := 0), fr_heap := insert heap (fr_heap s)\<rparr>))"

datatype freed_to = ToHeap | ToSlab nat | ToNobody

definition FrameFree :: "nat \<Rightarrow> frame_sys \<Rightarrow> freed_to \<times> frame_sys" where
  "FrameFree p s =
    (let base = p - kFrameHeader; g = fr_header s base in
     if g = 0 then (ToHeap, s\<lparr>fr_heap := fr_heap s - {base}\<rparr>)
     else if fr_gen s \<noteq> 0 \<and> fr_gen s = g then (ToSlab g, s\<lparr>fr_slab := (fr_slab s)(g := fr_slab s g - {base})\<rparr>)
     else (ToNobody, s))"

text \<open>The pool stops and its memory goes, or a new one starts with the next generation.\<close>

definition pool_stops :: "frame_sys \<Rightarrow> frame_sys" where
  "pool_stops s = s\<lparr>fr_gen := 0, fr_slab := (fr_slab s)(fr_gen s := {})\<rparr>"

definition pool_starts :: "frame_sys \<Rightarrow> frame_sys" where
  "pool_starts s = s\<lparr>fr_gen := fr_made s + 1, fr_made := fr_made s + 1\<rparr>"

text \<open>The live frames, with the place each came from. The memory of a pool stays readable as long as the program runs, and no block is handed out while a frame lies in it.\<close>

record coro_mem =
  cm_sys :: frame_sys
  cm_live :: "nat \<rightharpoonup> nat"

inductive frame_step :: "coro_mem \<Rightarrow> coro_mem \<Rightarrow> bool" where
  frame_alloc: "(\<forall>z b. slab z = Some b \<longrightarrow> b \<notin> dom (cm_live m)) \<Longrightarrow> heap \<notin> dom (cm_live m) \<Longrightarrow> FrameAlloc pooling smallClass slab heap n (cm_sys m) = (p, s) \<Longrightarrow>
    frame_step m (m\<lparr>cm_sys := s, cm_live := (cm_live m)(p - kFrameHeader \<mapsto> fr_header s (p - kFrameHeader))\<rparr>)"
| frame_free: "b \<in> dom (cm_live m) \<Longrightarrow> FrameFree (b + kFrameHeader) (cm_sys m) = (to', s) \<Longrightarrow> frame_step m (m\<lparr>cm_sys := s, cm_live := (cm_live m)(b := None)\<rparr>)"
| frame_stop: "fr_gen (cm_sys m) \<noteq> 0 \<Longrightarrow> frame_step m (m\<lparr>cm_sys := pool_stops (cm_sys m)\<rparr>)"
| frame_start: "fr_gen (cm_sys m) = 0 \<Longrightarrow> frame_step m (m\<lparr>cm_sys := pool_starts (cm_sys m)\<rparr>)"

text \<open>The blocks in use are exactly the live frames: the heap's are the ones with generation 0, a pool's the ones with its generation, while that pool runs.\<close>

definition frame_inv :: "coro_mem \<Rightarrow> bool" where
  [inv_defs]: "frame_inv m \<longleftrightarrow> (\<forall>b g. cm_live m b = Some g \<longrightarrow> fr_header (cm_sys m) b = g) \<and> fr_heap (cm_sys m) = {b. cm_live m b = Some 0} \<and>
    (\<forall>g. g \<noteq> 0 \<longrightarrow> fr_slab (cm_sys m) g = {b. g = fr_gen (cm_sys m) \<and> cm_live m b = Some g}) \<and>
    fr_gen (cm_sys m) \<le> fr_made (cm_sys m) \<and> (\<forall>b g. cm_live m b = Some g \<longrightarrow> g \<le> fr_made (cm_sys m))"

lemma FrameAlloc_cases:
  assumes "FrameAlloc pooling smallClass slab heap n s = (p, s')"
  obtains b where "p = b + kFrameHeader" "slab (frame_want smallClass n) = Some b" "fr_gen s \<noteq> 0" "s' = s\<lparr>fr_header := (fr_header s)(b := fr_gen s), fr_slab := (fr_slab s)(fr_gen s := insert b (fr_slab s (fr_gen s)))\<rparr>"
  | "p = heap + kFrameHeader" "s' = s\<lparr>fr_header := (fr_header s)(heap := 0), fr_heap := insert heap (fr_heap s)\<rparr>"
  using assms by (auto simp: FrameAlloc_def split: option.splits if_splits)

lemma FrameFree_cases:
  assumes f: "FrameFree (b + kFrameHeader) s = (to', s')" and h: "fr_header s b = g"
  obtains "g = 0" "s' = s\<lparr>fr_heap := fr_heap s - {b}\<rparr>" | "g \<noteq> 0" "fr_gen s = g" "s' = s\<lparr>fr_slab := (fr_slab s)(g := fr_slab s g - {b})\<rparr>" | "g \<noteq> 0" "fr_gen s \<noteq> g" "s' = s"
proof -
  have e: "FrameFree (b + kFrameHeader) s = (if g = 0 then (ToHeap, s\<lparr>fr_heap := fr_heap s - {b}\<rparr>) else if fr_gen s \<noteq> 0 \<and> fr_gen s = g then (ToSlab g, s\<lparr>fr_slab := (fr_slab s)(g := fr_slab s g - {b})\<rparr>) else (ToNobody, s))"
    by (simp add: FrameFree_def h)
  have "s' = snd (FrameFree (b + kFrameHeader) s)" by (simp add: f)
  then show thesis using that unfolding e by (cases "g = 0"; cases "fr_gen s = g") auto
qed

lemma frame_invI:
  assumes "\<And>b g. cm_live m b = Some g \<Longrightarrow> fr_header (cm_sys m) b = g \<and> g \<le> fr_made (cm_sys m)" "\<And>b. b \<in> fr_heap (cm_sys m) \<longleftrightarrow> cm_live m b = Some 0"
    "\<And>g b. g \<noteq> 0 \<Longrightarrow> b \<in> fr_slab (cm_sys m) g \<longleftrightarrow> g = fr_gen (cm_sys m) \<and> cm_live m b = Some g" "fr_gen (cm_sys m) \<le> fr_made (cm_sys m)"
  shows "frame_inv m"
  unfolding frame_inv_def using assms by (intro conjI allI impI set_eqI) simp_all

lemma frame_invD:
  assumes "frame_inv m"
  shows "cm_live m b = Some g \<Longrightarrow> fr_header (cm_sys m) b = g" "cm_live m b = Some g \<Longrightarrow> g \<le> fr_made (cm_sys m)" "b \<in> fr_heap (cm_sys m) \<longleftrightarrow> cm_live m b = Some 0"
    "g \<noteq> 0 \<Longrightarrow> b \<in> fr_slab (cm_sys m) g \<longleftrightarrow> g = fr_gen (cm_sys m) \<and> cm_live m b = Some g" "fr_gen (cm_sys m) \<le> fr_made (cm_sys m)"
  using assms by (simp_all add: frame_inv_def)

lemma frame_step_inv: "frame_inv m \<Longrightarrow> frame_step m m' \<Longrightarrow> frame_inv m'"
proof (rotate_tac, induction rule: frame_step.induct)
  case (frame_alloc slab m heap pooling smallClass n p s)
  note d = frame_invD [OF frame_alloc(4)]
  show ?case
  proof (cases rule: FrameAlloc_cases [OF frame_alloc(3)])
    case (1 b)
    then have n: "cm_live m b = None" using frame_alloc(1) by auto
    show ?thesis by (rule frame_invI) (auto simp: 1 n d(3-5) dest: d(1,2) split: if_splits)
  next
    case 2
    then have n: "cm_live m heap = None" using frame_alloc(2) by auto
    show ?thesis by (rule frame_invI) (auto simp: 2 n d(3-5) dest: d(1,2) split: if_splits)
  qed
next
  case (frame_free b m to' s)
  note d = frame_invD [OF frame_free(3)]
  obtain g where g: "cm_live m b = Some g" using frame_free(1) by auto
  show ?case
  proof (cases rule: FrameFree_cases [OF frame_free(2) d(1) [OF g]])
    case 1
    then show ?thesis using g by (intro frame_invI) (auto simp: d(3-5) dest: d(1,2) split: if_splits)
  next
    case 2
    then show ?thesis using g by (intro frame_invI) (auto simp: d(3-5) dest: d(1,2) split: if_splits)
  next
    case 3
    then show ?thesis using g by (intro frame_invI) (auto simp: d(3-5) dest: d(1,2) split: if_splits)
  qed
next
  case (frame_stop m)
  note d = frame_invD [OF frame_stop(2)]
  show ?case using frame_stop(1) by (intro frame_invI) (auto simp: pool_stops_def d(3-5) dest: d(1,2) split: if_splits)
next
  case (frame_start m)
  note d = frame_invD [OF frame_start(2)]
  have "cm_live m b \<noteq> Some (Suc (fr_made (cm_sys m)))" for b using d(2) [of b "Suc (fr_made (cm_sys m))"] by auto
  then show ?case using frame_start(1) by (intro frame_invI) (auto simp: pool_starts_def d(3-5) dest: d(1,2))
qed

interpretation frames: transition_system frame_step frame_inv
  by unfold_locales (rule frame_step_inv)

definition frame_start0 :: coro_mem where
  "frame_start0 = \<lparr>cm_sys = \<lparr>fr_gen = 0, fr_made = 0, fr_header = (\<lambda>b. 0), fr_heap = {}, fr_slab = (\<lambda>g. {})\<rparr>, cm_live = Map.empty\<rparr>"

lemma frame_start0_inv: "frame_inv frame_start0"
  by (simp add: frame_inv_def frame_start0_def)

text \<open>Over any allocations, frees and restarts of the pool, a frame goes back exactly where it came from: to the heap if it came from there, to the slab of its own pool while that runs, and
  to nobody once that pool is gone; never to the slab of a later pool.\<close>

theorem frames_go_back_where_they_came_from:
  assumes "reach frame_step frame_start0 m" "cm_live m b = Some g"
  shows "fst (FrameFree (b + kFrameHeader) (cm_sys m)) = (if g = 0 then ToHeap else if fr_gen (cm_sys m) = g then ToSlab g else ToNobody) \<and>
    (g = 0 \<longrightarrow> b \<in> fr_heap (cm_sys m)) \<and> (g \<noteq> 0 \<and> fr_gen (cm_sys m) = g \<longrightarrow> b \<in> fr_slab (cm_sys m) g)"
proof -
  have "frame_inv m" using frames.reach_inv [OF assms(1) frame_start0_inv] .
  then show ?thesis using assms(2) by (auto simp: frame_inv_def FrameFree_def Let_def)
qed

text \<open>A pool starts, a frame comes from its slab, the pool stops, and another one starts: the frame goes to nobody.\<close>

definition frame_m1 :: coro_mem where "frame_m1 = frame_start0\<lparr>cm_sys := pool_starts (cm_sys frame_start0)\<rparr>"
definition frame_m2 :: coro_mem where
  "frame_m2 = frame_m1\<lparr>cm_sys := snd (FrameAlloc True True (\<lambda>z. Some 64) 0 40 (cm_sys frame_m1)), cm_live := [64 \<mapsto> 1]\<rparr>"
definition frame_m3 :: coro_mem where "frame_m3 = frame_m2\<lparr>cm_sys := pool_stops (cm_sys frame_m2)\<rparr>"
definition frame_m4 :: coro_mem where "frame_m4 = frame_m3\<lparr>cm_sys := pool_starts (cm_sys frame_m3)\<rparr>"

lemmas frame_demo = frame_m1_def frame_m2_def frame_m3_def frame_m4_def frame_start0_def pool_starts_def pool_stops_def FrameAlloc_def kFrameHeader_def

theorem frames_go_back_where_they_came_from_witness: "fr_gen (cm_sys frame_m4) = 2 \<and> cm_live frame_m4 64 = Some 1 \<and> fst (FrameFree (64 + kFrameHeader) (cm_sys frame_m4)) = ToNobody"
proof -
  have 1: "frame_step frame_start0 frame_m1" unfolding frame_m1_def by (rule frame_start) (simp add: frame_start0_def)
  have a: "FrameAlloc True True (\<lambda>z. Some 64) 0 40 (cm_sys frame_m1) = (80, snd (FrameAlloc True True (\<lambda>z. Some 64) 0 40 (cm_sys frame_m1)))" by (simp add: frame_demo)
  have 2: "frame_step frame_m1 frame_m2" using Coroutines.frame_alloc [OF _ _ a] by (simp add: frame_m2_def) (simp add: frame_demo)
  have 3: "frame_step frame_m2 frame_m3" unfolding frame_m3_def by (rule frame_stop) (simp add: frame_demo)
  have 4: "frame_step frame_m3 frame_m4" unfolding frame_m4_def by (rule frame_start) (simp add: frame_demo)
  have r: "reach frame_step frame_start0 frame_m4" by (rule reach_step [OF reach_step [OF reach_step [OF reach_one [of frame_step, OF 1] 2] 3] 4])
  have l: "cm_live frame_m4 64 = Some 1" "fr_gen (cm_sys frame_m4) = 2" by (simp_all add: frame_demo)
  show ?thesis using frames_go_back_where_they_came_from [OF r l(1)] l by simp
qed

section \<open>A coroutine task and what it awaits\<close>

text \<open>\<open>co_cont\<close>: the continuation of a \<open>Lazy\<close> frame; \<open>co_task\<close>: whether a promise names the task; \<open>co_data\<close>: the frame the task resumes; \<open>co_cur\<close>: the frame that runs, if any;
  \<open>co_used\<close>: the frames that were started. \<open>co_stack\<close> is a ghost: the frames that have been awaited and have not returned, innermost first and the root last; only \<open>co_await\<close> and the
  return of a coroutine change it.\<close>

record coro =
  co_root :: nat
  co_cont :: "nat \<Rightarrow> nat option"
  co_task :: "nat \<Rightarrow> bool"
  co_data :: nat
  co_cur :: "nat option"
  co_used :: "nat set"
  co_stack :: "nat list"
  co_freed :: nat
  co_told :: nat
  co_signalled :: nat

text \<open>\<open>Spawn\<close> up to the push: the task is made for the root frame, counted by a group or not, named by a node or not.\<close>

definition spawned :: "nat \<Rightarrow> coro" where
  "spawned r = \<lparr>co_root = r, co_cont = (\<lambda>f. None), co_task = (\<lambda>f. f = r), co_data = r, co_cur = None, co_used = {r}, co_stack = [r], co_freed = 0, co_told = 0, co_signalled = 0\<rparr>"

definition ArmResume :: "nat \<Rightarrow> coro \<Rightarrow> coro option" where
  "ArmResume f c = (if co_task c f then Some (c\<lparr>co_data := f\<rparr>) else None)"

text \<open>\<open>Lazy::Awaiter::await_suspend\<close>, for a \<open>Lazy\<close> that has not run: it becomes the frame that runs.\<close>

definition await_lazy :: "nat \<Rightarrow> nat \<Rightarrow> coro \<Rightarrow> coro" where
  "await_lazy f outer c = c\<lparr>co_cont := (co_cont c)(f := Some outer), co_task := (co_task c)(f := co_task c outer), co_used := insert f (co_used c), co_cur := Some f\<rparr>"

text \<open>\<open>FinalAwaiter\<close>: the continuation runs on, without returning to the worker.\<close>

definition final_lazy :: "nat \<Rightarrow> coro \<Rightarrow> coro" where
  "final_lazy f c = c\<lparr>co_cur := co_cont c f\<rparr>"

text \<open>\<open>Coro::promise_type::Complete\<close>.\<close>

definition coro_Complete :: "bool \<Rightarrow> bool \<Rightarrow> coro \<Rightarrow> coro" where
  "coro_Complete counted dagNode c =
    (if \<not> co_task c (co_root c) then c
     else c\<lparr>co_task := (co_task c)(co_root c := False), co_told := co_told c + (if counted then 1 else 0), co_freed := co_freed c + 1,
            co_signalled := co_signalled c + (if dagNode then 1 else 0), co_cur := None\<rparr>)"

inductive coro_step :: "bool \<Rightarrow> bool \<Rightarrow> coro \<Rightarrow> coro \<Rightarrow> bool" for counted dagNode :: bool where
  co_resume: "co_cur c = None \<Longrightarrow> co_freed c = 0 \<Longrightarrow> coro_step counted dagNode c (c\<lparr>co_cur := Some (co_data c)\<rparr>)"
| co_await: "co_cur c = Some g \<Longrightarrow> f \<notin> co_used c \<Longrightarrow> coro_step counted dagNode c ((await_lazy f g c)\<lparr>co_stack := f # co_stack c\<rparr>)"
| co_suspend: "co_cur c = Some g \<Longrightarrow> ArmResume g c = Some c' \<Longrightarrow> coro_step counted dagNode c (c'\<lparr>co_cur := None\<rparr>)"
| co_final: "co_cur c = Some f \<Longrightarrow> f \<noteq> co_root c \<Longrightarrow> coro_step counted dagNode c ((final_lazy f c)\<lparr>co_stack := tl (co_stack c)\<rparr>)"
| co_complete: "co_cur c = Some (co_root c) \<Longrightarrow> coro_step counted dagNode c (coro_Complete counted dagNode c)"

definition coro_inv :: "bool \<Rightarrow> bool \<Rightarrow> coro \<Rightarrow> bool" where
  [inv_defs]: "coro_inv counted dagNode c \<longleftrightarrow>
    (if co_freed c = 0
     then (\<exists>fs. co_stack c = fs @ [co_root c]) \<and> chain (co_cont c) (Some (hd (co_stack c))) (co_stack c) None \<and> distinct (co_stack c) \<and> set (co_stack c) \<subseteq> co_used c \<and>
       (\<forall>f \<in> set (co_stack c). co_task c f) \<and> (case co_cur c of Some f \<Rightarrow> f | None \<Rightarrow> co_data c) = hd (co_stack c) \<and> co_told c = 0 \<and> co_signalled c = 0
     else co_freed c = 1 \<and> co_cur c = None \<and> co_told c = (if counted then 1 else 0) \<and> co_signalled c = (if dagNode then 1 else 0))"

lemma running_stack:
  assumes "coro_inv counted dagNode c" "co_cur c = Some g"
  obtains gs where "co_freed c = 0" "co_stack c = g # gs" "\<exists>fs. g # gs = fs @ [co_root c]" "chain (co_cont c) (Some g) (g # gs) None" "distinct (g # gs)" "set (g # gs) \<subseteq> co_used c"
    "\<forall>f \<in> set (g # gs). co_task c f" "co_told c = 0" "co_signalled c = 0"
proof -
  have z: "co_freed c = 0" using assms by (auto simp: coro_inv_def split: if_splits)
  then have "co_stack c \<noteq> []" "g = hd (co_stack c)" using assms by (auto simp: coro_inv_def)
  then obtain gs where "co_stack c = g # gs" by (cases "co_stack c") auto
  then show thesis using that [of gs] z assms by (simp add: coro_inv_def)
qed

lemma coro_step_inv: "coro_inv counted dagNode c \<Longrightarrow> coro_step counted dagNode c c' \<Longrightarrow> coro_inv counted dagNode c'"
proof (rotate_tac, induction rule: coro_step.induct)
  case (co_resume c)
  then show ?case by (simp add: coro_inv_def)
next
  case (co_await c g f)
  obtain gs where gs: "co_freed c = 0" "co_stack c = g # gs" "\<exists>fs. g # gs = fs @ [co_root c]" "chain (co_cont c) (Some g) (g # gs) None" "distinct (g # gs)" "set (g # gs) \<subseteq> co_used c"
    "\<forall>f \<in> set (g # gs). co_task c f" "co_told c = 0" "co_signalled c = 0" using running_stack [OF co_await(3,1)] .
  have n: "f \<notin> set (g # gs)" using co_await(2) gs(6) by blast
  have "chain ((co_cont c)(f := Some g)) (Some g) (g # gs) None" using gs(4) chain_upd_notin [OF n, of "co_cont c" "Some g" "Some g" None] by (rule iffD2 [rotated])
  then have "chain ((co_cont c)(f := Some g)) (Some f) (f # g # gs) None" by (subst chain.simps) (simp only: fun_upd_same simp_thms)
  moreover have "\<exists>fs. f # g # gs = fs @ [co_root c]" using gs(3) by (metis append_Cons)
  ultimately show ?case using gs(1,2,5-9) n by (auto simp: coro_inv_def await_lazy_def)
next
  case (co_suspend c g c')
  then have "c' = c\<lparr>co_data := g\<rparr>" by (auto simp: ArmResume_def split: if_splits)
  then show ?case using co_suspend(1,3) by (simp add: coro_inv_def split: if_splits)
next
  case (co_final c f)
  obtain gs where gs: "co_freed c = 0" "co_stack c = f # gs" "\<exists>fs. f # gs = fs @ [co_root c]" "chain (co_cont c) (Some f) (f # gs) None" "distinct (f # gs)" "set (f # gs) \<subseteq> co_used c"
    "\<forall>h \<in> set (f # gs). co_task c h" "co_told c = 0" "co_signalled c = 0" using running_stack [OF co_final(3,1)] .
  have "\<exists>fs. gs = fs @ [co_root c]" using gs(3) co_final(2) by (auto simp: Cons_eq_append_conv)
  moreover from this obtain h hs where h: "gs = h # hs" by (cases gs) auto
  then have "co_cont c f = Some h" "chain (co_cont c) (Some h) gs None" using gs(4) by auto
  ultimately show ?case using gs(1,2,5-9) h by (auto simp: coro_inv_def final_lazy_def)
next
  case (co_complete c)
  obtain gs where gs: "co_freed c = 0" "co_stack c = co_root c # gs" "\<forall>f \<in> set (co_root c # gs). co_task c f" "co_told c = 0" "co_signalled c = 0" using running_stack [OF co_complete(2,1)] by metis
  then show ?case by (simp add: coro_inv_def coro_Complete_def)
qed

interpretation coros: transition_system "coro_step counted dagNode" "coro_inv counted dagNode" for counted dagNode
  by unfold_locales (rule coro_step_inv)

lemma spawned_inv: "coro_inv counted dagNode (spawned r)"
  by (auto simp: coro_inv_def spawned_def)

text \<open>(C39) However a coroutine task awaits other coroutines, suspends and is resumed: until it ends, the frames that have been awaited and have not returned form a stack with the root at the bottom, the
  continuations lead from its top to the root, and every frame of it knows the task, so each suspension can arm it; the frame that runs, or else the frame the task was armed with and resumes, is the top of
  that stack; and at the end the group is told once, the task is freed once and the graph node is signalled once.\<close>

theorem coroutine_resumes_where_it_stopped:
  assumes "reach (coro_step counted dagNode) (spawned r) c"
  shows "(co_freed c = 0 \<longrightarrow> (\<exists>fs. co_stack c = fs @ [co_root c]) \<and> distinct (co_stack c) \<and> chain (co_cont c) (Some (hd (co_stack c))) (co_stack c) None \<and>
      (\<forall>f \<in> set (co_stack c). ArmResume f c \<noteq> None) \<and> (co_cur c = None \<longrightarrow> co_data c = hd (co_stack c)) \<and> (\<forall>f. co_cur c = Some f \<longrightarrow> f = hd (co_stack c))) \<and>
    (co_freed c \<noteq> 0 \<longrightarrow> co_freed c = 1 \<and> co_cur c = None \<and> co_told c = (if counted then 1 else 0) \<and> co_signalled c = (if dagNode then 1 else 0))"
  using coros.reach_inv [OF assms spawned_inv] by (auto simp: coro_inv_def ArmResume_def split: if_splits)

text \<open>The root awaits a \<open>Lazy\<close>, which suspends.\<close>

definition coro_c1 :: coro where "coro_c1 = (spawned 1)\<lparr>co_cur := Some 1\<rparr>"
definition coro_c2 :: coro where "coro_c2 = (await_lazy 2 1 coro_c1)\<lparr>co_stack := [2, 1]\<rparr>"
definition coro_c3 :: coro where "coro_c3 = (the (ArmResume 2 coro_c2))\<lparr>co_cur := None\<rparr>"

lemmas coro_demo = coro_c1_def coro_c2_def coro_c3_def spawned_def await_lazy_def ArmResume_def

theorem coroutine_resumes_where_it_stopped_witness: "co_stack coro_c3 = [2, 1] \<and> co_data coro_c3 = 2 \<and> ArmResume 2 coro_c3 \<noteq> None"
proof -
  have 1: "coro_step True False (spawned 1) coro_c1" using co_resume [of "spawned 1"] by (simp add: coro_demo)
  have 2: "coro_step True False coro_c1 coro_c2" using co_await [of coro_c1 1 2] by (simp add: coro_demo)
  have 3: "coro_step True False coro_c2 coro_c3" using co_suspend [of coro_c2 2 "the (ArmResume 2 coro_c2)"] by (simp add: coro_demo)
  have r: "reach (coro_step True False) (spawned 1) coro_c3" by (rule reach_step [OF reach_step [OF reach_one [of "coro_step True False", OF 1] 2] 3])
  have "co_stack coro_c3 = [2, 1]" "co_freed coro_c3 = 0" "co_cur coro_c3 = None" by (simp_all add: coro_demo)
  then show ?thesis using coroutine_resumes_where_it_stopped [OF r] by simp
qed

section \<open>Starting counted work\<close>

text \<open>What a start leaves behind: its answer, how often the group counts it, and whether the task (and the frame) exist without anyone who will run them.\<close>

record start_result =
  sr_ok :: bool
  sr_count :: nat
  sr_task_left :: bool
  sr_queued :: bool

text \<open>\<open>Spawn\<close> with a group: \<open>made\<close>, the task could be created; \<open>pushed\<close>, \<open>Push\<close> took it.\<close>

definition Spawn :: "bool \<Rightarrow> bool \<Rightarrow> bool \<Rightarrow> bool \<Rightarrow> start_result" where
  "Spawn valid counted made pushed =
    (if \<not> valid \<or> \<not> made then \<lparr>sr_ok = False, sr_count = 0, sr_task_left = False, sr_queued = False\<rparr>
     else \<lparr>sr_ok = pushed, sr_count = (if counted then 1 else 0), sr_task_left = \<not> pushed, sr_queued = pushed\<rparr>)"

definition RunCounted :: "bool \<Rightarrow> start_result" where
  "RunCounted pushed = (if pushed then \<lparr>sr_ok = True, sr_count = 1, sr_task_left = False, sr_queued = True\<rparr> else \<lparr>sr_ok = False, sr_count = 0, sr_task_left = False, sr_queued = False\<rparr>)"

text \<open>A task that is not queued is not counted and not left behind.\<close>

lemma RunCounted_refused_leaves_nothing: "\<not> sr_queued (RunCounted pushed) \<Longrightarrow> sr_count (RunCounted pushed) = 0 \<and> \<not> sr_task_left (RunCounted pushed)"
  by (auto simp: RunCounted_def split: if_splits)

text \<open>Not so \<open>Spawn\<close>: refused by \<open>Push\<close>, it leaves the group counting a task that never runs, so a wait on the group, such as \<open>SyncWait\<close>'s, never ends.\<close>

lemma refused_Spawn_leaves_the_group_counting: "\<not> sr_queued (Spawn True True True False) \<and> sr_count (Spawn True True True False) = 1 \<and> sr_task_left (Spawn True True True False)"
  by (simp add: Spawn_def)

end
