(* ===== verification/Topologies.thy ===== *)
theory Topologies
  imports JPrelude
begin

text \<open>
  What the scheduler knows of the machine (\<^verbatim>\<open>include/Topology.h\<close>, \<^verbatim>\<open>src/posix/Topology.cpp\<close>): sets of processors as four words of 64 bits, the lists of processors the
  system prints in its files, and the query that collects cores, caches and core classes from them. The files, and the number of processors the system reports, are arguments.
\<close>

section \<open>Sets of processors\<close>

type_synonym CpuMask = "u64 list"

definition kWords :: nat where [model_defs]: "kWords = 4"
definition kMaxCpus :: nat where [model_defs]: "kMaxCpus = kWords * 64"

definition mask_none :: CpuMask where "mask_none = replicate kWords 0"

definition mask_Set :: "nat \<Rightarrow> CpuMask \<Rightarrow> CpuMask" where
  "mask_Set c m = (if c < kMaxCpus then m[c div 64 := m ! (c div 64) OR push_bit (c mod 64) 1] else m)"

definition mask_Test :: "nat \<Rightarrow> CpuMask \<Rightarrow> bool" where
  "mask_Test c m \<longleftrightarrow> c < kMaxCpus \<and> drop_bit (c mod 64) (m ! (c div 64)) AND 1 \<noteq> 0"

definition mask_Any :: "CpuMask \<Rightarrow> bool" where
  "mask_Any m \<longleftrightarrow> list_ex (\<lambda>x. x \<noteq> 0) m"

text \<open>The loop of \<open>Count\<close> over one word clears the lowest bit each time round.\<close>

lemma clear_lowest_less: "x \<noteq> 0 \<Longrightarrow> x AND (x - 1) < (x :: u64)"
proof -
  assume "x \<noteq> 0"
  then have "x - 1 < x" by (simp add: word_less_nat_alt unat_minus_one unat_eq_0 [symmetric] del: unat_eq_0)
  then show ?thesis using word_and_le1 [of x "x - 1"] by (meson le_less_trans word_and_le1 word_and_le2)
qed

function popcnt :: "u64 \<Rightarrow> nat" where
  "popcnt x = (if x = 0 then 0 else Suc (popcnt (x AND (x - 1))))"
  by pat_completeness auto
termination by (relation "measure unat") (simp_all add: clear_lowest_less word_less_nat_alt [symmetric])

declare popcnt.simps [simp del]

definition mask_Count :: "CpuMask \<Rightarrow> nat" where
  "mask_Count m = sum_list (map popcnt m)"

definition mask_wf :: "CpuMask \<Rightarrow> bool" where
  [inv_defs]: "mask_wf m \<longleftrightarrow> length m = kWords"

lemma drop_bit_and_1: "drop_bit n x AND 1 \<noteq> 0 \<longleftrightarrow> bit (x :: u64) n"
  by (simp add: and_one_eq odd_iff_mod_2_eq_one [symmetric] bit_iff_odd_drop_bit)

lemma mask_Test_bit: "mask_Test c m \<longleftrightarrow> c < kMaxCpus \<and> bit (m ! (c div 64)) (c mod 64)"
  by (simp add: mask_Test_def drop_bit_and_1)

lemma mask_wf_Set [simp]: "mask_wf (mask_Set c m) = mask_wf m"
  by (simp add: mask_wf_def mask_Set_def)

lemma mask_wf_none [simp]: "mask_wf mask_none"
  by (simp add: mask_wf_def mask_none_def)

lemma mask_Test_none [simp]: "\<not> mask_Test c mask_none"
  by (simp add: mask_Test_bit mask_none_def kMaxCpus_def kWords_def)

lemma mask_Test_Set: "mask_wf m \<Longrightarrow> mask_Test c (mask_Set d m) \<longleftrightarrow> mask_Test c m \<or> c = d \<and> d < kMaxCpus"
proof -
  assume wf: "mask_wf m"
  have eq: "c = d \<longleftrightarrow> c div 64 = d div 64 \<and> c mod 64 = d mod 64" by (metis div_mult_mod_eq)
  have b: "bit ((2 :: u64) ^ (d mod 64)) n \<longleftrightarrow> n = d mod 64" for n by (auto simp: bit_exp_iff)
  show ?thesis
  proof (cases "d < kMaxCpus \<and> c div 64 = d div 64 \<and> c < kMaxCpus")
    case True
    then have "d div 64 < length m" using wf by (auto simp: mask_wf_def kMaxCpus_def kWords_def)
    then show ?thesis using True eq by (auto simp: mask_Test_bit mask_Set_def bit_or_iff b)
  next
    case False
    then show ?thesis using eq by (auto simp: mask_Test_bit mask_Set_def)
  qed
qed

lemma mask_Any_Test: "mask_wf m \<Longrightarrow> mask_Any m \<longleftrightarrow> (\<exists>c. mask_Test c m)"
proof
  assume wf: "mask_wf m" and "mask_Any m"
  then obtain i where i: "i < kWords" "m ! i \<noteq> 0" by (auto simp: mask_Any_def list_ex_length mask_wf_def)
  then obtain n where n: "bit (m ! i) n" by (metis bit_eqI bit_0_eq bot_apply bot_bool_def)
  then have "n < 64" using bit_imp_le_length [of "m ! i" n] by simp
  then have "mask_Test (i * 64 + n) m" using i n by (simp add: mask_Test_bit kMaxCpus_def kWords_def)
  then show "\<exists>c. mask_Test c m" by blast
next
  assume wf: "mask_wf m" and "\<exists>c. mask_Test c m"
  then obtain c where c: "c < kMaxCpus" "bit (m ! (c div 64)) (c mod 64)" by (auto simp: mask_Test_bit)
  then have "m ! (c div 64) \<noteq> 0" by auto
  moreover have "c div 64 < length m" using c(1) wf by (simp add: mask_wf_def kMaxCpus_def kWords_def)
  ultimately show "mask_Any m" by (auto simp: mask_Any_def list_ex_length)
qed

lemma mask_eqI:
  assumes "mask_wf m" "mask_wf k" "\<And>c. mask_Test c m = mask_Test c k"
  shows "m = k"
proof (rule nth_equalityI)
  show "length m = length k" using assms(1,2) by (simp add: mask_wf_def)
  fix i assume i: "i < length m"
  show "m ! i = k ! i"
  proof (rule bit_eqI)
    fix n assume "possible_bit TYPE(64 word) n"
    then have n: "n < 64" by simp
    have "i * 64 + n < kMaxCpus" using i n assms(1) by (simp add: mask_wf_def kMaxCpus_def kWords_def)
    then show "bit (m ! i) n = bit (k ! i) n" using assms(3) [of "i * 64 + n"] n by (simp add: mask_Test_bit)
  qed
qed

text \<open>\<open>Count\<close> is the number of processors in the set.\<close>

lemma odd_pred_bit: "odd (y :: nat) \<Longrightarrow> bit (y - 1) j \<longleftrightarrow> bit y j \<and> j \<noteq> 0"
  by (cases j) (auto elim!: oddE simp: bit_0 bit_Suc)

lemma clear_lowest_nat:
  assumes "bit (x :: nat) k" "\<And>n. n < k \<Longrightarrow> \<not> bit x n"
  shows "bit (x - 1) n \<and> bit x n \<longleftrightarrow> bit x n \<and> n \<noteq> k"
proof (cases "n < k")
  case True
  then show ?thesis using assms(2) by simp
next
  case False
  define y where "y = drop_bit k x"
  have odd: "odd y" using assms(1) by (simp add: y_def bit_iff_odd_drop_bit)
  have "take_bit k x = 0" using assms(2) by (intro bit_eqI) (auto simp: bit_take_bit_iff)
  then have "x = y * 2 ^ k" by (metis add.right_neutral y_def div_mult_mod_eq drop_bit_eq_div take_bit_eq_mod)
  moreover obtain z where z: "y = Suc z" using odd by (cases y) auto
  ultimately have "x - 1 = z * 2 ^ k + (2 ^ k - 1)" by simp
  moreover have "(z * 2 ^ k + r) div 2 ^ k = z" if "r < 2 ^ k" for r :: nat using that by simp
  ultimately have "(x - 1) div 2 ^ k = y - 1" using z by (metis diff_Suc_1 diff_less zero_less_numeral zero_less_one zero_less_power)
  then have "drop_bit k (x - 1) = y - 1" by (simp add: drop_bit_eq_div)
  moreover have "bit z n = bit (drop_bit k z) (n - k)" for z :: nat using False by (simp add: bit_drop_bit_eq)
  ultimately show ?thesis using odd_pred_bit [OF odd, of "n - k"] False by (auto simp: y_def)
qed

lemma popcnt_card: "popcnt x = card {n. bit x n}"
proof (induction x rule: popcnt.induct)
  case (1 x)
  show ?case
  proof (cases "x = 0")
    case True
    then show ?thesis by (simp add: popcnt.simps)
  next
    case False
    have fin: "finite {n. bit x n}" by (rule finite_subset [of _ "{..<64}"]) (auto dest: bit_imp_le_length)
    have "\<exists>n. bit x n" using False by (metis bit_eqI bit_0_eq bot_apply bot_bool_def)
    then obtain k where k: "bit x k" "\<And>n. n < k \<Longrightarrow> \<not> bit x n" by (metis LeastI_ex not_less_Least)
    have "bit (unat (x - 1)) n = bit (x - 1) n" for n by (simp add: bit_unsigned_iff)
    then have u: "bit (x - 1) n = bit (unat x - 1) n" for n using unat_minus_one [OF False] by metis
    have "bit (x - 1) n \<and> bit x n \<longleftrightarrow> bit x n \<and> n \<noteq> k" for n using clear_lowest_nat [of "unat x" k n] k by (simp add: u bit_unsigned_iff)
    then have "{n. bit (x AND (x - 1)) n} = {n. bit x n} - {k}" by (auto simp: bit_and_iff)
    then show ?thesis using 1 [OF False] fin k(1) by (subst popcnt.simps) (simp add: False card.remove [of _ k] del: card_Diff_insert)
  qed
qed

lemma mask_Count_card: "mask_wf m \<Longrightarrow> mask_Count m = card {c. mask_Test c m}"
proof -
  assume wf: "mask_wf m"
  have fin: "finite {n. bit (x :: u64) n}" for x by (rule finite_subset [of _ "{..<64}"]) (auto dest: bit_imp_le_length)
  have "mask_Count m = (\<Sum>i < kWords. card {n. bit (m ! i) n})"
    using wf by (simp add: mask_Count_def popcnt_card mask_wf_def sum_list_sum_nth atLeast0LessThan)
  also have "\<dots> = card (SIGMA i : {..<kWords}. {n. bit (m ! i) n})" by (rule card_SigmaI [symmetric]) (simp_all add: fin)
  also have "\<dots> = card {c. mask_Test c m}"
  proof (rule bij_betw_same_card [of "\<lambda>(i, n). i * 64 + n"], rule bij_betw_byWitness [where f' = "\<lambda>c. (c div 64, c mod 64)"])
    have b: "n < 64" if "bit (x :: u64) n" for x n using bit_imp_le_length [OF that] by simp
    have lt: "i * 64 + n < kMaxCpus" if "i < kWords" "bit (m ! i) n" for i n using that b [OF that(2)] by (simp add: kMaxCpus_def kWords_def)
    show "\<forall>a \<in> (SIGMA i : {..<kWords}. {n. bit (m ! i) n}). (case case a of (i, n) \<Rightarrow> i * 64 + n of c \<Rightarrow> (c div 64, c mod 64)) = a" using b by auto
    show "(\<lambda>(i, n). i * 64 + n) ` (SIGMA i : {..<kWords}. {n. bit (m ! i) n}) \<subseteq> {c. mask_Test c m}"
      using b lt by (auto simp: mask_Test_bit)
    show "(\<lambda>c. (c div 64, c mod 64)) ` {c. mask_Test c m} \<subseteq> (SIGMA i : {..<kWords}. {n. bit (m ! i) n})"
      by (auto simp: mask_Test_bit kMaxCpus_def kWords_def)
  qed (auto simp: div_mult_mod_eq)
  finally show ?thesis .
qed

section \<open>The lists of processors the system prints\<close>

definition is_space :: "char \<Rightarrow> bool" where
  "is_space c \<longleftrightarrow> c = CHR '' '' \<or> 9 \<le> (of_char c :: nat) \<and> (of_char c :: nat) \<le> 13"

definition is_digit :: "char \<Rightarrow> bool" where
  "is_digit c \<longleftrightarrow> 48 \<le> (of_char c :: nat) \<and> (of_char c :: nat) \<le> 57"

definition digits_value :: "string \<Rightarrow> nat" where
  "digits_value ds = foldl (\<lambda>a c. a * 10 + (of_char c - 48)) 0 ds"

definition clamp_long :: "int \<Rightarrow> int" where
  "clamp_long x = max (- (2 ^ 63)) (min (2 ^ 63 - 1) x)"

text \<open>\<open>strtol\<close> in base ten: blanks, a sign, digits; the value, and what follows the digits. \<open>None\<close>: there was no number, so the end pointer is the start.\<close>

definition after_sign :: "string \<Rightarrow> bool \<times> string" where
  "after_sign p = (case p of [] \<Rightarrow> (False, []) | c # r \<Rightarrow> if c = CHR ''-'' then (True, r) else if c = CHR ''+'' then (False, r) else (False, p))"

definition strtol :: "string \<Rightarrow> (int \<times> string) option" where
  "strtol s =
    (let (neg, q) = after_sign (dropWhile is_space s); ds = takeWhile is_digit q; v = int (digits_value ds) in
     if ds = [] then None else Some (clamp_long (if neg then - v else v), dropWhile is_digit q))"

lemma after_sign_length: "after_sign p = (neg, q) \<Longrightarrow> length q \<le> length p"
  by (cases p) (auto simp: after_sign_def split: if_splits)

lemma strtol_shorter: "strtol s = Some (v, r) \<Longrightarrow> length r < length s"
proof -
  assume s: "strtol s = Some (v, r)"
  obtain neg q where q: "after_sign (dropWhile is_space s) = (neg, q)" by fastforce
  then have l: "length q \<le> length s" using after_sign_length [OF q] length_dropWhile_le [of is_space s] by simp
  have "takeWhile is_digit q \<noteq> []" "r = dropWhile is_digit q" using s by (auto simp: strtol_def q Let_def split: if_splits)
  then have "length r < length q" using takeWhile_dropWhile_id [of is_digit q] by (metis append_self_conv2 length_append length_greater_0_conv less_add_same_cancel2)
  then show ?thesis using l by simp
qed

definition is_sep :: "char \<Rightarrow> bool" where
  "is_sep c \<longleftrightarrow> c = CHR '','' \<or> c = CHR '' '' \<or> c = CHR 0x0A"

definition set_one :: "CpuMask \<Rightarrow> int \<Rightarrow> CpuMask" where
  "set_one m c = (if 0 \<le> c then mask_Set (nat c) m else m)"

definition set_range :: "int \<Rightarrow> int \<Rightarrow> CpuMask \<Rightarrow> CpuMask" where
  "set_range lo hi m = foldl set_one m [lo..min hi (int kMaxCpus - 1)]"

function parse_loop :: "string \<Rightarrow> CpuMask \<Rightarrow> CpuMask" where
  "parse_loop s m =
    (let p = dropWhile is_sep s in
     if p = [] then m
     else case strtol p of
       None \<Rightarrow> m
     | Some (lo, q) \<Rightarrow>
         if q \<noteq> [] \<and> hd q = CHR ''-''
         then (case strtol (tl q) of None \<Rightarrow> m | Some (hi, r) \<Rightarrow> parse_loop r (set_range lo hi m))
         else parse_loop q (set_range lo lo m))"
  by pat_completeness auto
termination
proof (relation "measure (length \<circ> fst)", goal_cases)
  case (2 s m p x lo q x2 hi r)
  then have "length r < length q" using strtol_shorter [of "tl q" hi r] by simp
  moreover have "length q < length p" "length p \<le> length s" using 2 strtol_shorter [of p lo q] by (auto simp: length_dropWhile_le)
  ultimately show ?case by simp
next
  case (3 s m p x lo q)
  then have "length q < length p" "length p \<le> length s" using strtol_shorter [of p lo q] by (auto simp: length_dropWhile_le)
  then show ?case by simp
qed simp

declare parse_loop.simps [simp del]

text \<open>The text ends at its first zero byte.\<close>

definition ParseCpuList :: "string \<Rightarrow> CpuMask" where
  "ParseCpuList s = parse_loop (takeWhile (\<lambda>c. c \<noteq> CHR 0x00) s) mask_none"

lemma set_one_Test: "mask_wf m \<Longrightarrow> mask_wf (set_one m c) \<and> (mask_Test d (set_one m c) \<longleftrightarrow> mask_Test d m \<or> d < kMaxCpus \<and> int d = c)"
  by (auto simp: set_one_def mask_Test_Set)

lemma set_range_fold: "mask_wf m \<Longrightarrow> mask_wf (foldl set_one m cs) \<and> (mask_Test d (foldl set_one m cs) \<longleftrightarrow> mask_Test d m \<or> d < kMaxCpus \<and> int d \<in> set cs)"
proof (induction cs arbitrary: m)
  case (Cons c cs)
  then show ?case using set_one_Test [OF Cons.prems, of c d] by auto
qed simp

lemma set_range_Test:
  assumes "mask_wf m"
  shows "mask_wf (set_range lo hi m)" "mask_Test d (set_range lo hi m) \<longleftrightarrow> mask_Test d m \<or> d < kMaxCpus \<and> lo \<le> int d \<and> int d \<le> hi"
  using set_range_fold [OF assms, of "[lo..min hi (int kMaxCpus - 1)]" d] by (auto simp: set_range_def)

text \<open>The parser never sets a processor beyond the table and always ends with a set.\<close>

lemma parse_loop_wf: "mask_wf m \<Longrightarrow> mask_wf (parse_loop s m)"
proof (induction s m rule: parse_loop.induct)
  case (1 s m)
  then show ?case by (subst parse_loop.simps) (auto simp: Let_def set_range_Test split: option.splits)
qed

lemma ParseCpuList_wf [simp]: "mask_wf (ParseCpuList s)"
  by (simp add: ParseCpuList_def parse_loop_wf)

text \<open>How the system prints a number and a list of ranges.\<close>

fun show_nat :: "nat \<Rightarrow> string" where
  "show_nat n = (if n < 10 then [char_of (48 + n)] else show_nat (n div 10) @ [char_of (48 + n mod 10)])"

declare show_nat.simps [simp del]

definition print_range :: "nat \<times> nat \<Rightarrow> string" where
  "print_range r = (if fst r = snd r then show_nat (fst r) else show_nat (fst r) @ CHR ''-'' # show_nat (snd r))"

fun print_cpu_list :: "(nat \<times> nat) list \<Rightarrow> string" where
  "print_cpu_list [] = [CHR 0x0A]"
| "print_cpu_list [r] = print_range r @ [CHR 0x0A]"
| "print_cpu_list (r # r' # rs) = print_range r @ CHR '','' # print_cpu_list (r' # rs)"

lemma digit_char: "n < 10 \<Longrightarrow> is_digit (char_of (48 + n)) \<and> (of_char (char_of (48 + n) :: char) :: nat) = 48 + n"
  by (simp add: is_digit_def)

lemma show_nat_digits: "list_all is_digit (show_nat n) \<and> show_nat n \<noteq> [] \<and> digits_value (show_nat n) = n"
proof (induction n rule: show_nat.induct)
  case (1 n)
  show ?case
  proof (cases "n < 10")
    case True
    then show ?thesis using digit_char [of n] by (subst (1 2 3) show_nat.simps) (simp add: digits_value_def)
  next
    case False
    then show ?thesis using digit_char [of "n mod 10"] 1 by (subst (1 2 3) show_nat.simps) (simp add: digits_value_def)
  qed
qed

lemma digit_not: "is_digit c \<Longrightarrow> \<not> is_space c \<and> \<not> is_sep c \<and> c \<noteq> CHR ''-'' \<and> c \<noteq> CHR ''+'' \<and> c \<noteq> CHR 0x00"
  by (auto simp: is_digit_def is_space_def is_sep_def)

lemma strtol_show_nat:
  assumes "n < 2 ^ 63" "rest = [] \<or> \<not> is_digit (hd rest)"
  shows "strtol (show_nat n @ rest) = Some (int n, rest)"
proof -
  obtain c ds where s: "show_nat n = c # ds" "is_digit c" using show_nat_digits [of n] by (cases "show_nat n") auto
  have "after_sign (dropWhile is_space (show_nat n @ rest)) = (False, show_nat n @ rest)" using digit_not [OF s(2)] by (simp add: s(1) after_sign_def)
  moreover have "takeWhile is_digit (show_nat n @ rest) = show_nat n" "dropWhile is_digit (show_nat n @ rest) = rest"
    using show_nat_digits [of n] assms(2) by (cases rest; simp add: list_all_iff)+
  ultimately show ?thesis using show_nat_digits [of n] assms(1) by (simp add: strtol_def Let_def clamp_long_def)
qed

lemma parse_loop_sep: "is_sep c \<Longrightarrow> parse_loop (c # s) m = parse_loop s m"
  by (subst (1 2) parse_loop.simps) simp

lemma sep_not_digit: "is_sep c \<Longrightarrow> \<not> is_digit c \<and> c \<noteq> CHR ''-'' \<and> c \<noteq> CHR 0x00"
  by (auto simp: is_digit_def is_sep_def)

lemma parse_loop_range:
  assumes "fst r < 2 ^ 63" "snd r < 2 ^ 63" "is_sep c"
  shows "parse_loop (print_range r @ c # s) m = parse_loop s (set_range (int (fst r)) (int (snd r)) m)"
proof -
  have d: "dropWhile is_sep (show_nat n @ t) = show_nat n @ t" for n t
    using show_nat_digits [of n] digit_not by (cases "show_nat n") (auto simp: list_all_iff)
  have e: "show_nat n \<noteq> []" for n using show_nat_digits [of n] by blast
  show ?thesis
  proof (cases "fst r = snd r")
    case True
    then have "print_range r @ c # s = show_nat (fst r) @ c # s" by (simp add: print_range_def)
    moreover have "strtol (show_nat (fst r) @ c # s) = Some (int (fst r), c # s)" using strtol_show_nat [OF assms(1), of "c # s"] sep_not_digit [OF assms(3)] by simp
    ultimately show ?thesis using sep_not_digit [OF assms(3)] True by (subst parse_loop.simps) (simp add: d e parse_loop_sep [OF assms(3)])
  next
    case False
    then have "print_range r @ c # s = show_nat (fst r) @ CHR ''-'' # show_nat (snd r) @ c # s" by (simp add: print_range_def)
    moreover have "strtol (show_nat (fst r) @ CHR ''-'' # show_nat (snd r) @ c # s) = Some (int (fst r), CHR ''-'' # show_nat (snd r) @ c # s)"
      using strtol_show_nat [OF assms(1), of "CHR ''-'' # show_nat (snd r) @ c # s"] by (simp add: is_digit_def)
    moreover have "strtol (show_nat (snd r) @ c # s) = Some (int (snd r), c # s)" using strtol_show_nat [OF assms(2), of "c # s"] sep_not_digit [OF assms(3)] by simp
    ultimately show ?thesis by (subst parse_loop.simps) (simp add: d e parse_loop_sep [OF assms(3)])
  qed
qed

lemma parse_print:
  assumes "mask_wf m" "\<forall>r \<in> set rs. fst r < 2 ^ 63 \<and> snd r < 2 ^ 63"
  shows "mask_Test c (parse_loop (print_cpu_list rs) m) \<longleftrightarrow> mask_Test c m \<or> c < kMaxCpus \<and> (\<exists>r \<in> set rs. fst r \<le> c \<and> c \<le> snd r)"
  using assms
proof (induction rs arbitrary: m rule: print_cpu_list.induct)
  case 1
  then show ?case by (simp add: parse_loop_sep is_sep_def) (simp add: parse_loop.simps)
next
  case (2 r)
  then show ?case using parse_loop_range [of r "CHR 0x0A" "[]" m] by (simp add: is_sep_def parse_loop.simps [of "[]"] set_range_Test) 
next
  case (3 r r' rs)
  have "mask_wf (set_range (int (fst r)) (int (snd r)) m)" using 3(2) by (rule set_range_Test)
  then show ?case using 3(1) [of "set_range (int (fst r)) (int (snd r)) m"] 3(2,3) parse_loop_range [of r "CHR '',''" "print_cpu_list (r' # rs)" m]
    by (auto simp: is_sep_def set_range_Test)
qed

lemma printed_has_no_zero: "CHR 0x00 \<notin> set (print_cpu_list rs)"
proof (induction rs rule: print_cpu_list.induct)
  have n: "CHR 0x00 \<notin> set (show_nat n)" for n using show_nat_digits [of n] digit_not [of "CHR 0x00"] by (auto simp: list_all_iff)
  then have r: "CHR 0x00 \<notin> set (print_range r)" for r by (simp add: print_range_def)
  { case 1 then show ?case by simp }
  { case 2 then show ?case by (simp add: r) }
  { case 3 then show ?case by (simp add: r) }
qed

lemma takeWhile_printed: "takeWhile (\<lambda>c. c \<noteq> CHR 0x00) (print_cpu_list rs) = print_cpu_list rs"
  using printed_has_no_zero [of rs] by (auto simp: takeWhile_eq_all_conv)

text \<open>(C38) The parser reads back what the system prints: for any list of ranges printed in the system's format, the set has exactly the processors of the ranges that fit the table.\<close>

theorem ParseCpuList_reads_the_printed_list:
  assumes "\<forall>r \<in> set rs. fst r < 2 ^ 63 \<and> snd r < 2 ^ 63"
  shows "mask_Test c (ParseCpuList (print_cpu_list rs)) \<longleftrightarrow> c < kMaxCpus \<and> (\<exists>r \<in> set rs. fst r \<le> c \<and> c \<le> snd r)"
  using parse_print [OF mask_wf_none assms, of c] by (simp add: ParseCpuList_def takeWhile_printed)

theorem ParseCpuList_reads_the_printed_list_witness: "print_cpu_list [(0, 3), (8, 8)] = ''0-3,8'' @ [CHR 0x0A] \<and> mask_Test 2 (ParseCpuList (print_cpu_list [(0, 3), (8, 8)])) \<and> \<not> mask_Test 5 (ParseCpuList (print_cpu_list [(0, 3), (8, 8)]))"
proof -
  have p: "print_cpu_list [(0, 3), (8, 8)] = ''0-3,8'' @ [CHR 0x0A]" by (simp add: print_range_def show_nat.simps char_of_def bit_0)
  show ?thesis using p ParseCpuList_reads_the_printed_list [of "[(0, 3), (8, 8)]" 2] ParseCpuList_reads_the_printed_list [of "[(0, 3), (8, 8)]" 5] by (simp add: kMaxCpus_def kWords_def)
qed

section \<open>The query\<close>

text \<open>\<open>files\<close>: what the system's files hold, \<open>None\<close> for one that cannot be opened. At most 511 bytes are read.\<close>

type_synonym sys_files = "string \<Rightarrow> string option"

definition ReadFileText :: "sys_files \<Rightarrow> string \<Rightarrow> string option" where
  "ReadFileText files path = map_option (take 511) (files path)"

definition OnlineCpuCount :: "int \<Rightarrow> nat" where
  "OnlineCpuCount reported = min (nat (if reported < 1 then 1 else reported)) kMaxCpus"

definition siblings_path :: "nat \<Rightarrow> string" where
  "siblings_path cpu = ''/sys/devices/system/cpu/cpu'' @ show_nat cpu @ ''/topology/thread_siblings_list''"

definition cache_path :: "nat \<Rightarrow> nat \<Rightarrow> string" where
  "cache_path cpu idx = ''/sys/devices/system/cpu/cpu'' @ show_nat cpu @ ''/cache/index'' @ show_nat idx @ ''/shared_cpu_list''"

definition capacity_path :: "nat \<Rightarrow> string" where
  "capacity_path cpu = ''/sys/devices/system/cpu/cpu'' @ show_nat cpu @ ''/cpu_capacity''"

record topo_info =
  ti_coreMasks :: "CpuMask list"
  ti_cacheMasks :: "CpuMask list"
  ti_haveCores :: bool
  ti_haveCache :: bool
  ti_logicalCount :: nat
  ti_efficiencyClass :: "int list"
  ti_maxClass :: int

text \<open>A mask read from a file is kept if it is not empty and not there yet.\<close>

definition add_mask :: "sys_files \<Rightarrow> CpuMask list \<Rightarrow> string \<Rightarrow> CpuMask list" where
  "add_mask files ms path =
    (case ReadFileText files path of None \<Rightarrow> ms
     | Some text \<Rightarrow> let m = ParseCpuList text in if mask_Any m \<and> m \<notin> set ms then ms @ [m] else ms)"

definition query_cores :: "sys_files \<Rightarrow> nat \<Rightarrow> CpuMask list" where
  "query_cores files nCpu = foldl (add_mask files) [] (map siblings_path [0..<nCpu])"

definition query_caches :: "sys_files \<Rightarrow> nat \<Rightarrow> CpuMask list" where
  "query_caches files nCpu = foldl (add_mask files) [] (concat (map (\<lambda>cpu. map (cache_path cpu) [0..<8]) [0..<nCpu]))"

text \<open>The capacities, \<open>-1\<close> where there is none, and the distinct ones in ascending order.\<close>

definition query_caps :: "sys_files \<Rightarrow> nat \<Rightarrow> int list" where
  "query_caps files nCpu = map (\<lambda>cpu. case ReadFileText files (capacity_path cpu) of None \<Rightarrow> -1 | Some text \<Rightarrow> (case strtol (takeWhile (\<lambda>c. c \<noteq> CHR 0x00) text) of None \<Rightarrow> 0 | Some (v, r) \<Rightarrow> v)) [0..<nCpu]"

definition caps_distinct :: "sys_files \<Rightarrow> nat \<Rightarrow> int list" where
  "caps_distinct files nCpu = sort (remdups (map (\<lambda>cpu. query_caps files nCpu ! cpu) (filter (\<lambda>cpu. ReadFileText files (capacity_path cpu) \<noteq> None) [0..<nCpu])))"

definition no_classes :: "int list" where "no_classes = replicate kMaxCpus (-1)"

text \<open>The classes: from the two device files of hybrid processors, or else from the capacities.\<close>

definition query_classes :: "sys_files \<Rightarrow> nat \<Rightarrow> int list \<times> int" where
  "query_classes files nCpu =
    (case (ReadFileText files ''/sys/devices/cpu_core/cpus'', ReadFileText files ''/sys/devices/cpu_atom/cpus'') of
       (Some pText, Some eText) \<Rightarrow>
         let p = ParseCpuList pText; e = ParseCpuList eText in
         if mask_Any p \<and> mask_Any e
         then (map (\<lambda>cpu. if cpu < nCpu then if mask_Test cpu p then 1 else if mask_Test cpu e then 0 else -1 else -1) [0..<kMaxCpus], 1)
         else (no_classes, -1)
     | _ \<Rightarrow>
         let cap = query_caps files nCpu; distinct = caps_distinct files nCpu in
         if 2 \<le> length distinct
         then (map (\<lambda>cpu. if cpu < nCpu \<and> 0 \<le> cap ! cpu then int (length (takeWhile (\<lambda>v. v \<noteq> cap ! cpu) distinct)) else -1) [0..<kMaxCpus], int (length distinct) - 1)
         else (no_classes, -1))"

definition Query :: "sys_files \<Rightarrow> int \<Rightarrow> topo_info" where
  "Query files reported =
    (let nCpu = OnlineCpuCount reported; cores = query_cores files nCpu; caches = query_caches files nCpu; (cls, top) = query_classes files nCpu in
     \<lparr>ti_coreMasks = cores, ti_cacheMasks = caches, ti_haveCores = (cores \<noteq> []), ti_haveCache = (caches \<noteq> []), ti_logicalCount = nCpu,
      ti_efficiencyClass = cls, ti_maxClass = top\<rparr>)"

text \<open>What every query gives: sets of processors, none empty and none twice.\<close>

definition masks_ok :: "CpuMask list \<Rightarrow> bool" where
  [inv_defs]: "masks_ok ms \<longleftrightarrow> distinct ms \<and> list_all (\<lambda>m. mask_wf m \<and> mask_Any m) ms"

lemma add_mask_ok: "masks_ok ms \<Longrightarrow> masks_ok (add_mask files ms path)"
  by (auto simp: add_mask_def masks_ok_def Let_def split: option.splits)

lemma add_masks_ok: "masks_ok ms \<Longrightarrow> masks_ok (foldl (add_mask files) ms paths)"
  by (induction paths arbitrary: ms) (simp_all add: add_mask_ok)

lemma Query_simps:
  "ti_coreMasks (Query files n) = query_cores files (OnlineCpuCount n)" "ti_cacheMasks (Query files n) = query_caches files (OnlineCpuCount n)"
  "ti_haveCores (Query files n) = (query_cores files (OnlineCpuCount n) \<noteq> [])" "ti_haveCache (Query files n) = (query_caches files (OnlineCpuCount n) \<noteq> [])"
  "ti_efficiencyClass (Query files n) = fst (query_classes files (OnlineCpuCount n))" "ti_maxClass (Query files n) = snd (query_classes files (OnlineCpuCount n))"
  by (simp_all add: Query_def Let_def case_prod_beta)

lemma Query_masks_ok: "masks_ok (ti_coreMasks (Query files n))" "masks_ok (ti_cacheMasks (Query files n))"
  by (simp_all add: Query_simps query_cores_def query_caches_def add_masks_ok [of "[]"] masks_ok_def [of "[]"])

text \<open>Each mask comes from a file of a processor that was looked at.\<close>

lemma add_masks_from: "m \<in> set (foldl (add_mask files) ms paths) \<Longrightarrow> m \<in> set ms \<or> (\<exists>path \<in> set paths. \<exists>t. ReadFileText files path = Some t \<and> m = ParseCpuList t)"
proof (induction paths arbitrary: ms)
  case (Cons path paths)
  then have "m \<in> set (add_mask files ms path) \<or> (\<exists>path \<in> set paths. \<exists>t. ReadFileText files path = Some t \<and> m = ParseCpuList t)" by simp
  then show ?case by (auto simp: add_mask_def Let_def split: option.splits if_splits)
qed simp

text \<open>The classes of the capacities order the processors as their capacities do.\<close>

lemma sorted_rank:
  assumes "sorted ds" "distinct ds" "a \<in> set ds" "b \<in> set ds"
  shows "length (takeWhile (\<lambda>v. v \<noteq> a) ds) < length (takeWhile (\<lambda>v. v \<noteq> b) ds) \<longleftrightarrow> a < (b :: int)"
  using assms by (induction ds) auto

lemma cores_are_read_below_the_count:
  assumes "m \<in> set (query_cores files n)"
  shows "\<exists>cpu < n. \<exists>t. ReadFileText files (siblings_path cpu) = Some t \<and> m = ParseCpuList t"
  using add_masks_from [of m files "[]" "map siblings_path [0..<n]"] assms by (auto simp: query_cores_def)

text \<open>So when the processors that are online are not the first ones, the last of them are not looked at: with processors 0, 1 and 3 online, the core of processor 3 is not found.\<close>

definition one_offline :: sys_files where
  "one_offline path = (if path = siblings_path 0 then Some (print_cpu_list [(0, 1)]) else if path = siblings_path 1 then Some (print_cpu_list [(0, 1)])
     else if path = siblings_path 3 then Some (print_cpu_list [(3, 3)]) else None)"

lemma processor_beyond_the_count_is_not_found: "one_offline (siblings_path 3) \<noteq> None \<and> (\<forall>m \<in> set (ti_coreMasks (Query one_offline 3)). \<not> mask_Test 3 m)"
proof (intro conjI ballI)
  show "one_offline (siblings_path 3) \<noteq> None" by (simp add: one_offline_def)
  fix m assume "m \<in> set (ti_coreMasks (Query one_offline 3))"
  then obtain cpu t where c: "cpu < 3" "ReadFileText one_offline (siblings_path cpu) = Some t" "m = ParseCpuList t"
    using cores_are_read_below_the_count [of m one_offline 3] by (auto simp: Query_simps OnlineCpuCount_def kMaxCpus_def kWords_def)
  have p: "siblings_path 2 \<noteq> siblings_path 0" "siblings_path 2 \<noteq> siblings_path 1" "siblings_path 2 \<noteq> siblings_path 3" by (simp_all add: siblings_path_def show_nat.simps char_of_def bit_0)
  have q: "siblings_path 0 \<noteq> siblings_path 1" "siblings_path 0 \<noteq> siblings_path 3" "siblings_path 1 \<noteq> siblings_path 3" by (simp_all add: siblings_path_def show_nat.simps char_of_def bit_0)
  have v: "one_offline (siblings_path 0) = Some (print_cpu_list [(0, 1)])" "one_offline (siblings_path 1) = Some (print_cpu_list [(0, 1)])" "one_offline (siblings_path 2) = None"
    using p q by (simp_all add: one_offline_def del: One_nat_def print_cpu_list.simps)
  have "length (print_cpu_list [(0, 1)]) \<le> 511" by (simp add: print_range_def show_nat.simps)
  then have l: "take 511 (print_cpu_list [(0, 1)]) = print_cpu_list [(0, 1)]" by (rule take_all)
  consider "cpu = 0" | "cpu = 1" | "cpu = 2" using c(1) by linarith
  then have "t = print_cpu_list [(0, 1)]" using c(2) l v by cases (auto simp: ReadFileText_def simp del: One_nat_def print_cpu_list.simps)
  then have "m = ParseCpuList (print_cpu_list [(0, 1)])" using c(3) by simp
  then show "\<not> mask_Test 3 m" using parse_print [OF mask_wf_none, of "[(0, 1)]" 3] 
    by (simp add: ParseCpuList_def takeWhile_printed del: print_cpu_list.simps)
qed

end
