(* ===== verification/L3Groups.thy ===== *)
theory L3Groups
  imports JPrelude
begin

text \<open>
  The tables a worker's search for work goes by (\<open>BuildL3Groups\<close> and the flag slots of \<open>StartPool\<close>, \<^verbatim>\<open>src/TaskScheduler.cpp\<close>): the deques are
  grouped by the last-level cache of their worker, each group has the list of its deques and of the deques outside it, and each deque has a byte in
  the array of work flags, the groups on separate cache lines. A worker's cache mask is a number, zero when the machine gave none.
\<close>

record l3_tables =
  l3_groups :: nat
  l3_groupOf :: "nat list"
  l3_members :: "nat list list"
  l3_others :: "nat list list"

text \<open>Groups by distinct mask, in order of first sight.\<close>

fun l3_assign :: "nat list \<Rightarrow> nat list \<Rightarrow> nat list" where
  "l3_assign [] seen = []"
| "l3_assign (m # ms) seen =
    (if m = 0 then 0 # l3_assign ms seen
     else let g = length (takeWhile (\<lambda>x. x \<noteq> m) seen) in g mod 2 ^ 16 # l3_assign ms (if g = length seen then seen @ [m] else seen))"

text \<open>The groups of the workers: forced by the environment, or by mask.\<close>

definition l3_of_workers :: "nat list \<Rightarrow> nat \<Rightarrow> nat list" where
  "l3_of_workers masks forced =
    (let nw = length masks in if 2 \<le> forced \<and> forced \<le> nw then map (\<lambda>q. q * forced div nw mod 2 ^ 16) [0..<nw] else l3_assign masks [])"

definition l3_group_list :: "nat list \<Rightarrow> nat \<Rightarrow> nat \<Rightarrow> nat list" where
  "l3_group_list masks forced numDeques =
    (let ws = l3_of_workers masks forced in ws @ replicate (numDeques - length masks) (if masks = [] then 0 else ws ! 0))"

definition BuildL3Groups :: "nat list \<Rightarrow> nat \<Rightarrow> nat \<Rightarrow> l3_tables" where
  "BuildL3Groups masks forced numDeques =
    (let gs = l3_group_list masks forced numDeques; n = foldl max (Suc 0) (map Suc gs) in
     \<lparr>l3_groups = n, l3_groupOf = gs,
      l3_members = map (\<lambda>g. filter (\<lambda>d. gs ! d = g) [0..<numDeques]) [0..<n],
      l3_others = map (\<lambda>g. filter (\<lambda>d. gs ! d \<noteq> g) [0..<numDeques]) [0..<n]\<rparr>)"

text \<open>Where each deque's flag is: the position in the group, after the rounded-up groups before it.\<close>

definition group_room :: "nat \<Rightarrow> l3_tables \<Rightarrow> nat \<Rightarrow> nat" where
  "group_room line tp g = (let m = length (l3_members tp ! g) in if l3_groups tp = 1 then m else (m + line - 1) div line * line)"

definition group_base :: "nat \<Rightarrow> l3_tables \<Rightarrow> nat \<Rightarrow> nat" where
  "group_base line tp g = sum_list (map (group_room line tp) [0..<g])"

definition flagSlots :: "nat \<Rightarrow> l3_tables \<Rightarrow> (nat \<times> nat) list" where
  "flagSlots line tp = concat (map (\<lambda>g. map (\<lambda>i. (l3_members tp ! g ! i, group_base line tp g + i)) [0..<length (l3_members tp ! g)]) [0..<l3_groups tp])"

definition flags_total :: "nat \<Rightarrow> l3_tables \<Rightarrow> nat" where
  "flags_total line tp = (let t = group_base line tp (l3_groups tp) in if t = 0 then 1 else t)"

section \<open>The groups\<close>

lemma l3_assign_length [simp]: "length (l3_assign ms seen) = length ms"
  by (induction ms seen rule: l3_assign.induct) (simp_all add: Let_def)

text \<open>Group numbers are used without gaps: whatever group occurs, every smaller one was seen or occurs.\<close>

lemma l3_assign_no_gaps:
  assumes "length seen + length ms \<le> 2 ^ 16" "g \<in> set (l3_assign ms seen)" "h < g" "length seen \<le> h"
  shows "h \<in> set (l3_assign ms seen)"
  using assms
proof (induction ms seen arbitrary: g rule: l3_assign.induct)
  case (1 seen)
  then show ?case by simp
next
  case (2 m ms seen)
  show ?case
  proof (cases "m = 0")
    case True
    have "g \<in> set (l3_assign ms seen)" using 2(4,5) True by auto
    then have "h \<in> set (l3_assign ms seen)" using 2(1) [OF True] 2(3,5,6) by simp
    then show ?thesis using True by simp
  next
    case False
    define k where "k = length (takeWhile (\<lambda>x. x \<noteq> m) seen)"
    have k: "k \<le> length seen" by (simp add: k_def length_takeWhile_le)
    then have km: "k mod 2 ^ 16 = k" using 2(3) by simp
    define seen' where "seen' = (if k = length seen then seen @ [m] else seen)"
    have eq: "l3_assign (m # ms) seen = k # l3_assign ms seen'" using False km by (simp add: Let_def k_def [symmetric] seen'_def)
    have ne: "g \<noteq> k" using 2(5,6) k by auto
    then have g: "g \<in> set (l3_assign ms seen')" using 2(4) unfolding eq by simp
    have ih: "h \<in> set (l3_assign ms seen')" if "length seen' \<le> h"
      using 2(2) [OF False refl, folded k_def, folded seen'_def] 2(3,5) g that k by (auto simp: seen'_def split: if_splits)
    show ?thesis
    proof (cases "length seen' \<le> h")
      case True
      then show ?thesis using ih unfolding eq by simp
    next
      case False
      then have "h = k" using 2(6) by (auto simp: seen'_def split: if_splits)
      then show ?thesis unfolding eq by simp
    qed
  qed
qed

lemma l3_assign_zero: "ms \<noteq> [] \<Longrightarrow> l3_assign ms [] ! 0 = 0"
  by (cases ms) (simp_all add: Let_def)

lemma forced_no_gaps:
  assumes "0 < n" "f \<le> n" "g < f"
  shows "\<exists>q < n. q * f div n = (g::nat)"
proof -
  define q where "q = (g * n + f - 1) div f"
  have f: "0 < f" using assms by simp
  define r where "r = (g * n + f - 1) mod f"
  have r: "q * f + r = g * n + f - 1" "r < f" using f by (simp_all add: q_def r_def)
  have lo: "g * n \<le> q * f" using r by linarith
  have hi: "q * f < g * n + n" using r assms f by linarith
  have "(g + 1) * n \<le> f * n" using assms by (intro mult_le_mono1) simp
  then have "q * f < n * f" using hi by (metis Suc_eq_plus1 add.commute less_le_trans mult.commute mult_Suc)
  then have "q < n" by (rule mult_less_cancel2 [THEN iffD1, THEN conjunct2])
  moreover have "q * f div n = g" using lo hi by (intro div_nat_eqI) (simp_all add: algebra_simps)
  ultimately show ?thesis by blast
qed

lemma l3_of_workers_length [simp]: "length (l3_of_workers masks forced) = length masks"
  by (simp add: l3_of_workers_def Let_def)

lemma l3_of_workers_no_gaps:
  assumes "length masks \<le> 2 ^ 16" "g \<in> set (l3_of_workers masks forced)" "h < g"
  shows "h \<in> set (l3_of_workers masks forced)"
proof (cases "2 \<le> forced \<and> forced \<le> length masks")
  case True
  let ?n = "length masks"
  obtain q where q: "q < ?n" "g = q * forced div ?n mod 2 ^ 16" using assms(2) True by (auto simp: l3_of_workers_def Let_def)
  have small: "x * forced div ?n < forced" if "x < ?n" for x
    using that True by (intro div_less_iff_less_mult [THEN iffD2]) (auto simp: mult.commute)
  have "h < forced" using assms(3) q small [OF q(1)] mod_less_eq_dividend [of "q * forced div ?n" "2 ^ 16"] by linarith
  then obtain x where x: "x < ?n" "x * forced div ?n = h" using forced_no_gaps [of ?n forced h] True q(1) by force
  have "h < 2 ^ 16" using assms(3) q by (metis less_trans mod_less_divisor zero_less_numeral zero_less_power)
  then have "h = x * forced div ?n mod 2 ^ 16" using x by simp
  then show ?thesis using True x(1) by (auto simp: l3_of_workers_def Let_def)
next
  case False
  then have "l3_of_workers masks forced = l3_assign masks []" unfolding l3_of_workers_def Let_def by (rule if_not_P)
  then show ?thesis using l3_assign_no_gaps [of "[]" masks g h] assms by simp
qed

lemma l3_of_workers_zero: "masks \<noteq> [] \<Longrightarrow> l3_of_workers masks forced ! 0 = 0"
  using l3_assign_zero [of masks] by (simp add: l3_of_workers_def Let_def)

text \<open>A start of the pool: at least one worker, a deque for each, and no more workers than a group number can count.\<close>

definition start_ok :: "nat list \<Rightarrow> nat \<Rightarrow> bool" where
  "start_ok masks numDeques \<longleftrightarrow> masks \<noteq> [] \<and> length masks \<le> numDeques \<and> length masks \<le> 2 ^ 16"

lemma group_list:
  assumes "start_ok masks n"
  shows "length (l3_group_list masks forced n) = n" "l3_group_list masks forced n ! 0 = 0"
    "g \<in> set (l3_group_list masks forced n) \<Longrightarrow> h < g \<Longrightarrow> h \<in> set (l3_group_list masks forced n)"
proof -
  have ws: "length masks \<le> n" "length masks \<le> 2 ^ 16" "masks \<noteq> []" using assms by (auto simp: start_ok_def)
  have zero: "l3_of_workers masks forced ! 0 = 0" using l3_of_workers_zero [OF ws(3)] .
  show "length (l3_group_list masks forced n) = n" using ws by (simp add: l3_group_list_def Let_def)
  show "l3_group_list masks forced n ! 0 = 0" using ws zero by (simp add: l3_group_list_def Let_def nth_append)
  assume "g \<in> set (l3_group_list masks forced n)" "h < g"
  then have "g \<in> set (l3_of_workers masks forced)" using zero ws by (auto simp: l3_group_list_def Let_def split: if_splits)
  then show "h \<in> set (l3_group_list masks forced n)" using l3_of_workers_no_gaps [OF ws(2)] \<open>h < g\<close> by (auto simp: l3_group_list_def Let_def)
qed

lemma foldl_max: "foldl max (a::nat) xs = Max (insert a (set xs))"
proof (induction xs arbitrary: a)
  case (Cons x xs)
  have "Max (insert (max a x) (set xs)) = max a (Max (insert x (set xs)))" by (cases "xs = []") (simp_all add: Max_insert max.assoc)
  moreover have "Max (insert a (insert x (set xs))) = max a (Max (insert x (set xs)))" by (rule Max_insert) simp_all
  ultimately show ?case using Cons by simp
qed simp

text \<open>The tables, as their users see them.\<close>

locale l3_table =
  fixes tp :: l3_tables and n :: nat
  assumes groupOf_length: "length (l3_groupOf tp) = n"
    and groupOf_less: "d < n \<Longrightarrow> l3_groupOf tp ! d < l3_groups tp"
    and members: "g < l3_groups tp \<Longrightarrow> l3_members tp ! g = filter (\<lambda>d. l3_groupOf tp ! d = g) [0..<n]"
    and others: "g < l3_groups tp \<Longrightarrow> l3_others tp ! g = filter (\<lambda>d. l3_groupOf tp ! d \<noteq> g) [0..<n]"
    and no_empty_group: "g < l3_groups tp \<Longrightarrow> \<exists>d < n. l3_groupOf tp ! d = g"
begin

lemma member_iff: "g < l3_groups tp \<Longrightarrow> d \<in> set (l3_members tp ! g) \<longleftrightarrow> d < n \<and> l3_groupOf tp ! d = g"
  by (auto simp: members)

lemma others_nonempty:
  assumes "g < l3_groups tp" "1 < l3_groups tp"
  shows "l3_others tp ! g \<noteq> []"
proof -
  obtain h where h: "h < l3_groups tp" "h \<noteq> g" using assms by (metis less_trans zero_less_one zero_neq_one)
  obtain d where "d < n" "l3_groupOf tp ! d = h" using no_empty_group [OF h(1)] by blast
  then have "d \<in> set (l3_others tp ! g)" using assms h by (simp add: others)
  then show ?thesis by auto
qed

lemma base_mono: "g < h \<Longrightarrow> group_base line tp g + group_room line tp g \<le> group_base line tp h"
proof (induction h)
  case (Suc h)
  then show ?case by (cases "g = h") (auto simp: group_base_def)
qed simp

lemma room_enough: "0 < line \<Longrightarrow> length (l3_members tp ! g) \<le> group_room line tp g"
proof -
  assume l: "0 < line"
  let ?m = "length (l3_members tp ! g)"
  have "(?m + line - 1) div line * line + (?m + line - 1) mod line = ?m + line - 1" by simp
  moreover have "(?m + line - 1) mod line < line" using l by simp
  ultimately have "?m \<le> (?m + line - 1) div line * line" by linarith
  then show ?thesis by (simp add: group_room_def Let_def)
qed

lemma slot_cases:
  assumes "(d, x) \<in> set (flagSlots line tp)"
  obtains g i where "g < l3_groups tp" "i < length (l3_members tp ! g)" "d = l3_members tp ! g ! i" "x = group_base line tp g + i"
  using assms by (auto simp: flagSlots_def)

lemma slot_exists: "d < n \<Longrightarrow> \<exists>x. (d, x) \<in> set (flagSlots line tp)"
proof -
  assume d: "d < n"
  let ?g = "l3_groupOf tp ! d"
  have g: "?g < l3_groups tp" by (rule groupOf_less [OF d])
  then have "d \<in> set (l3_members tp ! ?g)" using d by (simp add: member_iff)
  then obtain i where "i < length (l3_members tp ! ?g)" "l3_members tp ! ?g ! i = d" by (meson in_set_conv_nth)
  then show ?thesis using g by (force simp: flagSlots_def)
qed

lemma slot_group: "g < l3_groups tp \<Longrightarrow> i < length (l3_members tp ! g) \<Longrightarrow> l3_groupOf tp ! (l3_members tp ! g ! i) = g"
  using member_iff [of g "l3_members tp ! g ! i"] by simp

lemma slots_apart:
  assumes "0 < line" "g < h" "i < length (l3_members tp ! g)"
  shows "group_base line tp g + i < group_base line tp h + j"
  using base_mono [OF assms(2), of line] room_enough [OF assms(1), of g] assms(3) by linarith

lemma slot_injective:
  assumes "0 < line" "(d, x) \<in> set (flagSlots line tp)" "(e, x) \<in> set (flagSlots line tp)"
  shows "d = e"
proof -
  obtain g i where a: "g < l3_groups tp" "i < length (l3_members tp ! g)" "d = l3_members tp ! g ! i" "x = group_base line tp g + i" by (rule slot_cases [OF assms(2)])
  obtain h j where b: "h < l3_groups tp" "j < length (l3_members tp ! h)" "e = l3_members tp ! h ! j" "x = group_base line tp h + j" by (rule slot_cases [OF assms(3)])
  have "g = h" using slots_apart [OF assms(1), of g h i j] slots_apart [OF assms(1), of h g j i] a b by (metis less_irrefl linorder_neqE_nat)
  then show ?thesis using a b by simp
qed

lemma slot_in_range:
  assumes "0 < line" "(d, x) \<in> set (flagSlots line tp)"
  shows "x < flags_total line tp"
proof -
  obtain g i where a: "g < l3_groups tp" "i < length (l3_members tp ! g)" "x = group_base line tp g + i" by (rule slot_cases [OF assms(2)])
  then show ?thesis using slots_apart [OF assms(1) a(1,2), of 0] by (simp add: flags_total_def Let_def)
qed

lemma base_aligned: "l3_groups tp \<noteq> 1 \<Longrightarrow> line dvd group_base line tp g"
  by (induction g) (simp_all add: group_base_def group_room_def Let_def)

lemma groups_on_own_lines:
  assumes "0 < line" "l3_groups tp \<noteq> 1" "(d, x) \<in> set (flagSlots line tp)" "(e, y) \<in> set (flagSlots line tp)" "l3_groupOf tp ! d < l3_groupOf tp ! e"
  shows "x div line < y div line"
proof -
  obtain g i where a: "g < l3_groups tp" "i < length (l3_members tp ! g)" "d = l3_members tp ! g ! i" "x = group_base line tp g + i" by (rule slot_cases [OF assms(3)])
  obtain h j where b: "h < l3_groups tp" "j < length (l3_members tp ! h)" "e = l3_members tp ! h ! j" "y = group_base line tp h + j" by (rule slot_cases [OF assms(4)])
  have "g < h" using assms(5) a b slot_group by simp
  then have "x < group_base line tp h" using slots_apart [OF assms(1) _ a(2), of h 0] a(4) by simp
  moreover obtain k where k: "group_base line tp h = line * k" using base_aligned [OF assms(2)] by (meson dvdE)
  ultimately have "x div line < k" using assms(1) by (simp add: div_less_iff_less_mult mult.commute)
  moreover have "k \<le> y div line" using assms(1) k b(4) by simp
  ultimately show ?thesis by linarith
qed

lemma sound:
  assumes "0 < line"
  shows "(\<forall>d < n. \<forall>g < l3_groups tp. d \<in> set (l3_members tp ! g) \<longleftrightarrow> l3_groupOf tp ! d = g) \<and>
    (1 < l3_groups tp \<longrightarrow> (\<forall>g < l3_groups tp. l3_others tp ! g \<noteq> [])) \<and>
    (\<forall>d < n. \<exists>x < flags_total line tp. (d, x) \<in> set (flagSlots line tp)) \<and>
    (\<forall>(d, x) \<in> set (flagSlots line tp). \<forall>(e, y) \<in> set (flagSlots line tp). (x = y \<longrightarrow> d = e) \<and>
       (1 < l3_groups tp \<longrightarrow> l3_groupOf tp ! d < l3_groupOf tp ! e \<longrightarrow> x div line < y div line))"
proof (intro conjI)
  show "\<forall>d < n. \<exists>x < flags_total line tp. (d, x) \<in> set (flagSlots line tp)" using slot_exists slot_in_range [OF assms] by blast
  show "\<forall>(d, x) \<in> set (flagSlots line tp). \<forall>(e, y) \<in> set (flagSlots line tp). (x = y \<longrightarrow> d = e) \<and>
       (1 < l3_groups tp \<longrightarrow> l3_groupOf tp ! d < l3_groupOf tp ! e \<longrightarrow> x div line < y div line)"
    using slot_injective [OF assms] groups_on_own_lines [OF assms] by (auto split: prod.splits)
qed (use member_iff others_nonempty in auto)

end

lemma BuildL3Groups_table: "start_ok masks n \<Longrightarrow> l3_table (BuildL3Groups masks forced n) n"
proof -
  assume ok: "start_ok masks n"
  let ?gs = "l3_group_list masks forced n"
  define G where "G = foldl max (Suc 0) (map Suc ?gs)"
  have n: "0 < n" using ok by (cases masks) (auto simp: start_ok_def)
  note gl = group_list [OF ok, where forced = forced]
  have G: "G = Max (insert 1 (Suc ` set ?gs))" by (simp add: G_def foldl_max)
  have le: "?gs ! d < G" if "d < n" for d
  proof -
    have "Suc (?gs ! d) \<le> G" unfolding G using that gl(1) by (intro Max_ge) auto
    then show ?thesis by simp
  qed
  have occ: "\<exists>d < n. ?gs ! d = g" if g: "g < G" for g
  proof (cases "g = 0")
    case True
    then show ?thesis using gl(2) n by blast
  next
    case False
    have "G \<in> insert 1 (Suc ` set ?gs)" unfolding G by (rule Max_in) auto
    then obtain m where m: "m \<in> set ?gs" "G = Suc m" using g False by auto
    have "g \<in> set ?gs" using gl(3) [OF m(1), of g] m g by (cases "g = m") auto
    then show ?thesis using gl(1) by (metis in_set_conv_nth)
  qed
  show ?thesis by unfold_locales (use gl(1) le occ in \<open>simp_all add: BuildL3Groups_def Let_def G_def [symmetric]\<close>)
qed


text \<open>Every start that is allowed has this form.\<close>

lemma start_ok_form: "start_ok masks n \<longleftrightarrow> (\<exists>m ms k. masks = m # take 65535 ms \<and> n = Suc (length (take 65535 ms)) + k)"
proof
  assume ok: "start_ok masks n"
  then obtain m ms where m: "masks = m # ms" by (cases masks) (auto simp: start_ok_def)
  then have "take 65535 ms = ms" "Suc (length ms) \<le> n" using ok by (auto simp: start_ok_def)
  then show "\<exists>m ms k. masks = m # take 65535 ms \<and> n = Suc (length (take 65535 ms)) + k" using m by (metis le_Suc_ex)
qed (auto simp: start_ok_def)

interpretation l3b: l3_table "BuildL3Groups (m # take 65535 ms) forced (Suc (length (take 65535 ms)) + k)" "Suc (length (take 65535 ms)) + k"
  for m ms forced k
  by (rule BuildL3Groups_table) (auto simp: start_ok_form)

text \<open>However the caches are laid out, the tables the workers steal by are sound: each deque is listed in exactly its own group, with several
  groups none has an empty list of outside deques (whose length the remote cursor divides by), each deque has its own flag byte inside the array, and
  the flags of different groups never share a cache line.\<close>

theorem steal_tables_are_sound:
  assumes "start_ok masks n" "0 < line"
  shows "let tp = BuildL3Groups masks forced n in
    (\<forall>d < n. \<forall>g < l3_groups tp. d \<in> set (l3_members tp ! g) \<longleftrightarrow> l3_groupOf tp ! d = g) \<and>
    (1 < l3_groups tp \<longrightarrow> (\<forall>g < l3_groups tp. l3_others tp ! g \<noteq> [])) \<and>
    (\<forall>d < n. \<exists>x < flags_total line tp. (d, x) \<in> set (flagSlots line tp)) \<and>
    (\<forall>(d, x) \<in> set (flagSlots line tp). \<forall>(e, y) \<in> set (flagSlots line tp). (x = y \<longrightarrow> d = e) \<and>
       (1 < l3_groups tp \<longrightarrow> l3_groupOf tp ! d < l3_groupOf tp ! e \<longrightarrow> x div line < y div line))"
proof -
  obtain m ms k where e: "masks = m # take 65535 ms" "n = Suc (length (take 65535 ms)) + k" using assms(1) start_ok_form by blast
  show ?thesis unfolding e Let_def by (rule l3b.sound [OF assms(2)])
qed

text \<open>Five workers on two caches and main's deque: two groups, flags at 0, 1, 2, 3 and 64, 65.\<close>

theorem steal_tables_are_sound_witness:
  "start_ok [3, 3, 3, 12, 12] 6 \<and> flagSlots 64 (BuildL3Groups [3, 3, 3, 12, 12] 0 6) = [(0, 0), (1, 1), (2, 2), (5, 3), (3, 64), (4, 65)] \<and>
   l3_others (BuildL3Groups [3, 3, 3, 12, 12] 0 6) ! 1 \<noteq> []"
proof -
  let ?tp = "BuildL3Groups [3, 3, 3, 12, 12] 0 6"
  have ok: "start_ok [3, 3, 3, 12, 12] 6" by (simp add: start_ok_def)
  have tp: "?tp = \<lparr>l3_groups = 2, l3_groupOf = [0, 0, 0, 1, 1, 0], l3_members = [[0, 1, 2, 5], [3, 4]], l3_others = [[3, 4], [0, 1, 2, 5]]\<rparr>"
  proof -
    have six: "[0..<6] = [0, 1, 2, 3, 4, 5::nat]" by code_simp
    show ?thesis by (simp add: BuildL3Groups_def l3_group_list_def l3_of_workers_def Let_def six)
  qed
  then have g: "l3_groups ?tp = 2" by simp
  have f: "flagSlots 64 ?tp = [(0, 0), (1, 1), (2, 2), (5, 3), (3, 64), (4, 65)]"
    unfolding tp by code_simp
  show ?thesis using steal_tables_are_sound [OF ok, of 64 0] ok f g by (simp add: Let_def)
qed

end
