(* ===== verification/Placements.thy ===== *)
theory Placements
  imports TaskTypes
begin

text \<open>
  Where the scheduler puts a task (\<^verbatim>\<open>src/TaskScheduler.cpp\<close>): the choice of a worker, the pushes, resumes, yields and batches, the shared
  injector, main's queue, and the thread that leaves for a blocking call. Each operation is a function on the queues of the pool; the queues
  themselves are lists here, their own theories refine them. The last \<open>compute\<close> index is followed by the reserved workers.
  The injector is a third-party queue: which of its tasks a take returns, and whether an insertion finds memory, are arguments.
\<close>

section \<open>State\<close>

record sched =
  sc_workers :: nat
  sc_hot :: nat
  sc_cfgHot :: nat
  sc_active :: bool
  sc_mainMode :: MainMode
  sc_injectorOn :: bool
  sc_reservedStealing :: bool
  sc_ioQuietUs :: nat
  sc_deques :: "nat list list"
  sc_normal :: "nat list list"
  sc_hiPri :: "nat list list"
  sc_mainQ :: "nat list"
  sc_injector :: "nat list"
  sc_injectorCount :: int
  sc_ioLastPush :: int
  sc_marked :: "bool list"
  sc_woken :: "nat list"
  sc_mainKicks :: nat
  sc_nextWorker :: u32
  sc_nextHot :: u64
  sc_nextP :: u64
  sc_nextE :: u64
  sc_ioSteer :: u64
  sc_isP :: "bool list"
  sc_away :: "bool list"
  sc_depth :: "nat list"
  sc_linked :: "bool list"
  sc_armed :: "bool list"
  sc_sibling :: "nat option list"
  sc_idle :: "nat list"
  sc_searching :: nat
  sc_task :: "nat \<Rightarrow> Task"
  sc_pin :: "nat \<Rightarrow> pin"

section \<open>The reserved band\<close>

definition ClampHotWorkersToPool :: "sched \<Rightarrow> sched" where
  "ClampHotWorkersToPool s = s\<lparr>sc_hot := if sc_workers s = 0 then 0 else if sc_workers s \<le> sc_cfgHot s then sc_workers s - 1 else sc_cfgHot s\<rparr>"

definition ReservedBase :: "sched \<Rightarrow> nat" where
  "ReservedBase s = (if sc_hot s \<le> sc_workers s then sc_workers s - sc_hot s else 0)"

definition IsReservedIndex :: "nat \<Rightarrow> sched \<Rightarrow> bool" where
  "IsReservedIndex q s \<longleftrightarrow> ReservedBase s \<le> q"

definition HiPriLaneActive :: "sched \<Rightarrow> bool" where
  "HiPriLaneActive s \<longleftrightarrow> sc_hot s \<noteq> 0"

definition isMain :: "nat \<Rightarrow> sched \<Rightarrow> bool" where
  "isMain q s \<longleftrightarrow> sc_mainMode s = InPool \<and> q = 0"

section \<open>Queues\<close>

definition push_normal :: "nat \<Rightarrow> nat list \<Rightarrow> sched \<Rightarrow> sched" where
  "push_normal q ts s = s\<lparr>sc_normal := (sc_normal s)[q := sc_normal s ! q @ ts]\<rparr>"

definition push_hiPri :: "nat \<Rightarrow> nat \<Rightarrow> sched \<Rightarrow> sched" where
  "push_hiPri q t s = s\<lparr>sc_hiPri := (sc_hiPri s)[q := sc_hiPri s ! q @ [t]]\<rparr>"

definition push_own :: "nat \<Rightarrow> nat list \<Rightarrow> sched \<Rightarrow> sched" where
  "push_own q ts s = s\<lparr>sc_deques := (sc_deques s)[q := sc_deques s ! q @ ts]\<rparr>"

text \<open>\<open>MarkQueuedWork\<close> and \<open>NotifyWorker\<close>.\<close>

definition mark :: "nat \<Rightarrow> sched \<Rightarrow> sched" where
  "mark q s = s\<lparr>sc_marked := (sc_marked s)[q := True]\<rparr>"

definition notify :: "nat \<Rightarrow> sched \<Rightarrow> sched" where
  "notify q s = (mark q s)\<lparr>sc_woken := sc_woken s @ [q]\<rparr>"

section \<open>Choosing a worker\<close>

text \<open>\<open>PopIdleWorker\<close> in one piece (\<open>WorkerParks\<close> has its steps): stale entries are unlinked and passed over.\<close>

fun pop_idle :: "nat list \<Rightarrow> sched \<Rightarrow> nat option \<times> sched" where
  "pop_idle [] s = (None, s\<lparr>sc_idle := []\<rparr>)"
| "pop_idle (q # qs) s =
    (let s1 = s\<lparr>sc_idle := qs, sc_linked := (sc_linked s)[q := False]\<rparr>
     in if sc_armed s ! q then (Some q, s1\<lparr>sc_armed := (sc_armed s)[q := False]\<rparr>) else pop_idle qs s1)"

definition PickNextWorker :: "Lane \<Rightarrow> sched \<Rightarrow> nat \<times> sched" where
  "PickNextWorker lane s =
    (let n = sc_workers s; hotN = sc_hot s; laneBase = (if hotN < n then n - hotN else 0) in
     if n = 0 then (0, s)
     else if IsLowLatency lane \<and> hotN \<noteq> 0 then (laneBase + unat (sc_nextHot s mod of_nat hotN), s\<lparr>sc_nextHot := sc_nextHot s + 1\<rparr>)
     else
       let computeN = (if hotN < n then n - hotN else n);
           start = scast (sc_nextWorker s) :: u64;
           s1 = s\<lparr>sc_nextWorker := sc_nextWorker s + 1\<rparr>;
           (popped, s2) = (if sc_searching s = 0 then pop_idle (sc_idle s) s1 else (None, s1));
           order = map (\<lambda>i. unat ((start + of_nat i) mod of_nat computeN)) [0..<computeN]
       in if popped \<noteq> None \<and> the popped < computeN then (the popped, s2)
          else (case List.find (\<lambda>q. \<not> sc_linked s2 ! q \<and> \<not> sc_away s ! q) order of
                  Some q \<Rightarrow> (q, s2) | None \<Rightarrow> (unat (start mod of_nat computeN), s2)))"

section \<open>Pushes\<close>

definition PushTo :: "nat \<Rightarrow> nat \<Rightarrow> sched \<Rightarrow> bool \<times> sched" where
  "PushTo worker t s = (if sc_workers s \<le> worker then (False, s) else (True, notify worker (push_hiPri worker t s)))"

text \<open>The placement by core class: the members of the class, from the round-robin position on, the first that is not away.\<close>

definition candidate :: "sched \<Rightarrow> CorePref \<Rightarrow> nat \<Rightarrow> bool" where
  "candidate s p q \<longleftrightarrow> \<not> isMain q s \<and> (p = PrefAny \<or> (p = PrefP) = sc_isP s ! q)"

definition PushTo_class :: "nat \<Rightarrow> CorePref \<Rightarrow> bool \<Rightarrow> sched \<Rightarrow> bool \<times> sched" where
  "PushTo_class t pref hiPri s =
    (let members = (\<lambda>p. filter (candidate s p) [0..<ReservedBase s]);
         p1 = (if members pref = [] \<and> pref = PrefE then PrefP else pref);
         p2 = (if members p1 = [] then PrefAny else p1);
         cs = members p2;
         k = unat ((if p2 = PrefE then sc_nextE s else sc_nextP s) mod of_nat (length cs));
         s1 = (if p2 = PrefE then s\<lparr>sc_nextE := sc_nextE s + 1\<rparr> else s\<lparr>sc_nextP := sc_nextP s + 1\<rparr>);
         pick = (case List.find (\<lambda>q. \<not> sc_away s ! q) (drop k cs @ cs) of Some q \<Rightarrow> q | None \<Rightarrow> cs ! k)
     in if sc_workers s = 0 \<or> cs = [] then (False, s)
        else if hiPri then PushTo pick t s1
        else (True, notify pick (push_normal pick [t] s1)))"

definition PushInjector :: "nat list \<Rightarrow> bool \<Rightarrow> int \<Rightarrow> sched \<Rightarrow> bool \<times> sched" where
  "PushInjector ts ok now s =
    (if ts = [] \<or> \<not> sc_active s \<or> \<not> ok then (False, s)
     else (True, s\<lparr>sc_injector := sc_injector s @ ts, sc_injectorCount := sc_injectorCount s + int (length ts), sc_ioLastPush := now\<rparr>))"

definition TakeInjector :: "nat option \<Rightarrow> sched \<Rightarrow> nat option \<times> sched" where
  "TakeInjector pick s =
    (if \<not> sc_active s \<or> sc_injectorCount s \<le> 0 then (None, s)
     else (case pick of None \<Rightarrow> (None, s)
           | Some i \<Rightarrow> if i < length (sc_injector s)
                       then (Some (sc_injector s ! i), s\<lparr>sc_injector := take i (sc_injector s) @ drop (i + 1) (sc_injector s), sc_injectorCount := sc_injectorCount s - 1\<rparr>)
                       else (None, s)))"

definition InjectorIdle :: "sched \<Rightarrow> bool" where
  "InjectorIdle s \<longleftrightarrow> \<not> sc_active s \<or> sc_injectorCount s \<le> 0 \<and> sc_injector s = []"

definition IoLaneQuiet :: "int \<Rightarrow> sched \<Rightarrow> bool" where
  "IoLaneQuiet now s \<longleftrightarrow> sc_reservedStealing s \<and> (sc_ioLastPush s = 0 \<or> int (sc_ioQuietUs s) * 1000 < now - sc_ioLastPush s)"

definition PushIO :: "nat \<Rightarrow> sched \<Rightarrow> bool \<times> sched" where
  "PushIO t s = (if \<not> IsLowLatency (tk_lane (sc_task s t)) \<or> sc_hot s = 0 then (False, s)
     else PushTo (ReservedBase s + unat (sc_ioSteer s mod of_nat (sc_hot s))) t (s\<lparr>sc_ioSteer := sc_ioSteer s + 1\<rparr>))"

text \<open>Whether latency work goes to the injector, and the narrowing of a chosen index to eight bits.\<close>

definition to_injector :: "nat \<Rightarrow> sched \<Rightarrow> bool" where
  "to_injector t s \<longleftrightarrow> IsLowLatency (tk_lane (sc_task s t)) \<and> HiPriLaneActive s \<and> sc_injectorOn s"

definition narrow8 :: "nat \<Rightarrow> nat" where "narrow8 q = q mod 256"

text \<open>\<open>self\<close>: the queue index of the calling pool worker. A push at a worker with a long deque also wakes its idle sibling.\<close>

definition MaybeBuddyWake :: "nat \<Rightarrow> sched \<Rightarrow> sched" where
  "MaybeBuddyWake k s = (case (if k < length (sc_sibling s) then sc_sibling s ! k else None) of
     None \<Rightarrow> s
   | Some b \<Rightarrow> if b = k \<or> sc_workers s \<le> b \<or> length (sc_deques s) \<le> k \<or> length (sc_deques s ! k) \<le> 32 \<or> \<not> sc_linked s ! b then s
               else s\<lparr>sc_woken := sc_woken s @ [b]\<rparr>)"

definition place_normal :: "nat \<Rightarrow> nat \<Rightarrow> sched \<Rightarrow> sched" where
  "place_normal q t s = notify q (push_normal q [t] s)"

definition PushTarget :: "nat \<Rightarrow> nat option \<Rightarrow> nat option \<Rightarrow> bool \<Rightarrow> int \<Rightarrow> sched \<Rightarrow> bool \<times> sched" where
  "PushTarget t worker self ok now s =
    (if worker \<noteq> None \<and> the worker < sc_workers s then
       (True, notify (the worker) (if IsLowLatency (tk_lane (sc_task s t)) \<and> HiPriLaneActive s then push_hiPri (the worker) t s else push_normal (the worker) [t] s))
     else
       let (taken, s0) = (if to_injector t s then PushInjector [t] ok now s else (False, s))
       in if taken then (True, s0)
          else let (c, s1) = PickNextWorker Normal s0
               in if narrow8 c = 0 \<and> sc_mainMode s = InPool \<and> self = Some 0 then (True, push_own 0 [t] s1)
                  else (True, MaybeBuddyWake (narrow8 c) (place_normal (narrow8 c) t s1)))"

definition Push :: "nat \<Rightarrow> nat option \<Rightarrow> bool \<Rightarrow> int \<Rightarrow> sched \<Rightarrow> bool \<times> sched" where
  "Push t self ok now s = (case self of
     Some q \<Rightarrow> if \<not> isMain q s \<and> \<not> to_injector t s then (True, push_own q [t] s) else PushTarget t None self ok now s
   | None \<Rightarrow> PushTarget t None self ok now s)"

definition PushMainQueue :: "nat \<Rightarrow> sched \<Rightarrow> sched" where
  "PushMainQueue t s = (if sc_mainMode s = InPool then snd (PushTo 0 t s) else s\<lparr>sc_mainQ := sc_mainQ s @ [t], sc_mainKicks := sc_mainKicks s + 1\<rparr>)"

definition PushMain :: "nat \<Rightarrow> sched \<Rightarrow> bool \<times> sched" where
  "PushMain t s = (if sc_active s then (True, PushMainQueue t s) else (False, s))"

section \<open>Batches\<close>

definition submitRun :: "nat list \<Rightarrow> nat \<Rightarrow> sched \<Rightarrow> sched" where
  "submitRun ts chosen s = notify chosen (push_normal chosen ts s)"

fun spread_runs :: "nat list \<Rightarrow> nat list \<Rightarrow> sched \<Rightarrow> sched" where
  "spread_runs [] ts s = s"
| "spread_runs (len # lens) ts s = (if len = 0 then spread_runs lens ts s
     else let (c, s1) = PickNextWorker Normal s in spread_runs lens (drop len ts) (submitRun (take len ts) c s1))"

text \<open>\<open>None\<close>: the division by the number of segments traps, which happens when there is no worker.\<close>

definition segment_count :: "nat \<Rightarrow> nat \<Rightarrow> sched \<Rightarrow> nat" where
  "segment_count cnt minPer s =
    (let mp = (if minPer = 0 then 1 else minPer); nw = sc_workers s;
         reachable = (if sc_hot s < nw then nw - sc_hot s else nw);
         seg0 = (if nw = 0 then 1 else cnt div mp);
         seg1 = (if seg0 < 1 then 1 else seg0)
     in if reachable < seg1 then reachable else seg1)"

definition segment_lens :: "nat \<Rightarrow> nat \<Rightarrow> nat list option" where
  "segment_lens cnt segments = (if segments = 0 then None else Some (map (\<lambda>i. cnt div segments + (if i < cnt mod segments then 1 else 0)) [0..<segments]))"

definition PushBatch :: "nat list \<Rightarrow> nat option \<Rightarrow> nat \<Rightarrow> sched \<Rightarrow> sched option" where
  "PushBatch ts worker minPer s =
    (if ts = [] then Some s
     else (case worker of
             Some w \<Rightarrow> Some (let (c, s1) = (if IsReservedIndex w s then PickNextWorker Normal s else (w, s)) in submitRun ts c s1)
           | None \<Rightarrow> map_option (\<lambda>lens. spread_runs lens ts s) (segment_lens (length ts) (segment_count (length ts) minPer s))))"

definition PushBatch_spread :: "nat list \<Rightarrow> bool \<Rightarrow> sched \<Rightarrow> sched option" where
  "PushBatch_spread ts wide s =
    (if ts = [] \<or> sc_workers s = 0 then Some s
     else if wide then PushBatch ts None 64 s
     else let (c, s1) = PickNextWorker Normal s in PushBatch ts (Some c) 0 s1)"

section \<open>Resuming\<close>

definition ComputeSelf :: "nat option \<Rightarrow> sched \<Rightarrow> nat option" where
  "ComputeSelf self s = (case self of None \<Rightarrow> None | Some q \<Rightarrow> if isMain q s \<or> sc_workers s \<le> q \<or> IsReservedIndex q s then None else Some q)"

datatype RequeueResult = Failed | RPinned | RStealable

definition Requeue :: "nat \<Rightarrow> nat option \<Rightarrow> bool \<Rightarrow> int \<Rightarrow> sched \<Rightarrow> RequeueResult \<times> sched" where
  "Requeue t self ok now s =
    (let pn = sc_pin s t; (pushed, sp) = (if pn \<noteq> pinNone then PushTo (unat pn) t s else (False, s)) in
     if pn = pinMain then (RPinned, PushMainQueue t s)
     else if pushed then (RPinned, sp)
     else if tk_started (sc_task s t) then (RStealable, snd (PushTarget t None self ok now s))
     else let (taken, si) = (if to_injector t s then PushInjector [t] ok now s else (False, s))
          in if taken then (RStealable, si)
             else let (c, s1) = PickNextWorker Normal si in (RPinned, place_normal (narrow8 c) t s1))"

definition ResumeFiber :: "nat \<Rightarrow> nat option \<Rightarrow> bool \<Rightarrow> int \<Rightarrow> sched \<Rightarrow> sched" where
  "ResumeFiber t self ok now s =
    (let pn = sc_pin s t in
     if pn = pinMain then PushMainQueue t s
     else if pn \<noteq> pinNone then snd (PushTo (unat pn) t s)
     else (case ComputeSelf self s of Some q \<Rightarrow> push_own q [t] s | None \<Rightarrow> snd (Requeue t self ok now s)))"

definition YieldFiber :: "nat \<Rightarrow> nat option \<Rightarrow> bool \<Rightarrow> int \<Rightarrow> sched \<Rightarrow> bool \<times> sched" where
  "YieldFiber t self ok now s =
    (case self of
       None \<Rightarrow> (False, ResumeFiber t self ok now s)
     | Some q \<Rightarrow>
         let pn = sc_pin s t in
         if pn = pinMain then (isMain q s, PushMainQueue t s)
         else if unat pn = q then (True, mark q (push_hiPri q t s))
         else if pn \<noteq> pinNone then (False, snd (PushTo (unat pn) t s))
         else if IsNormalLane (tk_lane (sc_task s t)) \<and> ComputeSelf self s = Some q then (True, push_own q [t] s)
         else (False, snd (Requeue t self ok now s)))"

definition WakeTask :: "nat \<Rightarrow> nat option \<Rightarrow> bool \<Rightarrow> int \<Rightarrow> sched \<Rightarrow> bool \<times> sched" where
  "WakeTask t self ok now s = (if tk_started (sc_task s t) then (True, ResumeFiber t self ok now s) else Push t self ok now s)"

definition PushResume :: "nat \<Rightarrow> nat \<Rightarrow> sched \<Rightarrow> bool \<times> sched" where
  "PushResume worker t s = (if sc_active s then PushTo worker t s else (False, s))"

definition NotifyHolder :: "nat \<Rightarrow> sched \<Rightarrow> bool \<times> sched" where
  "NotifyHolder worker s = (if \<not> sc_active s \<or> sc_workers s \<le> worker then (False, s) else (True, notify worker s))"

fun RequeueResumedBatch :: "nat list \<Rightarrow> nat option \<Rightarrow> bool \<Rightarrow> int \<Rightarrow> sched \<Rightarrow> sched" where
  "RequeueResumedBatch [] self ok now s = s"
| "RequeueResumedBatch (t # ts) self ok now s = RequeueResumedBatch ts self ok now (ResumeFiber t self ok now s)"

section \<open>Leaving for a blocking call\<close>

text \<open>The normal inbox onto the deque, in order; the batches of 64 make no difference to what is where.\<close>

definition DrainOwnInboxesToDeques :: "nat \<Rightarrow> sched \<Rightarrow> bool \<times> sched" where
  "DrainOwnInboxesToDeques q s =
    (if IsReservedIndex q s then (False, s)
     else (sc_normal s ! q \<noteq> [], (push_own q (sc_normal s ! q) s)\<lparr>sc_normal := (sc_normal s)[q := []]\<rparr>))"

text \<open>\<open>None\<close>: the process is stopped, for an epoch guard held across the call.\<close>

definition BlockBegin :: "nat option \<Rightarrow> bool \<Rightarrow> sched \<Rightarrow> sched option" where
  "BlockBegin self guarded s = (case self of None \<Rightarrow> Some s | Some q \<Rightarrow>
     let s1 = s\<lparr>sc_depth := (sc_depth s)[q := sc_depth s ! q + 1]\<rparr> in
     if sc_depth s ! q \<noteq> 0 then Some s1
     else if guarded then None
     else if IsReservedIndex q s then Some s1
     else Some ((snd (DrainOwnInboxesToDeques q s1))\<lparr>sc_away := (sc_away s)[q := True]\<rparr>))"

definition BlockEnd :: "nat option \<Rightarrow> sched \<Rightarrow> sched" where
  "BlockEnd self s = (case self of None \<Rightarrow> s | Some q \<Rightarrow>
     if sc_depth s ! q = 0 then s
     else let s1 = s\<lparr>sc_depth := (sc_depth s)[q := sc_depth s ! q - 1]\<rparr> in
       if sc_depth s1 ! q \<noteq> 0 \<or> IsReservedIndex q s then s1 else s1\<lparr>sc_away := (sc_away s1)[q := False]\<rparr>)"

section \<open>Well-formed pools\<close>

definition queued :: "sched \<Rightarrow> nat multiset" where
  "queued s = sum_list (map mset (sc_deques s)) + sum_list (map mset (sc_normal s)) + sum_list (map mset (sc_hiPri s)) + mset (sc_mainQ s) + mset (sc_injector s)"

text \<open>The lists have an entry per worker; there is a compute worker; only compute workers are idle; and the normal inboxes of the reserved
  workers, which nobody ever drains, are empty.\<close>

definition sc_wf :: "sched \<Rightarrow> bool" where
  [inv_defs]: "sc_wf s \<longleftrightarrow> sc_hot s < sc_workers s \<and> sc_workers s < 2 ^ 16 \<and> sc_workers s \<le> length (sc_deques s) \<and> length (sc_normal s) = sc_workers s \<and>
    length (sc_hiPri s) = sc_workers s \<and> length (sc_marked s) = sc_workers s \<and> length (sc_away s) = sc_workers s \<and> length (sc_linked s) = sc_workers s \<and> length (sc_armed s) = sc_workers s \<and>
    length (sc_depth s) = sc_workers s \<and> set (sc_idle s) \<subseteq> {..<ReservedBase s} \<and>
    (\<forall>q < sc_workers s. ReservedBase s \<le> q \<longrightarrow> sc_normal s ! q = [])"

text \<open>What every placement leaves alone.\<close>

definition same_shape :: "sched \<Rightarrow> sched \<Rightarrow> bool" where
  "same_shape s t \<longleftrightarrow> sc_workers t = sc_workers s \<and> sc_hot t = sc_hot s \<and> sc_active t = sc_active s \<and> sc_mainMode t = sc_mainMode s \<and>
    sc_injectorOn t = sc_injectorOn s \<and> sc_task t = sc_task s \<and> sc_pin t = sc_pin s"

lemma ReservedBase_wf: "sc_wf s \<Longrightarrow> ReservedBase s = sc_workers s - sc_hot s \<and> 0 < ReservedBase s \<and> ReservedBase s \<le> sc_workers s"
  by (auto simp: sc_wf_def ReservedBase_def)

lemma wf_lens:
  assumes "sc_wf s"
  shows "length (sc_normal s) = sc_workers s" "length (sc_hiPri s) = sc_workers s" "sc_workers s \<le> length (sc_deques s)" "0 < sc_workers s"
  using assms by (auto simp: sc_wf_def)

lemma wf_frame:
  assumes "sc_wf s" "sc_workers t = sc_workers s" "sc_hot t = sc_hot s" "sc_deques t = sc_deques s" "sc_normal t = sc_normal s" "sc_hiPri t = sc_hiPri s"
    "sc_marked t = sc_marked s" "sc_away t = sc_away s" "length (sc_linked t) = length (sc_linked s)" "length (sc_armed t) = length (sc_armed s)" "sc_depth t = sc_depth s" "set (sc_idle t) \<subseteq> set (sc_idle s)"
  shows "sc_wf t" "ReservedBase t = ReservedBase s"
proof -
  show r: "ReservedBase t = ReservedBase s" using assms by (simp add: ReservedBase_def)
  show "sc_wf t" using assms unfolding sc_wf_def r by auto
qed

lemma sum_mset_append:
  "q < length xss \<Longrightarrow> sum_list (map mset (xss[q := xss ! q @ ts])) = sum_list (map mset xss) + mset ts"
  using sum_pcs_update [of q xss mset "xss ! q @ ts"] by (simp add: ac_simps)

lemma queued_push [simp]:
  "q < length (sc_normal s) \<Longrightarrow> queued (push_normal q ts s) = queued s + mset ts"
  "q < length (sc_hiPri s) \<Longrightarrow> queued (push_hiPri q t s) = add_mset t (queued s)"
  "q < length (sc_deques s) \<Longrightarrow> queued (push_own q ts s) = queued s + mset ts"
  by (simp_all add: queued_def push_normal_def push_hiPri_def push_own_def sum_mset_append)

lemma queued_signal [simp]: "queued (mark q s) = queued s" "queued (notify q s) = queued s" "queued (MaybeBuddyWake q s) = queued s"
  by (simp_all add: queued_def mark_def notify_def MaybeBuddyWake_def split: option.split)

lemma wf_signal [simp]: "sc_wf (mark q s) = sc_wf s" "sc_wf (notify q s) = sc_wf s" "sc_wf (MaybeBuddyWake q s) = sc_wf s"
  by (simp_all add: sc_wf_def ReservedBase_def mark_def notify_def MaybeBuddyWake_def split: option.split)

lemma shape_signal [simp]: "same_shape r (mark q s) = same_shape r s" "same_shape r (notify q s) = same_shape r s" "same_shape r (MaybeBuddyWake q s) = same_shape r s"
  by (simp_all add: same_shape_def mark_def notify_def MaybeBuddyWake_def split: option.split)

lemma shape_push [simp]: "same_shape r (push_normal q ts s) = same_shape r s" "same_shape r (push_hiPri q t s) = same_shape r s"
  "same_shape r (push_own q ts s) = same_shape r s"
  by (simp_all add: same_shape_def push_normal_def push_hiPri_def push_own_def)

lemma shape_refl [simp]: "same_shape s s"
  by (simp add: same_shape_def)

lemma wf_push:
  "sc_wf s \<Longrightarrow> q < ReservedBase s \<Longrightarrow> sc_wf (push_normal q ts s)" "sc_wf (push_hiPri q t s) = sc_wf s" "sc_wf (push_own q ts s) = sc_wf s"
  by (auto simp: sc_wf_def ReservedBase_def push_normal_def push_hiPri_def push_own_def nth_list_update)

text \<open>The chosen worker is a compute worker.\<close>

lemma find_member: "List.find P xs = Some x \<Longrightarrow> x \<in> set xs"
  by (metis find_Some_iff nth_mem)

lemma unat_mod_less: "0 < n \<Longrightarrow> n < 2 ^ 64 \<Longrightarrow> unat (w mod of_nat n :: u64) < n"
  by (simp add: unat_mod unsigned_of_nat take_bit_nat_eq_self)

lemma pop_idle_frame:
  assumes "pop_idle qs s = (r, t)"
  shows "(\<exists>i l a. t = s\<lparr>sc_idle := i, sc_linked := l, sc_armed := a\<rparr> \<and> set i \<subseteq> set qs \<and> length l = length (sc_linked s) \<and> length a = length (sc_armed s)) \<and> (\<forall>q. r = Some q \<longrightarrow> q \<in> set qs)"
  using assms
proof (induction qs s rule: pop_idle.induct)
  case (1 s)
  then show ?case by (intro conjI exI [of _ "[]"] exI [of _ "sc_linked s"] exI [of _ "sc_armed s"]) auto
next
  case (2 q qs s)
  let ?s1 = "s\<lparr>sc_idle := qs, sc_linked := (sc_linked s)[q := False]\<rparr>"
  show ?case
  proof (cases "sc_armed s ! q")
    case True
    then show ?thesis using 2(2) by (intro conjI exI [of _ qs] exI [of _ "(sc_linked s)[q := False]"] exI [of _ "(sc_armed s)[q := False]"]) auto
  next
    case False
    then have "pop_idle qs ?s1 = (r, t)" using 2(2) by simp
    from 2(1) [OF refl False this] obtain i l a where "t = ?s1\<lparr>sc_idle := i, sc_linked := l, sc_armed := a\<rparr>" "set i \<subseteq> set qs"
      "length l = length (sc_linked s)" "length a = length (sc_armed s)" "\<forall>q. r = Some q \<longrightarrow> q \<in> set qs" by auto
    then show ?thesis by (intro conjI exI [of _ i] exI [of _ l] exI [of _ a]) auto
  qed
qed

lemma PickNextWorker_compute:
  assumes "sc_wf s" "PickNextWorker Normal s = (c, t)"
  shows "c < ReservedBase s \<and> sc_wf t \<and> same_shape s t \<and> queued t = queued s \<and> ReservedBase t = ReservedBase s \<and> sc_marked t = sc_marked s \<and> sc_woken t = sc_woken s"
proof -
  have n: "sc_hot s < sc_workers s" "sc_workers s < 2 ^ 16" using assms(1) by (auto simp: sc_wf_def)
  let ?n = "sc_workers s - sc_hot s"
  let ?s1 = "s\<lparr>sc_nextWorker := sc_nextWorker s + 1\<rparr>"
  have base: "ReservedBase s = ?n" using n by (simp add: ReservedBase_def)
  have lt: "unat (w mod of_nat ?n :: u64) < ?n" for w using n by (intro unat_mod_less) auto
  obtain r s2 where p: "(if sc_searching s = 0 then pop_idle (sc_idle s) ?s1 else (None, ?s1)) = (r, s2)" by fastforce
  let ?order = "map (\<lambda>i. unat ((scast (sc_nextWorker s) + of_nat i) mod of_nat ?n :: u64)) [0..<?n]"
  have ord: "q < ?n" if "List.find P ?order = Some q" for P q using find_member [OF that] lt by auto
  have ct: "t = s2" "c < ?n"
    using assms(2) n lt ord by (auto simp: PickNextWorker_def Let_def IsLowLatency_def p split: if_splits option.splits)
  have "\<exists>i l a. s2 = ?s1\<lparr>sc_idle := i, sc_linked := l, sc_armed := a\<rparr> \<and> set i \<subseteq> set (sc_idle s) \<and> length l = length (sc_linked s) \<and> length a = length (sc_armed s)"
  proof (cases "sc_searching s = 0")
    case True
    then show ?thesis using p pop_idle_frame [of "sc_idle s" ?s1 r s2] by simp
  next
    case False
    then show ?thesis using p by (intro conjI exI [of _ "sc_idle s"] exI [of _ "sc_linked s"] exI [of _ "sc_armed s"]) auto
  qed
  then obtain i l a where t: "t = ?s1\<lparr>sc_idle := i, sc_linked := l, sc_armed := a\<rparr>" "set i \<subseteq> set (sc_idle s)" "length l = length (sc_linked s)" "length a = length (sc_armed s)"
    using ct(1) by blast
  have "sc_wf t" "ReservedBase t = ReservedBase s" by (rule wf_frame [OF assms(1)]; use t in simp)+
  moreover have "same_shape s t \<and> queued t = queued s \<and> sc_marked t = sc_marked s \<and> sc_woken t = sc_woken s" using t(1) by (simp add: same_shape_def queued_def)
  ultimately show ?thesis using ct(2) base by simp
qed

section \<open>Each placement puts its tasks into one queue\<close>

definition placed :: "nat list \<Rightarrow> sched \<Rightarrow> bool \<times> sched \<Rightarrow> bool" where
  "placed ts s r \<longleftrightarrow> sc_wf (snd r) \<and> same_shape s (snd r) \<and> queued (snd r) = queued s + (if fst r then mset ts else {#})"

lemma shape_trans: "same_shape r s \<Longrightarrow> same_shape s t \<Longrightarrow> same_shape r t"
  by (simp add: same_shape_def)

lemma narrow8_le: "narrow8 q \<le> q"
  by (simp add: narrow8_def)

lemma placed_hi: "sc_wf s \<Longrightarrow> q < sc_workers s \<Longrightarrow> placed [t] s (True, notify q (push_hiPri q t s)) \<and> placed [t] s (True, mark q (push_hiPri q t s))"
  using wf_lens [of s] by (simp add: placed_def wf_push)

lemma placed_own: "sc_wf s \<Longrightarrow> q < sc_workers s \<Longrightarrow> placed [t] s (True, push_own q [t] s)"
  using wf_lens [of s] by (simp add: placed_def wf_push)

lemma placed_none: "sc_wf s \<Longrightarrow> placed ts s (False, s)"
  by (simp add: placed_def)

lemma PushTo_placed: "sc_wf s \<Longrightarrow> placed [t] s (PushTo q t s)"
  using placed_hi [of s q t] placed_none [of s "[t]"] by (simp add: PushTo_def)

lemma PushTo_true [simp]: "fst (PushTo q t s) \<longleftrightarrow> q < sc_workers s"
  by (simp add: PushTo_def)

lemma place_normal_placed: "sc_wf s \<Longrightarrow> q < ReservedBase s \<Longrightarrow> placed [t] s (True, place_normal q t s)"
  using ReservedBase_wf [of s] wf_lens [of s] by (auto simp: placed_def place_normal_def wf_push)

lemma PushInjector_placed:
  assumes "sc_wf s"
  shows "placed ts s (PushInjector ts ok now s)"
proof -
  have "sc_wf (s\<lparr>sc_injector := sc_injector s @ ts, sc_injectorCount := sc_injectorCount s + int (length ts), sc_ioLastPush := now\<rparr>)"
    by (rule wf_frame [OF assms]) simp_all
  then show ?thesis using assms by (simp add: placed_def PushInjector_def same_shape_def queued_def ac_simps)
qed

lemma placed_true_snd: "placed ts s r \<Longrightarrow> fst r \<Longrightarrow> placed ts s (True, snd r)"
  by (simp add: placed_def)

text \<open>The common tail: the injector, or a chosen compute worker.\<close>

lemma inject_or_pick_placed:
  assumes "sc_wf s" "(if to_injector t s then PushInjector [t] ok now s else (False, s)) = (taken, s0)" "PickNextWorker Normal s0 = (c, s1)"
  shows "if taken then placed [t] s (True, s0) else placed [t] s (True, place_normal (narrow8 c) t s1) \<and> narrow8 c < ReservedBase s1 \<and> sc_wf s1 \<and> same_shape s s1 \<and> queued s1 = queued s"
proof -
  have p: "placed [t] s (taken, s0)" using assms(1,2) PushInjector_placed [OF assms(1), of "[t]" ok now] by (auto simp: placed_def split: if_splits)
  show ?thesis
  proof (cases taken)
    case False
    then have s0: "sc_wf s0" "same_shape s s0" "queued s0 = queued s" using p by (auto simp: placed_def)
    note pick = PickNextWorker_compute [OF s0(1) assms(3)]
    have lt: "narrow8 c < ReservedBase s1" using pick narrow8_le [of c] by linarith
    have q: "same_shape s s1" "queued s1 = queued s" "sc_wf s1" using pick s0 by (auto intro: shape_trans)
    then have "placed [t] s (True, place_normal (narrow8 c) t s1)" using place_normal_placed [OF q(3) lt, of t] by (auto simp: placed_def intro: shape_trans)
    then show ?thesis using False lt q by simp
  qed (use p in simp)
qed

lemma PushTarget_placed:
  assumes "sc_wf s"
  shows "placed [t] s (PushTarget t None self ok now s) \<and> fst (PushTarget t None self ok now s)"
proof -
  obtain taken s0 where i: "(if to_injector t s then PushInjector [t] ok now s else (False, s)) = (taken, s0)" by fastforce
  obtain c s1 where p: "PickNextWorker Normal s0 = (c, s1)" by fastforce
  note pl = inject_or_pick_placed [OF assms i p]
  have own: "placed [t] s (True, push_own 0 [t] s1)" if "\<not> taken"
    using that pl placed_own [of s1 0 t] wf_lens(4) [of s1] by (auto simp: placed_def intro: shape_trans)
  have eq: "PushTarget t None self ok now s = (if taken then (True, s0)
      else if narrow8 c = 0 \<and> sc_mainMode s = InPool \<and> self = Some 0 then (True, push_own 0 [t] s1)
      else (True, MaybeBuddyWake (narrow8 c) (place_normal (narrow8 c) t s1)))"
    by (simp add: PushTarget_def i p)
  show ?thesis unfolding eq using pl own by (auto simp: placed_def split: if_splits)
qed

lemma Push_placed:
  assumes "sc_wf s" "\<forall>q. self = Some q \<longrightarrow> q < sc_workers s"
  shows "placed [t] s (Push t self ok now s) \<and> fst (Push t self ok now s)"
proof -
  have "placed [t] s (True, push_own q [t] s)" if "self = Some q" for q using that assms placed_own by simp
  then show ?thesis using PushTarget_placed [OF assms(1)] by (auto simp: Push_def split: option.split)
qed

lemma PushMainQueue_placed: "sc_wf s \<Longrightarrow> placed [t] s (True, PushMainQueue t s)"
proof -
  assume wf: "sc_wf s"
  have "sc_wf (s\<lparr>sc_mainQ := sc_mainQ s @ [t], sc_mainKicks := sc_mainKicks s + 1\<rparr>)" by (rule wf_frame [OF wf]) simp_all
  then have "placed [t] s (True, s\<lparr>sc_mainQ := sc_mainQ s @ [t], sc_mainKicks := sc_mainKicks s + 1\<rparr>)"
    by (simp add: placed_def same_shape_def queued_def ac_simps)
  moreover have "placed [t] s (True, snd (PushTo 0 t s))" using PushTo_placed [OF wf, of t 0] wf_lens(4) [OF wf] by (intro placed_true_snd) simp_all
  ultimately show ?thesis by (simp add: PushMainQueue_def)
qed

text \<open>A pin is no pin, main, or a worker.\<close>

definition pin_ok :: "sched \<Rightarrow> nat \<Rightarrow> bool" where
  "pin_ok s t \<longleftrightarrow> sc_pin s t = pinNone \<or> sc_pin s t = pinMain \<or> unat (sc_pin s t) < sc_workers s"

lemma Requeue_placed:
  assumes "sc_wf s"
  shows "placed [t] s (True, snd (Requeue t self ok now s))"
proof -
  obtain taken s0 where i: "(if to_injector t s then PushInjector [t] ok now s else (False, s)) = (taken, s0)" by fastforce
  obtain c s1 where p: "PickNextWorker Normal s0 = (c, s1)" by fastforce
  note pl = inject_or_pick_placed [OF assms i p]
  obtain pushed sp where q: "(if sc_pin s t \<noteq> pinNone then PushTo (unat (sc_pin s t)) t s else (False, s)) = (pushed, sp)" by fastforce
  have pq: "placed [t] s (pushed, sp)" using q PushTo_placed [OF assms, of t "unat (sc_pin s t)"] placed_none [OF assms, of "[t]"] by (cases "sc_pin s t = pinNone") auto
  have eq: "snd (Requeue t self ok now s) = (if sc_pin s t = pinMain then PushMainQueue t s else if pushed then sp
      else if tk_started (sc_task s t) then snd (PushTarget t None self ok now s) else if taken then s0 else place_normal (narrow8 c) t s1)"
    by (simp add: Requeue_def Let_def i p q)
  show ?thesis unfolding eq
    using pl pq PushMainQueue_placed [OF assms, of t] placed_true_snd PushTarget_placed [OF assms, of t self ok now] by (cases pushed) simp_all
qed

lemma ResumeFiber_placed:
  assumes "sc_wf s" "pin_ok s t"
  shows "placed [t] s (True, ResumeFiber t self ok now s)"
proof -
  have own: "placed [t] s (True, push_own q [t] s)" if "ComputeSelf self s = Some q" for q
    using that placed_own [OF assms(1)] by (auto simp: ComputeSelf_def split: option.splits if_splits)
  have "placed [t] s (True, snd (PushTo (unat (sc_pin s t)) t s))" if "sc_pin s t \<noteq> pinMain" "sc_pin s t \<noteq> pinNone"
    using that assms PushTo_placed [OF assms(1), of t "unat (sc_pin s t)"] by (intro placed_true_snd) (auto simp: pin_ok_def)
  then show ?thesis unfolding ResumeFiber_def Let_def using own PushMainQueue_placed [OF assms(1)] Requeue_placed [OF assms(1)] by (auto split: option.split)
qed

lemma YieldFiber_placed:
  assumes "sc_wf s" "pin_ok s t" "\<forall>q. self = Some q \<longrightarrow> q < sc_workers s"
  shows "placed [t] s (True, snd (YieldFiber t self ok now s))"
proof (cases self)
  case None
  then show ?thesis using ResumeFiber_placed [OF assms(1,2)] by (simp add: YieldFiber_def)
next
  case (Some q)
  then have q: "q < sc_workers s" using assms(3) by simp
  have "placed [t] s (True, mark q (push_hiPri q t s))" "placed [t] s (True, push_own q [t] s)"
    using q placed_hi [OF assms(1)] placed_own [OF assms(1)] by blast+
  moreover have "placed [t] s (True, snd (PushTo (unat (sc_pin s t)) t s))" if "sc_pin s t \<noteq> pinMain" "sc_pin s t \<noteq> pinNone"
    using that assms PushTo_placed [OF assms(1), of t "unat (sc_pin s t)"] by (intro placed_true_snd) (auto simp: pin_ok_def)
  ultimately show ?thesis using Some PushMainQueue_placed [OF assms(1), of t] Requeue_placed [OF assms(1), of t self ok now] by (simp add: YieldFiber_def Let_def)
qed

lemma PushTo_class_placed:
  assumes "sc_wf s"
  shows "placed [t] s (PushTo_class t pref hiPri s)"
proof -
  define members where "members = (\<lambda>p. filter (candidate s p) [0..<ReservedBase s])"
  define p2 where "p2 = (let p1 = (if members pref = [] \<and> pref = PrefE then PrefP else pref) in if members p1 = [] then PrefAny else p1)"
  define cs where "cs = members p2"
  define k where "k = unat ((if p2 = PrefE then sc_nextE s else sc_nextP s) mod of_nat (length cs))"
  define s1 where "s1 = (if p2 = PrefE then s\<lparr>sc_nextE := sc_nextE s + 1\<rparr> else s\<lparr>sc_nextP := sc_nextP s + 1\<rparr>)"
  define pick where "pick = (case List.find (\<lambda>q. \<not> sc_away s ! q) (drop k cs @ cs) of Some q \<Rightarrow> q | None \<Rightarrow> cs ! k)"
  have eq: "PushTo_class t pref hiPri s = (if sc_workers s = 0 \<or> cs = [] then (False, s) else if hiPri then PushTo pick t s1 else (True, notify pick (push_normal pick [t] s1)))"
    unfolding pick_def k_def s1_def cs_def p2_def members_def PushTo_class_def Let_def by (rule refl)
  have s1: "same_shape s s1" "queued s1 = queued s" by (simp_all add: s1_def same_shape_def queued_def)
  have w1: "sc_wf s1" "ReservedBase s1 = ReservedBase s" unfolding s1_def by (cases "p2 = PrefE"; simp; rule wf_frame [OF assms]; simp)+
  have "pick < ReservedBase s" if "cs \<noteq> []"
  proof -
    have len: "length cs \<le> ReservedBase s" using length_filter_le [of "candidate s p2" "[0..<ReservedBase s]"] by (simp add: cs_def members_def)
    then have "k < length cs" unfolding k_def using that ReservedBase_wf [OF assms] assms by (intro unat_mod_less) (auto simp: sc_wf_def)
    then have "pick \<in> set cs" unfolding pick_def
      by (auto dest!: find_member dest: in_set_dropD split: option.split)
    then show ?thesis by (auto simp: cs_def members_def)
  qed
  then have "placed [t] s1 (True, notify pick (push_normal pick [t] s1))" if "cs \<noteq> []" using that place_normal_placed [OF w1(1), of pick t] w1(2) by (simp add: place_normal_def)
  then show ?thesis unfolding eq using PushTo_placed [OF w1(1), of t pick] s1 w1 assms by (auto simp: placed_def intro: shape_trans)
qed

lemma PushIO_placed:
  assumes "sc_wf s"
  shows "placed [t] s (PushIO t s)"
proof -
  have "sc_wf (s\<lparr>sc_ioSteer := sc_ioSteer s + 1\<rparr>)" by (rule wf_frame [OF assms]) simp_all
  from PushTo_placed [OF this] have "placed [t] (s\<lparr>sc_ioSteer := sc_ioSteer s + 1\<rparr>) (PushTo q t (s\<lparr>sc_ioSteer := sc_ioSteer s + 1\<rparr>))" for q .
  then have "placed [t] s (PushTo q t (s\<lparr>sc_ioSteer := sc_ioSteer s + 1\<rparr>))" for q by (auto simp: placed_def same_shape_def queued_def)
  then show ?thesis using assms by (simp add: PushIO_def placed_def)
qed

section \<open>Batches\<close>

lemma submitRun_placed:
  assumes "sc_wf s" "c < ReservedBase s"
  shows "placed ts s (True, submitRun ts c s)"
  using assms wf_lens [OF assms(1)] ReservedBase_wf [OF assms(1)] by (simp add: placed_def submitRun_def wf_push)

lemma spread_runs_placed:
  assumes "sc_wf s" "sum_list lens = length ts"
  shows "placed ts s (True, spread_runs lens ts s)"
  using assms
proof (induction lens ts s rule: spread_runs.induct)
  case (1 ts s)
  then show ?case by (simp add: placed_def)
next
  case (2 len lens ts s)
  show ?case
  proof (cases "len = 0")
    case True
    then show ?thesis using 2 by simp
  next
    case False
    obtain c s1 where p: "PickNextWorker Normal s = (c, s1)" by fastforce
    note pick = PickNextWorker_compute [OF 2(3) p]
    have a: "placed (take len ts) s1 (True, submitRun (take len ts) c s1)" using pick by (intro submitRun_placed) auto
    have b: "placed (drop len ts) (submitRun (take len ts) c s1) (True, spread_runs lens (drop len ts) (submitRun (take len ts) c s1))"
      using a 2(4) by (intro 2(2) [OF False p [symmetric] refl]) (auto simp: placed_def)
    have "mset ts = mset (take len ts) + mset (drop len ts)" by (metis append_take_drop_id mset_append)
    then show ?thesis using a b pick False p by (auto simp: placed_def intro: shape_trans)
  qed
qed

lemma even_split: "0 < (k::nat) \<Longrightarrow> sum_list (map (\<lambda>i. cnt div k + (if i < cnt mod k then 1 else 0)) [0..<k]) = cnt"
proof -
  assume k: "0 < k"
  have ones: "sum_list (map (\<lambda>i. if i < r then 1 else (0::nat)) [0..<k]) = min r k" for r k by (induction k) (auto simp: min_def)
  have "sum_list (map (\<lambda>i. cnt div k + (if i < cnt mod k then 1 else 0)) [0..<k]) = k * (cnt div k) + min (cnt mod k) k"
    by (simp add: sum_list_addf ones sum_list_triv)
  then show ?thesis using k by (simp add: min_absorb1 less_imp_le)
qed

lemma segment_lens_sum: "0 < k \<Longrightarrow> \<exists>lens. segment_lens cnt k = Some lens \<and> sum_list lens = cnt \<and> length lens = k"
  using even_split [of k cnt] by (simp add: segment_lens_def)

lemma segment_count_bounds: "sc_wf s \<Longrightarrow> 0 < segment_count cnt minPer s \<and> segment_count cnt minPer s \<le> ReservedBase s"
  by (auto simp: segment_count_def Let_def sc_wf_def ReservedBase_def)

lemma PushBatch_placed:
  assumes "sc_wf s"
  shows "\<exists>s'. PushBatch ts worker minPer s = Some s' \<and> placed ts s (True, s')"
proof (cases "ts = []")
  case True
  then show ?thesis using assms by (simp add: PushBatch_def placed_def)
next
  case False
  show ?thesis
  proof (cases worker)
    case None
    obtain lens where "segment_lens (length ts) (segment_count (length ts) minPer s) = Some lens" "sum_list lens = length ts"
      using segment_lens_sum segment_count_bounds [OF assms] by blast
    then show ?thesis using spread_runs_placed [OF assms] False None by (simp add: PushBatch_def)
  next
    case (Some w)
    show ?thesis
    proof (cases "IsReservedIndex w s")
      case True
      obtain c s1 where p: "PickNextWorker Normal s = (c, s1)" by fastforce
      note pick = PickNextWorker_compute [OF assms p]
      have "placed ts s1 (True, submitRun ts c s1)" using pick by (intro submitRun_placed) auto
      then show ?thesis using pick True False Some p by (auto simp: PushBatch_def placed_def intro: shape_trans)
    next
      case c: False
      then have "placed ts s (True, submitRun ts w s)" using assms by (intro submitRun_placed) (auto simp: IsReservedIndex_def)
      then show ?thesis using c False Some by (simp add: PushBatch_def)
    qed
  qed
qed

lemma PushBatch_spread_placed:
  assumes "sc_wf s"
  shows "\<exists>s'. PushBatch_spread ts wide s = Some s' \<and> placed ts s (True, s')"
proof -
  obtain c s1 where p: "PickNextWorker Normal s = (c, s1)" by fastforce
  note pick = PickNextWorker_compute [OF assms p]
  have w1: "sc_wf s1" using pick by simp
  obtain s2 where s2: "PushBatch ts (Some c) 0 s1 = Some s2" "placed ts s1 (True, s2)" using PushBatch_placed [OF w1] by blast
  then have "placed ts s (True, s2)" using pick by (auto simp: placed_def intro: shape_trans)
  then show ?thesis using PushBatch_placed [OF assms, of ts None 64] s2(1) p wf_lens(4) [OF assms] assms by (auto simp: PushBatch_spread_def placed_def)
qed

lemma RequeueResumedBatch_placed:
  assumes "sc_wf s" "\<forall>t \<in> set ts. pin_ok s t"
  shows "placed ts s (True, RequeueResumedBatch ts self ok now s)"
  using assms
proof (induction ts arbitrary: s)
  case Nil
  then show ?case by (simp add: placed_def)
next
  case (Cons t ts)
  have a: "placed [t] s (True, ResumeFiber t self ok now s)" using Cons.prems by (intro ResumeFiber_placed) auto
  then have "placed ts (ResumeFiber t self ok now s) (True, RequeueResumedBatch ts self ok now (ResumeFiber t self ok now s))"
    using Cons.prems by (intro Cons.IH) (auto simp: placed_def same_shape_def pin_ok_def)
  then show ?case using a by (auto simp: placed_def intro: shape_trans)
qed

section \<open>Leaving for a blocking call, and the injector's takers\<close>

lemma drain_keeps:
  assumes "sc_wf s" "q < sc_workers s"
  shows "sc_wf (snd (DrainOwnInboxesToDeques q s)) \<and> same_shape s (snd (DrainOwnInboxesToDeques q s)) \<and>
    queued (snd (DrainOwnInboxesToDeques q s)) = queued s \<and> sc_normal (snd (DrainOwnInboxesToDeques q s)) ! q = []"
proof (cases "IsReservedIndex q s")
  case True
  then show ?thesis using assms by (auto simp: DrainOwnInboxesToDeques_def sc_wf_def IsReservedIndex_def)
next
  case False
  let ?d = "(push_own q (sc_normal s ! q) s)\<lparr>sc_normal := (sc_normal s)[q := []]\<rparr>"
  have len: "q < length (sc_normal s)" "q < length (sc_deques s)" using wf_lens [OF assms(1)] assms(2) by auto
  have "sum_list (map mset ((sc_normal s)[q := []])) + mset (sc_normal s ! q) = sum_list (map mset (sc_normal s))"
    using sum_pcs_update [OF len(1), of mset "[]"] by simp
  then have "queued ?d = queued s" using len by (simp add: queued_def push_own_def sum_mset_append ac_simps)
  moreover have "sc_wf ?d" using assms(1) len by (auto simp: sc_wf_def ReservedBase_def push_own_def nth_list_update)
  ultimately show ?thesis using False len by (simp add: DrainOwnInboxesToDeques_def same_shape_def push_own_def)
qed

lemma wf_depth_away:
  "length d = length (sc_depth s) \<Longrightarrow> sc_wf (s\<lparr>sc_depth := d\<rparr>) = sc_wf s" "length a = length (sc_away s) \<Longrightarrow> sc_wf (s\<lparr>sc_away := a\<rparr>) = sc_wf s"
  "queued (s\<lparr>sc_depth := d\<rparr>) = queued s" "queued (s\<lparr>sc_away := a\<rparr>) = queued s"
  "same_shape r (s\<lparr>sc_depth := d\<rparr>) = same_shape r s" "same_shape r (s\<lparr>sc_away := a\<rparr>) = same_shape r s"
  by (simp_all add: sc_wf_def ReservedBase_def queued_def same_shape_def)

lemma drain_frame: "sc_away (snd (DrainOwnInboxesToDeques q s)) = sc_away s" "sc_depth (snd (DrainOwnInboxesToDeques q s)) = sc_depth s"
  by (simp_all add: DrainOwnInboxesToDeques_def push_own_def)

lemma BlockBegin_keeps:
  assumes "sc_wf s" "\<forall>q. self = Some q \<longrightarrow> q < sc_workers s" "BlockBegin self guarded s = Some s'"
  shows "placed [] s (True, s')"
proof (cases self)
  case None
  then show ?thesis using assms by (simp add: BlockBegin_def placed_def)
next
  case (Some q)
  let ?s1 = "s\<lparr>sc_depth := (sc_depth s)[q := sc_depth s ! q + 1]\<rparr>"
  have w1: "sc_wf ?s1" "same_shape s ?s1" "queued ?s1 = queued s" "q < sc_workers ?s1" using assms(1,2) Some by (simp_all add: wf_depth_away)
  have "s' = ?s1 \<or> s' = (snd (DrainOwnInboxesToDeques q ?s1))\<lparr>sc_away := (sc_away s)[q := True]\<rparr>"
    using assms(3) Some by (auto simp: BlockBegin_def Let_def split: if_splits)
  then show ?thesis using w1 drain_keeps [OF w1(1,4)]
    by (elim disjE) (auto simp: placed_def wf_depth_away drain_frame intro: shape_trans [OF w1(2)])
qed

lemma BlockEnd_keeps: "sc_wf s \<Longrightarrow> placed [] s (True, BlockEnd self s)"
  by (auto simp: BlockEnd_def Let_def placed_def wf_depth_away split: option.split)

lemma TakeInjector_keeps:
  assumes "sc_wf s" "TakeInjector pick s = (r, s')"
  shows "sc_wf s' \<and> same_shape s s' \<and> queued s = queued s' + mset (case r of None \<Rightarrow> [] | Some t \<Rightarrow> [t])"
proof (cases "r = None")
  case True
  then show ?thesis using assms by (auto simp: TakeInjector_def split: if_splits option.splits)
next
  case False
  then obtain i where i: "i < length (sc_injector s)" "r = Some (sc_injector s ! i)"
    "s' = s\<lparr>sc_injector := take i (sc_injector s) @ drop (i + 1) (sc_injector s), sc_injectorCount := sc_injectorCount s - 1\<rparr>"
    using assms(2) by (auto simp: TakeInjector_def split: if_splits option.splits)
  have "mset (sc_injector s) = mset (take i (sc_injector s) @ sc_injector s ! i # drop (Suc i) (sc_injector s))" using id_take_nth_drop [OF i(1)] by simp
  moreover have "sc_wf s'" unfolding i(3) by (rule wf_frame [OF assms(1)]) simp_all
  ultimately show ?thesis using i by (simp add: queued_def same_shape_def)
qed

section \<open>Sequences of calls\<close>

text \<open>The calls of the pool's users and of its own resume paths. Each says which tasks it was given and took charge of.\<close>

datatype sched_call =
    CallPush nat "nat option" bool int
  | CallPushTo nat nat
  | CallPushClass nat CorePref bool
  | CallPushIO nat
  | CallPushMain nat
  | CallPushResume nat nat
  | CallInjector "nat list" bool int
  | CallBatch "nat list" "nat option" nat
  | CallSpread "nat list" bool
  | CallRequeue nat "nat option" bool int
  | CallYield nat "nat option" bool int
  | CallWake nat "nat option" bool int
  | CallResumes "nat list" "nat option" bool int
  | CallNotify nat
  | CallDrain nat
  | CallBlockBegin "nat option" bool
  | CallBlockEnd "nat option"

definition accepted :: "nat list \<Rightarrow> bool \<times> sched \<Rightarrow> (nat list \<times> sched) option" where
  "accepted ts r = Some (if fst r then ts else [], snd r)"

fun sched_apply :: "sched_call \<Rightarrow> sched \<Rightarrow> (nat list \<times> sched) option" where
  "sched_apply (CallPush t self ok now) s = accepted [t] (Push t self ok now s)"
| "sched_apply (CallPushTo w t) s = accepted [t] (PushTo w t s)"
| "sched_apply (CallPushClass t pref hi) s = accepted [t] (PushTo_class t pref hi s)"
| "sched_apply (CallPushIO t) s = accepted [t] (PushIO t s)"
| "sched_apply (CallPushMain t) s = accepted [t] (PushMain t s)"
| "sched_apply (CallPushResume w t) s = accepted [t] (PushResume w t s)"
| "sched_apply (CallInjector ts ok now) s = accepted ts (PushInjector ts ok now s)"
| "sched_apply (CallBatch ts w m) s = map_option (Pair ts) (PushBatch ts w m s)"
| "sched_apply (CallSpread ts wide) s = map_option (Pair ts) (PushBatch_spread ts wide s)"
| "sched_apply (CallRequeue t self ok now) s = Some ([t], snd (Requeue t self ok now s))"
| "sched_apply (CallYield t self ok now) s = Some ([t], snd (YieldFiber t self ok now s))"
| "sched_apply (CallWake t self ok now) s = accepted [t] (WakeTask t self ok now s)"
| "sched_apply (CallResumes ts self ok now) s = Some (ts, RequeueResumedBatch ts self ok now s)"
| "sched_apply (CallNotify w) s = accepted [] (NotifyHolder w s)"
| "sched_apply (CallDrain q) s = accepted [] (DrainOwnInboxesToDeques q s)"
| "sched_apply (CallBlockBegin self guarded) s = map_option (Pair []) (BlockBegin self guarded s)"
| "sched_apply (CallBlockEnd self) s = Some ([], BlockEnd self s)"

text \<open>What the callers keep to: a calling worker is one of the pool, and a resumed task's pin names no worker, main, or a worker of the pool
  (which is what setting a pin checks).\<close>

abbreviation self_ok :: "nat \<Rightarrow> nat option \<Rightarrow> bool" where
  "self_ok n self \<equiv> case self of None \<Rightarrow> True | Some q \<Rightarrow> q < n"

fun call_ok :: "sched \<Rightarrow> sched_call \<Rightarrow> bool" where
  "call_ok s (CallPush t self ok now) \<longleftrightarrow> self_ok (sc_workers s) self"
| "call_ok s (CallYield t self ok now) \<longleftrightarrow> self_ok (sc_workers s) self \<and> pin_ok s t"
| "call_ok s (CallWake t self ok now) \<longleftrightarrow> self_ok (sc_workers s) self \<and> pin_ok s t"
| "call_ok s (CallResumes ts self ok now) \<longleftrightarrow> list_all (pin_ok s) ts"
| "call_ok s (CallDrain q) \<longleftrightarrow> q < sc_workers s"
| "call_ok s (CallBlockBegin self guarded) \<longleftrightarrow> self_ok (sc_workers s) self \<and> \<not> guarded"
| "call_ok s _ \<longleftrightarrow> True"

fun sched_run :: "sched_call list \<Rightarrow> sched \<Rightarrow> (nat list \<times> sched) option" where
  "sched_run [] s = Some ([], s)"
| "sched_run (c # cs) s = (case sched_apply c s of None \<Rightarrow> None
     | Some (ts, s1) \<Rightarrow> (case sched_run cs s1 of None \<Rightarrow> None | Some (us, s2) \<Rightarrow> Some (ts @ us, s2)))"

lemma accepted_placed: "placed ts s r \<Longrightarrow> \<exists>us s'. accepted ts r = Some (us, s') \<and> placed us s (True, s')"
  by (auto simp: accepted_def placed_def)

lemma Some_placed: "\<exists>s'. r = Some s' \<and> placed ts s (True, s') \<Longrightarrow> \<exists>us s'. map_option (Pair ts) r = Some (us, s') \<and> placed us s (True, s')"
  by auto

lemma sched_apply_placed:
  assumes "sc_wf s" "call_ok s c"
  shows "\<exists>ts s'. sched_apply c s = Some (ts, s') \<and> placed ts s (True, s')"
proof (cases c)
  case (CallPush t self ok now)
  then show ?thesis using Push_placed [OF assms(1), of self t ok now] assms(2) by (auto intro!: accepted_placed split: option.splits)
next
  case (CallPushMain t)
  then show ?thesis using PushMainQueue_placed [OF assms(1)] placed_none [OF assms(1)] by (auto simp: PushMain_def intro!: accepted_placed)
next
  case (CallPushResume w t)
  then show ?thesis using PushTo_placed [OF assms(1)] placed_none [OF assms(1)] by (auto simp: PushResume_def intro!: accepted_placed)
next
  case (CallYield t self ok now)
  then show ?thesis using YieldFiber_placed [OF assms(1), of t self ok now] assms(2) by (auto split: option.splits)
next
  case (CallWake t self ok now)
  then show ?thesis using ResumeFiber_placed [OF assms(1), of t self ok now] Push_placed [OF assms(1), of self t ok now] assms(2)
    by (auto simp: WakeTask_def intro!: accepted_placed split: option.splits)
next
  case (CallResumes ts self ok now)
  then show ?thesis using RequeueResumedBatch_placed [OF assms(1), of ts self ok now] assms(2) by (simp add: list_all_iff)
next
  case (CallNotify w)
  then show ?thesis using assms(1) by (auto simp: accepted_def NotifyHolder_def placed_def)
next
  case (CallDrain q)
  then show ?thesis using drain_keeps [OF assms(1), of q] assms(2) by (auto simp: accepted_def placed_def)
next
  case (CallBlockBegin self guarded)
  then have "BlockBegin self guarded s \<noteq> None" using assms(2) by (simp add: BlockBegin_def Let_def split: option.split)
  then obtain s' where s': "BlockBegin self guarded s = Some s'" by blast
  moreover have "placed [] s (True, s')" using BlockBegin_keeps [OF assms(1) _ s'] assms(2) CallBlockBegin by (auto split: option.splits)
  ultimately show ?thesis using CallBlockBegin by simp
qed (use assms PushTo_placed PushTo_class_placed PushIO_placed PushInjector_placed PushBatch_placed PushBatch_spread_placed Requeue_placed BlockEnd_keeps
  in \<open>simp_all add: accepted_placed Some_placed\<close>)

lemma call_ok_shape: "same_shape s s' \<Longrightarrow> call_ok s' c = call_ok s c"
proof -
  assume sh: "same_shape s s'"
  have p: "pin_ok s' = pin_ok s" using sh by (simp add: fun_eq_iff pin_ok_def same_shape_def)
  have w: "sc_workers s' = sc_workers s" using sh by (simp add: same_shape_def)
  show ?thesis by (cases c) (simp_all add: p w split: option.split)
qed

lemma sched_run_placed:
  assumes "sc_wf s" "list_all (call_ok s) cs"
  shows "\<exists>ts s'. sched_run cs s = Some (ts, s') \<and> placed ts s (True, s')"
  using assms
proof (induction cs arbitrary: s)
  case Nil
  then show ?case by (simp add: placed_def)
next
  case (Cons c cs)
  obtain ts s1 where a: "sched_apply c s = Some (ts, s1)" "placed ts s (True, s1)" using sched_apply_placed [of s c] Cons.prems by auto
  then have "sc_wf s1" "same_shape s s1" by (auto simp: placed_def)
  then obtain us s2 where b: "sched_run cs s1 = Some (us, s2)" "placed us s1 (True, s2)"
    using Cons.IH [of s1] Cons.prems(2) by (auto simp: call_ok_shape list_all_iff)
  then show ?case using a by (auto simp: placed_def intro: shape_trans)
qed

section \<open>Properties\<close>

text \<open>A pool of six workers, the last two reserved, main in the pool, worker 1 idle.\<close>

definition pool6 :: sched where
  "pool6 = \<lparr>sc_workers = 6, sc_hot = 2, sc_cfgHot = 2, sc_active = True, sc_mainMode = InPool, sc_injectorOn = True, sc_reservedStealing = False, sc_ioQuietUs = 500,
    sc_deques = replicate 6 [], sc_normal = replicate 6 [], sc_hiPri = replicate 6 [], sc_mainQ = [], sc_injector = [], sc_injectorCount = 0, sc_ioLastPush = 0,
    sc_marked = replicate 6 False, sc_woken = [], sc_mainKicks = 0, sc_nextWorker = 0, sc_nextHot = 0, sc_nextP = 0, sc_nextE = 0, sc_ioSteer = 0,
    sc_isP = replicate 6 True, sc_away = replicate 6 False, sc_depth = replicate 6 0, sc_linked = (replicate 6 False)[1 := True], sc_armed = (replicate 6 False)[1 := True],
    sc_sibling = replicate 6 None, sc_idle = [1], sc_searching = 0, sc_task = (\<lambda>t. new_Task t 0 Normal), sc_pin = (\<lambda>t. if t = 5 then 3 else pinNone)\<rparr>"

lemma pool6_wf: "sc_wf pool6"
proof -
  have n: "sc_normal pool6 ! q = []" if "q < sc_workers pool6" for q using that by (simp add: pool6_def)
  have "ReservedBase pool6 = 4" by (simp add: ReservedBase_def pool6_def)
  moreover have "sc_hot pool6 < sc_workers pool6 \<and> sc_workers pool6 < 2 ^ 16 \<and> set (sc_idle pool6) = {1}" by (simp add: pool6_def)
  moreover have "length (sc_deques pool6) = 6" "length (sc_normal pool6) = 6" "length (sc_hiPri pool6) = 6" "length (sc_marked pool6) = 6" "length (sc_away pool6) = 6"
    "length (sc_linked pool6) = 6" "length (sc_armed pool6) = 6" "length (sc_depth pool6) = 6" "sc_workers pool6 = 6" by (simp_all add: pool6_def)
  ultimately show ?thesis using n by (simp add: sc_wf_def)
qed

text \<open>Five calls: an unplaced push, a batch, the resume of a task pinned to worker 3, a worker that leaves, a push to a worker that is not there.\<close>

definition five_calls :: "sched_call list" where
  "five_calls = [CallPush 1 None True 7, CallSpread [2, 3, 4] True, CallResumes [5] (Some 2) True 8, CallBlockBegin (Some 1) False, CallPushTo 9 6]"

lemma five_calls_ok: "list_all (call_ok pool6) five_calls"
  by (simp add: five_calls_def pin_ok_def pool6_def)

text \<open>(C18) Whatever sequence of pushes, batches, resumes, yields, wakes, drains and blocking calls a pool makes, every call returns, and the tasks in
  the pool's queues afterwards are those that were there and those the calls accepted, each exactly once: no placement loses a task, none queues it
  twice, and a refused task is nowhere.\<close>

theorem placement_exactly_once:
  assumes "sc_wf s" "list_all (call_ok s) cs"
  shows "\<exists>ts s'. sched_run cs s = Some (ts, s') \<and> queued s' = queued s + mset ts"
  using sched_run_placed [OF assms] by (auto simp: placed_def)

theorem placement_exactly_once_witness: "\<exists>ts s'. sched_run five_calls pool6 = Some (ts, s') \<and> queued s' = queued pool6 + mset ts"
  by (rule placement_exactly_once [OF pool6_wf five_calls_ok])

text \<open>Every such sequence keeps the pool well formed: a queue, flag and counter for each worker, only compute workers on the idle stack, and
  nothing in the normal inbox of a reserved worker, which never drains it.\<close>

theorem placements_keep_the_pool_well_formed:
  assumes "sc_wf s" "list_all (call_ok s) cs" "sched_run cs s = Some (ts, s')"
  shows "sc_wf s' \<and> sc_workers s' = sc_workers s \<and> (\<forall>q < sc_workers s. IsReservedIndex q s \<longrightarrow> sc_normal s' ! q = [])"
proof -
  have p: "sc_wf s'" "same_shape s s'" using sched_run_placed [OF assms(1,2)] assms(3) by (auto simp: placed_def)
  then show ?thesis by (auto simp: sc_wf_def ReservedBase_def IsReservedIndex_def same_shape_def)
qed

theorem placements_keep_the_pool_well_formed_witness:
  "sc_wf (snd (the (sched_run five_calls pool6))) \<and> sched_run five_calls pool6 \<noteq> None"
proof -
  obtain ts s' where r: "sched_run five_calls pool6 = Some (ts, s')" using sched_run_placed [OF pool6_wf five_calls_ok] by blast
  show ?thesis using placements_keep_the_pool_well_formed [OF pool6_wf five_calls_ok r] r by simp
qed

text \<open>A task pinned to a worker of the pool is resumed on it: whoever resumes it, it becomes the last entry of that worker's
  direct-run inbox, which only that worker takes from, the worker's work flag is up and the worker is woken, and no other queue changes.\<close>

theorem pinned_resume_goes_home:
  assumes "sc_wf s" "sc_pin s t = of_nat p" "p < sc_workers s" "of_nat p \<noteq> pinMain"
  shows "ResumeFiber t self ok now s = s\<lparr>sc_hiPri := (sc_hiPri s)[p := sc_hiPri s ! p @ [t]], sc_marked := (sc_marked s)[p := True], sc_woken := sc_woken s @ [p]\<rparr>"
proof -
  have p: "p < 2 ^ 16 - 1" using assms(1,3) by (simp add: sc_wf_def)
  then have u: "unat (of_nat p :: pin) = p" by (simp add: unsigned_of_nat take_bit_nat_eq_self)
  have "unat (of_nat p :: pin) \<noteq> unat pinNone" unfolding u using p by (simp add: pinNone_def)
  then show ?thesis using assms u by (auto simp: ResumeFiber_def Let_def PushTo_def notify_def mark_def push_hiPri_def)
qed

theorem pinned_resume_goes_home_witness:
  "ResumeFiber 5 (Some 2) True 8 pool6 = pool6\<lparr>sc_hiPri := (sc_hiPri pool6)[3 := sc_hiPri pool6 ! 3 @ [5]], sc_marked := (sc_marked pool6)[3 := True], sc_woken := sc_woken pool6 @ [3]\<rparr>"
  by (rule pinned_resume_goes_home [OF pool6_wf]) (simp_all add: pool6_def pinMain_def)

section \<open>Where the placements differ from what is said of them\<close>

text \<open>A batch for no particular worker, in a pool without workers, divides by zero; a requeue of an unpinned task that goes to a stealable inbox
  reports it as pinned; and an idle worker with an index past 255 that is chosen is not the one that is woken.\<close>

lemma batch_without_workers_traps: "sc_workers s = 0 \<Longrightarrow> ts \<noteq> [] \<Longrightarrow> PushBatch ts None m s = None"
  by (simp add: PushBatch_def segment_count_def Let_def segment_lens_def)

lemma requeue_reports_stealable_as_pinned:
  "sc_pin s t = pinNone \<Longrightarrow> \<not> tk_started (sc_task s t) \<Longrightarrow> \<not> to_injector t s \<Longrightarrow> PickNextWorker Normal s = (c, s1) \<Longrightarrow>
    Requeue t self ok now s = (RPinned, place_normal (narrow8 c) t s1)"
  by (simp add: Requeue_def pinNone_def pinMain_def)

lemma narrowed_target: "PickNextWorker Normal s = (300, s1) \<Longrightarrow> \<not> to_injector t s \<Longrightarrow> PushTarget t None None ok now s = (True, MaybeBuddyWake 44 (place_normal 44 t s1))"
  by (simp add: PushTarget_def narrow8_def)

end
