(* ===== verification/PoolStarts.thy ===== *)
theory PoolStarts
  imports Topologies L3Groups Placements
begin

text \<open>
  How a pool comes into being (\<^verbatim>\<open>src/TaskScheduler.cpp\<close>: \<open>Init\<close>, \<open>GetSafeTC\<close>, \<open>LiveTunables\<close>, \<open>BuildTopology\<close>, \<open>StartPool\<close>): the configuration with its defaults and limits, the number of
  workers, the processor of each, the tables of siblings, cache neighbours and core classes, the fibers made, and the queues and workers the placement operations start from. What the system
  reports of the machine is an argument, the result of the query of \<open>Topologies\<close> or of another system's query.
\<close>

section \<open>The configuration\<close>

datatype AffinityPolicy = Hard | Ideal | NoAffinity | PhysicalOnly

record Tunables =
  tn_minIters :: nat
  tn_leaves :: nat
  tn_wakeCostNs :: nat
  tn_stickyCap :: nat
  tn_ioQuietUs :: nat
  tn_reservedStealing :: bool
  tn_injector :: bool
  tn_fastSpin :: int

record Config =
  cfg_mode :: Mode
  cfg_main :: MainMode
  cfg_workers :: nat
  cfg_hot :: nat
  cfg_affinity :: AffinityPolicy
  cfg_reservedCores :: nat
  cfg_timers :: bool
  cfg_normalFibers :: nat
  cfg_deepFibers :: nat
  cfg_external :: nat
  cfg_tunables :: Tunables

definition kMaxReservedWorkers :: nat where [model_defs]: "kMaxReservedWorkers = 2"

text \<open>The live values of the tunables; \<open>build\<close> is the default of the build for the spins.\<close>

definition LiveTunables :: "int \<Rightarrow> Tunables \<Rightarrow> Tunables" where
  "LiveTunables build t = t\<lparr>tn_leaves := (if tn_leaves t \<noteq> 0 then tn_leaves t else 1), tn_wakeCostNs := (if tn_wakeCostNs t < 100 then 100 else tn_wakeCostNs t),
     tn_stickyCap := (if tn_stickyCap t < 1 then 1 else if 8 < tn_stickyCap t then 8 else tn_stickyCap t), tn_fastSpin := (if tn_fastSpin t < 0 then build else tn_fastSpin t)\<rparr>"

text \<open>\<open>Init\<close> up to the start of the pool.\<close>

definition Init_config :: "Config \<Rightarrow> Config" where
  "Init_config requested =
    (let c = (if cfg_main requested = DefaultMain then requested\<lparr>cfg_main := if cfg_mode requested = Migrate then InPool else OutOfPool\<rparr> else requested) in
     if kMaxReservedWorkers < cfg_hot c then c\<lparr>cfg_hot := kMaxReservedWorkers\<rparr> else c)"

definition GetSafeTC :: "Config \<Rightarrow> nat \<Rightarrow> nat" where
  "GetSafeTC c cores =
    (if cores \<le> 1 then 1
     else let reserved = (1 + (if cfg_timers c then 1 else 0) + cfg_reservedCores c) mod 2 ^ 32 in
       if cores \<le> reserved then 1 else cores - reserved)"

section \<open>Workers and their processors\<close>

text \<open>The size before the affinity policy: what was asked for, or the safe number, and not more than the hardware has.\<close>

definition pool_request :: "Config \<Rightarrow> nat \<Rightarrow> nat" where
  "pool_request c hw = min (if cfg_workers c = 0 then GetSafeTC c hw else cfg_workers c) (if hw = 0 then 4 else hw)"

definition all_cpus :: "topo_info \<Rightarrow> CpuMask" where
  "all_cpus ti = foldl (\<lambda>a m. foldl (\<lambda>a cpu. if mask_Test cpu m then mask_Set cpu a else a) a [0..<kMaxCpus]) mask_none (ti_coreMasks ti)"

definition logical_cpus :: "topo_info \<Rightarrow> nat list" where
  "logical_cpus ti = (if ti_haveCores ti then filter (\<lambda>cpu. mask_Test cpu (all_cpus ti)) [0..<kMaxCpus] else [])"

text \<open>The first processor of each core.\<close>

definition first_cpus :: "topo_info \<Rightarrow> nat list" where
  "first_cpus ti = (if ti_haveCores ti then List.map_filter (\<lambda>m. List.find (\<lambda>cpu. mask_Test cpu m) [0..<kMaxCpus]) (ti_coreMasks ti) else [])"

definition physical_cpus :: "Config \<Rightarrow> topo_info \<Rightarrow> nat list" where
  "physical_cpus c ti = (if cfg_affinity c = PhysicalOnly \<and> 2 \<le> length (first_cpus ti) then first_cpus ti else [])"

definition start_size :: "Config \<Rightarrow> nat \<Rightarrow> topo_info \<Rightarrow> nat" where
  "start_size c hw ti = (if physical_cpus c ti \<noteq> [] then length (physical_cpus c ti) - 1 else pool_request c hw)"

definition cpu_list :: "Config \<Rightarrow> topo_info \<Rightarrow> nat list" where
  "cpu_list c ti = (if physical_cpus c ti \<noteq> [] then physical_cpus c ti else logical_cpus ti)"

definition cpu_offset :: "Config \<Rightarrow> nat" where
  "cpu_offset c = (if cfg_main c = InPool then 0 else 1)"

text \<open>The processor of each worker; \<open>None\<close> for \<open>-1\<close>.\<close>

definition qToCpu :: "Config \<Rightarrow> nat \<Rightarrow> topo_info \<Rightarrow> nat option list" where
  "qToCpu c n ti = map (\<lambda>i. let li = i + cpu_offset c in
     if li < length (cpu_list c ti) then Some (cpu_list c ti ! li) else if cpu_list c ti = [] then Some li else None) [0..<n]"

section \<open>The tables of neighbours\<close>

record topo_tables =
  tp_sibling :: "nat option list"
  tp_mates :: "nat list list"
  tp_isPCore :: "bool list"
  tp_isPCpu :: "bool list"
  tp_llc :: "CpuMask list"
  tp_same :: "nat list list"
  tp_other :: "nat list list"

definition qIndexOf :: "nat option list \<Rightarrow> nat \<Rightarrow> nat option" where
  "qIndexOf qs cpu = List.find (\<lambda>q. qs ! q = Some cpu) [0..<length qs]"

definition is_slow :: "topo_info \<Rightarrow> nat \<Rightarrow> bool" where
  "is_slow ti cpu \<longleftrightarrow> 0 \<le> ti_efficiencyClass ti ! cpu \<and> ti_efficiencyClass ti ! cpu < ti_maxClass ti"

definition slow_cpu :: "nat option list \<Rightarrow> topo_info \<Rightarrow> bool list \<Rightarrow> nat \<Rightarrow> bool list" where
  "slow_cpu qs ti v cpu = (if is_slow ti cpu then (case qIndexOf qs cpu of None \<Rightarrow> v | Some q \<Rightarrow> v[q := False]) else v)"

definition p_cores :: "nat option list \<Rightarrow> topo_info \<Rightarrow> bool list" where
  "p_cores qs ti = foldl (slow_cpu qs ti) (replicate (length qs) True) [0..<kMaxCpus]"

text \<open>The workers on the processors of a mask, in the order of the processors.\<close>

definition group_qs :: "nat option list \<Rightarrow> CpuMask \<Rightarrow> nat list" where
  "group_qs qs m = List.map_filter (\<lambda>cpu. if mask_Test cpu m then qIndexOf qs cpu else None) [0..<kMaxCpus]"

definition pair_siblings :: "nat option list \<Rightarrow> nat option list \<Rightarrow> CpuMask \<Rightarrow> nat option list" where
  "pair_siblings qs sib m = (let g = group_qs qs m in if length g = 2 then sib[g ! 0 := Some (g ! 1), g ! 1 := Some (g ! 0)] else sib)"

definition build_siblings :: "nat option list \<Rightarrow> topo_info \<Rightarrow> nat option list" where
  "build_siblings qs ti = (if ti_haveCores ti then foldl (pair_siblings qs) (replicate (length qs) None) (ti_coreMasks ti) else replicate (length qs) None)"

definition mates_of :: "nat option list \<Rightarrow> nat list \<Rightarrow> nat \<Rightarrow> nat list" where
  "mates_of sib g q = filter (\<lambda>other. other \<noteq> q \<and> Some other \<noteq> sib ! q) g"

definition grow_mates :: "nat option list \<Rightarrow> nat list \<Rightarrow> nat list list \<Rightarrow> nat \<Rightarrow> nat list list" where
  "grow_mates sib g ms q = (if length (ms ! q) + 1 < length g then ms[q := mates_of sib g q] else ms)"

definition cache_mates :: "nat option list \<Rightarrow> nat option list \<Rightarrow> nat list list \<Rightarrow> CpuMask \<Rightarrow> nat list list" where
  "cache_mates qs sib ms m = (let g = group_qs qs m in if length g < 2 then ms else foldl (grow_mates sib g) ms g)"

definition build_mates :: "nat option list \<Rightarrow> nat option list \<Rightarrow> topo_info \<Rightarrow> nat list list" where
  "build_mates qs sib ti =
    (if ti_haveCache ti then foldl (cache_mates qs sib) (replicate (length qs) []) (ti_cacheMasks ti)
     else map (mates_of sib [0..<length qs]) [0..<length qs])"

text \<open>The largest cache a processor belongs to.\<close>

definition best_mask :: "nat \<Rightarrow> nat \<times> CpuMask \<Rightarrow> CpuMask \<Rightarrow> nat \<times> CpuMask" where
  "best_mask cpu b m = (if mask_Test cpu m \<and> fst b < mask_Count m then (mask_Count m, m) else b)"

definition llc_of :: "topo_info \<Rightarrow> nat option \<Rightarrow> CpuMask" where
  "llc_of ti c = (case c of None \<Rightarrow> mask_none | Some cpu \<Rightarrow>
     if \<not> ti_haveCache ti \<or> kMaxCpus \<le> cpu then mask_none else snd (foldl (best_mask cpu) (0, mask_none) (ti_cacheMasks ti)))"

definition BuildTopology :: "nat option list \<Rightarrow> topo_info \<Rightarrow> topo_tables" where
  "BuildTopology qs ti =
    (let sib = build_siblings qs ti; mates = build_mates qs sib ti; p = p_cores qs ti in
     \<lparr>tp_sibling = sib, tp_mates = mates, tp_isPCore = p, tp_isPCpu = map (\<lambda>cpu. \<not> is_slow ti cpu) [0..<kMaxCpus], tp_llc = map (llc_of ti) qs,
      tp_same = map (\<lambda>q. filter (\<lambda>m. p ! m = p ! q) (mates ! q)) [0..<length qs], tp_other = map (\<lambda>q. filter (\<lambda>m. p ! m \<noteq> p ! q) (mates ! q)) [0..<length qs]\<rparr>)"

section \<open>The pool\<close>

record worker =
  wk_q :: nat
  wk_epochId :: nat
  wk_isMain :: bool
  wk_cpu :: nat

definition start_worker :: "Config \<Rightarrow> nat option list \<Rightarrow> nat \<Rightarrow> worker" where
  "start_worker c qs i = \<lparr>wk_q = i, wk_epochId = (if cfg_main c = InPool then i else i + 1), wk_isMain = (cfg_main c = InPool \<and> i = 0),
     wk_cpu = (case qs ! i of Some cpu \<Rightarrow> cpu | None \<Rightarrow> kMaxCpus)\<rparr>"

text \<open>The fibers: normal and deep ones to start with, and the size of a worker's cache.\<close>

definition compute_count :: "Config \<Rightarrow> nat \<Rightarrow> nat" where
  "compute_count c n = (let coreCount = (if n = 0 then 4 else n); band = (if cfg_hot c < coreCount then cfg_hot c else coreCount) in if band < coreCount then coreCount - band else 1)"

definition standard_fibers :: "Config \<Rightarrow> nat \<Rightarrow> nat" where
  "standard_fibers c n = compute_count c n * cfg_normalFibers c"

definition fiber_cache_capacity :: "Config \<Rightarrow> nat \<Rightarrow> nat" where
  "fiber_cache_capacity c n = (let fair = standard_fibers c n div (if n = 0 then 1 else n) in if fair div 2 < 16 then 16 else fair div 2)"

definition epoch_slots :: "Config \<Rightarrow> nat \<Rightarrow> nat" where
  "epoch_slots c n = n + 1 + cfg_external c"

text \<open>The queues and counters the pool starts with.\<close>

definition StartPool :: "Config \<Rightarrow> Tunables \<Rightarrow> nat \<Rightarrow> topo_info \<Rightarrow> (nat \<Rightarrow> Task) \<Rightarrow> (nat \<Rightarrow> u16) \<Rightarrow> sched" where
  "StartPool c live hw ti task pins =
    (let n = start_size c hw ti; tp = BuildTopology (qToCpu c n ti) ti in
     ClampHotWorkersToPool \<lparr>sc_workers = n, sc_hot = cfg_hot c, sc_cfgHot = cfg_hot c, sc_active = True, sc_mainMode = cfg_main c, sc_injectorOn = tn_injector live,
       sc_reservedStealing = tn_reservedStealing live, sc_ioQuietUs = tn_ioQuietUs live, sc_deques = replicate (if cfg_main c = InPool then n else n + 1) [], sc_normal = replicate n [],
       sc_hiPri = replicate n [], sc_mainQ = [], sc_injector = [], sc_injectorCount = 0, sc_ioLastPush = 0, sc_marked = replicate n False, sc_woken = [], sc_mainKicks = 0,
       sc_nextWorker = 0, sc_nextHot = 0, sc_nextP = 0, sc_nextE = 0, sc_ioSteer = 0, sc_isP = tp_isPCore tp, sc_away = replicate n False, sc_depth = replicate n 0,
       sc_linked = replicate n False, sc_armed = replicate n False, sc_sibling = tp_sibling tp, sc_idle = [], sc_searching = 0, sc_task = task, sc_pin = pins\<rparr>)"

section \<open>Each worker its own processor\<close>

text \<open>What a system reports of its cores: the sets of two cores have nothing in common.\<close>

definition cores_disjoint :: "CpuMask list \<Rightarrow> bool" where
  "cores_disjoint ms \<longleftrightarrow> distinct ms \<and> (\<forall>m \<in> set ms. \<forall>k \<in> set ms. m \<noteq> k \<longrightarrow> (\<forall>c < kMaxCpus. \<not> (mask_Test c m \<and> mask_Test c k)))"

definition cpus_distinct :: "nat option list \<Rightarrow> bool" where
  "cpus_distinct qs \<longleftrightarrow> (\<forall>i < length qs. \<forall>j < length qs. qs ! i \<noteq> None \<and> qs ! i = qs ! j \<longrightarrow> i = j)"

lemma mask_Test_lt: "mask_Test c m \<Longrightarrow> c < kMaxCpus"
  by (simp add: mask_Test_def)

lemma find_SomeD: "List.find P xs = Some x \<Longrightarrow> P x \<and> x \<in> set xs"
  by (auto simp: find_Some_iff)

lemma set_map_filter_iff: "y \<in> set (List.map_filter f xs) \<longleftrightarrow> (\<exists>x \<in> set xs. f x = Some y)"
  by (induction xs) (auto simp: List.map_filter_simps split: option.splits)

lemma distinct_map_filter:
  assumes "distinct xs" "\<And>x x' y. x \<in> set xs \<Longrightarrow> x' \<in> set xs \<Longrightarrow> f x = Some y \<Longrightarrow> f x' = Some y \<Longrightarrow> x = x'"
  shows "distinct (List.map_filter f xs)"
  using assms
proof (induction xs)
  case Nil
  then show ?case by (simp add: List.map_filter_simps)
next
  case (Cons x xs)
  then have "distinct (List.map_filter f xs)" by simp
  moreover have "y \<notin> set (List.map_filter f xs)" if "f x = Some y" for y
    using Cons.prems that by (auto simp: set_map_filter_iff)
  ultimately show ?case by (simp add: List.map_filter_simps split: option.splits)
qed

lemma first_cpus_distinct:
  assumes "cores_disjoint (ti_coreMasks ti)"
  shows "distinct (first_cpus ti)"
proof -
  have "m = k" if "m \<in> set (ti_coreMasks ti)" "k \<in> set (ti_coreMasks ti)" "List.find (\<lambda>cpu. mask_Test cpu m) [0..<kMaxCpus] = Some y" "List.find (\<lambda>cpu. mask_Test cpu k) [0..<kMaxCpus] = Some y" for m k y
    using assms that(1,2) find_SomeD [OF that(3)] find_SomeD [OF that(4)] by (auto simp: cores_disjoint_def)
  then show ?thesis using assms by (auto simp: first_cpus_def cores_disjoint_def intro!: distinct_map_filter)
qed

lemma cpu_list_distinct: "cores_disjoint (ti_coreMasks ti) \<Longrightarrow> distinct (cpu_list c ti)"
  by (auto simp: cpu_list_def physical_cpus_def logical_cpus_def first_cpus_distinct)

lemma cpu_list_range: "set (cpu_list c ti) \<subseteq> {..<kMaxCpus}"
  by (auto simp: cpu_list_def physical_cpus_def logical_cpus_def first_cpus_def set_map_filter_iff dest!: find_SomeD split: if_splits)

lemma qToCpu_nth: "i < n \<Longrightarrow> qToCpu c n ti ! i = (if i + cpu_offset c < length (cpu_list c ti) then Some (cpu_list c ti ! (i + cpu_offset c)) else if cpu_list c ti = [] then Some (i + cpu_offset c) else None)"
  by (simp add: qToCpu_def Let_def)

lemma length_qToCpu [simp]: "length (qToCpu c n ti) = n"
  by (simp add: qToCpu_def)

lemma qToCpu_distinct:
  assumes "cores_disjoint (ti_coreMasks ti)"
  shows "cpus_distinct (qToCpu c n ti)"
  using cpu_list_distinct [OF assms, of c] by (auto simp: cpus_distinct_def qToCpu_nth nth_eq_iff_index_eq split: if_splits)

text \<open>Every worker that is given a processor is given its own; with main out of the pool no worker is given main's, the first of the list; and every processor but possibly main's has its
  worker when the pool is as large as the list.\<close>

theorem workers_have_their_own_processors:
  assumes "cores_disjoint (ti_coreMasks ti)"
  shows "(\<forall>i < n. \<forall>j < n. qToCpu c n ti ! i \<noteq> None \<and> qToCpu c n ti ! i = qToCpu c n ti ! j \<longrightarrow> i = j) \<and>
    (cfg_main c \<noteq> InPool \<and> cpu_list c ti \<noteq> [] \<longrightarrow> Some (cpu_list c ti ! 0) \<notin> set (qToCpu c n ti)) \<and>
    (\<forall>k. cpu_offset c \<le> k \<and> k < length (cpu_list c ti) \<and> length (cpu_list c ti) \<le> n + cpu_offset c \<longrightarrow> Some (cpu_list c ti ! k) \<in> set (qToCpu c n ti))"
proof (intro conjI impI allI)
  fix i j assume "i < n" "j < n" "qToCpu c n ti ! i \<noteq> None \<and> qToCpu c n ti ! i = qToCpu c n ti ! j"
  then show "i = j" using qToCpu_distinct [OF assms, of c n] unfolding cpus_distinct_def length_qToCpu by blast
next
  assume m: "cfg_main c \<noteq> InPool \<and> cpu_list c ti \<noteq> []"
  show "Some (cpu_list c ti ! 0) \<notin> set (qToCpu c n ti)"
  proof
    assume "Some (cpu_list c ti ! 0) \<in> set (qToCpu c n ti)"
    then obtain i where i: "i < n" "qToCpu c n ti ! i = Some (cpu_list c ti ! 0)" by (metis in_set_conv_nth length_qToCpu)
    then have "i + 1 < length (cpu_list c ti) \<and> cpu_list c ti ! (i + 1) = cpu_list c ti ! 0" using m by (auto simp: qToCpu_nth cpu_offset_def split: if_splits)
    then show False using nth_eq_iff_index_eq [OF cpu_list_distinct [OF assms, of c], of "i + 1" 0] by force
  qed
next
  fix k assume k: "cpu_offset c \<le> k \<and> k < length (cpu_list c ti) \<and> length (cpu_list c ti) \<le> n + cpu_offset c"
  then have "qToCpu c n ti ! (k - cpu_offset c) = Some (cpu_list c ti ! k)" "k - cpu_offset c < length (qToCpu c n ti)" by (auto simp: qToCpu_nth)
  then show "Some (cpu_list c ti ! k) \<in> set (qToCpu c n ti)" by (metis nth_mem)
qed

section \<open>The tables are sound\<close>

lemma qIndexOf_SomeD: "qIndexOf qs cpu = Some q \<Longrightarrow> q < length qs \<and> qs ! q = Some cpu"
  unfolding qIndexOf_def by (drule find_SomeD) auto

lemma group_qs_mem: "q \<in> set (group_qs qs m) \<Longrightarrow> q < length qs \<and> (\<exists>cpu < kMaxCpus. qs ! q = Some cpu \<and> mask_Test cpu m)"
  by (auto simp: group_qs_def set_map_filter_iff dest!: qIndexOf_SomeD split: if_splits)

lemma group_qs_distinct: "distinct (group_qs qs m)"
  unfolding group_qs_def by (rule distinct_map_filter) (auto dest!: qIndexOf_SomeD split: if_splits)

definition sib_inv :: "nat option list \<Rightarrow> CpuMask list \<Rightarrow> nat option list \<Rightarrow> bool" where
  [inv_defs]: "sib_inv qs ms sib \<longleftrightarrow> length sib = length qs \<and>
    (\<forall>q < length qs. \<forall>r. sib ! q = Some r \<longrightarrow> r < length qs \<and> r \<noteq> q \<and> sib ! r = Some q \<and> (\<exists>m \<in> set ms. q \<in> set (group_qs qs m) \<and> r \<in> set (group_qs qs m)))"

lemma groups_disjoint: "cores_disjoint ms \<Longrightarrow> m \<in> set ms \<Longrightarrow> k \<in> set ms \<Longrightarrow> q \<in> set (group_qs qs m) \<Longrightarrow> q \<in> set (group_qs qs k) \<Longrightarrow> m = k"
  using group_qs_mem [of q qs m] group_qs_mem [of q qs k] unfolding cores_disjoint_def by (metis option.inject)

lemma sib_invD: "sib_inv qs ms sib \<Longrightarrow> q < length qs \<Longrightarrow> sib ! q = Some r \<Longrightarrow> r < length qs \<and> r \<noteq> q \<and> sib ! r = Some q \<and> (\<exists>m \<in> set ms. q \<in> set (group_qs qs m) \<and> r \<in> set (group_qs qs m))"
  unfolding sib_inv_def by blast

lemma sib_inv_mono: "sib_inv qs ms sib \<Longrightarrow> set ms \<subseteq> set ks \<Longrightarrow> sib_inv qs ks sib"
  unfolding sib_inv_def by blast

lemma build_siblings_inv:
  assumes "cores_disjoint ms"
  shows "sib_inv qs ms (foldl (pair_siblings qs) (replicate (length qs) None) ms)"
  using assms
proof (induction ms rule: rev_induct)
  case Nil
  then show ?case by (simp add: sib_inv_def)
next
  case (snoc m ms)
  define sib where "sib = foldl (pair_siblings qs) (replicate (length qs) None) ms"
  have d: "cores_disjoint ms" using snoc.prems by (auto simp: cores_disjoint_def)
  have i: "sib_inv qs ms sib" unfolding sib_def by (rule snoc.IH [OF d])
  show ?case
  proof (cases "length (group_qs qs m) = 2")
    case False
    then have "foldl (pair_siblings qs) (replicate (length qs) None) (ms @ [m]) = sib" by (simp add: pair_siblings_def Let_def sib_def)
    moreover have "sib_inv qs (ms @ [m]) sib" by (rule sib_inv_mono [OF i]) auto
    ultimately show ?thesis by simp
  next
    case True
    then obtain a b where g: "group_qs qs m = [a, b]" by (auto simp: numeral_2_eq_2 length_Suc_conv)
    have ab: "a \<noteq> b" "a < length qs" "b < length qs" using group_qs_distinct [of qs m] group_qs_mem [of _ qs m] by (auto simp: g)
    have free: "q \<noteq> a \<and> q \<noteq> b" if sq: "sib ! q = Some r" and ql: "q < length qs" for q r
    proof -
      obtain k where k: "k \<in> set ms" "q \<in> set (group_qs qs k)" using sib_invD [OF i ql sq] by blast
      moreover have "k \<noteq> m" using k(1) snoc.prems by (auto simp: cores_disjoint_def)
      ultimately show ?thesis using groups_disjoint [OF snoc.prems, of k m q qs] by (auto simp: g)
    qed
    have len: "length sib = length qs" using i by (simp add: sib_inv_def)
    define t where "t = sib[a := Some b, b := Some a]"
    have e: "foldl (pair_siblings qs) (replicate (length qs) None) (ms @ [m]) = t" by (simp add: pair_siblings_def Let_def g sib_def t_def)
    have t: "t ! q = (if q = b then Some a else if q = a then Some b else sib ! q)" if "q < length qs" for q using that len ab by (simp add: t_def nth_list_update)
    have "r < length qs \<and> r \<noteq> q \<and> t ! r = Some q \<and> (\<exists>k \<in> set (ms @ [m]). q \<in> set (group_qs qs k) \<and> r \<in> set (group_qs qs k))" if q: "q < length qs" "t ! q = Some r" for q r
    proof (cases "q = a \<or> q = b")
      case True
      then show ?thesis using q ab t [OF ab(2)] t [OF ab(3)] by (auto simp: g)
    next
      case False
      then have "sib ! q = Some r" using q t by simp
      note d = sib_invD [OF i q(1) this]
      then have "r \<noteq> a \<and> r \<noteq> b" using free [of r q] by blast
      then show ?thesis using d t [of r] by auto
    qed
    moreover have "length t = length qs" using len by (simp add: t_def)
    ultimately show ?thesis unfolding e sib_inv_def by blast
  qed
qed

lemma sib_replicate: "sib_inv qs ms (replicate (length qs) None)"
  by (simp add: sib_inv_def)

lemma build_siblings_ok: "cores_disjoint (ti_coreMasks ti) \<Longrightarrow> sib_inv qs (ti_coreMasks ti) (build_siblings qs ti)"
  by (simp add: build_siblings_def build_siblings_inv sib_replicate)

text \<open>The neighbours: workers other than oneself and one's sibling.\<close>

definition mates_inv :: "nat \<Rightarrow> nat option list \<Rightarrow> nat list list \<Rightarrow> bool" where
  [inv_defs]: "mates_inv n sib ms \<longleftrightarrow> length ms = n \<and> (\<forall>q < n. distinct (ms ! q) \<and> (\<forall>r \<in> set (ms ! q). r < n \<and> r \<noteq> q \<and> Some r \<noteq> sib ! q))"

lemma mates_of_ok: "distinct g \<Longrightarrow> set g \<subseteq> {..<n} \<Longrightarrow> distinct (mates_of sib g q) \<and> (\<forall>r \<in> set (mates_of sib g q). r < n \<and> r \<noteq> q \<and> Some r \<noteq> sib ! q)"
  by (auto simp: mates_of_def)

lemma grow_mates_inv:
  assumes "mates_inv n sib ms" "distinct g" "set g \<subseteq> {..<n}"
  shows "mates_inv n sib (grow_mates sib g ms q)"
  using assms(1) mates_of_ok [OF assms(2,3), of sib q] by (cases "q < length ms") (simp_all add: mates_inv_def grow_mates_def nth_list_update)

lemma grow_all_inv: "mates_inv n sib ms \<Longrightarrow> distinct g \<Longrightarrow> set g \<subseteq> {..<n} \<Longrightarrow> mates_inv n sib (foldl (grow_mates sib g) ms qs)"
  by (induction qs arbitrary: ms) (simp_all add: grow_mates_inv)

lemma cache_mates_inv: "mates_inv (length qs) sib ms \<Longrightarrow> mates_inv (length qs) sib (cache_mates qs sib ms m)"
  using grow_all_inv [of "length qs" sib ms "group_qs qs m" "group_qs qs m"] group_qs_distinct [of qs m] group_qs_mem [of _ qs m] by (auto simp: cache_mates_def Let_def)

lemma build_mates_inv: "mates_inv (length qs) sib (build_mates qs sib ti)"
proof -
  have "mates_inv (length qs) sib (foldl (cache_mates qs sib) ms ks)" if "mates_inv (length qs) sib ms" for ms ks
    using that by (induction ks arbitrary: ms) (simp_all add: cache_mates_inv)
  moreover have "mates_inv (length qs) sib (map (mates_of sib [0..<length qs]) [0..<length qs])"
    using mates_of_ok [of "[0..<length qs]" "length qs" sib] by (simp add: mates_inv_def atLeast0LessThan)
  ultimately show ?thesis by (simp add: build_mates_def mates_inv_def [of _ _ "replicate (length qs) []"])
qed

text \<open>A worker's neighbours come from its largest cache: no cache it shares has more workers than its neighbours, itself and its sibling.\<close>

lemma mates_of_length:
  assumes "distinct g"
  shows "length g \<le> length (mates_of sib g q) + 2"
proof -
  have "set g \<subseteq> set (mates_of sib g q) \<union> ({q} \<union> (case sib ! q of None \<Rightarrow> {} | Some r \<Rightarrow> {r}))" by (auto simp: mates_of_def split: option.splits)
  then have "card (set g) \<le> card (set (mates_of sib g q) \<union> ({q} \<union> (case sib ! q of None \<Rightarrow> {} | Some r \<Rightarrow> {r})))" by (rule card_mono [rotated]) (simp split: option.splits)
  also have "\<dots> \<le> card (set (mates_of sib g q)) + card ({q} \<union> (case sib ! q of None \<Rightarrow> {} | Some r \<Rightarrow> {r}))" by (rule card_Un_le)
  also have "card ({q} \<union> (case sib ! q of None \<Rightarrow> {} | Some r \<Rightarrow> {r})) \<le> 2" by (auto simp: card_insert_if split: option.splits)
  finally show ?thesis using assms distinct_card [OF assms] distinct_card [of "mates_of sib g q"] by (simp add: mates_of_def)
qed

lemma grow_mates_grows:
  assumes "distinct g"
  shows "length (ms ! r) \<le> length (grow_mates sib g ms q ! r) \<and> length (grow_mates sib g ms q) = length ms \<and> (q < length ms \<longrightarrow> length g \<le> length (grow_mates sib g ms q ! q) + 2)"
  using mates_of_length [OF assms, of sib q] by (cases "q < length ms") (auto simp: grow_mates_def nth_list_update list_update_beyond)

lemma grow_all_grows:
  assumes "distinct g"
  shows "length (ms ! r) \<le> length (foldl (grow_mates sib g) ms qs ! r) \<and> length (foldl (grow_mates sib g) ms qs) = length ms \<and>
    (\<forall>q \<in> set qs. q < length ms \<longrightarrow> length g \<le> length (foldl (grow_mates sib g) ms qs ! q) + 2)"
proof (induction qs arbitrary: ms r)
  case (Cons q qs)
  let ?ms = "grow_mates sib g ms q"
  have g: "length (ms ! r) \<le> length (?ms ! r)" "length ?ms = length ms" "q < length ms \<longrightarrow> length g \<le> length (?ms ! q) + 2" for r using grow_mates_grows [OF assms, of ms r sib q] by auto
  have "length g \<le> length (foldl (grow_mates sib g) ?ms qs ! q) + 2" if "q < length ms" using g(3) that Cons.IH [of ?ms q] by linarith
  then show ?case using Cons.IH [of ?ms r] g(1) [of r] g(2) by auto
qed simp

lemma cache_mates_grows:
  "length (ms ! r) \<le> length (cache_mates qs sib ms m ! r) \<and> length (cache_mates qs sib ms m) = length ms \<and>
    (length ms = length qs \<and> q \<in> set (group_qs qs m) \<longrightarrow> length (group_qs qs m) \<le> length (cache_mates qs sib ms m ! q) + 2)"
  using grow_all_grows [OF group_qs_distinct [of qs m], of ms r sib "group_qs qs m"] group_qs_mem [of q qs m] by (auto simp: cache_mates_def Let_def)

lemma largest_cache:
  assumes "length ms = length qs" "m \<in> set ks" "q \<in> set (group_qs qs m)"
  shows "length (group_qs qs m) \<le> length (foldl (cache_mates qs sib) ms ks ! q) + 2"
  using assms
proof (induction ks arbitrary: ms)
  case (Cons k ks)
  have mono: "length (ns ! q) \<le> length (foldl (cache_mates qs sib) ns ks ! q)" for ns ks
  proof (induction ks arbitrary: ns)
    case (Cons k ks)
    have "length (ns ! q) \<le> length (cache_mates qs sib ns k ! q)" using cache_mates_grows [of ns q qs sib k q] by blast
    then show ?case using Cons.IH [of "cache_mates qs sib ns k"] by simp
  qed simp
  show ?case
  proof (cases "m = k")
    case True
    then show ?thesis using cache_mates_grows [of ms q qs sib k q] Cons.prems mono [of "cache_mates qs sib ms k" ks] by simp
  next
    case False
    then show ?thesis using Cons.IH [of "cache_mates qs sib ms k"] Cons.prems cache_mates_grows [of ms q qs sib k q] by simp
  qed
qed simp

text \<open>A worker is on an efficient core exactly when its processor is of a lower class than the best.\<close>

lemma qIndexOf_iff: "cpus_distinct qs \<Longrightarrow> qIndexOf qs cpu = Some q \<longleftrightarrow> q < length qs \<and> qs ! q = Some cpu"
proof
  assume d: "cpus_distinct qs" and q: "q < length qs \<and> qs ! q = Some cpu"
  then have "qIndexOf qs cpu \<noteq> None" by (auto simp: qIndexOf_def find_None_iff)
  then obtain r where "qIndexOf qs cpu = Some r" by blast
  moreover from this have "r = q" using qIndexOf_SomeD [of qs cpu r] d q unfolding cpus_distinct_def by (metis option.distinct(1))
  ultimately show "qIndexOf qs cpu = Some q" by simp
qed (rule qIndexOf_SomeD)

lemma nth_update_at: "q < length v \<Longrightarrow> v[i := x] ! q = (if i = q then x else v ! q)"
  by (cases "i < length v") (auto simp: nth_list_update)

lemma slow_cpus_fold:
  assumes "q < length v"
  shows "foldl (slow_cpu qs ti) v cpus ! q \<longleftrightarrow> v ! q \<and> \<not> (\<exists>cpu \<in> set cpus. is_slow ti cpu \<and> qIndexOf qs cpu = Some q)"
  using assms
proof (induction cpus arbitrary: v)
  case (Cons cpu cpus)
  have "length (slow_cpu qs ti v cpu) = length v" by (simp add: slow_cpu_def split: option.splits)
  moreover have "slow_cpu qs ti v cpu ! q \<longleftrightarrow> v ! q \<and> \<not> (is_slow ti cpu \<and> qIndexOf qs cpu = Some q)" using Cons.prems by (auto simp: slow_cpu_def nth_update_at split: option.splits)
  ultimately show ?case using Cons.IH [of "slow_cpu qs ti v cpu"] Cons.prems by auto
qed simp

lemma p_cores_nth:
  assumes "cpus_distinct qs" "q < length qs"
  shows "p_cores qs ti ! q \<longleftrightarrow> \<not> (\<exists>cpu < kMaxCpus. qs ! q = Some cpu \<and> is_slow ti cpu)"
  using assms(2) slow_cpus_fold [of q "replicate (length qs) True" qs ti "[0..<kMaxCpus]"] by (auto simp: p_cores_def qIndexOf_iff [OF assms(1)])

text \<open>The tables the workers go by are sound: siblings are pairs of different workers, a worker's neighbours are other workers and not its sibling, none twice, the two lists by
  core class share them out without loss, and a worker counts as slow exactly when its processor is.\<close>

theorem topology_tables_are_sound:
  assumes "cores_disjoint (ti_coreMasks ti)"
  shows "let tp = BuildTopology (qToCpu c n ti) ti in
    (\<forall>q < n. \<forall>r. tp_sibling tp ! q = Some r \<longrightarrow> r < n \<and> r \<noteq> q \<and> tp_sibling tp ! r = Some q) \<and>
    (\<forall>q < n. distinct (tp_mates tp ! q) \<and> (\<forall>r \<in> set (tp_mates tp ! q). r < n \<and> r \<noteq> q \<and> Some r \<noteq> tp_sibling tp ! q)) \<and>
    (\<forall>q < n. mset (tp_same tp ! q) + mset (tp_other tp ! q) = mset (tp_mates tp ! q) \<and> (\<forall>r \<in> set (tp_same tp ! q). tp_isPCore tp ! r = tp_isPCore tp ! q)) \<and>
    (\<forall>q < n. tp_isPCore tp ! q \<longleftrightarrow> \<not> (\<exists>cpu < kMaxCpus. qToCpu c n ti ! q = Some cpu \<and> is_slow ti cpu))"
proof -
  let ?qs = "qToCpu c n ti"
  let ?sib = "build_siblings ?qs ti"
  have s: "r < n \<and> r \<noteq> q \<and> ?sib ! r = Some q" if "q < n" "?sib ! q = Some r" for q r using sib_invD [OF build_siblings_ok [OF assms], of q ?qs r] that by simp
  have m: "distinct (build_mates ?qs ?sib ti ! q) \<and> (\<forall>r \<in> set (build_mates ?qs ?sib ti ! q). r < n \<and> r \<noteq> q \<and> Some r \<noteq> ?sib ! q)" if "q < n" for q
    using build_mates_inv [of ?qs ?sib ti] that unfolding mates_inv_def length_qToCpu by blast
  have p: "p_cores ?qs ti ! q \<longleftrightarrow> \<not> (\<exists>cpu < kMaxCpus. ?qs ! q = Some cpu \<and> is_slow ti cpu)" if "q < n" for q using p_cores_nth [OF qToCpu_distinct [OF assms], of q c n] that by simp
  have tp: "tp_sibling (BuildTopology ?qs ti) = ?sib" "tp_mates (BuildTopology ?qs ti) = build_mates ?qs ?sib ti" "tp_isPCore (BuildTopology ?qs ti) = p_cores ?qs ti" by (simp_all add: BuildTopology_def Let_def)
  have f: "mset (tp_same (BuildTopology ?qs ti) ! q) + mset (tp_other (BuildTopology ?qs ti) ! q) = mset (build_mates ?qs ?sib ti ! q) \<and> (\<forall>r \<in> set (tp_same (BuildTopology ?qs ti) ! q). p_cores ?qs ti ! r = p_cores ?qs ti ! q)"
    if "q < n" for q using that by (simp add: BuildTopology_def Let_def mset_filter_partition)
  show ?thesis unfolding Let_def tp using s m p f by (intro conjI allI impI) blast+
qed

section \<open>The pool that is started\<close>

lemma GetSafeTC_pos: "0 < GetSafeTC c cores"
  by (simp add: GetSafeTC_def Let_def)

lemma start_size_bounds:
  assumes "cores_disjoint (ti_coreMasks ti)"
  shows "0 < start_size c hw ti \<and> start_size c hw ti \<le> max kMaxCpus (if hw = 0 then 4 else hw)"
proof -
  have "length (first_cpus ti) \<le> kMaxCpus"
  proof -
    have "set (first_cpus ti) \<subseteq> {..<kMaxCpus}" by (auto simp: first_cpus_def set_map_filter_iff dest!: find_SomeD split: if_splits)
    then have "card (set (first_cpus ti)) \<le> kMaxCpus" using card_mono [of "{..<kMaxCpus}"] by simp
    then show ?thesis using distinct_card [OF first_cpus_distinct [OF assms]] by simp
  qed
  then show ?thesis using GetSafeTC_pos [of c hw] by (auto simp: start_size_def physical_cpus_def pool_request_def)
qed

lemma StartPool_wf:
  assumes "cores_disjoint (ti_coreMasks ti)" "hw < 2 ^ 16"
  shows "sc_wf (StartPool c live hw ti task pins)" "queued (StartPool c live hw ti task pins) = {#}"
proof -
  let ?s = "StartPool c live hw ti task pins"
  have n: "0 < start_size c hw ti" "start_size c hw ti < 2 ^ 16" using start_size_bounds [OF assms(1), of c hw] assms(2) by (auto simp: kMaxCpus_def kWords_def split: if_splits)
  have f: "sc_workers ?s = start_size c hw ti" "sc_idle ?s = []" "sc_normal ?s = replicate (start_size c hw ti) []" "sc_hot ?s < sc_workers ?s"
    using n(1) by (auto simp: StartPool_def Let_def ClampHotWorkersToPool_def)
  show "sc_wf ?s" unfolding sc_wf_def using n f by (simp add: StartPool_def Let_def ClampHotWorkersToPool_def)
  have "sum_list (replicate k ({#} :: nat multiset)) = {#}" for k by (induction k) simp_all
  then show "queued ?s = {#}" by (simp add: queued_def StartPool_def Let_def ClampHotWorkersToPool_def)
qed

text \<open>(C30) Whatever configuration a pool is started with, it has at least one worker, at most two reserved ones and a compute worker left over; and from this start any sequence of pushes, batches,
  resumes, yields, wakes and drains returns, its queues hold exactly the tasks that were accepted, each once (a call that refuses its task leaves it nowhere), and the pool stays well formed. The
  machine's core masks are disjoint and it has fewer than \<open>2 ^ 16\<close> processors; the calls are made by workers of the pool, resumed tasks have pins that name no worker, main, or a worker of the
  pool, and a blocking section is not begun inside a guard (\<open>call_ok\<close>).\<close>

theorem started_pool_places_every_task:
  assumes "cores_disjoint (ti_coreMasks ti)" "hw < 2 ^ 16" "s = StartPool (Init_config requested) live hw ti task pins" "list_all (call_ok s) cs"
  shows "0 < sc_workers s \<and> sc_hot s \<le> kMaxReservedWorkers \<and> sc_hot s < sc_workers s \<and> (\<exists>ts s'. sched_run cs s = Some (ts, s') \<and> queued s' = mset ts \<and> sc_wf s' \<and> sc_workers s' = sc_workers s)"
proof -
  have w: "sc_wf s" "queued s = {#}" using StartPool_wf [OF assms(1,2)] assms(3) by auto
  obtain ts s' where r: "sched_run cs s = Some (ts, s')" "placed ts s (True, s')" using sched_run_placed [OF w(1) assms(4)] by blast
  have "sc_hot s \<le> kMaxReservedWorkers" by (auto simp: assms(3) StartPool_def Let_def ClampHotWorkersToPool_def Init_config_def)
  moreover have "sc_hot s < sc_workers s" using w(1) by (simp add: sc_wf_def)
  ultimately show ?thesis using r w(2) by (auto simp: placed_def same_shape_def)
qed

text \<open>Each thread of the pool has its own epoch slot among those reserved for the pool, and main the slot 0; a worker's cache of fibers is not smaller than 16.\<close>

lemma epoch_ids_distinct: "i < n \<Longrightarrow> j < n \<Longrightarrow> wk_epochId (start_worker c qs i) = wk_epochId (start_worker c qs j) \<Longrightarrow> i = j"
  "i < n \<Longrightarrow> wk_epochId (start_worker c qs i) < epoch_slots c n" "wk_epochId (start_worker c qs i) = 0 \<longleftrightarrow> wk_isMain (start_worker c qs i)"
  by (auto simp: start_worker_def epoch_slots_def split: if_splits)

lemma fiber_cache_bounds: "16 \<le> fiber_cache_capacity c n" "0 < compute_count c n"
  by (auto simp: fiber_cache_capacity_def compute_count_def Let_def)

lemma LiveTunables_bounds: "1 \<le> tn_leaves (LiveTunables b t)" "100 \<le> tn_wakeCostNs (LiveTunables b t)" "1 \<le> tn_stickyCap (LiveTunables b t) \<and> tn_stickyCap (LiveTunables b t) \<le> 8"
  by (auto simp: LiveTunables_def)

text \<open>With the policy that takes one processor per core, the number of workers that was asked for is not used, and with main in the pool the last core gets none.\<close>

lemma PhysicalOnly_ignores_the_request: "cfg_affinity c = PhysicalOnly \<Longrightarrow> 2 \<le> length (first_cpus ti) \<Longrightarrow> start_size c hw ti = length (first_cpus ti) - 1"
  by (auto simp: start_size_def physical_cpus_def)

lemma all_cpus_Test:
  assumes "list_all mask_wf (ti_coreMasks ti)"
  shows "mask_Test d (all_cpus ti) \<longleftrightarrow> (\<exists>m \<in> set (ti_coreMasks ti). mask_Test d m)"
proof -
  let ?one = "\<lambda>m a cpu. if mask_Test cpu m then mask_Set cpu a else a"
  have one: "mask_wf (foldl (?one m) a cs) \<and> (mask_Test d (foldl (?one m) a cs) \<longleftrightarrow> mask_Test d a \<or> d \<in> set cs \<and> mask_Test d m)" if "mask_wf a" for a cs m
    using that
  proof (induction cs arbitrary: a)
    case (Cons c cs)
    have "mask_wf (?one m a c)" "mask_Test d (?one m a c) \<longleftrightarrow> mask_Test d a \<or> d = c \<and> mask_Test d m" using Cons.prems mask_Test_lt [of c m] by (auto simp: mask_Test_Set)
    then show ?case using Cons.IH [of "?one m a c"] by auto
  qed simp
  have "mask_wf (foldl (\<lambda>a m. foldl (?one m) a [0..<kMaxCpus]) a ms) \<and> (mask_Test d (foldl (\<lambda>a m. foldl (?one m) a [0..<kMaxCpus]) a ms) \<longleftrightarrow> mask_Test d a \<or> (\<exists>m \<in> set ms. mask_Test d m))"
    if "mask_wf a" for a ms
    using that
  proof (induction ms arbitrary: a)
    case (Cons m ms)
    show ?case using Cons.IH [of "foldl (?one m) a [0..<kMaxCpus]"] one [OF Cons.prems, of m "[0..<kMaxCpus]"] mask_Test_lt [of d m] by auto
  qed simp
  from this [OF mask_wf_none, of "ti_coreMasks ti"] show ?thesis by (simp add: all_cpus_def)
qed

section \<open>A machine of two cores\<close>

text \<open>Four processors on two cores, the second of a slower class, with one cache.\<close>

definition two_cores :: topo_info where
  "two_cores = \<lparr>ti_coreMasks = [[3, 0, 0, 0], [12, 0, 0, 0]], ti_cacheMasks = [[15, 0, 0, 0]], ti_haveCores = True, ti_haveCache = True, ti_logicalCount = 4,
     ti_efficiencyClass = [1, 1, 0, 0] @ replicate 252 (-1), ti_maxClass = 1\<rparr>"

definition demo_config :: Config where
  "demo_config = \<lparr>cfg_mode = Migrate, cfg_main = DefaultMain, cfg_workers = 4, cfg_hot = 1, cfg_affinity = Ideal, cfg_reservedCores = 0, cfg_timers = False, cfg_normalFibers = 64, cfg_deepFibers = 1,
     cfg_external = 16, cfg_tunables = \<lparr>tn_minIters = 64, tn_leaves = 8, tn_wakeCostNs = 3000, tn_stickyCap = 8, tn_ioQuietUs = 500, tn_reservedStealing = True, tn_injector = True, tn_fastSpin = -1\<rparr>\<rparr>"

lemma bit_small: "bit (3 :: u64) k \<longleftrightarrow> k < 2" "bit (12 :: u64) k \<longleftrightarrow> k = 2 \<or> k = 3" "bit (15 :: u64) k \<longleftrightarrow> k < 4"
proof -
  have "(3 :: u64) = mask 2" "(15 :: u64) = mask 4" "(12 :: u64) = push_bit 2 (mask 2)" by (simp_all add: mask_eq_exp_minus_1)
  then show "bit (3 :: u64) k \<longleftrightarrow> k < 2" "bit (12 :: u64) k \<longleftrightarrow> k = 2 \<or> k = 3" "bit (15 :: u64) k \<longleftrightarrow> k < 4" by (auto simp only: bit_mask_iff bit_push_bit_iff) auto
qed

lemma one_word_Test: "mask_Test c [w, 0, 0, 0] \<longleftrightarrow> c < 64 \<and> bit w c"
proof (cases "c div 64 = 0")
  case True
  then show ?thesis by (auto simp: mask_Test_bit kMaxCpus_def kWords_def)
next
  case False
  then have "c < kMaxCpus \<Longrightarrow> c div 64 \<in> {1, 2, 3}" by (auto simp: kMaxCpus_def kWords_def)
  then show ?thesis using False by (auto simp: mask_Test_bit)
qed

lemma two_cores_Test: "mask_Test c [3, 0, 0, 0] \<longleftrightarrow> c < 2" "mask_Test c [12, 0, 0, 0] \<longleftrightarrow> 2 \<le> c \<and> c < 4" "mask_Test c [15, 0, 0, 0] \<longleftrightarrow> c < 4"
  unfolding one_word_Test bit_small by auto

lemma two_cores_disjoint: "cores_disjoint (ti_coreMasks two_cores)"
  by (auto simp: cores_disjoint_def two_cores_def two_cores_Test)

lemma filter_interval: "b \<le> n \<Longrightarrow> filter (\<lambda>c. a \<le> c \<and> c < b) [0..<n] = [a..<b]"
proof -
  assume "b \<le> n"
  then have "[0..<n] = [0..<b] @ [b..<n]" by (metis le_add_diff_inverse upt_add_eq_append zero_le)
  moreover have "filter (\<lambda>c. a \<le> c \<and> c < b) [b..<n] = []" by simp
  moreover have "filter (\<lambda>c. a \<le> c \<and> c < b) [0..<b] = [a..<b]"
  proof (cases "a \<le> b")
    case True
    then have "[0..<b] = [0..<a] @ [a..<b]" by (metis le_add_diff_inverse upt_add_eq_append zero_le)
    then show ?thesis by simp
  qed auto
  ultimately show ?thesis by simp
qed

lemma filter_below: "b \<le> n \<Longrightarrow> filter (\<lambda>c. c < b) [0..<n] = [0..<b]"
  using filter_interval [of b n 0] by simp

lemma group_qs_filter: "group_qs qs m = List.map_filter (qIndexOf qs) (filter (\<lambda>cpu. mask_Test cpu m) [0..<kMaxCpus])"
proof -
  have "List.map_filter (\<lambda>cpu. if mask_Test cpu m then qIndexOf qs cpu else None) xs = List.map_filter (qIndexOf qs) (filter (\<lambda>cpu. mask_Test cpu m) xs)" for xs
    by (induction xs) (simp_all add: List.map_filter_simps split: option.splits)
  then show ?thesis by (simp add: group_qs_def)
qed

definition qs4 :: "nat option list" where "qs4 = [Some 0, Some 1, Some 2, Some 3]"

lemma two_cores_cpus: "cpu_list (Init_config demo_config) two_cores = [0, 1, 2, 3]" "qToCpu (Init_config demo_config) 4 two_cores = qs4"
proof -
  have "mask_Test c (all_cpus two_cores) \<longleftrightarrow> c < 4" for c using all_cpus_Test [of two_cores c] by (auto simp: two_cores_def mask_wf_def kWords_def two_cores_Test)
  then have "logical_cpus two_cores = [0..<4]" using filter_below [of 4 kMaxCpus] by (simp add: logical_cpus_def two_cores_def kMaxCpus_def kWords_def)
  then show l: "cpu_list (Init_config demo_config) two_cores = [0, 1, 2, 3]" by (simp add: cpu_list_def physical_cpus_def Init_config_def demo_config_def kMaxReservedWorkers_def upt_rec)
  show "qToCpu (Init_config demo_config) 4 two_cores = qs4"
    unfolding qToCpu_def l qs4_def by (simp add: upt_rec cpu_offset_def Init_config_def demo_config_def kMaxReservedWorkers_def)
qed

lemma two_cores_groups:
  "group_qs qs4 [3, 0, 0, 0] = [0, 1]" "group_qs qs4 [12, 0, 0, 0] = [2, 3]" "group_qs qs4 [15, 0, 0, 0] = [0, 1, 2, 3]"
proof -
  have k: "2 \<le> kMaxCpus" "4 \<le> kMaxCpus" by (simp_all add: kMaxCpus_def kWords_def)
  have f: "[0..<2] = [0, 1 :: nat]" "[2..<4] = [2, 3 :: nat]" "[0..<4] = [0, 1, 2, 3 :: nat]" by (simp_all add: upt_rec)
  have q: "qIndexOf qs4 0 = Some 0" "qIndexOf qs4 1 = Some 1" "qIndexOf qs4 2 = Some 2" "qIndexOf qs4 3 = Some 3" by (simp_all add: qIndexOf_def qs4_def upt_rec)
  show "group_qs qs4 [3, 0, 0, 0] = [0, 1]" "group_qs qs4 [12, 0, 0, 0] = [2, 3]" "group_qs qs4 [15, 0, 0, 0] = [0, 1, 2, 3]"
    by (simp_all add: group_qs_filter two_cores_Test filter_below [OF k(1)] filter_below [OF k(2)] filter_interval [OF k(2)] f List.map_filter_simps q del: One_nat_def)
qed

lemma two_cores_tables: "tp_sibling (BuildTopology qs4 two_cores) = [Some 1, Some 0, Some 3, Some 2]"
  "tp_mates (BuildTopology qs4 two_cores) = [[2, 3], [2, 3], [0, 1], [0, 1]]"
proof -
  have s: "build_siblings qs4 two_cores = [Some 1, Some 0, Some 3, Some 2]" by (simp add: build_siblings_def two_cores_def pair_siblings_def two_cores_groups Let_def) (simp add: qs4_def)
  show "tp_sibling (BuildTopology qs4 two_cores) = [Some 1, Some 0, Some 3, Some 2]" by (simp add: BuildTopology_def Let_def s)
  show "tp_mates (BuildTopology qs4 two_cores) = [[2, 3], [2, 3], [0, 1], [0, 1]]"
    by (simp add: BuildTopology_def Let_def s) (simp add: build_mates_def two_cores_def cache_mates_def two_cores_groups grow_mates_def mates_of_def qs4_def [THEN arg_cong, of length])
qed

theorem workers_have_their_own_processors_witness: "cpu_list (Init_config demo_config) two_cores = [0, 1, 2, 3] \<and> Some 3 \<in> set (qToCpu (Init_config demo_config) 4 two_cores)"
proof -
  have o: "cpu_offset (Init_config demo_config) = 0" by (simp add: cpu_offset_def Init_config_def demo_config_def kMaxReservedWorkers_def)
  have "cpu_offset (Init_config demo_config) \<le> 3 \<and> 3 < length (cpu_list (Init_config demo_config) two_cores) \<and> length (cpu_list (Init_config demo_config) two_cores) \<le> 4 + cpu_offset (Init_config demo_config)"
    by (simp add: o two_cores_cpus(1))
  then have "Some (cpu_list (Init_config demo_config) two_cores ! 3) \<in> set (qToCpu (Init_config demo_config) 4 two_cores)"
    using workers_have_their_own_processors [OF two_cores_disjoint, of 4 "Init_config demo_config"] by blast
  then show ?thesis by (simp add: two_cores_cpus(1))
qed

theorem topology_tables_are_sound_witness: "tp_sibling (BuildTopology (qToCpu (Init_config demo_config) 4 two_cores) two_cores) ! 0 = Some 1 \<and> tp_sibling (BuildTopology (qToCpu (Init_config demo_config) 4 two_cores) two_cores) ! 1 = Some 0 \<and>
    mset (tp_same (BuildTopology (qToCpu (Init_config demo_config) 4 two_cores) two_cores) ! 2) + mset (tp_other (BuildTopology (qToCpu (Init_config demo_config) 4 two_cores) two_cores) ! 2) = {#0, 1#}"
proof -
  have "mset (tp_same (BuildTopology qs4 two_cores) ! 2) + mset (tp_other (BuildTopology qs4 two_cores) ! 2) = mset (tp_mates (BuildTopology qs4 two_cores) ! 2)"
    using topology_tables_are_sound [OF two_cores_disjoint, of "Init_config demo_config" 4] unfolding Let_def two_cores_cpus by simp
  then show ?thesis unfolding two_cores_cpus by (simp add: two_cores_tables)
qed

text \<open>A push, a batch of three and a push to worker 0 in the pool just started.\<close>

definition three_calls :: "sched_call list" where "three_calls = [CallPush 1 None True 7, CallSpread [2, 3, 4] True, CallPushTo 0 6]"

theorem started_pool_places_every_task_witness:
  "\<exists>ts s'. sched_run three_calls (StartPool (Init_config demo_config) (cfg_tunables demo_config) 4 two_cores (\<lambda>t. new_Task t 0 Normal) (\<lambda>t. pinNone)) = Some (ts, s') \<and> queued s' = mset ts \<and> sc_wf s'"
proof -
  let ?s = "StartPool (Init_config demo_config) (cfg_tunables demo_config) 4 two_cores (\<lambda>t. new_Task t 0 Normal) (\<lambda>t. pinNone)"
  have ok: "list_all (call_ok ?s) three_calls" by (simp add: three_calls_def)
  have hw: "(4 :: nat) < 2 ^ 16" by simp
  show ?thesis using started_pool_places_every_task [OF two_cores_disjoint hw refl ok] by blast
qed

end
