(* ===== verification/WorkerParks.thy ===== *)
theory WorkerParks
  imports JPrelude
begin

text \<open>
  How a compute worker goes to sleep and is woken: the hunt counter, the stack of idle workers (\<^verbatim>\<open>src/TaskScheduler.cpp\<close>,
  \<open>EnterHunt\<close> to \<open>PopIdleWorker\<close>), the park path of \<open>Thread::Worker\<close> and \<open>Thread::Wake\<close> (\<^verbatim>\<open>src/Thread.cpp\<close>). Threads below the
  number of workers are compute workers, the others are threads outside the pool; each step is one atomic access of one thread.
  A push or a pop of the versioned stack is one step, its successful compare-exchange; a failed one changes nothing.
  What a thread does between two accesses of this state (scanning deques, running a task) is a thread that is free, and any
  free thread may push a task at any worker at any time. Not in the model: the reserved workers and main, which are
  never on the stack, and the stop of the pool.
\<close>

section \<open>State\<close>

datatype WorkerState = WS_EMPTY | WS_NOTIFIED | WS_PARKED

text \<open>Why a thread pops the idle stack: \<open>LeaveHunt\<close> to hand the hunt off, \<open>PickNextWorker\<close> to find a target.\<close>

datatype pop_for = Handoff | Pick

datatype pop_pc = PLoad | PClear nat | PArmed nat | PState nat

text \<open>The calls of this component, at their next access: a pop, and the tail \<open>push\<close>, \<open>MarkQueuedWork\<close>, \<open>Wake\<close> of every placement.\<close>

datatype call_pc = Pop pop_for pop_pc | PushTask nat | MarkQueuedWork nat | Wake nat | FutexWake nat

datatype park_pc =
    Consume
  | Publish
  | ConsumeLate
  | Arm
  | TestLinked
  | MarkLinked
  | PushIdle
  | CheckFlag
  | CheckInbox
  | CheckHunt
  | Disarm
  | Retract
  | RetractLate
  | TestState
  | FutexWait
  | Blocked
  | Woken
  | WokenDisarm
  | Return

text \<open>\<open>Free h\<close>: outside these calls, counted as a hunter exactly if \<open>h\<close>.\<close>

datatype thr = Free bool | Call bool call_pc | Park park_pc

record park_pool =
  pk_searching :: nat
  pk_stack :: "nat list"
  pk_count :: u32
  pk_thr :: "nat \<Rightarrow> thr"
  pk_state :: "nat \<Rightarrow> WorkerState"
  pk_armed :: "nat \<Rightarrow> bool"
  pk_linked :: "nat \<Rightarrow> bool"
  pk_work :: "nat \<Rightarrow> nat"
  pk_flag :: "nat \<Rightarrow> bool"

definition park_init :: park_pool where
  "park_init = \<lparr>pk_searching = 0, pk_stack = [], pk_count = 0, pk_thr = (\<lambda>_. Free False), pk_state = (\<lambda>_. WS_EMPTY),
     pk_armed = (\<lambda>_. False), pk_linked = (\<lambda>_. False), pk_work = (\<lambda>_. 0), pk_flag = (\<lambda>_. False)\<rparr>"

definition goes :: "nat \<Rightarrow> thr \<Rightarrow> park_pool \<Rightarrow> park_pool" where
  "goes i p s = s\<lparr>pk_thr := (pk_thr s)(i := p)\<rparr>"

definition store_state :: "nat \<Rightarrow> WorkerState \<Rightarrow> park_pool \<Rightarrow> park_pool" where
  "store_state q w s = s\<lparr>pk_state := (pk_state s)(q := w)\<rparr>"

text \<open>\<open>workerState.compare_exchange_strong(NOTIFIED, EMPTY)\<close>.\<close>

definition consume :: "nat \<Rightarrow> park_pool \<Rightarrow> park_pool" where
  "consume q s = (if pk_state s q = WS_NOTIFIED then store_state q WS_EMPTY s else s)"

section \<open>The hunt\<close>

definition EnterHunt :: "nat \<Rightarrow> park_pool \<Rightarrow> park_pool" where
  "EnterHunt i s = goes i (Free True) (s\<lparr>pk_searching := pk_searching s + 1\<rparr>)"

definition LeaveHunt :: "nat \<Rightarrow> park_pool \<Rightarrow> park_pool" where
  "LeaveHunt i s = goes i (if pk_searching s = 1 then Call False (Pop Handoff PLoad) else Free False)
     (s\<lparr>pk_searching := pk_searching s - 1\<rparr>)"

text \<open>The last hunter is refused and goes on hunting.\<close>

definition TryLeaveHuntForPark :: "nat \<Rightarrow> park_pool \<Rightarrow> park_pool" where
  "TryLeaveHuntForPark i s = (if pk_searching s \<le> 1 then s
     else goes i (Park Consume) (s\<lparr>pk_searching := pk_searching s - 1\<rparr>))"

section \<open>The stack of idle workers\<close>

definition idle_arm :: "nat \<Rightarrow> park_pool \<Rightarrow> park_pool" where
  "idle_arm q s = s\<lparr>pk_armed := (pk_armed s)(q := True)\<rparr>"

definition idle_mark :: "nat \<Rightarrow> bool \<Rightarrow> park_pool \<Rightarrow> park_pool" where
  "idle_mark q b s = s\<lparr>pk_linked := (pk_linked s)(q := b)\<rparr>"

definition idle_push :: "nat \<Rightarrow> park_pool \<Rightarrow> park_pool" where
  "idle_push q s = s\<lparr>pk_stack := q # pk_stack s, pk_count := pk_count s + 1\<rparr>"

text \<open>\<open>armed.exchange(0)\<close>, with the count that follows it.\<close>

definition idle_disarm :: "nat \<Rightarrow> park_pool \<Rightarrow> park_pool" where
  "idle_disarm q s = (if pk_armed s q then s\<lparr>pk_armed := (pk_armed s)(q := False), pk_count := pk_count s - 1\<rparr> else s)"

definition UnregisterIdleWorker :: "nat \<Rightarrow> park_pool \<Rightarrow> park_pool" where
  "UnregisterIdleWorker q s = idle_disarm q s"

text \<open>What the caller of \<open>PopIdleWorker\<close> does with the result; without one, \<open>PickNextWorker\<close> takes a worker \<open>other\<close> of its own.\<close>

definition popped :: "pop_for \<Rightarrow> nat \<Rightarrow> nat option \<Rightarrow> bool \<Rightarrow> thr" where
  "popped k other res h = (case (k, res) of
     (Handoff, None) \<Rightarrow> Free h | (Handoff, Some q) \<Rightarrow> Call h (Wake q)
   | (Pick, None) \<Rightarrow> Call h (PushTask other) | (Pick, Some q) \<Rightarrow> Call h (PushTask q))"

definition PopIdleWorker :: "nat \<Rightarrow> bool \<Rightarrow> pop_for \<Rightarrow> nat \<Rightarrow> pop_pc \<Rightarrow> park_pool \<Rightarrow> park_pool" where
  "PopIdleWorker i h k other p s = (case p of
     PLoad \<Rightarrow> (case pk_stack s of [] \<Rightarrow> goes i (popped k other None h) s
              | q # rest \<Rightarrow> goes i (Call h (Pop k (PClear q))) (s\<lparr>pk_stack := rest\<rparr>))
   | PClear q \<Rightarrow> goes i (Call h (Pop k (PArmed q))) (idle_mark q False s)
   | PArmed q \<Rightarrow> goes i (Call h (Pop k (if pk_armed s q then PState q else PLoad))) (idle_disarm q s)
   | PState q \<Rightarrow> goes i (if pk_state s q = WS_PARKED then popped k other (Some q) h else Call h (Pop k PLoad)) s)"

section \<open>Placing a task and waking its worker\<close>

definition call_step :: "nat \<Rightarrow> bool \<Rightarrow> nat \<Rightarrow> call_pc \<Rightarrow> park_pool \<Rightarrow> park_pool" where
  "call_step i h other c s = (case c of
     Pop k p \<Rightarrow> PopIdleWorker i h k other p s
   | PushTask q \<Rightarrow> goes i (Call h (MarkQueuedWork q)) (s\<lparr>pk_work := (pk_work s)(q := pk_work s q + 1)\<rparr>)
   | MarkQueuedWork q \<Rightarrow> goes i (Call h (Wake q)) (s\<lparr>pk_flag := (pk_flag s)(q := True)\<rparr>)
   | Wake q \<Rightarrow> goes i (if pk_state s q = WS_PARKED then Call h (FutexWake q) else Free h) (store_state q WS_NOTIFIED s)
   | FutexWake q \<Rightarrow> goes i (Free h) (if pk_thr s q = Park Blocked then goes q (Park TestState) s else s))"

section \<open>The park path\<close>

text \<open>\<open>other\<close>: one of the recheck's other reasons not to sleep holds (own deque, injector).\<close>

definition park_step :: "nat \<Rightarrow> bool \<Rightarrow> park_pc \<Rightarrow> park_pool \<Rightarrow> park_pool" where
  "park_step i other p s = (case p of
     Consume \<Rightarrow> goes i (Park (if pk_state s i = WS_NOTIFIED then Return else Publish)) (consume i s)
   | Publish \<Rightarrow> (case pk_state s i of
        WS_EMPTY \<Rightarrow> goes i (Park Arm) (store_state i WS_PARKED s)
      | WS_NOTIFIED \<Rightarrow> goes i (Park ConsumeLate) s
      | WS_PARKED \<Rightarrow> goes i (Park Return) s)
   | ConsumeLate \<Rightarrow> goes i (Park Return) (consume i s)
   | Arm \<Rightarrow> goes i (Park TestLinked) (idle_arm i s)
   | TestLinked \<Rightarrow> goes i (Park (if pk_linked s i then CheckFlag else MarkLinked)) s
   | MarkLinked \<Rightarrow> goes i (Park PushIdle) (idle_mark i True s)
   | PushIdle \<Rightarrow> goes i (Park CheckFlag) (idle_push i s)
   | CheckFlag \<Rightarrow> goes i (Park (if other \<or> pk_flag s i then Disarm else CheckInbox)) s
   | CheckInbox \<Rightarrow> goes i (Park (if other \<or> 0 < pk_work s i then Disarm else CheckHunt)) s
   | CheckHunt \<Rightarrow> goes i (Park (if pk_searching s = 0 then Disarm else TestState)) s
   | Disarm \<Rightarrow> goes i (Park Retract) (UnregisterIdleWorker i s)
   | Retract \<Rightarrow> (if pk_state s i = WS_PARKED then goes i (Park Return) (store_state i WS_EMPTY s) else goes i (Park RetractLate) s)
   | RetractLate \<Rightarrow> goes i (Park Return) (consume i s)
   | TestState \<Rightarrow> goes i (Park (if pk_state s i = WS_PARKED then FutexWait else Woken)) s
   | FutexWait \<Rightarrow> goes i (Park (if pk_state s i = WS_PARKED then Blocked else TestState)) s
   | Blocked \<Rightarrow> if other then goes i (Park TestState) s else s
   | Woken \<Rightarrow> goes i (Park WokenDisarm) (consume i s)
   | WokenDisarm \<Rightarrow> goes i (Park Return) (UnregisterIdleWorker i s)
   | Return \<Rightarrow> EnterHunt i s)"

section \<open>One step of one thread\<close>

datatype choice = Found | BodyDone | ToPark | PickTarget | PushAt nat | NotifyHolder nat | JustWake nat | Drain | ClearFlag

text \<open>What a free thread does next; hunting, leaving the hunt and parking are for workers, placing is for all.\<close>

definition free_step :: "nat \<Rightarrow> nat \<Rightarrow> bool \<Rightarrow> choice \<Rightarrow> park_pool \<Rightarrow> park_pool" where
  "free_step n i h c s = (case c of
     Found \<Rightarrow> if i < n \<and> h then LeaveHunt i s else s
   | BodyDone \<Rightarrow> if i < n \<and> \<not> h then EnterHunt i s else s
   | ToPark \<Rightarrow> if i < n \<and> h then TryLeaveHuntForPark i s else s
   | PickTarget \<Rightarrow> if pk_searching s = 0 then goes i (Call h (Pop Pick PLoad)) s else s
   | PushAt q \<Rightarrow> if q < n then goes i (Call h (PushTask q)) s else s
   | NotifyHolder q \<Rightarrow> if q < n then goes i (Call h (MarkQueuedWork q)) s else s
   | JustWake q \<Rightarrow> if q < n then goes i (Call h (Wake q)) s else s
   | Drain \<Rightarrow> if i < n then s\<lparr>pk_work := (pk_work s)(i := pk_work s i - 1)\<rparr> else s
   | ClearFlag \<Rightarrow> if i < n \<and> h then s\<lparr>pk_flag := (pk_flag s)(i := False)\<rparr> else s)"

definition thr_step :: "nat \<Rightarrow> nat \<Rightarrow> choice \<Rightarrow> nat \<Rightarrow> bool \<Rightarrow> park_pool \<Rightarrow> park_pool" where
  "thr_step n i c q other s = (case pk_thr s i of
     Free h \<Rightarrow> free_step n i h c s | Call h k \<Rightarrow> if q < n then call_step i h q k s else s | Park p \<Rightarrow> park_step i other p s)"

definition pk_step :: "nat \<Rightarrow> park_pool \<Rightarrow> park_pool \<Rightarrow> bool" where
  "pk_step n s t \<longleftrightarrow> (\<exists>i c q other. t = thr_step n i c q other s)"

lemmas park_defs = goes_def store_state_def consume_def EnterHunt_def LeaveHunt_def TryLeaveHuntForPark_def idle_arm_def idle_mark_def
  idle_push_def idle_disarm_def UnregisterIdleWorker_def popped_def

lemmas step_defs = thr_step_def free_step_def call_step_def park_step_def PopIdleWorker_def park_defs

lemmas step_splits = thr.splits choice.splits call_pc.splits pop_pc.splits pop_for.splits park_pc.splits list.splits WorkerState.splits if_splits

end
