(* ===== verification/ParkedWorkers.thy ===== *)
theory ParkedWorkers
  imports WorkerParks
begin

text \<open>
  The park protocol of \<open>WorkerParks\<close> proved: the hunt counter counts the hunters, a node is on the idle stack at most once, a worker that has
  registered stays findable until somebody owes it a wake, a sleeping worker has no work of its own, and the pool never sleeps
  without a hunter. Each invariant has one lemma per way a step can affect it.
\<close>

section \<open>Who is where\<close>

fun hunting :: "thr \<Rightarrow> bool" where
  "hunting (Free h) = h" | "hunting (Call h c) = h" | "hunting (Park p) = False"

text \<open>Some thread is in a call at a point with this property.\<close>

definition calls :: "park_pool \<Rightarrow> (call_pc \<Rightarrow> bool) \<Rightarrow> bool" where
  "calls s P \<longleftrightarrow> (\<exists>i h c. pk_thr s i = Call h c \<and> P c)"

fun target :: "call_pc \<Rightarrow> nat option" where
  "target (Pop k PLoad) = None" | "target (Pop k (PClear q)) = Some q" | "target (Pop k (PArmed q)) = Some q"
| "target (Pop k (PState q)) = Some q" | "target (PushTask q) = Some q" | "target (MarkQueuedWork q) = Some q"
| "target (Wake q) = Some q" | "target (FutexWake q) = Some q"

text \<open>The points at which the published state may be \<open>WS_PARKED\<close>.\<close>

fun window :: "thr \<Rightarrow> bool" where
  "window (Park p) = (p \<notin> {Consume, Publish, ConsumeLate, RetractLate, Woken, WokenDisarm, Return})" | "window _ = False"

definition pk_wf :: "nat \<Rightarrow> park_pool \<Rightarrow> bool" where
  [inv_defs]: "pk_wf n s \<longleftrightarrow> (\<forall>i \<ge> n. \<not> hunting (pk_thr s i) \<and> (\<forall>p. pk_thr s i \<noteq> Park p)) \<and>
    (\<forall>i h c q. pk_thr s i = Call h c \<longrightarrow> target c = Some q \<longrightarrow> q < n) \<and> set (pk_stack s) \<subseteq> {..<n} \<and>
    (\<forall>q. pk_state s q = WS_PARKED \<longrightarrow> window (pk_thr s q))"

lemma thr_step_cases [case_names Stay Free Call Park]:
  assumes "P s" "\<And>h. pk_thr s i = Free h \<Longrightarrow> P (free_step n i h c s)" "\<And>h k. pk_thr s i = Call h k \<Longrightarrow> q < n \<Longrightarrow> P (call_step i h q k s)"
    "\<And>p. pk_thr s i = Park p \<Longrightarrow> P (park_step i other p s)"
  shows "P (thr_step n i c q other s)"
  using assms by (auto simp: thr_step_def split: thr.splits)

lemma pk_wf_step: "pk_wf n s \<Longrightarrow> pk_wf n (thr_step n i c q other s)"
proof (rule thr_step_cases [where P = "pk_wf n"])
  fix h assume a: "pk_wf n s" "pk_thr s i = Free h"
  then have "i < n" if h using that by (metis hunting.simps(1) leI pk_wf_def)
  show "pk_wf n (free_step n i h c s)"
    using a by (cases c) (auto simp: free_step_def park_defs pk_wf_def)
next
  fix h k assume "pk_wf n s" "pk_thr s i = Call h k" "q < n"
  then show "pk_wf n (call_step i h q k s)"
  proof (cases k)
    case (Pop f p)
    then show ?thesis using \<open>pk_wf n s\<close> \<open>pk_thr s i = Call h k\<close> \<open>q < n\<close>
      by (cases p) (auto simp: call_step_def PopIdleWorker_def park_defs pk_wf_def split: list.splits pop_for.splits)
  qed (auto simp: call_step_def park_defs pk_wf_def)
next
  fix p assume a: "pk_wf n s" "pk_thr s i = Park p"
  then have "i < n" using a by (meson leI pk_wf_def)
  then show "pk_wf n (park_step i other p s)"
    using a by (cases p) (auto simp: park_step_def park_defs pk_wf_def split: WorkerState.splits)
qed 

text \<open>The counter is the number of hunters.\<close>

definition pk_hunts :: "nat \<Rightarrow> park_pool \<Rightarrow> bool" where
  [inv_defs]: "pk_hunts n s \<longleftrightarrow> pk_searching s = card {i. i < n \<and> hunting (pk_thr s i)}"

lemma hunters_move:
  fixes n :: nat
  assumes "i < n"
  shows "card {j. j < n \<and> hunting ((f(i := p)) j)} + (if hunting (f i) then 1 else 0) =
    card {j. j < n \<and> hunting (f j)} + (if hunting p then 1 else 0)"
proof -
  let ?R = "{j. j < n \<and> j \<noteq> i \<and> hunting (f j)}"
  have fin: "finite ?R" "i \<notin> ?R" by auto
  have "{j. j < n \<and> hunting ((f(i := p)) j)} = (if hunting p then insert i ?R else ?R)"
    "{j. j < n \<and> hunting (f j)} = (if hunting (f i) then insert i ?R else ?R)" using assms by auto
  then show ?thesis using fin by (auto simp: card_insert_if)
qed

lemma step_others:
  "j \<noteq> i \<Longrightarrow> pk_thr (thr_step n i c q other s) j = pk_thr s j \<or> pk_thr s j = Park Blocked \<and> pk_thr (thr_step n i c q other s) j = Park TestState"
proof (rule thr_step_cases [where P = "\<lambda>t. pk_thr t j = pk_thr s j \<or> pk_thr s j = Park Blocked \<and> pk_thr t j = Park TestState"])
  fix h assume "j \<noteq> i"
  then show "pk_thr (free_step n i h c s) j = pk_thr s j \<or> pk_thr s j = Park Blocked \<and> pk_thr (free_step n i h c s) j = Park TestState"
    by (cases c) (auto simp: free_step_def park_defs)
next
  fix h k assume "j \<noteq> i"
  then show "pk_thr (call_step i h q k s) j = pk_thr s j \<or> pk_thr s j = Park Blocked \<and> pk_thr (call_step i h q k s) j = Park TestState"
    by (cases k) (auto simp: call_step_def PopIdleWorker_def park_defs split: pop_pc.splits list.splits)
next
  fix p assume "j \<noteq> i"
  then show "pk_thr (park_step i other p s) j = pk_thr s j \<or> pk_thr s j = Park Blocked \<and> pk_thr (park_step i other p s) j = Park TestState"
    by (cases p) (auto simp: park_step_def park_defs split: WorkerState.splits)
qed simp

lemma hunting_others: "j \<noteq> i \<Longrightarrow> hunting (pk_thr (thr_step n i c q other s) j) = hunting (pk_thr s j)"
  using step_others [of j i n c q other s] by auto

lemma step_searching:
  assumes "hunting (pk_thr s i) \<Longrightarrow> 0 < pk_searching s"
  shows "pk_searching (thr_step n i c q other s) + (if hunting (pk_thr s i) then 1 else 0) =
    pk_searching s + (if hunting (pk_thr (thr_step n i c q other s) i) then 1 else 0)"
proof (rule thr_step_cases [where P = "\<lambda>t. pk_searching t + (if hunting (pk_thr s i) then 1 else 0) = pk_searching s + (if hunting (pk_thr t i) then 1 else 0)"])
  fix h assume "pk_thr s i = Free h"
  then show "pk_searching (free_step n i h c s) + (if hunting (pk_thr s i) then 1 else 0) = pk_searching s + (if hunting (pk_thr (free_step n i h c s) i) then 1 else 0)"
    using assms by (cases c) (auto simp: free_step_def park_defs)
next
  fix h k assume "pk_thr s i = Call h k"
  then show "pk_searching (call_step i h q k s) + (if hunting (pk_thr s i) then 1 else 0) = pk_searching s + (if hunting (pk_thr (call_step i h q k s) i) then 1 else 0)"
    by (cases k) (auto simp: call_step_def PopIdleWorker_def park_defs split: pop_pc.splits list.splits pop_for.splits)
next
  fix p assume "pk_thr s i = Park p"
  then show "pk_searching (park_step i other p s) + (if hunting (pk_thr s i) then 1 else 0) = pk_searching s + (if hunting (pk_thr (park_step i other p s) i) then 1 else 0)"
    by (cases p) (auto simp: park_step_def park_defs split: WorkerState.splits)
qed simp

lemma balance: "(a :: nat) + x = b + y \<Longrightarrow> c + x = d + y \<Longrightarrow> d = b \<Longrightarrow> c = a"
  by simp

lemma pk_hunts_step:
  assumes "pk_wf n s" "pk_hunts n s"
  shows "pk_hunts n (thr_step n i c q other s)"
proof -
  let ?t = "thr_step n i c q other s"
  have eq: "{j. j < n \<and> hunting (pk_thr ?t j)} = {j. j < n \<and> hunting (((pk_thr s)(i := pk_thr ?t i)) j)}"
  proof (rule Collect_cong)
    fix j show "(j < n \<and> hunting (pk_thr ?t j)) = (j < n \<and> hunting (((pk_thr s)(i := pk_thr ?t i)) j))"
      using hunting_others [of j i n c q other s] by (cases "j = i") simp_all
  qed
  have pos: "0 < pk_searching s" if "hunting (pk_thr s i)"
  proof -
    have "i < n" using that assms(1) unfolding pk_wf_def by (metis leI)
    then have "{j. j < n \<and> hunting (pk_thr s j)} \<noteq> {}" using that by auto
    then show ?thesis using assms(2) by (simp add: pk_hunts_def card_gt_0_iff)
  qed
  have m: "pk_searching ?t + (if hunting (pk_thr s i) then 1 else 0) = pk_searching s + (if hunting (pk_thr ?t i) then 1 else 0)"
    by (rule step_searching) (rule pos)
  show ?thesis
  proof (cases "i < n")
    case True
    show ?thesis unfolding pk_hunts_def eq by (rule balance [OF hunters_move [OF True] m assms(2) [unfolded pk_hunts_def]])
  next
    case False
    then have "\<not> hunting (pk_thr s i)" "\<not> hunting (pk_thr ?t i)" using assms(1) pk_wf_step [OF assms(1), of i c q other] by (auto simp: pk_wf_def)
    moreover have "{j. j < n \<and> hunting (((pk_thr s)(i := pk_thr ?t i)) j)} = {j. j < n \<and> hunting (pk_thr s j)}" using False by auto
    ultimately show ?thesis using m assms(2) unfolding pk_hunts_def eq by simp
  qed
qed

section \<open>Who owes what\<close>

lemma calls_step:
  assumes "calls s P" "\<And>h c'. pk_thr s i = Call h c' \<Longrightarrow> P c' \<Longrightarrow> \<exists>h'' c''. pk_thr (thr_step n i c q other s) i = Call h'' c'' \<and> P c''"
  shows "calls (thr_step n i c q other s) P"
proof -
  obtain j h k where j: "pk_thr s j = Call h k" "P k" using assms(1) by (auto simp: calls_def)
  show ?thesis
  proof (cases "j = i")
    case True
    then show ?thesis using assms(2) j by (auto simp: calls_def)
  next
    case False
    then have "pk_thr (thr_step n i c q other s) j = Call h k" using step_others [OF False, of n c q other s] j by auto
    then show ?thesis using j by (auto simp: calls_def)
  qed
qed

text \<open>Calls that will wake \<open>D\<close>; pops that hold \<open>D\<close> and will test whether it is armed; the last steps of a placement at \<open>D\<close>.\<close>

fun owes :: "nat \<Rightarrow> call_pc \<Rightarrow> bool" where
  "owes D (Pop k (PState q)) = (q = D)" | "owes D (PushTask q) = (q = D)" | "owes D (MarkQueuedWork q) = (q = D)" | "owes D (Wake q) = (q = D)"
| "owes D _ = False"

fun takes :: "nat \<Rightarrow> call_pc \<Rightarrow> bool" where
  "takes D (Pop k (PClear q)) = (q = D)" | "takes D (Pop k (PArmed q)) = (q = D)" | "takes D _ = False"

fun wakes :: "nat \<Rightarrow> call_pc \<Rightarrow> bool" where
  "wakes D (MarkQueuedWork q) = (q = D)" | "wakes D (Wake q) = (q = D)" | "wakes D _ = False"

text \<open>How far a parking worker is: registering, registered, past its check of the inboxes, about to sleep.\<close>

fun arming :: "thr \<Rightarrow> bool" where
  "arming (Park p) = (p \<in> {TestLinked, MarkLinked, PushIdle})" | "arming _ = False"

fun asleep :: "thr \<Rightarrow> bool" where
  "asleep (Park p) = (p \<in> {TestState, FutexWait, Blocked})" | "asleep _ = False"

fun registered :: "thr \<Rightarrow> bool" where
  "registered (Park p) = (p \<in> {CheckFlag, CheckInbox, CheckHunt} \<or> asleep (Park p))" | "registered _ = False"

definition on_offer :: "park_pool \<Rightarrow> nat \<Rightarrow> bool" where
  "on_offer s D \<longleftrightarrow> calls s (owes D) \<or> pk_armed s D \<and> (D \<in> set (pk_stack s) \<or> calls s (takes D))"

text \<open>The links of the stack: a worker is linked as long as it is on the stack, is being pushed, or has been popped and not unlinked yet.\<close>

definition unlinks :: "park_pool \<Rightarrow> nat \<Rightarrow> nat \<Rightarrow> bool" where
  "unlinks s i D \<longleftrightarrow> (\<exists>h k. pk_thr s i = Call h (Pop k (PClear D)))"

definition pk_links :: "park_pool \<Rightarrow> bool" where
  [inv_defs]: "pk_links s \<longleftrightarrow> distinct (pk_stack s) \<and>
    (\<forall>D. pk_linked s D \<longleftrightarrow> D \<in> set (pk_stack s) \<or> (\<exists>i. unlinks s i D) \<or> pk_thr s D = Park PushIdle) \<and>
    (\<forall>i D. unlinks s i D \<longrightarrow> D \<notin> set (pk_stack s) \<and> pk_thr s D \<noteq> Park PushIdle) \<and>
    (\<forall>i j D. unlinks s i D \<longrightarrow> unlinks s j D \<longrightarrow> i = j) \<and>
    (\<forall>D \<in> set (pk_stack s). pk_thr s D \<noteq> Park PushIdle) \<and> (\<forall>D. pk_thr s D = Park MarkLinked \<longrightarrow> \<not> pk_linked s D)"

definition pk_offers :: "park_pool \<Rightarrow> bool" where
  [inv_defs]: "pk_offers s \<longleftrightarrow> (\<forall>D. pk_state s D = WS_PARKED \<longrightarrow>
    (arming (pk_thr s D) \<longrightarrow> pk_armed s D \<or> calls s (owes D)) \<and> (registered (pk_thr s D) \<longrightarrow> on_offer s D))"

lemma pk_linksD:
  assumes "pk_links s"
  shows "distinct (pk_stack s)" "pk_linked s D \<longleftrightarrow> D \<in> set (pk_stack s) \<or> (\<exists>i. unlinks s i D) \<or> pk_thr s D = Park PushIdle"
    "unlinks s i D \<Longrightarrow> D \<notin> set (pk_stack s)" "unlinks s i D \<Longrightarrow> pk_thr s D \<noteq> Park PushIdle" "unlinks s i D \<Longrightarrow> unlinks s j D \<Longrightarrow> i = j"
    "D \<in> set (pk_stack s) \<Longrightarrow> pk_thr s D \<noteq> Park PushIdle" "pk_thr s D = Park MarkLinked \<Longrightarrow> \<not> pk_linked s D"
  using assms unfolding pk_links_def by blast+

fun linkless :: "thr \<Rightarrow> bool" where
  "linkless (Call h (Pop k (PClear q))) = False" | "linkless (Park PushIdle) = False" | "linkless (Park MarkLinked) = False" | "linkless _ = True"

lemma linklessD: "linkless p \<Longrightarrow> p \<noteq> Call h (Pop k (PClear q)) \<and> p \<noteq> Park PushIdle \<and> p \<noteq> Park MarkLinked"
  by auto

lemma pk_links_frame:
  assumes "pk_links s" "pk_stack t = pk_stack s" "pk_linked t = pk_linked s" "linkless (pk_thr s i)"
    "linkless (pk_thr t i) \<or> pk_thr t i = Park MarkLinked \<and> \<not> pk_linked s i"
    "\<And>j. j \<noteq> i \<Longrightarrow> pk_thr t j = pk_thr s j \<or> pk_thr s j = Park Blocked \<and> pk_thr t j = Park TestState"
  shows "pk_links t"
proof -
  have "unlinks t j D = unlinks s j D" for j D
  proof (cases "j = i")
    case True
    then show ?thesis using linklessD [OF assms(4)] assms(5) linklessD [of "pk_thr t i"] unfolding unlinks_def by (metis thr.distinct(5))
  next
    case False
    then show ?thesis using assms(6) [OF False] unfolding unlinks_def by (metis thr.distinct(5))
  qed
  moreover have "(pk_thr t D = Park PushIdle) = (pk_thr s D = Park PushIdle)" for D
    using linklessD [OF assms(4)] assms(5) linklessD [of "pk_thr t i"] assms(6) [of D] by (cases "D = i") auto
  moreover have "\<not> pk_linked s D" if "pk_thr t D = Park MarkLinked" for D
  proof (cases "D = i")
    case False
    then have "pk_thr s D = Park MarkLinked" using assms(6) [OF False] that by auto
    then show ?thesis using assms(1) unfolding pk_links_def by metis
  qed (use assms(5) that in auto)
  ultimately show ?thesis using assms(1-3) unfolding pk_links_def by simp
qed

lemma free_step_frame:
  assumes "pk_thr s i = Free h"
  shows "pk_stack (free_step n i h c s) = pk_stack s" "pk_linked (free_step n i h c s) = pk_linked s" "linkless (pk_thr (free_step n i h c s) i)"
  using assms by (cases c; simp add: free_step_def park_defs)+

lemma pk_links_pop:
  assumes "pk_links s" "pk_thr s i = Call h (Pop f p)" "p = PLoad \<and> pk_stack s \<noteq> [] \<or> p = PClear E"
  shows "pk_links (PopIdleWorker i h f q p s)"
proof (cases "p = PLoad")
  case True
  then obtain D rest where st: "pk_stack s = D # rest" using assms(3) by (cases "pk_stack s") auto
  let ?t = "PopIdleWorker i h f q p s"
  have "unlinks ?t j E \<longleftrightarrow> unlinks s j E \<or> j = i \<and> E = D" for j E
    using True assms(2) st by (auto simp: PopIdleWorker_def park_defs unlinks_def)
  moreover have "pk_stack ?t = rest" "pk_linked ?t = pk_linked s" "(pk_thr ?t E = Park r) = (pk_thr s E = Park r)" for E r
    using True assms(2) st by (auto simp: PopIdleWorker_def park_defs)
  moreover have "\<not> unlinks s j D" for j using assms(1) st unfolding pk_links_def by (metis list.set_intros(1))
  moreover have "\<not> unlinks s i E" for E using True assms(2) by (auto simp: unlinks_def)
  ultimately show ?thesis using assms(1) st unfolding pk_links_def by auto
next
  case False
  then have p: "p = PClear E" using assms(3) by simp
  let ?t = "PopIdleWorker i h f q p s"
  have u: "unlinks s i E" using assms(2) p by (auto simp: unlinks_def)
  have eq: "unlinks ?t j D \<longleftrightarrow> unlinks s j D \<and> j \<noteq> i" "pk_stack ?t = pk_stack s" "pk_linked ?t D \<longleftrightarrow> pk_linked s D \<and> D \<noteq> E"
    "(pk_thr ?t D = Park r) = (pk_thr s D = Park r)" for D r j
    using p assms(2) by (auto simp: PopIdleWorker_def park_defs unlinks_def)
  have only: "D = E" if "unlinks s i D" for D using that assms(2) p by (auto simp: unlinks_def)
  note L = assms(1) [unfolded pk_links_def]
  have e: "E \<notin> set (pk_stack s)" "pk_thr s E \<noteq> Park PushIdle" "\<And>j. unlinks s j E \<Longrightarrow> j = i" using L u by metis+
  have iff: "pk_linked s D \<and> D \<noteq> E \<longleftrightarrow> D \<in> set (pk_stack s) \<or> (\<exists>j. unlinks s j D \<and> j \<noteq> i) \<or> pk_thr s D = Park PushIdle" for D
  proof (cases "D = E")
    case True
    then show ?thesis using e by blast
  next
    case False
    then have "(\<exists>j. unlinks s j D \<and> j \<noteq> i) \<longleftrightarrow> (\<exists>j. unlinks s j D)" using only by metis
    then show ?thesis using L False by metis
  qed
  show ?thesis unfolding pk_links_def eq iff
  proof (intro conjI)
    show "\<forall>ia j D. unlinks s ia D \<and> ia \<noteq> i \<longrightarrow> unlinks s j D \<and> j \<noteq> i \<longrightarrow> ia = j" using L by metis
    show "\<forall>D. pk_thr s D = Park MarkLinked \<longrightarrow> \<not> (D \<in> set (pk_stack s) \<or> (\<exists>j. unlinks s j D \<and> j \<noteq> i) \<or> pk_thr s D = Park PushIdle)"
      using L by metis
  qed (use L in auto)
qed

lemma pk_links_mark:
  assumes "pk_links s" "pk_thr s i = Park p" "p = MarkLinked \<or> p = PushIdle"
  shows "pk_links (park_step i other p s)"
proof -
  let ?t = "park_step i other p s"
  show ?thesis
  proof (cases "p = MarkLinked")
    case True
    have u: "unlinks ?t j E = unlinks s j E" for j E using assms(2) unfolding True by (simp add: park_step_def park_defs unlinks_def)
    have eq: "pk_stack ?t = pk_stack s" "pk_linked ?t = (pk_linked s)(i := True)" "pk_thr ?t = (pk_thr s)(i := Park PushIdle)"
      using True by (auto simp: park_step_def park_defs)
    have nl: "\<not> pk_linked s i" using pk_linksD(7) [OF assms(1)] assms(2) True by simp
    then have n: "i \<notin> set (pk_stack s)" "\<not> unlinks s j i" for j using pk_linksD(2) [OF assms(1), of i] by blast+
    show ?thesis unfolding pk_links_def u eq
    proof (intro conjI allI impI ballI)
      fix D show "((pk_linked s)(i := True)) D \<longleftrightarrow> D \<in> set (pk_stack s) \<or> (\<exists>ia. unlinks s ia D) \<or> ((pk_thr s)(i := Park PushIdle)) D = Park PushIdle"
        using pk_linksD(2) [OF assms(1), of D] by (cases "D = i") simp_all
    next
      fix D assume "((pk_thr s)(i := Park PushIdle)) D = Park MarkLinked"
      then show "\<not> ((pk_linked s)(i := True)) D" using pk_linksD(7) [OF assms(1), of D] by (cases "D = i") simp_all
    next
      fix j D assume "unlinks s j D"
      then show "((pk_thr s)(i := Park PushIdle)) D \<noteq> Park PushIdle" using pk_linksD(4) [OF assms(1)] n(2) by (cases "D = i") auto
    next
      fix D assume "D \<in> set (pk_stack s)"
      then show "((pk_thr s)(i := Park PushIdle)) D \<noteq> Park PushIdle" using pk_linksD(6) [OF assms(1)] n(1) by (cases "D = i") auto
    qed (use pk_linksD(1,3,5) [OF assms(1)] in blast)+
  next
    case False
    then have p: "p = PushIdle" using assms(3) by simp
    have u: "unlinks ?t j E = unlinks s j E" for j E using assms(2) unfolding p by (simp add: park_step_def park_defs unlinks_def)
    have eq: "pk_stack ?t = i # pk_stack s" "pk_linked ?t = pk_linked s" "pk_thr ?t = (pk_thr s)(i := Park CheckFlag)"
      using p by (auto simp: park_step_def park_defs)
    have n: "i \<notin> set (pk_stack s)" "pk_linked s i" using pk_linksD(2,6) [OF assms(1), of i] assms(2) p by auto
    have n2: "\<not> unlinks s j i" for j using pk_linksD(4) [OF assms(1), of j i] assms(2) p by auto
    show ?thesis unfolding pk_links_def u eq
    proof (intro conjI allI impI ballI)
      fix D show "pk_linked s D \<longleftrightarrow> D \<in> set (i # pk_stack s) \<or> (\<exists>ia. unlinks s ia D) \<or> ((pk_thr s)(i := Park CheckFlag)) D = Park PushIdle"
        using pk_linksD(2) [OF assms(1), of D] n(2) by (cases "D = i") simp_all
    next
      fix D assume "((pk_thr s)(i := Park CheckFlag)) D = Park MarkLinked"
      then show "\<not> pk_linked s D" using pk_linksD(7) [OF assms(1), of D] by (cases "D = i") simp_all
    next
      fix j D assume "unlinks s j D"
      then show "D \<notin> set (i # pk_stack s)" "((pk_thr s)(i := Park CheckFlag)) D \<noteq> Park PushIdle"
        using pk_linksD(3,4) [OF assms(1)] n2 by (cases "D = i"; auto)+
    next
      fix D assume "D \<in> set (i # pk_stack s)"
      then show "((pk_thr s)(i := Park CheckFlag)) D \<noteq> Park PushIdle" using pk_linksD(6) [OF assms(1)] by (cases "D = i") auto
    next
      show "distinct (i # pk_stack s)" using pk_linksD(1) [OF assms(1)] n(1) by simp
    qed (use pk_linksD(5) [OF assms(1)] in blast)+
  qed
qed

lemma park_step_frame:
  assumes "p \<noteq> MarkLinked" "p \<noteq> PushIdle" "pk_thr s i = Park p"
  shows "pk_stack (park_step i other p s) = pk_stack s" "pk_linked (park_step i other p s) = pk_linked s"
    "linkless (pk_thr (park_step i other p s) i) \<or> pk_thr (park_step i other p s) i = Park MarkLinked \<and> \<not> pk_linked s i"
proof -
  show "pk_stack (park_step i other p s) = pk_stack s" "pk_linked (park_step i other p s) = pk_linked s"
    using assms by (cases p; simp add: park_step_def park_defs split: WorkerState.split)+
  show "linkless (pk_thr (park_step i other p s) i) \<or> pk_thr (park_step i other p s) i = Park MarkLinked \<and> \<not> pk_linked s i"
    using assms by (cases p) (simp_all add: park_step_def park_defs split: WorkerState.split)
qed

lemma pop_frame:
  assumes "\<And>D. p \<noteq> PClear D" "p = PLoad \<Longrightarrow> pk_stack s = []"
  shows "pk_stack (PopIdleWorker i h f q p s) = pk_stack s" "pk_linked (PopIdleWorker i h f q p s) = pk_linked s"
    "linkless (pk_thr (PopIdleWorker i h f q p s) i)"
proof -
  have "pk_stack (PopIdleWorker i h f q p s) = pk_stack s \<and> pk_linked (PopIdleWorker i h f q p s) = pk_linked s \<and>
    linkless (pk_thr (PopIdleWorker i h f q p s) i)"
  proof (cases p)
    case PLoad
    then show ?thesis using assms(2) by (cases f) (simp_all add: PopIdleWorker_def park_defs)
  next
    case (PClear D)
    then show ?thesis using assms(1) by simp
  next
    case (PArmed D)
    then show ?thesis by (simp add: PopIdleWorker_def park_defs)
  next
    case (PState D)
    then show ?thesis by (cases f) (simp_all add: PopIdleWorker_def park_defs)
  qed
  then show "pk_stack (PopIdleWorker i h f q p s) = pk_stack s" "pk_linked (PopIdleWorker i h f q p s) = pk_linked s"
    "linkless (pk_thr (PopIdleWorker i h f q p s) i)" by auto
qed

lemma call_step_frame:
  assumes "\<And>f D. k \<noteq> Pop f (PClear D)" "\<And>f. k = Pop f PLoad \<Longrightarrow> pk_stack s = []"
  shows "pk_stack (call_step i h q k s) = pk_stack s \<and> pk_linked (call_step i h q k s) = pk_linked s \<and> linkless (pk_thr (call_step i h q k s) i)"
proof (cases k)
  case (Pop f p)
  then have "p \<noteq> PClear D" "p = PLoad \<Longrightarrow> pk_stack s = []" for D using assms by auto
  then show ?thesis using pop_frame [of p s] Pop by (simp add: call_step_def)
qed (simp_all add: call_step_def park_defs)

lemma linkless_call: "(\<And>f D. k \<noteq> Pop f (PClear D)) \<Longrightarrow> linkless (Call h k)"
  by (cases "Call h k" rule: linkless.cases) auto

lemma pk_links_step:
  assumes "pk_links s"
  shows "pk_links (thr_step n i c q other s)"
proof -
  let ?t = "thr_step n i c q other s"
  note o = step_others [of _ i n c q other s]
  show ?thesis
  proof (cases "pk_thr s i")
    case (Free h)
    then have t: "?t = free_step n i h c s" by (simp add: thr_step_def)
    show ?thesis using free_step_frame [OF Free] Free o by - (rule pk_links_frame [OF assms, where i = i], auto simp: t)
  next
    case (Call h k)
    consider "\<not> q < n" | f p E where "q < n" "k = Pop f p" "p = PLoad \<and> pk_stack s \<noteq> [] \<or> p = PClear E"
      | "q < n" "\<And>f D. k \<noteq> Pop f (PClear D)" "\<And>f. k = Pop f PLoad \<Longrightarrow> pk_stack s = []"
      by blast
    then show ?thesis
    proof cases
      case 2
      then show ?thesis using pk_links_pop [OF assms, of i h f p E q] Call by (simp add: thr_step_def call_step_def)
    next
      case 3
      have t: "?t = call_step i h q k s" using 3(1) Call by (simp add: thr_step_def)
      have "linkless (Call h k)" by (rule linkless_call) (rule 3(2))
      then show ?thesis using call_step_frame [OF 3(2,3), where i = i and h = h and q = q] Call o by - (rule pk_links_frame [OF assms, where i = i], simp_all add: t)
    qed (use Call assms in \<open>simp add: thr_step_def\<close>)
  next
    case (Park p)
    then have t: "?t = park_step i other p s" by (simp add: thr_step_def)
    show ?thesis
    proof (cases "p = MarkLinked \<or> p = PushIdle")
      case True
      then show ?thesis unfolding t by (rule pk_links_mark [OF assms Park])
    next
      case False
      then have "linkless (Park p)" by (cases p) auto
      then show ?thesis using park_step_frame [OF _ _ Park, of other] False Park o by - (rule pk_links_frame [OF assms, where i = i], auto simp: t)
    qed
  qed
qed

section \<open>Every registered worker stays on offer\<close>

lemma state_parked_step:
  assumes "pk_state (thr_step n i c q other s) D = WS_PARKED"
  shows "pk_state s D = WS_PARKED \<or> i = D \<and> pk_thr (thr_step n i c q other s) D = Park Arm"
proof (cases "pk_thr s i")
  case (Free h)
  then show ?thesis using assms by (cases c) (auto simp: thr_step_def free_step_def park_defs split: if_splits)
next
  case (Call h k)
  then show ?thesis using assms
    by (cases k) (auto simp: thr_step_def call_step_def PopIdleWorker_def park_defs split: if_splits pop_pc.splits list.splits)
next
  case (Park p)
  then show ?thesis using assms by (cases p) (auto simp: thr_step_def park_step_def park_defs split: if_splits WorkerState.splits)
qed

lemma owes_step:
  assumes "calls s (owes D)" "pk_state s D = WS_PARKED" "pk_state (thr_step n i c q other s) D = WS_PARKED"
  shows "calls (thr_step n i c q other s) (owes D)"
proof (rule calls_step [OF assms(1)])
  fix h k assume k: "pk_thr s i = Call h k" "owes D k"
  show "\<exists>h'' c''. pk_thr (thr_step n i c q other s) i = Call h'' c'' \<and> owes D c''"
  proof (cases "q < n")
    case True
    show ?thesis
    proof (cases k)
      case (Pop f p)
      then have "p = PState D" using k(2) by (cases p) auto
      then show ?thesis using k(1) Pop True assms(2)
        by (cases f) (simp_all add: thr_step_def call_step_def PopIdleWorker_def park_defs)
    qed (use k True assms(3) in \<open>auto simp: thr_step_def call_step_def park_defs\<close>)
  qed (use k in \<open>simp add: thr_step_def\<close>)
qed

text \<open>A worker loses its arming to a pop, which then owes it a wake, or by its own call.\<close>

lemma armed_step:
  assumes "pk_armed s D"
  shows "pk_armed (thr_step n i c q other s) D \<or> calls (thr_step n i c q other s) (owes D) \<or>
    i = D \<and> \<not> registered (pk_thr (thr_step n i c q other s) D) \<and> \<not> arming (pk_thr (thr_step n i c q other s) D)"
proof (cases "pk_thr s i")
  case (Free h)
  then show ?thesis using assms by (cases c) (auto simp: thr_step_def free_step_def park_defs)
next
  case (Call h k)
  show ?thesis
  proof (cases "q < n \<and> (\<exists>f. k = Pop f (PArmed D))")
    case True
    then obtain f where "k = Pop f (PArmed D)" "q < n" by auto
    then have "pk_thr (thr_step n i c q other s) i = Call h (Pop f (PState D))"
      using Call assms by (simp add: thr_step_def call_step_def PopIdleWorker_def park_defs)
    then show ?thesis by (auto simp: calls_def intro!: exI [of _ i])
  next
    case False
    then show ?thesis using Call assms
      by (cases k) (auto simp: thr_step_def call_step_def PopIdleWorker_def park_defs split: pop_pc.splits list.splits)
  qed
next
  case (Park p)
  then show ?thesis using assms by (cases p) (auto simp: thr_step_def park_step_def park_defs split: WorkerState.splits)
qed

text \<open>It leaves the stack into the hands of a pop.\<close>

lemma stack_step:
  assumes "D \<in> set (pk_stack s)"
  shows "D \<in> set (pk_stack (thr_step n i c q other s)) \<or> calls (thr_step n i c q other s) (takes D)"
proof (cases "pk_thr s i")
  case (Free h)
  then show ?thesis using assms free_step_frame [OF Free] by (simp add: thr_step_def)
next
  case (Call h k)
  show ?thesis
  proof (cases "q < n \<and> (\<exists>f. k = Pop f PLoad)")
    case True
    then obtain f E rest where k: "k = Pop f PLoad" "q < n" "pk_stack s = E # rest" using assms by (cases "pk_stack s") auto
    then have t: "pk_stack (thr_step n i c q other s) = rest" "pk_thr (thr_step n i c q other s) i = Call h (Pop f (PClear E))"
      using Call by (auto simp: thr_step_def call_step_def PopIdleWorker_def park_defs)
    then have "calls (thr_step n i c q other s) (takes D)" if "D = E"
      unfolding calls_def using that by (intro exI [of _ i] exI [of _ h] exI [of _ "Pop f (PClear E)"]) simp
    then show ?thesis using t assms k by auto
  next
    case False
    then show ?thesis using Call assms
      by (cases k) (auto simp: thr_step_def call_step_def PopIdleWorker_def park_defs split: pop_pc.splits list.splits)
  qed
next
  case (Park p)
  then show ?thesis using assms by (cases p) (auto simp: thr_step_def park_step_def park_defs split: WorkerState.splits)
qed

lemma takes_step:
  assumes "calls s (takes D)" "pk_armed s D"
  shows "calls (thr_step n i c q other s) (takes D) \<or> calls (thr_step n i c q other s) (owes D)"
proof (cases "\<exists>h f. pk_thr s i = Call h (Pop f (PArmed D)) \<and> q < n")
  case True
  then obtain h f where "pk_thr s i = Call h (Pop f (PArmed D))" "q < n" by auto
  then have "pk_thr (thr_step n i c q other s) i = Call h (Pop f (PState D))"
    using assms(2) by (simp add: thr_step_def call_step_def PopIdleWorker_def park_defs)
  then show ?thesis by (auto simp: calls_def intro!: exI [of _ i])
next
  case False
  have "calls (thr_step n i c q other s) (takes D)"
  proof (rule calls_step [OF assms(1)])
    fix h k assume k: "pk_thr s i = Call h k" "takes D k"
    then show "\<exists>h'' c''. pk_thr (thr_step n i c q other s) i = Call h'' c'' \<and> takes D c''" using False
      by (cases "q < n"; cases "(D, k)" rule: takes.cases) (auto simp: thr_step_def call_step_def PopIdleWorker_def park_defs)
  qed
  then show ?thesis ..
qed

lemma on_offer_step:
  assumes "on_offer s D" "pk_state s D = WS_PARKED" "pk_state (thr_step n i c q other s) D = WS_PARKED"
    "registered (pk_thr (thr_step n i c q other s) D)"
  shows "on_offer (thr_step n i c q other s) D"
  using assms(1,4) owes_step [OF _ assms(2,3)] armed_step [of s D n i c q other] stack_step [of D s n i c q other] takes_step [of s D n i c q other]
  unfolding on_offer_def by blast

text \<open>How a worker gets to the points of the park path.\<close>

lemma own_step:
  assumes "pk_thr s i = Park p"
  shows "thr_step n i c q other s = park_step i other p s"
  using assms by (simp add: thr_step_def)

lemma parked_from:
  assumes "pk_thr (thr_step n i c q other s) D = Park r"
  obtains "pk_thr s D = Park r" | "pk_thr s D = Park Blocked" "r = TestState" | "r = Consume"
    | p where "i = D" "pk_thr s D = Park p" "thr_step n i c q other s = park_step D other p s"
proof (cases "D = i")
  case False
  then show ?thesis using step_others [OF False, of n c q other s] assms that by auto
next
  case True
  show ?thesis
  proof (cases "pk_thr s i")
    case (Free h)
    then have "r = Consume" using assms True by (cases c) (auto simp: thr_step_def free_step_def park_defs split: if_splits)
    then show ?thesis by (rule that(3))
  next
    case (Call h k)
    then show ?thesis using assms True
      by (cases k) (auto simp: thr_step_def call_step_def PopIdleWorker_def park_defs split: if_splits pop_pc.splits list.splits pop_for.splits)
  next
    case (Park p)
    then show ?thesis using that(4) True own_step by blast
  qed
qed

lemma arming_from:
  assumes "arming (pk_thr (thr_step n i c q other s) D)"
  shows "arming (pk_thr s D) \<or> pk_armed (thr_step n i c q other s) D"
proof -
  obtain r where r: "pk_thr (thr_step n i c q other s) D = Park r" using assms by (cases "pk_thr (thr_step n i c q other s) D") auto
  show ?thesis
  proof (cases rule: parked_from [OF r])
    case (4 p)
    then show ?thesis using assms by (cases p) (auto simp: park_step_def park_defs split: if_splits WorkerState.splits)
  qed (use assms r in auto)
qed

lemma registered_from:
  assumes "registered (pk_thr (thr_step n i c q other s) D)"
  shows "registered (pk_thr s D) \<or> pk_thr s D = Park TestLinked \<and> pk_linked s D \<or>
    pk_thr s D = Park PushIdle \<and> D \<in> set (pk_stack (thr_step n i c q other s))"
proof -
  obtain r where r: "pk_thr (thr_step n i c q other s) D = Park r" using assms by (cases "pk_thr (thr_step n i c q other s) D") auto
  show ?thesis
  proof (cases rule: parked_from [OF r])
    case (4 p)
    then show ?thesis using assms by (cases p) (auto simp: park_step_def park_defs split: if_splits WorkerState.splits)
  qed (use assms r in auto)
qed

lemma registered_arming: "registered p \<Longrightarrow> \<not> arming p"
  by (cases p) auto

lemma pk_offers_step:
  assumes "pk_links s" "pk_offers s"
  shows "pk_offers (thr_step n i c q other s)"
  unfolding pk_offers_def
proof (intro allI impI)
  let ?t = "thr_step n i c q other s"
  fix D assume D: "pk_state ?t D = WS_PARKED"
  show "(arming (pk_thr ?t D) \<longrightarrow> pk_armed ?t D \<or> calls ?t (owes D)) \<and> (registered (pk_thr ?t D) \<longrightarrow> on_offer ?t D)"
  proof (cases "pk_state s D = WS_PARKED")
    case True
    have a: "pk_armed ?t D \<or> calls ?t (owes D)" if "arming (pk_thr s D)" "arming (pk_thr ?t D) \<or> registered (pk_thr ?t D)"
      using that assms(2) True armed_step [of s D n i c q other] owes_step [OF _ True D] unfolding pk_offers_def by blast
    have "on_offer ?t D" if r: "registered (pk_thr ?t D)"
    proof -
      consider "registered (pk_thr s D)" | "pk_thr s D = Park TestLinked" "pk_linked s D" | "pk_thr s D = Park PushIdle" "D \<in> set (pk_stack ?t)"
        using registered_from [OF r] by blast
      then show ?thesis
      proof cases
        case 1
        then show ?thesis using assms(2) True on_offer_step [OF _ True D r] by (simp add: pk_offers_def)
      next
        case 2
        then have "D \<in> set (pk_stack s) \<or> calls s (takes D)"
          using pk_linksD(2) [OF assms(1), of D] by (auto simp: unlinks_def calls_def) (metis takes.simps(1))
        moreover have "pk_armed s D \<or> calls s (owes D)" using 2 assms(2) True by (simp add: pk_offers_def)
        ultimately have "on_offer s D" by (auto simp: on_offer_def)
        then show ?thesis by (rule on_offer_step [OF _ True D r])
      next
        case 3
        then show ?thesis using a r by (auto simp: on_offer_def)
      qed
    qed
    then show ?thesis using a arming_from [of n i c q other s D] by blast
  next
    case False
    then have "pk_thr ?t D = Park Arm" using state_parked_step [OF D] by blast
    then show ?thesis by simp
  qed
qed

section \<open>Queued work\<close>

fun past_flag :: "thr \<Rightarrow> bool" where
  "past_flag (Park p) = (p \<in> {CheckInbox, CheckHunt} \<or> asleep (Park p))" | "past_flag _ = False"

fun past_inbox :: "thr \<Rightarrow> bool" where
  "past_inbox (Park p) = (p = CheckHunt \<or> asleep (Park p))" | "past_inbox _ = False"

lemma past_inbox_flag: "past_inbox p \<Longrightarrow> past_flag p"
  by (cases p) auto

lemma past_parks: "past_flag p \<Longrightarrow> \<exists>r. p = Park r"
  by (cases p) auto

definition pk_fed :: "park_pool \<Rightarrow> bool" where
  [inv_defs]: "pk_fed s \<longleftrightarrow> (\<forall>D. pk_state s D = WS_PARKED \<longrightarrow>
    (past_flag (pk_thr s D) \<longrightarrow> pk_flag s D \<longrightarrow> calls s (wakes D)) \<and> (past_inbox (pk_thr s D) \<longrightarrow> 0 < pk_work s D \<longrightarrow> calls s (wakes D)))"

definition pk_blocks :: "park_pool \<Rightarrow> bool" where
  [inv_defs]: "pk_blocks s \<longleftrightarrow> (\<forall>D. pk_thr s D = Park Blocked \<longrightarrow> pk_state s D = WS_PARKED \<or> calls s (\<lambda>k. k = FutexWake D))"

lemma wakes_step:
  assumes "calls s (wakes D)" "pk_state (thr_step n i c q other s) D = WS_PARKED"
  shows "calls (thr_step n i c q other s) (wakes D)"
proof (rule calls_step [OF assms(1)])
  fix h k assume k: "pk_thr s i = Call h k" "wakes D k"
  then show "\<exists>h'' c''. pk_thr (thr_step n i c q other s) i = Call h'' c'' \<and> wakes D c''" using assms(2)
    by (cases "q < n"; cases "(D, k)" rule: wakes.cases) (auto simp: thr_step_def call_step_def park_defs)
qed

text \<open>Work and flag of a parked worker appear by a placement, which then owes the wake.\<close>

lemma fed_step:
  assumes "pk_thr s D = Park p" "pk_work (thr_step n i c q other s) D \<noteq> pk_work s D \<or> pk_flag (thr_step n i c q other s) D \<noteq> pk_flag s D"
  shows "calls (thr_step n i c q other s) (wakes D)"
proof -
  obtain h k where k: "pk_thr s i = Call h k" "q < n" "k = PushTask D \<or> k = MarkQueuedWork D"
  proof (cases "pk_thr s i")
    case (Free h)
    then show ?thesis using assms by (cases c) (auto simp: thr_step_def free_step_def park_defs split: if_splits)
  next
    case (Call h k)
    then show ?thesis using assms that
      by (cases k) (auto simp: thr_step_def call_step_def PopIdleWorker_def park_defs split: if_splits pop_pc.splits list.splits)
  next
    case (Park p)
    then show ?thesis using assms(2) by (cases p) (auto simp: own_step park_step_def park_defs split: if_splits WorkerState.splits)
  qed
  then show ?thesis unfolding calls_def
    by (intro exI [of _ i] exI [of _ h]) (auto simp: thr_step_def call_step_def park_defs)
qed

lemma past_from:
  assumes "past_flag (pk_thr (thr_step n i c q other s) D)"
  shows "past_flag (pk_thr s D) \<or> pk_thr s D = Park CheckFlag \<and> \<not> pk_flag s D"
    "past_inbox (pk_thr (thr_step n i c q other s) D) \<Longrightarrow> past_inbox (pk_thr s D) \<or> pk_thr s D = Park CheckInbox \<and> pk_work s D = 0"
proof -
  obtain r where r: "pk_thr (thr_step n i c q other s) D = Park r" using assms past_parks by blast
  have "(past_flag (pk_thr s D) \<or> pk_thr s D = Park CheckFlag \<and> \<not> pk_flag s D) \<and>
    (past_inbox (pk_thr (thr_step n i c q other s) D) \<longrightarrow> past_inbox (pk_thr s D) \<or> pk_thr s D = Park CheckInbox \<and> pk_work s D = 0)"
  proof (cases rule: parked_from [OF r])
    case (4 p)
    then show ?thesis using assms by (cases p) (auto simp: park_step_def park_defs split: if_splits WorkerState.splits)
  qed (use assms r in auto)
  then show "past_flag (pk_thr s D) \<or> pk_thr s D = Park CheckFlag \<and> \<not> pk_flag s D"
    "past_inbox (pk_thr (thr_step n i c q other s) D) \<Longrightarrow> past_inbox (pk_thr s D) \<or> pk_thr s D = Park CheckInbox \<and> pk_work s D = 0" by auto
qed

lemma pk_fed_step:
  assumes "pk_fed s"
  shows "pk_fed (thr_step n i c q other s)"
  unfolding pk_fed_def
proof (intro allI impI)
  let ?t = "thr_step n i c q other s"
  fix D assume D: "pk_state ?t D = WS_PARKED"
  show "(past_flag (pk_thr ?t D) \<longrightarrow> pk_flag ?t D \<longrightarrow> calls ?t (wakes D)) \<and> (past_inbox (pk_thr ?t D) \<longrightarrow> 0 < pk_work ?t D \<longrightarrow> calls ?t (wakes D))"
  proof (cases "past_flag (pk_thr ?t D)")
    case True
    then have st: "pk_state s D = WS_PARKED" using state_parked_step [OF D] by auto
    obtain r where r: "pk_thr s D = Park r" using past_from(1) [OF True] past_parks by blast
    note keep = wakes_step [OF _ D]
    show ?thesis
    proof (cases "pk_work ?t D \<noteq> pk_work s D \<or> pk_flag ?t D \<noteq> pk_flag s D")
      case True
      then show ?thesis using fed_step [OF r] by blast
    next
      case False
      then have eq: "pk_work ?t D = pk_work s D" "pk_flag ?t D = pk_flag s D" by auto
      have a: "calls s (wakes D)" if "past_flag (pk_thr s D)" "pk_flag s D" using that assms st unfolding pk_fed_def by blast
      have b: "calls s (wakes D)" if "past_inbox (pk_thr s D)" "0 < pk_work s D" using that assms st unfolding pk_fed_def by blast
      show ?thesis unfolding eq using a b keep past_from [OF True] by (metis less_irrefl)
    qed
  next
    case False
    then show ?thesis using past_inbox_flag by blast
  qed
qed

lemma blocked_from:
  assumes "pk_thr (thr_step n i c q other s) D = Park Blocked"
  shows "pk_thr s D = Park Blocked \<or> pk_state (thr_step n i c q other s) D = WS_PARKED"
proof (cases rule: parked_from [OF assms])
  case (4 p)
  then show ?thesis using assms by (cases p) (auto simp: park_step_def park_defs split: if_splits WorkerState.splits)
qed auto

text \<open>Only a wake ends the published state of a sleeping worker.\<close>

lemma parked_kept:
  assumes "pk_state s D = WS_PARKED" "asleep (pk_thr s D)" "pk_state (thr_step n i c q other s) D \<noteq> WS_PARKED"
  shows "\<exists>h. pk_thr (thr_step n i c q other s) i = Call h (FutexWake D)"
proof (cases "pk_thr s i")
  case (Free h)
  then show ?thesis using assms by (cases c) (auto simp: thr_step_def free_step_def park_defs split: if_splits)
next
  case (Call h k)
  then show ?thesis using assms
    by (cases k) (auto simp: thr_step_def call_step_def PopIdleWorker_def park_defs split: if_splits pop_pc.splits list.splits pop_for.splits)
next
  case (Park p)
  then show ?thesis using assms by (cases "D = i"; cases p) (auto simp: own_step park_step_def park_defs split: if_splits WorkerState.splits)
qed

lemma pk_blocks_step:
  assumes "pk_blocks s"
  shows "pk_blocks (thr_step n i c q other s)"
  unfolding pk_blocks_def
proof (intro allI impI)
  let ?t = "thr_step n i c q other s"
  fix D assume D: "pk_thr ?t D = Park Blocked"
  show "pk_state ?t D = WS_PARKED \<or> calls ?t (\<lambda>k. k = FutexWake D)"
  proof (cases "pk_thr s D = Park Blocked \<and> pk_state ?t D \<noteq> WS_PARKED")
    case True
    show ?thesis
    proof (cases "pk_state s D = WS_PARKED")
      case True
      then show ?thesis using parked_kept [of s D n i c q other] \<open>pk_thr s D = Park Blocked \<and> pk_state ?t D \<noteq> WS_PARKED\<close>
        by (auto simp: calls_def)
    next
      case False
      then have "calls s (\<lambda>k. k = FutexWake D)" using assms True by (auto simp: pk_blocks_def)
      then have "calls ?t (\<lambda>k. k = FutexWake D)"
      proof (rule calls_step)
        fix h k assume k: "pk_thr s i = Call h k" "k = FutexWake D"
        show "\<exists>h'' c''. pk_thr ?t i = Call h'' c'' \<and> c'' = FutexWake D"
        proof (cases "q < n")
          case True
          then have "pk_thr ?t D = Park TestState" using k \<open>pk_thr s D = Park Blocked \<and> pk_state ?t D \<noteq> WS_PARKED\<close>
            by (auto simp: thr_step_def call_step_def park_defs)
          then show ?thesis using D by simp
        qed (use k in \<open>simp add: thr_step_def\<close>)
      qed
      then show ?thesis ..
    qed
  qed (use blocked_from [OF D] in blast)
qed

section \<open>While a worker sleeps somebody hunts, or is about to\<close>

fun handing :: "call_pc \<Rightarrow> bool" where
  "handing (Pop Handoff p) = True" | "handing _ = False"

fun on_the_way :: "thr \<Rightarrow> bool" where
  "on_the_way (Park p) = (\<not> asleep (Park p))" | "on_the_way _ = False"

definition waking :: "park_pool \<Rightarrow> nat \<Rightarrow> bool" where
  "waking s D \<longleftrightarrow> asleep (pk_thr s D) \<and> (pk_state s D \<noteq> WS_PARKED \<or> calls s (owes D) \<or> pk_armed s D \<and> calls s (takes D))"

definition pk_cover :: "park_pool \<Rightarrow> bool" where
  [inv_defs]: "pk_cover s \<longleftrightarrow> (pk_searching s = 0 \<longrightarrow> (\<exists>B. asleep (pk_thr s B) \<and> pk_state s B = WS_PARKED) \<longrightarrow>
    calls s handing \<or> (\<exists>i. on_the_way (pk_thr s i)) \<or> (\<exists>D. waking s D))"

lemma last_hunter_hands_off:
  assumes "0 < pk_searching s" "pk_searching (thr_step n i c q other s) = 0"
  shows "calls (thr_step n i c q other s) handing"
proof -
  have "pk_thr (thr_step n i c q other s) i = Call False (Pop Handoff PLoad)"
  proof (cases "pk_thr s i")
    case (Free h)
    then show ?thesis using assms by (cases c) (auto simp: thr_step_def free_step_def park_defs split: if_splits)
  next
    case (Call h k)
    then show ?thesis using assms
      by (cases k) (auto simp: thr_step_def call_step_def PopIdleWorker_def park_defs split: if_splits pop_pc.splits list.splits)
  next
    case (Park p)
    then show ?thesis using assms by (cases p) (auto simp: own_step park_step_def park_defs split: if_splits WorkerState.splits)
  qed
  then show ?thesis by (auto simp: calls_def intro!: exI [of _ i])
qed

lemma asleep_step:
  assumes "asleep (pk_thr s D)"
  shows "asleep (pk_thr (thr_step n i c q other s) D) \<or> on_the_way (pk_thr (thr_step n i c q other s) D) \<and> pk_state s D \<noteq> WS_PARKED"
proof (cases "D = i")
  case False
  then show ?thesis using step_others [OF False, of n c q other s] assms by auto
next
  case True
  obtain p where p: "pk_thr s D = Park p" using assms by (cases "pk_thr s D") auto
  then show ?thesis using assms unfolding True by (cases p) (auto simp: own_step park_step_def park_defs)
qed

lemma asleep_from:
  assumes "asleep (pk_thr (thr_step n i c q other s) D)" "pk_searching s = 0"
  shows "asleep (pk_thr s D)"
proof -
  obtain r where r: "pk_thr (thr_step n i c q other s) D = Park r" using assms(1) by (cases "pk_thr (thr_step n i c q other s) D") auto
  show ?thesis
  proof (cases rule: parked_from [OF r])
    case (4 p)
    then show ?thesis using assms by (cases p) (auto simp: park_step_def park_defs split: if_splits WorkerState.splits)
  qed (use assms r in auto)
qed

lemma on_the_way_step:
  assumes "on_the_way (pk_thr s j)" "pk_searching s = 0" "pk_searching (thr_step n i c q other s) = 0"
  shows "on_the_way (pk_thr (thr_step n i c q other s) j)"
proof (cases "j = i")
  case False
  then show ?thesis using step_others [OF False, of n c q other s] assms by auto
next
  case True
  obtain p where p: "pk_thr s j = Park p" using assms by (cases "pk_thr s j") auto
  then show ?thesis using assms unfolding True by (cases p) (auto simp: own_step park_step_def park_defs split: WorkerState.splits)
qed

lemma asleep_registered: "asleep p \<Longrightarrow> registered p \<and> \<not> on_the_way p"
  by (cases p) auto

lemma waking_step:
  assumes "waking s D"
  shows "waking (thr_step n i c q other s) D \<or> on_the_way (pk_thr (thr_step n i c q other s) D)"
proof (cases "asleep (pk_thr (thr_step n i c q other s) D) \<and> pk_state (thr_step n i c q other s) D = WS_PARKED")
  case True
  let ?t = "thr_step n i c q other s"
  have st: "pk_state s D = WS_PARKED" using state_parked_step [of n i c q other s D] True by auto
  have "\<not> (i = D \<and> \<not> registered (pk_thr ?t D) \<and> \<not> arming (pk_thr ?t D))" using True asleep_registered by blast
  then have "calls ?t (owes D) \<or> pk_armed ?t D \<and> calls ?t (takes D)"
    using assms st True owes_step [OF _ st, of n i c q other] armed_step [of s D n i c q other] takes_step [of s D n i c q other]
    unfolding waking_def by blast
  then show ?thesis using True by (simp add: waking_def)
next
  case False
  then show ?thesis using assms asleep_step [of s D n i c q other] unfolding waking_def by blast
qed

text \<open>A hand-off ends with a wake on its way, or with an empty stack: then every sleeping worker is in the hands of another pop.\<close>

lemma handing_step:
  assumes "pk_wf n s" "pk_offers s" "calls s handing" "asleep (pk_thr s B)" "pk_state s B = WS_PARKED"
    "asleep (pk_thr (thr_step n i c q other s) B)" "pk_state (thr_step n i c q other s) B = WS_PARKED"
  shows "calls (thr_step n i c q other s) handing \<or> (\<exists>j. on_the_way (pk_thr (thr_step n i c q other s) j)) \<or> (\<exists>D. waking (thr_step n i c q other s) D)"
proof (cases "\<exists>h p. pk_thr s i = Call h (Pop Handoff p) \<and> q < n \<and> (p = PLoad \<and> pk_stack s = [] \<or> (\<exists>E. p = PState E \<and> pk_state s E = WS_PARKED))")
  case True
  let ?t = "thr_step n i c q other s"
  obtain h p where p: "pk_thr s i = Call h (Pop Handoff p)" "q < n" "p = PLoad \<and> pk_stack s = [] \<or> (\<exists>E. p = PState E \<and> pk_state s E = WS_PARKED)"
    using True by blast
  show ?thesis
  proof (cases "p = PLoad")
    case True
    then have "on_offer s B" "B \<notin> set (pk_stack s)" using assms(2,4,5) p asleep_registered by (auto simp: pk_offers_def)
    then have "waking s B" using assms(4,5) by (auto simp: on_offer_def waking_def)
    then show ?thesis using waking_step by blast
  next
    case False
    then obtain E where E: "p = PState E" "pk_state s E = WS_PARKED" using p(3) by blast
    have t: "pk_thr ?t = (pk_thr s)(i := Call h (Wake E))" "pk_state ?t = pk_state s" using p E
      by (simp_all add: thr_step_def call_step_def PopIdleWorker_def park_defs)
    have w: "window (pk_thr s E)" using assms(1) E(2) by (simp add: pk_wf_def)
    then have "E \<noteq> i" using p(1) by auto
    show ?thesis
    proof (cases "asleep (pk_thr s E)")
      case True
      have "calls ?t (owes E)" unfolding calls_def t by (intro exI [of _ i] exI [of _ h] exI [of _ "Wake E"]) simp
      then have "waking ?t E" using True t \<open>E \<noteq> i\<close> by (simp add: waking_def)
      then show ?thesis by blast
    next
      case False
      then have "on_the_way (pk_thr ?t E)" using w t \<open>E \<noteq> i\<close> by (cases "pk_thr s E") auto
      then show ?thesis by blast
    qed
  qed
next
  case False
  have "calls (thr_step n i c q other s) handing"
  proof (rule calls_step [OF assms(3)])
    fix h k assume k: "pk_thr s i = Call h k" "handing k"
    then obtain p where p: "k = Pop Handoff p" by (cases k rule: handing.cases) auto
    show "\<exists>h'' c''. pk_thr (thr_step n i c q other s) i = Call h'' c'' \<and> handing c''"
    proof (cases "q < n")
      case True
      then show ?thesis using False k p
        by (cases p) (auto simp: thr_step_def call_step_def PopIdleWorker_def park_defs split: list.splits)
    qed (use k in \<open>simp add: thr_step_def\<close>)
  qed
  then show ?thesis ..
qed

lemma pk_cover_step:
  assumes "pk_wf n s" "pk_offers s" "pk_cover s"
  shows "pk_cover (thr_step n i c q other s)"
  unfolding pk_cover_def
proof (intro impI)
  let ?t = "thr_step n i c q other s"
  assume z: "pk_searching ?t = 0" and ex: "\<exists>B. asleep (pk_thr ?t B) \<and> pk_state ?t B = WS_PARKED"
  show "calls ?t handing \<or> (\<exists>i. on_the_way (pk_thr ?t i)) \<or> (\<exists>D. waking ?t D)"
  proof (cases "pk_searching s = 0")
    case True
    obtain B where B: "asleep (pk_thr ?t B)" "pk_state ?t B = WS_PARKED" using ex by blast
    have b: "asleep (pk_thr s B)" by (rule asleep_from [OF B(1) True])
    have bs: "pk_state s B = WS_PARKED" using state_parked_step [OF B(2)] B(1) by auto
    consider "calls s handing" | j where "on_the_way (pk_thr s j)" | D where "waking s D" using assms(3) True b bs unfolding pk_cover_def by blast
    then show ?thesis
    proof cases
      case 1
      then show ?thesis by (rule handing_step [OF assms(1,2) _ b bs B])
    next
      case 2
      then show ?thesis using on_the_way_step [OF _ True z] by blast
    next
      case 3
      then show ?thesis using waking_step by blast
    qed
  next
    case False
    then show ?thesis using last_hunter_hands_off [OF _ z] by blast
  qed
qed

section \<open>Properties\<close>

definition pk_inv :: "nat \<Rightarrow> park_pool \<Rightarrow> bool" where
  [inv_defs]: "pk_inv n s \<longleftrightarrow> pk_wf n s \<and> pk_hunts n s \<and> pk_links s \<and> pk_offers s \<and> pk_fed s \<and> pk_blocks s \<and> pk_cover s"

interpretation parking: transition_system "pk_step n" "pk_inv n"
  by unfold_locales
    (auto simp: pk_inv_def pk_step_def intro: pk_wf_step pk_hunts_step pk_links_step pk_offers_step pk_fed_step pk_blocks_step pk_cover_step)

lemma pk_inv_init: "pk_inv n park_init"
  by (auto simp: pk_inv_def park_init_def pk_wf_def pk_hunts_def pk_links_def pk_offers_def pk_fed_def pk_blocks_def pk_cover_def unlinks_def)

lemmas reach_park = parking.reach_inv [OF _ pk_inv_init]

text \<open>No thread is inside a call or on its way into or out of the park: every thread runs a task or other code, hunts, or sleeps in the kernel.\<close>

definition settled :: "park_pool \<Rightarrow> bool" where
  "settled s \<longleftrightarrow> (\<forall>i. (\<exists>h. pk_thr s i = Free h) \<or> pk_thr s i = Park Blocked)"

lemma settled_calls: "settled s \<Longrightarrow> \<not> calls s P"
  unfolding settled_def calls_def by (metis thr.distinct(1,5))

lemma settled_parked:
  assumes "pk_inv n s" "settled s" "pk_thr s D = Park Blocked"
  shows "pk_state s D = WS_PARKED" "on_offer s D" "pk_work s D = 0" "\<not> pk_flag s D"
proof -
  show p: "pk_state s D = WS_PARKED" using assms settled_calls [OF assms(2)] by (auto simp: pk_inv_def pk_blocks_def)
  show "on_offer s D" using assms p by (simp add: pk_inv_def pk_offers_def)
  show "pk_work s D = 0" "\<not> pk_flag s D" using assms p settled_calls [OF assms(2)] by (auto simp: pk_inv_def pk_fed_def)
qed

text \<open>(C6) A sleeping pool always has a hunter. Whenever all calls have ended and some worker sleeps, at least one worker is counted as a
  hunter, and that worker really is in its find loop: work on any deque is going to be looked at without a wake.\<close>

theorem sleeping_pool_has_a_hunter:
  assumes "reach (pk_step n) park_init s" "settled s" "pk_thr s B = Park Blocked"
  shows "0 < pk_searching s \<and> (\<exists>i < n. pk_thr s i = Free True)"
proof -
  note inv = reach_park [OF assms(1)]
  have "\<not> on_the_way (pk_thr s i)" for i using assms(2) unfolding settled_def by (metis asleep.simps(1) insertCI on_the_way.simps)
  moreover have "\<not> waking s D" for D
  proof
    assume "waking s D"
    then have "pk_state s D \<noteq> WS_PARKED" "asleep (pk_thr s D)" using settled_calls [OF assms(2)] by (auto simp: waking_def)
    moreover from this have "pk_thr s D = Park Blocked" using assms(2) unfolding settled_def by (metis asleep.simps(2))
    ultimately show False using settled_parked(1) [OF inv assms(2)] by blast
  qed
  moreover have "asleep (pk_thr s B) \<and> pk_state s B = WS_PARKED" using settled_parked(1) [OF inv assms(2,3)] assms(3) by simp
  ultimately have "pk_searching s \<noteq> 0" using inv settled_calls [OF assms(2)] unfolding pk_inv_def pk_cover_def by blast
  then have "{i. i < n \<and> hunting (pk_thr s i)} \<noteq> {}" using inv by (metis card.empty pk_hunts_def pk_inv_def)
  then obtain i where "i < n" "hunting (pk_thr s i)" by blast
  then have "pk_thr s i = Free True" using assms(2) unfolding settled_def by (metis hunting.simps(1,3))
  then show ?thesis using \<open>pk_searching s \<noteq> 0\<close> \<open>i < n\<close> by auto
qed

text \<open>(C12) No worker sleeps on its own work: once all calls have ended, a worker that sleeps has nothing in its inboxes, no work flag, and is
  on the idle stack and armed, so that the next hand-off or placement can find it.\<close>

theorem sleeping_worker_has_no_work:
  assumes "reach (pk_step n) park_init s" "settled s" "pk_thr s D = Park Blocked"
  shows "pk_work s D = 0 \<and> \<not> pk_flag s D \<and> pk_armed s D \<and> D \<in> set (pk_stack s)"
proof -
  note inv = reach_park [OF assms(1)]
  show ?thesis using settled_parked [OF inv assms(2,3)] settled_calls [OF assms(2)] by (auto simp: on_offer_def)
qed

text \<open>The idle stack never holds a worker twice, whatever pushes and pops overlap, and holds workers of the pool only: pushing a node
  that is already linked would make the intrusive list a cycle.\<close>

theorem idle_stack_is_distinct:
  assumes "reach (pk_step n) park_init s"
  shows "distinct (pk_stack s) \<and> set (pk_stack s) \<subseteq> {..<n}"
  using reach_park [OF assms] pk_linksD(1) by (simp add: pk_inv_def pk_wf_def)

section \<open>A run\<close>

fun pk_run :: "nat \<Rightarrow> (nat \<times> choice) list \<Rightarrow> park_pool \<Rightarrow> park_pool" where
  "pk_run n [] s = s"
| "pk_run n ((i, c) # rest) s = pk_run n rest (thr_step n i c 0 False s)"

lemma reach_run: "reach (pk_step n) s0 s \<Longrightarrow> reach (pk_step n) s0 (pk_run n acts s)"
proof (induction n acts s rule: pk_run.induct)
  case (2 n i c rest s)
  have "pk_step n s (thr_step n i c 0 False s)" by (auto simp: pk_step_def)
  then show ?case using 2 by (auto intro: reach.reach_step)
qed simp

text \<open>Two workers hunt, and the first one goes to sleep; then it is woken without a push, and parks again while still linked.\<close>

definition park_one :: "(nat \<times> choice) list" where
  "park_one = (0, BodyDone) # (1, BodyDone) # (0, ToPark) # replicate 11 (0, Found)"

definition park_again :: "(nat \<times> choice) list" where
  "park_again = park_one @ [(2, JustWake 0), (2, Found), (2, Found)] @ replicate 4 (0, Found) @ (0, ToPark) # replicate 9 (0, Found) @
     [(2, JustWake 0), (2, Found), (2, Found)] @ replicate 3 (0, Found)"

lemma park_one_state:
  "pk_run 2 park_one park_init = park_init\<lparr>pk_searching := 1, pk_stack := [0], pk_count := 1,
     pk_thr := (\<lambda>_. Free False)(0 := Park Blocked, 1 := Free True), pk_state := (\<lambda>_. WS_EMPTY)(0 := WS_PARKED),
     pk_armed := (\<lambda>_. False)(0 := True), pk_linked := (\<lambda>_. False)(0 := True)\<rparr>"
  by (simp add: park_one_def park_init_def step_defs numeral_eq_Suc fun_eq_iff)

lemma park_one_settled: "settled (pk_run 2 park_one park_init)"
  by (auto simp: park_one_state settled_def)

lemmas park_one_reach = reach_run [OF reach.reach_init [of "pk_step 2" park_init], of park_one]

theorem sleeping_pool_has_a_hunter_witness:
  "0 < pk_searching (pk_run 2 park_one park_init) \<and> (\<exists>i < 2. pk_thr (pk_run 2 park_one park_init) i = Free True)"
  by (rule sleeping_pool_has_a_hunter [OF park_one_reach park_one_settled, of 0]) (simp add: park_one_state)

theorem sleeping_worker_has_no_work_witness:
  "pk_work (pk_run 2 park_one park_init) 0 = 0 \<and> \<not> pk_flag (pk_run 2 park_one park_init) 0 \<and>
   pk_armed (pk_run 2 park_one park_init) 0 \<and> 0 \<in> set (pk_stack (pk_run 2 park_one park_init))"
  by (rule sleeping_worker_has_no_work [OF park_one_reach park_one_settled]) (simp add: park_one_state)

theorem idle_stack_is_distinct_witness: "distinct (pk_stack (pk_run 2 park_again park_init)) \<and> set (pk_stack (pk_run 2 park_again park_init)) \<subseteq> {..<2}"
  by (rule idle_stack_is_distinct [OF reach_run [OF reach.reach_init]])

text \<open>
  The count of idle workers is only a statistic, and it goes wrong on this run: a worker that parks while it is still linked is not counted
  in, but it is counted out when it wakes, so the count wraps below zero.
\<close>

lemma idle_count_wraps: "pk_count (pk_run 2 park_again park_init) = - 1"
  by (simp add: park_again_def park_one_def park_init_def step_defs numeral_eq_Suc)

end
