(* ===== verification/ParallelRanges.thy ===== *)
theory ParallelRanges
  imports JPrelude
begin

text \<open>
  The parallel loops of \<^verbatim>\<open>src/TaskScheduler.cpp\<close>: \<open>ParallelFor\<close> with its cost probe, the shared-cursor and the lazily split form, and
  the chunks of \<open>PushArray\<close>. A call of the loop body is the range of indices it got; what matters is that the
  ranges of all calls, on whatever threads, hold every index exactly once. The C++ \<open>int\<close>s are integers, wrapped
  by \<open>i32\<close> where the source can overflow; the clock, the floating-point square root and the choices of the pool are
  arguments.
\<close>

section \<open>Ranges\<close>

type_synonym range = "int \<times> int"

definition i32 :: "int \<Rightarrow> int" where
  "i32 x = (x + 2 ^ 31) mod 2 ^ 32 - 2 ^ 31"

abbreviation INT_MAX :: int where "INT_MAX \<equiv> 2 ^ 31 - 1"

text \<open>The indices of one call of the body, and of several.\<close>

definition cells :: "range \<Rightarrow> int multiset" where
  "cells r = mset [fst r .. snd r - 1]"

definition covered :: "range list \<Rightarrow> int multiset" where
  "covered rs = sum_list (map cells rs)"

section \<open>The plan of ParallelFor\<close>

datatype PforMode = Cursor | LazyPCore | Auto

record pfor_config =
  pf_serial :: bool
  pf_active :: bool
  pf_workers :: nat
  pf_measured :: bool
  pf_minIters :: nat
  pf_leaves :: nat
  pf_wakeCost :: nat

text \<open>A remembered cost of a body, if the call has a slot for it.\<close>

record body_cost =
  bc_nsPerMega :: int
  bc_uses :: nat

datatype rest = Nothing | Inline int int | Fan PforMode int int int nat

definition kProbeFloorNs :: int where "kProbeFloorNs = 500"
definition kReprobeInterval :: nat where "kReprobeInterval = 64"
definition kMinGrain :: int where "kMinGrain = 16"
definition kLazyPieceNs :: int where "kLazyPieceNs = 500"

text \<open>
  The probe: ranges of growing size run on the caller, timed by the clock readings \<open>clk j\<close>. The result is the ranges run, the
  length probed, and the best measurement. (The loop never has an empty chunk; the test keeps the recursion well-founded.)
\<close>

function probe_loop :: "(nat \<Rightarrow> int) \<Rightarrow> int \<Rightarrow> int \<Rightarrow> nat \<Rightarrow> int \<Rightarrow> int \<Rightarrow> int \<Rightarrow> int \<Rightarrow> range list \<times> int \<times> int \<times> int" where
  "probe_loop clk begin probeCap j chunk probed probeNs probeLen =
    (if probed < probeCap \<and> 0 < chunk then
       let take = min chunk (probeCap - probed);
           p0 = clk j; p1 = clk (j + 1);
           d = (if p0 < p1 then p1 - p0 else 1);
           want = min (max (take * kProbeFloorNs div d) (take * 2)) probeCap;
           (ns, len) = (if p0 < p1 \<and> probeLen \<le> take then (p1 - p0, take) else (probeNs, probeLen));
           r = (begin + probed, begin + probed + take)
       in if kProbeFloorNs \<le> ns then ([r], probed + take, ns, len)
          else (let (rs, res) = probe_loop clk begin probeCap (j + 1) want (probed + take) ns len in (r # rs, res))
     else ([], probed, probeNs, probeLen))"
  by pat_completeness auto
termination by (relation "measure (\<lambda>(clk, begin, probeCap, j, chunk, probed, probeNs, probeLen). nat (probeCap - probed))") auto

declare probe_loop.simps [simp del]

text \<open>From the label \<open>haveWidth\<close>: the grain, and the form of an automatic choice.\<close>

definition fan_out :: "pfor_config \<Rightarrow> int \<Rightarrow> int \<Rightarrow> int \<Rightarrow> PforMode \<Rightarrow> nat \<Rightarrow> int \<Rightarrow> rest" where
  "fan_out c begin end grain mode fanWidth nsPerMegaIdx =
    (let maxLeaves = int (fanWidth * pf_leaves c);
         floorGrain = (end - begin + maxLeaves - 1) div maxLeaves;
         g = max (max grain floorGrain) kMinGrain;
         pieceNs = (if 0 < nsPerMegaIdx then nsPerMegaIdx * g div 1000000 else -1);
         m = (if mode = Auto then (if 0 \<le> pieceNs \<and> pieceNs < kLazyPieceNs then LazyPCore else Cursor) else mode)
     in Fan m begin end g fanWidth)"

text \<open>The width \<open>sqrt(W / c)\<close>, computed in floating point (\<open>width_of\<close>) and cut at the number of workers; below two the caller runs it all.\<close>

definition with_width :: "pfor_config \<Rightarrow> (int \<Rightarrow> int \<Rightarrow> nat) \<Rightarrow> int \<Rightarrow> int \<Rightarrow> int \<Rightarrow> PforMode \<Rightarrow> int \<Rightarrow> int \<Rightarrow> rest" where
  "with_width c width_of begin end grain mode W nsPerMega =
    (let k = min (width_of W (if 0 < pf_wakeCost c then int (pf_wakeCost c) else 1)) (pf_workers c)
     in if k < 2 then Inline begin end else fan_out c begin end grain mode k nsPerMega)"

definition ParallelFor :: "pfor_config \<Rightarrow> (int \<Rightarrow> int \<Rightarrow> nat) \<Rightarrow> (nat \<Rightarrow> int) \<Rightarrow> body_cost option \<Rightarrow> int \<Rightarrow> int \<Rightarrow> int \<Rightarrow> PforMode \<Rightarrow>
    range list \<times> rest \<times> body_cost option" where
  "ParallelFor c width_of clk slot begin end grain0 mode =
    (let grain = max 1 grain0; len = i32 (end - begin) in
     if len \<le> 0 then ([], Nothing, slot)
     else if pf_serial c \<or> \<not> pf_active c \<or> pf_workers c = 0 then ([], Inline begin end, slot)
     else if \<not> pf_measured c then
       ([], (if len < i32 (int (pf_workers c) * int (pf_minIters c)) then Inline begin end else fan_out c begin end grain mode (pf_workers c) 0), slot)
     else
       let known = (case slot of Some b \<Rightarrow> 0 < bc_nsPerMega b \<and> bc_uses b mod kReprobeInterval \<noteq> 0 | None \<Rightarrow> False);
           slot1 = map_option (\<lambda>b. b\<lparr>bc_uses := bc_uses b + 1\<rparr>) slot
       in if known then
            ([], with_width c width_of begin end grain mode (bc_nsPerMega (the slot) * len div 1000000) (bc_nsPerMega (the slot)), slot1)
          else
            let probeCap = (if len div 32 < 1 then 1 else len div 32);
                (rs, probed, probeNs, pl) = probe_loop clk begin probeCap 0 1 0 0 0;
                probeLen = (if pl \<le> 0 then (if 0 < probed then probed else 1) else pl);
                begin1 = begin + probed
            in if end \<le> begin1 then (rs, Nothing, slot1)
               else if probeNs < kProbeFloorNs then (rs, Inline begin1 end, slot1)
               else
                 let sample = probeNs * 1000000 div probeLen;
                     slot2 = map_option (\<lambda>b. b\<lparr>bc_nsPerMega := if 0 < bc_nsPerMega b then (bc_nsPerMega b * 3 + sample) div 4 else sample\<rparr>) slot1
                 in (rs, with_width c width_of begin1 end grain mode (probeNs * len div probeLen) sample, slot2))"

text \<open>The overload without a grain.\<close>

definition default_grain :: "nat \<Rightarrow> int \<Rightarrow> int \<Rightarrow> int option" where
  "default_grain workers begin end = (let n = i32 (end - begin); leaves = max 1 (int workers * 8)
     in if n \<le> 0 then None else Some (max 1 ((n + leaves - 1) div leaves)))"

section \<open>The shared cursor\<close>

definition cursor_grain :: "nat \<Rightarrow> int \<Rightarrow> int \<Rightarrow> int \<Rightarrow> int" where
  "cursor_grain W start end grain =
    (let total = end - start; blocks = int W * 4; balanced = (total + blocks - 1) div blocks
     in max grain (if balanced < 1 then 1 else if 128 < balanced then 128 else balanced))"

definition cursor_lanes :: "nat \<Rightarrow> int \<Rightarrow> int \<Rightarrow> int \<Rightarrow> nat" where
  "cursor_lanes W start end g = nat (min (int W) (max 1 ((end - start + g - 1) div g)))"

text \<open>The caller and the lane tasks, each about to take a range, running the body from an index, or out of the loop.\<close>

datatype cur_pc = Fetch | Body int | Out

record cur_run =
  cr_cursor :: int
  cr_pcs :: "cur_pc list"
  cr_log :: "range list"

definition cur_init :: "int \<Rightarrow> nat \<Rightarrow> cur_run" where
  "cur_init start threads = \<lparr>cr_cursor = start, cr_pcs = replicate threads Fetch, cr_log = []\<rparr>"

definition cur_fetch :: "int \<Rightarrow> int \<Rightarrow> nat \<Rightarrow> cur_run \<Rightarrow> cur_run" where
  "cur_fetch end grain i s = s\<lparr>cr_cursor := i32 (cr_cursor s + grain),
     cr_pcs := (cr_pcs s)[i := if end \<le> cr_cursor s then Out else Body (cr_cursor s)]\<rparr>"

definition cur_body :: "int \<Rightarrow> int \<Rightarrow> nat \<Rightarrow> int \<Rightarrow> cur_run \<Rightarrow> cur_run" where
  "cur_body end grain i lo s = s\<lparr>cr_log := cr_log s @ [(lo, if end < i32 (lo + grain) then end else i32 (lo + grain))],
     cr_pcs := (cr_pcs s)[i := Fetch]\<rparr>"

inductive cur_step :: "int \<Rightarrow> int \<Rightarrow> cur_run \<Rightarrow> cur_run \<Rightarrow> bool" for "end" grain :: int where
  c_fetch: "i < length (cr_pcs s) \<Longrightarrow> cr_pcs s ! i = Fetch \<Longrightarrow> cur_step end grain s (cur_fetch end grain i s)"
| c_body: "i < length (cr_pcs s) \<Longrightarrow> cr_pcs s ! i = Body lo \<Longrightarrow> cur_step end grain s (cur_body end grain i lo s)"

section \<open>Lazy splitting\<close>

text \<open>The bounds of the contiguous shares of \<open>RunLazyRange\<close>, and how many shares there are.\<close>

definition lazy_bound :: "int \<Rightarrow> int \<Rightarrow> nat \<Rightarrow> nat \<Rightarrow> int" where
  "lazy_bound start end parts i = start + ((end - start) * int i) div int parts"

definition lazy_parts :: "int \<Rightarrow> int \<Rightarrow> int \<Rightarrow> nat \<Rightarrow> nat \<Rightarrow> nat" where
  "lazy_parts start end grain nIdle nBusy = (let parts = 1 + nIdle + nBusy; maxParts = (end - start) div grain
     in if maxParts < int parts then nat (if 1 < maxParts then maxParts else 1) else parts)"

text \<open>
  A run of \<open>RunLazyRange\<close>: the next share to hand out, the pieces not finished yet (number 0 is the caller's own share), the count of the
  wait group, and the calls of the body. A piece is \<open>None\<close> once its task has ended.
\<close>

record lazy_run =
  lz_next :: nat
  lz_pieces :: "range option list"
  lz_count :: nat
  lz_log :: "range list"

definition lazy_init :: "int \<Rightarrow> int \<Rightarrow> nat \<Rightarrow> lazy_run" where
  "lazy_init start end parts = \<lparr>lz_next = 1, lz_pieces = [Some (start, lazy_bound start end parts 1)], lz_count = 1, lz_log = []\<rparr>"

definition lazy_deal :: "int \<Rightarrow> int \<Rightarrow> nat \<Rightarrow> bool \<Rightarrow> lazy_run \<Rightarrow> lazy_run" where
  "lazy_deal start end parts made s =
    (let r = (lazy_bound start end parts (lz_next s), lazy_bound start end parts (lz_next s + 1)); s1 = s\<lparr>lz_next := lz_next s + 1\<rparr>
     in if made then s1\<lparr>lz_count := lz_count s + 1, lz_pieces := lz_pieces s @ [Some r]\<rparr> else s1\<lparr>lz_log := lz_log s @ [r]\<rparr>)"

text \<open>One pass of the loop of \<open>RunLazyPiece\<close>; \<open>give\<close>: the own deque is empty and a task could be made.\<close>

definition RunLazyPiece :: "int \<Rightarrow> bool \<Rightarrow> nat \<Rightarrow> int \<Rightarrow> int \<Rightarrow> lazy_run \<Rightarrow> lazy_run" where
  "RunLazyPiece grain give i lo hi s =
    (if grain < hi - lo then
       (if give \<and> i32 (2 * grain) \<le> hi - lo then
          let mid = lo + (hi - lo) div 2
          in s\<lparr>lz_count := lz_count s + 1, lz_pieces := (lz_pieces s)[i := Some (lo, mid)] @ [Some (mid, hi)]\<rparr>
        else s\<lparr>lz_log := lz_log s @ [(lo, lo + grain)], lz_pieces := (lz_pieces s)[i := Some (lo + grain, hi)]\<rparr>)
     else s\<lparr>lz_log := lz_log s @ (if lo < hi then [(lo, hi)] else []), lz_pieces := (lz_pieces s)[i := None], lz_count := lz_count s - 1\<rparr>)"

inductive lazy_step :: "int \<Rightarrow> int \<Rightarrow> int \<Rightarrow> nat \<Rightarrow> lazy_run \<Rightarrow> lazy_run \<Rightarrow> bool" for start "end" grain :: int and parts :: nat where
  l_deal: "lz_next s < parts \<Longrightarrow> lazy_step start end grain parts s (lazy_deal start end parts made s)"
| l_piece: "i < length (lz_pieces s) \<Longrightarrow> lz_pieces s ! i = Some (lo, hi) \<Longrightarrow> i = 0 \<longrightarrow> lz_next s = parts \<Longrightarrow>
    lazy_step start end grain parts s (RunLazyPiece grain give i lo hi s)"

section \<open>Chunks of PushArray\<close>

text \<open>The ranges of the tasks (or of the calls made in place) of \<open>PushArray\<close>, on the 64-bit \<open>size_t\<close>.\<close>

definition PushArray_chunks :: "u64 \<Rightarrow> u64 \<Rightarrow> u64 \<Rightarrow> (u64 \<times> u64) list" where
  "PushArray_chunks begin end chunk0 =
    (if end \<le> begin then []
     else let chunkSize = (if chunk0 = 0 then 1 else chunk0);
              chunks = (end - begin + chunkSize - 1) div chunkSize
          in map (\<lambda>c. let lo = begin + of_nat c * chunkSize in (lo, if end < lo + chunkSize then end else lo + chunkSize)) [0..<unat chunks])"

section \<open>Covering\<close>

lemma i32_id: "- (2 ^ 31) \<le> x \<Longrightarrow> x < 2 ^ 31 \<Longrightarrow> i32 x = x"
  by (simp add: i32_def)

lemma cells_split: "a \<le> b \<Longrightarrow> b \<le> c \<Longrightarrow> cells (a, b) + cells (b, c) = cells (a, c)"
proof (cases "b = c")
  case False
  assume "a \<le> b" "b \<le> c"
  then have "[a..c - 1] = [a..b - 1] @ [b..c - 1]" using False by (intro upto_split1) auto
  then show ?thesis by (simp add: cells_def)
qed (simp add: cells_def)

lemma cells_empty [simp]: "b \<le> a \<Longrightarrow> cells (a, b) = {#}"
  by (simp add: cells_def)

lemma covered_simps [simp]: "covered [] = {#}" "covered (rs @ qs) = covered rs + covered qs" "covered (r # rs) = cells r + covered rs"
  by (simp_all add: covered_def)

text \<open>The probe runs a prefix, and stays within its cap.\<close>

lemma probe_loop_covers:
  assumes "probe_loop clk begin probeCap j chunk probed ns len = (rs, probed', ns', len')" "0 < chunk" "0 < probeCap" "0 \<le> probed" "probed \<le> probeCap"
  shows "covered rs = cells (begin + probed, begin + probed') \<and> probed \<le> probed' \<and> probed' \<le> probeCap"
  using assms
proof (induction clk "begin" probeCap j chunk probed ns len arbitrary: rs rule: probe_loop.induct)
  case (1 clk "begin" probeCap j chunk probed ns len)
  show ?case
  proof (cases "probed < probeCap")
    case True
    define took where "took = min chunk (probeCap - probed)"
    define d where "d = (if clk j < clk (j + 1) then clk (j + 1) - clk j else 1)"
    define want where "want = min (max (took * kProbeFloorNs div d) (took * 2)) probeCap"
    obtain n1 l1 where nl: "(if clk j < clk (j + 1) \<and> len \<le> took then (clk (j + 1) - clk j, took) else (ns, len)) = (n1, l1)" by fastforce
    let ?r = "(begin + probed, begin + probed + took)"
    have t: "0 < took" "probed + took \<le> probeCap" using True 1(3) by (auto simp: took_def)
    note eq = 1(2) [unfolded probe_loop.simps [of clk "begin" probeCap j chunk probed ns len] Let_def, folded took_def, folded d_def, folded want_def, unfolded nl]
    show ?thesis
    proof (cases "kProbeFloorNs \<le> n1")
      case True
      then show ?thesis using eq \<open>probed < probeCap\<close> 1(3) t by (auto simp: add.assoc)
    next
      case False
      obtain rs1 where r: "probe_loop clk begin probeCap (j + 1) want (probed + took) n1 l1 = (rs1, probed', ns', len')" "rs = ?r # rs1"
        using eq False \<open>probed < probeCap\<close> 1(3) by (auto split: prod.splits)
      have w: "0 < want" using t 1(4) by (auto simp: want_def)
      have "covered rs1 = cells (begin + (probed + took), begin + probed') \<and> probed + took \<le> probed' \<and> probed' \<le> probeCap"
        by (rule 1(1) [OF _ took_def refl refl d_def want_def nl [symmetric] refl refl False r(1) w 1(4)])
          (use \<open>probed < probeCap\<close> 1(3,5) t in auto)
      then show ?thesis using r(2) t cells_split [of "begin + probed" "begin + probed + took" "begin + probed'"] by (auto simp: add.assoc)
    qed
  next
    case False
    then show ?thesis using 1 by (simp add: probe_loop.simps)
  qed
qed

section \<open>The cursor covers the range\<close>

fun running :: "int \<Rightarrow> int \<Rightarrow> cur_pc \<Rightarrow> int multiset" where
  "running end grain (Body lo) = cells (lo, if end < lo + grain then end else lo + grain)" | "running end grain _ = {#}"

definition cur_outs :: "cur_run \<Rightarrow> nat" where "cur_outs s = bool_count (\<lambda>p. p = Out) (cr_pcs s)"

definition cur_inv :: "int \<Rightarrow> int \<Rightarrow> int \<Rightarrow> nat \<Rightarrow> cur_run \<Rightarrow> bool" where
  [inv_defs]: "cur_inv start end grain threads s \<longleftrightarrow> length (cr_pcs s) = threads \<and> start \<le> cr_cursor s \<and>
    covered (cr_log s) + sum_list (map (running end grain) (cr_pcs s)) + cells (cr_cursor s, end) = cells (start, end) \<and>
    cr_cursor s < end + grain * (1 + int (cur_outs s)) \<and> (Out \<in> set (cr_pcs s) \<longrightarrow> end \<le> cr_cursor s) \<and>
    (\<forall>lo. Body lo \<in> set (cr_pcs s) \<longrightarrow> start \<le> lo \<and> lo < end)"

lemma cur_fetch_inv:
  assumes "cur_inv start end grain threads s" "i < length (cr_pcs s)" "cr_pcs s ! i = Fetch" "0 < grain"
    "- (2 ^ 31) \<le> start" "end + grain * (int threads + 1) \<le> 2 ^ 31"
  shows "cur_inv start end grain threads (cur_fetch end grain i s)"
proof -
  let ?t = "cur_fetch end grain i s" and ?p = "if end \<le> cr_cursor s then Out else Body (cr_cursor s)"
  note inv = assms(1) [unfolded cur_inv_def]
  have outs: "cur_outs s + 1 \<le> threads"
  proof -
    have "bool_count (\<lambda>p. p = Out) ((cr_pcs s)[i := Out]) = cur_outs s + 1"
      using bool_count_update [OF assms(2), of "\<lambda>p. p = Out" Out] assms(3) by (simp add: cur_outs_def)
    moreover have "bool_count P xs \<le> length xs" for P and xs :: "cur_pc list" by (induction xs) (auto simp: bool_count_def)
    ultimately show ?thesis using inv by (metis length_list_update)
  qed
  have "grain * (1 + int (cur_outs s)) + grain \<le> grain * (int threads + 1)"
    using outs assms(4) mult_left_mono [of "int (cur_outs s) + 2" "int threads + 1" grain] by (simp add: algebra_simps)
  then have lt: "cr_cursor s + grain < 2 ^ 31" using inv assms(6) by linarith
  then have cur: "cr_cursor ?t = cr_cursor s + grain" using inv assms(4,5) by (simp add: cur_fetch_def i32_id)
  have pcs: "cr_pcs ?t = (cr_pcs s)[i := ?p]" "cr_log ?t = cr_log s" by (simp_all add: cur_fetch_def)
  have outs_t: "cur_outs ?t = cur_outs s + (if end \<le> cr_cursor s then 1 else 0)"
    using bool_count_update [OF assms(2), of "\<lambda>p. p = Out" ?p] assms(3) by (simp add: cur_outs_def pcs)
  have run: "sum_list (map (running end grain) ((cr_pcs s)[i := ?p])) = sum_list (map (running end grain) (cr_pcs s)) + running end grain ?p"
    using sum_pcs_update [OF assms(2), of "running end grain" ?p] assms(3) by simp
  have c: "running end grain ?p + cells (cr_cursor s + grain, end) = cells (cr_cursor s, end)"
    using assms(4) cells_split [of "cr_cursor s" "cr_cursor s + grain" "end"] by auto
  have cov: "covered (cr_log s) + sum_list (map (running end grain) ((cr_pcs s)[i := ?p])) + cells (cr_cursor s + grain, end) = cells (start, end)"
    unfolding run using inv c by (metis add.assoc)
  have "cr_cursor s + grain < end + grain * (1 + int (cur_outs ?t))"
  proof (cases "end \<le> cr_cursor s")
    case True
    then show ?thesis using inv unfolding outs_t by (simp add: algebra_simps)
  next
    case False
    moreover have "grain \<le> grain * (1 + int (cur_outs s))" using assms(4) by (simp add: algebra_simps)
    ultimately show ?thesis unfolding outs_t by simp
  qed
  moreover have "end \<le> cr_cursor s + grain" if "Out \<in> set ((cr_pcs s)[i := ?p])"
    using that inv assms(4) set_update_subset_insert [of "cr_pcs s" i ?p] by (auto split: if_splits)
  moreover have "start \<le> lo \<and> lo < end" if "Body lo \<in> set ((cr_pcs s)[i := ?p])" for lo
    using that inv set_update_subset_insert [of "cr_pcs s" i ?p] by (auto split: if_splits)
  ultimately show ?thesis unfolding cur_inv_def cur pcs using inv cov assms(4) by simp
qed

lemma cur_body_inv:
  assumes "cur_inv start end grain threads s" "i < length (cr_pcs s)" "cr_pcs s ! i = Body lo" "0 < grain"
    "- (2 ^ 31) \<le> start" "end + grain * (int threads + 1) \<le> 2 ^ 31"
  shows "cur_inv start end grain threads (cur_body end grain i lo s)"
proof -
  note inv = assms(1) [unfolded cur_inv_def]
  have lo: "start \<le> lo" "lo < end" using inv assms(2,3) by (metis nth_mem)+
  have "grain \<le> grain * (int threads + 1)" using assms(4) by (simp add: algebra_simps)
  then have w: "i32 (lo + grain) = lo + grain" using lo assms(4,5,6) by (intro i32_id) linarith+
  have run: "sum_list (map (running end grain) ((cr_pcs s)[i := Fetch])) + running end grain (Body lo) = sum_list (map (running end grain) (cr_pcs s))"
    using sum_pcs_update [OF assms(2), of "running end grain" Fetch] assms(3) by simp
  have outs: "cur_outs (cur_body end grain i lo s) = cur_outs s"
    using bool_count_update [OF assms(2), of "\<lambda>p. p = Out" Fetch] assms(3) by (simp add: cur_outs_def cur_body_def)
  have sub: "p \<in> set ((cr_pcs s)[i := Fetch]) \<Longrightarrow> p = Fetch \<or> p \<in> set (cr_pcs s)" for p
    using set_update_subset_insert [of "cr_pcs s" i Fetch] by auto
  have cov: "covered (cr_log s @ [(lo, if end < lo + grain then end else lo + grain)]) + sum_list (map (running end grain) ((cr_pcs s)[i := Fetch])) +
      cells (cr_cursor s, end) = cells (start, end)"
    using inv unfolding run [symmetric] by (simp add: ac_simps)
  have t: "cr_pcs (cur_body end grain i lo s) = (cr_pcs s)[i := Fetch]" "cr_cursor (cur_body end grain i lo s) = cr_cursor s"
    "cr_log (cur_body end grain i lo s) = cr_log s @ [(lo, if end < lo + grain then end else lo + grain)]" by (simp_all add: cur_body_def w)
  show ?thesis unfolding cur_inv_def outs t using inv sub cov by simp blast
qed

lemma sum_list_all_zero: "(\<And>x. x \<in> set xs \<Longrightarrow> f x = {#}) \<Longrightarrow> sum_list (map f xs) = {#}"
  by (induction xs) auto

text \<open>Whether the call of the loop stays within \<open>int\<close>: every thread overshoots the end by at most one grain.\<close>

definition cur_fits :: "int \<Rightarrow> int \<Rightarrow> int \<Rightarrow> nat \<Rightarrow> bool" where
  "cur_fits start end grain threads \<longleftrightarrow> 0 < grain \<and> - (2 ^ 31) \<le> start \<and> start \<le> end \<and> end + grain * (int threads + 1) \<le> 2 ^ 31"

definition cur_safe :: "int \<Rightarrow> int \<Rightarrow> int \<Rightarrow> nat \<Rightarrow> cur_run \<Rightarrow> bool" where
  "cur_safe start end grain threads s \<longleftrightarrow> cur_fits start end grain threads \<and> cur_inv start end grain threads s"

interpretation cursor: transition_system "cur_step end grain" "cur_safe start end grain threads"
proof unfold_locales
  fix s t assume "cur_safe start end grain threads s" "cur_step end grain s t"
  then show "cur_safe start end grain threads t"
    by (auto simp: cur_safe_def cur_fits_def elim!: cur_step.cases intro: cur_fetch_inv cur_body_inv)
qed

lemma cur_safe_init:
  assumes "cur_fits start end grain threads"
  shows "cur_safe start end grain threads (cur_init start threads)"
proof -
  have a: "sum_list (map (running end grain) (cr_pcs (cur_init start threads))) = {#}" by (rule sum_list_all_zero) (auto simp: cur_init_def)
  have b: "cur_outs (cur_init start threads) = 0" by (auto simp: cur_outs_def cur_init_def bool_count_0)
  show ?thesis using assms unfolding cur_safe_def cur_inv_def a b by (auto simp: cur_fits_def cur_init_def)
qed

definition cur_done :: "cur_run \<Rightarrow> bool" where
  "cur_done s \<longleftrightarrow> cr_pcs s \<noteq> [] \<and> list_all (\<lambda>p. p = Out) (cr_pcs s)"

lemma cursor_covers:
  assumes "cur_fits start end grain threads" "reach (cur_step end grain) (cur_init start threads) s" "cur_done s"
  shows "covered (cr_log s) = cells (start, end)"
proof -
  have inv: "cur_inv start end grain threads s" using cursor.reach_inv [OF assms(2) cur_safe_init [OF assms(1)]] by (simp add: cur_safe_def)
  have out: "\<forall>p \<in> set (cr_pcs s). p = Out" "cr_pcs s \<noteq> []" using assms(3) by (auto simp: cur_done_def list_all_iff)
  have r: "sum_list (map (running end grain) (cr_pcs s)) = {#}" by (rule sum_list_all_zero) (use out(1) in auto)
  have "Out \<in> set (cr_pcs s)" using out by (metis last_in_set)
  then have "end \<le> cr_cursor s" using inv by (simp add: cur_inv_def)
  then show ?thesis using inv r by (simp add: cur_inv_def)
qed

section \<open>Lazy splitting covers the range\<close>

definition piece_cells :: "range option \<Rightarrow> int multiset" where
  "piece_cells p = (case p of None \<Rightarrow> {#} | Some r \<Rightarrow> cells r)"

definition lz_live :: "lazy_run \<Rightarrow> nat" where "lz_live s = bool_count (\<lambda>p. p \<noteq> None) (lz_pieces s)"

definition lazy_inv :: "int \<Rightarrow> int \<Rightarrow> int \<Rightarrow> nat \<Rightarrow> lazy_run \<Rightarrow> bool" where
  [inv_defs]: "lazy_inv start end grain parts s \<longleftrightarrow> start \<le> end \<and> 0 < grain \<and> 0 < parts \<and> lz_next s \<le> parts \<and> lz_pieces s \<noteq> [] \<and>
    covered (lz_log s) + sum_list (map piece_cells (lz_pieces s)) + cells (lazy_bound start end parts (lz_next s), end) = cells (start, end) \<and>
    lz_count s = lz_live s \<and> (\<forall>lo hi. Some (lo, hi) \<in> set (lz_pieces s) \<longrightarrow> lo \<le> hi) \<and> (lz_next s < parts \<longrightarrow> lz_pieces s ! 0 \<noteq> None)"

lemma lazy_bound_mono: "start \<le> end \<Longrightarrow> 0 < parts \<Longrightarrow> i \<le> j \<Longrightarrow> lazy_bound start end parts i \<le> lazy_bound start end parts j"
  by (simp add: lazy_bound_def zdiv_mono1 mult_left_mono)

lemma lazy_bound_ends: "0 < parts \<Longrightarrow> lazy_bound start end parts parts = end" "lazy_bound start end parts 0 = start"
  by (simp_all add: lazy_bound_def)

lemma bool_count_append: "bool_count P (xs @ ys) = bool_count P xs + bool_count P ys"
  by (simp add: bool_count_def)

lemma lazy_deal_inv:
  assumes "lazy_inv start end grain parts s" "lz_next s < parts"
  shows "lazy_inv start end grain parts (lazy_deal start end parts made s)"
proof -
  note inv = assms(1) [unfolded lazy_inv_def]
  let ?b = "lazy_bound start end parts"
  have m: "?b (lz_next s) \<le> ?b (lz_next s + 1)" "?b (lz_next s + 1) \<le> end"
    using inv assms(2) lazy_bound_mono [of start "end" parts] lazy_bound_ends(1) [of parts start "end"] by (metis Suc_eq_plus1 Suc_leI le_add1)+
  note sp = cells_split [OF m]
  have cov: "covered (lz_log s) + sum_list (map piece_cells (lz_pieces s)) + cells (?b (lz_next s), ?b (lz_next s + 1)) + cells (?b (lz_next s + 1), end) =
    cells (start, end)" using inv sp by (simp add: add.assoc)
  show ?thesis
  proof (cases made)
    case True
    have "lz_live (lazy_deal start end parts made s) = lz_live s + 1" using True by (simp add: lz_live_def lazy_deal_def Let_def bool_count_append) (simp add: bool_count_def)
    then show ?thesis unfolding lazy_inv_def using inv m cov assms(2) True by (auto simp: lazy_deal_def Let_def piece_cells_def nth_append ac_simps)
  next
    case False
    have "lz_live (lazy_deal start end parts made s) = lz_live s" using False by (simp add: lz_live_def lazy_deal_def Let_def)
    then show ?thesis unfolding lazy_inv_def using inv m cov assms(2) False by (auto simp: lazy_deal_def Let_def ac_simps)
  qed
qed

text \<open>A pass of a piece: the part run, or given away, and the part kept make up the piece.\<close>

lemma piece_step_inv:
  assumes "lazy_inv start end grain parts s" "i < length (lz_pieces s)" "lz_pieces s ! i = Some (lo, hi)"
    "lz_next t = lz_next s" "lz_pieces t = (lz_pieces s)[i := p] @ new"
    "covered (lz_log t) = covered (lz_log s) + rn" "rn + piece_cells p + sum_list (map piece_cells new) = cells (lo, hi)"
    "lz_count t + 1 = lz_count s + (if p = None then 0 else 1) + length new" "\<forall>q \<in> set new. q \<noteq> None" "\<forall>a b. Some (a, b) \<in> set (p # new) \<longrightarrow> a \<le> b"
    "i = 0 \<longrightarrow> lz_next s = parts"
  shows "lazy_inv start end grain parts t"
proof -
  note inv = assms(1) [unfolded lazy_inv_def]
  have s1: "sum_list (map piece_cells ((lz_pieces s)[i := p])) + cells (lo, hi) = sum_list (map piece_cells (lz_pieces s)) + piece_cells p"
    using sum_pcs_update [OF assms(2), of piece_cells p] assms(3) by (simp add: piece_cells_def)
  have "covered (lz_log t) + sum_list (map piece_cells (lz_pieces t)) + cells (lo, hi) = covered (lz_log s) + sum_list (map piece_cells (lz_pieces s)) + cells (lo, hi)"
    unfolding assms(5,6) using s1 assms(7) by (simp add: ac_simps)
  then have cov: "covered (lz_log t) + sum_list (map piece_cells (lz_pieces t)) = covered (lz_log s) + sum_list (map piece_cells (lz_pieces s))" by simp
  have "bool_count (\<lambda>p. p \<noteq> None) new = length new" using assms(9) by (induction new) (auto simp: bool_count_def)
  then have "lz_live t + 1 = lz_live s + (if p = None then 0 else 1) + length new"
    using bool_count_update [OF assms(2), of "\<lambda>p. p \<noteq> None" p] assms(3) by (simp add: lz_live_def assms(5) bool_count_append split: if_splits)
  then have "lz_count t = lz_live t" using assms(8) inv by linarith
  moreover have "a \<le> b" if "Some (a, b) \<in> set (lz_pieces t)" for a b
    using that inv assms(10) set_update_subset_insert [of "lz_pieces s" i p] unfolding assms(5) by auto
  moreover have "lz_pieces t ! 0 \<noteq> None" if "lz_next s < parts"
    using that inv assms(5,11) by (cases i) (auto simp: nth_append)
  ultimately show ?thesis unfolding lazy_inv_def assms(4) using inv cov assms(5) by simp
qed

lemma RunLazyPiece_inv:
  assumes "lazy_inv start end grain parts s" "i < length (lz_pieces s)" "lz_pieces s ! i = Some (lo, hi)" "i = 0 \<longrightarrow> lz_next s = parts"
  shows "lazy_inv start end grain parts (RunLazyPiece grain give i lo hi s)"
proof -
  let ?t = "RunLazyPiece grain give i lo hi s"
  have g: "0 < grain" and lh: "lo \<le> hi" using assms(1-3) unfolding lazy_inv_def by (auto dest: nth_mem)
  have pos: "0 < lz_count s" using assms(1-3) bool_count_pos [of i "lz_pieces s" "\<lambda>p. p \<noteq> None"] by (simp add: lazy_inv_def lz_live_def)
  define mid where "mid = lo + (hi - lo) div 2"
  have mid: "lo \<le> mid" "mid \<le> hi" using lh by (auto simp: mid_def)
  consider "grain < hi - lo" "give \<and> i32 (2 * grain) \<le> hi - lo" | "grain < hi - lo" "\<not> (give \<and> i32 (2 * grain) \<le> hi - lo)" | "\<not> grain < hi - lo" by blast
  then show ?thesis
  proof cases
    case 1
    then show ?thesis using assms(4) mid cells_split [OF mid]
      by (intro piece_step_inv [OF assms(1-3), of ?t "Some (lo, mid)" "[Some (mid, hi)]" "{#}"])
        (auto simp: RunLazyPiece_def Let_def piece_cells_def simp flip: mid_def)
  next
    case 2
    then show ?thesis using assms(4) g cells_split [of lo "lo + grain" hi]
      by (intro piece_step_inv [OF assms(1-3), of ?t "Some (lo + grain, hi)" "[]" "cells (lo, lo + grain)"])
        (auto simp: RunLazyPiece_def piece_cells_def)
  next
    case 3
    then show ?thesis using assms(4) pos
      by (intro piece_step_inv [OF assms(1-3), of ?t None "[]" "cells (lo, hi)"])
        (auto simp: RunLazyPiece_def piece_cells_def)
  qed
qed

interpretation lazy_split: transition_system "lazy_step start end grain parts" "lazy_inv start end grain parts"
  by unfold_locales (auto elim!: lazy_step.cases intro: lazy_deal_inv RunLazyPiece_inv)

lemma lazy_inv_init:
  assumes "start \<le> end" "0 < grain" "0 < parts"
  shows "lazy_inv start end grain parts (lazy_init start end parts)"
proof -
  have m: "start \<le> lazy_bound start end parts 1" "lazy_bound start end parts 1 \<le> end"
    using lazy_bound_mono [OF assms(1,3), of 0 1] lazy_bound_mono [OF assms(1,3), of 1 parts] lazy_bound_ends(1) [OF assms(3), of start "end"] lazy_bound_ends(2) [of start "end" parts] assms(3) by auto
  have "lz_live (lazy_init start end parts) = 1" by (simp add: lz_live_def lazy_init_def bool_count_def)
  then show ?thesis unfolding lazy_inv_def using assms m cells_split [OF m] by (auto simp: lazy_init_def piece_cells_def)
qed

lemma lazy_covers:
  assumes "start \<le> end" "0 < grain" "0 < parts" "reach (lazy_step start end grain parts) (lazy_init start end parts) s" "lz_count s = 0"
  shows "covered (lz_log s) = cells (start, end)"
proof -
  have inv: "lazy_inv start end grain parts s" by (rule lazy_split.reach_inv [OF assms(4) lazy_inv_init [OF assms(1-3)]])
  then have none: "\<forall>p \<in> set (lz_pieces s). p = None" using assms(5) bool_count_0 [of "\<lambda>p. p \<noteq> None" "lz_pieces s"] unfolding lazy_inv_def lz_live_def by metis
  then have p: "sum_list (map piece_cells (lz_pieces s)) = {#}" by (intro sum_list_all_zero) (auto simp: piece_cells_def)
  have "lz_pieces s ! 0 = None" using none inv by (simp add: lazy_inv_def)
  then have "lz_next s = parts" using inv by (auto simp: lazy_inv_def)
  then show ?thesis using inv p lazy_bound_ends(1) [OF assms(3), of start "end"] by (simp add: lazy_inv_def)
qed

section \<open>Both loops end\<close>

fun weight :: "cur_pc \<Rightarrow> nat" where
  "weight Out = 0" | "weight Fetch = 1" | "weight (Body _) = 2"

definition steps_left :: "int \<Rightarrow> cur_run \<Rightarrow> nat" where
  "steps_left end s = 3 * nat (end - cr_cursor s) + sum_list (map weight (cr_pcs s))"

lemma cur_step_ends:
  assumes "cur_safe start end grain threads s" "cur_step end grain s t"
  shows "steps_left end t < steps_left end s"
  using assms(2)
proof cases
  case (c_fetch i)
  let ?p = "if end \<le> cr_cursor s then Out else Body (cr_cursor s)"
  have g: "0 < grain" using assms(1) by (simp add: cur_safe_def cur_fits_def)
  have "cur_safe start end grain threads t" using cursor.step_inv assms by blast
  have sum: "sum_list (map weight ((cr_pcs s)[i := ?p])) + 1 = sum_list (map weight (cr_pcs s)) + weight ?p"
    using sum_pcs_update [OF c_fetch(2), of weight ?p] c_fetch(3) by simp
  have inv: "cur_inv start end grain threads s" "cur_fits start end grain threads" using assms(1) by (auto simp: cur_safe_def)
  show ?thesis
  proof (cases "end \<le> cr_cursor s")
    case True
    then have "end \<le> cr_cursor t"
    proof -
      have "Out \<in> set (cr_pcs t)" using c_fetch True by (simp add: cur_fetch_def set_update_memI)
      then show ?thesis using \<open>cur_safe start end grain threads t\<close> by (simp add: cur_safe_def cur_inv_def)
    qed
    then show ?thesis using True sum c_fetch(1) by (simp add: steps_left_def cur_fetch_def)
  next
    case False
    then have "cr_cursor s < cr_cursor t"
    proof -
      have "grain \<le> grain * (int threads + 1)" using g by (simp add: algebra_simps)
      then have "i32 (cr_cursor s + grain) = cr_cursor s + grain" using False inv g unfolding cur_inv_def cur_fits_def by (intro i32_id) linarith+
      then show ?thesis using c_fetch(1) g by (simp add: cur_fetch_def)
    qed
    moreover have "cr_pcs t = (cr_pcs s)[i := ?p]" using c_fetch(1) by (simp add: cur_fetch_def)
    ultimately show ?thesis using False sum by (simp add: steps_left_def)
  qed
next
  case (c_body i lo)
  have "sum_list (map weight ((cr_pcs s)[i := Fetch])) + 2 = sum_list (map weight (cr_pcs s)) + 1"
    using sum_pcs_update [OF c_body(2), of weight Fetch] c_body(3) by simp
  then show ?thesis using c_body(1) by (simp add: steps_left_def cur_body_def)
qed

lemma cur_step_possible: "cr_pcs s \<noteq> [] \<Longrightarrow> \<not> cur_done s \<Longrightarrow> \<exists>t. cur_step end grain s t"
proof -
  assume "cr_pcs s \<noteq> []" "\<not> cur_done s"
  then obtain i where i: "i < length (cr_pcs s)" "cr_pcs s ! i \<noteq> Out" by (auto simp: cur_done_def list_all_iff in_set_conv_nth)
  then show ?thesis by (cases "cr_pcs s ! i") (auto intro: cur_step.intros)
qed

definition piece_weight :: "range option \<Rightarrow> nat" where
  "piece_weight p = (case p of None \<Rightarrow> 0 | Some r \<Rightarrow> if snd r \<le> fst r then 1 else 2 * nat (snd r - fst r) - 1)"

definition pieces_left :: "int \<Rightarrow> int \<Rightarrow> nat \<Rightarrow> lazy_run \<Rightarrow> nat" where
  "pieces_left start end parts s = sum_list (map piece_weight (lz_pieces s)) +
    (\<Sum>i = lz_next s..<parts. Suc (piece_weight (Some (lazy_bound start end parts i, lazy_bound start end parts (i + 1)))))"

lemma lazy_step_ends:
  assumes "lazy_inv start end grain parts s" "lazy_step start end grain parts s t"
  shows "pieces_left start end parts t < pieces_left start end parts s"
  using assms(2)
proof cases
  case (l_deal made)
  let ?w = "\<lambda>i. Suc (piece_weight (Some (lazy_bound start end parts i, lazy_bound start end parts (i + 1))))"
  have "(\<Sum>i = lz_next s..<parts. ?w i) = ?w (lz_next s) + (\<Sum>i = Suc (lz_next s)..<parts. ?w i)"
    using l_deal(2) by (rule sum.atLeast_Suc_lessThan)
  then show ?thesis by (cases made) (simp_all add: pieces_left_def l_deal(1) lazy_deal_def Let_def)
next
  case (l_piece i lo hi give)
  have g: "0 < grain" using assms(1) by (simp add: lazy_inv_def)
  have old: "sum_list (map piece_weight ((lz_pieces s)[i := p])) + piece_weight (Some (lo, hi)) = sum_list (map piece_weight (lz_pieces s)) + piece_weight p" for p
    using sum_pcs_update [OF l_piece(2), of piece_weight p] l_piece(3) by simp
  have "piece_weight (Some (lo, lo + (hi - lo) div 2)) + piece_weight (Some (lo + (hi - lo) div 2, hi)) < piece_weight (Some (lo, hi))"
    if "grain < hi - lo"
  proof -
    have "2 \<le> hi - lo" using that g by linarith
    then have "lo < lo + (hi - lo) div 2" "lo + (hi - lo) div 2 < hi" by linarith+
    then show ?thesis by (simp add: piece_weight_def)
  qed
  moreover have "piece_weight (Some (lo + grain, hi)) < piece_weight (Some (lo, hi))" if "grain < hi - lo"
    using that g by (simp add: piece_weight_def)
  moreover have "0 < piece_weight (Some (lo, hi))" "piece_weight None = 0" by (auto simp: piece_weight_def)
  ultimately show ?thesis
    using old [of "Some (lo, lo + (hi - lo) div 2)"] old [of "Some (lo + grain, hi)"] old [of None]
    by (auto simp: pieces_left_def l_piece(1) RunLazyPiece_def Let_def)
qed

lemma lazy_step_possible:
  assumes "lazy_inv start end grain parts s" "lz_count s \<noteq> 0"
  shows "\<exists>t. lazy_step start end grain parts s t"
proof (cases "lz_next s < parts")
  case False
  then have n: "lz_next s = parts" using assms(1) by (simp add: lazy_inv_def)
  have "\<not> (\<forall>p \<in> set (lz_pieces s). \<not> p \<noteq> None)" using assms bool_count_0 [of "\<lambda>p. p \<noteq> None" "lz_pieces s"] unfolding lazy_inv_def lz_live_def by metis
  then obtain p where "p \<in> set (lz_pieces s)" "p \<noteq> None" by blast
  then obtain i lo hi where "i < length (lz_pieces s)" "lz_pieces s ! i = Some (lo, hi)" by (auto simp: in_set_conv_nth)
  then show ?thesis using n lazy_step.l_piece by blast
qed (auto intro: lazy_step.l_deal)

section \<open>Properties\<close>

text \<open>
  The calls of the body a plan ends with, when \<open>ParallelFor\<close> returns: the form in place; every run of the cursor loop by the caller and
  at most as many tasks as there are lanes, all out of the loop; every run of the split range whose group has reached zero.
\<close>

definition pfor_finished :: "nat \<Rightarrow> rest \<Rightarrow> range list \<Rightarrow> bool" where
  "pfor_finished W r log \<longleftrightarrow> (case r of
     Nothing \<Rightarrow> log = []
   | Inline b e \<Rightarrow> log = [(b, e)]
   | Fan m b e g w \<Rightarrow>
       if m = LazyPCore then
         \<exists>nIdle nBusy s. nIdle + nBusy \<le> min 64 (w - 1) \<and>
           reach (lazy_step b e g (lazy_parts b e g nIdle nBusy)) (lazy_init b e (lazy_parts b e g nIdle nBusy)) s \<and> lz_count s = 0 \<and> log = lz_log s
       else
         \<exists>threads s. threads \<le> cursor_lanes W b e (cursor_grain W b e g) + 1 \<and>
           reach (cur_step e (cursor_grain W b e g)) (cur_init b threads) s \<and> cur_done s \<and> log = cr_log s)"

definition pfor_fits :: "nat \<Rightarrow> rest \<Rightarrow> bool" where
  "pfor_fits W r \<longleftrightarrow> (case r of
     Fan m b e g w \<Rightarrow> m \<noteq> LazyPCore \<longrightarrow> e + cursor_grain W b e g * (int (cursor_lanes W b e (cursor_grain W b e g)) + 2) \<le> 2 ^ 31
   | _ \<Rightarrow> True)"

definition rest_of :: "int \<Rightarrow> int \<Rightarrow> rest \<Rightarrow> bool" where
  "rest_of b e r \<longleftrightarrow> r = Inline b e \<or> (\<exists>m g w. r = Fan m b e g w \<and> 0 < g)"

lemma rest_of_simps [simp]: "rest_of b e (Inline b e)" "rest_of b e (fan_out c b e grain mode w ns)" "rest_of b e (with_width c wo b e grain mode W ns)"
proof -
  show i: "rest_of b e (Inline b e)" by (simp add: rest_of_def)
  show f: "rest_of b e (fan_out c b e grain mode w ns)" for w
    by (simp add: fan_out_def Let_def rest_of_def kMinGrain_def)
  show "rest_of b e (with_width c wo b e grain mode W ns)" by (simp add: with_width_def Let_def i f)
qed

lemma finished_covers:
  assumes "rest_of b e r" "b \<le> e" "- (2 ^ 31) \<le> b" "pfor_fits W r" "pfor_finished W r log"
  shows "covered log = cells (b, e)"
proof (cases "r = Inline b e")
  case False
  then obtain m g w where r: "r = Fan m b e g w" "0 < g" using assms(1) by (auto simp: rest_of_def)
  show ?thesis
  proof (cases "m = LazyPCore")
    case True
    then obtain nIdle nBusy s where s: "reach (lazy_step b e g (lazy_parts b e g nIdle nBusy)) (lazy_init b e (lazy_parts b e g nIdle nBusy)) s"
      "lz_count s = 0" "log = lz_log s" using assms(5) r by (auto simp: pfor_finished_def)
    have "0 < lazy_parts b e g nIdle nBusy" by (auto simp: lazy_parts_def Let_def)
    then show ?thesis using lazy_covers [OF assms(2) r(2) _ s(1,2)] s(3) by simp
  next
    case False
    define cg where "cg = cursor_grain W b e g"
    obtain threads s where s: "threads \<le> cursor_lanes W b e cg + 1" "reach (cur_step e cg) (cur_init b threads) s" "cur_done s" "log = cr_log s"
      using assms(5) r False by (auto simp: pfor_finished_def cg_def)
    have cg: "0 < cg" using r(2) by (simp add: cg_def cursor_grain_def Let_def)
    have "cg * (int threads + 1) \<le> cg * (int (cursor_lanes W b e cg) + 2)" using s(1) cg by (intro mult_left_mono) auto
    moreover have "e + cg * (int (cursor_lanes W b e cg) + 2) \<le> 2 ^ 31" using assms(4) r False by (simp add: pfor_fits_def cg_def)
    ultimately have "cur_fits b e cg threads" using assms(2,3) cg unfolding cur_fits_def by linarith
    then show ?thesis using cursor_covers [OF _ s(2,3)] s(4) by simp
  qed
qed (use assms(5) in \<open>simp add: pfor_finished_def\<close>)

text \<open>(C7) \<open>ParallelFor\<close> runs every index exactly once, whichever form it chooses, whatever the clock, the measured width and the remembered
  cost, and however the threads interleave: when it returns, the calls of the body on the probed prefix and on the rest, together, hold each index of
  the range once. The conditions: the range begins at an \<open>int\<close> and is shorter than \<open>2 ^ 31\<close> (\<open>long_range_is_dropped\<close> shows a longer one), and when
  the cursor form is chosen the end plus a grain for every lane and two more is at most \<open>2 ^ 31\<close> (\<open>pfor_fits\<close>; \<open>cursor_wraps_and_runs_twice\<close> shows the
  wrap-around without it).\<close>

theorem parallel_for_each_index_once:
  assumes "- (2 ^ 31) \<le> b" "b \<le> e" "e - b < 2 ^ 31" "ParallelFor c width_of clk slot b e grain mode = (probed, r, slot')"
    "pfor_fits W r" "pfor_finished W r log"
  shows "covered (probed @ log) = cells (b, e)"
proof -
  have len: "i32 (e - b) = e - b" using assms(2,3) by (intro i32_id) auto
  note P = assms(4) [unfolded ParallelFor_def Let_def len]
  note fin = finished_covers [OF _ _ _ assms(5,6)]
  let ?cap = "if (e - b) div 32 < 1 then 1 else (e - b) div 32"
  obtain rs n ns len where pl: "probe_loop clk b ?cap 0 1 0 0 0 = (rs, n, ns, len)" by (metis prod_cases4)
  consider (empty) "e = b" "probed = []" "r = Nothing" | (plain) "b < e" "probed = []" "rest_of b e r"
    | (probe) "b < e" "probed = rs" "e \<le> b + n \<and> r = Nothing \<or> b + n < e \<and> rest_of (b + n) e r"
    using P assms(2) unfolding pl by (auto split: if_splits)
  then show ?thesis
  proof cases
    case empty
    then show ?thesis using assms(6) by (simp add: pfor_finished_def)
  next
    case plain
    then show ?thesis using fin [of b e] assms(1) by simp
  next
    case probe
    have cov: "covered rs = cells (b, b + n)" "0 \<le> n" "n \<le> ?cap" using probe_loop_covers [OF pl] by auto
    then have le: "b + n \<le> e" using probe(1) by (auto split: if_splits)
    have "covered log = cells (b + n, e)"
    proof (cases "r = Nothing")
      case True
      then have "e \<le> b + n" using probe(3) by (auto simp: rest_of_def)
      then show ?thesis using True assms(6) by (simp add: pfor_finished_def)
    qed (use probe(3) fin [of "b + n" e] assms(1) cov(2) in simp)
    then show ?thesis using cov le cells_split [of b "b + n" e] probe(2) by simp
  qed
qed

text \<open>(C32) Neither loop can hang or run forever by itself, as long as the cursor cannot overflow its \<open>int\<close> (\<open>cur_fits\<close>: a positive grain, and the end
  plus a grain for every thread and one more is at most \<open>2 ^ 31\<close>; beyond it the cursor wraps and the claims start again): in every reachable state of the cursor loop either all threads are out of it or one can
  move, and in every reachable state of the split range either the group is at zero or a share can be handed out or a piece can move; and every move uses
  up some of a bounded number of steps.\<close>

theorem parallel_loops_end:
  assumes "cur_fits start end grain threads" "0 < threads" "0 < parts"
    "reach (cur_step end grain) (cur_init start threads) s" "reach (lazy_step start end grain parts) (lazy_init start end parts) z"
  shows "(cur_done s \<or> (\<exists>t. cur_step end grain s t)) \<and> (\<forall>t. cur_step end grain s t \<longrightarrow> steps_left end t < steps_left end s) \<and>
    (lz_count z = 0 \<or> (\<exists>t. lazy_step start end grain parts z t)) \<and>
    (\<forall>t. lazy_step start end grain parts z t \<longrightarrow> pieces_left start end parts t < pieces_left start end parts z)"
proof -
  have c: "cur_safe start end grain threads s" by (rule cursor.reach_inv [OF assms(4) cur_safe_init [OF assms(1)]])
  have z: "lazy_inv start end grain parts z"
    using assms(1) by (intro lazy_split.reach_inv [OF assms(5) lazy_inv_init] assms(3)) (simp_all add: cur_fits_def)
  have "cr_pcs s \<noteq> []" using c assms(2) by (auto simp: cur_safe_def cur_inv_def)
  then show ?thesis using cur_step_possible cur_step_ends [OF c] lazy_step_possible [OF z] lazy_step_ends [OF z] by blast
qed

text \<open>A run of the cursor loop by one thread.\<close>

fun cur_steps :: "int \<Rightarrow> int \<Rightarrow> nat list \<Rightarrow> cur_run \<Rightarrow> cur_run" where
  "cur_steps end grain [] s = s"
| "cur_steps end grain (i # is) s = cur_steps end grain is
    (if i < length (cr_pcs s) then (case cr_pcs s ! i of Fetch \<Rightarrow> cur_fetch end grain i s | Body lo \<Rightarrow> cur_body end grain i lo s | Out \<Rightarrow> s) else s)"

lemma reach_cur_steps: "reach (cur_step end grain) s0 s \<Longrightarrow> reach (cur_step end grain) s0 (cur_steps end grain is s)"
proof (induction "is" arbitrary: s)
  case (Cons i "is")
  show ?case
  proof (cases "i < length (cr_pcs s) \<and> cr_pcs s ! i \<noteq> Out")
    case True
    then show ?thesis using Cons by (cases "cr_pcs s ! i") (auto intro: reach.reach_step cur_step.intros)
  next
    case False
    then show ?thesis using Cons by auto
  qed
qed simp

definition demo_config :: pfor_config where
  "demo_config = \<lparr>pf_serial = False, pf_active = True, pf_workers = 2, pf_measured = False, pf_minIters = 4, pf_leaves = 8, pf_wakeCost = 3000\<rparr>"

definition demo_run :: cur_run where "demo_run = cur_steps 20 16 [0, 1, 0, 1, 0, 1] (cur_init 0 2)"

lemma demo_run_is: "cr_log demo_run = [(0, 16), (16, 20)]" "cur_done demo_run"
  by (simp_all add: demo_run_def cur_init_def cur_fetch_def cur_body_def i32_def cur_done_def numeral_2_eq_2)

lemma demo_plan: "ParallelFor demo_config (\<lambda>_ _. 0) (\<lambda>_. 0) None 0 20 1 Auto = ([], Fan Cursor 0 20 16 2, None)"
  by (simp add: ParallelFor_def demo_config_def i32_def fan_out_def Let_def kMinGrain_def)

lemma demo_finished: "pfor_finished 2 (Fan Cursor 0 20 16 2) [(0, 16), (16, 20)]" "pfor_fits 2 (Fan Cursor 0 20 16 2)"
proof -
  have g: "cursor_grain 2 0 20 16 = 16" "cursor_lanes 2 0 20 16 = 2" by (simp_all add: cursor_grain_def cursor_lanes_def Let_def)
  show "pfor_fits 2 (Fan Cursor 0 20 16 2)" by (simp add: pfor_fits_def g)
  have "reach (cur_step 20 16) (cur_init 0 2) demo_run" unfolding demo_run_def by (rule reach_cur_steps [OF reach.reach_init])
  then show "pfor_finished 2 (Fan Cursor 0 20 16 2) [(0, 16), (16, 20)]"
    unfolding pfor_finished_def using demo_run_is by (auto simp: g intro!: exI [of _ 2] exI [of _ demo_run])
qed

theorem parallel_for_each_index_once_witness: "covered [(0, 16), (16, 20)] = cells (0, 20)"
  using parallel_for_each_index_once [OF _ _ _ demo_plan demo_finished(2,1)] by simp

definition demo_mid :: cur_run where "demo_mid = cur_steps 20 16 [0, 1, 0] (cur_init 0 2)"

definition demo_dealt :: lazy_run where "demo_dealt = lazy_deal 0 20 2 True (lazy_init 0 20 2)"

theorem parallel_loops_end_witness:
  "cr_log demo_mid = [(0, 16)] \<and> (\<exists>t. cur_step 20 16 demo_mid t) \<and> length (lz_pieces demo_dealt) = 2 \<and> (\<exists>t. lazy_step 0 20 16 2 demo_dealt t)"
proof -
  have c: "reach (cur_step 20 16) (cur_init 0 2) demo_mid" unfolding demo_mid_def by (rule reach_cur_steps [OF reach.reach_init])
  have z: "reach (lazy_step 0 20 16 2) (lazy_init 0 20 2) demo_dealt"
    unfolding demo_dealt_def by (rule reach.reach_step [OF reach.reach_init], rule lazy_step.l_deal) (simp add: lazy_init_def)
  have "cr_log demo_mid = [(0, 16)]" "\<not> cur_done demo_mid"
    by (simp_all add: demo_mid_def cur_init_def cur_fetch_def cur_body_def i32_def cur_done_def numeral_2_eq_2)
  moreover have "length (lz_pieces demo_dealt) = 2" "lz_count demo_dealt \<noteq> 0" by (simp_all add: demo_dealt_def lazy_deal_def lazy_init_def Let_def)
  ultimately show ?thesis using parallel_loops_end [OF _ _ _ c z] by (simp add: cur_fits_def)
qed

text \<open>
  Without the room above the end the cursor wraps around: with the grain at the largest \<open>int\<close>, a caller that wants one piece, the
  second thread finds the cursor past the end, and the next fetch of the first finds it below the start.
\<close>

lemma cursor_wraps_and_runs_twice:
  "cr_log (cur_steps 1000 INT_MAX [0, 1, 0, 0, 0, 0] (cur_init 0 2)) = [(0, 1000), (- 2, 1000)]"
  "cursor_grain 8 0 1000 INT_MAX = INT_MAX" "cursor_lanes 8 0 1000 INT_MAX = 1"
  by (simp_all add: cur_init_def cur_fetch_def cur_body_def i32_def numeral_2_eq_2 cursor_grain_def cursor_lanes_def Let_def)

text \<open>A range longer than the largest \<open>int\<close> is not run at all.\<close>

lemma long_range_is_dropped: "ParallelFor c wo clk slot (- 2000000000) 2000000000 grain mode = ([], Nothing, slot)"
  by (simp add: ParallelFor_def i32_def)

section \<open>PushArray\<close>

lemma chunks_concat:
  fixes b e k :: nat
  assumes "b \<le> e" "0 < k"
  shows "concat (map (\<lambda>c. [b + c * k..<min e (b + c * k + k)]) [0..<m]) = [b..<min e (b + m * k)]"
proof (induction m)
  case (Suc m)
  show ?case
  proof (cases "b + m * k \<le> e")
    case True
    then have "[b..<b + m * k] @ [b + m * k..<min e (b + m * k + k)] = [b..<min e (b + m * k + k)]"
      by (metis le_add1 min.boundedI upt_add_eq_append le_Suc_ex le_add_diff_inverse)
    then show ?thesis using Suc True by (simp add: algebra_simps min_absorb2)
  next
    case False
    then show ?thesis using Suc by (simp add: algebra_simps)
  qed
qed (use assms in simp)

lemma ceil_div_covers:
  fixes t k :: nat
  assumes "0 < k"
  shows "t \<le> (t + k - 1) div k * k"
proof -
  have "t + k - 1 < ((t + k - 1) div k + 1) * k" using assms by (metis Suc_eq_plus1 dividend_less_div_times mult.commute mult_Suc_right)
  then show ?thesis by (simp add: algebra_simps)
qed

text \<open>The chunks of \<open>PushArray\<close>, in order, are the range: every index from the first to the last is in exactly one chunk, also when the chunk
  size does not divide the length, and a chunk size of zero counts as one; the end plus the chunk size must fit a \<open>size_t\<close>.\<close>

theorem push_array_covers:
  assumes "unat e + unat (if k = 0 then 1 else k) < 2 ^ 64"
  shows "concat (map (\<lambda>(lo, hi). [unat lo..<unat hi]) (PushArray_chunks b e k)) = [unat b..<unat e]"
proof (cases "e \<le> b")
  case True
  then show ?thesis by (simp add: PushArray_chunks_def word_le_nat_alt)
next
  case False
  define w where "w = (if k = 0 then 1 else k)"
  define kn bn en where "kn = unat w" and "bn = unat b" and "en = unat e"
  have k: "0 < kn" "en + kn < 2 ^ 64" "bn < en" using assms False by (auto simp: w_def kn_def bn_def en_def word_le_nat_alt unat_gt_0)
  have total: "unat (e - b + w - 1) = en - bn + kn - 1"
  proof -
    have "unat (e - b) = en - bn" using k(3) by (simp add: unat_sub word_le_nat_alt bn_def en_def)
    then have "unat (e - b + w) = en - bn + kn" using k by (simp add: unat_word_ariths kn_def)
    moreover have "1 \<le> e - b + w" using calculation k by (simp add: word_le_nat_alt)
    ultimately show ?thesis by (simp add: unat_sub)
  qed
  define m where "m = (en - bn + kn - 1) div kn"
  have m: "unat ((e - b + w - 1) div w) = m" by (simp add: unat_div total m_def flip: kn_def)
  have lo: "unat (b + of_nat c * w) = bn + c * kn" and hi: "unat (if e < b + of_nat c * w + w then e else b + of_nat c * w + w) = min en (bn + c * kn + kn)"
    if "c < m" for c
  proof -
    have "(c + 1) * kn \<le> en - bn + kn - 1"
      using that k(1) unfolding m_def by (metis Suc_eq_plus1 Suc_leI less_eq_div_iff_mult_less_eq)
    then have le: "bn + c * kn < en" "c * kn < 2 ^ 64" using k by (auto simp: algebra_simps)
    have "c < 2 ^ 64" using le(2) k(1) by (metis less_le_trans mult.right_neutral mult_le_mono2 Suc_leI One_nat_def not_less)
    then have "unat (of_nat c * w) = c * kn" using le(2) by (simp add: unat_word_ariths unsigned_of_nat take_bit_nat_eq_self kn_def)
    then show lo: "unat (b + of_nat c * w) = bn + c * kn" using le k by (simp add: unat_word_ariths bn_def)
    have "unat (b + of_nat c * w + w) = bn + c * kn + kn" using lo le k by (simp add: unat_word_ariths kn_def)
    then show "unat (if e < b + of_nat c * w + w then e else b + of_nat c * w + w) = min en (bn + c * kn + kn)"
      by (auto simp: word_less_nat_alt en_def)
  qed
  have "map (\<lambda>(lo, hi). [unat lo..<unat hi]) (PushArray_chunks b e k) = map (\<lambda>c. [bn + c * kn..<min en (bn + c * kn + kn)]) [0..<m]"
    using False lo hi by (simp add: PushArray_chunks_def Let_def m flip: w_def)
  then have "concat (map (\<lambda>(lo, hi). [unat lo..<unat hi]) (PushArray_chunks b e k)) = [bn..<min en (bn + m * kn)]"
    using chunks_concat [of bn en kn m] k by simp
  moreover have "en \<le> bn + m * kn" using ceil_div_covers [OF k(1), of "en - bn"] k(3) by (simp add: m_def)
  ultimately show ?thesis by (simp add: bn_def en_def min_absorb1)
qed

theorem push_array_covers_witness: "concat (map (\<lambda>(lo, hi). [unat lo..<unat hi]) (PushArray_chunks 3 10 4)) = [3..<10]"
  using push_array_covers [of 10 4 3] by simp

text \<open>A chunk size at the top of \<open>size_t\<close>, for one chunk, makes none: the rounding wraps.\<close>

lemma huge_chunk_makes_none: "PushArray_chunks 0 10 (- 1) = []"
  by (simp add: PushArray_chunks_def)

end
