(* ===== verification/FindPasses.thy ===== *)
theory FindPasses
  imports Placements L3Groups
begin

text \<open>
  How a worker looks for its next task (\<open>Thread::Worker\<close>, \<^verbatim>\<open>src/Thread.cpp\<close>), one pass of the loop as a function of the pool and the worker's own
  variables: the injector, the fairness tick, the direct-run inbox, its deque, its inbox, and the steal order over the other deques; and what it does with a task
  before it runs it. What other threads decide is an argument: which flags the pass reads, whether a steal wins its race, which task the injector gives.
\<close>

section \<open>A worker's variables\<close>

record finder =
  fd_task :: "nat option"
  fd_searching :: bool
  fd_stolenOnK :: bool
  fd_yielded :: bool
  fd_fairPass :: u32
  fd_victim :: nat
  fd_sticky :: int
  fd_l3Local :: nat
  fd_l3Remote :: nat
  fd_scanRot :: u32

definition worker_start :: "nat \<Rightarrow> finder" where
  "worker_start q = \<lparr>fd_task = None, fd_searching = False, fd_stolenOnK = False, fd_yielded = False, fd_fairPass = 0, fd_victim = q, fd_sticky = 0,
     fd_l3Local = 0, fd_l3Remote = 0, fd_scanRot = 0\<rparr>"

text \<open>What the pass reads of the others.\<close>

record pass_env =
  pe_flag :: "nat \<Rightarrow> bool"
  pe_wins :: "nat \<Rightarrow> bool"
  pe_pick :: "nat option"
  pe_pinForced :: bool
  pe_now :: int
  pe_cap :: int
  pe_seek :: bool

definition kFairTickEvery :: u32 where "kFairTickEvery = 61"
definition kFatDeque :: nat where "kFatDeque = 32"

section \<open>The hunt\<close>

definition enterHunt :: "nat \<Rightarrow> finder \<Rightarrow> sched \<Rightarrow> finder \<times> sched" where
  "enterHunt q fd s = (if \<not> IsReservedIndex q s \<and> \<not> fd_searching fd then (fd\<lparr>fd_searching := True\<rparr>, s\<lparr>sc_searching := sc_searching s + 1\<rparr>) else (fd, s))"

definition leaveHunt :: "finder \<Rightarrow> sched \<Rightarrow> finder \<times> sched" where
  "leaveHunt fd s = (if \<not> fd_searching fd then (fd, s)
     else let s1 = s\<lparr>sc_searching := sc_searching s - 1\<rparr>; (popped, s2) = pop_idle (sc_idle s1) s1
          in (fd\<lparr>fd_searching := False\<rparr>, if sc_searching s \<noteq> 1 then s1 else (case popped of None \<Rightarrow> s2 | Some q \<Rightarrow> s2\<lparr>sc_woken := sc_woken s2 @ [q]\<rparr>)))"

section \<open>The sources of a pass\<close>

text \<open>Each source is looked at only with empty hands; taking a task ends the pass, which is the same as passing over the sources that follow.\<close>

definition source :: "(finder \<Rightarrow> sched \<Rightarrow> finder \<times> sched) \<Rightarrow> finder \<times> sched \<Rightarrow> finder \<times> sched" where
  "source f r = (if fd_task (fst r) \<noteq> None then r else f (fst r) (snd r))"

definition from_injector :: "pass_env \<Rightarrow> finder \<Rightarrow> sched \<Rightarrow> finder \<times> sched" where
  "from_injector env fd s = (let (t, s1) = TakeInjector (pe_pick env) s in (fd\<lparr>fd_task := t\<rparr>, s1))"

definition drainOwnInbox :: "nat \<Rightarrow> finder \<Rightarrow> sched \<Rightarrow> finder \<times> sched" where
  "drainOwnInbox q fd s =
    (let batch = take 64 (sc_normal s ! q) in
     if IsReservedIndex q s \<or> batch = [] then (fd, s)
     else (fd\<lparr>fd_task := Some (last batch)\<rparr>, (push_own q (butlast batch) s)\<lparr>sc_normal := (sc_normal s)[q := drop 64 (sc_normal s ! q)]\<rparr>))"

definition from_hiPri :: "nat \<Rightarrow> finder \<Rightarrow> sched \<Rightarrow> finder \<times> sched" where
  "from_hiPri q fd s = (case sc_hiPri s ! q of [] \<Rightarrow> (fd, s) | t # ts \<Rightarrow> (fd\<lparr>fd_task := Some t\<rparr>, s\<lparr>sc_hiPri := (sc_hiPri s)[q := ts]\<rparr>))"

definition from_inbox :: "nat \<Rightarrow> finder \<Rightarrow> sched \<Rightarrow> finder \<times> sched" where
  "from_inbox q fd s = (if IsReservedIndex q s then (fd, s)
     else (case sc_normal s ! q of [] \<Rightarrow> (fd, s) | t # ts \<Rightarrow> (fd\<lparr>fd_task := Some t\<rparr>, s\<lparr>sc_normal := (sc_normal s)[q := ts]\<rparr>)))"

definition from_own :: "nat \<Rightarrow> finder \<Rightarrow> sched \<Rightarrow> finder \<times> sched" where
  "from_own q fd s = (if sc_deques s ! q = [] then (fd, s)
     else (fd\<lparr>fd_task := Some (last (sc_deques s ! q))\<rparr>, s\<lparr>sc_deques := (sc_deques s)[q := butlast (sc_deques s ! q)]\<rparr>))"

definition after_yield :: "nat \<Rightarrow> finder \<Rightarrow> sched \<Rightarrow> finder \<times> sched" where
  "after_yield q fd s = (if fd_yielded fd then source (from_own q) (source (from_inbox q) (fd\<lparr>fd_yielded := False\<rparr>, s)) else (fd, s))"

definition fair_tick :: "nat \<Rightarrow> finder \<Rightarrow> sched \<Rightarrow> finder \<times> sched" where
  "fair_tick q fd s = (let fd1 = fd\<lparr>fd_fairPass := fd_fairPass fd + 1\<rparr> in
     if IsReservedIndex q s then (fd, s)
     else if fd_fairPass fd1 mod kFairTickEvery = 0 then source (drainOwnInbox q) (fd1, s) else (fd1, s))"

section \<open>Stealing\<close>

definition tryStealFrom :: "pass_env \<Rightarrow> nat \<Rightarrow> nat \<Rightarrow> finder \<Rightarrow> sched \<Rightarrow> finder \<times> sched" where
  "tryStealFrom env q target fd s =
    (if \<not> pe_flag env target then (fd, s)
     else if IsReservedIndex q s \<and> (pe_pinForced env \<or> \<not> IoLaneQuiet (pe_now env) s) then (fd, s)
     else (case sc_deques s ! target of [] \<Rightarrow> (fd, s)
           | t # ts \<Rightarrow> if \<not> pe_wins env target then (fd, s)
               else (fd\<lparr>fd_task := Some t, fd_stolenOnK := fd_stolenOnK fd \<or> IsReservedIndex q s\<rparr>, s\<lparr>sc_deques := (sc_deques s)[target := ts]\<rparr>)))"

text \<open>The cursor: the loop over the own group stops at the first deque that is not this worker's.\<close>

fun next_local :: "nat \<Rightarrow> nat list \<Rightarrow> nat \<Rightarrow> nat \<Rightarrow> nat" where
  "next_local 0 mine q l = l"
| "next_local (Suc i) mine q l = (let l' = (l + 1) mod length mine in if mine ! l' \<noteq> q then l' else next_local i mine q l')"

definition move_cursor :: "l3_tables \<Rightarrow> nat \<Rightarrow> nat \<Rightarrow> finder \<Rightarrow> finder" where
  "move_cursor tp q nq fd =
    (if 0 < fd_sticky fd then fd
     else if 1 < l3_groups tp then
       let mine = l3_members tp ! (l3_groupOf tp ! q); l = next_local (length mine) mine q (fd_l3Local fd)
       in fd\<lparr>fd_l3Local := l, fd_victim := mine ! l\<rparr>
     else let v = (fd_victim fd + 1) mod nq in fd\<lparr>fd_victim := if v = q then (v + 1) mod nq else v\<rparr>)"

definition cursor_steal :: "pass_env \<Rightarrow> l3_tables \<Rightarrow> nat \<Rightarrow> nat \<Rightarrow> finder \<Rightarrow> sched \<Rightarrow> finder \<times> sched" where
  "cursor_steal env tp q nq fd s =
    (let fd1 = move_cursor tp q nq fd;
         (fd2, s2) = (if fd_victim fd1 \<noteq> q then tryStealFrom env q (fd_victim fd1) fd1 s else (fd1, s))
     in (fd2\<lparr>fd_sticky := if fd_task fd2 \<noteq> None \<and> \<not> IsReservedIndex q s then (if 0 < fd_sticky fd then fd_sticky fd - 1 else pe_cap env - 1) else 0\<rparr>, s2))"

text \<open>The seek: the mask of the flagged deques of the own group, rotated; the first bit of it.\<close>

definition seekable :: "pass_env \<Rightarrow> l3_tables \<Rightarrow> nat \<Rightarrow> nat \<Rightarrow> nat \<Rightarrow> bool" where
  "seekable env tp q victim v \<longleftrightarrow> v \<noteq> q \<and> v \<noteq> victim \<and> (1 < l3_groups tp \<longrightarrow> l3_groupOf tp ! v = l3_groupOf tp ! q) \<and> pe_flag env v"

definition seek_mask :: "pass_env \<Rightarrow> l3_tables \<Rightarrow> nat \<Rightarrow> nat \<Rightarrow> nat \<Rightarrow> u64" where
  "seek_mask env tp q victim nq = foldl (\<lambda>m v. if seekable env tp q victim v then m OR push_bit v 1 else m) 0 [0..<nq]"

definition rotate_mask :: "u64 \<Rightarrow> u32 \<Rightarrow> u64" where
  "rotate_mask m r = (if r = 0 then m else drop_bit (unat r) m OR push_bit (64 - unat r) m)"

definition seek_bit :: "u64 \<Rightarrow> nat option" where
  "seek_bit rot = List.find (bit rot) [0..<64]"

definition seek_steal :: "pass_env \<Rightarrow> l3_tables \<Rightarrow> nat \<Rightarrow> nat \<Rightarrow> finder \<Rightarrow> sched \<Rightarrow> finder \<times> sched" where
  "seek_steal env tp q nq fd s =
    (let mask = seek_mask env tp q (fd_victim fd) nq; r = (fd_scanRot fd + 1 + of_nat q) AND 63 in
     if IsReservedIndex q s \<or> 64 < nq \<or> \<not> pe_seek env \<or> mask = 0 then (fd, s)
     else (case seek_bit (rotate_mask mask r) of None \<Rightarrow> (fd\<lparr>fd_scanRot := r\<rparr>, s)
           | Some b \<Rightarrow> tryStealFrom env q (unat ((of_nat b + r) AND 63)) (fd\<lparr>fd_scanRot := r\<rparr>) s))"

definition sibling_steal :: "pass_env \<Rightarrow> nat \<Rightarrow> nat \<Rightarrow> finder \<Rightarrow> sched \<Rightarrow> finder \<times> sched" where
  "sibling_steal env q nq fd s = (case (if q < length (sc_sibling s) then sc_sibling s ! q else None) of
     None \<Rightarrow> (fd, s)
   | Some sib \<Rightarrow> if \<not> IsReservedIndex q s \<and> sib \<noteq> fd_victim fd \<and> sib \<noteq> q \<and> sib < nq \<and> kFatDeque < length (sc_deques s ! sib) then tryStealFrom env q sib fd s else (fd, s))"

definition remote_steal :: "pass_env \<Rightarrow> l3_tables \<Rightarrow> nat \<Rightarrow> finder \<Rightarrow> sched \<Rightarrow> finder \<times> sched" where
  "remote_steal env tp q fd s =
    (let g = l3_groupOf tp ! q; others = l3_others tp ! g; r = (fd_l3Remote fd + 1) mod length others in
     if l3_groups tp \<le> 1 \<or> list_ex (\<lambda>v. v \<noteq> q \<and> pe_flag env v) (l3_members tp ! g) then (fd, s)
     else tryStealFrom env q (others ! r) (fd\<lparr>fd_l3Remote := r\<rparr>) s)"

definition scan_deques :: "pass_env \<Rightarrow> l3_tables \<Rightarrow> nat \<Rightarrow> finder \<Rightarrow> sched \<Rightarrow> finder \<times> sched" where
  "scan_deques env tp q fd s =
    (let nq = length (sc_deques s) in
     if \<not> fd_searching fd \<and> \<not> IsReservedIndex q s \<or> nq \<le> 1 then (fd, s)
     else source (remote_steal env tp q) (source (sibling_steal env q nq) (source (seek_steal env tp q nq) (cursor_steal env tp q nq fd s))))"

section \<open>A pass\<close>

definition find_task :: "pass_env \<Rightarrow> l3_tables \<Rightarrow> nat \<Rightarrow> finder \<Rightarrow> sched \<Rightarrow> finder \<times> sched" where
  "find_task env tp q fd s =
    (let r0 = enterHunt q fd s;
         r1 = (if IsReservedIndex q s then source (from_injector env) r0 else r0);
         r2 = source (fair_tick q) r1;
         r3 = source (from_hiPri q) r2;
         r4 = (if IsReservedIndex q s then r3 else source (from_injector env) r3);
         r5 = source (after_yield q) r4;
         r6 = source (from_own q) r5;
         r7 = source (drainOwnInbox q) r6;
         r8 = source (scan_deques env tp q) r7
     in source (drainOwnInbox q) r8)"

datatype pass_result = Took nat | Rescan | NothingFound

definition find_pass :: "pass_env \<Rightarrow> l3_tables \<Rightarrow> nat \<Rightarrow> finder \<Rightarrow> sched \<Rightarrow> pass_result \<times> finder \<times> sched" where
  "find_pass env tp q fd s =
    (let (fd1, s1) = find_task env tp q fd s in
     case fd_task fd1 of Some t \<Rightarrow> (Took t, fd1, s1)
     | None \<Rightarrow> if sc_marked s1 ! q then (Rescan, fd1, s1\<lparr>sc_marked := (sc_marked s1)[q := False]\<rparr>) else (NothingFound, fd1, s1))"

section \<open>Before it runs\<close>

text \<open>The task is dropped if it was cancelled before it began; a reserved worker gives a stolen task back if I/O came in meanwhile; a new
  fiber task with no fiber to be had is queued again. \<open>cancelled\<close>: \<open>IsTaskCancelled\<close>. \<open>hasFiber\<close>: a fiber from before, or one acquired.\<close>

datatype dispatch_result = Dropped nat | GivenBack | RunCoroutine nat | RunNative nat | NoFiber | RunFiber nat

definition dispatch :: "pass_env \<Rightarrow> nat \<Rightarrow> bool \<Rightarrow> bool \<Rightarrow> bool \<Rightarrow> nat \<Rightarrow> finder \<Rightarrow> sched \<Rightarrow> dispatch_result \<times> finder \<times> sched" where
  "dispatch env q cancelled hasFiber ok t fd s =
    (let (fd0, s0) = leaveHunt fd s;
         fd1 = fd0\<lparr>fd_stolenOnK := False, fd_task := None\<rparr>;
         s1 = s0\<lparr>sc_task := (sc_task s0)(t := (sc_task s0 t)\<lparr>tk_started := True\<rparr>)\<rparr>
     in if \<not> tk_started (sc_task s t) \<and> cancelled then (Dropped t, fd1, s0)
        else if fd_stolenOnK fd \<and> (\<not> IoLaneQuiet (pe_now env) s0 \<or> \<not> InjectorIdle s0 \<or> sc_hiPri s0 ! q \<noteq> [])
        then (GivenBack, fd1, snd (Requeue t (Some q) ok (pe_now env) s0))
        else (case tk_type (sc_task s t) of
                TCoroutine \<Rightarrow> (RunCoroutine t, fd1, s1)
              | TNative \<Rightarrow> (RunNative t, fd1, s1)
              | TFiber \<Rightarrow> if hasFiber then (RunFiber t, fd1, s1)
                  else (NoFiber, fd1, if isMain q s then PushMainQueue t s1 else snd (Requeue t (Some q) ok (pe_now env) s1))))"


section \<open>What a source keeps\<close>

definition held :: "finder \<Rightarrow> nat multiset" where
  "held fd = (case fd_task fd of None \<Rightarrow> {#} | Some t \<Rightarrow> {#t#})"

definition pool_ok :: "nat \<Rightarrow> nat \<Rightarrow> sched \<Rightarrow> bool" where
  "pool_ok q nq s \<longleftrightarrow> sc_wf s \<and> q < sc_workers s \<and> length (sc_deques s) = nq"

definition kept :: "nat \<Rightarrow> nat \<Rightarrow> sched \<Rightarrow> finder \<times> sched \<Rightarrow> bool" where
  "kept q nq s r \<longleftrightarrow> sc_wf (snd r) \<and> same_shape s (snd r) \<and> length (sc_deques (snd r)) = nq \<and> queued s = queued (snd r) + held (fst r) \<and> fd_victim (fst r) < nq \<and>
    (IsReservedIndex q s \<longrightarrow> sc_normal (snd r) = sc_normal s)"

lemma shape_reserved: "same_shape s s' \<Longrightarrow> IsReservedIndex q s' = IsReservedIndex q s"
  by (simp add: same_shape_def IsReservedIndex_def ReservedBase_def)

lemma kept_pool: "pool_ok q nq s \<Longrightarrow> kept q nq s r \<Longrightarrow> pool_ok q nq (snd r)"
  by (simp add: pool_ok_def kept_def same_shape_def)

lemma kept_refl: "pool_ok q nq s \<Longrightarrow> fd_task fd = None \<Longrightarrow> fd_victim fd < nq \<Longrightarrow> kept q nq s (fd, s)"
  by (simp add: kept_def pool_ok_def held_def)

lemma kept_trans: "kept q nq s r \<Longrightarrow> fd_task (fst r) = None \<Longrightarrow> kept q nq (snd r) r' \<Longrightarrow> kept q nq s r'"
  using shape_reserved [of s "snd r" q] by (auto simp: kept_def held_def intro: shape_trans)

locale find_source =
  fixes f :: "finder \<Rightarrow> sched \<Rightarrow> finder \<times> sched" and q nq :: nat
  assumes keeps: "pool_ok q nq s \<Longrightarrow> fd_task fd = None \<Longrightarrow> fd_victim fd < nq \<Longrightarrow> kept q nq s (f fd s)"
    and miss: "fd_task fd = None \<Longrightarrow> fd_task (fst (f fd s)) = None \<Longrightarrow> snd (f fd s) = s"
begin

lemma after: "pool_ok q nq s \<Longrightarrow> kept q nq s r \<Longrightarrow> kept q nq s (source f r)"
proof (cases "fd_task (fst r) = None")
  case True
  assume a: "pool_ok q nq s" "kept q nq s r"
  have "fd_victim (fst r) < nq" using a(2) by (simp add: kept_def)
  then have "kept q nq (snd r) (f (fst r) (snd r))" using kept_pool [OF a] True by (intro keeps)
  then show ?thesis using kept_trans [OF a(2) True] True by (simp add: source_def)
qed (simp add: source_def)

text \<open>A source that gives nothing changes nothing.\<close>

lemma missed: "fd_task (fst (source f r)) = None \<Longrightarrow> fd_task (fst r) = None \<and> snd (source f r) = snd r \<and> fd_task (fst (f (fst r) (snd r))) = None"
  using miss [of "fst r" "snd r"] by (simp add: source_def split: if_splits)

end

lemma sum_mset_take: "i < length xss \<Longrightarrow> sum_list (map mset xss) + mset ys = sum_list (map mset (xss[i := ys])) + mset (xss ! i)"
  using sum_pcs_update [of i xss mset ys] by (simp add: ac_simps)

lemma wf_queues:
  "sc_wf (s\<lparr>sc_hiPri := (sc_hiPri s)[i := xs]\<rparr>) = sc_wf s" "sc_wf (s\<lparr>sc_deques := (sc_deques s)[i := xs]\<rparr>) = sc_wf s"
  "\<not> IsReservedIndex q s \<Longrightarrow> sc_wf s \<Longrightarrow> sc_wf (s\<lparr>sc_normal := (sc_normal s)[q := xs]\<rparr>)"
  by (auto simp: sc_wf_def ReservedBase_def IsReservedIndex_def nth_list_update)

lemma shape_queues: "same_shape s (s\<lparr>sc_hiPri := a\<rparr>)" "same_shape s (s\<lparr>sc_deques := a\<rparr>)" "same_shape s (s\<lparr>sc_normal := a\<rparr>)"
  by (simp_all add: same_shape_def)

text \<open>Taking a task out of one queue.\<close>

lemma kept_hiPri:
  assumes "pool_ok q nq s" "sc_hiPri s ! q = t # ts" "fd_victim fd < nq" "fd_task fd = Some t"
  shows "kept q nq s (fd, s\<lparr>sc_hiPri := (sc_hiPri s)[q := ts]\<rparr>)"
proof -
  have "q < length (sc_hiPri s)" using assms(1) wf_lens(2) by (simp add: pool_ok_def)
  from sum_mset_take [OF this, of ts] show ?thesis using assms by (simp add: kept_def pool_ok_def wf_queues shape_queues queued_def held_def)
qed

lemma kept_deque:
  assumes "pool_ok q nq s" "i < nq" "mset (sc_deques s ! i) = add_mset t (mset ts)" "fd_victim fd < nq" "fd_task fd = Some t"
  shows "kept q nq s (fd, s\<lparr>sc_deques := (sc_deques s)[i := ts]\<rparr>)"
proof -
  have "i < length (sc_deques s)" using assms(1,2) by (simp add: pool_ok_def)
  from sum_mset_take [OF this, of ts] show ?thesis using assms by (simp add: kept_def pool_ok_def wf_queues shape_queues queued_def held_def)
qed

lemma kept_inbox:
  assumes "pool_ok q nq s" "\<not> IsReservedIndex q s" "sc_normal s ! q = xs @ t # ts" "fd_victim fd < nq" "fd_task fd = Some t"
  shows "kept q nq s (fd, (push_own q xs s)\<lparr>sc_normal := (sc_normal s)[q := ts]\<rparr>)"
proof -
  have q: "q < length (sc_normal s)" "q < length (sc_deques s)" using assms(1) wf_lens(1,3) [of s] by (auto simp: pool_ok_def)
  have "sc_wf ((push_own q xs s)\<lparr>sc_normal := (sc_normal (push_own q xs s))[q := ts]\<rparr>)"
  proof (rule wf_queues(3))
    show "sc_wf (push_own q xs s)" using assms(1) by (simp add: wf_push pool_ok_def)
    show "\<not> IsReservedIndex q (push_own q xs s)" using assms(2) shape_reserved [of s "push_own q xs s" q] by simp
  qed
  then have "sc_wf ((push_own q xs s)\<lparr>sc_normal := (sc_normal s)[q := ts]\<rparr>)" by (simp add: push_own_def)
  then show ?thesis using sum_mset_take [OF q(1), of ts] assms q
    by (simp add: kept_def pool_ok_def same_shape_def queued_def held_def push_own_def sum_mset_append ac_simps)
qed

interpretation injector: find_source "from_injector env" q nq for env q nq
proof unfold_locales
  fix s :: sched and fd :: finder
  assume ok: "pool_ok q nq s" and fd: "fd_task fd = None" "fd_victim fd < nq"
  obtain t s1 where t: "TakeInjector (pe_pick env) s = (t, s1)" by fastforce
  have "length (sc_deques s1) = length (sc_deques s)" "sc_normal s1 = sc_normal s" using t by (auto simp: TakeInjector_def split: if_splits option.splits)
  then show "kept q nq s (from_injector env fd s)" using TakeInjector_keeps [OF _ t] ok fd t
    by (auto simp: from_injector_def kept_def pool_ok_def held_def split: option.split)
next
  fix fd :: finder and s :: sched
  obtain t s1 where t: "TakeInjector (pe_pick env) s = (t, s1)" by fastforce
  assume "fd_task (fst (from_injector env fd s)) = None"
  then have "t = None" by (simp add: from_injector_def t)
  then have "s1 = s" using t by (simp add: TakeInjector_def split: if_splits option.splits)
  then show "snd (from_injector env fd s) = s" by (simp add: from_injector_def t)
qed

interpretation hiPri: find_source "from_hiPri q" q nq for q nq
  by unfold_locales (auto simp: from_hiPri_def kept_refl intro!: kept_hiPri split: list.splits)

interpretation own: find_source "from_own q" q nq for q nq
proof unfold_locales
  fix s :: sched and fd :: finder
  assume ok: "pool_ok q nq s" and fd: "fd_task fd = None" "fd_victim fd < nq"
  have "q < nq" using ok wf_lens(3) [of s] by (auto simp: pool_ok_def)
  moreover have "mset (sc_deques s ! q) = add_mset (last (sc_deques s ! q)) (mset (butlast (sc_deques s ! q)))" if "sc_deques s ! q \<noteq> []"
    using that by (metis append_butlast_last_id mset_append mset.simps(1) mset.simps(2) union_mset_add_mset_right add.right_neutral)
  ultimately show "kept q nq s (from_own q fd s)" using ok fd kept_refl [OF ok fd] by (auto simp: from_own_def intro!: kept_deque)
next
  fix fd :: finder and s :: sched
  assume "fd_task fd = None" "fd_task (fst (from_own q fd s)) = None"
  then show "snd (from_own q fd s) = s" by (auto simp: from_own_def split: if_splits)
qed

lemma push_own_nil: "q < length (sc_deques s) \<Longrightarrow> push_own q [] s = s"
  by (simp add: push_own_def)

interpretation inbox: find_source "from_inbox q" q nq for q nq
proof unfold_locales
  fix s :: sched and fd :: finder
  assume ok: "pool_ok q nq s" and fd: "fd_task fd = None" "fd_victim fd < nq"
  have q: "q < length (sc_deques s)" using ok wf_lens(3) [of s] by (auto simp: pool_ok_def)
  have "kept q nq s (fd\<lparr>fd_task := Some t\<rparr>, s\<lparr>sc_normal := (sc_normal s)[q := ts]\<rparr>)" if "\<not> IsReservedIndex q s" "sc_normal s ! q = t # ts" for t ts
    using kept_inbox [OF ok that(1), of "[]" t ts "fd\<lparr>fd_task := Some t\<rparr>"] that fd by (simp add: push_own_nil [OF q])
  then show "kept q nq s (from_inbox q fd s)" using kept_refl [OF ok fd] by (auto simp: from_inbox_def split: list.split)
next
  fix fd :: finder and s :: sched
  assume "fd_task fd = None" "fd_task (fst (from_inbox q fd s)) = None"
  then show "snd (from_inbox q fd s) = s" by (auto simp: from_inbox_def split: if_splits list.splits)
qed

interpretation drain: find_source "drainOwnInbox q" q nq for q nq
proof unfold_locales
  fix s :: sched and fd :: finder
  assume ok: "pool_ok q nq s" and fd: "fd_task fd = None" "fd_victim fd < nq"
  let ?b = "take 64 (sc_normal s ! q)"
  have "sc_normal s ! q = butlast ?b @ last ?b # drop 64 (sc_normal s ! q)" if "?b \<noteq> []"
    using append_butlast_last_id [OF that] append_take_drop_id [of 64 "sc_normal s ! q"] by (metis append.assoc append_Cons append_Nil)
  then show "kept q nq s (drainOwnInbox q fd s)" using kept_refl [OF ok fd] fd
    by (auto simp: drainOwnInbox_def Let_def intro!: kept_inbox [OF ok])
next
  fix fd :: finder and s :: sched
  assume "fd_task fd = None" "fd_task (fst (drainOwnInbox q fd s)) = None"
  then show "snd (drainOwnInbox q fd s) = s" by (auto simp: drainOwnInbox_def Let_def split: if_splits)
qed

interpretation yielded: find_source "after_yield q" q nq for q nq
proof unfold_locales
  fix s :: sched and fd :: finder
  assume ok: "pool_ok q nq s" and fd: "fd_task fd = None" "fd_victim fd < nq"
  have "kept q nq s (fd\<lparr>fd_yielded := False\<rparr>, s)" using kept_refl [OF ok] fd by simp
  then show "kept q nq s (after_yield q fd s)" using own.after [OF ok inbox.after [OF ok]] kept_refl [OF ok fd] by (auto simp: after_yield_def)
next
  fix fd :: finder and s :: sched
  assume "fd_task fd = None" "fd_task (fst (after_yield q fd s)) = None"
  then show "snd (after_yield q fd s) = s" using own.missed [of q "source (from_inbox q) (fd\<lparr>fd_yielded := False\<rparr>, s)"] inbox.missed [of q "(fd\<lparr>fd_yielded := False\<rparr>, s)"]
    by (auto simp: after_yield_def split: if_splits)
qed

interpretation tick: find_source "fair_tick q" q nq for q nq
proof unfold_locales
  fix s :: sched and fd :: finder
  assume ok: "pool_ok q nq s" and fd: "fd_task fd = None" "fd_victim fd < nq"
  have "kept q nq s (fd\<lparr>fd_fairPass := fd_fairPass fd + 1\<rparr>, s)" using kept_refl [OF ok] fd by simp
  then show "kept q nq s (fair_tick q fd s)" using drain.after [OF ok] kept_refl [OF ok fd] by (auto simp: fair_tick_def Let_def)
next
  fix fd :: finder and s :: sched
  assume "fd_task fd = None" "fd_task (fst (fair_tick q fd s)) = None"
  then show "snd (fair_tick q fd s) = s" using drain.missed [of q "(fd\<lparr>fd_fairPass := fd_fairPass fd + 1\<rparr>, s)"] by (auto simp: fair_tick_def Let_def split: if_splits)
qed


section \<open>Stealing\<close>

lemma steal_keeps:
  assumes "pool_ok q nq s" "fd_task fd = None" "fd_victim fd < nq" "target < nq"
  shows "kept q nq s (tryStealFrom env q target fd s)"
  using assms by (auto simp: tryStealFrom_def kept_refl intro!: kept_deque split: list.split)

lemma steal_frame: "fd_victim (fst (tryStealFrom env q target fd s)) = fd_victim fd"
  by (simp add: tryStealFrom_def split: list.split)

lemma steal_miss: "fd_task fd = None \<Longrightarrow> fd_task (fst (tryStealFrom env q target fd s)) = None \<Longrightarrow> snd (tryStealFrom env q target fd s) = s"
  by (auto simp: tryStealFrom_def split: if_splits list.splits)

lemma kept_sticky: "kept q nq s (fd\<lparr>fd_sticky := i\<rparr>, s') = kept q nq s (fd, s')"
  by (simp add: kept_def held_def)

text \<open>The rotation, and the bit that is found in it.\<close>

lemma rotate_bit:
  assumes "unat r < 64" "b < 64"
  shows "bit (rotate_mask m r) b \<longleftrightarrow> bit m ((b + unat r) mod 64)"
proof (cases "r = 0")
  case True
  then show ?thesis using assms by (simp add: rotate_mask_def)
next
  case False
  then have r: "0 < unat r" by (simp add: unat_gt_0)
  have out: "\<not> bit m k" if "64 \<le> k" for k using that bit_imp_le_length [of m k] by auto
  show ?thesis
  proof (cases "b + unat r < 64")
    case True
    then have "(b + unat r) mod 64 = b + unat r" by simp
    moreover have "\<not> (64 - unat r \<le> b)" using True by linarith
    ultimately show ?thesis using False assms by (simp add: rotate_mask_def bit_or_iff bit_drop_bit_eq bit_push_bit_iff add.commute)
  next
    case b: False
    then have "(b + unat r) mod 64 = b - (64 - unat r)" using assms r by (simp add: mod_if)
    moreover have "64 - unat r \<le> b" using b by linarith
    moreover have "\<not> bit m (unat r + b)" by (rule out) (use b in linarith)
    ultimately show ?thesis using False assms by (simp add: rotate_mask_def bit_or_iff bit_drop_bit_eq bit_push_bit_iff)
  qed
qed

lemma seek_mask_bit: "nq \<le> 64 \<Longrightarrow> bit (seek_mask env tp q victim nq) v \<longleftrightarrow> v < nq \<and> seekable env tp q victim v"
proof (induction nq)
  case 0
  then show ?case by (simp add: seek_mask_def)
next
  case (Suc n)
  have step: "seek_mask env tp q victim (Suc n) = (if seekable env tp q victim n then seek_mask env tp q victim n OR push_bit n 1 else seek_mask env tp q victim n)"
    by (simp add: seek_mask_def)
  have "bit (push_bit n 1 :: u64) v \<longleftrightarrow> v = n" using Suc.prems by (simp add: bit_push_bit_iff bit_1_iff del: push_bit_of_1) linarith
  then show ?case using Suc by (auto simp: step bit_or_iff less_Suc_eq)
qed

lemma and_63: "unat ((w::u32) AND 63) = unat w mod 64"
proof -
  have "w AND 63 = take_bit 6 w" by (simp add: take_bit_eq_mask mask_eq_exp_minus_1)
  then have "unat (w AND 63) = take_bit 6 (unat w)" by (simp only: unsigned_take_bit_eq)
  then show ?thesis by (simp add: take_bit_eq_mod)
qed

text \<open>The seek finds a bit whenever the mask has one, and it stands for a deque that is worth a look.\<close>

lemma seek_finds:
  assumes "nq \<le> 64" "seek_mask env tp q victim nq \<noteq> 0"
  shows "\<exists>b. seek_bit (rotate_mask (seek_mask env tp q victim nq) (w AND 63)) = Some b \<and>
    unat ((of_nat b + (w AND 63)) AND 63) < nq \<and> seekable env tp q victim (unat ((of_nat b + (w AND 63)) AND 63))"
proof -
  let ?m = "seek_mask env tp q victim nq" and ?r = "w AND 63"
  have r: "unat ?r < 64" by (simp add: and_63)
  obtain v where v: "bit ?m v" using assms(2) by (metis bit_eqI bit_0_eq bot_apply bot_bool_def)
  then have v64: "v < 64" using bit_imp_le_length by fastforce
  define b0 where "b0 = (v + 64 - unat ?r) mod 64"
  have "(b0 + unat ?r) mod 64 = (v + 64 - unat ?r + unat ?r) mod 64" unfolding b0_def by (rule mod_add_left_eq)
  also have "\<dots> = v" using r v64 by simp
  finally have b0: "bit (rotate_mask ?m ?r) b0" using rotate_bit [OF r, of b0 ?m] v by (simp add: b0_def)
  have "b0 < 64" by (simp add: b0_def)
  then have "List.find (bit (rotate_mask ?m ?r)) [0..<64] \<noteq> None" using b0 by (auto simp: find_None_iff)
  then obtain b where b: "seek_bit (rotate_mask ?m ?r) = Some b" by (auto simp: seek_bit_def)
  then have b64: "b < 64" "bit (rotate_mask ?m ?r) b" by (auto simp: seek_bit_def find_Some_iff)
  have "unat (of_nat b + ?r) = b + unat ?r" using b64(1) r by (simp add: unat_word_ariths unsigned_of_nat take_bit_nat_eq_self)
  then have "unat ((of_nat b + ?r) AND 63) = (b + unat ?r) mod 64" by (simp add: and_63)
  then show ?thesis using b rotate_bit [OF r b64(1), of ?m] b64(2) seek_mask_bit [OF assms(1)] by auto
qed

lemma next_local_less: "mine \<noteq> [] \<Longrightarrow> 0 < i \<or> l < length mine \<Longrightarrow> next_local i mine q l < length mine"
  by (induction i mine q l rule: next_local.induct) (auto simp: Let_def)

interpretation sibling: find_source "sibling_steal env q nq" q nq for env q nq
  by unfold_locales (auto simp: sibling_steal_def steal_keeps kept_refl steal_miss split: option.splits if_splits)

interpretation seek: find_source "seek_steal env tp q nq" q nq for env tp q nq
proof unfold_locales
  fix s :: sched and fd :: finder
  assume ok: "pool_ok q nq s" and fd: "fd_task fd = None" "fd_victim fd < nq"
  show "kept q nq s (seek_steal env tp q nq fd s)"
  proof (cases "IsReservedIndex q s \<or> 64 < nq \<or> \<not> pe_seek env \<or> seek_mask env tp q (fd_victim fd) nq = 0")
    case True
    then show ?thesis using kept_refl [OF ok fd] by (simp add: seek_steal_def)
  next
    case False
    then obtain b where "seek_bit (rotate_mask (seek_mask env tp q (fd_victim fd) nq) ((fd_scanRot fd + 1 + of_nat q) AND 63)) = Some b"
      "unat ((of_nat b + ((fd_scanRot fd + 1 + of_nat q) AND 63)) AND 63) < nq" using seek_finds [of nq env tp q "fd_victim fd" "fd_scanRot fd + 1 + of_nat q"] by auto
    then show ?thesis using False fd by (simp add: seek_steal_def Let_def steal_keeps [OF ok])
  qed
next
  fix fd :: finder and s :: sched
  assume "fd_task fd = None" "fd_task (fst (seek_steal env tp q nq fd s)) = None"
  then show "snd (seek_steal env tp q nq fd s) = s" by (auto simp: seek_steal_def Let_def steal_miss split: if_splits option.splits)
qed

context l3_table
begin

lemma own_group:
  assumes "q < n"
  shows "l3_members tp ! (l3_groupOf tp ! q) \<noteq> []" "i < length (l3_members tp ! (l3_groupOf tp ! q)) \<Longrightarrow> l3_members tp ! (l3_groupOf tp ! q) ! i < n"
proof -
  note g = groupOf_less [OF assms]
  show "l3_members tp ! (l3_groupOf tp ! q) \<noteq> []" using member_iff [OF g, of q] assms by auto
  show "l3_members tp ! (l3_groupOf tp ! q) ! i < n" if "i < length (l3_members tp ! (l3_groupOf tp ! q))" using that member_iff [OF g] nth_mem by blast
qed

lemma cursor_in_range: "q < n \<Longrightarrow> 1 < n \<Longrightarrow> fd_victim fd < n \<Longrightarrow> fd_victim (move_cursor tp q n fd) < n"
  using own_group [of q] next_local_less by (auto simp: move_cursor_def Let_def)

lemma remote_in_range:
  assumes "q < n" "1 < l3_groups tp"
  shows "l3_others tp ! (l3_groupOf tp ! q) ! ((r + 1) mod length (l3_others tp ! (l3_groupOf tp ! q))) < n"
proof -
  let ?o = "l3_others tp ! (l3_groupOf tp ! q)"
  note g = groupOf_less [OF assms(1)]
  have "?o ! ((r + 1) mod length ?o) \<in> set ?o" using others_nonempty [OF g assms(2)] by (intro nth_mem) simp
  then show ?thesis by (simp add: others [OF g])
qed

sublocale remote: find_source "remote_steal env tp q" q n for env q
proof unfold_locales
  fix s :: sched and fd :: finder
  assume ok: "pool_ok q n s" and fd: "fd_task fd = None" "fd_victim fd < n"
  have q: "q < n" using ok wf_lens(3) [of s] by (auto simp: pool_ok_def)
  show "kept q n s (remote_steal env tp q fd s)" using kept_refl [OF ok fd] fd remote_in_range [OF q]
    by (auto simp: remote_steal_def Let_def intro!: steal_keeps [OF ok])
next
  fix fd :: finder and s :: sched
  assume "fd_task fd = None" "fd_task (fst (remote_steal env tp q fd s)) = None"
  then show "snd (remote_steal env tp q fd s) = s" by (auto simp: remote_steal_def Let_def steal_miss split: if_splits)
qed

sublocale scan: find_source "scan_deques env tp q" q n for env q
proof unfold_locales
  fix s :: sched and fd :: finder
  assume ok: "pool_ok q n s" and fd: "fd_task fd = None" "fd_victim fd < n"
  have q: "q < n" and len: "length (sc_deques s) = n" using ok wf_lens(3) [of s] by (auto simp: pool_ok_def)
  define fd1 where "fd1 = move_cursor tp q n fd"
  have t1: "fd_task fd1 = None" using fd by (simp add: fd1_def move_cursor_def Let_def)
  have v1: "fd_victim fd1 < n" if "1 < n" using cursor_in_range [OF q that fd(2)] by (simp add: fd1_def)
  have "kept q n s (cursor_steal env tp q n fd s)" if "1 < n"
    using kept_refl [OF ok t1 v1] steal_keeps [OF ok t1 v1 v1, of env] that by (auto simp: cursor_steal_def Let_def fd1_def [symmetric] kept_sticky split: prod.split)
  then show "kept q n s (scan_deques env tp q fd s)" using kept_refl [OF ok fd]
    by (auto simp: scan_deques_def Let_def len intro!: remote.after [OF ok] sibling.after [OF ok] seek.after [OF ok])
next
  fix fd :: finder and s :: sched
  assume a: "fd_task fd = None" "fd_task (fst (scan_deques env tp q fd s)) = None"
  let ?n = "length (sc_deques s)" and ?fd1 = "move_cursor tp q (length (sc_deques s)) fd"
  have t1: "fd_task ?fd1 = None" using a(1) by (simp add: move_cursor_def Let_def)
  have c: "snd (cursor_steal env tp q ?n fd s) = s" if "fd_task (fst (cursor_steal env tp q ?n fd s)) = None"
    using that steal_miss [OF t1, of env q "fd_victim ?fd1" s] by (auto simp: cursor_steal_def Let_def split: prod.splits if_splits)
  let ?r1 = "source (seek_steal env tp q ?n) (cursor_steal env tp q ?n fd s)" let ?r2 = "source (sibling_steal env q ?n) ?r1"
  show "snd (scan_deques env tp q fd s) = s"
  proof (cases "\<not> fd_searching fd \<and> \<not> IsReservedIndex q s \<or> ?n \<le> 1")
    case True
    then have "scan_deques env tp q fd s = (fd, s)" unfolding scan_deques_def Let_def by (rule if_P)
    then show ?thesis by simp
  next
    case False
    then have eq: "scan_deques env tp q fd s = source (remote_steal env tp q) ?r2" unfolding scan_deques_def Let_def by (rule if_not_P)
    have m3: "fd_task (fst ?r2) = None" "snd (scan_deques env tp q fd s) = snd ?r2" using remote.missed [of env q ?r2] a(2) by (simp_all add: eq)
    have m2: "fd_task (fst ?r1) = None" "snd ?r2 = snd ?r1" using sibling.missed [OF m3(1)] by simp_all
    show ?thesis using c seek.missed [OF m2(1)] m3(2) m2(2) by simp
  qed
qed

lemma find_task_kept:
  assumes "pool_ok q n s" "fd_task fd = None" "fd_victim fd < n"
  shows "kept q n s (find_task env tp q fd s)"
proof -
  have "sc_wf (s\<lparr>sc_searching := sc_searching s + 1\<rparr>)" if "sc_wf s" by (rule wf_frame [OF that]) simp_all
  then have h: "kept q n s (enterHunt q fd s)" using assms by (auto simp: enterHunt_def kept_def pool_ok_def held_def same_shape_def queued_def)
  show ?thesis unfolding find_task_def Let_def using h
    by (auto intro!: drain.after [OF assms(1)] scan.after [OF assms(1)] own.after [OF assms(1)] yielded.after [OF assms(1)] hiPri.after [OF assms(1)] tick.after [OF assms(1)] injector.after [OF assms(1)])
qed

text \<open>A pass that comes back with nothing has seen every queue of its own empty.\<close>

lemma find_task_missed:
  assumes "fd_task fd = None" "find_task env tp q fd s = (fd', s')" "fd_task fd' = None"
  shows "s' = snd (enterHunt q fd s) \<and> sc_hiPri s' ! q = [] \<and> sc_deques s' ! q = [] \<and> (\<not> IsReservedIndex q s' \<longrightarrow> sc_normal s' ! q = [])"
proof -
  let ?r0 = "enterHunt q fd s"
  define r1 where "r1 = (if IsReservedIndex q s then source (from_injector env) ?r0 else ?r0)"
  define r2 where "r2 = source (fair_tick q) r1"
  define r3 where "r3 = source (from_hiPri q) r2"
  define r4 where "r4 = (if IsReservedIndex q s then r3 else source (from_injector env) r3)"
  define r5 where "r5 = source (after_yield q) r4"
  define r6 where "r6 = source (from_own q) r5"
  define r7 where "r7 = source (drainOwnInbox q) r6"
  define r8 where "r8 = source (scan_deques env tp q) r7"
  have "(fd', s') = source (drainOwnInbox q) r8"
    using assms(2) unfolding find_task_def Let_def r1_def [symmetric] r2_def [symmetric] r3_def [symmetric] r4_def [symmetric] r5_def [symmetric] r6_def [symmetric] r7_def [symmetric] r8_def [symmetric] by simp
  then have m8: "fd_task (fst r8) = None" "s' = snd r8" using drain.missed [of q r8] assms(3) by (metis fst_conv snd_conv)+
  have m7: "fd_task (fst r7) = None" "snd r8 = snd r7" using scan.missed [of env q r7] m8(1) unfolding r8_def by simp_all
  have m6: "fd_task (fst r6) = None" "snd r7 = snd r6" and d: "fd_task (fst (drainOwnInbox q (fst r6) (snd r6))) = None" using drain.missed [of q r6] m7(1) unfolding r7_def by simp_all
  have m5: "fd_task (fst r5) = None" "snd r6 = snd r5" and o: "fd_task (fst (from_own q (fst r5) (snd r5))) = None" using own.missed [of q r5] m6(1) unfolding r6_def by simp_all
  have m4: "fd_task (fst r4) = None" "snd r5 = snd r4" using yielded.missed [of q r4] m5(1) unfolding r5_def by simp_all
  have m3: "fd_task (fst r3) = None" "snd r4 = snd r3" using injector.missed [of env r3] m4(1) unfolding r4_def by (simp_all split: if_splits)
  have m2: "fd_task (fst r2) = None" "snd r3 = snd r2" and h: "fd_task (fst (from_hiPri q (fst r2) (snd r2))) = None" using hiPri.missed [of q r2] m3(1) unfolding r3_def by simp_all
  have m1: "fd_task (fst r1) = None" "snd r2 = snd r1" using tick.missed [of q r1] m2(1) unfolding r2_def by simp_all
  have m0: "snd r1 = snd ?r0" using injector.missed [of env ?r0] m1(1) unfolding r1_def by (simp split: if_splits)
  have e: "snd r6 = s'" "snd r5 = s'" "snd r2 = s'" using m8 m7 m6 m5 m4 m3 m2 by simp_all
  have "sc_hiPri s' ! q = []" using h unfolding e by (simp add: from_hiPri_def split: list.splits)
  moreover have "sc_deques s' ! q = []" using o unfolding e by (simp add: from_own_def split: if_splits)
  moreover have "\<not> IsReservedIndex q s' \<longrightarrow> sc_normal s' ! q = []" using d unfolding e by (auto simp: drainOwnInbox_def Let_def split: if_splits)
  ultimately show ?thesis using m0 m1(2) e(3) by simp
qed

lemma find_pass_kept:
  assumes "pool_ok q n s" "fd_task fd = None" "fd_victim fd < n" "find_pass env tp q fd s = (res, fd', s')"
  shows "pool_ok q n s' \<and> fd_victim fd' < n \<and> queued s = queued s' + (case res of Took t \<Rightarrow> {#t#} | _ \<Rightarrow> {#}) \<and> fd_task fd' = (case res of Took t \<Rightarrow> Some t | _ \<Rightarrow> None) \<and>
    (IsReservedIndex q s \<longrightarrow> sc_normal s' = sc_normal s) \<and>
    ((\<forall>t. res \<noteq> Took t) \<longrightarrow> sc_hiPri s' ! q = [] \<and> sc_deques s' ! q = [] \<and> sc_normal s' ! q = [])"
proof -
  obtain fd1 s1 where f: "find_task env tp q fd s = (fd1, s1)" by fastforce
  have k: "kept q n s (fd1, s1)" using find_task_kept [OF assms(1-3), of env] f by simp
  have pool: "pool_ok q n s1" using kept_pool [OF assms(1) k] by simp
  have wfm: "sc_wf (s1\<lparr>sc_marked := (sc_marked s1)[q := False]\<rparr>) = sc_wf s1" by (simp add: sc_wf_def ReservedBase_def)
  have res: "sc_normal s1 ! q = []" if "IsReservedIndex q s1" using pool that by (auto simp: pool_ok_def sc_wf_def IsReservedIndex_def)
  show ?thesis
  proof (cases "fd_task fd1")
    case None
    have "s' = s1 \<or> s' = s1\<lparr>sc_marked := (sc_marked s1)[q := False]\<rparr>" "fd' = fd1" "\<And>t. res \<noteq> Took t"
      using assms(4) None f by (auto simp: find_pass_def split: if_splits)
    then show ?thesis using find_task_missed [OF assms(2) f None] k pool res None wfm
      by (elim disjE) (auto simp: kept_def held_def pool_ok_def queued_def split: pass_result.split)
  next
    case (Some t)
    then show ?thesis using assms(4) f k pool by (auto simp: find_pass_def kept_def held_def)
  qed
qed

end

section \<open>Properties\<close>

text \<open>A worker's variables between passes.\<close>

abbreviation empty_handed :: "nat \<Rightarrow> finder \<Rightarrow> bool" where
  "empty_handed n fd \<equiv> fd_task fd = None \<and> fd_victim fd < n"

text \<open>(C15) One pass of the find loop, whatever the other threads do to it, never loses a task and never overwrites one it has taken: the queued tasks
  before the pass are those after it and the one the worker now holds. A reserved worker leaves its normal inbox alone, the cursors stay within the deques, and a
  pass without a task has left the worker's own inboxes and deque empty.\<close>

theorem find_pass_keeps_every_task:
  assumes "start_ok masks n" "pool_ok q n s" "empty_handed n fd" "find_pass env (BuildL3Groups masks forced n) q fd s = (res, fd', s')"
  shows "pool_ok q n s' \<and> fd_victim fd' < n \<and> queued s = queued s' + (case res of Took t \<Rightarrow> {#t#} | _ \<Rightarrow> {#}) \<and> fd_task fd' = (case res of Took t \<Rightarrow> Some t | _ \<Rightarrow> None) \<and>
    (IsReservedIndex q s \<longrightarrow> sc_normal s' = sc_normal s) \<and>
    ((\<forall>t. res \<noteq> Took t) \<longrightarrow> sc_hiPri s' ! q = [] \<and> sc_deques s' ! q = [] \<and> sc_normal s' ! q = [])"
proof -
  obtain m ms k where e: "masks = m # take 65535 ms" "n = Suc (length (take 65535 ms)) + k" using assms(1) start_ok_form by blast
  note a = assms(2-4) [unfolded e]
  show ?thesis unfolding e by (rule l3b.find_pass_kept [OF a(1) a(2) [THEN conjunct1] a(2) [THEN conjunct2] a(3)])
qed

definition quiet_env :: pass_env where
  "quiet_env = \<lparr>pe_flag = (\<lambda>v. v = 4), pe_wins = (\<lambda>v. True), pe_pick = Some 0, pe_pinForced = False, pe_now = 9, pe_cap = 4, pe_seek = True\<rparr>"

text \<open>Worker 2 of the six-worker pool finds the one task there is on the deque of worker 4, in the other cache group.\<close>

definition pool6_work :: sched where "pool6_work = pool6\<lparr>sc_deques := (replicate 6 [])[4 := [7, 8]]\<rparr>"

theorem find_pass_keeps_every_task_witness:
  "fst (find_pass quiet_env (BuildL3Groups [3, 3, 3, 12, 12, 12] 0 6) 2 (worker_start 2) pool6_work) = Took 7 \<and>
   queued pool6_work = queued (snd (snd (find_pass quiet_env (BuildL3Groups [3, 3, 3, 12, 12, 12] 0 6) 2 (worker_start 2) pool6_work))) + {#7#}"
proof -
  let ?tp = "BuildL3Groups [3, 3, 3, 12, 12, 12] 0 6"
  have six: "[0..<6] = [0, 1, 2, 3, 4, 5::nat]" by code_simp
  have tp: "?tp = \<lparr>l3_groups = 2, l3_groupOf = [0, 0, 0, 1, 1, 1], l3_members = [[0, 1, 2], [3, 4, 5]], l3_others = [[3, 4, 5], [0, 1, 2]]\<rparr>"
    by (simp add: BuildL3Groups_def l3_group_list_def l3_of_workers_def Let_def six)
  obtain res fd' s' where r: "find_pass quiet_env ?tp 2 (worker_start 2) pool6_work = (res, fd', s')" by (metis prod_cases3)
  have "pool_ok 2 6 pool6_work" using pool6_wf wf_queues(2) [of pool6 4 "[7, 8]"] by (simp add: pool_ok_def pool6_work_def pool6_def)
  then have p: "queued pool6_work = queued s' + (case res of Took t \<Rightarrow> {#t#} | _ \<Rightarrow> {#})"
    using find_pass_keeps_every_task [OF _ _ _ r] by (simp add: start_ok_def worker_start_def)
  have "fst (find_pass quiet_env ?tp 2 (worker_start 2) pool6_work) = Took 7"
    unfolding tp by code_simp
  then show ?thesis using p r by simp
qed

text \<open>The pass counter is 32 bits wide and wraps; among any 61 passes there is still a tick.\<close>

lemma unat_plus: "unat p + k + 1 < 2 ^ 32 \<Longrightarrow> unat (p + of_nat k + 1 :: u32) = unat p + k + 1"
  by (simp add: unat_word_ariths unsigned_of_nat take_bit_nat_eq_self)

lemma unat_le_max: "unat (p::u32) \<le> 2 ^ 32 - 1"
proof -
  have "unat p < 2 ^ LENGTH(32)" by (rule unsigned_less)
  then show ?thesis by simp
qed

lemma tick_within:
  "\<exists>k < 61. (p + of_nat k + 1) mod kFairTickEvery = (0::u32)"
proof (cases "unat p + 61 < 2 ^ 32")
  case True
  let ?k = "60 - unat p mod 61"
  have "unat (p + of_nat ?k + 1) = unat p + ?k + 1"
    by (rule unat_plus) (use True in linarith)
  moreover have "(unat p + ?k + 1) mod 61 = 0"
  proof -
    have "unat p mod 61 \<le> 60" using mod_less_divisor [of 61 "unat p"] by linarith
    then have "unat p + ?k + 1 = unat p div 61 * 61 + 61" using div_mult_mod_eq [of "unat p" 61] by linarith
    then show ?thesis by simp
  qed
  ultimately have "unat ((p + of_nat ?k + 1) mod kFairTickEvery) = 0" by (simp add: unat_mod kFairTickEvery_def)
  then have "(p + of_nat ?k + 1) mod kFairTickEvery = 0" by (simp add: unat_eq_0)
  then show ?thesis by (intro exI [of _ ?k]) simp
next
  case False
  let ?k = "2 ^ 32 - 1 - unat p"
  have "of_nat ?k = (- 1 - p :: u32)"
  proof -
    have le: "unat p \<le> 2 ^ 32 - 1" by (rule unat_le_max)
    have "(of_nat ?k :: u32) = of_nat (2 ^ 32 - 1) - of_nat (unat p)" using le by (rule of_nat_diff)
    then show ?thesis by simp
  qed
  then have "p + of_nat ?k + 1 = 0" by simp
  moreover have "?k < 61" using False by linarith
  ultimately show ?thesis by (intro exI [of _ ?k]) (simp add: kFairTickEvery_def)
qed

lemma tick_drains:
  assumes "fd_task fd = None" "\<not> IsReservedIndex q s" "q < length (sc_normal s)" "sc_normal s ! q \<noteq> []" "(fd_fairPass fd + 1) mod kFairTickEvery = 0"
  shows "\<exists>fd' s'. find_pass env tp q fd s = (Took (last (take 64 (sc_normal s ! q))), fd', s') \<and> sc_normal s' ! q = drop 64 (sc_normal s ! q) \<and>
      sc_deques s' = (sc_deques s)[q := sc_deques s ! q @ butlast (take 64 (sc_normal s ! q))]"
proof -
  obtain fd0 s0 where h: "enterHunt q fd s = (fd0, s0)" by fastforce
  have h0: "fd_fairPass fd0 = fd_fairPass fd" "fd_task fd0 = None" "sc_normal s0 = sc_normal s" "sc_deques s0 = sc_deques s" "\<not> IsReservedIndex q s0"
    using h assms by (auto simp: enterHunt_def IsReservedIndex_def ReservedBase_def split: if_splits)
  let ?b = "take 64 (sc_normal s ! q)"
  let ?r = "(fd0\<lparr>fd_fairPass := fd_fairPass fd + 1, fd_task := Some (last ?b)\<rparr>, (push_own q (butlast ?b) s0)\<lparr>sc_normal := (sc_normal s)[q := drop 64 (sc_normal s ! q)]\<rparr>)"
  have t: "source (fair_tick q) (fd0, s0) = ?r" using h0 assms by (simp add: source_def fair_tick_def Let_def drainOwnInbox_def)
  have "source f ?r = ?r" for f by (simp add: source_def)
  then have "find_task env tp q fd s = ?r" using assms(2) by (simp add: find_task_def Let_def h t)
  then show ?thesis using assms(3) h0 by (simp add: find_pass_def push_own_def)
qed

text \<open>Only the tick changes the pass counter, and every pass of a compute worker that starts with empty hands counts.\<close>

lemma source_fairPass: "\<forall>fd s. fd_fairPass (fst (f fd s)) = fd_fairPass fd \<Longrightarrow> fd_fairPass (fst (source f r)) = fd_fairPass (fst r)"
  by (simp add: source_def)

lemma fairPass_sources [simp]:
  "fd_fairPass (fst (from_injector env fd s)) = fd_fairPass fd" "fd_fairPass (fst (from_hiPri q fd s)) = fd_fairPass fd"
  "fd_fairPass (fst (from_inbox q fd s)) = fd_fairPass fd" "fd_fairPass (fst (from_own q fd s)) = fd_fairPass fd"
  "fd_fairPass (fst (drainOwnInbox q fd s)) = fd_fairPass fd" "fd_fairPass (fst (tryStealFrom env q v fd s)) = fd_fairPass fd"
  "fd_fairPass (move_cursor tp q nq fd) = fd_fairPass fd"
  by (simp_all add: from_injector_def from_hiPri_def from_inbox_def from_own_def drainOwnInbox_def tryStealFrom_def move_cursor_def Let_def split: prod.splits list.splits)

lemma fairPass_steals [simp]:
  "fd_fairPass (fst (cursor_steal env tp q nq fd s)) = fd_fairPass fd" "fd_fairPass (fst (seek_steal env tp q nq fd s)) = fd_fairPass fd"
  "fd_fairPass (fst (sibling_steal env q nq fd s)) = fd_fairPass fd" "fd_fairPass (fst (remote_steal env tp q fd s)) = fd_fairPass fd"
proof -
  have "fd_fairPass (fst (case x of (fd2, s2) \<Rightarrow> (fd2\<lparr>fd_sticky := g fd2\<rparr>, s2 :: sched))) = fd_fairPass (fst x)" for x and g :: "finder \<Rightarrow> int" by (simp split: prod.split)
  then show "fd_fairPass (fst (cursor_steal env tp q nq fd s)) = fd_fairPass fd" by (simp add: cursor_steal_def Let_def)
qed (simp_all add: seek_steal_def sibling_steal_def remote_steal_def Let_def split: option.splits)

lemma fairPass_scan [simp]: "fd_fairPass (fst (scan_deques env tp q fd s)) = fd_fairPass fd" "fd_fairPass (fst (after_yield q fd s)) = fd_fairPass fd"
  by (simp_all add: scan_deques_def after_yield_def Let_def source_fairPass)

lemma find_pass_counts:
  assumes "fd_task fd = None" "\<not> IsReservedIndex q s"
  shows "fd_fairPass (fst (snd (find_pass env tp q fd s))) = fd_fairPass fd + 1"
proof -
  obtain fd0 s0 where h: "enterHunt q fd s = (fd0, s0)" by fastforce
  have h0: "fd_fairPass fd0 = fd_fairPass fd" "fd_task fd0 = None" "\<not> IsReservedIndex q s0"
    using h assms by (auto simp: enterHunt_def IsReservedIndex_def ReservedBase_def split: if_splits)
  have t: "fd_fairPass (fst (source (fair_tick q) (fd0, s0))) = fd_fairPass fd + 1"
    using h0 by (simp add: source_def fair_tick_def Let_def)
  have "fd_fairPass (fst (find_task env tp q fd s)) = fd_fairPass fd + 1"
    using assms(2) t by (simp add: find_task_def Let_def h source_fairPass)
  then show ?thesis by (cases "find_task env tp q fd s") (simp add: find_pass_def split: option.split)
qed

text \<open>What a worker does to its variables between two passes: it leaves the hunt, gives its task up or runs it, and notes a yield. \<open>dispatch\<close> is such a change.\<close>

definition between :: "finder \<Rightarrow> finder \<Rightarrow> bool" where
  "between fd fd' \<longleftrightarrow> (\<exists>h k y. fd' = fd\<lparr>fd_task := None, fd_searching := h, fd_stolenOnK := k, fd_yielded := y\<rparr>)"

lemma dispatch_between: "dispatch env q cancelled hasFiber ok t fd s = (res, fd', s') \<Longrightarrow> between fd fd'"
proof -
  assume d: "dispatch env q cancelled hasFiber ok t fd s = (res, fd', s')"
  obtain fd0 s0 where l: "leaveHunt fd s = (fd0, s0)" by fastforce
  then have l0: "fd0 = fd\<lparr>fd_searching := False\<rparr>" by (auto simp: leaveHunt_def Let_def split: prod.splits if_splits)
  have "fd' = fd0\<lparr>fd_stolenOnK := False, fd_task := None\<rparr>"
    using d unfolding dispatch_def l Let_def by (simp split: if_splits TaskType.splits)
  then show ?thesis unfolding l0 between_def by (intro exI [of _ False] exI [of _ "fd_yielded fd"]) simp
qed

text \<open>\<open>n\<close> passes of worker \<open>q\<close> in a row: pass \<open>k\<close> starts empty-handed with the variables \<open>fds k\<close> on the pool \<open>ss k\<close>, which the other threads may change in any way
  from one pass to the next.\<close>

definition passes :: "(nat \<Rightarrow> pass_env) \<Rightarrow> l3_tables \<Rightarrow> nat \<Rightarrow> (nat \<Rightarrow> finder) \<Rightarrow> (nat \<Rightarrow> sched) \<Rightarrow> nat \<Rightarrow> bool" where
  "passes envs tp q fds ss n \<longleftrightarrow> fd_task (fds 0) = None \<and> (\<forall>k < n. between (fst (snd (find_pass (envs k) tp q (fds k) (ss k)))) (fds (Suc k)))"

lemma passes_count:
  assumes "passes envs tp q fds ss n" "\<forall>k < n. \<not> IsReservedIndex q (ss k)" "k \<le> n"
  shows "fd_task (fds k) = None \<and> fd_fairPass (fds k) = fd_fairPass (fds 0) + of_nat k"
  using assms(3)
proof (induction k)
  case 0
  then show ?case using assms(1) by (simp add: passes_def)
next
  case (Suc k)
  then have i: "fd_task (fds k) = None" "fd_fairPass (fds k) = fd_fairPass (fds 0) + of_nat k" "k < n" by simp_all
  have "between (fst (snd (find_pass (envs k) tp q (fds k) (ss k)))) (fds (Suc k))" using assms(1) i(3) by (simp add: passes_def)
  moreover have "fd_fairPass (fst (snd (find_pass (envs k) tp q (fds k) (ss k)))) = fd_fairPass (fds k) + 1"
    using find_pass_counts [OF i(1)] assms(2) i(3) by simp
  ultimately show ?case using i(2) by (auto simp: between_def algebra_simps)
qed

text \<open>(C27) A compute worker cannot ignore its inbox: among any 61 passes in a row during which its inbox holds something, whatever its pass counter is at the start (wrap-around included),
  whatever else is queued and whatever the other threads do, there is one that takes up to 64 tasks from the inbox, holds the last of them and has the others
  on its own deque.\<close>

theorem inbox_is_served_within_61_passes:
  assumes "passes envs tp q fds ss 61" "\<forall>k < 61. \<not> IsReservedIndex q (ss k) \<and> q < length (sc_normal (ss k)) \<and> sc_normal (ss k) ! q \<noteq> []"
  shows "\<exists>k < 61. \<exists>fd' s'. find_pass (envs k) tp q (fds k) (ss k) = (Took (last (take 64 (sc_normal (ss k) ! q))), fd', s') \<and>
      sc_normal s' ! q = drop 64 (sc_normal (ss k) ! q) \<and>
      sc_deques s' = (sc_deques (ss k))[q := sc_deques (ss k) ! q @ butlast (take 64 (sc_normal (ss k) ! q))]"
proof -
  obtain k where k: "k < 61" "(fd_fairPass (fds 0) + of_nat k + 1) mod kFairTickEvery = 0" using tick_within [of "fd_fairPass (fds 0)"] by (elim exE conjE) (rule that)
  have nr: "\<forall>k < 61. \<not> IsReservedIndex q (ss k)" using assms(2) by blast
  have c: "fd_task (fds k) = None" "fd_fairPass (fds k) = fd_fairPass (fds 0) + of_nat k" using passes_count [OF assms(1) nr less_imp_le [OF k(1)]] by (rule conjunct1) (rule conjunct2 [OF passes_count [OF assms(1) nr less_imp_le [OF k(1)]]])
  have "(fd_fairPass (fds k) + 1) mod kFairTickEvery = 0" using k(2) unfolding c(2) .
  moreover have "\<not> IsReservedIndex q (ss k)" "q < length (sc_normal (ss k))" "sc_normal (ss k) ! q \<noteq> []" using assms(2) k(1) by simp_all
  ultimately show ?thesis using tick_drains [OF c(1), of q "ss k" "envs k" tp] k(1) by (intro exI [of _ k] conjI)
qed

text \<open>Worker 1's deque is busy and its inbox holds two tasks in every pass.\<close>

definition busy_pool :: sched where
  "busy_pool = pool6\<lparr>sc_normal := (replicate 6 [])[1 := [7, 8]], sc_deques := (replicate 6 [])[1 := [9]]\<rparr>"

fun busy_worker :: "nat \<Rightarrow> finder" where
  "busy_worker 0 = worker_start 1"
| "busy_worker (Suc k) = (fst (snd (find_pass quiet_env (BuildL3Groups [3] 0 6) 1 (busy_worker k) busy_pool)))\<lparr>fd_task := None\<rparr>"

theorem inbox_is_served_within_61_passes_witness:
  "\<exists>k < 61. \<exists>fd' s'. find_pass quiet_env (BuildL3Groups [3] 0 6) 1 (busy_worker k) busy_pool = (Took 8, fd', s') \<and>
    sc_normal s' ! 1 = [] \<and> sc_deques s' = (replicate 6 [])[1 := [9, 7]]"
proof -
  have "between fd (fd\<lparr>fd_task := None\<rparr>)" for fd unfolding between_def by (intro exI [of _ "fd_searching fd"] exI [of _ "fd_stolenOnK fd"] exI [of _ "fd_yielded fd"]) simp
  then have p: "passes (\<lambda>_. quiet_env) (BuildL3Groups [3] 0 6) 1 busy_worker (\<lambda>_. busy_pool) 61" by (simp add: passes_def worker_start_def)
  have "\<forall>k < (61 :: nat). \<not> IsReservedIndex 1 busy_pool \<and> 1 < length (sc_normal busy_pool) \<and> sc_normal busy_pool ! 1 \<noteq> []"
    by (simp add: IsReservedIndex_def ReservedBase_def pool6_def busy_pool_def)
  from inbox_is_served_within_61_passes [OF p this] show ?thesis by (simp add: busy_pool_def)
qed

text \<open>With at most 64 deques the seek of a miss always ends at a bit, and the deque it stands for exists, is not the worker's own nor the one just tried, is
  in the worker's cache group and shows work: the rotated mask and the masked sum never lead anywhere else.\<close>

theorem seek_hits_a_flagged_deque:
  assumes "nq \<le> 64" "seek_mask env tp q victim nq \<noteq> 0"
  shows "\<exists>b. seek_bit (rotate_mask (seek_mask env tp q victim nq) (w AND 63)) = Some b \<and>
    unat ((of_nat b + (w AND 63)) AND 63) < nq \<and> seekable env tp q victim (unat ((of_nat b + (w AND 63)) AND 63))"
  by (rule seek_finds [OF assms])

theorem seek_hits_a_flagged_deque_witness:
  "\<exists>b. seek_bit (rotate_mask (seek_mask quiet_env (BuildL3Groups [5] 0 1) 2 1 6) (61 AND 63)) = Some b \<and> unat ((of_nat b + (61 AND 63 :: u32)) AND 63) < 6 \<and>
    seekable quiet_env (BuildL3Groups [5] 0 1) 2 1 (unat ((of_nat b + (61 AND 63 :: u32)) AND 63))"
proof -
  define tp where "tp = BuildL3Groups [5] 0 1"
  have g: "l3_groups tp = 1" by (simp add: tp_def BuildL3Groups_def l3_group_list_def l3_of_workers_def Let_def)
  have "bit (seek_mask quiet_env tp 2 1 6) 4" using seek_mask_bit [of 6 quiet_env tp 2 1 4] by (simp add: seekable_def g quiet_env_def)
  then have "seek_mask quiet_env tp 2 1 6 \<noteq> 0" by auto
  then show ?thesis unfolding tp_def [symmetric] by (intro seek_hits_a_flagged_deque) simp_all
qed

section \<open>Giving a task up\<close>

lemma leaveHunt_kept:
  assumes "pool_ok q n s"
  shows "pool_ok q n (snd (leaveHunt fd s)) \<and> same_shape s (snd (leaveHunt fd s)) \<and> queued (snd (leaveHunt fd s)) = queued s"
proof (cases "fd_searching fd")
  case True
  let ?s1 = "s\<lparr>sc_searching := sc_searching s - 1\<rparr>"
  obtain r s2 where p: "pop_idle (sc_idle ?s1) ?s1 = (r, s2)" by fastforce
  obtain i l a where s2: "s2 = ?s1\<lparr>sc_idle := i, sc_linked := l, sc_armed := a\<rparr>" "set i \<subseteq> set (sc_idle s)" "length l = length (sc_linked s)" "length a = length (sc_armed s)"
    using pop_idle_frame [OF p] by auto
  have w: "sc_wf s" using assms by (simp add: pool_ok_def)
  have "sc_wf ?s1" by (rule wf_frame [OF w]) simp_all
  moreover have "sc_wf s2" by (rule wf_frame [OF w]) (use s2 in simp_all)
  moreover have "sc_wf (s2\<lparr>sc_woken := x\<rparr>)" for x by (rule wf_frame [OF w]) (use s2 in simp_all)
  ultimately show ?thesis using assms True s2(1) by (auto simp: leaveHunt_def Let_def p [simplified] pool_ok_def same_shape_def queued_def split: option.split)
qed (use assms in \<open>simp add: leaveHunt_def\<close>)

text \<open>What a worker does with the task it holds: it runs it, or drops it because it was cancelled before it began, or puts it back into exactly one
  queue (a reserved worker after a steal when I/O has come in, or a fiber task for which there is no fiber).\<close>

theorem dispatch_runs_or_returns_the_task:
  assumes "pool_ok q n s" "pin_ok s t" "dispatch env q cancelled hasFiber ok t fd s = (res, fd', s')"
  shows "sc_wf s' \<and> fd_task fd' = None \<and> queued s' = queued s + (if res = GivenBack \<or> res = NoFiber then {#t#} else {#}) \<and>
    (res = Dropped t \<longleftrightarrow> cancelled \<and> \<not> tk_started (sc_task s t)) \<and> (res \<noteq> Dropped t \<and> res \<noteq> GivenBack \<longrightarrow> tk_started (sc_task s' t))"
proof -
  obtain fd0 s0 where l: "leaveHunt fd s = (fd0, s0)" by fastforce
  have w: "sc_wf s0" "same_shape s s0" "queued s0 = queued s" using leaveHunt_kept [OF assms(1), of fd] l by (auto simp: pool_ok_def)
  define s1 where "s1 = s0\<lparr>sc_task := (sc_task s0)(t := (sc_task s0 t)\<lparr>tk_started := True\<rparr>)\<rparr>"
  have w1: "sc_wf s1" unfolding s1_def by (rule wf_frame [OF w(1)]) simp_all
  have q1: "queued s1 = queued s" "tk_started (sc_task s1 t)" using w(3) by (simp_all add: s1_def queued_def)
  have b0: "placed [t] s0 (True, snd (Requeue t (Some q) ok (pe_now env) s0))" by (rule Requeue_placed [OF w(1)])
  have b1: "placed [t] s1 (True, if isMain q s then PushMainQueue t s1 else snd (Requeue t (Some q) ok (pe_now env) s1))"
    using PushMainQueue_placed [OF w1] Requeue_placed [OF w1] by simp
  define s2 where "s2 = (if isMain q s then PushMainQueue t s1 else snd (Requeue t (Some q) ok (pe_now env) s1))"
  have b2: "sc_wf s2" "queued s2 = queued s + {#t#}" "tk_started (sc_task s2 t)" using b1 q1 unfolding s2_def [symmetric] by (auto simp: placed_def same_shape_def)
  define dr where "dr \<longleftrightarrow> \<not> tk_started (sc_task s t) \<and> cancelled"
  define bk where "bk \<longleftrightarrow> fd_stolenOnK fd \<and> (\<not> IoLaneQuiet (pe_now env) s0 \<or> \<not> InjectorIdle s0 \<or> sc_hiPri s0 ! q \<noteq> [])"
  let ?fd1 = "fd0\<lparr>fd_stolenOnK := False, fd_task := None\<rparr>"
  have eq: "(res, fd', s') = (if dr then (Dropped t, ?fd1, s0) else if bk then (GivenBack, ?fd1, snd (Requeue t (Some q) ok (pe_now env) s0))
      else (case tk_type (sc_task s t) of TCoroutine \<Rightarrow> (RunCoroutine t, ?fd1, s1) | TNative \<Rightarrow> (RunNative t, ?fd1, s1)
            | TFiber \<Rightarrow> if hasFiber then (RunFiber t, ?fd1, s1) else (NoFiber, ?fd1, s2)))"
    using assms(3) [symmetric] unfolding dispatch_def l Let_def s1_def s2_def dr_def bk_def by (simp only: prod.case)
  consider "dr" | "\<not> dr" "bk" | "\<not> dr" "\<not> bk" by blast
  then show ?thesis
  proof cases
    case 1
    then show ?thesis using eq w by (simp add: dr_def)
  next
    case 2
    then have "res = GivenBack" "fd' = ?fd1" "s' = snd (Requeue t (Some q) ok (pe_now env) s0)" using eq by simp_all
    then show ?thesis using 2(1) b0 w(3) by (auto simp: placed_def dr_def)
  next
    case 3
    have nd: "\<not> (cancelled \<and> \<not> tk_started (sc_task s t))" using 3(1) by (auto simp: dr_def)
    show ?thesis using eq [unfolded if_not_P [OF 3(1)] if_not_P [OF 3(2)]] w1 q1 b2 nd by (cases "tk_type (sc_task s t)"; cases hasFiber) simp_all
  qed
qed

theorem dispatch_runs_or_returns_the_task_witness:
  "fst (dispatch quiet_env 2 False False True 7 (worker_start 2) pool6) = NoFiber \<and>
   queued (snd (snd (dispatch quiet_env 2 False False True 7 (worker_start 2) pool6))) = queued pool6 + {#7#}"
proof -
  obtain res fd' s' where r: "dispatch quiet_env 2 False False True 7 (worker_start 2) pool6 = (res, fd', s')" by (metis prod_cases3)
  have res: "res = NoFiber" using r by (simp add: dispatch_def leaveHunt_def worker_start_def pool6_def new_Task_def Let_def)
  have "pool_ok 2 6 pool6" using pool6_wf by (simp add: pool_ok_def) (simp add: pool6_def)
  then show ?thesis using dispatch_runs_or_returns_the_task [OF _ _ r, of 6] r res by (simp add: pin_ok_def pool6_def)
qed

end
