(* ===== verification/WaitLists.thy ===== *)
theory WaitLists
  imports JPrelude
begin

text \<open>
  The intrusive waiter queue of the blocking primitives (\<^verbatim>\<open>include/WaitList.h\<close>), at the level of its
  pointers: \<open>wl_next\<close> is the \<open>next\<close> field of every node, \<open>wl_head\<close> and \<open>wl_tail\<close> are the two members
  of the class. The locale \<open>fifo_waiters\<close> states what the primitives rely on (a FIFO list with
  removal by predicate) and is interpreted on these definitions.
\<close>

section \<open>The class\<close>

record wait_list =
  wl_next :: "nat \<Rightarrow> ptr"
  wl_head :: ptr
  wl_tail :: ptr

definition wl_Empty :: "wait_list \<Rightarrow> bool" where
  "wl_Empty w \<longleftrightarrow> wl_head w = None"

definition PushBack :: "nat \<Rightarrow> wait_list \<Rightarrow> wait_list" where
  "PushBack n w =
    (let w1 = w\<lparr>wl_next := (wl_next w)(n := None)\<rparr>;
         w2 = (case wl_tail w1 of
                 Some l \<Rightarrow> w1\<lparr>wl_next := (wl_next w1)(l := Some n)\<rparr>
               | None \<Rightarrow> w1\<lparr>wl_head := Some n\<rparr>) in
     w2\<lparr>wl_tail := Some n\<rparr>)"

definition PopFront :: "wait_list \<Rightarrow> ptr \<times> wait_list" where
  "PopFront w =
    (case wl_head w of
       None \<Rightarrow> (None, w)
     | Some n \<Rightarrow>
        (let h = wl_next w n;
             w1 = w\<lparr>wl_head := h\<rparr>;
             w2 = (if h = None then w1\<lparr>wl_tail := None\<rparr> else w1) in
         (Some n, w2\<lparr>wl_next := (wl_next w2)(n := None)\<rparr>)))"

definition TakeAll :: "wait_list \<Rightarrow> ptr \<times> wait_list" where
  "TakeAll w = (wl_head w, w\<lparr>wl_head := None, wl_tail := None\<rparr>)"

text \<open>\<open>Remove\<close> walks with a pointer to the link field: the head member or some node's \<open>next\<close>.\<close>

datatype link = HeadLink | NextOf nat

fun read_link :: "wait_list \<Rightarrow> link \<Rightarrow> ptr" where
  "read_link w HeadLink = wl_head w"
| "read_link w (NextOf a) = wl_next w a"

fun write_link :: "link \<Rightarrow> ptr \<Rightarrow> wait_list \<Rightarrow> wait_list" where
  "write_link HeadLink p w = w\<lparr>wl_head := p\<rparr>"
| "write_link (NextOf a) p w = w\<lparr>wl_next := (wl_next w)(a := p)\<rparr>"

partial_function (option) Remove_loop ::
    "nat \<Rightarrow> link \<Rightarrow> ptr \<Rightarrow> wait_list \<Rightarrow> (bool \<times> wait_list) option" where
  "Remove_loop target link prev w =
    (case read_link w link of
       None \<Rightarrow> Some (False, w)
     | Some n \<Rightarrow>
        (if n = target then
           (let w1 = write_link link (wl_next w n) w;
                w2 = (if wl_tail w1 = Some n then w1\<lparr>wl_tail := prev\<rparr> else w1) in
            Some (True, w2\<lparr>wl_next := (wl_next w2)(n := None)\<rparr>))
         else Remove_loop target (NextOf n) (Some n) w))"

definition wl_Remove :: "nat \<Rightarrow> wait_list \<Rightarrow> (bool \<times> wait_list) option" where
  "wl_Remove target w = Remove_loop target HeadLink None w"

text \<open>\<open>TakeIf\<close> threads the two detached chains through pointers to their last link fields.\<close>

definition append_link :: "ptr \<Rightarrow> ptr \<Rightarrow> nat \<Rightarrow> (nat \<Rightarrow> ptr) \<Rightarrow> ptr \<times> (nat \<Rightarrow> ptr)" where
  "append_link hp lst n nx =
    (case lst of None \<Rightarrow> (Some n, nx) | Some l \<Rightarrow> (hp, nx(l := Some n)))"

partial_function (option) TakeIf_loop ::
    "(nat \<Rightarrow> bool) \<Rightarrow> ptr \<Rightarrow> (nat \<Rightarrow> ptr) \<Rightarrow> ptr \<Rightarrow> ptr \<Rightarrow> ptr \<Rightarrow> ptr
     \<Rightarrow> ((nat \<Rightarrow> ptr) \<times> ptr \<times> ptr \<times> ptr) option" where
  "TakeIf_loop pred n nx th tt kh kl =
    (case n of
       None \<Rightarrow> Some (nx, th, kh, kl)
     | Some a \<Rightarrow>
        (let nxt = nx a; nx1 = nx(a := None) in
         if pred a then
           (case append_link th tt a nx1 of (th', nx2) \<Rightarrow> TakeIf_loop pred nxt nx2 th' (Some a) kh kl)
         else
           (case append_link kh kl a nx1 of (kh', nx2) \<Rightarrow> TakeIf_loop pred nxt nx2 th tt kh' (Some a))))"

definition TakeIf :: "(nat \<Rightarrow> bool) \<Rightarrow> wait_list \<Rightarrow> (ptr \<times> wait_list) option" where
  "TakeIf pred w =
    map_option (\<lambda>(nx, th, kh, kl). (th, w\<lparr>wl_next := nx, wl_head := kh, wl_tail := kl\<rparr>))
      (TakeIf_loop pred (wl_head w) (wl_next w) None None None None)"

section \<open>The invariant\<close>

definition last_ptr :: "nat list \<Rightarrow> ptr" where
  "last_ptr xs = (if xs = [] then None else Some (last xs))"

definition wl_inv :: "wait_list \<Rightarrow> nat list \<Rightarrow> bool" where
  [inv_defs]: "wl_inv w xs \<longleftrightarrow>
    chain (wl_next w) (wl_head w) xs None \<and> distinct xs \<and> wl_tail w = last_ptr xs"

definition wl_empty :: wait_list where
  "wl_empty = \<lparr>wl_next = (\<lambda>_. None), wl_head = None, wl_tail = None\<rparr>"

section \<open>The interface of a waiter queue\<close>

locale fifo_waiters =
  fixes inv :: "'q \<Rightarrow> nat list \<Rightarrow> bool"
    and empty :: 'q
    and is_empty :: "'q \<Rightarrow> bool"
    and push :: "nat \<Rightarrow> 'q \<Rightarrow> 'q"
    and pop :: "'q \<Rightarrow> ptr \<times> 'q"
    and take_if :: "(nat \<Rightarrow> bool) \<Rightarrow> 'q \<Rightarrow> (ptr \<times> 'q) option"
    and remove :: "nat \<Rightarrow> 'q \<Rightarrow> (bool \<times> 'q) option"
    and links :: "'q \<Rightarrow> nat \<Rightarrow> ptr"
  assumes inv_empty: "inv empty []"
    and is_empty_iff: "inv q xs \<Longrightarrow> is_empty q \<longleftrightarrow> xs = []"
    and push_inv: "inv q xs \<Longrightarrow> n \<notin> set xs \<Longrightarrow> inv (push n q) (xs @ [n])"
    and pop_Nil: "inv q [] \<Longrightarrow> pop q = (None, q)"
    and pop_Cons: "inv q (x # xs) \<Longrightarrow> \<exists>q'. pop q = (Some x, q') \<and> inv q' xs"
    and take_if_spec: "inv q xs \<Longrightarrow>
      \<exists>p q'. take_if P q = Some (p, q') \<and> inv q' (filter (\<lambda>x. \<not> P x) xs) \<and>
             chain (links q') p (filter P xs) None"
    and remove_spec: "inv q xs \<Longrightarrow>
      \<exists>q'. remove n q = Some (n \<in> set xs, q') \<and> inv q' (filter (\<lambda>x. x \<noteq> n) xs)"
begin

text \<open>Pushing a batch and popping it again returns the waiters oldest first.\<close>

fun pop_n :: "nat \<Rightarrow> 'q \<Rightarrow> nat list \<times> 'q" where
  "pop_n 0 q = ([], q)"
| "pop_n (Suc k) q =
    (case pop q of (None, q') \<Rightarrow> ([], q')
     | (Some x, q') \<Rightarrow> (case pop_n k q' of (ys, q'') \<Rightarrow> (x # ys, q'')))"

lemma pop_n_spec: "inv q xs \<Longrightarrow> \<exists>q'. pop_n k q = (take k xs, q') \<and> inv q' (drop k xs)"
proof (induction k arbitrary: q xs)
  case 0
  then show ?case by simp
next
  case (Suc k)
  show ?case
  proof (cases xs)
    case Nil
    then show ?thesis using Suc.prems pop_Nil by simp
  next
    case (Cons x ys)
    then obtain q1 where q1: "pop q = (Some x, q1)" "inv q1 ys" using pop_Cons Suc.prems by blast
    then obtain q2 where "pop_n k q1 = (take k ys, q2)" "inv q2 (drop k ys)" using Suc.IH by blast
    then show ?thesis using q1 Cons by simp
  qed
qed

lemma push_all: "inv q xs \<Longrightarrow> distinct (xs @ ys) \<Longrightarrow> inv (fold push ys q) (xs @ ys)"
proof (induction ys arbitrary: q xs)
  case Nil
  then show ?case by simp
next
  case (Cons y ys)
  then have "inv (push y q) (xs @ [y])" by (intro push_inv) auto
  from Cons.IH [OF this] Cons.prems(2) show ?case by simp
qed

lemma fifo: "distinct ys \<Longrightarrow> fst (pop_n (length ys) (fold push ys empty)) = ys"
  using pop_n_spec [OF push_all [OF inv_empty, of ys], of "length ys"] by auto

end

section \<open>The class implements it\<close>

lemma last_ptr_simps [simp]: "last_ptr [] = None" "last_ptr (xs @ [x]) = Some x"
  by (auto simp: last_ptr_def)

lemma last_ptr_Cons: "last_ptr (x # xs) = (if xs = [] then Some x else last_ptr xs)"
  by (simp add: last_ptr_def)

lemma chain_snoc_upd:
  assumes "chain nx p xs None" and "distinct xs" and "xs \<noteq> []" and "n \<notin> set xs"
  shows "chain (nx(n := None, last xs := Some n)) p (xs @ [n]) None"
proof -
  obtain ys l where xs: "xs = ys @ [l]" using assms(3) rev_exhaust by blast
  have "chain (nx(n := None)) p (ys @ [l]) None" using assms xs by simp
  then have "chain (nx(n := None)) p ys (Some l)" by (auto simp: chain_append)
  then have "chain (nx(n := None, l := Some n)) p ys (Some l)" using assms xs by simp
  moreover have "l \<noteq> n" using assms xs by auto
  ultimately show ?thesis using xs by (auto simp: chain_append)
qed

lemma PushBack_inv: "wl_inv w xs \<Longrightarrow> n \<notin> set xs \<Longrightarrow> wl_inv (PushBack n w) (xs @ [n])"
proof (cases "xs = []")
  case True
  assume "wl_inv w xs" "n \<notin> set xs"
  with True show ?thesis by (simp add: wl_inv_def PushBack_def last_ptr_def)
next
  case False
  assume a: "wl_inv w xs" "n \<notin> set xs"
  then have "chain ((wl_next w)(n := None, last xs := Some n)) (wl_head w) (xs @ [n]) None"
    using False by (intro chain_snoc_upd) (auto simp: wl_inv_def)
  with a False show ?thesis by (simp add: wl_inv_def PushBack_def last_ptr_def Let_def)
qed

lemma PopFront_Cons:
  assumes "wl_inv w (x # xs)"
  shows "\<exists>w'. PopFront w = (Some x, w') \<and> wl_inv w' xs"
  using assms
  by (auto simp: wl_inv_def PopFront_def Let_def last_ptr_Cons chain_empty_iff)

definition last_link :: "link \<Rightarrow> nat list \<Rightarrow> link" where
  "last_link link xs = (if xs = [] then link else NextOf (last xs))"

lemma Remove_loop_skip:
  "chain (wl_next w) (read_link w link) xs q \<Longrightarrow> n \<notin> set xs \<Longrightarrow>
   Remove_loop n link prev w =
   Remove_loop n (last_link link xs) (if xs = [] then prev else Some (last xs)) w"
proof (induction xs arbitrary: link prev)
  case Nil
  then show ?case by (simp add: last_link_def)
next
  case (Cons x xs)
  then have "Remove_loop n link prev w = Remove_loop n (NextOf x) (Some x) w"
    by (subst Remove_loop.simps) auto
  also have "\<dots> = Remove_loop n (last_link (NextOf x) xs) (if xs = [] then Some x else Some (last xs)) w"
    using Cons by simp
  finally show ?case by (simp add: last_link_def)
qed

lemma read_last_link:
  "chain (wl_next w) (read_link w link) xs q \<Longrightarrow> read_link w (last_link link xs) = q"
proof (induction xs arbitrary: link)
  case Nil
  then show ?case by (simp add: last_link_def)
next
  case (Cons x xs)
  from Cons.prems Cons.IH [of "NextOf x"] show ?case by (auto simp: last_link_def split: if_splits)
qed

lemma chain_unlink:
  assumes "chain nx p (as @ n # bs) None" and "distinct (as @ n # bs)" and "as \<noteq> []"
  shows "chain (nx(last as := nx n, n := None)) p (as @ bs) None"
proof -
  obtain cs l where as: "as = cs @ [l]" using assms(3) rev_exhaust by blast
  have "chain nx p cs (Some l)" "chain nx (nx n) bs None"
    using assms(1) as by (auto simp: chain_append)
  then show ?thesis using assms(2) as by (auto simp: chain_append)
qed

lemma Remove_found:
  assumes "wl_inv w (as @ n # bs)"
  shows "\<exists>w'. wl_Remove n w = Some (True, w') \<and> wl_inv w' (as @ bs)"
proof -
  have ch: "chain (wl_next w) (read_link w HeadLink) as (Some n)" "chain (wl_next w) (wl_next w n) bs None"
    and d: "distinct (as @ n # bs)" and tl: "wl_tail w = last_ptr (as @ n # bs)"
    and full: "chain (wl_next w) (wl_head w) (as @ n # bs) None"
    using assms by (auto simp: wl_inv_def chain_append)
  have "wl_Remove n w = Remove_loop n (last_link HeadLink as) (last_ptr as) w"
    using Remove_loop_skip [OF ch(1), of n None] d by (simp add: wl_Remove_def last_ptr_def)
  moreover have "read_link w (last_link HeadLink as) = Some n" using read_last_link [OF ch(1)] .
  ultimately have step: "wl_Remove n w =
     (let w1 = write_link (last_link HeadLink as) (wl_next w n) w;
          w2 = (if wl_tail w1 = Some n then w1\<lparr>wl_tail := last_ptr as\<rparr> else w1) in
      Some (True, w2\<lparr>wl_next := (wl_next w2)(n := None)\<rparr>))"
    by (subst (asm) Remove_loop.simps) simp
  have tn: "wl_tail w = Some n \<longleftrightarrow> bs = []" using tl d by (auto simp: last_ptr_def)
  show ?thesis
  proof (cases "as = []")
    case True
    then show ?thesis using step tn tl ch d
      by (auto simp: Let_def last_link_def wl_inv_def last_ptr_def)
  next
    case False
    then show ?thesis using step tn tl d chain_unlink [OF full d False]
      by (auto simp: Let_def last_link_def wl_inv_def last_ptr_def)
  qed
qed

lemma Remove_absent: "wl_inv w xs \<Longrightarrow> n \<notin> set xs \<Longrightarrow> wl_Remove n w = Some (False, w)"
proof -
  assume a: "wl_inv w xs" "n \<notin> set xs"
  then have ch: "chain (wl_next w) (read_link w HeadLink) xs None" by (simp add: wl_inv_def)
  have "read_link w (last_link HeadLink xs) = None" using read_last_link [OF ch] .
  then show ?thesis using Remove_loop_skip [OF ch a(2), of None]
    by (simp add: wl_Remove_def Remove_loop.simps [of n "last_link HeadLink xs"])
qed

lemma Remove_spec:
  assumes "wl_inv w xs"
  shows "\<exists>w'. wl_Remove n w = Some (n \<in> set xs, w') \<and> wl_inv w' (filter (\<lambda>x. x \<noteq> n) xs)"
proof (cases "n \<in> set xs")
  case True
  then obtain as bs where xs: "xs = as @ n # bs" "n \<notin> set as" using split_list_first by metis
  moreover have "n \<notin> set bs" using assms xs by (auto simp: wl_inv_def)
  ultimately show ?thesis using Remove_found [of w as n bs] assms by (simp add: filter_notin_id)
next
  case False
  then show ?thesis using Remove_absent [OF assms False] assms by (simp add: filter_notin_id)
qed

text \<open>The state of the \<open>TakeIf\<close> loop: a taken chain, a kept chain and the rest, all disjoint.\<close>

definition take_state :: "(nat \<Rightarrow> ptr) \<Rightarrow> ptr \<Rightarrow> nat list \<Rightarrow> ptr \<Rightarrow> ptr \<Rightarrow> nat list \<Rightarrow> ptr \<Rightarrow> ptr \<Rightarrow> nat list \<Rightarrow> bool" where
  "take_state nx n rest th tt ts kh kl ks \<longleftrightarrow>
    chain nx n rest None \<and> chain nx th ts None \<and> chain nx kh ks None \<and>
    tt = last_ptr ts \<and> kl = last_ptr ks \<and> distinct (rest @ ts @ ks)"

lemma append_link_chain:
  assumes "chain nx hp xs None" "lst = last_ptr xs" "distinct xs" "n \<notin> set xs" "nx n = None"
    "append_link hp lst n nx = (hp', nx')"
  shows "chain nx' hp' (xs @ [n]) None \<and> (\<forall>y. y \<notin> set xs \<longrightarrow> nx' y = nx y)"
proof (cases "xs = []")
  case True
  then show ?thesis using assms by (auto simp: append_link_def)
next
  case False
  have "nx(n := None) = nx" using assms(5) by auto
  then show ?thesis
    using chain_snoc_upd [OF assms(1,3) False assms(4)] assms(2,6) False
    by (auto simp: append_link_def last_ptr_def)
qed

lemma take_state_step:
  assumes "take_state nx (Some a) (a # rest) th tt ts kh kl ks"
  shows "append_link th tt a (nx(a := None)) = (th', nx') \<Longrightarrow>
           take_state nx' (nx a) rest th' (Some a) (ts @ [a]) kh kl ks"
    and "append_link kh kl a (nx(a := None)) = (kh', nx') \<Longrightarrow>
           take_state nx' (nx a) rest th tt ts kh' (Some a) (ks @ [a])"
proof -
  let ?nx = "nx(a := None)"
  have c: "chain ?nx (nx a) rest None" "chain ?nx th ts None" "chain ?nx kh ks None"
    and d: "distinct ((a # rest) @ ts @ ks)" and l: "tt = last_ptr ts" "kl = last_ptr ks"
    using assms by (auto simp: take_state_def)
  have dj: "set rest \<inter> set ts = {}" "set ks \<inter> set ts = {}" "set rest \<inter> set ks = {}" "set ts \<inter> set ks = {}"
    using d by auto
  {
    assume "append_link th tt a ?nx = (th', nx')"
    with append_link_chain [OF c(2) l(1), of a th' nx'] d
    have "chain nx' th' (ts @ [a]) None" "\<forall>y. y \<notin> set ts \<longrightarrow> nx' y = ?nx y" by auto
    moreover have "chain nx' (nx a) rest None" "chain nx' kh ks None"
      using chain_frame [OF c(1) calculation(2)] chain_frame [OF c(3) calculation(2)] dj by simp_all
    ultimately show "take_state nx' (nx a) rest th' (Some a) (ts @ [a]) kh kl ks"
      using d l by (auto simp: take_state_def)
  next
    assume "append_link kh kl a ?nx = (kh', nx')"
    with append_link_chain [OF c(3) l(2), of a kh' nx'] d
    have "chain nx' kh' (ks @ [a]) None" "\<forall>y. y \<notin> set ks \<longrightarrow> nx' y = ?nx y" by auto
    moreover have "chain nx' (nx a) rest None" "chain nx' th ts None"
      using chain_frame [OF c(1) calculation(2)] chain_frame [OF c(2) calculation(2)] dj by simp_all
    ultimately show "take_state nx' (nx a) rest th tt ts kh' (Some a) (ks @ [a])"
      using d l by (auto simp: take_state_def)
  }
qed

lemma TakeIf_loop_spec:
  "take_state nx n rest th tt ts kh kl ks \<Longrightarrow>
   \<exists>nx' th' kh'. TakeIf_loop P n nx th tt kh kl = Some (nx', th', kh', last_ptr (ks @ filter (\<lambda>x. \<not> P x) rest)) \<and>
     chain nx' th' (ts @ filter P rest) None \<and> chain nx' kh' (ks @ filter (\<lambda>x. \<not> P x) rest) None"
proof (induction rest arbitrary: nx n th tt ts kh kl ks)
  case Nil
  then show ?case by (subst TakeIf_loop.simps) (auto simp: take_state_def)
next
  case (Cons a rest)
  then have n: "n = Some a" by (simp add: take_state_def)
  note st = take_state_step [OF Cons.prems [unfolded n]]
  show ?case
  proof (cases "P a")
    case True
    obtain th' nx' where e: "append_link th tt a (nx(a := None)) = (th', nx')" by fastforce
    from Cons.IH [OF st(1) [OF e]] show ?thesis
      using True e n by (subst TakeIf_loop.simps) (simp add: Let_def)
  next
    case False
    obtain kh' nx' where e: "append_link kh kl a (nx(a := None)) = (kh', nx')" by fastforce
    from Cons.IH [OF st(2) [OF e]] show ?thesis
      using False e n by (subst TakeIf_loop.simps) (simp add: Let_def)
  qed
qed

lemma TakeIf_spec:
  assumes "wl_inv w xs"
  shows "\<exists>p w'. TakeIf P w = Some (p, w') \<and> wl_inv w' (filter (\<lambda>x. \<not> P x) xs) \<and>
     chain (wl_next w') p (filter P xs) None"
proof -
  have "take_state (wl_next w) (wl_head w) xs None None [] None None []"
    using assms by (simp add: take_state_def wl_inv_def)
  from TakeIf_loop_spec [OF this, of P] assms show ?thesis
    by (auto simp: TakeIf_def wl_inv_def)
qed

interpretation wl: fifo_waiters wl_inv wl_empty wl_Empty PushBack PopFront TakeIf wl_Remove wl_next
proof (unfold_locales, goal_cases)
  case 1 show ?case by (simp add: wl_inv_def wl_empty_def)
next
  case (2 q xs) then show ?case by (auto simp: wl_inv_def wl_Empty_def chain_None_iff chain_empty_iff)
next
  case (3 q xs n) then show ?case by (rule PushBack_inv)
next
  case (4 q) then show ?case by (simp add: wl_inv_def PopFront_def)
next
  case (5 q x xs) then show ?case by (rule PopFront_Cons)
next
  case (6 q xs P) then show ?case by (rule TakeIf_spec)
next
  case (7 q xs n) then show ?case by (rule Remove_spec)
qed

section \<open>Properties\<close>

text \<open>Waiters queued with \<open>PushBack\<close> leave with \<open>PopFront\<close> oldest first; \<open>Remove\<close> of any node reports
  exactly whether it was still queued, terminates, and takes only that node out of the order.\<close>
theorem waiters_leave_in_order:
  assumes "distinct ys"
  shows "\<exists>w'. wl_Remove n (fold PushBack ys wl_empty) = Some (n \<in> set ys, w') \<and>
    fst (wl.pop_n (length ys) w') = filter (\<lambda>y. y \<noteq> n) ys"
proof -
  have "wl_inv (fold PushBack ys wl_empty) ys"
    using wl.push_all [OF wl.inv_empty, of ys] assms by simp
  from wl.remove_spec [OF this, of n] obtain w' where
    w': "wl_Remove n (fold PushBack ys wl_empty) = Some (n \<in> set ys, w')"
      "wl_inv w' (filter (\<lambda>y. y \<noteq> n) ys)" by blast
  have "length (filter (\<lambda>y. y \<noteq> n) ys) \<le> length ys" by simp
  with wl.pop_n_spec [OF w'(2), of "length ys"] w'(1) show ?thesis by auto
qed

theorem waiters_leave_in_order_witness:
  "\<exists>w'. wl_Remove 1 (fold PushBack [3, 1, 2] wl_empty) = Some (1 \<in> set [3, 1, 2], w') \<and>
    fst (wl.pop_n (length [3::nat, 1, 2]) w') = [3, 2]"
  using waiters_leave_in_order [of "[3, 1, 2]" 1] by simp

text \<open>\<open>TakeIf\<close> terminates and splits the queue: the nodes the predicate accepts come back as a
  null-terminated chain, oldest first, and the others stay queued in their order with a correct tail.\<close>
theorem TakeIf_splits_in_order:
  assumes "wl_inv w xs"
  shows "\<exists>p w'. TakeIf P w = Some (p, w') \<and> chain (wl_next w') p (filter P xs) None \<and>
    wl_inv w' (filter (\<lambda>x. \<not> P x) xs)"
  using wl.take_if_spec [OF assms, of P] by blast

theorem TakeIf_splits_in_order_witness:
  "\<exists>p w'. TakeIf even (fold PushBack [4, 1, 2] wl_empty) = Some (p, w') \<and>
    chain (wl_next w') p [4, 2] None \<and> wl_inv w' [1]"
proof -
  have "wl_inv (fold PushBack [4, 1, 2] wl_empty) [4, 1, 2]"
    by (simp add: PushBack_def wl_empty_def wl_inv_def last_ptr_def)
  from TakeIf_splits_in_order [OF this, of even] show ?thesis by simp
qed

end
