(* ===== verification/SchedPrimitives.thy ===== *)
theory SchedPrimitives
  imports WaitLists CancelTokens TaskTypes
begin

text \<open>
  The suspending mutex, semaphore and condition variable (\<^verbatim>\<open>src/TaskScheduler.cpp\<close>, classes in
  \<^verbatim>\<open>include/TaskScheduler.h\<close>) on top of the pointer-level waiter queue. A critical section under the
  primitive's spin lock is one definition; the loops of \<open>Unlock\<close>, \<open>Signal\<close> and \<open>Notify_One\<close>
  release the lock between iterations, so each iteration is a definition of its own and the loop is
  built from it. What the code does to the outside (suspending the caller, resuming a fiber,
  waking a coroutine, notifying a bare thread) is recorded in order in a log.
\<close>

section \<open>Nodes, callers and effects\<close>

datatype WaitResult = WOk | WCancelled

record WaitNode =
  wn_fiber :: ptr
  wn_coro :: ptr
  wn_result :: ptr
  wn_token :: u32

datatype effect = BeginSuspended nat pin | Resumed nat | TaskWoken nat | BareNotified

text \<open>What the primitives only read: whether the scheduler runs, who owns a fiber, the tasks' cancel
  flags and the table of cancel scopes.\<close>

record prim_env =
  pe_initialized :: bool
  pe_owningTask :: "nat \<Rightarrow> ptr"
  pe_task :: "nat \<Rightarrow> Task"
  pe_scopes :: cancel_table

record prim_world =
  pw_nodes :: "nat \<Rightarrow> WaitNode"
  pw_results :: "nat \<Rightarrow> WaitResult"
  pw_log :: "effect list"

definition emit :: "effect \<Rightarrow> prim_world \<Rightarrow> prim_world" where
  "emit e w = w\<lparr>pw_log := pw_log w @ [e]\<rparr>"

definition set_node :: "nat \<Rightarrow> WaitNode \<Rightarrow> prim_world \<Rightarrow> prim_world" where
  "set_node n nd w = w\<lparr>pw_nodes := (pw_nodes w)(n := nd)\<rparr>"

definition set_result :: "ptr \<Rightarrow> WaitResult \<Rightarrow> prim_world \<Rightarrow> prim_world" where
  "set_result res r w = (case res of None \<Rightarrow> w | Some a \<Rightarrow> w\<lparr>pw_results := (pw_results w)(a := r)\<rparr>)"

definition IsTaskCancelled :: "prim_env \<Rightarrow> ptr \<Rightarrow> bool" where
  "IsTaskCancelled e t =
    (case t of None \<Rightarrow> False
     | Some t \<Rightarrow> if tk_cancelledDirect (pe_task e t) then True
               else CancelToken_Cancelled (pe_scopes e) (tk_cancelToken (pe_task e t)))"

definition task_token :: "prim_env \<Rightarrow> ptr \<Rightarrow> u32" where
  "task_token e t = (case t of None \<Rightarrow> kNone | Some t \<Rightarrow> tk_cancelToken (pe_task e t))"

definition node_task :: "prim_env \<Rightarrow> WaitNode \<Rightarrow> ptr" where
  "node_task e nd = (case wn_fiber nd of Some f \<Rightarrow> pe_owningTask e f | None \<Rightarrow> wn_coro nd)"

definition wake_node :: "prim_env \<Rightarrow> WaitNode \<Rightarrow> prim_world \<Rightarrow> prim_world" where
  "wake_node e nd w =
    (case wn_fiber nd of
       Some f \<Rightarrow> emit (Resumed f) w
     | None \<Rightarrow> (case wn_coro nd of
         Some co \<Rightarrow> if pe_initialized e then emit (TaskWoken co) w else w
       | None \<Rightarrow> w))"

text \<open>A queued waiter that asked for a cancellable wait and whose task is cancelled by now.\<close>

definition skipped :: "prim_env \<Rightarrow> WaitNode \<Rightarrow> bool" where
  "skipped e nd \<longleftrightarrow> wn_result nd \<noteq> None \<and> IsTaskCancelled e (node_task e nd)"

section \<open>Cancelling waiters, the same code in all three primitives\<close>

definition cancel_victim :: "prim_env \<Rightarrow> u32 \<Rightarrow> WaitNode \<Rightarrow> bool" where
  "cancel_victim e tok nd \<longleftrightarrow>
    wn_result nd \<noteq> None \<and> (\<not> CancelToken_Valid tok \<or> CancelToken_IsWithin (pe_scopes e) (wn_token nd) tok)"

definition cancel_wake :: "prim_env \<Rightarrow> WaitNode \<Rightarrow> prim_world \<Rightarrow> prim_world" where
  "cancel_wake e nd w = wake_node e nd (set_result (wn_result nd) WCancelled w)"

partial_function (option) wake_victims ::
    "prim_env \<Rightarrow> (nat \<Rightarrow> ptr) \<Rightarrow> ptr \<Rightarrow> prim_world \<Rightarrow> prim_world option" where
  "wake_victims e nx victims w =
    (case victims of
       None \<Rightarrow> Some w
     | Some n \<Rightarrow> wake_victims e nx (nx n) (cancel_wake e (pw_nodes w n) w))"

definition cancel_queue :: "prim_env \<Rightarrow> u32 \<Rightarrow> wait_list \<Rightarrow> prim_world \<Rightarrow> (wait_list \<times> prim_world) option" where
  "cancel_queue e tok q w =
    (case TakeIf (\<lambda>n. cancel_victim e tok (pw_nodes w n)) q of
       None \<Rightarrow> None
     | Some (victims, q') \<Rightarrow> map_option (Pair q') (wake_victims e (wl_next q') victims w))"

section \<open>The mutex\<close>

record SchedulerMutex =
  mx_locked :: bool
  mx_lockHolder :: ptr
  mx_waiters :: wait_list
  mx_bareWaiters :: int

definition new_mutex :: SchedulerMutex where
  "new_mutex = \<lparr>mx_locked = False, mx_lockHolder = None, mx_waiters = wl_empty, mx_bareWaiters = 0\<rparr>"

text \<open>\<open>t_heldMutexes\<close> of the calling thread is the extra \<open>u32\<close> of the operations that change it.\<close>

definition mutex_Try_Lock :: "bool \<Rightarrow> ptr \<Rightarrow> SchedulerMutex \<Rightarrow> u32 \<Rightarrow> bool \<times> SchedulerMutex \<times> u32" where
  "mutex_Try_Lock onBare caller m held =
    (if \<not> mx_locked m
     then (True, m\<lparr>mx_locked := True, mx_lockHolder := caller\<rparr>, if onBare then held + 1 else held)
     else (False, m, held))"

text \<open>\<open>Lock\<close> of a fiber up to its context switch: \<open>True\<close> when it returned with the lock.\<close>

definition mutex_Lock ::
    "nat \<Rightarrow> ptr \<Rightarrow> nat \<Rightarrow> pin \<Rightarrow> SchedulerMutex \<Rightarrow> prim_world \<Rightarrow> bool \<times> SchedulerMutex \<times> prim_world" where
  "mutex_Lock current caller node p m w =
    (if \<not> mx_locked m then (True, m\<lparr>mx_locked := True, mx_lockHolder := caller\<rparr>, w)
     else (False, m\<lparr>mx_waiters := PushBack node (mx_waiters m)\<rparr>,
           set_node node \<lparr>wn_fiber = Some current, wn_coro = None, wn_result = None, wn_token = kNone\<rparr>
             (emit (BeginSuspended current p) w)))"

definition mutex_Lock_resumed :: "ptr \<Rightarrow> SchedulerMutex \<Rightarrow> SchedulerMutex" where
  "mutex_Lock_resumed caller m = m\<lparr>mx_lockHolder := caller\<rparr>"

text \<open>\<open>LockCancellable\<close> of a fiber: \<open>Some r\<close> when it returned at once, \<open>None\<close> when it suspended.\<close>

definition mutex_LockCancellable ::
    "prim_env \<Rightarrow> nat \<Rightarrow> ptr \<Rightarrow> nat \<Rightarrow> nat \<Rightarrow> pin \<Rightarrow> SchedulerMutex \<Rightarrow> prim_world
     \<Rightarrow> WaitResult option \<times> SchedulerMutex \<times> prim_world" where
  "mutex_LockCancellable e current caller node res p m w =
    (if IsTaskCancelled e caller then (Some WCancelled, m, w)
     else if \<not> mx_locked m
     then (Some WOk, m\<lparr>mx_locked := True, mx_lockHolder := caller\<rparr>, set_result (Some res) WOk w)
     else (None, m\<lparr>mx_waiters := PushBack node (mx_waiters m)\<rparr>,
           set_node node \<lparr>wn_fiber = Some current, wn_coro = None, wn_result = Some res,
                          wn_token = task_token e caller\<rparr>
             (emit (BeginSuspended current p) (set_result (Some res) WOk w))))"

definition mutex_LockCancellable_resumed ::
    "ptr \<Rightarrow> nat \<Rightarrow> SchedulerMutex \<Rightarrow> prim_world \<Rightarrow> WaitResult \<times> SchedulerMutex" where
  "mutex_LockCancellable_resumed caller res m w =
    (if pw_results w res = WCancelled then (WCancelled, m)
     else (WOk, m\<lparr>mx_lockHolder := caller\<rparr>))"

definition mutex_LockAsyncEnqueue_result ::
    "prim_env \<Rightarrow> ptr \<Rightarrow> nat \<Rightarrow> ptr \<Rightarrow> SchedulerMutex \<Rightarrow> prim_world \<Rightarrow> bool \<times> SchedulerMutex \<times> prim_world" where
  "mutex_LockAsyncEnqueue_result e coroTask node res m w =
    (if \<not> mx_locked m
     then (True, m\<lparr>mx_locked := True, mx_lockHolder := coroTask\<rparr>, set_result res WOk w)
     else (False, m\<lparr>mx_waiters := PushBack node (mx_waiters m)\<rparr>,
           set_node node ((pw_nodes w node)\<lparr>wn_coro := coroTask, wn_result := res,
                                           wn_token := task_token e coroTask\<rparr>) w))"

definition mutex_LockAsyncEnqueue ::
    "ptr \<Rightarrow> nat \<Rightarrow> SchedulerMutex \<Rightarrow> prim_world \<Rightarrow> bool \<times> SchedulerMutex \<times> prim_world" where
  "mutex_LockAsyncEnqueue coroTask node m w =
    (if \<not> mx_locked m
     then (True, m\<lparr>mx_locked := True, mx_lockHolder := coroTask\<rparr>, w)
     else (False, m\<lparr>mx_waiters := PushBack node (mx_waiters m)\<rparr>,
           set_node node ((pw_nodes w node)\<lparr>wn_coro := coroTask\<rparr>) w))"

text \<open>One iteration of the loop of \<open>Unlock\<close>: the node popped under the lock, and whether to go on.\<close>

definition Unlock_iter ::
    "prim_env \<Rightarrow> SchedulerMutex \<Rightarrow> prim_world \<Rightarrow> bool \<times> ptr \<times> SchedulerMutex \<times> prim_world" where
  "Unlock_iter e m w =
    (case PopFront (mx_waiters m) of (next, q) \<Rightarrow>
       (case next of
          None \<Rightarrow> (False, None, m\<lparr>mx_waiters := q, mx_locked := False\<rparr>, w)
        | Some n \<Rightarrow>
            (let nd = pw_nodes w n; m1 = m\<lparr>mx_waiters := q\<rparr> in
             if skipped e nd then (True, None, m1, cancel_wake e nd w)
             else (False, Some n, m1, set_result (wn_result nd) WOk w))))"

partial_function (option) Unlock_loop ::
    "prim_env \<Rightarrow> SchedulerMutex \<Rightarrow> prim_world \<Rightarrow> (ptr \<times> SchedulerMutex \<times> prim_world) option" where
  "Unlock_loop e m w =
    (case Unlock_iter e m w of (again, next, m1, w1) \<Rightarrow>
       if again then Unlock_loop e m1 w1 else Some (next, m1, w1))"

definition notify_bare :: "SchedulerMutex \<Rightarrow> prim_world \<Rightarrow> prim_world" where
  "notify_bare m w = (if mx_bareWaiters m \<noteq> 0 then emit BareNotified w else w)"

definition Unlock_hand_over ::
    "prim_env \<Rightarrow> ptr \<Rightarrow> SchedulerMutex \<Rightarrow> prim_world \<Rightarrow> SchedulerMutex \<times> prim_world" where
  "Unlock_hand_over e next m w =
    (case next of
       None \<Rightarrow> (m, notify_bare m w)
     | Some n \<Rightarrow>
        (case wn_fiber (pw_nodes w n) of
           Some f \<Rightarrow> (m, emit (Resumed f) w)
         | None \<Rightarrow>
            (case wn_coro (pw_nodes w n) of
               Some co \<Rightarrow> (m\<lparr>mx_lockHolder := Some co\<rparr>,
                          if pe_initialized e then emit (TaskWoken co) w else w)
             | None \<Rightarrow> (m, notify_bare m w))))"

definition mutex_Unlock ::
    "prim_env \<Rightarrow> bool \<Rightarrow> SchedulerMutex \<Rightarrow> prim_world \<Rightarrow> u32 \<Rightarrow> (SchedulerMutex \<times> prim_world \<times> u32) option" where
  "mutex_Unlock e onBare m w held =
    (let held' = (if onBare \<and> held > 0 then held - 1 else held) in
     map_option (\<lambda>(next, m1, w1). case Unlock_hand_over e next m1 w1 of (m2, w2) \<Rightarrow> (m2, w2, held'))
       (Unlock_loop e (m\<lparr>mx_lockHolder := None\<rparr>) w))"

definition mutex_CancelWaiters ::
    "prim_env \<Rightarrow> u32 \<Rightarrow> SchedulerMutex \<Rightarrow> prim_world \<Rightarrow> (SchedulerMutex \<times> prim_world) option" where
  "mutex_CancelWaiters e tok m w =
    map_option (\<lambda>(q, w'). (m\<lparr>mx_waiters := q\<rparr>, w')) (cancel_queue e tok (mx_waiters m) w)"

text \<open>A caller without a fiber first tries a bounded number of times, other threads running in
  between (\<open>others k\<close> is what they did to the mutex before attempt \<open>k\<close>); a task then calls the
  violation hook or aborts, a bare thread registers and waits on the condition variable.\<close>

datatype NoFiberOutcome = LockTaken | HookCalled | LockAborted

definition kNoFiberSpins :: nat where "kNoFiberSpins = 256"

fun no_fiber_spin ::
    "(nat \<Rightarrow> SchedulerMutex \<Rightarrow> SchedulerMutex) \<Rightarrow> nat \<Rightarrow> nat \<Rightarrow> ptr \<Rightarrow> SchedulerMutex \<Rightarrow> u32
     \<Rightarrow> bool \<times> SchedulerMutex \<times> u32" where
  "no_fiber_spin others i 0 caller m held = (False, m, held)"
| "no_fiber_spin others i (Suc k) caller m held =
    (case mutex_Try_Lock True caller (others i m) held of
       (True, m1, held1) \<Rightarrow> (True, m1, held1)
     | (False, m1, held1) \<Rightarrow> no_fiber_spin others (Suc i) k caller m1 held1)"

definition mutex_Lock_no_fiber ::
    "(nat \<Rightarrow> SchedulerMutex \<Rightarrow> SchedulerMutex) \<Rightarrow> bool \<Rightarrow> ptr \<Rightarrow> SchedulerMutex \<Rightarrow> u32
     \<Rightarrow> NoFiberOutcome \<times> SchedulerMutex \<times> u32" where
  "mutex_Lock_no_fiber others hook caller m held =
    (case mutex_Try_Lock True caller m held of
       (True, m1, held1) \<Rightarrow> (LockTaken, m1, held1)
     | (False, m1, held1) \<Rightarrow>
        (case no_fiber_spin others 0 kNoFiberSpins caller m1 held1 of
           (True, m2, held2) \<Rightarrow> (LockTaken, m2, held2)
         | (False, m2, held2) \<Rightarrow> (if hook then HookCalled else LockAborted, m2, held2)))"

definition mutex_bare_register :: "SchedulerMutex \<Rightarrow> SchedulerMutex" where
  "mutex_bare_register m = m\<lparr>mx_bareWaiters := mx_bareWaiters m + 1\<rparr>"

definition mutex_bare_leave :: "SchedulerMutex \<Rightarrow> SchedulerMutex" where
  "mutex_bare_leave m = m\<lparr>mx_bareWaiters := mx_bareWaiters m - 1\<rparr>"

section \<open>The semaphore\<close>

record SchedulerSemaphore =
  sem_waiters :: wait_list
  sem_permits :: int
  sem_maxPermits :: int

definition new_semaphore :: "int \<Rightarrow> int \<Rightarrow> SchedulerSemaphore" where
  "new_semaphore initial mx = \<lparr>sem_waiters = wl_empty, sem_permits = initial, sem_maxPermits = mx\<rparr>"

definition sem_Try_Wait :: "SchedulerSemaphore \<Rightarrow> bool \<times> SchedulerSemaphore" where
  "sem_Try_Wait s =
    (if sem_permits s > 0 then (True, s\<lparr>sem_permits := sem_permits s - 1\<rparr>) else (False, s))"

definition sem_Wait ::
    "nat \<Rightarrow> nat \<Rightarrow> pin \<Rightarrow> SchedulerSemaphore \<Rightarrow> prim_world \<Rightarrow> bool \<times> SchedulerSemaphore \<times> prim_world" where
  "sem_Wait current node p s w =
    (if sem_permits s > 0 then (True, s\<lparr>sem_permits := sem_permits s - 1\<rparr>, w)
     else (False, s\<lparr>sem_waiters := PushBack node (sem_waiters s)\<rparr>,
           set_node node \<lparr>wn_fiber = Some current, wn_coro = None, wn_result = None, wn_token = kNone\<rparr>
             (emit (BeginSuspended current p) w)))"

text \<open>The second cancellation test is inside the lock; \<open>e\<close> is what the first read, \<open>e'\<close> the second.\<close>

definition sem_WaitCancellable ::
    "prim_env \<Rightarrow> prim_env \<Rightarrow> nat \<Rightarrow> ptr \<Rightarrow> nat \<Rightarrow> nat \<Rightarrow> pin \<Rightarrow> SchedulerSemaphore \<Rightarrow> prim_world
     \<Rightarrow> WaitResult option \<times> SchedulerSemaphore \<times> prim_world" where
  "sem_WaitCancellable e e' current caller node res p s w =
    (if IsTaskCancelled e caller then (Some WCancelled, s, w)
     else if sem_permits s > 0
     then (Some WOk, s\<lparr>sem_permits := sem_permits s - 1\<rparr>, set_result (Some res) WOk w)
     else if IsTaskCancelled e' caller then (Some WCancelled, s, set_result (Some res) WOk w)
     else (None, s\<lparr>sem_waiters := PushBack node (sem_waiters s)\<rparr>,
           set_node node \<lparr>wn_fiber = Some current, wn_coro = None, wn_result = Some res,
                          wn_token = task_token e caller\<rparr>
             (emit (BeginSuspended current p) (set_result (Some res) WOk w))))"

definition sem_WaitAsyncEnqueue ::
    "prim_env \<Rightarrow> ptr \<Rightarrow> nat \<Rightarrow> ptr \<Rightarrow> SchedulerSemaphore \<Rightarrow> prim_world
     \<Rightarrow> bool \<times> SchedulerSemaphore \<times> prim_world" where
  "sem_WaitAsyncEnqueue e coroTask node res s w =
    (if sem_permits s > 0
     then (True, s\<lparr>sem_permits := sem_permits s - 1\<rparr>, set_result res WOk w)
     else if IsTaskCancelled e coroTask then (True, s, set_result res WCancelled w)
     else (False, s\<lparr>sem_waiters := PushBack node (sem_waiters s)\<rparr>,
           set_node node ((pw_nodes w node)\<lparr>wn_coro := coroTask, wn_result := res,
                                           wn_token := task_token e coroTask\<rparr>) w))"

definition Signal_iter ::
    "prim_env \<Rightarrow> SchedulerSemaphore \<Rightarrow> prim_world \<Rightarrow> bool \<times> unit \<times> SchedulerSemaphore \<times> prim_world" where
  "Signal_iter e s w =
    (case PopFront (sem_waiters s) of (next, q) \<Rightarrow>
       (case next of
          None \<Rightarrow> (False, (), s\<lparr>sem_waiters := q, sem_permits :=
                     (if sem_permits s < sem_maxPermits s then sem_permits s + 1 else sem_permits s)\<rparr>, w)
        | Some n \<Rightarrow>
            (let nd = pw_nodes w n; skip = skipped e nd in
             (skip, (), s\<lparr>sem_waiters := q\<rparr>,
              wake_node e nd (set_result (wn_result nd) (if skip then WCancelled else WOk) w)))))"

partial_function (option) Signal_loop ::
    "prim_env \<Rightarrow> SchedulerSemaphore \<Rightarrow> prim_world \<Rightarrow> (unit \<times> SchedulerSemaphore \<times> prim_world) option" where
  "Signal_loop e s w =
    (case Signal_iter e s w of (again, r, s1, w1) \<Rightarrow>
       if again then Signal_loop e s1 w1 else Some (r, s1, w1))"

definition sem_Signal :: "prim_env \<Rightarrow> SchedulerSemaphore \<Rightarrow> prim_world \<Rightarrow> (SchedulerSemaphore \<times> prim_world) option" where
  "sem_Signal e s w = map_option snd (Signal_loop e s w)"

definition sem_CancelWaiters ::
    "prim_env \<Rightarrow> u32 \<Rightarrow> SchedulerSemaphore \<Rightarrow> prim_world \<Rightarrow> (SchedulerSemaphore \<times> prim_world) option" where
  "sem_CancelWaiters e tok s w =
    map_option (\<lambda>(q, w'). (s\<lparr>sem_waiters := q\<rparr>, w')) (cancel_queue e tok (sem_waiters s) w)"

section \<open>The condition variable\<close>

record SchedulerConditionVariable =
  cv_waitingQueue :: wait_list

definition new_cv :: SchedulerConditionVariable where
  "new_cv = \<lparr>cv_waitingQueue = wl_empty\<rparr>"

text \<open>\<open>Wait\<close> of a fiber up to its context switch: queue first, then release the mutex. After the
  switch it takes the mutex again with \<open>mutex_Lock\<close>.\<close>

definition cv_Wait ::
    "prim_env \<Rightarrow> nat \<Rightarrow> nat \<Rightarrow> pin \<Rightarrow> SchedulerConditionVariable \<Rightarrow> SchedulerMutex \<Rightarrow> prim_world \<Rightarrow> u32
     \<Rightarrow> (SchedulerConditionVariable \<times> SchedulerMutex \<times> prim_world \<times> u32) option" where
  "cv_Wait e current node p c m w held =
    (let w1 = set_node node \<lparr>wn_fiber = Some current, wn_coro = None, wn_result = None, wn_token = kNone\<rparr> w;
         w2 = emit (BeginSuspended current p) w1;
         c1 = c\<lparr>cv_waitingQueue := PushBack node (cv_waitingQueue c)\<rparr> in
     map_option (Pair c1) (mutex_Unlock e False m w2 held))"

datatype cv_outcome = CvReturned WaitResult | CvSuspended

definition cv_WaitCancellable ::
    "prim_env \<Rightarrow> prim_env \<Rightarrow> nat \<Rightarrow> ptr \<Rightarrow> nat \<Rightarrow> nat \<Rightarrow> pin \<Rightarrow> SchedulerConditionVariable \<Rightarrow> SchedulerMutex
     \<Rightarrow> prim_world \<Rightarrow> u32 \<Rightarrow> (cv_outcome \<times> SchedulerConditionVariable \<times> SchedulerMutex \<times> prim_world \<times> u32) option" where
  "cv_WaitCancellable e e' current caller node res p c m w held =
    (if IsTaskCancelled e caller then Some (CvReturned WCancelled, c, m, w, held)
     else
      (let w1 = set_node node \<lparr>wn_fiber = Some current, wn_coro = None, wn_result = Some res,
                               wn_token = task_token e caller\<rparr> (set_result (Some res) WOk w) in
       if IsTaskCancelled e' caller then Some (CvReturned WCancelled, c, m, w1, held)
       else
        (let w2 = emit (BeginSuspended current p) w1;
             c1 = c\<lparr>cv_waitingQueue := PushBack node (cv_waitingQueue c)\<rparr> in
         map_option (\<lambda>r. (CvSuspended, c1, r)) (mutex_Unlock e False m w2 held))))"

definition cv_CancelWaiters ::
    "prim_env \<Rightarrow> u32 \<Rightarrow> SchedulerConditionVariable \<Rightarrow> prim_world
     \<Rightarrow> (SchedulerConditionVariable \<times> prim_world) option" where
  "cv_CancelWaiters e tok c w =
    map_option (\<lambda>(q, w'). (c\<lparr>cv_waitingQueue := q\<rparr>, w')) (cancel_queue e tok (cv_waitingQueue c) w)"

definition Notify_iter ::
    "prim_env \<Rightarrow> SchedulerConditionVariable \<Rightarrow> prim_world
     \<Rightarrow> bool \<times> unit \<times> SchedulerConditionVariable \<times> prim_world" where
  "Notify_iter e c w =
    (case PopFront (cv_waitingQueue c) of (next, q) \<Rightarrow>
       (case next of
          None \<Rightarrow> (False, (), c\<lparr>cv_waitingQueue := q\<rparr>, w)
        | Some n \<Rightarrow>
            (let nd = pw_nodes w n; skip = skipped e nd in
             (skip, (), c\<lparr>cv_waitingQueue := q\<rparr>,
              wake_node e nd (set_result (wn_result nd) (if skip then WCancelled else WOk) w)))))"

partial_function (option) Notify_loop ::
    "prim_env \<Rightarrow> SchedulerConditionVariable \<Rightarrow> prim_world
     \<Rightarrow> (unit \<times> SchedulerConditionVariable \<times> prim_world) option" where
  "Notify_loop e c w =
    (case Notify_iter e c w of (again, r, c1, w1) \<Rightarrow>
       if again then Notify_loop e c1 w1 else Some (r, c1, w1))"

definition Notify_One ::
    "prim_env \<Rightarrow> SchedulerConditionVariable \<Rightarrow> prim_world \<Rightarrow> (SchedulerConditionVariable \<times> prim_world) option" where
  "Notify_One e c w = map_option snd (Notify_loop e c w)"

definition notify_wake :: "prim_env \<Rightarrow> WaitNode \<Rightarrow> prim_world \<Rightarrow> prim_world" where
  "notify_wake e nd w =
    wake_node e nd (set_result (wn_result nd)
      (if IsTaskCancelled e (node_task e nd) then WCancelled else WOk) w)"

partial_function (option) Notify_All_loop ::
    "prim_env \<Rightarrow> (nat \<Rightarrow> ptr) \<Rightarrow> ptr \<Rightarrow> prim_world \<Rightarrow> prim_world option" where
  "Notify_All_loop e nx p w =
    (case p of
       None \<Rightarrow> Some w
     | Some n \<Rightarrow> Notify_All_loop e nx (nx n) (notify_wake e (pw_nodes w n) w))"

definition Notify_All ::
    "prim_env \<Rightarrow> SchedulerConditionVariable \<Rightarrow> prim_world \<Rightarrow> (SchedulerConditionVariable \<times> prim_world) option" where
  "Notify_All e c w =
    (case TakeAll (cv_waitingQueue c) of (n, q) \<Rightarrow>
       map_option (Pair (c\<lparr>cv_waitingQueue := q\<rparr>)) (Notify_All_loop e (wl_next q) n w))"

section \<open>Effects of a wake\<close>

lemma world_simps [simp]:
  "pw_nodes (emit ev w) = pw_nodes w" "pw_results (emit ev w) = pw_results w"
  "pw_log (emit ev w) = pw_log w @ [ev]"
  "pw_nodes (set_result res r w) = pw_nodes w" "pw_log (set_result res r w) = pw_log w"
  "pw_nodes (wake_node e nd w) = pw_nodes w" "pw_results (wake_node e nd w) = pw_results w"
  "pw_nodes (cancel_wake e nd w) = pw_nodes w" "pw_nodes (notify_wake e nd w) = pw_nodes w"
  by (auto simp: emit_def set_result_def wake_node_def cancel_wake_def notify_wake_def split: option.splits)

definition cancel_all :: "prim_env \<Rightarrow> (nat \<Rightarrow> WaitNode) \<Rightarrow> nat list \<Rightarrow> prim_world \<Rightarrow> prim_world" where
  "cancel_all e nodes ns w = fold (\<lambda>n. cancel_wake e (nodes n)) ns w"

lemma cancel_all_nodes [simp]: "pw_nodes (cancel_all e nodes ns w) = pw_nodes w"
  unfolding cancel_all_def by (induction ns arbitrary: w) auto

lemma cancel_all_simps [simp]:
  "cancel_all e nodes [] w = w"
  "cancel_all e nodes (n # ns) w = cancel_all e nodes ns (cancel_wake e (nodes n) w)"
  by (simp_all add: cancel_all_def)

lemma wake_victims_chain:
  "chain nx p ns None \<Longrightarrow> wake_victims e nx p w = Some (cancel_all e (pw_nodes w) ns w)"
  by (induction ns arbitrary: p w) (auto simp: wake_victims.simps)

lemma cancel_queue_spec:
  assumes "wl_inv q xs"
  shows "\<exists>q'. cancel_queue e tok q w =
      Some (q', cancel_all e (pw_nodes w) (filter (\<lambda>n. cancel_victim e tok (pw_nodes w n)) xs) w) \<and>
    wl_inv q' (filter (\<lambda>n. \<not> cancel_victim e tok (pw_nodes w n)) xs)"
  using wl.take_if_spec [OF assms, of "\<lambda>n. cancel_victim e tok (pw_nodes w n)"]
  by (auto simp: cancel_queue_def wake_victims_chain)

lemma Notify_All_chain:
  "chain nx p ns None \<Longrightarrow> Notify_All_loop e nx p w = Some (fold (\<lambda>n. notify_wake e (pw_nodes w n)) ns w)"
  by (induction ns arbitrary: p w) (auto simp: Notify_All_loop.simps)

text \<open>\<open>Notify_All\<close> returns, leaves the queue empty and wakes every waiter once, oldest first.\<close>

lemma Notify_All_wakes_everyone:
  assumes "wl_inv (cv_waitingQueue c) xs"
  shows "\<exists>c'. Notify_All e c w = Some (c', fold (\<lambda>n. notify_wake e (pw_nodes w n)) xs w) \<and> wl_inv (cv_waitingQueue c') []"
  using assms by (auto simp: Notify_All_def TakeAll_def wl_inv_def last_ptr_def Notify_All_chain)

section \<open>The loop that looks for a live waiter\<close>

text \<open>\<open>Unlock\<close>, \<open>Signal\<close> and \<open>Notify_One\<close> share one contract: pop the oldest waiter; if it is gone
  by cancellation wake it with \<open>Cancelled\<close> and go on, if it is live deliver to it, if there is none
  do what the primitive does with nobody waiting. \<open>popped\<close> is the primitive after one pop.\<close>

definition gone :: "prim_env \<Rightarrow> prim_world \<Rightarrow> nat list \<Rightarrow> nat list" where
  "gone e w xs = takeWhile (\<lambda>n. skipped e (pw_nodes w n)) xs"

definition live :: "prim_env \<Rightarrow> prim_world \<Rightarrow> nat list \<Rightarrow> nat list" where
  "live e w xs = dropWhile (\<lambda>n. skipped e (pw_nodes w n)) xs"

lemma live_Nil: "live e w xs = [] \<longleftrightarrow> (\<forall>n \<in> set xs. skipped e (pw_nodes w n))"
  by (simp add: live_def)

locale waking_loop =
  fixes e :: prim_env
    and iter :: "'m \<Rightarrow> prim_world \<Rightarrow> bool \<times> 'r \<times> 'm \<times> prim_world"
    and loop :: "'m \<Rightarrow> prim_world \<Rightarrow> ('r \<times> 'm \<times> prim_world) option"
    and queue :: "'m \<Rightarrow> wait_list"
    and popped :: "'m \<Rightarrow> 'm"
    and on_empty :: "'m \<Rightarrow> prim_world \<Rightarrow> 'r \<times> 'm \<times> prim_world"
    and on_live :: "nat \<Rightarrow> 'm \<Rightarrow> prim_world \<Rightarrow> 'r \<times> 'm \<times> prim_world"
  assumes loop_unfold: "loop m w = (case iter m w of (again, r, m1, w1) \<Rightarrow>
      if again then loop m1 w1 else Some (r, m1, w1))"
    and popped_queue: "queue (popped m) = snd (PopFront (queue m))"
    and iter_nil: "wl_inv (queue m) [] \<Longrightarrow> iter m w = (False, on_empty m w)"
    and iter_skip: "wl_inv (queue m) (n # xs) \<Longrightarrow> skipped e (pw_nodes w n) \<Longrightarrow>
      \<exists>r. iter m w = (True, r, popped m, cancel_wake e (pw_nodes w n) w)"
    and iter_live: "wl_inv (queue m) (n # xs) \<Longrightarrow> \<not> skipped e (pw_nodes w n) \<Longrightarrow>
      iter m w = (False, on_live n (popped m) w)"
begin

lemma popped_inv: "wl_inv (queue m) (n # xs) \<Longrightarrow> wl_inv (queue (popped m)) xs"
  using wl.pop_Cons [of "queue m" n xs] by (auto simp: popped_queue)

lemma popped_n_inv: "wl_inv (queue m) xs \<Longrightarrow> k \<le> length xs \<Longrightarrow> wl_inv (queue ((popped ^^ k) m)) (drop k xs)"
proof (induction k)
  case 0
  then show ?case by simp
next
  case (Suc k)
  then have "wl_inv (queue ((popped ^^ k) m)) (drop k xs)" "drop k xs = xs ! k # drop (Suc k) xs"
    by (auto simp: Cons_nth_drop_Suc)
  then show ?case using popped_inv by fastforce
qed

lemma live_queue:
  assumes "wl_inv (queue m) xs"
  shows "live e w xs = [] \<Longrightarrow> wl_inv (queue ((popped ^^ length (gone e w xs)) m)) []"
    and "live e w xs = n # rest \<Longrightarrow> wl_inv (queue ((popped ^^ Suc (length (gone e w xs))) m)) rest"
proof -
  have l: "live e w xs = drop (length (gone e w xs)) xs" by (simp add: live_def gone_def dropWhile_eq_drop)
  have le: "length (gone e w xs) \<le> length xs" by (simp add: gone_def length_takeWhile_le)
  show "live e w xs = [] \<Longrightarrow> wl_inv (queue ((popped ^^ length (gone e w xs)) m)) []"
    using popped_n_inv [OF assms le] l by simp
  assume r: "live e w xs = n # rest"
  then have "wl_inv (queue ((popped ^^ length (gone e w xs)) m)) (n # rest)"
    using popped_n_inv [OF assms le] l by simp
  from popped_inv [OF this] show "wl_inv (queue ((popped ^^ Suc (length (gone e w xs))) m)) rest" by simp
qed

theorem loop_delivers:
  assumes "wl_inv (queue m) xs"
  shows "loop m w = Some (let w' = cancel_all e (pw_nodes w) (gone e w xs) w; k = length (gone e w xs) in
    case live e w xs of [] \<Rightarrow> on_empty ((popped ^^ k) m) w' | n # rest \<Rightarrow> on_live n ((popped ^^ Suc k) m) w')"
  using assms
proof (induction xs arbitrary: m w)
  case Nil
  then show ?case by (subst loop_unfold) (auto simp: iter_nil gone_def live_def split: prod.splits)
next
  case (Cons n xs)
  show ?case
  proof (cases "skipped e (pw_nodes w n)")
    case True
    then obtain r where "iter m w = (True, r, popped m, cancel_wake e (pw_nodes w n) w)"
      using iter_skip [OF Cons.prems] by blast
    then have "loop m w = loop (popped m) (cancel_wake e (pw_nodes w n) w)"
      by (subst loop_unfold) simp
    then show ?thesis
      unfolding Cons.IH [OF popped_inv [OF Cons.prems], of "cancel_wake e (pw_nodes w n) w"] using True
      by (cases "live e w xs") (simp_all add: gone_def live_def Let_def funpow_swap1 del: dropWhile_eq_Nil_conv)
  next
    case False
    then show ?thesis by (subst loop_unfold) (auto simp: iter_live [OF Cons.prems False] gone_def live_def split: prod.splits)
  qed
qed

end

definition mx_popped :: "SchedulerMutex \<Rightarrow> SchedulerMutex" where
  "mx_popped m = m\<lparr>mx_waiters := snd (PopFront (mx_waiters m))\<rparr>"

definition sem_popped :: "SchedulerSemaphore \<Rightarrow> SchedulerSemaphore" where
  "sem_popped s = s\<lparr>sem_waiters := snd (PopFront (sem_waiters s))\<rparr>"

definition cv_popped :: "SchedulerConditionVariable \<Rightarrow> SchedulerConditionVariable" where
  "cv_popped c = c\<lparr>cv_waitingQueue := snd (PopFront (cv_waitingQueue c))\<rparr>"

definition bank_permit :: "SchedulerSemaphore \<Rightarrow> SchedulerSemaphore" where
  "bank_permit s = s\<lparr>sem_permits := (if sem_permits s < sem_maxPermits s then sem_permits s + 1 else sem_permits s)\<rparr>"

definition deliver :: "prim_env \<Rightarrow> nat \<Rightarrow> prim_world \<Rightarrow> prim_world" where
  "deliver e n w = wake_node e (pw_nodes w n) (set_result (wn_result (pw_nodes w n)) WOk w)"

interpretation mx: waking_loop e "Unlock_iter e" "Unlock_loop e" mx_waiters mx_popped
  "\<lambda>m w. (None, m\<lparr>mx_locked := False\<rparr>, w)"
  "\<lambda>n m w. (Some n, m, set_result (wn_result (pw_nodes w n)) WOk w)" for e
proof (unfold_locales, goal_cases)
  case (1 m w) show ?case by (rule Unlock_loop.simps)
next
  case (2 m) show ?case by (simp add: mx_popped_def)
next
  case (3 m w) then show ?case by (simp add: Unlock_iter_def wl.pop_Nil)
next
  case (4 m n xs w)
  then show ?case using wl.pop_Cons [OF 4(1)] by (auto simp: Unlock_iter_def mx_popped_def Let_def)
next
  case (5 m n xs w)
  then show ?case using wl.pop_Cons [OF 5(1)] by (auto simp: Unlock_iter_def mx_popped_def Let_def)
qed

interpretation sem: waking_loop e "Signal_iter e" "Signal_loop e" sem_waiters sem_popped
  "\<lambda>s w. ((), bank_permit s, w)" "\<lambda>n s w. ((), s, deliver e n w)" for e
proof (unfold_locales, goal_cases)
  case (1 m w) show ?case by (rule Signal_loop.simps)
next
  case (2 m) show ?case by (simp add: sem_popped_def)
next
  case (3 m w) then show ?case by (simp add: Signal_iter_def bank_permit_def wl.pop_Nil)
next
  case (4 m n xs w)
  then show ?case using wl.pop_Cons [OF 4(1)]
    by (auto simp: Signal_iter_def sem_popped_def cancel_wake_def Let_def)
next
  case (5 m n xs w)
  then show ?case using wl.pop_Cons [OF 5(1)]
    by (auto simp: Signal_iter_def sem_popped_def deliver_def Let_def)
qed

interpretation cv: waking_loop e "Notify_iter e" "Notify_loop e" cv_waitingQueue cv_popped
  "\<lambda>c w. ((), c, w)" "\<lambda>n c w. ((), c, deliver e n w)" for e
proof (unfold_locales, goal_cases)
  case (1 m w) show ?case by (rule Notify_loop.simps)
next
  case (2 m) show ?case by (simp add: cv_popped_def)
next
  case (3 m w) then show ?case by (simp add: Notify_iter_def wl.pop_Nil)
next
  case (4 m n xs w)
  then show ?case using wl.pop_Cons [OF 4(1)]
    by (auto simp: Notify_iter_def cv_popped_def cancel_wake_def Let_def)
next
  case (5 m n xs w)
  then show ?case using wl.pop_Cons [OF 5(1)]
    by (auto simp: Notify_iter_def cv_popped_def deliver_def Let_def)
qed

lemma popped_n_fields [simp]:
  "sem_permits ((sem_popped ^^ k) s) = sem_permits s" "sem_maxPermits ((sem_popped ^^ k) s) = sem_maxPermits s"
  "mx_locked ((mx_popped ^^ k) m) = mx_locked m" "mx_lockHolder ((mx_popped ^^ k) m) = mx_lockHolder m"
  "mx_bareWaiters ((mx_popped ^^ k) m) = mx_bareWaiters m"
  by (induction k) (simp_all add: sem_popped_def mx_popped_def)

section \<open>Invariants under any interleaving of critical sections\<close>

definition mutex_inv :: "SchedulerMutex \<Rightarrow> bool" where
  [inv_defs]: "mutex_inv m \<longleftrightarrow> (\<exists>xs. wl_inv (mx_waiters m) xs \<and> (xs \<noteq> [] \<longrightarrow> mx_locked m))"

definition sem_inv :: "SchedulerSemaphore \<Rightarrow> bool" where
  [inv_defs]: "sem_inv s \<longleftrightarrow> (\<exists>xs. wl_inv (sem_waiters s) xs \<and> (xs \<noteq> [] \<longrightarrow> sem_permits s = 0) \<and>
     0 \<le> sem_permits s \<and> sem_permits s \<le> sem_maxPermits s)"

definition fresh_node :: "nat \<Rightarrow> wait_list \<Rightarrow> bool" where
  "fresh_node n q \<longleftrightarrow> (\<forall>xs. wl_inv q xs \<longrightarrow> n \<notin> set xs)"

inductive mutex_step :: "SchedulerMutex \<times> prim_world \<Rightarrow> SchedulerMutex \<times> prim_world \<Rightarrow> bool" where
  m_try: "mutex_Try_Lock b t m h = (r, m', h') \<Longrightarrow> mutex_step (m, w) (m', w)"
| m_lock: "fresh_node n (mx_waiters m) \<Longrightarrow> mutex_Lock f t n p m w = (r, m', w') \<Longrightarrow> mutex_step (m, w) (m', w')"
| m_lockc: "fresh_node n (mx_waiters m) \<Longrightarrow> mutex_LockCancellable e f t n a p m w = (rc, m', w') \<Longrightarrow>
    mutex_step (m, w) (m', w')"
| m_async: "fresh_node n (mx_waiters m) \<Longrightarrow> mutex_LockAsyncEnqueue_result e t n res m w = (r, m', w') \<Longrightarrow>
    mutex_step (m, w) (m', w')"
| m_async_plain: "fresh_node n (mx_waiters m) \<Longrightarrow> mutex_LockAsyncEnqueue t n m w = (r, m', w') \<Longrightarrow>
    mutex_step (m, w) (m', w')"
| m_unlock: "Unlock_iter e m w = (r, nx, m', w') \<Longrightarrow> mutex_step (m, w) (m', w')"
| m_cancel: "mutex_CancelWaiters e tok m w = Some (m', w') \<Longrightarrow> mutex_step (m, w) (m', w')"
| m_holder: "mutex_step (m, w) (m\<lparr>mx_lockHolder := t\<rparr>, w)"

inductive sem_step :: "SchedulerSemaphore \<times> prim_world \<Rightarrow> SchedulerSemaphore \<times> prim_world \<Rightarrow> bool" where
  s_try: "sem_Try_Wait s = (r, s') \<Longrightarrow> sem_step (s, w) (s', w)"
| s_wait: "fresh_node n (sem_waiters s) \<Longrightarrow> sem_Wait f n p s w = (r, s', w') \<Longrightarrow> sem_step (s, w) (s', w')"
| s_waitc: "fresh_node n (sem_waiters s) \<Longrightarrow> sem_WaitCancellable e e' f t n a p s w = (rc, s', w') \<Longrightarrow>
    sem_step (s, w) (s', w')"
| s_async: "fresh_node n (sem_waiters s) \<Longrightarrow> sem_WaitAsyncEnqueue e t n res s w = (r, s', w') \<Longrightarrow>
    sem_step (s, w) (s', w')"
| s_signal: "Signal_iter e s w = (r, u, s', w') \<Longrightarrow> sem_step (s, w) (s', w')"
| s_cancel: "sem_CancelWaiters e tok s w = Some (s', w') \<Longrightarrow> sem_step (s, w) (s', w')"

lemma mutex_push_inv:
  "mutex_inv m \<Longrightarrow> mx_locked m \<Longrightarrow> fresh_node n (mx_waiters m) \<Longrightarrow>
   mutex_inv (m\<lparr>mx_waiters := PushBack n (mx_waiters m)\<rparr>)"
  unfolding mutex_inv_def fresh_node_def using PushBack_inv by fastforce

lemma sem_push_inv:
  "sem_inv s \<Longrightarrow> \<not> 0 < sem_permits s \<Longrightarrow> fresh_node n (sem_waiters s) \<Longrightarrow>
   sem_inv (s\<lparr>sem_waiters := PushBack n (sem_waiters s)\<rparr>)"
  unfolding sem_inv_def fresh_node_def using PushBack_inv by fastforce

lemma sem_take_inv: "sem_inv s \<Longrightarrow> 0 < sem_permits s \<Longrightarrow> sem_inv (s\<lparr>sem_permits := sem_permits s - 1\<rparr>)"
  by (auto simp: sem_inv_def)

lemma Unlock_iter_inv: "mutex_inv m \<Longrightarrow> Unlock_iter e m w = (r, nx, m', w') \<Longrightarrow> mutex_inv m'"
proof -
  assume i: "mutex_inv m" "Unlock_iter e m w = (r, nx, m', w')"
  then obtain xs where xs: "wl_inv (mx_waiters m) xs" "xs \<noteq> [] \<longrightarrow> mx_locked m" by (auto simp: mutex_inv_def)
  show ?thesis
  proof (cases xs)
    case Nil
    then show ?thesis using xs i(2) wl.pop_Nil by (auto simp: Unlock_iter_def mutex_inv_def)
  next
    case (Cons n ys)
    then show ?thesis using xs i(2) wl.pop_Cons [of "mx_waiters m" n ys]
      by (auto simp: Unlock_iter_def mutex_inv_def Let_def intro!: exI [of _ ys] split: if_splits)
  qed
qed

lemma Signal_iter_inv: "sem_inv s \<Longrightarrow> Signal_iter e s w = (r, u, s', w') \<Longrightarrow> sem_inv s'"
proof -
  assume i: "sem_inv s" "Signal_iter e s w = (r, u, s', w')"
  then obtain xs where xs: "wl_inv (sem_waiters s) xs" "xs \<noteq> [] \<longrightarrow> sem_permits s = 0"
    "0 \<le> sem_permits s" "sem_permits s \<le> sem_maxPermits s" by (auto simp: sem_inv_def)
  show ?thesis
  proof (cases xs)
    case Nil
    then show ?thesis using xs i(2) wl.pop_Nil by (auto simp: Signal_iter_def sem_inv_def)
  next
    case (Cons n ys)
    then show ?thesis using xs i(2) wl.pop_Cons [of "sem_waiters s" n ys]
      by (auto simp: Signal_iter_def sem_inv_def Let_def intro!: exI [of _ ys])
  qed
qed

lemma mutex_cancel_inv:
  "mutex_inv m \<Longrightarrow> mutex_CancelWaiters e tok m w = Some (m', w') \<Longrightarrow> mutex_inv m'"
  using cancel_queue_spec [of "mx_waiters m" _ e tok w]
  by (fastforce simp: mutex_CancelWaiters_def mutex_inv_def)

lemma sem_cancel_inv:
  "sem_inv s \<Longrightarrow> sem_CancelWaiters e tok s w = Some (s', w') \<Longrightarrow> sem_inv s'"
  using cancel_queue_spec [of "sem_waiters s" _ e tok w]
  by (fastforce simp: sem_CancelWaiters_def sem_inv_def)

lemma mutex_inv_fields [simp]:
  "mutex_inv (m\<lparr>mx_lockHolder := t\<rparr>) \<longleftrightarrow> mutex_inv m"
  "mutex_inv m \<Longrightarrow> mutex_inv (m\<lparr>mx_locked := True\<rparr>)"
  by (auto simp: mutex_inv_def)

interpretation mutex_sys: transition_system mutex_step "\<lambda>(m, w). mutex_inv m"
proof (unfold_locales, goal_cases)
  case (1 s t)
  from 1(2,1) show ?case
    by (induction rule: mutex_step.induct)
       (auto simp: mutex_Try_Lock_def mutex_Lock_def mutex_LockCancellable_def mutex_LockAsyncEnqueue_result_def
         mutex_LockAsyncEnqueue_def split: if_splits
         intro: mutex_push_inv Unlock_iter_inv mutex_cancel_inv)
qed

interpretation sem_sys: transition_system sem_step "\<lambda>(s, w). sem_inv s"
proof (unfold_locales, goal_cases)
  case (1 s t)
  from 1(2,1) show ?case
    by (induction rule: sem_step.induct)
       (auto simp: sem_Try_Wait_def sem_Wait_def sem_WaitCancellable_def sem_WaitAsyncEnqueue_def split: if_splits
         intro: sem_push_inv sem_take_inv Signal_iter_inv sem_cancel_inv)
qed

lemma new_prim_inv: "mutex_inv new_mutex" "0 \<le> i \<Longrightarrow> i \<le> mx \<Longrightarrow> sem_inv (new_semaphore i mx)"
  using wl.inv_empty by (auto simp: mutex_inv_def sem_inv_def new_mutex_def new_semaphore_def)

section \<open>Properties\<close>

text \<open>(C20) Whatever critical sections of a semaphore interleave, a permit is never available while a
  waiter is queued, and the permits stay between zero and the maximum; the queue stays well formed.\<close>
theorem semaphore_never_banks_beside_a_waiter:
  assumes "0 \<le> i" and "i \<le> mx" and "reach sem_step (new_semaphore i mx, w0) (s, w)"
  shows "0 \<le> sem_permits s \<and> sem_permits s \<le> sem_maxPermits s \<and>
    (\<exists>xs. wl_inv (sem_waiters s) xs \<and> (xs \<noteq> [] \<longrightarrow> sem_permits s = 0))"
  using sem_sys.reach_inv [OF assms(3)] new_prim_inv(2) [OF assms(1,2)] by (auto simp: sem_inv_def)

definition idle_env :: prim_env where
  "idle_env = \<lparr>pe_initialized = True, pe_owningTask = Some, pe_task = (\<lambda>_. new_Task 0 0 Normal), pe_scopes = cancel_init\<rparr>"

definition idle_world :: prim_world where
  "idle_world = \<lparr>pw_nodes = (\<lambda>_. \<lparr>wn_fiber = None, wn_coro = None, wn_result = None, wn_token = kNone\<rparr>),
     pw_results = (\<lambda>_. WOk), pw_log = []\<rparr>"

theorem semaphore_never_banks_beside_a_waiter_witness:
  "\<exists>s w. reach sem_step (new_semaphore 0 1, idle_world) (s, w) \<and> wl_head (sem_waiters s) = Some 7 \<and>
    0 \<le> sem_permits s \<and> sem_permits s \<le> sem_maxPermits s"
proof -
  define s where "s = (new_semaphore 0 1)\<lparr>sem_waiters := PushBack 7 wl_empty\<rparr>"
  have "fresh_node 7 (sem_waiters (new_semaphore 0 1))"
    by (auto simp: fresh_node_def new_semaphore_def wl_empty_def wl_inv_def chain_None_iff)
  then have "sem_step (new_semaphore 0 1, idle_world) (s, snd (snd (sem_Wait 3 7 pinNone (new_semaphore 0 1) idle_world)))"
    by (rule s_wait [where f = 3 and p = pinNone and r = False]) (simp add: sem_Wait_def new_semaphore_def s_def)
  from reach_one [of sem_step, OF this] have r: "reach sem_step (new_semaphore 0 1, idle_world) (s, snd (snd (sem_Wait 3 7 pinNone (new_semaphore 0 1) idle_world)))" .
  from semaphore_never_banks_beside_a_waiter [OF _ _ r] show ?thesis
    using r by (intro exI conjI) (auto simp: s_def PushBack_def wl_empty_def)
qed

text \<open>(C21) \<open>Signal\<close> on every branch: it returns; the cancelled waiters in front of the first live one are
  woken with \<open>Cancelled\<close> and do not consume the signal; the first live waiter is woken with \<open>Ok\<close> and
  no permit is banked; only when nobody live is queued is a permit banked, up to the maximum.\<close>
theorem Signal_reaches_first_live_waiter:
  assumes "wl_inv (sem_waiters s) xs"
  shows "\<exists>s' w'. sem_Signal e s w = Some (s', w') \<and>
    (let w1 = cancel_all e (pw_nodes w) (gone e w xs) w in
     w' = (case live e w xs of [] \<Rightarrow> w1 | n # rest \<Rightarrow> deliver e n w1)) \<and>
    wl_inv (sem_waiters s') (tl (live e w xs)) \<and> sem_maxPermits s' = sem_maxPermits s \<and>
    sem_permits s' = (if live e w xs = [] \<and> sem_permits s < sem_maxPermits s
                      then sem_permits s + 1 else sem_permits s)"
proof (cases "live e w xs")
  case Nil
  then show ?thesis using sem.loop_delivers [OF assms, of e w] sem.live_queue(1) [OF assms Nil]
    by (simp add: sem_Signal_def bank_permit_def Let_def)
next
  case (Cons n rest)
  then show ?thesis
    using sem.loop_delivers [OF assms, of e w] sem.live_queue(2) [OF assms Cons]
      popped_n_fields(1,2) [of "Suc (length (gone e w xs))" s]
    by (simp add: sem_Signal_def Let_def del: funpow.simps)
qed

text \<open>A concrete queue for the witnesses: node 0 is a cancellable wait of a cancelled task, node 2 is live.\<close>

definition demo_env :: prim_env where
  "demo_env = idle_env\<lparr>pe_task := (\<lambda>t. (new_Task 0 0 Normal)\<lparr>tk_cancelledDirect := (t = 0)\<rparr>)\<rparr>"

definition demo_world :: prim_world where
  "demo_world = idle_world\<lparr>pw_nodes := (\<lambda>n. \<lparr>wn_fiber = Some n, wn_coro = None, wn_result = Some n, wn_token = kNone\<rparr>)\<rparr>"

definition demo_queue :: wait_list where
  "demo_queue = PushBack 2 (PushBack 0 wl_empty)"

lemma demo_queue_inv: "wl_inv demo_queue [0, 2]"
  using wl.push_all [OF wl.inv_empty, of "[0, 2]"] by (simp add: demo_queue_def)

lemma kNone_not_cancelled [simp]: "\<not> CancelToken_Cancelled t 0xFFFFFFFF" "\<not> CancelToken_Cancelled t kNone"
  by (simp_all add: CancelToken_Cancelled_def kMaxScopeDepth_def eval_nat_numeral kNone_def)

lemma demo_world_fields [simp]:
  "pw_nodes demo_world n = \<lparr>wn_fiber = Some n, wn_coro = None, wn_result = Some n, wn_token = kNone\<rparr>"
  "pw_results demo_world a = WOk" "pw_log demo_world = []"
  by (simp_all add: demo_world_def idle_world_def)

lemma demo_skipped: "skipped demo_env (pw_nodes demo_world n) \<longleftrightarrow> n = 0"
  by (auto simp: skipped_def demo_env_def node_task_def IsTaskCancelled_def idle_env_def new_Task_def)

lemma demo_split: "gone demo_env demo_world [0, 2] = [0]" "live demo_env demo_world [0, 2] = [2]"
  by (simp_all add: gone_def live_def demo_skipped del: demo_world_fields)

theorem Signal_reaches_first_live_waiter_witness:
  "\<exists>s' w'. sem_Signal demo_env \<lparr>sem_waiters = demo_queue, sem_permits = 0, sem_maxPermits = 5\<rparr> demo_world = Some (s', w') \<and>
    pw_log w' = [Resumed 0, Resumed 2] \<and> pw_results w' 0 = WCancelled \<and> pw_results w' 2 = WOk \<and> sem_permits s' = 0"
  using Signal_reaches_first_live_waiter [of "\<lparr>sem_waiters = demo_queue, sem_permits = 0, sem_maxPermits = 5\<rparr>"
      "[0, 2]" demo_env demo_world] demo_queue_inv
  by (auto simp: demo_split deliver_def cancel_wake_def wake_node_def set_result_def emit_def Let_def)

text \<open>\<open>Unlock\<close> on every branch: it returns; cancelled waiters in front are woken with \<open>Cancelled\<close>; if a
  live waiter is queued the mutex stays locked and that oldest live waiter alone is woken with \<open>Ok\<close>
  (direct hand-off, no barging); otherwise the mutex is free and a bare thread is notified if one
  waits.\<close>
theorem Unlock_hands_over_in_order:
  assumes "wl_inv (mx_waiters m) xs"
    and "\<forall>n \<in> set xs. wn_fiber (pw_nodes w n) \<noteq> None \<or> wn_coro (pw_nodes w n) \<noteq> None"
  shows "\<exists>m' w' held'. mutex_Unlock e onBare m w held = Some (m', w', held') \<and>
    (let w1 = cancel_all e (pw_nodes w) (gone e w xs) w in
     case live e w xs of
       [] \<Rightarrow> \<not> mx_locked m' \<and> mx_lockHolder m' = None \<and> w' = notify_bare m w1
     | n # rest \<Rightarrow> mx_locked m' = mx_locked m \<and> w' = deliver e n w1) \<and>
    wl_inv (mx_waiters m') (tl (live e w xs))"
proof -
  have i: "wl_inv (mx_waiters (m\<lparr>mx_lockHolder := None\<rparr>)) xs" using assms(1) by simp
  show ?thesis
  proof (cases "live e w xs")
    case Nil
    then show ?thesis using mx.loop_delivers [OF i, of e w] mx.live_queue(1) [OF i Nil]
      by (simp add: mutex_Unlock_def Unlock_hand_over_def notify_bare_def Let_def)
  next
    case (Cons n rest)
    have "n \<in> set xs" using Cons by (metis list.set_intros(1) live_def set_dropWhileD)
    then have "wn_fiber (pw_nodes w n) \<noteq> None \<or> wn_coro (pw_nodes w n) \<noteq> None" using assms(2) by blast
    then show ?thesis
      using mx.loop_delivers [OF i, of e w] mx.live_queue(2) [OF i Cons] Cons
        popped_n_fields(3) [of "Suc (length (gone e w xs))" "m\<lparr>mx_lockHolder := None\<rparr>"]
      by (auto simp: mutex_Unlock_def Unlock_hand_over_def deliver_def wake_node_def Let_def
          split: option.splits simp del: funpow.simps)
  qed
qed

theorem Unlock_hands_over_in_order_witness:
  "\<exists>m' w' held'. mutex_Unlock demo_env False
      \<lparr>mx_locked = True, mx_lockHolder = Some 9, mx_waiters = demo_queue, mx_bareWaiters = 1\<rparr> demo_world 0
     = Some (m', w', held') \<and> mx_locked m' \<and> pw_log w' = [Resumed 0, Resumed 2] \<and> wl_inv (mx_waiters m') []"
  using Unlock_hands_over_in_order [of "\<lparr>mx_locked = True, mx_lockHolder = Some 9, mx_waiters = demo_queue, mx_bareWaiters = 1\<rparr>"
      "[0, 2]" demo_world demo_env False 0] demo_queue_inv
  by (auto simp: demo_split deliver_def cancel_wake_def wake_node_def set_result_def emit_def Let_def)

text \<open>\<open>CancelWaiters(tok)\<close> of the three primitives returns, wakes exactly the queued cancellable waits
  whose token is within \<open>tok\<close> (all cancellable waits when no token is given), oldest first and each
  with the result \<open>Cancelled\<close>, leaves every other waiter queued in order, and touches no other state.\<close>
theorem CancelWaiters_wakes_exactly_the_scope:
  assumes "wl_inv (mx_waiters m) xs" "wl_inv (sem_waiters s) ys" "wl_inv (cv_waitingQueue c) zs"
  shows "\<exists>q1 q2 q3.
    mutex_CancelWaiters e tok m w = Some (m\<lparr>mx_waiters := q1\<rparr>,
      cancel_all e (pw_nodes w) (filter (\<lambda>n. cancel_victim e tok (pw_nodes w n)) xs) w) \<and>
    wl_inv q1 (filter (\<lambda>n. \<not> cancel_victim e tok (pw_nodes w n)) xs) \<and>
    sem_CancelWaiters e tok s w = Some (s\<lparr>sem_waiters := q2\<rparr>,
      cancel_all e (pw_nodes w) (filter (\<lambda>n. cancel_victim e tok (pw_nodes w n)) ys) w) \<and>
    wl_inv q2 (filter (\<lambda>n. \<not> cancel_victim e tok (pw_nodes w n)) ys) \<and>
    cv_CancelWaiters e tok c w = Some (c\<lparr>cv_waitingQueue := q3\<rparr>,
      cancel_all e (pw_nodes w) (filter (\<lambda>n. cancel_victim e tok (pw_nodes w n)) zs) w) \<and>
    wl_inv q3 (filter (\<lambda>n. \<not> cancel_victim e tok (pw_nodes w n)) zs)"
  using cancel_queue_spec [OF assms(1), of e tok w] cancel_queue_spec [OF assms(2), of e tok w]
    cancel_queue_spec [OF assms(3), of e tok w]
  by (auto simp: mutex_CancelWaiters_def sem_CancelWaiters_def cv_CancelWaiters_def)

theorem CancelWaiters_wakes_exactly_the_scope_witness:
  "\<exists>q2. sem_CancelWaiters demo_env kNone \<lparr>sem_waiters = demo_queue, sem_permits = 0, sem_maxPermits = 5\<rparr> demo_world =
     Some (\<lparr>sem_waiters = q2, sem_permits = 0, sem_maxPermits = 5\<rparr>, cancel_all demo_env (pw_nodes demo_world) [0, 2] demo_world) \<and>
   wl_inv q2 []"
  using CancelWaiters_wakes_exactly_the_scope [of new_mutex "[]" "\<lparr>sem_waiters = demo_queue, sem_permits = 0, sem_maxPermits = 5\<rparr>"
      "[0, 2]" new_cv "[]" demo_env kNone demo_world] demo_queue_inv wl.inv_empty
  by (auto simp: new_mutex_def new_cv_def cancel_victim_def CancelToken_Valid_def)

lemma deliver_log:
  "wn_fiber (pw_nodes w n) = Some f \<Longrightarrow> pw_log (deliver e n w) = pw_log w @ [Resumed f]"
  by (simp add: deliver_def wake_node_def)

text \<open>No lost notification: a fiber in \<open>Wait\<close> is queued before it lets go of the mutex, so a
  \<open>Notify_One\<close> issued at any time after the mutex is released reaches it once the earlier waiters
  are served: on a condition variable nobody else waits on, it is resumed and the queue is empty.\<close>
theorem cv_wait_then_notify_resumes:
  assumes "wl_inv (cv_waitingQueue c) []" and "mutex_inv m"
  shows "\<exists>c1 m1 w1 h1 c2 w2. cv_Wait e f n p c m w h = Some (c1, m1, w1, h1) \<and>
    (\<forall>w1'. pw_nodes w1' n = pw_nodes w1 n \<longrightarrow>
      (\<exists>c2 w2. Notify_One e c1 w1' = Some (c2, w2) \<and> pw_log w2 = pw_log w1' @ [Resumed f] \<and>
        wl_inv (cv_waitingQueue c2) []))"
proof -
  let ?nd = "\<lparr>wn_fiber = Some f, wn_coro = None, wn_result = None, wn_token = kNone\<rparr>"
  let ?w = "emit (BeginSuspended f p) (set_node n ?nd w)"
  obtain xs where xs: "wl_inv (mx_waiters (m\<lparr>mx_lockHolder := None\<rparr>)) xs" using assms(2) by (auto simp: mutex_inv_def)
  let ?c1 = "c\<lparr>cv_waitingQueue := PushBack n (cv_waitingQueue c)\<rparr>"
  have q: "wl_inv (cv_waitingQueue ?c1) [n]" using PushBack_inv [OF assms(1), of n] by simp
  have nodes: "mutex_Unlock e False m ?w h = Some (m1, w1, h1) \<Longrightarrow> pw_nodes w1 = pw_nodes ?w" for m1 w1 h1
    using mx.loop_delivers [OF xs, of e ?w]
    by (auto simp: mutex_Unlock_def Unlock_hand_over_def notify_bare_def Let_def split: list.splits option.splits if_splits)
  obtain m1 w1 h1 where u: "mutex_Unlock e False m ?w h = Some (m1, w1, h1)"
    using mx.loop_delivers [OF xs, of e ?w] by (fastforce simp: mutex_Unlock_def Let_def split: prod.splits)
  have "\<exists>c2 w2. Notify_One e ?c1 w1' = Some (c2, w2) \<and> pw_log w2 = pw_log w1' @ [Resumed f] \<and>
      wl_inv (cv_waitingQueue c2) []" if "pw_nodes w1' n = pw_nodes w1 n" for w1'
  proof -
    have nd: "pw_nodes w1' n = ?nd" using that nodes [OF u] by (simp add: set_node_def)
    then have l: "live e w1' [n] = [n]" "gone e w1' [n] = []" by (simp_all add: live_def gone_def skipped_def)
    show ?thesis using cv.loop_delivers [OF q, of e w1'] cv.live_queue(2) [OF q l(1)] l nd
      by (simp add: Notify_One_def Let_def deliver_log)
  qed
  then show ?thesis using u by (auto simp: cv_Wait_def Let_def)
qed

theorem cv_wait_then_notify_resumes_witness:
  "\<exists>c1 m1 w1 h1 c2 w2. cv_Wait demo_env 4 8 pinNone new_cv (new_mutex\<lparr>mx_locked := True\<rparr>) idle_world 0 = Some (c1, m1, w1, h1) \<and>
    Notify_One demo_env c1 w1 = Some (c2, w2) \<and> pw_log w2 = pw_log w1 @ [Resumed 4]"
  using cv_wait_then_notify_resumes [of new_cv "new_mutex\<lparr>mx_locked := True\<rparr>" demo_env 4 8 pinNone idle_world 0]
    new_prim_inv(1) wl.inv_empty by (fastforce simp: new_cv_def)

end
