(* ===== verification/TimerWheel.thy ===== *)
theory TimerWheel
  imports CancelTokens TaskTypes
begin

text \<open>
  The hierarchical timer wheel (\<^verbatim>\<open>src/Timer.cpp\<close>, \<^verbatim>\<open>include/Timer.h\<close>): four levels of 256 slots,
  one-shot deadlines and periodic tasks. Everything below runs under the queue's mutex, so each
  method is a function on the state. The doubly linked list of a slot is the list of its entries,
  head first; the occupancy bitmap is kept at its 64-bit words. Ticks and nanoseconds are \<open>int\<close>
  (64-bit in the code, where a queue that runs for less than 290 years cannot overflow).
\<close>

section \<open>Constants and state\<close>

definition kLevels :: nat where "kLevels = 4"
definition kSlotBits :: nat where "kSlotBits = 8"
definition kSlots :: nat where "kSlots = 256"
definition kOccWords :: nat where "kOccWords = 4"
definition kMaxTicks :: int where "kMaxTicks = 2 ^ 32"

definition LevelGranularity :: "nat \<Rightarrow> int" where
  "LevelGranularity l = 2 ^ (kSlotBits * l)"

record PeriodicRecord =
  pr_interval :: int
  pr_due :: int
  pr_fn :: nat
  pr_ctx :: nat
  pr_lane :: Lane
  pr_totalSkipped :: int
  pr_runs :: int
  pr_runsWaiter :: bool
  pr_entry :: ptr
  pr_pendingSkipped :: int
  pr_inFlight :: bool
  pr_cancelled :: bool
  pr_detached :: bool

record Entry =
  en_deadlineTick :: int
  en_token :: u32
  en_eject :: ptr
  en_ctx :: nat
  en_periodic :: ptr
  en_generation :: u32
  en_nextFree :: nat
  en_level :: "nat option"
  en_slot :: nat

definition new_Entry :: Entry where
  "new_Entry = \<lparr>en_deadlineTick = 0, en_token = kNone, en_eject = None, en_ctx = 0, en_periodic = None,
     en_generation = 0, en_nextFree = 0, en_level = None, en_slot = 0\<rparr>"

text \<open>\<open>tq_sleepUntil\<close> is \<open>None\<close> while the timer thread is awake (\<open>kAwake\<close>); the gate is \<open>None\<close> for
  \<open>INT64_MAX\<close>.\<close>

record TimerQueue =
  tq_entries :: "nat \<Rightarrow> Entry"
  tq_size :: nat
  tq_freeHead :: nat
  tq_slots :: "nat \<Rightarrow> nat \<Rightarrow> nat list"
  tq_occ :: "nat \<Rightarrow> nat \<Rightarrow> u64"
  tq_tickNs :: int
  tq_epochNs :: int
  tq_currentTick :: int
  tq_armedCount :: nat
  tq_gateNs :: "int option"
  tq_stopping :: bool
  tq_running :: bool
  tq_periodics :: "nat \<Rightarrow> PeriodicRecord"

definition new_TimerQueue :: "int \<Rightarrow> TimerQueue" where
  "new_TimerQueue now = \<lparr>tq_entries = (\<lambda>_. new_Entry), tq_size = 0, tq_freeHead = 0, tq_slots = (\<lambda>_ _. []),
     tq_occ = (\<lambda>_ _. 0), tq_tickNs = 1000000, tq_epochNs = now, tq_currentTick = 0, tq_armedCount = 0,
     tq_gateNs = None, tq_stopping = False, tq_running = False,
     tq_periodics = (\<lambda>_. \<lparr>pr_interval = 0, pr_due = 0, pr_fn = 0, pr_ctx = 0, pr_lane = Normal,
       pr_totalSkipped = 0, pr_runs = 0, pr_runsWaiter = False, pr_entry = None, pr_pendingSkipped = 0, pr_inFlight = False,
       pr_cancelled = False, pr_detached = False\<rparr>)\<rparr>"

definition NowTick :: "int \<Rightarrow> TimerQueue \<Rightarrow> int" where
  "NowTick nowNs t = (nowNs - tq_epochNs t) div tq_tickNs t"

definition TickFor :: "int \<Rightarrow> TimerQueue \<Rightarrow> int" where
  "TickFor ns t =
    (let rel = ns - tq_epochNs t in if rel \<le> 0 then 0 else (rel + tq_tickNs t - 1) div tq_tickNs t)"

section \<open>The occupancy bitmap\<close>

definition ctz64 :: "u64 \<Rightarrow> nat" where
  "ctz64 w = length (takeWhile (\<lambda>i. \<not> bit w i) [0..<64])"

definition MarkOccupied :: "nat \<Rightarrow> nat \<Rightarrow> TimerQueue \<Rightarrow> TimerQueue" where
  "MarkOccupied l s t = t\<lparr>tq_occ := (tq_occ t)(l := (tq_occ t l)(s div 64 :=
     tq_occ t l (s div 64) OR push_bit (s mod 64) 1))\<rparr>"

definition MarkEmpty :: "nat \<Rightarrow> nat \<Rightarrow> TimerQueue \<Rightarrow> TimerQueue" where
  "MarkEmpty l s t = t\<lparr>tq_occ := (tq_occ t)(l := (tq_occ t l)(s div 64 :=
     tq_occ t l (s div 64) AND NOT (push_bit (s mod 64) 1)))\<rparr>"

definition LevelEmpty :: "nat \<Rightarrow> TimerQueue \<Rightarrow> bool" where
  "LevelEmpty l t \<longleftrightarrow> (\<forall>w \<in> set [0..<kOccWords]. tq_occ t l w = 0)"

fun first_word :: "(nat \<Rightarrow> u64) \<Rightarrow> nat \<Rightarrow> nat list \<Rightarrow> nat option" where
  "first_word oc startWord [] = None"
| "first_word oc startWord (i # is) =
    (let wi = (startWord + i) mod kOccWords; w = oc wi in
     if w \<noteq> 0 then Some (wi * 64 + ctz64 w) else first_word oc startWord is)"

definition NextOccupied :: "(nat \<Rightarrow> u64) \<Rightarrow> nat \<Rightarrow> nat" where
  "NextOccupied oc from =
    (let startWord = from div 64; startBit = from mod 64;
         w = oc startWord AND push_bit startBit (NOT 0) in
     if w \<noteq> 0 then startWord * 64 + ctz64 w
     else (case first_word oc startWord [1..<kOccWords] of
         Some r \<Rightarrow> r
       | None \<Rightarrow>
          (let w = oc startWord AND NOT (push_bit startBit (NOT 0)) in
           if w \<noteq> 0 then startWord * 64 + ctz64 w else kSlots)))"

section \<open>Slots\<close>

definition set_entry :: "nat \<Rightarrow> (Entry \<Rightarrow> Entry) \<Rightarrow> TimerQueue \<Rightarrow> TimerQueue" where
  "set_entry i f t = t\<lparr>tq_entries := (tq_entries t)(i := f (tq_entries t i))\<rparr>"

definition set_slot :: "nat \<Rightarrow> nat \<Rightarrow> nat list \<Rightarrow> TimerQueue \<Rightarrow> TimerQueue" where
  "set_slot l s xs t = t\<lparr>tq_slots := (tq_slots t)(l := (tq_slots t l)(s := xs))\<rparr>"

definition Link :: "nat \<Rightarrow> nat \<Rightarrow> nat \<Rightarrow> TimerQueue \<Rightarrow> TimerQueue" where
  "Link idx l s t =
    (let t1 = set_entry idx (\<lambda>e. e\<lparr>en_level := Some l, en_slot := s\<rparr>) t;
         t2 = set_slot l s (idx # tq_slots t1 l s) t1 in
     MarkOccupied l s t2)"

definition Unlink :: "nat \<Rightarrow> TimerQueue \<Rightarrow> TimerQueue" where
  "Unlink idx t =
    (case en_level (tq_entries t idx) of
       None \<Rightarrow> t
     | Some l \<Rightarrow>
        (let s = en_slot (tq_entries t idx);
             t1 = set_slot l s (remove1 idx (tq_slots t l s)) t;
             t2 = set_entry idx (\<lambda>e. e\<lparr>en_level := None\<rparr>) t1 in
         if tq_slots t2 l s = [] then MarkEmpty l s t2 else t2))"

definition slot_index :: "nat \<Rightarrow> int \<Rightarrow> nat" where
  "slot_index l tick = nat ((tick div LevelGranularity l) mod int kSlots)"

fun place_level :: "int \<Rightarrow> nat list \<Rightarrow> nat option" where
  "place_level delta [] = None"
| "place_level delta (l # ls) = (if delta < LevelGranularity (l + 1) then Some l else place_level delta ls)"

definition Place :: "nat \<Rightarrow> int \<Rightarrow> TimerQueue \<Rightarrow> TimerQueue" where
  "Place idx deadlineTick t =
    (let delta = deadlineTick - tq_currentTick t in
     if delta \<le> 0 then Link idx 0 (slot_index 0 (tq_currentTick t)) t
     else (case place_level delta [0..<kLevels] of
         Some l \<Rightarrow> Link idx l (slot_index l deadlineTick) t
       | None \<Rightarrow> Link idx (kLevels - 1) (slot_index (kLevels - 1) (tq_currentTick t + kMaxTicks - 1)) t))"

definition cascade_one :: "nat \<Rightarrow> TimerQueue \<Rightarrow> TimerQueue" where
  "cascade_one idx t =
    (let t1 = set_entry idx (\<lambda>e. e\<lparr>en_level := None\<rparr>) t in Place idx (en_deadlineTick (tq_entries t1 idx)) t1)"

definition Cascade :: "nat \<Rightarrow> nat \<Rightarrow> TimerQueue \<Rightarrow> TimerQueue" where
  "Cascade l s t = fold cascade_one (tq_slots t l s) (MarkEmpty l s (set_slot l s [] t))"

definition cascade_if :: "nat \<Rightarrow> nat \<Rightarrow> TimerQueue \<Rightarrow> TimerQueue" where
  "cascade_if l s t = (if tq_slots t l s \<noteq> [] then Cascade l s t else t)"

fun advance_levels :: "int \<Rightarrow> int \<Rightarrow> nat list \<Rightarrow> TimerQueue \<Rightarrow> TimerQueue" where
  "advance_levels from0 target [] t = t"
| "advance_levels from0 target (l # ls) t =
    (let from = from0 div LevelGranularity l; to = target div LevelGranularity l in
     if from = to then t
     else (let steps = to - from;
               ss = (if steps \<ge> int kSlots then [0..<kSlots]
                     else map (\<lambda>k. nat ((from + int k) mod int kSlots)) [1..<nat steps + 1]) in
           advance_levels from0 target ls (fold (cascade_if l) ss t)))"

definition AdvanceTo :: "int \<Rightarrow> TimerQueue \<Rightarrow> TimerQueue" where
  "AdvanceTo target t =
    (if target \<le> tq_currentTick t then t
     else advance_levels (tq_currentTick t) target [1..<kLevels] (t\<lparr>tq_currentTick := target\<rparr>))"

section \<open>The next event\<close>

definition level_event :: "nat \<Rightarrow> TimerQueue \<Rightarrow> int option" where
  "level_event l t =
    (if LevelEmpty l t then None
     else (let gran = LevelGranularity l;
               cur = slot_index l (tq_currentTick t);
               from = (if l = 0 then cur else (cur + 1) mod kSlots);
               s = NextOccupied (tq_occ t l) from in
           if s = kSlots then None
           else (let ahead = (s + kSlots - from) mod kSlots;
                     base = (if l = 0 then tq_currentTick t
                             else (tq_currentTick t div gran + 1) * gran) in
                 Some (base + int ahead * gran))))"

definition best_event :: "int option \<Rightarrow> int option \<Rightarrow> int option" where
  "best_event best ev =
    (case ev of None \<Rightarrow> best
     | Some w \<Rightarrow> (case best of None \<Rightarrow> Some w | Some b \<Rightarrow> if w < b then Some w else Some b))"

definition NextEventTick :: "TimerQueue \<Rightarrow> int option" where
  "NextEventTick t = fold (\<lambda>l best. best_event best (level_event l t)) [0..<kLevels] None"

definition PublishGateLocked :: "TimerQueue \<Rightarrow> TimerQueue" where
  "PublishGateLocked t =
    t\<lparr>tq_gateNs := map_option (\<lambda>next. tq_epochNs t + next * tq_tickNs t) (NextEventTick t)\<rparr>"

definition TimerGateDue :: "int \<Rightarrow> TimerQueue \<Rightarrow> bool" where
  "TimerGateDue nowNs t = (case tq_gateNs t of None \<Rightarrow> False | Some g \<Rightarrow> g \<le> nowNs)"

section \<open>Entries\<close>

definition AcquireEntry :: "TimerQueue \<Rightarrow> nat \<times> TimerQueue" where
  "AcquireEntry t =
    (if tq_freeHead t \<noteq> 0
     then (let i = tq_freeHead t - 1 in (i, t\<lparr>tq_freeHead := en_nextFree (tq_entries t i)\<rparr>))
     else (tq_size t, (set_entry (tq_size t) (\<lambda>_. new_Entry) t)\<lparr>tq_size := tq_size t + 1\<rparr>))"

definition ReleaseEntry :: "nat \<Rightarrow> TimerQueue \<Rightarrow> TimerQueue" where
  "ReleaseEntry i t =
    (set_entry i (\<lambda>e. e\<lparr>en_eject := None, en_ctx := 0, en_periodic := None, en_token := kNone,
                       en_level := None, en_nextFree := tq_freeHead t\<rparr>) t)\<lparr>tq_freeHead := i + 1\<rparr>"

text \<open>Taking an entry off the wheel for good, as a fire, a disarm and a periodic cancel do.\<close>

definition retire_entry :: "nat \<Rightarrow> TimerQueue \<Rightarrow> TimerQueue" where
  "retire_entry i t =
    (let t1 = Unlink i t;
         t2 = set_entry i (\<lambda>e. e\<lparr>en_generation := en_generation e + 1\<rparr>) t1;
         t3 = ReleaseEntry i t2 in
     t3\<lparr>tq_armedCount := tq_armedCount t3 - 1\<rparr>)"

section \<open>Firing\<close>

definition set_periodic :: "nat \<Rightarrow> (PeriodicRecord \<Rightarrow> PeriodicRecord) \<Rightarrow> TimerQueue \<Rightarrow> TimerQueue" where
  "set_periodic r f t = t\<lparr>tq_periodics := (tq_periodics t)(r := f (tq_periodics t r))\<rparr>"

definition FirePeriodicLocked :: "int \<Rightarrow> nat \<Rightarrow> nat \<Rightarrow> TimerQueue \<Rightarrow> bool \<times> TimerQueue" where
  "FirePeriodicLocked nowNs idx r t =
    (let t1 = Unlink idx t;
         p = tq_periodics t1 r;
         behind = nowNs - pr_due p;
         passed = (if behind > 0 then behind div pr_interval p else 0);
         next = pr_due p + (passed + 1) * pr_interval p;
         launch = (\<not> pr_inFlight p);
         skippedNow = (if pr_inFlight p then passed + 1 else passed);
         t2 = set_periodic r (\<lambda>p. p\<lparr>pr_inFlight := True,
                pr_runs := (if launch then pr_runs p + 1 else pr_runs p),
                pr_pendingSkipped := pr_pendingSkipped p + skippedNow,
                pr_totalSkipped := pr_totalSkipped p + skippedNow, pr_due := next\<rparr>) t1;
         tick = TickFor next t2;
         t3 = set_entry idx (\<lambda>e. e\<lparr>en_deadlineTick := tick\<rparr>) t2 in
     (launch, Place idx tick t3))"

text \<open>What a step hands to the code outside the lock: one-shot ejects and periodic launches, oldest first. Every periodic entry the loop
  fires reads the clock again; \<open>clk idx\<close> is the reading made for entry \<open>idx\<close>.\<close>

record fired =
  fd_shots :: "(u32 \<times> ptr \<times> nat) list"
  fd_launch :: "nat list"

definition kBatch :: nat where "kBatch = 64"

fun fire_slot :: "(nat \<Rightarrow> int) \<Rightarrow> nat list \<Rightarrow> TimerQueue \<Rightarrow> fired \<Rightarrow> TimerQueue \<times> fired" where
  "fire_slot clk [] t fd = (t, fd)"
| "fire_slot clk (idx # rest) t fd =
    (if length (fd_shots fd) + length (fd_launch fd) \<ge> kBatch then (t, fd)
     else
      (let e = tq_entries t idx in
       if en_deadlineTick e \<le> tq_currentTick t \<and> en_periodic e \<noteq> None then
         (case FirePeriodicLocked (clk idx) idx (the (en_periodic e)) t of (launch, t1) \<Rightarrow>
            fire_slot clk rest t1
              (if launch then fd\<lparr>fd_launch := fd_launch fd @ [the (en_periodic e)]\<rparr> else fd))
       else if en_deadlineTick e \<le> tq_currentTick t then
         fire_slot clk rest (retire_entry idx t)
           (fd\<lparr>fd_shots := fd_shots fd @ [(en_token e, en_eject e, en_ctx e)]\<rparr>)
       else fire_slot clk rest t fd))"

definition FireStepLocked :: "(nat \<Rightarrow> int) \<Rightarrow> int \<Rightarrow> TimerQueue \<Rightarrow> TimerQueue \<times> fired" where
  "FireStepLocked clk next t =
    (let t1 = AdvanceTo next t in
     case fire_slot clk (tq_slots t1 0 (slot_index 0 (tq_currentTick t1))) t1 \<lparr>fd_shots = [], fd_launch = []\<rparr> of
       (t2, fd) \<Rightarrow>
         (if fd_shots fd = [] \<and> fd_launch fd = []
          then (PublishGateLocked (t2\<lparr>tq_currentTick := tq_currentTick t2 + 1\<rparr>), fd)
          else (PublishGateLocked t2, fd)))"

text \<open>The dispatch outside the lock: each one-shot cancels its token and calls its eject only if the
  token was live; the launches follow.\<close>

fun dispatch_shots :: "(u32 \<times> ptr \<times> nat) list \<Rightarrow> cancel_table \<Rightarrow> cancel_table \<times> (nat \<times> nat \<times> u32) list" where
  "dispatch_shots [] ct = (ct, [])"
| "dispatch_shots ((tok, ej, ctx) # rest) ct =
    (case CancelVia tok ct of (hit, ct1) \<Rightarrow>
       (case dispatch_shots rest ct1 of (ct2, calls) \<Rightarrow>
          (ct2, (case ej of Some f \<Rightarrow> if hit then (f, ctx, tok) # calls else calls | None \<Rightarrow> calls))))"

definition PollFire :: "bool \<Rightarrow> int \<Rightarrow> (nat \<Rightarrow> int) \<Rightarrow> TimerQueue \<Rightarrow> bool \<times> TimerQueue \<times> fired" where
  "PollFire locked nowNs clk t =
    (let nothing = \<lparr>fd_shots = [], fd_launch = []\<rparr> in
     if locked then (False, t, nothing)
     else if tq_stopping t then (False, t, nothing)
     else (case NextEventTick t of
         None \<Rightarrow> (False, PublishGateLocked t, nothing)
       | Some next \<Rightarrow>
          (if next > NowTick nowNs t then (False, PublishGateLocked t, nothing)
           else (case FireStepLocked clk next t of (t', fd) \<Rightarrow> (True, t', fd)))))"

text \<open>One pass of the timer thread's loop: what it does before it sleeps or fires.\<close>

datatype run_wait = RunStop | WaitUntimed | WaitUntil int | RunFired

definition Run_pass :: "int \<Rightarrow> (nat \<Rightarrow> int) \<Rightarrow> TimerQueue \<Rightarrow> run_wait \<times> TimerQueue \<times> fired" where
  "Run_pass nowNs clk t =
    (let nothing = \<lparr>fd_shots = [], fd_launch = []\<rparr> in
     if tq_stopping t then (RunStop, t, nothing)
     else (case NextEventTick t of
         None \<Rightarrow> (WaitUntimed, t\<lparr>tq_currentTick := NowTick nowNs t\<rparr>, nothing)
       | Some next \<Rightarrow>
          (if next > NowTick nowNs t then (WaitUntil next, t, nothing)
           else (case FireStepLocked clk next t of (t', fd) \<Rightarrow> (RunFired, t', fd)))))"

section \<open>Arming\<close>

definition make_handle :: "u32 \<Rightarrow> nat \<Rightarrow> u64" where
  "make_handle gen i = push_bit 32 (ucast gen) OR of_nat i"

definition handle_index :: "u64 \<Rightarrow> nat" where "handle_index h = unat (h AND 0xFFFFFFFF)"
definition handle_gen :: "u64 \<Rightarrow> u32" where "handle_gen h = ucast (drop_bit 32 h)"

text \<open>\<open>Arm\<close> reads the clock for the current tick (\<open>nowNs\<close>) and again for the deadline (\<open>againNs\<close>).\<close>

definition arm_deadline :: "int \<Rightarrow> int \<Rightarrow> int \<Rightarrow> TimerQueue \<Rightarrow> int" where
  "arm_deadline nowNs againNs delayNs t = (if delayNs > 0 then TickFor (againNs + delayNs) t else NowTick nowNs t)"

definition Arm :: "bool \<Rightarrow> int \<Rightarrow> int \<Rightarrow> int \<Rightarrow> u32 \<Rightarrow> ptr \<Rightarrow> nat \<Rightarrow> TimerQueue \<Rightarrow> u64 \<times> TimerQueue" where
  "Arm timersOff nowNs againNs delayNs token eject ctx t =
    (if \<not> CancelToken_Valid token then (0, t)
     else if tq_stopping t then (0, t)
     else if timersOff then (0, t)
     else
      (let t0 = t\<lparr>tq_running := True\<rparr>;
           deadlineTick = arm_deadline nowNs againNs delayNs t0;
           t1 = AdvanceTo (NowTick nowNs t0) t0 in
       case AcquireEntry t1 of (i, t2) \<Rightarrow>
         (let t3 = set_entry i (\<lambda>e. e\<lparr>en_generation := en_generation e + 1, en_deadlineTick := deadlineTick,
                      en_token := token, en_eject := eject, en_ctx := ctx\<rparr>) t2;
              t4 = Place i deadlineTick t3;
              t5 = t4\<lparr>tq_armedCount := tq_armedCount t4 + 1\<rparr> in
          (make_handle (en_generation (tq_entries t5 i)) i, PublishGateLocked t5))))"

definition Disarm :: "u64 \<Rightarrow> TimerQueue \<Rightarrow> bool \<times> TimerQueue" where
  "Disarm h t =
    (if h = 0 then (False, t)
     else (let i = handle_index h; g = handle_gen h in
           if i \<ge> tq_size t then (False, t)
           else if en_generation (tq_entries t i) \<noteq> g \<or> g AND 1 = 0 then (False, t)
           else (True, PublishGateLocked (retire_entry i t))))"

section \<open>Periodic tasks\<close>

text \<open>\<open>Start\<close> reads the clock for the first due time (\<open>dueNow\<close>) and again for the current tick (\<open>nowNs\<close>).\<close>

definition Periodic_Start ::
    "bool \<Rightarrow> int \<Rightarrow> int \<Rightarrow> int \<Rightarrow> nat \<Rightarrow> nat \<Rightarrow> Lane \<Rightarrow> int \<Rightarrow> nat \<Rightarrow> TimerQueue \<Rightarrow> ptr \<times> TimerQueue" where
  "Periodic_Start timersOff dueNow nowNs intervalNs fn ctx lane firstDelayNs r t =
    (if intervalNs \<le> 0 \<or> tq_stopping t \<or> timersOff then (None, t)
     else
      (let t0 = t\<lparr>tq_running := True\<rparr>;
           iv = (if intervalNs < tq_tickNs t0 then tq_tickNs t0 else intervalNs);
           due = dueNow + (if firstDelayNs < 0 then iv else firstDelayNs);
           t1 = AdvanceTo (NowTick nowNs t0) t0 in
       case AcquireEntry t1 of (i, t2) \<Rightarrow>
         (let t3 = set_entry i (\<lambda>e. e\<lparr>en_generation := en_generation e + 1, en_periodic := Some r,
                      en_deadlineTick := TickFor due t2\<rparr>) t2;
              t4 = Place i (TickFor due t2) t3;
              t5 = set_periodic r (\<lambda>_. \<lparr>pr_interval = iv, pr_due = due, pr_fn = fn, pr_ctx = ctx, pr_lane = lane,
                     pr_totalSkipped = 0, pr_runs = 0, pr_runsWaiter = False, pr_entry = Some i, pr_pendingSkipped = 0,
                     pr_inFlight = False, pr_cancelled = False, pr_detached = False\<rparr>)
                   (t4\<lparr>tq_armedCount := tq_armedCount t4 + 1\<rparr>) in
          (Some r, PublishGateLocked t5))))"

definition CancelPeriodicLocked :: "nat \<Rightarrow> TimerQueue \<Rightarrow> TimerQueue" where
  "CancelPeriodicLocked r t =
    (let t1 = set_periodic r (\<lambda>p. p\<lparr>pr_cancelled := True\<rparr>) t in
     case pr_entry (tq_periodics t1 r) of
       None \<Rightarrow> t1
     | Some i \<Rightarrow> set_periodic r (\<lambda>p. p\<lparr>pr_entry := None\<rparr>) (retire_entry i t1))"

definition Periodic_Cancel :: "nat \<Rightarrow> TimerQueue \<Rightarrow> TimerQueue" where
  "Periodic_Cancel r t = PublishGateLocked (CancelPeriodicLocked r t)"

text \<open>\<open>FinishPeriodic\<close>: the flags say whether the joiner is woken and whether the record is freed.\<close>

definition FinishPeriodic :: "nat \<Rightarrow> bool \<Rightarrow> TimerQueue \<Rightarrow> bool \<times> bool \<times> TimerQueue" where
  "FinishPeriodic r stop t =
    (let t1 = (if stop then CancelPeriodicLocked r t else t);
         old = tq_periodics t1 r;
         t2 = set_periodic r (\<lambda>p. p\<lparr>pr_inFlight := False, pr_runs := pr_runs p - 1\<rparr>) t1;
         p = tq_periodics t2 r in
     (pr_runs old = 1 \<and> pr_runsWaiter old, pr_detached p \<and> pr_cancelled p, t2))"

definition RunPeriodic_begin :: "nat \<Rightarrow> TimerQueue \<Rightarrow> int \<times> bool \<times> TimerQueue" where
  "RunPeriodic_begin r t =
    (pr_pendingSkipped (tq_periodics t r), pr_cancelled (tq_periodics t r),
     set_periodic r (\<lambda>p. p\<lparr>pr_pendingSkipped := 0\<rparr>) t)"

definition Periodic_Detach :: "nat \<Rightarrow> TimerQueue \<Rightarrow> bool \<times> TimerQueue" where
  "Periodic_Detach r t =
    (let t1 = set_periodic r (\<lambda>p. p\<lparr>pr_detached := True\<rparr>) t; p = tq_periodics t1 r in
     (pr_cancelled p \<and> \<not> pr_inFlight p, t1))"

definition TimerQueue_Start :: "TimerQueue \<Rightarrow> TimerQueue" where
  "TimerQueue_Start t = t\<lparr>tq_stopping := False\<rparr>"

definition TimerQueue_Stop :: "TimerQueue \<Rightarrow> TimerQueue" where
  "TimerQueue_Stop t =
    (if tq_stopping t then t else t\<lparr>tq_stopping := True, tq_running := False, tq_gateNs := None\<rparr>)"

section \<open>The bitmap search finds the nearest occupied slot\<close>

lemma ctz64_least:
  assumes "w \<noteq> 0"
  shows "ctz64 w < 64" and "bit w (ctz64 w)" and "j < ctz64 w \<Longrightarrow> \<not> bit w j"
proof -
  let ?P = "\<lambda>i. \<not> bit w i"
  have "\<exists>i < 64. bit w i"
  proof (rule ccontr)
    assume "\<not> (\<exists>i < 64. bit w i)"
    then have "w = 0" by (intro bit_word_eqI) auto
    with assms show False ..
  qed
  then obtain i where i: "i < 64" "bit w i" by blast
  have lt: "length (takeWhile ?P [0..<64]) < length [0::nat..<64]"
  proof (rule ccontr)
    assume "\<not> ?thesis"
    then have "takeWhile ?P [0..<64] = [0..<64]" by (metis takeWhile_eq_take take_all not_less)
    then show False using i by (metis (mono_tags, lifting) takeWhile_eq_all_conv atLeastLessThan_iff le0 set_upt)
  qed
  then show a: "ctz64 w < 64" by (simp add: ctz64_def)
  show "bit w (ctz64 w)" using nth_length_takeWhile [OF lt] lt by (simp add: ctz64_def)
  show "j < ctz64 w \<Longrightarrow> \<not> bit w j"
    using a takeWhile_nth [of j ?P "[0..<64]"] nth_mem [of j "takeWhile ?P [0..<64]"]
      set_takeWhileD [of "takeWhile ?P [0..<64] ! j" ?P "[0..<64]"]
    by (simp add: ctz64_def)
qed

definition occupied :: "(nat \<Rightarrow> u64) \<Rightarrow> nat \<Rightarrow> bool" where
  "occupied oc s \<longleftrightarrow> bit (oc (s div 64)) (s mod 64)"

definition ahead :: "nat \<Rightarrow> nat \<Rightarrow> nat" where
  "ahead from s = (s + kSlots - from) mod kSlots"

lemma ahead_word:
  assumes "a < 4" "b < 64" "v < 64" "1 \<le> j" "j \<le> 3"
  shows "ahead (64 * a + b) (64 * ((a + j) mod 4) + v) = 64 * j + v - b"
proof (cases "a + j < 4")
  case True
  then have "64 * ((a + j) mod 4) + v + 256 - (64 * a + b) = (64 * j + v - b) + 256" using assms by simp
  moreover have "(64 * j + v - b + 256) mod 256 = 64 * j + v - b" using assms by (subst mod_add_self2) simp
  ultimately show ?thesis by (simp only: ahead_def kSlots_def)
next
  case False
  then have "(a + j) mod 4 = a + j - 4" using assms by (simp add: mod_if)
  then have "64 * ((a + j) mod 4) + v + 256 - (64 * a + b) = 64 * j + v - b" using assms False by simp
  then show ?thesis using assms by (simp add: ahead_def kSlots_def)
qed

lemma ahead_same_word:
  assumes "a < 4" "b < 64" "v < 64"
  shows "ahead (64 * a + b) (64 * a + v) = (if b \<le> v then v - b else 256 + v - b)"
  using assms by (auto simp: ahead_def kSlots_def mod_if)

lemma slot_split:
  fixes s a :: nat
  assumes "s < 256" "a < 4"
  obtains j v where "j \<le> 3" "v < 64" "s = 64 * ((a + j) mod 4) + v"
proof
  show "(s div 64 + 4 - a) mod 4 \<le> 3" using mod_less_divisor [of 4 "s div 64 + 4 - a"] by linarith
  show "s mod 64 < 64" by simp
  have "(a + (s div 64 + 4 - a) mod 4) mod 4 = (a + (s div 64 + 4 - a)) mod 4" by (simp add: mod_simps)
  also have "\<dots> = s div 64" using assms by simp
  finally show "s = 64 * ((a + (s div 64 + 4 - a) mod 4) mod 4) + s mod 64" by simp
qed

lemma occupied_word: "v < 64 \<Longrightarrow> occupied oc (64 * u + v) \<longleftrightarrow> bit (oc u) v"
  by (simp add: occupied_def)

lemma first_word_Some:
  "first_word oc a js = Some r \<Longrightarrow>
   \<exists>xs i ys. js = xs @ i # ys \<and> (\<forall>j \<in> set xs. oc ((a + j) mod 4) = 0) \<and> oc ((a + i) mod 4) \<noteq> 0 \<and>
     r = 64 * ((a + i) mod 4) + ctz64 (oc ((a + i) mod 4))"
proof (induction js)
  case (Cons j js)
  show ?case
  proof (cases "oc ((a + j) mod 4) = 0")
    case True
    with Cons obtain xs i ys where "js = xs @ i # ys" "\<forall>j \<in> set xs. oc ((a + j) mod 4) = 0" "oc ((a + i) mod 4) \<noteq> 0"
      "r = 64 * ((a + i) mod 4) + ctz64 (oc ((a + i) mod 4))" by (auto simp: kOccWords_def)
    with True show ?thesis by (intro exI [of _ "j # xs"] exI [of _ i] exI [of _ ys]) auto
  next
    case False
    with Cons.prems show ?thesis by (intro exI [of _ "[]"] exI [of _ j] exI [of _ js]) (auto simp: kOccWords_def Let_def)
  qed
qed simp

lemma first_word_None: "first_word oc a js = None \<Longrightarrow> \<forall>j \<in> set js. oc ((a + j) mod 4) = 0"
  by (induction js) (auto simp: Let_def kOccWords_def split: if_splits)

lemma masks:
  "bit ((w::u64) AND push_bit b (NOT 0)) j \<longleftrightarrow> bit w j \<and> b \<le> j"
  "bit (w AND NOT (push_bit b (NOT 0))) j \<longleftrightarrow> bit w j \<and> j < b"
  by (auto simp: bit_simps dest: bit_imp_le_length)

lemma upt_1_4_split: "[1..<4] = xs @ i # ys \<Longrightarrow> 1 \<le> i \<and> i \<le> 3 \<and> set xs = {1..<i}"
  by (auto simp: upt_rec Cons_eq_append_conv)

theorem NextOccupied_nearest:
  assumes "from < kSlots"
  shows "if \<exists>s < kSlots. occupied oc s
    then NextOccupied oc from < kSlots \<and> occupied oc (NextOccupied oc from) \<and>
         (\<forall>s < kSlots. occupied oc s \<longrightarrow> ahead from (NextOccupied oc from) \<le> ahead from s)
    else NextOccupied oc from = kSlots"
proof -
  define a where "a = from div 64"
  define b where "b = from mod 64"
  have ab: "a < 4" "b < 64" and fr: "from = 64 * a + b" using assms by (auto simp: a_def b_def kSlots_def)
  define w where "w = oc a AND push_bit b (NOT 0)"
  define w' where "w' = oc a AND NOT (push_bit b (NOT 0))"
  have N: "NextOccupied oc from = (if w \<noteq> 0 then 64 * a + ctz64 w else
      case first_word oc a [1..<4] of Some r \<Rightarrow> r | None \<Rightarrow> if w' \<noteq> 0 then 64 * a + ctz64 w' else 256)"
    by (simp add: NextOccupied_def Let_def a_def b_def w_def w'_def kOccWords_def kSlots_def mult.commute split: option.split)
  have w0: "w = 0 \<Longrightarrow> bit (oc a) v \<Longrightarrow> v < b" for v
    using masks(1) [of "oc a" b v] unfolding w_def by (metis bit_0_eq bot_apply bot_bool_def not_le)
  have w'0: "w' = 0 \<Longrightarrow> bit (oc a) v \<Longrightarrow> b \<le> v" for v
    using masks(2) [of "oc a" b v] unfolding w'_def by (metis bit_0_eq bot_apply bot_bool_def not_le)
  have found: ?thesis if "NextOccupied oc from = r" "r < 256" "occupied oc r"
    "\<And>s. s < 256 \<Longrightarrow> occupied oc s \<Longrightarrow> ahead from r \<le> ahead from s" for r
    using that by (auto simp: kSlots_def)
  consider (here) "w \<noteq> 0" | (other) xs i ys where "w = 0" "[1..<4] = xs @ i # ys"
      "\<forall>j \<in> set xs. oc ((a + j) mod 4) = 0" "oc ((a + i) mod 4) \<noteq> 0"
      "NextOccupied oc from = 64 * ((a + i) mod 4) + ctz64 (oc ((a + i) mod 4))"
    | (wrapped) "w = 0" "\<forall>j \<in> {1..<4}. oc ((a + j) mod 4) = 0" "w' \<noteq> 0" "NextOccupied oc from = 64 * a + ctz64 w'"
    | (none) "w = 0" "\<forall>j \<in> {1..<4}. oc ((a + j) mod 4) = 0" "w' = 0" "NextOccupied oc from = 256"
  proof (cases "w = 0")
    case True
    show ?thesis
    proof (cases "first_word oc a [1..<4]")
      case None
      then show ?thesis using wrapped none True N first_word_None [OF None] by (cases "w' = 0") auto
    next
      case (Some r)
      from first_word_Some [OF this] show ?thesis using other True N Some by auto
    qed
  qed (use here in blast)
  then show ?thesis
  proof cases
    case here
    let ?z = "ctz64 w"
    note z = ctz64_least [OF here]
    have zb: "b \<le> ?z" "bit (oc a) ?z" using z(2) unfolding w_def masks by auto
    have r: "NextOccupied oc from = 64 * a + ?z" using N here by simp
    have "?z - b \<le> ahead from s" if so: "s < 256" "occupied oc s" for s
    proof -
      obtain j v where s: "j \<le> 3" "v < 64" "s = 64 * ((a + j) mod 4) + v" using slot_split [OF so(1) ab(1)] by metis
      show ?thesis
      proof (cases "j = 0")
        case True
        then have "bit (oc a) v" using so(2) s ab occupied_word by simp
        then have "b \<le> v \<Longrightarrow> ?z \<le> v" using z(3) [of v] masks(1) [of "oc a" b v] unfolding w_def by (meson not_less)
        then show ?thesis using ahead_same_word [OF ab s(2)] s True fr z(1) ab by auto
      next
        case False
        then show ?thesis using ahead_word [OF ab s(2), of j] s fr z(1) by simp
      qed
    qed
    then show ?thesis using zb z(1) ab fr ahead_same_word [OF ab z(1)] occupied_word [OF z(1), of oc a]
      by (intro found [OF r]) auto
  next
    case other
    let ?u = "(a + i) mod 4"
    let ?z = "ctz64 (oc ?u)"
    note z = ctz64_least [OF other(4)]
    have i: "1 \<le> i" "i \<le> 3" "set xs = {1..<i}" using upt_1_4_split [OF other(2)] by auto
    have "64 * i + ?z - b \<le> ahead from s" if so: "s < 256" "occupied oc s" for s
    proof -
      obtain j v where s: "j \<le> 3" "v < 64" "s = 64 * ((a + j) mod 4) + v" using slot_split [OF so(1) ab(1)] by metis
      have bit: "bit (oc ((a + j) mod 4)) v" using so(2) s occupied_word by simp
      consider "j = 0" | "1 \<le> j" "j < i" | "j = i" | "i < j" by linarith
      then show ?thesis
      proof cases
        case 1
        then have "v < b" using w0 [OF other(1)] bit ab by simp
        then show ?thesis using ahead_same_word [OF ab s(2)] s 1 fr z(1) ab i by simp
      next
        case 2
        then have "oc ((a + j) mod 4) = 0" using other(3) i by simp
        then show ?thesis using bit by simp
      next
        case 3
        then have "?z \<le> v" using z(3) [of v] bit by (metis not_less)
        then show ?thesis using ahead_word [OF ab s(2) i(1,2)] s 3 fr by simp
      next
        case 4
        then show ?thesis using ahead_word [OF ab s(2), of j] s fr z(1) by simp
      qed
    qed
    moreover have "?u < 4" by simp
    ultimately show ?thesis using z ahead_word [OF ab z(1) i(1,2)] fr occupied_word [OF z(1), of oc ?u]
      by (intro found [OF other(5)]) auto
  next
    case wrapped
    let ?z = "ctz64 w'"
    note z = ctz64_least [OF wrapped(3)]
    have zb: "?z < b" "bit (oc a) ?z" using z(2) unfolding w'_def masks by auto
    have "256 + ?z - b \<le> ahead from s" if so: "s < 256" "occupied oc s" for s
    proof -
      obtain j v where s: "j \<le> 3" "v < 64" "s = 64 * ((a + j) mod 4) + v" using slot_split [OF so(1) ab(1)] by metis
      have bit: "bit (oc ((a + j) mod 4)) v" using so(2) s occupied_word by simp
      then have "j = 0" using wrapped(2) s(1) by (cases "j = 0") force+
      then have v: "bit (oc a) v" "v < b" using bit ab w0 [OF wrapped(1)] by auto
      then have "?z \<le> v" using z(3) [of v] masks(2) [of "oc a" b v] unfolding w'_def by (meson not_less)
      then show ?thesis using ahead_same_word [OF ab s(2)] s \<open>j = 0\<close> v fr ab by simp
    qed
    then show ?thesis using zb z(1) ab fr ahead_same_word [OF ab z(1)] occupied_word [OF z(1), of oc a]
      by (intro found [OF wrapped(4)]) auto
  next
    case none
    have "\<not> occupied oc s" if so: "s < 256" for s
    proof
      assume o: "occupied oc s"
      obtain j v where s: "j \<le> 3" "v < 64" "s = 64 * ((a + j) mod 4) + v" using slot_split [OF so ab(1)] by metis
      have bit: "bit (oc ((a + j) mod 4)) v" using o s occupied_word by simp
      then have "j = 0" using none(2) s(1) by (cases "j = 0") force+
      then show False using bit ab w0 [OF none(1), of v] w'0 [OF none(3), of v] by simp
    qed
    then show ?thesis using none by (auto simp: kSlots_def)
  qed
qed

end
