(* ===== verification/TimerOnTime.thy ===== *)
theory TimerOnTime
  imports TimerWheel
begin

text \<open>
  Why the wheel fires on time: the well-formedness of slots, links and bitmap (\<open>linked\<close>), the
  position an entry must have for its deadline at the current tick (\<open>on_time\<close>), their preservation
  by every operation, and what \<open>NextEventTick\<close> promises under them. The last section has the
  properties, including the two situations where the code leaves \<open>on_time\<close>.
\<close>

section \<open>Well-formed links\<close>

text \<open>\<open>X\<close> is the set of entries a cascade has taken off their slot and not placed yet.\<close>

definition linked :: "TimerQueue \<Rightarrow> nat set \<Rightarrow> bool" where
  [inv_defs]: "linked t X \<longleftrightarrow>
    (\<forall>l s i. i \<in> set (tq_slots t l s) \<longleftrightarrow>
       i \<notin> X \<and> en_level (tq_entries t i) = Some l \<and> en_slot (tq_entries t i) = s) \<and>
    (\<forall>l s. distinct (tq_slots t l s)) \<and>
    (\<forall>l s. tq_slots t l s \<noteq> [] \<longrightarrow> l < kLevels \<and> s < kSlots) \<and>
    (\<forall>l s. s < kSlots \<longrightarrow> (occupied (tq_occ t l) s \<longleftrightarrow> tq_slots t l s \<noteq> []))"

lemma set_entry_simps [simp]:
  "tq_slots (set_entry i f t) = tq_slots t" "tq_occ (set_entry i f t) = tq_occ t"
  "tq_currentTick (set_entry i f t) = tq_currentTick t" "tq_entries (set_entry i f t) j = (if j = i then f (tq_entries t i) else tq_entries t j)"
  "tq_tickNs (set_entry i f t) = tq_tickNs t" "tq_epochNs (set_entry i f t) = tq_epochNs t"
  "tq_size (set_entry i f t) = tq_size t" "tq_freeHead (set_entry i f t) = tq_freeHead t"
  "tq_periodics (set_entry i f t) = tq_periodics t" "tq_armedCount (set_entry i f t) = tq_armedCount t"
  by (simp_all add: set_entry_def)

lemma set_slot_simps [simp]:
  "tq_entries (set_slot l s xs t) = tq_entries t" "tq_occ (set_slot l s xs t) = tq_occ t"
  "tq_currentTick (set_slot l s xs t) = tq_currentTick t"
  "tq_slots (set_slot l s xs t) l' s' = (if l' = l \<and> s' = s then xs else tq_slots t l' s')"
  "tq_tickNs (set_slot l s xs t) = tq_tickNs t" "tq_epochNs (set_slot l s xs t) = tq_epochNs t"
  "tq_size (set_slot l s xs t) = tq_size t" "tq_freeHead (set_slot l s xs t) = tq_freeHead t"
  "tq_periodics (set_slot l s xs t) = tq_periodics t" "tq_armedCount (set_slot l s xs t) = tq_armedCount t"
  by (auto simp: set_slot_def)

lemma mark_simps [simp]:
  "tq_entries (MarkOccupied l s t) = tq_entries t" "tq_slots (MarkOccupied l s t) = tq_slots t"
  "tq_currentTick (MarkOccupied l s t) = tq_currentTick t"
  "tq_entries (MarkEmpty l s t) = tq_entries t" "tq_slots (MarkEmpty l s t) = tq_slots t"
  "tq_currentTick (MarkEmpty l s t) = tq_currentTick t"
  "tq_tickNs (MarkOccupied l s t) = tq_tickNs t" "tq_epochNs (MarkOccupied l s t) = tq_epochNs t"
  "tq_tickNs (MarkEmpty l s t) = tq_tickNs t" "tq_epochNs (MarkEmpty l s t) = tq_epochNs t"
  "tq_size (MarkOccupied l s t) = tq_size t" "tq_freeHead (MarkOccupied l s t) = tq_freeHead t"
  "tq_size (MarkEmpty l s t) = tq_size t" "tq_freeHead (MarkEmpty l s t) = tq_freeHead t"
  "tq_periodics (MarkOccupied l s t) = tq_periodics t" "tq_armedCount (MarkOccupied l s t) = tq_armedCount t"
  "tq_periodics (MarkEmpty l s t) = tq_periodics t" "tq_armedCount (MarkEmpty l s t) = tq_armedCount t"
  by (simp_all add: MarkOccupied_def MarkEmpty_def)

lemma occ_mark:
  "s < kSlots \<Longrightarrow> s' < kSlots \<Longrightarrow>
   occupied (tq_occ (MarkOccupied l s t) l') s' \<longleftrightarrow> l' = l \<and> s' = s \<or> occupied (tq_occ t l') s'"
  "s < kSlots \<Longrightarrow> s' < kSlots \<Longrightarrow>
   occupied (tq_occ (MarkEmpty l s t) l') s' \<longleftrightarrow> \<not> (l' = l \<and> s' = s) \<and> occupied (tq_occ t l') s'"
  by (auto simp: MarkOccupied_def MarkEmpty_def occupied_def bit_simps dest: bit_imp_le_length)
    (metis div_mult_mod_eq)+

lemma Link_simps [simp]:
  "tq_slots (Link i l s t) l' s' = (if l' = l \<and> s' = s then i # tq_slots t l s else tq_slots t l' s')"
  "tq_entries (Link i l s t) j = (if j = i then (tq_entries t i)\<lparr>en_level := Some l, en_slot := s\<rparr> else tq_entries t j)"
  "tq_currentTick (Link i l s t) = tq_currentTick t" "tq_tickNs (Link i l s t) = tq_tickNs t"
  "tq_epochNs (Link i l s t) = tq_epochNs t" "tq_size (Link i l s t) = tq_size t"
  "tq_freeHead (Link i l s t) = tq_freeHead t" "tq_periodics (Link i l s t) = tq_periodics t"
  "tq_armedCount (Link i l s t) = tq_armedCount t"
  by (simp_all add: Link_def Let_def)

lemma Link_occ: "s < kSlots \<Longrightarrow> s' < kSlots \<Longrightarrow>
   occupied (tq_occ (Link i l s t) l') s' \<longleftrightarrow> l' = l \<and> s' = s \<or> occupied (tq_occ t l') s'"
  by (simp add: Link_def Let_def occ_mark)

lemma linkedI:
  assumes "\<And>l s i. i \<in> set (tq_slots t l s) \<longleftrightarrow>
       i \<notin> X \<and> en_level (tq_entries t i) = Some l \<and> en_slot (tq_entries t i) = s"
    and "\<And>l s. distinct (tq_slots t l s)"
    and "\<And>l s. tq_slots t l s \<noteq> [] \<Longrightarrow> l < kLevels \<and> s < kSlots"
    and "\<And>l s. s < kSlots \<Longrightarrow> occupied (tq_occ t l) s \<longleftrightarrow> tq_slots t l s \<noteq> []"
  shows "linked t X"
  using assms unfolding linked_def by blast

lemma linkedD:
  assumes "linked t X"
  shows "i \<in> set (tq_slots t l s) \<longleftrightarrow>
       i \<notin> X \<and> en_level (tq_entries t i) = Some l \<and> en_slot (tq_entries t i) = s"
    and "distinct (tq_slots t l s)"
    and "tq_slots t l s \<noteq> [] \<Longrightarrow> l < kLevels \<and> s < kSlots"
    and "s < kSlots \<Longrightarrow> occupied (tq_occ t l) s \<longleftrightarrow> tq_slots t l s \<noteq> []"
  using assms unfolding linked_def by blast+

lemma linked_Link:
  assumes "linked t X" "i \<in> X \<or> en_level (tq_entries t i) = None" "l < kLevels" "s < kSlots"
  shows "linked (Link i l s t) (X - {i})"
proof (rule linkedI)
  note D = linkedD [OF assms(1)]
  show "j \<in> set (tq_slots (Link i l s t) l' s') \<longleftrightarrow> j \<notin> X - {i} \<and>
      en_level (tq_entries (Link i l s t) j) = Some l' \<and> en_slot (tq_entries (Link i l s t) j) = s'" for j l' s'
    using D(1) [of j l' s'] D(1) [of j l s] assms(2) by auto
  show "distinct (tq_slots (Link i l s t) l' s')" for l' s'
    using D(2) [of l' s'] D(1) [of i l s] assms(2) by auto
  show "tq_slots (Link i l s t) l' s' \<noteq> [] \<Longrightarrow> l' < kLevels \<and> s' < kSlots" for l' s'
    using D(3) [of l' s'] assms(3,4) by (auto split: if_splits)
  show "s' < kSlots \<Longrightarrow> occupied (tq_occ (Link i l s t) l') s' \<longleftrightarrow> tq_slots (Link i l s t) l' s' \<noteq> []" for l' s'
    using D(4) [of s' l'] Link_occ [OF assms(4)] by auto
qed

lemma linked_Unlink:
  assumes "linked t {}"
  shows "linked (Unlink i t) {} \<and> en_level (tq_entries (Unlink i t) i) = None"
proof (cases "en_level (tq_entries t i)")
  case None
  then show ?thesis using assms by (simp add: Unlink_def)
next
  case (Some l)
  define s where "s = en_slot (tq_entries t i)"
  note D = linkedD [OF assms]
  have i: "i \<in> set (tq_slots t l s)" using D(1) [of i l s] Some by (simp add: s_def)
  then have b: "l < kLevels" "s < kSlots" using D(3) [of l s] by force+
  have d: "distinct (tq_slots t l s)" by (rule D(2))
  have e: "Unlink i t = (let t2 = set_entry i (\<lambda>e. e\<lparr>en_level := None\<rparr>) (set_slot l s (remove1 i (tq_slots t l s)) t) in
     if remove1 i (tq_slots t l s) = [] then MarkEmpty l s t2 else t2)"
    using Some by (simp add: Unlink_def s_def Let_def)
  define t' where "t' = Unlink i t"
  have slots: "tq_slots t' l' s' = (if l' = l \<and> s' = s then remove1 i (tq_slots t l s) else tq_slots t l' s')" for l' s'
    by (simp add: t'_def e Let_def)
  have ents: "tq_entries t' j = (if j = i then (tq_entries t i)\<lparr>en_level := None\<rparr> else tq_entries t j)" for j
    by (simp add: t'_def e Let_def)
  have "linked t' {}"
  proof (rule linkedI)
    show "j \<in> set (tq_slots t' l' s') \<longleftrightarrow> j \<notin> {} \<and> en_level (tq_entries t' j) = Some l' \<and> en_slot (tq_entries t' j) = s'" for j l' s'
      using D(1) [of j l' s'] d Some unfolding slots ents by (auto simp: s_def)
    show "distinct (tq_slots t' l' s')" for l' s' using D(2) [of l' s'] d by (simp add: slots distinct_remove1)
    show "tq_slots t' l' s' \<noteq> [] \<Longrightarrow> l' < kLevels \<and> s' < kSlots" for l' s'
      using D(3) [of l' s'] b by (auto simp: slots split: if_splits)
    show "s' < kSlots \<Longrightarrow> occupied (tq_occ t' l') s' \<longleftrightarrow> tq_slots t' l' s' \<noteq> []" for l' s'
      using D(4) [of s' l'] b i unfolding slots unfolding t'_def e by (auto simp: Let_def occ_mark)
  qed
  then show ?thesis using ents [of i] by (simp add: t'_def)
qed

section \<open>Where an entry must sit\<close>

text \<open>At the current tick \<open>c\<close> an entry with deadline \<open>d\<close> in slot \<open>s\<close> of level \<open>l\<close> stands for a tick \<open>e\<close>:
  at level 0 the deadline itself (or \<open>c\<close> when it is already due); above, a tick of the slot's span that
  is strictly ahead of the span of \<open>c\<close>, at most one turn, and not after the deadline.\<close>

definition tick_ok :: "int \<Rightarrow> nat \<Rightarrow> int \<Rightarrow> nat \<Rightarrow> bool" where
  "tick_ok c l d s \<longleftrightarrow> (\<exists>e. s = slot_index l e \<and>
    (if l = 0 then c \<le> e \<and> e < c + 256 \<and> (e = d \<or> e = c \<and> d \<le> c)
     else c div LevelGranularity l < e div LevelGranularity l \<and>
          e div LevelGranularity l \<le> c div LevelGranularity l + 256 \<and> e \<le> d))"

definition entry_ok :: "TimerQueue \<Rightarrow> nat \<Rightarrow> bool" where
  "entry_ok t i \<longleftrightarrow> (\<forall>l. en_level (tq_entries t i) = Some l \<longrightarrow>
     tick_ok (tq_currentTick t) l (en_deadlineTick (tq_entries t i)) (en_slot (tq_entries t i)))"

definition on_time :: "TimerQueue \<Rightarrow> bool" where
  [inv_defs]: "on_time t \<longleftrightarrow> (\<forall>i. entry_ok t i)"

lemma gran_pos [simp]: "0 < LevelGranularity l" by (simp add: LevelGranularity_def)

lemma gran_Suc: "LevelGranularity (Suc l) = 256 * LevelGranularity l"
  by (simp add: LevelGranularity_def kSlotBits_def power_add)

lemma gran_0 [simp]: "LevelGranularity 0 = 1" by (simp add: LevelGranularity_def)

lemma slot_index_less [simp]: "slot_index l e < kSlots"
  by (simp add: slot_index_def kSlots_def nat_less_iff)

lemma levels_list: "[0..<kLevels] = [0, 1, 2, 3]" "[1..<kLevels] = [1, 2, 3]"
  by (simp_all add: kLevels_def upt_rec)

lemma place_level_Some:
  "place_level delta [0..<kLevels] = Some l \<Longrightarrow>
   l < kLevels \<and> delta < LevelGranularity (Suc l) \<and> (l = 0 \<or> LevelGranularity l \<le> delta)"
  unfolding levels_list by (auto simp: kLevels_def numeral_2_eq_2 numeral_3_eq_3 split: if_splits)

lemma place_level_None: "place_level delta [0..<kLevels] = None \<Longrightarrow> kMaxTicks \<le> delta"
  unfolding levels_list by (simp add: kMaxTicks_def LevelGranularity_def kSlotBits_def split: if_splits)

lemma span_ahead:
  assumes "0 < (g::int)" "c + g \<le> e" "e < c + 256 * g"
  shows "c div g < e div g" and "e div g \<le> c div g + 256"
proof -
  have "(c + g) div g \<le> e div g" using assms by (intro zdiv_mono1) auto
  moreover have "(c + g) div g = c div g + 1" using assms(1) div_add_self2 [of g c] by simp
  ultimately show "c div g < e div g" by linarith
  have "e div g \<le> (c + 256 * g) div g" using assms by (intro zdiv_mono1) auto
  moreover have "(c + 256 * g) div g = c div g + 256" using assms(1) div_mult_self1 [of g c 256] by simp
  ultimately show "e div g \<le> c div g + 256" by linarith
qed

lemma Place_link:
  "\<exists>l s. Place i d t = Link i l s t \<and> l < kLevels \<and> s < kSlots \<and> tick_ok (tq_currentTick t) l d s"
proof -
  let ?c = "tq_currentTick t"
  consider (due) "d \<le> ?c" | (lvl) l where "?c < d" "place_level (d - ?c) [0..<kLevels] = Some l"
    | (far) "?c < d" "place_level (d - ?c) [0..<kLevels] = None" by fastforce
  then show ?thesis
  proof cases
    case due
    then show ?thesis
      by (intro exI [of _ 0] exI [of _ "slot_index 0 ?c"]) (auto simp: Place_def tick_ok_def kLevels_def)
  next
    case lvl
    note p = place_level_Some [OF lvl(2)]
    have "tick_ok ?c l d (slot_index l d)"
    proof (cases l)
      case 0
      then show ?thesis using lvl p by (auto simp: tick_ok_def gran_Suc intro!: exI [of _ d])
    next
      case (Suc k)
      have "d < ?c + 256 * LevelGranularity l" "?c + LevelGranularity l \<le> d"
        using p Suc gran_Suc [of l] by auto
      with span_ahead [of "LevelGranularity l" ?c d] Suc show ?thesis
        by (auto simp: tick_ok_def intro!: exI [of _ d])
    qed
    then show ?thesis using lvl p by (intro exI [of _ l] exI [of _ "slot_index l d"]) (simp add: Place_def Let_def)
  next
    case far
    let ?e = "?c + kMaxTicks - 1"
    have "kMaxTicks = 256 * LevelGranularity 3" "LevelGranularity 3 = 16777216"
      by (simp_all add: kMaxTicks_def LevelGranularity_def kSlotBits_def)
    then have "tick_ok ?c 3 d (slot_index 3 ?e)"
      using span_ahead [of "LevelGranularity 3" ?c ?e] place_level_None [OF far(2)]
      by (auto simp: tick_ok_def intro!: exI [of _ ?e])
    then show ?thesis using far
      by (intro exI [of _ 3] exI [of _ "slot_index 3 ?e"]) (simp add: Place_def Let_def kLevels_def)
  qed
qed

text \<open>What \<open>Place\<close> leaves alone.\<close>

lemma Place_simps [simp]:
  "j \<noteq> i \<Longrightarrow> tq_entries (Place i d t) j = tq_entries t j"
  "en_deadlineTick (tq_entries (Place i d t) i) = en_deadlineTick (tq_entries t i)"
  "en_periodic (tq_entries (Place i d t) j) = en_periodic (tq_entries t j)"
  "en_token (tq_entries (Place i d t) j) = en_token (tq_entries t j)"
  "en_eject (tq_entries (Place i d t) j) = en_eject (tq_entries t j)"
  "en_ctx (tq_entries (Place i d t) j) = en_ctx (tq_entries t j)"
  "en_generation (tq_entries (Place i d t) j) = en_generation (tq_entries t j)"
  "en_nextFree (tq_entries (Place i d t) j) = en_nextFree (tq_entries t j)"
  "tq_currentTick (Place i d t) = tq_currentTick t" "tq_tickNs (Place i d t) = tq_tickNs t"
  "tq_epochNs (Place i d t) = tq_epochNs t" "tq_size (Place i d t) = tq_size t"
  "tq_freeHead (Place i d t) = tq_freeHead t" "tq_periodics (Place i d t) = tq_periodics t"
  "tq_armedCount (Place i d t) = tq_armedCount t"
  using Place_link [of i d t] by auto

lemma linked_Place:
  assumes "linked t X" "i \<in> X \<or> en_level (tq_entries t i) = None"
  shows "linked (Place i d t) (X - {i})"
  using Place_link [of i d t] linked_Link [OF assms] by auto

lemma entry_ok_Place: "en_deadlineTick (tq_entries t i) = d \<Longrightarrow> entry_ok (Place i d t) i"
  using Place_link [of i d t] by (auto simp: entry_ok_def)

lemma entry_ok_Place_other: "j \<noteq> i \<Longrightarrow> entry_ok (Place i d t) j \<longleftrightarrow> entry_ok t j"
  by (simp add: entry_ok_def)

section \<open>Moving entries around keeps their data\<close>

text \<open>\<open>base t\<close> is the queue without the positions of its entries: two queues with the same base differ
  only in where the entries are linked.\<close>

definition payload :: "Entry \<Rightarrow> Entry" where
  "payload e = e\<lparr>en_level := None, en_slot := 0\<rparr>"

definition base :: "TimerQueue \<Rightarrow> TimerQueue" where
  "base t = t\<lparr>tq_entries := (\<lambda>i. payload (tq_entries t i)), tq_slots := (\<lambda>_ _. []), tq_occ := (\<lambda>_ _. 0)\<rparr>"

definition armed :: "TimerQueue \<Rightarrow> nat \<Rightarrow> bool" where
  "armed t i \<longleftrightarrow> en_level (tq_entries t i) \<noteq> None"

lemma payload_eqD:
  "payload a = payload b \<Longrightarrow> en_token a = en_token b \<and> en_eject a = en_eject b \<and> en_ctx a = en_ctx b \<and> en_periodic a = en_periodic b \<and>
   en_deadlineTick a = en_deadlineTick b"
  by (cases a, cases b) (simp add: payload_def)

lemma base_eqD:
  assumes "base t' = base t"
  shows "en_deadlineTick (tq_entries t' i) = en_deadlineTick (tq_entries t i)"
    "en_periodic (tq_entries t' i) = en_periodic (tq_entries t i)" "en_token (tq_entries t' i) = en_token (tq_entries t i)"
    "en_eject (tq_entries t' i) = en_eject (tq_entries t i)" "en_ctx (tq_entries t' i) = en_ctx (tq_entries t i)"
    "en_generation (tq_entries t' i) = en_generation (tq_entries t i)"
    "en_nextFree (tq_entries t' i) = en_nextFree (tq_entries t i)"
    "tq_currentTick t' = tq_currentTick t" "tq_tickNs t' = tq_tickNs t" "tq_epochNs t' = tq_epochNs t"
    "tq_size t' = tq_size t" "tq_freeHead t' = tq_freeHead t" "tq_periodics t' = tq_periodics t"
    "tq_armedCount t' = tq_armedCount t"
proof -
  have "tq_entries (base t') i = tq_entries (base t) i" "tq_currentTick (base t') = tq_currentTick (base t)"
    "tq_tickNs (base t') = tq_tickNs (base t)" "tq_epochNs (base t') = tq_epochNs (base t)"
    "tq_size (base t') = tq_size (base t)" "tq_freeHead (base t') = tq_freeHead (base t)"
    "tq_periodics (base t') = tq_periodics (base t)" "tq_armedCount (base t') = tq_armedCount (base t)"
    using assms by simp_all
  then show "en_deadlineTick (tq_entries t' i) = en_deadlineTick (tq_entries t i)"
    "en_periodic (tq_entries t' i) = en_periodic (tq_entries t i)" "en_token (tq_entries t' i) = en_token (tq_entries t i)"
    "en_eject (tq_entries t' i) = en_eject (tq_entries t i)" "en_ctx (tq_entries t' i) = en_ctx (tq_entries t i)"
    "en_generation (tq_entries t' i) = en_generation (tq_entries t i)"
    "en_nextFree (tq_entries t' i) = en_nextFree (tq_entries t i)"
    "tq_currentTick t' = tq_currentTick t" "tq_tickNs t' = tq_tickNs t" "tq_epochNs t' = tq_epochNs t"
    "tq_size t' = tq_size t" "tq_freeHead t' = tq_freeHead t" "tq_periodics t' = tq_periodics t"
    "tq_armedCount t' = tq_armedCount t"
    by (auto simp: base_def payload_def Entry.equality intro: arg_cong) (metis Entry.select_convs Entry.update_convs Entry.surjective)+
qed

lemma base_set_entry: "(\<And>e. payload (f e) = payload e) \<Longrightarrow> base (set_entry i f t) = base t"
  by (auto simp: base_def set_entry_def intro!: TimerQueue.fold_congs)

lemma base_moves [simp]:
  "base (set_slot l s xs t) = base t" "base (MarkOccupied l s t) = base t" "base (MarkEmpty l s t) = base t"
  by (auto simp: base_def set_slot_def MarkOccupied_def MarkEmpty_def)

lemma base_relink [simp]:
  "base (set_entry i (\<lambda>e. e\<lparr>en_level := v, en_slot := s\<rparr>) t) = base t"
  "base (set_entry i (\<lambda>e. e\<lparr>en_level := v\<rparr>) t) = base t"
  by (rule base_set_entry, simp add: payload_def)+

lemma base_Link [simp]: "base (Link i l s t) = base t"
  by (simp add: Link_def Let_def)

lemma base_Place [simp]: "base (Place i d t) = base t"
  using Place_link [of i d t] by auto

lemma base_Unlink [simp]: "base (Unlink i t) = base t"
  by (simp add: Unlink_def Let_def split: option.split)

lemma base_cascade_one [simp]: "base (cascade_one i t) = base t"
  by (simp add: cascade_one_def)

lemma base_fold: "(\<And>x t. base (f x t) = base t) \<Longrightarrow> base (fold f xs t) = base t"
  by (induction xs arbitrary: t) auto

lemma base_Cascade [simp]: "base (Cascade l s t) = base t"
  by (simp add: Cascade_def base_fold)

lemma base_cascade_if [simp]: "base (cascade_if l s t) = base t"
  by (simp add: cascade_if_def)

lemma base_advance_levels [simp]: "base (advance_levels c0 c ls t) = base t"
  by (induction ls arbitrary: t) (auto simp: Let_def base_fold)

section \<open>Cascades\<close>

lemma cascade_one_entries:
  "j \<noteq> i \<Longrightarrow> tq_entries (cascade_one i t) j = tq_entries t j"
  "armed (cascade_one i t) i" "entry_ok (cascade_one i t) i"
proof -
  let ?t = "set_entry i (\<lambda>e. e\<lparr>en_level := None\<rparr>) t"
  obtain l s where p: "Place i (en_deadlineTick (tq_entries ?t i)) ?t = Link i l s ?t"
    using Place_link by blast
  show "j \<noteq> i \<Longrightarrow> tq_entries (cascade_one i t) j = tq_entries t j" by (simp add: cascade_one_def)
  show "armed (cascade_one i t) i" using p by (simp add: cascade_one_def armed_def)
  show "entry_ok (cascade_one i t) i" using entry_ok_Place [of ?t i] by (simp add: cascade_one_def)
qed

lemma linked_set_entry:
  "linked t X \<Longrightarrow> i \<in> X \<Longrightarrow> linked (set_entry i f t) X"
  unfolding linked_def by (auto simp: set_entry_simps)

lemma linked_cascade_one: "linked t X \<Longrightarrow> i \<in> X \<Longrightarrow> linked (cascade_one i t) (X - {i})"
  unfolding cascade_one_def Let_def by (rule linked_Place) (auto intro: linked_set_entry)

lemma fold_cascade:
  assumes "linked t (set xs)" "distinct xs"
  shows "linked (fold cascade_one xs t) {} \<and> (\<forall>j. j \<notin> set xs \<longrightarrow> tq_entries (fold cascade_one xs t) j = tq_entries t j) \<and>
    (\<forall>j \<in> set xs. armed (fold cascade_one xs t) j \<and> entry_ok (fold cascade_one xs t) j)"
  using assms
proof (induction xs arbitrary: t)
  case Nil
  then show ?case by simp
next
  case (Cons x xs)
  have "linked (cascade_one x t) (set (x # xs) - {x})" by (rule linked_cascade_one [OF Cons.prems(1)]) simp
  then have l: "linked (cascade_one x t) (set xs)" using Cons.prems(2) by simp
  note IH = Cons.IH [OF l] 
  have x: "tq_entries (fold cascade_one xs (cascade_one x t)) x = tq_entries (cascade_one x t) x"
    using IH Cons.prems(2) by simp
  have c: "tq_currentTick (fold cascade_one xs (cascade_one x t)) = tq_currentTick (cascade_one x t)"
    by (rule base_eqD(8) [OF base_fold]) simp
  have "armed (fold cascade_one xs (cascade_one x t)) x" "entry_ok (fold cascade_one xs (cascade_one x t)) x"
    using cascade_one_entries(2,3) [of x t] x c unfolding armed_def entry_ok_def by simp_all
  then show ?case using IH Cons.prems(2) cascade_one_entries(1) [of _ x t] by auto
qed

lemma linked_detach:
  assumes "linked t {}" "l < kLevels" "s < kSlots"
  shows "linked (MarkEmpty l s (set_slot l s [] t)) (set (tq_slots t l s))"
proof (rule linkedI)
  note D = linkedD [OF assms(1)]
  let ?t = "MarkEmpty l s (set_slot l s [] t)"
  show "i \<in> set (tq_slots ?t l' s') \<longleftrightarrow> i \<notin> set (tq_slots t l s) \<and>
     en_level (tq_entries ?t i) = Some l' \<and> en_slot (tq_entries ?t i) = s'" for i l' s'
    using D(1) [of i l' s'] D(1) [of i l s] by auto
  show "distinct (tq_slots ?t l' s')" for l' s' using D(2) [of l' s'] by simp
  show "tq_slots ?t l' s' \<noteq> [] \<Longrightarrow> l' < kLevels \<and> s' < kSlots" for l' s' using D(3) [of l' s'] by (simp split: if_splits)
  show "s' < kSlots \<Longrightarrow> occupied (tq_occ ?t l') s' \<longleftrightarrow> tq_slots ?t l' s' \<noteq> []" for l' s'
    using D(4) [of s' l'] assms(3) by (simp add: occ_mark)
qed

lemma cascade_if_spec:
  assumes "linked t {}" "l < kLevels" "s < kSlots"
  shows "linked (cascade_if l s t) {}"
    and "\<And>j. \<not> (en_level (tq_entries t j) = Some l \<and> en_slot (tq_entries t j) = s) \<Longrightarrow>
           tq_entries (cascade_if l s t) j = tq_entries t j"
    and "\<And>j. en_level (tq_entries t j) = Some l \<Longrightarrow> en_slot (tq_entries t j) = s \<Longrightarrow>
           armed (cascade_if l s t) j \<and> entry_ok (cascade_if l s t) j"
proof -
  let ?t = "MarkEmpty l s (set_slot l s [] t)"
  let ?xs = "tq_slots t l s"
  have d: "distinct ?xs" by (rule linkedD(2) [OF assms(1)])
  note F = fold_cascade [OF linked_detach [OF assms] d]
  have mem: "j \<in> set ?xs \<longleftrightarrow> en_level (tq_entries t j) = Some l \<and> en_slot (tq_entries t j) = s" for j
    using linkedD(1) [OF assms(1), of j l s] by simp
  have C: "cascade_if l s t = (if ?xs = [] then t else fold cascade_one ?xs ?t)"
    by (simp add: cascade_if_def Cascade_def)
  show "linked (cascade_if l s t) {}" using F assms(1) by (simp add: C)
  show "tq_entries (cascade_if l s t) j = tq_entries t j"
    if "\<not> (en_level (tq_entries t j) = Some l \<and> en_slot (tq_entries t j) = s)" for j
    using F mem [of j] that by (simp add: C)
  show "armed (cascade_if l s t) j \<and> entry_ok (cascade_if l s t) j"
    if "en_level (tq_entries t j) = Some l" "en_slot (tq_entries t j) = s" for j
  proof -
    have "j \<in> set ?xs" using mem [of j] that by simp
    then show ?thesis using F by (auto simp: C)
  qed
qed

section \<open>Advancing the clock\<close>

text \<open>While \<open>AdvanceTo\<close> works at level \<open>L\<close> with the slots \<open>S\<close> done, an entry is either right for the new
  tick, or it is right for the old tick \<open>c0\<close> and in a part of the wheel still to come.\<close>

definition half_ok :: "int \<Rightarrow> nat \<Rightarrow> nat set \<Rightarrow> TimerQueue \<Rightarrow> nat \<Rightarrow> bool" where
  "half_ok c0 L S t i \<longleftrightarrow> (\<forall>l. en_level (tq_entries t i) = Some l \<longrightarrow>
     tick_ok (tq_currentTick t) l (en_deadlineTick (tq_entries t i)) (en_slot (tq_entries t i)) \<or>
     (1 \<le> l \<and> (L < l \<or> l = L \<and> en_slot (tq_entries t i) \<notin> S) \<and>
      tick_ok c0 l (en_deadlineTick (tq_entries t i)) (en_slot (tq_entries t i))))"

lemma half_cascade:
  assumes "linked t {}" "L < kLevels" "s < kSlots" "\<forall>i. half_ok c0 L S t i"
  shows "linked (cascade_if L s t) {} \<and> (\<forall>i. half_ok c0 L (insert s S) (cascade_if L s t) i) \<and>
    (\<forall>i. armed (cascade_if L s t) i = armed t i)"
proof -
  note C = cascade_if_spec [OF assms(1-3)]
  have c: "tq_currentTick (cascade_if L s t) = tq_currentTick t" by (rule base_eqD(8)) simp
  have "half_ok c0 L (insert s S) (cascade_if L s t) i \<and> armed (cascade_if L s t) i = armed t i" for i
  proof (cases "en_level (tq_entries t i) = Some L \<and> en_slot (tq_entries t i) = s")
    case True
    then show ?thesis using C(3) [of i] by (auto simp: half_ok_def entry_ok_def armed_def)
  next
    case False
    then show ?thesis using C(2) [OF False] assms(4) c by (auto simp: half_ok_def armed_def)
  qed
  then show ?thesis using C(1) by blast
qed

lemma half_fold:
  assumes "linked t {}" "L < kLevels" "\<forall>s \<in> set ss. s < kSlots" "\<forall>i. half_ok c0 L S t i"
  shows "linked (fold (cascade_if L) ss t) {} \<and> (\<forall>i. half_ok c0 L (S \<union> set ss) (fold (cascade_if L) ss t) i) \<and>
    (\<forall>i. armed (fold (cascade_if L) ss t) i = armed t i)"
  using assms
proof (induction ss arbitrary: t S)
  case (Cons s ss)
  from half_cascade [OF Cons.prems(1,2) _ Cons.prems(4), of s] Cons.prems(3)
  have h: "linked (cascade_if L s t) {}" "\<forall>i. half_ok c0 L (insert s S) (cascade_if L s t) i"
    "\<forall>i. armed (cascade_if L s t) i = armed t i" by auto
  from Cons.IH [OF h(1) Cons.prems(2) _ h(2)] Cons.prems(3) h(3) show ?case by simp
qed simp

lemma tick_ok_same_span:
  "l \<noteq> 0 \<Longrightarrow> c0 div LevelGranularity l = c div LevelGranularity l \<Longrightarrow> tick_ok c0 l d s \<Longrightarrow> tick_ok c l d s"
  by (auto simp: tick_ok_def)

lemma tick_ok_advance:
  assumes "l \<noteq> 0" "tick_ok c0 l d s" "steps = c div LevelGranularity l - c0 div LevelGranularity l" "0 \<le> steps"
    and "\<And>k. 1 \<le> k \<Longrightarrow> k \<le> steps \<Longrightarrow> k \<le> 256 \<Longrightarrow> s \<noteq> nat ((c0 div LevelGranularity l + k) mod 256)"
  shows "tick_ok c l d s"
proof -
  obtain e where e: "s = slot_index l e" "c0 div LevelGranularity l < e div LevelGranularity l"
    "e div LevelGranularity l \<le> c0 div LevelGranularity l + 256" "e \<le> d"
    using assms(1,2) by (auto simp: tick_ok_def)
  define j where "j = e div LevelGranularity l - c0 div LevelGranularity l"
  have j: "1 \<le> j" "j \<le> 256" using e by (auto simp: j_def)
  have "s = nat ((c0 div LevelGranularity l + j) mod 256)" using e(1) by (simp add: slot_index_def kSlots_def j_def)
  then have "steps < j" using assms(5) [OF j(1) _ j(2)] by force
  then show ?thesis using e assms(1,3,4) by (auto simp: tick_ok_def j_def intro!: exI [of _ e])
qed

text \<open>The slots \<open>AdvanceTo\<close> visits at one level.\<close>

definition passed_slots :: "int \<Rightarrow> int \<Rightarrow> nat list" where
  "passed_slots from steps = (if steps \<ge> int kSlots then [0..<kSlots]
     else map (\<lambda>k. nat ((from + int k) mod int kSlots)) [1..<nat steps + 1])"

lemma passed_slots_less: "\<forall>s \<in> set (passed_slots from steps). s < kSlots"
  by (auto simp: passed_slots_def kSlots_def nat_less_iff)

lemma passed_slots_mem:
  assumes "1 \<le> k" "k \<le> steps" "k \<le> 256"
  shows "nat ((from + k) mod 256) \<in> set (passed_slots from steps)"
proof (cases "steps \<ge> 256")
  case True
  then show ?thesis by (auto simp: passed_slots_def kSlots_def nat_less_iff)
next
  case False
  then have "nat k \<in> set [1..<nat steps + 1]" "from + k = from + int (nat k)" using assms by auto
  then show ?thesis using False unfolding passed_slots_def kSlots_def by (simp del: upt_Suc) force
qed

lemma half_next_level:
  assumes "\<forall>i. half_ok c0 L (set (passed_slots (c0 div LevelGranularity L) steps)) t i" "1 \<le> L"
    and "steps = tq_currentTick t div LevelGranularity L - c0 div LevelGranularity L" "0 \<le> steps"
  shows "half_ok c0 (Suc L) {} t i"
  unfolding half_ok_def
proof (intro allI impI)
  fix l assume l: "en_level (tq_entries t i) = Some l"
  let ?d = "en_deadlineTick (tq_entries t i)" and ?s = "en_slot (tq_entries t i)"
  have h: "tick_ok (tq_currentTick t) l ?d ?s \<or> (1 \<le> l \<and> (L < l \<or> l = L \<and>
     ?s \<notin> set (passed_slots (c0 div LevelGranularity L) steps)) \<and> tick_ok c0 l ?d ?s)"
    using assms(1) l by (simp add: half_ok_def)
  moreover have "tick_ok (tq_currentTick t) L ?d ?s"
    if ns: "?s \<notin> set (passed_slots (c0 div LevelGranularity L) steps)" "tick_ok c0 L ?d ?s"
  proof (rule tick_ok_advance [OF _ ns(2) assms(3,4)])
    show "L \<noteq> 0" using assms(2) by simp
    show "?s \<noteq> nat ((c0 div LevelGranularity L + k) mod 256)" if "1 \<le> k" "k \<le> steps" "k \<le> 256" for k
      using passed_slots_mem [OF that, of "c0 div LevelGranularity L"] ns(1) by metis
  qed
  ultimately show "tick_ok (tq_currentTick t) l ?d ?s \<or>
     (1 \<le> l \<and> (Suc L < l \<or> l = Suc L \<and> ?s \<notin> {}) \<and> tick_ok c0 l ?d ?s)"
    by (cases "l = L") (auto simp: Suc_le_eq)
qed

lemma same_span_up:
  assumes "(c0::int) div LevelGranularity L = c div LevelGranularity L" "L \<le> l"
  shows "c0 div LevelGranularity l = c div LevelGranularity l"
proof -
  have g: "LevelGranularity l = LevelGranularity L * 256 ^ (l - L)"
    using assms(2) by (induction l rule: dec_induct) (simp_all add: gran_Suc Suc_diff_le mult.commute mult.left_commute)
  have "c0 div (LevelGranularity L * 256 ^ (l - L)) = (c0 div LevelGranularity L) div 256 ^ (l - L)"
    "c div (LevelGranularity L * 256 ^ (l - L)) = (c div LevelGranularity L) div 256 ^ (l - L)"
    by (simp_all add: zdiv_zmult2_eq)
  then show ?thesis using assms(1) g by simp
qed

lemma level_bound: "linked t {} \<Longrightarrow> en_level (tq_entries t i) = Some l \<Longrightarrow> l < kLevels \<and> en_slot (tq_entries t i) < kSlots"
  using linkedD(1) [of t "{}" i l "en_slot (tq_entries t i)"] linkedD(3) [of t "{}" l "en_slot (tq_entries t i)"] by force

lemma advance_levels_spec:
  assumes "linked t {}" "c0 \<le> tq_currentTick t" "1 \<le> L" "\<forall>i. half_ok c0 L {} t i"
  shows "linked (advance_levels c0 (tq_currentTick t) [L..<kLevels] t) {} \<and>
    on_time (advance_levels c0 (tq_currentTick t) [L..<kLevels] t) \<and>
    (\<forall>i. armed (advance_levels c0 (tq_currentTick t) [L..<kLevels] t) i = armed t i)"
  using assms
proof (induction "kLevels - L" arbitrary: L t)
  case 0
  have "entry_ok t i" for i
    using 0 level_bound [OF 0(2), of i] by (fastforce simp: entry_ok_def half_ok_def)
  then show ?case using 0 by (simp add: on_time_def)
next
  case (Suc n)
  let ?c = "tq_currentTick t" and ?g = "LevelGranularity L"
  have L: "L < kLevels" "[L..<kLevels] = L # [Suc L..<kLevels]" using Suc(2) by (auto simp: upt_rec)
  show ?case
  proof (cases "c0 div ?g = ?c div ?g")
    case True
    have "entry_ok t i" for i
      unfolding entry_ok_def
    proof (intro allI impI)
      fix l assume l: "en_level (tq_entries t i) = Some l"
      have "L \<le> l \<Longrightarrow> tick_ok c0 l d s \<Longrightarrow> tick_ok ?c l d s" for d s
        using same_span_up [OF True] tick_ok_same_span [of l c0 ?c d s] Suc.prems(3) by auto
      then show "tick_ok ?c l (en_deadlineTick (tq_entries t i)) (en_slot (tq_entries t i))"
        using Suc.prems(4) l by (force simp: half_ok_def)
    qed
    then show ?thesis using True Suc.prems(1) L by (simp add: on_time_def Let_def)
  next
    case False
    let ?steps = "?c div ?g - c0 div ?g"
    let ?t = "fold (cascade_if L) (passed_slots (c0 div ?g) ?steps) t"
    have c: "tq_currentTick ?t = ?c" by (rule base_eqD(8) [OF base_fold]) simp
    from half_fold [OF Suc.prems(1) L(1) passed_slots_less Suc.prems(4), of "c0 div ?g" ?steps]
    have h: "linked ?t {}" "\<forall>i. half_ok c0 L (set (passed_slots (c0 div ?g) ?steps)) ?t i" "\<forall>i. armed ?t i = armed t i" by auto
    have "0 \<le> ?steps" using Suc.prems(2) by (simp add: zdiv_mono1)
    then have "\<forall>i. half_ok c0 (Suc L) {} ?t i" using half_next_level [OF h(2) Suc.prems(3)] c by simp
    from Suc.hyps(1) [OF _ h(1) _ _ this] Suc.hyps(2) Suc.prems(2) c
    have "linked (advance_levels c0 ?c [Suc L..<kLevels] ?t) {} \<and> on_time (advance_levels c0 ?c [Suc L..<kLevels] ?t) \<and>
      (\<forall>i. armed (advance_levels c0 ?c [Suc L..<kLevels] ?t) i = armed ?t i)" by simp
    then show ?thesis using False L h(3) by (simp add: Let_def passed_slots_def)
  qed
qed

text \<open>Entries that are due at level 0 before the new tick are the ones an advance leaves behind.\<close>

lemma AdvanceTo_spec:
  assumes "linked t {}" "on_time t"
    and "\<And>i. en_level (tq_entries t i) = Some 0 \<Longrightarrow>
      \<exists>e. en_slot (tq_entries t i) = slot_index 0 e \<and> target \<le> e \<and> tq_currentTick t \<le> e \<and> e < tq_currentTick t + 256 \<and>
        (e = en_deadlineTick (tq_entries t i) \<or> e = tq_currentTick t \<and> en_deadlineTick (tq_entries t i) \<le> e)"
  shows "linked (AdvanceTo target t) {} \<and> on_time (AdvanceTo target t) \<and>
    (\<forall>i. armed (AdvanceTo target t) i = armed t i)"
proof (cases "target \<le> tq_currentTick t")
  case True
  then show ?thesis using assms by (simp add: AdvanceTo_def)
next
  case False
  let ?t = "t\<lparr>tq_currentTick := target\<rparr>"
  have l: "linked ?t {}" using assms(1) by (simp add: linked_def)
  have "half_ok (tq_currentTick t) 1 {} ?t i" for i
    unfolding half_ok_def
  proof (intro allI impI)
    fix k assume k: "en_level (tq_entries ?t i) = Some k"
    show "tick_ok (tq_currentTick ?t) k (en_deadlineTick (tq_entries ?t i)) (en_slot (tq_entries ?t i)) \<or>
      (1 \<le> k \<and> (1 < k \<or> k = 1 \<and> en_slot (tq_entries ?t i) \<notin> {}) \<and>
       tick_ok (tq_currentTick t) k (en_deadlineTick (tq_entries ?t i)) (en_slot (tq_entries ?t i)))"
    proof (cases "k = 0")
      case True
      with k assms(3) [of i] obtain e where e: "en_slot (tq_entries t i) = slot_index 0 e" "target \<le> e"
        "e < tq_currentTick t + 256" "e = en_deadlineTick (tq_entries t i) \<or> e = tq_currentTick t \<and> en_deadlineTick (tq_entries t i) \<le> e"
        by auto
      then show ?thesis using True False by (auto simp: tick_ok_def intro!: exI [of _ e])
    next
      case F: False
      then show ?thesis using k assms(2) by (auto simp: on_time_def entry_ok_def)
    qed
  qed
  from advance_levels_spec [OF l _ _ allI [OF this]] False show ?thesis
    by (simp add: AdvanceTo_def armed_def)
qed

section \<open>The next event\<close>

definition event_of :: "int \<Rightarrow> nat \<Rightarrow> nat \<Rightarrow> int" where
  "event_of c l s =
    (if l = 0 then c + int (ahead (slot_index 0 c) s)
     else (c div LevelGranularity l + 1) * LevelGranularity l +
          int (ahead ((slot_index l c + 1) mod kSlots) s) * LevelGranularity l)"

lemma event_of_ge: "tq_currentTick t \<le> event_of (tq_currentTick t) l s"
proof (cases "l = 0")
  case False
  let ?g = "LevelGranularity l" and ?c = "tq_currentTick t"
  have "?c < (?c div ?g + 1) * ?g" by (rule below_next_multiple) simp
  moreover have "0 \<le> int (ahead ((slot_index l ?c + 1) mod kSlots) s) * ?g" by (simp add: less_imp_le)
  ultimately have "?c \<le> (?c div ?g + 1) * ?g + int (ahead ((slot_index l ?c + 1) mod kSlots) s) * ?g" by linarith
  then show ?thesis using False by (simp add: event_of_def)
qed (simp add: event_of_def)

lemma ahead_mod:
  assumes "0 \<le> (k::int)" "k < 256"
  shows "ahead (nat (x mod 256)) (nat ((x + k) mod 256)) = nat k"
proof -
  have "int (ahead (nat (x mod 256)) (nat ((x + k) mod 256))) = ((x + k) mod 256 + 256 - x mod 256) mod 256"
    by (simp add: ahead_def kSlots_def zmod_int of_nat_diff nat_le_iff order_trans [OF pos_mod_bound [THEN less_imp_le]])
  also have "\<dots> = ((x + k) mod 256 + (256 - x)) mod 256" by (simp add: mod_diff_right_eq add_diff_eq)
  also have "\<dots> = k mod 256" by (simp add: mod_add_left_eq)
  finally show ?thesis using assms by simp
qed

lemma slot_index_0: "slot_index 0 e = nat (e mod 256)"
  by (simp add: slot_index_def kSlots_def)

lemma event_of_tick:
  assumes "tick_ok c l d s"
  shows "event_of c l s \<le> max c d" and "l = 0 \<Longrightarrow> s = slot_index 0 (event_of c l s) \<and> event_of c l s < c + 256 \<and>
     (event_of c l s = d \<or> event_of c l s = c \<and> d \<le> c)"
proof -
  let ?g = "LevelGranularity l"
  obtain e where e: "s = slot_index l e" "if l = 0 then c \<le> e \<and> e < c + 256 \<and> (e = d \<or> e = c \<and> d \<le> c)
     else c div ?g < e div ?g \<and> e div ?g \<le> c div ?g + 256 \<and> e \<le> d"
    using assms by (auto simp: tick_ok_def)
  have z: "event_of c l s = e" if "l = 0"
    using ahead_mod [of "e - c" c] e that by (simp add: event_of_def slot_index_0)
  have p: "event_of c l s = (e div ?g) * ?g" if "l \<noteq> 0"
  proof -
    define x where "x = c div ?g + 1"
    define k where "k = e div ?g - x"
    have k: "0 \<le> k" "k < 256" using e that by (auto simp: k_def x_def)
    have "int ((nat (c div ?g mod 256) + 1) mod 256) = x mod 256" 
      by (simp add: zmod_int x_def mod_add_right_eq add.commute)
    then have "(slot_index l c + 1) mod kSlots = nat (x mod 256)" by (simp add: slot_index_def kSlots_def)
    moreover have "s = nat ((x + k) mod 256)" using e(1) by (simp add: slot_index_def kSlots_def k_def)
    ultimately have "ahead ((slot_index l c + 1) mod kSlots) s = nat k" using ahead_mod [OF k] by simp
    then show ?thesis using that k by (simp add: event_of_def k_def x_def algebra_simps)
  qed
  show "event_of c l s \<le> max c d"
  proof (cases "l = 0")
    case True
    then show ?thesis using z e by auto
  next
    case False
    have "(e div ?g) * ?g \<le> e" by (metis div_mod_decomp_int gran_pos le_add_same_cancel1 pos_mod_sign)
    then show ?thesis using p False e by auto
  qed
  show "l = 0 \<Longrightarrow> s = slot_index 0 (event_of c l s) \<and> event_of c l s < c + 256 \<and>
     (event_of c l s = d \<or> event_of c l s = c \<and> d \<le> c)" using z e by auto
qed

lemma LevelEmpty_occ: "LevelEmpty l t \<Longrightarrow> s < kSlots \<Longrightarrow> \<not> occupied (tq_occ t l) s"
proof -
  assume a: "LevelEmpty l t" "s < kSlots"
  then have "s div 64 \<in> set [0..<kOccWords]" by (simp add: kSlots_def kOccWords_def)
  with a(1) have "tq_occ t l (s div 64) = 0" unfolding LevelEmpty_def by blast
  then show ?thesis by (simp add: occupied_def)
qed

lemma level_event_eq:
  "level_event l t = (if LevelEmpty l t then None
     else let s = NextOccupied (tq_occ t l) (if l = 0 then slot_index 0 (tq_currentTick t)
                                            else (slot_index l (tq_currentTick t) + 1) mod kSlots) in
       if s = kSlots then None else Some (event_of (tq_currentTick t) l s))"
  by (auto simp: level_event_def event_of_def ahead_def Let_def)

lemma level_event_spec:
  assumes "linked t {}"
  shows "level_event l t = None \<Longrightarrow> en_level (tq_entries t i) \<noteq> Some l"
    and "level_event l t = Some w \<Longrightarrow> (\<exists>j. en_level (tq_entries t j) = Some l \<and> w = event_of (tq_currentTick t) l (en_slot (tq_entries t j))) \<and>
      (en_level (tq_entries t i) = Some l \<longrightarrow> w \<le> event_of (tq_currentTick t) l (en_slot (tq_entries t i)))"
proof -
  let ?oc = "tq_occ t l" and ?c = "tq_currentTick t"
  define fr where "fr = (if l = 0 then slot_index 0 ?c else (slot_index l ?c + 1) mod kSlots)"
  have "fr < kSlots" using slot_index_less [of 0 ?c] by (auto simp: fr_def kSlots_def)
  note N = NextOccupied_nearest [OF this, of ?oc]
  have at: "occupied ?oc (en_slot (tq_entries t i)) \<and> en_slot (tq_entries t i) < kSlots" if "en_level (tq_entries t i) = Some l" for i
    using level_bound [OF assms that] linkedD(4) [OF assms, of "en_slot (tq_entries t i)" l]
      linkedD(1) [OF assms, of i l "en_slot (tq_entries t i)"] that by auto
  have E: "level_event l t = (if LevelEmpty l t then None else if NextOccupied ?oc fr = kSlots then None
      else Some (event_of ?c l (NextOccupied ?oc fr)))"
    by (simp add: level_event_eq fr_def Let_def)
  show "level_event l t = None \<Longrightarrow> en_level (tq_entries t i) \<noteq> Some l"
    using E at [of i] LevelEmpty_occ [of l t] N by (auto split: if_splits)
  assume w: "level_event l t = Some w"
  then have ex: "\<exists>s<kSlots. occupied ?oc s" and w': "w = event_of ?c l (NextOccupied ?oc fr)"
    using E N by (auto split: if_splits)
  with N have n: "NextOccupied ?oc fr < kSlots" "occupied ?oc (NextOccupied ?oc fr)"
    "\<And>s. s < kSlots \<Longrightarrow> occupied ?oc s \<Longrightarrow> ahead fr (NextOccupied ?oc fr) \<le> ahead fr s" by auto
  then obtain j where "j \<in> set (tq_slots t l (NextOccupied ?oc fr))"
    using linkedD(4) [OF assms, of "NextOccupied ?oc fr" l] by (metis list.set_intros(1) neq_Nil_conv)
  then have "en_level (tq_entries t j) = Some l \<and> w = event_of ?c l (en_slot (tq_entries t j))"
    using linkedD(1) [OF assms] w' by metis
  moreover have "w \<le> event_of ?c l (en_slot (tq_entries t i))" if "en_level (tq_entries t i) = Some l"
  proof -
    have "ahead fr (NextOccupied ?oc fr) \<le> ahead fr (en_slot (tq_entries t i))" using n(3) at [OF that] by blast
    then show ?thesis by (cases "l = 0") (auto simp: w' event_of_def fr_def mult_right_mono less_imp_le)
  qed
  ultimately show "(\<exists>j. en_level (tq_entries t j) = Some l \<and> w = event_of ?c l (en_slot (tq_entries t j))) \<and>
      (en_level (tq_entries t i) = Some l \<longrightarrow> w \<le> event_of ?c l (en_slot (tq_entries t i)))" by blast
qed

lemma best_fold:
  "fold (\<lambda>l best. best_event best (f l)) ls b = None \<Longrightarrow> b = None \<and> (\<forall>l \<in> set ls. f l = None)"
  "fold (\<lambda>l best. best_event best (f l)) ls b = Some w \<Longrightarrow>
    (b = Some w \<or> (\<exists>l \<in> set ls. f l = Some w)) \<and> (\<forall>v. b = Some v \<longrightarrow> w \<le> v) \<and>
    (\<forall>l \<in> set ls. \<forall>v. f l = Some v \<longrightarrow> w \<le> v)"
proof (induction ls arbitrary: b)
  case (Cons l ls)
  { case 1
    then have "fold (\<lambda>l best. best_event best (f l)) ls (best_event b (f l)) = None" by simp
    from Cons.IH(1) [OF this] show ?case
      by (cases "f l"; cases b) (auto simp: best_event_def split: if_splits) }
  { case 2
    then have "fold (\<lambda>l best. best_event best (f l)) ls (best_event b (f l)) = Some w" by simp
    from Cons.IH(2) [OF this] show ?case
      by (cases "f l"; cases b) (force simp: best_event_def split: if_splits)+ }
qed auto

lemma NextEventTick_spec:
  assumes "linked t {}"
  shows "NextEventTick t = None \<Longrightarrow> \<not> armed t i"
    and "NextEventTick t = Some w \<Longrightarrow> \<exists>j l. en_level (tq_entries t j) = Some l \<and> w = event_of (tq_currentTick t) l (en_slot (tq_entries t j))"
    and "NextEventTick t = Some w \<Longrightarrow> en_level (tq_entries t i) = Some l \<Longrightarrow> w \<le> event_of (tq_currentTick t) l (en_slot (tq_entries t i))"
proof -
  let ?F = "fold (\<lambda>l best. best_event best (level_event l t)) [0..<kLevels] None"
  have N: "NextEventTick t = ?F" by (simp add: NextEventTick_def)
  { assume "NextEventTick t = None"
    then have "\<forall>l < kLevels. level_event l t = None" using best_fold(1) [of "\<lambda>l. level_event l t" "[0..<kLevels]" None] N by auto
    then have "en_level (tq_entries t i) \<noteq> Some l" for l
      using level_event_spec(1) [OF assms, of l i] level_bound [OF assms, of i l] by auto
    then show "\<not> armed t i" by (auto simp: armed_def) }
  assume "NextEventTick t = Some w"
  then have b: "\<exists>l. level_event l t = Some w" "\<And>l v. l < kLevels \<Longrightarrow> level_event l t = Some v \<Longrightarrow> w \<le> v"
    using best_fold(2) [of "\<lambda>l. level_event l t" "[0..<kLevels]" None w] N by auto
  then show "\<exists>j l. en_level (tq_entries t j) = Some l \<and> w = event_of (tq_currentTick t) l (en_slot (tq_entries t j))"
    using level_event_spec(2) [OF assms] by blast
  assume l: "en_level (tq_entries t i) = Some l"
  then obtain v where v: "level_event l t = Some v" using level_event_spec(1) [OF assms, of l i] by fastforce
  then have "w \<le> v" using b(2) level_bound [OF assms l] by blast
  also have "v \<le> event_of (tq_currentTick t) l (en_slot (tq_entries t i))" using level_event_spec(2) [OF assms v, of i] l by blast
  finally show "w \<le> event_of (tq_currentTick t) l (en_slot (tq_entries t i))" .
qed

section \<open>Advancing to the next event, or short of it\<close>

lemma base_AdvanceTo: "base (AdvanceTo target t) = base (t\<lparr>tq_currentTick := max target (tq_currentTick t)\<rparr>)"
  by (simp add: AdvanceTo_def max_def)

lemma AdvanceTo_fields [simp]:
  "tq_currentTick (AdvanceTo target t) = max target (tq_currentTick t)" "tq_tickNs (AdvanceTo target t) = tq_tickNs t"
  "tq_epochNs (AdvanceTo target t) = tq_epochNs t" "tq_periodics (AdvanceTo target t) = tq_periodics t"
  "en_deadlineTick (tq_entries (AdvanceTo target t) i) = en_deadlineTick (tq_entries t i)"
  "en_token (tq_entries (AdvanceTo target t) i) = en_token (tq_entries t i)"
  "en_eject (tq_entries (AdvanceTo target t) i) = en_eject (tq_entries t i)"
  "en_ctx (tq_entries (AdvanceTo target t) i) = en_ctx (tq_entries t i)"
  "en_periodic (tq_entries (AdvanceTo target t) i) = en_periodic (tq_entries t i)"
  "en_generation (tq_entries (AdvanceTo target t) i) = en_generation (tq_entries t i)"
  "en_nextFree (tq_entries (AdvanceTo target t) i) = en_nextFree (tq_entries t i)"
  "tq_size (AdvanceTo target t) = tq_size t" "tq_freeHead (AdvanceTo target t) = tq_freeHead t"
  using base_eqD [OF base_AdvanceTo [of target t]] by simp_all

lemma AdvanceTo_not_past_event:
  assumes "linked t {}" "on_time t" "\<And>w. NextEventTick t = Some w \<Longrightarrow> target \<le> w"
  shows "linked (AdvanceTo target t) {}" "on_time (AdvanceTo target t)" "armed (AdvanceTo target t) i = armed t i"
proof -
  let ?c = "tq_currentTick t"
  have "\<exists>e. en_slot (tq_entries t i) = slot_index 0 e \<and> target \<le> e \<and> ?c \<le> e \<and> e < ?c + 256 \<and>
        (e = en_deadlineTick (tq_entries t i) \<or> e = ?c \<and> en_deadlineTick (tq_entries t i) \<le> e)"
    if l: "en_level (tq_entries t i) = Some 0" for i
  proof -
    let ?e = "event_of ?c 0 (en_slot (tq_entries t i))"
    have "armed t i" using l by (simp add: armed_def)
    then obtain w where w: "NextEventTick t = Some w" using NextEventTick_spec(1) [OF assms(1), of i] by (cases "NextEventTick t") auto
    have "target \<le> ?e" using assms(3) [OF w] NextEventTick_spec(3) [OF assms(1) w l] by linarith
    moreover have "tick_ok ?c 0 (en_deadlineTick (tq_entries t i)) (en_slot (tq_entries t i))"
      using assms(2) l by (simp add: on_time_def entry_ok_def)
    ultimately show ?thesis using event_of_tick(2) [of ?c 0 "en_deadlineTick (tq_entries t i)" "en_slot (tq_entries t i)"]
        event_of_ge [of t 0 "en_slot (tq_entries t i)"] by (intro exI [of _ ?e]) auto
  qed
  note A = AdvanceTo_spec [OF assms(1,2) this]
  from A show "linked (AdvanceTo target t) {}" "on_time (AdvanceTo target t)" "armed (AdvanceTo target t) i = armed t i" by blast+
qed

section \<open>Firing keeps the wheel on time\<close>

lemma linked_cong:
  assumes "linked t X" "tq_slots t' = tq_slots t" "tq_occ t' = tq_occ t"
    "\<And>i. en_level (tq_entries t' i) = en_level (tq_entries t i)" "\<And>i. en_slot (tq_entries t' i) = en_slot (tq_entries t i)"
  shows "linked t' X"
  by (rule linkedI) (use linkedD [OF assms(1)] assms(2-5) in \<open>simp_all\<close>)

lemma entry_ok_cong:
  "entry_ok t i \<Longrightarrow> tq_currentTick t' = tq_currentTick t \<Longrightarrow> tq_entries t' i = tq_entries t i \<Longrightarrow> entry_ok t' i"
  by (simp add: entry_ok_def)

lemma entry_ok_None: "en_level (tq_entries t i) = None \<Longrightarrow> entry_ok t i"
  by (simp add: entry_ok_def)

lemma Unlink_other: "j \<noteq> i \<Longrightarrow> tq_entries (Unlink i t) j = tq_entries t j"
  by (simp add: Unlink_def Let_def split: option.split)

lemma Unlink_fields [simp]:
  "tq_currentTick (Unlink i t) = tq_currentTick t" "tq_tickNs (Unlink i t) = tq_tickNs t" "tq_epochNs (Unlink i t) = tq_epochNs t"
  "tq_periodics (Unlink i t) = tq_periodics t" "tq_size (Unlink i t) = tq_size t"
  "en_generation (tq_entries (Unlink i t) j) = en_generation (tq_entries t j)" "en_periodic (tq_entries (Unlink i t) j) = en_periodic (tq_entries t j)"
  using base_eqD [OF base_Unlink [of i t]] by simp_all

lemma retire_spec:
  assumes "linked t {}" "on_time t"
  shows "linked (retire_entry i t) {}" "on_time (retire_entry i t)"
    and "tq_currentTick (retire_entry i t) = tq_currentTick t" "tq_tickNs (retire_entry i t) = tq_tickNs t"
    "tq_epochNs (retire_entry i t) = tq_epochNs t" "tq_periodics (retire_entry i t) = tq_periodics t"
    "tq_size (retire_entry i t) = tq_size t"
    and "j \<noteq> i \<Longrightarrow> tq_entries (retire_entry i t) j = tq_entries t j"
    and "\<not> armed (retire_entry i t) i" "en_generation (tq_entries (retire_entry i t) i) = en_generation (tq_entries t i) + 1"
proof -
  note U = linked_Unlink [OF assms(1), of i]
  show f: "tq_currentTick (retire_entry i t) = tq_currentTick t" "tq_tickNs (retire_entry i t) = tq_tickNs t"
    "tq_epochNs (retire_entry i t) = tq_epochNs t" "tq_periodics (retire_entry i t) = tq_periodics t"
    "tq_size (retire_entry i t) = tq_size t" "\<not> armed (retire_entry i t) i"
    "en_generation (tq_entries (retire_entry i t) i) = en_generation (tq_entries t i) + 1"
    by (simp_all add: retire_entry_def ReleaseEntry_def Let_def armed_def)
  show o: "tq_entries (retire_entry i t) j = tq_entries t j" if "j \<noteq> i" for j
    using that by (simp add: retire_entry_def ReleaseEntry_def Let_def Unlink_other)
  show "linked (retire_entry i t) {}"
    by (rule linked_cong [OF conjunct1 [OF U]]) (use U in \<open>auto simp: retire_entry_def ReleaseEntry_def Let_def\<close>)
  have "entry_ok (retire_entry i t) j" for j
  proof (cases "j = i")
    case True
    then show ?thesis using f(6) by (auto simp: armed_def intro: entry_ok_None)
  next
    case False
    then show ?thesis using assms(2) o [OF False] f(1) by (auto simp: on_time_def intro: entry_ok_cong)
  qed
  then show "on_time (retire_entry i t)" by (simp add: on_time_def)
qed

definition periodic_next :: "int \<Rightarrow> PeriodicRecord \<Rightarrow> int" where
  "periodic_next nowNs p = pr_due p + ((if nowNs - pr_due p > 0 then (nowNs - pr_due p) div pr_interval p else 0) + 1) * pr_interval p"

lemma periodic_next_after: "0 < pr_interval p \<Longrightarrow> nowNs < periodic_next nowNs p"
proof -
  assume i: "0 < pr_interval p"
  let ?b = "nowNs - pr_due p"
  have "?b < (?b div pr_interval p + 1) * pr_interval p"
    by (rule below_next_multiple [OF i])
  then show ?thesis using i by (auto simp: periodic_next_def)
qed

lemma TickFor_after:
  assumes "nowNs < ns" "0 < tq_tickNs t" "0 \<le> NowTick nowNs t"
  shows "NowTick nowNs t < TickFor ns t"
proof -
  let ?k = "tq_tickNs t" and ?r = "nowNs - tq_epochNs t"
  have r: "0 \<le> ?r" using assms(2,3) by (simp add: NowTick_def pos_imp_zdiv_nonneg_iff)
  have "(?r + ?k) div ?k \<le> (ns - tq_epochNs t + ?k - 1) div ?k" using assms by (intro zdiv_mono1) auto
  moreover have "(?r + ?k) div ?k = ?r div ?k + 1" using assms(2) div_add_self2 [of ?k ?r] by simp
  ultimately show ?thesis using r assms(1) by (simp add: TickFor_def NowTick_def Let_def)
qed

lemma set_periodic_fields [simp]:
  "tq_entries (set_periodic r f t) = tq_entries t" "tq_slots (set_periodic r f t) = tq_slots t"
  "tq_occ (set_periodic r f t) = tq_occ t" "tq_currentTick (set_periodic r f t) = tq_currentTick t"
  "tq_tickNs (set_periodic r f t) = tq_tickNs t" "tq_epochNs (set_periodic r f t) = tq_epochNs t"
  "tq_size (set_periodic r f t) = tq_size t"
  "tq_periodics (set_periodic r f t) q = (if q = r then f (tq_periodics t r) else tq_periodics t q)"
  by (simp_all add: set_periodic_def)

lemma TickFor_cong: "tq_epochNs t' = tq_epochNs t \<Longrightarrow> tq_tickNs t' = tq_tickNs t \<Longrightarrow> TickFor ns t' = TickFor ns t"
  by (simp add: TickFor_def)

lemma FirePeriodic_spec:
  assumes "linked t {}" "on_time t" "FirePeriodicLocked nowNs idx r t = (launch, t')"
  shows "linked t' {}" "on_time t'" "tq_currentTick t' = tq_currentTick t" "tq_tickNs t' = tq_tickNs t"
    "tq_epochNs t' = tq_epochNs t" "tq_size t' = tq_size t"
    and "j \<noteq> idx \<Longrightarrow> tq_entries t' j = tq_entries t j"
    and "en_deadlineTick (tq_entries t' idx) = TickFor (periodic_next nowNs (tq_periodics t r)) t"
    and "launch \<longleftrightarrow> \<not> pr_inFlight (tq_periodics t r)"
    and "pr_interval (tq_periodics t' q) = pr_interval (tq_periodics t q)"
proof -
  define tick where "tick = TickFor (periodic_next nowNs (tq_periodics t r)) t"
  obtain f where f: "t' = Place idx tick (set_entry idx (\<lambda>e. e\<lparr>en_deadlineTick := tick\<rparr>) (set_periodic r f (Unlink idx t)))"
    and int: "\<And>p. pr_interval (f p) = pr_interval p" and la: "launch \<longleftrightarrow> \<not> pr_inFlight (tq_periodics t r)"
  proof (rule that)
    have tc: "TickFor ns (set_periodic r g (Unlink idx t)) = TickFor ns t" for ns g by (rule TickFor_cong) simp_all
    show "t' = Place idx tick (set_entry idx (\<lambda>e. e\<lparr>en_deadlineTick := tick\<rparr>) (set_periodic r
       (\<lambda>p. p\<lparr>pr_inFlight := True, pr_runs := (if launch then pr_runs p + 1 else pr_runs p),
          pr_pendingSkipped := pr_pendingSkipped p + (if pr_inFlight (tq_periodics t r)
             then (if nowNs - pr_due (tq_periodics t r) > 0 then (nowNs - pr_due (tq_periodics t r)) div pr_interval (tq_periodics t r) else 0) + 1
             else (if nowNs - pr_due (tq_periodics t r) > 0 then (nowNs - pr_due (tq_periodics t r)) div pr_interval (tq_periodics t r) else 0)),
          pr_totalSkipped := pr_totalSkipped p + (if pr_inFlight (tq_periodics t r)
             then (if nowNs - pr_due (tq_periodics t r) > 0 then (nowNs - pr_due (tq_periodics t r)) div pr_interval (tq_periodics t r) else 0) + 1
             else (if nowNs - pr_due (tq_periodics t r) > 0 then (nowNs - pr_due (tq_periodics t r)) div pr_interval (tq_periodics t r) else 0)),
          pr_due := periodic_next nowNs (tq_periodics t r)\<rparr>) (Unlink idx t)))"
      using assms(3) unfolding FirePeriodicLocked_def Let_def tick_def
      by (auto simp: periodic_next_def tc)
    show "launch \<longleftrightarrow> \<not> pr_inFlight (tq_periodics t r)" using assms(3) by (auto simp: FirePeriodicLocked_def Let_def)
  qed simp
  let ?t = "set_entry idx (\<lambda>e. e\<lparr>en_deadlineTick := tick\<rparr>) (set_periodic r f (Unlink idx t))"
  note U = linked_Unlink [OF assms(1), of idx]
  have l: "linked ?t {}" by (rule linked_cong [OF conjunct1 [OF U]]) simp_all
  have n: "en_level (tq_entries ?t idx) = None" using U by simp
  show "linked t' {}" using linked_Place [OF l disjI2 [OF n]] f by simp
  show cur: "tq_currentTick t' = tq_currentTick t" and "tq_tickNs t' = tq_tickNs t"
    "tq_epochNs t' = tq_epochNs t" "tq_size t' = tq_size t"
    "en_deadlineTick (tq_entries t' idx) = TickFor (periodic_next nowNs (tq_periodics t r)) t"
    using f by (simp_all add: tick_def)
  show o: "tq_entries t' j = tq_entries t j" if "j \<noteq> idx" for j using that by (simp add: f Unlink_other)
  have "entry_ok t' j" for j
  proof (cases "j = idx")
    case True
    then show ?thesis using entry_ok_Place [of ?t idx tick] f by simp
  next
    case False
    then show ?thesis using assms(2) o [OF False] cur by (auto simp: on_time_def intro: entry_ok_cong)
  qed
  then show "on_time t'" by (simp add: on_time_def)
  show "launch \<longleftrightarrow> \<not> pr_inFlight (tq_periodics t r)" by (rule la)
  show "pr_interval (tq_periodics t' q) = pr_interval (tq_periodics t q)" by (simp add: f int)
qed

text \<open>One entry of the slot under the fire loop: what it does to the queue and to the batch.\<close>

definition fire_one :: "(nat \<Rightarrow> int) \<Rightarrow> nat \<Rightarrow> TimerQueue \<Rightarrow> fired \<Rightarrow> TimerQueue \<times> fired" where
  "fire_one clk idx t fd =
    (let e = tq_entries t idx in
     if en_deadlineTick e \<le> tq_currentTick t \<and> en_periodic e \<noteq> None then
       (case FirePeriodicLocked (clk idx) idx (the (en_periodic e)) t of (launch, t1) \<Rightarrow>
          (t1, if launch then fd\<lparr>fd_launch := fd_launch fd @ [the (en_periodic e)]\<rparr> else fd))
     else if en_deadlineTick e \<le> tq_currentTick t then
       (retire_entry idx t, fd\<lparr>fd_shots := fd_shots fd @ [(en_token e, en_eject e, en_ctx e)]\<rparr>)
     else (t, fd))"

lemma fire_slot_Cons:
  "fire_slot clk (idx # rest) t fd =
    (if length (fd_shots fd) + length (fd_launch fd) \<ge> kBatch then (t, fd)
     else case fire_one clk idx t fd of (t1, fd1) \<Rightarrow> fire_slot clk rest t1 fd1)"
  by (simp add: fire_one_def Let_def split: prod.split)

lemma fire_one_spec:
  assumes "linked t {}" "on_time t" "fire_one clk idx t fd = (t1, fd1)"
  shows "linked t1 {}" "on_time t1" "tq_currentTick t1 = tq_currentTick t" "tq_tickNs t1 = tq_tickNs t"
    "tq_epochNs t1 = tq_epochNs t" "tq_size t1 = tq_size t"
    and "j \<noteq> idx \<Longrightarrow> tq_entries t1 j = tq_entries t j"
    and "pr_interval (tq_periodics t1 q) = pr_interval (tq_periodics t q)"
proof -
  let ?e = "tq_entries t idx"
  consider (per) launch where "FirePeriodicLocked (clk idx) idx (the (en_periodic ?e)) t = (launch, t1)"
    | (shot) "t1 = retire_entry idx t" | (skip) "t1 = t"
    using assms(3) by (auto simp: fire_one_def Let_def split: if_splits prod.splits)
  then have "linked t1 {} \<and> on_time t1 \<and> tq_currentTick t1 = tq_currentTick t \<and> tq_tickNs t1 = tq_tickNs t \<and>
    tq_epochNs t1 = tq_epochNs t \<and> tq_size t1 = tq_size t \<and> (\<forall>j. j \<noteq> idx \<longrightarrow> tq_entries t1 j = tq_entries t j) \<and>
    (\<forall>q. pr_interval (tq_periodics t1 q) = pr_interval (tq_periodics t q))"
  proof cases
    case per
    show ?thesis by (intro conjI allI impI FirePeriodic_spec [OF assms(1,2) per])
  next
    case shot
    show ?thesis unfolding shot by (simp add: retire_spec [OF assms(1,2)])
  qed (use assms in simp)
  then show "linked t1 {}" "on_time t1" "tq_currentTick t1 = tq_currentTick t" "tq_tickNs t1 = tq_tickNs t"
    "tq_epochNs t1 = tq_epochNs t" "tq_size t1 = tq_size t" "j \<noteq> idx \<Longrightarrow> tq_entries t1 j = tq_entries t j"
    "pr_interval (tq_periodics t1 q) = pr_interval (tq_periodics t q)" by blast+
qed

text \<open>Every entry that belongs to a periodic task belongs to one with a positive interval.\<close>

definition intervals_ok :: "TimerQueue \<Rightarrow> bool" where
  [inv_defs]: "intervals_ok t \<longleftrightarrow> (\<forall>i r. en_periodic (tq_entries t i) = Some r \<longrightarrow> 0 < pr_interval (tq_periodics t r))"

lemma intervals_cong:
  "intervals_ok t \<Longrightarrow> \<forall>i. en_periodic (tq_entries t' i) = en_periodic (tq_entries t i) \<or> en_periodic (tq_entries t' i) = None \<Longrightarrow>
   \<forall>r. pr_interval (tq_periodics t' r) = pr_interval (tq_periodics t r) \<Longrightarrow> intervals_ok t'"
  unfolding intervals_ok_def by (metis option.distinct(1))

lemma retire_periodic: "en_periodic (tq_entries (retire_entry i t) i) = None"
  by (simp add: retire_entry_def ReleaseEntry_def Let_def)

lemma fire_one_intervals:
  assumes "linked t {}" "on_time t" "fire_one clk idx t fd = (t1, fd1)" "intervals_ok t"
  shows "intervals_ok t1"
proof (rule intervals_cong [OF assms(4)])
  note F = fire_one_spec [OF assms(1-3)]
  show "\<forall>r. pr_interval (tq_periodics t1 r) = pr_interval (tq_periodics t r)" using F(8) by blast
  consider (per) r launch where "FirePeriodicLocked (clk idx) idx r t = (launch, t1)" | "t1 = retire_entry idx t" | "t1 = t"
    using assms(3) by (auto simp: fire_one_def Let_def split: if_splits prod.splits)
  then have "en_periodic (tq_entries t1 idx) = en_periodic (tq_entries t idx) \<or> en_periodic (tq_entries t1 idx) = None"
  proof cases
    case per
    then show ?thesis by (auto simp: FirePeriodicLocked_def Let_def)
  qed (auto simp: retire_periodic)
  then show "\<forall>i. en_periodic (tq_entries t1 i) = en_periodic (tq_entries t i) \<or> en_periodic (tq_entries t1 i) = None" using F(7) by metis
qed

lemma retire_intervals:
  assumes "linked t {}" "on_time t" "intervals_ok t"
  shows "intervals_ok (retire_entry i t)"
proof (rule intervals_cong [OF assms(3)])
  have "en_periodic (tq_entries (retire_entry i t) j) = en_periodic (tq_entries t j) \<or> en_periodic (tq_entries (retire_entry i t) j) = None" for j
    by (cases "j = i") (simp_all add: retire_periodic retire_spec(8) [OF assms(1,2)])
  then show "\<forall>j. en_periodic (tq_entries (retire_entry i t) j) = en_periodic (tq_entries t j) \<or> en_periodic (tq_entries (retire_entry i t) j) = None" ..
qed (simp add: retire_spec(6) [OF assms(1,2)])

text \<open>Disarming and cancelling keep it too; arming and starting do by \<open>Arm_result\<close> and \<open>Periodic_Start_result\<close> below.\<close>

lemma Disarm_intervals: "linked t {} \<Longrightarrow> on_time t \<Longrightarrow> intervals_ok t \<Longrightarrow> intervals_ok (snd (Disarm h t))"
  using retire_intervals [of t "handle_index h"] by (simp add: Disarm_def Let_def intervals_ok_def PublishGateLocked_def)

lemma Cancel_intervals:
  assumes "linked t {}" "on_time t" "intervals_ok t"
  shows "intervals_ok (Periodic_Cancel r t)"
proof -
  let ?t = "set_periodic r (\<lambda>p. p\<lparr>pr_cancelled := True\<rparr>) t"
  have "linked ?t {}" "on_time ?t" "intervals_ok ?t" using assms by (auto simp: linked_def on_time_def entry_ok_def intervals_ok_def)
  then have "intervals_ok (CancelPeriodicLocked r t)"
    using retire_intervals [of ?t] by (auto simp: CancelPeriodicLocked_def intervals_ok_def Let_def split: option.split)
  then show ?thesis by (simp add: Periodic_Cancel_def intervals_ok_def PublishGateLocked_def)
qed

lemma fire_slot_on_time:
  assumes "linked t {}" "on_time t" "fire_slot clk xs t fd = (t', fd')"
  shows "linked t' {} \<and> on_time t' \<and> tq_currentTick t' = tq_currentTick t \<and> tq_tickNs t' = tq_tickNs t \<and>
    tq_epochNs t' = tq_epochNs t \<and> tq_size t' = tq_size t \<and> (\<forall>j. j \<notin> set xs \<longrightarrow> tq_entries t' j = tq_entries t j) \<and> (intervals_ok t \<longrightarrow> intervals_ok t')"
  using assms
proof (induction xs arbitrary: t fd)
  case (Cons idx rest)
  obtain t1 fd1 where f: "fire_one clk idx t fd = (t1, fd1)" by fastforce
  note F = fire_one_spec [OF Cons.prems(1,2) f]
  show ?case
  proof (cases "length (fd_shots fd) + length (fd_launch fd) \<ge> kBatch")
    case True
    then show ?thesis using Cons.prems by simp
  next
    case False
    then have "fire_slot clk rest t1 fd1 = (t', fd')" using Cons.prems(3) f unfolding fire_slot_Cons by simp
    from Cons.IH [OF F(1,2) this] F(3-7) fire_one_intervals [OF Cons.prems(1,2) f] show ?thesis by auto
  qed
qed simp

text \<open>Only entries whose deadline tick is reached leave as shots or are launched.\<close>

lemma fire_slot_shots_due:
  assumes "linked t {}" "on_time t" "fire_slot clk xs t fd = (t', fd')" "distinct xs" "shot \<in> set (fd_shots fd')"
  shows "shot \<in> set (fd_shots fd) \<or> (\<exists>i \<in> set xs. shot = (en_token (tq_entries t i), en_eject (tq_entries t i), en_ctx (tq_entries t i)) \<and>
    en_deadlineTick (tq_entries t i) \<le> tq_currentTick t)"
  using assms
proof (induction xs arbitrary: t fd)
  case (Cons idx rest)
  obtain t1 fd1 where f: "fire_one clk idx t fd = (t1, fd1)" by fastforce
  note F = fire_one_spec [OF Cons.prems(1,2) f]
  show ?case
  proof (cases "length (fd_shots fd) + length (fd_launch fd) \<ge> kBatch")
    case True
    then show ?thesis using Cons.prems by simp
  next
    case False
    then have r: "fire_slot clk rest t1 fd1 = (t', fd')" using Cons.prems(3) f unfolding fire_slot_Cons by simp
    have "shot \<in> set (fd_shots fd1) \<Longrightarrow> shot \<in> set (fd_shots fd) \<or>
        (shot = (en_token (tq_entries t idx), en_eject (tq_entries t idx), en_ctx (tq_entries t idx)) \<and>
         en_deadlineTick (tq_entries t idx) \<le> tq_currentTick t)"
      using f by (auto simp: fire_one_def Let_def split: if_splits prod.splits)
    moreover have "idx \<notin> set rest" using Cons.prems(4) by simp
    then have "\<forall>i \<in> set rest. tq_entries t1 i = tq_entries t i" using F(7) by metis
    ultimately show ?thesis using Cons.IH [OF F(1,2) r _ Cons.prems(5)] Cons.prems(4) F(3) by auto
  qed
qed simp

lemma fire_slot_launch_due:
  assumes "linked t {}" "on_time t" "fire_slot clk xs t fd = (t', fd')" "distinct xs" "r \<in> set (fd_launch fd')"
  shows "r \<in> set (fd_launch fd) \<or> (\<exists>i \<in> set xs. en_periodic (tq_entries t i) = Some r \<and>
    en_deadlineTick (tq_entries t i) \<le> tq_currentTick t)"
  using assms
proof (induction xs arbitrary: t fd)
  case (Cons idx rest)
  obtain t1 fd1 where f: "fire_one clk idx t fd = (t1, fd1)" by fastforce
  note F = fire_one_spec [OF Cons.prems(1,2) f]
  show ?case
  proof (cases "length (fd_shots fd) + length (fd_launch fd) \<ge> kBatch")
    case True
    then show ?thesis using Cons.prems by simp
  next
    case False
    then have s: "fire_slot clk rest t1 fd1 = (t', fd')" using Cons.prems(3) f unfolding fire_slot_Cons by simp
    have "r \<in> set (fd_launch fd1) \<Longrightarrow> r \<in> set (fd_launch fd) \<or>
        (en_periodic (tq_entries t idx) = Some r \<and>
         en_deadlineTick (tq_entries t idx) \<le> tq_currentTick t)"
      using f by (auto simp: fire_one_def Let_def split: if_splits prod.splits)
    moreover have "idx \<notin> set rest" using Cons.prems(4) by simp
    then have "\<forall>i \<in> set rest. tq_entries t1 i = tq_entries t i" using F(7) by metis
    ultimately show ?thesis using Cons.IH [OF F(1,2) s _ Cons.prems(5)] Cons.prems(4) F(3) by auto
  qed
qed simp

text \<open>When nothing was fired, every entry of the slot was a periodic one in flight and has moved on.\<close>

definition in_now_slot :: "TimerQueue \<Rightarrow> nat \<Rightarrow> bool" where
  "in_now_slot t i \<longleftrightarrow> en_level (tq_entries t i) = Some 0 \<and> en_slot (tq_entries t i) = slot_index 0 (tq_currentTick t)"

lemma due_now_slot:
  assumes "on_time t" "in_now_slot t i"
  shows "en_deadlineTick (tq_entries t i) \<le> tq_currentTick t"
proof -
  let ?c = "tq_currentTick t"
  have "tick_ok ?c 0 (en_deadlineTick (tq_entries t i)) (slot_index 0 ?c)"
    using assms unfolding on_time_def entry_ok_def in_now_slot_def by metis
  then obtain e where e: "slot_index 0 ?c = slot_index 0 e" "?c \<le> e" "e < ?c + 256"
     "e = en_deadlineTick (tq_entries t i) \<or> e = ?c \<and> en_deadlineTick (tq_entries t i) \<le> ?c"
    by (auto simp: tick_ok_def)
  have "e mod 256 = ?c mod 256" using e(1) by (simp add: slot_index_0)
  then have "(e - ?c) mod 256 = 0" by (simp add: mod_eq_dvd_iff)
  then have "e = ?c" using e(2,3) by (simp add: mod_pos_pos_trivial)
  then show ?thesis using e(4) by auto
qed

lemma fire_one_moves_on:
  assumes "linked t {}" "on_time t" "fire_one clk idx t fd = (t1, fd1)" "fd_shots fd1 = []" "en_deadlineTick (tq_entries t idx) \<le> tq_currentTick t"
    "tq_currentTick t \<le> NowTick (clk idx) t" "0 \<le> tq_currentTick t" "0 < tq_tickNs t" "intervals_ok t"
  shows "\<not> in_now_slot t1 idx"
proof
  assume n: "in_now_slot t1 idx"
  note F = fire_one_spec [OF assms(1-3)]
  obtain r where r: "en_periodic (tq_entries t idx) = Some r"
    using assms(3,4,5) by (auto simp: fire_one_def Let_def split: if_splits)
  obtain launch where f: "FirePeriodicLocked (clk idx) idx r t = (launch, t1)"
    using assms(3,5) r by (auto simp: fire_one_def Let_def split: prod.splits)
  have "en_deadlineTick (tq_entries t1 idx) = TickFor (periodic_next (clk idx) (tq_periodics t r)) t"
    by (rule FirePeriodic_spec(8) [OF assms(1,2) f])
  also have "NowTick (clk idx) t < \<dots>" by (rule TickFor_after [OF periodic_next_after]) (use assms(6-9) r in \<open>auto simp: intervals_ok_def\<close>)
  finally show False using due_now_slot [OF F(2) n] F(3) assms(6) by simp
qed

lemma fire_slot_empties:
  assumes "linked t {}" "on_time t" "fire_slot clk xs t fd = (t', fd')" "fd_shots fd' = []" "fd_launch fd' = []"
    "\<forall>i. tq_currentTick t \<le> NowTick (clk i) t" "0 \<le> tq_currentTick t" "0 < tq_tickNs t" "intervals_ok t"
    "\<And>i. in_now_slot t i \<Longrightarrow> i \<in> set xs" "\<And>i. i \<in> set xs \<Longrightarrow> en_deadlineTick (tq_entries t i) \<le> tq_currentTick t" "distinct xs"
  shows "\<not> in_now_slot t' i"
  using assms
proof (induction xs arbitrary: t fd)
  case Nil
  then show ?case by auto
next
  case (Cons idx rest)
  obtain t1 fd1 where f: "fire_one clk idx t fd = (t1, fd1)" by fastforce
  note F = fire_one_spec [OF Cons.prems(1,2) f]
  have mono: "fire_slot clk ys u g = (u', g') \<Longrightarrow> fd_shots g' = [] \<Longrightarrow> fd_launch g' = [] \<Longrightarrow> fd_shots g = [] \<and> fd_launch g = []" for ys u g u' g'
    by (induction clk ys u g rule: fire_slot.induct) (auto simp: Let_def split: if_splits prod.splits)
  have "fd_shots fd = []" "fd_launch fd = []" using mono [OF Cons.prems(3-5)] by auto
  then have r: "fire_slot clk rest t1 fd1 = (t', fd')" using Cons.prems(3) f unfolding fire_slot_Cons by (simp add: kBatch_def)
  have "fd_shots fd1 = []" using mono [OF r Cons.prems(4,5)] by simp
  then have out: "\<not> in_now_slot t1 idx" using fire_one_moves_on [OF Cons.prems(1,2) f] Cons.prems(6-9,11) by simp
  have nt: "NowTick ns t1 = NowTick ns t" for ns using F by (simp add: NowTick_def)
  have idx: "idx \<notin> set rest" using Cons.prems(12) by simp
  show ?case
  proof (rule Cons.IH [OF F(1,2) r Cons.prems(4,5)])
    show "in_now_slot t1 i \<Longrightarrow> i \<in> set rest" for i
      using out Cons.prems(10) [of i] F(3) F(7) [of i] by (cases "i = idx") (auto simp: in_now_slot_def)
    show "i \<in> set rest \<Longrightarrow> en_deadlineTick (tq_entries t1 i) \<le> tq_currentTick t1" for i
      using idx F(3) F(7) [of i] Cons.prems(11) [of i] by (cases "i = idx") auto
    show "intervals_ok t1" by (rule fire_one_intervals [OF Cons.prems(1,2) f Cons.prems(9)])
  qed (use Cons.prems F nt in auto)
qed

lemma PublishGate_keeps:
  "linked (PublishGateLocked t) {} = linked t {}" "on_time (PublishGateLocked t) = on_time t"
  "tq_entries (PublishGateLocked t) = tq_entries t" "tq_size (PublishGateLocked t) = tq_size t"
  "tq_epochNs (PublishGateLocked t) = tq_epochNs t" "tq_tickNs (PublishGateLocked t) = tq_tickNs t"
  "armed (PublishGateLocked t) = armed t" "intervals_ok (PublishGateLocked t) = intervals_ok t"
  by (auto simp add: PublishGateLocked_def linked_def on_time_def entry_ok_def armed_def intervals_ok_def fun_eq_iff)

lemma tick_up:
  assumes "linked t {}" "on_time t" "\<And>i. \<not> in_now_slot t i" "(tq_currentTick t + 1) mod 256 \<noteq> 0"
  shows "on_time (t\<lparr>tq_currentTick := tq_currentTick t + 1\<rparr>)"
proof -
  let ?c = "tq_currentTick t"
  have span: "?c div 256 = (?c + 1) div 256"
  proof -
    have "?c mod 256 \<noteq> 255" using assms(4) mod_add_left_eq [of ?c 256 1] by force
    then have "?c mod 256 + 1 < 256" using pos_mod_bound [of 256 ?c] by linarith
    then have "(?c + 1) div 256 = ?c div 256"
      using pos_mod_sign [of 256 ?c] by (intro int_div_pos_eq [of _ _ _ "?c mod 256 + 1"]) auto
    then show ?thesis by simp
  qed
  have "tick_ok (?c + 1) l d s" if tk: "tick_ok ?c l d s" "l = 0 \<longrightarrow> s \<noteq> slot_index 0 ?c" for l d s
  proof (cases "l = 0")
    case True
    then obtain e where "s = slot_index 0 e" "?c \<le> e" "e < ?c + 256" "e = d \<or> e = ?c \<and> d \<le> ?c"
      using tk(1) by (auto simp: tick_ok_def)
    moreover from this have "e \<noteq> ?c" using tk(2) True by auto
    ultimately show ?thesis using True by (auto simp: tick_ok_def intro!: exI [of _ e])
  next
    case False
    have "?c div LevelGranularity l = (?c + 1) div LevelGranularity l"
      by (rule same_span_up [of _ 1]) (use span False in \<open>auto simp: gran_Suc\<close>)
    then show ?thesis using tick_ok_same_span [OF False _ tk(1)] by blast
  qed
  then show ?thesis using assms(2,3) by (force simp: on_time_def entry_ok_def in_now_slot_def)
qed

lemma FireStep_parts:
  assumes "FireStepLocked clk w t = (t', fd)" "tq_currentTick (AdvanceTo w t) = w"
  obtains t2 where "fire_slot clk (tq_slots (AdvanceTo w t) 0 (slot_index 0 w)) (AdvanceTo w t) \<lparr>fd_shots = [], fd_launch = []\<rparr> = (t2, fd)"
    "t' = (if fd_shots fd = [] \<and> fd_launch fd = [] then PublishGateLocked (t2\<lparr>tq_currentTick := tq_currentTick t2 + 1\<rparr>)
       else PublishGateLocked t2)"
proof -
  obtain t2 fd2 where f: "fire_slot clk (tq_slots (AdvanceTo w t) 0 (slot_index 0 w)) (AdvanceTo w t) \<lparr>fd_shots = [], fd_launch = []\<rparr> = (t2, fd2)"
    by (rule prod.exhaust)
  have "(t', fd) = (if fd_shots fd2 = [] \<and> fd_launch fd2 = [] then (PublishGateLocked (t2\<lparr>tq_currentTick := tq_currentTick t2 + 1\<rparr>), fd2)
       else (PublishGateLocked t2, fd2))"
    using assms(1) unfolding FireStepLocked_def Let_def assms(2) f by simp
  then show thesis using that f by (cases "fd_shots fd2 = [] \<and> fd_launch fd2 = []") auto
qed

lemma NextEventTick_cong:
  "tq_occ t' = tq_occ t \<Longrightarrow> tq_currentTick t' = tq_currentTick t \<Longrightarrow> NextEventTick t' = NextEventTick t"
  unfolding NextEventTick_def level_event_def LevelEmpty_def by (simp only:)

lemma AcquireEntry_spec:
  assumes "linked t {}" "on_time t" "\<not> armed t i" "AcquireEntry t = (i, t')"
  shows "linked t' {}" "on_time t'" "\<not> armed t' i" "tq_currentTick t' = tq_currentTick t" "tq_tickNs t' = tq_tickNs t"
    "tq_epochNs t' = tq_epochNs t" and "j \<noteq> i \<Longrightarrow> tq_entries t' j = tq_entries t j"
proof -
  show f: "\<not> armed t' i" "tq_currentTick t' = tq_currentTick t" "tq_tickNs t' = tq_tickNs t" "tq_epochNs t' = tq_epochNs t"
    using assms(3,4) by (auto simp: AcquireEntry_def Let_def armed_def new_Entry_def split: if_splits)
  show o: "tq_entries t' j = tq_entries t j" if "j \<noteq> i" for j
    using that assms(4) by (auto simp: AcquireEntry_def Let_def split: if_splits)
  have lv: "en_level (tq_entries t' j) = en_level (tq_entries t j)" for j
    using o [of j] f(1) assms(3) by (cases "j = i") (auto simp: armed_def)
  have sl: "tq_slots t' = tq_slots t" "tq_occ t' = tq_occ t"
    using assms(4) by (auto simp: AcquireEntry_def Let_def split: if_splits)
  show "linked t' {}"
  proof (rule linkedI)
    show "j \<in> set (tq_slots t' l s) \<longleftrightarrow> j \<notin> {} \<and> en_level (tq_entries t' j) = Some l \<and> en_slot (tq_entries t' j) = s" for j l s
      using linkedD(1) [OF assms(1), of j l s] o [of j] lv [of j] assms(3) sl by (cases "j = i") (auto simp: armed_def)
  qed (use linkedD(2-4) [OF assms(1)] sl in simp_all)
  have "entry_ok t' j" for j
  proof (cases "j = i")
    case True
    then show ?thesis using f(1) by (auto simp: armed_def intro: entry_ok_None)
  next
    case False
    then show ?thesis using assms(2) o [OF False] f(2) by (auto simp: on_time_def intro: entry_ok_cong)
  qed
  then show "on_time t'" by (simp add: on_time_def)
qed

lemma Place_fresh:
  assumes "linked t {}" "on_time t" "\<not> armed t i" "\<And>e. en_level (f e) = en_level e" "en_deadlineTick (f (tq_entries t i)) = d"
  defines "t' \<equiv> Place i d (set_entry i f t)"
  shows "linked t' {}" "on_time t'" "armed t' i" "j \<noteq> i \<Longrightarrow> tq_entries t' j = tq_entries t j"
proof -
  have n: "en_level (tq_entries (set_entry i f t) i) = None" using assms(3,4) by (simp add: armed_def)
  have "linked (set_entry i f t) {}"
  proof (rule linkedI)
    show "j \<in> set (tq_slots (set_entry i f t) l s) \<longleftrightarrow> j \<notin> {} \<and> en_level (tq_entries (set_entry i f t) j) = Some l \<and>
        en_slot (tq_entries (set_entry i f t) j) = s" for j l s
      using linkedD(1) [OF assms(1), of j l s] assms(3,4) by (auto simp: armed_def)
  qed (use linkedD(2-4) [OF assms(1)] in simp_all)
  from linked_Place [OF this disjI2 [OF n]] show "linked t' {}" by (simp add: t'_def)
  show "armed t' i" using Place_link [of i d "set_entry i f t"] by (auto simp: t'_def armed_def)
  show o: "tq_entries t' j = tq_entries t j" if "j \<noteq> i" for j using that by (simp add: t'_def)
  have "entry_ok t' j" for j
  proof (cases "j = i")
    case True
    then show ?thesis using entry_ok_Place [of "set_entry i f t" i d] assms(5) by (simp add: t'_def)
  next
    case False
    then show ?thesis using assms(2) o [OF False] by (auto simp: on_time_def t'_def intro: entry_ok_cong)
  qed
  then show "on_time t'" by (simp add: on_time_def)
qed

text \<open>What \<open>Arm\<close> and \<open>Periodic::Start\<close> share: with no event before the clock's tick, advancing, taking an entry, filling it in by
  \<open>f\<close> and placing it at \<open>d\<close> keeps the wheel well placed and the other entries as they were.\<close>

lemma enter_wheel:
  assumes "linked t {}" "on_time t" "\<not> armed t (fst (AcquireEntry t))" "\<And>w. NextEventTick t = Some w \<Longrightarrow> NowTick nowNs t \<le> w"
    and f: "\<And>e. en_level (f e) = en_level e" "\<And>e. en_deadlineTick (f e) = d"
    and ac: "AcquireEntry (AdvanceTo (NowTick nowNs t) (t\<lparr>tq_running := True\<rparr>)) = (i, t2)"
  defines "t4 \<equiv> Place i d (set_entry i f t2)"
  shows "i = fst (AcquireEntry t)" "linked t4 {}" "on_time t4" "armed t4 i" "tq_epochNs t4 = tq_epochNs t" "tq_tickNs t4 = tq_tickNs t"
    and "armed t j \<Longrightarrow> armed t4 j \<and> en_deadlineTick (tq_entries t4 j) = en_deadlineTick (tq_entries t j)"
    and "tq_periodics t4 = tq_periodics t" "j \<noteq> i \<Longrightarrow> en_periodic (tq_entries t4 j) = en_periodic (tq_entries t j)"
    "en_periodic (tq_entries t2 i) = en_periodic (tq_entries t i) \<or> en_periodic (tq_entries t2 i) = None"
proof -
  define t0 where "t0 = t\<lparr>tq_running := True\<rparr>"
  define t1 where "t1 = AdvanceTo (NowTick nowNs t) t0"
  have ac: "AcquireEntry t1 = (i, t2)" using ac by (simp add: t1_def t0_def)
  have l0: "linked t0 {}" "on_time t0" using assms(1,2) by (auto simp: t0_def linked_def on_time_def entry_ok_def)
  have "NextEventTick t0 = NextEventTick t" by (rule NextEventTick_cong) (simp_all add: t0_def)
  then have A: "linked t1 {}" "on_time t1" "armed t1 j = armed t j" for j
    using AdvanceTo_not_past_event [OF l0, of "NowTick nowNs t"] assms(4) by (auto simp: t1_def t0_def armed_def)
  show i: "i = fst (AcquireEntry t)"
    using ac by (auto simp: AcquireEntry_def t1_def t0_def Let_def split: if_splits)
  have na: "\<not> armed t1 i" using assms(3) A(3) i by simp
  note Q = AcquireEntry_spec [OF A(1,2) na ac]
  note P = Place_fresh [OF Q(1-3) f, folded t4_def]
  show "linked t4 {}" "on_time t4" "armed t4 i" by (rule P)+
  show "tq_epochNs t4 = tq_epochNs t" "tq_tickNs t4 = tq_tickNs t" using Q(5,6) by (simp_all add: t4_def t1_def t0_def)
  show "armed t4 j \<and> en_deadlineTick (tq_entries t4 j) = en_deadlineTick (tq_entries t j)" if "armed t j"
  proof -
    have "j \<noteq> i" using that assms(3) i by auto
    then show ?thesis using P(4) [of j] Q(7) [of j] that A(3) [of j] by (simp add: t1_def t0_def armed_def)
  qed
  have B: "base t1 = base (t0\<lparr>tq_currentTick := max (NowTick nowNs t) (tq_currentTick t0)\<rparr>)" by (simp add: t1_def base_AdvanceTo)
  have "tq_periodics t2 = tq_periodics t1" using ac by (auto simp: AcquireEntry_def Let_def set_entry_def split: if_splits)
  then show "tq_periodics t4 = tq_periodics t" using base_eqD(13) [OF B] by (simp add: t4_def t0_def)
  show "en_periodic (tq_entries t4 j) = en_periodic (tq_entries t j)" if "j \<noteq> i"
    using P(4) [OF that] Q(7) [OF that] base_eqD(2) [OF B] by (simp add: t0_def)
  show "en_periodic (tq_entries t2 i) = en_periodic (tq_entries t i) \<or> en_periodic (tq_entries t2 i) = None"
    using ac base_eqD(2) [OF B, of i] by (auto simp: AcquireEntry_def Let_def new_Entry_def t0_def split: if_splits)
qed

lemma Arm_result:
  assumes "linked t {}" "on_time t" "\<not> armed t (fst (AcquireEntry t))" "CancelToken_Valid tok" "\<not> tq_stopping t"
    "\<And>w. NextEventTick t = Some w \<Longrightarrow> NowTick nowNs t \<le> w"
  shows "\<exists>t' i. i = fst (AcquireEntry t) \<and> linked t' {} \<and> on_time t' \<and> armed t' i \<and>
    en_deadlineTick (tq_entries t' i) = arm_deadline nowNs againNs delayNs t \<and> en_token (tq_entries t' i) = tok \<and>
    tq_epochNs t' = tq_epochNs t \<and> tq_tickNs t' = tq_tickNs t \<and>
    (\<forall>j. armed t j \<longrightarrow> armed t' j \<and> en_deadlineTick (tq_entries t' j) = en_deadlineTick (tq_entries t j)) \<and>
    (intervals_ok t \<longrightarrow> intervals_ok t') \<and>
    Arm False nowNs againNs delayNs tok ej ctx t = (make_handle (en_generation (tq_entries t' i)) i, t')"
proof -
  define t1 where "t1 = AdvanceTo (NowTick nowNs t) (t\<lparr>tq_running := True\<rparr>)"
  obtain i t2 where ac: "AcquireEntry t1 = (i, t2)" by fastforce
  define d where "d = arm_deadline nowNs againNs delayNs t"
  define f :: "Entry \<Rightarrow> Entry" where "f = (\<lambda>e. e\<lparr>en_generation := en_generation e + 1, en_deadlineTick := d, en_token := tok, en_eject := ej, en_ctx := ctx\<rparr>)"
  define t4 where "t4 = Place i d (set_entry i f t2)"
  define t5 where "t5 = t4\<lparr>tq_armedCount := tq_armedCount t4 + 1\<rparr>"
  have ff: "\<And>e. en_level (f e) = en_level e" "\<And>e. en_deadlineTick (f e) = d" "\<And>e. en_periodic (f e) = en_periodic e" by (simp_all add: f_def)
  note E = enter_wheel [where f = f, OF assms(1-3,6) ff(1,2) ac [unfolded t1_def], folded t4_def]
  have "NowTick nowNs (t\<lparr>tq_running := True\<rparr>) = NowTick nowNs t" "arm_deadline nowNs againNs delayNs (t\<lparr>tq_running := True\<rparr>) = d"
    by (simp_all add: d_def arm_deadline_def TickFor_def NowTick_def)
  then have arm: "Arm False nowNs againNs delayNs tok ej ctx t = (make_handle (en_generation (tq_entries t5 i)) i, PublishGateLocked t5)"
    using assms(4,5) ac unfolding Arm_def t5_def t4_def f_def t1_def Let_def by simp
  have l5: "linked t5 {}" "on_time t5" using E(2,3) by (auto simp: t5_def linked_def on_time_def entry_ok_def)
  have pe: "en_periodic (tq_entries t5 j) = en_periodic (tq_entries t j) \<or> en_periodic (tq_entries t5 j) = None" for j
    using E(9) [of j] E(10) ff(3) by (cases "j = i") (auto simp: t5_def t4_def)
  have "intervals_ok (PublishGateLocked t5)" if "intervals_ok t"
    by (rule intervals_cong [OF that]) (use pe in \<open>simp_all add: PublishGateLocked_def t5_def E(8)\<close>)
  moreover have "armed t5 i" "en_deadlineTick (tq_entries t5 i) = d" "en_token (tq_entries t5 i) = tok"
    using E(4) by (auto simp: t5_def t4_def f_def armed_def)
  moreover have "tq_epochNs t5 = tq_epochNs t" "tq_tickNs t5 = tq_tickNs t" using E(5,6) by (simp_all add: t5_def)
  moreover have "\<forall>j. armed t j \<longrightarrow> armed t5 j \<and> en_deadlineTick (tq_entries t5 j) = en_deadlineTick (tq_entries t j)" using E(7) by (simp add: t5_def armed_def)
  ultimately show ?thesis using arm l5 E(1)
    by (intro exI [of _ "PublishGateLocked t5"] exI [of _ i]) (simp add: PublishGate_keeps d_def)
qed

lemma Periodic_Start_result:
  assumes "linked t {}" "on_time t" "\<not> armed t (fst (AcquireEntry t))" "\<not> tq_stopping t" "0 < intervalNs" "intervals_ok t" "0 < tq_tickNs t"
    "\<And>w. NextEventTick t = Some w \<Longrightarrow> NowTick nowNs t \<le> w" "Periodic_Start False dueNow nowNs intervalNs fn ctx lane first r t = (h, t')"
  shows "h = Some r \<and> linked t' {} \<and> on_time t' \<and> intervals_ok t' \<and> tq_epochNs t' = tq_epochNs t \<and> tq_tickNs t' = tq_tickNs t"
proof -
  define t1 where "t1 = AdvanceTo (NowTick nowNs t) (t\<lparr>tq_running := True\<rparr>)"
  obtain i t2 where ac: "AcquireEntry t1 = (i, t2)" by fastforce
  define iv where "iv = (if intervalNs < tq_tickNs t then tq_tickNs t else intervalNs)"
  define due where "due = dueNow + (if first < 0 then iv else first)"
  define d where "d = TickFor due t2"
  define f :: "Entry \<Rightarrow> Entry" where "f = (\<lambda>e. e\<lparr>en_generation := en_generation e + 1, en_periodic := Some r, en_deadlineTick := d\<rparr>)"
  define t4 where "t4 = Place i d (set_entry i f t2)"
  have ff: "\<And>e. en_level (f e) = en_level e" "\<And>e. en_deadlineTick (f e) = d" by (simp_all add: f_def)
  note E = enter_wheel [where f = f, OF assms(1-3,8) ff ac [unfolded t1_def], folded t4_def]
  have nt: "NowTick nowNs (t\<lparr>tq_running := True\<rparr>) = NowTick nowNs t" "tq_tickNs (t\<lparr>tq_running := True\<rparr>) = tq_tickNs t" by (simp_all add: NowTick_def)
  obtain g where g: "h = Some r" "t' = PublishGateLocked (set_periodic r g (t4\<lparr>tq_armedCount := tq_armedCount t4 + 1\<rparr>))" "\<And>p. pr_interval (g p) = iv"
  proof (rule that)
    show "h = Some r" using assms(4,5,9) by (auto simp: Periodic_Start_def Let_def split: prod.splits)
    show "t' = PublishGateLocked (set_periodic r (\<lambda>_. \<lparr>pr_interval = iv, pr_due = due, pr_fn = fn, pr_ctx = ctx, pr_lane = lane,
       pr_totalSkipped = 0, pr_runs = 0, pr_runsWaiter = False, pr_entry = Some i, pr_pendingSkipped = 0,
       pr_inFlight = False, pr_cancelled = False, pr_detached = False\<rparr>) (t4\<lparr>tq_armedCount := tq_armedCount t4 + 1\<rparr>))"
      using assms(4,5,9) ac unfolding Periodic_Start_def t4_def f_def d_def due_def iv_def t1_def Let_def nt by auto
  qed simp
  let ?t = "set_periodic r g (t4\<lparr>tq_armedCount := tq_armedCount t4 + 1\<rparr>)"
  have "linked ?t {}" "on_time ?t" using E(2,3) by (auto simp: linked_def on_time_def entry_ok_def)
  moreover have "0 < iv" using assms(5,7) by (simp add: iv_def)
  then have "intervals_ok ?t" using assms(6) E(8,9) unfolding intervals_ok_def by (auto simp: g(3) t4_def f_def)
  ultimately show ?thesis using g(1,2) E(5,6) by (simp add: PublishGate_keeps)
qed

section \<open>Properties\<close>

text \<open>(C8) A well-placed wheel is never late: whenever an entry is armed, the tick the timer thread
  sleeps towards (and the gate the workers poll) is not before the current tick and not after that
  entry's deadline, or, for an entry that is overdue, exactly the current tick.\<close>
theorem timer_never_late:
  assumes "linked t {}" and "on_time t" and "armed t i"
  shows "\<exists>w. NextEventTick t = Some w \<and> tq_currentTick t \<le> w \<and>
    w \<le> max (tq_currentTick t) (en_deadlineTick (tq_entries t i)) \<and>
    tq_gateNs (PublishGateLocked t) = Some (tq_epochNs t + w * tq_tickNs t)"
proof -
  obtain w where w: "NextEventTick t = Some w"
    using NextEventTick_spec(1) [OF assms(1), of i] assms(3) by (cases "NextEventTick t") auto
  obtain l where l: "en_level (tq_entries t i) = Some l" using assms(3) by (auto simp: armed_def)
  have "w \<le> event_of (tq_currentTick t) l (en_slot (tq_entries t i))" by (rule NextEventTick_spec(3) [OF assms(1) w l])
  also have "\<dots> \<le> max (tq_currentTick t) (en_deadlineTick (tq_entries t i))"
    using assms(2) l by (intro event_of_tick(1)) (auto simp: on_time_def entry_ok_def)
  finally show ?thesis using w NextEventTick_spec(2) [OF assms(1) w] event_of_ge
    by (auto simp: PublishGateLocked_def)
qed

text \<open>A wheel with one periodic task in flight at tick 255 and a one-shot at tick 256, for the witnesses.\<close>

definition demo_flight :: TimerQueue where
  "demo_flight = (new_TimerQueue 0)
    \<lparr>tq_entries := (\<lambda>i. if i = 0 then new_Entry\<lparr>en_deadlineTick := 255, en_periodic := Some 0, en_generation := 1,
                                                 en_level := Some 0, en_slot := 255\<rparr>
       else if i = 1 then new_Entry\<lparr>en_deadlineTick := 256, en_token := 0, en_generation := 1, en_level := Some 1, en_slot := 1\<rparr>
       else new_Entry),
     tq_size := 2, tq_currentTick := 171, tq_armedCount := 2,
     tq_slots := (\<lambda>l s. if l = 0 \<and> s = 255 then [0] else if l = 1 \<and> s = 1 then [1] else []),
     tq_occ := (\<lambda>l w. if l = 0 \<and> w = 3 then push_bit 63 1 else if l = 1 \<and> w = 0 then 2 else 0),
     tq_periodics := (\<lambda>_. \<lparr>pr_interval = 85000000, pr_due = 255000000, pr_fn = 0, pr_ctx = 0, pr_lane = Normal,
       pr_totalSkipped = 0, pr_runs = 1, pr_runsWaiter = False, pr_entry = Some 0, pr_pendingSkipped = 0,
       pr_inFlight = True, pr_cancelled = False, pr_detached = False\<rparr>)\<rparr>"

lemma demo_linked: "linked demo_flight {}"
proof (rule linkedI)
  show "i \<in> set (tq_slots demo_flight l s) \<longleftrightarrow> i \<notin> {} \<and> en_level (tq_entries demo_flight i) = Some l \<and> en_slot (tq_entries demo_flight i) = s" for i l s
    by (auto simp: demo_flight_def new_Entry_def)
  show "distinct (tq_slots demo_flight l s)" for l s by (simp add: demo_flight_def)
  show "tq_slots demo_flight l s \<noteq> [] \<Longrightarrow> l < kLevels \<and> s < kSlots" for l s
    by (auto simp: demo_flight_def kLevels_def kSlots_def split: if_splits)
  show "s < kSlots \<Longrightarrow> occupied (tq_occ demo_flight l) s \<longleftrightarrow> tq_slots demo_flight l s \<noteq> []" for l s
  proof -
    have two: "bit (2::u64) m \<longleftrightarrow> m = 1" for m using bit_2_iff [where 'a = u64, of m] by simp
    have "9223372036854775808 = (push_bit 63 1 :: u64)" by simp
    then have top: "bit (9223372036854775808 :: u64) m \<longleftrightarrow> m = 63" for m
      by (simp only: bit_push_bit_iff bit_1_iff possible_bit_word) auto
    have "s div 64 = 3 \<and> s mod 64 = 63 \<longleftrightarrow> s = 255"
    proof
      assume "s div 64 = 3 \<and> s mod 64 = 63"
      then show "s = 255" using div_mult_mod_eq [of s 64] by linarith
    qed simp
    moreover have "s div 64 = 0 \<and> s mod 64 = 1 \<longleftrightarrow> s = 1"
    proof
      assume "s div 64 = 0 \<and> s mod 64 = 1"
      then show "s = 1" using div_mult_mod_eq [of s 64] by linarith
    qed simp
    ultimately show "occupied (tq_occ demo_flight l) s \<longleftrightarrow> tq_slots demo_flight l s \<noteq> []"
      unfolding occupied_def demo_flight_def using two [of "s mod 64"] top [of "s mod 64"] by auto
  qed
qed

lemma demo_on_time: "on_time demo_flight"
  unfolding on_time_def entry_ok_def tick_ok_def
  by (auto simp: demo_flight_def new_Entry_def slot_index_def LevelGranularity_def kSlotBits_def kSlots_def
      intro: exI [of _ 255] exI [of _ 256])

lemma demo_now: "NowTick 255000000 demo_flight = 255" "NextEventTick demo_flight = Some 255"
  by code_simp+

theorem timer_never_late_witness:
  "linked demo_flight {} \<and> on_time demo_flight \<and> armed demo_flight 0 \<and>
   (\<exists>w. NextEventTick demo_flight = Some w \<and> tq_currentTick demo_flight \<le> w \<and>
    w \<le> max (tq_currentTick demo_flight) (en_deadlineTick (tq_entries demo_flight 0)))"
proof -
  have "armed demo_flight 0" by (simp add: armed_def demo_flight_def)
  then show ?thesis using timer_never_late [OF demo_linked demo_on_time, of 0] demo_linked demo_on_time by blast
qed

text \<open>(C13) A step of the wheel at its next event keeps every remaining entry well placed, so no later
  deadline is missed, except in one situation: nothing was fired (every entry of the slot was a
  periodic task still in flight) and the tick is the last one of a 256-tick block. The step starts on a well-placed wheel whose
  next event the clock has reached, with a positive tick length and a positive interval for every periodic task that has an
  entry; the later clock readings of the step are not before the first. The links and the intervals stay well formed in every case.\<close>
theorem fire_step_keeps_on_time:
  assumes "linked t {}" and "on_time t" and "intervals_ok t" and "NextEventTick t = Some w" and "w \<le> NowTick nowNs t" and "0 \<le> w"
    and "0 < tq_tickNs t" and "\<forall>i. nowNs \<le> clk i" and "FireStepLocked clk w t = (t', fd)"
  shows "linked t' {} \<and> intervals_ok t' \<and> (fd_shots fd \<noteq> [] \<or> fd_launch fd \<noteq> [] \<or> (w + 1) mod 256 \<noteq> 0 \<longrightarrow> on_time t')"
proof -
  define t1 where "t1 = AdvanceTo w t"
  have A: "linked t1 {}" "on_time t1" using AdvanceTo_not_past_event [OF assms(1,2), of w] assms(4) by (auto simp: t1_def)
  have "tq_currentTick t \<le> w" using NextEventTick_spec(2) [OF assms(1,4)] event_of_ge by auto
  then have c: "tq_currentTick t1 = w" by (simp add: t1_def)
  have v: "intervals_ok t1" using base_eqD [OF base_AdvanceTo [of w t]] by (intro intervals_cong [OF assms(3)]) (simp_all add: t1_def)
  have now: "w \<le> NowTick (clk i) t1" for i
  proof -
    have "NowTick nowNs t \<le> NowTick (clk i) t" using assms(7,8) by (auto simp: NowTick_def intro: zdiv_mono1)
    then show ?thesis using assms(5) by (simp add: t1_def NowTick_def)
  qed
  let ?xs = "tq_slots t1 0 (slot_index 0 w)"
  obtain t2 where f: "fire_slot clk ?xs t1 \<lparr>fd_shots = [], fd_launch = []\<rparr> = (t2, fd)"
    and t': "t' = (if fd_shots fd = [] \<and> fd_launch fd = [] then PublishGateLocked (t2\<lparr>tq_currentTick := tq_currentTick t2 + 1\<rparr>)
       else PublishGateLocked t2)"
    using FireStep_parts [OF assms(9)] c unfolding t1_def by metis
  note O = fire_slot_on_time [OF A f]
  have nw: "in_now_slot t1 i \<longleftrightarrow> i \<in> set ?xs" for i using linkedD(1) [OF A(1), of i 0 "slot_index 0 w"] c by (simp add: in_now_slot_def)
  have "\<not> in_now_slot t2 i" if "fd_shots fd = []" "fd_launch fd = []" for i
  proof (rule fire_slot_empties [OF A f that])
    show "i \<in> set ?xs \<Longrightarrow> en_deadlineTick (tq_entries t1 i) \<le> tq_currentTick t1" for i
      using due_now_slot [OF A(2)] nw by blast
    show "distinct ?xs" by (rule linkedD(2) [OF A(1)])
    show "0 < tq_tickNs t1" using assms(7) by (simp add: t1_def)
  qed (use assms(6) c nw now v in simp_all)
  then have "fd_shots fd = [] \<Longrightarrow> fd_launch fd = [] \<Longrightarrow> (w + 1) mod 256 \<noteq> 0 \<Longrightarrow> on_time (t2\<lparr>tq_currentTick := tq_currentTick t2 + 1\<rparr>)"
    using tick_up [of t2] O c by auto
  moreover have "linked (t2\<lparr>tq_currentTick := k\<rparr>) {}" "intervals_ok (t2\<lparr>tq_currentTick := k\<rparr>)" for k
    using O v by (simp_all add: linked_def intervals_ok_def)
  ultimately show ?thesis using O v by (auto simp: t' PublishGate_keeps)
qed

text \<open>The exception is real: with a periodic task in flight on tick 255 and a one-shot armed for
  tick 256, the step at 255 fires nothing, moves the clock to 256 without cascading, and the one-shot
  is next looked at on tick 65792, 65536 ticks after its deadline.\<close>
theorem inflight_periodic_skips_a_cascade:
  "NextEventTick demo_flight = Some 255 \<and>
   (let t = fst (FireStepLocked (\<lambda>_. 255000000) 255 demo_flight) in
    tq_currentTick t = 256 \<and> en_deadlineTick (tq_entries t 1) = 256 \<and> en_level (tq_entries t 1) = Some 1 \<and>
    level_event 1 t = Some 65792 \<and> NextEventTick t = Some 340)"
  by code_simp

text \<open>What a poll fires, a one-shot or an instance of a periodic task, comes from an armed entry whose deadline the clock has reached.\<close>

lemma poll_fires_due:
  assumes "linked t {}" "on_time t" "0 < tq_tickNs t" "PollFire False nowNs clk t = (True, t', fd)"
  obtains t1 w where "\<And>i. armed t1 i = armed t i" "\<And>i. payload (tq_entries t1 i) = payload (tq_entries t i)" "linked t1 {}" "on_time t1" "tq_currentTick t1 = w"
    "\<And>d. d \<le> w \<Longrightarrow> tq_epochNs t + d * tq_tickNs t \<le> nowNs"
    "fire_slot clk (tq_slots t1 0 (slot_index 0 w)) t1 \<lparr>fd_shots = [], fd_launch = []\<rparr> \<in> {(t2, fd) | t2. True}"
proof -
  obtain w where w: "NextEventTick t = Some w" "w \<le> NowTick nowNs t" "FireStepLocked clk w t = (t', fd)"
    using assms(4) by (auto simp: PollFire_def Let_def split: if_splits option.splits prod.splits)
  define t1 where "t1 = AdvanceTo w t"
  have A: "linked t1 {}" "on_time t1" "\<And>i. armed t1 i = armed t i"
    using AdvanceTo_not_past_event [OF assms(1,2), of w] w(1) by (auto simp: t1_def)
  have "tq_currentTick t \<le> w" using NextEventTick_spec(2) [OF assms(1) w(1)] event_of_ge by auto
  then have c: "tq_currentTick t1 = w" by (simp add: t1_def)
  have due: "tq_epochNs t + d * tq_tickNs t \<le> nowNs" if "d \<le> w" for d
  proof -
    have "d * tq_tickNs t \<le> NowTick nowNs t * tq_tickNs t" using that w(2) assms(3) by (intro mult_right_mono) auto
    also have "\<dots> \<le> nowNs - tq_epochNs t" unfolding NowTick_def using assms(3) by (simp add: minus_mod_eq_div_mult [symmetric])
    finally show ?thesis by simp
  qed
  have "tq_entries (base t1) i = tq_entries (base t) i" for i unfolding t1_def base_AdvanceTo by (simp add: base_def)
  then have pl: "payload (tq_entries t1 i) = payload (tq_entries t i)" for i by (simp add: base_def)
  show thesis using FireStep_parts [OF w(3)] c that [OF A(3) pl A(1,2) c due] unfolding t1_def by blast
qed

text \<open>(C16) A timer never fires early: on a well-linked wheel whose entries are where their deadlines say (\<open>on_time\<close>), every
  one-shot a poll fires and every periodic task it launches belongs to an armed entry whose deadline tick has been reached, in nanoseconds, by the
  clock the poll read.\<close>
theorem timer_never_early:
  assumes "linked t {}" and "on_time t" and "0 < tq_tickNs t" and "PollFire False nowNs clk t = (True, t', fd)"
  shows "(\<forall>(tok, ej, ctx) \<in> set (fd_shots fd). \<exists>i. armed t i \<and> en_token (tq_entries t i) = tok \<and> en_eject (tq_entries t i) = ej \<and>
      en_ctx (tq_entries t i) = ctx \<and> tq_epochNs t + en_deadlineTick (tq_entries t i) * tq_tickNs t \<le> nowNs) \<and>
    (\<forall>r \<in> set (fd_launch fd). \<exists>i. armed t i \<and> en_periodic (tq_entries t i) = Some r \<and>
      tq_epochNs t + en_deadlineTick (tq_entries t i) * tq_tickNs t \<le> nowNs)"
proof -
  obtain t1 w t2 where A: "\<And>i. armed t1 i = armed t i" "\<And>i. payload (tq_entries t1 i) = payload (tq_entries t i)" "linked t1 {}" "on_time t1"
    and c: "tq_currentTick t1 = w" and due: "\<And>d. d \<le> w \<Longrightarrow> tq_epochNs t + d * tq_tickNs t \<le> nowNs"
    and f: "fire_slot clk (tq_slots t1 0 (slot_index 0 w)) t1 \<lparr>fd_shots = [], fd_launch = []\<rparr> = (t2, fd)"
    using poll_fires_due [OF assms] by (smt (verit) mem_Collect_eq)
  have e: "en_token (tq_entries t1 i) = en_token (tq_entries t i)" "en_eject (tq_entries t1 i) = en_eject (tq_entries t i)"
    "en_ctx (tq_entries t1 i) = en_ctx (tq_entries t i)" "en_periodic (tq_entries t1 i) = en_periodic (tq_entries t i)"
    "en_deadlineTick (tq_entries t1 i) = en_deadlineTick (tq_entries t i)" for i
    using payload_eqD [OF A(2) [of i]] by simp_all
  have ar: "armed t i" if "i \<in> set (tq_slots t1 0 (slot_index 0 w))" for i
    using that linkedD(1) [OF A(3), of i 0 "slot_index 0 w"] A(1) [of i] by (simp add: armed_def)
  have "\<exists>i. armed t i \<and> en_token (tq_entries t i) = tok \<and> en_eject (tq_entries t i) = ej \<and> en_ctx (tq_entries t i) = ctx \<and>
      tq_epochNs t + en_deadlineTick (tq_entries t i) * tq_tickNs t \<le> nowNs" if "(tok, ej, ctx) \<in> set (fd_shots fd)" for tok ej ctx
    using fire_slot_shots_due [OF A(3,4) f linkedD(2) [OF A(3)] that] ar due unfolding e c by auto
  moreover have "\<exists>i. armed t i \<and> en_periodic (tq_entries t i) = Some r \<and> tq_epochNs t + en_deadlineTick (tq_entries t i) * tq_tickNs t \<le> nowNs"
    if "r \<in> set (fd_launch fd)" for r
    using fire_slot_launch_due [OF A(3,4) f linkedD(2) [OF A(3)] that] ar due unfolding e c by auto
  ultimately show ?thesis by auto
qed

lemma new_wheel: "linked (new_TimerQueue n) {}" "on_time (new_TimerQueue n)" "\<not> armed (new_TimerQueue n) i"
  "fst (AcquireEntry (new_TimerQueue n)) = 0" "NextEventTick (new_TimerQueue n) = None" "intervals_ok (new_TimerQueue n)"
proof -
  show l: "linked (new_TimerQueue n) {}" by (rule linkedI) (auto simp: new_TimerQueue_def new_Entry_def occupied_def)
  show "on_time (new_TimerQueue n)" "\<not> armed (new_TimerQueue n) i" "fst (AcquireEntry (new_TimerQueue n)) = 0" "intervals_ok (new_TimerQueue n)"
    by (auto simp: on_time_def entry_ok_def armed_def new_TimerQueue_def new_Entry_def AcquireEntry_def intervals_ok_def)
  have "\<not> armed (new_TimerQueue n) j" for j by (simp add: armed_def new_TimerQueue_def new_Entry_def)
  then show "NextEventTick (new_TimerQueue n) = None"
    using NextEventTick_spec(2) [OF l] by (cases "NextEventTick (new_TimerQueue n)") (auto simp: armed_def)
qed

text \<open>The wheels of the witnesses: a one-shot armed on a new queue, and a periodic task started beside it.\<close>

definition demo_armed :: TimerQueue where
  "demo_armed = snd (Arm False 0 0 5000000 0 None 7 (new_TimerQueue 0))"

definition demo_both :: TimerQueue where
  "demo_both = snd (Periodic_Start False 0 0 5000000 3 4 Normal (- 1) 0 demo_armed)"

lemma demo_armed_ok: "linked demo_armed {}" "on_time demo_armed" "tq_tickNs demo_armed = 1000000" "intervals_ok demo_armed"
  using Arm_result [of "new_TimerQueue 0" 0 0 0 5000000 None 7] new_wheel [of 0]
  by (auto simp: demo_armed_def CancelToken_Valid_def kNone_def new_TimerQueue_def)

lemma demo_both_ok: "linked demo_both {}" "on_time demo_both" "tq_tickNs demo_both = 1000000" "intervals_ok demo_both"
proof -
  have "NextEventTick demo_armed = Some 5" "NowTick 0 demo_armed = 0" "\<not> tq_stopping demo_armed" "\<not> armed demo_armed (fst (AcquireEntry demo_armed))"
    unfolding armed_def by code_simp+
  then show "linked demo_both {}" "on_time demo_both" "tq_tickNs demo_both = 1000000" "intervals_ok demo_both"
    using Periodic_Start_result [OF demo_armed_ok(1,2) _ _ _ demo_armed_ok(4), of 5000000 0 0 3 4 Normal "- 1" 0 "fst (Periodic_Start False 0 0 5000000 3 4 Normal (- 1) 0 demo_armed)" demo_both]
      demo_armed_ok(3) by (auto simp: demo_both_def)
qed

theorem fire_step_keeps_on_time_witness:
  "linked (fst (FireStepLocked (\<lambda>_. 5000000) 5 demo_both)) {} \<and> on_time (fst (FireStepLocked (\<lambda>_. 5000000) 5 demo_both))"
proof -
  have "NextEventTick demo_both = Some 5" "NowTick 5000000 demo_both = 5"
    "fd_shots (snd (FireStepLocked (\<lambda>_. 5000000) 5 demo_both)) \<noteq> []" by code_simp+
  then show ?thesis
    using fire_step_keeps_on_time [OF demo_both_ok(1,2,4), of 5 5000000 "\<lambda>_. 5000000"] demo_both_ok(3) by (metis (no_types, lifting) order_refl prod.collapse zero_less_numeral zero_le_numeral)
qed

theorem timer_never_early_witness:
  "(\<exists>i. armed demo_both i \<and> en_token (tq_entries demo_both i) = 0 \<and>
     tq_epochNs demo_both + en_deadlineTick (tq_entries demo_both i) * tq_tickNs demo_both \<le> 5000000) \<and>
   (\<exists>i. armed demo_both i \<and> en_periodic (tq_entries demo_both i) = Some 0 \<and>
     tq_epochNs demo_both + en_deadlineTick (tq_entries demo_both i) * tq_tickNs demo_both \<le> 5000000)"
proof -
  let ?p = "PollFire False 5000000 (\<lambda>_. 5000000) demo_both"
  have q: "fst ?p" "fd_shots (snd (snd ?p)) = [(0, None, 7)]" "fd_launch (snd (snd ?p)) = [0]" by code_simp+
  have e: "?p = (True, fst (snd ?p), snd (snd ?p))" using q(1) by (metis prod.collapse)
  show ?thesis using timer_never_early [OF demo_both_ok(1,2) _ e] demo_both_ok(3) unfolding q(2,3) by auto
qed

text \<open>Arming on a queue that is not behind (no event before the current clock tick): the new entry is
  linked at a deadline that is never before \<open>now + delay\<close> (by the second reading of the clock) and less than one tick after it, the handle
  names it, no other entry's deadline changes and the whole wheel stays on time.\<close>
theorem arm_places_on_time:
  assumes "linked t {}" and "on_time t" and "\<not> armed t (fst (AcquireEntry t))" and "CancelToken_Valid tok"
    and "\<not> tq_stopping t" and "\<forall>w. NextEventTick t = Some w \<longrightarrow> NowTick nowNs t \<le> w"
    and "0 < delayNs" and "0 < tq_tickNs t" and "tq_epochNs t \<le> againNs"
  shows "\<exists>t' i. Arm False nowNs againNs delayNs tok ej ctx t = (make_handle (en_generation (tq_entries t' i)) i, t') \<and>
    linked t' {} \<and> on_time t' \<and> armed t' i \<and> \<not> armed t i \<and>
    againNs + delayNs \<le> tq_epochNs t + en_deadlineTick (tq_entries t' i) * tq_tickNs t \<and>
    tq_epochNs t + en_deadlineTick (tq_entries t' i) * tq_tickNs t < againNs + delayNs + tq_tickNs t \<and>
    (\<forall>j. armed t j \<longrightarrow> armed t' j \<and> en_deadlineTick (tq_entries t' j) = en_deadlineTick (tq_entries t j))"
proof -
  let ?k = "tq_tickNs t" and ?r = "againNs + delayNs - tq_epochNs t"
  have d: "arm_deadline nowNs againNs delayNs t = (?r + ?k - 1) div ?k" using assms(7,9) by (simp add: arm_deadline_def TickFor_def)
  have "?r \<le> (?r + ?k - 1) div ?k * ?k" "(?r + ?k - 1) div ?k * ?k < ?r + ?k"
    using pos_mod_bound [OF assms(8), of "?r + ?k - 1"] pos_mod_sign [OF assms(8), of "?r + ?k - 1"]
      div_mult_mod_eq [of "?r + ?k - 1" ?k] by linarith+
  then have "againNs + delayNs \<le> tq_epochNs t + arm_deadline nowNs againNs delayNs t * ?k"
    "tq_epochNs t + arm_deadline nowNs againNs delayNs t * ?k < againNs + delayNs + ?k" unfolding d by linarith+
  then show ?thesis using Arm_result [OF assms(1-5), of nowNs againNs delayNs ej ctx] assms(3,6) by metis
qed

theorem arm_places_on_time_witness:
  "\<exists>t' i. Arm False 0 0 5000000 0 None 7 (new_TimerQueue 0) = (make_handle (en_generation (tq_entries t' i)) i, t') \<and>
    on_time t' \<and> armed t' i \<and> 5000000 \<le> en_deadlineTick (tq_entries t' i) * 1000000"
  using arm_places_on_time [of "new_TimerQueue 0" 0 0 5000000 0 None 7] new_wheel [of 0]
  by (auto simp: CancelToken_Valid_def kNone_def new_TimerQueue_def)

text \<open>The condition is needed: \<open>Arm\<close> advances the wheel to the clock without firing. With a timer due
  at tick 110 not yet fired when another one is armed at tick 115, the first one stays linked behind
  the new current tick and the wheel next looks at its slot on tick 366, 256 ticks late.\<close>
theorem arm_strands_an_overdue_timer:
  "let t1 = snd (Arm False 100000000 100000000 10000000 0 None 0 (new_TimerQueue 0));
       t2 = snd (Arm False 115000000 115000000 1000000000 1 None 0 t1) in
   NextEventTick t1 = Some 110 \<and> en_deadlineTick (tq_entries t2 0) = 110 \<and> armed t2 0 \<and> NextEventTick t2 = Some 366"
  by code_simp

lemma handle_round_trip: "i < 2 ^ 32 \<Longrightarrow> handle_index (make_handle g i) = i \<and> handle_gen (make_handle g i) = g"
proof -
  assume i: "i < 2 ^ 32"
  have lo: "make_handle g i AND 0xFFFFFFFF = of_nat i"
  proof (rule bit_word_eqI)
    fix n assume "n < LENGTH(64)"
    have m: "bit (0xFFFFFFFF :: u64) n \<longleftrightarrow> n < 32"
    proof -
      have "(0xFFFFFFFF :: u64) = mask 32" by (simp add: mask_eq_exp_minus_1)
      then show ?thesis using \<open>n < LENGTH(64)\<close> by (simp only: bit_mask_iff possible_bit_word) auto
    qed
    have "bit (of_nat i :: u64) n \<Longrightarrow> n < 32"
      using i by (metis bit_nat_iff bit_of_nat_iff_bit bit_take_bit_iff take_bit_nat_eq_self possible_bit_def bit_of_nat_iff)
    then show "bit (make_handle g i AND 0xFFFFFFFF) n \<longleftrightarrow> bit (of_nat i :: u64) n"
      using m by (auto simp: make_handle_def bit_and_iff bit_or_iff bit_push_bit_iff)
  qed
  have "handle_index (make_handle g i) = i"
    unfolding handle_index_def lo using i by (simp add: unsigned_of_nat take_bit_nat_eq_self)
  moreover have "handle_gen (make_handle g i) = g"
  proof (rule bit_word_eqI)
    fix n assume n: "n < LENGTH(32)"
    have "\<not> bit (of_nat i :: u64) (32 + n)"
      using i by (metis bit_nat_iff bit_of_nat_iff_bit bit_take_bit_iff take_bit_nat_eq_self not_add_less1 bit_of_nat_iff)
    then show "bit (handle_gen (make_handle g i)) n \<longleftrightarrow> bit g n" using n
      by (auto simp: handle_gen_def make_handle_def bit_simps)
  qed
  ultimately show ?thesis ..
qed

text \<open>\<open>Disarm\<close> with the handle of an armed one-shot succeeds once: it takes that entry off the wheel
  and keeps every other entry, and from then on the same handle is refused.\<close>
theorem disarm_exactly_once:
  assumes "linked t {}" and "on_time t" and "i < tq_size t" and "i < 2 ^ 32"
    and "en_generation (tq_entries t i) = g" and "g AND 1 \<noteq> 0"
  shows "\<exists>t'. Disarm (make_handle g i) t = (True, t') \<and> linked t' {} \<and> on_time t' \<and> \<not> armed t' i \<and>
    (\<forall>j. j \<noteq> i \<longrightarrow> tq_entries t' j = tq_entries t j) \<and> Disarm (make_handle g i) t' = (False, t')"
proof -
  note h = handle_round_trip [OF assms(4), of g]
  have nz: "make_handle g i \<noteq> 0"
  proof
    assume "make_handle g i = 0"
    then have "g = 0" using h by (simp add: handle_gen_def)
    then show False using assms(6) by simp
  qed
  note R = retire_spec [OF assms(1,2), of i]
  let ?t' = "PublishGateLocked (retire_entry i t)"
  have d: "Disarm (make_handle g i) t = (True, ?t')" using nz h assms(3,5,6) by (simp add: Disarm_def Let_def)
  have "en_generation (tq_entries ?t' i) \<noteq> g" using R(10) assms(5) by (simp add: PublishGate_keeps)
  then have "Disarm (make_handle g i) ?t' = (False, ?t')" using h by (simp add: Disarm_def Let_def)
  then show ?thesis using d R retire_spec(8) [OF assms(1,2)] by (intro exI [of _ ?t']) (simp add: PublishGate_keeps)
qed

theorem disarm_exactly_once_witness:
  "\<exists>t'. Disarm (make_handle 1 0) demo_armed = (True, t') \<and> \<not> armed t' 0 \<and> Disarm (make_handle 1 0) t' = (False, t')"
proof -
  have "tq_size demo_armed = 1" "en_generation (tq_entries demo_armed 0) = 1" by code_simp+
  then show ?thesis using disarm_exactly_once [OF demo_armed_ok(1,2), of 0 1] by auto
qed

end
