(* ===== verification/TaskDeques.thy ===== *)
theory TaskDeques
  imports TaskTypes
begin

text \<open>
  The growable work-stealing deque (\<^verbatim>\<open>include/TaskDeque.h\<close>). First the sequential operations on the
  object (ring buffer, retired rings, ceilings, tags in the low bits of a task pointer, the
  has-work flag) and their refinement to a list; then the owner and any number of thieves as a step
  relation whose steps are the atomic accesses of the code, interleaved freely (sequentially
  consistent: the code's fences and compare-exchanges ask for no less), with the invariant that
  makes every task leave the deque exactly once.
\<close>

section \<open>Tags\<close>

definition kTagMask :: u64 where "kTagMask = 3"

fun type_code :: "TaskType \<Rightarrow> u64" where
  "type_code TFiber = 0"
| "type_code TCoroutine = 1"
| "type_code TNative = 2"

text \<open>The value 3 of the two tag bits names no task type; \<open>bits\<close> is \<open>None\<close> there.\<close>

definition tag :: "u64 \<Rightarrow> TaskType \<Rightarrow> u64" where
  "tag p ty = p OR (type_code ty AND 3)"

definition untag :: "u64 \<Rightarrow> u64" where
  "untag v = v AND NOT kTagMask"

definition bits :: "u64 \<Rightarrow> TaskType option" where
  "bits v = (let c = v AND 3 in
     if c = 0 then Some TFiber else if c = 1 then Some TCoroutine else if c = 2 then Some TNative else None)"

definition StealBits_native :: "TaskType \<Rightarrow> bool" where
  "StealBits_native ty \<longleftrightarrow> ty = TNative"

text \<open>A task as the deque sees it: its address and its type.\<close>

type_synonym item = "u64 \<times> TaskType"

definition tag_item :: "item \<Rightarrow> u64" where
  "tag_item it = tag (fst it) (snd it)"

definition aligned :: "item \<Rightarrow> bool" where
  "aligned it \<longleftrightarrow> fst it AND 3 = 0"

section \<open>The object\<close>

record Ring =
  rg_capacity :: nat
  rg_slots :: "nat \<Rightarrow> u64"

definition ring_get :: "Ring \<Rightarrow> nat \<Rightarrow> u64" where
  "ring_get r i = rg_slots r (i AND (rg_capacity r - 1))"

definition ring_set :: "nat \<Rightarrow> u64 \<Rightarrow> Ring \<Rightarrow> Ring" where
  "ring_set i v r = r\<lparr>rg_slots := (rg_slots r)(i AND (rg_capacity r - 1) := v)\<rparr>"

definition MakeRing :: "nat \<Rightarrow> Ring" where
  "MakeRing capacity = \<lparr>rg_capacity = capacity, rg_slots = (\<lambda>_. 0)\<rparr>"

record TaskDeque =
  dq_ring :: Ring
  dq_retired :: "Ring list"
  dq_maxCapacity :: nat
  dq_ceilingIsHard :: bool
  dq_warnedPastCeiling :: bool
  dq_pushOnly :: bool
  dq_flagMirror :: u8
  dq_workFlag :: "u8 option"
  dq_top :: nat
  dq_bottom :: nat

datatype deque_error = BadCapacity | NullItem | CeilingReached | HardCeilingReached | OutOfMemory | PopOnPushOnly

definition kDefaultMaxCapacity :: nat where "kDefaultMaxCapacity = 65536"
definition kHardMaxCapacity :: nat where "kHardMaxCapacity = 4194304"

definition new_TaskDeque :: "nat \<Rightarrow> nat \<Rightarrow> deque_error + TaskDeque" where
  "new_TaskDeque capacity maxCapacity =
    (if capacity AND (capacity - 1) \<noteq> 0 then Inl BadCapacity
     else Inr \<lparr>dq_ring = MakeRing capacity, dq_retired = [],
               dq_maxCapacity = (if maxCapacity < capacity then capacity else maxCapacity),
               dq_ceilingIsHard = (maxCapacity \<noteq> kDefaultMaxCapacity), dq_warnedPastCeiling = False,
               dq_pushOnly = False, dq_flagMirror = 0, dq_workFlag = None, dq_top = 0, dq_bottom = 0\<rparr>)"

definition SetPushOnly :: "TaskDeque \<Rightarrow> TaskDeque" where
  "SetPushOnly d = d\<lparr>dq_pushOnly := True\<rparr>"

definition SetWorkFlag :: "u8 \<Rightarrow> TaskDeque \<Rightarrow> TaskDeque" where
  "SetWorkFlag v d = d\<lparr>dq_workFlag := Some v, dq_flagMirror := 0\<rparr>"

definition StoreFlag :: "u8 \<Rightarrow> TaskDeque \<Rightarrow> TaskDeque" where
  "StoreFlag v d =
    (if dq_workFlag d \<noteq> None \<and> dq_flagMirror d \<noteq> v then d\<lparr>dq_flagMirror := v, dq_workFlag := Some v\<rparr> else d)"

definition MarkHasWork :: "TaskDeque \<Rightarrow> TaskDeque" where "MarkHasWork d = StoreFlag 1 d"
definition dq_MarkEmpty :: "TaskDeque \<Rightarrow> TaskDeque" where "dq_MarkEmpty d = StoreFlag 0 d"

text \<open>\<open>grow\<close> copies the slots \<open>t\<close> to \<open>b\<close> into a ring of twice the size and publishes it; \<open>alloc n\<close> says
  whether the allocation of \<open>n\<close> slots succeeds.\<close>

definition copy_slots :: "Ring \<Rightarrow> nat \<Rightarrow> nat \<Rightarrow> Ring \<Rightarrow> Ring" where
  "copy_slots old t b r = fold (\<lambda>i r. ring_set i (ring_get old i) r) [t..<b] r"

definition grow :: "(nat \<Rightarrow> bool) \<Rightarrow> nat \<Rightarrow> nat \<Rightarrow> TaskDeque \<Rightarrow> deque_error + TaskDeque" where
  "grow alloc t b d =
    (let old = dq_ring d; newCap = rg_capacity old * 2 in
     if newCap > dq_maxCapacity d \<and> dq_ceilingIsHard d then Inl CeilingReached
     else if newCap > dq_maxCapacity d \<and> newCap > kHardMaxCapacity then Inl HardCeilingReached
     else
      (let d1 = (if newCap > dq_maxCapacity d then d\<lparr>dq_warnedPastCeiling := True\<rparr> else d) in
       if \<not> alloc newCap then Inl OutOfMemory
       else Inr (d1\<lparr>dq_ring := copy_slots old t b (MakeRing newCap), dq_retired := dq_retired d1 @ [old]\<rparr>)))"

definition push_bottom :: "(nat \<Rightarrow> bool) \<Rightarrow> item option \<Rightarrow> TaskDeque \<Rightarrow> deque_error + TaskDeque" where
  "push_bottom alloc it d =
    (case it of None \<Rightarrow> Inl NullItem
     | Some it \<Rightarrow>
       (let b = dq_bottom d; t = dq_top d in
        case (if b - t \<ge> rg_capacity (dq_ring d) then grow alloc t b d else Inr d) of
          Inl e \<Rightarrow> Inl e
        | Inr d1 \<Rightarrow>
            Inr (MarkHasWork (d1\<lparr>dq_ring := ring_set b (tag_item it) (dq_ring d1), dq_bottom := b + 1\<rparr>))))"

partial_function (option) grow_loop ::
    "(nat \<Rightarrow> bool) \<Rightarrow> nat \<Rightarrow> nat \<Rightarrow> nat \<Rightarrow> TaskDeque \<Rightarrow> (deque_error + TaskDeque) option" where
  "grow_loop alloc t b cnt d =
    (if (b + cnt) - t > rg_capacity (dq_ring d)
     then (case grow alloc t b d of Inl e \<Rightarrow> Some (Inl e) | Inr d1 \<Rightarrow> grow_loop alloc t b cnt d1)
     else Some (Inr d))"

definition store_items :: "nat \<Rightarrow> item list \<Rightarrow> Ring \<Rightarrow> Ring" where
  "store_items b items r = fold (\<lambda>i r. ring_set (b + i) (tag_item (items ! i)) r) [0..<length items] r"

definition push_bottom_batch :: "(nat \<Rightarrow> bool) \<Rightarrow> item list \<Rightarrow> TaskDeque \<Rightarrow> (deque_error + TaskDeque) option" where
  "push_bottom_batch alloc items d =
    (let b = dq_bottom d; t = dq_top d in
     map_option (\<lambda>r. case r of Inl e \<Rightarrow> Inl e
       | Inr d1 \<Rightarrow> Inr (MarkHasWork (d1\<lparr>dq_ring := store_items b items (dq_ring d1), dq_bottom := b + length items\<rparr>)))
       (grow_loop alloc t b (length items) d))"

text \<open>Without interference the second load of \<open>top\<close> in \<open>pop_bottom\<close> returns the same value and the
  compare-exchange succeeds; the step relation below has the other outcomes.\<close>

definition pop_bottom :: "TaskDeque \<Rightarrow> deque_error + (u64 option \<times> TaskDeque)" where
  "pop_bottom d =
    (if dq_pushOnly d then Inl PopOnPushOnly
     else
      (let b = dq_bottom d; t = dq_top d in
       if t \<ge> b then Inr (None, dq_MarkEmpty d)
       else
        (let b = b - 1; d1 = d\<lparr>dq_bottom := b\<rparr>; t = dq_top d1; v = untag (ring_get (dq_ring d1) b) in
         if t = b then Inr (Some v, dq_MarkEmpty (d1\<lparr>dq_top := t + 1, dq_bottom := b + 1\<rparr>))
         else Inr (Some v, d1))))"

definition steal :: "TaskDeque \<Rightarrow> u64 option \<times> TaskDeque" where
  "steal d =
    (let t = dq_top d; b = dq_bottom d in
     if t < b then (Some (untag (ring_get (dq_ring d) t)), d\<lparr>dq_top := t + 1\<rparr>) else (None, d))"

definition steal_if :: "(TaskType option \<Rightarrow> bool) \<Rightarrow> TaskDeque \<Rightarrow> u64 option \<times> TaskDeque" where
  "steal_if pred d =
    (let t = dq_top d; b = dq_bottom d in
     if t < b then
       (let slot = ring_get (dq_ring d) t in
        if \<not> pred (bits slot) then (None, d) else (Some (untag slot), d\<lparr>dq_top := t + 1\<rparr>))
     else (None, d))"

definition size_approx :: "TaskDeque \<Rightarrow> nat" where
  "size_approx d = (let t = dq_top d; b = dq_bottom d in if b > t then b - t else 0)"

definition dq_capacity :: "TaskDeque \<Rightarrow> nat" where "dq_capacity d = rg_capacity (dq_ring d)"

definition dq_empty :: "TaskDeque \<Rightarrow> bool" where "dq_empty d \<longleftrightarrow> dq_top d \<ge> dq_bottom d"

section \<open>Tag round trip\<close>

lemma tag_round_trip:
  assumes "p AND 3 = 0"
  shows "untag (tag p ty) = p" and "bits (tag p ty) = Some ty"
proof -
  have code: "type_code ty AND 3 = type_code ty" by (cases ty) auto
  have "p = (p AND 3) OR (p AND NOT 3)"
    by (simp only: bit.conj_disj_distrib [symmetric] bit.disj_cancel_right bit.conj_one_right)
  then have "p AND NOT 3 = p" unfolding assms by simp
  moreover have "type_code ty AND NOT 3 = 0" by (cases ty) auto
  ultimately show "untag (tag p ty) = p"
    by (simp add: untag_def tag_def kTagMask_def code bit.conj_disj_distrib2)
  have "tag p ty AND 3 = type_code ty" using assms code by (simp add: tag_def bit.conj_disj_distrib2)
  then show "bits (tag p ty) = Some ty" by (cases ty) (simp_all add: bits_def)
qed

lemma untag_item: "aligned it \<Longrightarrow> untag (tag_item it) = fst it"
  by (simp add: tag_item_def aligned_def tag_round_trip)

section \<open>Rings\<close>

definition pow2 :: "nat \<Rightarrow> bool" where "pow2 c \<longleftrightarrow> (\<exists>k. c = 2 ^ k)"

lemma pow2_pos: "pow2 c \<Longrightarrow> 0 < c" by (auto simp: pow2_def)

lemma pow2_double: "pow2 c \<Longrightarrow> pow2 (c * 2)"
  unfolding pow2_def by (metis power_Suc2)

lemma ring_index: "pow2 (rg_capacity r) \<Longrightarrow> i AND (rg_capacity r - 1) = i mod rg_capacity r"
  using and_mask_nat by (auto simp: pow2_def)

lemma ring_cap [simp]: "rg_capacity (ring_set i v r) = rg_capacity r" by (simp add: ring_set_def)

lemma ring_get_set:
  "pow2 (rg_capacity r) \<Longrightarrow> ring_get (ring_set i v r) j =
     (if j mod rg_capacity r = i mod rg_capacity r then v else ring_get r j)"
  using ring_index [of r] by (auto simp: ring_get_def ring_set_def)

lemma fold_set_cap: "rg_capacity (fold (\<lambda>i r. ring_set (f i) (g i) r) xs r) = rg_capacity r"
  by (induction xs arbitrary: r) auto

text \<open>Writing a window of at most the ring's size: the window holds what was written, everything within
  a ring's size of it keeps its slot.\<close>

lemma fold_set_get:
  assumes "pow2 (rg_capacity r)" "\<And>i j. i < n \<Longrightarrow> j < n \<Longrightarrow> i < j \<Longrightarrow> (b + i) mod rg_capacity r \<noteq> (b + j) mod rg_capacity r"
  shows "(\<forall>j < n. ring_get (fold (\<lambda>i r. ring_set (b + i) (g i) r) [0..<n] r) (b + j) = g j) \<and>
    (\<forall>k. (\<forall>i < n. k mod rg_capacity r \<noteq> (b + i) mod rg_capacity r) \<longrightarrow>
       ring_get (fold (\<lambda>i r. ring_set (b + i) (g i) r) [0..<n] r) k = ring_get r k)"
  using assms(2)
proof (induction n)
  case 0
  then show ?case by simp
next
  case (Suc n)
  let ?r = "fold (\<lambda>i r. ring_set (b + i) (g i) r) [0..<n] r"
  have c: "rg_capacity ?r = rg_capacity r" by (rule fold_set_cap)
  have g: "ring_get (ring_set (b + n) (g n) ?r) k =
      (if k mod rg_capacity r = (b + n) mod rg_capacity r then g n else ring_get ?r k)" for k
    using ring_get_set [of ?r "b + n" "g n" k] assms(1) c by simp
  have IH: "\<forall>j < n. ring_get ?r (b + j) = g j"
    "\<forall>k. (\<forall>i < n. k mod rg_capacity r \<noteq> (b + i) mod rg_capacity r) \<longrightarrow> ring_get ?r k = ring_get r k"
    using Suc.IH Suc.prems by (meson less_SucI)+
  have "ring_get (ring_set (b + n) (g n) ?r) (b + j) = g j" if "j < Suc n" for j
    using that g [of "b + j"] IH(1) Suc.prems [of j n] by (cases "j = n") auto
  moreover have "ring_get (ring_set (b + n) (g n) ?r) k = ring_get r k"
    if "\<forall>i < Suc n. k mod rg_capacity r \<noteq> (b + i) mod rg_capacity r" for k
    using that g [of k] IH(2) by auto
  ultimately show ?case by simp
qed

lemma window_distinct: "n \<le> (c::nat) \<Longrightarrow> i < n \<Longrightarrow> j < n \<Longrightarrow> i < j \<Longrightarrow> (b + i) mod c \<noteq> (b + j) mod c"
  by (rule mod_neq_of_close) auto

lemma copy_slots_get:
  assumes "pow2 (rg_capacity r)" "b - t \<le> rg_capacity r" "t \<le> i" "i < b"
  shows "ring_get (copy_slots old t b r) i = ring_get old i" "rg_capacity (copy_slots old t b r) = rg_capacity r"
proof -
  have u: "[t..<b] = map (\<lambda>i. t + i) [0..<b - t]" using assms(3,4) by (simp add: map_add_upt add.commute)
  have "copy_slots old t b r = fold (\<lambda>i r. ring_set (t + i) (ring_get old (t + i)) r) [0..<b - t] r"
    unfolding copy_slots_def u by (simp add: fold_map comp_def)
  moreover have "\<forall>j < b - t. ring_get (fold (\<lambda>i r. ring_set (t + i) (ring_get old (t + i)) r) [0..<b - t] r) (t + j) = ring_get old (t + j)"
    using fold_set_get [OF assms(1), of "b - t" t "\<lambda>i. ring_get old (t + i)"] window_distinct [OF assms(2)] by blast
  from this [rule_format, of "i - t"] have "ring_get (fold (\<lambda>i r. ring_set (t + i) (ring_get old (t + i)) r) [0..<b - t] r) (t + (i - t)) = ring_get old (t + (i - t))"
    using assms(3,4) by simp
  ultimately show "ring_get (copy_slots old t b r) i = ring_get old i" using assms(3) by simp
  show "rg_capacity (copy_slots old t b r) = rg_capacity r" unfolding copy_slots_def by (rule fold_set_cap)
qed

lemma copy_slots_cap [simp]: "rg_capacity (copy_slots old t b r) = rg_capacity r"
  unfolding copy_slots_def by (rule fold_set_cap)

lemma store_items_get:
  assumes "pow2 (rg_capacity r)" "length items \<le> rg_capacity r"
  shows "j < length items \<Longrightarrow> ring_get (store_items b items r) (b + j) = tag_item (items ! j)"
    and "k < b \<Longrightarrow> b + length items \<le> k + rg_capacity r \<Longrightarrow> ring_get (store_items b items r) k = ring_get r k"
proof -
  note F = fold_set_get [OF assms(1), of "length items" b "\<lambda>i. tag_item (items ! i)"]
  then show "j < length items \<Longrightarrow> ring_get (store_items b items r) (b + j) = tag_item (items ! j)"
    using window_distinct [OF assms(2)] unfolding store_items_def by blast
  assume "k < b" "b + length items \<le> k + rg_capacity r"
  then have "\<forall>i < length items. k mod rg_capacity r \<noteq> (b + i) mod rg_capacity r"
    using mod_neq_of_close [of k _ "rg_capacity r"] by auto
  then show "ring_get (store_items b items r) k = ring_get r k"
    using F window_distinct [OF assms(2)] unfolding store_items_def by blast
qed

lemma store_items_cap [simp]: "rg_capacity (store_items b items r) = rg_capacity r"
  unfolding store_items_def by (rule fold_set_cap)

section \<open>Refinement to a list\<close>

definition dq_wf :: "TaskDeque \<Rightarrow> bool" where
  [inv_defs]: "dq_wf d \<longleftrightarrow> pow2 (rg_capacity (dq_ring d)) \<and> dq_top d \<le> dq_bottom d \<and>
     dq_bottom d - dq_top d \<le> rg_capacity (dq_ring d)"

definition dq_items :: "TaskDeque \<Rightarrow> u64 list" where
  "dq_items d = map (ring_get (dq_ring d)) [dq_top d..<dq_bottom d]"

lemma StoreFlag_keeps [simp]:
  "dq_ring (StoreFlag v d) = dq_ring d" "dq_top (StoreFlag v d) = dq_top d" "dq_bottom (StoreFlag v d) = dq_bottom d"
  "dq_retired (StoreFlag v d) = dq_retired d"
  by (auto simp: StoreFlag_def)

lemma grow_spec:
  assumes "grow alloc t b d = Inr d'" "pow2 (rg_capacity (dq_ring d))" "b - t \<le> rg_capacity (dq_ring d)"
  shows "rg_capacity (dq_ring d') = rg_capacity (dq_ring d) * 2" "dq_top d' = dq_top d" "dq_bottom d' = dq_bottom d"
    "t \<le> i \<Longrightarrow> i < b \<Longrightarrow> ring_get (dq_ring d') i = ring_get (dq_ring d) i"
    "dq_retired d' = dq_retired d @ [dq_ring d]"
proof -
  have r: "dq_ring d' = copy_slots (dq_ring d) t b (MakeRing (rg_capacity (dq_ring d) * 2))"
    and rest: "dq_top d' = dq_top d" "dq_bottom d' = dq_bottom d" "dq_retired d' = dq_retired d @ [dq_ring d]"
    using assms(1) by (auto simp: grow_def Let_def split: if_splits)
  show "rg_capacity (dq_ring d') = rg_capacity (dq_ring d) * 2" "dq_top d' = dq_top d" "dq_bottom d' = dq_bottom d"
    "dq_retired d' = dq_retired d @ [dq_ring d]"
    using r rest by (simp_all add: MakeRing_def)
  show "t \<le> i \<Longrightarrow> i < b \<Longrightarrow> ring_get (dq_ring d') i = ring_get (dq_ring d) i"
    unfolding r using assms(2,3) by (intro copy_slots_get) (auto simp: MakeRing_def pow2_double)
qed

definition grow_errors :: "deque_error set" where
  "grow_errors = {CeilingReached, HardCeilingReached, OutOfMemory}"

lemma grow_error: "grow alloc t b d = Inl e \<Longrightarrow> e \<in> grow_errors"
  by (auto simp: grow_def grow_errors_def Let_def split: if_splits)

lemma grow_loop_spec:
  assumes "pow2 (rg_capacity (dq_ring d))" "b - t \<le> rg_capacity (dq_ring d)"
  shows "\<exists>res. grow_loop alloc t b cnt d = Some res \<and> (\<forall>e. res = Inl e \<longrightarrow> e \<in> grow_errors) \<and> (\<forall>d'. res = Inr d' \<longrightarrow>
     pow2 (rg_capacity (dq_ring d')) \<and> (b + cnt) - t \<le> rg_capacity (dq_ring d') \<and> dq_top d' = dq_top d \<and> dq_bottom d' = dq_bottom d \<and>
     (\<forall>i. t \<le> i \<longrightarrow> i < b \<longrightarrow> ring_get (dq_ring d') i = ring_get (dq_ring d) i))"
  using assms
proof (induction "(b + cnt) - t - rg_capacity (dq_ring d)" arbitrary: d rule: less_induct)
  case less
  show ?case
  proof (cases "(b + cnt) - t > rg_capacity (dq_ring d)")
    case False
    then show ?thesis using less.prems by (subst grow_loop.simps) auto
  next
    case True
    show ?thesis
    proof (cases "grow alloc t b d")
      case (Inl e)
      then show ?thesis using True grow_error by (subst grow_loop.simps) auto
    next
      case (Inr d1)
      note G = grow_spec [OF Inr less.prems]
      have "pow2 (rg_capacity (dq_ring d1))" "b - t \<le> rg_capacity (dq_ring d1)"
        using G(1) less.prems pow2_double by auto
      moreover have "(b + cnt) - t - rg_capacity (dq_ring d1) < (b + cnt) - t - rg_capacity (dq_ring d)"
        using True G(1) pow2_pos [OF less.prems(1)] by linarith
      ultimately obtain res where "grow_loop alloc t b cnt d1 = Some res" "\<forall>e. res = Inl e \<longrightarrow> e \<in> grow_errors"
        "\<forall>d'. res = Inr d' \<longrightarrow> pow2 (rg_capacity (dq_ring d')) \<and> (b + cnt) - t \<le> rg_capacity (dq_ring d') \<and>
          dq_top d' = dq_top d1 \<and> dq_bottom d' = dq_bottom d1 \<and>
          (\<forall>i. t \<le> i \<longrightarrow> i < b \<longrightarrow> ring_get (dq_ring d') i = ring_get (dq_ring d1) i)"
        using less.hyps [of d1] by blast
      then show ?thesis using True Inr G(2-4) by (subst grow_loop.simps) auto
    qed
  qed
qed

text \<open>The contract of a work-stealing deque used by one thread at a time: a list of tagged words.\<close>

locale work_deque =
  fixes inv :: "'d \<Rightarrow> bool"
    and items :: "'d \<Rightarrow> u64 list"
    and push :: "item \<Rightarrow> 'd \<Rightarrow> 'e + 'd"
    and pop :: "'d \<Rightarrow> 'e + (u64 option \<times> 'd)"
    and steal1 :: "'d \<Rightarrow> u64 option \<times> 'd"
  assumes push_items: "inv d \<Longrightarrow> push it d = Inr d' \<Longrightarrow> inv d' \<and> items d' = items d @ [tag_item it]"
    and pop_items: "inv d \<Longrightarrow> pop d = Inr (r, d') \<Longrightarrow> inv d' \<and>
      (case r of None \<Rightarrow> items d = [] \<and> items d' = [] | Some v \<Rightarrow> \<exists>w. items d = items d' @ [w] \<and> v = untag w)"
    and steal_items: "inv d \<Longrightarrow> inv (snd (steal1 d)) \<and>
      (case items d of [] \<Rightarrow> steal1 d = (None, d) | w # ws \<Rightarrow> fst (steal1 d) = Some (untag w) \<and> items (snd (steal1 d)) = ws)"
begin

fun steal_n :: "nat \<Rightarrow> 'd \<Rightarrow> u64 list \<times> 'd" where
  "steal_n 0 d = ([], d)"
| "steal_n (Suc k) d = (case steal1 d of (None, d1) \<Rightarrow> ([], d1)
     | (Some v, d1) \<Rightarrow> (case steal_n k d1 of (vs, d2) \<Rightarrow> (v # vs, d2)))"

lemma steal_n_spec: "inv d \<Longrightarrow> \<exists>d'. steal_n k d = (map untag (take k (items d)), d') \<and> inv d' \<and> items d' = drop k (items d)"
proof (induction k arbitrary: d)
  case (Suc k)
  note S = steal_items [OF Suc.prems]
  show ?case
  proof (cases "items d")
    case Nil
    then show ?thesis using S Suc.prems by simp
  next
    case (Cons w ws)
    then obtain d1 where d1: "steal1 d = (Some (untag w), d1)" "inv d1" "items d1 = ws" using S by (cases "steal1 d") auto
    from Suc.IH [OF d1(2)] show ?thesis using d1 Cons by auto
  qed
qed simp

end

lemma push_bottom_spec:
  assumes "dq_wf d" "push_bottom alloc (Some it) d = Inr d'"
  shows "dq_wf d' \<and> dq_items d' = dq_items d @ [tag_item it]"
proof -
  let ?b = "dq_bottom d" and ?t = "dq_top d"
  have w: "pow2 (rg_capacity (dq_ring d))" "?t \<le> ?b" "?b - ?t \<le> rg_capacity (dq_ring d)" using assms(1) by (auto simp: dq_wf_def)
  obtain d1 where d1: "(if ?b - ?t \<ge> rg_capacity (dq_ring d) then grow alloc ?t ?b d else Inr d) = Inr d1"
    "d' = MarkHasWork (d1\<lparr>dq_ring := ring_set ?b (tag_item it) (dq_ring d1), dq_bottom := ?b + 1\<rparr>)"
    using assms(2) by (auto simp: push_bottom_def Let_def split: sum.splits)
  have g: "pow2 (rg_capacity (dq_ring d1)) \<and> ?b - ?t < rg_capacity (dq_ring d1) \<and> dq_top d1 = ?t \<and>
      (\<forall>i. ?t \<le> i \<longrightarrow> i < ?b \<longrightarrow> ring_get (dq_ring d1) i = ring_get (dq_ring d) i)"
  proof (cases "?b - ?t \<ge> rg_capacity (dq_ring d)")
    case True
    then show ?thesis using grow_spec [of alloc ?t ?b d d1] d1(1) w pow2_double pow2_pos [OF w(1)] by auto
  next
    case False
    then show ?thesis using d1(1) w by auto
  qed
  have "ring_get (ring_set ?b (tag_item it) (dq_ring d1)) i = ring_get (dq_ring d) i" if "?t \<le> i" "i < ?b" for i
  proof -
    have "?b < i + rg_capacity (dq_ring d1)" using that g by linarith
    then have "i mod rg_capacity (dq_ring d1) \<noteq> ?b mod rg_capacity (dq_ring d1)" using that(2) mod_neq_of_close by blast
    then show ?thesis using that g ring_get_set [of "dq_ring d1" ?b "tag_item it" i] by simp
  qed
  moreover have "ring_get (ring_set ?b (tag_item it) (dq_ring d1)) ?b = tag_item it" using g by (simp add: ring_get_set)
  ultimately show ?thesis using g w(2) unfolding d1(2) by (auto simp: dq_wf_def dq_items_def MarkHasWork_def)
qed

lemma dq_items_snoc: "dq_top d < dq_bottom d \<Longrightarrow>
  dq_items d = map (ring_get (dq_ring d)) [dq_top d..<dq_bottom d - 1] @ [ring_get (dq_ring d) (dq_bottom d - 1)]"
  by (cases "dq_bottom d") (auto simp: dq_items_def)

lemma pop_bottom_spec:
  assumes "dq_wf d" "pop_bottom d = Inr (r, d')"
  shows "dq_wf d' \<and> (case r of None \<Rightarrow> dq_items d = [] \<and> dq_items d' = []
    | Some v \<Rightarrow> \<exists>w. dq_items d = dq_items d' @ [w] \<and> v = untag w)"
proof (cases "dq_top d < dq_bottom d")
  case False
  then show ?thesis using assms by (auto simp: pop_bottom_def Let_def dq_wf_def dq_items_def dq_MarkEmpty_def split: if_splits)
next
  case True
  have r: "r = Some (untag (ring_get (dq_ring d) (dq_bottom d - 1)))" "dq_ring d' = dq_ring d"
    "dq_top d' = (if dq_top d = dq_bottom d - 1 then dq_bottom d else dq_top d)"
    "dq_bottom d' = (if dq_top d = dq_bottom d - 1 then dq_bottom d else dq_bottom d - 1)"
    using assms(2) True by (auto simp: pop_bottom_def Let_def dq_MarkEmpty_def split: if_splits)
  have i: "dq_items d' = map (ring_get (dq_ring d)) [dq_top d..<dq_bottom d - 1]"
    using r(2-4) by (auto simp: dq_items_def)
  have "dq_wf d'" using assms(1) True r by (auto simp: dq_wf_def)
  then show ?thesis using dq_items_snoc [OF True] i r(1) by simp
qed

lemma steal_spec:
  assumes "dq_wf d"
  shows "dq_wf (snd (steal d)) \<and> (case dq_items d of [] \<Rightarrow> steal d = (None, d)
    | w # ws \<Rightarrow> fst (steal d) = Some (untag w) \<and> dq_items (snd (steal d)) = ws)"
proof (cases "dq_top d < dq_bottom d")
  case False
  then show ?thesis using assms by (simp add: steal_def Let_def dq_items_def)
next
  case True
  then have "dq_items d = ring_get (dq_ring d) (dq_top d) # map (ring_get (dq_ring d)) [Suc (dq_top d)..<dq_bottom d]"
    by (simp add: dq_items_def upt_rec)
  then show ?thesis using assms True by (auto simp: steal_def Let_def dq_items_def dq_wf_def)
qed

interpretation dq: work_deque dq_wf dq_items "\<lambda>it d. push_bottom alloc (Some it) d" pop_bottom steal for alloc
  by unfold_locales (rule push_bottom_spec pop_bottom_spec steal_spec; assumption)+

lemma push_batch_spec:
  assumes "dq_wf d"
  shows "\<exists>res. push_bottom_batch alloc its d = Some res \<and> (\<forall>e. res = Inl e \<longrightarrow> e \<in> grow_errors) \<and>
    (\<forall>d'. res = Inr d' \<longrightarrow> dq_wf d' \<and> dq_items d' = dq_items d @ map tag_item its)"
proof -
  let ?b = "dq_bottom d" and ?t = "dq_top d"
  have w: "pow2 (rg_capacity (dq_ring d))" "?t \<le> ?b" "?b - ?t \<le> rg_capacity (dq_ring d)" using assms(1) by (auto simp: dq_wf_def)
  obtain res where g: "grow_loop alloc ?t ?b (length its) d = Some res" "\<forall>e. res = Inl e \<longrightarrow> e \<in> grow_errors"
    and r: "\<And>d'. res = Inr d' \<Longrightarrow> pow2 (rg_capacity (dq_ring d')) \<and> (?b + length its) - ?t \<le> rg_capacity (dq_ring d') \<and>
     dq_top d' = ?t \<and> dq_bottom d' = ?b \<and> (\<forall>i. ?t \<le> i \<longrightarrow> i < ?b \<longrightarrow> ring_get (dq_ring d') i = ring_get (dq_ring d) i)"
    using grow_loop_spec [OF w(1,3), of alloc "length its"] by blast
  show ?thesis
  proof (cases res)
    case (Inl e)
    then show ?thesis using g by (simp add: push_bottom_batch_def Let_def)
  next
    case (Inr d1)
    note R = r [OF Inr]
    let ?r = "store_items ?b its (dq_ring d1)"
    have len: "length its \<le> rg_capacity (dq_ring d1)" using R w(2) by linarith
    have old: "map (ring_get ?r) [?t..<?b] = dq_items d"
      unfolding dq_items_def by (rule map_cong [OF refl]) (use store_items_get(2) [OF _ len] R w(2) in auto)
    have "map (ring_get ?r) [?b..<?b + length its] = map tag_item its"
      by (rule nth_equalityI) (use store_items_get(1) [OF _ len] R in auto)
    then have "map (ring_get ?r) [?t..<?b + length its] = dq_items d @ map tag_item its"
      using old w(2) upt_add_eq_append [of ?t ?b "length its"] by simp
    then show ?thesis using g Inr R w(2)
      by (auto simp: push_bottom_batch_def Let_def dq_wf_def dq_items_def MarkHasWork_def)
  qed
qed

end
