(* ===== verification/TaskDequeRace.thy ===== *)
theory TaskDequeRace
  imports TaskDeques
begin

text \<open>
  The deque under concurrency: one owner pushing and popping at the bottom, any number of thieves
  stealing from the top. Each step is one atomic access of \<^verbatim>\<open>include/TaskDeque.h\<close> (a load, a store or a
  compare-exchange on \<open>top_\<close>, \<open>bottom_\<close>, \<open>ring_\<close> or a slot) with the thread-local code up to the
  next one; rings are objects with identities, so that a thief may still hold one the owner has
  replaced. \<open>rc_content\<close>, \<open>rc_pushed\<close> and \<open>rc_taken\<close> are ghost history. \<open>top_\<close> and \<open>bottom_\<close> are
  natural numbers here, \<open>size_t\<close> in the source.
\<close>

section \<open>States and steps\<close>

datatype owner_pc =
    OIdle
  | OPush "u64 list" nat
  | OStoring "u64 list" nat nat
  | OPopRead
  | OPopping nat
  | OPopCas nat u64
  | OPopEnd nat

datatype thief_pc = TIdle | TTop nat | TBot nat | TRing nat nat | TItem nat u64

record race =
  rc_rings :: "nat \<Rightarrow> Ring"
  rc_cur :: nat
  rc_top :: nat
  rc_bottom :: nat
  rc_owner :: owner_pc
  rc_thief :: "nat \<Rightarrow> thief_pc"
  rc_content :: "nat \<Rightarrow> u64"
  rc_pushed :: "u64 multiset"
  rc_taken :: "u64 multiset"

definition cur_ring :: "race \<Rightarrow> Ring" where "cur_ring s = rc_rings s (rc_cur s)"

definition race_init :: "nat \<Rightarrow> race" where
  "race_init capacity = \<lparr>rc_rings = (\<lambda>_. MakeRing capacity), rc_cur = 0, rc_top = 0, rc_bottom = 0, rc_owner = OIdle,
     rc_thief = (\<lambda>_. TIdle), rc_content = (\<lambda>_. 0), rc_pushed = {#}, rc_taken = {#}\<rparr>"

definition content_after :: "nat \<Rightarrow> u64 list \<Rightarrow> (nat \<Rightarrow> u64) \<Rightarrow> nat \<Rightarrow> u64" where
  "content_after b ws c i = (if b \<le> i \<and> i < b + length ws then ws ! (i - b) else c i)"

inductive race_step :: "race \<Rightarrow> race \<Rightarrow> bool" where
  o_push: "rc_owner s = OIdle \<Longrightarrow> race_step s (s\<lparr>rc_owner := OPush ws (rc_top s)\<rparr>)"
| o_grow: "rc_owner s = OPush ws t \<Longrightarrow> (rc_bottom s + length ws) - t > rg_capacity (cur_ring s) \<Longrightarrow>
    race_step s (s\<lparr>rc_rings := (rc_rings s)(Suc (rc_cur s) :=
        copy_slots (cur_ring s) t (rc_bottom s) (MakeRing (rg_capacity (cur_ring s) * 2))), rc_cur := Suc (rc_cur s)\<rparr>)"
| o_fits: "rc_owner s = OPush ws t \<Longrightarrow> \<not> (rc_bottom s + length ws) - t > rg_capacity (cur_ring s) \<Longrightarrow>
    race_step s (s\<lparr>rc_owner := OStoring ws 0 t\<rparr>)"
| o_store: "rc_owner s = OStoring ws k t \<Longrightarrow> k < length ws \<Longrightarrow>
    race_step s (s\<lparr>rc_rings := (rc_rings s)(rc_cur s := ring_set (rc_bottom s + k) (ws ! k) (cur_ring s)),
                   rc_owner := OStoring ws (Suc k) t\<rparr>)"
| o_publish: "rc_owner s = OStoring ws k t \<Longrightarrow> k = length ws \<Longrightarrow>
    race_step s (s\<lparr>rc_bottom := rc_bottom s + length ws, rc_owner := OIdle,
                   rc_content := content_after (rc_bottom s) ws (rc_content s), rc_pushed := rc_pushed s + mset ws\<rparr>)"
| o_pop: "rc_owner s = OIdle \<Longrightarrow> rc_top s < rc_bottom s \<Longrightarrow> race_step s (s\<lparr>rc_owner := OPopRead\<rparr>)"
| o_pop_dec: "rc_owner s = OPopRead \<Longrightarrow>
    race_step s (s\<lparr>rc_bottom := rc_bottom s - 1, rc_owner := OPopping (rc_bottom s - 1)\<rparr>)"
| o_pop_take: "rc_owner s = OPopping b \<Longrightarrow> rc_top s < b \<Longrightarrow>
    race_step s (s\<lparr>rc_owner := OIdle, rc_taken := rc_taken s + {#ring_get (cur_ring s) b#}\<rparr>)"
| o_pop_last: "rc_owner s = OPopping b \<Longrightarrow> rc_top s = b \<Longrightarrow>
    race_step s (s\<lparr>rc_owner := OPopCas b (ring_get (cur_ring s) b)\<rparr>)"
| o_pop_lost: "rc_owner s = OPopping b \<Longrightarrow> rc_top s > b \<Longrightarrow> race_step s (s\<lparr>rc_owner := OPopEnd (rc_top s)\<rparr>)"
| o_cas_ok: "rc_owner s = OPopCas b v \<Longrightarrow> rc_top s = b \<Longrightarrow>
    race_step s (s\<lparr>rc_top := b + 1, rc_owner := OPopEnd (b + 1), rc_taken := rc_taken s + {#v#}\<rparr>)"
| o_cas_fail: "rc_owner s = OPopCas b v \<Longrightarrow> rc_top s \<noteq> b \<Longrightarrow> race_step s (s\<lparr>rc_owner := OPopEnd (b + 1)\<rparr>)"
| o_pop_end: "rc_owner s = OPopEnd b \<Longrightarrow> race_step s (s\<lparr>rc_bottom := b, rc_owner := OIdle\<rparr>)"
| t_top: "rc_thief s i = TIdle \<Longrightarrow> race_step s (s\<lparr>rc_thief := (rc_thief s)(i := TTop (rc_top s))\<rparr>)"
| t_bottom: "rc_thief s i = TTop t \<Longrightarrow> t < rc_bottom s \<Longrightarrow> race_step s (s\<lparr>rc_thief := (rc_thief s)(i := TBot t)\<rparr>)"
| t_empty: "rc_thief s i = TTop t \<Longrightarrow> \<not> t < rc_bottom s \<Longrightarrow> race_step s (s\<lparr>rc_thief := (rc_thief s)(i := TIdle)\<rparr>)"
| t_ring: "rc_thief s i = TBot t \<Longrightarrow> race_step s (s\<lparr>rc_thief := (rc_thief s)(i := TRing t (rc_cur s))\<rparr>)"
| t_item: "rc_thief s i = TRing t r \<Longrightarrow>
    race_step s (s\<lparr>rc_thief := (rc_thief s)(i := TItem t (ring_get (rc_rings s r) t))\<rparr>)"
| t_refuse: "rc_thief s i = TItem t v \<Longrightarrow> race_step s (s\<lparr>rc_thief := (rc_thief s)(i := TIdle)\<rparr>)"
| t_cas_ok: "rc_thief s i = TItem t v \<Longrightarrow> rc_top s = t \<Longrightarrow>
    race_step s (s\<lparr>rc_top := t + 1, rc_thief := (rc_thief s)(i := TIdle), rc_taken := rc_taken s + {#v#}\<rparr>)"
| t_cas_fail: "rc_thief s i = TItem t v \<Longrightarrow> rc_top s \<noteq> t \<Longrightarrow> race_step s (s\<lparr>rc_thief := (rc_thief s)(i := TIdle)\<rparr>)"

section \<open>The invariant\<close>

text \<open>The logical bottom: while the owner is deciding about the item it has walled off, it still counts.\<close>

definition lbot :: "race \<Rightarrow> nat" where
  "lbot s = (case rc_owner s of OPopping b \<Rightarrow> b + 1 | OPopCas b v \<Rightarrow> b + 1 | OPopEnd e \<Rightarrow> e | _ \<Rightarrow> rc_bottom s)"

definition owner_ok :: "race \<Rightarrow> bool" where
  "owner_ok s \<longleftrightarrow> (case rc_owner s of
      OPush ws t \<Rightarrow> t \<le> rc_top s \<and> rc_bottom s - t \<le> rg_capacity (cur_ring s)
    | OStoring ws k t \<Rightarrow> t \<le> rc_top s \<and> (rc_bottom s + length ws) - t \<le> rg_capacity (cur_ring s) \<and> k \<le> length ws \<and>
        (\<forall>j < k. ring_get (cur_ring s) (rc_bottom s + j) = ws ! j)
    | OPopRead \<Rightarrow> 0 < rc_bottom s
    | OPopping b \<Rightarrow> rc_bottom s = b
    | OPopCas b v \<Rightarrow> rc_bottom s = b \<and> b \<le> rc_top s \<and> v = rc_content s b
    | OPopEnd e \<Rightarrow> rc_bottom s < e \<and> rc_top s = e
    | OIdle \<Rightarrow> True)"

definition thief_ok :: "race \<Rightarrow> thief_pc \<Rightarrow> bool" where
  "thief_ok s p \<longleftrightarrow> (case p of
      TIdle \<Rightarrow> True
    | TTop t \<Rightarrow> t \<le> rc_top s
    | TBot t \<Rightarrow> t \<le> rc_top s \<and> (rc_top s = t \<longrightarrow> t < lbot s)
    | TRing t r \<Rightarrow> t \<le> rc_top s \<and> r \<le> rc_cur s \<and> (rc_top s = t \<longrightarrow> t < lbot s \<and> ring_get (rc_rings s r) t = rc_content s t)
    | TItem t v \<Rightarrow> t \<le> rc_top s \<and> (rc_top s = t \<longrightarrow> t < lbot s \<and> v = rc_content s t))"

definition race_live :: "race \<Rightarrow> u64 list" where
  "race_live s = map (rc_content s) [rc_top s..<lbot s]"

definition race_inv :: "race \<Rightarrow> bool" where
  [inv_defs]: "race_inv s \<longleftrightarrow> pow2 (rg_capacity (cur_ring s)) \<and> rc_top s \<le> lbot s \<and> lbot s - rc_top s \<le> rg_capacity (cur_ring s) \<and>
    rc_bottom s \<le> lbot s \<and> (\<forall>i. rc_top s \<le> i \<longrightarrow> i < lbot s \<longrightarrow> ring_get (cur_ring s) i = rc_content s i) \<and>
    rc_pushed s = rc_taken s + mset (race_live s) \<and> owner_ok s \<and> (\<forall>i. thief_ok s (rc_thief s i))"

lemma thief_ok_mono:
  assumes "thief_ok s p" "rc_top s' = rc_top s" "rc_cur s \<le> rc_cur s'"
    and "rc_top s < lbot s \<Longrightarrow> rc_top s < lbot s' \<and> rc_content s' (rc_top s) = rc_content s (rc_top s)"
    and "\<And>r. rc_top s < lbot s \<Longrightarrow> r \<le> rc_cur s \<Longrightarrow> ring_get (rc_rings s r) (rc_top s) = rc_content s (rc_top s) \<Longrightarrow>
      ring_get (rc_rings s' r) (rc_top s) = rc_content s (rc_top s)"
  shows "thief_ok s' p"
  using assms by (auto simp: thief_ok_def split: thief_pc.splits)

lemma thief_ok_advance:
  assumes "thief_ok s p" "rc_top s' = Suc (rc_top s)" "rc_cur s' = rc_cur s"
  shows "thief_ok s' p"
  using assms by (auto simp: thief_ok_def split: thief_pc.splits)

lemma live_take_top: "rc_top s < lbot s \<Longrightarrow> mset (race_live s) = {#rc_content s (rc_top s)#} + mset (map (rc_content s) [Suc (rc_top s)..<lbot s])"
  by (simp add: race_live_def upt_rec)

lemma live_take_bottom: "rc_top s \<le> b \<Longrightarrow> lbot s = Suc b \<Longrightarrow> mset (race_live s) = mset (map (rc_content s) [rc_top s..<b]) + {#rc_content s b#}"
  by (simp add: race_live_def)

section \<open>Every step keeps it\<close>

lemma race_invD:
  assumes "race_inv s"
  shows "pow2 (rg_capacity (cur_ring s))" "rc_top s \<le> lbot s" "lbot s - rc_top s \<le> rg_capacity (cur_ring s)"
    "rc_bottom s \<le> lbot s" "rc_top s \<le> i \<Longrightarrow> i < lbot s \<Longrightarrow> ring_get (cur_ring s) i = rc_content s i"
    "rc_pushed s = rc_taken s + mset (race_live s)" "owner_ok s" "thief_ok s (rc_thief s j)"
  using assms unfolding race_inv_def by blast+

text \<open>Steps that only move the owner's program counter.\<close>

lemma owner_pc_inv:
  assumes "race_inv s" "lbot (s\<lparr>rc_owner := p\<rparr>) = lbot s" "owner_ok (s\<lparr>rc_owner := p\<rparr>)"
  shows "race_inv (s\<lparr>rc_owner := p\<rparr>)"
proof -
  note D = race_invD [OF assms(1)]
  have "thief_ok (s\<lparr>rc_owner := p\<rparr>) q" if "thief_ok s q" for q
    by (rule thief_ok_mono [OF that]) (use assms(2) in auto)
  then show ?thesis using D assms(2,3) by (auto simp: race_inv_def cur_ring_def race_live_def)
qed

text \<open>Steps that only move one thief's program counter.\<close>

lemma thief_pc_inv:
  assumes "race_inv s" "thief_ok s p"
  shows "race_inv (s\<lparr>rc_thief := (rc_thief s)(i := p)\<rparr>)"
proof -
  let ?s = "s\<lparr>rc_thief := (rc_thief s)(i := p)\<rparr>"
  have l: "lbot ?s = lbot s" by (simp add: lbot_def split: owner_pc.split)
  have "thief_ok ?s q \<longleftrightarrow> thief_ok s q" for q using l by (auto simp: thief_ok_def split: thief_pc.splits)
  moreover have "owner_ok ?s \<longleftrightarrow> owner_ok s" by (simp add: owner_ok_def cur_ring_def split: owner_pc.splits)
  ultimately show ?thesis using assms l by (auto simp: race_inv_def cur_ring_def race_live_def)
qed

lemma thief_idle_inv: "race_inv s \<Longrightarrow> race_inv (s\<lparr>rc_thief := (rc_thief s)(i := TIdle)\<rparr>)"
  by (rule thief_pc_inv) (simp_all add: thief_ok_def)

lemma grow_inv:
  assumes "race_inv s" "rc_owner s = OPush ws t"
  defines "s' \<equiv> s\<lparr>rc_rings := (rc_rings s)(Suc (rc_cur s) :=
        copy_slots (cur_ring s) t (rc_bottom s) (MakeRing (rg_capacity (cur_ring s) * 2))), rc_cur := Suc (rc_cur s)\<rparr>"
  shows "race_inv s'"
proof -
  note D = race_invD [OF assms(1)]
  have o: "t \<le> rc_top s" "rc_bottom s - t \<le> rg_capacity (cur_ring s)" using D(7) assms(2) by (auto simp: owner_ok_def)
  have lb: "lbot s = rc_bottom s" "lbot s' = lbot s" using assms(2) by (auto simp: lbot_def s'_def)
  have cap: "rg_capacity (cur_ring s') = rg_capacity (cur_ring s) * 2" by (simp add: cur_ring_def s'_def MakeRing_def)
  have get: "ring_get (cur_ring s') i = ring_get (cur_ring s) i" if "rc_top s \<le> i" "i < lbot s" for i
  proof -
    have "ring_get (copy_slots (cur_ring s) t (rc_bottom s) (MakeRing (rg_capacity (cur_ring s) * 2))) i = ring_get (cur_ring s) i"
      by (rule copy_slots_get) (use o that lb D(1) in \<open>auto simp: MakeRing_def pow2_double\<close>)
    then show ?thesis by (simp add: cur_ring_def s'_def)
  qed
  have th: "thief_ok s' q" if "thief_ok s q" for q
    by (rule thief_ok_mono [OF that]) (auto simp: s'_def lb(2) [unfolded s'_def])
  have "owner_ok s'" using o assms(2) cap by (auto simp: owner_ok_def s'_def cur_ring_def)
  then show ?thesis using D lb cap get th pow2_double [OF D(1)]
    unfolding race_inv_def race_live_def by (auto simp: s'_def)
qed

lemma store_inv:
  assumes "race_inv s" "rc_owner s = OStoring ws k t" "k < length ws"
  defines "s' \<equiv> s\<lparr>rc_rings := (rc_rings s)(rc_cur s := ring_set (rc_bottom s + k) (ws ! k) (cur_ring s)),
                   rc_owner := OStoring ws (Suc k) t\<rparr>"
  shows "race_inv s'"
proof -
  note D = race_invD [OF assms(1)]
  let ?c = "rg_capacity (cur_ring s)" and ?b = "rc_bottom s"
  have o: "t \<le> rc_top s" "?b + length ws - t \<le> ?c" "\<forall>j < k. ring_get (cur_ring s) (?b + j) = ws ! j"
    using D(7) assms(2) by (auto simp: owner_ok_def)
  have lb: "lbot s = ?b" "lbot s' = lbot s" using assms(2) by (auto simp: lbot_def s'_def)
  have get: "ring_get (cur_ring s') i = (if i mod ?c = (?b + k) mod ?c then ws ! k else ring_get (cur_ring s) i)" for i
    using ring_get_set [OF D(1)] by (simp add: cur_ring_def s'_def)
  have keep: "ring_get (cur_ring s') i = ring_get (cur_ring s) i" if "rc_top s \<le> i" "i < ?b + k" for i
  proof -
    have "?b + k < i + ?c" using that o assms(3) D(2) lb by linarith
    then show ?thesis using get [of i] that(2) mod_neq_of_close [of i "?b + k" ?c] by auto
  qed
  have th: "thief_ok s' q" if "thief_ok s q" for q
  proof (rule thief_ok_mono [OF that])
    fix r assume r: "rc_top s < lbot s" "r \<le> rc_cur s" "ring_get (rc_rings s r) (rc_top s) = rc_content s (rc_top s)"
    then show "ring_get (rc_rings s' r) (rc_top s) = rc_content s (rc_top s)"
      using keep [of "rc_top s"] lb by (cases "r = rc_cur s") (auto simp: s'_def cur_ring_def)
  qed (use lb(2) in \<open>auto simp: s'_def\<close>)
  have "ring_get (cur_ring s') (?b + j) = ws ! j" if "j < Suc k" for j
    using that keep [of "?b + j"] get [of "?b + k"] o(3) D(2) lb by (cases "j = k") auto
  then have "owner_ok s'" using o assms(3) by (auto simp: owner_ok_def s'_def cur_ring_def)
  then show ?thesis using D lb th keep unfolding race_inv_def race_live_def by (auto simp: s'_def cur_ring_def)
qed

lemma publish_inv:
  assumes "race_inv s" "rc_owner s = OStoring ws k t" "k = length ws"
  defines "s' \<equiv> s\<lparr>rc_bottom := rc_bottom s + length ws, rc_owner := OIdle,
                   rc_content := content_after (rc_bottom s) ws (rc_content s), rc_pushed := rc_pushed s + mset ws\<rparr>"
  shows "race_inv s'"
proof -
  note D = race_invD [OF assms(1)]
  let ?b = "rc_bottom s"
  have o: "t \<le> rc_top s" "?b + length ws - t \<le> rg_capacity (cur_ring s)" "\<forall>j < length ws. ring_get (cur_ring s) (?b + j) = ws ! j"
    using D(7) assms(2,3) by (auto simp: owner_ok_def)
  have lb: "lbot s = ?b" "lbot s' = ?b + length ws" using assms(2) by (auto simp: lbot_def s'_def)
  have "map (content_after ?b ws (rc_content s)) [rc_top s..<?b] = race_live s"
    unfolding race_live_def lb by (rule map_cong) (auto simp: content_after_def)
  moreover have "map (content_after ?b ws (rc_content s)) [?b..<?b + length ws] = ws"
    by (rule nth_equalityI) (auto simp: content_after_def)
  ultimately have live: "race_live s' = race_live s @ ws"
    using D(2) lb upt_add_eq_append [of "rc_top s" ?b "length ws"] by (simp add: race_live_def s'_def)
  have th: "thief_ok s' q" if "thief_ok s q" for q
    by (rule thief_ok_mono [OF that]) (use lb in \<open>auto simp: s'_def content_after_def\<close>)
  have "ring_get (cur_ring s) i = content_after ?b ws (rc_content s) i" if "rc_top s \<le> i" "i < ?b + length ws" for i
    using that D(5) [of i] o(3) [rule_format, of "i - ?b"] lb by (auto simp: content_after_def)
  then show ?thesis using D lb th live o unfolding race_inv_def by (auto simp: s'_def cur_ring_def owner_ok_def)
qed

lemma pop_dec_inv:
  assumes "race_inv s" "rc_owner s = OPopRead"
  shows "race_inv (s\<lparr>rc_bottom := rc_bottom s - 1, rc_owner := OPopping (rc_bottom s - 1)\<rparr>)"
proof -
  note D = race_invD [OF assms(1)]
  let ?s = "s\<lparr>rc_bottom := rc_bottom s - 1, rc_owner := OPopping (rc_bottom s - 1)\<rparr>"
  have "0 < rc_bottom s" using D(7) assms(2) by (simp add: owner_ok_def)
  then have lb: "lbot ?s = lbot s" "lbot s = rc_bottom s" using assms(2) by (auto simp: lbot_def)
  have "thief_ok ?s q" if "thief_ok s q" for q by (rule thief_ok_mono [OF that]) (use lb in auto)
  then show ?thesis using D lb unfolding race_inv_def race_live_def by (auto simp: cur_ring_def owner_ok_def)
qed

lemma pop_take_inv:
  assumes "race_inv s" "rc_owner s = OPopping b" "rc_top s < b"
  shows "race_inv (s\<lparr>rc_owner := OIdle, rc_taken := rc_taken s + {#ring_get (cur_ring s) b#}\<rparr>)"
proof -
  note D = race_invD [OF assms(1)]
  let ?s = "s\<lparr>rc_owner := OIdle, rc_taken := rc_taken s + {#ring_get (cur_ring s) b#}\<rparr>"
  have lb: "lbot s = Suc b" "lbot ?s = b" "rc_bottom s = b" using assms(2) D(7) by (auto simp: lbot_def owner_ok_def)
  have "ring_get (cur_ring s) b = rc_content s b" using D(5) [of b] assms(3) lb by simp
  then have m: "rc_pushed ?s = rc_taken ?s + mset (race_live ?s)"
    using D(6) live_take_bottom [of s b] lb assms(3) by (simp add: race_live_def)
  have "thief_ok ?s q" if "thief_ok s q" for q by (rule thief_ok_mono [OF that]) (use lb assms(3) in auto)
  then show ?thesis using D lb m assms(3) unfolding race_inv_def by (auto simp: cur_ring_def owner_ok_def)
qed

lemma owner_cas_inv:
  assumes "race_inv s" "rc_owner s = OPopCas b v" "rc_top s = b"
  shows "race_inv (s\<lparr>rc_top := b + 1, rc_owner := OPopEnd (b + 1), rc_taken := rc_taken s + {#v#}\<rparr>)"
proof -
  note D = race_invD [OF assms(1)]
  let ?s = "s\<lparr>rc_top := b + 1, rc_owner := OPopEnd (b + 1), rc_taken := rc_taken s + {#v#}\<rparr>"
  have lb: "lbot s = Suc b" "lbot ?s = Suc b" and o: "rc_bottom s = b" "v = rc_content s b"
    using assms(2) D(7) by (auto simp: lbot_def owner_ok_def)
  have m: "rc_pushed ?s = rc_taken ?s + mset (race_live ?s)"
    using D(6) live_take_bottom [of s b] lb assms(3) o by (simp add: race_live_def)
  have "thief_ok ?s q" if "thief_ok s q" for q by (rule thief_ok_advance [OF that]) (use assms(3) in auto)
  then show ?thesis using D lb m o unfolding race_inv_def by (auto simp: cur_ring_def owner_ok_def)
qed

lemma thief_cas_inv:
  assumes "race_inv s" "rc_thief s i = TItem t v" "rc_top s = t"
  shows "race_inv (s\<lparr>rc_top := t + 1, rc_thief := (rc_thief s)(i := TIdle), rc_taken := rc_taken s + {#v#}\<rparr>)"
proof -
  note D = race_invD [OF assms(1)]
  let ?s = "s\<lparr>rc_top := t + 1, rc_thief := (rc_thief s)(i := TIdle), rc_taken := rc_taken s + {#v#}\<rparr>"
  have lb: "lbot ?s = lbot s" by (simp add: lbot_def split: owner_pc.split)
  have v: "t < lbot s" "v = rc_content s t" using D(8) [of i] assms(2,3) by (auto simp: thief_ok_def)
  have m: "rc_pushed ?s = rc_taken ?s + mset (race_live ?s)"
    using D(6) live_take_top [of s] v assms(3) lb by (simp add: race_live_def)
  have "thief_ok ?s q" if "thief_ok s q" for q by (rule thief_ok_advance [OF that]) (use assms(3) in auto)
  moreover have "thief_ok ?s TIdle" by (simp add: thief_ok_def)
  moreover have "owner_ok ?s"
    using D(7) v(1) assms(3) by (auto simp: owner_ok_def cur_ring_def lbot_def split: owner_pc.splits)
  ultimately show ?thesis using D lb m v assms(3) unfolding race_inv_def by (auto simp: cur_ring_def)
qed

lemma race_step_inv: "race_step s s' \<Longrightarrow> race_inv s \<Longrightarrow> race_inv s'"
proof (induction rule: race_step.induct)
  case (o_push s ws)
  note D = race_invD [OF o_push(2)]
  show ?case by (rule owner_pc_inv [OF o_push(2)]) (use D o_push(1) in \<open>auto simp: lbot_def owner_ok_def cur_ring_def\<close>)
next
  case (o_fits s ws t)
  note D = race_invD [OF o_fits(3)]
  show ?case by (rule owner_pc_inv [OF o_fits(3)]) (use D o_fits(1,2) in \<open>auto simp: lbot_def owner_ok_def cur_ring_def\<close>)
next
  case (o_pop s)
  show ?case by (rule owner_pc_inv [OF o_pop(3)]) (use o_pop in \<open>auto simp: lbot_def owner_ok_def\<close>)
next
  case (o_pop_last s b)
  note D = race_invD [OF o_pop_last(3)]
  have "ring_get (cur_ring s) b = rc_content s b" using D(5) [of b] o_pop_last(1,2) by (auto simp: lbot_def)
  then show ?case by (intro owner_pc_inv [OF o_pop_last(3)]) (use D o_pop_last(1,2) in \<open>auto simp: lbot_def owner_ok_def\<close>)
next
  case (o_pop_lost s b)
  note D = race_invD [OF o_pop_lost(3)]
  show ?case by (rule owner_pc_inv [OF o_pop_lost(3)]) (use D o_pop_lost(1,2) in \<open>auto simp: lbot_def owner_ok_def\<close>)
next
  case (o_cas_fail s b v)
  note D = race_invD [OF o_cas_fail(3)]
  show ?case by (rule owner_pc_inv [OF o_cas_fail(3)]) (use D o_cas_fail(1,2) in \<open>auto simp: lbot_def owner_ok_def\<close>)
next
  case (o_pop_end s b)
  note D = race_invD [OF o_pop_end(2)]
  let ?s = "s\<lparr>rc_bottom := b, rc_owner := OIdle\<rparr>"
  have lb: "lbot ?s = b" "lbot s = b" using o_pop_end(1) by (auto simp: lbot_def)
  have "thief_ok ?s q" if "thief_ok s q" for q by (rule thief_ok_mono [OF that]) (use lb in auto)
  then show ?case using D lb unfolding race_inv_def race_live_def by (auto simp: cur_ring_def owner_ok_def)
next
  case (t_top s i)
  show ?case by (rule thief_pc_inv [OF t_top(2)]) (simp add: thief_ok_def)
next
  case (t_bottom s i t)
  note D = race_invD [OF t_bottom(3)]
  show ?case by (rule thief_pc_inv [OF t_bottom(3)]) (use D(8) [of i] D(4) t_bottom in \<open>auto simp: thief_ok_def\<close>)
next
  case (t_ring s i t)
  note D = race_invD [OF t_ring(2)]
  show ?case by (rule thief_pc_inv [OF t_ring(2)]) (use D(8) [of i] D(5) [of t] t_ring in \<open>auto simp: thief_ok_def cur_ring_def\<close>)
next
  case (t_item s i t r)
  note D = race_invD [OF t_item(2)]
  show ?case by (rule thief_pc_inv [OF t_item(2)]) (use D(8) [of i] t_item in \<open>auto simp: thief_ok_def\<close>)
qed (blast intro: grow_inv store_inv publish_inv pop_dec_inv pop_take_inv owner_cas_inv thief_cas_inv thief_idle_inv)+

interpretation race_sys: transition_system race_step race_inv
  by unfold_locales (rule race_step_inv)

lemma race_init_inv: "pow2 c \<Longrightarrow> race_inv (race_init c)"
  by (simp add: race_inv_def race_init_def cur_ring_def MakeRing_def lbot_def owner_ok_def thief_ok_def race_live_def)

section \<open>Properties\<close>

text \<open>(C1) Under every interleaving of the owner's pushes (with growth) and pops and any number of thieves,
  each pushed task is taken exactly once or still in the deque: what was pushed equals, as a multiset,
  what was taken plus what the current ring holds between \<open>top\<close> and the logical bottom.\<close>
theorem deque_takes_exactly_once:
  assumes "pow2 c" and "reach race_step (race_init c) s"
  shows "rc_pushed s = rc_taken s + mset (map (ring_get (cur_ring s)) [rc_top s..<lbot s])"
proof -
  have i: "race_inv s" using race_sys.reach_inv [OF assms(2)] race_init_inv [OF assms(1)] by blast
  have "map (ring_get (cur_ring s)) [rc_top s..<lbot s] = race_live s"
    unfolding race_live_def by (rule map_cong) (use race_invD(5) [OF i] in auto)
  then show ?thesis using race_invD(6) [OF i] by simp
qed

lemma reach_more: "reach race_step s0 s \<Longrightarrow> race_step s t \<Longrightarrow> t = u \<Longrightarrow> reach race_step s0 u"
  by (auto intro: reach.reach_step)

theorem deque_takes_exactly_once_witness:
  "\<exists>s. reach race_step (race_init 4) s \<and> rc_taken s = {#8#} \<and> rc_pushed s = {#8#} + mset (map (ring_get (cur_ring s)) [rc_top s..<lbot s])"
proof -
  let ?s0 = "race_init 4"
  define s1 where "s1 = ?s0\<lparr>rc_owner := OPush [8] (rc_top ?s0)\<rparr>"
  define s2 where "s2 = s1\<lparr>rc_owner := OStoring [8] 0 0\<rparr>"
  define s3 where "s3 = s2\<lparr>rc_rings := (rc_rings s2)(rc_cur s2 := ring_set (rc_bottom s2 + 0) ([8] ! 0) (cur_ring s2)), rc_owner := OStoring [8] (Suc 0) 0\<rparr>"
  define s4 where "s4 = s3\<lparr>rc_bottom := rc_bottom s3 + length [8::u64], rc_owner := OIdle,
      rc_content := content_after (rc_bottom s3) [8] (rc_content s3), rc_pushed := rc_pushed s3 + mset [8]\<rparr>"
  define s5 where "s5 = s4\<lparr>rc_thief := (rc_thief s4)(0 := TTop (rc_top s4))\<rparr>"
  define s6 where "s6 = s5\<lparr>rc_thief := (rc_thief s5)(0 := TBot 0)\<rparr>"
  define s7 where "s7 = s6\<lparr>rc_thief := (rc_thief s6)(0 := TRing 0 (rc_cur s6))\<rparr>"
  define s8 where "s8 = s7\<lparr>rc_thief := (rc_thief s7)(0 := TItem 0 (ring_get (rc_rings s7 (rc_cur s6)) 0))\<rparr>"
  define s9 where "s9 = s8\<lparr>rc_top := 0 + 1, rc_thief := (rc_thief s8)(0 := TIdle), rc_taken := rc_taken s8 + {#ring_get (rc_rings s7 (rc_cur s6)) 0#}\<rparr>"
  note defs = s1_def s2_def s3_def s4_def s5_def s6_def s7_def s8_def s9_def race_init_def cur_ring_def MakeRing_def
  have "race_step ?s0 s1" unfolding s1_def by (rule o_push) (simp add: race_init_def)
  moreover have "race_step s1 s2" unfolding s2_def by (rule o_fits) (simp_all add: defs)
  moreover have "race_step s2 s3" unfolding s3_def by (rule o_store) (simp_all add: defs)
  moreover have "race_step s3 s4" unfolding s4_def by (rule o_publish) (simp_all add: defs)
  moreover have "race_step s4 s5" unfolding s5_def by (rule t_top) (simp add: defs)
  moreover have "race_step s5 s6" unfolding s6_def by (rule t_bottom) (simp_all add: defs)
  moreover have "race_step s6 s7" unfolding s7_def by (rule t_ring) (simp add: defs)
  moreover have "race_step s7 s8" unfolding s8_def by (rule t_item) (simp add: defs)
  moreover have "race_step s8 s9" unfolding s9_def by (rule t_cas_ok) (simp_all add: defs)
  ultimately have r: "reach race_step ?s0 s9" by (meson reach.intros)
  have p: "pow2 4" unfolding pow2_def by (rule exI [of _ 2]) simp
  have "rc_taken s9 = {#8#}" by (simp add: defs ring_get_def ring_set_def)
  then show ?thesis using r deque_takes_exactly_once [OF p r] by auto
qed

text \<open>A batch pushed on a deque of any fill level is accepted after finitely many growths or refused
  with a ceiling error; when accepted, thieves get the older tasks and then the batch in order, as the
  exact addresses that were pushed.\<close>
theorem batch_is_stolen_in_order:
  assumes "dq_wf d" and "\<forall>it \<in> set its. aligned it"
  shows "\<exists>res. push_bottom_batch alloc its d = Some res \<and>
    (case res of Inl e \<Rightarrow> e \<in> {CeilingReached, HardCeilingReached, OutOfMemory}
     | Inr d' \<Rightarrow> dq_wf d' \<and> fst (dq.steal_n (length (dq_items d) + length its) d') = map untag (dq_items d) @ map fst its)"
proof -
  obtain res where r: "push_bottom_batch alloc its d = Some res" "\<forall>e. res = Inl e \<longrightarrow> e \<in> grow_errors"
    "\<forall>d'. res = Inr d' \<longrightarrow> dq_wf d' \<and> dq_items d' = dq_items d @ map tag_item its"
    using push_batch_spec [OF assms(1), of alloc its] by blast
  have t: "map (untag \<circ> tag_item) its = map fst its" using assms(2) by (simp add: untag_item)
  show ?thesis
  proof (cases res)
    case (Inl e)
    then show ?thesis using r by (simp add: grow_errors_def)
  next
    case (Inr d')
    then have d': "dq_wf d'" "dq_items d' = dq_items d @ map tag_item its" using r(3) by auto
    from dq.steal_n_spec [OF d'(1), of "length (dq_items d) + length its"] show ?thesis
      using r(1) Inr d' t by auto
  qed
qed

theorem batch_is_stolen_in_order_witness:
  "\<exists>d. new_TaskDeque 2 4 = Inr d \<and> (\<exists>res. push_bottom_batch (\<lambda>_. True) [(16, TFiber), (32, TNative), (48, TCoroutine)] d = Some res \<and>
    (case res of Inl e \<Rightarrow> e \<in> {CeilingReached, HardCeilingReached, OutOfMemory}
     | Inr d' \<Rightarrow> fst (dq.steal_n 3 d') = [16, 32, 48]))"
proof -
  let ?its = "[(16, TFiber), (32, TNative), (48, TCoroutine)]"
  obtain d where d: "new_TaskDeque 2 4 = Inr d" by (simp add: new_TaskDeque_def)
  then have w: "dq_wf d" and e: "dq_items d = []" unfolding new_TaskDeque_def dq_wf_def dq_items_def pow2_def
    by (auto simp: MakeRing_def split: if_splits intro: exI [of _ 1])
  have al: "\<forall>it \<in> set ?its. aligned it" by (simp add: aligned_def)
  have n: "length ([] :: u64 list) + length ?its = 3" by simp
  from batch_is_stolen_in_order [OF w al, of "\<lambda>_. True", unfolded e n] obtain res
    where r: "push_bottom_batch (\<lambda>_. True) ?its d = Some res" and c: "case res of Inl e \<Rightarrow> e \<in> {CeilingReached, HardCeilingReached, OutOfMemory}
      | Inr d' \<Rightarrow> dq_wf d' \<and> fst (dq.steal_n 3 d') = map untag [] @ map fst ?its" by (elim exE conjE)
  from c have "case res of Inl e \<Rightarrow> e \<in> {CeilingReached, HardCeilingReached, OutOfMemory} | Inr d' \<Rightarrow> fst (dq.steal_n 3 d') = [16, 32, 48]"
    by (cases res) (simp_all only: sum.case list.map append_Nil fst_conv)
  with d r show ?thesis by (intro exI [of _ d] conjI exI [of _ res])
qed

text \<open>A thief's vetting sees the real type of the task on top and nothing else: it is decided by the tag
  alone, a refused task stays, an accepted one leaves as the address that was pushed.\<close>
theorem steal_if_vets_by_type:
  assumes "dq_wf d" and "dq_items d = tag_item it # ws" and "aligned it"
  shows "steal_if pred d = (if pred (Some (snd it)) then (Some (fst it), d\<lparr>dq_top := dq_top d + 1\<rparr>) else (None, d))"
proof -
  have lt: "dq_top d < dq_bottom d" using assms(2) by (cases "dq_top d < dq_bottom d") (auto simp: dq_items_def)
  then have "ring_get (dq_ring d) (dq_top d) = tag_item it" using assms(2) by (simp add: dq_items_def upt_rec)
  then show ?thesis using lt assms(3) tag_round_trip [of "fst it" "snd it"]
    by (simp add: steal_if_def Let_def tag_item_def aligned_def)
qed

theorem steal_if_vets_by_type_witness:
  "\<exists>d. new_TaskDeque 2 4 = Inr d \<and> (\<exists>d'. push_bottom (\<lambda>_. True) (Some (16, TNative)) d = Inr d' \<and>
     steal_if (\<lambda>ty. ty = Some TNative) d' = (Some 16, d'\<lparr>dq_top := dq_top d' + 1\<rparr>))"
proof -
  obtain d where d: "new_TaskDeque 2 4 = Inr d" by (simp add: new_TaskDeque_def)
  then have w: "dq_wf d" "dq_items d = []" unfolding new_TaskDeque_def dq_wf_def dq_items_def pow2_def
    by (auto simp: MakeRing_def split: if_splits intro: exI [of _ 1])
  have "\<exists>d'. push_bottom (\<lambda>_. True) (Some (16, TNative)) d = Inr d'"
    using d by (auto simp: push_bottom_def new_TaskDeque_def MakeRing_def Let_def)
  then obtain d' where d': "push_bottom (\<lambda>_. True) (Some (16, TNative)) d = Inr d'" by blast
  then have "dq_wf d'" "dq_items d' = [tag_item (16, TNative)]" using push_bottom_spec [OF w(1) d'] w(2) by auto
  from steal_if_vets_by_type [OF this, of "\<lambda>ty. ty = Some TNative"] d d' show ?thesis by (auto simp: aligned_def)
qed

end
