(* ===== verification/TaskMPSC.thy ===== *)
theory TaskMPSC
  imports JPrelude
begin

text \<open>
  The multi-producer single-consumer inbox (\<^verbatim>\<open>include/TaskMPSCQueue.h\<close>). Nodes are tasks, \<open>mq_next\<close> is
  their \<open>next\<close> field. The first part has the methods run alone; the second part interleaves any number
  of producers (an exchange of \<open>head_\<close>, later the store of the link) with the one consumer, access by
  access.
\<close>

section \<open>The methods\<close>

record mpsc =
  mq_next :: "nat \<Rightarrow> ptr"
  mq_head :: nat
  mq_tail :: nat
  mq_stub :: nat

definition mq_init :: "nat \<Rightarrow> (nat \<Rightarrow> ptr) \<Rightarrow> mpsc" where
  "mq_init mem nx = \<lparr>mq_next = nx(mem := None), mq_head = mem, mq_tail = mem, mq_stub = mem\<rparr>"

definition mq_append :: "nat \<Rightarrow> mpsc \<Rightarrow> mpsc" where
  "mq_append n q =
    (let q1 = q\<lparr>mq_next := (mq_next q)(n := None)\<rparr>; prev = mq_head q1; q2 = q1\<lparr>mq_head := n\<rparr> in
     q2\<lparr>mq_next := (mq_next q2)(prev := Some n)\<rparr>)"

definition mq_push :: "nat \<Rightarrow> mpsc \<Rightarrow> mpsc" where "mq_push task q = mq_append task q"

definition mq_push_batch :: "nat \<Rightarrow> nat \<Rightarrow> mpsc \<Rightarrow> mpsc" where
  "mq_push_batch head_batch tail_batch q =
    (let q1 = q\<lparr>mq_next := (mq_next q)(tail_batch := None)\<rparr>; prev = mq_head q1; q2 = q1\<lparr>mq_head := tail_batch\<rparr> in
     q2\<lparr>mq_next := (mq_next q2)(prev := Some head_batch)\<rparr>)"

definition pop_last :: "mpsc \<Rightarrow> ptr \<times> mpsc" where
  "pop_last q =
    (if mq_tail q \<noteq> mq_head q then (None, q)
     else
      (let q1 = mq_append (mq_stub q) q in
       case mq_next q1 (mq_tail q1) of
         Some next \<Rightarrow> (Some (mq_tail q1), q1\<lparr>mq_tail := next\<rparr>)
       | None \<Rightarrow> (None, q1)))"

definition mq_pop :: "mpsc \<Rightarrow> ptr \<times> mpsc" where
  "mq_pop q =
    (case mq_next q (mq_tail q) of
       None \<Rightarrow> if mq_tail q = mq_stub q then (None, q) else pop_last q
     | Some next \<Rightarrow>
         (if mq_tail q = mq_stub q then
            (let q1 = q\<lparr>mq_tail := next\<rparr> in
             case mq_next q1 next of
               Some next2 \<Rightarrow> (Some next, q1\<lparr>mq_tail := next2\<rparr>)
             | None \<Rightarrow> pop_last q1)
          else (Some (mq_tail q), q\<lparr>mq_tail := next\<rparr>)))"

partial_function (option) mq_clear :: "mpsc \<Rightarrow> mpsc option" where
  "mq_clear q = (case mq_pop q of (None, q1) \<Rightarrow> Some q1 | (Some t, q1) \<Rightarrow> mq_clear q1)"

definition mq_empty :: "mpsc \<Rightarrow> bool" where
  "mq_empty q \<longleftrightarrow> mq_tail q = mq_stub q \<and> mq_next q (mq_tail q) = None"

definition mq_quiescent :: "mpsc \<Rightarrow> bool" where
  "mq_quiescent q \<longleftrightarrow>
    (if mq_tail q \<noteq> mq_stub q then False
     else if mq_next q (mq_tail q) \<noteq> None then False
     else mq_head q = mq_tail q)"

section \<open>Producers and consumer, interleaved\<close>

datatype prod_pc = PIdle | PLink nat nat
datatype cons_pc = CIdle | CAfterStub | CHead | CXchg | CLink nat | CReload

record mpsc_run =
  mr_q :: mpsc
  mr_prod :: "nat \<Rightarrow> prod_pc"
  mr_cons :: cons_pc
  mr_chain :: "nat list"
  mr_pushed :: "nat list"
  mr_popped :: "nat list"

definition run_init :: "nat \<Rightarrow> (nat \<Rightarrow> ptr) \<Rightarrow> mpsc_run" where
  "run_init mem nx = \<lparr>mr_q = mq_init mem nx, mr_prod = (\<lambda>_. PIdle), mr_cons = CIdle, mr_chain = [mem],
     mr_pushed = [], mr_popped = []\<rparr>"

text \<open>\<open>advance\<close> is the consumer's private store of \<open>tail_\<close>; the ghost chain is the sequence of nodes from
  \<open>tail_\<close> on, in the order their exchanges happened.\<close>

definition advance :: "nat \<Rightarrow> mpsc_run \<Rightarrow> mpsc_run" where
  "advance x s = s\<lparr>mr_q := (mr_q s)\<lparr>mq_tail := x\<rparr>, mr_chain := tl (mr_chain s)\<rparr>"

definition pop_out :: "nat \<Rightarrow> mpsc_run \<Rightarrow> mpsc_run" where
  "pop_out x s = (advance x s)\<lparr>mr_cons := CIdle, mr_popped := mr_popped s @ [mq_tail (mr_q s)]\<rparr>"

inductive mpsc_step :: "mpsc_run \<Rightarrow> mpsc_run \<Rightarrow> bool" where
  p_xchg: "mr_prod s p = PIdle \<Longrightarrow> ns \<noteq> [] \<Longrightarrow> distinct ns \<Longrightarrow> set ns \<inter> set (mr_chain s) = {} \<Longrightarrow> mq_stub (mr_q s) \<notin> set ns \<Longrightarrow>
    nx = (mq_next (mr_q s))(last ns := None) \<Longrightarrow> chain nx (Some (hd ns)) ns None \<Longrightarrow>
    mpsc_step s (s\<lparr>mr_q := (mr_q s)\<lparr>mq_next := nx, mq_head := last ns\<rparr>,
      mr_prod := (mr_prod s)(p := PLink (mq_head (mr_q s)) (hd ns)),
      mr_chain := mr_chain s @ ns, mr_pushed := mr_pushed s @ ns\<rparr>)"
| p_link: "mr_prod s p = PLink a b \<Longrightarrow>
    mpsc_step s (s\<lparr>mr_q := (mr_q s)\<lparr>mq_next := (mq_next (mr_q s))(a := Some b)\<rparr>, mr_prod := (mr_prod s)(p := PIdle)\<rparr>)"
| c_nothing: "mr_cons s = CIdle \<Longrightarrow> mq_tail (mr_q s) = mq_stub (mr_q s) \<Longrightarrow> mq_next (mr_q s) (mq_tail (mr_q s)) = None \<Longrightarrow>
    mpsc_step s s"
| c_stub: "mr_cons s = CIdle \<Longrightarrow> mq_tail (mr_q s) = mq_stub (mr_q s) \<Longrightarrow> mq_next (mr_q s) (mq_tail (mr_q s)) = Some x \<Longrightarrow>
    mpsc_step s ((advance x s)\<lparr>mr_cons := CAfterStub\<rparr>)"
| c_take: "mr_cons s = CIdle \<and> mq_tail (mr_q s) \<noteq> mq_stub (mr_q s) \<or> mr_cons s = CAfterStub \<or> mr_cons s = CReload \<Longrightarrow>
    mq_next (mr_q s) (mq_tail (mr_q s)) = Some x \<Longrightarrow> mpsc_step s (pop_out x s)"
| c_end: "mr_cons s = CIdle \<and> mq_tail (mr_q s) \<noteq> mq_stub (mr_q s) \<or> mr_cons s = CAfterStub \<Longrightarrow>
    mq_next (mr_q s) (mq_tail (mr_q s)) = None \<Longrightarrow> mpsc_step s (s\<lparr>mr_cons := CHead\<rparr>)"
| c_busy: "mr_cons s = CHead \<Longrightarrow> mq_tail (mr_q s) \<noteq> mq_head (mr_q s) \<Longrightarrow> mpsc_step s (s\<lparr>mr_cons := CIdle\<rparr>)"
| c_alone: "mr_cons s = CHead \<Longrightarrow> mq_tail (mr_q s) = mq_head (mr_q s) \<Longrightarrow> mpsc_step s (s\<lparr>mr_cons := CXchg\<rparr>)"
| c_xchg: "mr_cons s = CXchg \<Longrightarrow>
    mpsc_step s (s\<lparr>mr_q := (mr_q s)\<lparr>mq_next := (mq_next (mr_q s))(mq_stub (mr_q s) := None), mq_head := mq_stub (mr_q s)\<rparr>,
      mr_cons := CLink (mq_head (mr_q s)), mr_chain := mr_chain s @ [mq_stub (mr_q s)]\<rparr>)"
| c_link: "mr_cons s = CLink a \<Longrightarrow>
    mpsc_step s (s\<lparr>mr_q := (mr_q s)\<lparr>mq_next := (mq_next (mr_q s))(a := Some (mq_stub (mr_q s)))\<rparr>, mr_cons := CReload\<rparr>)"
| c_retry: "mr_cons s = CReload \<Longrightarrow> mq_next (mr_q s) (mq_tail (mr_q s)) = None \<Longrightarrow> mpsc_step s (s\<lparr>mr_cons := CIdle\<rparr>)"

section \<open>Consecutive nodes\<close>

definition pairs :: "'a list \<Rightarrow> ('a \<times> 'a) set" where
  "pairs xs = set (zip xs (tl xs))"

lemma pairs_simps [simp]: "pairs [] = {}" "pairs [x] = {}" "pairs (x # y # ys) = insert (x, y) (pairs (y # ys))"
  by (auto simp: pairs_def)

lemma pairs_append: "xs \<noteq> [] \<Longrightarrow> ys \<noteq> [] \<Longrightarrow> pairs (xs @ ys) = pairs xs \<union> {(last xs, hd ys)} \<union> pairs ys"
proof (induction xs)
  case (Cons x xs)
  then show ?case by (cases xs; cases ys) auto
qed simp

lemma pairs_mem: "(a, b) \<in> pairs xs \<Longrightarrow> a \<in> set xs \<and> b \<in> set xs \<and> (distinct xs \<longrightarrow> a \<noteq> last xs \<and> b \<noteq> hd xs)"
proof (induction xs)
  case (Cons x xs)
  then show ?case by (cases xs) auto
qed simp

lemma pairs_tl: "xs \<noteq> [] \<Longrightarrow> tl xs \<noteq> [] \<Longrightarrow> pairs xs = insert (hd xs, hd (tl xs)) (pairs (tl xs))"
  by (cases xs; cases "tl xs") auto

lemma pairs_functional: "distinct xs \<Longrightarrow> (a, b) \<in> pairs xs \<Longrightarrow> (a, c) \<in> pairs xs \<Longrightarrow> b = c"
proof (induction xs)
  case (Cons x xs)
  then show ?case by (cases xs) (auto dest: pairs_mem)
qed simp

lemma chain_pairs: "chain nx (Some (hd ns)) ns None \<Longrightarrow> ns \<noteq> [] \<Longrightarrow> (\<forall>(a, b) \<in> pairs ns. nx a = Some b) \<and> nx (last ns) = None"
proof (induction ns)
  case (Cons n ns)
  show ?case
  proof (cases ns)
    case Nil
    then show ?thesis using Cons.prems by simp
  next
    case (Cons m ms)
    then have "chain nx (Some (hd ns)) ns None" "nx n = Some m" using Cons.prems by auto
    then show ?thesis using Cons.IH Cons by auto
  qed
qed simp

section \<open>The invariant\<close>

definition pend :: "mpsc_run \<Rightarrow> nat \<Rightarrow> nat \<Rightarrow> bool" where
  "pend s a b \<longleftrightarrow> (\<exists>p. mr_prod s p = PLink a b) \<or> (mr_cons s = CLink a \<and> b = mq_stub (mr_q s))"

definition links_ok :: "mpsc_run \<Rightarrow> bool" where
  "links_ok s \<longleftrightarrow>
    (\<forall>a b. (a, b) \<in> pairs (mr_chain s) \<longrightarrow> mq_next (mr_q s) a = Some b \<or> mq_next (mr_q s) a = None \<and> pend s a b) \<and>
    (\<forall>a b. pend s a b \<longrightarrow> (a, b) \<in> pairs (mr_chain s) \<and> mq_next (mr_q s) a = None) \<and>
    (\<forall>p q a b c. mr_prod s p = PLink a b \<longrightarrow> mr_prod s q = PLink a c \<longrightarrow> p = q) \<and>
    (\<forall>p a b. mr_prod s p = PLink a b \<longrightarrow> mr_cons s \<noteq> CLink a)"

definition ends_ok :: "mpsc_run \<Rightarrow> bool" where
  "ends_ok s \<longleftrightarrow> mr_chain s \<noteq> [] \<and> distinct (mr_chain s) \<and> hd (mr_chain s) = mq_tail (mr_q s) \<and>
    last (mr_chain s) = mq_head (mr_q s) \<and> mq_next (mr_q s) (mq_head (mr_q s)) = None"

definition cons_ok :: "mpsc_run \<Rightarrow> bool" where
  "cons_ok s \<longleftrightarrow>
    (mr_cons s \<in> {CAfterStub, CXchg} \<longrightarrow> mq_stub (mr_q s) \<notin> set (mr_chain s)) \<and>
    (mr_cons s \<noteq> CIdle \<longrightarrow> mq_tail (mr_q s) \<noteq> mq_stub (mr_q s))"

definition fifo_ok :: "mpsc_run \<Rightarrow> bool" where
  "fifo_ok s \<longleftrightarrow> mr_pushed s = mr_popped s @ filter (\<lambda>n. n \<noteq> mq_stub (mr_q s)) (mr_chain s)"

definition mpsc_inv :: "mpsc_run \<Rightarrow> bool" where
  [inv_defs]: "mpsc_inv s \<longleftrightarrow> links_ok s \<and> ends_ok s \<and> cons_ok s \<and> fifo_ok s"

lemma invD:
  assumes "mpsc_inv s"
  shows "(a, b) \<in> pairs (mr_chain s) \<Longrightarrow> mq_next (mr_q s) a = Some b \<or> mq_next (mr_q s) a = None \<and> pend s a b"
    "pend s a b \<Longrightarrow> (a, b) \<in> pairs (mr_chain s)" "pend s a b \<Longrightarrow> mq_next (mr_q s) a = None"
    "mr_prod s p = PLink a b \<Longrightarrow> mr_prod s q = PLink a c \<Longrightarrow> p = q" "mr_prod s p = PLink a b \<Longrightarrow> mr_cons s \<noteq> CLink a"
    "mr_chain s \<noteq> []" "distinct (mr_chain s)" "hd (mr_chain s) = mq_tail (mr_q s)" "last (mr_chain s) = mq_head (mr_q s)"
    "mq_next (mr_q s) (mq_head (mr_q s)) = None"
    "mr_cons s \<in> {CAfterStub, CXchg} \<Longrightarrow> mq_stub (mr_q s) \<notin> set (mr_chain s)"
    "mr_cons s \<noteq> CIdle \<Longrightarrow> mq_tail (mr_q s) \<noteq> mq_stub (mr_q s)"
    "mr_pushed s = mr_popped s @ filter (\<lambda>n. n \<noteq> mq_stub (mr_q s)) (mr_chain s)"
  using assms unfolding mpsc_inv_def links_ok_def ends_ok_def cons_ok_def fifo_ok_def by blast+

lemma pend_not_head: "mpsc_inv s \<Longrightarrow> pend s a b \<Longrightarrow> a \<noteq> mq_head (mr_q s) \<and> a \<in> set (mr_chain s)"
  using invD(2,7,9) [of s] pairs_mem [of a b "mr_chain s"] by metis

text \<open>An exchange of \<open>head_\<close> appends the nodes to the chain and leaves one link pending.\<close>

lemma xchg_inv:
  assumes "mpsc_inv s" "ns \<noteq> []" "distinct ns" "set ns \<inter> set (mr_chain s) = {}"
    "nx = (mq_next (mr_q s))(last ns := None)" "chain nx (Some (hd ns)) ns None"
    "mr_q s' = (mr_q s)\<lparr>mq_next := nx, mq_head := last ns\<rparr>" "mr_chain s' = mr_chain s @ ns"
    "\<And>a b. pend s' a b \<longleftrightarrow> pend s a b \<or> a = mq_head (mr_q s) \<and> b = hd ns"
    "\<And>p q a b c. mr_prod s' p = PLink a b \<Longrightarrow> mr_prod s' q = PLink a c \<Longrightarrow> p = q"
    "\<And>p a b. mr_prod s' p = PLink a b \<Longrightarrow> mr_cons s' \<noteq> CLink a"
  shows "links_ok s' \<and> ends_ok s'"
proof -
  note D = invD [OF assms(1)]
  have "last ns \<in> set ns" using assms(2) by simp
  have fr: "mq_next (mr_q s') a = mq_next (mr_q s) a" if "a \<in> set (mr_chain s)" for a
  proof -
    have "a \<noteq> last ns" using that assms(4) \<open>last ns \<in> set ns\<close> by blast
    then show ?thesis using assms(5,7) by simp
  qed
  have pr: "pairs (mr_chain s') = pairs (mr_chain s) \<union> {(mq_head (mr_q s), hd ns)} \<union> pairs ns"
    using pairs_append [OF D(6) assms(2)] D(9) assms(8) by simp
  note C = chain_pairs [OF assms(6,2)]
  have h: "mq_head (mr_q s) \<in> set (mr_chain s)" using D(6,9) last_in_set by metis
  have "mq_next (mr_q s') a = Some b \<or> mq_next (mr_q s') a = None \<and> pend s' a b" if ab: "(a, b) \<in> pairs (mr_chain s')" for a b
  proof -
    consider "(a, b) \<in> pairs (mr_chain s)" | "(a, b) = (mq_head (mr_q s), hd ns)" | "(a, b) \<in> pairs ns"
      using ab pr by auto
    then show ?thesis
    proof cases
      case 1
      then show ?thesis using D(1) [OF 1] fr [of a] pairs_mem [OF 1] assms(9) by auto
    next
      case 2
      then show ?thesis using D(10) fr [OF h] assms(9) by auto
    next
      case 3
      then show ?thesis using C assms(7) by auto
    qed
  qed
  moreover have "(a, b) \<in> pairs (mr_chain s') \<and> mq_next (mr_q s') a = None" if "pend s' a b" for a b
  proof (cases "pend s a b")
    case True
    then show ?thesis using D(2,3) [OF True] pr fr [of a] pend_not_head [OF assms(1) True] by auto
  next
    case False
    then show ?thesis using that assms(9) pr D(10) fr [OF h] by auto
  qed
  ultimately have "links_ok s'" using assms(10,11) unfolding links_ok_def by blast
  moreover have "ends_ok s'"
    using D(6-8) assms(2,3,4,7,8) C by (auto simp: ends_ok_def)
  ultimately show ?thesis by blast
qed

text \<open>The store of a pending link.\<close>

lemma link_inv:
  assumes "mpsc_inv s" "pend s a b" "mr_q s' = (mr_q s)\<lparr>mq_next := (mq_next (mr_q s))(a := Some b)\<rparr>" "mr_chain s' = mr_chain s"
    "\<And>x y. pend s' x y \<longleftrightarrow> pend s x y \<and> x \<noteq> a"
    "\<And>p q a b c. mr_prod s' p = PLink a b \<Longrightarrow> mr_prod s' q = PLink a c \<Longrightarrow> p = q"
    "\<And>p a b. mr_prod s' p = PLink a b \<Longrightarrow> mr_cons s' \<noteq> CLink a"
  shows "links_ok s' \<and> ends_ok s'"
proof -
  note D = invD [OF assms(1)]
  have a: "(a, b) \<in> pairs (mr_chain s)" "a \<noteq> mq_head (mr_q s)" using D(2) [OF assms(2)] pend_not_head [OF assms(1,2)] by auto
  have "mq_next (mr_q s') x = Some y \<or> mq_next (mr_q s') x = None \<and> pend s' x y" if "(x, y) \<in> pairs (mr_chain s')" for x y
    using D(1) [of x y] that assms(3-5) pairs_functional [OF D(7) a(1), of y] by (cases "x = a") auto
  moreover have "(x, y) \<in> pairs (mr_chain s') \<and> mq_next (mr_q s') x = None" if "pend s' x y" for x y
    using that D(2,3) [of x y] assms(3-5) by auto
  ultimately have "links_ok s'" using assms(6,7) unfolding links_ok_def by blast
  moreover have "ends_ok s'" using D(6-10) a(2) assms(3,4) by (auto simp: ends_ok_def)
  ultimately show ?thesis by blast
qed

text \<open>The consumer's move past a node whose link is stored.\<close>

lemma advance_inv:
  assumes "mpsc_inv s" "mq_next (mr_q s) (mq_tail (mr_q s)) = Some x"
    "mr_q s' = (mr_q s)\<lparr>mq_tail := x\<rparr>" "mr_chain s' = tl (mr_chain s)" "mr_prod s' = mr_prod s"
    "\<And>a. mr_cons s \<noteq> CLink a" "\<And>a. mr_cons s' \<noteq> CLink a"
  shows "links_ok s' \<and> ends_ok s'" and "tl (mr_chain s) \<noteq> []"
proof -
  note D = invD [OF assms(1)]
  show tl: "tl (mr_chain s) \<noteq> []"
  proof
    assume "tl (mr_chain s) = []"
    then have "hd (mr_chain s) = last (mr_chain s)" using D(6) by (cases "mr_chain s") auto
    then show False using D(8-10) assms(2) by simp
  qed
  have pr: "pairs (mr_chain s) = insert (mq_tail (mr_q s), hd (tl (mr_chain s))) (pairs (mr_chain s'))"
    using pairs_tl [OF D(6) tl] D(8) assms(4) by simp
  then have x: "x = hd (tl (mr_chain s))" using D(1) [of "mq_tail (mr_q s)" "hd (tl (mr_chain s))"] assms(2) by auto
  have pe: "pend s' a b = pend s a b" for a b using assms(3,5-7) by (simp add: pend_def)
  have "(a, b) \<in> pairs (mr_chain s')" if "pend s a b" for a b
    using D(2,3) [OF that] pr assms(2) by auto
  then have "links_ok s'" unfolding links_ok_def using D(1,3,4) assms(3,5,7) pr pe by auto
  moreover have "ends_ok s'" using D(6-10) tl x assms(3,4) by (cases "mr_chain s") (auto simp: ends_ok_def distinct_tl last_tl)
  ultimately show "links_ok s' \<and> ends_ok s'" by blast
qed

section \<open>Every step keeps the invariant\<close>

lemma ex_upd_link:
  "f p = PIdle \<Longrightarrow> (\<exists>q. (f(p := PLink c d)) q = PLink a b) \<longleftrightarrow> (\<exists>q. f q = PLink a b) \<or> (a = c \<and> b = d)"
  by (metis fun_upd_apply prod_pc.distinct(1) prod_pc.inject)

lemma ex_upd_idle: "(\<exists>q. (f(p := PIdle)) q = PLink a b) \<longleftrightarrow> (\<exists>q. q \<noteq> p \<and> f q = PLink a b)"
  by (metis fun_upd_apply prod_pc.distinct(1))

lemma p_xchg_inv:
  assumes i: "mpsc_inv s" and p: "mr_prod s p = PIdle" and ns: "ns \<noteq> []" "distinct ns" "set ns \<inter> set (mr_chain s) = {}"
    and stub: "mq_stub (mr_q s) \<notin> set ns"
    and nx: "nx = (mq_next (mr_q s))(last ns := None)" "chain nx (Some (hd ns)) ns None"
  shows "mpsc_inv (s\<lparr>mr_q := (mr_q s)\<lparr>mq_next := nx, mq_head := last ns\<rparr>,
      mr_prod := (mr_prod s)(p := PLink (mq_head (mr_q s)) (hd ns)),
      mr_chain := mr_chain s @ ns, mr_pushed := mr_pushed s @ ns\<rparr>)" (is "mpsc_inv ?t")
proof -
  note D = invD [OF i]
  have nl: "mr_prod s q \<noteq> PLink (mq_head (mr_q s)) b" "mr_cons s \<noteq> CLink (mq_head (mr_q s))" for q b
    using pend_not_head [OF i] by (auto simp: pend_def)
  have "links_ok ?t \<and> ends_ok ?t"
  proof (rule xchg_inv [OF i ns nx])
    show "pend ?t a b \<longleftrightarrow> pend s a b \<or> a = mq_head (mr_q s) \<and> b = hd ns" for a b
      using ex_upd_link [of "mr_prod s", OF p] by (auto simp: pend_def simp del: fun_upd_apply)
    show "q = r" if "mr_prod ?t q = PLink a b" "mr_prod ?t r = PLink a c" for q r a b c
      using that D(4) [of q a b r c] nl by (auto split: if_splits)
    show "mr_cons ?t \<noteq> CLink a" if "mr_prod ?t q = PLink a b" for q a b
      using that D(5) nl by (auto split: if_splits)
  qed simp_all
  moreover have "cons_ok ?t" using D(11,12) stub by (simp add: cons_ok_def)
  moreover have "fifo_ok ?t"
  proof -
    have "filter (\<lambda>n. n \<noteq> mq_stub (mr_q s)) ns = ns" by (rule filter_notin_id [OF stub])
    then show ?thesis using D(13) by (simp add: fifo_ok_def)
  qed
  ultimately show ?thesis by (simp add: mpsc_inv_def)
qed

lemma p_link_inv:
  assumes i: "mpsc_inv s" and p: "mr_prod s p = PLink a b"
  shows "mpsc_inv (s\<lparr>mr_q := (mr_q s)\<lparr>mq_next := (mq_next (mr_q s))(a := Some b)\<rparr>, mr_prod := (mr_prod s)(p := PIdle)\<rparr>)"
    (is "mpsc_inv ?t")
proof -
  note D = invD [OF i]
  have pe: "pend s a b" using p by (auto simp: pend_def)
  have "links_ok ?t \<and> ends_ok ?t"
  proof (rule link_inv [OF i pe])
    show "pend ?t x y \<longleftrightarrow> pend s x y \<and> x \<noteq> a" for x y
    proof -
      have "(\<exists>q. q \<noteq> p \<and> mr_prod s q = PLink x y) \<longleftrightarrow> (\<exists>q. mr_prod s q = PLink x y) \<and> x \<noteq> a"
        using p D(4) [OF p] by (metis prod_pc.inject)
      then show ?thesis using D(5) [OF p] ex_upd_idle [of "mr_prod s"] by (auto simp: pend_def simp del: fun_upd_apply)
    qed
    show "q = r" if "mr_prod ?t q = PLink x y" "mr_prod ?t r = PLink x z" for q r x y z
      using that D(4) [of q x y r z] by (auto split: if_splits)
    show "mr_cons ?t \<noteq> CLink x" if "mr_prod ?t q = PLink x y" for q x y
      using that D(5) by (auto split: if_splits)
  qed simp_all
  moreover have "cons_ok ?t" using D(11,12) by (simp add: cons_ok_def)
  moreover have "fifo_ok ?t" using D(13) by (simp add: fifo_ok_def)
  ultimately show ?thesis by (simp add: mpsc_inv_def)
qed

lemma hd_chain_pop:
  assumes "mpsc_inv s"
  shows "mr_chain s = mq_tail (mr_q s) # tl (mr_chain s)"
  using invD(6,8) [OF assms] by (cases "mr_chain s") auto

lemma c_stub_inv:
  assumes i: "mpsc_inv s" and c: "mr_cons s = CIdle" "mq_tail (mr_q s) = mq_stub (mr_q s)" "mq_next (mr_q s) (mq_tail (mr_q s)) = Some x"
  shows "mpsc_inv ((advance x s)\<lparr>mr_cons := CAfterStub\<rparr>)" (is "mpsc_inv ?t")
proof -
  note D = invD [OF i]
  have l: "links_ok ?t \<and> ends_ok ?t"
    by (rule advance_inv(1) [OF i c(3)]) (simp_all add: advance_def c)
  note ch = hd_chain_pop [OF i]
  have st: "mq_stub (mr_q s) \<notin> set (tl (mr_chain s))" using D(7) ch c(2) by (metis distinct.simps(2))
  have "mq_tail (mr_q ?t) \<in> set (mr_chain ?t)" using l unfolding ends_ok_def by (metis hd_in_set)
  then have "cons_ok ?t" using st by (auto simp: cons_ok_def advance_def)
  moreover have "fifo_ok ?t" using D(13) c(2) by (subst (asm) ch) (simp add: fifo_ok_def advance_def)
  ultimately show ?thesis using l by (simp add: mpsc_inv_def)
qed

lemma c_take_inv:
  assumes i: "mpsc_inv s" and c: "mr_cons s = CIdle \<and> mq_tail (mr_q s) \<noteq> mq_stub (mr_q s) \<or> mr_cons s = CAfterStub \<or> mr_cons s = CReload"
    and n: "mq_next (mr_q s) (mq_tail (mr_q s)) = Some x"
  shows "mpsc_inv (pop_out x s)"
proof -
  note D = invD [OF i]
  have l: "links_ok (pop_out x s) \<and> ends_ok (pop_out x s)"
    by (rule advance_inv(1) [OF i n]) (use c in \<open>auto simp: pop_out_def advance_def\<close>)
  have "mq_tail (mr_q s) \<noteq> mq_stub (mr_q s)" using c D(12) by auto
  then have "fifo_ok (pop_out x s)"
    using D(13) by (subst (asm) hd_chain_pop [OF i]) (simp add: fifo_ok_def pop_out_def advance_def)
  moreover have "cons_ok (pop_out x s)" by (simp add: cons_ok_def pop_out_def)
  ultimately show ?thesis using l by (simp add: mpsc_inv_def)
qed

text \<open>A step that only moves the consumer's program point keeps everything but \<open>cons_ok\<close>.\<close>

lemma cons_move_inv:
  assumes i: "mpsc_inv s" and nl: "\<And>a. mr_cons s \<noteq> CLink a" "\<And>a. c \<noteq> CLink a"
    and ok: "c \<in> {CAfterStub, CXchg} \<longrightarrow> mq_stub (mr_q s) \<notin> set (mr_chain s)" "c \<noteq> CIdle \<longrightarrow> mq_tail (mr_q s) \<noteq> mq_stub (mr_q s)"
  shows "mpsc_inv (s\<lparr>mr_cons := c\<rparr>)"
proof -
  have pe: "pend (s\<lparr>mr_cons := c\<rparr>) = pend s" using nl by (auto simp: pend_def fun_eq_iff)
  show ?thesis using i ok nl(2)
    unfolding mpsc_inv_def links_ok_def ends_ok_def cons_ok_def fifo_ok_def pe by simp
qed

lemma c_xchg_inv:
  assumes i: "mpsc_inv s" and c: "mr_cons s = CXchg"
  shows "mpsc_inv (s\<lparr>mr_q := (mr_q s)\<lparr>mq_next := (mq_next (mr_q s))(mq_stub (mr_q s) := None), mq_head := mq_stub (mr_q s)\<rparr>,
      mr_cons := CLink (mq_head (mr_q s)), mr_chain := mr_chain s @ [mq_stub (mr_q s)]\<rparr>)" (is "mpsc_inv ?t")
proof -
  note D = invD [OF i]
  have st: "mq_stub (mr_q s) \<notin> set (mr_chain s)" using D(11) c by simp
  have "links_ok ?t \<and> ends_ok ?t"
  proof (rule xchg_inv [OF i, where ns = "[mq_stub (mr_q s)]" and nx = "(mq_next (mr_q s))(mq_stub (mr_q s) := None)"])
    show "pend ?t a b \<longleftrightarrow> pend s a b \<or> a = mq_head (mr_q s) \<and> b = hd [mq_stub (mr_q s)]" for a b
      using c by (auto simp: pend_def)
    show "q = r" if "mr_prod ?t q = PLink x y" "mr_prod ?t r = PLink x z" for q r x y z
      using that D(4) [of q x y r z] by simp
    show "mr_cons ?t \<noteq> CLink x" if "mr_prod ?t q = PLink x y" for q x y
      using that pend_not_head [OF i, of x y] by (auto simp: pend_def)
  qed (use st in simp_all)
  moreover have "cons_ok ?t" using D(12) c by (simp add: cons_ok_def)
  moreover have "fifo_ok ?t" using D(13) by (simp add: fifo_ok_def)
  ultimately show ?thesis by (simp add: mpsc_inv_def)
qed

lemma c_link_inv:
  assumes i: "mpsc_inv s" and c: "mr_cons s = CLink a"
  shows "mpsc_inv (s\<lparr>mr_q := (mr_q s)\<lparr>mq_next := (mq_next (mr_q s))(a := Some (mq_stub (mr_q s)))\<rparr>, mr_cons := CReload\<rparr>)"
    (is "mpsc_inv ?t")
proof -
  note D = invD [OF i]
  have pe: "pend s a (mq_stub (mr_q s))" using c by (auto simp: pend_def)
  have "links_ok ?t \<and> ends_ok ?t"
  proof (rule link_inv [OF i pe])
    show "pend ?t x y \<longleftrightarrow> pend s x y \<and> x \<noteq> a" for x y
      using c D(5) [of _ x y] by (auto simp: pend_def)
    show "q = r" if "mr_prod ?t q = PLink x y" "mr_prod ?t r = PLink x z" for q r x y z
      using that D(4) [of q x y r z] by simp
  qed simp_all
  moreover have "cons_ok ?t" using D(12) c by (simp add: cons_ok_def)
  moreover have "fifo_ok ?t" using D(13) by (simp add: fifo_ok_def)
  ultimately show ?thesis by (simp add: mpsc_inv_def)
qed

lemma alone_chain:
  assumes "mpsc_inv s" "mq_tail (mr_q s) = mq_head (mr_q s)"
  shows "mr_chain s = [mq_tail (mr_q s)]"
proof -
  note D = invD [OF assms(1)]
  have "tl (mr_chain s) = []"
  proof (rule ccontr)
    assume "tl (mr_chain s) \<noteq> []"
    then have "last (mr_chain s) \<in> set (tl (mr_chain s))" using last_tl [of "mr_chain s"] last_in_set by metis
    moreover have "hd (mr_chain s) \<notin> set (tl (mr_chain s))" using D(6,7) by (cases "mr_chain s") auto
    ultimately show False using D(8,9) assms(2) by simp
  qed
  then show ?thesis using hd_chain_pop [OF assms(1)] by simp
qed

lemma mpsc_step_inv: "mpsc_step s t \<Longrightarrow> mpsc_inv s \<Longrightarrow> mpsc_inv t"
proof (induction rule: mpsc_step.induct)
  case (c_end s)
  then show ?case by (intro cons_move_inv) (auto simp: invD(12))
next
  case (c_alone s)
  then show ?case using alone_chain [of s] invD(12) [of s] by (intro cons_move_inv) auto
next
  case (c_busy s)
  then show ?case by (intro cons_move_inv) auto
next
  case (c_retry s)
  then show ?case by (intro cons_move_inv) auto
qed (blast intro: p_xchg_inv p_link_inv c_stub_inv c_take_inv c_xchg_inv c_link_inv)+

interpretation mpsc_runs: transition_system mpsc_step mpsc_inv
  by unfold_locales (rule mpsc_step_inv)

lemma run_init_inv: "mpsc_inv (run_init mem nx)"
  by (simp add: mpsc_inv_def links_ok_def ends_ok_def cons_ok_def fifo_ok_def run_init_def mq_init_def pend_def)

section \<open>The methods alone, as a queue of tasks\<close>

text \<open>With every link stored the nodes from \<open>tail_\<close> to \<open>head_\<close> are a chain, and the tasks waiting are its nodes
  other than the stub.\<close>

definition mq_rep :: "mpsc \<Rightarrow> nat list \<Rightarrow> bool" where
  "mq_rep q ch \<longleftrightarrow> chain (mq_next q) (Some (mq_tail q)) ch None \<and> distinct ch \<and> ch \<noteq> [] \<and> last ch = mq_head q"

definition waiting :: "mpsc \<Rightarrow> nat list \<Rightarrow> nat list" where
  "waiting q ch = filter (\<lambda>n. n \<noteq> mq_stub q) ch"

lemma chain_extend:
  assumes "chain nx p ch None" "ch \<noteq> []" "distinct (ch @ ns)" "chain nx (Some h) ns None"
  shows "chain (nx(last ch := Some h)) p (ch @ ns) None"
proof -
  obtain ys y where ch: "ch = ys @ [y]" using assms(2) by (metis append_butlast_last_id)
  then have "y \<notin> set ys" "y \<notin> set ns" using assms(3) by auto
  then show ?thesis using assms(1,4) ch by (auto simp: chain_append)
qed

lemma mq_push_batch_rep:
  assumes "mq_rep q ch" "ns \<noteq> []" "distinct ns" "set ns \<inter> set ch = {}"
    "chain ((mq_next q)(last ns := None)) (Some (hd ns)) ns None"
  shows "mq_rep (mq_push_batch (hd ns) (last ns) q) (ch @ ns)"
proof -
  let ?nx = "(mq_next q)(last ns := None)"
  have "last ns \<notin> set ch" using assms(2,4) last_in_set by blast
  then have "chain ?nx (Some (mq_tail q)) ch None" using assms(1) by (simp add: mq_rep_def)
  then have "chain (?nx(last ch := Some (hd ns))) (Some (mq_tail q)) (ch @ ns) None"
    using assms chain_extend [of ?nx _ ch ns "hd ns"] by (simp add: mq_rep_def Int_commute)
  then show ?thesis using assms by (auto simp: mq_rep_def mq_push_batch_def Let_def)
qed

lemma mq_append_rep:
  assumes "mq_rep q ch" "n \<notin> set ch"
  shows "mq_rep (mq_append n q) (ch @ [n])"
  using mq_push_batch_rep [of q ch "[n]"] assms by (simp add: mq_push_batch_def mq_append_def)

lemma mq_rep_next: "mq_rep q (t # n # ch) \<Longrightarrow> mq_next q t = Some n \<and> mq_tail q = t \<and> mq_rep (q\<lparr>mq_tail := n\<rparr>) (n # ch)"
  by (simp add: mq_rep_def)

lemma mq_rep_single: "mq_rep q [t] \<Longrightarrow> mq_next q t = None \<and> mq_tail q = t \<and> mq_head q = t"
  by (auto simp: mq_rep_def)

lemma mq_append_stub_id: "mq_stub (mq_append n q) = mq_stub q" "mq_tail (mq_append n q) = mq_tail q"
  by (simp_all add: mq_append_def Let_def)

lemma pop_last_rep:
  assumes "mq_rep q [t]" "t \<noteq> mq_stub q"
  shows "\<exists>q'. pop_last q = (Some t, q') \<and> mq_rep q' [mq_stub q] \<and> mq_stub q' = mq_stub q"
proof -
  have "mq_rep (mq_append (mq_stub q) q) ([t] @ [mq_stub q])" using assms by (intro mq_append_rep) auto
  then have n: "mq_next (mq_append (mq_stub q) q) t = Some (mq_stub q)"
    "mq_rep ((mq_append (mq_stub q) q)\<lparr>mq_tail := mq_stub q\<rparr>) [mq_stub q]"
    using mq_rep_next [of "mq_append (mq_stub q) q" t "mq_stub q" "[]"] by simp_all
  show ?thesis using n mq_rep_single [OF assms(1)] by (simp add: pop_last_def Let_def mq_append_stub_id)
qed

lemma mq_pop_rep:
  assumes "mq_rep q ch"
  shows "\<exists>q' ch'. mq_pop q = ((case waiting q ch of [] \<Rightarrow> None | t # _ \<Rightarrow> Some t), q') \<and> mq_rep q' ch' \<and>
    waiting q' ch' = tl (waiting q ch) \<and> mq_stub q' = mq_stub q"
proof -
  obtain t ts where ch: "ch = t # ts" using assms by (cases ch) (auto simp: mq_rep_def)
  show ?thesis
  proof (cases ts)
    case Nil
    then have s: "mq_next q t = None" "mq_tail q = t" using mq_rep_single assms ch by auto
    show ?thesis
      using s assms pop_last_rep [of q t] unfolding ch Nil
      by (cases "t = mq_stub q") (auto simp: mq_pop_def waiting_def intro!: exI [of _ "[mq_stub q]"])
  next
    case (Cons n ns)
    then have r: "mq_next q t = Some n" "mq_tail q = t" "mq_rep (q\<lparr>mq_tail := n\<rparr>) (n # ns)"
      using mq_rep_next [of q t n ns] assms ch by auto
    have d: "t \<noteq> n" "t \<notin> set ns" "n \<notin> set ns" using assms ch Cons by (auto simp: mq_rep_def)
    show ?thesis
    proof (cases "t = mq_stub q")
      case False
      then show ?thesis using r unfolding ch Cons
        by (auto simp: mq_pop_def waiting_def intro!: exI [of _ "n # ns"])
    next
      case stub: True
      show ?thesis
      proof (cases ns)
        case Nil
        have "\<exists>q'. pop_last (q\<lparr>mq_tail := n\<rparr>) = (Some n, q') \<and> mq_rep q' [mq_stub q] \<and> mq_stub q' = mq_stub q"
          using pop_last_rep [of "q\<lparr>mq_tail := n\<rparr>" n] r(3) stub d Nil by auto
        moreover have "mq_next q n = None" using mq_rep_single [of "q\<lparr>mq_tail := n\<rparr>" n] r(3) Nil by simp
        ultimately show ?thesis using r(1,2) stub d unfolding ch Cons Nil
          by (auto simp: mq_pop_def waiting_def intro!: exI [of _ "[mq_stub q]"])
      next
        case (Cons m ms)
        have "mq_next q n = Some m" "mq_rep (q\<lparr>mq_tail := m\<rparr>) (m # ms)"
          using mq_rep_next [of "q\<lparr>mq_tail := n\<rparr>" n m ms] r(3) Cons by simp_all
        then show ?thesis using r(1,2) stub d unfolding ch \<open>ts = n # ns\<close> Cons
          by (auto simp: mq_pop_def waiting_def intro!: exI [of _ "m # ms"])
      qed
    qed
  qed
qed

lemma mq_quiescent_rep: "mq_rep q ch \<Longrightarrow> mq_quiescent q \<longleftrightarrow> waiting q ch = []"
proof -
  assume r: "mq_rep q ch"
  then obtain t ts where ch: "ch = t # ts" by (cases ch) (auto simp: mq_rep_def)
  show ?thesis
  proof (cases ts)
    case Nil
    then have "mq_next q t = None" "mq_tail q = t" "mq_head q = t" using r ch mq_rep_single [of q t] by blast+
    then show ?thesis unfolding ch Nil by (cases "t = mq_stub q") (auto simp: mq_quiescent_def waiting_def)
  next
    case (Cons n ns)
    have r2: "mq_rep q (t # n # ns)" using r ch Cons by simp
    have "distinct (t # n # ns)" using r2 unfolding mq_rep_def by blast
    then have "mq_next q (mq_tail q) \<noteq> None" "t \<noteq> n" using mq_rep_next [OF r2] by simp_all
    then show ?thesis unfolding ch Cons by (auto simp: mq_quiescent_def waiting_def)
  qed
qed

lemma mq_clear_rep: "mq_rep q ch \<Longrightarrow> \<exists>q'. mq_clear q = Some q' \<and> mq_quiescent q'"
proof (induction "length (waiting q ch)" arbitrary: q ch)
  case 0
  then have w: "waiting q ch = []" by simp
  obtain q' ch' where p: "mq_pop q = (None, q')" "mq_rep q' ch'" "waiting q' ch' = []"
    using mq_pop_rep [OF 0(2)] w by auto
  then show ?case using mq_quiescent_rep [OF p(2)] by (subst mq_clear.simps) simp
next
  case (Suc n)
  then obtain t ts where w: "waiting q ch = t # ts" by (cases "waiting q ch") auto
  obtain q' ch' where p: "mq_pop q = (Some t, q')" "mq_rep q' ch'" "waiting q' ch' = ts"
    using mq_pop_rep [OF Suc(3)] w by auto
  have "n = length (waiting q' ch')" using Suc(2) w p(3) by simp
  then have "\<exists>q2. mq_clear q' = Some q2 \<and> mq_quiescent q2" using Suc(1) p(2) by blast
  then show ?case using p(1) by (subst mq_clear.simps) simp
qed

lemma pairs_chain: "\<forall>(a, b) \<in> pairs ch. nx a = Some b \<Longrightarrow> ch \<noteq> [] \<Longrightarrow> nx (last ch) = None \<Longrightarrow> chain nx (Some (hd ch)) ch None"
proof (induction ch)
  case (Cons c cs)
  then show ?case by (cases cs) auto
qed simp

lemma quiet_rep:
  assumes "mpsc_inv s" "\<forall>p. mr_prod s p = PIdle" "mr_cons s = CIdle"
  shows "mq_rep (mr_q s) (mr_chain s)"
proof -
  note D = invD [OF assms(1)]
  have np: "\<not> pend s a b" for a b using assms(2,3) by (simp add: pend_def)
  then have "chain (mq_next (mr_q s)) (Some (hd (mr_chain s))) (mr_chain s) None"
    using D(1,6,9,10) by (intro pairs_chain) auto
  then show ?thesis using D(6-9) by (simp add: mq_rep_def)
qed

section \<open>What the inbox promises\<close>

text \<open>(C2) FIFO without loss: whatever way producers' exchanges and links interleave with the consumer's
  loads and stores, the tasks popped so far followed by the tasks still chained are exactly the tasks pushed,
  in the order of the producers' exchanges; and in a moment when no call is in progress the next \<open>pop\<close>
  returns the oldest waiting task, failing only when every pushed task has been popped.\<close>

theorem mpsc_fifo_no_loss:
  assumes "reach mpsc_step (run_init mem nx) s"
  shows "mr_pushed s = mr_popped s @ waiting (mr_q s) (mr_chain s) \<and>
    ((\<forall>p. mr_prod s p = PIdle) \<and> mr_cons s = CIdle \<longrightarrow>
      fst (mq_pop (mr_q s)) = (case drop (length (mr_popped s)) (mr_pushed s) of [] \<Rightarrow> None | t # _ \<Rightarrow> Some t))"
proof -
  have i: "mpsc_inv s" by (rule mpsc_runs.reach_inv [OF assms run_init_inv])
  then have w: "mr_pushed s = mr_popped s @ waiting (mr_q s) (mr_chain s)" by (simp add: invD(13) waiting_def)
  then show ?thesis using mq_pop_rep [OF quiet_rep [OF i]] by auto
qed

text \<open>A producer is between its exchange and its link, and the consumer sees nothing yet.\<close>

theorem mpsc_fifo_no_loss_witness:
  "\<exists>s. reach mpsc_step (run_init 9 (\<lambda>_. None)) s \<and> mr_prod s 0 \<noteq> PIdle \<and>
     mr_pushed s = mr_popped s @ waiting (mr_q s) (mr_chain s) \<and> mr_pushed s = [7]"
proof -
  let ?z = "run_init 9 (\<lambda>_. None)"
  let ?s = "?z\<lparr>mr_q := (mr_q ?z)\<lparr>mq_next := (mq_next (mr_q ?z))(last [7] := None), mq_head := last [7]\<rparr>,
      mr_prod := (mr_prod ?z)(0 := PLink (mq_head (mr_q ?z)) (hd [7])),
      mr_chain := mr_chain ?z @ [7], mr_pushed := mr_pushed ?z @ [7]\<rparr>"
  have "mpsc_step ?z ?s" 
    by (rule mpsc_step.p_xchg [of ?z 0 "[7]" "(mq_next (mr_q ?z))(last [7] := None)"]) (simp_all add: run_init_def mq_init_def)
  then have "reach mpsc_step ?z ?s" by (rule reach_one)
  then show ?thesis using mpsc_fifo_no_loss [of 9 "\<lambda>_. None" ?s] by (intro exI [of _ ?s]) (simp add: run_init_def)
qed

text \<open>The methods alone behave as a queue: a batch that is linked front to end joins the waiting tasks in
  its order, \<open>pop\<close> takes the front, \<open>quiescent\<close> says whether none waits, and \<open>clear\<close> ends with none left.\<close>

theorem mpsc_is_a_queue:
  assumes "mq_rep q ch" "ns \<noteq> []" "distinct ns" "set ns \<inter> set ch = {}" "mq_stub q \<notin> set ns"
    "chain ((mq_next q)(last ns := None)) (Some (hd ns)) ns None"
  shows "mq_rep (mq_push_batch (hd ns) (last ns) q) (ch @ ns) \<and>
    waiting (mq_push_batch (hd ns) (last ns) q) (ch @ ns) = waiting q ch @ ns \<and>
    (\<exists>q' ch'. mq_pop (mq_push_batch (hd ns) (last ns) q) = (Some (hd (waiting q ch @ ns)), q') \<and> mq_rep q' ch' \<and>
      waiting q' ch' = tl (waiting q ch @ ns)) \<and>
    (mq_quiescent q \<longleftrightarrow> waiting q ch = []) \<and>
    (\<exists>q'. mq_clear (mq_push_batch (hd ns) (last ns) q) = Some q' \<and> mq_quiescent q')"
proof -
  let ?q = "mq_push_batch (hd ns) (last ns) q"
  have r: "mq_rep ?q (ch @ ns)" by (rule mq_push_batch_rep [OF assms(1-4,6)])
  have w: "waiting ?q (ch @ ns) = waiting q ch @ ns"
    using filter_notin_id [OF assms(5)] by (simp add: waiting_def mq_push_batch_def Let_def)
  obtain t ts where ne: "waiting q ch @ ns = t # ts" using assms(2) by (cases "waiting q ch @ ns") auto
  show ?thesis using r w mq_pop_rep [OF r] mq_quiescent_rep [OF assms(1)] mq_clear_rep [OF r] unfolding w ne by auto
qed

theorem mpsc_is_a_queue_witness:
  "fst (mq_pop (mq_push_batch 7 5 (mq_init 9 ((\<lambda>_. None)(7 := Some 5))))) = Some 7"
proof -
  let ?q = "mq_init 9 ((\<lambda>_. None)(7 := Some 5))"
  have "mq_rep ?q [9]" "[7, 5::nat] \<noteq> []" "distinct [7, 5::nat]" "set [7, 5] \<inter> set [9::nat] = {}" "mq_stub ?q \<notin> set [7, 5]"
    "chain ((mq_next ?q)(last [7, 5] := None)) (Some (hd [7, 5])) [7, 5] None"
    by (simp_all add: mq_rep_def mq_init_def)
  from mpsc_is_a_queue [OF this] show ?thesis by (auto simp: waiting_def mq_init_def)
qed

end
