(* ===== verification/Events.thy ===== *)
theory Events
  imports WaitLists CancelTokens
begin

text \<open>
  The broadcast event (\<^verbatim>\<open>include/Event.h\<close>), a doubly linked list of tasks through \<open>waitNext\<close> and \<open>waitPrev\<close> of their
  records, and the one-shot event with its pool (\<^verbatim>\<open>include/DirectEvent.h\<close>). Every access of the list is under the event's lock,
  so each operation is one function; \<open>ev_woken\<close> records the wakes in the order they are made, and \<open>ev_table\<close>
  is the table of cancellation slots that \<open>IsWithin\<close> reads. The pool's free queue is a parameter.
\<close>

section \<open>Event\<close>

record Event =
  ev_head :: ptr
  ev_tail :: ptr
  waitNext :: "nat \<Rightarrow> ptr"
  waitPrev :: "nat \<Rightarrow> ptr"
  cancelledDirect :: "nat \<Rightarrow> bool"
  ev_token :: "nat \<Rightarrow> u32"
  ev_table :: cancel_table
  ev_woken :: "nat list"

definition ev_Wake :: "nat \<Rightarrow> bool \<Rightarrow> Event \<Rightarrow> Event" where
  "ev_Wake t cancel e =
    (let e1 = (if cancel then e\<lparr>cancelledDirect := (cancelledDirect e)(t := True)\<rparr> else e) in
     e1\<lparr>ev_woken := ev_woken e1 @ [t]\<rparr>)"

partial_function (option) WakeChain :: "ptr \<Rightarrow> bool \<Rightarrow> Event \<Rightarrow> Event option" where
  "WakeChain p cancel e =
    (case p of
       None \<Rightarrow> Some e
     | Some t \<Rightarrow>
         (let nxt = waitNext e t;
              e1 = e\<lparr>waitNext := (waitNext e)(t := None), waitPrev := (waitPrev e)(t := None)\<rparr> in
          WakeChain nxt cancel (ev_Wake t cancel e1)))"

definition DetachAll :: "Event \<Rightarrow> ptr \<times> Event" where
  "DetachAll e = (ev_head e, e\<lparr>ev_head := None, ev_tail := None\<rparr>)"

definition ev_AddWaiter :: "nat \<Rightarrow> Event \<Rightarrow> Event" where
  "ev_AddWaiter t e =
    (let e1 = e\<lparr>waitNext := (waitNext e)(t := None)\<rparr>;
         e2 = e1\<lparr>waitPrev := (waitPrev e1)(t := ev_tail e1)\<rparr>;
         e3 = (case ev_tail e2 of Some l \<Rightarrow> e2\<lparr>waitNext := (waitNext e2)(l := Some t)\<rparr> | None \<Rightarrow> e2\<lparr>ev_head := Some t\<rparr>) in
     e3\<lparr>ev_tail := Some t\<rparr>)"

text \<open>The unlinking branch of \<open>CancelWaiters\<close>, and its append to the victims' chain.\<close>

definition ev_unlink :: "nat \<Rightarrow> Event \<Rightarrow> Event" where
  "ev_unlink t e =
    (let nxt = waitNext e t; prv = waitPrev e t;
         e1 = (case prv of Some l \<Rightarrow> e\<lparr>waitNext := (waitNext e)(l := nxt)\<rparr> | None \<Rightarrow> e\<lparr>ev_head := nxt\<rparr>);
         e2 = (case nxt of Some n \<Rightarrow> e1\<lparr>waitPrev := (waitPrev e1)(n := prv)\<rparr> | None \<Rightarrow> e1\<lparr>ev_tail := prv\<rparr>) in
     e2\<lparr>waitPrev := (waitPrev e2)(t := None), waitNext := (waitNext e2)(t := None)\<rparr>)"

partial_function (option) cancel_loop :: "u32 \<Rightarrow> ptr \<Rightarrow> ptr \<Rightarrow> ptr \<Rightarrow> Event \<Rightarrow> (ptr \<times> Event) option" where
  "cancel_loop tok p victims victimsTail e =
    (case p of
       None \<Rightarrow> Some (victims, e)
     | Some t \<Rightarrow>
         (let nxt = waitNext e t in
          if CancelToken_IsWithin (ev_table e) (ev_token e t) tok then
            (let e1 = ev_unlink t e; (v, nx) = append_link victims victimsTail t (waitNext e1) in
             cancel_loop tok nxt v (Some t) (e1\<lparr>waitNext := nx\<rparr>))
          else cancel_loop tok nxt victims victimsTail e))"

definition CancelWaiters :: "u32 \<Rightarrow> Event \<Rightarrow> Event option" where
  "CancelWaiters tok e =
    (if \<not> CancelToken_Valid tok then (case DetachAll e of (l, e1) \<Rightarrow> WakeChain l True e1)
     else (case cancel_loop tok (ev_head e) None None e of None \<Rightarrow> None | Some (v, e1) \<Rightarrow> WakeChain v True e1))"

definition SignalAll :: "Event \<Rightarrow> Event option" where
  "SignalAll e = (if ev_head e = None then Some e else (case DetachAll e of (l, e1) \<Rightarrow> WakeChain l False e1))"

section \<open>Doubly linked lists\<close>

definition dll :: "Event \<Rightarrow> nat list \<Rightarrow> bool" where
  [inv_defs]: "dll e xs \<longleftrightarrow> chain (waitNext e) (ev_head e) xs None \<and> chain (waitPrev e) (ev_tail e) (rev xs) None \<and> distinct xs"

lemma chain_cut:
  assumes "chain nx p (as @ n # bs) None" "distinct (as @ n # bs)"
  shows "chain (if as = [] then nx else nx(last as := nx n)) (if as = [] then nx n else p) (as @ bs) None"
proof (cases "as = []")
  case True
  then show ?thesis using assms by simp
next
  case False
  obtain cs l where as: "as = cs @ [l]" using False rev_exhaust by blast
  have "chain nx p cs (Some l)" "chain nx (nx n) bs None"
    using assms(1) as by (auto simp: chain_append)
  then show ?thesis using assms(2) as by (auto simp: chain_append)
qed

lemma chain_last_ptr:
  assumes "chain nx p (xs @ y # ys) None"
  shows "nx y = (case ys of [] \<Rightarrow> None | z # _ \<Rightarrow> Some z)"
  using assms by (cases ys) (auto simp: chain_append)

lemma dll_links:
  assumes "dll e (as @ t # bs)"
  shows "waitNext e t = (case bs of [] \<Rightarrow> None | z # _ \<Rightarrow> Some z)" "waitPrev e t = last_ptr as"
proof -
  show "waitNext e t = (case bs of [] \<Rightarrow> None | z # _ \<Rightarrow> Some z)" 
    using assms chain_last_ptr [of "waitNext e" "ev_head e" as t bs] by (simp add: dll_def)
  have "waitPrev e t = (case rev as of [] \<Rightarrow> None | z # _ \<Rightarrow> Some z)"
    using assms chain_last_ptr [of "waitPrev e" "ev_tail e" "rev bs" t "rev as"] by (simp add: dll_def)
  then show "waitPrev e t = last_ptr as" by (cases as rule: rev_cases) auto
qed

lemma dll_AddWaiter:
  assumes "dll e xs" "t \<notin> set xs"
  shows "dll (ev_AddWaiter t e) (xs @ [t])"
proof (cases xs rule: rev_cases)
  case Nil
  then show ?thesis using assms by (auto simp: dll_def ev_AddWaiter_def Let_def)
next
  case (snoc ys l)
  then have tl: "ev_tail e = Some l" using assms by (simp add: dll_def)
  have "chain ((waitNext e)(t := None, l := Some t)) (ev_head e) (xs @ [t]) None"
    using chain_snoc_upd [of "waitNext e" "ev_head e" xs t] assms snoc by (simp add: dll_def)
  moreover have "chain ((waitPrev e)(t := Some l)) (Some l) (rev xs) None" using assms tl by (simp add: dll_def)
  ultimately show ?thesis using assms tl by (simp add: dll_def ev_AddWaiter_def Let_def)
qed

text \<open>Unlinking removes the task and touches only its neighbours' links.\<close>

lemma dll_unlink:
  assumes "dll e (as @ t # bs)"
  shows "dll (ev_unlink t e) (as @ bs)" "waitNext (ev_unlink t e) t = None"
    "\<forall>y. y \<notin> set (as @ t # bs) \<longrightarrow> waitNext (ev_unlink t e) y = waitNext e y"
proof -
  note L = dll_links [OF assms]
  have d: "distinct (as @ t # bs)" and dn: "t \<notin> set as" "t \<notin> set bs" using assms by (auto simp: dll_def)
  have n: "chain (if as = [] then waitNext e else (waitNext e)(last as := waitNext e t)) (if as = [] then waitNext e t else ev_head e) (as @ bs) None"
    using chain_cut [of "waitNext e" _ as t bs] assms by (simp add: dll_def)
  have p: "chain (if bs = [] then waitPrev e else (waitPrev e)(hd bs := waitPrev e t)) (if bs = [] then waitPrev e t else ev_tail e) (rev (as @ bs)) None"
  proof -
    have "chain (waitPrev e) (ev_tail e) (rev bs @ t # rev as) None" "distinct (rev bs @ t # rev as)" using assms by (auto simp: dll_def)
    from chain_cut [OF this] show ?thesis by (cases "bs = []") (simp_all add: last_rev)
  qed
  have u: "waitNext (ev_unlink t e) = (if as = [] then waitNext e else (waitNext e)(last as := waitNext e t))(t := None)"
    "ev_head (ev_unlink t e) = (if as = [] then waitNext e t else ev_head e)"
    "waitPrev (ev_unlink t e) = (if bs = [] then waitPrev e else (waitPrev e)(hd bs := waitPrev e t))(t := None)"
    "ev_tail (ev_unlink t e) = (if bs = [] then waitPrev e t else ev_tail e)"
    using L by (cases bs; simp add: ev_unlink_def Let_def last_ptr_def)+
  show "dll (ev_unlink t e) (as @ bs)" unfolding dll_def u using n p d dn by (simp add: chain_upd_notin)
  show "waitNext (ev_unlink t e) t = None" by (simp add: u)
  show "\<forall>y. y \<notin> set (as @ t # bs) \<longrightarrow> waitNext (ev_unlink t e) y = waitNext e y" unfolding u by auto
qed

text \<open>What every loop leaves alone.\<close>

definition ev_same :: "Event \<Rightarrow> Event \<Rightarrow> bool" where
  "ev_same e e' \<longleftrightarrow> ev_token e' = ev_token e \<and> ev_table e' = ev_table e \<and> cancelledDirect e' = cancelledDirect e \<and> ev_woken e' = ev_woken e"

lemma ev_same_unlink: "ev_same e (ev_unlink t e)"
  by (simp add: ev_same_def ev_unlink_def Let_def split: option.splits)

definition inside :: "u32 \<Rightarrow> Event \<Rightarrow> nat \<Rightarrow> bool" where
  "inside tok e t = CancelToken_IsWithin (ev_table e) (ev_token e t) tok"

lemma cancel_loop_spec:
  assumes "dll e (ks @ zs)" "chain (waitNext e) victims vs None" "victimsTail = last_ptr vs" "distinct (vs @ ks @ zs)"
  shows "\<exists>v e'. cancel_loop tok (case zs of [] \<Rightarrow> None | z # _ \<Rightarrow> Some z) victims victimsTail e = Some (v, e') \<and>
    dll e' (ks @ filter (\<lambda>t. \<not> inside tok e t) zs) \<and> chain (waitNext e') v (vs @ filter (inside tok e) zs) None \<and> ev_same e e'"
  using assms
proof (induction zs arbitrary: ks vs victims victimsTail e)
  case Nil
  then show ?case by (subst cancel_loop.simps) (simp add: ev_same_def)
next
  case (Cons z zs)
  let ?nxt = "case zs of [] \<Rightarrow> None | z # _ \<Rightarrow> Some z"
  have nz: "waitNext e z = ?nxt" by (rule dll_links(1) [OF Cons.prems(1)])
  show ?case
  proof (cases "inside tok e z")
    case False
    have "cancel_loop tok (Some z) victims victimsTail e = cancel_loop tok ?nxt victims victimsTail e"
      using False nz by (subst cancel_loop.simps) (simp add: inside_def Let_def)
    then show ?thesis using Cons.IH [of e "ks @ [z]" victims vs victimsTail] Cons.prems False by simp
  next
    case True
    let ?e = "ev_unlink z e"
    obtain v nx where a: "append_link victims victimsTail z (waitNext ?e) = (v, nx)" by (cases "append_link victims victimsTail z (waitNext ?e)")
    let ?e2 = "?e\<lparr>waitNext := nx\<rparr>"
    note U = dll_unlink [OF Cons.prems(1)]
    have "chain (waitNext ?e) victims vs None"
      by (rule chain_frame [OF Cons.prems(2) U(3)]) (use Cons.prems(4) in auto)
    then have A: "chain nx v (vs @ [z]) None" "\<forall>y. y \<notin> set vs \<longrightarrow> nx y = waitNext ?e y"
      using append_link_chain [OF _ Cons.prems(3) _ _ U(2) a] Cons.prems(4) by auto
    have "chain nx (ev_head ?e) (ks @ zs) None"
      by (rule chain_frame [OF _ A(2)]) (use U(1) Cons.prems(4) in \<open>auto simp: dll_def\<close>)
    then have d2: "dll ?e2 (ks @ zs)" using U(1) by (simp add: dll_def)
    have s2: "ev_same e ?e2" using ev_same_unlink [of e z] by (simp add: ev_same_def)
    then have ins: "inside tok ?e2 = inside tok e" by (simp add: inside_def ev_same_def fun_eq_iff)
    have "cancel_loop tok (Some z) victims victimsTail e = cancel_loop tok ?nxt v (Some z) ?e2"
      using True nz a by (subst cancel_loop.simps) (simp add: inside_def Let_def)
    moreover have "\<exists>v' e'. cancel_loop tok ?nxt v (Some z) ?e2 = Some (v', e') \<and> dll e' (ks @ filter (\<lambda>t. \<not> inside tok ?e2 t) zs) \<and>
        chain (waitNext e') v' ((vs @ [z]) @ filter (inside tok ?e2) zs) None \<and> ev_same ?e2 e'"
      by (rule Cons.IH) (use d2 A(1) Cons.prems(4) in auto)
    ultimately show ?thesis using True s2 unfolding ins by (auto simp: ev_same_def)
  qed
qed

lemma WakeChain_spec:
  assumes "chain (waitNext e) p xs None" "distinct xs"
  shows "\<exists>e'. WakeChain p cancel e = Some e' \<and> ev_woken e' = ev_woken e @ xs \<and>
    (\<forall>t. cancelledDirect e' t = (if cancel \<and> t \<in> set xs then True else cancelledDirect e t)) \<and>
    (\<forall>t. waitNext e' t = (if t \<in> set xs then None else waitNext e t)) \<and>
    (\<forall>t. waitPrev e' t = (if t \<in> set xs then None else waitPrev e t)) \<and>
    ev_head e' = ev_head e \<and> ev_tail e' = ev_tail e \<and> ev_token e' = ev_token e \<and> ev_table e' = ev_table e"
  using assms
proof (induction xs arbitrary: p e)
  case Nil
  then show ?case by (subst WakeChain.simps) simp
next
  case (Cons x xs)
  let ?e = "ev_Wake x cancel (e\<lparr>waitNext := (waitNext e)(x := None), waitPrev := (waitPrev e)(x := None)\<rparr>)"
  have p: "p = Some x" "chain (waitNext e) (waitNext e x) xs None" using Cons.prems(1) by auto
  have fe: "waitNext ?e = (waitNext e)(x := None)" "waitPrev ?e = (waitPrev e)(x := None)" "ev_head ?e = ev_head e" "ev_tail ?e = ev_tail e"
    "ev_token ?e = ev_token e" "ev_table ?e = ev_table e" "ev_woken ?e = ev_woken e @ [x]"
    "cancelledDirect ?e = (if cancel then (cancelledDirect e)(x := True) else cancelledDirect e)"
    by (simp_all add: ev_Wake_def Let_def)
  have ch: "chain (waitNext ?e) (waitNext e x) xs None" unfolding fe using p(2) Cons.prems(2) by (simp add: chain_upd_notin)
  have step: "WakeChain p cancel e = WakeChain (waitNext e x) cancel ?e" unfolding p(1) by (subst WakeChain.simps) (simp add: Let_def)
  have "distinct xs" "x \<notin> set xs" using Cons.prems(2) by auto
  then show ?case using Cons.IH [OF ch] unfolding step fe by auto
qed

text \<open>A deadline ejects exactly its own waiters: \<open>CancelWaiters\<close> with a valid token ends, wakes the linked tasks inside the
  token in the order they came, each once and marked cancelled, and leaves every other task linked in its order and its
  mark unchanged; \<open>SignalAll\<close> wakes all in order, marks none and leaves the list empty.\<close>

theorem event_wakes_exactly_the_chosen:
  assumes "dll e xs" "CancelToken_Valid tok"
  shows "(\<exists>e'. CancelWaiters tok e = Some e' \<and> dll e' (filter (\<lambda>t. \<not> inside tok e t) xs) \<and>
      ev_woken e' = ev_woken e @ filter (inside tok e) xs \<and>
      (\<forall>t. cancelledDirect e' t = (t \<in> set xs \<and> inside tok e t \<or> cancelledDirect e t))) \<and>
    (\<exists>e'. SignalAll e = Some e' \<and> dll e' [] \<and> ev_woken e' = ev_woken e @ xs \<and> cancelledDirect e' = cancelledDirect e)"
proof
  have head: "ev_head e = (case xs of [] \<Rightarrow> None | z # _ \<Rightarrow> Some z)" and d: "distinct xs" using assms(1) by (cases xs; simp add: dll_def)+
  let ?in = "filter (inside tok e) xs" and ?no = "filter (\<lambda>t. \<not> inside tok e t) xs"
  obtain v e1 where l: "cancel_loop tok (ev_head e) None None e = Some (v, e1)" "dll e1 ?no" "chain (waitNext e1) v ?in None" "ev_same e e1"
    using cancel_loop_spec [of e "[]" xs None "[]" None tok] assms(1) d unfolding head by auto
  obtain e' where w: "WakeChain v True e1 = Some e'" "ev_woken e' = ev_woken e1 @ ?in"
      "\<forall>t. cancelledDirect e' t = (if True \<and> t \<in> set ?in then True else cancelledDirect e1 t)"
      "\<forall>t. waitNext e' t = (if t \<in> set ?in then None else waitNext e1 t)" "\<forall>t. waitPrev e' t = (if t \<in> set ?in then None else waitPrev e1 t)"
      "ev_head e' = ev_head e1" "ev_tail e' = ev_tail e1"
    using WakeChain_spec [OF l(3), of True] d by auto
  have "chain (waitNext e') (ev_head e1) ?no None" "chain (waitPrev e') (ev_tail e1) (rev ?no) None"
    using l(2) w(4,5) chain_cong [of ?no "waitNext e'" "waitNext e1"] chain_cong [of "rev ?no" "waitPrev e'" "waitPrev e1"] by (simp_all add: dll_def)
  then have "dll e' ?no" using l(2) w(6,7) by (simp add: dll_def)
  moreover have "CancelWaiters tok e = Some e'" using assms(2) l(1) w(1) by (simp add: CancelWaiters_def)
  ultimately show "\<exists>e'. CancelWaiters tok e = Some e' \<and> dll e' ?no \<and> ev_woken e' = ev_woken e @ ?in \<and>
      (\<forall>t. cancelledDirect e' t = (t \<in> set xs \<and> inside tok e t \<or> cancelledDirect e t))"
    using w(2,3) l(4) by (auto simp: ev_same_def)
  let ?d = "e\<lparr>ev_head := None, ev_tail := None\<rparr>"
  show "\<exists>e'. SignalAll e = Some e' \<and> dll e' [] \<and> ev_woken e' = ev_woken e @ xs \<and> cancelledDirect e' = cancelledDirect e"
  proof (cases xs)
    case Nil
    then show ?thesis using assms(1) head by (simp add: SignalAll_def)
  next
    case (Cons x ys)
    have "chain (waitNext ?d) (ev_head e) xs None" using assms(1) by (simp add: dll_def)
    from WakeChain_spec [OF this d, of False] show ?thesis
      using head Cons by (auto simp: SignalAll_def DetachAll_def dll_def fun_eq_iff)
  qed
qed

definition ev_demo :: Event where
  "ev_demo = ev_AddWaiter 7 (ev_AddWaiter 5 \<lparr>ev_head = None, ev_tail = None, waitNext = (\<lambda>_. None), waitPrev = (\<lambda>_. None),
     cancelledDirect = (\<lambda>_. False), ev_token = (\<lambda>_. 0), ev_table = cancel_init, ev_woken = []\<rparr>)"

theorem event_wakes_exactly_the_chosen_witness:
  "CancelToken_Valid 0x10002 \<and> (\<exists>e'. SignalAll ev_demo = Some e' \<and> ev_woken e' = [5, 7])"
proof -
  have "dll ev_demo [5, 7]" unfolding ev_demo_def
    by (rule dll_AddWaiter [where xs = "[5]", simplified], rule dll_AddWaiter [where xs = "[]", simplified]) (simp_all add: dll_def)
  moreover have "CancelToken_Valid 0x10002" by (simp add: CancelToken_Valid_def kNone_def)
  moreover have "ev_woken ev_demo = []" by (simp add: ev_demo_def ev_AddWaiter_def Let_def)
  ultimately show ?thesis using event_wakes_exactly_the_chosen [of ev_demo "[5, 7]" "0x10002"] by auto
qed

section \<open>One-shot events and their pool\<close>

text \<open>Events are numbered in the order their blocks are made; the free queue is the set of events in it as a list,
  and what \<open>try_dequeue\<close> and \<open>size_approx\<close> answer at the \<open>i\<close>-th attempt are the parameters \<open>deq\<close> and \<open>approx\<close>.\<close>

record EventPool =
  ep_total :: nat
  ep_waiter :: "nat \<Rightarrow> ptr"
  ep_freeq :: "nat list"
  ep_woken :: "nat list"

definition kBlock :: nat where "kBlock = 256"

definition de_Signal :: "nat \<Rightarrow> EventPool \<Rightarrow> EventPool" where
  "de_Signal e p =
    (let p1 = p\<lparr>ep_waiter := (ep_waiter p)(e := None)\<rparr> in
     case ep_waiter p e of Some t \<Rightarrow> p1\<lparr>ep_woken := ep_woken p1 @ [t]\<rparr> | None \<Rightarrow> p1)"

definition AddBlock :: "nat \<Rightarrow> EventPool \<Rightarrow> EventPool" where
  "AddBlock n p = p\<lparr>ep_total := ep_total p + n, ep_waiter := (\<lambda>i. if ep_total p \<le> i then None else ep_waiter p i),
     ep_freeq := ep_freeq p @ [ep_total p ..< ep_total p + n]\<rparr>"

definition new_EventPool :: "nat \<Rightarrow> EventPool" where
  "new_EventPool n = AddBlock n \<lparr>ep_total = 0, ep_waiter = (\<lambda>_. None), ep_freeq = [], ep_woken = []\<rparr>"

partial_function (option) Acquire_loop ::
    "(nat \<Rightarrow> nat list \<Rightarrow> nat option) \<Rightarrow> (nat \<Rightarrow> nat list \<Rightarrow> nat) \<Rightarrow> nat \<Rightarrow> nat \<Rightarrow> EventPool \<Rightarrow> (nat \<times> EventPool) option" where
  "Acquire_loop deq approx i misses p =
    (case deq i (ep_freeq p) of
       Some e \<Rightarrow> Some (e, p\<lparr>ep_freeq := remove1 e (ep_freeq p)\<rparr>)
     | None \<Rightarrow>
         (if 3 \<le> misses \<or> approx i (ep_freeq p) = 0 then Acquire_loop deq approx (i + 1) 1 (AddBlock kBlock p)
          else Acquire_loop deq approx (i + 1) (misses + 1) p))"

definition Acquire ::
    "(nat \<Rightarrow> nat list \<Rightarrow> nat option) \<Rightarrow> (nat \<Rightarrow> nat list \<Rightarrow> nat) \<Rightarrow> EventPool \<Rightarrow> (nat \<times> EventPool) option" where
  "Acquire deq approx p = map_option (\<lambda>(e, q). (e, q\<lparr>ep_waiter := (ep_waiter q)(e := None)\<rparr>)) (Acquire_loop deq approx 0 0 p)"

definition ep_Release :: "nat \<Rightarrow> EventPool \<Rightarrow> EventPool" where
  "ep_Release e p = p\<lparr>ep_freeq := ep_freeq p @ [e]\<rparr>"

text \<open>Every event is either free or in use, never both.\<close>

definition pool_inv :: "EventPool \<Rightarrow> nat set \<Rightarrow> bool" where
  [inv_defs]: "pool_inv p used \<longleftrightarrow> distinct (ep_freeq p) \<and> set (ep_freeq p) \<inter> used = {} \<and> set (ep_freeq p) \<union> used = {..<ep_total p}"

lemma pool_inv_AddBlock:
  assumes "pool_inv p used"
  shows "pool_inv (AddBlock n p) used"
proof -
  have d: "distinct (ep_freeq p)" "set (ep_freeq p) \<inter> used = {}" and u: "set (ep_freeq p) \<union> used = {..<ep_total p}"
    using assms by (auto simp: pool_inv_def)
  have sub: "set (ep_freeq p) \<subseteq> {..<ep_total p}" "used \<subseteq> {..<ep_total p}" using u by blast+
  have disj: "{..<ep_total p} \<inter> {ep_total p..<ep_total p + n} = {}" by auto
  have all: "{..<ep_total p + n} = {..<ep_total p} \<union> {ep_total p..<ep_total p + n}" by auto
  have "distinct (ep_freeq (AddBlock n p))" "set (ep_freeq (AddBlock n p)) \<inter> used = {}"
    using d sub disj by (auto simp: AddBlock_def)
  moreover have "set (ep_freeq (AddBlock n p)) \<union> used = {..<ep_total p + n}"
    unfolding all u [symmetric] by (auto simp: AddBlock_def)
  ultimately show ?thesis by (simp add: pool_inv_def AddBlock_def)
qed

text \<open>What the code relies on of the queue: an answer is an element, and spurious failures stop after attempt \<open>K\<close>.\<close>

definition queue_answers :: "nat \<Rightarrow> (nat \<Rightarrow> nat list \<Rightarrow> nat option) \<Rightarrow> bool" where
  "queue_answers K deq \<longleftrightarrow> (\<forall>i q e. deq i q = Some e \<longrightarrow> e \<in> set q) \<and> (\<forall>i q. K \<le> i \<and> q \<noteq> [] \<longrightarrow> deq i q \<noteq> None)"

lemma Acquire_loop_ends:
  assumes q: "queue_answers K deq" and "pool_inv p used" "m \<le> 3"
  shows "\<exists>e q. Acquire_loop deq approx i m p = Some (e, q) \<and> pool_inv q (insert e used) \<and> e \<notin> used"
  using assms(2,3)
proof (induction "(K - i) + (if ep_freeq p = [] then 5 - m else 0)" arbitrary: i m p rule: less_induct)
  case less
  show ?case
  proof (cases "deq i (ep_freeq p)")
    case (Some e)
    then have e: "e \<in> set (ep_freeq p)" using q by (auto simp: queue_answers_def)
    have "Acquire_loop deq approx i m p = Some (e, p\<lparr>ep_freeq := remove1 e (ep_freeq p)\<rparr>)" using Some by (subst Acquire_loop.simps) simp
    moreover have "pool_inv (p\<lparr>ep_freeq := remove1 e (ep_freeq p)\<rparr>) (insert e used)" "e \<notin> used"
      using less.prems(1) e by (auto simp: pool_inv_def)
    ultimately show ?thesis by blast
  next
    case None
    have K: "i < K \<or> ep_freeq p = []" using q None unfolding queue_answers_def by (metis not_le)
    show ?thesis
    proof (cases "3 \<le> m \<or> approx i (ep_freeq p) = 0")
      case True
      have ne: "ep_freeq (AddBlock kBlock p) \<noteq> []" by (simp add: AddBlock_def kBlock_def)
      have "Acquire_loop deq approx i m p = Acquire_loop deq approx (i + 1) 1 (AddBlock kBlock p)"
        using None True by (subst Acquire_loop.simps) auto
      moreover have "(K - (i + 1)) + (if ep_freeq (AddBlock kBlock p) = [] then 5 - 1 else 0) < (K - i) + (if ep_freeq p = [] then 5 - m else 0)"
        using K ne less.prems(2) by auto
      ultimately show ?thesis using less.hyps [of "i + 1" "AddBlock kBlock p" 1] pool_inv_AddBlock [OF less.prems(1)] by simp
    next
      case False
      have "Acquire_loop deq approx i m p = Acquire_loop deq approx (i + 1) (m + 1) p"
        using None False by (subst Acquire_loop.simps) auto
      moreover have "(K - (i + 1)) + (if ep_freeq p = [] then 5 - (m + 1) else 0) < (K - i) + (if ep_freeq p = [] then 5 - m else 0)"
        using K less.prems(2) by auto
      ultimately show ?thesis using less.hyps [of "i + 1" p "m + 1"] less.prems False by simp
    qed
  qed
qed

lemma new_pool_inv: "pool_inv (new_EventPool n) {}"
  by (auto simp: new_EventPool_def pool_inv_def AddBlock_def)

text \<open>The event pool ends its search and never hands out an event twice: for a free queue that answers with
  its elements and stops failing spuriously, \<open>Acquire\<close> returns an event that is not in use, with no waiter left in it,
  growing the pool when the queue stays empty; releasing it makes it free again.\<close>

theorem acquire_returns_an_unused_event:
  assumes "queue_answers K deq" "pool_inv p used"
  shows "\<exists>e q. Acquire deq approx p = Some (e, q) \<and> e \<notin> used \<and> ep_waiter q e = None \<and> pool_inv q (insert e used) \<and>
    pool_inv (ep_Release e q) used"
proof -
  obtain e q where a: "Acquire_loop deq approx 0 0 p = Some (e, q)" "pool_inv q (insert e used)" "e \<notin> used"
    using Acquire_loop_ends [OF assms, of 0 approx 0] by auto
  let ?q = "q\<lparr>ep_waiter := (ep_waiter q)(e := None)\<rparr>"
  have "pool_inv ?q (insert e used)" "pool_inv (ep_Release e ?q) used"
    using a(2,3) by (auto simp: pool_inv_def ep_Release_def)
  then show ?thesis using a(1,3) by (simp add: Acquire_def)
qed

definition deq_front :: "nat \<Rightarrow> nat list \<Rightarrow> nat option" where
  "deq_front i q = (if i < 2 then None else case q of [] \<Rightarrow> None | e # _ \<Rightarrow> Some e)"

theorem acquire_returns_an_unused_event_witness:
  "\<exists>e q. Acquire deq_front (\<lambda>_ _. 1) (new_EventPool 4) = Some (e, q) \<and> ep_waiter q e = None"
proof -
  have "queue_answers 2 deq_front" by (auto simp: queue_answers_def deq_front_def split: list.splits if_splits)
  then show ?thesis using acquire_returns_an_unused_event [of 2 deq_front "new_EventPool 4" "{}"] new_pool_inv by blast
qed

end
