(* ===== verification/Epochs.thy ===== *)
theory Epochs
  imports JPrelude
begin

text \<open>
  Epoch-based reclamation (\<^verbatim>\<open>include/Epochs.h\<close>, \<^verbatim>\<open>src/Epochs.cpp\<close>). The first part has the manager's operations as functions; an epoch slot is
  \<open>None\<close> for \<open>SIZE_MAX\<close>, and what a deleter retires in turn is the parameter \<open>del\<close>. The second part interleaves readers
  that pin an epoch, threads that unlink, stamp and retire objects, and threads that scan the slots and free, one
  access at a time. The global epoch is a natural number, \<open>size_t\<close> in the source.
\<close>

section \<open>The manager\<close>

record EpochRetired =
  er_ptr :: nat
  er_epoch :: nat

record EpochManager =
  globalEpoch :: nat
  threadEpochs :: "nat option list"
  participants :: "nat list"
  retiredCount :: int
  externalBase :: nat
  externalCount :: nat
  externalClaimed :: "bool list"
  epochOrphans :: "EpochRetired list"
  epochBag :: "nat \<Rightarrow> EpochRetired list"
  epochBagDead :: "nat \<Rightarrow> bool"
  bagLimit :: "nat \<Rightarrow> nat"
  runsGates :: "nat \<Rightarrow> bool"
  em_freed :: "nat list"

definition kPublishAt :: nat where "kPublishAt = 64"

definition OrphanEpochEntries :: "EpochRetired list \<Rightarrow> EpochManager \<Rightarrow> EpochManager" where
  "OrphanEpochEntries v m = (if v = [] then m else m\<lparr>epochOrphans := epochOrphans m @ v\<rparr>)"

text \<open>The freeing loops: entries below the safe epoch go to their deleters in order, the others are kept in order; the
  third result is what the deleters retired.\<close>

fun reclaim_loop :: "(nat \<Rightarrow> EpochRetired list) \<Rightarrow> nat \<Rightarrow> EpochRetired list \<Rightarrow> EpochRetired list \<times> nat list \<times> EpochRetired list" where
  "reclaim_loop del safe [] = ([], [], [])"
| "reclaim_loop del safe (w # ws) =
    (case reclaim_loop del safe ws of (k, f, b) \<Rightarrow>
       if er_epoch w < safe then (k, er_ptr w # f, del (er_ptr w) @ b) else (w # k, f, b))"

definition SweepEpochOrphans :: "(nat \<Rightarrow> EpochRetired list) \<Rightarrow> nat \<Rightarrow> nat \<Rightarrow> EpochManager \<Rightarrow> nat \<times> EpochManager" where
  "SweepEpochOrphans del t safe m =
    (case reclaim_loop del safe (epochOrphans m) of (k, f, b) \<Rightarrow>
       (length f, m\<lparr>epochOrphans := k, em_freed := em_freed m @ f, epochBag := (epochBag m)(t := epochBag m t @ b),
          retiredCount := retiredCount m + int (length b)\<rparr>))"

fun min_epoch :: "nat option list \<Rightarrow> nat list \<Rightarrow> nat \<Rightarrow> nat" where
  "min_epoch te [] e = e"
| "min_epoch te (p # ps) e = min_epoch te ps (case te ! p of Some x \<Rightarrow> if x < e then x else e | None \<Rightarrow> e)"

definition MinActiveEpoch :: "EpochManager \<Rightarrow> nat" where
  "MinActiveEpoch m = min_epoch (threadEpochs m) (participants m) (globalEpoch m)"

definition AdvanceEpoch :: "EpochManager \<Rightarrow> EpochManager" where
  "AdvanceEpoch m = m\<lparr>globalEpoch := globalEpoch m + 1\<rparr>"

definition TryReclaim :: "(nat \<Rightarrow> EpochRetired list) \<Rightarrow> nat \<Rightarrow> bool \<Rightarrow> EpochManager \<Rightarrow> EpochManager" where
  "TryReclaim del t orphans m =
    (if epochBag m t = [] \<and> (\<not> orphans \<or> epochOrphans m = []) then m
     else
      (let safe = MinActiveEpoch m;
           (k, f, b) = reclaim_loop del safe (epochBag m t);
           m1 = m\<lparr>epochBag := (epochBag m)(t := (if b = [] then k else b @ k)), em_freed := em_freed m @ f,
                  retiredCount := retiredCount m + int (length b)\<rparr>;
           (n, m2) = (if orphans \<and> epochOrphans m1 \<noteq> [] then SweepEpochOrphans del t safe m1 else (0, m1));
           freed = length f + n in
       if freed \<noteq> 0 then m2\<lparr>retiredCount := retiredCount m2 - int freed\<rparr> else m2))"

definition Tick :: "(nat \<Rightarrow> EpochRetired list) \<Rightarrow> nat \<Rightarrow> EpochManager \<Rightarrow> EpochManager" where
  "Tick del t m = TryReclaim del t True (AdvanceEpoch m)"

definition em_Init :: "nat \<Rightarrow> nat \<Rightarrow> EpochManager \<Rightarrow> EpochManager" where
  "em_Init poolSlots externalSlots m =
    (let maxThreads = poolSlots + externalSlots in
     m\<lparr>externalBase := poolSlots, externalCount := externalSlots, externalClaimed := replicate externalSlots False,
       threadEpochs := replicate maxThreads None @ drop maxThreads (threadEpochs m), participants := [0..<maxThreads]\<rparr>)"

fun claim_first :: "nat \<Rightarrow> bool list \<Rightarrow> (nat \<times> bool list) option" where
  "claim_first i [] = None"
| "claim_first i (c # cs) = (if \<not> c then Some (i, True # cs) else map_option (\<lambda>(j, ds). (j, c # ds)) (claim_first (i + 1) cs))"

definition ClaimExternalSlot :: "EpochManager \<Rightarrow> nat option \<times> EpochManager" where
  "ClaimExternalSlot m =
    (case claim_first 0 (externalClaimed m) of
       Some (i, cs) \<Rightarrow> (Some (externalBase m + i), m\<lparr>externalClaimed := cs\<rparr>)
     | None \<Rightarrow> (None, m))"

definition ReleaseExternalSlot :: "nat \<Rightarrow> EpochManager \<Rightarrow> EpochManager" where
  "ReleaseExternalSlot tid m =
    (if externalBase m \<le> tid \<and> tid - externalBase m < externalCount m
     then m\<lparr>externalClaimed := (externalClaimed m)[tid - externalBase m := False]\<rparr> else m)"

definition ReclaimThreshold :: "EpochManager \<Rightarrow> nat" where
  "ReclaimThreshold m = (let p = length (participants m) in if 512 < p then p else 512)"

text \<open>\<open>RetirePtr\<close> without the gate it may run, and whether it runs one.\<close>

definition RetirePtr :: "nat \<Rightarrow> nat \<Rightarrow> nat \<Rightarrow> EpochManager \<Rightarrow> bool \<times> EpochManager" where
  "RetirePtr t p epoch m =
    (let r = \<lparr>er_ptr = p, er_epoch = epoch\<rparr> in
     if epochBagDead m t \<or> \<not> runsGates m t
     then (False, (OrphanEpochEntries [r] m)\<lparr>retiredCount := retiredCount m + 1\<rparr>)
     else
      (let bag = epochBag m t @ [r] in
       (bagLimit m t \<le> length bag, m\<lparr>epochBag := (epochBag m)(t := bag), retiredCount := retiredCount m + 1\<rparr>)))"

definition BatchExit :: "nat \<Rightarrow> EpochManager \<Rightarrow> EpochManager" where
  "BatchExit t m =
    (let m1 = m\<lparr>epochBagDead := (epochBagDead m)(t := True)\<rparr>; m2 = OrphanEpochEntries (epochBag m1 t) m1 in
     m2\<lparr>epochBag := (epochBag m2)(t := [])\<rparr>)"

text \<open>The guard: only the outermost one pins and unpins.\<close>

definition guard_enter :: "nat \<Rightarrow> EpochManager \<Rightarrow> bool \<times> EpochManager" where
  "guard_enter t m =
    (let outermost = threadEpochs m ! t = None in
     (outermost, if outermost then m\<lparr>threadEpochs := (threadEpochs m)[t := Some (globalEpoch m)]\<rparr> else m))"

definition guard_leave :: "nat \<Rightarrow> bool \<Rightarrow> EpochManager \<Rightarrow> EpochManager" where
  "guard_leave t outermost m = (if outermost then m\<lparr>threadEpochs := (threadEpochs m)[t := None]\<rparr> else m)"

datatype suspend_check = SuspendOk | SuspendInsideHazardGuard | SuspendHandler | SuspendInsideEpochGuard

definition EpochGuardSuspendCheck :: "nat \<Rightarrow> bool \<Rightarrow> nat option \<Rightarrow> EpochManager \<Rightarrow> suspend_check" where
  "EpochGuardSuspendCheck hazardDepth handler tid m =
    (if hazardDepth \<noteq> 0 then SuspendInsideHazardGuard
     else case tid of
       None \<Rightarrow> SuspendOk
     | Some t \<Rightarrow> if threadEpochs m ! t = None then SuspendOk else if handler then SuspendHandler else SuspendInsideEpochGuard)"

section \<open>What one reclaim pass frees\<close>

lemma reclaim_loop_spec:
  "reclaim_loop del safe ws =
    (filter (\<lambda>w. \<not> er_epoch w < safe) ws, map er_ptr (filter (\<lambda>w. er_epoch w < safe) ws),
     concat (map (\<lambda>w. del (er_ptr w)) (filter (\<lambda>w. er_epoch w < safe) ws)))"
  by (induction ws) auto

lemma min_epoch_le: "min_epoch te ps e \<le> e \<and> (\<forall>p \<in> set ps. \<forall>x. te ! p = Some x \<longrightarrow> min_epoch te ps e \<le> x)"
proof (induction ps arbitrary: e)
  case (Cons p ps)
  let ?e = "case te ! p of Some x \<Rightarrow> if x < e then x else e | None \<Rightarrow> e"
  have "?e \<le> e" "\<forall>x. te ! p = Some x \<longrightarrow> ?e \<le> x" by (auto split: option.splits)
  then show ?case using Cons [of ?e] by fastforce
qed simp

section \<open>Readers, retirers and scanners\<close>

datatype rd_pc = ROut | RLoaded nat | RIn
datatype wk_pc = KIdle | KUnlinked nat | KStamped nat nat | KScan nat nat | KFree nat

record ep_run =
  ep_n :: nat
  ep_global :: nat
  ep_slot :: "nat \<Rightarrow> nat option"
  ep_rd :: "nat \<Rightarrow> rd_pc"
  ep_held :: "nat \<Rightarrow> nat set"
  ep_wk :: "nat \<Rightarrow> wk_pc"
  ep_linked :: "nat set"
  ep_gone :: "nat set"
  ep_bag :: "nat \<Rightarrow> (nat \<times> nat) list"
  ep_orphans :: "(nat \<times> nat) list"
  ep_freed :: "nat set"

definition ep_init :: "nat \<Rightarrow> ep_run" where
  "ep_init n = \<lparr>ep_n = n, ep_global = 0, ep_slot = (\<lambda>_. None), ep_rd = (\<lambda>_. ROut), ep_held = (\<lambda>_. {}), ep_wk = (\<lambda>_. KIdle),
     ep_linked = {}, ep_gone = {}, ep_bag = (\<lambda>_. []), ep_orphans = [], ep_freed = {}\<rparr>"

inductive ep_step :: "ep_run \<Rightarrow> ep_run \<Rightarrow> bool" where
  r_load: "i < ep_n s \<Longrightarrow> ep_rd s i = ROut \<Longrightarrow> ep_step s (s\<lparr>ep_rd := (ep_rd s)(i := RLoaded (ep_global s))\<rparr>)"
| r_pin: "ep_rd s i = RLoaded g \<Longrightarrow> ep_step s (s\<lparr>ep_rd := (ep_rd s)(i := RIn), ep_slot := (ep_slot s)(i := Some g)\<rparr>)"
| r_read: "ep_rd s i = RIn \<Longrightarrow> x \<in> ep_linked s \<Longrightarrow> ep_step s (s\<lparr>ep_held := (ep_held s)(i := insert x (ep_held s i))\<rparr>)"
| r_out: "ep_rd s i = RIn \<Longrightarrow>
    ep_step s (s\<lparr>ep_rd := (ep_rd s)(i := ROut), ep_slot := (ep_slot s)(i := None), ep_held := (ep_held s)(i := {})\<rparr>)"
| p_link: "x \<notin> ep_linked s \<Longrightarrow> x \<notin> ep_gone s \<Longrightarrow> ep_step s (s\<lparr>ep_linked := insert x (ep_linked s)\<rparr>)"
| u_unlink: "ep_wk s t = KIdle \<Longrightarrow> x \<in> ep_linked s \<Longrightarrow>
    ep_step s (s\<lparr>ep_wk := (ep_wk s)(t := KUnlinked x), ep_linked := ep_linked s - {x}, ep_gone := insert x (ep_gone s)\<rparr>)"
| u_stamp: "ep_wk s t = KUnlinked x \<Longrightarrow> ep_step s (s\<lparr>ep_wk := (ep_wk s)(t := KStamped x (ep_global s))\<rparr>)"
| u_retire: "ep_wk s t = KStamped x e \<Longrightarrow> ep_step s (s\<lparr>ep_wk := (ep_wk s)(t := KIdle), ep_bag := (ep_bag s)(t := ep_bag s t @ [(x, e)])\<rparr>)"
| u_orphan: "ep_wk s t = KStamped x e \<Longrightarrow> ep_step s (s\<lparr>ep_wk := (ep_wk s)(t := KIdle), ep_orphans := ep_orphans s @ [(x, e)]\<rparr>)"
| o_hand: "ep_step s (s\<lparr>ep_bag := (ep_bag s)(t := []), ep_orphans := ep_orphans s @ ep_bag s t\<rparr>)"
| g_advance: "ep_step s (s\<lparr>ep_global := ep_global s + 1\<rparr>)"
| s_start: "ep_wk s t = KIdle \<Longrightarrow> ep_step s (s\<lparr>ep_wk := (ep_wk s)(t := KScan 0 (ep_global s))\<rparr>)"
| s_slot: "ep_wk s t = KScan j m \<Longrightarrow> j < ep_n s \<Longrightarrow>
    ep_step s (s\<lparr>ep_wk := (ep_wk s)(t := KScan (j + 1) (case ep_slot s j of Some e \<Rightarrow> if e < m then e else m | None \<Rightarrow> m))\<rparr>)"
| s_done: "ep_wk s t = KScan j m \<Longrightarrow> j = ep_n s \<Longrightarrow> ep_step s (s\<lparr>ep_wk := (ep_wk s)(t := KFree m)\<rparr>)"
| s_free: "ep_wk s t = KFree m \<Longrightarrow> (x, e) \<in> set (ep_bag s t) \<Longrightarrow> e < m \<Longrightarrow>
    ep_step s (s\<lparr>ep_bag := (ep_bag s)(t := remove1 (x, e) (ep_bag s t)), ep_freed := insert x (ep_freed s)\<rparr>)"
| s_free_orphan: "ep_wk s t = KFree m \<Longrightarrow> (x, e) \<in> set (ep_orphans s) \<Longrightarrow> e < m \<Longrightarrow>
    ep_step s (s\<lparr>ep_orphans := remove1 (x, e) (ep_orphans s), ep_freed := insert x (ep_freed s)\<rparr>)"
| s_end: "ep_wk s t = KFree m \<Longrightarrow> ep_step s (s\<lparr>ep_wk := (ep_wk s)(t := KIdle)\<rparr>)"

text \<open>The stamped objects, wherever they are.\<close>

definition stamped :: "ep_run \<Rightarrow> (nat \<times> nat) set" where
  "stamped s = set (ep_orphans s) \<union> (\<Union>t. set (ep_bag s t)) \<union> {(x, e). \<exists>t. ep_wk s t = KStamped x e}"

definition unlinked :: "ep_run \<Rightarrow> nat set" where "unlinked s = {x. \<exists>t. ep_wk s t = KUnlinked x}"

definition reader_ok :: "nat \<Rightarrow> nat \<Rightarrow> nat \<Rightarrow> nat option \<Rightarrow> rd_pc \<Rightarrow> nat set \<Rightarrow> bool" where
  "reader_ok n G i sl rd h \<longleftrightarrow> (\<forall>g. sl = Some g \<longrightarrow> g \<le> G) \<and> (\<forall>g. rd = RLoaded g \<longrightarrow> g \<le> G) \<and> (rd = RIn \<longleftrightarrow> sl \<noteq> None) \<and>
     (rd \<noteq> RIn \<longrightarrow> h = {}) \<and> (n \<le> i \<longrightarrow> rd = ROut)"

definition ep_readers :: "ep_run \<Rightarrow> bool" where
  "ep_readers s \<longleftrightarrow> (\<forall>i. reader_ok (ep_n s) (ep_global s) i (ep_slot s i) (ep_rd s i) (ep_held s i))"

definition ep_objects :: "ep_run \<Rightarrow> bool" where
  "ep_objects s \<longleftrightarrow> ep_linked s \<inter> ep_gone s = {} \<and> ep_freed s \<subseteq> ep_gone s \<and> fst ` stamped s \<subseteq> ep_gone s \<and> unlinked s \<subseteq> ep_gone s \<and>
     (\<forall>i. ep_held s i \<inter> ep_freed s = {})"

definition ep_pins :: "ep_run \<Rightarrow> bool" where
  "ep_pins s \<longleftrightarrow> (\<forall>i g x e. ep_slot s i = Some g \<longrightarrow> x \<in> ep_held s i \<longrightarrow> (x, e) \<in> stamped s \<longrightarrow> g \<le> e)"

definition ep_scans :: "ep_run \<Rightarrow> bool" where
  "ep_scans s \<longleftrightarrow>
    (\<forall>t j m. ep_wk s t = KScan j m \<longrightarrow> j \<le> ep_n s \<and> m \<le> ep_global s \<and> (\<forall>i < j. \<forall>x e. x \<in> ep_held s i \<longrightarrow> (x, e) \<in> stamped s \<longrightarrow> m \<le> e)) \<and>
    (\<forall>t m. ep_wk s t = KFree m \<longrightarrow> m \<le> ep_global s \<and> (\<forall>i x e. x \<in> ep_held s i \<longrightarrow> (x, e) \<in> stamped s \<longrightarrow> m \<le> e))"

definition ep_inv :: "ep_run \<Rightarrow> bool" where
  [inv_defs]: "ep_inv s \<longleftrightarrow> ep_readers s \<and> ep_objects s \<and> ep_pins s \<and> ep_scans s"

section \<open>Every step keeps the invariant\<close>

lemma reader_ok_cases:
  "i < n \<Longrightarrow> reader_ok n G i sl ROut h \<Longrightarrow> reader_ok n G i sl (RLoaded G) h"
  "reader_ok n G i sl (RLoaded g) h \<Longrightarrow> reader_ok n G i (Some g) RIn h"
  "reader_ok n G i sl RIn h \<Longrightarrow> reader_ok n G i sl RIn h'"
  "reader_ok n G i sl RIn h \<Longrightarrow> reader_ok n G i None ROut {}"
  "reader_ok n G i sl rd h \<Longrightarrow> reader_ok n (G + 1) i sl rd h"
  by (auto simp: reader_ok_def le_SucI)

lemma readers_step: "ep_step s t \<Longrightarrow> ep_readers s \<Longrightarrow> ep_readers t"
proof (induction rule: ep_step.induct)
  case (r_load i s)
  then show ?case using reader_ok_cases(1) [of i "ep_n s"] by (simp add: ep_readers_def) metis
next
  case (r_pin s i g)
  then show ?case using reader_ok_cases(2) [of "ep_n s" "ep_global s" i] by (simp add: ep_readers_def) metis
next
  case (r_read s i x)
  then show ?case using reader_ok_cases(3) [of "ep_n s" "ep_global s" i] by (simp add: ep_readers_def) metis
next
  case (r_out s i)
  then show ?case using reader_ok_cases(4) [of "ep_n s" "ep_global s" i] by (simp add: ep_readers_def) metis
next
  case (g_advance s)
  then show ?case using reader_ok_cases(5) [of "ep_n s" "ep_global s"] by (simp add: ep_readers_def)
qed (simp_all add: ep_readers_def)

lemma readersD:
  assumes "ep_readers s"
  shows "ep_slot s i = Some g \<Longrightarrow> g \<le> ep_global s" "x \<in> ep_held s i \<Longrightarrow> ep_rd s i = RIn" "ep_rd s i = RIn \<longleftrightarrow> ep_slot s i \<noteq> None"
    "ep_n s \<le> i \<Longrightarrow> ep_rd s i = ROut"
  using assms [unfolded ep_readers_def, rule_format, of i] by (auto simp: reader_ok_def)

text \<open>Only a stamp adds to the stamped objects, with the epoch of that moment.\<close>

lemma stamped_step:
  "ep_step s t \<Longrightarrow> (x, e) \<in> stamped t \<Longrightarrow> (x, e) \<in> stamped s \<or> x \<in> unlinked s \<and> e = ep_global s"
proof (induction rule: ep_step.induct)
  case (s_free s u m y f)
  then show ?case using notin_set_remove1 by (fastforce simp: stamped_def split: if_splits)
next
  case (s_free_orphan s u m y f)
  then show ?case using notin_set_remove1 by (fastforce simp: stamped_def)
qed (auto simp: stamped_def unlinked_def split: if_splits)

lemma held_step:
  "ep_step s t \<Longrightarrow> x \<in> ep_held t i \<Longrightarrow> x \<in> ep_held s i \<or> x \<in> ep_linked s \<and> stamped t = stamped s \<and> ep_wk t = ep_wk s"
  by (induction rule: ep_step.induct) (auto simp: stamped_def split: if_splits)

lemma global_mono: "ep_step s t \<Longrightarrow> ep_global s \<le> ep_global t \<and> ep_n t = ep_n s"
  by (induction rule: ep_step.induct) auto

lemma slot_step: "ep_step s t \<Longrightarrow> ep_slot t i = Some g \<Longrightarrow> ep_slot s i = Some g \<or> ep_rd s i = RLoaded g"
  by (induction rule: ep_step.induct) (auto split: if_splits)

lemma linked_not_stamped: "ep_objects s \<Longrightarrow> x \<in> ep_linked s \<Longrightarrow> (x, e) \<notin> stamped s"
  by (force simp: ep_objects_def)

lemma pins_step:
  assumes "ep_step s t" "ep_inv s"
  shows "ep_pins t"
  unfolding ep_pins_def
proof (intro allI impI)
  fix i g x e
  assume g: "ep_slot t i = Some g" and x: "x \<in> ep_held t i" and e: "(x, e) \<in> stamped t"
  have I: "ep_readers s" "ep_objects s" "ep_pins s" using assms(2) by (auto simp: ep_inv_def)
  show "g \<le> e"
  proof (cases "x \<in> ep_held s i")
    case True
    then have "ep_rd s i = RIn" using readersD(2) [OF I(1)] by blast
    then have gs: "ep_slot s i = Some g" using slot_step [OF assms(1) g] by auto
    show ?thesis using stamped_step [OF assms(1) e]
    proof
      assume "(x, e) \<in> stamped s"
      then show ?thesis using I(3) gs True by (auto simp: ep_pins_def)
    next
      assume "x \<in> unlinked s \<and> e = ep_global s"
      then show ?thesis using readersD(1) [OF I(1) gs] by simp
    qed
  next
    case False
    then show ?thesis using held_step [OF assms(1) x] linked_not_stamped [OF I(2)] e by auto
  qed
qed

lemma scan_min: "ep_slot s j = Some e \<Longrightarrow> (case ep_slot s j of Some e \<Rightarrow> if e < m then e else m | None \<Rightarrow> m) \<le> e"
  by simp

lemma wk_step:
  assumes "ep_step s t"
  shows "ep_wk t u = KScan j m \<Longrightarrow> ep_wk s u = KScan j m \<or> j = 0 \<and> m = ep_global s \<or>
      (\<exists>m'. 0 < j \<and> j \<le> ep_n s \<and> ep_wk s u = KScan (j - 1) m' \<and> m = (case ep_slot s (j - 1) of Some e \<Rightarrow> if e < m' then e else m' | None \<Rightarrow> m') \<and>
        ep_held t = ep_held s \<and> stamped t \<subseteq> stamped s)"
    and "ep_wk t u = KFree m \<Longrightarrow> ep_wk s u = KFree m \<or> ep_wk s u = KScan (ep_n s) m \<and> ep_held t = ep_held s \<and> stamped t \<subseteq> stamped s"
  using assms by (induction rule: ep_step.induct) (auto simp: stamped_def split: if_splits)

lemma scans_step:
  assumes "ep_step s t" "ep_inv s"
  shows "ep_scans t"
proof -
  have I: "ep_readers s" "ep_objects s" "ep_pins s" "ep_scans s" using assms(2) by (auto simp: ep_inv_def)
  note G = global_mono [OF assms(1)]
  have keep: "m \<le> e" if x: "x \<in> ep_held t i" "(x, e) \<in> stamped t" and m: "m \<le> ep_global s"
    and old: "\<And>x e. x \<in> ep_held s i \<Longrightarrow> (x, e) \<in> stamped s \<Longrightarrow> m \<le> e" for i x e m
    using held_step [OF assms(1) x(1)] stamped_step [OF assms(1) x(2)] linked_not_stamped [OF I(2)] old m x(2) by auto
  have "j \<le> ep_n t \<and> m \<le> ep_global t \<and> (\<forall>i < j. \<forall>x e. x \<in> ep_held t i \<longrightarrow> (x, e) \<in> stamped t \<longrightarrow> m \<le> e)" if u: "ep_wk t u = KScan j m" for u j m
  proof -
    consider "ep_wk s u = KScan j m" | "j = 0" "m = ep_global s" | m' where "0 < j" "j \<le> ep_n s" "ep_wk s u = KScan (j - 1) m'"
        "m = (case ep_slot s (j - 1) of Some e \<Rightarrow> if e < m' then e else m' | None \<Rightarrow> m')" "ep_held t = ep_held s" "stamped t \<subseteq> stamped s"
      using wk_step(1) [OF assms(1) u] by blast
    then show ?thesis
    proof cases
      case 1
      then have o: "j \<le> ep_n s" "m \<le> ep_global s" "\<And>i x e. i < j \<Longrightarrow> x \<in> ep_held s i \<Longrightarrow> (x, e) \<in> stamped s \<Longrightarrow> m \<le> e"
        using I(4) unfolding ep_scans_def by blast+
      then show ?thesis using G keep by fastforce
    next
      case 2
      then show ?thesis using G by simp
    next
      case 3
      then have o: "m' \<le> ep_global s" "\<And>i x e. i < j - 1 \<Longrightarrow> x \<in> ep_held s i \<Longrightarrow> (x, e) \<in> stamped s \<Longrightarrow> m' \<le> e"
        using I(4) unfolding ep_scans_def by blast+
      have mm: "m \<le> m'" using 3(4) by (auto split: option.splits)
      have "m \<le> e" if ix: "i < j" "x \<in> ep_held s i" "(x, e) \<in> stamped s" for i x e
      proof (cases "i = j - 1")
        case True
        obtain g where g: "ep_slot s i = Some g" using readersD(2,3) [OF I(1)] ix(2) by blast
        then have "g \<le> e" using I(3) that unfolding ep_pins_def by blast
        moreover have "m \<le> g" using 3(4) g True by simp
        ultimately show ?thesis by simp
      next
        case False
        then have "i < j - 1" using that(1) by simp
        then show ?thesis using o(2) that mm le_trans by blast
      qed
      then show ?thesis using 3(2,5,6) G o(1) mm by auto
    qed
  qed
  moreover have "m \<le> ep_global t \<and> (\<forall>i x e. x \<in> ep_held t i \<longrightarrow> (x, e) \<in> stamped t \<longrightarrow> m \<le> e)" if u: "ep_wk t u = KFree m" for u m
  proof -
    have "m \<le> ep_global s \<and> (\<forall>i x e. x \<in> ep_held s i \<longrightarrow> (x, e) \<in> stamped s \<longrightarrow> m \<le> e)"
      using wk_step(2) [OF assms(1) u]
    proof
      assume "ep_wk s u = KFree m"
      then show ?thesis using I(4) unfolding ep_scans_def by blast
    next
      assume "ep_wk s u = KScan (ep_n s) m \<and> ep_held t = ep_held s \<and> stamped t \<subseteq> stamped s"
      then have "m \<le> ep_global s" "\<And>i x e. i < ep_n s \<Longrightarrow> x \<in> ep_held s i \<Longrightarrow> (x, e) \<in> stamped s \<Longrightarrow> m \<le> e"
        using I(4) unfolding ep_scans_def by blast+
      moreover have "i < ep_n s" if "x \<in> ep_held s i" for x i
      proof (rule ccontr)
        assume "\<not> i < ep_n s"
        then show False using readersD(2,4) [OF I(1)] that by (metis not_less rd_pc.distinct(3))
      qed
      ultimately show ?thesis by blast
    qed
    then show ?thesis using G keep [of _ _ _ m] by (meson le_trans)
  qed
  ultimately show ?thesis unfolding ep_scans_def by blast
qed

lemma freed_step:
  assumes "ep_step s t" "x \<in> ep_freed t" "x \<notin> ep_freed s"
  shows "ep_held t = ep_held s \<and> (\<exists>u m e. ep_wk s u = KFree m \<and> (x, e) \<in> stamped s \<and> e < m)"
  using assms by (induction rule: ep_step.induct) (auto simp: stamped_def)

lemma gone_step:
  "ep_step s t \<Longrightarrow> ep_gone s \<subseteq> ep_gone t \<and> unlinked t \<subseteq> unlinked s \<union> ep_gone t \<and> ep_linked t \<inter> ep_gone t \<subseteq> ep_linked s \<inter> ep_gone s"
  by (induction rule: ep_step.induct) (auto simp: unlinked_def split: if_splits)

lemma objects_step:
  assumes "ep_step s t" "ep_inv s"
  shows "ep_objects t"
proof -
  have I: "ep_objects s" "ep_scans s" using assms(2) by (auto simp: ep_inv_def)
  note O = I(1) [unfolded ep_objects_def] and G = gone_step [OF assms(1)]
  have f: "ep_freed t \<subseteq> ep_gone t"
  proof
    fix x assume x: "x \<in> ep_freed t"
    show "x \<in> ep_gone t"
    proof (cases "x \<in> ep_freed s")
      case False
      then obtain e where "(x, e) \<in> stamped s" using freed_step [OF assms(1) x] by blast
      then show ?thesis using O G by force
    qed (use O G in blast)
  qed
  have "x \<in> ep_gone t" if xe: "(x, e) \<in> stamped t" for x e
  proof -
    have "x \<in> ep_gone s" using stamped_step [OF assms(1) xe]
    proof
      assume "(x, e) \<in> stamped s"
      then have "x \<in> fst ` stamped s" by (rule image_eqI [rotated]) simp
      then show ?thesis using O by blast
    qed (use O in blast)
    then show ?thesis using G by blast
  qed
  then have st: "fst ` stamped t \<subseteq> ep_gone t" by auto
  have "x \<notin> ep_freed t" if x: "x \<in> ep_held t i" for x i
  proof
    assume fx: "x \<in> ep_freed t"
    show False
    proof (cases "x \<in> ep_freed s")
      case True
      then show False using held_step [OF assms(1) x] O by blast
    next
      case False
      then obtain u m e where "ep_held t = ep_held s" "ep_wk s u = KFree m" "(x, e) \<in> stamped s" "e < m"
        using freed_step [OF assms(1) fx] by blast
      then show False using I(2) x unfolding ep_scans_def by (metis not_less)
    qed
  qed
  then show ?thesis using O G f st unfolding ep_objects_def by blast
qed

interpretation ep_runs: transition_system ep_step ep_inv
  by unfold_locales (auto simp: ep_inv_def intro: readers_step objects_step pins_step scans_step)

lemma ep_init_inv: "ep_inv (ep_init n)"
  by (simp add: ep_inv_def ep_readers_def reader_ok_def ep_objects_def ep_pins_def ep_scans_def ep_init_def stamped_def unlinked_def)

section \<open>What reclamation promises\<close>

text \<open>(C3) No use after free: under every interleaving of guards, unlinks, stamps, hand-offs to the orphan store, epoch advances
  and slot scans, an object a guarded reader has read and an object still linked is never one that has been freed.\<close>

theorem guarded_readers_hold_no_freed_object:
  assumes "reach ep_step (ep_init n) s"
  shows "ep_held s i \<inter> ep_freed s = {} \<and> ep_linked s \<inter> ep_freed s = {}"
  using ep_runs.reach_inv [OF assms ep_init_inv] by (auto simp: ep_inv_def ep_objects_def)

theorem guarded_readers_hold_no_freed_object_witness:
  "\<exists>s. reach ep_step (ep_init 2) s \<and> ep_linked s = {7} \<and> ep_linked s \<inter> ep_freed s = {}"
proof -
  have "ep_step (ep_init 2) ((ep_init 2)\<lparr>ep_linked := insert 7 (ep_linked (ep_init 2))\<rparr>)"
    by (rule ep_step.p_link) (simp_all add: ep_init_def)
  then have r: "reach ep_step (ep_init 2) ((ep_init 2)\<lparr>ep_linked := insert 7 (ep_linked (ep_init 2))\<rparr>)" by (rule reach_one)
  then show ?thesis using guarded_readers_hold_no_freed_object [OF r] by (intro exI conjI) (auto simp: ep_init_def)
qed

text \<open>A reclaim pass frees exactly what it may: \<open>TryReclaim\<close> computes a safe epoch no larger than the global epoch and
  every pinned slot, runs the deleters of exactly the entries of its bag (and, when asked, of the orphan store) that
  are older, in order, keeps the others, keeps what the deleters retired, and leaves the retire count balanced.\<close>

theorem reclaim_frees_exactly_the_unpinned:
  "let safe = MinActiveEpoch m; m' = TryReclaim del t True m;
       old = filter (\<lambda>w. er_epoch w < safe) (epochBag m t @ epochOrphans m) in
   safe \<le> globalEpoch m \<and> (\<forall>p \<in> set (participants m). \<forall>e. threadEpochs m ! p = Some e \<longrightarrow> safe \<le> e) \<and>
   em_freed m' = em_freed m @ map er_ptr old \<and> epochOrphans m' = filter (\<lambda>w. safe \<le> er_epoch w) (epochOrphans m) \<and>
   mset (epochBag m' t) = mset (filter (\<lambda>w. safe \<le> er_epoch w) (epochBag m t)) + mset (concat (map (\<lambda>w. del (er_ptr w)) old)) \<and>
   retiredCount m' = retiredCount m + int (length (concat (map (\<lambda>w. del (er_ptr w)) old))) - int (length old)"
proof -
  define safe where "safe = MinActiveEpoch m"
  define m' where "m' = TryReclaim del t True m"
  define old where "old = filter (\<lambda>w. er_epoch w < safe) (epochBag m t @ epochOrphans m)"
  have "safe \<le> globalEpoch m \<and> (\<forall>p \<in> set (participants m). \<forall>e. threadEpochs m ! p = Some e \<longrightarrow> safe \<le> e)"
    unfolding safe_def MinActiveEpoch_def by (rule min_epoch_le)
  moreover have "em_freed m' = em_freed m @ map er_ptr old" "epochOrphans m' = filter (\<lambda>w. safe \<le> er_epoch w) (epochOrphans m)"
    "retiredCount m' = retiredCount m + int (length (concat (map (\<lambda>w. del (er_ptr w)) old))) - int (length old)"
    unfolding m'_def old_def safe_def by (auto simp: TryReclaim_def SweepEpochOrphans_def reclaim_loop_spec Let_def not_less)
  moreover have "mset (epochBag m' t) = mset (filter (\<lambda>w. safe \<le> er_epoch w) (epochBag m t)) + mset (concat (map (\<lambda>w. del (er_ptr w)) old))"
    unfolding m'_def old_def safe_def by (auto simp: TryReclaim_def SweepEpochOrphans_def reclaim_loop_spec Let_def not_less)
  ultimately show ?thesis unfolding Let_def safe_def [symmetric] m'_def [symmetric] old_def [symmetric] by blast
qed

definition em_demo :: EpochManager where
  "em_demo = \<lparr>globalEpoch = 5, threadEpochs = [None, Some 3], participants = [0, 1], retiredCount = 2, externalBase = 2, externalCount = 0,
     externalClaimed = [], epochOrphans = [], epochBag = (\<lambda>t. if t = 0 then [\<lparr>er_ptr = 70, er_epoch = 2\<rparr>, \<lparr>er_ptr = 80, er_epoch = 3\<rparr>] else []),
     epochBagDead = (\<lambda>_. False), bagLimit = (\<lambda>_. 64), runsGates = (\<lambda>_. True), em_freed = []\<rparr>"

theorem reclaim_frees_exactly_the_unpinned_witness:
  "em_freed (TryReclaim (\<lambda>_. []) 0 True em_demo) = [70]"
  using reclaim_frees_exactly_the_unpinned [of em_demo "\<lambda>_. []" 0] by (simp add: em_demo_def MinActiveEpoch_def Let_def)

end
