(* ===== verification/Hazards.thy ===== *)
theory Hazards
  imports JPrelude
begin

text \<open>
  Hazard pointers (\<^verbatim>\<open>include/Hazard.h\<close>, \<^verbatim>\<open>src/Hazard.cpp\<close>). The first part has the domain's operations as functions: the table of cells is
  \<open>None\<close> before it is made, rows of workers come first, then the rows outside threads claim by their identity. The
  second part interleaves readers that publish and validate a pointer with writers that unlink and retire and threads
  that scan the cells and free, one access at a time. Two ghost fields record the two ways a run can leave the protocol:
  \<open>hr_mixed\<close> that a \<open>Swap\<close> overlapped the reading of the cells, \<open>hr_late\<close> that an orphan sweep freed an entry that
  entered the store after its scan began to read the cells.
\<close>

section \<open>The domain\<close>

definition kCellsPerReader :: nat where "kCellsPerReader = 4"
definition kExternalReaders :: nat where "kExternalReaders = 64"

record HazardDomain =
  hz_cells :: "ptr list option"
  externalOwners :: "nat list"
  hz_workerCount :: nat
  hz_readerCount :: nat
  hz_retire :: "nat \<Rightarrow> nat list"
  hz_retireDead :: "nat \<Rightarrow> bool"
  hz_orphans :: "nat list"
  hz_orphanTotal :: nat
  hz_depth :: "nat \<Rightarrow> nat"
  hz_freed :: "nat list"

datatype hazard_error = FatalCellOverflow | FatalNestedWorkerGuard

definition EnsureTable :: "nat option \<Rightarrow> HazardDomain \<Rightarrow> HazardDomain" where
  "EnsureTable workers d =
    (if hz_cells d \<noteq> None then d
     else case workers of
       None \<Rightarrow> d
     | Some w \<Rightarrow>
         d\<lparr>hz_workerCount := w, hz_readerCount := w + kExternalReaders,
           hz_cells := Some (replicate ((w + kExternalReaders) * kCellsPerReader) None),
           externalOwners := replicate kExternalReaders 0\<rparr>)"

fun find_owner :: "nat \<Rightarrow> nat \<Rightarrow> nat list \<Rightarrow> nat option" where
  "find_owner me i [] = None"
| "find_owner me i (x # xs) = (if x = me then Some i else find_owner me (i + 1) xs)"

text \<open>\<open>worker\<close> is the queue index of a pool worker, \<open>me\<close> the nonzero identity of any other thread.\<close>

definition CurrentReader :: "nat option \<Rightarrow> nat option \<Rightarrow> nat \<Rightarrow> HazardDomain \<Rightarrow> hazard_error + nat option \<times> HazardDomain" where
  "CurrentReader workers worker me d0 =
    (let d = EnsureTable workers d0 in
     if hz_cells d = None then Inr (None, d)
     else case worker of
       Some q \<Rightarrow> Inr (Some q, d)
     | None \<Rightarrow>
        (case find_owner me 0 (externalOwners d) of
           Some i \<Rightarrow> Inr (Some (hz_workerCount d + i), d)
         | None \<Rightarrow>
            (case find_owner 0 0 (externalOwners d) of
               Some i \<Rightarrow> Inr (Some (hz_workerCount d + i), d\<lparr>externalOwners := (externalOwners d)[i := me]\<rparr>)
             | None \<Rightarrow> Inl FatalCellOverflow)))"

definition Cells :: "nat option \<Rightarrow> HazardDomain \<Rightarrow> nat option" where
  "Cells reader d = (case reader of None \<Rightarrow> None | Some r \<Rightarrow> if hz_cells d = None \<or> hz_readerCount d \<le> r then None else Some (r * kCellsPerReader))"

definition AdoptOrphans :: "nat list \<Rightarrow> HazardDomain \<Rightarrow> HazardDomain" where
  "AdoptOrphans v d = (if v = [] then d else d\<lparr>hz_orphans := hz_orphans d @ v, hz_orphanTotal := hz_orphanTotal d + length v\<rparr>)"

definition named :: "HazardDomain \<Rightarrow> nat set" where
  "named d = (case hz_cells d of None \<Rightarrow> {} | Some cs \<Rightarrow> {x. Some x \<in> set (take (hz_readerCount d * kCellsPerReader) cs)})"

definition hz_Scan :: "nat option \<Rightarrow> nat \<Rightarrow> bool \<Rightarrow> HazardDomain \<Rightarrow> HazardDomain" where
  "hz_Scan workers t orphans d0 =
    (let d = EnsureTable workers d0 in
     if hz_retire d t = [] \<and> (\<not> orphans \<or> hz_orphans d = []) then d
     else if hz_cells d = None then d
     else
      (let N = named d;
           d1 = d\<lparr>hz_retire := (hz_retire d)(t := filter (\<lambda>x. x \<in> N) (hz_retire d t)),
                  hz_freed := hz_freed d @ filter (\<lambda>x. x \<notin> N) (hz_retire d t)\<rparr> in
       if orphans \<and> hz_orphans d1 \<noteq> []
       then d1\<lparr>hz_orphans := filter (\<lambda>x. x \<in> N) (hz_orphans d1), hz_freed := hz_freed d1 @ filter (\<lambda>x. x \<notin> N) (hz_orphans d1)\<rparr>
       else d1))"

definition hz_Retire :: "nat option \<Rightarrow> bool \<Rightarrow> nat \<Rightarrow> ptr \<Rightarrow> HazardDomain \<Rightarrow> HazardDomain" where
  "hz_Retire workers slotted t p d =
    (case p of
       None \<Rightarrow> d
     | Some x \<Rightarrow>
         if hz_retireDead d t \<or> \<not> slotted then AdoptOrphans [x] d
         else
          (let d1 = EnsureTable workers d; d2 = d1\<lparr>hz_retire := (hz_retire d1)(t := hz_retire d1 t @ [x])\<rparr>;
               threshold = 2 * hz_readerCount d2 * kCellsPerReader in
           if (if threshold \<noteq> 0 then threshold else 64) \<le> length (hz_retire d2 t) then hz_Scan workers t False d2 else d2))"

definition HandOffPending :: "nat \<Rightarrow> HazardDomain \<Rightarrow> HazardDomain" where
  "HandOffPending t d = (if hz_retireDead d t then d else (AdoptOrphans (hz_retire d t) d)\<lparr>hz_retire := (hz_retire d)(t := [])\<rparr>)"

definition RetireBatch_exit :: "nat \<Rightarrow> HazardDomain \<Rightarrow> HazardDomain" where
  "RetireBatch_exit t d =
    (let d1 = d\<lparr>hz_retireDead := (hz_retireDead d)(t := True)\<rparr> in (AdoptOrphans (hz_retire d1 t) d1)\<lparr>hz_retire := (hz_retire d1)(t := [])\<rparr>)"

definition set_cells :: "nat \<Rightarrow> ptr list \<Rightarrow> HazardDomain \<Rightarrow> HazardDomain" where
  "set_cells base vs d = d\<lparr>hz_cells := map_option (\<lambda>cs. take base cs @ vs @ drop (base + length vs) cs) (hz_cells d)\<rparr>"

definition ReleaseCurrentReader :: "nat \<Rightarrow> HazardDomain \<Rightarrow> HazardDomain" where
  "ReleaseCurrentReader me d =
    (if hz_cells d = None then d
     else case find_owner me 0 (externalOwners d) of
       None \<Rightarrow> d
     | Some i \<Rightarrow>
         (set_cells ((hz_workerCount d + i) * kCellsPerReader) (replicate kCellsPerReader None) d)
           \<lparr>externalOwners := (externalOwners d)[i := 0]\<rparr>)"

record HazardGuard =
  hg_cells :: "nat option"
  hg_countsForSuspend :: bool
  hg_reader :: "nat option"

definition new_HazardGuard :: "nat option \<Rightarrow> nat option \<Rightarrow> nat \<Rightarrow> nat \<Rightarrow> HazardDomain \<Rightarrow> hazard_error + HazardGuard \<times> HazardDomain" where
  "new_HazardGuard workers worker me t d =
    (case CurrentReader workers worker me d of
       Inl e \<Rightarrow> Inl e
     | Inr (r, d1) \<Rightarrow>
         if r \<noteq> None \<and> hz_depth d1 t \<noteq> 0 then Inl FatalNestedWorkerGuard
         else Inr (\<lparr>hg_cells = Cells r d1, hg_countsForSuspend = (r \<noteq> None), hg_reader = r\<rparr>,
                   if r \<noteq> None then d1\<lparr>hz_depth := (hz_depth d1)(t := hz_depth d1 t + 1)\<rparr> else d1))"

definition delete_HazardGuard :: "nat \<Rightarrow> HazardGuard \<Rightarrow> HazardDomain \<Rightarrow> HazardDomain" where
  "delete_HazardGuard t g d =
    (let d1 = (if hg_countsForSuspend g then d\<lparr>hz_depth := (hz_depth d)(t := hz_depth d t - 1)\<rparr> else d) in
     case hg_cells g of None \<Rightarrow> d1 | Some base \<Rightarrow> set_cells base (replicate kCellsPerReader None) d1)"

definition hg_Set :: "HazardGuard \<Rightarrow> nat \<Rightarrow> ptr \<Rightarrow> HazardDomain \<Rightarrow> HazardDomain" where
  "hg_Set g k p d = (case hg_cells g of None \<Rightarrow> d | Some base \<Rightarrow> if kCellsPerReader \<le> k then d else set_cells (base + k) [p] d)"

definition hg_Clear :: "HazardGuard \<Rightarrow> nat \<Rightarrow> HazardDomain \<Rightarrow> HazardDomain" where "hg_Clear g k d = hg_Set g k None d"

definition hg_Swap :: "HazardGuard \<Rightarrow> nat \<Rightarrow> nat \<Rightarrow> HazardDomain \<Rightarrow> HazardDomain" where
  "hg_Swap g a b d =
    (case (hg_cells g, hz_cells d) of
       (Some base, Some cs) \<Rightarrow> (let va = cs ! (base + a); vb = cs ! (base + b) in set_cells (base + b) [va] (set_cells (base + a) [vb] d))
     | _ \<Rightarrow> d)"

section \<open>Readers, writers and scanners\<close>

text \<open>The program points of one cell of a reader: at rest with nothing held, inside \<open>Protect\<close>, holding the validated pointer, and
  inside \<open>Swap\<close> between its two stores, with what the cell will hold.\<close>

datatype hr_pc = HOut | HLoaded nat ptr | HSet nat ptr | HHeld nat | HSwap "nat option" ptr
datatype hw_pc = HwIdle | HwUnlinked nat | HwScan nat "nat set" | HwFree "nat set"

fun at_rest :: "hr_pc \<Rightarrow> bool" where
  "at_rest HOut = True" | "at_rest (HHeld p) = True" | "at_rest _ = False"

fun held :: "hr_pc \<Rightarrow> nat option" where
  "held (HHeld p) = Some p" | "held (HSwap q v) = q" | "held _ = None"

definition resting :: "nat option \<Rightarrow> hr_pc" where
  "resting q = (case q of None \<Rightarrow> HOut | Some p \<Rightarrow> HHeld p)"

definition swapping :: "hr_pc \<Rightarrow> bool" where "swapping pc \<longleftrightarrow> (case pc of HSwap q v \<Rightarrow> True | _ \<Rightarrow> False)"

definition scanning :: "hw_pc \<Rightarrow> bool" where "scanning pc \<longleftrightarrow> (case pc of HwScan j S \<Rightarrow> True | _ \<Rightarrow> False)"

record hz_run =
  hr_n :: nat
  hr_src :: "nat \<Rightarrow> ptr"
  hr_cell :: "nat \<Rightarrow> ptr"
  hr_rd :: "nat \<Rightarrow> hr_pc"
  hr_wk :: "nat \<Rightarrow> hw_pc"
  hr_bag :: "nat \<Rightarrow> nat list"
  hr_orphans :: "nat list"
  hr_gone :: "nat set"
  hr_freed :: "nat set"
  hr_seen :: "nat \<Rightarrow> nat set"
  hr_mixed :: bool
  hr_late :: bool

definition hz_init :: "nat \<Rightarrow> (nat \<Rightarrow> ptr) \<Rightarrow> hz_run" where
  "hz_init n src = \<lparr>hr_n = n, hr_src = src, hr_cell = (\<lambda>_. None), hr_rd = (\<lambda>_. HOut), hr_wk = (\<lambda>_. HwIdle), hr_bag = (\<lambda>_. []),
     hr_orphans = [], hr_gone = {}, hr_freed = {}, hr_seen = (\<lambda>_. {}), hr_mixed = False, hr_late = False\<rparr>"

text \<open>\<open>h_put\<close> is \<open>Set\<close>, \<open>Clear\<close> and each store of the guard's destructor. \<open>Swap\<close> loads its two cells, which only their
  own reader stores to, and stores them one after the other. \<open>w_unlink\<close> carries the caller's part of the scheme: an object
  is in one place when it is unlinked, and is never linked again.\<close>

inductive hz_step :: "hz_run \<Rightarrow> hz_run \<Rightarrow> bool" where
  h_load: "c < hr_n s \<Longrightarrow> at_rest (hr_rd s c) \<Longrightarrow> hz_step s (s\<lparr>hr_rd := (hr_rd s)(c := HLoaded l (hr_src s l))\<rparr>)"
| h_set: "hr_rd s c = HLoaded l v \<Longrightarrow> hz_step s (s\<lparr>hr_rd := (hr_rd s)(c := HSet l v), hr_cell := (hr_cell s)(c := v)\<rparr>)"
| h_valid: "hr_rd s c = HSet l v \<Longrightarrow> hr_src s l = v \<Longrightarrow> hz_step s (s\<lparr>hr_rd := (hr_rd s)(c := resting v)\<rparr>)"
| h_retry: "hr_rd s c = HSet l v \<Longrightarrow> hr_src s l \<noteq> v \<Longrightarrow> hz_step s (s\<lparr>hr_rd := (hr_rd s)(c := HOut)\<rparr>)"
| h_put: "c < hr_n s \<Longrightarrow> at_rest (hr_rd s c) \<Longrightarrow> hz_step s (s\<lparr>hr_rd := (hr_rd s)(c := HOut), hr_cell := (hr_cell s)(c := v)\<rparr>)"
| h_swap_a: "a < hr_n s \<Longrightarrow> b < hr_n s \<Longrightarrow> a \<noteq> b \<Longrightarrow> a div kCellsPerReader = b div kCellsPerReader \<Longrightarrow>
    at_rest (hr_rd s a) \<Longrightarrow> at_rest (hr_rd s b) \<Longrightarrow>
    hz_step s (s\<lparr>hr_rd := (hr_rd s)(a := hr_rd s b, b := HSwap (held (hr_rd s a)) (hr_cell s a)), hr_cell := (hr_cell s)(a := hr_cell s b),
      hr_mixed := (hr_mixed s \<or> (\<exists>t. scanning (hr_wk s t)))\<rparr>)"
| h_swap_b: "hr_rd s b = HSwap q v \<Longrightarrow> hz_step s (s\<lparr>hr_rd := (hr_rd s)(b := resting q), hr_cell := (hr_cell s)(b := v)\<rparr>)"
| w_unlink: "hr_wk s t = HwIdle \<Longrightarrow> hr_src s l = Some x \<Longrightarrow> \<forall>k. k \<noteq> l \<longrightarrow> hr_src s k \<noteq> Some x \<Longrightarrow>
    y \<noteq> Some x \<Longrightarrow> \<forall>z. y = Some z \<longrightarrow> z \<notin> hr_gone s \<Longrightarrow>
    hz_step s (s\<lparr>hr_wk := (hr_wk s)(t := HwUnlinked x), hr_src := (hr_src s)(l := y), hr_gone := insert x (hr_gone s)\<rparr>)"
| w_retire: "hr_wk s t = HwUnlinked x \<Longrightarrow> hz_step s (s\<lparr>hr_wk := (hr_wk s)(t := HwIdle), hr_bag := (hr_bag s)(t := hr_bag s t @ [x])\<rparr>)"
| w_orphan: "hr_wk s t = HwUnlinked x \<Longrightarrow> hz_step s (s\<lparr>hr_wk := (hr_wk s)(t := HwIdle), hr_orphans := hr_orphans s @ [x]\<rparr>)"
| w_hand: "hr_wk s t = HwIdle \<Longrightarrow> hz_step s (s\<lparr>hr_bag := (hr_bag s)(t := []), hr_orphans := hr_orphans s @ hr_bag s t\<rparr>)"
| s_start: "hr_wk s t = HwIdle \<Longrightarrow>
    hz_step s (s\<lparr>hr_wk := (hr_wk s)(t := HwScan 0 {}), hr_seen := (hr_seen s)(t := set (hr_orphans s)),
      hr_mixed := (hr_mixed s \<or> (\<exists>c. swapping (hr_rd s c)))\<rparr>)"
| s_cell: "hr_wk s t = HwScan j S \<Longrightarrow> j < hr_n s \<Longrightarrow>
    hz_step s (s\<lparr>hr_wk := (hr_wk s)(t := HwScan (j + 1) (case hr_cell s j of Some v \<Rightarrow> insert v S | None \<Rightarrow> S))\<rparr>)"
| s_done: "hr_wk s t = HwScan j S \<Longrightarrow> j = hr_n s \<Longrightarrow> hz_step s (s\<lparr>hr_wk := (hr_wk s)(t := HwFree S)\<rparr>)"
| s_free: "hr_wk s t = HwFree S \<Longrightarrow> x \<in> set (hr_bag s t) \<Longrightarrow> x \<notin> S \<Longrightarrow>
    hz_step s (s\<lparr>hr_bag := (hr_bag s)(t := filter (\<lambda>y. y \<noteq> x) (hr_bag s t)), hr_freed := insert x (hr_freed s)\<rparr>)"
| s_sweep: "hr_wk s t = HwFree S \<Longrightarrow> x \<in> set (hr_orphans s) \<Longrightarrow> x \<notin> S \<Longrightarrow>
    hz_step s (s\<lparr>hr_orphans := filter (\<lambda>y. y \<noteq> x) (hr_orphans s), hr_freed := insert x (hr_freed s),
      hr_late := (hr_late s \<or> x \<notin> hr_seen s t)\<rparr>)"
| s_end: "hr_wk s t = HwFree S \<Longrightarrow> hz_step s (s\<lparr>hr_wk := (hr_wk s)(t := HwIdle)\<rparr>)"

definition retired :: "hz_run \<Rightarrow> nat set" where
  "retired s = set (hr_orphans s) \<union> (\<Union>t. set (hr_bag s t)) \<union> {x. \<exists>t. hr_wk s t = HwUnlinked x}"

text \<open>What thread \<open>t\<close>'s scan may free without leaving the protocol.\<close>

definition due :: "hz_run \<Rightarrow> nat \<Rightarrow> nat set" where "due s t = set (hr_bag s t) \<union> hr_seen s t"

definition hz_objects :: "hz_run \<Rightarrow> bool" where
  "hz_objects s \<longleftrightarrow> (\<forall>l x. hr_src s l = Some x \<longrightarrow> x \<notin> hr_gone s) \<and> retired s \<subseteq> hr_gone s \<and> hr_freed s \<subseteq> hr_gone s \<and>
    (\<forall>t. due s t \<subseteq> hr_gone s)"

definition hz_cells_ok :: "hz_run \<Rightarrow> bool" where
  "hz_cells_ok s \<longleftrightarrow> (\<forall>c p. held (hr_rd s c) = Some p \<longrightarrow> p \<notin> hr_freed s) \<and> (\<forall>c p. hr_rd s c = HHeld p \<longrightarrow> hr_cell s c = Some p) \<and>
    (\<forall>c l v. hr_rd s c = HSet l v \<longrightarrow> hr_cell s c = v) \<and> (\<forall>c p v. hr_rd s c = HSwap (Some p) v \<longrightarrow> v = Some p) \<and>
    (\<forall>c. hr_n s \<le> c \<longrightarrow> hr_rd s c = HOut)"

definition hz_scans :: "hz_run \<Rightarrow> bool" where
  "hz_scans s \<longleftrightarrow>
    (\<forall>t j S. hr_wk s t = HwScan j S \<longrightarrow> (\<forall>c < j. \<forall>p. held (hr_rd s c) = Some p \<longrightarrow> p \<in> due s t \<longrightarrow> p \<in> S)) \<and>
    (\<forall>t S. hr_wk s t = HwFree S \<longrightarrow> (\<forall>c p. held (hr_rd s c) = Some p \<longrightarrow> p \<in> due s t \<longrightarrow> p \<in> S)) \<and>
    (\<forall>t c. scanning (hr_wk s t) \<longrightarrow> \<not> swapping (hr_rd s c))"

definition hz_inv :: "hz_run \<Rightarrow> bool" where
  [inv_defs]: "hz_inv s \<longleftrightarrow> hz_objects s \<and> (\<not> hr_mixed s \<and> \<not> hr_late s \<longrightarrow> hz_cells_ok s \<and> hz_scans s)"

section \<open>Safety of scans that overlap no swap and sweep no late orphan\<close>

lemma held_simps [simp]: "held (resting q) = q" "swapping HOut = False" "swapping (HHeld p) = False" "swapping (HLoaded l v) = False"
  "swapping (HSet l v) = False" "swapping (HSwap q v) = True" "swapping (resting q) = False" "scanning HwIdle = False" "scanning (HwUnlinked x) = False"
  "scanning (HwScan j S) = True" "scanning (HwFree S) = False" "resting q \<noteq> HSwap r v" "resting q \<noteq> HSet l v" "resting q \<noteq> HLoaded l v"
  "(resting q = HHeld p) = (q = Some p)"
  by (auto simp: resting_def swapping_def scanning_def split: option.splits)

lemma at_rest_iff: "at_rest pc \<longleftrightarrow> pc = HOut \<or> (\<exists>p. pc = HHeld p)"
  by (cases pc) auto

lemma held_iff: "held pc = Some p \<longleftrightarrow> pc = HHeld p \<or> (\<exists>v. pc = HSwap (Some p) v)"
  by (cases pc) auto

lemma gone_hz:
  "hz_step s t \<Longrightarrow> hr_gone s \<subseteq> hr_gone t \<and> retired t \<subseteq> retired s \<union> hr_gone t \<and> hr_freed t \<subseteq> hr_freed s \<union> retired s \<and>
   due t u \<subseteq> due s u \<union> retired s"
  by (induction rule: hz_step.induct) (auto simp: retired_def due_def split: if_splits)

lemma src_hz:
  "hz_step s t \<Longrightarrow> \<forall>l x. hr_src s l = Some x \<longrightarrow> x \<notin> hr_gone s \<Longrightarrow> hr_src t l = Some x \<Longrightarrow> x \<notin> hr_gone t"
proof (induction rule: hz_step.induct)
  case (w_unlink s u k y z)
  then show ?case by (cases "l = k") auto
qed auto

lemma objects_hz: "hz_step s t \<Longrightarrow> hz_objects s \<Longrightarrow> hz_objects t"
  using gone_hz [of s t] src_hz [of s t] unfolding hz_objects_def by blast

lemma ghosts_hz: "hz_step s t \<Longrightarrow> (hr_mixed s \<longrightarrow> hr_mixed t) \<and> (hr_late s \<longrightarrow> hr_late t) \<and> hr_n t = hr_n s"
  by (induction rule: hz_step.induct) auto

text \<open>A pointer held after a step was held at the same cell before it, has just been validated, or was carried over by a swap.\<close>

lemma held_hz:
  "hz_step s t \<Longrightarrow> held (hr_rd t c) = Some p \<Longrightarrow>
   held (hr_rd s c) = Some p \<or>
   ((\<exists>l. hr_rd s c = HSet l (Some p) \<and> hr_src s l = Some p) \<or> (\<exists>b. held (hr_rd s b) = Some p) \<and> ((\<exists>u. scanning (hr_wk s u)) \<longrightarrow> hr_mixed t)) \<and>
   hr_freed t = hr_freed s \<and> hr_wk t = hr_wk s \<and> hr_bag t = hr_bag s \<and> hr_seen t = hr_seen s"
proof (induction rule: hz_step.induct)
  case (h_swap_a a s b)
  then show ?case by (auto simp: at_rest_iff split: if_splits)
qed (auto split: if_splits)

lemma shape_hz:
  assumes "hz_step s t" "hz_cells_ok s"
  shows "(\<forall>p. hr_rd t c = HHeld p \<longrightarrow> hr_cell t c = Some p) \<and> (\<forall>l v. hr_rd t c = HSet l v \<longrightarrow> hr_cell t c = v) \<and>
    (\<forall>p v. hr_rd t c = HSwap (Some p) v \<longrightarrow> v = Some p) \<and> (hr_n s \<le> c \<longrightarrow> hr_rd t c = HOut)"
  using assms
proof (induction rule: hz_step.induct)
  case (h_swap_a a s b)
  then show ?case by (auto simp: at_rest_iff hz_cells_ok_def)
next
  case (h_set s b l v)
  then show ?case unfolding hz_cells_ok_def by (cases "hr_n s \<le> b") auto
next
  case (h_valid s b l v)
  then show ?case unfolding hz_cells_ok_def by (cases "hr_n s \<le> b") auto
next
  case (h_swap_b s b q v)
  then show ?case unfolding hz_cells_ok_def by (cases "hr_n s \<le> b") auto
qed (auto simp: hz_cells_ok_def)

lemma freed_hz:
  "hz_step s t \<Longrightarrow> x \<in> hr_freed t \<Longrightarrow> x \<notin> hr_freed s \<Longrightarrow>
   hr_rd t = hr_rd s \<and> (\<exists>u S. hr_wk s u = HwFree S \<and> (x \<in> due s u \<or> hr_late t) \<and> x \<notin> S)"
  by (induction rule: hz_step.induct) (auto simp: due_def)

lemma wk_hz:
  assumes "hz_step s t"
  shows "hr_wk t u = HwScan j S \<Longrightarrow> j = 0 \<or> (due t u \<subseteq> due s u \<and> (hr_wk s u = HwScan j S \<or>
      (\<exists>S'. 0 < j \<and> hr_wk s u = HwScan (j - 1) S' \<and> S = (case hr_cell s (j - 1) of Some v \<Rightarrow> insert v S' | None \<Rightarrow> S') \<and> hr_rd t = hr_rd s)))"
    and "hr_wk t u = HwFree S \<Longrightarrow> due t u \<subseteq> due s u \<and> (hr_wk s u = HwFree S \<or> hr_wk s u = HwScan (hr_n s) S \<and> hr_rd t = hr_rd s)"
  using assms by (induction rule: hz_step.induct) (auto simp: due_def split: if_splits)

lemma apart_hz:
  "hz_step s t \<Longrightarrow> \<forall>u c. scanning (hr_wk s u) \<longrightarrow> \<not> swapping (hr_rd s c) \<Longrightarrow> \<not> hr_mixed t \<Longrightarrow> scanning (hr_wk t u) \<Longrightarrow> \<not> swapping (hr_rd t c)"
proof (induction rule: hz_step.induct)
  case (h_swap_a a s b)
  then show ?case by auto
next
  case (s_start s w)
  then show ?case by (auto split: if_splits)
next
  case (s_cell s w j S)
  then have "scanning (hr_wk s u)" by (auto split: if_splits)
  then show ?case using s_cell.prems by auto
qed (auto split: if_splits)

lemma cells_hz:
  assumes "hz_step s t" "hz_objects s" "hz_cells_ok s" "hz_scans s" "\<not> hr_late t"
  shows "hz_cells_ok t"
proof -
  have "p \<notin> hr_freed t" if h: "held (hr_rd t c) = Some p" for c p
  proof (cases "hr_freed t = hr_freed s")
    case True
    consider b where "held (hr_rd s b) = Some p" | l where "hr_src s l = Some p" using held_hz [OF assms(1) h] by blast
    then show ?thesis using True assms(2,3) unfolding hz_cells_ok_def hz_objects_def by cases auto
  next
    case False
    then have o: "held (hr_rd s c) = Some p" using held_hz [OF assms(1) h] by blast
    then have "p \<notin> hr_freed s" using assms(3) unfolding hz_cells_ok_def by blast
    then show ?thesis using freed_hz [OF assms(1), of p] o assms(4,5) unfolding hz_scans_def by blast
  qed
  then show ?thesis using shape_hz [OF assms(1,3)] ghosts_hz [OF assms(1)] unfolding hz_cells_ok_def by simp
qed

text \<open>A pointer newly validated is not among what any scan may free.\<close>

lemma due_held_hz:
  assumes "hz_step s t" "hz_objects s" "held (hr_rd t c) = Some p" "p \<in> due t u"
  shows "held (hr_rd s c) = Some p \<or> hr_wk t = hr_wk s \<and> due t = due s \<and> (\<exists>b. held (hr_rd s b) = Some p) \<and> ((\<exists>w. scanning (hr_wk s w)) \<longrightarrow> hr_mixed t)"
proof -
  have "due t = due s" if "hr_bag t = hr_bag s" "hr_seen t = hr_seen s" using that by (auto simp: due_def fun_eq_iff)
  moreover have "hr_src s l \<noteq> Some p" if "due t = due s" for l using that assms(2,4) unfolding hz_objects_def by (metis subsetD)
  ultimately show ?thesis using held_hz [OF assms(1,3)] by blast
qed

lemma scans_hz:
  assumes "hz_step s t" "hz_objects s" "hz_cells_ok s" "hz_scans s" "\<not> hr_mixed t"
  shows "hz_scans t"
proof -
  have A: "\<forall>u c. scanning (hr_wk s u) \<longrightarrow> \<not> swapping (hr_rd s c)" using assms(4) unfolding hz_scans_def by blast
  have "p \<in> S" if w: "hr_wk t u = HwScan j S" "c < j" "held (hr_rd t c) = Some p" "p \<in> due t u" for u j S c p
  proof -
    have b: "p \<in> due s u" using wk_hz(1) [OF assms(1) w(1)] w(2,4) by auto
    have su: "scanning (hr_wk s u)" using wk_hz(1) [OF assms(1) w(1)] w(2) by auto
    then have r: "held (hr_rd s c) = Some p" using due_held_hz [OF assms(1,2) w(3,4)] assms(5) by blast
    moreover have "\<not> swapping (hr_rd s c)" using A su by blast
    ultimately have cl: "hr_cell s c = Some p" using assms(3) unfolding hz_cells_ok_def held_iff by auto
    consider "hr_wk s u = HwScan j S" | S' where "0 < j" "hr_wk s u = HwScan (j - 1) S'" "S = (case hr_cell s (j - 1) of Some v \<Rightarrow> insert v S' | None \<Rightarrow> S')"
      using wk_hz(1) [OF assms(1) w(1)] w(2) by auto
    then show ?thesis
    proof cases
      case 1
      then show ?thesis using assms(4) r b w(2) unfolding hz_scans_def by blast
    next
      case 2
      show ?thesis
      proof (cases "c = j - 1")
        case False
        then have "c < j - 1" using w(2) by simp
        then have "p \<in> S'" using assms(4) 2(2) r b unfolding hz_scans_def by blast
        then show ?thesis using 2(3) by (auto split: option.splits)
      qed (use cl 2(3) in simp)
    qed
  qed
  moreover have "p \<in> S" if w: "hr_wk t u = HwFree S" "held (hr_rd t c) = Some p" "p \<in> due t u" for u S c p
  proof -
    have b: "p \<in> due s u" using wk_hz(2) [OF assms(1) w(1)] w(3) by auto
    obtain d where r: "held (hr_rd s d) = Some p" using due_held_hz [OF assms(1,2) w(2,3)] by blast
    then have "d < hr_n s" using assms(3) unfolding hz_cells_ok_def by (metis held.simps(3) not_less option.distinct(1))
    moreover have "hr_wk s u = HwFree S \<or> hr_wk s u = HwScan (hr_n s) S" using wk_hz(2) [OF assms(1) w(1)] by blast
    ultimately show ?thesis using assms(4) r b unfolding hz_scans_def by blast
  qed
  moreover have "\<not> swapping (hr_rd t c)" if "scanning (hr_wk t u)" for u c using apart_hz [OF assms(1) A assms(5) that] .
  ultimately show ?thesis unfolding hz_scans_def by blast
qed

interpretation hz_runs: transition_system hz_step hz_inv
proof unfold_locales
  fix s t
  assume s: "hz_inv s" "hz_step s t"
  then have o: "hz_objects s" by (simp add: hz_inv_def)
  have "hz_cells_ok s \<and> hz_scans s" if "\<not> hr_mixed t \<and> \<not> hr_late t"
    using ghosts_hz [OF s(2)] that s(1) unfolding hz_inv_def by blast
  then show "hz_inv t" using o objects_hz [OF s(2)] cells_hz [OF s(2) o] scans_hz [OF s(2) o] unfolding hz_inv_def by blast
qed

lemma hz_init_inv: "hz_inv (hz_init n src)"
  by (simp add: hz_inv_def hz_objects_def hz_cells_ok_def hz_scans_def hz_init_def retired_def due_def)

section \<open>What hazard pointers promise\<close>

text \<open>(C24) A validated hazard pointer is safe: under every interleaving of \<open>Protect\<close>, \<open>Set\<close>, \<open>Clear\<close>, \<open>Swap\<close>, unlinking,
  retirement, orphaning, cell-by-cell scans and orphan sweeps, a pointer \<open>Protect\<close> has returned and that is not cleared or
  replaced stands in its cell and has not been freed, nor has one that a \<open>Swap\<close> is carrying between two cells. The two
  conditions are that no \<open>Swap\<close> has overlapped a scan's reading of the cells (\<open>hr_mixed\<close>) and that no sweep has freed an
  entry that came to the orphan store after its scan began (\<open>hr_late\<close>); the two runs below show that both are needed. Callers
  unlink an object from the one place that points to it and do not link it again.\<close>

theorem protected_pointer_is_not_freed:
  assumes "reach hz_step (hz_init n src) s" "\<not> hr_mixed s" "\<not> hr_late s" "held (hr_rd s c) = Some p"
  shows "p \<notin> hr_freed s \<and> (hr_rd s c = HHeld p \<longrightarrow> hr_cell s c = Some p)"
  using hz_runs.reach_inv [OF assms(1) hz_init_inv] assms(2-4) by (auto simp: hz_inv_def hz_cells_ok_def)

text \<open>The fields the runs below follow: where the shared pointer leads, the first two cells and the program points of their
  reader, the scanning thread 0 and the retiring thread 1.\<close>

definition hz_at :: "hz_run \<Rightarrow> ptr \<Rightarrow> ptr \<times> hr_pc \<Rightarrow> ptr \<times> hr_pc \<Rightarrow> hw_pc \<times> nat list \<Rightarrow> hw_pc \<Rightarrow> nat list \<Rightarrow> bool \<times> bool \<Rightarrow> bool" where
  "hz_at s v r0 r1 w0 w1 os g \<longleftrightarrow> hr_n s = 4 \<and> hr_src s 0 = v \<and> (\<forall>k. k \<noteq> 0 \<longrightarrow> hr_src s k \<noteq> Some 7) \<and> (hr_cell s 0, hr_rd s 0) = r0 \<and> (hr_cell s 1, hr_rd s 1) = r1 \<and>
     hr_cell s 2 = None \<and> hr_cell s 3 = None \<and> (\<forall>c. c \<noteq> 1 \<longrightarrow> \<not> swapping (hr_rd s c)) \<and> (hr_wk s 0, hr_bag s 0) = w0 \<and> hr_wk s 1 = w1 \<and> hr_orphans s = os \<and> (hr_mixed s, hr_late s) = g"

definition src7 :: "nat \<Rightarrow> ptr" where "src7 l = (if l = 0 then Some 7 else None)"

lemma hz_go:
  "reach hz_step s0 a \<Longrightarrow> hz_step a b \<Longrightarrow> hz_at b v r0 r1 w0 w1 os g \<Longrightarrow> \<exists>b. reach hz_step s0 b \<and> hz_at b v r0 r1 w0 w1 os g"
  by (blast intro: reach.reach_step)

lemma hz_run_start: "\<exists>s. reach hz_step (hz_init 4 src7) s \<and> hz_at s (Some 7) (None, HOut) (None, HOut) (HwIdle, []) HwIdle [] (False, False)"
  by (rule exI [of _ "hz_init 4 src7"]) (simp add: reach.reach_init hz_init_def hz_at_def src7_def)

text \<open>A reader publishes and validates a pointer while thread 0 is at any point \<open>w\<close>.\<close>

lemma hz_run_protect:
  assumes "\<exists>s. reach hz_step s0 s \<and> hz_at s (Some 7) (None, HOut) (None, HOut) w HwIdle [] (False, False)"
  shows "\<exists>s. reach hz_step s0 s \<and> hz_at s (Some 7) (None, HOut) (Some 7, HHeld 7) w HwIdle [] (False, False)"
proof -
  let ?R = "reach hz_step s0"
  from assms have "\<exists>s. ?R s \<and> hz_at s (Some 7) (None, HOut) (None, HOut) w HwIdle [] (False, False)" .
  then obtain a where a: "?R a" "hz_at a (Some 7) (None, HOut) (None, HOut) w HwIdle [] (False, False)" by blast
  have "\<exists>s. ?R s \<and> hz_at s (Some 7) (None, HOut) (None, HLoaded 0 (Some 7)) w HwIdle [] (False, False)" by (rule hz_go [OF a(1) hz_step.h_load [of 1 a 0]]) (use a(2) in \<open>auto simp: hz_at_def kCellsPerReader_def resting_def numeral_eq_Suc\<close>)
  then obtain a where a: "?R a" "hz_at a (Some 7) (None, HOut) (None, HLoaded 0 (Some 7)) w HwIdle [] (False, False)" by blast
  have "\<exists>s. ?R s \<and> hz_at s (Some 7) (None, HOut) (Some 7, HSet 0 (Some 7)) w HwIdle [] (False, False)" by (rule hz_go [OF a(1) hz_step.h_set [of a 1 0 "Some 7"]]) (use a(2) in \<open>auto simp: hz_at_def kCellsPerReader_def resting_def numeral_eq_Suc\<close>)
  then obtain a where a: "?R a" "hz_at a (Some 7) (None, HOut) (Some 7, HSet 0 (Some 7)) w HwIdle [] (False, False)" by blast
  have "\<exists>s. ?R s \<and> hz_at s (Some 7) (None, HOut) (Some 7, HHeld 7) w HwIdle [] (False, False)" by (rule hz_go [OF a(1) hz_step.h_valid [of a 1 0 "Some 7"]]) (use a(2) in \<open>auto simp: hz_at_def kCellsPerReader_def resting_def numeral_eq_Suc\<close>)
  then show ?thesis .
qed

theorem protected_pointer_is_not_freed_witness:
  "\<exists>s. reach hz_step (hz_init 4 src7) s \<and> hr_rd s 1 = HHeld 7 \<and> 7 \<notin> hr_freed s"
proof -
  obtain s where s: "reach hz_step (hz_init 4 src7) s" "\<not> hr_mixed s" "\<not> hr_late s" "hr_rd s 1 = HHeld 7"
    using hz_run_protect [OF hz_run_start] by (auto simp: hz_at_def)
  then have "held (hr_rd s 1) = Some 7" by simp
  then show ?thesis using protected_pointer_is_not_freed [OF s(1-3)] s(1,4) by blast
qed

text \<open>The orphan sweep frees a protected object: there is a run in which a scan reads the cells, a reader then publishes and
  validates a pointer, the object is unlinked and retired to the orphan store, and the scan, going on to the orphan store
  with the cells it read before, frees the object while the reader holds it.\<close>

theorem orphan_sweep_frees_a_protected_object:
  "\<exists>s. reach hz_step (hz_init 4 src7) s \<and> \<not> hr_mixed s \<and> hr_rd s 1 = HHeld 7 \<and> 7 \<in> hr_freed s"
proof -
  let ?R = "reach hz_step (hz_init 4 src7)"
  have "\<exists>s. ?R s \<and> hz_at s (Some 7) (None, HOut) (None, HOut) (HwIdle, []) HwIdle [] (False, False)" by (rule hz_run_start)
  then obtain a where a: "?R a" "hz_at a (Some 7) (None, HOut) (None, HOut) (HwIdle, []) HwIdle [] (False, False)" by blast
  have nos: "\<not> swapping (hr_rd a c)" for c by (cases "c = 1") (use a(2) in \<open>auto simp: hz_at_def\<close>)
  have "\<exists>s. ?R s \<and> hz_at s (Some 7) (None, HOut) (None, HOut) (HwScan 0 {}, []) HwIdle [] (False, False)" by (rule hz_go [OF a(1) hz_step.s_start [of a 0]]) (use a(2) nos in \<open>auto simp: hz_at_def kCellsPerReader_def resting_def numeral_eq_Suc\<close>)
  then obtain a where a: "?R a" "hz_at a (Some 7) (None, HOut) (None, HOut) (HwScan 0 {}, []) HwIdle [] (False, False)" by blast
  have "\<exists>s. ?R s \<and> hz_at s (Some 7) (None, HOut) (None, HOut) (HwScan 1 {}, []) HwIdle [] (False, False)" by (rule hz_go [OF a(1) hz_step.s_cell [of a 0 0 "{}"]]) (use a(2) in \<open>auto simp: hz_at_def kCellsPerReader_def resting_def numeral_eq_Suc\<close>)
  then obtain a where a: "?R a" "hz_at a (Some 7) (None, HOut) (None, HOut) (HwScan 1 {}, []) HwIdle [] (False, False)" by blast
  have "\<exists>s. ?R s \<and> hz_at s (Some 7) (None, HOut) (None, HOut) (HwScan 2 {}, []) HwIdle [] (False, False)" by (rule hz_go [OF a(1) hz_step.s_cell [of a 0 1 "{}"]]) (use a(2) in \<open>auto simp: hz_at_def kCellsPerReader_def resting_def numeral_eq_Suc\<close>)
  then obtain a where a: "?R a" "hz_at a (Some 7) (None, HOut) (None, HOut) (HwScan 2 {}, []) HwIdle [] (False, False)" by blast
  have "\<exists>s. ?R s \<and> hz_at s (Some 7) (None, HOut) (None, HOut) (HwScan 3 {}, []) HwIdle [] (False, False)" by (rule hz_go [OF a(1) hz_step.s_cell [of a 0 2 "{}"]]) (use a(2) in \<open>auto simp: hz_at_def kCellsPerReader_def resting_def numeral_eq_Suc\<close>)
  then obtain a where a: "?R a" "hz_at a (Some 7) (None, HOut) (None, HOut) (HwScan 3 {}, []) HwIdle [] (False, False)" by blast
  have "\<exists>s. ?R s \<and> hz_at s (Some 7) (None, HOut) (None, HOut) (HwScan 4 {}, []) HwIdle [] (False, False)" by (rule hz_go [OF a(1) hz_step.s_cell [of a 0 3 "{}"]]) (use a(2) in \<open>auto simp: hz_at_def kCellsPerReader_def resting_def numeral_eq_Suc\<close>)
  then obtain a where a: "?R a" "hz_at a (Some 7) (None, HOut) (None, HOut) (HwScan 4 {}, []) HwIdle [] (False, False)" by blast
  have "\<exists>s. ?R s \<and> hz_at s (Some 7) (None, HOut) (None, HOut) (HwFree {}, []) HwIdle [] (False, False)" by (rule hz_go [OF a(1) hz_step.s_done [of a 0 4 "{}"]]) (use a(2) in \<open>auto simp: hz_at_def kCellsPerReader_def resting_def numeral_eq_Suc\<close>)
  then have "\<exists>s. ?R s \<and> hz_at s (Some 7) (None, HOut) (Some 7, HHeld 7) (HwFree {}, []) HwIdle [] (False, False)" by (rule hz_run_protect)
  then obtain a where a: "?R a" "hz_at a (Some 7) (None, HOut) (Some 7, HHeld 7) (HwFree {}, []) HwIdle [] (False, False)" by blast
  have "\<exists>s. ?R s \<and> hz_at s None (None, HOut) (Some 7, HHeld 7) (HwFree {}, []) (HwUnlinked 7) [] (False, False)" by (rule hz_go [OF a(1) hz_step.w_unlink [of a 1 0 7 None]]) (use a(2) in \<open>auto simp: hz_at_def kCellsPerReader_def resting_def numeral_eq_Suc\<close>)
  then obtain a where a: "?R a" "hz_at a None (None, HOut) (Some 7, HHeld 7) (HwFree {}, []) (HwUnlinked 7) [] (False, False)" by blast
  have "\<exists>s. ?R s \<and> hz_at s None (None, HOut) (Some 7, HHeld 7) (HwFree {}, []) HwIdle [7] (False, False)" by (rule hz_go [OF a(1) hz_step.w_orphan [of a 1 7]]) (use a(2) in \<open>auto simp: hz_at_def kCellsPerReader_def resting_def numeral_eq_Suc\<close>)
  then obtain a where a: "?R a" "hz_at a None (None, HOut) (Some 7, HHeld 7) (HwFree {}, []) HwIdle [7] (False, False)" by blast
  let ?b = "a\<lparr>hr_orphans := filter (\<lambda>y. y \<noteq> 7) (hr_orphans a), hr_freed := insert 7 (hr_freed a), hr_late := (hr_late a \<or> 7 \<notin> hr_seen a 0)\<rparr>"
  have "hz_step a ?b" by (rule hz_step.s_sweep [of a 0 "{}" 7]) (use a(2) in \<open>simp_all add: hz_at_def\<close>)
  then have "?R ?b" by (rule reach.reach_step [OF a(1)])
  then show ?thesis using a(2) by (intro exI [of _ ?b]) (simp add: hz_at_def)
qed

text \<open>A swap hides a protected object: a scan has read the first cell when the reader, which holds the object in the second,
  swaps the two; the scan then finds the second cell empty and frees the object from its own retire list.\<close>

theorem swap_hides_a_protected_object:
  "\<exists>s. reach hz_step (hz_init 4 src7) s \<and> \<not> hr_late s \<and> hr_rd s 0 = HHeld 7 \<and> 7 \<in> hr_freed s"
proof -
  let ?R = "reach hz_step (hz_init 4 src7)"
  have "\<exists>s. ?R s \<and> hz_at s (Some 7) (None, HOut) (Some 7, HHeld 7) (HwIdle, []) HwIdle [] (False, False)" by (rule hz_run_protect [OF hz_run_start])
  then obtain a where a: "?R a" "hz_at a (Some 7) (None, HOut) (Some 7, HHeld 7) (HwIdle, []) HwIdle [] (False, False)" by blast
  have "\<exists>s. ?R s \<and> hz_at s None (None, HOut) (Some 7, HHeld 7) (HwUnlinked 7, []) HwIdle [] (False, False)" by (rule hz_go [OF a(1) hz_step.w_unlink [of a 0 0 7 None]]) (use a(2) in \<open>auto simp: hz_at_def kCellsPerReader_def resting_def numeral_eq_Suc\<close>)
  then obtain a where a: "?R a" "hz_at a None (None, HOut) (Some 7, HHeld 7) (HwUnlinked 7, []) HwIdle [] (False, False)" by blast
  have "\<exists>s. ?R s \<and> hz_at s None (None, HOut) (Some 7, HHeld 7) (HwIdle, [7]) HwIdle [] (False, False)" by (rule hz_go [OF a(1) hz_step.w_retire [of a 0 7]]) (use a(2) in \<open>auto simp: hz_at_def kCellsPerReader_def resting_def numeral_eq_Suc\<close>)
  then obtain a where a: "?R a" "hz_at a None (None, HOut) (Some 7, HHeld 7) (HwIdle, [7]) HwIdle [] (False, False)" by blast
  have nos: "\<not> swapping (hr_rd a c)" for c by (cases "c = 1") (use a(2) in \<open>auto simp: hz_at_def\<close>)
  have "\<exists>s. ?R s \<and> hz_at s None (None, HOut) (Some 7, HHeld 7) (HwScan 0 {}, [7]) HwIdle [] (False, False)" by (rule hz_go [OF a(1) hz_step.s_start [of a 0]]) (use a(2) nos in \<open>auto simp: hz_at_def kCellsPerReader_def resting_def numeral_eq_Suc\<close>)
  then obtain a where a: "?R a" "hz_at a None (None, HOut) (Some 7, HHeld 7) (HwScan 0 {}, [7]) HwIdle [] (False, False)" by blast
  have "\<exists>s. ?R s \<and> hz_at s None (None, HOut) (Some 7, HHeld 7) (HwScan 1 {}, [7]) HwIdle [] (False, False)" by (rule hz_go [OF a(1) hz_step.s_cell [of a 0 0 "{}"]]) (use a(2) in \<open>auto simp: hz_at_def kCellsPerReader_def resting_def numeral_eq_Suc\<close>)
  then obtain a where a: "?R a" "hz_at a None (None, HOut) (Some 7, HHeld 7) (HwScan 1 {}, [7]) HwIdle [] (False, False)" by blast
  have sc: "\<exists>t. scanning (hr_wk a t)" using a(2) by (intro exI [of _ 0]) (simp add: hz_at_def)
  have "\<exists>s. ?R s \<and> hz_at s None (Some 7, HHeld 7) (Some 7, HSwap None None) (HwScan 1 {}, [7]) HwIdle [] (True, False)" by (rule hz_go [OF a(1) hz_step.h_swap_a [of 0 a 1]]) (use a(2) sc in \<open>simp_all add: hz_at_def kCellsPerReader_def\<close>)
  then obtain a where a: "?R a" "hz_at a None (Some 7, HHeld 7) (Some 7, HSwap None None) (HwScan 1 {}, [7]) HwIdle [] (True, False)" by blast
  have "\<exists>s. ?R s \<and> hz_at s None (Some 7, HHeld 7) (None, HOut) (HwScan 1 {}, [7]) HwIdle [] (True, False)" by (rule hz_go [OF a(1) hz_step.h_swap_b [of a 1 None None]]) (use a(2) in \<open>auto simp: hz_at_def kCellsPerReader_def resting_def numeral_eq_Suc\<close>)
  then obtain a where a: "?R a" "hz_at a None (Some 7, HHeld 7) (None, HOut) (HwScan 1 {}, [7]) HwIdle [] (True, False)" by blast
  have "\<exists>s. ?R s \<and> hz_at s None (Some 7, HHeld 7) (None, HOut) (HwScan 2 {}, [7]) HwIdle [] (True, False)" by (rule hz_go [OF a(1) hz_step.s_cell [of a 0 1 "{}"]]) (use a(2) in \<open>auto simp: hz_at_def kCellsPerReader_def resting_def numeral_eq_Suc\<close>)
  then obtain a where a: "?R a" "hz_at a None (Some 7, HHeld 7) (None, HOut) (HwScan 2 {}, [7]) HwIdle [] (True, False)" by blast
  have "\<exists>s. ?R s \<and> hz_at s None (Some 7, HHeld 7) (None, HOut) (HwScan 3 {}, [7]) HwIdle [] (True, False)" by (rule hz_go [OF a(1) hz_step.s_cell [of a 0 2 "{}"]]) (use a(2) in \<open>auto simp: hz_at_def kCellsPerReader_def resting_def numeral_eq_Suc\<close>)
  then obtain a where a: "?R a" "hz_at a None (Some 7, HHeld 7) (None, HOut) (HwScan 3 {}, [7]) HwIdle [] (True, False)" by blast
  have "\<exists>s. ?R s \<and> hz_at s None (Some 7, HHeld 7) (None, HOut) (HwScan 4 {}, [7]) HwIdle [] (True, False)" by (rule hz_go [OF a(1) hz_step.s_cell [of a 0 3 "{}"]]) (use a(2) in \<open>auto simp: hz_at_def kCellsPerReader_def resting_def numeral_eq_Suc\<close>)
  then obtain a where a: "?R a" "hz_at a None (Some 7, HHeld 7) (None, HOut) (HwScan 4 {}, [7]) HwIdle [] (True, False)" by blast
  have "\<exists>s. ?R s \<and> hz_at s None (Some 7, HHeld 7) (None, HOut) (HwFree {}, [7]) HwIdle [] (True, False)" by (rule hz_go [OF a(1) hz_step.s_done [of a 0 4 "{}"]]) (use a(2) in \<open>auto simp: hz_at_def kCellsPerReader_def resting_def numeral_eq_Suc\<close>)
  then obtain a where a: "?R a" "hz_at a None (Some 7, HHeld 7) (None, HOut) (HwFree {}, [7]) HwIdle [] (True, False)" by blast
  let ?b = "a\<lparr>hr_bag := (hr_bag a)(0 := filter (\<lambda>y. y \<noteq> 7) (hr_bag a 0)), hr_freed := insert 7 (hr_freed a)\<rparr>"
  have "hz_step a ?b" by (rule hz_step.s_free [of a 0 "{}" 7]) (use a(2) in \<open>simp_all add: hz_at_def\<close>)
  then have "?R ?b" by (rule reach.reach_step [OF a(1)])
  then show ?thesis using a(2) by (intro exI [of _ ?b]) (simp add: hz_at_def)
qed

end
