(* ===== verification/Reclaimers.thy ===== *)
theory Reclaimers
  imports Epochs Hazards
begin

text \<open>
  The reclamation gate (\<^verbatim>\<open>src/Reclaimer.cpp\<close>), which composes the epoch manager and the hazard domain on one thread (\<open>workers\<close> is the pool's size once it is known): advance the epoch,
  reclaim the thread's bag, scan the hazard cells, and hand over what is still protected when the thread goes idle.
\<close>

record Reclaim =
  rc_em :: EpochManager
  rc_hz :: HazardDomain
  rc_inGate :: "nat \<Rightarrow> bool"

definition GatePending :: "nat \<Rightarrow> Reclaim \<Rightarrow> bool" where
  "GatePending t r \<longleftrightarrow> (\<not> epochBagDead (rc_em r) t \<and> epochBag (rc_em r) t \<noteq> []) \<or> hz_retire (rc_hz r) t \<noteq> []"

definition OrphansPending :: "Reclaim \<Rightarrow> bool" where
  "OrphansPending r \<longleftrightarrow> epochOrphans (rc_em r) \<noteq> [] \<or> hz_orphans (rc_hz r) \<noteq> []"

definition Gate :: "nat option \<Rightarrow> (nat \<Rightarrow> EpochRetired list) \<Rightarrow> nat \<Rightarrow> bool \<Rightarrow> bool \<Rightarrow> Reclaim \<Rightarrow> Reclaim" where
  "Gate workers del t idle orphans r =
    (if rc_inGate r t \<or> epochBagDead (rc_em r) t then r
     else
      (let em1 = TryReclaim del t orphans (AdvanceEpoch (rc_em r));
           hz1 = hz_Scan workers t orphans (rc_hz r);
           em2 = (if idle then (OrphanEpochEntries (epochBag em1 t) em1)\<lparr>epochBag := (epochBag em1)(t := [])\<rparr> else em1);
           hz2 = (if idle then HandOffPending t hz1 else hz1);
           em3 = em2\<lparr>bagLimit := (bagLimit em2)(t := length (epochBag em2 t) + kPublishAt)\<rparr> in
       r\<lparr>rc_em := em3, rc_hz := hz2\<rparr>))"

definition rc_Flush :: "nat option \<Rightarrow> (nat \<Rightarrow> EpochRetired list) \<Rightarrow> nat \<Rightarrow> Reclaim \<Rightarrow> Reclaim" where
  "rc_Flush workers del t r = Gate workers del t False False r"

fun Drain :: "nat option \<Rightarrow> (nat \<Rightarrow> EpochRetired list) \<Rightarrow> nat \<Rightarrow> nat \<Rightarrow> Reclaim \<Rightarrow> bool \<times> Reclaim" where
  "Drain workers del t 0 r = (False, r)"
| "Drain workers del t (Suc k) r =
    (let r1 = Gate workers del t False True r in
     if \<not> GatePending t r1 \<and> \<not> OrphansPending r1 then (True, r1) else Drain workers del t k r1)"

text \<open>With nothing pinned and nothing named, one gate empties the thread's bags and the orphan stores.\<close>

lemma min_epoch_unpinned: "\<forall>p \<in> set ps. te ! p = None \<Longrightarrow> min_epoch te ps e = e"
  by (induction ps arbitrary: e) auto

lemma TryReclaim_empties:
  assumes "\<forall>w \<in> set (epochBag m t @ epochOrphans m). er_epoch w < MinActiveEpoch m" "\<forall>x. del x = []"
  shows "epochBag (TryReclaim del t True m) t = [] \<and> epochOrphans (TryReclaim del t True m) = []"
proof -
  have d: "concat (map (\<lambda>w. del (er_ptr w)) ws) = []" for ws :: "EpochRetired list" using assms(2) by (induction ws) auto
  have "filter (\<lambda>w. \<not> er_epoch w < MinActiveEpoch m) (epochBag m t) = []" "filter (\<lambda>w. \<not> er_epoch w < MinActiveEpoch m) (epochOrphans m) = []"
    using assms(1) by (auto simp: filter_empty_conv)
  then show ?thesis by (auto simp: TryReclaim_def SweepEpochOrphans_def reclaim_loop_spec d Let_def)
qed

lemma EnsureTable_made: "hz_cells d \<noteq> None \<or> workers \<noteq> None \<Longrightarrow> hz_cells (EnsureTable workers d) \<noteq> None"
  by (auto simp: EnsureTable_def)

lemma EnsureTable_named: "named d = {} \<Longrightarrow> named (EnsureTable workers d) = {}"
  by (auto simp: EnsureTable_def named_def split: option.splits dest: in_set_takeD)

lemma hz_Scan_empties:
  assumes "named d = {}" "hz_cells d \<noteq> None \<or> workers \<noteq> None"
  shows "hz_retire (hz_Scan workers t True d) t = [] \<and> hz_orphans (hz_Scan workers t True d) = []"
  using EnsureTable_named [OF assms(1), of workers] EnsureTable_made [OF assms(2)] by (auto simp: hz_Scan_def Let_def)

text \<open>(C34) Teardown terminates with the caller's retired objects freed: outside a gate and with the thread's bag alive, when no
  participating slot is pinned, no hazard cell names anything, the hazard table is made or the number of workers is known, every
  entry of the caller's bag and of the epoch orphans carries an epoch the manager has reached, and deleters retire nothing more,
  \<open>Drain\<close> with at least one pass returns true, with the calling thread's two bags and both orphan stores empty. The bags
  of other threads are theirs to drain.\<close>

theorem drain_frees_everything_unprotected:
  assumes "\<not> rc_inGate r t" "\<not> epochBagDead (rc_em r) t" "0 < passes"
    and pins: "\<forall>p \<in> set (participants (rc_em r)). threadEpochs (rc_em r) ! p = None"
    and epochs: "\<forall>w \<in> set (epochBag (rc_em r) t @ epochOrphans (rc_em r)). er_epoch w \<le> globalEpoch (rc_em r)"
    and cells: "named (rc_hz r) = {}" "hz_cells (rc_hz r) \<noteq> None \<or> workers \<noteq> None" and "\<forall>x. del x = []"
  shows "fst (Drain workers del t passes r) \<and> \<not> GatePending t (snd (Drain workers del t passes r)) \<and> \<not> OrphansPending (snd (Drain workers del t passes r))"
proof -
  obtain k where k: "passes = Suc k" using assms(3) by (cases passes) auto
  let ?m = "AdvanceEpoch (rc_em r)"
  have "MinActiveEpoch ?m = globalEpoch (rc_em r) + 1"
    using min_epoch_unpinned pins by (simp add: MinActiveEpoch_def AdvanceEpoch_def)
  then have "\<forall>w \<in> set (epochBag ?m t @ epochOrphans ?m). er_epoch w < MinActiveEpoch ?m" using epochs by (auto simp: AdvanceEpoch_def less_Suc_eq_le)
  then have e: "epochBag (TryReclaim del t True ?m) t = []" "epochOrphans (TryReclaim del t True ?m) = []"
    using TryReclaim_empties [OF _ assms(8)] by blast+
  have h: "hz_retire (hz_Scan workers t True (rc_hz r)) t = []" "hz_orphans (hz_Scan workers t True (rc_hz r)) = []" using hz_Scan_empties [OF cells] by blast+
  have "\<not> GatePending t (Gate workers del t False True r)" "\<not> OrphansPending (Gate workers del t False True r)"
    using e h assms(1,2) by (simp_all add: GatePending_def OrphansPending_def Gate_def Let_def)
  then show ?thesis unfolding k by (simp add: Let_def)
qed

definition rc_demo :: Reclaim where
  "rc_demo = \<lparr>rc_em = em_demo\<lparr>threadEpochs := [None, None]\<rparr>,
     rc_hz = \<lparr>hz_cells = Some [None, None, None, None], externalOwners = [], hz_workerCount = 1, hz_readerCount = 1, hz_retire = (\<lambda>t. if t = 0 then [90] else []),
       hz_retireDead = (\<lambda>_. False), hz_orphans = [], hz_orphanTotal = 0, hz_depth = (\<lambda>_. 0), hz_freed = []\<rparr>,
     rc_inGate = (\<lambda>_. False)\<rparr>"

theorem drain_frees_everything_unprotected_witness:
  "fst (Drain (Some 1) (\<lambda>_. []) 0 1 rc_demo)"
proof -
  have "\<not> rc_inGate rc_demo 0" "\<not> epochBagDead (rc_em rc_demo) 0" "0 < (1::nat)"
    "\<forall>p \<in> set (participants (rc_em rc_demo)). threadEpochs (rc_em rc_demo) ! p = None"
    "\<forall>w \<in> set (epochBag (rc_em rc_demo) 0 @ epochOrphans (rc_em rc_demo)). er_epoch w \<le> globalEpoch (rc_em rc_demo)"
    "named (rc_hz rc_demo) = {}" "hz_cells (rc_hz rc_demo) \<noteq> None \<or> Some (1::nat) \<noteq> None" "\<forall>x. (\<lambda>_. []) x = ([] :: EpochRetired list)"
    by (simp_all add: rc_demo_def em_demo_def named_def kCellsPerReader_def)
  from drain_frees_everything_unprotected [OF this] show ?thesis by blast
qed

end
