(* ===== verification/Spec2Isabelle.thy ===== *)
theory Spec2Isabelle
  imports CancelTokens DagFinish EdgeArenas FiberRuns FiberPools Futures TaskLocals IoRings IoStreams MainWaits Coroutines PoolStarts ParkedWorkers ParallelRanges FindPasses SchedPrimitives TimerOnTime TaskDequeRace TaskMPSC TaskAllocators Events WaitGroups Reclaimers
begin

text \<open>
  A verification library of the JLib task scheduler: a C++ library (the directories \<^verbatim>\<open>include/\<close> and \<^verbatim>\<open>src/\<close> of the repository) that runs small tasks, fibers and coroutines on a pool
  of worker threads, with the primitives tasks wait on, task graphs, timers, asynchronous I/O and the memory management under all of them. File names in the
  theories are relative to the repository's root.

  \<^bold>\<open>The parts and how they meet.\<close> A task is pushed (\<open>Placements\<close>) to a worker's inbox (\<open>TaskMPSC\<close>), its deque (\<open>TaskDeques\<close>), the shared injector or
  main's queue. A worker looks for a task pass by pass (\<open>FindPasses\<close>), by the steal tables the start of the pool made (\<open>PoolStarts\<close>, \<open>L3Groups\<close>,
  \<open>Topologies\<close>), and sleeps when it finds none (\<open>WorkerParks\<close>). A task that may suspend runs on a fiber (\<open>FiberPools\<close>, \<open>FiberRuns\<close>) or is a coroutine
  (\<open>Coroutines\<close>). It suspends on a mutex, a semaphore or a condition variable (\<open>SchedPrimitives\<close> over \<open>WaitLists\<close>), an event (\<open>Events\<close>), a wait group
  (\<open>WaitGroups\<close>; main's wait in \<open>MainWaits\<close>), a future (\<open>Futures\<close>), a timer (\<open>TimerWheel\<close>) or an I/O request (\<open>IoRequests\<close>); each of them resumes it
  through the placement calls. Cancellation (\<open>CancelTokens\<close>) reaches all of them through a token. Tasks come from slabs (\<open>SlabPools\<close>, \<open>TaskAllocators\<close>);
  objects that other threads may still read are freed through epochs or hazard pointers (\<open>Epochs\<close>, \<open>Hazards\<close>, \<open>Reclaimers\<close>).

  \<^bold>\<open>The theories.\<close> Each opens with what it models; a definition has the name of the C++ function or type where that name is free in HOL, with a prefix otherwise
  (\<open>mq_pop\<close> for \<open>TaskMPSCQueue::pop\<close>).
  \<^item> \<open>JPrelude\<close>: words and pointers, linked chains, \<open>reach\<close>, and the locale \<open>transition_system\<close> of inductive invariants, interpreted for every step relation.
  \<^item> \<open>TaskTypes\<close>: \<^verbatim>\<open>include/Task.h\<close>.
  \<^item> \<open>CancelTokens\<close>: \<^verbatim>\<open>include/CancelToken.h\<close>, \<^verbatim>\<open>src/CancelToken.cpp\<close>. Cancelling a scope reaches exactly the tokens within it, on the packed words.
  \<^item> \<open>WaitLists\<close>, \<open>SchedPrimitives\<close>: \<^verbatim>\<open>include/WaitList.h\<close> and the mutex, semaphore and condition variable of \<^verbatim>\<open>src/TaskScheduler.cpp\<close>. The queue on
    pointers is a list (locale \<open>fifo_waiters\<close>); the three waking loops share one contract (locale \<open>waking_loop\<close>): they end, wake cancelled waiters as such and
    deliver to the oldest live one; a semaphore never keeps a permit beside a waiter.
  \<^item> \<open>Events\<close>: \<^verbatim>\<open>include/Event.h\<close>, \<^verbatim>\<open>include/DirectEvent.h\<close>. \<open>WaitGroups\<close>: \<^verbatim>\<open>include/WaitGroup.h\<close>, \<^verbatim>\<open>src/WaitGroup.cpp\<close>; no lost wake, and when a group may be freed.
    \<open>MainWaits\<close>: \<open>OutOfPoolMainWait\<close>. \<open>Futures\<close>: \<^verbatim>\<open>include/Future.h\<close>, \<^verbatim>\<open>include/Ref.h\<close>; each waiter is woken once, the state is deleted with the last handle.
  \<^item> \<open>TaskDeques\<close>, \<open>TaskDequeRace\<close>: \<^verbatim>\<open>include/TaskDeque.h\<close>, run alone (a refinement to lists, locale \<open>work_deque\<close>) and owner against thieves: every task is taken once.
  \<^item> \<open>TaskMPSC\<close>: \<^verbatim>\<open>include/TaskMPSCQueue.h\<close>, run alone and producers against the consumer: first in, first out, nothing lost.
  \<^item> \<open>SlabPools\<close>, \<open>SlabOwnership\<close>, \<open>TaskAllocators\<close>: \<^verbatim>\<open>include/SlabPool.h\<close>, \<^verbatim>\<open>include/TaskAllocator.h\<close>; every slot has one holder.
  \<^item> \<open>Epochs\<close>, \<open>Hazards\<close>, \<open>Reclaimers\<close>: the files of these names; what a reader protects is not freed, and a drain frees everything else of its thread.
  \<^item> \<open>TaskDags\<close>, \<open>DagRuns\<close>, \<open>DagFinish\<close>, \<open>EdgeArenas\<close>: \<^verbatim>\<open>include/TaskNode.h\<close>, \<^verbatim>\<open>include/TaskDAG.h\<close>, \<^verbatim>\<open>src/TaskDAG.cpp\<close>. The data and the cycle check, the calls as frames that
    any number of threads execute access by access, the invariants of such runs (no node is left behind, none runs before its dependencies), and the arena of the edges.
  \<^item> \<open>FiberRuns\<close>, \<open>FiberPools\<close>: \<^verbatim>\<open>include/Fiber.h\<close>, \<^verbatim>\<open>src/GlobalFiberPool.cpp\<close> and their users in \<^verbatim>\<open>src/Thread.cpp\<close>; a fiber runs once at a time, a resume is not lost, every
    fiber is in one place, the stacks stay within the limit. \<open>Coroutines\<close>: \<^verbatim>\<open>include/Coroutine.h\<close>. \<open>TaskLocals\<close>: \<^verbatim>\<open>src/TaskLocal.cpp\<close>.
  \<^item> \<open>WorkerParks\<close>, \<open>ParkedWorkers\<close>: the hunt counter, the idle stack and the park path of \<^verbatim>\<open>src/TaskScheduler.cpp\<close> and \<^verbatim>\<open>src/Thread.cpp\<close>, and their proof.
  \<^item> \<open>Placements\<close>, \<open>FindPasses\<close>, \<open>PoolStarts\<close>, \<open>ParallelRanges\<close>: pushes, batches, resumes and requeues; \<open>Thread::Worker\<close>'s search (every source of tasks meets
    the locale \<open>find_source\<close>: it loses none); the start of the pool; the parallel loops. \<open>L3Groups\<close> (locale \<open>l3_table\<close>) and \<open>Topologies\<close>
    (\<^verbatim>\<open>src/posix/Topology.cpp\<close>) are what these rest on.
  \<^item> \<open>TimerWheel\<close>, \<open>TimerOnTime\<close>: \<^verbatim>\<open>src/Timer.cpp\<close>; what is armed is fired, not early, and the next event is not late.
  \<^item> \<open>IoRings\<close>, \<open>IoRequests\<close>, \<open>IoStreams\<close>: \<^verbatim>\<open>src/posix/IoUring.cpp\<close>, \<^verbatim>\<open>src/posix/IoReactor.cpp\<close>, \<^verbatim>\<open>src/IoShared.cpp\<close>; the rings as queues, requests that finish once, partial
    sends, the order of a stream, the acceptor.

  \<^bold>\<open>How the models read.\<close> Code that runs under a lock, or by one thread on its own data, is a function on a record of its state; what it does to other components (a wake, a call of
  the caller's function) is recorded in a log. Code that races is an \<open>inductive\<close> step relation: a step is one atomic access, or one section under a lock, of one of any number of
  threads, with the thread's program point saying what is left of its call. Atomic accesses are sequentially consistent; the weaker orders of the source are not modelled. A
  compare-exchange loop whose failed attempts change nothing is its successful attempt. Errors, refusals and aborts are values. Integers are words where the code lets them wrap or packs
  fields (tokens, ring indices, the wait group's word, cursors, tick counters, bitmaps), and unbounded where the theory's text says so: \<open>top_\<close> and
  \<open>bottom_\<close> of the racing deque, epochs, the counters of a node and of an edge block, ticks and nanoseconds.

  \<^bold>\<open>Ghost fields and conditions.\<close> Some step relations carry fields the code does not have. Histories: what was pushed, taken, woken, handed out, and the stack of awaited frames
  (\<open>co_stack\<close>). Marks of what a run has done: \<open>fb_misused\<close> (a \<open>SwitchTo\<close> of a fiber that is queued or still on its stack), \<open>wr_reused\<close> and
  \<open>mw_reused\<close> (tasks added from zero while a wake is in progress), \<open>hr_mixed\<close> and \<open>hr_late\<close> (a \<open>Swap\<close> during a scan; a sweep of an entry orphaned after its scan began),
  \<open>iy_left\<close> and \<open>iy_cut\<close> (a failed submission left in the ring; a refused rest of a send), \<open>cy_late\<close> (such an entry completes). No step is withheld on account of a mark:
  the relations have these runs, a property says of which runs it speaks, and a lemma beside it shows a run with the mark on which it fails
  (\<open>switch_to_ready_runs_twice\<close>, \<open>switch_before_save_runs_twice\<close>, \<open>reuse_during_wake_loses_a_waiter\<close>, \<open>add_from_zero_can_strand_main\<close>,
  \<open>swap_hides_a_protected_object\<close>, \<open>orphan_sweep_frees_a_protected_object\<close>, \<open>failed_submission_is_taken_later\<close>, \<open>refused_rest_is_counted_twice\<close>,
  \<open>late_completion_sends_two_at_once\<close>). Likewise \<open>cursor_wraps_and_runs_twice\<close> and \<open>long_range_is_dropped\<close> are why the parallel loops ask for bounds, and
  \<open>inflight_periodic_skips_a_cascade\<close> why a step of the wheel has an exception.

  \<^bold>\<open>Termination.\<close> Loops are structural recursion, \<open>function\<close> with a measure, or, where they follow pointers or wait for others, \<open>partial_function (option)\<close>;
  for the last kind a lemma shows that a well-formed state gives a result. The only bounded walks are the code's own (eight parents of a token, 61 passes to the fairness tick,
  64 tasks of a batch).

  \<^bold>\<open>Code outside the repository's own.\<close> What it answers is an argument or a choice of the step: the third-party concurrent queue (which elements a removal returns, whether an
  insertion finds memory), the heap and the memory of the system, the clock (one reading per reading in the source), the kernel's side of the I/O rings, the files of the system, the
  callers' functions.

  \<^bold>\<open>Not modelled.\<close> The assembly of the context switch, the start and join of threads, \<open>Join\<close>'s shutdown sequence, main as a worker, the spinning waits of threads without
  a fiber, the Windows back ends, statistics and diagnostics, the templates that glue awaiters to requests, and the vendored queue and allocator: calls of the system, of code outside the
  repository, or compositions of operations that are modelled.
\<close>

end
